(* ===== verification/Prelude.thy ===== *)
theory Prelude
  imports Complex_Main "HOL-Library.AList" "HOL-Library.Multiset"
begin

text \<open>
  What every component shares: the collections of rewrite rules and invariant rules, JavaScript's
  insertion-ordered tables (a \<open>Map\<close> or the own properties of an object) as association lists
  with \<open>AList.update\<close> (in place, else appended) and \<open>AList.delete\<close>, runs of a step function
  over a list of events, and two contracts used across the program: a machine with an invariant and
  a bounded buffer that keeps the newest entries.
\<close>

named_theorems table_simps \<open>lookups in insertion-ordered tables\<close>
named_theorems machine_simps \<open>field equations of step functions\<close>

type_synonym 'v table = "(string \<times> 'v) list"

section \<open>Insertion-ordered tables\<close>

definition keys_of :: "('k \<times> 'v) list \<Rightarrow> 'k list" where
  "keys_of t = map fst t"

definition has_key :: "('k \<times> 'v) list \<Rightarrow> 'k \<Rightarrow> bool" where
  "has_key t k \<longleftrightarrow> k \<in> set (keys_of t)"

fun assign_all :: "('k \<times> 'v) list \<Rightarrow> ('k \<times> 'v) list \<Rightarrow> ('k \<times> 'v) list" where
  "assign_all t [] = t"
| "assign_all t ((k, v) # ps) = assign_all (AList.update k v t) ps"

lemma keys_of_simps: "keys_of [] = []" "keys_of (x # xs) = fst x # keys_of xs" "keys_of (xs @ ys) = keys_of xs @ keys_of ys"
    "keys_of (map (\<lambda>r. (r, b)) rs) = rs"
  by (simp_all add: keys_of_def comp_def)

lemma has_key_iff [table_simps]: "has_key t k \<longleftrightarrow> map_of t k \<noteq> None"
  by (simp add: has_key_def keys_of_def map_of_eq_None_iff)

lemma has_key_dom: "has_key t k \<longleftrightarrow> k \<in> dom (map_of t)"
  by (auto simp: has_key_iff)

lemma map_of_update [table_simps]: "map_of (AList.update k v t) = (map_of t)(k \<mapsto> v)"
  by (simp add: update_conv')

lemma map_of_delete [table_simps]: "map_of (AList.delete k t) = (map_of t)(k := None)"
  by (simp add: delete_conv')

lemma map_of_assign_all:
  "distinct (keys_of ps) \<Longrightarrow>
   map_of (assign_all t ps) k = (case map_of ps k of Some v \<Rightarrow> Some v | None \<Rightarrow> map_of t k)"
proof (induction t ps rule: assign_all.induct)
  case (2 t k' v ps)
  then have "map_of ps k' = None"
    by (simp add: keys_of_def map_of_eq_None_iff)
  with 2 show ?case
    by (auto simp: keys_of_def table_simps split: option.splits)
qed simp

lemma distinct_keys_update [simp]:
  "distinct (keys_of t) \<Longrightarrow> distinct (keys_of (AList.update k v t))"
  by (simp add: keys_of_def distinct_update)

lemma distinct_keys_delete [simp]:
  "distinct (keys_of t) \<Longrightarrow> distinct (keys_of (AList.delete k t))"
  by (simp add: keys_of_def distinct_delete)

lemma distinct_keys_filter: "distinct (keys_of ps) \<Longrightarrow> distinct (keys_of (filter P ps))"
  by (simp add: keys_of_def distinct_map_filter)

lemma distinct_keys_assign_all [simp]:
  "distinct (keys_of t) \<Longrightarrow> distinct (keys_of (assign_all t ps))"
  by (induction t ps rule: assign_all.induct) auto

lemma set_keys_update [simp]: "set (keys_of (AList.update k v t)) = insert k (set (keys_of t))"
  using dom_update [of k v t] by (simp add: keys_of_def)

lemma set_keys_delete [simp]: "set (keys_of (AList.delete k t)) = set (keys_of t) - {k}"
  by (auto simp: keys_of_def AList.delete_eq)

lemma update_fresh: "k \<notin> set (keys_of t) \<Longrightarrow> AList.update k v t = t @ [(k, v)]"
  by (induction t) (auto simp: keys_of_def)

lemma assign_all_fresh: "distinct (keys_of (t @ ps)) \<Longrightarrow> assign_all t ps = t @ ps"
proof (induction t ps rule: assign_all.induct)
  case (2 t k v ps)
  then have "AList.update k v t = t @ [(k, v)]"
    by (simp add: keys_of_def update_fresh)
  with 2 show ?case by (simp add: keys_of_def)
qed simp

lemma map_of_key_Some: "k \<in> set (keys_of t) \<Longrightarrow> \<exists>v. map_of t k = Some v"
  using has_key_iff [of t k] by (auto simp: has_key_def)

lemma length_delete_distinct:
  "distinct (keys_of t) \<Longrightarrow> k \<in> set (keys_of t) \<Longrightarrow> Suc (length (AList.delete k t)) = length t"
proof (induction t)
  case (Cons p t)
  show ?case
  proof (cases "fst p = k")
    case True
    with Cons.prems have "k \<notin> fst ` set t"
      by (simp add: keys_of_def)
    then have "AList.delete k t = t"
      by (simp add: delete_idem)
    with True show ?thesis
      by (cases p) simp
  next
    case False
    with Cons show ?thesis
      by (cases p) (auto simp: keys_of_def)
  qed
qed (simp add: keys_of_def)

section \<open>Counting after an update\<close>

lemma filter_update_count:
  "i < length xs \<Longrightarrow> length (filter P (xs[i := x])) + (if P (xs ! i) then 1 else 0)
     = length (filter P xs) + (if P x then 1 else 0)"
proof (induction xs arbitrary: i)
  case (Cons y ys)
  then show ?case by (cases i) auto
qed simp

lemma list_all_update: "list_all P xs \<Longrightarrow> P x \<Longrightarrow> list_all P (xs[i := x])"
  by (cases "i < length xs") (auto simp: list_all_length nth_list_update)

section \<open>Running a step function over a list of events\<close>

definition run :: "('s \<Rightarrow> 'e \<Rightarrow> 's) \<Rightarrow> 's \<Rightarrow> 'e list \<Rightarrow> 's" where
  "run step s es = foldl step s es"

lemma run_Nil [simp]: "run step s [] = s"
  and run_Cons [simp]: "run step s (e # es) = run step (step s e) es"
  and run_append [simp]: "run step s (es @ fs) = run step (run step s es) fs"
  by (simp_all add: run_def)

text \<open>
  The contract of a component whose operations keep an invariant: the client may use the invariant
  at every point of every history.
\<close>

locale machine =
  fixes step :: "'s \<Rightarrow> 'e \<Rightarrow> 's" and inv :: "'s \<Rightarrow> bool"
  assumes step_inv: "inv s \<Longrightarrow> inv (step s e)"
begin

lemma run_inv: "inv s \<Longrightarrow> inv (run step s es)"
  by (induction es arbitrary: s) (simp_all add: step_inv)

lemma run_prefix_inv: "inv s \<Longrightarrow> inv (run step s (take n es))"
  by (rule run_inv)

end

text \<open>The same contract with a start state, so that the histories are those of the program.\<close>

locale started_machine = machine +
  fixes start :: "'s"
  assumes start_inv: "inv start"
begin

lemma reachable_inv: "inv (run step start es)"
  by (rule run_inv [OF start_inv])

end

text \<open>The same contract for the events a client may send.\<close>

locale guarded_machine =
  fixes step :: "'s \<Rightarrow> 'e \<Rightarrow> 's" and inv :: "'s \<Rightarrow> bool" and ok :: "'e \<Rightarrow> bool"
  assumes step_inv: "inv s \<Longrightarrow> ok e \<Longrightarrow> inv (step s e)"
begin

lemma run_inv: "inv s \<Longrightarrow> list_all ok es \<Longrightarrow> inv (run step s es)"
  by (induction es arbitrary: s) (simp_all add: step_inv)

end

text \<open>The same contract where what a client may send depends on the state, as a caller's duties do.\<close>

fun obeys :: "('s \<Rightarrow> 'e \<Rightarrow> bool) \<Rightarrow> ('s \<Rightarrow> 'e \<Rightarrow> 's) \<Rightarrow> 's \<Rightarrow> 'e list \<Rightarrow> bool" where
  "obeys allowed step s [] = True"
| "obeys allowed step s (e # es) = (allowed s e \<and> obeys allowed step (step s e) es)"

locale client_machine =
  fixes step :: "'s \<Rightarrow> 'e \<Rightarrow> 's" and inv :: "'s \<Rightarrow> bool" and allowed :: "'s \<Rightarrow> 'e \<Rightarrow> bool"
  assumes step_inv: "inv s \<Longrightarrow> allowed s e \<Longrightarrow> inv (step s e)"
begin

lemma run_inv: "inv s \<Longrightarrow> obeys allowed step s es \<Longrightarrow> inv (run step s es)"
  by (induction es arbitrary: s) (simp_all add: step_inv)

end

text \<open>A step that may not return (an error, or a loop that never ends) is \<open>None\<close>, and so is the run.\<close>

fun run_opt :: "('s \<Rightarrow> 'e \<Rightarrow> 's option) \<Rightarrow> 's \<Rightarrow> 'e list \<Rightarrow> 's option" where
  "run_opt step s [] = Some s"
| "run_opt step s (e # es) = (case step s e of None \<Rightarrow> None | Some s' \<Rightarrow> run_opt step s' es)"

locale partial_machine =
  fixes step :: "'s \<Rightarrow> 'e \<Rightarrow> 's option" and inv :: "'s \<Rightarrow> bool"
  assumes step_inv: "inv s \<Longrightarrow> step s e = Some s' \<Longrightarrow> inv s'"
begin

lemma run_inv: "inv s \<Longrightarrow> run_opt step s es = Some s' \<Longrightarrow> inv s'"
  by (induction es arbitrary: s) (auto split: option.splits dest: step_inv)

end

section \<open>Fewer elements\<close>

lemma distinct_sub_mset: "mset xs \<subseteq># mset ys \<Longrightarrow> distinct ys \<Longrightarrow> distinct xs"
  unfolding distinct_count_atmost_1
  by (metis count_mset_0_iff le_zero_eq less_one mset_subset_eq_count nat_less_le not_gr_zero)

lemma sub_msetD:
  assumes "mset xs \<subseteq># mset ys"
  shows "set xs \<subseteq> set ys" and "distinct (map f ys) \<Longrightarrow> distinct (map f xs)"
  using set_mset_mono [OF assms] distinct_sub_mset [of "map f xs" "map f ys"] image_mset_subseteq_mono [OF assms, of f]
  by simp_all

lemma update_sub_mset:
  "(P (g (xs ! i)) \<Longrightarrow> P (xs ! i) \<and> f (g (xs ! i)) = f (xs ! i)) \<Longrightarrow>
   mset (map f (filter P (xs[i := g (xs ! i)]))) \<subseteq># mset (map f (filter P xs))"
proof (induction xs arbitrary: i)
  case (Cons x xs)
  then show ?case by (cases i) auto
qed simp

section \<open>Clients of a pool\<close>

text \<open>
  The contract of a client of the pool: what it was handed it has returned or still shows. Then a return
  is of a buffer it holds, as the pool demands of its callers.
\<close>

locale borrower = started_machine +
  fixes lent given kept :: "'a \<Rightarrow> 'c list"
  assumes inv_books: "inv s \<Longrightarrow> mset (lent s) = mset (given s) + mset (kept s)"
begin

lemma returned_once:
  assumes "distinct (lent (run step start es))"
  shows "distinct (given (run step start es)) \<and> set (given (run step start es)) \<inter> set (kept (run step start es)) = {}
    \<and> set (given (run step start es)) \<union> set (kept (run step start es)) = set (lent (run step start es))"
proof -
  let ?s = "run step start es"
  have m: "mset (given ?s @ kept ?s) = mset (lent ?s)" using inv_books [OF reachable_inv, of es] by simp
  then have "distinct (given ?s @ kept ?s)" using mset_eq_imp_distinct_iff [OF m] assms by simp
  moreover have "set (given ?s @ kept ?s) = set (lent ?s)" by (rule mset_eq_setD [OF m])
  ultimately show ?thesis by auto
qed

end

section \<open>Bounded buffers that keep the newest entries\<close>

text \<open>
  \<open>keep_last n xs\<close> is the newest \<open>n\<close> entries of a history \<open>xs\<close>, oldest first. A bounded
  buffer is a push operation and a reading of its contents such that a push appends and then keeps
  the newest \<open>cap\<close> entries.
\<close>

definition keep_last :: "nat \<Rightarrow> 'a list \<Rightarrow> 'a list" where
  "keep_last n xs = drop (length xs - n) xs"

lemma length_keep_last [simp]: "length (keep_last n xs) = min n (length xs)"
  by (auto simp: keep_last_def)

lemma keep_last_short: "length xs \<le> n \<Longrightarrow> keep_last n xs = xs"
  by (simp add: keep_last_def)

lemma keep_last_snoc:
  "0 < n \<Longrightarrow> keep_last n (keep_last n xs @ [x]) = keep_last n (xs @ [x])"
  by (cases "n \<le> length xs") (auto simp: keep_last_def Suc_diff_le)

lemma keep_last_nth: "i < min n (length xs) \<Longrightarrow> keep_last n xs ! i = xs ! (length xs - n + i)"
  by (auto simp: keep_last_def)

lemma set_keep_last: "set (keep_last n xs) \<subseteq> set xs"
  by (simp add: keep_last_def set_drop_subset)

lemma last_keep_last: "0 < n \<Longrightarrow> xs \<noteq> [] \<Longrightarrow> last (keep_last n xs) = last xs"
  unfolding keep_last_def by (rule last_drop) (simp add: Suc_le_eq)

locale bounded_buffer =
  fixes push :: "'a \<Rightarrow> 'b \<Rightarrow> 'b" and contents :: "'b \<Rightarrow> 'a list" and cap :: nat
    and ok :: "'b \<Rightarrow> bool"
  assumes cap_pos: "0 < cap"
    and push_ok: "ok b \<Longrightarrow> ok (push x b)"
    and contents_push: "ok b \<Longrightarrow> contents (push x b) = keep_last cap (contents b @ [x])"
    and contents_bound: "ok b \<Longrightarrow> length (contents b) \<le> cap"
begin

lemma fold_push_ok: "ok b \<Longrightarrow> ok (fold push xs b)"
  by (induction xs arbitrary: b) (simp_all add: push_ok)

lemma contents_fold:
  "ok b \<Longrightarrow> contents (fold push xs b) = keep_last cap (contents b @ xs)"
proof (induction xs rule: rev_induct)
  case Nil
  then show ?case by (simp add: keep_last_short contents_bound)
next
  case (snoc x xs)
  then have "contents (fold push (xs @ [x]) b) = keep_last cap (keep_last cap (contents b @ xs) @ [x])"
    by (simp add: contents_push fold_push_ok)
  then show ?case
    by (simp add: keep_last_snoc cap_pos)
qed

lemma size_bound: "ok b \<Longrightarrow> length (contents (fold push xs b)) \<le> cap"
  by (simp add: contents_bound fold_push_ok)

lemma newest_kept: "ok b \<Longrightarrow> xs \<noteq> [] \<Longrightarrow> last (contents (fold push xs b)) = last xs"
  using cap_pos by (simp add: contents_fold last_keep_last)

end

end
