(* ===== verification/JsValue.thy ===== *)
theory JsValue
  imports Prelude "HOL-Library.Word"
begin

text \<open>
  The JavaScript values a configuration document can carry, and the language operations the store
  code applies to them: \<open>typeof\<close>, \<open>Object.is\<close>, own enumerable entries, the \<open>in\<close> operator
  with the prototype chain, property reads, spreads and deletes. Values are trees: two values that
  are compared share no object reference (the store compares a live document with its
  \<open>structuredClone\<close>), so \<open>Object.is\<close> is false between two objects.
\<close>

section \<open>Numbers\<close>

text \<open>
  A JavaScript number: a finite double (its exact real value; rounding is not modelled), the
  negative zero that \<open>Object.is\<close> tells apart, the infinities and NaN.
\<close>

datatype jsnum = Fin real | NegZero | PosInf | NegInf | NaN

definition num_finite :: "jsnum \<Rightarrow> bool" where
  "num_finite n \<longleftrightarrow> (case n of Fin _ \<Rightarrow> True | NegZero \<Rightarrow> True | _ \<Rightarrow> False)"

section \<open>Values\<close>

datatype view_kind = Uint8Array | Uint8ClampedArray | Int8Array | Uint16Array | Int16Array
  | Uint32Array | Int32Array | Float32Array | Float64Array | BigInt64Array | BigUint64Array

type_synonym bytes = "8 word list"

text \<open>
  \<open>JDate\<close> holds the time value in ms (\<open>None\<close> for an Invalid Date), \<open>JBuf\<close> and \<open>JView\<close>
  the covered bytes, each with the expando properties assigned to the object; \<open>JProto k\<close> is the
  function that property \<open>k\<close> of \<open>Object.prototype\<close> reads as.
\<close>

datatype jsval = JUndef | JNull | JBool bool | JNum jsnum | JStr string | JBig int
  | JDate "int option" "jsval table" | JBuf bytes "jsval table" | JView view_kind bytes "jsval table"
  | JArr "jsval list" | JObj "jsval table" | JProto string

datatype js_type = TUndefined | TObject | TBoolean | TNumber | TString | TBigint | TFunction

fun js_typeof :: "jsval \<Rightarrow> js_type" where
  "js_typeof JUndef = TUndefined"
| "js_typeof (JBool _) = TBoolean"
| "js_typeof (JNum _) = TNumber"
| "js_typeof (JStr _) = TString"
| "js_typeof (JBig _) = TBigint"
| "js_typeof (JProto _) = TFunction"
| "js_typeof _ = TObject"

definition is_object :: "jsval \<Rightarrow> bool" where
  "is_object v \<longleftrightarrow> js_typeof v = TObject \<and> v \<noteq> JNull"

fun is_arr :: "jsval \<Rightarrow> bool" where
  "is_arr (JArr _) = True"
| "is_arr _ = False"

fun is_date :: "jsval \<Rightarrow> bool" where
  "is_date (JDate _ _) = True"
| "is_date _ = False"

fun is_view :: "jsval \<Rightarrow> bool" where
  "is_view (JView _ _ _) = True"
| "is_view _ = False"

definition object_is :: "jsval \<Rightarrow> jsval \<Rightarrow> bool" where
  "object_is a b \<longleftrightarrow> a = b \<and> \<not> is_object a"

section \<open>Reading the elements of a typed array\<close>

fun le_nat :: "bytes \<Rightarrow> nat" where
  "le_nat [] = 0"
| "le_nat (b # bs) = unat b + 256 * le_nat bs"

definition to_signed :: "nat \<Rightarrow> nat \<Rightarrow> int" where
  "to_signed w n = (if n < 2 ^ (w - 1) then int n else int n - 2 ^ w)"

text \<open>IEEE 754 binary interchange format with \<open>e\<close> exponent bits and \<open>m\<close> fraction bits.\<close>

definition ieee :: "nat \<Rightarrow> nat \<Rightarrow> nat \<Rightarrow> jsnum" where
  "ieee e m n =
     (let f = n mod 2 ^ m; x = n div 2 ^ m mod 2 ^ e; neg = n div 2 ^ (m + e) = 1;
          bias = 2 ^ (e - 1) - 1; sg = (\<lambda>r::real. if neg then - r else r)
      in if x = 2 ^ e - 1 then (if f = 0 then (if neg then NegInf else PosInf) else NaN)
         else if x = 0 then
           (if f = 0 then (if neg then NegZero else Fin 0) else Fin (sg (real f / 2 ^ (bias - 1 + m))))
         else Fin (sg (real (2 ^ m + f) * 2 ^ x / 2 ^ (bias + m))))"

fun view_width :: "view_kind \<Rightarrow> nat" where
  "view_width Uint8Array = 1"
| "view_width Uint8ClampedArray = 1"
| "view_width Int8Array = 1"
| "view_width Uint16Array = 2"
| "view_width Int16Array = 2"
| "view_width Uint32Array = 4"
| "view_width Int32Array = 4"
| "view_width Float32Array = 4"
| "view_width Float64Array = 8"
| "view_width BigInt64Array = 8"
| "view_width BigUint64Array = 8"

fun view_elem :: "view_kind \<Rightarrow> bytes \<Rightarrow> jsval" where
  "view_elem Int8Array bs = JNum (Fin (real_of_int (to_signed 8 (le_nat bs))))"
| "view_elem Int16Array bs = JNum (Fin (real_of_int (to_signed 16 (le_nat bs))))"
| "view_elem Int32Array bs = JNum (Fin (real_of_int (to_signed 32 (le_nat bs))))"
| "view_elem Float32Array bs = JNum (ieee 8 23 (le_nat bs))"
| "view_elem Float64Array bs = JNum (ieee 11 52 (le_nat bs))"
| "view_elem BigInt64Array bs = JBig (to_signed 64 (le_nat bs))"
| "view_elem BigUint64Array bs = JBig (int (le_nat bs))"
| "view_elem _ bs = JNum (Fin (real (le_nat bs)))"

fun chunks :: "nat \<Rightarrow> 'a list \<Rightarrow> 'a list list" where
  "chunks n xs = (if n = 0 \<or> xs = [] then [] else take n xs # chunks n (drop n xs))"

declare chunks.simps [simp del]

fun decimal :: "nat \<Rightarrow> string" where
  "decimal n = (if n < 10 then [char_of (48 + n)] else decimal (n div 10) @ [char_of (48 + n mod 10)])"

declare decimal.simps [simp del]

section \<open>Own entries, the \<open>in\<close> operator, reads\<close>

definition index_entries :: "jsval list \<Rightarrow> jsval table" where
  "index_entries vs = map (\<lambda>(i, v). (decimal i, v)) (enumerate 0 vs)"

text \<open>
  \<open>Object.keys\<close> with the values: indices first for arrays and typed arrays, then the expando
  properties; a string has its characters by index, any other primitive has none.
\<close>

fun own_entries :: "jsval \<Rightarrow> jsval table" where
  "own_entries (JObj ps) = ps"
| "own_entries (JDate _ ps) = ps"
| "own_entries (JBuf _ ps) = ps"
| "own_entries (JView k bs ps) = index_entries (map (view_elem k) (chunks (view_width k) bs)) @ ps"
| "own_entries (JArr vs) = index_entries vs"
| "own_entries (JStr s) = index_entries (map (\<lambda>c. JStr [c]) s)"
| "own_entries _ = []"

definition object_prototype_keys :: "string list" where
  "object_prototype_keys = [''constructor'', ''__defineGetter__'', ''__defineSetter__'',
     ''hasOwnProperty'', ''__lookupGetter__'', ''__lookupSetter__'', ''isPrototypeOf'',
     ''propertyIsEnumerable'', ''toString'', ''valueOf'', ''__proto__'', ''toLocaleString'']"

text \<open>
  \<open>k in v\<close> and \<open>v[k]\<close> for an object whose prototype chain ends in \<open>Object.prototype\<close>: an own
  property, else an inherited one.
\<close>

definition js_in :: "string \<Rightarrow> jsval \<Rightarrow> bool" where
  "js_in k v \<longleftrightarrow> has_key (own_entries v) k \<or> k \<in> set object_prototype_keys"

definition js_get :: "jsval \<Rightarrow> string \<Rightarrow> jsval" where
  "js_get v k = (case map_of (own_entries v) k of
      Some x \<Rightarrow> x
    | None \<Rightarrow> if k \<in> set object_prototype_keys then JProto k else JUndef)"

text \<open>
  Property writes on the object under construction. Assigning \<open>__proto__\<close> sets the prototype and
  adds no own property; the element slots of a typed array are not written (no diff does so).
\<close>

fun map_props :: "(jsval table \<Rightarrow> jsval table) \<Rightarrow> jsval \<Rightarrow> jsval" where
  "map_props f (JObj ps) = JObj (f ps)"
| "map_props f (JDate t ps) = JDate t (f ps)"
| "map_props f (JBuf bs ps) = JBuf bs (f ps)"
| "map_props f (JView k bs ps) = JView k bs (f ps)"
| "map_props f v = v"

definition set_prop :: "string \<Rightarrow> jsval \<Rightarrow> jsval \<Rightarrow> jsval" where
  "set_prop k x v = (if k = ''__proto__'' then v else map_props (AList.update k x) v)"

definition delete_prop :: "string \<Rightarrow> jsval \<Rightarrow> jsval" where
  "delete_prop k v = map_props (AList.delete k) v"

text \<open>\<open>Object.assign(target, source)\<close> for an object target.\<close>

definition object_assign :: "jsval \<Rightarrow> jsval \<Rightarrow> jsval" where
  "object_assign target source = foldl (\<lambda>t (k, v). set_prop k v t) target (own_entries source)"

definition plain_key :: "string \<Rightarrow> bool" where
  "plain_key k \<longleftrightarrow> k \<notin> set object_prototype_keys"

lemma set_prop_plain: "plain_key k \<Longrightarrow> set_prop k x v = map_props (AList.update k x) v"
  by (auto simp: set_prop_def plain_key_def object_prototype_keys_def)

text \<open>Every object of a document has distinct own keys, none of them inherited.\<close>

fun wf_js :: "jsval \<Rightarrow> bool" and wf_list :: "jsval list \<Rightarrow> bool"
  and wf_table :: "jsval table \<Rightarrow> bool" where
  "wf_js (JObj ps) = (distinct (keys_of ps) \<and> wf_table ps)"
| "wf_js (JDate _ ps) = (distinct (keys_of ps) \<and> wf_table ps)"
| "wf_js (JBuf _ ps) = (distinct (keys_of ps) \<and> wf_table ps)"
| "wf_js (JView _ _ ps) = (distinct (keys_of ps) \<and> wf_table ps)"
| "wf_js (JArr vs) = wf_list vs"
| "wf_js _ = True"
| "wf_list [] = True"
| "wf_list (v # vs) = (wf_js v \<and> wf_list vs)"
| "wf_table [] = True"
| "wf_table ((k, v) # ps) = (plain_key k \<and> wf_js v \<and> wf_table ps)"

lemma wf_table_iff: "wf_table ps \<longleftrightarrow> (\<forall>(k, v) \<in> set ps. plain_key k \<and> wf_js v)"
  by (induction ps) auto

lemma wf_list_iff: "wf_list vs \<longleftrightarrow> (\<forall>v \<in> set vs. wf_js v)"
  by (induction vs) auto

lemma wf_tableD: "wf_table ps \<Longrightarrow> map_of ps k = Some v \<Longrightarrow> plain_key k \<and> wf_js v"
  by (auto simp: wf_table_iff dest: map_of_SomeD)

lemma js_in_plain: "plain_key k \<Longrightarrow> js_in k (JObj ps) \<longleftrightarrow> map_of ps k \<noteq> None"
  by (simp add: js_in_def plain_key_def table_simps)

lemma js_get_Some: "map_of ps k = Some v \<Longrightarrow> js_get (JObj ps) k = v"
  by (simp add: js_get_def)

lemma le_nat_bound: "le_nat bs < 256 ^ length bs"
proof (induction bs)
  case (Cons b bs)
  have "unat b < 256"
    using unsigned_less [of b, where ?'a = nat] by simp
  with Cons show ?case by simp
qed simp

lemma to_signed_range:
  assumes "0 < w" and "n < 2 ^ w"
  shows "- (2 ^ (w - 1)) \<le> to_signed w n \<and> to_signed w n < 2 ^ (w - 1)"
proof -
  have two: "(2::int) ^ w = 2 * 2 ^ (w - 1)"
    using \<open>0 < w\<close> by (cases w) simp_all
  have le: "int n < 2 ^ w"
    using \<open>n < 2 ^ w\<close> by (metis of_nat_less_iff of_nat_numeral of_nat_power)
  have sub: "int n - 2 ^ w < 2 ^ (w - 1)"
    using le zero_less_power [of "2::int" "w - 1"] by linarith
  show ?thesis
  proof (cases "n < 2 ^ (w - 1)")
    case True
    then have "int n < 2 ^ (w - 1)"
      by (metis of_nat_less_iff of_nat_numeral of_nat_power)
    moreover have "- (2 ^ (w - 1)) \<le> int n"
      using zero_less_power [of "2::int" "w - 1"] by linarith
    ultimately show ?thesis using True by (simp add: to_signed_def)
  next
    case False
    then have "2 ^ (w - 1) \<le> int n"
      by (metis not_less of_nat_le_iff of_nat_numeral of_nat_power)
    then have "- (2 ^ (w - 1)) \<le> int n - 2 ^ w" unfolding two by linarith
    with False sub show ?thesis by (simp add: to_signed_def)
  qed
qed

lemma concat_chunks: "0 < n \<Longrightarrow> concat (chunks n xs) = xs"
  by (induction n xs rule: chunks.induct) (subst chunks.simps, auto)

lemma js_in_Obj: "js_in k (JObj ps) \<longleftrightarrow> map_of ps k \<noteq> None \<or> \<not> plain_key k"
  by (auto simp: js_in_def plain_key_def table_simps)

end
