(* ===== verification/Base64.thy ===== *)
theory Base64
  imports JsValue
begin

text \<open>
  Base64 as the store codec uses it (\<open>toBase64\<close> and \<open>fromBase64\<close> of
  \<open>app/lib/store-codec.ts\<close>, over the standard \<open>btoa\<close> and the forgiving \<open>atob\<close>), and the
  proof that decoding inverts encoding for every byte string.
\<close>

definition b64_alphabet :: string where
  "b64_alphabet = ''ABCDEFGHIJKLMNOPQRSTUVWXYZabcdefghijklmnopqrstuvwxyz0123456789+/''"

definition b64_char :: "nat \<Rightarrow> char" where
  "b64_char n = b64_alphabet ! n"

definition b64_val :: "char \<Rightarrow> nat option" where
  "b64_val c = map_of (zip b64_alphabet [0..<64]) c"

fun sextets :: "nat list \<Rightarrow> nat list" where
  "sextets (a # b # c # rest) =
     a div 4 # (a mod 4 * 16 + b div 16) # (b mod 16 * 4 + c div 64) # c mod 64 # sextets rest"
| "sextets [a, b] = [a div 4, a mod 4 * 16 + b div 16, b mod 16 * 4]"
| "sextets [a] = [a div 4, a mod 4 * 16]"
| "sextets [] = []"

fun from_sextets :: "nat list \<Rightarrow> nat list option" where
  "from_sextets (a # b # c # d # rest) =
     map_option (\<lambda>r. (a * 4 + b div 16) # (b mod 16 * 16 + c div 4) # (c mod 4 * 64 + d) # r)
       (from_sextets rest)"
| "from_sextets [a, b, c] = Some [a * 4 + b div 16, b mod 16 * 16 + c div 4]"
| "from_sextets [a, b] = Some [a * 4 + b div 16]"
| "from_sextets [a] = None"
| "from_sextets [] = Some []"

definition toBase64 :: "bytes \<Rightarrow> string" where
  "toBase64 bs = map b64_char (sextets (map unat bs))
     @ replicate ((3 - length bs mod 3) mod 3) (CHR ''='')"

definition b64_space :: "char \<Rightarrow> bool" where
  "b64_space c \<longleftrightarrow> of_char c \<in> {9::nat, 10, 12, 13, 32}"

text \<open>
  Up to two padding characters are dropped from an input whose length is a multiple of four.
\<close>

definition strip_padding :: "string \<Rightarrow> string" where
  "strip_padding s =
     (if length s mod 4 \<noteq> 0 then s
      else if length s \<ge> 2 \<and> drop (length s - 2) s = ''=='' then take (length s - 2) s
      else if length s \<ge> 1 \<and> drop (length s - 1) s = ''='' then take (length s - 1) s
      else s)"

definition fromBase64 :: "string \<Rightarrow> bytes option" where
  "fromBase64 s =
     (let t = strip_padding (filter (\<lambda>c. \<not> b64_space c) s)
      in if length t mod 4 = 1 \<or> \<not> list_all (\<lambda>c. b64_val c \<noteq> None) t then None
         else map_option (map word_of_nat) (from_sextets (map (\<lambda>c. the (b64_val c)) t)))"

section \<open>Decoding inverts encoding\<close>

lemma b64_table: "list_all (\<lambda>n. b64_val (b64_char n) = Some n \<and> \<not> b64_space (b64_char n)
    \<and> b64_char n \<noteq> CHR ''='') [0..<64]"
  by code_simp

lemma b64_char_props:
  assumes "n < 64"
  shows "b64_val (b64_char n) = Some n" and "\<not> b64_space (b64_char n)" and "b64_char n \<noteq> CHR ''=''"
  using b64_table assms by (auto simp: list_all_iff)

lemma sextets_bound: "\<forall>x \<in> set ns. x < 256 \<Longrightarrow> \<forall>x \<in> set (sextets ns). x < 64"
  by (induction ns rule: sextets.induct) auto

lemma div_bounds:
  "(b::nat) < 256 \<Longrightarrow> b div 16 < 16" "(b::nat) < 256 \<Longrightarrow> b div 64 < 4"
  by simp_all

lemma from_sextets_sextets: "\<forall>x \<in> set ns. x < 256 \<Longrightarrow> from_sextets (sextets ns) = Some ns"
  by (induction ns rule: sextets.induct) (simp_all add: div_bounds)

lemma sextets_sum3:
  "((n + 3) * 4 + 2) div 3 = ((n::nat) * 4 + 2) div 3 + 4"
proof -
  have "(n + 3) * 4 + 2 = n * 4 + 2 + 4 * 3" by simp
  moreover have "(n * 4 + 2 + 4 * 3) div 3 = 4 + (n * 4 + 2) div 3" by (rule div_mult_self1) simp
  ultimately show ?thesis by presburger
qed

lemma length_sextets: "length (sextets ns) = (length ns * 4 + 2) div 3"
proof (induction ns rule: sextets.induct)
  case (1 a b c rest)
  have "length (sextets (a # b # c # rest)) = length (sextets rest) + 4" by simp
  also have "\<dots> = ((length rest + 3) * 4 + 2) div 3" by (simp only: 1 sextets_sum3)
  also have "length rest + 3 = length (a # b # c # rest)" by simp
  finally show ?case .
qed simp_all

definition pad_count :: "nat \<Rightarrow> nat" where
  "pad_count n = (3 - n mod 3) mod 3"

lemma pad_cases: "pad_count n = 0 \<or> pad_count n = 1 \<or> pad_count n = 2"
  by (auto simp: pad_count_def)

lemma padded_length: "((n * 4 + 2) div 3 + pad_count n) mod 4 = 0"
proof -
  define q where "q = n div 3"
  have n: "n = 3 * q + n mod 3" by (simp add: q_def)
  have "n mod 3 = 0 \<or> n mod 3 = 1 \<or> n mod 3 = 2" by auto
  then show ?thesis
  proof (elim disjE)
    assume r: "n mod 3 = 0"
    with n have "(n * 4 + 2) div 3 = 4 * q" by simp
    with r show ?thesis by (simp add: pad_count_def)
  next
    assume r: "n mod 3 = 1"
    with n have "(n * 4 + 2) div 3 = 4 * q + 2" by simp
    with r show ?thesis by (simp add: pad_count_def)
  next
    assume r: "n mod 3 = 2"
    with n have "(n * 4 + 2) div 3 = 4 * q + 3" by simp
    with r show ?thesis by (simp add: pad_count_def)
  qed
qed

lemma strip_padding_append:
  assumes "\<forall>c \<in> set t. c \<noteq> CHR ''=''" and "p = 0 \<or> p = 1 \<or> p = 2"
    and "(length t + p) mod 4 = 0"
  shows "strip_padding (t @ replicate p (CHR ''='')) = t"
proof -
  have last: "drop (length t - 1) t \<noteq> ''=''" "drop (length t - 2) t \<noteq> ''==''" if "1 \<le> length t"
    using assms(1) set_drop_subset [of "length t - 1" t] set_drop_subset [of "length t - 2" t]
    by (metis in_mono list.set_intros(1))+
  have l1: "drop (length t - 1) (t @ ''='') \<noteq> ''==''" if "1 \<le> length t"
    using that assms(1) set_drop_subset [of "length t - 1" t]
    by (cases "drop (length t - 1) t") (auto simp: in_mono)
  from assms(2) show ?thesis
  proof (elim disjE)
    assume "p = 0"
    with assms(3) last show ?thesis by (auto simp: strip_padding_def)
  next
    assume "p = 1"
    with assms(3) l1 show ?thesis by (auto simp: strip_padding_def)
  next
    assume "p = 2"
    moreover from this have "replicate p (CHR ''='') = ''==''" by (simp add: numeral_2_eq_2)
    ultimately show ?thesis using assms(3) by (simp add: strip_padding_def)
  qed
qed

lemma unat_byte_bound: "\<forall>x \<in> set (map unat (bs :: bytes)). x < 256"
  using unsigned_less [where 'b = 8 and ?'a = nat] by auto

lemma base64_roundtrip_lemma: "fromBase64 (toBase64 bs) = Some bs"
proof -
  define t where "t = map b64_char (sextets (map unat bs))"
  have bound: "\<forall>x \<in> set (sextets (map unat bs)). x < 64"
    by (rule sextets_bound [OF unat_byte_bound])
  have chars: "\<forall>c \<in> set t. c \<noteq> CHR ''='' \<and> \<not> b64_space c \<and> b64_val c \<noteq> None"
    using bound by (auto simp: t_def b64_char_props)
  have len: "length t = (length bs * 4 + 2) div 3"
    by (simp add: t_def length_sextets)
  have enc: "toBase64 bs = t @ replicate (pad_count (length bs)) (CHR ''='')"
    by (simp add: toBase64_def t_def pad_count_def)
  have "\<not> b64_space (CHR ''='')" by (simp add: b64_space_def)
  then have "filter (\<lambda>c. \<not> b64_space c) (toBase64 bs) = toBase64 bs"
    using chars by (auto simp: enc filter_id_conv)
  moreover have "strip_padding (toBase64 bs) = t"
    unfolding enc by (rule strip_padding_append)
      (use chars pad_cases padded_length len in auto)
  moreover have "length t mod 4 \<noteq> 1"
    using padded_length [of "length bs"] pad_cases [of "length bs"] unfolding len by arith
  moreover have "map (\<lambda>c. the (b64_val c)) t = sextets (map unat bs)"
    using bound by (auto simp: t_def b64_char_props intro!: map_idI)
  ultimately show ?thesis
    using chars by (simp add: fromBase64_def from_sextets_sextets [OF unat_byte_bound]
        list_all_iff comp_def)
qed

end
