(* ===== verification/StoreCodec.thy ===== *)
theory StoreCodec
  imports Base64
begin

text \<open>
  The on-disk and wire codec of the configuration store (\<open>app/lib/store-codec.ts\<close>):
  \<open>replacer\<close> and \<open>reviver\<close> as \<open>JSON.stringify\<close> and \<open>JSON.parse\<close> apply them, over a tree of
  JSON values (the text layer of the standard library is not modelled). The main lemma is that every
  storable value survives the trip; two theorems show what does not: a \<open>Date\<close>, because
  \<open>stringify\<close> calls \<open>toJSON\<close> before the replacer, and an object whose \<open>type\<close> names a property
  of \<open>Object.prototype\<close>.
\<close>

datatype json = JsNull | JsBool bool | JsNum real | JsStr string | JsArr "json list"
  | JsObj "json table"

datatype js_error = TypeError | RangeError | SyntaxError | InvalidCharacterError

text \<open>
  The two conversions of the language that the model leaves open: \<open>ToString\<close> of a number or an
  object, and the time value of \<open>new Date(x)\<close>.
\<close>

record js_prims =
  to_string_of :: "jsval \<Rightarrow> string"
  date_of :: "jsval \<Rightarrow> int option"

definition to_str :: "js_prims \<Rightarrow> jsval \<Rightarrow> string" where
  "to_str P v = (case v of JStr s \<Rightarrow> s | JUndef \<Rightarrow> ''undefined'' | _ \<Rightarrow> to_string_of P v)"

section \<open>Strings for big integers and dates\<close>

definition int_str :: "int \<Rightarrow> string" where
  "int_str i = (if i < 0 then CHR ''-'' # decimal (nat (- i)) else decimal (nat i))"

fun digit_val :: "char \<Rightarrow> nat option" where
  "digit_val c = (let n = of_char c in
     if 48 \<le> n \<and> n \<le> 57 then Some (n - 48)
     else if 97 \<le> n \<and> n \<le> 122 then Some (n - 87)
     else if 65 \<le> n \<and> n \<le> 90 then Some (n - 55) else None)"

fun digits_val :: "nat \<Rightarrow> nat \<Rightarrow> string \<Rightarrow> nat option" where
  "digits_val base acc [] = Some acc"
| "digits_val base acc (c # cs) = (case digit_val c of
      Some d \<Rightarrow> if d < base then digits_val base (acc * base + d) cs else None
    | None \<Rightarrow> None)"

definition digits1 :: "nat \<Rightarrow> string \<Rightarrow> int option" where
  "digits1 base s = (if s = [] then None else map_option int (digits_val base 0 s))"

definition js_space :: "char \<Rightarrow> bool" where
  "js_space c \<longleftrightarrow> of_char c \<in> {9::nat, 10, 11, 12, 13, 32, 160}"

definition trim :: "string \<Rightarrow> string" where
  "trim s = rev (dropWhile js_space (rev (dropWhile js_space s)))"

text \<open>\<open>StringToBigInt\<close>: \<open>None\<close> where \<open>BigInt(s)\<close> throws a \<open>SyntaxError\<close>.\<close>

definition string_to_bigint :: "string \<Rightarrow> int option" where
  "string_to_bigint s = (let t = trim s in
     if t = [] then Some 0
     else if take 2 t = ''0x'' \<or> take 2 t = ''0X'' then digits1 16 (drop 2 t)
     else if take 2 t = ''0o'' \<or> take 2 t = ''0O'' then digits1 8 (drop 2 t)
     else if take 2 t = ''0b'' \<or> take 2 t = ''0B'' then digits1 2 (drop 2 t)
     else if hd t = CHR ''-'' then map_option uminus (digits1 10 (tl t))
     else if hd t = CHR ''+'' then digits1 10 (tl t)
     else digits1 10 t)"

definition to_bigint :: "js_prims \<Rightarrow> jsval \<Rightarrow> js_error + int" where
  "to_bigint P v = (case v of
      JUndef \<Rightarrow> Inl TypeError
    | JNull \<Rightarrow> Inl TypeError
    | JBool b \<Rightarrow> Inr (if b then 1 else 0)
    | JBig i \<Rightarrow> Inr i
    | JNum (Fin x) \<Rightarrow> if x \<in> \<int> then Inr \<lfloor>x\<rfloor> else Inl RangeError
    | JNum NegZero \<Rightarrow> Inr 0
    | JNum _ \<Rightarrow> Inl RangeError
    | JDate (Some t) _ \<Rightarrow> Inr t
    | JDate None _ \<Rightarrow> Inl RangeError
    | _ \<Rightarrow> (case string_to_bigint (to_str P v) of None \<Rightarrow> Inl SyntaxError | Some i \<Rightarrow> Inr i))"

definition pad :: "nat \<Rightarrow> nat \<Rightarrow> string" where
  "pad w n = replicate (w - length (decimal n)) (CHR ''0'') @ decimal n"

text \<open>\<open>Date.prototype.toISOString\<close>: the proleptic Gregorian calendar from a day count.\<close>

definition civil :: "int \<Rightarrow> int \<times> nat \<times> nat" where
  "civil days =
     (let z = days + 719468; era = z div 146097; doe = z mod 146097;
          yoe = (doe - doe div 1460 + doe div 36524 - doe div 146096) div 365;
          doy = doe - (365 * yoe + yoe div 4 - yoe div 100);
          mp = (5 * doy + 2) div 153;
          d = doy - (153 * mp + 2) div 5 + 1;
          m = (if mp < 10 then mp + 3 else mp - 9)
      in (yoe + era * 400 + (if m \<le> 2 then 1 else 0), nat m, nat d))"

definition iso_string :: "int \<Rightarrow> string" where
  "iso_string t =
     (let ms = nat (t mod 86400000); (y, m, d) = civil (t div 86400000);
          year = (if 0 \<le> y \<and> y \<le> 9999 then pad 4 (nat y)
                  else (if y < 0 then CHR ''-'' else CHR ''+'') # pad 6 (nat \<bar>y\<bar>))
      in year @ ''-'' @ pad 2 m @ ''-'' @ pad 2 d @ ''T'' @ pad 2 (ms div 3600000) @ '':''
         @ pad 2 (ms div 60000 mod 60) @ '':'' @ pad 2 (ms div 1000 mod 60) @ ''.''
         @ pad 3 (ms mod 1000) @ ''Z'')"

section \<open>The replacer and \<open>JSON.stringify\<close>\<close>

definition view_names :: "(string \<times> view_kind) list" where
  "view_names = [(''Uint8Array'', Uint8Array), (''Uint8ClampedArray'', Uint8ClampedArray),
     (''Int8Array'', Int8Array), (''Uint16Array'', Uint16Array), (''Int16Array'', Int16Array),
     (''Uint32Array'', Uint32Array), (''Int32Array'', Int32Array),
     (''Float32Array'', Float32Array), (''Float64Array'', Float64Array),
     (''BigInt64Array'', BigInt64Array), (''BigUint64Array'', BigUint64Array)]"

fun view_name :: "view_kind \<Rightarrow> string" where
  "view_name Uint8Array = ''Uint8Array''"
| "view_name Uint8ClampedArray = ''Uint8ClampedArray''"
| "view_name Int8Array = ''Int8Array''"
| "view_name Uint16Array = ''Uint16Array''"
| "view_name Int16Array = ''Int16Array''"
| "view_name Uint32Array = ''Uint32Array''"
| "view_name Int32Array = ''Int32Array''"
| "view_name Float32Array = ''Float32Array''"
| "view_name Float64Array = ''Float64Array''"
| "view_name BigInt64Array = ''BigInt64Array''"
| "view_name BigUint64Array = ''BigUint64Array''"

definition all_digits :: "string \<Rightarrow> bool" where
  "all_digits s \<longleftrightarrow> s \<noteq> [] \<and> list_all (\<lambda>c. 48 \<le> (of_char c :: nat) \<and> of_char c \<le> (57::nat)) s"

definition ownProperties :: "jsval table \<Rightarrow> jsval" where
  "ownProperties ps = (let qs = filter (\<lambda>(k, _). \<not> all_digits k) ps
     in if qs = [] then JUndef else JObj qs)"

text \<open>\<open>None\<close>: \<open>toISOString\<close> of an Invalid Date throws.\<close>

fun replacer :: "jsval \<Rightarrow> jsval option" where
  "replacer (JBig i) = Some (JObj [(''type'', JStr ''bigint''), (''value'', JStr (int_str i))])"
| "replacer (JDate (Some t) _) =
     Some (JObj [(''type'', JStr ''Date''), (''date'', JStr (iso_string t))])"
| "replacer (JDate None _) = None"
| "replacer (JBuf bs ps) = Some (JObj [(''type'', JStr ''ArrayBuffer''),
     (''buffer'', JStr (toBase64 bs)), (''props'', ownProperties ps)])"
| "replacer (JView kind bs ps) = Some (JObj [(''type'', JStr (view_name kind)),
     (''buffer'', JStr (toBase64 bs)), (''props'', ownProperties ps)])"
| "replacer v = Some v"

text \<open>What \<open>JSON.stringify\<close> does to a value before it calls the replacer.\<close>

fun toJSON :: "jsval \<Rightarrow> jsval" where
  "toJSON (JDate (Some t) _) = JStr (iso_string t)"
| "toJSON (JDate None _) = JNull"
| "toJSON v = v"

fun wt :: "jsval \<Rightarrow> nat" and wt_list :: "jsval list \<Rightarrow> nat" and wt_table :: "jsval table \<Rightarrow> nat" where
  "wt (JObj ps) = 1 + wt_table ps"
| "wt (JArr vs) = 1 + wt_list vs"
| "wt (JBuf _ ps) = 9 + wt_table ps"
| "wt (JView _ _ ps) = 9 + wt_table ps"
| "wt (JBig _) = 9"
| "wt (JDate _ ps) = 1 + wt_table ps"
| "wt _ = 1"
| "wt_list [] = 0"
| "wt_list (v # vs) = 1 + wt v + wt_list vs"
| "wt_table [] = 0"
| "wt_table ((k, v) # ps) = 1 + wt v + wt_table ps"

lemma wt_table_filter: "wt_table (filter P ps) \<le> wt_table ps"
  by (induction ps) (auto simp: le_SucI intro: le_trans [OF _ le_add2])

lemma wt_replaced:
  "replacer (toJSON v) = Some (JObj ps) \<Longrightarrow> wt_table ps < wt v"
  "replacer (toJSON v) = Some (JArr vs) \<Longrightarrow> wt_list vs < wt v"
proof -
  have le: "wt_table (filter Q qs) \<le> wt_table qs" for Q qs by (rule wt_table_filter)
  show "replacer (toJSON v) = Some (JObj ps) \<Longrightarrow> wt_table ps < wt v"
    by (cases v rule: toJSON.cases)
       (auto simp: ownProperties_def Let_def intro!: le_less_trans [OF le])
  show "replacer (toJSON v) = Some (JArr vs) \<Longrightarrow> wt_list vs < wt v"
    by (cases v rule: toJSON.cases) auto
qed

text \<open>
  \<open>JSON.stringify(value, replacer)\<close>: \<open>None\<close> is \<open>undefined\<close>, left out of an object and \<open>null\<close>
  in an array.
\<close>

function stringify :: "jsval \<Rightarrow> json option"
  and stringify_list :: "jsval list \<Rightarrow> json list"
  and stringify_table :: "jsval table \<Rightarrow> json table" where
  "stringify v = (case replacer (toJSON v) of
      None \<Rightarrow> None
    | Some r \<Rightarrow> (case r of
        JNull \<Rightarrow> Some JsNull
      | JBool b \<Rightarrow> Some (JsBool b)
      | JNum (Fin x) \<Rightarrow> Some (JsNum x)
      | JNum NegZero \<Rightarrow> Some (JsNum 0)
      | JNum _ \<Rightarrow> Some JsNull
      | JStr s \<Rightarrow> Some (JsStr s)
      | JArr vs \<Rightarrow> Some (JsArr (stringify_list vs))
      | JObj ps \<Rightarrow> Some (JsObj (stringify_table ps))
      | _ \<Rightarrow> None))"
| "stringify_list [] = []"
| "stringify_list (v # vs) =
     (case stringify v of None \<Rightarrow> JsNull | Some j \<Rightarrow> j) # stringify_list vs"
| "stringify_table [] = []"
| "stringify_table ((k, v) # ps) =
     (case stringify v of None \<Rightarrow> stringify_table ps | Some j \<Rightarrow> (k, j) # stringify_table ps)"
  by pat_completeness auto
termination
  by (relation "measure (\<lambda>x. case x of Inl v \<Rightarrow> wt v | Inr (Inl vs) \<Rightarrow> wt_list vs
        | Inr (Inr ps) \<Rightarrow> wt_table ps)")
     (auto dest: wt_replaced)

declare stringify.simps [simp del]

definition wireEncode :: "jsval \<Rightarrow> json option" where
  "wireEncode v = stringify (if v = JUndef then JNull else v)"

section \<open>The reviver and \<open>JSON.parse\<close>\<close>

definition decode_buffer :: "js_prims \<Rightarrow> jsval \<Rightarrow> (bytes \<Rightarrow> js_error + jsval) \<Rightarrow> js_error + jsval" where
  "decode_buffer P v k = (case fromBase64 (to_str P (js_get v ''buffer'')) of
      None \<Rightarrow> Inl InvalidCharacterError
    | Some bs \<Rightarrow> k bs)"

text \<open>
  The last test is \<open>type in TypedArrayConstructors\<close>, which also holds for the names inherited from
  \<open>Object.prototype\<close>: of these only \<open>constructor\<close> can be called with \<open>new\<close>, and
  \<open>new Object(buffer)\<close> is the buffer.
\<close>

definition reviver :: "js_prims \<Rightarrow> jsval \<Rightarrow> js_error + jsval" where
  "reviver P v =
     (if \<not> is_object v then Inr v
      else let ty = js_get v ''type'';
               props = (case js_get v ''props'' of JUndef \<Rightarrow> JObj [] | p \<Rightarrow> p)
           in if ty = JStr ''bigint'' then map_sum id JBig (to_bigint P (js_get v ''value''))
              else if ty = JStr ''Date'' then Inr (JDate (date_of P (js_get v ''date'')) [])
              else if ty = JStr ''ArrayBuffer'' then
                decode_buffer P v (\<lambda>bs. Inr (object_assign (JBuf bs []) props))
              else (case map_of view_names (to_str P ty) of
                  Some kind \<Rightarrow> decode_buffer P v (\<lambda>bs.
                    if length bs mod view_width kind \<noteq> 0 then Inl RangeError
                    else Inr (object_assign (JView kind bs []) props))
                | None \<Rightarrow>
                    if to_str P ty \<in> set object_prototype_keys then
                      decode_buffer P v (\<lambda>bs. if to_str P ty = ''constructor''
                        then Inr (object_assign (JBuf bs []) props) else Inl TypeError)
                    else Inr v))"

fun revive :: "js_prims \<Rightarrow> json \<Rightarrow> js_error + jsval"
  and revive_list :: "js_prims \<Rightarrow> json list \<Rightarrow> js_error + jsval list"
  and revive_table :: "js_prims \<Rightarrow> json table \<Rightarrow> js_error + jsval table" where
  "revive P JsNull = Inr JNull"
| "revive P (JsBool b) = Inr (JBool b)"
| "revive P (JsNum x) = Inr (JNum (Fin x))"
| "revive P (JsStr s) = Inr (JStr s)"
| "revive P (JsArr js) =
     (case revive_list P js of Inl e \<Rightarrow> Inl e | Inr vs \<Rightarrow> reviver P (JArr vs))"
| "revive P (JsObj ps) =
     (case revive_table P ps of Inl e \<Rightarrow> Inl e | Inr qs \<Rightarrow> reviver P (JObj qs))"
| "revive_list P [] = Inr []"
| "revive_list P (j # js) = (case revive P j of Inl e \<Rightarrow> Inl e
    | Inr v \<Rightarrow> map_sum id ((#) v) (revive_list P js))"
| "revive_table P [] = Inr []"
| "revive_table P ((k, j) # ps) = (case revive P j of Inl e \<Rightarrow> Inl e
    | Inr v \<Rightarrow> map_sum id ((#) (k, v)) (revive_table P ps))"

definition wireDecode :: "js_prims \<Rightarrow> json option \<Rightarrow> js_error + jsval" where
  "wireDecode P text = (case text of None \<Rightarrow> Inr JUndef | Some j \<Rightarrow> revive P j)"

section \<open>What survives the trip\<close>

definition reserved_types :: "string list" where
  "reserved_types = [''bigint'', ''Date'', ''ArrayBuffer''] @ map fst view_names
     @ object_prototype_keys"

definition not_reserved :: "jsval table \<Rightarrow> bool" where
  "not_reserved ps \<longleftrightarrow> (case map_of ps ''type'' of
      None \<Rightarrow> True | Some (JStr s) \<Rightarrow> s \<notin> set reserved_types | Some _ \<Rightarrow> False)"

text \<open>
  The values whose trip is the identity: finite numbers other than the negative zero, no
  \<open>undefined\<close>, no \<open>Date\<close>, whole elements in a typed array, no object that reads as an encoding.
\<close>

fun storable :: "jsval \<Rightarrow> bool" and storable_list :: "jsval list \<Rightarrow> bool"
  and storable_table :: "jsval table \<Rightarrow> bool" where
  "storable JNull = True"
| "storable (JBool _) = True"
| "storable (JStr _) = True"
| "storable (JBig _) = True"
| "storable (JNum n) = (case n of Fin _ \<Rightarrow> True | _ \<Rightarrow> False)"
| "storable (JArr vs) = storable_list vs"
| "storable (JObj ps) = (distinct (keys_of ps) \<and> not_reserved ps \<and> storable_table ps)"
| "storable (JBuf bs ps) = (distinct (keys_of ps) \<and> not_reserved ps \<and> storable_table ps
     \<and> list_all (\<lambda>(k, _). \<not> all_digits k) ps)"
| "storable (JView kind bs ps) = (length bs mod view_width kind = 0
     \<and> distinct (keys_of ps) \<and> not_reserved ps \<and> storable_table ps
     \<and> list_all (\<lambda>(k, _). \<not> all_digits k) ps)"
| "storable _ = False"
| "storable_list [] = True"
| "storable_list (v # vs) = (storable v \<and> storable_list vs)"
| "storable_table [] = True"
| "storable_table ((k, v) # ps) = (plain_key k \<and> storable v \<and> storable_table ps)"

lemma digit_val_decimal: "n < 10 \<Longrightarrow> digit_val (char_of (48 + n)) = Some n"
  by (simp add: Let_def)

lemma digits_val_append:
  "digits_val b acc (xs @ ys) = Option.bind (digits_val b acc xs) (\<lambda>a. digits_val b a ys)"
  by (induction b acc xs rule: digits_val.induct) (auto split: option.splits)

lemma digits_val_decimal: "digits_val 10 0 (decimal n) = Some n"
proof (induction n rule: decimal.induct)
  case (1 n)
  show ?case
  proof (cases "n < 10")
    case True
    then show ?thesis by (subst decimal.simps) (simp add: digit_val_decimal del: digit_val.simps)
  next
    case False
    with 1 have "digits_val 10 0 (decimal (n div 10)) = Some (n div 10)" by simp
    with False show ?thesis
      by (subst decimal.simps)
         (simp add: digits_val_append digit_val_decimal del: digit_val.simps)
  qed
qed

lemma decimal_inj: "decimal m = decimal n \<Longrightarrow> m = n"
  by (metis digits_val_decimal option.inject)

lemma decimal_not_Nil: "decimal n \<noteq> []"
  by (subst decimal.simps) simp

lemma decimal_chars: "c \<in> set (decimal n) \<Longrightarrow> 48 \<le> (of_char c :: nat) \<and> of_char c \<le> (57 :: nat)"
proof (induction n rule: decimal.induct)
  case (1 n)
  have "n mod 10 < 10" by simp
  then have "48 + n mod 10 < 58" by linarith
  with 1 show ?case by (cases "n < 10") (auto simp: decimal.simps [of n])
qed

lemma decimal_plain_chars:
  assumes "c \<in> set (decimal n)"
  shows "\<not> js_space c" and "c \<noteq> CHR ''-''" and "c \<noteq> CHR ''+''"
    and "c \<notin> set ''xXoObB''"
  using decimal_chars [OF assms] by (auto simp: js_space_def)

lemma dropWhile_none: "\<forall>x \<in> set xs. \<not> p x \<Longrightarrow> dropWhile p xs = xs"
  by (cases xs) auto

lemma trim_no_space: "\<forall>c \<in> set s. \<not> js_space c \<Longrightarrow> trim s = s"
  by (simp add: trim_def dropWhile_none)

lemma no_prefix:
  assumes "\<forall>c \<in> set s. c \<notin> set ''xXoObB''"
  shows "take 2 s \<notin> {''0x'', ''0X'', ''0o'', ''0O'', ''0b'', ''0B''}"
proof
  define p where "p = take 2 s"
  assume "take 2 s \<in> {''0x'', ''0X'', ''0o'', ''0O'', ''0b'', ''0B''}"
  then have "set p \<inter> set ''xXoObB'' \<noteq> {}" unfolding p_def [symmetric] by auto
  moreover have "set p \<subseteq> set s" unfolding p_def by (rule set_take_subset)
  ultimately show False using assms by blast
qed

lemma string_to_bigint_plain:
  assumes "\<forall>c \<in> set s. \<not> js_space c" and "\<forall>c \<in> set s. c \<notin> set ''xXoObB''" and "s \<noteq> []"
  shows "string_to_bigint s =
    (if hd s = CHR ''-'' then map_option uminus (digits1 10 (tl s))
     else if hd s = CHR ''+'' then digits1 10 (tl s) else digits1 10 s)"
  using no_prefix [OF assms(2)]
  by (simp only: string_to_bigint_def Let_def trim_no_space [OF assms(1)] assms(3) insert_iff
      empty_iff de_Morgan_disj if_False simp_thms)

lemma digits1_decimal: "digits1 10 (decimal n) = Some (int n)"
  by (simp add: digits1_def decimal_not_Nil digits_val_decimal)

lemma bigint_roundtrip: "string_to_bigint (int_str i) = Some i"
proof -
  have plain: "\<forall>c \<in> set (decimal n). \<not> js_space c" "\<forall>c \<in> set (decimal n). c \<notin> set ''xXoObB''" for n
    using decimal_plain_chars by blast+
  have minus: "\<not> js_space (CHR ''-'')" "CHR ''-'' \<notin> set ''xXoObB''"
    by (simp_all add: js_space_def)
  show ?thesis
  proof (cases "i < 0")
    case True
    then have str: "int_str i = CHR ''-'' # decimal (nat (- i))" by (simp add: int_str_def)
    have "string_to_bigint (int_str i) = map_option uminus (digits1 10 (decimal (nat (- i))))"
      unfolding str by (subst string_to_bigint_plain) (use plain minus in auto)
    with True show ?thesis by (simp add: digits1_decimal)
  next
    case False
    then have str: "int_str i = decimal (nat i)" by (simp add: int_str_def)
    have "hd (decimal (nat i)) \<noteq> CHR ''-''" "hd (decimal (nat i)) \<noteq> CHR ''+''"
      using hd_in_set [OF decimal_not_Nil [of "nat i"]] decimal_plain_chars(2,3) by blast+
    then have "string_to_bigint (int_str i) = digits1 10 (decimal (nat i))"
      unfolding str by (subst string_to_bigint_plain) (use plain decimal_not_Nil in auto)
    with False show ?thesis by (simp add: digits1_decimal)
  qed
qed

lemma view_name_lookup: "map_of view_names (view_name kind) = Some kind"
  by (cases kind) (simp_all add: view_names_def)

lemma view_name_other:
  "view_name kind \<noteq> ''bigint'' \<and> view_name kind \<noteq> ''Date'' \<and> view_name kind \<noteq> ''ArrayBuffer''"
  by (cases kind) simp_all

lemma storable_table_plain: "storable_table ps \<Longrightarrow> \<forall>(k, v) \<in> set ps. plain_key k"
  by (induction ps) auto

lemma foldl_map_props_buf:
  "\<forall>(k, v) \<in> set ps. plain_key k \<Longrightarrow>
   foldl (\<lambda>t (k, v). set_prop k v t) (JBuf bs qs) ps = JBuf bs (assign_all qs ps)"
  by (induction qs ps rule: assign_all.induct)
     (auto simp: set_prop_plain)

lemma foldl_map_props_view:
  "\<forall>(k, v) \<in> set ps. plain_key k \<Longrightarrow>
   foldl (\<lambda>t (k, v). set_prop k v t) (JView kind bs qs) ps = JView kind bs (assign_all qs ps)"
  by (induction qs ps rule: assign_all.induct)
     (auto simp: set_prop_plain)

lemma object_assign_buf:
  assumes "storable_table ps" and "distinct (keys_of ps)"
  shows "object_assign (JBuf bs []) (JObj ps) = JBuf bs ps"
  using foldl_map_props_buf [of ps bs "[]"] storable_table_plain [OF assms(1)] assms(2)
  by (simp add: object_assign_def assign_all_fresh)

lemma object_assign_view:
  assumes "storable_table ps" and "distinct (keys_of ps)"
  shows "object_assign (JView kind bs []) (JObj ps) = JView kind bs ps"
  using foldl_map_props_view [of ps kind bs "[]"] storable_table_plain [OF assms(1)] assms(2)
  by (simp add: object_assign_def assign_all_fresh)

lemma reviver_obj:
  assumes "not_reserved ps"
  shows "reviver P (JObj ps) = Inr (JObj ps)"
proof (cases "map_of ps ''type''")
  case None
  moreover have "''type'' \<notin> set object_prototype_keys" "''undefined'' \<notin> set object_prototype_keys"
    by (simp_all add: object_prototype_keys_def)
  ultimately show ?thesis
    by (simp add: reviver_def is_object_def js_get_def to_str_def view_names_def Let_def)
next
  case (Some t)
  with assms obtain s where s: "t = JStr s" and r: "s \<notin> set reserved_types"
    by (auto simp: not_reserved_def split: jsval.splits)
  from r have "map_of view_names s = None"
    by (simp add: reserved_types_def map_of_eq_None_iff)
  with Some s r show ?thesis
    by (simp add: reviver_def is_object_def js_get_def to_str_def Let_def reserved_types_def)
qed

lemma reviver_arr: "reviver P (JArr vs) = Inr (JArr vs)"
proof -
  have "map_of (index_entries vs) ''type'' = None"
  proof -
    have "''type'' \<noteq> decimal i" for i
    proof
      assume "''type'' = decimal i"
      then have "CHR ''t'' \<in> set (decimal i)" by (metis list.set_intros(1))
      then show False by (auto dest!: decimal_chars)
    qed
    then show ?thesis by (simp add: index_entries_def map_of_eq_None_iff image_iff split_beta)
  qed
  moreover have "''type'' \<notin> set object_prototype_keys" "''undefined'' \<notin> set object_prototype_keys"
    by (simp_all add: object_prototype_keys_def)
  ultimately show ?thesis
    by (simp add: reviver_def is_object_def js_get_def to_str_def view_names_def Let_def)
qed

lemma stringify_obj: "stringify (JObj ps) = Some (JsObj (stringify_table ps))"
  by (subst stringify.simps) simp

lemma ownProperties_storable:
  "list_all (\<lambda>(k, _). \<not> all_digits k) ps \<Longrightarrow> ownProperties ps = (if ps = [] then JUndef else JObj ps)"
  by (induction ps) (auto simp: ownProperties_def Let_def filter_id_conv list_all_iff)

lemma stringify_undef: "stringify JUndef = None"
  and stringify_str: "stringify (JStr s) = Some (JsStr s)"
  by (subst stringify.simps, simp)+

definition encoded :: "string \<Rightarrow> bytes \<Rightarrow> jsval table \<Rightarrow> jsval table" where
  "encoded nm bs ps = [(''type'', JStr nm), (''buffer'', JStr (toBase64 bs)),
     (''props'', ownProperties ps)]"

text \<open>The fields the reviver reads from a revived encoding.\<close>

definition reads_as :: "jsval table \<Rightarrow> string \<Rightarrow> bytes \<Rightarrow> jsval table \<Rightarrow> bool" where
  "reads_as qs nm bs ps \<longleftrightarrow> js_get (JObj qs) ''type'' = JStr nm
     \<and> js_get (JObj qs) ''buffer'' = JStr (toBase64 bs)
     \<and> (case js_get (JObj qs) ''props'' of JUndef \<Rightarrow> JObj [] | p \<Rightarrow> p) = JObj ps"

lemma plain_encoding_keys:
  "plain_key ''type'' \<and> plain_key ''buffer'' \<and> plain_key ''props'' \<and> plain_key ''value''"
  by (simp add: plain_key_def object_prototype_keys_def)

lemma encoded_buffer_table:
  assumes "list_all (\<lambda>(k, _). \<not> all_digits k) ps" and "storable (JObj ps)"
    and "storable_table (encoded nm bs ps) \<longrightarrow>
      revive_table P (stringify_table (encoded nm bs ps)) = Inr (encoded nm bs ps)"
  shows "\<exists>qs. revive_table P (stringify_table (encoded nm bs ps)) = Inr qs \<and> reads_as qs nm bs ps"
proof (cases "ps = []")
  case True
  have "''props'' \<notin> set object_prototype_keys" by (simp add: object_prototype_keys_def)
  with True show ?thesis
    by (simp add: encoded_def reads_as_def ownProperties_storable stringify_undef stringify_str
        js_get_def)
next
  case False
  with assms(1) have own: "ownProperties ps = JObj ps" by (simp add: ownProperties_storable)
  with assms(2) have "storable_table (encoded nm bs ps)"
    by (simp add: encoded_def plain_encoding_keys)
  with assms(3) have "revive_table P (stringify_table (encoded nm bs ps)) = Inr (encoded nm bs ps)"
    by simp
  moreover have "reads_as (encoded nm bs ps) nm bs ps"
    by (simp add: reads_as_def encoded_def own js_get_def)
  ultimately show ?thesis by blast
qed

lemma reviver_buf:
  assumes "reads_as qs ''ArrayBuffer'' bs ps" and "storable (JObj ps)"
  shows "reviver P (JObj qs) = Inr (JBuf bs ps)"
  using assms by (simp add: reads_as_def reviver_def is_object_def decode_buffer_def to_str_def
      base64_roundtrip_lemma object_assign_buf Let_def)

lemma reviver_view:
  assumes "reads_as qs (view_name kind) bs ps" and "storable (JObj ps)"
    and "length bs mod view_width kind = 0"
  shows "reviver P (JObj qs) = Inr (JView kind bs ps)"
  using assms view_name_other [of kind]
  by (simp add: reads_as_def reviver_def is_object_def decode_buffer_def to_str_def
      view_name_lookup base64_roundtrip_lemma object_assign_view Let_def)

lemma encoded_bigint:
  "reviver P (JObj [(''type'', JStr ''bigint''), (''value'', JStr (int_str i))]) = Inr (JBig i)"
  by (simp add: reviver_def is_object_def js_get_def Let_def to_bigint_def to_str_def
      bigint_roundtrip)

lemma stringify_replaced:
  "replacer (toJSON v) = Some (JObj ps) \<Longrightarrow> stringify v = Some (JsObj (stringify_table ps))"
  by (subst stringify.simps) simp

lemma encoded_trip:
  assumes "stringify v = Some (JsObj (stringify_table (encoded nm bs ps)))"
    and "list_all (\<lambda>(k, _). \<not> all_digits k) ps" and "storable (JObj ps)"
    and "storable_table (encoded nm bs ps) \<longrightarrow>
      revive_table P (stringify_table (encoded nm bs ps)) = Inr (encoded nm bs ps)"
    and "\<And>qs. reads_as qs nm bs ps \<Longrightarrow> reviver P (JObj qs) = Inr v"
  shows "\<exists>j. stringify v = Some j \<and> revive P j = Inr v"
  using encoded_buffer_table [OF assms(2-4)] assms(1,5) by auto

lemma roundtrip_all:
  "storable v \<longrightarrow> (\<exists>j. stringify v = Some j \<and> revive P j = Inr v)"
  "storable_list vs \<longrightarrow> revive_list P (stringify_list vs) = Inr vs"
  "storable_table ps \<longrightarrow> revive_table P (stringify_table ps) = Inr ps"
proof (induction v and vs and ps rule: stringify_stringify_list_stringify_table.induct)
  case (1 v)
  show ?case
  proof (cases v)
    case (JBuf bs ps)
    then have rep: "replacer (toJSON v) = Some (JObj (encoded ''ArrayBuffer'' bs ps))"
      by (simp add: encoded_def)
    show ?thesis
    proof
      assume "storable v"
      with JBuf show "\<exists>j. stringify v = Some j \<and> revive P j = Inr v"
        by (intro encoded_trip [OF stringify_replaced [OF rep] _ _ "1.IH"(2) [OF rep refl]])
           (simp_all add: reviver_buf)
    qed
  next
    case (JView kind bs ps)
    then have rep: "replacer (toJSON v) = Some (JObj (encoded (view_name kind) bs ps))"
      by (simp add: encoded_def)
    show ?thesis
    proof
      assume "storable v"
      with JView show "\<exists>j. stringify v = Some j \<and> revive P j = Inr v"
        by (intro encoded_trip [OF stringify_replaced [OF rep] _ _ "1.IH"(2) [OF rep refl]])
           (simp_all add: reviver_view)
    qed
  next
    case (JBig i)
    then have rep: "replacer (toJSON v)
        = Some (JObj [(''type'', JStr ''bigint''), (''value'', JStr (int_str i))])"
      by simp
    from JBig "1.IH"(2) [OF rep refl] show ?thesis
      by (simp add: stringify_replaced [OF rep, unfolded JBig] plain_encoding_keys encoded_bigint
          stringify_str)
  next
    case (JArr vs)
    then have rep: "replacer (toJSON v) = Some (JArr vs)" by simp
    from JArr "1.IH"(1) [OF rep refl] show ?thesis
      by (subst stringify.simps) (simp add: reviver_arr)
  next
    case (JObj ps)
    then have rep: "replacer (toJSON v) = Some (JObj ps)" by simp
    from JObj "1.IH"(2) [OF rep refl] show ?thesis
      by (subst stringify.simps) (simp add: reviver_obj)
  qed (auto simp: stringify.simps split: jsnum.splits)
next
  case (3 v vs)
  then show ?case by auto
next
  case (5 k v ps)
  then show ?case by auto
qed simp_all

section \<open>Properties\<close>

text \<open>
  Base64 is lossless: the decoder returns exactly the bytes the encoder was given.
\<close>

theorem base64_roundtrip: "fromBase64 (toBase64 bs) = Some bs"
  by (rule base64_roundtrip_lemma)

text \<open>
  C1. Every storable value survives the wire: encoding succeeds and decoding gives the value back,
  big integers, buffers, typed arrays and their expando properties included.
\<close>

theorem wire_roundtrip:
  assumes "storable v"
  shows "\<exists>j. wireEncode v = Some j \<and> wireDecode P (Some j) = Inr v"
proof -
  from assms have "v \<noteq> JUndef" by auto
  with roundtrip_all(1) [of v P] assms show ?thesis
    by (simp add: wireEncode_def wireDecode_def)
qed

theorem wire_roundtrip_witness:
  "\<exists>j. wireEncode (JObj [(''id'', JBig (-12)), (''mat'', JView Uint16Array [1, 2]
        [(''shape'', JArr [JNum (Fin 1), JNum (Fin 1)])])]) = Some j
    \<and> wireDecode \<lparr>to_string_of = (\<lambda>_. []), date_of = (\<lambda>_. None)\<rparr> (Some j)
      = Inr (JObj [(''id'', JBig (-12)), (''mat'', JView Uint16Array [1, 2]
        [(''shape'', JArr [JNum (Fin 1), JNum (Fin 1)])])])"
  by (rule wire_roundtrip)
     (simp add: keys_of_def not_reserved_def plain_key_def object_prototype_keys_def all_digits_def)

text \<open>
  A \<open>Date\<close> does not survive: \<open>stringify\<close> replaces it by its ISO string before the replacer
  sees it, and the string is revived as a string.
\<close>

theorem date_not_revived:
  "\<exists>j. wireEncode (JDate (Some t) ps) = Some j
     \<and> wireDecode P (Some j) = Inr (JStr (iso_string t))"
  by (simp add: wireEncode_def wireDecode_def) (subst stringify.simps, simp)

text \<open>
  An object whose own \<open>type\<close> is the name of a method inherited from \<open>Object.prototype\<close> is
  stored, and reading it back fails, whatever else it holds.
\<close>

theorem inherited_type_unreadable:
  assumes "k \<in> set object_prototype_keys" and "k \<noteq> ''constructor''"
  shows "wireEncode (JObj ((''type'', JStr k) # ps))
      = Some (JsObj ((''type'', JsStr k) # stringify_table ps))
    \<and> (\<exists>e. wireDecode P (Some (JsObj ((''type'', JsStr k) # js))) = Inl e)"
proof -
  have "list_all (\<lambda>k. map_of view_names k = None \<and> k \<noteq> ''bigint'' \<and> k \<noteq> ''Date''
      \<and> k \<noteq> ''ArrayBuffer'') object_prototype_keys"
    by code_simp
  with assms(1) have other: "map_of view_names k = None" "k \<noteq> ''bigint''" "k \<noteq> ''Date''"
    "k \<noteq> ''ArrayBuffer''"
    by (auto simp: list_all_iff)
  have err: "\<exists>e. reviver P (JObj ((''type'', JStr k) # qs)) = Inl e" for qs
  proof -
    have ty: "js_get (JObj ((''type'', JStr k) # qs)) ''type'' = JStr k"
      "is_object (JObj ((''type'', JStr k) # qs))" "to_str P (JStr k) = k"
      by (simp_all add: js_get_def is_object_def to_str_def)
    have "reviver P (JObj ((''type'', JStr k) # qs))
        = decode_buffer P (JObj ((''type'', JStr k) # qs)) (\<lambda>bs. Inl TypeError)"
      by (simp only: reviver_def ty Let_def jsval.inject other option.case assms simp_thms if_True
          if_False)
    then show ?thesis by (simp add: decode_buffer_def split: option.splits)
  qed
  show ?thesis
  proof (cases "revive_table P js")
    case (Inl e)
    then show ?thesis by (simp add: wireEncode_def wireDecode_def stringify_obj stringify_str)
  next
    case (Inr qs)
    with err [of qs] show ?thesis
      by (simp add: wireEncode_def wireDecode_def stringify_obj stringify_str)
  qed
qed

theorem inherited_type_unreadable_witness:
  "\<exists>e. wireDecode \<lparr>to_string_of = (\<lambda>_. []), date_of = (\<lambda>_. None)\<rparr>
     (Some (JsObj [(''type'', JsStr ''valueOf'')])) = Inl e"
  using inherited_type_unreadable [of "''valueOf''" "[]"
      "\<lparr>to_string_of = (\<lambda>_. []), date_of = (\<lambda>_. None)\<rparr>" "[]"]
  by (simp add: object_prototype_keys_def)

end
