(* ===== verification/StoreFs.thy ===== *)
theory StoreFs
  imports StoreCodec
begin

text \<open>
  The file primitives of the configuration store (\<open>app/orchestrator/store.ts\<close>) over a disk that
  maps a document path to a file: absent and unreadable files read as the caller's fallback, a write
  replaces the file atomically, and the contents are the codec's encoding. The locale states what
  the store authority relies on; it is interpreted on these primitives.
\<close>

text \<open>A file is blank, not parseable, or holds one JSON document.\<close>

datatype store_file = Blank | Corrupt | Doc json

type_synonym disk = "string \<Rightarrow> store_file option"

definition readFileAs :: "js_prims \<Rightarrow> store_file option \<Rightarrow> jsval \<Rightarrow> jsval" where
  "readFileAs P f fallback = (case f of
      None \<Rightarrow> fallback
    | Some Blank \<Rightarrow> fallback
    | Some Corrupt \<Rightarrow> fallback
    | Some (Doc j) \<Rightarrow> (case revive P j of Inl _ \<Rightarrow> fallback | Inr v \<Rightarrow> v))"

definition fs_read :: "js_prims \<Rightarrow> disk \<Rightarrow> string \<Rightarrow> jsval \<Rightarrow> jsval" where
  "fs_read P d path fallback = readFileAs P (d path) fallback"

text \<open>
  \<open>None\<close>: \<open>writeFile\<close> rejects the \<open>undefined\<close> that \<open>stringify\<close> returned; the temporary file is
  never renamed over the document.
\<close>

definition atomicWrite :: "disk \<Rightarrow> string \<Rightarrow> jsval \<Rightarrow> disk option" where
  "atomicWrite d path v = map_option (\<lambda>j. d(path \<mapsto> Doc j)) (stringify v)"

definition fs_update :: "js_prims \<Rightarrow> disk \<Rightarrow> string \<Rightarrow> jsval \<Rightarrow> disk option" where
  "fs_update P d path patch = atomicWrite d path
     (JObj (assign_all (assign_all [] (own_entries (fs_read P d path (JObj []))))
        (own_entries patch)))"

definition fs_clear :: "disk \<Rightarrow> string \<Rightarrow> disk" where
  "fs_clear d path = d(path := None)"

section \<open>The contract of a document backend\<close>

text \<open>
  \<open>present d k\<close> is the persisted document, if a read would find one; \<open>trip v\<close> is what a written
  \<open>v\<close> reads back as.
\<close>

locale doc_backend =
  fixes rd :: "'fs \<Rightarrow> string \<Rightarrow> jsval \<Rightarrow> jsval"
    and wr :: "'fs \<Rightarrow> string \<Rightarrow> jsval \<Rightarrow> 'fs option"
    and cl :: "'fs \<Rightarrow> string \<Rightarrow> 'fs"
    and present :: "'fs \<Rightarrow> string \<Rightarrow> jsval option"
    and trip :: "jsval \<Rightarrow> jsval option"
  assumes rd_present: "rd d k fb = (case present d k of None \<Rightarrow> fb | Some v \<Rightarrow> v)"
    and wr_present: "wr d k v = Some d' \<Longrightarrow> present d' k = trip v"
    and wr_other: "wr d k v = Some d' \<Longrightarrow> k' \<noteq> k \<Longrightarrow> present d' k' = present d k'"
    and cl_present: "present (cl d k) k = None"
    and cl_other: "k' \<noteq> k \<Longrightarrow> present (cl d k) k' = present d k'"
begin

lemma read_after_write:
  "wr d k v = Some d' \<Longrightarrow> trip v = Some w \<Longrightarrow> rd d' k fb = w"
  by (simp add: rd_present wr_present)

lemma read_after_clear: "rd (cl d k) k fb = fb"
  by (simp add: rd_present cl_present)

lemma read_other_write: "wr d k v = Some d' \<Longrightarrow> k' \<noteq> k \<Longrightarrow> rd d' k' fb = rd d k' fb"
  by (simp add: rd_present wr_other)

lemma read_other_clear: "k' \<noteq> k \<Longrightarrow> rd (cl d k) k' fb = rd d k' fb"
  by (simp add: rd_present cl_other)

end

definition fs_present :: "js_prims \<Rightarrow> disk \<Rightarrow> string \<Rightarrow> jsval option" where
  "fs_present P d path = (case d path of
      Some (Doc j) \<Rightarrow> (case revive P j of Inl _ \<Rightarrow> None | Inr v \<Rightarrow> Some v)
    | _ \<Rightarrow> None)"

definition codec_trip :: "js_prims \<Rightarrow> jsval \<Rightarrow> jsval option" where
  "codec_trip P v = (case stringify v of None \<Rightarrow> None
    | Some j \<Rightarrow> (case revive P j of Inl _ \<Rightarrow> None | Inr w \<Rightarrow> Some w))"

interpretation json_files: doc_backend "fs_read P" atomicWrite fs_clear "fs_present P" "codec_trip P"
  for P
  by unfold_locales
     (auto simp: fs_read_def readFileAs_def fs_present_def atomicWrite_def codec_trip_def
        fs_clear_def split: option.splits store_file.splits sum.splits)

lemma codec_trip_storable: "storable v \<Longrightarrow> codec_trip P v = Some v"
  using roundtrip_all(1) [of v P] by (auto simp: codec_trip_def)

section \<open>Properties\<close>

text \<open>
  A storable document that was written is what the next read returns, whatever fallback the
  reader passes and whatever the file held before; other documents read as before.
\<close>

theorem write_then_read:
  assumes "storable v" and "atomicWrite d k v = Some d'"
  shows "fs_read P d' k fb = v \<and> (\<forall>k'. k' \<noteq> k \<longrightarrow> fs_read P d' k' fb' = fs_read P d k' fb')"
  using json_files.read_after_write [OF assms(2) codec_trip_storable [OF assms(1)]]
    json_files.read_other_write [OF assms(2)] by blast

theorem write_then_read_witness:
  "\<exists>d'. atomicWrite (\<lambda>_. Some Corrupt) ''a'' (JBool True) = Some d'
     \<and> fs_read \<lparr>to_string_of = (\<lambda>_. []), date_of = (\<lambda>_. None)\<rparr> d' ''a'' JNull = JBool True"
proof -
  have w: "atomicWrite (\<lambda>_. Some Corrupt) ''a'' (JBool True)
      = Some ((\<lambda>_. Some Corrupt)(''a'' \<mapsto> Doc (JsBool True)))"
    by (simp add: atomicWrite_def stringify.simps)
  show ?thesis using w write_then_read [OF _ w] by simp
qed

end
