(* ===== verification/StorePatch.thy ===== *)
theory StorePatch
  imports JsValue
begin

text \<open>
  The diff and merge of configuration documents at top-level-key granularity
  (\<open>app/lib/store-patch.ts\<close>): structural equality, the ops that turn one document into another,
  their application, and the in-place reconciliation of a tracked object. The lemmas show that the
  equality is an equivalence on documents with valid dates, that applying a diff reaches the target,
  that a no-op edit has no patch, and that patches of disjoint keys commute; one theorem exhibits
  that the contents of an \<open>ArrayBuffer\<close> are not compared.
\<close>

datatype patch_op = OpSet string jsval | OpRemove string | OpReplace jsval

definition isPlainObject :: "jsval \<Rightarrow> bool" where
  "isPlainObject v \<longleftrightarrow> is_object v \<and> \<not> is_arr v"

definition getTime_eq :: "int option \<Rightarrow> int option \<Rightarrow> bool" where
  "getTime_eq s t \<longleftrightarrow> s \<noteq> None \<and> s = t"

lemma size_own_entries:
  "isPlainObject a \<Longrightarrow> \<not> is_view a \<Longrightarrow> size_list (size_prod (\<lambda>_. 0) size) (own_entries a) < size a"
  by (cases a) (auto simp: isPlainObject_def is_object_def)

function deepEqual :: "jsval \<Rightarrow> jsval \<Rightarrow> bool"
  and deepEqual_arr :: "jsval list \<Rightarrow> jsval list \<Rightarrow> bool"
  and deepEqual_keys :: "jsval table \<Rightarrow> jsval \<Rightarrow> bool" where
  "deepEqual a b =
    (if object_is a b then True
     else if js_typeof a \<noteq> js_typeof b then False
     else if is_date a \<or> is_date b then
       (case (a, b) of (JDate s _, JDate t _) \<Rightarrow> getTime_eq s t | _ \<Rightarrow> False)
     else if is_view a \<or> is_view b then
       (case (a, b) of (JView _ us _, JView _ vs _) \<Rightarrow> us = vs | _ \<Rightarrow> False)
     else if is_arr a \<or> is_arr b then
       (case (a, b) of (JArr xs, JArr ys) \<Rightarrow> length xs = length ys \<and> deepEqual_arr xs ys
        | _ \<Rightarrow> False)
     else if isPlainObject a \<and> isPlainObject b then
       length (own_entries a) = length (own_entries b) \<and> deepEqual_keys (own_entries a) b
     else False)"
| "deepEqual_arr (x # xs) (y # ys) = (deepEqual x y \<and> deepEqual_arr xs ys)"
| "deepEqual_arr [] ys = True"
| "deepEqual_arr (x # xs) [] = True"
| "deepEqual_keys [] b = True"
| "deepEqual_keys ((k, v) # ps) b =
     (js_in k b \<and> deepEqual v (js_get b k) \<and> deepEqual_keys ps b)"
  by pat_completeness auto
termination
  by (relation "measure (\<lambda>x. case x of Inl (a, b) \<Rightarrow> size a
        | Inr (Inl (xs, ys)) \<Rightarrow> size_list size xs
        | Inr (Inr (ps, b)) \<Rightarrow> size_list (size_prod (\<lambda>_. 0) size) ps)")
     (auto dest: size_own_entries)

declare deepEqual.simps [simp del]

definition diffKeys :: "jsval \<Rightarrow> jsval \<Rightarrow> patch_op list" where
  "diffKeys next prev =
     (if \<not> isPlainObject next \<or> \<not> isPlainObject prev then
        (if deepEqual next prev then [] else [OpReplace next])
      else
        map (\<lambda>(k, v). OpSet k v)
          (filter (\<lambda>(k, v). \<not> js_in k prev \<or> \<not> deepEqual v (js_get prev k)) (own_entries next))
        @ map (\<lambda>(k, v). OpRemove k) (filter (\<lambda>(k, v). \<not> js_in k next) (own_entries prev)))"

definition spread :: "jsval \<Rightarrow> jsval" where
  "spread v = JObj (assign_all [] (own_entries v))"

fun apply_ops_from :: "jsval \<Rightarrow> patch_op list \<Rightarrow> jsval" where
  "apply_ops_from base [] = base"
| "apply_ops_from base (OpReplace v # ops) = apply_ops_from v ops"
| "apply_ops_from base (OpRemove k # ops) =
     apply_ops_from (delete_prop k (if isPlainObject base then base else JObj [])) ops"
| "apply_ops_from base (OpSet k v # ops) =
     apply_ops_from (set_prop k v (if isPlainObject base then base else JObj [])) ops"

definition applyOps :: "jsval \<Rightarrow> patch_op list \<Rightarrow> jsval" where
  "applyOps current ops =
     apply_ops_from (if isPlainObject current then spread current else current) ops"

text \<open>
  \<open>replaceInPlace\<close> returns the reconciled contents of the target; \<open>None\<close> where the source
  throws (\<open>in\<close> on a primitive) or mixes an array with a non-array, which leaves a sparse array.
\<close>

definition replaceInPlace :: "jsval \<Rightarrow> jsval \<Rightarrow> jsval option" where
  "replaceInPlace target v = (case target of
      JArr _ \<Rightarrow> (case v of JArr vs \<Rightarrow> Some (JArr vs) | _ \<Rightarrow> None)
    | JObj ps \<Rightarrow>
        (if v = JUndef \<or> v = JNull then Some (JObj [])
         else if is_arr v then None
         else if \<not> is_object v \<and> ps \<noteq> [] then None
         else Some (JObj (assign_all (filter (\<lambda>(k, _). js_in k v) ps) (own_entries v))))
    | _ \<Rightarrow> None)"

section \<open>Structural equality is an equivalence\<close>

text \<open>Documents whose dates are all valid; an Invalid Date is not equal to itself.\<close>

fun dates_ok :: "jsval \<Rightarrow> bool" and dates_ok_list :: "jsval list \<Rightarrow> bool"
  and dates_ok_table :: "jsval table \<Rightarrow> bool" where
  "dates_ok (JDate t ps) = (t \<noteq> None)"
| "dates_ok (JObj ps) = dates_ok_table ps"
| "dates_ok (JBuf _ ps) = dates_ok_table ps"
| "dates_ok (JArr vs) = dates_ok_list vs"
| "dates_ok _ = True"
| "dates_ok_list [] = True"
| "dates_ok_list (v # vs) = (dates_ok v \<and> dates_ok_list vs)"
| "dates_ok_table [] = True"
| "dates_ok_table ((k, v) # ps) = (dates_ok v \<and> dates_ok_table ps)"

definition doc_ok :: "jsval \<Rightarrow> bool" where
  "doc_ok v \<longleftrightarrow> wf_js v \<and> dates_ok v"

lemma dates_ok_table_iff: "dates_ok_table ps \<longleftrightarrow> (\<forall>(k, v) \<in> set ps. dates_ok v)"
  by (induction ps) auto

lemma dates_ok_list_iff: "dates_ok_list vs \<longleftrightarrow> (\<forall>v \<in> set vs. dates_ok v)"
  by (induction vs) auto

text \<open>The two kinds of object that are compared by their entries.\<close>

fun plain_entries :: "jsval \<Rightarrow> jsval table option" where
  "plain_entries (JObj ps) = Some ps"
| "plain_entries (JBuf _ ps) = Some ps"
| "plain_entries _ = None"

lemma deepEqual_keys_iff:
  "deepEqual_keys ps b \<longleftrightarrow> (\<forall>(k, v) \<in> set ps. js_in k b \<and> deepEqual v (js_get b k))"
  by (induction ps) auto

lemma deepEqual_arr_iff:
  "length xs = length ys \<Longrightarrow> deepEqual_arr xs ys \<longleftrightarrow> list_all2 deepEqual xs ys"
  by (induction xs ys rule: list_induct2) auto

lemma plain_entriesD:
  assumes "plain_entries v = Some ps"
  shows "own_entries v = ps" and "isPlainObject v" and "\<not> is_date v" and "\<not> is_view v"
    and "\<not> is_arr v" and "js_typeof v = TObject" and "\<not> object_is v w" and "\<not> object_is w v"
    and "doc_ok v \<longleftrightarrow> distinct (keys_of ps) \<and> wf_table ps \<and> dates_ok_table ps"
  using assms
  by (cases v; auto simp: isPlainObject_def is_object_def object_is_def doc_ok_def)+

lemma deepEqual_plain:
  assumes "plain_entries a = Some ps" and "plain_entries b = Some qs"
    and "doc_ok a" and "doc_ok b"
  shows "deepEqual a b \<longleftrightarrow> length ps = length qs \<and>
    (\<forall>(k, v) \<in> set ps. \<exists>w. map_of qs k = Some w \<and> deepEqual v w)"
proof -
  note a = plain_entriesD [OF assms(1)] and b = plain_entriesD [OF assms(2)]
  have key: "js_in k b \<and> deepEqual v (js_get b k)
      \<longleftrightarrow> (\<exists>w. map_of qs k = Some w \<and> deepEqual v w)" if "(k, v) \<in> set ps" for k v
  proof -
    have "plain_key k"
      using that a(9) assms(3) by (auto simp: wf_table_iff)
    then show ?thesis
      by (auto simp: js_in_def js_get_def b(1) table_simps plain_key_def split: option.splits)
  qed
  have "deepEqual a b \<longleftrightarrow> length ps = length qs \<and> deepEqual_keys ps b"
    by (subst deepEqual.simps) (simp add: a b)
  also have "\<dots> \<longleftrightarrow> length ps = length qs \<and>
      (\<forall>(k, v) \<in> set ps. \<exists>w. map_of qs k = Some w \<and> deepEqual v w)"
    unfolding deepEqual_keys_iff using key by (intro conj_cong refl ball_cong) auto
  finally show ?thesis .
qed

lemma deepEqual_prim:
  "\<not> is_object a \<Longrightarrow> deepEqual a b \<longleftrightarrow> a = b"
  "\<not> is_object b \<Longrightarrow> deepEqual a b \<longleftrightarrow> a = b"
  by (subst deepEqual.simps; cases a; cases b; simp add: object_is_def is_object_def isPlainObject_def)+

lemma deepEqual_date: "deepEqual (JDate s ps) b \<longleftrightarrow> (\<exists>t qs. b = JDate t qs \<and> getTime_eq s t)"
  by (subst deepEqual.simps; cases b; simp add: object_is_def is_object_def)

lemma deepEqual_view: "deepEqual (JView k us ps) b \<longleftrightarrow> (\<exists>l qs. b = JView l us qs)"
  by (subst deepEqual.simps; cases b; auto simp add: object_is_def is_object_def)

lemma deepEqual_arr_val: "deepEqual (JArr xs) b \<longleftrightarrow> (\<exists>ys. b = JArr ys \<and> list_all2 deepEqual xs ys)"
proof (cases b)
  case (JArr ys)
  then show ?thesis
    by (subst deepEqual.simps)
       (auto simp: object_is_def is_object_def deepEqual_arr_iff list_all2_lengthD)
qed (subst deepEqual.simps; simp add: object_is_def is_object_def)+

lemma deepEqual_plain_val:
  assumes "plain_entries a = Some ps" and "doc_ok a" and "doc_ok b"
  shows "deepEqual a b \<longleftrightarrow> (\<exists>qs. plain_entries b = Some qs \<and> length ps = length qs \<and>
    (\<forall>(k, v) \<in> set ps. \<exists>w. map_of qs k = Some w \<and> deepEqual v w))"
proof (cases "plain_entries b")
  case None
  moreover from assms(1) have "is_object a"
    by (cases a) (auto simp: is_object_def)
  ultimately have "\<not> deepEqual a b"
    using plain_entriesD [OF assms(1)]
    by (subst deepEqual.simps; cases b; auto simp: isPlainObject_def is_object_def split: jsval.splits)
  with None show ?thesis by simp
next
  case (Some qs)
  with deepEqual_plain [OF assms(1) Some assms(2,3)] show ?thesis by simp
qed

lemma js_cases:
  obtains (prim) "\<not> is_object v"
  | (date) t ps where "v = JDate t ps"
  | (view) k bs ps where "v = JView k bs ps"
  | (arr) vs where "v = JArr vs"
  | (plain) ps where "plain_entries v = Some ps"
  by (cases v) (auto simp: is_object_def)

lemma doc_ok_arr [simp]: "doc_ok (JArr vs) \<longleftrightarrow> (\<forall>v \<in> set vs. doc_ok v)"
  by (auto simp: doc_ok_def wf_list_iff dates_ok_list_iff)

lemma doc_ok_entry:
  "plain_entries a = Some ps \<Longrightarrow> doc_ok a \<Longrightarrow> (k, v) \<in> set ps \<Longrightarrow> doc_ok v"
  by (drule plain_entriesD(9)) (auto simp: doc_ok_def wf_table_iff dates_ok_table_iff)

lemma doc_ok_lookup:
  "plain_entries a = Some ps \<Longrightarrow> doc_ok a \<Longrightarrow> map_of ps k = Some v \<Longrightarrow> doc_ok v"
  by (auto dest: map_of_SomeD doc_ok_entry)

lemma size_entry: "plain_entries a = Some ps \<Longrightarrow> (k, v) \<in> set ps \<Longrightarrow> size v < size a"
proof -
  assume p: "plain_entries a = Some ps" and "(k, v) \<in> set ps"
  from this(2) have "size v < Suc (size_list (size_prod (\<lambda>_. 0) size) ps)"
    by (induction ps) auto
  moreover have "size a = Suc (size_list (size_prod (\<lambda>_. 0) size) ps)"
    using p by (cases a) auto
  ultimately show ?thesis by simp
qed

lemma size_elem: "v \<in> set vs \<Longrightarrow> size v < Suc (size_list size vs)"
  by (induction vs) auto

lemma deepEqual_nth:
  "deepEqual (JArr xs) (JArr ys) \<longleftrightarrow>
     length xs = length ys \<and> (\<forall>i < length xs. deepEqual (xs ! i) (ys ! i))"
  by (auto simp: deepEqual_arr_val list_all2_conv_all_nth)

lemma doc_ok_distinct:
  "plain_entries a = Some ps \<Longrightarrow> doc_ok a \<Longrightarrow> (k, v) \<in> set ps \<Longrightarrow> map_of ps k = Some v"
  by (drule plain_entriesD(9)) (simp add: keys_of_def)

lemma deepEqual_refl_lemma: "doc_ok v \<Longrightarrow> deepEqual v v"
proof (induction v rule: measure_induct_rule [of size])
  case (less v)
  show ?case
  proof (cases v rule: js_cases)
    case (arr vs)
    with less show ?thesis
      by (auto simp: deepEqual_arr_val list_all2_same intro: size_elem less.IH)
  next
    case (plain ps)
    have "deepEqual w w" if "(k, w) \<in> set ps" for k w
      using that plain less by (blast intro: size_entry doc_ok_entry)
    with plain less.prems show ?thesis
      by (auto simp: deepEqual_plain_val doc_ok_distinct)
  qed (use less.prems in \<open>auto simp: deepEqual_prim deepEqual_date deepEqual_view getTime_eq_def
      doc_ok_def\<close>)
qed

text \<open>
  Two tables of the same length with distinct keys, each key of the first in the second, have the
  same keys.
\<close>

lemma same_keys:
  assumes "distinct (keys_of ps)" and "distinct (keys_of qs)" and "length ps = length qs"
    and "set (keys_of ps) \<subseteq> set (keys_of qs)"
  shows "set (keys_of ps) = set (keys_of qs)"
proof (rule card_subset_eq)
  show "card (set (keys_of ps)) = card (set (keys_of qs))"
    using assms(1-3) by (simp only: distinct_card) (simp add: keys_of_def)
qed (use assms in auto)

lemma deepEqual_plain_keys:
  assumes "plain_entries a = Some ps" and "plain_entries b = Some qs"
    and "doc_ok a" and "doc_ok b" and "deepEqual a b"
  shows "set (keys_of ps) = set (keys_of qs)"
proof (rule same_keys)
  from deepEqual_plain [OF assms(1,2,3,4)] assms(5)
  have eq: "length ps = length qs"
    "\<forall>(k, v) \<in> set ps. \<exists>w. map_of qs k = Some w \<and> deepEqual v w" by auto
  show "length ps = length qs" by (rule eq(1))
  show "set (keys_of ps) \<subseteq> set (keys_of qs)"
    using eq(2) by (force simp: keys_of_def dest: map_of_SomeD)
qed (use assms plain_entriesD(9) in auto)

lemma deepEqual_sym_lemma: "doc_ok a \<Longrightarrow> doc_ok b \<Longrightarrow> deepEqual a b \<Longrightarrow> deepEqual b a"
proof (induction a arbitrary: b rule: measure_induct_rule [of size])
  case (less a)
  show ?case
  proof (cases a rule: js_cases)
    case (arr xs)
    with less.prems(3) obtain ys where b: "b = JArr ys"
      by (auto simp: deepEqual_arr_val)
    note eq = less.prems(3) [unfolded arr b deepEqual_nth]
    have "deepEqual (ys ! i) (xs ! i)" if "i < length ys" for i
    proof (rule less.IH)
      show "size (xs ! i) < size a" using that eq by (simp add: arr size_elem)
      show "doc_ok (xs ! i)" "doc_ok (ys ! i)" using that eq less.prems(1,2) by (simp_all add: arr b)
      show "deepEqual (xs ! i) (ys ! i)" using that eq by simp
    qed
    with eq show ?thesis by (simp add: arr b deepEqual_nth)
  next
    case (plain ps)
    with less.prems obtain qs where qs: "plain_entries b = Some qs" and len: "length ps = length qs"
      and eq: "\<forall>(k, v) \<in> set ps. \<exists>w. map_of qs k = Some w \<and> deepEqual v w"
      by (auto simp: deepEqual_plain_val)
    have "\<exists>v. map_of ps k = Some v \<and> deepEqual w v" if kw: "(k, w) \<in> set qs" for k w
    proof -
      from kw have "k \<in> set (keys_of ps)"
        using deepEqual_plain_keys [OF plain qs less.prems] by (force simp: keys_of_def)
      then obtain v where v: "map_of ps k = Some v" by (blast dest: map_of_key_Some)
      with bspec [OF eq map_of_SomeD [OF v]] have "deepEqual v w"
        using doc_ok_distinct [OF qs less.prems(2) kw] by simp
      with v show ?thesis
        using less.IH [of v w] size_entry [OF plain] doc_ok_entry [OF plain less.prems(1)]
          doc_ok_entry [OF qs less.prems(2) kw] by (auto dest: map_of_SomeD)
    qed
    with qs plain len less.prems show ?thesis
      by (auto simp: deepEqual_plain_val)
  qed (use less.prems in \<open>auto simp: deepEqual_prim deepEqual_date deepEqual_view getTime_eq_def\<close>)
qed

lemma deepEqual_trans_lemma:
  "doc_ok a \<Longrightarrow> doc_ok b \<Longrightarrow> doc_ok c \<Longrightarrow> deepEqual a b \<Longrightarrow> deepEqual b c \<Longrightarrow> deepEqual a c"
proof (induction a arbitrary: b c rule: measure_induct_rule [of size])
  case (less a)
  show ?case
  proof (cases a rule: js_cases)
    case (arr xs)
    with less.prems(4,5) obtain ys zs where b: "b = JArr ys" and c: "c = JArr zs"
      by (auto simp: deepEqual_arr_val)
    note eq = less.prems(4,5) [unfolded arr b c deepEqual_nth]
    have "deepEqual (xs ! i) (zs ! i)" if "i < length xs" for i
    proof (rule less.IH)
      show "size (xs ! i) < size a" using that by (simp add: arr size_elem)
      show "doc_ok (xs ! i)" "doc_ok (ys ! i)" "doc_ok (zs ! i)"
        using that eq less.prems(1-3) by (simp_all add: arr b c)
      show "deepEqual (xs ! i) (ys ! i)" "deepEqual (ys ! i) (zs ! i)" using that eq by simp_all
    qed
    with eq show ?thesis by (simp add: arr c deepEqual_nth)
  next
    case (plain ps)
    with less.prems obtain qs where qs: "plain_entries b = Some qs" and l1: "length ps = length qs"
      and e1: "\<forall>(k, v) \<in> set ps. \<exists>w. map_of qs k = Some w \<and> deepEqual v w"
      by (auto simp: deepEqual_plain_val)
    with less.prems obtain rs where rs: "plain_entries c = Some rs" and l2: "length qs = length rs"
      and e2: "\<forall>(k, v) \<in> set qs. \<exists>w. map_of rs k = Some w \<and> deepEqual v w"
      by (auto simp: deepEqual_plain_val)
    have "\<exists>u. map_of rs k = Some u \<and> deepEqual v u" if kv: "(k, v) \<in> set ps" for k v
    proof -
      from kv e1 obtain w where w: "map_of qs k = Some w" "deepEqual v w" by auto
      with bspec [OF e2 map_of_SomeD [OF w(1)]] obtain u
        where u: "map_of rs k = Some u" "deepEqual w u" by auto
      have "deepEqual v u"
        using less.IH [OF size_entry [OF plain kv], of w u] w u kv plain qs rs less.prems
        by (blast intro: doc_ok_entry doc_ok_lookup)
      with u show ?thesis by blast
    qed
    with rs plain l1 l2 less.prems show ?thesis
      by (auto simp: deepEqual_plain_val)
  qed (use less.prems in \<open>auto simp: deepEqual_prim deepEqual_date deepEqual_view getTime_eq_def\<close>)
qed

section \<open>Applying a diff\<close>

fun op_key :: "patch_op \<Rightarrow> string option" where
  "op_key (OpSet k _) = Some k"
| "op_key (OpRemove k) = Some k"
| "op_key (OpReplace _) = None"

text \<open>The top-level keys a patch touches.\<close>

definition op_keys :: "patch_op list \<Rightarrow> string set" where
  "op_keys ops = {k. Some k \<in> op_key ` set ops}"

lemma spread_obj: "distinct (keys_of ps) \<Longrightarrow> spread (JObj ps) = JObj ps"
  by (simp add: spread_def assign_all_fresh)

lemma isPlainObject_obj [simp]: "isPlainObject (JObj ps)"
  by (simp add: isPlainObject_def is_object_def)

lemma apply_sets:
  "\<forall>(k, v) \<in> set ps. plain_key k \<Longrightarrow>
   apply_ops_from (JObj t) (map (\<lambda>(k, v). OpSet k v) ps @ ops)
     = apply_ops_from (JObj (assign_all t ps)) ops"
  by (induction t ps rule: assign_all.induct)
     (auto simp: set_prop_plain)

lemma apply_removes:
  "apply_ops_from (JObj t) (map (\<lambda>(k, v). OpRemove k) ps)
     = JObj (fold (\<lambda>(k, v). AList.delete k) ps t)"
  by (induction ps arbitrary: t) (auto simp: delete_prop_def)

lemma map_of_fold_delete:
  "map_of (fold (\<lambda>(k, v). AList.delete k) ps t) k
     = (if k \<in> set (keys_of ps) then None else map_of t k)"
  by (induction ps arbitrary: t) (auto simp: keys_of_def table_simps)

lemma distinct_fold_delete:
  "distinct (keys_of t) \<Longrightarrow> distinct (keys_of (fold (\<lambda>(k, v). AList.delete k) ps t))"
  by (induction ps arbitrary: t) auto

lemma doc_ok_obj:
  "doc_ok (JObj ps) \<longleftrightarrow> distinct (keys_of ps) \<and> (\<forall>(k, v) \<in> set ps. plain_key k \<and> doc_ok v)"
  by (auto simp: doc_ok_def wf_table_iff dates_ok_table_iff)

lemma op_keys_diff:
  "op_keys (diffKeys (JObj ns) (JObj ps)) =
     {k. \<exists>v. (k, v) \<in> set ns \<and> \<not> (js_in k (JObj ps) \<and> deepEqual v (js_get (JObj ps) k))}
     \<union> {k. \<exists>v. (k, v) \<in> set ps \<and> \<not> js_in k (JObj ns)}"
  unfolding diffKeys_def op_keys_def by (auto simp: image_Un) force+

text \<open>A document edit, as a lookup: touched keys read the edited document, others the base.\<close>

lemma apply_diff_lookup:
  assumes n: "doc_ok (JObj ns)" and p: "doc_ok (JObj ps)" and t: "distinct (keys_of t)"
  shows "\<exists>rs. applyOps (JObj t) (diffKeys (JObj ns) (JObj ps)) = JObj rs \<and> distinct (keys_of rs) \<and>
    (\<forall>k. map_of rs k
       = (if k \<in> op_keys (diffKeys (JObj ns) (JObj ps)) then map_of ns k else map_of t k))"
proof -
  define F where "F = filter (\<lambda>(k, v). \<not> js_in k (JObj ps) \<or> \<not> deepEqual v (js_get (JObj ps) k)) ns"
  define G where "G = filter (\<lambda>(k, v). \<not> js_in k (JObj ns)) ps"
  have D: "diffKeys (JObj ns) (JObj ps)
      = map (\<lambda>(k, v). OpSet k v) F @ map (\<lambda>(k, v). OpRemove k) G"
    by (simp add: diffKeys_def F_def G_def)
  have keys: "op_keys (diffKeys (JObj ns) (JObj ps)) = set (keys_of F) \<union> set (keys_of G)"
    unfolding op_keys_diff by (auto simp: F_def G_def keys_of_def) force+
  have F: "distinct (keys_of F)" "\<forall>(k, v) \<in> set F. plain_key k" "set F \<subseteq> set ns"
    using n by (auto simp: F_def doc_ok_obj distinct_keys_filter)
  have G: "map_of ns k = None" if "k \<in> set (keys_of G)" for k
    using that by (auto simp: G_def keys_of_def js_in_Obj)
  define rs where "rs = fold (\<lambda>(k, v). AList.delete k) G (assign_all t F)"
  have "applyOps (JObj t) (diffKeys (JObj ns) (JObj ps)) = JObj rs"
    using F(2) t by (simp add: applyOps_def D apply_sets apply_removes rs_def spread_obj)
  moreover have "distinct (keys_of rs)"
    by (simp add: rs_def distinct_fold_delete t)
  moreover have "map_of rs k = (if k \<in> op_keys (diffKeys (JObj ns) (JObj ps))
      then map_of ns k else map_of t k)" for k
  proof -
    have "map_of F k = map_of ns k \<and> map_of F k \<noteq> None" if "k \<in> set (keys_of F)"
    proof -
      from that obtain v where v: "map_of F k = Some v" by (blast dest: map_of_key_Some)
      then have "(k, v) \<in> set ns" using F(3) by (blast dest: map_of_SomeD)
      with n have "map_of ns k = Some v" by (simp add: doc_ok_obj keys_of_def)
      with v show ?thesis by simp
    qed
    moreover have "map_of F k = None" if "k \<notin> set (keys_of F)"
      using that by (simp add: keys_of_def map_of_eq_None_iff)
    ultimately show ?thesis
      using G [of k] by (auto simp: rs_def map_of_fold_delete map_of_assign_all F(1) keys
          split: option.splits)
  qed
  ultimately show ?thesis by blast
qed

lemma diff_untouched:
  assumes "doc_ok (JObj ns)" and "doc_ok (JObj ps)"
    and "k \<notin> op_keys (diffKeys (JObj ns) (JObj ps))"
  shows "rel_option deepEqual (map_of ns k) (map_of ps k)"
proof -
  have F: "js_in k (JObj ps) \<and> deepEqual v (js_get (JObj ps) k)" if "(k, v) \<in> set ns" for v
    using that assms(3) by (auto simp: op_keys_diff)
  have G: "js_in k (JObj ns)" if "(k, v) \<in> set ps" for v
    using that assms(3) by (auto simp: op_keys_diff)
  have pk: "plain_key k" if "map_of ns k \<noteq> None \<or> map_of ps k \<noteq> None"
    using that assms(1,2) by (auto simp: doc_ok_obj dest: map_of_SomeD)
  show ?thesis
  proof (cases "map_of ns k")
    case None
    then have "map_of ps k = None"
      using G pk by (cases "map_of ps k") (auto simp: js_in_Obj dest: map_of_SomeD)
    with None show ?thesis by simp
  next
    case (Some v)
    with F [OF map_of_SomeD] pk obtain w where "map_of ps k = Some w" and "deepEqual v w"
      by (auto simp: js_in_Obj js_get_def split: option.splits)
    with Some show ?thesis by simp
  qed
qed

lemma deepEqual_obj_lookup:
  assumes "doc_ok (JObj ns)" and "doc_ok (JObj rs)"
    and "\<And>k. rel_option deepEqual (map_of ns k) (map_of rs k)"
  shows "deepEqual (JObj ns) (JObj rs)"
proof -
  have keys: "set (keys_of ns) = set (keys_of rs)"
  proof -
    have "k \<in> set (keys_of ns) \<longleftrightarrow> k \<in> set (keys_of rs)" for k
      using assms(3) [of k] has_key_iff [of ns k] has_key_iff [of rs k]
      by (auto simp: has_key_def option.rel_sel)
    then show ?thesis by blast
  qed
  have "length ns = length rs"
  proof -
    have "card (set (keys_of ns)) = card (set (keys_of rs))" by (simp only: keys)
    then show ?thesis using assms(1,2)
      by (simp only: doc_ok_obj distinct_card) (simp add: keys_of_def)
  qed
  moreover have "\<exists>w. map_of rs k = Some w \<and> deepEqual v w" if "(k, v) \<in> set ns" for k v
    using assms(3) [of k] doc_ok_distinct [OF _ assms(1) that] by (cases "map_of rs k") auto
  ultimately show ?thesis
    using deepEqual_plain_val [of "JObj ns" ns "JObj rs"] assms(1,2) by auto
qed

lemma applied_doc_ok:
  assumes n: "doc_ok (JObj ns)" and p: "doc_ok (JObj ps)" and d: "distinct (keys_of rs)"
    and look: "\<And>k. map_of rs k \<in> {map_of ns k, map_of ps k}"
  shows "doc_ok (JObj rs)"
proof -
  have "plain_key k \<and> doc_ok v" if "(k, v) \<in> set rs" for k v
  proof -
    from that d have "map_of rs k = Some v" by (simp add: keys_of_def)
    with look [of k] have "map_of ns k = Some v \<or> map_of ps k = Some v" by auto
    with n p show ?thesis by (auto simp: doc_ok_obj dest: map_of_SomeD)
  qed
  with d show ?thesis by (auto simp: doc_ok_obj)
qed

section \<open>Properties\<close>

text \<open>
  C2. The patch protocol transports an edit between documents whose dates are valid and whose keys are
  none that every object inherits from \<open>Object.prototype\<close>: applying to the acknowledged document the
  ops that \<open>diffKeys\<close> computes gives a document with exactly the keys of the edited one, in which every
  key with an op holds the edited value itself and every other key the acknowledged one, and which
  \<open>deepEqual\<close>, the comparison the code makes, does not tell from the edited one. That comparison does
  not look into an \<open>ArrayBuffer\<close>: see \<open>buffer_edit_lost\<close>.
\<close>

theorem patch_reaches_edit:
  assumes "doc_ok (JObj ns)" and "doc_ok (JObj ps)"
  shows "\<exists>rs. applyOps (JObj ps) (diffKeys (JObj ns) (JObj ps)) = JObj rs
    \<and> set (keys_of rs) = set (keys_of ns) \<and> deepEqual (JObj ns) (JObj rs)
    \<and> (\<forall>k. map_of rs k = (if k \<in> op_keys (diffKeys (JObj ns) (JObj ps)) then map_of ns k else map_of ps k))"
proof -
  have d: "distinct (keys_of ps)" using assms(2) by (simp add: doc_ok_obj)
  from apply_diff_lookup [OF assms d] obtain rs where
    rs: "applyOps (JObj ps) (diffKeys (JObj ns) (JObj ps)) = JObj rs" "distinct (keys_of rs)"
    and look: "\<And>k. map_of rs k = (if k \<in> op_keys (diffKeys (JObj ns) (JObj ps))
      then map_of ns k else map_of ps k)"
    by blast
  have ok: "doc_ok (JObj rs)"
    using assms rs(2) by (rule applied_doc_ok) (simp add: look)
  have "rel_option deepEqual (map_of ns k) (map_of rs k)" for k
  proof (cases "k \<in> op_keys (diffKeys (JObj ns) (JObj ps))")
    case True
    then have "map_of rs k = map_of ns k" by (simp add: look)
    then show ?thesis
      using assms(1) by (cases "map_of ns k")
        (auto intro!: deepEqual_refl_lemma doc_ok_lookup [of "JObj ns" ns])
  next
    case False
    with diff_untouched [OF assms False] show ?thesis by (simp add: look)
  qed
  then have eq: "deepEqual (JObj ns) (JObj rs)"
    by (rule deepEqual_obj_lookup [OF assms(1) ok])
  then have "set (keys_of ns) = set (keys_of rs)"
    by (intro deepEqual_plain_keys [OF _ _ assms(1) ok]) auto
  with rs(1) eq look show ?thesis by blast
qed

theorem patch_reaches_edit_witness:
  "\<exists>rs. applyOps (JObj [(''a'', JNull), (''b'', JBool True)])
      (diffKeys (JObj [(''b'', JBool False), (''c'', JStr ''x'')])
                (JObj [(''a'', JNull), (''b'', JBool True)])) = JObj rs
    \<and> set (keys_of rs) = {''b'', ''c''}
    \<and> deepEqual (JObj [(''b'', JBool False), (''c'', JStr ''x'')]) (JObj rs)"
  using patch_reaches_edit [of "[(''b'', JBool False), (''c'', JStr ''x'')]"
      "[(''a'', JNull), (''b'', JBool True)]"]
  by (auto simp: doc_ok_def keys_of_def plain_key_def object_prototype_keys_def)

text \<open>
  C4. Concurrent edits merge: two windows edit the same acknowledged document, their patches touch
  different keys and are applied one after the other; each key reads the edit of the window that
  touched it and every other key the base.
\<close>

theorem concurrent_edits_merge:
  assumes "doc_ok (JObj b)" and "doc_ok (JObj n1)" and "doc_ok (JObj n2)"
    and "op_keys (diffKeys (JObj n1) (JObj b)) \<inter> op_keys (diffKeys (JObj n2) (JObj b)) = {}"
  shows "\<exists>rs. applyOps (applyOps (JObj b) (diffKeys (JObj n1) (JObj b)))
        (diffKeys (JObj n2) (JObj b)) = JObj rs
    \<and> (\<forall>k. map_of rs k =
        (if k \<in> op_keys (diffKeys (JObj n1) (JObj b)) then map_of n1 k
         else if k \<in> op_keys (diffKeys (JObj n2) (JObj b)) then map_of n2 k
         else map_of b k))"
proof -
  have "distinct (keys_of b)" using assms(1) by (simp add: doc_ok_obj)
  from apply_diff_lookup [OF assms(2,1) this] obtain r1 where
    r1: "applyOps (JObj b) (diffKeys (JObj n1) (JObj b)) = JObj r1" "distinct (keys_of r1)"
    and l1: "\<And>k. map_of r1 k = (if k \<in> op_keys (diffKeys (JObj n1) (JObj b))
      then map_of n1 k else map_of b k)" by blast
  from apply_diff_lookup [OF assms(3,1) r1(2)] obtain r2 where
    r2: "applyOps (JObj r1) (diffKeys (JObj n2) (JObj b)) = JObj r2"
    and l2: "\<And>k. map_of r2 k = (if k \<in> op_keys (diffKeys (JObj n2) (JObj b))
      then map_of n2 k else map_of r1 k)" by blast
  show ?thesis
    using assms(4) r1(1) r2 by (auto simp: l1 l2)
qed

theorem concurrent_edits_merge_witness:
  "\<exists>rs. applyOps (applyOps (JObj [(''a'', JNull), (''b'', JNull)])
        (diffKeys (JObj [(''a'', JBool True), (''b'', JNull)]) (JObj [(''a'', JNull), (''b'', JNull)])))
      (diffKeys (JObj [(''a'', JNull)]) (JObj [(''a'', JNull), (''b'', JNull)])) = JObj rs
    \<and> map_of rs ''a'' = Some (JBool True) \<and> map_of rs ''b'' = None"
proof -
  let ?b = "[(''a'', JNull), (''b'', JNull)]"
  let ?n1 = "[(''a'', JBool True), (''b'', JNull)]" and ?n2 = "[(''a'', JNull)]"
  have eq: "deepEqual JNull JNull" "\<not> deepEqual (JBool True) JNull"
    by (simp_all add: deepEqual_prim is_object_def)
  have k1: "op_keys (diffKeys (JObj ?n1) (JObj ?b)) = {''a''}"
    by (auto simp: op_keys_diff eq js_in_Obj js_get_def plain_key_def object_prototype_keys_def)
  have k2: "op_keys (diffKeys (JObj ?n2) (JObj ?b)) = {''b''}"
    by (auto simp: op_keys_diff eq js_in_Obj js_get_def plain_key_def object_prototype_keys_def)
  from concurrent_edits_merge [of ?b ?n1 ?n2] obtain rs where
    rs: "applyOps (applyOps (JObj ?b) (diffKeys (JObj ?n1) (JObj ?b)))
      (diffKeys (JObj ?n2) (JObj ?b)) = JObj rs"
    and look: "\<forall>k. map_of rs k = (if k \<in> {''a''} then map_of ?n1 k
      else if k \<in> {''b''} then map_of ?n2 k else map_of ?b k)"
    by (auto simp: doc_ok_def keys_of_def plain_key_def object_prototype_keys_def k1 k2)
  have "map_of rs ''a'' = Some (JBool True)" and "map_of rs ''b'' = None"
    by (simp_all only: look [rule_format]) simp_all
  with rs show ?thesis by blast
qed

text \<open>
  Structural equality is an equivalence relation on well-formed documents whose dates are valid,
  so a document has no patch against its own snapshot and the verdict does not depend on which side
  is the edited one.
\<close>

theorem deepEqual_equivalence:
  assumes "doc_ok a" and "doc_ok b" and "doc_ok c"
  shows "deepEqual a a \<and> deepEqual a b = deepEqual b a
    \<and> (deepEqual a b \<and> deepEqual b c \<longrightarrow> deepEqual a c)
    \<and> diffKeys (JObj [(k, a)]) (JObj [(k, a)]) = []"
proof -
  have refl: "deepEqual a a" by (rule deepEqual_refl_lemma [OF assms(1)])
  moreover have "diffKeys (JObj [(k, a)]) (JObj [(k, a)]) = []"
    using refl by (simp add: diffKeys_def js_in_Obj js_get_def)
  moreover have "deepEqual a b = deepEqual b a"
    using assms by (blast intro: deepEqual_sym_lemma)
  ultimately show ?thesis
    using deepEqual_trans_lemma [OF assms] by blast
qed

theorem deepEqual_equivalence_witness:
  "deepEqual (JObj [(''a'', JNull), (''b'', JArr [])]) (JObj [(''b'', JArr []), (''a'', JNull)])
     = deepEqual (JObj [(''b'', JArr []), (''a'', JNull)]) (JObj [(''a'', JNull), (''b'', JArr [])])"
  using deepEqual_equivalence [of "JObj [(''a'', JNull), (''b'', JArr [])]"
      "JObj [(''b'', JArr []), (''a'', JNull)]" JNull]
  by (simp add: doc_ok_def keys_of_def plain_key_def object_prototype_keys_def)

text \<open>
  The contents of an \<open>ArrayBuffer\<close> and the expando properties of a typed array are not
  compared: an edit that only changes them has an empty patch, so it is never sent.
\<close>

theorem buffer_edit_lost:
  "diffKeys (JObj [(k, JBuf us [])]) (JObj [(k, JBuf vs [])]) = []
   \<and> diffKeys (JObj [(k, JView kind us ps)]) (JObj [(k, JView kind us qs)]) = []"
  by (simp_all add: diffKeys_def js_in_Obj js_get_def deepEqual_view)
     (subst deepEqual.simps, simp add: is_object_def isPlainObject_def)

text \<open>
  Every object has the keys of \<open>Object.prototype\<close>, as far as the code's \<open>in\<close> can tell: the removal of an
  own key of that name has no op.
\<close>

theorem inherited_key_removal_lost: "diffKeys (JObj []) (JObj [(''constructor'', v)]) = []"
  by (simp add: diffKeys_def js_in_def object_prototype_keys_def)

end
