(* ===== verification/StoreAuthority.thy ===== *)
theory StoreAuthority
  imports StoreFs StorePatch
begin

text \<open>
  The store authority (\<open>app/lib/store-authority.ts\<close>): one document per key with an in-memory
  value, the operations that have not settled, each in a phase of its own, and listeners. An operation
  runs in the phases between its awaits: \<open>Begin\<close> is the synchronous part up to the first
  \<open>await fs.\<dots>\<close>, \<open>FsOk\<close> and \<open>FsFail\<close> are the settlement of that await. Any operation that has
  begun may settle at any time; only the chain of \<open>enqueue\<close> says which may begin. The operations
  of different documents interleave freely, as the events of a history are in any order. The file
  backend is the injected \<open>StoreFsBackend\<close>, a parameter with the contract \<open>doc_backend\<close>.
\<close>

datatype path = PStr string | PArr "string list"

fun asArray :: "path \<Rightarrow> string list" where
  "asArray (PStr s) = [s]"
| "asArray (PArr ss) = ss"

fun join_with :: "string \<Rightarrow> string list \<Rightarrow> string" where
  "join_with sep [] = []"
| "join_with sep [s] = s"
| "join_with sep (s # ss) = s @ sep @ join_with sep ss"

definition keyOf :: "path \<Rightarrow> string" where
  "keyOf segments = join_with ''/'' (asArray segments)"

text \<open>The operations, with the number of the request; the last argument is the listener to skip.\<close>

datatype store_op =
    ORead nat jsval
  | OWrite nat jsval "nat option"
  | OUpdate nat jsval "nat option"
  | OPatch nat "patch_op list" "nat option"
  | OClear nat "nat option"

fun op_id :: "store_op \<Rightarrow> nat" where
  "op_id (ORead i _) = i"
| "op_id (OWrite i _ _) = i"
| "op_id (OUpdate i _ _) = i"
| "op_id (OPatch i _ _) = i"
| "op_id (OClear i _) = i"

datatype phase = Idle | Loading | Writing jsval | Clearing

record doc =
  d_value :: jsval
  d_loaded :: bool
  d_listeners :: "nat list"
  d_queue :: "(store_op \<times> phase) list"

record 'fs authority =
  docs :: "string \<Rightarrow> doc"
  writes :: nat
  updates :: nat
  clears :: nat
  disk :: 'fs
  notices :: "(string \<times> nat \<times> jsval) list"
  results :: "(string \<times> nat \<times> jsval option) list"

definition new_doc :: doc where
  "new_doc = \<lparr>d_value = JUndef, d_loaded = False, d_listeners = [], d_queue = []\<rparr>"

definition phase_at :: "nat \<Rightarrow> doc \<Rightarrow> phase" where
  "phase_at n d = (if n < length (d_queue d) then snd (d_queue d ! n) else Idle)"

definition set_phase :: "nat \<Rightarrow> phase \<Rightarrow> doc \<Rightarrow> doc" where
  "set_phase n p d = d\<lparr>d_queue := (d_queue d)[n := (fst (d_queue d ! n), p)]\<rparr>"

text \<open>
  \<open>enqueue\<close> chains an operation on the promise of the one before it: it may begin when all that were
  queued before it have settled.
\<close>

definition its_turn :: "nat \<Rightarrow> doc \<Rightarrow> bool" where
  "its_turn n d \<longleftrightarrow> n < length (d_queue d) \<and> phase_at n d = Idle \<and> take n (d_queue d) = []"

definition createStoreAuthority :: "'fs \<Rightarrow> 'fs authority" where
  "createStoreAuthority d = \<lparr>docs = (\<lambda>_. new_doc), writes = 0, updates = 0, clears = 0, disk = d,
     notices = [], results = []\<rparr>"

definition set_doc :: "string \<Rightarrow> doc \<Rightarrow> 'fs authority \<Rightarrow> 'fs authority" where
  "set_doc k d s = s\<lparr>docs := (docs s)(k := d)\<rparr>"

definition notify :: "string \<Rightarrow> jsval \<Rightarrow> nat option \<Rightarrow> 'fs authority \<Rightarrow> 'fs authority" where
  "notify k v except s = s\<lparr>notices := notices s
     @ map (\<lambda>l. (k, l, v)) (filter (\<lambda>l. Some l \<noteq> except) (d_listeners (docs s k)))\<rparr>"

text \<open>An operation settles: its answer is delivered and it leaves the chain.\<close>

definition settle :: "string \<Rightarrow> nat \<Rightarrow> jsval option \<Rightarrow> 'fs authority \<Rightarrow> 'fs authority" where
  "settle k n r s = (let d = docs s k in if length (d_queue d) \<le> n then s
     else (set_doc k (d\<lparr>d_queue := take n (d_queue d) @ drop (Suc n) (d_queue d)\<rparr>) s)
        \<lparr>results := results s @ [(k, op_id (fst (d_queue d ! n)), r)]\<rparr>)"

definition merge_patch :: "jsval \<Rightarrow> jsval \<Rightarrow> jsval" where
  "merge_patch current patch =
     JObj (assign_all (assign_all [] (own_entries current)) (own_entries patch))"

text \<open>The new value of a mutating operation, from the loaded one.\<close>

fun op_value :: "store_op \<Rightarrow> jsval \<Rightarrow> jsval" where
  "op_value (OWrite _ v _) current = v"
| "op_value (OUpdate _ patch _) current = merge_patch current patch"
| "op_value (OPatch _ ops _) current = applyOps current ops"
| "op_value _ current = current"

definition commit :: "string \<Rightarrow> nat \<Rightarrow> store_op \<Rightarrow> 'fs authority \<Rightarrow> 'fs authority" where
  "commit k n op s = (let d = docs s k; v = op_value op (d_value d)
     in set_doc k (set_phase n (Writing v) (d\<lparr>d_value := v, d_loaded := True\<rparr>)) s)"

definition begin_op :: "string \<Rightarrow> nat \<Rightarrow> store_op \<Rightarrow> 'fs authority \<Rightarrow> 'fs authority" where
  "begin_op k n op s = (let d = docs s k in case op of
      ORead _ _ \<Rightarrow> if d_loaded d then settle k n (Some (d_value d)) s
        else set_doc k (set_phase n Loading d) s
    | OWrite _ _ _ \<Rightarrow> commit k n op s
    | OUpdate _ _ _ \<Rightarrow> if d_loaded d then commit k n op s else set_doc k (set_phase n Loading d) s
    | OPatch _ _ _ \<Rightarrow> if d_loaded d then commit k n op s else set_doc k (set_phase n Loading d) s
    | OClear _ _ \<Rightarrow>
        set_doc k (set_phase n Clearing (d\<lparr>d_value := JUndef, d_loaded := False\<rparr>)) s)"

fun op_fallback :: "store_op \<Rightarrow> jsval" where
  "op_fallback (ORead _ fb) = fb"
| "op_fallback _ = JObj []"

definition finish_load :: "('fs \<Rightarrow> string \<Rightarrow> jsval \<Rightarrow> jsval) \<Rightarrow> string \<Rightarrow> nat \<Rightarrow> store_op
    \<Rightarrow> 'fs authority \<Rightarrow> 'fs authority" where
  "finish_load rd k n op s =
     (let v = rd (disk s) k (op_fallback op);
          s' = set_doc k ((docs s k)\<lparr>d_value := v, d_loaded := True\<rparr>) s
      in case op of ORead _ _ \<Rightarrow> settle k n (Some v) s' | _ \<Rightarrow> commit k n op s')"

fun op_except :: "store_op \<Rightarrow> nat option" where
  "op_except (ORead _ _) = None"
| "op_except (OWrite _ _ ex) = ex"
| "op_except (OUpdate _ _ ex) = ex"
| "op_except (OPatch _ _ ex) = ex"
| "op_except (OClear _ ex) = ex"

fun count_op :: "store_op \<Rightarrow> 'fs authority \<Rightarrow> 'fs authority" where
  "count_op (OUpdate _ _ _) s = s\<lparr>updates := updates s + 1\<rparr>"
| "count_op (OClear _ _) s = s\<lparr>clears := clears s + 1\<rparr>"
| "count_op _ s = s\<lparr>writes := writes s + 1\<rparr>"

definition finish_write :: "('fs \<Rightarrow> string \<Rightarrow> jsval \<Rightarrow> 'fs option) \<Rightarrow> string \<Rightarrow> nat \<Rightarrow> store_op \<Rightarrow> jsval
    \<Rightarrow> 'fs authority \<Rightarrow> 'fs authority" where
  "finish_write wr k n op v s = (case wr (disk s) k v of
      None \<Rightarrow> settle k n None s
    | Some d \<Rightarrow> settle k n (Some v) (notify k v (op_except op) (count_op op (s\<lparr>disk := d\<rparr>))))"

definition finish_clear :: "('fs \<Rightarrow> string \<Rightarrow> 'fs) \<Rightarrow> string \<Rightarrow> nat \<Rightarrow> store_op
    \<Rightarrow> 'fs authority \<Rightarrow> 'fs authority" where
  "finish_clear cl k n op s = settle k n (Some JUndef)
     (notify k JUndef (op_except op) (count_op op (s\<lparr>disk := cl (disk s) k\<rparr>)))"

datatype auth_event = Enqueue string store_op | Begin string nat | FsOk string nat | FsFail string nat
  | Subscribe string nat | Unsubscribe string nat

definition authority_step :: "('fs \<Rightarrow> string \<Rightarrow> jsval \<Rightarrow> jsval) \<Rightarrow>
    ('fs \<Rightarrow> string \<Rightarrow> jsval \<Rightarrow> 'fs option) \<Rightarrow> ('fs \<Rightarrow> string \<Rightarrow> 'fs) \<Rightarrow>
    'fs authority \<Rightarrow> auth_event \<Rightarrow> 'fs authority" where
  "authority_step rd wr cl s e = (case e of
      Enqueue k op \<Rightarrow> set_doc k ((docs s k)\<lparr>d_queue := d_queue (docs s k) @ [(op, Idle)]\<rparr>) s
    | Begin k n \<Rightarrow> if its_turn n (docs s k) then begin_op k n (fst (d_queue (docs s k) ! n)) s else s
    | FsOk k n \<Rightarrow> (let op = fst (d_queue (docs s k) ! n) in case phase_at n (docs s k) of
          Idle \<Rightarrow> s
        | Loading \<Rightarrow> finish_load rd k n op s
        | Writing v \<Rightarrow> finish_write wr k n op v s
        | Clearing \<Rightarrow> finish_clear cl k n op s)
    | FsFail k n \<Rightarrow> if phase_at n (docs s k) = Idle then s else settle k n None s
    | Subscribe k l \<Rightarrow> set_doc k ((docs s k)\<lparr>d_listeners :=
        (if l \<in> set (d_listeners (docs s k)) then d_listeners (docs s k)
         else d_listeners (docs s k) @ [l])\<rparr>) s
    | Unsubscribe k l \<Rightarrow>
        set_doc k ((docs s k)\<lparr>d_listeners := filter (\<lambda>x. x \<noteq> l) (d_listeners (docs s k))\<rparr>) s)"

section \<open>Requests settle in the order they were queued\<close>

text \<open>The requests of a document that settled, then those still queued.\<close>

definition pipeline :: "string \<Rightarrow> 'fs authority \<Rightarrow> nat list" where
  "pipeline k s = map (\<lambda>(_, i, _). i) (filter (\<lambda>(k', _, _). k' = k) (results s))
     @ map (\<lambda>x. op_id (fst x)) (d_queue (docs s k))"

fun enqueued :: "string \<Rightarrow> auth_event list \<Rightarrow> nat list" where
  "enqueued k [] = []"
| "enqueued k (Enqueue k' op # es) = (if k' = k then op_id op # enqueued k es else enqueued k es)"
| "enqueued k (_ # es) = enqueued k es"

lemma set_doc_simps [machine_simps]:
  "docs (set_doc k d s) = (docs s)(k := d)" "disk (set_doc k d s) = disk s"
  "results (set_doc k d s) = results s" "notices (set_doc k d s) = notices s"
  by (simp_all add: set_doc_def)

lemma notify_simps [machine_simps]:
  "docs (notify k v ex s) = docs s" "disk (notify k v ex s) = disk s"
  "results (notify k v ex s) = results s"
  by (simp_all add: notify_def)

lemma count_op_simps [machine_simps]:
  "docs (count_op op s) = docs s" "disk (count_op op s) = disk s"
  "results (count_op op s) = results s" "notices (count_op op s) = notices s"
  by (cases op; simp)+

lemma settle_simps [machine_simps]:
  "disk (settle k n r s) = disk s" "notices (settle k n r s) = notices s"
  by (simp_all add: settle_def Let_def machine_simps)

lemma pipeline_cong: "docs s = docs t \<Longrightarrow> results s = results t \<Longrightarrow> pipeline k s = pipeline k t"
  by (simp add: pipeline_def)

text \<open>No operation but the oldest of a document has begun.\<close>

definition serial :: "'fs authority \<Rightarrow> bool" where
  "serial s \<longleftrightarrow> (\<forall>k. list_all (\<lambda>x. snd x = Idle) (tl (d_queue (docs s k))))"

lemma its_turn_first: "its_turn n d \<Longrightarrow> n = 0 \<and> (\<exists>op rest. d_queue d = (op, Idle) # rest)"
  by (cases "d_queue d") (auto simp: its_turn_def phase_at_def)

lemma in_flight_first:
  assumes "serial s" "phase_at n (docs s k) \<noteq> Idle"
  shows "n = 0 \<and> (\<exists>op rest. d_queue (docs s k) = (op, phase_at 0 (docs s k)) # rest)"
proof (cases n)
  case 0
  with assms(2) show ?thesis by (cases "d_queue (docs s k)") (auto simp: phase_at_def)
next
  case (Suc m)
  have "list_all (\<lambda>x. snd x = Idle) (tl (d_queue (docs s k)))" using assms(1) by (simp add: serial_def)
  with Suc assms(2) show ?thesis
    by (cases "d_queue (docs s k)") (auto simp: phase_at_def list_all_length split: if_splits)
qed

lemma set_phase_first: "d_queue d = (op, q) # rest \<Longrightarrow> set_phase 0 p d = d\<lparr>d_queue := (op, p) # rest\<rparr>"
  by (simp add: set_phase_def)

lemma settle_first:
  "d_queue (docs s k) = (op, p) # rest \<Longrightarrow> settle k 0 r s
     = (set_doc k ((docs s k)\<lparr>d_queue := rest\<rparr>) s)\<lparr>results := results s @ [(k, op_id op, r)]\<rparr>"
  by (simp add: settle_def Let_def)

lemma phase_at_first: "d_queue d = (op, p) # rest \<Longrightarrow> phase_at 0 d = p"
  by (simp add: phase_at_def)

text \<open>Every step that works on the oldest operation of a document keeps or shortens its queue.\<close>

definition advances :: "string \<Rightarrow> 'fs authority \<Rightarrow> 'fs authority \<Rightarrow> bool" where
  "advances k s t \<longleftrightarrow> (\<forall>k'. k' \<noteq> k \<longrightarrow> docs t k' = docs s k') \<and> (\<exists>op p rest. d_queue (docs s k) = (op, p) # rest
     \<and> (results t = results s \<and> (\<exists>q. d_queue (docs t k) = (op, q) # rest)
        \<or> (\<exists>r. results t = results s @ [(k, op_id op, r)]) \<and> d_queue (docs t k) = rest))"

lemma advances_pipeline: "advances k s t \<Longrightarrow> pipeline k' t = pipeline k' s"
  by (cases "k' = k") (auto simp: advances_def pipeline_def)

lemma advances_serial:
  assumes "advances k s t" "serial s"
  shows "serial t"
  unfolding serial_def
proof
  fix k'
  have s: "list_all (\<lambda>x. snd x = Idle) (tl (d_queue (docs s k')))" using assms(2) by (simp add: serial_def)
  with assms(1) show "list_all (\<lambda>x. snd x = Idle) (tl (d_queue (docs t k')))"
    by (cases "k' = k"; cases "d_queue (docs t k)") (auto simp: advances_def)
qed

lemma advances_ops:
  assumes q: "d_queue (docs s k) = (op, p) # rest"
  shows "advances k s (settle k 0 r s)" "advances k s (begin_op k 0 op s)" "advances k s (finish_load rd k 0 op s)"
    "advances k s (finish_write wr k 0 op v s)" "advances k s (finish_clear cl k 0 op s)"
proof -
  have c: "advances k s (commit k 0 op s)" using q
    by (simp add: advances_def commit_def Let_def set_phase_first machine_simps)
  show st: "advances k s (settle k 0 r s)" for r using q
    by (simp add: advances_def settle_first machine_simps)
  have ph: "advances k s (set_doc k d s)" if "d_queue d = (op, x) # rest" for d x
    using q that by (simp add: advances_def machine_simps)
  show "advances k s (begin_op k 0 op s)"
    by (cases op) (use c in \<open>simp_all add: begin_op_def Let_def st ph set_phase_first q\<close>)
  have u: "settle k 0 r (set_doc k (docs s k\<lparr>d_value := x, d_loaded := b\<rparr>) s)
      = (set_doc k (docs s k\<lparr>d_value := x, d_loaded := b, d_queue := rest\<rparr>) s)\<lparr>results := results s @ [(k, op_id op, r)]\<rparr>"
    for r x b using q by (simp add: settle_first [of _ _ op p rest] machine_simps) (simp add: set_doc_def)
  show "advances k s (finish_load rd k 0 op s)" using q
    by (simp add: finish_load_def Let_def u split: store_op.split)
      (simp add: advances_def machine_simps commit_def Let_def set_phase_first)
  show "advances k s (finish_write wr k 0 op v s)" using q
    by (simp add: finish_write_def settle_first [of _ _ op p rest] advances_def machine_simps split: option.split)
  show "advances k s (finish_clear cl k 0 op s)" using q
    by (simp add: finish_clear_def settle_first [of _ _ op p rest] advances_def machine_simps)
qed

lemma step_cases [consumes 1, case_names same advance queued listener]:
  assumes "serial s"
  obtains (same) "authority_step rd wr cl s e = s" "enqueued k [e] = []"
  | (advance) k' op p rest where "d_queue (docs s k') = (op, p) # rest" "advances k' s (authority_step rd wr cl s e)" "enqueued k [e] = []"
  | (queued) k' op where "e = Enqueue k' op"
  | (listener) k' ls where "authority_step rd wr cl s e = set_doc k' ((docs s k')\<lparr>d_listeners := ls\<rparr>) s" "enqueued k [e] = []"
proof (cases e)
  case (Begin k' n)
  show thesis
  proof (cases "its_turn n (docs s k')")
    case True
    then obtain op rest where q: "n = 0" "d_queue (docs s k') = (op, Idle) # rest" using its_turn_first by blast
    show thesis by (rule advance [OF q(2)]) (use q True Begin advances_ops(2) [OF q(2)] in \<open>simp_all add: authority_step_def\<close>)
  qed (use Begin same in \<open>simp add: authority_step_def\<close>)
next
  case (FsOk k' n)
  show thesis
  proof (cases "phase_at n (docs s k')")
    case Idle
    then show thesis using FsOk same by (simp add: authority_step_def Let_def)
  next
    case Loading
    then obtain op p rest where q: "n = 0" "d_queue (docs s k') = (op, p) # rest" using in_flight_first [OF assms] by (metis phase.distinct(1))
    show thesis by (rule advance [OF q(2)]) (use q Loading FsOk advances_ops(3) [OF q(2)] in \<open>simp_all add: authority_step_def\<close>)
  next
    case (Writing v)
    then obtain op p rest where q: "n = 0" "d_queue (docs s k') = (op, p) # rest" using in_flight_first [OF assms] by (metis phase.distinct(3))
    show thesis by (rule advance [OF q(2)]) (use q Writing FsOk advances_ops(4) [OF q(2)] in \<open>simp_all add: authority_step_def\<close>)
  next
    case Clearing
    then obtain op p rest where q: "n = 0" "d_queue (docs s k') = (op, p) # rest" using in_flight_first [OF assms] by (metis phase.distinct(5))
    show thesis by (rule advance [OF q(2)]) (use q Clearing FsOk advances_ops(5) [OF q(2)] in \<open>simp_all add: authority_step_def\<close>)
  qed
next
  case (FsFail k' n)
  show thesis
  proof (cases "phase_at n (docs s k') = Idle")
    case False
    then obtain op p rest where q: "n = 0" "d_queue (docs s k') = (op, p) # rest" using in_flight_first [OF assms] by blast
    show thesis by (rule advance [OF q(2)]) (use q False FsFail advances_ops(1) [OF q(2)] in \<open>simp_all add: authority_step_def\<close>)
  qed (use FsFail same in \<open>simp add: authority_step_def\<close>)
qed (use queued listener in \<open>auto simp: authority_step_def\<close>)

lemma step_serial:
  assumes "serial s"
  shows "serial (authority_step rd wr cl s e)"
using assms
proof (cases rule: step_cases [where rd = rd and wr = wr and cl = cl and e = e and k = k])
  case (queued k' op)
  have "list_all (\<lambda>x. snd x = Idle) (tl (xs @ [(op, Idle)]))" if "list_all (\<lambda>x. snd x = Idle) (tl xs)" for xs
    using that by (cases xs) auto
  with assms queued show ?thesis by (simp add: serial_def authority_step_def machine_simps)
next
  case (advance k' op p rest)
  from advance(2) assms show ?thesis by (rule advances_serial)
qed (use assms in \<open>auto simp: serial_def machine_simps\<close>)

lemma pipeline_step:
  assumes "serial s"
  shows "pipeline k (authority_step rd wr cl s e) = pipeline k s @ enqueued k [e]"
using assms
proof (cases rule: step_cases [where rd = rd and wr = wr and cl = cl and e = e and k = k])
  case (queued k' op)
  then show ?thesis by (simp add: authority_step_def pipeline_def machine_simps)
next
  case (listener k' ls)
  then show ?thesis by (simp add: pipeline_def machine_simps)
qed (simp_all add: advances_pipeline)

lemma enqueued_Cons: "enqueued k (e # es) = enqueued k [e] @ enqueued k es"
  by (cases e) auto

lemma pipeline_run:
  "serial s \<Longrightarrow> pipeline k (run (authority_step rd wr cl) s es) = pipeline k s @ enqueued k es
     \<and> serial (run (authority_step rd wr cl) s es)"
proof (induction es arbitrary: s)
  case (Cons e es)
  have "serial (authority_step rd wr cl s e)" using Cons.prems by (rule step_serial)
  from Cons.IH [OF this] pipeline_step [OF Cons.prems, of k rd wr cl e] show ?case
    by (simp add: enqueued_Cons [of k e es])
qed simp

lemma start_serial: "serial (createStoreAuthority d)"
  by (simp add: serial_def createStoreAuthority_def new_doc_def)

section \<open>The cache and the disk agree\<close>

definition coherent_doc :: "('fs \<Rightarrow> string \<Rightarrow> jsval option) \<Rightarrow> (jsval \<Rightarrow> jsval option) \<Rightarrow> 'fs \<Rightarrow>
    string \<Rightarrow> doc \<Rightarrow> bool" where
  "coherent_doc present trip fs k d \<longleftrightarrow>
     (d_loaded d \<and> (\<forall>v. phase_at 0 d \<noteq> Writing v) \<longrightarrow>
       (case present fs k of None \<Rightarrow> True | Some p \<Rightarrow> p = d_value d \<or> trip (d_value d) = Some p))
     \<and> (\<forall>v. phase_at 0 d = Writing v \<longrightarrow> v = d_value d)
     \<and> (phase_at 0 d = Clearing \<longrightarrow> \<not> d_loaded d)"

definition failed :: "string \<Rightarrow> 'fs authority \<Rightarrow> bool" where
  "failed k s \<longleftrightarrow> (\<exists>i. (k, i, None) \<in> set (results s))"

text \<open>Every document none of whose operations failed agrees with its file up to a codec trip.\<close>

definition coherent :: "('fs \<Rightarrow> string \<Rightarrow> jsval option) \<Rightarrow> (jsval \<Rightarrow> jsval option) \<Rightarrow>
    'fs authority \<Rightarrow> bool" where
  "coherent present trip s \<longleftrightarrow>
     (\<forall>k. \<not> failed k s \<longrightarrow> coherent_doc present trip (disk s) k (docs s k))"

lemma failed_settle:
  "d_queue (docs s k) = (op, p) # rest \<Longrightarrow> failed k' (settle k 0 r s) \<longleftrightarrow> failed k' s \<or> (k' = k \<and> r = None)"
  by (auto simp: failed_def settle_first machine_simps)

lemma failed_other [simp]:
  "failed k' (set_doc k d s) = failed k' s" "failed k' (notify k v ex s) = failed k' s"
  "failed k' (count_op op s) = failed k' s" "failed k' (s\<lparr>disk := x\<rparr>) = failed k' s"
  by (simp_all add: failed_def machine_simps)

lemma docs_settle:
  "d_queue (docs s k) = (op, p) # rest \<Longrightarrow> docs (settle k 0 r s) = (docs s)(k := (docs s k)\<lparr>d_queue := rest\<rparr>)"
  by (simp add: settle_first machine_simps)

text \<open>Once the oldest operation has settled, the next one has not begun.\<close>

lemma serial_rest: "serial s \<Longrightarrow> d_queue (docs s k) = (op, p) # rest \<Longrightarrow> d_queue d = rest \<Longrightarrow> phase_at 0 d = Idle"
  unfolding serial_def by (drule spec [of _ k]) (cases rest; simp add: phase_at_def)

text \<open>A step touches one document and, when it writes, the file of that document.\<close>

lemma coherent_touch:
  assumes c: "coherent present trip s"
    and docs': "\<And>k'. k' \<noteq> k \<Longrightarrow> docs s' k' = docs s k'"
    and disk': "\<And>k'. k' \<noteq> k \<Longrightarrow> present (disk s') k' = present (disk s) k'"
    and fl: "\<And>k'. failed k' s \<Longrightarrow> failed k' s'"
    and d: "coherent_doc present trip (disk s) k (docs s k) \<Longrightarrow> \<not> failed k s' \<Longrightarrow>
      coherent_doc present trip (disk s') k (docs s' k)"
  shows "coherent present trip s'"
  unfolding coherent_def
proof (intro allI impI)
  fix k'
  assume nf: "\<not> failed k' s'"
  with fl c have old: "coherent_doc present trip (disk s) k' (docs s k')"
    by (auto simp: coherent_def)
  show "coherent_doc present trip (disk s') k' (docs s' k')"
  proof (cases "k' = k")
    case True
    with d nf old show ?thesis by simp
  next
    case False
    with old show ?thesis by (simp add: coherent_doc_def docs' disk')
  qed
qed

context doc_backend
begin

lemma begin_coherent:
  assumes "coherent present trip s" and "serial s" and q: "d_queue (docs s k) = (op, Idle) # rest"
  shows "coherent present trip (begin_op k 0 op s)"
proof -
  note r = serial_rest [OF assms(2) q]
  show ?thesis
    by (rule coherent_touch [OF assms(1), where k = k];
        (cases op; auto simp: q begin_op_def commit_def Let_def machine_simps docs_settle [OF q] failed_settle [OF q]
          set_phase_first [of _ op Idle rest] phase_at_first [of _ op _ rest] r coherent_doc_def split: option.splits))
qed

lemma load_coherent:
  assumes "coherent present trip s" and "serial s" and q: "d_queue (docs s k) = (op, Loading) # rest"
  shows "coherent present trip (finish_load rd k 0 op s)"
proof -
  note r = serial_rest [OF assms(2) q]
  have q': "d_queue (docs (set_doc k (docs s k\<lparr>d_value := v, d_loaded := b\<rparr>) s) k) = (op, Loading) # rest" for v b
    using q by (simp add: machine_simps)
  show ?thesis
    by (rule coherent_touch [OF assms(1), where k = k];
        (cases op; auto simp: q finish_load_def commit_def Let_def machine_simps docs_settle [OF q'] failed_settle [OF q']
          set_phase_first [of _ op Loading rest] phase_at_first [of _ op _ rest] r coherent_doc_def rd_present split: option.splits))
qed

lemma write_coherent:
  assumes "coherent present trip s" and "serial s" and q: "d_queue (docs s k) = (op, Writing v) # rest"
  shows "coherent present trip (finish_write wr k 0 op v s)"
proof (cases "wr (disk s) k v")
  case None
  show ?thesis
    by (rule coherent_touch [OF assms(1), where k = k])
       (use None in \<open>auto simp: finish_write_def docs_settle [OF q] failed_settle [OF q] machine_simps\<close>)
next
  case (Some d)
  note r = serial_rest [OF assms(2) q]
  have q': "d_queue (docs (notify k x ex (count_op op (s\<lparr>disk := d\<rparr>))) k) = (op, Writing v) # rest" for ex x
    using q by (simp add: machine_simps)
  show ?thesis
    by (rule coherent_touch [OF assms(1), where k = k])
       (use Some in \<open>auto simp: q finish_write_def machine_simps docs_settle [OF q'] failed_settle [OF q']
          phase_at_first [of _ op _ rest] r coherent_doc_def wr_present wr_other split: option.splits\<close>)
qed

lemma clear_coherent:
  assumes "coherent present trip s" and "serial s" and q: "d_queue (docs s k) = (op, Clearing) # rest"
  shows "coherent present trip (finish_clear cl k 0 op s)"
proof -
  note r = serial_rest [OF assms(2) q]
  have q': "d_queue (docs (notify k v ex (count_op op (s\<lparr>disk := d\<rparr>))) k) = (op, Clearing) # rest" for ex v d
    using q by (simp add: machine_simps)
  show ?thesis
    by (rule coherent_touch [OF assms(1), where k = k])
       (auto simp: q finish_clear_def machine_simps docs_settle [OF q'] failed_settle [OF q']
          phase_at_first [of _ op _ rest] r coherent_doc_def cl_present cl_other)
qed

lemma step_coherent:
  assumes "coherent present trip s" and "serial s"
  shows "coherent present trip (authority_step rd wr cl s e)"
proof (cases e)
  case (Begin k n)
  then show ?thesis using assms begin_coherent
    by (auto simp: authority_step_def dest!: its_turn_first)
next
  case (FsOk k n)
  show ?thesis
  proof (cases "phase_at n (docs s k) = Idle")
    case True
    with assms show ?thesis by (simp add: authority_step_def FsOk Let_def)
  next
    case False
    then obtain op rest where q: "n = 0" "d_queue (docs s k) = (op, phase_at 0 (docs s k)) # rest"
      using in_flight_first [OF assms(2)] by blast
    note n = load_coherent [OF assms, of k op rest] write_coherent [OF assms, of k op _ rest] clear_coherent [OF assms, of k op rest]
    show ?thesis
      using n q by (cases "phase_at 0 (docs s k)") (simp_all add: authority_step_def FsOk assms(1))
  qed
next
  case (FsFail k n)
  show ?thesis
  proof (cases "phase_at n (docs s k) = Idle")
    case True
    with assms show ?thesis by (simp add: authority_step_def FsFail)
  next
    case False
    then obtain op p rest where q: "n = 0" "d_queue (docs s k) = (op, p) # rest"
      using in_flight_first [OF assms(2)] by blast
    with False show ?thesis
      by (intro coherent_touch [OF assms(1), where k = k])
         (auto simp: authority_step_def FsFail machine_simps docs_settle [OF q(2)] failed_settle [OF q(2)])
  qed
next
  case (Enqueue k op)
  have "phase_at 0 (d\<lparr>d_queue := d_queue d @ [(op, Idle)]\<rparr>) = phase_at 0 d" for d
    by (simp add: phase_at_def nth_append)
  then show ?thesis
    by (intro coherent_touch [OF assms(1), where k = k])
       (auto simp: Enqueue authority_step_def machine_simps coherent_doc_def split: option.splits)
next
  case (Subscribe k l)
  have "phase_at 0 (d\<lparr>d_listeners := ls\<rparr>) = phase_at 0 d" for d ls by (simp add: phase_at_def)
  then show ?thesis
    by (intro coherent_touch [OF assms(1), where k = k])
       (auto simp: Subscribe authority_step_def machine_simps coherent_doc_def split: option.splits)
next
  case (Unsubscribe k l)
  have "phase_at 0 (d\<lparr>d_listeners := ls\<rparr>) = phase_at 0 d" for d ls by (simp add: phase_at_def)
  then show ?thesis
    by (intro coherent_touch [OF assms(1), where k = k])
       (auto simp: Unsubscribe authority_step_def machine_simps coherent_doc_def split: option.splits)
qed

lemma start_coherent: "coherent present trip (createStoreAuthority d)"
  by (simp add: coherent_def coherent_doc_def createStoreAuthority_def new_doc_def phase_at_def)

lemma write_notices:
  "notices (finish_write wr k n op v s) = notices s @ (case wr (disk s) k v of None \<Rightarrow> []
     | Some d \<Rightarrow> map (\<lambda>l. (k, l, v)) (filter (\<lambda>l. Some l \<noteq> op_except op) (d_listeners (docs s k))))"
  by (simp add: finish_write_def machine_simps notify_def split: option.splits)

lemma clear_notices:
  "notices (finish_clear cl k n op s) = notices s
     @ map (\<lambda>l. (k, l, JUndef)) (filter (\<lambda>l. Some l \<noteq> op_except op) (d_listeners (docs s k)))"
  by (simp add: finish_clear_def machine_simps notify_def)

lemma notice_committed:
  "\<exists>new. notices (authority_step rd wr cl s e) = notices s @ new \<and>
     (\<forall>(k, l, v) \<in> set new. present (disk (authority_step rd wr cl s e)) k = trip v
         \<or> v = JUndef \<and> present (disk (authority_step rd wr cl s e)) k = None)"
proof -
  have ld: "notices (finish_load rd k n op s) = notices s" for k n op
    by (simp add: finish_load_def commit_def Let_def machine_simps split: store_op.splits)
  have bg: "notices (begin_op k n op s) = notices s" for k n op
    by (simp add: begin_op_def commit_def Let_def machine_simps split: store_op.splits)
  show ?thesis
    by (cases e; auto simp: authority_step_def Let_def machine_simps ld bg write_notices clear_notices
        finish_write_def finish_clear_def notify_def wr_present cl_present
        split: list.splits phase.splits option.splits)
qed

end

text \<open>The authority over the JSON files, as a machine whose histories keep the cache coherent.\<close>

interpretation store_machine: started_machine "authority_step (fs_read P) atomicWrite fs_clear"
    "\<lambda>s. coherent (fs_present P) (codec_trip P) s \<and> serial s" "createStoreAuthority d" for P d
  by unfold_locales (simp_all add: json_files.step_coherent json_files.start_coherent step_serial start_serial)

section \<open>Properties\<close>

text \<open>
  C8. Operations of one document never overlap and never overtake each other: in every history, whatever the
  other documents do and whichever file operations fail, at most the oldest request that has not settled has
  begun, and the requests that settled followed by those that have not are the requests in the order they were
  made, none lost and none answered twice.
\<close>

theorem requests_settle_in_order:
  fixes rd wr cl and d :: 'fs and es
  defines "s \<equiv> run (authority_step rd wr cl) (createStoreAuthority d) es"
  shows "pipeline k s = enqueued k es \<and> list_all (\<lambda>x. snd x = Idle) (tl (d_queue (docs s k)))"
proof -
  have "pipeline k (createStoreAuthority d) = []"
    by (simp add: pipeline_def createStoreAuthority_def new_doc_def)
  with pipeline_run [OF start_serial, of k rd wr cl d es] show ?thesis by (simp add: s_def serial_def)
qed

text \<open>
  A queued request settles: once its turn has come, starting it and letting its file
  operations complete takes it off the queue, whichever operation it is and whether or not the
  document was loaded.
\<close>

theorem head_request_settles:
  assumes "d_queue (docs s k) = [(op, Idle)]"
  shows "d_queue (docs (run (authority_step rd wr cl) s [Begin k 0, FsOk k 0, FsOk k 0]) k) = []"
proof -
  have t: "its_turn 0 (docs s k)" using assms by (simp add: its_turn_def phase_at_def)
  show ?thesis
    by (cases op; cases "d_loaded (docs s k)"; cases "wr (disk s) k (op_value op (d_value (docs s k)))";
        cases "wr (disk s) k (op_value op (rd (disk s) k (JObj [])))")
      (simp_all add: t assms authority_step_def begin_op_def commit_def finish_load_def finish_write_def finish_clear_def
        set_phase_def settle_def phase_at_def Let_def machine_simps)
qed

theorem head_request_settles_witness:
  "d_queue (docs (run (authority_step (\<lambda>_ _ fb. fb) (\<lambda>d _ _. Some d) (\<lambda>d _. d))
      (authority_step (\<lambda>_ _ fb. fb) (\<lambda>d _ _. Some d) (\<lambda>d _. d) (createStoreAuthority ())
        (Enqueue ''a'' (OUpdate 7 (JObj []) None))) [Begin ''a'' 0, FsOk ''a'' 0, FsOk ''a'' 0]) ''a'') = []"
  by (rule head_request_settles [where op = "OUpdate 7 (JObj []) None"])
    (simp add: authority_step_def machine_simps createStoreAuthority_def new_doc_def)

text \<open>
  C9. The cache agrees with the file: in every history over the JSON files, a document none of whose operations
  has failed, that is loaded, has nothing under way, has a file and holds a storable value holds exactly the value
  that a read of its file returns. (After a failed write it does not: see \<open>rejected_write_is_served\<close>.)
\<close>

theorem cache_agrees_with_file:
  fixes P d es
  defines "s \<equiv> run (authority_step (fs_read P) atomicWrite fs_clear) (createStoreAuthority d) es"
  assumes "\<not> failed k s" and "d_loaded (docs s k)" and "phase_at 0 (docs s k) = Idle"
    and "fs_present P (disk s) k \<noteq> None" and "storable (d_value (docs s k))"
  shows "fs_read P (disk s) k fb = d_value (docs s k)"
proof -
  have "coherent (fs_present P) (codec_trip P) s"
    unfolding s_def using store_machine.reachable_inv [of P d es] by blast
  with assms(2) have "coherent_doc (fs_present P) (codec_trip P) (disk s) k (docs s k)"
    by (simp add: coherent_def)
  with assms(3-6) obtain p where "fs_present P (disk s) k = Some p" "p = d_value (docs s k)"
    by (auto simp: coherent_doc_def codec_trip_storable)
  then show ?thesis by (simp add: json_files.rd_present)
qed

theorem cache_agrees_with_file_witness:
  "let P = \<lparr>to_string_of = (\<lambda>_. []), date_of = (\<lambda>_. None)\<rparr>;
       s = run (authority_step (fs_read P) atomicWrite fs_clear) (createStoreAuthority Map.empty)
         [Enqueue ''a'' (OWrite 1 (JBool True) None), Begin ''a'' 0, FsOk ''a'' 0]
   in fs_read P (disk s) ''a'' JNull = d_value (docs s ''a'') \<and> d_value (docs s ''a'') = JBool True"
proof -
  define P where "P = \<lparr>to_string_of = (\<lambda>_. []), date_of = (\<lambda>_. None)\<rparr>"
  define es where "es = [Enqueue ''a'' (OWrite 1 (JBool True) None), Begin ''a'' 0, FsOk ''a'' 0]"
  define s where "s = run (authority_step (fs_read P) atomicWrite fs_clear)
    (createStoreAuthority Map.empty) es"
  have w: "atomicWrite Map.empty ''a'' (JBool True) = Some [''a'' \<mapsto> Doc (JsBool True)]"
    by (simp add: atomicWrite_def stringify.simps)
  have s: "\<not> failed ''a'' s" "d_loaded (docs s ''a'')" "phase_at 0 (docs s ''a'') = Idle"
    "fs_present P (disk s) ''a'' \<noteq> None" "d_value (docs s ''a'') = JBool True"
    by (simp_all add: s_def es_def authority_step_def begin_op_def commit_def finish_write_def
        createStoreAuthority_def new_doc_def set_doc_def notify_def settle_def set_phase_def phase_at_def its_turn_def failed_def
        fs_present_def Let_def w)
  then have "fs_read P (disk s) ''a'' JNull = d_value (docs s ''a'')"
    using cache_agrees_with_file [of "''a''" P Map.empty es JNull] by (simp add: s_def)
  with s(5) show ?thesis by (simp add: s_def es_def P_def)
qed

text \<open>
  Broadcasts never carry an uncommitted value: whenever a step notifies listeners of a value,
  the file already holds that value (or, for a clear, is gone).
\<close>

theorem broadcasts_are_committed:
  "\<exists>new. notices (authority_step (fs_read P) atomicWrite fs_clear s e) = notices s @ new \<and>
     (\<forall>(k, l, v) \<in> set new.
        fs_present P (disk (authority_step (fs_read P) atomicWrite fs_clear s e)) k = codec_trip P v
        \<or> v = JUndef \<and>
          fs_present P (disk (authority_step (fs_read P) atomicWrite fs_clear s e)) k = None)"
  by (rule json_files.notice_committed)

theorem broadcasts_are_committed_witness:
  "let P = \<lparr>to_string_of = (\<lambda>_. []), date_of = (\<lambda>_. None)\<rparr>;
       s = run (authority_step (fs_read P) atomicWrite fs_clear) (createStoreAuthority Map.empty)
         [Subscribe ''a'' 5, Enqueue ''a'' (OWrite 1 (JBool True) None), Begin ''a'' 0]
   in notices (authority_step (fs_read P) atomicWrite fs_clear s (FsOk ''a'' 0))
        = [(''a'', 5, JBool True)]
      \<and> (\<exists>new. notices (authority_step (fs_read P) atomicWrite fs_clear s (FsOk ''a'' 0))
          = notices s @ new)"
proof -
  define P where "P = \<lparr>to_string_of = (\<lambda>_. []), date_of = (\<lambda>_. None)\<rparr>"
  define s where "s = run (authority_step (fs_read P) atomicWrite fs_clear)
    (createStoreAuthority Map.empty)
    [Subscribe ''a'' 5, Enqueue ''a'' (OWrite 1 (JBool True) None), Begin ''a'' 0]"
  have w: "atomicWrite Map.empty ''a'' (JBool True) = Some [''a'' \<mapsto> Doc (JsBool True)]"
    by (simp add: atomicWrite_def stringify.simps)
  have "notices (authority_step (fs_read P) atomicWrite fs_clear s (FsOk ''a'' 0))
      = [(''a'', 5, JBool True)]"
    by (simp add: s_def authority_step_def begin_op_def commit_def finish_write_def
        createStoreAuthority_def new_doc_def set_doc_def notify_def settle_def set_phase_def phase_at_def its_turn_def Let_def w)
  moreover from broadcasts_are_committed [of P s "FsOk ''a'' 0"]
  have "\<exists>new. notices (authority_step (fs_read P) atomicWrite fs_clear s (FsOk ''a'' 0))
      = notices s @ new" by blast
  ultimately show ?thesis by (simp add: s_def P_def Let_def)
qed

text \<open>
  A rejected write is served by later reads: the cached value is replaced before the file is
  written and is not restored when the write fails, so the next read returns a value that no file
  holds.
\<close>

theorem rejected_write_is_served:
  "let s = run (authority_step rd wr cl) (createStoreAuthority d)
      [Enqueue k (OWrite 1 v None), Begin k 0, FsFail k 0, Enqueue k (ORead 2 fb), Begin k 0]
   in results s = [(k, 1, None), (k, 2, Some v)] \<and> disk s = d"
  by (simp add: authority_step_def begin_op_def commit_def createStoreAuthority_def new_doc_def
      set_doc_def settle_def set_phase_def phase_at_def its_turn_def Let_def)

end
