(* ===== verification/Canonical.thy ===== *)
theory Canonical
  imports StoreCodec "HOL-Library.List_Lexorder" "HOL-Library.Char_ord" "HOL-Library.Multiset"
begin

text \<open>
  The canonical serialization behind every content-hash id (\<open>canonicalize\<close> and \<open>sortDeep\<close> of
  \<open>app/lib/calibration-records.ts\<close>): object keys sorted at every depth, array order kept,
  \<open>undefined\<close> members left out, binary payloads folded into the shape the store codec writes. The
  lemmas show that the form ignores key order and that a live value and its encoding on disk have
  the same form, which is the contract the record ids rest on. As in the codec, the text is a tree of
  JSON values.
\<close>

section \<open>Definitions\<close>

text \<open>The same loop and \<open>btoa\<close> call as the codec's \<open>toBase64\<close>.\<close>

definition bufferBase64 :: "bytes \<Rightarrow> string" where
  "bufferBase64 bs = toBase64 bs"

definition typedArrayProps :: "jsval table \<Rightarrow> jsval" where
  "typedArrayProps ps = (let out = filter (\<lambda>(k, _). \<not> all_digits k) ps
     in if out = [] then JUndef else JObj out)"

lemma wt_typedArrayProps: "wt (typedArrayProps ps) \<le> 1 + wt_table ps"
  using wt_table_filter [of "\<lambda>(k, _). \<not> all_digits k" ps]
  by (simp add: typedArrayProps_def Let_def)

text \<open>
  A \<open>Date\<close> is an object without enumerable members of its own, so all that is kept of it are the
  properties assigned to it.
\<close>

function sortDeep :: "jsval \<Rightarrow> jsval" and sortDeep_list :: "jsval list \<Rightarrow> jsval list"
  and sortDeep_table :: "jsval table \<Rightarrow> jsval table" where
  "sortDeep v = (case v of
      JBuf bs ps \<Rightarrow> sortDeep (JObj [(''type'', JStr ''ArrayBuffer''),
        (''buffer'', JStr (bufferBase64 bs)), (''props'', typedArrayProps ps)])
    | JView kind bs ps \<Rightarrow> sortDeep (JObj [(''type'', JStr (view_name kind)),
        (''buffer'', JStr (bufferBase64 bs)), (''props'', typedArrayProps ps)])
    | JArr vs \<Rightarrow> JArr (sortDeep_list vs)
    | JObj ps \<Rightarrow> JObj (sort_key fst (sortDeep_table ps))
    | JDate _ ps \<Rightarrow> JObj (sort_key fst (sortDeep_table ps))
    | _ \<Rightarrow> v)"
| "sortDeep_list [] = []"
| "sortDeep_list (v # vs) = sortDeep v # sortDeep_list vs"
| "sortDeep_table [] = []"
| "sortDeep_table ((k, v) # ps) =
     (if v = JUndef then sortDeep_table ps else (k, sortDeep v) # sortDeep_table ps)"
  by pat_completeness auto
termination
  by (relation "measure (\<lambda>x. case x of Inl v \<Rightarrow> wt v | Inr (Inl vs) \<Rightarrow> wt_list vs
        | Inr (Inr ps) \<Rightarrow> wt_table ps)")
     (auto simp: le_less_trans [OF wt_typedArrayProps] less_Suc_eq_le
       intro!: le_less_trans [OF wt_typedArrayProps])

declare sortDeep.simps(1) [simp del]

lemma sortDeep_eqs [simp]:
  "sortDeep JUndef = JUndef" "sortDeep JNull = JNull" "sortDeep (JBool b) = JBool b"
  "sortDeep (JNum n) = JNum n" "sortDeep (JStr s) = JStr s" "sortDeep (JBig i) = JBig i"
  "sortDeep (JProto k) = JProto k" "sortDeep (JArr vs) = JArr (sortDeep_list vs)"
  "sortDeep (JObj ps) = JObj (sort_key fst (sortDeep_table ps))"
  "sortDeep (JDate t ps) = JObj (sort_key fst (sortDeep_table ps))"
  by (simp_all add: sortDeep.simps(1))

lemma sortDeep_binary:
  "sortDeep (JBuf bs ps) = sortDeep (JObj [(''type'', JStr ''ArrayBuffer''),
     (''buffer'', JStr (bufferBase64 bs)), (''props'', typedArrayProps ps)])"
  "sortDeep (JView kind bs ps) = sortDeep (JObj [(''type'', JStr (view_name kind)),
     (''buffer'', JStr (bufferBase64 bs)), (''props'', typedArrayProps ps)])"
  by (subst sortDeep.simps(1), simp)+

fun has_big :: "jsval \<Rightarrow> bool" and has_big_list :: "jsval list \<Rightarrow> bool"
  and has_big_table :: "jsval table \<Rightarrow> bool" where
  "has_big (JBig _) = True"
| "has_big (JArr vs) = has_big_list vs"
| "has_big (JObj ps) = has_big_table ps"
| "has_big _ = False"
| "has_big_list [] = False"
| "has_big_list (v # vs) = (has_big v \<or> has_big_list vs)"
| "has_big_table [] = False"
| "has_big_table ((_, v) # ps) = (has_big v \<or> has_big_table ps)"

text \<open>
  \<open>JSON.stringify\<close> without a replacer: a big integer is a \<open>TypeError\<close>, and on what
  \<open>sortDeep\<close> leaves (lemma \<open>sortDeep_plain\<close>) the codec's replacer is the identity otherwise.
\<close>

definition canonicalize :: "jsval \<Rightarrow> js_error + json option" where
  "canonicalize v = (let w = sortDeep v in if has_big w then Inl TypeError else Inr (stringify w))"

section \<open>What is left after sorting\<close>

fun plain_value :: "jsval \<Rightarrow> bool" and plain_values :: "jsval list \<Rightarrow> bool"
  and plain_table :: "jsval table \<Rightarrow> bool" where
  "plain_value (JArr vs) = plain_values vs"
| "plain_value (JObj ps) = plain_table ps"
| "plain_value (JDate _ _) = False"
| "plain_value (JBuf _ _) = False"
| "plain_value (JView _ _ _) = False"
| "plain_value _ = True"
| "plain_values [] = True"
| "plain_values (v # vs) = (plain_value v \<and> plain_values vs)"
| "plain_table [] = True"
| "plain_table ((_, v) # ps) = (plain_value v \<and> plain_table ps)"

lemma plain_table_iff: "plain_table ps \<longleftrightarrow> (\<forall>p \<in> set ps. plain_value (snd p))"
  by (induction ps) auto

lemma sortDeep_plain:
  "plain_value (sortDeep v)" "plain_values (sortDeep_list vs)" "plain_table (sortDeep_table ps)"
proof (induction v and vs and ps rule: sortDeep_sortDeep_list_sortDeep_table.induct)
  case (1 v)
  then show ?case
    by (cases v) (simp_all add: sortDeep_binary plain_table_iff del: sortDeep_eqs(9), auto simp: plain_table_iff)
qed auto

lemma plain_replacer:
  "plain_value v \<Longrightarrow> \<not> has_big v \<Longrightarrow> replacer (toJSON v) = Some v"
  by (cases v rule: plain_value.cases) auto

section \<open>A live value and its encoding\<close>

text \<open>\<open>JSON.parse\<close> without a reviver, as the migration runner reads documents.\<close>

fun json_js :: "json \<Rightarrow> jsval" and json_js_list :: "json list \<Rightarrow> jsval list"
  and json_js_table :: "json table \<Rightarrow> jsval table" where
  "json_js JsNull = JNull"
| "json_js (JsBool b) = JBool b"
| "json_js (JsNum x) = JNum (Fin x)"
| "json_js (JsStr s) = JStr s"
| "json_js (JsArr js) = JArr (json_js_list js)"
| "json_js (JsObj ps) = JObj (json_js_table ps)"
| "json_js_list [] = []"
| "json_js_list (j # js) = json_js j # json_js_list js"
| "json_js_table [] = []"
| "json_js_table ((k, j) # ps) = (k, json_js j) # json_js_table ps"

text \<open>
  The payloads the contract covers: no big integer, no \<open>Date\<close>, finite numbers; \<open>undefined\<close> only
  as a member of an object.
\<close>

fun hashable :: "jsval \<Rightarrow> bool" and hashable_list :: "jsval list \<Rightarrow> bool"
  and hashable_table :: "jsval table \<Rightarrow> bool" where
  "hashable JNull = True"
| "hashable (JBool _) = True"
| "hashable (JStr _) = True"
| "hashable (JNum n) = (case n of Fin _ \<Rightarrow> True | _ \<Rightarrow> False)"
| "hashable (JArr vs) = hashable_list vs"
| "hashable (JObj ps) = hashable_table ps"
| "hashable (JBuf _ ps) = hashable_table ps"
| "hashable (JView _ _ ps) = hashable_table ps"
| "hashable _ = False"
| "hashable_list [] = True"
| "hashable_list (v # vs) = (hashable v \<and> hashable_list vs)"
| "hashable_table [] = True"
| "hashable_table ((_, v) # ps) = ((v = JUndef \<or> hashable v) \<and> hashable_table ps)"

lemma hashable_table_filter: "hashable_table ps \<Longrightarrow> hashable_table (filter P ps)"
  by (induction ps) auto

lemma typedArrayProps_own: "typedArrayProps ps = ownProperties ps"
  by (simp add: typedArrayProps_def ownProperties_def)

lemma json_js_defined: "json_js j \<noteq> JUndef"
  by (cases j) auto

lemma stringify_hashable: "hashable v \<Longrightarrow> \<exists>j. stringify v = Some j"
  by (cases v rule: hashable.cases) (auto simp: stringify.simps split: jsnum.splits)

lemma hashable_ownProperties:
  "hashable_table ps \<Longrightarrow> ownProperties ps = JUndef \<or> hashable (ownProperties ps)"
  by (simp add: ownProperties_def Let_def hashable_table_filter)

lemma sortDeep_encoding:
  "stringify v = Some j \<Longrightarrow> hashable v \<Longrightarrow> sortDeep (json_js j) = sortDeep v"
  "hashable_list vs \<Longrightarrow> sortDeep_list (json_js_list (stringify_list vs)) = sortDeep_list vs"
  "hashable_table ps \<Longrightarrow> sortDeep_table (json_js_table (stringify_table ps)) = sortDeep_table ps"
proof (induction v and vs and ps arbitrary: j rule: stringify_stringify_list_stringify_table.induct)
  case (1 v)
  show ?case
  proof (cases v)
    case (JBuf bs ps)
    let ?ps = "[(''type'', JStr ''ArrayBuffer''), (''buffer'', JStr (toBase64 bs)),
      (''props'', ownProperties ps)]"
    have r: "replacer (toJSON v) = Some (JObj ?ps)" by (simp add: JBuf)
    have "j = JsObj (stringify_table ?ps)"
      using 1(3) unfolding stringify.simps(1) [of v] r by (simp del: stringify_table.simps)
    moreover have "hashable_table ?ps"
      using 1(4) hashable_ownProperties [of ps] by (auto simp: JBuf)
    moreover have "sortDeep v = sortDeep (JObj ?ps)"
      by (simp add: JBuf sortDeep_binary bufferBase64_def typedArrayProps_own del: sortDeep_eqs)
    ultimately show ?thesis using 1(2) [OF r, of ?ps] by (simp del: stringify_table.simps)
  next
    case (JView kind bs ps)
    let ?ps = "[(''type'', JStr (view_name kind)), (''buffer'', JStr (toBase64 bs)),
      (''props'', ownProperties ps)]"
    have r: "replacer (toJSON v) = Some (JObj ?ps)" by (simp add: JView)
    have "j = JsObj (stringify_table ?ps)"
      using 1(3) unfolding stringify.simps(1) [of v] r by (simp del: stringify_table.simps)
    moreover have "hashable_table ?ps"
      using 1(4) hashable_ownProperties [of ps] by (auto simp: JView)
    moreover have "sortDeep v = sortDeep (JObj ?ps)"
      by (simp add: JView sortDeep_binary bufferBase64_def typedArrayProps_own del: sortDeep_eqs)
    ultimately show ?thesis using 1(2) [OF r, of ?ps] by (simp del: stringify_table.simps)
  next
    case (JArr vs)
    with 1 show ?thesis by (auto simp: stringify.simps)
  next
    case (JObj vs)
    with 1 show ?thesis by (auto simp: stringify.simps)
  qed (use 1 in \<open>auto simp: stringify.simps split: jsnum.splits\<close>)
next
  case (3 v vs)
  then show ?case by (auto dest!: stringify_hashable)
next
  case (5 k v ps)
  show ?case
  proof (cases "v = JUndef")
    case True
    with 5 show ?thesis by (simp add: stringify_undef)
  next
    case False
    with 5(4) have "hashable v" by simp
    then obtain j where "stringify v = Some j" using stringify_hashable by blast
    with False 5 \<open>hashable v\<close> show ?thesis by (simp add: json_js_defined)
  qed
qed auto


lemma canonicalize_cong: "sortDeep v = sortDeep w \<Longrightarrow> canonicalize v = canonicalize w"
  by (simp add: canonicalize_def)

lemma hashable_no_big:
  "hashable v \<Longrightarrow> \<not> has_big (sortDeep v)"
  "hashable_list vs \<Longrightarrow> \<not> has_big_list (sortDeep_list vs)"
  "hashable_table ps \<Longrightarrow> \<forall>p \<in> set (sortDeep_table ps). \<not> has_big (snd p)"
proof (induction v and vs and ps rule: sortDeep_sortDeep_list_sortDeep_table.induct)
  case (1 v)
  have t: "has_big_table qs \<longleftrightarrow> (\<exists>q \<in> set qs. has_big (snd q))" for qs
    by (induction qs) auto
  show ?case
  proof (cases v)
    case (JBuf bs ps)
    with 1 show ?thesis
      using hashable_ownProperties [of ps]
      by (auto simp: sortDeep_binary typedArrayProps_own simp del: sortDeep_eqs(9))
  next
    case (JView kind bs ps)
    with 1 show ?thesis
      using hashable_ownProperties [of ps]
      by (auto simp: sortDeep_binary typedArrayProps_own simp del: sortDeep_eqs(9))
  qed (use 1 in \<open>auto simp: t\<close>)
qed auto

lemma canonicalize_hashable: "hashable v \<Longrightarrow> \<exists>t. canonicalize v = Inr t"
  using hashable_no_big(1) by (simp add: canonicalize_def Let_def)

section \<open>Key order\<close>

text \<open>Two values that differ only in the order of the keys of objects, at any depth.\<close>

inductive reordered :: "jsval \<Rightarrow> jsval \<Rightarrow> bool" where
  same: "reordered v v"
| keys: "mset ps = mset qs \<Longrightarrow> distinct (keys_of ps) \<Longrightarrow> reordered (JObj ps) (JObj qs)"
| props: "mset ps = mset qs \<Longrightarrow> distinct (keys_of ps) \<Longrightarrow>
    reordered (JView kind bs ps) (JView kind bs qs)"
| member: "reordered v w \<Longrightarrow> reordered (JObj (ps @ (k, v) # qs)) (JObj (ps @ (k, w) # qs))"
| item: "reordered v w \<Longrightarrow> reordered (JArr (vs @ v # ws)) (JArr (vs @ w # ws))"
| chain: "reordered u v \<Longrightarrow> reordered v w \<Longrightarrow> reordered u w"

inductive_cases reordered_undef: "reordered v JUndef" "reordered JUndef v"

lemma sortDeep_table_map:
  "sortDeep_table ps = map (\<lambda>(k, v). (k, sortDeep v)) (filter (\<lambda>(_, v). v \<noteq> JUndef) ps)"
  by (induction ps) auto

lemma sortDeep_list_map: "sortDeep_list vs = map sortDeep vs"
  by (induction vs) auto

lemma keys_sortDeep_table: "keys_of (sortDeep_table ps) = keys_of (filter (\<lambda>(_, v). v \<noteq> JUndef) ps)"
  by (simp add: sortDeep_table_map keys_of_def case_prod_beta comp_def)

lemma sort_key_perm:
  fixes xs ys :: "('k::linorder \<times> 'v) list"
  assumes "mset xs = mset ys" and "distinct (keys_of xs)"
  shows "sort_key fst xs = sort_key fst ys"
proof (rule map_sorted_distinct_set_unique)
  have d: "distinct (map fst xs)" and eq: "set xs = set ys" and m: "mset (map fst xs) = mset (map fst ys)"
    using assms mset_eq_setD [OF assms(1)] by (simp_all add: keys_of_def)
  show "inj_on fst (set (sort_key fst xs) \<union> set (sort_key fst ys))"
    using d eq by (simp add: distinct_map)
  have k: "distinct (map fst zs) \<Longrightarrow> distinct (map fst (sort_key fst zs))" for zs :: "('k \<times> 'v) list"
    by (simp add: distinct_map)
  show "distinct (map fst (sort_key fst ys))" "distinct (map fst (sort_key fst xs))"
    by (rule k, use d mset_eq_imp_distinct_iff [OF m] in blast)+
  show "set (sort_key fst xs) = set (sort_key fst ys)" using eq by simp
qed simp_all

lemma sort_table_perm:
  assumes "mset ps = mset qs" and "distinct (keys_of ps)"
  shows "sort_key fst (sortDeep_table ps) = sort_key fst (sortDeep_table qs)"
proof (rule sort_key_perm)
  show "mset (sortDeep_table ps) = mset (sortDeep_table qs)"
    using assms(1) by (simp add: sortDeep_table_map)
  show "distinct (keys_of (sortDeep_table ps))"
    by (simp add: keys_sortDeep_table distinct_keys_filter assms(2))
qed

lemma sort_ownProperties:
  assumes "mset ps = mset qs" and "distinct (keys_of ps)"
  shows "sortDeep (ownProperties ps) = sortDeep (ownProperties qs)
    \<and> (ownProperties ps = JUndef \<longleftrightarrow> ownProperties qs = JUndef)"
proof -
  let ?f = "filter (\<lambda>(k, _). \<not> all_digits k)"
  have m: "mset (?f ps) = mset (?f qs)" using assms(1) by simp
  have "?f ps = [] \<longleftrightarrow> ?f qs = []" using m by (metis mset_zero_iff)
  then show ?thesis
    using sort_table_perm [OF m distinct_keys_filter [OF assms(2)]]
    by (auto simp: ownProperties_def Let_def)
qed

lemma reordered_undef_iff: "reordered v w \<Longrightarrow> (v = JUndef) = (w = JUndef)"
  by (induction rule: reordered.induct) auto

lemma sortDeep_reordered: "reordered v w \<Longrightarrow> sortDeep v = sortDeep w"
proof (induction rule: reordered.induct)
  case (keys ps qs)
  then show ?case by (simp add: sort_table_perm)
next
  case (props ps qs kind bs)
  then show ?case
    using sort_ownProperties [OF props] by (simp add: sortDeep_binary typedArrayProps_own)
next
  case (member v w ps k qs)
  then show ?case
    using reordered_undef_iff [OF member.hyps] by (simp add: sortDeep_table_map)
qed (auto simp: sortDeep_list_map)

section \<open>Properties\<close>

text \<open>
  The id contract: a payload (typed arrays with their \<open>shape\<close> and \<open>channels\<close> included) and the
  plain-JSON reading of its encoding on disk have the same canonical form, which exists.
\<close>

theorem live_and_stored_agree:
  assumes "hashable v" and "stringify v = Some j"
  shows "canonicalize (json_js j) = canonicalize v \<and> (\<exists>t. canonicalize v = Inr t)"
  using assms canonicalize_cong [OF sortDeep_encoding(1)] canonicalize_hashable by blast

theorem live_and_stored_agree_witness:
  "canonicalize (json_js (JsObj [(''type'', JsStr ''Float64Array''), (''buffer'', JsStr []),
     (''props'', JsObj [(''shape'', JsArr [JsNum 0])])]))
   = canonicalize (JView Float64Array [] [(''shape'', JArr [JNum (Fin 0)])])"
proof -
  have "stringify (JView Float64Array [] [(''shape'', JArr [JNum (Fin 0)])])
    = Some (JsObj [(''type'', JsStr ''Float64Array''), (''buffer'', JsStr []),
        (''props'', JsObj [(''shape'', JsArr [JsNum 0])])])"
    by (simp add: stringify.simps toBase64_def ownProperties_def all_digits_def)
  from live_and_stored_agree [OF _ this] show ?thesis by simp
qed

text \<open>Values that differ only in key order, at any depth, have the same canonical form.\<close>

theorem key_order_is_ignored:
  assumes "reordered v w"
  shows "canonicalize v = canonicalize w"
  by (rule canonicalize_cong [OF sortDeep_reordered [OF assms]])

theorem key_order_is_ignored_witness:
  "canonicalize (JArr [JObj [(''x'', JNull), (''a'', JBool True)]])
   = canonicalize (JArr [JObj [(''a'', JBool True), (''x'', JNull)]])"
proof -
  have "reordered (JObj [(''x'', JNull), (''a'', JBool True)])
    (JObj [(''a'', JBool True), (''x'', JNull)])"
    by (rule reordered.keys) (simp_all add: keys_of_def)
  from reordered.item [OF this, of "[]" "[]"]
  have "reordered (JArr [JObj [(''x'', JNull), (''a'', JBool True)]])
    (JArr [JObj [(''a'', JBool True), (''x'', JNull)]])" by simp
  then show ?thesis by (rule key_order_is_ignored)
qed

end
