(* ===== verification/CalibrationRecords.thy ===== *)
theory CalibrationRecords
  imports Canonical
begin

text \<open>
  Calibration records (\<open>app/lib/calibration-records.ts\<close>): an immutable payload named by its
  content hash, and mutable metadata with the bindings to camera triples. The SHA-256 digest is a
  parameter \<open>sha\<close>: the 64 lowercase hex digits of a canonical text. A rejected hash (a big integer
  in the payload) is an \<open>Inl\<close>.
\<close>

section \<open>Data\<close>

datatype record_kind = Extrinsic | Intrinsic

fun recordStore :: "record_kind \<Rightarrow> string" where
  "recordStore Intrinsic = ''calibrate-intrinsic''"
| "recordStore Extrinsic = ''calibrate-extrinsic''"

text \<open>\<open>ExtrinsicInner\<close> holds the data points, \<open>IntrinsicInner\<close> the members of the solve payload.\<close>

datatype rec_inner = ExtrinsicInner "jsval list" | IntrinsicInner "jsval table"

fun inner_kind :: "rec_inner \<Rightarrow> record_kind" where
  "inner_kind (ExtrinsicInner _) = Extrinsic"
| "inner_kind (IntrinsicInner _) = Intrinsic"

fun inner_js :: "rec_inner \<Rightarrow> jsval" where
  "inner_js (ExtrinsicInner ds) = JObj [(''kind'', JStr ''extrinsic''), (''dataset'', JArr ds)]"
| "inner_js (IntrinsicInner cal) =
     JObj [(''kind'', JStr ''intrinsic''), (''calibration'', JObj cal)]"

record association =
  cameraKey :: string
  tripleHash :: "string option"
  role :: "string option"

record rec_meta =
  created :: string
  label :: "string option"
  associations :: "association list"
  sources :: "string list option"

record cal_record =
  rec_id :: string
  inner :: rec_inner
  outer :: rec_meta

section \<open>Content-hash identity\<close>

definition RECORD_ID_HEX :: nat where "RECORD_ID_HEX = 32"

definition hex_digit :: "char \<Rightarrow> bool" where
  "hex_digit c \<longleftrightarrow> c \<in> set ''0123456789abcdef''"

definition isRecordId :: "string \<Rightarrow> bool" where
  "isRecordId name \<longleftrightarrow> length name = RECORD_ID_HEX \<and> list_all hex_digit name"

definition full_hash :: "string \<Rightarrow> bool" where
  "full_hash s \<longleftrightarrow> length s = 64 \<and> list_all hex_digit s"

definition truncateHashHex :: "string \<Rightarrow> string" where
  "truncateHashHex s = take RECORD_ID_HEX s"

type_synonym sha = "json option \<Rightarrow> string"

definition stableHash :: "sha \<Rightarrow> json option \<Rightarrow> string" where
  "stableHash sha canonical = truncateHashHex (sha canonical)"

definition recordId :: "sha \<Rightarrow> rec_inner \<Rightarrow> js_error + string" where
  "recordId sha i = map_sum id (stableHash sha) (canonicalize (inner_js i))"

definition extrinsicInner :: "jsval list \<Rightarrow> rec_inner" where
  "extrinsicInner ds = ExtrinsicInner ds"

definition intrinsicInner :: "jsval table \<Rightarrow> rec_inner" where
  "intrinsicInner calibration = IntrinsicInner (filter (\<lambda>(k, _). k \<noteq> ''date'') calibration)"

definition makeRecord :: "sha \<Rightarrow> rec_inner \<Rightarrow> rec_meta \<Rightarrow> js_error + cal_record" where
  "makeRecord sha i m = map_sum id (\<lambda>h. \<lparr>rec_id = h, inner = i, outer = m\<rparr>) (recordId sha i)"

text \<open>\<open>reKeyTripleHash\<close>, on a present hash and on an optional one.\<close>

definition reKeyTripleHash :: "string \<Rightarrow> string" where
  "reKeyTripleHash h = (if full_hash h then truncateHashHex h else h)"

definition migrateLegacyExtrinsic ::
    "sha \<Rightarrow> string \<Rightarrow> jsval list \<Rightarrow> string \<Rightarrow> string option \<Rightarrow> string option \<Rightarrow> string option
     \<Rightarrow> js_error + cal_record" where
  "migrateLegacyExtrinsic sha key ds cre th ro lab =
     makeRecord sha (extrinsicInner ds)
       \<lparr>created = cre, label = lab,
        associations = [\<lparr>cameraKey = key, tripleHash = th, role = ro\<rparr>], sources = None\<rparr>"

definition migrateLegacyIntrinsic ::
    "sha \<Rightarrow> string \<Rightarrow> jsval table \<Rightarrow> string \<Rightarrow> string option \<Rightarrow> string option
     \<Rightarrow> js_error + cal_record" where
  "migrateLegacyIntrinsic sha key cal cre ro lab =
     makeRecord sha (intrinsicInner cal)
       \<lparr>created = cre, label = lab,
        associations = [\<lparr>cameraKey = key, tripleHash = None, role = ro\<rparr>], sources = None\<rparr>"

section \<open>Associations\<close>

definition nullish_str :: "string option \<Rightarrow> string" where
  "nullish_str x = (case x of None \<Rightarrow> [] | Some s \<Rightarrow> s)"

definition sameBinding :: "association \<Rightarrow> association \<Rightarrow> bool" where
  "sameBinding a b \<longleftrightarrow> cameraKey a = cameraKey b
     \<and> nullish_str (tripleHash a) = nullish_str (tripleHash b)"

definition hasAssociation :: "cal_record \<Rightarrow> association \<Rightarrow> bool" where
  "hasAssociation r a \<longleftrightarrow> list_ex (\<lambda>b. sameBinding b a) (associations (outer r))"

definition addAssociation :: "cal_record \<Rightarrow> association \<Rightarrow> cal_record" where
  "addAssociation r a = (if hasAssociation r a then r
     else r\<lparr>outer := (outer r)\<lparr>associations := associations (outer r) @ [a]\<rparr>\<rparr>)"

definition removeAssociations :: "cal_record \<Rightarrow> (association \<Rightarrow> bool) \<Rightarrow> cal_record \<times> bool" where
  "removeAssociations r match =
     (let as = filter (\<lambda>a. \<not> match a) (associations (outer r))
      in (r\<lparr>outer := (outer r)\<lparr>associations := as\<rparr>\<rparr>, as = []))"

definition tripleAssociationMatcher :: "string \<Rightarrow> string list \<Rightarrow> association \<Rightarrow> bool" where
  "tripleAssociationMatcher th liveKeys a = (case tripleHash a of
      Some h \<Rightarrow> h = th | None \<Rightarrow> cameraKey a \<in> set liveKeys)"

definition recordBelongsToTriple :: "cal_record \<Rightarrow> string \<Rightarrow> string list \<Rightarrow> bool" where
  "recordBelongsToTriple r th liveKeys \<longleftrightarrow>
     list_ex (\<lambda>a. case tripleHash a of Some h \<Rightarrow> h = th | None \<Rightarrow> cameraKey a \<in> set liveKeys)
       (associations (outer r))"

section \<open>Aggregation and the active record\<close>

text \<open>\<open>None\<close>: the \<open>Error\<close> thrown for a record that is not extrinsic.\<close>

fun inner_dataset :: "rec_inner \<Rightarrow> jsval list" where
  "inner_dataset (ExtrinsicInner ds) = ds"
| "inner_dataset (IntrinsicInner _) = []"

definition aggregateRecords :: "sha \<Rightarrow> cal_record list \<Rightarrow> string \<Rightarrow> string option
    \<Rightarrow> association option \<Rightarrow> (js_error + cal_record) option" where
  "aggregateRecords sha rs cre lab assoc =
     (if list_ex (\<lambda>r. inner_kind (inner r) \<noteq> Extrinsic) rs then None
      else Some (makeRecord sha (extrinsicInner (concat (map (\<lambda>r. inner_dataset (inner r)) rs)))
        \<lparr>created = cre, label = lab,
         associations = (case assoc of None \<Rightarrow> [] | Some a \<Rightarrow> [a]),
         sources = Some (map rec_id rs)\<rparr>))"

definition datapointCount :: "cal_record \<Rightarrow> nat" where
  "datapointCount r = (case inner r of
      ExtrinsicInner ds \<Rightarrow> length ds
    | IntrinsicInner cal \<Rightarrow> (case map_of cal ''rvecs'' of Some (JArr vs) \<Rightarrow> length vs | _ \<Rightarrow> 0))"

text \<open>
  A stable sort by \<open>created\<close>, newest first; \<open>le a b\<close> stands for \<open>a.localeCompare(b) <= 0\<close>,
  the collation of the user's locale.
\<close>

fun insert_latest :: "(string \<Rightarrow> string \<Rightarrow> bool) \<Rightarrow> cal_record \<Rightarrow> cal_record list \<Rightarrow> cal_record list" where
  "insert_latest le r [] = [r]"
| "insert_latest le r (s # rs) = (if le (created (outer s)) (created (outer r))
     then r # s # rs else s # insert_latest le r rs)"

definition orderRecordsLatestFirst ::
    "(string \<Rightarrow> string \<Rightarrow> bool) \<Rightarrow> cal_record list \<Rightarrow> cal_record list" where
  "orderRecordsLatestFirst le rs = foldr (insert_latest le) rs []"

definition bound_to :: "record_kind \<Rightarrow> string \<Rightarrow> cal_record \<Rightarrow> bool" where
  "bound_to kind key r \<longleftrightarrow> inner_kind (inner r) = kind
     \<and> list_ex (\<lambda>a. cameraKey a = key) (associations (outer r))"

fun first_nonempty :: "cal_record list \<Rightarrow> jsval list option" where
  "first_nonempty [] = None"
| "first_nonempty (r # rs) =
     (if inner_dataset (inner r) \<noteq> [] then Some (inner_dataset (inner r)) else first_nonempty rs)"

definition resolveActiveDataset ::
    "(string \<Rightarrow> string \<Rightarrow> bool) \<Rightarrow> cal_record list \<Rightarrow> string \<Rightarrow> jsval list option" where
  "resolveActiveDataset le rs key =
     first_nonempty (orderRecordsLatestFirst le (filter (bound_to Extrinsic key) rs))"

fun inner_calibration :: "rec_inner \<Rightarrow> jsval table" where
  "inner_calibration (IntrinsicInner cal) = cal"
| "inner_calibration (ExtrinsicInner _) = []"

definition resolveActiveIntrinsic ::
    "(string \<Rightarrow> string \<Rightarrow> bool) \<Rightarrow> cal_record list \<Rightarrow> string \<Rightarrow> (jsval table \<times> string) option" where
  "resolveActiveIntrinsic le rs key =
     (case orderRecordsLatestFirst le (filter (bound_to Intrinsic key) rs) of
        [] \<Rightarrow> None
      | r # _ \<Rightarrow> Some (inner_calibration (inner r), created (outer r)))"

section \<open>Import and export\<close>

record record_export =
  exp_id :: string
  exp_inner :: rec_inner
  exp_created :: string
  exp_label :: "string option"
  exp_sources :: "string list option"
  exp_role :: "string option"

record record_export_file =
  ref_exported :: string
  ref_record :: record_export

record device_export_file =
  dev_exported :: string
  dev_sourceTripleHash :: "string option"
  dev_config :: "jsval table"
  dev_records :: "record_export list"

definition toRecordExport :: "cal_record \<Rightarrow> record_export" where
  "toRecordExport r = \<lparr>exp_id = rec_id r, exp_inner = inner r, exp_created = created (outer r),
     exp_label = label (outer r), exp_sources = sources (outer r),
     exp_role = (case associations (outer r) of [] \<Rightarrow> None | a # _ \<Rightarrow> role a)\<rparr>"

definition buildRecordExport :: "cal_record \<Rightarrow> string \<Rightarrow> record_export_file" where
  "buildRecordExport r time = \<lparr>ref_exported = time, ref_record = toRecordExport r\<rparr>"

definition buildDeviceExport ::
    "jsval table \<Rightarrow> cal_record list \<Rightarrow> string \<Rightarrow> string option \<Rightarrow> device_export_file" where
  "buildDeviceExport config rs time th = \<lparr>dev_exported = time, dev_sourceTripleHash = th,
     dev_config = config, dev_records = map toRecordExport rs\<rparr>"

definition innerMatches :: "rec_inner \<Rightarrow> rec_inner \<Rightarrow> js_error + bool" where
  "innerMatches a b = (case canonicalize (inner_js a) of
      Inl e \<Rightarrow> Inl e
    | Inr s \<Rightarrow> map_sum id (\<lambda>t. s = t) (canonicalize (inner_js b)))"

datatype import_action = Create | Associate

record import_decision =
  action :: import_action
  dec_id :: string
  idMismatch :: bool
  dataMismatch :: bool

definition decideImport ::
    "sha \<Rightarrow> record_export \<Rightarrow> cal_record option \<Rightarrow> js_error + import_decision" where
  "decideImport sha incoming existing = (case recordId sha (exp_inner incoming) of
      Inl e \<Rightarrow> Inl e
    | Inr h \<Rightarrow> (let mism = exp_id incoming \<noteq> h in case existing of
        Some r \<Rightarrow> map_sum id (\<lambda>eq. \<lparr>action = Associate, dec_id = h, idMismatch = mism,
                    dataMismatch = \<not> eq\<rparr>) (innerMatches (inner r) (exp_inner incoming))
      | None \<Rightarrow> Inr \<lparr>action = Create, dec_id = h, idMismatch = mism, dataMismatch = False\<rparr>))"

text \<open>\<open>null\<close> and the empty hash both read as no connection.\<close>

definition resolveNickname :: "string option \<Rightarrow> jsval table table \<Rightarrow> string option" where
  "resolveNickname hash docs = (case hash of
      None \<Rightarrow> None
    | Some [] \<Rightarrow> None
    | Some h \<Rightarrow> (case map_of docs h of
        None \<Rightarrow> None
      | Some doc \<Rightarrow> (case map_of doc ''nickname'' of
          Some (JStr s) \<Rightarrow> if trim s = [] then None else Some (trim s)
        | _ \<Rightarrow> None)))"

section \<open>Lemmas\<close>

lemma length_truncate: "length (truncateHashHex s) \<le> 32"
  by (simp add: truncateHashHex_def RECORD_ID_HEX_def)

lemma full_hash_truncates: "full_hash h \<Longrightarrow> isRecordId (truncateHashHex h)"
  by (auto simp: full_hash_def isRecordId_def truncateHashHex_def RECORD_ID_HEX_def list_all_iff
      dest: in_set_takeD)

lemma record_id_not_full: "isRecordId h \<Longrightarrow> \<not> full_hash h"
  by (simp add: full_hash_def isRecordId_def RECORD_ID_HEX_def)

lemma reKey_idem: "reKeyTripleHash (reKeyTripleHash h) = reKeyTripleHash h"
  using full_hash_truncates record_id_not_full by (simp add: reKeyTripleHash_def)

lemma sameBinding_refl: "sameBinding a a"
  by (simp add: sameBinding_def)

lemma sameBinding_sym: "sameBinding a b \<Longrightarrow> sameBinding b a"
  by (simp add: sameBinding_def)

lemma sameBinding_trans: "sameBinding a b \<Longrightarrow> sameBinding b c \<Longrightarrow> sameBinding a c"
  by (simp add: sameBinding_def)

fun unique_bindings :: "association list \<Rightarrow> bool" where
  "unique_bindings [] = True"
| "unique_bindings (a # as) = (\<not> list_ex (\<lambda>b. sameBinding b a) as \<and> unique_bindings as)"

lemma unique_bindings_snoc:
  "unique_bindings (as @ [a]) \<longleftrightarrow> unique_bindings as \<and> \<not> list_ex (\<lambda>b. sameBinding b a) as"
  by (induction as) (auto simp: list_ex_iff dest: sameBinding_sym)

lemma unique_bindings_filter: "unique_bindings as \<Longrightarrow> unique_bindings (filter P as)"
  by (induction as) (auto simp: list_ex_iff)

lemma add_fields [simp]:
  "rec_id (addAssociation r a) = rec_id r" "inner (addAssociation r a) = inner r"
  "created (outer (addAssociation r a)) = created (outer r)"
  "sources (outer (addAssociation r a)) = sources (outer r)"
  by (simp_all add: addAssociation_def)

lemma add_has:
  "hasAssociation (addAssociation r a) b \<longleftrightarrow> hasAssociation r b \<or> sameBinding a b"
  by (auto simp: addAssociation_def hasAssociation_def list_ex_iff dest: sameBinding_trans)

lemma add_unique:
  "unique_bindings (associations (outer r)) \<Longrightarrow>
   unique_bindings (associations (outer (addAssociation r a)))"
  by (simp add: addAssociation_def hasAssociation_def unique_bindings_snoc)

lemma add_twice: "addAssociation (addAssociation r a) a = addAssociation r a"
  using sameBinding_refl [of a] by (auto simp: addAssociation_def hasAssociation_def list_ex_iff)

lemma adds_fields [simp]:
  "rec_id (foldl addAssociation r as) = rec_id r" "inner (foldl addAssociation r as) = inner r"
  by (induction as arbitrary: r) simp_all

lemma adds_has:
  "hasAssociation (foldl addAssociation r as) b
     \<longleftrightarrow> hasAssociation r b \<or> (\<exists>a \<in> set as. sameBinding a b)"
  by (induction as arbitrary: r) (auto simp: add_has)

lemma adds_unique:
  "unique_bindings (associations (outer r)) \<Longrightarrow>
   unique_bindings (associations (outer (foldl addAssociation r as)))"
  by (induction as arbitrary: r) (auto simp: add_unique)

text \<open>
  The contract the ordering needs of the collation: a total preorder. It is interpreted on the order
  of code units, which timestamps of one format are compared in.
\<close>

locale collation =
  fixes le :: "string \<Rightarrow> string \<Rightarrow> bool"
  assumes total: "le a b \<or> le b a" and trans: "le a b \<Longrightarrow> le b c \<Longrightarrow> le a c"
begin

definition latest_first :: "cal_record list \<Rightarrow> bool" where
  "latest_first rs \<longleftrightarrow> sorted_wrt (\<lambda>r s. le (created (outer s)) (created (outer r))) rs"

lemma mset_insert: "mset (insert_latest le r rs) = add_mset r (mset rs)"
  by (induction rs) auto

lemma set_insert: "set (insert_latest le r rs) = insert r (set rs)"
  by (induction rs) auto

lemma insert_sorted: "latest_first rs \<Longrightarrow> latest_first (insert_latest le r rs)"
  unfolding latest_first_def
proof (induction rs)
  case (Cons s rs)
  then show ?case using total trans by (auto simp: set_insert)
qed simp

lemma order_sorted: "latest_first (orderRecordsLatestFirst le rs)"
  unfolding orderRecordsLatestFirst_def
  by (induction rs) (simp_all add: insert_sorted, simp add: latest_first_def)

lemma order_mset: "mset (orderRecordsLatestFirst le rs) = mset rs"
  unfolding orderRecordsLatestFirst_def by (induction rs) (simp_all add: mset_insert)

lemma order_set: "set (orderRecordsLatestFirst le rs) = set rs"
  using mset_eq_setD [OF order_mset] .

lemma first_nonempty_latest:
  "latest_first rs \<Longrightarrow> first_nonempty rs = Some ds \<Longrightarrow>
   \<exists>r \<in> set rs. inner_dataset (inner r) = ds \<and> ds \<noteq> []
     \<and> (\<forall>s \<in> set rs. inner_dataset (inner s) \<noteq> [] \<longrightarrow> le (created (outer s)) (created (outer r)))"
proof (induction rs)
  case (Cons r rs)
  show ?case
  proof (cases "inner_dataset (inner r) = []")
    case False
    with Cons.prems total show ?thesis by (auto simp: latest_first_def)
  next
    case True
    with Cons show ?thesis by (auto simp: latest_first_def)
  qed
qed simp

lemma active_latest:
  "resolveActiveDataset le rs key = Some ds \<Longrightarrow>
   \<exists>r \<in> set rs. bound_to Extrinsic key r \<and> inner_dataset (inner r) = ds \<and> ds \<noteq> []
     \<and> (\<forall>s \<in> set rs. bound_to Extrinsic key s \<and> inner_dataset (inner s) \<noteq> []
          \<longrightarrow> le (created (outer s)) (created (outer r)))"
  using first_nonempty_latest [OF order_sorted]
  unfolding resolveActiveDataset_def by (fastforce simp: order_set)

end

interpretation code_units: collation "(\<le>)"
  by unfold_locales auto

lemma first_nonempty_None: "first_nonempty rs = None \<longleftrightarrow> (\<forall>r \<in> set rs. inner_dataset (inner r) = [])"
  by (induction rs) auto

lemma recordId_cong: "canonicalize (inner_js i) = canonicalize (inner_js j) \<Longrightarrow>
    recordId sha i = recordId sha j"
  by (simp add: recordId_def)

lemma dataset_count [simp]: "length (inner_dataset (inner r)) = datapointCount r"
  if "inner_kind (inner r) = Extrinsic"
  using that by (cases "inner r") (simp_all add: datapointCount_def)

lemma map_sum_Inr: "map_sum f g x = Inr z \<Longrightarrow> (\<And>y. x = Inr y \<Longrightarrow> z = g y \<Longrightarrow> P) \<Longrightarrow> P"
  by (cases x) auto

section \<open>Properties\<close>

text \<open>
  The id of an intrinsic record is the same whether it is computed from the live calibration
  (typed arrays with their properties) or from the plain-JSON reading of its file, and it exists.
\<close>

theorem record_id_survives_disk:
  assumes "hashable_table cal"
  shows "recordId sha (IntrinsicInner (json_js_table (stringify_table cal)))
           = recordId sha (IntrinsicInner cal)
         \<and> (\<exists>h. recordId sha (IntrinsicInner cal) = Inr h)"
proof -
  let ?v = "inner_js (IntrinsicInner cal)"
  let ?j = "JsObj [(''kind'', JsStr ''intrinsic''), (''calibration'', JsObj (stringify_table cal))]"
  have h: "hashable ?v" using assms by simp
  have j: "stringify ?v = Some ?j" by (simp add: stringify.simps)
  have "canonicalize (json_js ?j) = canonicalize ?v"
    by (rule canonicalize_cong [OF sortDeep_encoding(1) [OF j h]])
  then show ?thesis
    using canonicalize_hashable [OF h] by (auto simp: recordId_def)
qed

theorem record_id_survives_disk_witness:
  "recordId (\<lambda>_. ''ab'') (IntrinsicInner (json_js_table (stringify_table
      [(''camera_matrix'', JView Float64Array [] [(''shape'', JArr [JNum (Fin 0)])])])))
   = recordId (\<lambda>_. ''ab'') (IntrinsicInner
      [(''camera_matrix'', JView Float64Array [] [(''shape'', JArr [JNum (Fin 0)])])])"
  by (rule conjunct1 [OF record_id_survives_disk]) simp

text \<open>
  Binding a record to any sequence of cameras keeps its id and payload, adds exactly the missing
  bindings, never stores two bindings for one (camera, triple) pair, and repeating the last binding
  changes nothing.
\<close>

theorem bindings_are_a_set:
  assumes "unique_bindings (associations (outer r))"
  shows "let r' = foldl addAssociation r as in
    rec_id r' = rec_id r \<and> inner r' = inner r
    \<and> unique_bindings (associations (outer r'))
    \<and> (\<forall>b. hasAssociation r' b \<longleftrightarrow> hasAssociation r b \<or> (\<exists>a \<in> set as. sameBinding a b))
    \<and> addAssociation (addAssociation r' a) a = addAssociation r' a"
  using assms by (simp add: Let_def adds_has adds_unique add_twice)

theorem bindings_are_a_set_witness:
  "let a = \<lparr>cameraKey = ''cam'', tripleHash = None, role = None\<rparr>;
       r = \<lparr>rec_id = [], inner = ExtrinsicInner [],
            outer = \<lparr>created = [], label = None, associations = [], sources = None\<rparr>\<rparr>
   in unique_bindings (associations (outer (foldl addAssociation r [a, a])))"
  using bindings_are_a_set [of "\<lparr>rec_id = [], inner = ExtrinsicInner [],
      outer = \<lparr>created = [], label = None, associations = [], sources = None\<rparr>\<rparr>"
      "[\<lparr>cameraKey = ''cam'', tripleHash = None, role = None\<rparr>,
        \<lparr>cameraKey = ''cam'', tripleHash = None, role = None\<rparr>]"]
  by (simp add: Let_def)

text \<open>
  Discarding a record from a triple: afterwards it no longer belongs to the triple, all other
  bindings are kept in order, and it is reported orphaned exactly when no binding is left, that is
  when every binding was one of the triple's.
\<close>

theorem discard_leaves_triple:
  "let (r', orphaned) = removeAssociations r (tripleAssociationMatcher th keys) in
     \<not> recordBelongsToTriple r' th keys
     \<and> rec_id r' = rec_id r \<and> inner r' = inner r
     \<and> associations (outer r') = filter (\<lambda>a. \<not> tripleAssociationMatcher th keys a)
          (associations (outer r))
     \<and> (orphaned \<longleftrightarrow> associations (outer r') = [])
     \<and> (recordBelongsToTriple r th keys \<longleftrightarrow> associations (outer r') \<noteq> associations (outer r))"
proof -
  have b: "recordBelongsToTriple s th keys
      \<longleftrightarrow> (\<exists>a \<in> set (associations (outer s)). tripleAssociationMatcher th keys a)" for s
    by (simp add: recordBelongsToTriple_def tripleAssociationMatcher_def list_ex_iff)
  have f: "(\<exists>a \<in> set as. P a) \<longleftrightarrow> filter (\<lambda>a. \<not> P a) as \<noteq> as" for P and as :: "association list"
    by (auto simp: filter_id_conv)
  show ?thesis
    by (simp add: removeAssociations_def Let_def b f)
qed

text \<open>
  The extrinsic dataset a camera is calibrated with is that of a bound record with data, no
  bound record with data is newer, and there is none exactly when no bound record has data: an empty
  newer record never shadows an older good one.
\<close>

theorem active_dataset_is_latest_nonempty:
  assumes "collation le"
  shows "case resolveActiveDataset le rs key of
      None \<Rightarrow> \<forall>r \<in> set rs. bound_to Extrinsic key r \<longrightarrow> inner_dataset (inner r) = []
    | Some ds \<Rightarrow> \<exists>r \<in> set rs. bound_to Extrinsic key r \<and> inner_dataset (inner r) = ds \<and> ds \<noteq> []
        \<and> (\<forall>s \<in> set rs. bound_to Extrinsic key s \<and> inner_dataset (inner s) \<noteq> []
             \<longrightarrow> le (created (outer s)) (created (outer r)))"
proof (cases "resolveActiveDataset le rs key")
  case None
  then have "\<forall>r \<in> set rs. bound_to Extrinsic key r \<longrightarrow> inner_dataset (inner r) = []"
    by (auto simp: resolveActiveDataset_def first_nonempty_None collation.order_set [OF assms])
  with None show ?thesis by simp
next
  case (Some ds)
  with collation.active_latest [OF assms Some] show ?thesis by simp
qed

theorem active_dataset_is_latest_nonempty_witness:
  "\<exists>r \<in> set [\<lparr>rec_id = ''1'', inner = ExtrinsicInner [JNull],
              outer = \<lparr>created = ''2025'', label = None,
                associations = [\<lparr>cameraKey = ''cam'', tripleHash = None, role = None\<rparr>],
                sources = None\<rparr>\<rparr>]. inner_dataset (inner r) = [JNull]"
  using active_dataset_is_latest_nonempty [OF code_units.collation_axioms,
      of "[\<lparr>rec_id = ''1'', inner = ExtrinsicInner [JNull],
              outer = \<lparr>created = ''2025'', label = None,
                associations = [\<lparr>cameraKey = ''cam'', tripleHash = None, role = None\<rparr>],
                sources = None\<rparr>\<rparr>]" "''cam''"]
  by (simp add: resolveActiveDataset_def orderRecordsLatestFirst_def bound_to_def)

text \<open>
  Aggregation is refused when some record is intrinsic. Otherwise the new record is named by the
  hash of the concatenated datasets in the given order, counts all their data points, lists the
  source ids, and carries at most the given binding.
\<close>

theorem aggregate_concatenates:
  "case aggregateRecords sha rs cre lab assoc of
     None \<Rightarrow> \<exists>r \<in> set rs. inner_kind (inner r) = Intrinsic
   | Some (Inl e) \<Rightarrow> recordId sha (ExtrinsicInner (concat (map (inner_dataset \<circ> inner) rs))) = Inl e
   | Some (Inr r) \<Rightarrow> recordId sha (inner r) = Inr (rec_id r)
       \<and> inner r = ExtrinsicInner (concat (map (inner_dataset \<circ> inner) rs))
       \<and> datapointCount r = sum_list (map datapointCount rs)
       \<and> sources (outer r) = Some (map rec_id rs)
       \<and> associations (outer r) = (case assoc of None \<Rightarrow> [] | Some a \<Rightarrow> [a])"
proof (cases "list_ex (\<lambda>r. inner_kind (inner r) \<noteq> Extrinsic) rs")
  case True
  then show ?thesis
    by (auto simp: aggregateRecords_def list_ex_iff) (metis record_kind.exhaust)
next
  case False
  then have "map (length \<circ> (inner_dataset \<circ> inner)) rs = map datapointCount rs"
    by (auto simp: list_ex_iff)
  then have "length (concat (map (inner_dataset \<circ> inner) rs)) = sum_list (map datapointCount rs)"
    by (simp only: length_concat map_map)
  then show ?thesis
    using False
    by (cases "recordId sha (ExtrinsicInner (concat (map (\<lambda>r. inner_dataset (inner r)) rs)))")
       (simp_all add: aggregateRecords_def makeRecord_def extrinsicInner_def comp_def
          datapointCount_def)
qed

text \<open>
  Importing what was exported: on a store without the record the decision is to create it under
  its own id, on a store with it to associate, and neither mismatch is flagged; a file whose
  declared id was tampered with is flagged and never trusted.
\<close>

theorem import_of_export:
  assumes "recordId sha (inner r) = Inr (rec_id r)"
  shows "decideImport sha (toRecordExport r) None
           = Inr \<lparr>action = Create, dec_id = rec_id r, idMismatch = False, dataMismatch = False\<rparr>
    \<and> decideImport sha (toRecordExport r) (Some r)
           = Inr \<lparr>action = Associate, dec_id = rec_id r, idMismatch = False, dataMismatch = False\<rparr>
    \<and> decideImport sha ((toRecordExport r)\<lparr>exp_id := fake\<rparr>) None
           = Inr \<lparr>action = Create, dec_id = rec_id r, idMismatch = fake \<noteq> rec_id r,
                 dataMismatch = False\<rparr>"
proof -
  obtain t where "canonicalize (inner_js (inner r)) = Inr t"
    using assms by (auto simp: recordId_def elim: map_sum_Inr)
  with assms show ?thesis
    by (simp add: decideImport_def toRecordExport_def innerMatches_def Let_def)
qed

theorem import_of_export_witness:
  "decideImport (\<lambda>_. replicate 64 (CHR ''a'')) (toRecordExport
      \<lparr>rec_id = replicate 32 (CHR ''a''), inner = ExtrinsicInner [JNull],
       outer = \<lparr>created = ''2025'', label = None, associations = [], sources = None\<rparr>\<rparr>) None
   = Inr \<lparr>action = Create, dec_id = replicate 32 (CHR ''a''), idMismatch = False,
          dataMismatch = False\<rparr>"
proof -
  have "recordId (\<lambda>_. replicate 64 (CHR ''a'')) (ExtrinsicInner [JNull])
    = Inr (replicate 32 (CHR ''a''))"
    using canonicalize_hashable [of "inner_js (ExtrinsicInner [JNull])"]
    by (auto simp: recordId_def stableHash_def truncateHashHex_def RECORD_ID_HEX_def)
  then show ?thesis
    using import_of_export [of "\<lambda>_. replicate 64 (CHR ''a'')"
      "\<lparr>rec_id = replicate 32 (CHR ''a''), inner = ExtrinsicInner [JNull],
        outer = \<lparr>created = ''2025'', label = None, associations = [], sources = None\<rparr>\<rparr>"]
    by simp
qed

end
