(* ===== verification/StoreMigrations.thy ===== *)
theory StoreMigrations
  imports CalibrationRecords
begin

text \<open>
  The schema migrations of the configuration store (\<open>app/lib/store-migrations.ts\<close>): wrapping flat
  datasets as content-hashed records (0 to 1), moving records into one directory per kind and
  shortening hashes (1 to 2), and the runner that chains them by version. The store is a listing of
  documents by path, in the order a directory is read; a migration that throws leaves the store as it
  was at that moment. The lemmas show that no dataset or binding is lost and that a second run
  changes nothing.
\<close>

section \<open>The store a migration works on\<close>

text \<open>
  A document whose member \<open>inner\<close> is truthy is read as a record; every other document is a plain
  JSON value.
\<close>

datatype store_doc = RecordDoc cal_record | ValueDoc jsval

type_synonym mig_fs = "(string list \<times> store_doc) list"

definition m_read :: "mig_fs \<Rightarrow> string list \<Rightarrow> store_doc option" where
  "m_read fs seg = map_of fs seg"

definition m_write :: "mig_fs \<Rightarrow> string list \<Rightarrow> store_doc \<Rightarrow> mig_fs" where
  "m_write fs seg d = AList.update seg d fs"

definition m_clear :: "mig_fs \<Rightarrow> string list \<Rightarrow> mig_fs" where
  "m_clear fs seg = AList.delete seg fs"

definition m_list :: "mig_fs \<Rightarrow> string \<Rightarrow> string list" where
  "m_list fs dir = map (\<lambda>p. last (fst p)) (filter (\<lambda>p. \<exists>n. fst p = [dir, n]) fs)"

lemma m_list_code [code]:
  "m_list fs dir = map (\<lambda>p. last (fst p))
     (filter (\<lambda>p. length (fst p) = 2 \<and> hd (fst p) = dir) fs)"
  unfolding m_list_def
  by (intro arg_cong [where f = "map _"] filter_cong refl)
     (auto simp: length_Suc_conv numeral_2_eq_2)

lemma m_read_simps [simp]:
  "m_read (m_write fs s d) t = (if t = s then Some d else m_read fs t)"
  "m_read (m_clear fs s) t = (if t = s then None else m_read fs t)"
  by (auto simp: m_read_def m_write_def m_clear_def table_simps)

lemma m_list_iff: "n \<in> set (m_list fs dir) \<longleftrightarrow> m_read fs [dir, n] \<noteq> None"
  unfolding m_list_def m_read_def by (force simp: map_of_eq_None_iff image_iff)

record mig_ctx =
  clock :: string
  stat :: "(string list \<Rightarrow> int option) option"
  prims :: js_prims
  digest :: sha

definition mtime_or_now :: "mig_ctx \<Rightarrow> string list \<Rightarrow> string" where
  "mtime_or_now C seg = (case stat C of
      None \<Rightarrow> clock C
    | Some f \<Rightarrow> (case f seg of None \<Rightarrow> clock C | Some ms \<Rightarrow> iso_string ms))"

text \<open>A loop whose body may throw.\<close>

type_synonym ('r, 'fs) outcome = "(js_error + 'r) \<times> 'fs"

fun for_each :: "('a \<Rightarrow> 'r \<Rightarrow> 'fs \<Rightarrow> ('r, 'fs) outcome) \<Rightarrow> 'a list \<Rightarrow> 'r \<Rightarrow> 'fs \<Rightarrow> ('r, 'fs) outcome" where
  "for_each f [] r fs = (Inr r, fs)"
| "for_each f (x # xs) r fs = (case f x r fs of
      (Inl e, fs') \<Rightarrow> (Inl e, fs')
    | (Inr r', fs') \<Rightarrow> for_each f xs r' fs')"

definition and_then :: "('r, 'fs) outcome \<Rightarrow> ('r \<Rightarrow> 'fs \<Rightarrow> ('s, 'fs) outcome) \<Rightarrow> ('s, 'fs) outcome" where
  "and_then m k = (case m of (Inl e, fs) \<Rightarrow> (Inl e, fs) | (Inr r, fs) \<Rightarrow> k r fs)"

definition ends_raw :: "string \<Rightarrow> bool" where
  "ends_raw name \<longleftrightarrow> take 4 (rev name) = ''war.''"

definition EXTRINSIC_STORE :: string where "EXTRINSIC_STORE = ''calibrate-extrinsic''"
definition INTRINSIC_STORE :: string where "INTRINSIC_STORE = ''calibrate-intrinsic''"
definition RECORD_STORES :: "string list" where "RECORD_STORES = [EXTRINSIC_STORE, INTRINSIC_STORE]"
definition RECORD_STORE :: string where "RECORD_STORE = ''calibration-records''"

section \<open>Migration 0 to 1\<close>

record wrap_report =
  w_created :: nat
  w_associated :: nat
  w_skipped :: nat

text \<open>The body of the loop over the legacy documents.\<close>

definition wrap_extrinsic :: "mig_ctx \<Rightarrow> string \<Rightarrow> wrap_report \<Rightarrow> mig_fs \<Rightarrow> (wrap_report, mig_fs) outcome" where
  "wrap_extrinsic C key rep fs =
     (if ends_raw key then (Inr (rep\<lparr>w_skipped := w_skipped rep + 1\<rparr>), fs)
      else case m_read fs [EXTRINSIC_STORE, key] of
        Some (ValueDoc (JArr (d # ds))) \<Rightarrow>
          (case migrateLegacyExtrinsic (digest C) key (d # ds)
                  (mtime_or_now C [EXTRINSIC_STORE, key]) None None None of
             Inl e \<Rightarrow> (Inl e, fs)
           | Inr r \<Rightarrow>
               (let a = hd (associations (outer r));
                    (rep', fs') = (case m_read fs [RECORD_STORE, rec_id r] of
                        Some (RecordDoc ex) \<Rightarrow>
                          if hasAssociation ex a then (rep, fs)
                          else (rep\<lparr>w_associated := w_associated rep + 1\<rparr>,
                                m_write fs [RECORD_STORE, rec_id r] (RecordDoc (addAssociation ex a)))
                      | _ \<Rightarrow> (rep\<lparr>w_created := w_created rep + 1\<rparr>,
                              m_write fs [RECORD_STORE, rec_id r] (RecordDoc r)))
                in (Inr rep', m_clear fs' [EXTRINSIC_STORE, key])))
      | _ \<Rightarrow> (Inr (rep\<lparr>w_skipped := w_skipped rep + 1\<rparr>), fs))"

definition migrateExtrinsicToRecords :: "mig_ctx \<Rightarrow> mig_fs \<Rightarrow> (wrap_report, mig_fs) outcome" where
  "migrateExtrinsicToRecords C fs = for_each (wrap_extrinsic C) (m_list fs EXTRINSIC_STORE)
     \<lparr>w_created = 0, w_associated = 0, w_skipped = 0\<rparr> fs"

section \<open>Migration 1 to 2\<close>

definition js_nullish :: "jsval \<Rightarrow> bool" where
  "js_nullish v \<longleftrightarrow> v = JUndef \<or> v = JNull"

definition isCameraCalibration :: "jsval \<Rightarrow> bool" where
  "isCameraCalibration v \<longleftrightarrow> is_object v \<and> \<not> js_nullish (js_get v ''camera_matrix'')
     \<and> js_nullish (js_get v ''inner'')"

definition isoFromDate :: "js_prims \<Rightarrow> jsval \<Rightarrow> string option" where
  "isoFromDate P d = (case d of
      JDate t _ \<Rightarrow> map_option iso_string t
    | JStr s \<Rightarrow> map_option iso_string (date_of P (JStr s))
    | _ \<Rightarrow> (if is_object d \<and> js_get d ''type'' = JStr ''Date'' then
              (case js_get d ''date'' of JStr s \<Rightarrow> Some s | _ \<Rightarrow> None) else None))"

definition reKeyAssociation :: "association \<Rightarrow> association" where
  "reKeyAssociation a = a\<lparr>tripleHash := map_option reKeyTripleHash (tripleHash a)\<rparr>"

definition reKeyRecordAssociations :: "cal_record \<Rightarrow> cal_record \<times> bool" where
  "reKeyRecordAssociations r =
     (let as = map reKeyAssociation (associations (outer r));
          changed = list_ex (\<lambda>a. tripleHash (reKeyAssociation a) \<noteq> tripleHash a)
                      (associations (outer r))
      in if \<not> changed then (r, False)
         else (r\<lparr>outer := (outer r)\<lparr>associations := as\<rparr>\<rparr>, True))"

definition placeRecord :: "mig_ctx \<Rightarrow> cal_record \<Rightarrow> record_kind \<Rightarrow> mig_fs \<Rightarrow> (unit, mig_fs) outcome" where
  "placeRecord C r kind fs =
     (let dir = recordStore kind in case recordId (digest C) (inner r) of
        Inl e \<Rightarrow> (Inl e, fs)
      | Inr newId \<Rightarrow>
          (let reKeyed = fst (reKeyRecordAssociations (r\<lparr>rec_id := newId\<rparr>))
           in case m_read fs [dir, newId] of
             Some (RecordDoc ex) \<Rightarrow>
               (let merged = foldl addAssociation ex (associations (outer reKeyed))
                in (Inr (), if merged \<noteq> ex then m_write fs [dir, newId] (RecordDoc merged) else fs))
           | _ \<Rightarrow> (Inr (), m_write fs [dir, newId] (RecordDoc reKeyed))))"

record move_report =
  extrinsicMoved :: nat
  intrinsicMoved :: nat
  intrinsicWrapped :: nat
  triplesReKeyed :: nat
  assocReKeyed :: nat
  skipped :: nat

definition move_flat :: "mig_ctx \<Rightarrow> string \<Rightarrow> move_report \<Rightarrow> mig_fs \<Rightarrow> (move_report, mig_fs) outcome" where
  "move_flat C name rep fs = (case m_read fs [RECORD_STORE, name] of
      Some (RecordDoc r) \<Rightarrow>
        (let kind = (if inner_kind (inner r) = Intrinsic then Intrinsic else Extrinsic)
         in and_then (placeRecord C r kind fs) (\<lambda>_ fs'.
              (Inr (if kind = Intrinsic then rep\<lparr>intrinsicMoved := intrinsicMoved rep + 1\<rparr>
                    else rep\<lparr>extrinsicMoved := extrinsicMoved rep + 1\<rparr>),
               m_clear fs' [RECORD_STORE, name])))
    | _ \<Rightarrow> (Inr (rep\<lparr>skipped := skipped rep + 1\<rparr>), fs))"

definition wrap_intrinsic :: "mig_ctx \<Rightarrow> string \<Rightarrow> move_report \<Rightarrow> mig_fs \<Rightarrow> (move_report, mig_fs) outcome" where
  "wrap_intrinsic C name rep fs =
     (if ends_raw name then (Inr (rep\<lparr>skipped := skipped rep + 1\<rparr>), fs)
      else if isRecordId name then (Inr rep, fs)
      else case m_read fs [INTRINSIC_STORE, name] of
        Some (ValueDoc cal) \<Rightarrow>
          (if \<not> isCameraCalibration cal then (Inr (rep\<lparr>skipped := skipped rep + 1\<rparr>), fs)
           else let cre = (case isoFromDate (prims C) (js_get cal ''date'') of
                     Some s \<Rightarrow> s | None \<Rightarrow> mtime_or_now C [INTRINSIC_STORE, name])
                in case migrateLegacyIntrinsic (digest C) name (own_entries cal) cre None None of
                     Inl e \<Rightarrow> (Inl e, fs)
                   | Inr r \<Rightarrow> and_then (placeRecord C r Intrinsic fs) (\<lambda>_ fs'.
                       (Inr (rep\<lparr>intrinsicWrapped := intrinsicWrapped rep + 1\<rparr>),
                        m_clear fs' [INTRINSIC_STORE, name])))
      | _ \<Rightarrow> (Inr (rep\<lparr>skipped := skipped rep + 1\<rparr>), fs))"

definition rekey_stored :: "string \<Rightarrow> string \<Rightarrow> move_report \<Rightarrow> mig_fs \<Rightarrow> (move_report, mig_fs) outcome" where
  "rekey_stored dir h rep fs = (case m_read fs [dir, h] of
      Some (RecordDoc r) \<Rightarrow>
        (let (r', changed) = reKeyRecordAssociations r
         in if changed then (Inr (rep\<lparr>assocReKeyed := assocReKeyed rep + 1\<rparr>),
              m_write fs [dir, h] (RecordDoc r'))
            else (Inr rep, fs))
    | _ \<Rightarrow> (Inr rep, fs))"

definition rekey_dir :: "string \<Rightarrow> move_report \<Rightarrow> mig_fs \<Rightarrow> (move_report, mig_fs) outcome" where
  "rekey_dir dir rep fs = for_each (rekey_stored dir) (filter isRecordId (m_list fs dir)) rep fs"

definition doc_or_null :: "store_doc option \<Rightarrow> store_doc" where
  "doc_or_null d = (case d of None \<Rightarrow> ValueDoc JNull | Some x \<Rightarrow> x)"

definition rekey_triple :: "string \<Rightarrow> move_report \<Rightarrow> mig_fs \<Rightarrow> (move_report, mig_fs) outcome" where
  "rekey_triple name rep fs =
     (let newKey = reKeyTripleHash name in
      if newKey = name then (Inr rep, fs)
      else let doc = doc_or_null (m_read fs [''triples'', name]);
               fs' = (case doc_or_null (m_read fs [''triples'', newKey]) of
                   ValueDoc v \<Rightarrow> if js_nullish v then m_write fs [''triples'', newKey] doc else fs
                 | RecordDoc _ \<Rightarrow> fs)
           in (Inr (rep\<lparr>triplesReKeyed := triplesReKeyed rep + 1\<rparr>),
               m_clear fs' [''triples'', name]))"

definition migrateToPerKindRecords :: "mig_ctx \<Rightarrow> mig_fs \<Rightarrow> (move_report, mig_fs) outcome" where
  "migrateToPerKindRecords C fs0 =
     and_then (for_each (move_flat C) (m_list fs0 RECORD_STORE)
       \<lparr>extrinsicMoved = 0, intrinsicMoved = 0, intrinsicWrapped = 0, triplesReKeyed = 0,
        assocReKeyed = 0, skipped = 0\<rparr> fs0) (\<lambda>rep1 fs1.
     and_then (for_each (wrap_intrinsic C) (m_list fs1 INTRINSIC_STORE) rep1 fs1) (\<lambda>rep2 fs2.
     and_then (for_each rekey_dir RECORD_STORES rep2 fs2) (\<lambda>rep3 fs3.
     for_each rekey_triple (m_list fs3 ''triples'') rep3 fs3)))"

section \<open>The runner\<close>

definition STORE_SCHEMA_VERSION :: real where "STORE_SCHEMA_VERSION = 2"

definition SCHEMA_DOC :: "string list" where "SCHEMA_DOC = [''schema'']"

datatype mig_report = Wrapped wrap_report | Moved move_report

record migration =
  mig_from :: real
  mig_to :: real
  mig_name :: string
  mig_run :: "mig_ctx \<Rightarrow> mig_fs \<Rightarrow> (mig_report, mig_fs) outcome"

definition migration0to1 :: migration where
  "migration0to1 = \<lparr>mig_from = 0, mig_to = 1, mig_name = ''calibration-records-v2'',
     mig_run = (\<lambda>C fs. and_then (migrateExtrinsicToRecords C fs) (\<lambda>r fs'. (Inr (Wrapped r), fs')))\<rparr>"

definition migration1to2 :: migration where
  "migration1to2 = \<lparr>mig_from = 1, mig_to = 2, mig_name = ''per-kind-record-stores'',
     mig_run = (\<lambda>C fs. and_then (migrateToPerKindRecords C fs) (\<lambda>r fs'. (Inr (Moved r), fs')))\<rparr>"

definition MIGRATIONS :: "migration list" where
  "MIGRATIONS = [migration0to1, migration1to2]"

datatype mig_error = Thrown js_error | NoMigration real real

text \<open>A document that is \<open>null\<close> has no member to read: a \<open>TypeError\<close>.\<close>

definition readSchemaVersion :: "mig_fs \<Rightarrow> mig_error + real" where
  "readSchemaVersion fs = (case m_read fs SCHEMA_DOC of
      None \<Rightarrow> Inr 0
    | Some (RecordDoc _) \<Rightarrow> Inr 0
    | Some (ValueDoc v) \<Rightarrow>
        if js_nullish v then Inl (Thrown TypeError)
        else (case js_get v ''version'' of JNum (Fin x) \<Rightarrow> Inr x | _ \<Rightarrow> Inr 0))"

text \<open>\<open>None\<close>: out of fuel (never with fuel 3, lemma \<open>chain_ends\<close>).\<close>

fun run_chain :: "nat \<Rightarrow> mig_ctx \<Rightarrow> real \<Rightarrow> real \<Rightarrow> (string \<times> mig_report) list \<Rightarrow> mig_fs
    \<Rightarrow> ((mig_error + real \<times> (string \<times> mig_report) list) \<times> mig_fs) option" where
  "run_chain fuel C target current reports fs =
     (if target \<le> current then Some (Inr (current, reports), fs)
      else case fuel of 0 \<Rightarrow> None
      | Suc n \<Rightarrow> (case find (\<lambda>m. mig_from m = current) MIGRATIONS of
          None \<Rightarrow> Some (Inl (NoMigration current target), fs)
        | Some m \<Rightarrow> (case mig_run m C fs of
            (Inl e, fs') \<Rightarrow> Some (Inl (Thrown e), fs')
          | (Inr rep, fs') \<Rightarrow> run_chain n C target (mig_to m) (reports @ [(mig_name m, rep)])
              (m_write fs' SCHEMA_DOC (ValueDoc (JObj [(''version'', JNum (Fin (mig_to m)))]))))))"

declare run_chain.simps [simp del]

text \<open>A snapshot is the phase, the versions it is told and the store it sees.\<close>

datatype snap_phase = Before | After

record run_result =
  run_from :: real
  run_to :: real
  reports :: "(string \<times> mig_report) list"

definition runMigrations :: "mig_ctx \<Rightarrow> real \<Rightarrow> mig_fs
    \<Rightarrow> ((mig_error + run_result) \<times> (snap_phase \<times> real \<times> real \<times> mig_fs) list \<times> mig_fs) option" where
  "runMigrations C target fs = (case readSchemaVersion fs of
      Inl e \<Rightarrow> Some (Inl e, [], fs)
    | Inr from \<Rightarrow>
        if target \<le> from then Some (Inr \<lparr>run_from = from, run_to = from, reports = []\<rparr>, [], fs)
        else (case run_chain (Suc (length MIGRATIONS)) C target from [] fs of
            None \<Rightarrow> None
          | Some (Inl e, fs') \<Rightarrow> Some (Inl e, [(Before, from, target, fs)], fs')
          | Some (Inr (cur, reps), fs') \<Rightarrow>
              Some (Inr \<lparr>run_from = from, run_to = cur, reports = reps\<rparr>,
                [(Before, from, target, fs), (After, from, cur, fs')], fs')))"

section \<open>Loops that may throw\<close>

lemma for_each_Cons:
  assumes "for_each f (x # xs) r fs = (Inr r', fs')"
  obtains r1 fs1 where "f x r fs = (Inr r1, fs1)" and "for_each f xs r1 fs1 = (Inr r', fs')"
  using assms by (auto split: prod.splits sum.splits)

lemma for_each_inv:
  assumes "for_each f xs r fs = (Inr r', fs')" and "I r fs"
    and "\<And>x r fs r' fs'. x \<in> set xs \<Longrightarrow> I r fs \<Longrightarrow> f x r fs = (Inr r', fs') \<Longrightarrow> I r' fs'"
  shows "I r' fs'"
  using assms
proof (induction xs arbitrary: r fs)
  case (Cons x xs)
  from Cons.prems(1) obtain r1 fs1 where s: "f x r fs = (Inr r1, fs1)"
    and rest: "for_each f xs r1 fs1 = (Inr r', fs')" by (rule for_each_Cons)
  have "I r1 fs1" by (rule Cons.prems(3) [OF _ Cons.prems(2) s]) simp
  then show ?case by (rule Cons.IH [OF rest]) (rule Cons.prems(3), auto)
qed simp

text \<open>
  \<open>A x\<close> holds until \<open>x\<close> is handled, which makes \<open>B x\<close> true; other steps keep both.
\<close>

lemma for_each_reaches:
  assumes "for_each f xs r fs = (Inr r', fs')" and "distinct xs" and "x \<in> set xs" and "A x fs"
    and "\<And>r fs r' fs'. A x fs \<Longrightarrow> f x r fs = (Inr r', fs') \<Longrightarrow> B x fs'"
    and "\<And>y r fs r' fs'. y \<noteq> x \<Longrightarrow> A x fs \<Longrightarrow> f y r fs = (Inr r', fs') \<Longrightarrow> A x fs'"
    and "\<And>y r fs r' fs'. y \<noteq> x \<Longrightarrow> B x fs \<Longrightarrow> f y r fs = (Inr r', fs') \<Longrightarrow> B x fs'"
  shows "B x fs'"
  using assms(1-4)
proof (induction xs arbitrary: r fs)
  case (Cons y ys)
  from Cons.prems(1) obtain r1 fs1 where s: "f y r fs = (Inr r1, fs1)"
    and rest: "for_each f ys r1 fs1 = (Inr r', fs')" by (rule for_each_Cons)
  show ?case
  proof (cases "y = x")
    case True
    with assms(5) s Cons.prems have "B x fs1" by blast
    moreover from True Cons.prems have "x \<notin> set ys" by simp
    ultimately show ?thesis
      using for_each_inv [OF rest, of "\<lambda>_. B x"] assms(7) by metis
  next
    case False
    with assms(6) s Cons.prems have "A x fs1" by blast
    with False Cons.prems rest Cons.IH show ?thesis by simp
  qed
qed simp

lemma and_then_Inr:
  assumes "and_then m k = (Inr s, fs)"
  obtains r fs1 where "m = (Inr r, fs1)" and "k r fs1 = (Inr s, fs)"
  using assms by (cases m; cases "fst m") (auto simp: and_then_def)

lemma distinct_m_list: "distinct (map fst fs) \<Longrightarrow> distinct (m_list fs dir)"
  unfolding m_list_def by (induction fs) (force simp: image_iff)+


section \<open>Wrapping loses nothing\<close>

lemma store_names [simp]:
  "EXTRINSIC_STORE \<noteq> RECORD_STORE" "RECORD_STORE \<noteq> EXTRINSIC_STORE"
  "INTRINSIC_STORE \<noteq> RECORD_STORE" "RECORD_STORE \<noteq> INTRINSIC_STORE"
  "EXTRINSIC_STORE \<noteq> INTRINSIC_STORE" "INTRINSIC_STORE \<noteq> EXTRINSIC_STORE"
  "recordStore k \<noteq> RECORD_STORE" "recordStore k \<noteq> ''triples''" "RECORD_STORE \<noteq> ''triples''"
  "RECORD_STORE \<noteq> ''calibrate-intrinsic''"
  "RECORD_STORE \<noteq> recordStore k" "''triples'' \<noteq> recordStore k" "''triples'' \<noteq> RECORD_STORE"
  by (cases k; simp add: EXTRINSIC_STORE_def RECORD_STORE_def INTRINSIC_STORE_def)+

text \<open>The record stored at a path has its id as its name.\<close>

definition keyed :: "sha \<Rightarrow> string \<Rightarrow> mig_fs \<Rightarrow> bool" where
  "keyed sha dir fs \<longleftrightarrow> (\<forall>h r. m_read fs [dir, h] = Some (RecordDoc r) \<longrightarrow>
     recordId sha (inner r) = Inr h)"

text \<open>\<open>holds dir h as fs\<close>: the record \<open>h\<close> is stored and has the bindings \<open>as\<close>.\<close>

definition holds :: "sha \<Rightarrow> string \<Rightarrow> string \<Rightarrow> association list \<Rightarrow> mig_fs \<Rightarrow> bool" where
  "holds sha dir h as fs \<longleftrightarrow> (\<exists>r. m_read fs [dir, h] = Some (RecordDoc r)
     \<and> recordId sha (inner r) = Inr h \<and> (\<forall>a \<in> set as. hasAssociation r a))"

lemma migrated_fields:
  assumes "migrateLegacyExtrinsic sha key ds cre th ro lab = Inr r"
  shows "recordId sha (ExtrinsicInner ds) = Inr (rec_id r)" and "inner r = ExtrinsicInner ds"
    and "associations (outer r) = [\<lparr>cameraKey = key, tripleHash = th, role = ro\<rparr>]"
  using assms by (auto simp: migrateLegacyExtrinsic_def makeRecord_def extrinsicInner_def
      elim!: map_sum_Inr)

text \<open>The three outcomes of one legacy document.\<close>

lemma wrap_cases:
  assumes "wrap_extrinsic C key rep fs = (Inr rep', fs')"
  obtains (skip) "fs' = fs" and "w_created rep' = w_created rep" and "w_associated rep' = w_associated rep"
      and "ends_raw key \<or> (\<forall>d ds. m_read fs [EXTRINSIC_STORE, key] \<noteq> Some (ValueDoc (JArr (d # ds))))"
  | (wrap) d ds r r' where "\<not> ends_raw key"
      and "m_read fs [EXTRINSIC_STORE, key] = Some (ValueDoc (JArr (d # ds)))"
      and "migrateLegacyExtrinsic (digest C) key (d # ds) (mtime_or_now C [EXTRINSIC_STORE, key])
             None None None = Inr r"
      and "r' = (case m_read fs [RECORD_STORE, rec_id r] of
             Some (RecordDoc ex) \<Rightarrow> addAssociation ex (hd (associations (outer r))) | _ \<Rightarrow> r)"
      and "\<And>seg. m_read fs' seg = (if seg = [EXTRINSIC_STORE, key] then None
             else if seg = [RECORD_STORE, rec_id r] then Some (RecordDoc r') else m_read fs seg)"
proof (cases "ends_raw key")
  case True
  with assms skip show ?thesis by (auto simp: wrap_extrinsic_def)
next
  case raw: False
  show ?thesis
  proof (cases "\<exists>d ds. m_read fs [EXTRINSIC_STORE, key] = Some (ValueDoc (JArr (d # ds)))")
    case False
    with raw assms skip show ?thesis
      by (auto simp: wrap_extrinsic_def split: option.splits store_doc.splits jsval.splits list.splits)
  next
    case True
    then obtain d ds where doc: "m_read fs [EXTRINSIC_STORE, key] = Some (ValueDoc (JArr (d # ds)))"
      by blast
    with raw assms obtain r where r: "migrateLegacyExtrinsic (digest C) key (d # ds)
        (mtime_or_now C [EXTRINSIC_STORE, key]) None None None = Inr r"
      by (auto simp: wrap_extrinsic_def split: sum.splits)
    show ?thesis
      using assms raw doc r
      by (intro wrap [OF raw doc r refl])
         (auto simp: wrap_extrinsic_def Let_def addAssociation_def
            split: option.splits store_doc.splits if_splits)
  qed
qed

lemma wrap_keyed:
  assumes "wrap_extrinsic C key rep fs = (Inr rep', fs')" and "keyed (digest C) RECORD_STORE fs"
  shows "keyed (digest C) RECORD_STORE fs'"
  using assms(1)
proof (cases rule: wrap_cases)
  case (wrap d ds r r')
  then show ?thesis
    using assms(2) migrated_fields(1,2) [OF wrap(3)]
    by (auto simp: keyed_def split: option.splits store_doc.splits)
qed (use assms(2) in simp)

lemma wrap_holds:
  assumes "wrap_extrinsic C key rep fs = (Inr rep', fs')" and "holds sha RECORD_STORE h as fs"
  shows "holds sha RECORD_STORE h as fs'"
  using assms(1)
proof (cases rule: wrap_cases)
  case (wrap d ds r r')
  then show ?thesis
    using assms(2) by (auto simp: holds_def add_has)
qed (use assms(2) in simp)

lemma wrap_other:
  assumes "wrap_extrinsic C key rep fs = (Inr rep', fs')"
    and "seg \<noteq> [EXTRINSIC_STORE, key]" and "\<And>h. seg \<noteq> [RECORD_STORE, h]"
  shows "m_read fs' seg = m_read fs seg"
  using assms by (cases rule: wrap_cases) simp_all

lemma has_single: "associations (outer r) = [a] \<Longrightarrow> hasAssociation r a"
  by (simp add: hasAssociation_def sameBinding_refl)

lemma wrap_done:
  assumes "wrap_extrinsic C key rep fs = (Inr rep', fs')" and "\<not> ends_raw key"
    and "m_read fs [EXTRINSIC_STORE, key] = Some (ValueDoc (JArr ds))" and "ds \<noteq> []"
    and "keyed (digest C) RECORD_STORE fs"
  shows "m_read fs' [EXTRINSIC_STORE, key] = None \<and>
    (\<exists>h. recordId (digest C) (ExtrinsicInner ds) = Inr h
       \<and> holds (digest C) RECORD_STORE h [\<lparr>cameraKey = key, tripleHash = None, role = None\<rparr>] fs')"
  using assms(1)
proof (cases rule: wrap_cases)
  case skip
  with assms show ?thesis by (cases ds) auto
next
  case (wrap d es r r')
  note m = migrated_fields [OF wrap(3)]
  have "hasAssociation r' \<lparr>cameraKey = key, tripleHash = None, role = None\<rparr>"
    unfolding wrap(4) using m(3) sameBinding_refl
    by (auto simp: add_has has_single split: option.splits store_doc.splits)
  moreover have "recordId (digest C) (inner r') = Inr (rec_id r)"
    unfolding wrap(4) using m(1,2) assms(5)
    by (auto simp: keyed_def split: option.splits store_doc.splits)
  ultimately show ?thesis
    using wrap assms(3) m(1) by (auto simp: holds_def)
qed

text \<open>
  Migration 0 to 1 loses no dataset: when it ends without an error, every legacy dataset that is
  not empty is stored under its content hash with a binding to its camera, its old document is gone,
  every earlier record keeps its bindings, and documents outside the two directories are untouched.
\<close>

theorem wrapping_keeps_datasets:
  assumes "migrateExtrinsicToRecords C fs = (Inr rep, fs')"
    and "distinct (map fst fs)" and "keyed (digest C) RECORD_STORE fs"
  shows "(\<forall>key ds. \<not> ends_raw key \<and> ds \<noteq> []
          \<and> m_read fs [EXTRINSIC_STORE, key] = Some (ValueDoc (JArr ds)) \<longrightarrow>
        m_read fs' [EXTRINSIC_STORE, key] = None \<and>
        (\<exists>h. recordId (digest C) (ExtrinsicInner ds) = Inr h \<and> holds (digest C) RECORD_STORE h
           [\<lparr>cameraKey = key, tripleHash = None, role = None\<rparr>] fs'))
    \<and> keyed (digest C) RECORD_STORE fs'
    \<and> (\<forall>h as. holds (digest C) RECORD_STORE h as fs \<longrightarrow> holds (digest C) RECORD_STORE h as fs')
    \<and> (\<forall>seg. (\<forall>n. seg \<noteq> [EXTRINSIC_STORE, n] \<and> seg \<noteq> [RECORD_STORE, n]) \<longrightarrow>
          m_read fs' seg = m_read fs seg)"
proof (intro conjI allI impI; (elim conjE)?)
  note run = assms(1) [unfolded migrateExtrinsicToRecords_def]
  show "keyed (digest C) RECORD_STORE fs'"
    by (rule for_each_inv [OF run, of "\<lambda>_. keyed (digest C) RECORD_STORE"])
       (use assms(3) wrap_keyed in blast)+
  fix h as assume "holds (digest C) RECORD_STORE h as fs"
  then show "holds (digest C) RECORD_STORE h as fs'"
    by (rule for_each_inv [OF run, of "\<lambda>_. holds (digest C) RECORD_STORE h as"])
       (use wrap_holds in blast)
next
  note run = assms(1) [unfolded migrateExtrinsicToRecords_def]
  fix seg assume "\<forall>n. seg \<noteq> [EXTRINSIC_STORE, n] \<and> seg \<noteq> [RECORD_STORE, n]"
  then show "m_read fs' seg = m_read fs seg"
    by (intro for_each_inv [OF run, of "\<lambda>_ fs'. m_read fs' seg = m_read fs seg"])
       (use wrap_other in \<open>metis\<close>)+
next
  note run = assms(1) [unfolded migrateExtrinsicToRecords_def]
  fix key ds
  assume raw: "\<not> ends_raw key" and ds: "ds \<noteq> []"
    and doc: "m_read fs [EXTRINSIC_STORE, key] = Some (ValueDoc (JArr ds))"
  let ?A = "\<lambda>k fs. keyed (digest C) RECORD_STORE fs
      \<and> m_read fs [EXTRINSIC_STORE, k] = Some (ValueDoc (JArr ds))"
  let ?B = "\<lambda>k fs. m_read fs [EXTRINSIC_STORE, k] = None \<and>
      (\<exists>h. recordId (digest C) (ExtrinsicInner ds) = Inr h \<and> holds (digest C) RECORD_STORE h
         [\<lparr>cameraKey = key, tripleHash = None, role = None\<rparr>] fs)"
  have "?B key fs'"
  proof (rule for_each_reaches [OF run, of key ?A ?B])
    show "distinct (m_list fs EXTRINSIC_STORE)" by (rule distinct_m_list [OF assms(2)])
    show "key \<in> set (m_list fs EXTRINSIC_STORE)" using doc by (simp add: m_list_iff)
    show "?A key fs" using assms(3) doc by simp
  next
    fix r fs r' fs' assume "?A key fs" "wrap_extrinsic C key r fs = (Inr r', fs')"
    then show "?B key fs'" using wrap_done raw ds by blast
  next
    fix y r fs r' fs' assume ne: "y \<noteq> key" and s: "wrap_extrinsic C y r fs = (Inr r', fs')"
    have other: "m_read fs' [EXTRINSIC_STORE, key] = m_read fs [EXTRINSIC_STORE, key]"
      by (rule wrap_other [OF s]) (use ne in simp_all)
    show "?A key fs \<Longrightarrow> ?A key fs'" using other wrap_keyed [OF s] by simp
    show "?B key fs \<Longrightarrow> ?B key fs'" using other wrap_holds [OF s] by auto
  qed
  then show "m_read fs' [EXTRINSIC_STORE, key] = None"
    and "\<exists>h. recordId (digest C) (ExtrinsicInner ds) = Inr h \<and> holds (digest C) RECORD_STORE h
         [\<lparr>cameraKey = key, tripleHash = None, role = None\<rparr>] fs'" by blast+
qed

text \<open>A store with one legacy dataset, and a context whose digest is constant.\<close>

definition sample_ctx :: mig_ctx where
  "sample_ctx = \<lparr>clock = ''2026'', stat = None,
     prims = \<lparr>to_string_of = (\<lambda>_. []), date_of = (\<lambda>_. None)\<rparr>,
     digest = (\<lambda>_. replicate 64 (CHR ''a''))\<rparr>"

definition sample_record :: cal_record where
  "sample_record = \<lparr>rec_id = replicate 32 (CHR ''a''), inner = ExtrinsicInner [JNull],
     outer = \<lparr>created = ''2026'', label = None,
       associations = [\<lparr>cameraKey = ''cam'', tripleHash = None, role = None\<rparr>], sources = None\<rparr>\<rparr>"

definition legacy_store :: mig_fs where
  "legacy_store = [([EXTRINSIC_STORE, ''cam''], ValueDoc (JArr [JNull]))]"

lemma sample_id: "recordId (digest sample_ctx) (ExtrinsicInner [JNull]) = Inr (replicate 32 (CHR ''a''))"
  using canonicalize_hashable [of "inner_js (ExtrinsicInner [JNull])"]
  by (auto simp: recordId_def sample_ctx_def stableHash_def truncateHashHex_def RECORD_ID_HEX_def)

lemma legacy_list: "m_list legacy_store EXTRINSIC_STORE = [''cam'']"
  by (simp add: m_list_def legacy_store_def)

lemma legacy_keyed: "keyed sha RECORD_STORE legacy_store"
  by (simp add: keyed_def legacy_store_def m_read_def)

lemma legacy_run:
  "\<exists>rep fs'. migrateExtrinsicToRecords sample_ctx legacy_store = (Inr rep, fs')"
proof -
  have "migrateLegacyExtrinsic (digest sample_ctx) ''cam'' [JNull] ''2026'' None None None
      = Inr sample_record"
    by (simp add: migrateLegacyExtrinsic_def makeRecord_def extrinsicInner_def sample_id
        sample_record_def)
  moreover have "m_read legacy_store [EXTRINSIC_STORE, ''cam''] = Some (ValueDoc (JArr [JNull]))"
    by (simp add: m_read_def legacy_store_def)
  moreover have "mtime_or_now sample_ctx seg = ''2026''" for seg
    by (simp add: mtime_or_now_def sample_ctx_def)
  ultimately show ?thesis
    unfolding migrateExtrinsicToRecords_def legacy_list
    by (simp add: wrap_extrinsic_def ends_raw_def Let_def case_prod_beta)
qed

theorem wrapping_keeps_datasets_witness:
  "\<exists>rep fs'. migrateExtrinsicToRecords sample_ctx legacy_store = (Inr rep, fs')
     \<and> m_read fs' [EXTRINSIC_STORE, ''cam''] = None
     \<and> keyed (digest sample_ctx) RECORD_STORE fs'"
proof -
  obtain rep fs' where run: "migrateExtrinsicToRecords sample_ctx legacy_store = (Inr rep, fs')"
    using legacy_run by blast
  have "distinct (map fst legacy_store)" by (simp add: legacy_store_def)
  note all = wrapping_keeps_datasets [OF run this legacy_keyed]
  have "m_read fs' [EXTRINSIC_STORE, ''cam''] = None"
    using conjunct1 [OF all, rule_format, of "''cam''" "[JNull]"]
    by (simp add: ends_raw_def legacy_store_def m_read_def)
  with run all show ?thesis by blast
qed

definition no_dataset :: "string \<Rightarrow> mig_fs \<Rightarrow> bool" where
  "no_dataset key fs \<longleftrightarrow> ends_raw key
     \<or> (\<forall>d ds. m_read fs [EXTRINSIC_STORE, key] \<noteq> Some (ValueDoc (JArr (d # ds))))"

lemma no_dataset_skips:
  "no_dataset key fs \<Longrightarrow> wrap_extrinsic C key rep fs = (Inr (rep\<lparr>w_skipped := w_skipped rep + 1\<rparr>), fs)"
  by (auto simp: no_dataset_def wrap_extrinsic_def
      split: option.splits store_doc.splits jsval.splits list.splits)

lemma all_skipped:
  "\<forall>key \<in> set keys. no_dataset key fs \<Longrightarrow> \<exists>n. for_each (wrap_extrinsic C) keys rep fs
     = (Inr \<lparr>w_created = w_created rep, w_associated = w_associated rep, w_skipped = n\<rparr>, fs)"
proof (induction keys arbitrary: rep)
  case Nil
  then show ?case by (cases rep) simp
next
  case (Cons key keys)
  then show ?case
    using Cons.IH [of "rep\<lparr>w_skipped := w_skipped rep + 1\<rparr>"] by (simp add: no_dataset_skips)
qed

text \<open>
  Migration 0 to 1 is idempotent: run again on the store it produced (at any later time), it
  creates and associates nothing and leaves the store as it is.
\<close>

theorem wrapping_is_idempotent:
  assumes "migrateExtrinsicToRecords C fs = (Inr rep, fs')" and "distinct (map fst fs)"
  shows "\<exists>n. migrateExtrinsicToRecords C' fs'
    = (Inr \<lparr>w_created = 0, w_associated = 0, w_skipped = n\<rparr>, fs')"
proof -
  note run = assms(1) [unfolded migrateExtrinsicToRecords_def]
  have "no_dataset key fs'" if "key \<in> set (m_list fs' EXTRINSIC_STORE)" for key
  proof (rule for_each_reaches [OF run, of key "\<lambda>_ _. True" no_dataset])
    show "distinct (m_list fs EXTRINSIC_STORE)" by (rule distinct_m_list [OF assms(2)])
    have "m_read fs [EXTRINSIC_STORE, key] = None \<longrightarrow> m_read fs' [EXTRINSIC_STORE, key] = None"
    proof (rule for_each_inv [OF run, of "\<lambda>_ fs'. m_read fs [EXTRINSIC_STORE, key] = None
        \<longrightarrow> m_read fs' [EXTRINSIC_STORE, key] = None"])
      fix x r f1 r' f2 assume "wrap_extrinsic C x r f1 = (Inr r', f2)"
      then have "m_read f1 [EXTRINSIC_STORE, key] = None \<Longrightarrow> m_read f2 [EXTRINSIC_STORE, key] = None"
        by (cases rule: wrap_cases) auto
      moreover assume "m_read fs [EXTRINSIC_STORE, key] = None
        \<longrightarrow> m_read f1 [EXTRINSIC_STORE, key] = None"
      ultimately show "m_read fs [EXTRINSIC_STORE, key] = None
        \<longrightarrow> m_read f2 [EXTRINSIC_STORE, key] = None" by simp
    qed simp
    with that show "key \<in> set (m_list fs EXTRINSIC_STORE)" by (auto simp: m_list_iff)
  next
    fix r f1 r' f2 assume "wrap_extrinsic C key r f1 = (Inr r', f2)"
    then show "no_dataset key f2" by (cases rule: wrap_cases) (auto simp: no_dataset_def)
  next
    fix y r f1 r' f2 assume "wrap_extrinsic C y r f1 = (Inr r', f2)" and "no_dataset key f1"
    then show "no_dataset key f2" by (cases rule: wrap_cases) (auto simp: no_dataset_def)
  qed simp_all
  then have "\<forall>key \<in> set (m_list fs' EXTRINSIC_STORE). no_dataset key fs'" by blast
  from all_skipped [OF this, of C' "\<lparr>w_created = 0, w_associated = 0, w_skipped = 0\<rparr>"]
  show ?thesis by (simp add: migrateExtrinsicToRecords_def)
qed

theorem wrapping_is_idempotent_witness:
  "\<exists>rep fs' n. migrateExtrinsicToRecords sample_ctx legacy_store = (Inr rep, fs')
     \<and> migrateExtrinsicToRecords sample_ctx fs'
         = (Inr \<lparr>w_created = 0, w_associated = 0, w_skipped = n\<rparr>, fs')"
proof -
  obtain rep fs' where run: "migrateExtrinsicToRecords sample_ctx legacy_store = (Inr rep, fs')"
    using legacy_run by blast
  have "distinct (map fst legacy_store)" by (simp add: legacy_store_def)
  from wrapping_is_idempotent [OF run this, of sample_ctx] run show ?thesis by blast
qed

section \<open>Moving loses nothing\<close>

lemma rekey_assoc_same:
  "sameBinding a b \<Longrightarrow> sameBinding (reKeyAssociation a) (reKeyAssociation b)"
proof -
  have e: "nullish_str (map_option reKeyTripleHash x) = reKeyTripleHash (nullish_str x)" for x
    by (cases x) (simp_all add: nullish_str_def reKeyTripleHash_def full_hash_def)
  show "sameBinding a b \<Longrightarrow> ?thesis"
    by (simp add: sameBinding_def reKeyAssociation_def e)
qed

lemma rekey_assoc_idem: "reKeyAssociation (reKeyAssociation a) = reKeyAssociation a"
  by (simp add: reKeyAssociation_def option.map_comp comp_def reKey_idem)

lemma rekey_record:
  "associations (outer (fst (reKeyRecordAssociations r))) = map reKeyAssociation (associations (outer r))"
  "inner (fst (reKeyRecordAssociations r)) = inner r"
proof -
  have "\<forall>a \<in> set as. tripleHash (reKeyAssociation a) = tripleHash a \<Longrightarrow> map reKeyAssociation as = as" for as
    by (rule map_idI) (simp add: reKeyAssociation_def)
  then show "associations (outer (fst (reKeyRecordAssociations r)))
      = map reKeyAssociation (associations (outer r))"
    by (auto simp: reKeyRecordAssociations_def Let_def list_ex_iff)
  show "inner (fst (reKeyRecordAssociations r)) = inner r"
    by (simp add: reKeyRecordAssociations_def Let_def)
qed

lemma rekey_has:
  "hasAssociation r (reKeyAssociation a) \<Longrightarrow>
   hasAssociation (fst (reKeyRecordAssociations r)) (reKeyAssociation a)"
  using rekey_assoc_same rekey_assoc_idem
  by (fastforce simp: hasAssociation_def list_ex_iff rekey_record)

lemma has_own: "a \<in> set (associations (outer r)) \<Longrightarrow> hasAssociation r a"
  using sameBinding_refl by (auto simp: hasAssociation_def list_ex_iff)

lemma place_read:
  assumes "placeRecord C r kind fs = (Inr (), fs')"
  obtains h r' where "recordId (digest C) (inner r) = Inr h"
    and "\<forall>a \<in> set (associations (outer r)). hasAssociation r' (reKeyAssociation a)"
    and "r' = (case m_read fs [recordStore kind, h] of
           Some (RecordDoc ex) \<Rightarrow> foldl addAssociation ex
             (associations (outer (fst (reKeyRecordAssociations (r\<lparr>rec_id := h\<rparr>)))))
         | _ \<Rightarrow> fst (reKeyRecordAssociations (r\<lparr>rec_id := h\<rparr>)))"
    and "\<And>seg. m_read fs' seg =
           (if seg = [recordStore kind, h] then Some (RecordDoc r') else m_read fs seg)"
proof -
  obtain h where h: "recordId (digest C) (inner r) = Inr h"
    using assms by (auto simp: placeRecord_def Let_def split: sum.splits)
  let ?k = "fst (reKeyRecordAssociations (r\<lparr>rec_id := h\<rparr>))"
  have k: "associations (outer ?k) = map reKeyAssociation (associations (outer r))"
    by (simp add: rekey_record)
  show ?thesis
    by (rule that [OF h _ refl])
       (use assms h k sameBinding_refl in \<open>auto simp: placeRecord_def Let_def adds_has has_own
          split: option.splits store_doc.splits if_splits\<close>)
qed

lemma place_other:
  "placeRecord C r kind fs = (Inr (), fs') \<Longrightarrow> \<forall>h. seg \<noteq> [recordStore kind, h] \<Longrightarrow>
   m_read fs' seg = m_read fs seg"
  by (erule place_read) simp

lemma place_keyed:
  assumes "placeRecord C r kind fs = (Inr (), fs')" and "keyed (digest C) dir fs"
  shows "keyed (digest C) dir fs'"
  using assms(1)
proof (rule place_read)
  fix h r' assume *: "recordId (digest C) (inner r) = Inr h"
    "r' = (case m_read fs [recordStore kind, h] of
           Some (RecordDoc ex) \<Rightarrow> foldl addAssociation ex
             (associations (outer (fst (reKeyRecordAssociations (r\<lparr>rec_id := h\<rparr>)))))
         | _ \<Rightarrow> fst (reKeyRecordAssociations (r\<lparr>rec_id := h\<rparr>)))"
    "\<And>seg. m_read fs' seg = (if seg = [recordStore kind, h] then Some (RecordDoc r') else m_read fs seg)"
  show ?thesis
    unfolding keyed_def *(3)
  proof (intro allI impI)
    fix g q assume q: "(if [dir, g] = [recordStore kind, h] then Some (RecordDoc r')
      else m_read fs [dir, g]) = Some (RecordDoc q)"
    show "recordId (digest C) (inner q) = Inr g"
    proof (cases "[dir, g] = [recordStore kind, h]")
      case True
      with q have "q = r'" "g = h" by auto
      then show ?thesis
        using True assms(2) *(1) unfolding *(2) keyed_def
        by (auto simp: rekey_record split: option.splits store_doc.splits)
    next
      case False
      with q assms(2) show ?thesis by (auto simp: keyed_def split: if_splits)
    qed
  qed
qed

lemma place_holds:
  assumes "placeRecord C r kind fs = (Inr (), fs')" and "holds sha dir g as fs"
  shows "holds sha dir g as fs'"
  using assms(1)
proof (rule place_read)
  fix h r'
  assume "r' = (case m_read fs [recordStore kind, h] of
           Some (RecordDoc ex) \<Rightarrow> foldl addAssociation ex
             (associations (outer (fst (reKeyRecordAssociations (r\<lparr>rec_id := h\<rparr>)))))
         | _ \<Rightarrow> fst (reKeyRecordAssociations (r\<lparr>rec_id := h\<rparr>)))"
    "\<And>seg. m_read fs' seg = (if seg = [recordStore kind, h] then Some (RecordDoc r') else m_read fs seg)"
  with assms(2) show ?thesis by (auto simp: holds_def adds_has)
qed

lemma place_done:
  assumes "placeRecord C r kind fs = (Inr (), fs')" and "keyed (digest C) (recordStore kind) fs"
  shows "\<exists>h. recordId (digest C) (inner r) = Inr h \<and> holds (digest C) (recordStore kind) h
     (map reKeyAssociation (associations (outer r))) fs'"
  using assms(1)
proof (rule place_read)
  fix h r' assume *: "recordId (digest C) (inner r) = Inr h"
    "\<forall>a \<in> set (associations (outer r)). hasAssociation r' (reKeyAssociation a)"
    "\<And>seg. m_read fs' seg = (if seg = [recordStore kind, h] then Some (RecordDoc r') else m_read fs seg)"
  have "recordId (digest C) (inner r') = Inr h"
    using place_keyed [OF assms] *(3) by (auto simp: keyed_def)
  with * show ?thesis by (auto simp: holds_def)
qed

lemmas place_facts = place_other place_keyed place_holds

lemma move_cases:
  assumes "move_flat C name rep fs = (Inr rep', fs')"
  obtains (skip) "fs' = fs" and "\<forall>r. m_read fs [RECORD_STORE, name] \<noteq> Some (RecordDoc r)"
  | (move) r fs1 where "m_read fs [RECORD_STORE, name] = Some (RecordDoc r)"
      and "placeRecord C r (inner_kind (inner r)) fs = (Inr (), fs1)"
      and "fs' = m_clear fs1 [RECORD_STORE, name]"
proof -
  have k: "(if inner_kind (inner r) = Intrinsic then Intrinsic else Extrinsic) = inner_kind (inner r)" for r
    by (cases "inner r") simp_all
  show ?thesis
    using assms unfolding move_flat_def k
    by (auto simp: Let_def split: option.splits store_doc.splits elim!: and_then_Inr intro: skip move)
qed

lemma wrap_intrinsic_cases:
  assumes "wrap_intrinsic C name rep fs = (Inr rep', fs')"
  obtains (skip) "fs' = fs" and "ends_raw name \<or> isRecordId name
      \<or> (\<forall>cal. m_read fs [INTRINSIC_STORE, name] = Some (ValueDoc cal) \<longrightarrow> \<not> isCameraCalibration cal)"
  | (wrap) cal r fs1 where "\<not> ends_raw name" and "\<not> isRecordId name"
      and "m_read fs [INTRINSIC_STORE, name] = Some (ValueDoc cal)" and "isCameraCalibration cal"
      and "inner r = intrinsicInner (own_entries cal)"
      and "associations (outer r) = [\<lparr>cameraKey = name, tripleHash = None, role = None\<rparr>]"
      and "placeRecord C r Intrinsic fs = (Inr (), fs1)"
      and "fs' = m_clear fs1 [INTRINSIC_STORE, name]"
proof (cases "\<not> ends_raw name \<and> \<not> isRecordId name
    \<and> (\<exists>cal. m_read fs [INTRINSIC_STORE, name] = Some (ValueDoc cal) \<and> isCameraCalibration cal)")
  case False
  with assms skip show ?thesis
    by (auto simp: wrap_intrinsic_def split: option.splits store_doc.splits if_splits)
next
  case True
  then obtain cal where cal: "m_read fs [INTRINSIC_STORE, name] = Some (ValueDoc cal)"
    "isCameraCalibration cal" by blast
  with True assms show ?thesis
    by (auto simp: wrap_intrinsic_def Let_def migrateLegacyIntrinsic_def makeRecord_def
        split: sum.splits elim!: and_then_Inr map_sum_Inr intro!: wrap)
qed

lemma move_keyed:
  assumes "move_flat C name rep fs = (Inr rep', fs')" and "keyed (digest C) (recordStore k) fs"
  shows "keyed (digest C) (recordStore k) fs'"
  using assms(1)
proof (cases rule: move_cases)
  case (move r fs1)
  with place_keyed [OF move(2) assms(2)] show ?thesis by (simp add: keyed_def)
qed (use assms(2) in simp)

lemma move_holds:
  assumes "move_flat C name rep fs = (Inr rep', fs')" and "holds sha (recordStore k) h as fs"
  shows "holds sha (recordStore k) h as fs'"
  using assms(1)
proof (cases rule: move_cases)
  case (move r fs1)
  with place_holds [OF move(2) assms(2)] show ?thesis by (simp add: holds_def)
qed (use assms(2) in simp)

lemma wrap_intrinsic_holds:
  assumes "wrap_intrinsic C name rep fs = (Inr rep', fs')" and "holds sha (recordStore k) h as fs"
  shows "holds sha (recordStore k) h as fs'"
  using assms(1)
proof (cases rule: wrap_intrinsic_cases)
  case (wrap cal r fs1)
  have "[recordStore k, h] \<noteq> [INTRINSIC_STORE, name]"
    using wrap(3) assms(2) by (auto simp: holds_def)
  with wrap(8) place_holds [OF wrap(7) assms(2)] show ?thesis by (auto simp: holds_def)
qed (use assms(2) in simp)

lemma rekey_stored_holds:
  assumes "rekey_stored dir' g rep fs = (Inr rep', fs')"
    and "holds sha dir h (map reKeyAssociation as) fs"
  shows "holds sha dir h (map reKeyAssociation as) fs'"
  using assms rekey_has rekey_record(2)
  by (auto simp: rekey_stored_def holds_def Let_def case_prod_beta
      split: option.splits store_doc.splits if_splits)

lemma rekey_triple_read:
  "rekey_triple name rep fs = (Inr rep', fs') \<Longrightarrow> dir \<noteq> ''triples'' \<Longrightarrow>
   m_read fs' [dir, h] = m_read fs [dir, h]"
  by (auto simp: rekey_triple_def Let_def split: if_splits store_doc.splits)

lemma rekey_triple_holds:
  assumes "rekey_triple name rep fs = (Inr rep', fs')" and "holds sha (recordStore k) h as fs"
  shows "holds sha (recordStore k) h as fs'"
  using assms(2) by (simp add: holds_def rekey_triple_read [OF assms(1)])

text \<open>The four stages of a migration that ends.\<close>

lemma migrate_stages:
  assumes "migrateToPerKindRecords C fs = (Inr rep, fs')"
  obtains r0 r1 r2 r3 fs1 fs2 fs3
  where "for_each (move_flat C) (m_list fs RECORD_STORE) r0 fs = (Inr r1, fs1)"
    and "for_each (wrap_intrinsic C) (m_list fs1 INTRINSIC_STORE) r1 fs1 = (Inr r2, fs2)"
    and "for_each rekey_dir RECORD_STORES r2 fs2 = (Inr r3, fs3)"
    and "for_each rekey_triple (m_list fs3 ''triples'') r3 fs3 = (Inr rep, fs')"
  using assms unfolding migrateToPerKindRecords_def by (auto elim!: and_then_Inr)

lemma rekey_stage_inv:
  assumes "for_each rekey_dir dirs r fs = (Inr r', fs')" and "I fs"
    and "\<And>dir h r fs r' fs'. rekey_stored dir h r fs = (Inr r', fs') \<Longrightarrow> I fs \<Longrightarrow> I fs'"
  shows "I fs'"
proof (rule for_each_inv [OF assms(1), of "\<lambda>_. I", OF assms(2)])
  fix d r fs r' fs' assume "I fs" and "rekey_dir d r fs = (Inr r', fs')"
  then show "I fs'"
    unfolding rekey_dir_def using for_each_inv [where I = "\<lambda>_. I"] assms(3) by metis
qed

lemma later_stages_hold:
  assumes "for_each rekey_dir RECORD_STORES r2 fs2 = (Inr r3, fs3)"
    and "for_each rekey_triple ks r3 fs3 = (Inr r4, fs4)"
    and "holds sha (recordStore k) h (map reKeyAssociation as) fs2"
  shows "holds sha (recordStore k) h (map reKeyAssociation as) fs4"
proof -
  let ?H = "holds sha (recordStore k) h (map reKeyAssociation as)"
  have "?H fs3"
    using rekey_stage_inv [OF assms(1), of ?H] assms(3) rekey_stored_holds by metis
  then show ?thesis
    using for_each_inv [OF assms(2), of "\<lambda>_. ?H"] rekey_triple_holds by metis
qed

lemma move_stage:
  assumes "for_each (move_flat C) (m_list fs RECORD_STORE) r0 fs = (Inr r1, fs1)"
    and "distinct (map fst fs)" and "m_read fs [RECORD_STORE, name] = Some (RecordDoc r)"
    and "keyed (digest C) (recordStore (inner_kind (inner r))) fs"
  shows "m_read fs1 [RECORD_STORE, name] = None \<and>
    (\<exists>h. recordId (digest C) (inner r) = Inr h
       \<and> holds (digest C) (recordStore (inner_kind (inner r))) h
           (map reKeyAssociation (associations (outer r))) fs1)"
    (is "_ \<and> ?moved fs1")
proof (rule for_each_reaches [OF assms(1), of name
    "\<lambda>n fs. keyed (digest C) (recordStore (inner_kind (inner r))) fs
       \<and> m_read fs [RECORD_STORE, n] = Some (RecordDoc r)"
    "\<lambda>n fs. m_read fs [RECORD_STORE, n] = None \<and> ?moved fs"])
  show "distinct (m_list fs RECORD_STORE)" by (rule distinct_m_list [OF assms(2)])
  show "name \<in> set (m_list fs RECORD_STORE)" using assms(3) by (simp add: m_list_iff)
  show "keyed (digest C) (recordStore (inner_kind (inner r))) fs
    \<and> m_read fs [RECORD_STORE, name] = Some (RecordDoc r)" using assms by simp
next
  fix ra fsa rb fsb
  assume k: "keyed (digest C) (recordStore (inner_kind (inner r))) fsa
      \<and> m_read fsa [RECORD_STORE, name] = Some (RecordDoc r)"
    and s: "move_flat C name ra fsa = (Inr rb, fsb)"
  from s show "m_read fsb [RECORD_STORE, name] = None \<and> ?moved fsb"
  proof (cases rule: move_cases)
    case (move q fs2)
    with k have "q = r" by simp
    with move k place_done show ?thesis by (auto simp: holds_def)
  qed (use k in simp)
next
  fix y ra fsa rb fsb
  assume ne: "y \<noteq> name" and s: "move_flat C y ra fsa = (Inr rb, fsb)"
  have o: "m_read fsb [RECORD_STORE, name] = m_read fsa [RECORD_STORE, name]"
    using s by (cases rule: move_cases) (use ne place_other in auto)
  show "keyed (digest C) (recordStore (inner_kind (inner r))) fsa
       \<and> m_read fsa [RECORD_STORE, name] = Some (RecordDoc r) \<Longrightarrow>
      keyed (digest C) (recordStore (inner_kind (inner r))) fsb
       \<and> m_read fsb [RECORD_STORE, name] = Some (RecordDoc r)"
    using o move_keyed [OF s] by simp
  show "m_read fsa [RECORD_STORE, name] = None \<and> ?moved fsa \<Longrightarrow>
    m_read fsb [RECORD_STORE, name] = None \<and> ?moved fsb"
    using o move_holds [OF s] by auto
qed

lemma absent_record_stays_absent:
  assumes "for_each (wrap_intrinsic C) ns r1 fs1 = (Inr r2, fs2)"
    and "for_each rekey_dir RECORD_STORES r2 fs2 = (Inr r3, fs3)"
    and "for_each rekey_triple ks r3 fs3 = (Inr r4, fs4)"
    and "m_read fs1 [RECORD_STORE, name] = None"
  shows "m_read fs4 [RECORD_STORE, name] = None"
proof -
  let ?N = "\<lambda>fs. m_read fs [RECORD_STORE, name] = None"
  have "?N fs2"
  proof (rule for_each_inv [OF assms(1), of "\<lambda>_. ?N", OF assms(4)])
    fix x r fs r' fs' assume "wrap_intrinsic C x r fs = (Inr r', fs')" and "?N fs"
    then show "?N fs'"
      using place_other [of C _ Intrinsic fs _ "[RECORD_STORE, name]"]
      by (cases rule: wrap_intrinsic_cases) auto
  qed
  moreover have "?N fs'" if "rekey_stored d h r fs = (Inr r', fs')" and "?N fs" for d h r fs r' fs'
    using that by (auto simp: rekey_stored_def Let_def case_prod_beta
        split: option.splits store_doc.splits if_splits)
  ultimately have "?N fs3"
    using rekey_stage_inv [OF assms(2), of ?N] by metis
  then show ?thesis
    by (rule for_each_inv [OF assms(3), of "\<lambda>_. ?N"]) (simp add: rekey_triple_read)
qed

text \<open>
  Migration 1 to 2 loses no record: when it ends without an error, every flat record is stored in
  the directory of its kind under its content hash, with every binding it had, re-keyed to the short
  triple hash, and the flat document is gone.
\<close>

theorem moving_keeps_records:
  assumes "migrateToPerKindRecords C fs = (Inr rep, fs')" and "distinct (map fst fs)"
    and "m_read fs [RECORD_STORE, name] = Some (RecordDoc r)"
    and "keyed (digest C) (recordStore (inner_kind (inner r))) fs"
  shows "m_read fs' [RECORD_STORE, name] = None
    \<and> (\<exists>h. recordId (digest C) (inner r) = Inr h
         \<and> holds (digest C) (recordStore (inner_kind (inner r))) h
             (map reKeyAssociation (associations (outer r))) fs')"
proof -
  from assms(1) obtain r0 r1 r2 r3 fs1 fs2 fs3
    where s1: "for_each (move_flat C) (m_list fs RECORD_STORE) r0 fs = (Inr r1, fs1)"
      and s2: "for_each (wrap_intrinsic C) (m_list fs1 INTRINSIC_STORE) r1 fs1 = (Inr r2, fs2)"
      and s3: "for_each rekey_dir RECORD_STORES r2 fs2 = (Inr r3, fs3)"
      and s4: "for_each rekey_triple (m_list fs3 ''triples'') r3 fs3 = (Inr rep, fs')"
    by (rule migrate_stages)
  from move_stage [OF s1 assms(2-4)] obtain h
    where gone: "m_read fs1 [RECORD_STORE, name] = None"
      and h: "recordId (digest C) (inner r) = Inr h"
      and here: "holds (digest C) (recordStore (inner_kind (inner r))) h
        (map reKeyAssociation (associations (outer r))) fs1" by blast
  have "holds (digest C) (recordStore (inner_kind (inner r))) h
      (map reKeyAssociation (associations (outer r))) fs2"
    using for_each_inv [OF s2, of "\<lambda>_. holds (digest C) (recordStore (inner_kind (inner r))) h
      (map reKeyAssociation (associations (outer r)))", OF here] wrap_intrinsic_holds by metis
  from later_stages_hold [OF s3 s4 this] h absent_record_stays_absent [OF s2 s3 s4 gone]
  show ?thesis by blast
qed

definition flat_store :: mig_fs where
  "flat_store = [([RECORD_STORE, ''x''], RecordDoc sample_record)]"

lemma flat_lists:
  "m_list flat_store RECORD_STORE = [''x'']"
  "dir \<noteq> EXTRINSIC_STORE \<Longrightarrow>
   m_list (m_clear (m_write flat_store [EXTRINSIC_STORE, h] d) [RECORD_STORE, ''x'']) dir = []"
  "m_list (m_clear (m_write flat_store [EXTRINSIC_STORE, h] d) [RECORD_STORE, ''x'']) EXTRINSIC_STORE = [h]"
  by (auto simp: m_list_def flat_store_def m_write_def m_clear_def)

lemma sample_rekey: "reKeyRecordAssociations sample_record = (sample_record, False)"
  by (simp add: reKeyRecordAssociations_def sample_record_def reKeyAssociation_def)

lemma flat_run: "\<exists>rep fs'. migrateToPerKindRecords sample_ctx flat_store = (Inr rep, fs')"
proof -
  let ?h = "replicate 32 (CHR ''a'')"
  let ?fs = "m_clear (m_write flat_store [EXTRINSIC_STORE, ?h] (RecordDoc sample_record))
    [RECORD_STORE, ''x'']"
  have r: "inner sample_record = ExtrinsicInner [JNull]" "sample_record\<lparr>rec_id := ?h\<rparr> = sample_record"
    by (simp_all add: sample_record_def)
  have store: "recordStore Extrinsic = EXTRINSIC_STORE" by (simp add: EXTRINSIC_STORE_def)
  have rd: "m_read flat_store [RECORD_STORE, ''x''] = Some (RecordDoc sample_record)"
    "m_read flat_store [EXTRINSIC_STORE, ?h] = None"
    by (simp_all add: flat_store_def m_read_def)
  have place: "placeRecord sample_ctx sample_record Extrinsic flat_store
      = (Inr (), m_write flat_store [EXTRINSIC_STORE, ?h] (RecordDoc sample_record))"
    using rd(2) r sample_id by (simp add: placeRecord_def store sample_rekey del: recordStore.simps)
  have move: "\<exists>rep. for_each (move_flat sample_ctx) [''x''] rep0 flat_store = (Inr rep, ?fs)" for rep0
    using rd r place by (simp add: move_flat_def and_then_def)
  have dirs: "\<exists>rep. for_each rekey_dir RECORD_STORES rep0 ?fs = (Inr rep, ?fs)" for rep0
    by (simp add: RECORD_STORES_def rekey_dir_def flat_lists rekey_stored_def sample_rekey)
  obtain ra where a: "for_each (move_flat sample_ctx) [''x'']
      \<lparr>extrinsicMoved = 0, intrinsicMoved = 0, intrinsicWrapped = 0, triplesReKeyed = 0,
       assocReKeyed = 0, skipped = 0\<rparr> flat_store = (Inr ra, ?fs)" using move by blast
  obtain rb where b: "for_each rekey_dir RECORD_STORES ra ?fs = (Inr rb, ?fs)" using dirs by blast
  have "''triples'' \<noteq> EXTRINSIC_STORE" by (simp add: EXTRINSIC_STORE_def)
  with a b show ?thesis
    by (simp add: migrateToPerKindRecords_def flat_lists and_then_def)
qed

theorem moving_keeps_records_witness:
  "\<exists>rep fs'. migrateToPerKindRecords sample_ctx flat_store = (Inr rep, fs')
     \<and> m_read fs' [RECORD_STORE, ''x''] = None
     \<and> holds (digest sample_ctx) (recordStore Extrinsic) (replicate 32 (CHR ''a''))
          (map reKeyAssociation (associations (outer sample_record))) fs'"
proof -
  obtain rep fs' where run: "migrateToPerKindRecords sample_ctx flat_store = (Inr rep, fs')"
    using flat_run by blast
  have i: "inner sample_record = ExtrinsicInner [JNull]" by (simp add: sample_record_def)
  have "distinct (map fst flat_store)" by (simp add: flat_store_def)
  moreover have "m_read flat_store [RECORD_STORE, ''x''] = Some (RecordDoc sample_record)"
    by (simp add: flat_store_def m_read_def)
  moreover have "keyed (digest sample_ctx) (recordStore (inner_kind (inner sample_record))) flat_store"
    by (simp add: keyed_def flat_store_def m_read_def)
  ultimately have "m_read fs' [RECORD_STORE, ''x''] = None
    \<and> (\<exists>h. recordId (digest sample_ctx) (inner sample_record) = Inr h
      \<and> holds (digest sample_ctx) (recordStore (inner_kind (inner sample_record))) h
         (map reKeyAssociation (associations (outer sample_record))) fs')"
    by (rule moving_keeps_records [OF run])
  then have "m_read fs' [RECORD_STORE, ''x''] = None
    \<and> holds (digest sample_ctx) (recordStore Extrinsic) (replicate 32 (CHR ''a''))
         (map reKeyAssociation (associations (outer sample_record))) fs'"
    by (simp only: i sample_id inner_kind.simps) auto
  with run show ?thesis by blast
qed

section \<open>Triples\<close>

definition live_doc :: "mig_fs \<Rightarrow> string \<Rightarrow> bool" where
  "live_doc fs name \<longleftrightarrow> (case m_read fs [''triples'', name] of
      None \<Rightarrow> False | Some (RecordDoc _) \<Rightarrow> True | Some (ValueDoc v) \<Rightarrow> \<not> js_nullish v)"

lemma reKey_full: "reKeyTripleHash name = name \<longleftrightarrow> \<not> full_hash name"
  using full_hash_truncates [of name] record_id_not_full
  by (auto simp: reKeyTripleHash_def)

lemma rekey_triple_cases:
  assumes "rekey_triple name rep fs = (Inr rep', fs')"
  obtains (keep) "\<not> full_hash name" and "fs' = fs"
  | (move) "full_hash name" and "reKeyTripleHash name \<noteq> name"
      and "\<And>n. m_read fs' [''triples'', n] = (if n = name then None
             else if n = reKeyTripleHash name \<and> \<not> live_doc fs n
               then Some (doc_or_null (m_read fs [''triples'', name]))
             else m_read fs [''triples'', n])"
proof (cases "full_hash name")
  case False
  with assms keep show ?thesis by (simp add: rekey_triple_def reKey_full)
next
  case True
  then have "reKeyTripleHash name \<noteq> name" by (simp add: reKey_full)
  with assms True show ?thesis
    by (intro move) (auto simp: rekey_triple_def Let_def live_doc_def doc_or_null_def js_nullish_def
        split: option.splits store_doc.splits if_splits)
qed

lemma short_not_full: "\<not> full_hash (reKeyTripleHash name)"
  using reKey_full [of "reKeyTripleHash name"] by (simp add: reKey_idem)

text \<open>
  Re-keying the triple documents converges and loses no rig: afterwards no document has a full
  64-digit name, a document with a short name that was there keeps its contents, and every full name
  that had a document has one under its short name.
\<close>

theorem triples_are_rekeyed:
  assumes "for_each rekey_triple (m_list fs ''triples'') rep fs = (Inr rep', fs')"
    and "distinct (map fst fs)"
  shows "(\<forall>n. full_hash n \<longrightarrow> m_read fs' [''triples'', n] = None)
    \<and> (\<forall>n. live_doc fs n \<longrightarrow> live_doc fs' (reKeyTripleHash n))
    \<and> (\<forall>n. \<not> full_hash n \<and> live_doc fs n \<longrightarrow>
          m_read fs' [''triples'', n] = m_read fs [''triples'', n])"
proof (intro conjI allI impI; (elim conjE)?)
  note run = assms(1)
  have d: "distinct (m_list fs ''triples'')" by (rule distinct_m_list [OF assms(2)])
  have fixed: "live_doc fs b \<longrightarrow> m_read fs' [''triples'', b] = m_read fs [''triples'', b]"
    if "\<not> full_hash b" for b
  proof (rule for_each_inv [OF run, of "\<lambda>_ fs'. live_doc fs b \<longrightarrow>
      m_read fs' [''triples'', b] = m_read fs [''triples'', b]"])
    fix x r f1 r' f2
    assume s: "rekey_triple x r f1 = (Inr r', f2)"
      and i: "live_doc fs b \<longrightarrow> m_read f1 [''triples'', b] = m_read fs [''triples'', b]"
    from s show "live_doc fs b \<longrightarrow> m_read f2 [''triples'', b] = m_read fs [''triples'', b]"
      by (cases rule: rekey_triple_cases) (use that i in \<open>auto simp: live_doc_def\<close>)
  qed simp
  { fix n assume "\<not> full_hash n" and "live_doc fs n"
    then show "m_read fs' [''triples'', n] = m_read fs [''triples'', n]" using fixed by simp }
  have stay: "live_doc f2 b" if "live_doc f1 b" "\<not> full_hash b" "rekey_triple x r f1 = (Inr r', f2)"
    for f1 f2 x r r' b
    using that(3) by (cases rule: rekey_triple_cases) (use that in \<open>auto simp: live_doc_def\<close>)
  { fix n assume "live_doc fs n"
    show "live_doc fs' (reKeyTripleHash n)"
    proof (cases "full_hash n")
      case False
      with fixed \<open>live_doc fs n\<close> have "live_doc fs' n" by (simp add: live_doc_def)
      with False show ?thesis using reKey_full [of n] by simp
    next
      case True
      show ?thesis
      proof (rule for_each_reaches [OF run d, of n "\<lambda>n fs. live_doc fs n"
          "\<lambda>n fs. live_doc fs (reKeyTripleHash n)"])
        show "n \<in> set (m_list fs ''triples'')"
          using \<open>live_doc fs n\<close> by (auto simp: m_list_iff live_doc_def split: option.splits)
        fix r f1 r' f2 assume l: "live_doc f1 n" and s: "rekey_triple n r f1 = (Inr r', f2)"
        from s show "live_doc f2 (reKeyTripleHash n)"
          by (cases rule: rekey_triple_cases)
             (use True l in \<open>auto simp: live_doc_def doc_or_null_def
                split: option.splits store_doc.splits\<close>)
      next
        fix y r f1 r' f2 assume ne: "y \<noteq> n" and l: "live_doc f1 n"
          and s: "rekey_triple y r f1 = (Inr r', f2)"
        from s show "live_doc f2 n"
          by (cases rule: rekey_triple_cases) (use ne l in \<open>auto simp: live_doc_def\<close>)
      qed (use \<open>live_doc fs n\<close> stay short_not_full in blast)+
    qed }
  fix n assume full: "full_hash n"
  have keep: "m_read f2 [''triples'', n] = None"
    if "rekey_triple x r f1 = (Inr r', f2)" and "m_read f1 [''triples'', n] = None" for x r f1 r' f2
    using that(1) by (cases rule: rekey_triple_cases) (use that full short_not_full in auto)
  show "m_read fs' [''triples'', n] = None"
  proof (cases "n \<in> set (m_list fs ''triples'')")
    case False
    then show ?thesis
      using for_each_inv [OF run, of "\<lambda>_ f. m_read f [''triples'', n] = None"] keep
      by (metis m_list_iff)
  next
    case True
    show ?thesis
    proof (rule for_each_reaches [OF run d True, of "\<lambda>_ _. True"
        "\<lambda>n f. m_read f [''triples'', n] = None"])
      fix r f1 r' f2 assume "rekey_triple n r f1 = (Inr r', f2)"
      then show "m_read f2 [''triples'', n] = None"
        by (cases rule: rekey_triple_cases) (use full in auto)
    qed (use keep in simp_all)
  qed
qed


theorem triples_are_rekeyed_witness:
  "\<exists>rep rep' fs'. for_each rekey_triple
      (m_list [([''triples'', replicate 64 (CHR ''b'')], ValueDoc (JBool True))] ''triples'') rep
      [([''triples'', replicate 64 (CHR ''b'')], ValueDoc (JBool True))] = (Inr rep', fs')
    \<and> m_read fs' [''triples'', replicate 64 (CHR ''b'')] = None"
proof -
  let ?b = "replicate 64 (CHR ''b'')"
  let ?fs = "[([''triples'', ?b], ValueDoc (JBool True))]"
  have full: "full_hash ?b" by (simp add: full_hash_def hex_digit_def list_all_iff)
  have l: "m_list ?fs ''triples'' = [?b]" by (simp add: m_list_def)
  have "\<exists>rep' fs'. for_each rekey_triple [?b] rep ?fs = (Inr rep', fs')" for rep
    by (simp add: rekey_triple_def Let_def)
  then obtain rep rep' fs' where run: "for_each rekey_triple (m_list ?fs ''triples'') rep ?fs = (Inr rep', fs')"
    unfolding l by blast
  have "distinct (map fst ?fs)" by simp
  from conjunct1 [OF triples_are_rekeyed [OF run this], rule_format, OF full] run
  show ?thesis by blast
qed

section \<open>The version chain\<close>

lemma migration_versions [simp]:
  "mig_from migration0to1 = 0" "mig_to migration0to1 = 1"
  "mig_from migration1to2 = 1" "mig_to migration1to2 = 2"
  by (simp_all add: migration0to1_def migration1to2_def)

lemma find_migration [simp]:
  "find (\<lambda>m. mig_from m = 0) MIGRATIONS = Some migration0to1"
  "find (\<lambda>m. mig_from m = 1) MIGRATIONS = Some migration1to2"
  "v \<noteq> 0 \<Longrightarrow> v \<noteq> 1 \<Longrightarrow> find (\<lambda>m. mig_from m = v) MIGRATIONS = None"
  by (simp_all add: MIGRATIONS_def)

lemma chain_done: "target \<le> cur \<Longrightarrow> run_chain n C target cur reps fs = Some (Inr (cur, reps), fs)"
  by (subst run_chain.simps) simp

lemma chain_unknown:
  "\<not> target \<le> cur \<Longrightarrow> cur \<noteq> 0 \<Longrightarrow> cur \<noteq> 1 \<Longrightarrow>
   run_chain (Suc n) C target cur reps fs = Some (Inl (NoMigration cur target), fs)"
  by (subst run_chain.simps) simp

definition set_version :: "mig_fs \<Rightarrow> real \<Rightarrow> mig_fs" where
  "set_version fs v = m_write fs SCHEMA_DOC (ValueDoc (JObj [(''version'', JNum (Fin v))]))"

lemma chain_step1:
  "1 < target \<Longrightarrow> run_chain (Suc n) C target 1 reps fs =
     (case mig_run migration1to2 C fs of
        (Inl e, fs') \<Rightarrow> Some (Inl (Thrown e), fs')
      | (Inr rep, fs') \<Rightarrow> run_chain n C target 2 (reps @ [(mig_name migration1to2, rep)]) (set_version fs' 2))"
  by (subst run_chain.simps) (simp add: set_version_def split: prod.split sum.split)

lemma chain_step0:
  "0 < target \<Longrightarrow> run_chain (Suc n) C target 0 reps fs =
     (case mig_run migration0to1 C fs of
        (Inl e, fs') \<Rightarrow> Some (Inl (Thrown e), fs')
      | (Inr rep, fs') \<Rightarrow> run_chain n C target 1 (reps @ [(mig_name migration0to1, rep)]) (set_version fs' 1))"
  by (subst run_chain.simps) (simp add: set_version_def split: prod.split sum.split)

lemma version_set: "readSchemaVersion (set_version fs v) = Inr v"
  by (simp add: readSchemaVersion_def set_version_def js_nullish_def js_get_def)

lemma two_migrations: "length MIGRATIONS = Suc (Suc 0)"
  by (simp add: MIGRATIONS_def)

lemma chain_from_1:
  "run_chain (Suc n) C 2 1 reps fs = (case mig_run migration1to2 C fs of
        (Inl e, fs') \<Rightarrow> Some (Inl (Thrown e), fs')
      | (Inr rep, fs') \<Rightarrow> Some (Inr (2, reps @ [(mig_name migration1to2, rep)]), set_version fs' 2))"
  by (simp add: chain_step1 chain_done split: prod.split sum.split)

lemma chain_ends: "\<exists>out. run_chain (Suc (Suc (Suc n))) C target cur reps fs = Some out"
proof -
  have "\<exists>out. run_chain (Suc m) C target 2 reps fs = Some out" for m reps fs
    by (cases "target \<le> 2") (auto simp: chain_done chain_unknown)
  then have "\<exists>out. run_chain (Suc (Suc m)) C target 1 reps fs = Some out" for m reps fs
    by (cases "target \<le> 1") (auto simp: chain_done chain_step1 split: prod.split sum.split)
  then have "\<exists>out. run_chain (Suc (Suc (Suc m))) C target 0 reps fs = Some out" for m reps fs
    by (cases "target \<le> 0") (auto simp: chain_done chain_step0 split: prod.split sum.split)
  then show ?thesis
    using \<open>\<And>m reps fs. \<exists>out. run_chain (Suc (Suc m)) C target 1 reps fs = Some out\<close>
    by (cases "target \<le> cur"; cases "cur = 0"; cases "cur = 1")
       (auto simp: chain_done chain_unknown)
qed

text \<open>
  The runner always ends. A store already at the target version is left alone, without a
  snapshot. A store at version 0 or 1 that is brought to version 2 without an error has exactly the
  pending migrations applied, in order, and records version 2. Any other older version is refused and
  the store is not changed.
\<close>

theorem runner_chains_versions:
  "\<exists>res snaps fs'. runMigrations C 2 fs = Some (res, snaps, fs') \<and>
    (case readSchemaVersion fs of
       Inl e \<Rightarrow> res = Inl e \<and> fs' = fs \<and> snaps = []
     | Inr from \<Rightarrow>
         (if 2 \<le> from then res = Inr \<lparr>run_from = from, run_to = from, reports = []\<rparr> \<and> snaps = [] \<and> fs' = fs
          else take 1 snaps = [(Before, from, 2, fs)] \<and>
            (case res of
               Inr out \<Rightarrow> map fst (reports out) = (if from = 0 then [mig_name migration0to1] else [])
                   @ [mig_name migration1to2]
                 \<and> run_from out = from \<and> run_to out = 2 \<and> readSchemaVersion fs' = Inr 2
                 \<and> drop 1 snaps = [(After, from, 2, fs')]
             | Inl e \<Rightarrow> length snaps = 1
                 \<and> (e = NoMigration from 2) = (from \<noteq> 0 \<and> from \<noteq> 1)
                 \<and> (if e = NoMigration from 2 then fs' = fs else True))))"
proof (cases "readSchemaVersion fs")
  case (Inl e)
  then show ?thesis by (simp add: runMigrations_def)
next
  case (Inr v)
  consider "2 \<le> v" | "\<not> 2 \<le> v" "v \<noteq> 0" "v \<noteq> 1" | "v = 1" | "v = 0" by blast
  then show ?thesis
  proof cases
    case 3
    with Inr show ?thesis
      by (auto simp: runMigrations_def two_migrations chain_from_1 version_set
          split: prod.split sum.split)
  next
    case 4
    with Inr show ?thesis
      by (auto simp: runMigrations_def two_migrations chain_step0 chain_from_1 version_set
          split: prod.split sum.split)
  qed (use Inr in \<open>auto simp: runMigrations_def two_migrations chain_done chain_unknown\<close>)
qed

end
