(* ===== verification/PaneDescriptor.thy ===== *)
theory PaneDescriptor
  imports JsValue
begin

text \<open>
  The pane descriptor codec of the projection windows (\<open>app/lib/projection/descriptor.ts\<close>). A
  serialized descriptor is the JSON document \<open>JSON.stringify\<close> prints, as a value; a parser takes
  what \<open>JSON.parse\<close> returned, \<open>None\<close> for an absent string or a syntax error. Minting an id
  threads the module's counter; the clock is an argument.
\<close>

datatype pane_source = FramePaneSource string string | PipePaneSource string
  | ViewerPaneSource string string

record pane =
  pane_id :: string
  pane_source :: pane_source
  pane_title :: "string option"
  pane_theme :: "string option"

record pane_descriptor =
  pd_source :: pane_source
  pd_title :: "string option"
  pd_theme :: "string option"

datatype drag_origin = App | Projection

record drag_payload =
  dp_pane :: pane
  dp_srcWindowId :: "string option"
  dp_origin :: drag_origin

definition PANE_CODEC_VERSION :: real where
  "PANE_CODEC_VERSION = 2"

fun acceptsCodecVersion :: "jsval \<Rightarrow> bool" where
  "acceptsCodecVersion (JNum (Fin x)) = (x \<in> \<int> \<and> x \<ge> 1 \<and> x \<le> PANE_CODEC_VERSION)"
| "acceptsCodecVersion _ = False"

fun base36 :: "nat \<Rightarrow> string" where
  "base36 n = (if n < 10 then [char_of (48 + n)]
     else if n < 36 then [char_of (87 + n)] else base36 (n div 36) @ base36 (n mod 36))"

declare base36.simps [simp del]

text \<open>The new id and the advanced counter.\<close>

definition freshPaneId :: "nat \<Rightarrow> nat \<Rightarrow> string \<times> nat" where
  "freshPaneId now counter =
     (''pane-'' @ base36 now @ ''-'' @ base36 (counter + 1), counter + 1)"

text \<open>An empty title or theme is falsy and is not carried over.\<close>

definition truthy_str :: "string option \<Rightarrow> string option" where
  "truthy_str s = (if s = Some [] then None else s)"

definition paneFromDescriptor :: "nat \<Rightarrow> pane_descriptor \<Rightarrow> nat \<Rightarrow> pane \<times> nat" where
  "paneFromDescriptor now desc counter = (let (i, counter') = freshPaneId now counter
     in (\<lparr>pane_id = i, pane_source = pd_source desc, pane_title = truthy_str (pd_title desc),
          pane_theme = truthy_str (pd_theme desc)\<rparr>, counter'))"

definition isObj :: "jsval \<Rightarrow> bool" where
  "isObj v \<longleftrightarrow> is_object v"

text \<open>A non-empty string, the test \<open>typeof x === "string" && x\<close>.\<close>

fun str_field :: "jsval \<Rightarrow> string option" where
  "str_field (JStr s) = (if s = [] then None else Some s)"
| "str_field _ = None"

fun any_str :: "jsval \<Rightarrow> string option" where
  "any_str (JStr s) = Some s"
| "any_str _ = None"

definition parsePaneSource :: "jsval \<Rightarrow> pane_source option" where
  "parsePaneSource v =
     (if \<not> isObj v then None
      else if js_get v ''kind'' = JStr ''frame'' then
        (case (str_field (js_get v ''session''), str_field (js_get v ''frame'')) of
           (Some s, Some f) \<Rightarrow> Some (FramePaneSource s f) | _ \<Rightarrow> None)
      else if js_get v ''kind'' = JStr ''pipe'' then
        map_option PipePaneSource (str_field (js_get v ''id''))
      else if js_get v ''kind'' = JStr ''viewer'' then
        (case (str_field (js_get v ''recording''), str_field (js_get v ''tileKey'')) of
           (Some r, Some t) \<Rightarrow> Some (ViewerPaneSource r t) | _ \<Rightarrow> None)
      else None)"

definition parsePaneObject :: "nat \<Rightarrow> jsval \<Rightarrow> nat \<Rightarrow> pane option \<times> nat" where
  "parsePaneObject now v counter =
     (if \<not> isObj v then (None, counter)
      else case parsePaneSource (js_get v ''source'') of
          None \<Rightarrow> (None, counter)
        | Some source \<Rightarrow>
            (let (i, counter') = (case str_field (js_get v ''id'') of
                  Some i \<Rightarrow> (i, counter) | None \<Rightarrow> freshPaneId now counter)
             in (Some \<lparr>pane_id = i, pane_source = source, pane_title = any_str (js_get v ''title''),
                   pane_theme = any_str (js_get v ''theme'')\<rparr>, counter')))"

fun source_doc :: "pane_source \<Rightarrow> jsval" where
  "source_doc (FramePaneSource s f) =
     JObj [(''kind'', JStr ''frame''), (''session'', JStr s), (''frame'', JStr f)]"
| "source_doc (PipePaneSource i) = JObj [(''kind'', JStr ''pipe''), (''id'', JStr i)]"
| "source_doc (ViewerPaneSource r t) =
     JObj [(''kind'', JStr ''viewer''), (''recording'', JStr r), (''tileKey'', JStr t)]"

definition opt_entry :: "string \<Rightarrow> string option \<Rightarrow> jsval table" where
  "opt_entry k s = (case s of None \<Rightarrow> [] | Some x \<Rightarrow> [(k, JStr x)])"

definition toWire :: "pane \<Rightarrow> jsval" where
  "toWire p = JObj ([(''id'', JStr (pane_id p)), (''source'', source_doc (pane_source p))]
     @ opt_entry ''title'' (pane_title p) @ opt_entry ''theme'' (pane_theme p))"

definition serializePane :: "pane \<Rightarrow> jsval" where
  "serializePane p = JObj [(''v'', JNum (Fin PANE_CODEC_VERSION)), (''pane'', toWire p)]"

definition parsePane :: "nat \<Rightarrow> jsval option \<Rightarrow> nat \<Rightarrow> pane option \<times> nat" where
  "parsePane now s counter = (case s of
      None \<Rightarrow> (None, counter)
    | Some doc \<Rightarrow>
        if \<not> isObj doc \<or> \<not> acceptsCodecVersion (js_get doc ''v'') then (None, counter)
        else parsePaneObject now (js_get doc ''pane'') counter)"

definition serializeDragPayload :: "drag_payload \<Rightarrow> jsval" where
  "serializeDragPayload p = JObj [(''v'', JNum (Fin PANE_CODEC_VERSION)),
     (''pane'', toWire (dp_pane p)),
     (''srcWindowId'', (case dp_srcWindowId p of None \<Rightarrow> JNull | Some w \<Rightarrow> JStr w)),
     (''origin'', JStr (case dp_origin p of App \<Rightarrow> ''app'' | Projection \<Rightarrow> ''projection''))]"

definition parseDragPayload :: "nat \<Rightarrow> jsval option \<Rightarrow> nat \<Rightarrow> drag_payload option \<times> nat" where
  "parseDragPayload now s counter = (case s of
      None \<Rightarrow> (None, counter)
    | Some doc \<Rightarrow>
        if \<not> isObj doc \<or> \<not> acceptsCodecVersion (js_get doc ''v'') then (None, counter)
        else (case parsePaneObject now (js_get doc ''pane'') counter of
            (None, c) \<Rightarrow> (None, c)
          | (Some p, c) \<Rightarrow> (Some \<lparr>dp_pane = p, dp_srcWindowId = any_str (js_get doc ''srcWindowId''),
              dp_origin = (if js_get doc ''origin'' = JStr ''app'' then App else Projection)\<rparr>, c)))"

definition paneLabel :: "pane \<Rightarrow> string" where
  "paneLabel p = (case truthy_str (pane_title p) of
      Some t \<Rightarrow> t
    | None \<Rightarrow> (case pane_source p of
        FramePaneSource s f \<Rightarrow> s @ '' / '' @ f
      | ViewerPaneSource r t \<Rightarrow> r @ '' / '' @ t
      | PipePaneSource i \<Rightarrow> i))"

definition sameSource :: "pane_source \<Rightarrow> pane_source \<Rightarrow> bool" where
  "sameSource a b = (case (a, b) of
      (FramePaneSource s f, FramePaneSource s' f') \<Rightarrow> s = s' \<and> f = f'
    | (PipePaneSource i, PipePaneSource i') \<Rightarrow> i = i'
    | (ViewerPaneSource r t, ViewerPaneSource r' t') \<Rightarrow> r = r' \<and> t = t'
    | _ \<Rightarrow> False)"

section \<open>What the parsers accept\<close>

text \<open>A pane that every parser can read: its id and the address of its source are not empty.\<close>

fun source_ok :: "pane_source \<Rightarrow> bool" where
  "source_ok (FramePaneSource s f) = (s \<noteq> [] \<and> f \<noteq> [])"
| "source_ok (PipePaneSource i) = (i \<noteq> [])"
| "source_ok (ViewerPaneSource r t) = (r \<noteq> [] \<and> t \<noteq> [])"

definition pane_ok :: "pane \<Rightarrow> bool" where
  "pane_ok p \<longleftrightarrow> pane_id p \<noteq> [] \<and> source_ok (pane_source p)"

lemma isObj_simps [simp]: "isObj (JObj ps)" "\<not> isObj JNull" "\<not> isObj JUndef"
  by (simp_all add: isObj_def is_object_def)

lemma str_field_ok: "str_field v = Some s \<Longrightarrow> s \<noteq> []"
  by (cases v) (auto split: if_splits)

lemma parse_source_doc: "source_ok src \<Longrightarrow> parsePaneSource (source_doc src) = Some src"
  by (cases src) (simp_all add: parsePaneSource_def js_get_def)

lemma parsed_source_ok: "parsePaneSource v = Some src \<Longrightarrow> source_ok src"
  by (auto simp: parsePaneSource_def dest!: str_field_ok split: if_splits option.splits)

lemma fresh_not_Nil: "fst (freshPaneId now c) \<noteq> []"
  by (simp add: freshPaneId_def)

lemma parsed_pane_ok: "parsePaneObject now v c = (Some p, c') \<Longrightarrow> pane_ok p \<and> c \<le> c'"
  by (auto simp: parsePaneObject_def pane_ok_def freshPaneId_def Let_def
      dest!: parsed_source_ok str_field_ok split: if_splits option.splits prod.splits)

lemma title_keys: "''title'' \<notin> set object_prototype_keys" "''theme'' \<notin> set object_prototype_keys"
  by (simp_all add: object_prototype_keys_def)

lemma parse_toWire: "pane_ok p \<Longrightarrow> parsePaneObject now (toWire p) c = (Some p, c)"
  by (cases "pane_title p"; cases "pane_theme p")
     (auto simp: parsePaneObject_def toWire_def js_get_def opt_entry_def pane_ok_def title_keys
        parse_source_doc Let_def intro!: pane.equality)

text \<open>Base 36 is injective and never prints a dash.\<close>

definition digit36 :: "nat \<Rightarrow> char" where
  "digit36 d = (if d < 10 then char_of (48 + d) else char_of (87 + d))"

lemma digit36_val: "d < 36 \<Longrightarrow> of_char (digit36 d) = (if d < 10 then 48 + d else 87 + d)"
  by (auto simp: digit36_def)

lemma digit36_inj:
  assumes "d < 36" and "e < 36" and "digit36 d = digit36 e"
  shows "d = e"
proof -
  have "(if d < 10 then 48 + d else 87 + d) = (if e < 10 then 48 + e else 87 + e)"
    using digit36_val [OF assms(1)] digit36_val [OF assms(2)] by (simp only: assms(3))
  with assms(1,2) show ?thesis by (simp split: if_splits)
qed

lemma base36_unfold:
  "base36 n = (if n < 36 then [digit36 n] else base36 (n div 36) @ [digit36 (n mod 36)])"
proof (cases "n < 36")
  case True
  then show ?thesis by (subst base36.simps) (simp add: digit36_def)
next
  case False
  have "n mod 36 < 36" by simp
  then have "base36 (n mod 36) = [digit36 (n mod 36)]"
    by (subst base36.simps) (simp add: digit36_def)
  with False show ?thesis by (subst base36.simps) simp
qed

lemma base36_not_Nil: "base36 n \<noteq> []"
  by (cases "n < 36") (simp_all add: base36_unfold [of n])

lemma base36_length: "n \<ge> 36 \<Longrightarrow> length (base36 n) \<ge> 2"
  using base36_not_Nil [of "n div 36"] by (cases "base36 (n div 36)") (simp_all add: base36_unfold [of n])

lemma base36_inj: "base36 m = base36 n \<Longrightarrow> m = n"
proof (induction m arbitrary: n rule: less_induct)
  case (less m)
  show ?case
  proof (cases "m < 36")
    case True
    then have "length (base36 n) = 1"
      using arg_cong [OF less.prems, of length] by (simp add: base36_unfold [of m])
    then have "n < 36" using base36_length [of n] by (cases "n < 36") auto
    with True less.prems show ?thesis
      by (simp add: base36_unfold [of m] base36_unfold [of n] digit36_inj)
  next
    case False
    then have "n \<ge> 36"
      using less.prems base36_length [of m] by (cases "n < 36") (auto simp: base36_unfold [of n])
    with False less.prems have eq: "base36 (m div 36) = base36 (n div 36)"
      "digit36 (m mod 36) = digit36 (n mod 36)"
      by (simp_all add: base36_unfold [of m] base36_unfold [of n])
    then have "m div 36 = n div 36" using False by (intro less.IH) simp_all
    moreover have "m mod 36 = n mod 36" using eq(2) by (intro digit36_inj) simp_all
    ultimately show ?thesis by (metis div_mult_mod_eq)
  qed
qed

lemma base36_no_dash: "CHR ''-'' \<notin> set (base36 n)"
proof (induction n rule: less_induct)
  case (less n)
  have dash: "digit36 d \<noteq> CHR ''-''" if "d < 36" for d
    using digit36_val [OF that] by (auto split: if_splits)
  show ?case
    using less [of "n div 36"] dash [of n] dash [of "n mod 36"]
    by (subst base36_unfold) auto
qed

lemma suffix_after_last:
  "xs @ a # ys = us @ a # vs \<Longrightarrow> a \<notin> set ys \<Longrightarrow> a \<notin> set vs \<Longrightarrow> ys = vs"
proof (induction xs arbitrary: us)
  case Nil
  then show ?case by (cases us) auto
next
  case (Cons x xs)
  then show ?case by (cases us) auto
qed

section \<open>Properties\<close>

text \<open>
  A descriptor survives the trip through a window URL or a drag: parsing what was serialized
  gives the same pane, title, theme, origin window and origin class, and mints no id.
\<close>

theorem descriptor_roundtrip:
  assumes "pane_ok (dp_pane d)"
  shows "parsePane now (Some (serializePane (dp_pane d))) c = (Some (dp_pane d), c)
    \<and> parseDragPayload now (Some (serializeDragPayload d)) c = (Some d, c)"
proof -
  have v: "acceptsCodecVersion (JNum (Fin PANE_CODEC_VERSION))"
    by (simp add: PANE_CODEC_VERSION_def)
  show ?thesis
    using parse_toWire [OF assms] v
    by (cases "dp_srcWindowId d"; cases "dp_origin d")
       (auto simp: parsePane_def serializePane_def parseDragPayload_def serializeDragPayload_def
          js_get_def intro!: drag_payload.equality)
qed

theorem descriptor_roundtrip_witness:
  "parsePane 5 (Some (serializePane \<lparr>pane_id = ''p'', pane_source = PipePaneSource ''cam'',
      pane_title = Some [], pane_theme = None\<rparr>)) 0
    = (Some \<lparr>pane_id = ''p'', pane_source = PipePaneSource ''cam'', pane_title = Some [],
        pane_theme = None\<rparr>, 0)"
  using descriptor_roundtrip [of "\<lparr>dp_pane = \<lparr>pane_id = ''p'', pane_source = PipePaneSource ''cam'',
      pane_title = Some [], pane_theme = None\<rparr>, dp_srcWindowId = None, dp_origin = App\<rparr>" 5 0]
  by (simp add: pane_ok_def)

text \<open>
  Parsing is defensive: whatever the document, the parser returns either nothing or a pane with
  a non-empty id and a complete source address.
\<close>

theorem parsed_panes_are_complete:
  "case parsePane now s c of (None, _) \<Rightarrow> True | (Some p, _) \<Rightarrow> pane_ok p"
  by (auto simp: parsePane_def split: option.splits prod.splits dest: parsed_pane_ok)

text \<open>
  Minted pane ids are unique within a renderer: two mints at different counter values give
  different ids, whatever the clock reads.
\<close>

theorem fresh_ids_distinct:
  assumes "c1 \<noteq> c2"
  shows "fst (freshPaneId t1 c1) \<noteq> fst (freshPaneId t2 c2)"
proof
  assume "fst (freshPaneId t1 c1) = fst (freshPaneId t2 c2)"
  then have "base36 t1 @ CHR ''-'' # base36 (c1 + 1) = base36 t2 @ CHR ''-'' # base36 (c2 + 1)"
    by (simp add: freshPaneId_def)
  then have "base36 (c1 + 1) = base36 (c2 + 1)"
    by (rule suffix_after_last) (simp_all add: base36_no_dash)
  then show False using assms base36_inj by auto
qed

theorem fresh_ids_distinct_witness:
  "fst (freshPaneId 100 3) \<noteq> fst (freshPaneId 7 4)"
  by (rule fresh_ids_distinct) simp

end
