(* ===== verification/SplitTree.thy ===== *)
theory SplitTree
  imports PaneDescriptor "HOL-Library.Multiset"
begin

text \<open>
  The recursive split tree of a projection window and its reducer
  (\<open>app/lib/projection/split-tree.ts\<close>). Ratios inside a tree are finite numbers; the ratios that
  enter \<open>makeSplit\<close> may be absent or not finite (\<open>None\<close>). The lemmas give the panes of every
  result in render order, the layout invariant of the module (at least two children, normalized
  ratios, no nested split of the same direction) for insertion, swap, move and divider drag, the
  weaker invariant that removal keeps, and the round trip through the window URL.
\<close>

datatype split_dir = Row | Col

datatype split_tree = Leaf pane | Split split_dir "split_tree list" "real list"

datatype drop_zone = ZLeft | ZRight | ZTop | ZBottom | ZCenter

definition MIN_RATIO :: real where
  "MIN_RATIO = 8 / 100"

definition evenRatios :: "nat \<Rightarrow> real list" where
  "evenRatios n = replicate n (1 / real n)"

definition clean_ratio :: "real option \<Rightarrow> real" where
  "clean_ratio r = (case r of Some x \<Rightarrow> if x > 0 then x else 0 | None \<Rightarrow> 0)"

definition normalizeRatios :: "real option list \<Rightarrow> real list" where
  "normalizeRatios ratios = (let clean = map clean_ratio ratios; s = sum_list clean
     in if s \<le> 0 then evenRatios (length ratios) else map (\<lambda>r. r / s) clean)"

text \<open>A read past the end is \<open>undefined\<close>, hence not a finite number.\<close>

definition ratio_at :: "real list \<Rightarrow> nat \<Rightarrow> real option" where
  "ratio_at rs j = (if j < length rs then Some (rs ! j) else None)"

definition ratios_at :: "real list \<Rightarrow> nat \<Rightarrow> real option list" where
  "ratios_at rs n = map (ratio_at rs) [0..<n]"

definition times_ratio :: "real option \<Rightarrow> real option \<Rightarrow> real option" where
  "times_ratio a b = (case (a, b) of (Some x, Some y) \<Rightarrow> Some (x * y) | _ \<Rightarrow> None)"

fun flatten_child :: "split_dir \<Rightarrow> split_tree \<times> real option \<Rightarrow> (split_tree \<times> real option) list" where
  "flatten_child dir (Split d gcs grs, r) =
     (if d = dir then zip gcs (map (times_ratio r) (ratios_at grs (length gcs)))
      else [(Split d gcs grs, r)])"
| "flatten_child dir (Leaf p, r) = [(Leaf p, r)]"

definition makeSplit :: "split_dir \<Rightarrow> split_tree list \<Rightarrow> real option list option \<Rightarrow> split_tree" where
  "makeSplit dir children ratios =
     (let r = (case ratios of
            Some rs \<Rightarrow> if length rs = length children then rs
              else map Some (evenRatios (length children))
          | None \<Rightarrow> map Some (evenRatios (length children)));
          flat = concat (map (flatten_child dir) (zip children r))
      in if length flat = 1 then fst (hd flat)
         else Split dir (map fst flat) (normalizeRatios (map snd flat)))"

fun panes :: "split_tree \<Rightarrow> pane list" where
  "panes (Leaf p) = [p]"
| "panes (Split _ cs _) = concat (map panes cs)"

definition panes_opt :: "split_tree option \<Rightarrow> pane list" where
  "panes_opt t = (case t of None \<Rightarrow> [] | Some t \<Rightarrow> panes t)"

definition findPane :: "split_tree option \<Rightarrow> string \<Rightarrow> pane option" where
  "findPane t i = find (\<lambda>p. pane_id p = i) (panes_opt t)"

definition hasPane :: "split_tree option \<Rightarrow> string \<Rightarrow> bool" where
  "hasPane t i \<longleftrightarrow> findPane t i \<noteq> None"

definition paneCount :: "split_tree option \<Rightarrow> nat" where
  "paneCount t = length (panes_opt t)"

fun edgeGeometry :: "drop_zone \<Rightarrow> split_dir \<times> bool" where
  "edgeGeometry ZLeft = (Row, True)"
| "edgeGeometry ZRight = (Row, False)"
| "edgeGeometry ZTop = (Col, True)"
| "edgeGeometry ZBottom = (Col, False)"
| "edgeGeometry ZCenter = (Row, False)"

fun insertPane :: "split_tree \<Rightarrow> string \<Rightarrow> pane \<Rightarrow> drop_zone \<Rightarrow> split_tree" where
  "insertPane (Leaf q) target p zone =
     (if pane_id q \<noteq> target then Leaf q
      else if zone = ZCenter then Leaf p
      else (case edgeGeometry zone of (dir, before) \<Rightarrow>
        makeSplit dir (if before then [Leaf p, Leaf q] else [Leaf q, Leaf p]) None))"
| "insertPane (Split d cs rs) target p zone =
     makeSplit d (map (\<lambda>c. insertPane c target p zone) cs) (Some (map Some rs))"

fun removePane :: "split_tree \<Rightarrow> string \<Rightarrow> split_tree option" where
  "removePane (Leaf q) i = (if pane_id q = i then None else Some (Leaf q))"
| "removePane (Split d cs rs) i =
     (let kept = List.map_filter (\<lambda>(t, r). map_option (\<lambda>t. (t, r)) t)
            (zip (map (\<lambda>c. removePane c i) cs) (ratios_at rs (length cs)))
      in if kept = [] then None
         else if length kept = 1 then Some (fst (hd kept))
         else Some (Split d (map fst kept) (normalizeRatios (map snd kept))))"

fun replace_leaves :: "(pane \<Rightarrow> pane) \<Rightarrow> split_tree \<Rightarrow> split_tree" where
  "replace_leaves f (Leaf q) = Leaf (f q)"
| "replace_leaves f (Split d cs rs) = Split d (map (replace_leaves f) cs) rs"

definition swapPanes :: "split_tree \<Rightarrow> string \<Rightarrow> string \<Rightarrow> split_tree" where
  "swapPanes t a b =
     (if a = b then t
      else case (findPane (Some t) a, findPane (Some t) b) of
        (Some pa, Some pb) \<Rightarrow>
          replace_leaves (\<lambda>q. if pane_id q = a then pb else if pane_id q = b then pa else q) t
      | _ \<Rightarrow> t)"

definition movePane :: "split_tree \<Rightarrow> string \<Rightarrow> string \<Rightarrow> drop_zone \<Rightarrow> split_tree" where
  "movePane t i target zone =
     (if i = target then t
      else case findPane (Some t) i of
        None \<Rightarrow> t
      | Some moving \<Rightarrow>
          if \<not> hasPane (Some t) target then t
          else if zone = ZCenter then swapPanes t i target
          else (case removePane t i of
              None \<Rightarrow> t
            | Some without \<Rightarrow> insertPane without target moving zone))"

text \<open>A divider drag; indices and path entries are integers, as they may be out of range.\<close>

fun resizeDivider :: "split_tree \<Rightarrow> int list \<Rightarrow> int \<Rightarrow> real \<Rightarrow> real \<Rightarrow> split_tree" where
  "resizeDivider (Leaf q) path i delta minRatio = Leaf q"
| "resizeDivider (Split d cs rs) [] i delta minRatio =
     (if i < 0 \<or> i + 1 \<ge> int (length cs) then Split d cs rs
      else let k = nat i; pair = rs ! k + rs ! (k + 1); lo = minRatio; hi = pair - minRatio
        in if hi \<le> lo then Split d cs rs
           else let next = min (max (rs ! k + delta) lo) hi
             in Split d cs (rs[k := next, k + 1 := pair - next]))"
| "resizeDivider (Split d cs rs) (idx # path) i delta minRatio =
     (if idx < 0 \<or> idx \<ge> int (length cs) then Split d cs rs
      else Split d (cs[nat idx := resizeDivider (cs ! nat idx) path i delta minRatio]) rs)"

section \<open>Serialization\<close>

definition TREE_CODEC_VERSION :: real where
  "TREE_CODEC_VERSION = 1"

fun treeToWire :: "split_tree \<Rightarrow> jsval" where
  "treeToWire (Leaf p) = JObj [(''t'', JStr ''l''), (''p'', toWire p)]"
| "treeToWire (Split d cs rs) = JObj [(''t'', JStr ''s''),
     (''d'', JStr (case d of Row \<Rightarrow> ''row'' | Col \<Rightarrow> ''col'')),
     (''c'', JArr (map treeToWire cs)), (''r'', JArr (map (\<lambda>r. JNum (Fin r)) rs))]"

text \<open>An entry of a foreign ratio list that is not a number reads as not finite.\<close>

fun wire_ratio :: "jsval \<Rightarrow> real option" where
  "wire_ratio (JNum (Fin x)) = Some x"
| "wire_ratio (JNum NegZero) = Some 0"
| "wire_ratio _ = None"

fun arr_items :: "jsval \<Rightarrow> jsval list" where
  "arr_items (JArr vs) = vs"
| "arr_items _ = []"

lemma size_table_entry:
  "map_of ps k = Some v \<Longrightarrow> size v < Suc (size_list (size_prod (\<lambda>_. 0) size) ps)"
  by (induction ps) (auto split: if_splits)

lemma index_entries_elem: "map_of (index_entries vs) k = Some v \<Longrightarrow> v \<in> set vs"
  by (drule map_of_SomeD) (auto simp: index_entries_def in_set_enumerate_eq)

lemma elem_not_arr: "view_elem k bs \<noteq> JArr vs"
  by (cases k) simp_all

lemma size_own_arr:
  assumes "map_of (own_entries v) k = Some (JArr cs)"
  shows "size_list size cs < size v"
proof (cases v)
  case (JView kind bs ps)
  with assms have "map_of ps k = Some (JArr cs)"
    using index_entries_elem [of "map (view_elem kind) (chunks (view_width kind) bs)" k "JArr cs"]
    by (auto simp: map_add_def elem_not_arr [symmetric] split: option.splits)
  with JView show ?thesis using size_table_entry by fastforce
next
  case (JStr s)
  with assms index_entries_elem show ?thesis by fastforce
next
  case (JArr vs)
  with assms have "JArr cs \<in> set vs" by (simp add: index_entries_elem)
  then have "size (JArr cs) < Suc (size_list size vs)" by (induction vs) auto
  with JArr show ?thesis by simp
qed (use assms size_table_entry in \<open>fastforce+\<close>)

lemma size_items: "size_list size (arr_items (js_get v k)) \<le> size v"
proof (cases "\<exists>cs. js_get v k = JArr cs")
  case True
  then obtain cs where cs: "js_get v k = JArr cs" by blast
  then have "map_of (own_entries v) k = Some (JArr cs)"
    by (auto simp: js_get_def split: option.splits if_splits)
  then have "size_list size cs < size v" by (rule size_own_arr)
  with cs show ?thesis by simp
next
  case False
  then have "arr_items (js_get v k) = []" by (cases "js_get v k") auto
  then show ?thesis by simp
qed

text \<open>Decoding threads the counter of minted pane ids through the leaves in order.\<close>

function wireToTree :: "nat \<Rightarrow> jsval \<Rightarrow> nat \<Rightarrow> split_tree option \<times> nat"
  and wireToTrees :: "nat \<Rightarrow> jsval list \<Rightarrow> nat \<Rightarrow> split_tree list \<times> nat" where
  "wireToTree now v c =
     (if \<not> is_object v then (None, c)
      else if js_get v ''t'' = JStr ''l'' then
        (case parsePaneObject now (js_get v ''p'') c of (p, c') \<Rightarrow> (map_option Leaf p, c'))
      else if js_get v ''t'' = JStr ''s'' then
        (case wireToTrees now (arr_items (js_get v ''c'')) c of (children, c') \<Rightarrow>
          (if children = [] then None
           else if length children = 1 then Some (hd children)
           else Some (makeSplit (if js_get v ''d'' = JStr ''col'' then Col else Row) children
             (if is_arr (js_get v ''r'') \<and> length (arr_items (js_get v ''r'')) = length children
              then Some (map wire_ratio (arr_items (js_get v ''r''))) else None)), c'))
      else (None, c))"
| "wireToTrees now [] c = ([], c)"
| "wireToTrees now (v # vs) c =
     (case wireToTree now v c of (t, c') \<Rightarrow>
      case wireToTrees now vs c' of (ts, c'') \<Rightarrow>
        (case t of None \<Rightarrow> ts | Some t \<Rightarrow> t # ts, c''))"
  by pat_completeness auto
termination
  by (relation "measure (\<lambda>x. case x of Inl (now, v, c) \<Rightarrow> 2 * size v + 1
        | Inr (now, vs, c) \<Rightarrow> 2 * size_list size vs)")
     (auto simp: size_items le_imp_less_Suc)

declare wireToTree.simps [simp del]

definition serializeTree :: "split_tree \<Rightarrow> jsval" where
  "serializeTree t = JObj [(''v'', JNum (Fin TREE_CODEC_VERSION)), (''tree'', treeToWire t)]"

definition parseTree :: "nat \<Rightarrow> jsval option \<Rightarrow> nat \<Rightarrow> split_tree option \<times> nat" where
  "parseTree now s c = (case s of
      None \<Rightarrow> (None, c)
    | Some doc \<Rightarrow>
        if \<not> is_object doc then (None, c)
        else if js_get doc ''v'' \<noteq> JNum (Fin TREE_CODEC_VERSION) then (None, c)
        else wireToTree now (js_get doc ''tree'') c)"

definition singleLeaf :: "nat \<Rightarrow> pane \<Rightarrow> nat \<Rightarrow> split_tree \<times> nat" where
  "singleLeaf now p c =
     (if pane_id p \<noteq> [] then (Leaf p, c)
      else case freshPaneId now c of (i, c') \<Rightarrow> (Leaf (p\<lparr>pane_id := i\<rparr>), c'))"

section \<open>Panes in render order\<close>

definition insert_at :: "string \<Rightarrow> pane \<Rightarrow> drop_zone \<Rightarrow> pane \<Rightarrow> pane list" where
  "insert_at target p zone q =
     (if pane_id q \<noteq> target then [q]
      else case zone of ZCenter \<Rightarrow> [p] | ZLeft \<Rightarrow> [p, q] | ZTop \<Rightarrow> [p, q]
        | ZRight \<Rightarrow> [q, p] | ZBottom \<Rightarrow> [q, p])"

fun grandchildren :: "split_dir \<Rightarrow> split_tree \<Rightarrow> split_tree list" where
  "grandchildren dir (Split d gcs grs) = (if d = dir then gcs else [Split d gcs grs])"
| "grandchildren dir (Leaf p) = [Leaf p]"

lemma flatten_child_fst: "map fst (flatten_child dir x) = grandchildren dir (fst x)"
  by (induction dir x rule: flatten_child.induct) (simp_all add: ratios_at_def map_fst_zip)

lemma flatten_child_panes: "concat (map panes (map fst (flatten_child dir x))) = panes (fst x)"
  unfolding flatten_child_fst by (cases "fst x") simp_all

lemma flat_panes:
  "length rs = length cs \<Longrightarrow>
   concat (map panes (map fst (concat (map (flatten_child dir) (zip cs rs))))) = concat (map panes cs)"
proof (induction rs cs rule: list_induct2)
  case (Cons r rs c cs)
  then show ?case using flatten_child_panes [of dir "(c, r)"] by simp
qed simp

definition split_ratios :: "split_tree list \<Rightarrow> real option list option \<Rightarrow> real option list" where
  "split_ratios cs ratios = (case ratios of
      Some rs \<Rightarrow> if length rs = length cs then rs else map Some (evenRatios (length cs))
    | None \<Rightarrow> map Some (evenRatios (length cs)))"

lemma length_split_ratios [simp]: "length (split_ratios cs ratios) = length cs"
  by (simp add: split_ratios_def evenRatios_def split: option.splits)

definition flat_children :: "split_dir \<Rightarrow> split_tree list \<Rightarrow> real option list option \<Rightarrow> (split_tree \<times> real option) list" where
  "flat_children dir cs ratios = concat (map (flatten_child dir) (zip cs (split_ratios cs ratios)))"

lemma makeSplit_flat:
  "makeSplit dir cs ratios = (let flat = flat_children dir cs ratios in
     if length flat = 1 then fst (hd flat)
     else Split dir (map fst flat) (normalizeRatios (map snd flat)))"
  by (simp add: makeSplit_def flat_children_def split_ratios_def Let_def cong: option.case_cong)

lemma makeSplit_panes: "panes (makeSplit dir cs ratios) = concat (map panes cs)"
proof -
  have flat: "concat (map panes (map fst (flat_children dir cs ratios))) = concat (map panes cs)"
    unfolding flat_children_def by (rule flat_panes) simp
  show ?thesis
  proof (cases "length (flat_children dir cs ratios) = 1")
    case True
    then obtain x where "flat_children dir cs ratios = [x]" by (auto simp: length_Suc_conv)
    with flat show ?thesis by (simp add: makeSplit_flat)
  next
    case False
    with flat show ?thesis by (simp add: makeSplit_flat Let_def)
  qed
qed

lemma concat_map_concat: "concat (map f (concat xss)) = concat (map (\<lambda>xs. concat (map f xs)) xss)"
  by (induction xss) simp_all

lemma insertPane_panes_lemma:
  "panes (insertPane t target p zone) = concat (map (insert_at target p zone) (panes t))"
proof (induction t)
  case (Leaf q)
  then show ?case by (cases zone) (simp_all add: insert_at_def makeSplit_panes)
next
  case (Split d cs rs)
  then have "map (\<lambda>c. panes (insertPane c target p zone)) cs
      = map (\<lambda>c. concat (map (insert_at target p zone) (panes c))) cs" by simp
  then show ?case by (simp add: makeSplit_panes comp_def concat_map_concat cong: map_cong)
qed

lemma map_filter_zip_panes:
  "length rs = length cs \<Longrightarrow>
   concat (map panes (map fst (List.map_filter (\<lambda>(t, r). map_option (\<lambda>t. (t, r)) t)
      (zip (map f cs) rs)))) = concat (map (\<lambda>c. panes_opt (f c)) cs)"
proof (induction rs cs rule: list_induct2)
  case (Cons r rs c cs)
  then show ?case by (cases "f c") (simp_all add: panes_opt_def)
qed (simp add: List.map_filter_def)

lemma removePane_panes_lemma: "panes_opt (removePane t i) = filter (\<lambda>q. pane_id q \<noteq> i) (panes t)"
proof (induction t)
  case (Leaf q)
  then show ?case by (simp add: panes_opt_def)
next
  case (Split d cs rs)
  define kept where "kept = List.map_filter (\<lambda>(t, r). map_option (\<lambda>t. (t, r)) t)
      (zip (map (\<lambda>c. removePane c i) cs) (ratios_at rs (length cs)))"
  have "concat (map panes (map fst kept)) = concat (map (\<lambda>c. panes_opt (removePane c i)) cs)"
    unfolding kept_def by (rule map_filter_zip_panes) (simp add: ratios_at_def)
  also have "\<dots> = filter (\<lambda>q. pane_id q \<noteq> i) (panes (Split d cs rs))"
    using Split.IH by (simp add: filter_concat comp_def cong: map_cong)
  finally have kept: "concat (map panes (map fst kept)) = filter (\<lambda>q. pane_id q \<noteq> i) (panes (Split d cs rs))" .
  have shape: "removePane (Split d cs rs) i = (if kept = [] then None
      else if length kept = 1 then Some (fst (hd kept))
      else Some (Split d (map fst kept) (normalizeRatios (map snd kept))))"
    by (simp add: kept_def Let_def)
  show ?case
  proof (cases kept)
    case (Cons x ks)
    with kept show ?thesis unfolding shape by (cases ks) (simp_all add: panes_opt_def)
  next
    case Nil
    with kept show ?thesis unfolding shape by (simp add: panes_opt_def)
  qed
qed

lemma replace_leaves_panes: "panes (replace_leaves f t) = map f (panes t)"
  by (induction t) (simp_all add: map_concat comp_def cong: map_cong)

lemma findPane_Some: "findPane (Some t) i = Some p \<Longrightarrow> p \<in> set (panes t) \<and> pane_id p = i"
  by (auto simp: findPane_def panes_opt_def find_Some_iff)

lemma findPane_None: "findPane (Some t) i = None \<longleftrightarrow> (\<forall>q\<in>set (panes t). pane_id q \<noteq> i)"
  by (auto simp: findPane_def panes_opt_def find_None_iff)

abbreviation unique_ids :: "split_tree \<Rightarrow> bool" where
  "unique_ids t \<equiv> distinct (map pane_id (panes t))"

lemma unique_pane:
  "unique_ids t \<Longrightarrow> p \<in> set (panes t) \<Longrightarrow> q \<in> set (panes t) \<Longrightarrow> pane_id p = pane_id q \<Longrightarrow> p = q"
  by (auto simp: distinct_map inj_on_def)

lemma swapPanes_mset:
  assumes "unique_ids t"
  shows "mset (panes (swapPanes t a b)) = mset (panes t)"
proof (cases "\<exists>pa pb. a \<noteq> b \<and> findPane (Some t) a = Some pa \<and> findPane (Some t) b = Some pb")
  case True
  then obtain pa pb where ab: "a \<noteq> b" "findPane (Some t) a = Some pa" "findPane (Some t) b = Some pb"
    by blast
  note in_t = ab(2,3) [THEN findPane_Some]
  define f where "f = (\<lambda>q. if pane_id q = a then pb else if pane_id q = b then pa else q)"
  have inj: "inj_on f (set (panes t))"
    using in_t ab(1) unique_pane [OF assms] by (auto simp: inj_on_def f_def split: if_splits)
  have "f ` set (panes t) \<subseteq> set (panes t)" using in_t by (auto simp: f_def)
  with inj have "f ` set (panes t) = set (panes t)"
    by (simp add: endo_inj_surj)
  moreover have "distinct (panes t)" using assms by (simp add: distinct_map)
  ultimately have "mset (map f (panes t)) = mset (panes t)"
    using inj by (intro set_eq_iff_mset_eq_distinct [THEN iffD1]) (simp_all add: distinct_map)
  with ab show ?thesis by (simp add: swapPanes_def replace_leaves_panes f_def)
qed (auto simp: swapPanes_def split: option.splits)

lemma insert_at_mset:
  assumes "zone \<noteq> ZCenter"
  shows "mset (concat (map (insert_at target p zone) qs))
    = mset qs + replicate_mset (length (filter (\<lambda>q. pane_id q = target) qs)) p"
  using assms by (induction qs) (auto simp: insert_at_def split: drop_zone.splits)

lemma filter_one:
  "distinct (map f qs) \<Longrightarrow> q \<in> set qs \<Longrightarrow> filter (\<lambda>x. f x = f q) qs = [q]"
  by (induction qs) (auto simp: filter_empty_conv rev_image_eqI)

lemma mset_filter_split: "mset qs = mset (filter P qs) + mset (filter (\<lambda>q. \<not> P q) qs)"
  by (induction qs) auto

lemma movePane_mset:
  assumes "unique_ids t"
  shows "mset (panes (movePane t i target zone)) = mset (panes t)"
proof (cases "i \<noteq> target \<and> zone \<noteq> ZCenter \<and> hasPane (Some t) i \<and> hasPane (Some t) target")
  case True
  then obtain m g where m: "findPane (Some t) i = Some m" and g: "findPane (Some t) target = Some g"
    by (auto simp: hasPane_def)
  note in_t = m [THEN findPane_Some] g [THEN findPane_Some]
  have rest: "panes_opt (removePane t i) = filter (\<lambda>q. pane_id q \<noteq> i) (panes t)"
    by (rule removePane_panes_lemma)
  have gone: "g \<in> set (filter (\<lambda>q. pane_id q \<noteq> i) (panes t))" using in_t True by auto
  with rest obtain w where w: "removePane t i = Some w" by (cases "removePane t i") (auto simp: panes_opt_def)
  have pw: "panes w = filter (\<lambda>q. pane_id q \<noteq> i) (panes t)" using rest w by (simp add: panes_opt_def)
  have "distinct (map pane_id (panes w))" using assms by (simp add: pw distinct_map_filter)
  from filter_one [OF this, of g] have one: "filter (\<lambda>q. pane_id q = target) (panes w) = [g]"
    using gone in_t pw by simp
  have moved: "filter (\<lambda>q. pane_id q = i) (panes t) = [m]"
    using filter_one [OF assms, of m] in_t by simp
  have "mset (panes t) = mset (filter (\<lambda>q. pane_id q = i) (panes t)) + mset (panes w)"
    unfolding pw by (rule mset_filter_split)
  moreover have "movePane t i target zone = insertPane w target m zone"
    using True w m by (simp add: movePane_def)
  ultimately show ?thesis
    using True by (simp add: insertPane_panes_lemma insert_at_mset one moved)
next
  case False
  then show ?thesis
    by (cases "findPane (Some t) i")
       (auto simp: movePane_def hasPane_def swapPanes_mset assms)
qed

section \<open>The layout invariant\<close>

fun root_dir :: "split_tree \<Rightarrow> split_dir option" where
  "root_dir (Leaf p) = None"
| "root_dir (Split d cs rs) = Some d"

definition ratios_ok :: "real list \<Rightarrow> bool" where
  "ratios_ok rs \<longleftrightarrow> (\<forall>r\<in>set rs. 0 \<le> r) \<and> sum_list rs = 1"

text \<open>Every split has at least two children, one ratio for each, normalized.\<close>

fun shaped :: "split_tree \<Rightarrow> bool" where
  "shaped (Leaf p) = True"
| "shaped (Split d cs rs) = (2 \<le> length cs \<and> length rs = length cs \<and> ratios_ok rs \<and> list_all shaped cs)"

text \<open>No split holds a split of its own direction.\<close>

fun alternating :: "split_tree \<Rightarrow> bool" where
  "alternating (Leaf p) = True"
| "alternating (Split d cs rs) = (list_all alternating cs \<and> list_all (\<lambda>c. root_dir c \<noteq> Some d) cs)"

definition wf_tree :: "split_tree \<Rightarrow> bool" where
  "wf_tree t \<longleftrightarrow> shaped t \<and> alternating t"

lemma clean_ratio_nonneg: "0 \<le> clean_ratio r"
  by (simp add: clean_ratio_def split: option.splits)

lemma normalizeRatios_length [simp]: "length (normalizeRatios rs) = length rs"
  by (simp add: normalizeRatios_def evenRatios_def Let_def)

lemma sum_list_divide: "sum_list (map (\<lambda>r. r / s) rs) = sum_list rs / (s::real)"
  by (induction rs) (simp_all add: add_divide_distrib)

lemma normalizeRatios_ok: "rs \<noteq> [] \<Longrightarrow> ratios_ok (normalizeRatios rs)"
  using sum_list_divide [of "sum_list (map clean_ratio rs)" "map clean_ratio rs"]
  by (auto simp: normalizeRatios_def ratios_ok_def evenRatios_def Let_def sum_list_replicate
      clean_ratio_nonneg not_le less_imp_le intro!: divide_nonneg_pos)

lemma normalizeRatios_idem:
  assumes "ratios_ok rs"
  shows "normalizeRatios (map Some rs) = rs"
proof -
  have clean: "map (clean_ratio \<circ> Some) rs = rs"
    using assms by (auto simp: clean_ratio_def ratios_ok_def intro!: map_idI)
  then show ?thesis using assms by (simp add: normalizeRatios_def ratios_ok_def Let_def)
qed

lemma grandchildren_wf:
  "wf_tree c \<Longrightarrow> \<forall>g\<in>set (grandchildren dir c). wf_tree g \<and> root_dir g \<noteq> Some dir"
  by (cases c) (auto simp: wf_tree_def list_all_iff)

lemma flat_children_fst:
  "map fst (flat_children dir cs ratios) = concat (map (grandchildren dir) cs)"
proof -
  have "map fst (concat (map (flatten_child dir) (zip cs rs))) = concat (map (grandchildren dir) cs)"
    if "length rs = length cs" for rs
    using that by (induction rs cs rule: list_induct2) (simp_all add: flatten_child_fst)
  then show ?thesis by (simp add: flat_children_def)
qed

lemma grandchildren_count:
  "shaped c \<Longrightarrow> 1 \<le> length (grandchildren dir c) \<and>
    (length (grandchildren dir c) = 1 \<longrightarrow> grandchildren dir c = [c])"
  by (cases c) auto

lemma makeSplit_wf:
  assumes "cs \<noteq> []" and "\<forall>c\<in>set cs. wf_tree c"
  shows "wf_tree (makeSplit dir cs ratios)"
proof -
  define flat where "flat = flat_children dir cs ratios"
  have kids: "\<forall>g\<in>set (map fst flat). wf_tree g \<and> root_dir g \<noteq> Some dir"
    using assms(2) grandchildren_wf by (fastforce simp: flat_def flat_children_fst)
  obtain c cs' where cs: "cs = c # cs'" using assms(1) by (cases cs) auto
  then have "1 \<le> length (map fst flat)"
    using assms(2) grandchildren_count [of c dir]
    by (simp add: flat_def flat_children_fst wf_tree_def Suc_le_eq)
  then have ne: "flat \<noteq> []" by auto
  show ?thesis
  proof (cases "length flat = 1")
    case True
    with kids ne show ?thesis
      by (simp add: makeSplit_flat flat_def [symmetric] Let_def list.set_sel(1))
  next
    case False
    with ne have "2 \<le> length flat" by (cases flat) (auto simp: Suc_le_eq)
    then show ?thesis
      using False kids ne normalizeRatios_ok [of "map snd flat"]
      by (auto simp: makeSplit_flat flat_def [symmetric] Let_def wf_tree_def list_all_iff)
  qed
qed

lemma insertPane_wf: "shaped t \<Longrightarrow> wf_tree (insertPane t target p zone)"
proof (induction t)
  case (Leaf q)
  have "wf_tree (Leaf p')" for p' by (simp add: wf_tree_def)
  then show ?case by (auto intro!: makeSplit_wf split: prod.splits)
next
  case (Split d cs rs)
  then show ?case by (auto intro!: makeSplit_wf simp: list_all_iff)
qed

lemma shaped_kept:
  assumes "list_all (\<lambda>c. \<forall>t. removePane c i = Some t \<longrightarrow> shaped t) cs"
  shows "list_all shaped (map fst (List.map_filter (\<lambda>(t, r). map_option (\<lambda>t. (t, r)) t)
      (zip (map (\<lambda>c. removePane c i) cs) rs)))"
  using assms by (auto simp: list_all_iff List.map_filter_def dest!: set_zip_leftD)

lemma removePane_shaped: "shaped t \<Longrightarrow> removePane t i = Some t' \<Longrightarrow> shaped t'"
proof (induction t arbitrary: t')
  case (Leaf q)
  then show ?case by (auto split: if_splits)
next
  case (Split d cs rs)
  define kept where "kept = List.map_filter (\<lambda>(t, r). map_option (\<lambda>t. (t, r)) t)
      (zip (map (\<lambda>c. removePane c i) cs) (ratios_at rs (length cs)))"
  have kids: "list_all shaped (map fst kept)"
    unfolding kept_def using Split by (intro shaped_kept) (auto simp: list_all_iff)
  from Split.prems(2) have t': "kept \<noteq> []"
    "t' = (if length kept = 1 then fst (hd kept)
      else Split d (map fst kept) (normalizeRatios (map snd kept)))"
    by (auto simp: kept_def [symmetric] Let_def split: if_splits)
  then show ?case
    using kids normalizeRatios_ok [of "map snd kept"]
    by (cases kept) (auto simp: Suc_le_eq)
qed

lemma replace_leaves_root [simp]: "root_dir (replace_leaves f t) = root_dir t"
  by (cases t) simp_all

lemma replace_leaves_wf: "shaped (replace_leaves f t) = shaped t"
    "alternating (replace_leaves f t) = alternating t"
  by (induction t) (auto simp: list_all_iff)

lemma swapPanes_wf: "wf_tree t \<Longrightarrow> wf_tree (swapPanes t a b)"
  by (auto simp: swapPanes_def wf_tree_def replace_leaves_wf split: option.splits)

lemma movePane_wf: "wf_tree t \<Longrightarrow> wf_tree (movePane t i target zone)"
  using removePane_shaped [of t i] insertPane_wf swapPanes_wf
  by (auto simp: movePane_def wf_tree_def split: option.splits)

section \<open>Shares of the window\<close>

text \<open>Each pane with the fraction of the window's area it gets, in render order.\<close>

fun shares :: "split_tree \<Rightarrow> real \<Rightarrow> (pane \<times> real) list" where
  "shares (Leaf p) a = [(p, a)]"
| "shares (Split d cs rs) a = concat (map2 (\<lambda>f r. f (a * r)) (map shares cs) rs)"

definition insert_share :: "string \<Rightarrow> pane \<Rightarrow> drop_zone \<Rightarrow> pane \<times> real \<Rightarrow> (pane \<times> real) list" where
  "insert_share target p zone = (\<lambda>(q, a).
     if pane_id q \<noteq> target then [(q, a)]
     else case zone of ZCenter \<Rightarrow> [(p, a)]
       | ZLeft \<Rightarrow> [(p, a / 2), (q, a / 2)] | ZTop \<Rightarrow> [(p, a / 2), (q, a / 2)]
       | ZRight \<Rightarrow> [(q, a / 2), (p, a / 2)] | ZBottom \<Rightarrow> [(q, a / 2), (p, a / 2)])"

fun flatten_real :: "split_dir \<Rightarrow> split_tree \<times> real \<Rightarrow> (split_tree \<times> real) list" where
  "flatten_real dir (Split d gcs grs, r) =
     (if d = dir then zip gcs (map ((*) r) grs) else [(Split d gcs grs, r)])"
| "flatten_real dir (Leaf p, r) = [(Leaf p, r)]"

definition share_of :: "real \<Rightarrow> split_tree \<times> real \<Rightarrow> (pane \<times> real) list" where
  "share_of a = (\<lambda>(c, r). shares c (a * r))"

lemma ratios_at_all: "length rs = n \<Longrightarrow> ratios_at rs n = map Some rs"
  by (auto simp: ratios_at_def ratio_at_def intro: nth_equalityI)

lemma flatten_real_child:
  assumes "shaped c"
  shows "flatten_child dir (c, Some r) = map (apsnd Some) (flatten_real dir (c, r))"
  using assms by (cases c) (auto simp: ratios_at_all zip_map2 times_ratio_def)

lemma flatten_real_sum:
  assumes "shaped c"
  shows "sum_list (map snd (flatten_real dir (c, r))) = r"
  using assms by (cases c) (auto simp: map_snd_zip sum_list_const_mult ratios_ok_def)

lemma flatten_real_nonneg:
  assumes "shaped c" and "0 \<le> r"
  shows "\<forall>w\<in>snd ` set (flatten_real dir (c, r)). 0 \<le> w"
  using assms by (cases c) (auto simp: ratios_ok_def dest!: set_zip_rightD)

lemma flatten_real_shares:
  assumes "shaped c"
  shows "concat (map (share_of a) (flatten_real dir (c, r))) = shares c (a * r)"
proof (cases c)
  case (Split d gcs grs)
  have "concat (map (\<lambda>(c, q). shares c (a * q)) (zip gcs (map ((*) r) grs)))
      = concat (map2 (\<lambda>f q. f (a * r * q)) (map shares gcs) grs)"
    by (simp add: zip_map1 zip_map2 comp_def case_prod_unfold mult.assoc)
  with Split show ?thesis by (auto simp: share_of_def)
qed (simp add: share_of_def)

lemma flat_real:
  assumes "length rs = length cs" and "\<forall>c\<in>set cs. shaped c"
  shows "flat_children dir cs (Some (map Some rs)) = map (apsnd Some) (concat (map (flatten_real dir) (zip cs rs)))"
    and "sum_list (map snd (concat (map (flatten_real dir) (zip cs rs)))) = sum_list rs"
    and "concat (map (share_of a) (concat (map (flatten_real dir) (zip cs rs)))) = concat (map2 (\<lambda>c r. shares c (a * r)) cs rs)"
proof -
  have "concat (map (flatten_child dir) (zip cs (map Some rs)))
      = map (apsnd Some) (concat (map (flatten_real dir) (zip cs rs)))"
    using assms by (induction rs cs rule: list_induct2) (simp_all add: flatten_real_child)
  with assms(1) show "flat_children dir cs (Some (map Some rs))
      = map (apsnd Some) (concat (map (flatten_real dir) (zip cs rs)))"
    by (simp add: flat_children_def split_ratios_def)
  show "sum_list (map snd (concat (map (flatten_real dir) (zip cs rs)))) = sum_list rs"
    using assms by (induction rs cs rule: list_induct2) (simp_all add: flatten_real_sum)
  show "concat (map (share_of a) (concat (map (flatten_real dir) (zip cs rs))))
      = concat (map2 (\<lambda>c r. shares c (a * r)) cs rs)"
    using assms by (induction rs cs rule: list_induct2) (simp_all add: flatten_real_shares)
qed

lemma shares_unzip:
  "concat (map2 (\<lambda>f r. f (a * r)) (map shares (map fst F)) (map snd F)) = concat (map (share_of a) F)"
  by (induction F) (auto simp: share_of_def)

lemma makeSplit_shares:
  assumes len: "length rs = length cs" and shaped: "\<forall>c\<in>set cs. shaped c" and ok: "ratios_ok rs"
  shows "shares (makeSplit dir cs (Some (map Some rs))) a = concat (map2 (\<lambda>c r. shares c (a * r)) cs rs)"
proof -
  define F where "F = concat (map (flatten_real dir) (zip cs rs))"
  note flat = flat_real [OF len shaped, where dir = dir, folded F_def]
  have okF: "ratios_ok (map snd F)"
  proof -
    have "0 \<le> snd x" if "x \<in> set F" for x
    proof -
      from that obtain c r where cr: "(c, r) \<in> set (zip cs rs)" "x \<in> set (flatten_real dir (c, r))"
        by (auto simp: F_def)
      then have "shaped c" "0 \<le> r"
        using shaped ok by (auto simp: ratios_ok_def dest: set_zip_leftD set_zip_rightD)
      with cr(2) show ?thesis using flatten_real_nonneg by blast
    qed
    then show ?thesis using flat(2) ok by (auto simp: ratios_ok_def)
  qed
  have snds: "map snd (map (apsnd Some) F) = map Some (map snd F)"
    and fsts: "map fst (map (apsnd Some) F) = map fst F" by simp_all
  show ?thesis
  proof (cases "length F = 1")
    case True
    then obtain g w where F: "F = [(g, w)]" by (auto simp: length_Suc_conv)
    then have "w = 1" using okF by (simp add: ratios_ok_def)
    with F flat(1) flat(3) [where a = a] show ?thesis by (simp add: makeSplit_flat share_of_def)
  next
    case False
    then have "makeSplit dir cs (Some (map Some rs)) = Split dir (map fst F) (map snd F)"
      unfolding makeSplit_flat flat(1) Let_def snds fsts normalizeRatios_idem [OF okF] by simp
    then have "shares (makeSplit dir cs (Some (map Some rs))) a = concat (map (share_of a) F)"
      by (simp only: shares.simps shares_unzip)
    then show ?thesis by (simp only: flat(3))
  qed
qed

lemma even_ok: "0 < n \<Longrightarrow> ratios_ok (evenRatios n)"
  by (simp add: ratios_ok_def evenRatios_def sum_list_replicate)

lemma makeSplit_even: "makeSplit dir cs None = makeSplit dir cs (Some (map Some (evenRatios (length cs))))"
  by (simp add: makeSplit_flat flat_children_def split_ratios_def evenRatios_def)

lemma insertPane_shares_lemma:
  "shaped t \<Longrightarrow> shares (insertPane t target p zone) a = concat (map (insert_share target p zone) (shares t a))"
proof (induction t arbitrary: a)
  case (Leaf q)
  have pair: "shares (makeSplit dir [x, y] None) a = shares x (a / 2) @ shares y (a / 2)"
    if "shaped x" "shaped y" for dir x y
    using makeSplit_shares [of "evenRatios 2" "[x, y]" dir a] that even_ok [of 2]
    by (simp add: makeSplit_even evenRatios_def numeral_2_eq_2)
  show ?case by (cases zone) (simp_all add: insert_share_def pair)
next
  case (Split d cs rs)
  have kids: "map shares (map (\<lambda>c. insertPane c target p zone) cs)
      = map (\<lambda>c a. concat (map (insert_share target p zone) (shares c a))) cs"
    using Split by (auto simp: list_all_iff)
  have "shares (insertPane (Split d cs rs) target p zone) a
      = concat (map2 (\<lambda>c r. shares c (a * r)) (map (\<lambda>c. insertPane c target p zone) cs) rs)"
    using Split.prems insertPane_wf
    by (auto simp: list_all_iff wf_tree_def intro!: makeSplit_shares)
  also have "\<dots> = concat (map2 (\<lambda>f r. f (a * r)) (map shares (map (\<lambda>c. insertPane c target p zone) cs)) rs)"
    by (simp add: zip_map1 comp_def case_prod_unfold)
  also have "\<dots> = concat (map (insert_share target p zone) (shares (Split d cs rs) a))"
    unfolding kids by (simp add: concat_map_concat zip_map1 comp_def case_prod_unfold)
  finally show ?case .
qed

section \<open>The divider drag\<close>

lemma sum_one_update: "k < length rs \<Longrightarrow> sum_list (rs[k := x]) = sum_list rs - rs ! k + (x :: real)"
  by (induction rs arbitrary: k) (auto split: nat.splits)

lemma sum_two_updates:
  assumes "k + 1 < length rs"
  shows "sum_list (rs[k := x, k + 1 := y]) = sum_list rs - rs ! k - rs ! (k + 1) + x + (y :: real)"
  using assms by (simp add: sum_one_update)

lemma ratios_ok_drag:
  assumes "ratios_ok rs" and "k + 1 < length rs" and "0 \<le> m" and "m \<le> x" and "x \<le> rs ! k + rs ! (k + 1) - m"
  shows "ratios_ok (rs[k := x, k + 1 := rs ! k + rs ! (k + 1) - x])"
proof -
  have "\<forall>r\<in>set (rs[k := x, k + 1 := rs ! k + rs ! (k + 1) - x]). 0 \<le> r"
    using assms by (auto simp: ratios_ok_def dest!: set_update_subset_insert [THEN subsetD])
  then show ?thesis
    using assms(1,2) sum_two_updates [of k rs x "rs ! k + rs ! (k + 1) - x"] by (simp add: ratios_ok_def)
qed

lemma resizeDivider_root [simp]: "root_dir (resizeDivider t path i \<delta> m) = root_dir t"
  by (induction t path i \<delta> m rule: resizeDivider.induct) (auto simp: Let_def)

lemma resizeDivider_shaped: "shaped t \<Longrightarrow> 0 \<le> m \<Longrightarrow> shaped (resizeDivider t path i \<delta> m)"
proof (induction t path i \<delta> m rule: resizeDivider.induct)
  case (2 d cs rs i \<delta> m)
  define k where "k = nat i"
  show ?case
  proof (cases "0 \<le> i \<and> i + 1 < int (length cs)")
    case True
    then have "int k = i" by (simp add: k_def)
    with True "2.prems" have "k + 1 < length rs" by auto
    with "2.prems" True show ?thesis
      using ratios_ok_drag [of rs k m "min (max (rs ! k + \<delta>) m) (rs ! k + rs ! (k + 1) - m)"]
      by (auto simp: Let_def k_def)
  qed (use "2.prems" in auto)
next
  case (3 d cs rs idx path i \<delta> m)
  then show ?case by (auto simp: list_all_iff dest!: set_update_subset_insert [THEN subsetD])
qed simp

lemma resizeDivider_alternating: "alternating t \<Longrightarrow> alternating (resizeDivider t path i \<delta> m)"
proof (induction t path i \<delta> m rule: resizeDivider.induct)
  case (3 d cs rs idx path i \<delta> m)
  then show ?case by (auto simp: list_all_iff dest!: set_update_subset_insert [THEN subsetD])
qed (auto simp: Let_def)

lemma resizeDivider_panes: "panes (resizeDivider t path i \<delta> m) = panes t"
proof (induction t path i \<delta> m rule: resizeDivider.induct)
  case (3 d cs rs idx path i \<delta> m)
  show ?case
  proof (cases "0 \<le> idx \<and> idx < int (length cs)")
    case True
    then have "nat idx < length cs" by (simp add: nat_less_iff)
    with True 3 have "map panes (cs[nat idx := resizeDivider (cs ! nat idx) path i \<delta> m]) = map panes cs"
      by (simp add: map_update list_update_same_conv)
    with True show ?thesis by simp
  qed auto
qed (auto simp: Let_def)

section \<open>The window URL\<close>

lemma tag_simps [simp]:
  "js_get (JObj ((k, v) # ps)) k = v"
  "k \<noteq> k' \<Longrightarrow> js_get (JObj ((k', v) # ps)) k = js_get (JObj ps) k"
  by (simp_all add: js_get_def)

lemma is_object_JObj [simp]: "is_object (JObj ps)"
  by (simp add: is_object_def)

lemma wireToTrees_map:
  assumes "\<forall>t\<in>set ts. \<forall>c. wireToTree now (treeToWire t) c = (Some (f t), c)"
  shows "wireToTrees now (map treeToWire ts) c = (map f ts, c)"
  using assms by (induction ts) simp_all

lemma concat_single: "\<forall>x\<in>set xs. f x = [x] \<Longrightarrow> concat (map f xs) = xs"
  by (induction xs) simp_all

lemma wire_ratio_num: "wire_ratio \<circ> (\<lambda>r. JNum (Fin r)) = Some"
  by (simp add: fun_eq_iff)

lemma makeSplit_id:
  assumes "shaped (Split d cs rs)" and "alternating (Split d cs rs)"
  shows "makeSplit d cs (Some (map Some rs)) = Split d cs rs"
proof -
  have "flatten_child d (c, r) = [(c, r)]" if "c \<in> set cs" for c r
  proof -
    from that assms(2) have "root_dir c \<noteq> Some d" by (simp add: list_all_iff)
    then show ?thesis by (cases c) auto
  qed
  then have "concat (map (flatten_child d) (zip cs (map Some rs))) = zip cs (map Some rs)"
    by (intro concat_single) (auto dest: set_zip_leftD)
  then have "flat_children d cs (Some (map Some rs)) = zip cs (map Some rs)"
    using assms(1) by (simp add: flat_children_def split_ratios_def)
  moreover have "normalizeRatios (map Some rs) = rs"
    using assms(1) by (intro normalizeRatios_idem) simp
  ultimately show ?thesis using assms(1) by (simp add: makeSplit_flat)
qed

text \<open>The layout with every split of its parent's direction dissolved into the parent.\<close>

fun flattened :: "split_tree \<Rightarrow> split_tree" where
  "flattened (Leaf p) = Leaf p"
| "flattened (Split d cs rs) = makeSplit d (map flattened cs) (Some (map Some rs))"

lemma flattened_wf: "shaped t \<Longrightarrow> wf_tree (flattened t)"
proof (induction t)
  case (Split d cs rs)
  then show ?case by (auto simp: list_all_iff intro!: makeSplit_wf)
qed (simp add: wf_tree_def)

lemma flattened_panes: "panes (flattened t) = panes t"
proof (induction t)
  case (Split d cs rs)
  then have "map (panes \<circ> flattened) cs = map panes cs" by simp
  then show ?case unfolding flattened.simps makeSplit_panes panes.simps map_map by (rule arg_cong)
qed simp

lemma flattened_shares: "shaped t \<Longrightarrow> shares (flattened t) a = shares t a"
proof (induction t arbitrary: a)
  case (Split d cs rs)
  then have kids: "map shares (map flattened cs) = map shares cs"
    by (auto simp: list_all_iff)
  have "shares (flattened (Split d cs rs)) a = concat (map2 (\<lambda>c r. shares c (a * r)) (map flattened cs) rs)"
    using Split.prems flattened_wf by (auto simp: list_all_iff wf_tree_def intro!: makeSplit_shares)
  also have "\<dots> = concat (map2 (\<lambda>f r. f (a * r)) (map shares (map flattened cs)) rs)"
    by (simp add: zip_map1 comp_def case_prod_unfold)
  finally show ?case unfolding kids by simp
qed simp

lemma flattened_id: "wf_tree t \<Longrightarrow> flattened t = t"
proof (induction t)
  case (Split d cs rs)
  then have "map flattened cs = cs" by (intro map_idI) (auto simp: wf_tree_def list_all_iff)
  with Split.prems makeSplit_id [of d cs rs] show ?case by (simp add: wf_tree_def)
qed simp

lemma wireToTree_treeToWire:
  "shaped t \<Longrightarrow> \<forall>p\<in>set (panes t). pane_ok p \<Longrightarrow> wireToTree now (treeToWire t) c = (Some (flattened t), c)"
proof (induction t arbitrary: c)
  case (Leaf p)
  then show ?case by (subst wireToTree.simps) (simp add: parse_toWire)
next
  case (Split d cs rs)
  have "shaped t" if "t \<in> set cs" for t
    using Split.prems(1) that by (auto simp: list_all_iff)
  with Split have kids: "wireToTrees now (map treeToWire cs) c = (map flattened cs, c)"
    by (intro wireToTrees_map) auto
  have two: "cs \<noteq> []" "length cs \<noteq> 1" "length rs = length cs" using Split.prems(1) by auto
  show ?case
    using kids two by (subst wireToTree.simps) (cases d; simp add: wire_ratio_num)
qed

section \<open>Properties\<close>

text \<open>
  Docking a pane is exact: the panes of the result are those of the tree in render order, with
  the new pane beside each leaf of the target id on the side the zone names (in its place for the
  centre), and nothing else moves.
\<close>

theorem insert_docks_pane:
  "panes (insertPane t target p zone) = concat (map (insert_at target p zone) (panes t))"
  by (rule insertPane_panes_lemma)

text \<open>
  An edge drop shares only the target's space: on a tree with normalized ratios the new pane
  and the target get half of the target's former share of the window each, every other pane keeps
  its share exactly, however many parallel splits were flattened.
\<close>

theorem insert_halves_target:
  assumes "shaped t"
  shows "shares (insertPane t target p zone) 1 = concat (map (insert_share target p zone) (shares t 1))"
  using assms by (rule insertPane_shares_lemma)

definition pane_a :: pane where
  "pane_a = \<lparr>pane_id = ''a'', pane_source = PipePaneSource ''x'', pane_title = None, pane_theme = None\<rparr>"

definition pane_b :: pane where
  "pane_b = pane_a\<lparr>pane_id := ''b''\<rparr>"

definition pane_c :: pane where
  "pane_c = pane_a\<lparr>pane_id := ''c''\<rparr>"

definition pane_d :: pane where
  "pane_d = pane_a\<lparr>pane_id := ''d''\<rparr>"

lemmas pane_defs = pane_a_def pane_b_def pane_c_def pane_d_def

theorem insert_halves_target_witness:
  "shares (insertPane (Split Row [Leaf pane_a, Leaf pane_b] [1 / 4, 3 / 4]) ''b'' pane_c ZRight) 1
    = [(pane_a, 1 / 4), (pane_b, 3 / 8), (pane_c, 3 / 8)]"
  using insert_halves_target [of "Split Row [Leaf pane_a, Leaf pane_b] [1 / 4, 3 / 4]" "''b''" pane_c ZRight]
  by (simp add: ratios_ok_def insert_share_def pane_defs)

text \<open>
  Removing a pane removes exactly the leaves of that id and keeps the order of the others; the
  tree is gone precisely when nothing is left.
\<close>

theorem remove_removes_pane:
  "panes_opt (removePane t i) = filter (\<lambda>q. pane_id q \<noteq> i) (panes t)"
  by (rule removePane_panes_lemma)

text \<open>
  C32. A drag inside a window never loses, duplicates or invents a pane, whatever the source, the
  target and the zone, on a tree with unique ids.
\<close>

theorem move_keeps_panes:
  assumes "distinct (map pane_id (panes t))"
  shows "mset (panes (movePane t i target zone)) = mset (panes t)"
  using assms by (rule movePane_mset)

theorem move_keeps_panes_witness:
  "mset (panes (movePane (Split Row [Leaf pane_a, Leaf pane_b] [1 / 2, 1 / 2]) ''a'' ''b'' ZBottom))
    = {#pane_a, pane_b#}"
  using move_keeps_panes [of "Split Row [Leaf pane_a, Leaf pane_b] [1 / 2, 1 / 2]" "''a''" "''b''" ZBottom]
  by (simp add: pane_defs)

text \<open>
  C33. Docking, swapping, moving and dragging a divider return a tree that satisfies the module's
  invariant: at least two children per split, one normalized ratio per child, no split directly
  inside a split of its own direction. Docking even restores it on a tree that only has the shape.
\<close>

theorem layout_invariant_kept:
  assumes "wf_tree t" and "0 \<le> m"
  shows "wf_tree (insertPane t target p zone) \<and> wf_tree (swapPanes t i target)
    \<and> wf_tree (movePane t i target zone) \<and> wf_tree (resizeDivider t path k \<delta> m)"
  using assms insertPane_wf swapPanes_wf movePane_wf resizeDivider_shaped resizeDivider_alternating
  by (simp add: wf_tree_def)

theorem layout_invariant_kept_witness:
  "wf_tree (resizeDivider (Split Row [Leaf pane_a, Leaf pane_b] [1 / 2, 1 / 2]) [] 0 (1 / 4) MIN_RATIO)"
  using layout_invariant_kept [of "Split Row [Leaf pane_a, Leaf pane_b] [1 / 2, 1 / 2]" MIN_RATIO
      "[]" pane_a ZLeft "[]" "[]" 0 "1 / 4"]
  by (simp add: wf_tree_def ratios_ok_def MIN_RATIO_def)

text \<open>
  Removing a pane keeps the shape (two children, normalized ratios) but not the rule against
  nested splits of one direction: taking B out of row [A, column [B, row [C, D]]] leaves a row
  directly inside a row.
\<close>

theorem removal_nests_same_direction:
  "wf_tree (Split Row [Leaf pane_a, Split Col [Leaf pane_b, Split Row [Leaf pane_c, Leaf pane_d] [1 / 2, 1 / 2]] [1 / 2, 1 / 2]] [1 / 2, 1 / 2])
   \<and> removePane (Split Row [Leaf pane_a, Split Col [Leaf pane_b, Split Row [Leaf pane_c, Leaf pane_d] [1 / 2, 1 / 2]] [1 / 2, 1 / 2]] [1 / 2, 1 / 2]) ''b''
     = Some (Split Row [Leaf pane_a, Split Row [Leaf pane_c, Leaf pane_d] [1 / 2, 1 / 2]] [1 / 2, 1 / 2])
   \<and> \<not> wf_tree (Split Row [Leaf pane_a, Split Row [Leaf pane_c, Leaf pane_d] [1 / 2, 1 / 2]] [1 / 2, 1 / 2])"
  by (simp add: wf_tree_def ratios_ok_def pane_defs List.map_filter_def ratios_at_def ratio_at_def
      normalizeRatios_def clean_ratio_def Let_def numeral_2_eq_2)

text \<open>
  C34. A layout survives the window URL. Take any layout the operations make (every split has two or
  more children and one ratio for each, normalized; splits of one direction may be nested, as removing
  a pane leaves them) whose panes have a non-empty id and a complete source. Parsing what was
  serialized succeeds and mints no id, and the tree it gives has the same panes in the same order, each
  with the same share of the window, and satisfies the module's invariant; if the layout did, it is the
  same tree. Ratios are exact reals: on doubles parsing renormalizes them, which may round.
\<close>

theorem layout_roundtrip:
  assumes "shaped t" and "\<forall>p\<in>set (panes t). pane_ok p"
  shows "\<exists>t'. parseTree now (Some (serializeTree t)) c = (Some t', c) \<and> panes t' = panes t
    \<and> shares t' 1 = shares t 1 \<and> wf_tree t' \<and> (wf_tree t \<longrightarrow> t' = t)"
proof -
  have "parseTree now (Some (serializeTree t)) c = (Some (flattened t), c)"
    using wireToTree_treeToWire [OF assms] by (simp add: parseTree_def serializeTree_def)
  with flattened_panes flattened_shares [OF assms(1)] flattened_wf [OF assms(1)] flattened_id show ?thesis by blast
qed

theorem layout_roundtrip_witness:
  "parseTree 9 (Some (serializeTree (Split Col [Leaf pane_a, Leaf pane_b] [1 / 4, 3 / 4]))) 3
    = (Some (Split Col [Leaf pane_a, Leaf pane_b] [1 / 4, 3 / 4]), 3)"
  using layout_roundtrip [of "Split Col [Leaf pane_a, Leaf pane_b] [1 / 4, 3 / 4]" 9 3]
  by (auto simp: wf_tree_def ratios_ok_def pane_ok_def pane_defs)

end
