(* ===== verification/Projection.thy ===== *)
theory Projection
  imports SplitTree
begin

text \<open>
  The decision layer of a projection window: drag intents and drop zones
  (\<open>app/lib/projection/dnd.ts\<close>) and the machine that decides when a pane whose source was lost
  counts as dead (\<open>app/lib/projection/termination.ts\<close>). The machine is a step function over timed
  events; its timer is the deadline of the one timeout it may have armed, and the clock events of the
  host fire it. The snapshots given to \<open>onChange\<close> are recorded in the state.
\<close>

section \<open>Drag and drop\<close>

datatype drag_intent = Move | Copy

datatype effect_allowed = EffectCopy | EffectCopyMove

definition resolveIntent :: "drag_origin \<Rightarrow> bool \<Rightarrow> drag_intent" where
  "resolveIntent origin alt = (if origin = App then Copy else if alt then Copy else Move)"

definition effectAllowedFor :: "drag_origin \<Rightarrow> effect_allowed" where
  "effectAllowedFor origin = (if origin = App then EffectCopy else EffectCopyMove)"

definition dropEffectFor :: "drag_origin \<Rightarrow> bool \<Rightarrow> drag_intent" where
  "dropEffectFor origin alt = resolveIntent origin alt"

definition EDGE_FRACTION :: real where
  "EDGE_FRACTION = 28 / 100"

text \<open>A coordinate that is not finite is \<open>None\<close>.\<close>

definition clamp01 :: "real option \<Rightarrow> real" where
  "clamp01 v = (case v of None \<Rightarrow> 1 / 2 | Some x \<Rightarrow> min (max x 0) 1)"

definition dropZoneAt :: "real option \<Rightarrow> real option \<Rightarrow> real \<Rightarrow> drop_zone" where
  "dropZoneAt nx ny edgeFraction = (let x = clamp01 nx; y = clamp01 ny;
       distLeft = x; distRight = 1 - x; distTop = y; distBottom = 1 - y;
       nearest = min (min distLeft distRight) (min distTop distBottom)
     in if nearest \<ge> edgeFraction then ZCenter
        else if distLeft = nearest then ZLeft
        else if distRight = nearest then ZRight
        else if distTop = nearest then ZTop
        else ZBottom)"

definition isNoopDrop :: "drag_intent \<Rightarrow> bool \<Rightarrow> string \<Rightarrow> string \<Rightarrow> bool" where
  "isNoopDrop intent sameWindow dragged target \<longleftrightarrow> intent = Move \<and> sameWindow \<and> dragged = target"

text \<open>The distance of a point of the unit square to the edge a zone names.\<close>

fun edge_distance :: "drop_zone \<Rightarrow> real \<Rightarrow> real \<Rightarrow> real" where
  "edge_distance ZLeft x y = x"
| "edge_distance ZRight x y = 1 - x"
| "edge_distance ZTop x y = y"
| "edge_distance ZBottom x y = 1 - y"
| "edge_distance ZCenter x y = min (min x (1 - x)) (min y (1 - y))"

section \<open>The termination machine\<close>

datatype lifecycle = Live | Frozen | Terminated

record term_snapshot =
  ts_status :: lifecycle
  ts_coverVisible :: bool

record term_machine =
  tm_status :: lifecycle
  tm_dismissed :: bool
  tm_timer :: "nat option"
  tm_emitted :: "term_snapshot list"

definition DEFAULT_GRACE_MS :: nat where
  "DEFAULT_GRACE_MS = 10000"

definition tm_init :: term_machine where
  "tm_init = \<lparr>tm_status = Live, tm_dismissed = False, tm_timer = None, tm_emitted = []\<rparr>"

definition snapshot :: "term_machine \<Rightarrow> term_snapshot" where
  "snapshot m = \<lparr>ts_status = tm_status m, ts_coverVisible = (tm_status m = Frozen \<and> \<not> tm_dismissed m)\<rparr>"

definition tm_emit :: "term_machine \<Rightarrow> term_machine" where
  "tm_emit m = m\<lparr>tm_emitted := tm_emitted m @ [snapshot m]\<rparr>"

definition tm_disarm :: "term_machine \<Rightarrow> term_machine" where
  "tm_disarm m = m\<lparr>tm_timer := None\<rparr>"

definition tm_arm :: "nat \<Rightarrow> nat \<Rightarrow> term_machine \<Rightarrow> term_machine" where
  "tm_arm grace now m = (tm_disarm m)\<lparr>tm_timer := Some (now + grace)\<rparr>"

definition sourceLost :: "nat \<Rightarrow> nat \<Rightarrow> term_machine \<Rightarrow> term_machine" where
  "sourceLost grace now m =
     (if tm_status m = Frozen then m
      else if tm_status m = Terminated then m
      else tm_emit (tm_arm grace now (m\<lparr>tm_status := Frozen, tm_dismissed := False\<rparr>)))"

definition sourceReturned :: "term_machine \<Rightarrow> term_machine" where
  "sourceReturned m =
     (if tm_status m = Live then m
      else tm_emit ((tm_disarm m)\<lparr>tm_status := Live, tm_dismissed := False\<rparr>))"

definition dismissCover :: "term_machine \<Rightarrow> term_machine" where
  "dismissCover m =
     (if tm_status m \<noteq> Frozen \<or> tm_dismissed m then m else tm_emit (m\<lparr>tm_dismissed := True\<rparr>))"

definition tm_terminated :: "term_machine \<Rightarrow> bool" where
  "tm_terminated m \<longleftrightarrow> tm_status m = Terminated"

definition tm_dispose :: "term_machine \<Rightarrow> term_machine" where
  "tm_dispose m = tm_disarm m"

text \<open>The callback of the timeout.\<close>

definition tm_elapsed :: "term_machine \<Rightarrow> term_machine" where
  "tm_elapsed m = (let m' = m\<lparr>tm_timer := None\<rparr>
     in if tm_status m' = Frozen then tm_emit (m'\<lparr>tm_status := Terminated\<rparr>) else m')"

datatype term_event = Lost nat | Returned | Dismiss | Dispose | Clock nat

fun tm_step :: "nat \<Rightarrow> term_machine \<Rightarrow> term_event \<Rightarrow> term_machine" where
  "tm_step grace m (Lost now) = sourceLost grace now m"
| "tm_step grace m Returned = sourceReturned m"
| "tm_step grace m Dismiss = dismissCover m"
| "tm_step grace m Dispose = tm_dispose m"
| "tm_step grace m (Clock now) =
     (case tm_timer m of Some d \<Rightarrow> if d \<le> now then tm_elapsed m else m | None \<Rightarrow> m)"

definition allTerminated :: "lifecycle list \<Rightarrow> bool" where
  "allTerminated statuses \<longleftrightarrow> 0 < length statuses \<and> list_all (\<lambda>s. s = Terminated) statuses"

lemmas tm_defs = sourceLost_def sourceReturned_def dismissCover_def tm_dispose_def tm_elapsed_def
  tm_emit_def tm_arm_def tm_disarm_def snapshot_def Let_def

section \<open>The specification of a pane's life\<close>

text \<open>The transitions the design allows between the three states.\<close>

inductive life_step :: "lifecycle \<Rightarrow> lifecycle \<Rightarrow> bool" where
  freeze: "life_step Live Frozen"
| thaw: "life_step Frozen Live"
| expire: "life_step Frozen Terminated"
| rebind: "life_step Terminated Live"

inductive_simps life_from_live: "life_step Live s"
inductive_simps life_from_terminated: "life_step Terminated s"
inductive_cases life_into_terminated: "life_step s Terminated"

text \<open>What a history says about the armed deadline and about termination.\<close>

definition lost_since :: "term_event list \<Rightarrow> nat \<Rightarrow> bool" where
  "lost_since es t0 \<longleftrightarrow> (\<exists>pre post. es = pre @ Lost t0 # post \<and> Returned \<notin> set post)"

definition dead_since :: "nat \<Rightarrow> term_event list \<Rightarrow> bool" where
  "dead_since grace es \<longleftrightarrow> (\<exists>pre t0 mid t1 post. es = pre @ Lost t0 # mid @ Clock t1 # post
     \<and> t0 + grace \<le> t1 \<and> Returned \<notin> set mid \<and> Returned \<notin> set post)"

definition tm_ok :: "term_machine \<Rightarrow> bool" where
  "tm_ok m \<longleftrightarrow> (tm_timer m \<noteq> None \<longrightarrow> tm_status m = Frozen)
     \<and> (tm_emitted m \<noteq> [] \<longrightarrow> last (tm_emitted m) = snapshot m)"

lemma tm_step_ok: "tm_ok m \<Longrightarrow> tm_ok (tm_step grace m e)"
  by (cases e) (auto simp: tm_ok_def tm_defs split: option.splits)

lemma tm_init_ok: "tm_ok tm_init"
  by (simp add: tm_ok_def tm_init_def)

interpretation term_machines: started_machine "tm_step grace" tm_ok tm_init for grace
  by unfold_locales (simp_all add: tm_step_ok tm_init_ok)

lemma lost_since_snoc: "lost_since es t0 \<Longrightarrow> e \<noteq> Returned \<Longrightarrow> lost_since (es @ [e]) t0"
  unfolding lost_since_def
proof (elim exE conjE)
  fix pre post
  assume "es = pre @ Lost t0 # post" "Returned \<notin> set post" "e \<noteq> Returned"
  then have "es @ [e] = pre @ Lost t0 # (post @ [e])" "Returned \<notin> set (post @ [e])" by auto
  then show "\<exists>pre post. es @ [e] = pre @ Lost t0 # post \<and> Returned \<notin> set post" by blast
qed

lemma lost_since_new: "lost_since (es @ [Lost t0]) t0"
  unfolding lost_since_def by (intro exI [of _ es] exI [of _ "[]"]) simp

lemma dead_since_snoc: "dead_since grace es \<Longrightarrow> e \<noteq> Returned \<Longrightarrow> dead_since grace (es @ [e])"
  unfolding dead_since_def
proof (elim exE conjE)
  fix pre t0 mid t1 post
  assume "es = pre @ Lost t0 # mid @ Clock t1 # post" "t0 + grace \<le> t1" "Returned \<notin> set mid"
    "Returned \<notin> set post" "e \<noteq> Returned"
  then have "es @ [e] = pre @ Lost t0 # mid @ Clock t1 # (post @ [e]) \<and> t0 + grace \<le> t1
    \<and> Returned \<notin> set mid \<and> Returned \<notin> set (post @ [e])" by auto
  then show "\<exists>pre t0 mid t1 post. es @ [e] = pre @ Lost t0 # mid @ Clock t1 # post
      \<and> t0 + grace \<le> t1 \<and> Returned \<notin> set mid \<and> Returned \<notin> set post" by blast
qed

lemma dead_since_clock:
  assumes "lost_since es t0" and "t0 + grace \<le> t1"
  shows "dead_since grace (es @ [Clock t1])"
proof -
  from assms(1) obtain pre post where "es = pre @ Lost t0 # post" "Returned \<notin> set post"
    by (auto simp: lost_since_def)
  with assms(2) have "es @ [Clock t1] = pre @ Lost t0 # post @ Clock t1 # [] \<and> t0 + grace \<le> t1
    \<and> Returned \<notin> set post \<and> Returned \<notin> set []" by simp
  then show ?thesis unfolding dead_since_def by blast
qed

definition tm_history :: "nat \<Rightarrow> term_event list \<Rightarrow> term_machine \<Rightarrow> bool" where
  "tm_history grace es m \<longleftrightarrow>
     (\<forall>d. tm_timer m = Some d \<longrightarrow> tm_status m = Frozen \<and> (\<exists>t0. lost_since es t0 \<and> d = t0 + grace))
     \<and> (tm_status m = Terminated \<longrightarrow> dead_since grace es)"

lemma tm_history_run: "tm_history grace es (run (tm_step grace) tm_init es)"
proof (induction es rule: rev_induct)
  case Nil
  then show ?case by (simp add: tm_history_def tm_init_def)
next
  case (snoc e es)
  define m where "m = run (tm_step grace) tm_init es"
  have IH: "tm_history grace es m" using snoc by (simp add: m_def)
  have "tm_history grace (es @ [e]) (tm_step grace m e)"
  proof (cases e)
    case (Lost now)
    with IH show ?thesis
      using lost_since_new [of es now] lost_since_snoc [of es _ e] dead_since_snoc [of grace es e]
      by (auto simp: tm_history_def tm_defs)
  next
    case (Clock now)
    with IH show ?thesis
      using dead_since_clock [of es _ grace now] lost_since_snoc [of es _ e] dead_since_snoc [of grace es e]
      by (fastforce simp: tm_history_def tm_defs split: option.splits)
  next
    case Returned
    with IH show ?thesis by (auto simp: tm_history_def tm_defs)
  next
    case Dismiss
    with IH show ?thesis
      using lost_since_snoc [of es _ e] dead_since_snoc [of grace es e]
      by (auto simp: tm_history_def tm_defs)
  next
    case Dispose
    with IH show ?thesis
      using dead_since_snoc [of grace es e] by (auto simp: tm_history_def tm_defs)
  qed
  then show ?case by (simp add: m_def)
qed

text \<open>While the source stays away and the pane is not disposed, the first late clock event kills it.\<close>

definition waits_or_dead :: "nat \<Rightarrow> term_machine \<Rightarrow> bool" where
  "waits_or_dead d m \<longleftrightarrow> tm_status m = Terminated \<or> (tm_status m = Frozen \<and> tm_timer m = Some d)"

lemma waits_step:
  "waits_or_dead d m \<Longrightarrow> e \<noteq> Returned \<Longrightarrow> e \<noteq> Dispose \<Longrightarrow> waits_or_dead d (tm_step grace m e)"
  by (cases e; cases "tm_timer m") (auto simp: waits_or_dead_def tm_defs)

lemma frozen_waits:
  "waits_or_dead d m \<Longrightarrow> list_all (\<lambda>e. e \<noteq> Returned \<and> e \<noteq> Dispose) es \<Longrightarrow>
   waits_or_dead d (run (tm_step grace) m es)"
  by (induction es arbitrary: m) (simp_all add: waits_step)

lemma clock_kills:
  "waits_or_dead d m \<Longrightarrow> d \<le> now \<Longrightarrow>
   tm_status (tm_step grace m (Clock now)) = Terminated"
  by (cases "tm_timer m") (auto simp: waits_or_dead_def tm_defs)

lemma no_effect_move: "effectAllowedFor origin = EffectCopy \<Longrightarrow> dropEffectFor origin alt = Copy"
  by (cases origin) (simp_all add: effectAllowedFor_def dropEffectFor_def resolveIntent_def)

section \<open>Properties\<close>

text \<open>
  A pane counts as dead only after its source was lost and stayed away for the whole grace
  period: in every history, a terminated machine saw a loss, then a clock reading at least the
  grace period later, and no return since the loss.
\<close>

theorem terminated_only_after_grace:
  assumes "tm_terminated (run (tm_step grace) tm_init es)"
  shows "dead_since grace es"
  using tm_history_run [of grace es] assms by (simp add: tm_history_def tm_terminated_def)

theorem terminated_only_after_grace_witness:
  "dead_since 10 [Lost 5, Dismiss, Clock 15]"
  using terminated_only_after_grace [of 10 "[Lost 5, Dismiss, Clock 15]"]
  by (simp add: tm_defs tm_init_def tm_terminated_def)

text \<open>
  A pane whose source is lost for good dies: from a live machine, after a loss at \<open>t0\<close> and any
  events but a return or a disposal, a clock reading at or after \<open>t0 + grace\<close> leaves it terminated.
\<close>

theorem lost_source_terminates:
  assumes "tm_status m = Live" and "list_all (\<lambda>e. e \<noteq> Returned \<and> e \<noteq> Dispose) es" and "t0 + grace \<le> t1"
  shows "tm_terminated (run (tm_step grace) m (Lost t0 # es @ [Clock t1]))"
proof -
  have "waits_or_dead (t0 + grace) (sourceLost grace t0 m)"
    using assms(1) by (simp add: waits_or_dead_def tm_defs)
  from clock_kills [OF frozen_waits [OF this assms(2)] assms(3), of grace grace] show ?thesis
    by (simp add: tm_terminated_def)
qed

theorem lost_source_terminates_witness:
  "tm_terminated (run (tm_step 100) tm_init [Lost 7, Lost 50, Dismiss, Clock 60, Clock 107])"
  using lost_source_terminates [of tm_init "[Lost 50, Dismiss, Clock 60]" 7 100 107]
  by (simp add: tm_init_def)

text \<open>
  Every operation refines the specified life of a pane and tells its owner: it either leaves the
  snapshot and the log of notifications alone, or reports exactly the new snapshot, the status then
  unchanged or moved along an allowed transition.
\<close>

theorem steps_refine_life:
  "let m' = tm_step grace m e in
     if snapshot m' = snapshot m then tm_emitted m' = tm_emitted m
     else tm_emitted m' = tm_emitted m @ [snapshot m']
       \<and> (tm_status m' = tm_status m \<or> life_step (tm_status m) (tm_status m'))"
  by (cases e; cases "tm_status m") (auto simp: tm_defs intro: life_step.intros split: option.splits)

text \<open>
  The drop zone is the nearest edge: a point is in the centre exactly when every edge is at least
  the edge fraction away, and otherwise the zone names an edge no other edge is nearer than.
\<close>

theorem drop_zone_nearest_edge:
  "let x = clamp01 nx; y = clamp01 ny; z = dropZoneAt nx ny f in
     (z = ZCenter) = (edge_distance ZCenter x y \<ge> f)
     \<and> edge_distance z x y = edge_distance ZCenter x y
     \<and> 0 \<le> edge_distance z x y \<and> edge_distance z x y \<le> 1 / 2"
  by (auto simp: dropZoneAt_def Let_def clamp01_def min_def max_def split: option.splits if_splits)

text \<open>
  The drops the window refuses are no-ops: when \<open>isNoopDrop\<close> holds, the resolved move would
  return the very same tree in every zone.
\<close>

theorem refused_drop_is_noop:
  assumes "isNoopDrop (resolveIntent origin alt) sameWindow dragged target"
  shows "movePane t dragged target zone = t \<and> origin = Projection \<and> \<not> alt"
  using assms by (cases origin) (auto simp: isNoopDrop_def resolveIntent_def movePane_def split: if_splits)

theorem refused_drop_is_noop_witness:
  "movePane (Leaf pane_a) ''a'' ''a'' ZTop = Leaf pane_a"
  using refused_drop_is_noop [of Projection False True "''a''" "''a''" "Leaf pane_a" ZTop]
  by (simp add: isNoopDrop_def resolveIntent_def)

end
