(* ===== verification/Scheduler.thy ===== *)
theory Scheduler
  imports Prelude "HOL-Library.Sublist"
begin

text \<open>
  The round-robin frame scheduler (\<open>app/orchestrator/scheduler.ts\<close>). The state is the object's
  fields, the requests in flight and the log of what was issued and told to the callbacks. A
  synchronous burst (an event and the pump it triggers) sees one reading of the clock. The requester
  is a parameter: whether the n-th call throws, and with which message; its promises settle by
  events. \<open>pump\<close>, its loop and the nested pump of a throwing request call each other in the code; here
  they are one partial function, which is \<open>None\<close> exactly where the burst never ends.
\<close>

datatype cameras = CameraNames "string list" | CameraMask real

record frame_request =
  fr_stream :: int
  fr_cameras :: "cameras option"
  fr_pulse :: "real option"
  fr_settle_time :: "real option"

record frame_target = frame_request +
  ft_enabled :: "bool option"
  ft_minIntervalMs :: "real option"

datatype sched_note = Issued nat frame_request real real | OnAccepted frame_target | OnFrame frame_target
  | OnReject frame_target string | OnTimeout frame_target string | OnError frame_target string

record in_flight_request =
  if_id :: nat
  if_target :: frame_target
  if_ack :: "real option"
  if_fin :: "real option"

record scheduler =
  s_targets :: "frame_target list"
  s_cursor :: nat
  s_running :: bool
  s_inFlight :: nat
  s_timer :: "real option"
  s_orphans :: "real list"
  s_activeStreams :: "int set"
  s_nextEligibleAt :: "(int \<times> real) list"
  s_requests :: "in_flight_request list"
  s_issued :: nat
  s_clock :: real
  s_log :: "sched_note list"

record sched_options =
  o_maxInFlight :: nat
  o_defaultMinIntervalMs :: real
  o_retryDelayMs :: real
  o_acceptedTimeoutMs :: "real option"
  o_completionTimeoutMs :: "nat \<Rightarrow> real option"
  o_throws :: "nat \<Rightarrow> frame_request \<Rightarrow> string option"
  o_isDuplicate :: "string \<Rightarrow> bool"

definition FRAME_QUEUE_CAPACITY :: nat where
  "FRAME_QUEUE_CAPACITY = 8"

definition lower_char :: "char \<Rightarrow> char" where
  "lower_char c = (let n = of_char c :: nat in if 65 \<le> n \<and> n \<le> 90 then char_of (n + 32) else c)"

definition defaultDuplicateRejection :: "string \<Rightarrow> bool" where
  "defaultDuplicateRejection message = (let lower = map lower_char message
     in sublist ''duplicate'' lower \<or> sublist ''already pending'' lower \<or> sublist ''pending frame'' lower)"

definition the_default :: "'a \<Rightarrow> 'a option \<Rightarrow> 'a" where
  "the_default d x = (case x of None \<Rightarrow> d | Some y \<Rightarrow> y)"

text \<open>The constructor's defaults; a timeout that is not finite is \<open>None\<close> after the outer option.\<close>

definition sched_conf :: "nat option \<Rightarrow> real option \<Rightarrow> real option \<Rightarrow> real option option
    \<Rightarrow> (nat \<Rightarrow> real option) option \<Rightarrow> (nat \<Rightarrow> frame_request \<Rightarrow> string option)
    \<Rightarrow> (string \<Rightarrow> bool) option \<Rightarrow> sched_options" where
  "sched_conf mx minInterval retry ack fin throws dup =
     \<lparr>o_maxInFlight = max 1 (min (the_default FRAME_QUEUE_CAPACITY mx) FRAME_QUEUE_CAPACITY),
      o_defaultMinIntervalMs = the_default 0 minInterval,
      o_retryDelayMs = the_default (the_default 0 minInterval) retry,
      o_acceptedTimeoutMs = the_default (Some 100) ack,
      o_completionTimeoutMs = the_default (\<lambda>_. Some 1000) fin,
      o_throws = throws, o_isDuplicate = the_default defaultDuplicateRejection dup\<rparr>"

definition sched_new :: "frame_target list \<Rightarrow> scheduler" where
  "sched_new targets = \<lparr>s_targets = targets, s_cursor = 0, s_running = False, s_inFlight = 0,
     s_timer = None, s_orphans = [], s_activeStreams = {}, s_nextEligibleAt = [], s_requests = [], s_issued = 0,
     s_clock = 0, s_log = []\<rparr>"

definition eligible_at :: "scheduler \<Rightarrow> int \<Rightarrow> real" where
  "eligible_at s stream = the_default 0 (map_of (s_nextEligibleAt s) stream)"

definition eligible :: "scheduler \<Rightarrow> frame_target \<Rightarrow> bool" where
  "eligible s t \<longleftrightarrow> ft_enabled t \<noteq> Some False \<and> fr_stream t \<notin> s_activeStreams s
     \<and> eligible_at s (fr_stream t) \<le> s_clock s"

definition nextTarget :: "scheduler \<Rightarrow> (frame_target \<times> scheduler) option" where
  "nextTarget s = (let n = length (s_targets s); pos = (\<lambda>off. (s_cursor s + off) mod n)
     in case find (\<lambda>off. eligible s (s_targets s ! pos off)) [0..<n] of
          None \<Rightarrow> None
        | Some off \<Rightarrow> Some (s_targets s ! pos off, s\<lparr>s_cursor := (pos off + 1) mod n\<rparr>))"

definition armTimeout :: "real option \<Rightarrow> real \<Rightarrow> real option" where
  "armTimeout ms now = (case ms of None \<Rightarrow> None | Some m \<Rightarrow> if m \<le> 0 then None else Some (now + m))"

definition clearTimer :: "scheduler \<Rightarrow> scheduler" where
  "clearTimer s = s\<lparr>s_timer := None\<rparr>"

text \<open>
  The bookkeeping of \<open>issue\<close> before the request leaves; the log notes the launch time and the time
  before which the stream is not issued again.
\<close>

definition issue_begin :: "sched_options \<Rightarrow> frame_target \<Rightarrow> scheduler \<Rightarrow> scheduler" where
  "issue_begin opt t s = (let request = frame_request.truncate t; i = s_issued s; now = s_clock s;
       minIntervalMs = the_default (o_defaultMinIntervalMs opt) (ft_minIntervalMs t)
     in s\<lparr>s_nextEligibleAt := AList.update (fr_stream t) (now + minIntervalMs) (s_nextEligibleAt s),
          s_inFlight := s_inFlight s + 1,
          s_activeStreams := insert (fr_stream t) (s_activeStreams s),
          s_requests := s_requests s @ [\<lparr>if_id = i, if_target = t,
             if_ack = armTimeout (o_acceptedTimeoutMs opt) now,
             if_fin = armTimeout (o_completionTimeoutMs opt i) now\<rparr>],
          s_issued := i + 1, s_log := s_log s @ [Issued i request now (now + minIntervalMs)]\<rparr>)"

definition retryLater :: "sched_options \<Rightarrow> frame_target \<Rightarrow> scheduler \<Rightarrow> scheduler" where
  "retryLater opt t s = s\<lparr>s_nextEligibleAt := AList.update (fr_stream t)
     (max (eligible_at s (fr_stream t)) (s_clock s + o_retryDelayMs opt)) (s_nextEligibleAt s)\<rparr>"

datatype frame_status = FrameDone | FrameReject string | FrameTimeout string

definition notes_of :: "sched_options \<Rightarrow> frame_target \<Rightarrow> frame_status \<Rightarrow> sched_note list" where
  "notes_of opt t status = (case status of
      FrameDone \<Rightarrow> [OnFrame t]
    | FrameTimeout e \<Rightarrow> [OnTimeout t e]
    | FrameReject e \<Rightarrow> OnReject t e # (if o_isDuplicate opt e then [] else [OnError t e]))"

text \<open>\<open>finish\<close> up to the pump it ends with.\<close>

definition finish_request :: "sched_options \<Rightarrow> in_flight_request \<Rightarrow> frame_status \<Rightarrow> scheduler \<Rightarrow> scheduler" where
  "finish_request opt r status s = (let t = if_target r;
       s1 = s\<lparr>s_requests := filter (\<lambda>q. if_id q \<noteq> if_id r) (s_requests s),
              s_inFlight := s_inFlight s - 1,
              s_activeStreams := s_activeStreams s - {fr_stream t}\<rparr>;
       s2 = (if status = FrameDone then s1 else retryLater opt t s1)
     in s2\<lparr>s_log := s_log s2 @ notes_of opt t status\<rparr>)"

text \<open>
  Arming replaces the handle; a timer still armed (by a nested pump) is no longer reachable but fires.
\<close>

definition armNextTimer :: "sched_options \<Rightarrow> scheduler \<Rightarrow> scheduler" where
  "armNextTimer opt s =
     (if \<not> s_running s \<or> s_inFlight s \<ge> o_maxInFlight opt then s
      else (case map (\<lambda>t. eligible_at s (fr_stream t))
              (filter (\<lambda>t. ft_enabled t \<noteq> Some False \<and> fr_stream t \<notin> s_activeStreams s) (s_targets s)) of
          [] \<Rightarrow> s
        | a # as \<Rightarrow> s\<lparr>s_timer := Some (s_clock s + max 0 (fold min as a - s_clock s)),
            s_orphans := (case s_timer s of None \<Rightarrow> s_orphans s | Some d \<Rightarrow> d # s_orphans s)\<rparr>))"

text \<open>\<open>pump\<close>, and with \<open>True\<close> the loop in it. A call that throws ends in \<open>finish\<close>, which pumps.\<close>

partial_function (option) pump_run :: "sched_options \<Rightarrow> bool \<Rightarrow> scheduler \<Rightarrow> scheduler option" where
  "pump_run opt loop s =
     (if loop then
        (if s_inFlight s < o_maxInFlight opt then
           (case nextTarget s of
              None \<Rightarrow> Some s
            | Some (t, s1) \<Rightarrow> let s2 = issue_begin opt t s1
                in Option.bind (case o_throws opt (s_issued s1) (frame_request.truncate t) of
                     None \<Rightarrow> Some s2
                   | Some e \<Rightarrow> pump_run opt False (finish_request opt (last (s_requests s2)) (FrameReject e) s2))
                  (pump_run opt True))
         else Some s)
      else if \<not> s_running s then Some s
      else Option.bind (pump_run opt True (clearTimer s)) (\<lambda>s1. Some (armNextTimer opt s1)))"

definition pump :: "sched_options \<Rightarrow> scheduler \<Rightarrow> scheduler option" where
  "pump opt s = pump_run opt False s"

lemmas pump_run_induct = pump_run.raw_induct [rotated, consumes 1, case_names pass]

lemma pump_run_pass:
  "pump_run opt False s = (if \<not> s_running s then Some s
     else Option.bind (pump_run opt True (clearTimer s)) (\<lambda>s1. Some (armNextTimer opt s1)))"
  "pump_run opt True s = (if s_inFlight s < o_maxInFlight opt then
      (case nextTarget s of
         None \<Rightarrow> Some s
       | Some (t, s1) \<Rightarrow> let s2 = issue_begin opt t s1
           in Option.bind (case o_throws opt (s_issued s1) (frame_request.truncate t) of
                None \<Rightarrow> Some s2
              | Some e \<Rightarrow> pump_run opt False (finish_request opt (last (s_requests s2)) (FrameReject e) s2))
             (pump_run opt True))
    else Some s)"
  by (subst pump_run.simps, simp)+

definition setTargets :: "sched_options \<Rightarrow> frame_target list \<Rightarrow> scheduler \<Rightarrow> scheduler option" where
  "setTargets opt targets s = (let live = fr_stream ` set targets
     in pump opt (s\<lparr>s_targets := targets,
          s_cursor := (if s_cursor s \<ge> length targets then 0 else s_cursor s),
          s_nextEligibleAt := filter (\<lambda>(k, _). k \<in> live) (s_nextEligibleAt s)\<rparr>))"

definition sched_start :: "sched_options \<Rightarrow> scheduler \<Rightarrow> scheduler option" where
  "sched_start opt s = (if s_running s then Some s else pump opt (s\<lparr>s_running := True\<rparr>))"

definition sched_stop :: "scheduler \<Rightarrow> scheduler" where
  "sched_stop s = clearTimer (s\<lparr>s_running := False\<rparr>)"

definition pending :: "scheduler \<Rightarrow> nat \<Rightarrow> in_flight_request option" where
  "pending s i = find (\<lambda>r. if_id r = i) (s_requests s)"

text \<open>\<open>finish\<close>: only the first call for a request counts.\<close>

definition finish :: "sched_options \<Rightarrow> nat \<Rightarrow> frame_status \<Rightarrow> scheduler \<Rightarrow> scheduler option" where
  "finish opt i status s = (case pending s i of
      None \<Rightarrow> Some s
    | Some r \<Rightarrow> pump opt (finish_request opt r status s))"

definition on_accepted :: "nat \<Rightarrow> scheduler \<Rightarrow> scheduler" where
  "on_accepted i s = (case pending s i of
      None \<Rightarrow> s
    | Some r \<Rightarrow> s\<lparr>s_requests := map (\<lambda>q. if if_id q = i then q\<lparr>if_ack := None\<rparr> else q) (s_requests s),
          s_log := s_log s @ [OnAccepted (if_target r)]\<rparr>)"

datatype sched_event = SetTargets "frame_target list" | Start | Stop | TimerFires | OrphanFires real | Accepted nat
  | Completed nat | Failed nat string | AckTimer nat | FinTimer nat

definition due :: "real option \<Rightarrow> real \<Rightarrow> bool" where
  "due d now = (case d of None \<Rightarrow> False | Some t \<Rightarrow> t \<le> now)"

fun sched_event_step :: "sched_options \<Rightarrow> scheduler \<Rightarrow> sched_event \<Rightarrow> scheduler option" where
  "sched_event_step opt s (SetTargets ts) = setTargets opt ts s"
| "sched_event_step opt s Start = sched_start opt s"
| "sched_event_step opt s Stop = Some (sched_stop s)"
| "sched_event_step opt s TimerFires = (if due (s_timer s) (s_clock s) then pump opt s else Some s)"
| "sched_event_step opt s (OrphanFires d) = (if d \<in> set (s_orphans s) \<and> d \<le> s_clock s
     then pump opt (s\<lparr>s_orphans := remove1 d (s_orphans s)\<rparr>) else Some s)"
| "sched_event_step opt s (Accepted i) = Some (on_accepted i s)"
| "sched_event_step opt s (Completed i) = finish opt i FrameDone s"
| "sched_event_step opt s (Failed i e) = finish opt i (FrameReject e) s"
| "sched_event_step opt s (AckTimer i) = (case pending s i of
      None \<Rightarrow> Some s
    | Some r \<Rightarrow> if due (if_ack r) (s_clock s)
        then finish opt i (FrameTimeout ''Frame request ACK timed out'') s else Some s)"
| "sched_event_step opt s (FinTimer i) = (case pending s i of
      None \<Rightarrow> Some s
    | Some r \<Rightarrow> if due (if_fin r) (s_clock s)
        then finish opt i (FrameTimeout ''Frame request FIN timed out'') s else Some s)"

text \<open>An event at a time; the clock does not run backwards.\<close>

definition sched_step :: "sched_options \<Rightarrow> scheduler \<Rightarrow> real \<times> sched_event \<Rightarrow> scheduler option" where
  "sched_step opt s e = sched_event_step opt (s\<lparr>s_clock := max (s_clock s) (fst e)\<rparr>) (snd e)"

section \<open>Rules of the pump\<close>

lemmas sched_defs = issue_begin_def finish_request_def retryLater_def clearTimer_def Let_def

lemma nextTarget_Some:
  assumes "nextTarget s = Some (t, s1)"
  shows "t \<in> set (s_targets s)" and "eligible s t" and "\<exists>c. s1 = s\<lparr>s_cursor := c\<rparr> \<and> c < length (s_targets s)"
  using assms by (auto simp: nextTarget_def Let_def find_Some_iff split: option.splits
      intro!: nth_mem mod_less_divisor)

lemma nextTarget_None:
  assumes "nextTarget s = None" and "t \<in> set (s_targets s)"
  shows "\<not> eligible s t"
proof -
  define n where "n = length (s_targets s)"
  from assms(2) obtain i where i: "i < n" "s_targets s ! i = t" by (auto simp: in_set_conv_nth n_def)
  then have n: "0 < n" by simp
  define off where "off = (i + n - s_cursor s mod n) mod n"
  have "(s_cursor s + off) mod n = (s_cursor s mod n + (i + n - s_cursor s mod n)) mod n"
    by (simp add: off_def mod_simps)
  also have "\<dots> = (i + n) mod n"
    using n by (simp add: le_add_diff_inverse mod_less_divisor less_imp_le trans_le_add2)
  also have "\<dots> = i" using i by simp
  finally have "s_targets s ! ((s_cursor s + off) mod n) = t" using i by simp
  moreover have "off < n" using n by (simp add: off_def)
  ultimately show ?thesis
    using assms(1) by (auto simp: nextTarget_def Let_def find_None_iff n_def split: option.splits)
qed

text \<open>
  The contract of an invariant of the scheduler: it survives the primitive updates of a burst. Then
  it survives the pump, whatever nests in it.
\<close>

locale burst_invariant =
  fixes opt :: sched_options and P :: "scheduler \<Rightarrow> bool"
  assumes clear: "P s \<Longrightarrow> P (clearTimer s)"
    and arm: "P s \<Longrightarrow> P (armNextTimer opt s)"
    and issue: "P s \<Longrightarrow> s_inFlight s < o_maxInFlight opt \<Longrightarrow> nextTarget s = Some (t, s1)
      \<Longrightarrow> P (issue_begin opt t s1)"
    and finish: "P s \<Longrightarrow> r \<in> set (s_requests s) \<Longrightarrow> P (finish_request opt r status s)"
begin

lemma pump_run_inv: "pump_run o' b s = Some s' \<Longrightarrow> o' = opt \<Longrightarrow> P s \<Longrightarrow> P s'"
proof (induction rule: pump_run_induct)
  case (pass f o' b s s')
  note IH = pass(1) [OF _ pass(3)] and P = pass(4)
  show ?case
  proof (cases "b \<and> s_inFlight s < o_maxInFlight opt \<and> nextTarget s \<noteq> None")
    case True
    then obtain t s1 where t: "nextTarget s = Some (t, s1)" by auto
    define s2 where "s2 = issue_begin opt t s1"
    have P2: "P s2" using issue [OF P _ t] True by (simp add: s2_def)
    have "last (s_requests s2) \<in> set (s_requests s2)" by (simp add: s2_def sched_defs)
    then have P3: "P (finish_request opt (last (s_requests s2)) (FrameReject e) s2)" for e
      using finish [OF P2] by blast
    obtain s3 where s3: "(case o_throws opt (s_issued s1) (frame_request.truncate t) of None \<Rightarrow> Some s2
        | Some e \<Rightarrow> f opt False (finish_request opt (last (s_requests s2)) (FrameReject e) s2)) = Some s3" "f opt True s3 = Some s'"
      using pass(2,3) True t unfolding s2_def by (auto simp: Let_def bind_eq_Some_conv)
    have "P s3" using s3(1) P2 IH [OF _ P3] pass(3) by (auto split: option.splits)
    with s3(2) pass(3) show ?thesis using IH by blast
  next
    case False
    with pass(2,3) P show ?thesis
      using IH clear arm by (auto simp: bind_eq_Some_conv split: if_splits option.splits)
  qed
qed

lemma pump_inv: "P s \<Longrightarrow> pump opt s = Some s' \<Longrightarrow> P s'"
  unfolding pump_def using pump_run_inv by blast

end

section \<open>The bookkeeping of requests in flight\<close>

abbreviation stream_of :: "in_flight_request \<Rightarrow> int" where
  "stream_of r \<equiv> fr_stream (if_target r)"

definition sched_ok :: "sched_options \<Rightarrow> scheduler \<Rightarrow> bool" where
  "sched_ok opt s \<longleftrightarrow> s_inFlight s = length (s_requests s) \<and> s_inFlight s \<le> o_maxInFlight opt
     \<and> s_activeStreams s = stream_of ` set (s_requests s)
     \<and> distinct (map stream_of (s_requests s)) \<and> distinct (map if_id (s_requests s))
     \<and> (\<forall>r\<in>set (s_requests s). if_id r < s_issued s)"

lemma filter_out_one:
  "distinct (map f xs) \<Longrightarrow> x \<in> set xs \<Longrightarrow> set (filter (\<lambda>y. f y \<noteq> f x) xs) = set xs - {x}"
  by (auto simp: distinct_map inj_on_def)

lemma filter_out_length:
  "distinct (map f xs) \<Longrightarrow> x \<in> set xs \<Longrightarrow> length (filter (\<lambda>y. f y \<noteq> f x) xs) = length xs - 1"
proof (induction xs)
  case (Cons y xs)
  have "filter (\<lambda>z. f z \<noteq> f y) xs = xs" if "f y \<notin> f ` set xs"
    using that by (auto simp: filter_id_conv rev_image_eqI)
  with Cons show ?case by (cases xs) auto
qed simp

lemma issue_begin_ok:
  assumes "sched_ok opt s" and "s_inFlight s < o_maxInFlight opt" and "nextTarget s = Some (t, s1)"
  shows "sched_ok opt (issue_begin opt t s1)"
proof -
  from nextTarget_Some [OF assms(3)] obtain c where s1: "s1 = s\<lparr>s_cursor := c\<rparr>"
    and "fr_stream t \<notin> s_activeStreams s" by (auto simp: eligible_def)
  with assms(1,2) show ?thesis
    by (auto simp: sched_ok_def issue_begin_def Let_def less_Suc_eq)
qed

lemma finish_request_ok:
  assumes "sched_ok opt s" and "r \<in> set (s_requests s)"
  shows "sched_ok opt (finish_request opt r status s)"
proof -
  note ok = assms(1) [unfolded sched_ok_def]
  have rest: "set (filter (\<lambda>q. if_id q \<noteq> if_id r) (s_requests s)) = set (s_requests s) - {r}"
    using ok assms(2) by (intro filter_out_one) auto
  have len: "length (filter (\<lambda>q. if_id q \<noteq> if_id r) (s_requests s)) = length (s_requests s) - 1"
    using ok assms(2) by (intro filter_out_length) auto
  have active: "s_activeStreams s - {stream_of r} = stream_of ` (set (s_requests s) - {r})"
    using ok assms(2) by (auto simp: distinct_map inj_on_def)
  have fields: "s_requests (finish_request opt r status s) = filter (\<lambda>q. if_id q \<noteq> if_id r) (s_requests s)"
    "s_inFlight (finish_request opt r status s) = s_inFlight s - 1"
    "s_activeStreams (finish_request opt r status s) = s_activeStreams s - {stream_of r}"
    "s_issued (finish_request opt r status s) = s_issued s"
    by (simp_all add: finish_request_def retryLater_def Let_def)
  show ?thesis
    unfolding sched_ok_def fields using ok rest len active by (auto simp: distinct_map_filter)
qed

lemma armNextTimer_fields [simp]:
  "s_requests (armNextTimer opt s) = s_requests s" "s_inFlight (armNextTimer opt s) = s_inFlight s"
  "s_activeStreams (armNextTimer opt s) = s_activeStreams s" "s_issued (armNextTimer opt s) = s_issued s"
  "s_log (armNextTimer opt s) = s_log s" "s_nextEligibleAt (armNextTimer opt s) = s_nextEligibleAt s"
  "s_targets (armNextTimer opt s) = s_targets s" "s_clock (armNextTimer opt s) = s_clock s"
  "s_running (armNextTimer opt s) = s_running s" "s_cursor (armNextTimer opt s) = s_cursor s"
  by (simp_all add: armNextTimer_def split: list.splits)

interpretation bookkeeping: burst_invariant opt "sched_ok opt" for opt
  by unfold_locales (simp_all add: issue_begin_ok finish_request_ok, simp_all add: sched_ok_def clearTimer_def)

lemma pending_mem: "pending s i = Some r \<Longrightarrow> r \<in> set (s_requests s) \<and> if_id r = i"
  by (auto simp: pending_def find_Some_iff)

context burst_invariant
begin

lemma finish_inv:
  assumes "P s" and "Scheduler.finish opt i status s = Some s'"
  shows "P s'"
proof (cases "pending s i")
  case (Some r)
  then show ?thesis
    using assms pump_inv [OF finish [OF assms(1), of r status]] pending_mem [of s i r]
    by (simp add: finish_def)
qed (use assms in \<open>simp add: finish_def\<close>)

end

text \<open>What every event of a history keeps, when the parts outside a burst keep it too.\<close>

locale history_invariant = burst_invariant +
  assumes clock: "P s \<Longrightarrow> s_clock s \<le> now \<Longrightarrow> P (s\<lparr>s_clock := now\<rparr>)"
    and running: "P s \<Longrightarrow> P (s\<lparr>s_running := b\<rparr>)"
    and accepted: "P s \<Longrightarrow> P (on_accepted i s)"
    and orphans: "P s \<Longrightarrow> P (s\<lparr>s_orphans := ds\<rparr>)"
begin

lemma event_inv:
  assumes "P s" and "\<And>ts. snd e \<noteq> SetTargets ts" and "sched_step opt s e = Some s'"
  shows "P s'"
proof -
  define s0 where "s0 = s\<lparr>s_clock := max (s_clock s) (fst e)\<rparr>"
  have P0: "P s0" using clock [OF assms(1)] by (simp add: s0_def)
  have step: "sched_event_step opt s0 (snd e) = Some s'" using assms(3) by (simp add: sched_step_def s0_def)
  show ?thesis
  proof (cases "snd e")
    case (SetTargets ts)
    with assms(2) show ?thesis by blast
  next
    case Start
    with step P0 show ?thesis
      using pump_inv [OF running [OF P0, of True]] by (auto simp: sched_start_def split: if_splits)
  next
    case Stop
    with step show ?thesis using clear [OF running [OF P0, of False]] by (auto simp: sched_stop_def)
  next
    case TimerFires
    with step P0 show ?thesis using pump_inv [OF P0] by (auto split: if_splits)
  next
    case (OrphanFires d)
    with step P0 show ?thesis using pump_inv [OF orphans [OF P0]] by (auto split: if_splits)
  next
    case (Accepted i)
    with step show ?thesis using accepted [OF P0] by auto
  qed (use step P0 finish_inv [OF P0] in \<open>auto split: option.splits if_splits\<close>)
qed

end

lemma on_accepted_fields [simp]:
  "s_inFlight (on_accepted i s) = s_inFlight s" "s_activeStreams (on_accepted i s) = s_activeStreams s"
  "s_issued (on_accepted i s) = s_issued s" "s_nextEligibleAt (on_accepted i s) = s_nextEligibleAt s"
  "s_targets (on_accepted i s) = s_targets s" "s_clock (on_accepted i s) = s_clock s"
  "map if_target (s_requests (on_accepted i s)) = map if_target (s_requests s)"
  "map if_id (s_requests (on_accepted i s)) = map if_id (s_requests s)"
  by (auto simp: on_accepted_def split: option.splits)

lemma sched_ok_lists:
  "sched_ok opt s \<longleftrightarrow> s_inFlight s = length (map if_id (s_requests s)) \<and> s_inFlight s \<le> o_maxInFlight opt
     \<and> s_activeStreams s = fr_stream ` set (map if_target (s_requests s))
     \<and> distinct (map fr_stream (map if_target (s_requests s))) \<and> distinct (map if_id (s_requests s))
     \<and> (\<forall>i\<in>set (map if_id (s_requests s)). i < s_issued s)"
  by (auto simp: sched_ok_def comp_def)

interpretation bookkeeping: history_invariant opt "sched_ok opt" for opt
proof unfold_locales
  fix s i
  show "sched_ok opt s \<Longrightarrow> sched_ok opt (on_accepted i s)"
    unfolding sched_ok_lists on_accepted_fields .
qed (simp_all add: sched_ok_def)

lemma setTargets_ok: "sched_ok opt s \<Longrightarrow> setTargets opt ts s = Some s' \<Longrightarrow> sched_ok opt s'"
  unfolding setTargets_def Let_def by (erule bookkeeping.pump_inv [rotated]) (simp add: sched_ok_def)

lemma sched_step_ok: "sched_ok opt s \<Longrightarrow> sched_step opt s e = Some s' \<Longrightarrow> sched_ok opt s'"
proof (cases "\<exists>ts. snd e = SetTargets ts")
  case True
  then obtain ts where "snd e = SetTargets ts" by blast
  then show "sched_ok opt s \<Longrightarrow> sched_step opt s e = Some s' \<Longrightarrow> sched_ok opt s'"
    using setTargets_ok [of opt "s\<lparr>s_clock := max (s_clock s) (fst e)\<rparr>" ts s']
    by (simp add: sched_step_def sched_ok_def)
next
  case False
  then show "sched_ok opt s \<Longrightarrow> sched_step opt s e = Some s' \<Longrightarrow> sched_ok opt s'"
    using bookkeeping.event_inv by blast
qed

interpretation sched_machine: partial_machine "sched_step opt" "sched_ok opt" for opt
  by unfold_locales (rule sched_step_ok)

section \<open>Pacing\<close>

fun launch :: "sched_note \<Rightarrow> (int \<times> real \<times> real) option" where
  "launch (Issued i r now until) = Some (fr_stream r, now, until)"
| "launch _ = None"

text \<open>The launches of a log in order: stream, launch time, time before which the stream must wait.\<close>

definition launches :: "scheduler \<Rightarrow> (int \<times> real \<times> real) list" where
  "launches s = List.map_filter launch (s_log s)"

definition gap_kept :: "int \<times> real \<times> real \<Rightarrow> int \<times> real \<times> real \<Rightarrow> bool" where
  "gap_kept a b \<longleftrightarrow> (fst a = fst b \<longrightarrow> snd (snd a) \<le> fst (snd b))"

definition intervals_ok :: "sched_options \<Rightarrow> frame_target list \<Rightarrow> bool" where
  "intervals_ok opt ts \<longleftrightarrow>
     list_all (\<lambda>t. 0 \<le> the_default (o_defaultMinIntervalMs opt) (ft_minIntervalMs t)) ts"

definition paced :: "sched_options \<Rightarrow> scheduler \<Rightarrow> bool" where
  "paced opt s \<longleftrightarrow> intervals_ok opt (s_targets s) \<and> sorted_wrt gap_kept (launches s)
     \<and> list_all (\<lambda>(k, _, u). u \<le> eligible_at s k) (launches s)"

lemma launches_append:
  "List.map_filter launch (ns @ ms) = List.map_filter launch ns @ List.map_filter launch ms"
  by (simp add: List.map_filter_def)

lemma no_launch_notes: "List.map_filter launch (notes_of opt t status) = []"
  by (cases status) (simp_all add: notes_of_def List.map_filter_def)

lemma eligible_at_update:
  "eligible_at (s\<lparr>s_nextEligibleAt := AList.update k x (s_nextEligibleAt s)\<rparr>) j
    = (if j = k then x else eligible_at s j)"
  by (simp add: eligible_at_def table_simps the_default_def)

lemma eligible_at_issue:
  "eligible_at (issue_begin opt t s) j = (if j = fr_stream t
     then s_clock s + the_default (o_defaultMinIntervalMs opt) (ft_minIntervalMs t) else eligible_at s j)"
  by (simp add: eligible_at_def issue_begin_def Let_def table_simps the_default_def)

lemma eligible_at_finish: "eligible_at s j \<le> eligible_at (finish_request opt r status s) j"
  by (auto simp: eligible_at_def finish_request_def retryLater_def Let_def table_simps the_default_def
      split: option.splits)

lemma truncate_stream [simp]: "fr_stream (frame_request.truncate t) = fr_stream t"
  by (cases t) (simp add: frame_request.truncate_def)

lemma paced_issue:
  assumes "paced opt s" and "nextTarget s = Some (t, s1)"
  shows "paced opt (issue_begin opt t s1)"
proof -
  from nextTarget_Some [OF assms(2)] obtain c where s1: "s1 = s\<lparr>s_cursor := c\<rparr>"
    and t: "t \<in> set (s_targets s)" "eligible s t" by auto
  let ?m = "the_default (o_defaultMinIntervalMs opt) (ft_minIntervalMs t)"
  have m: "0 \<le> ?m" using assms(1) t(1) by (auto simp: paced_def intervals_ok_def list_all_iff)
  have new: "launches (issue_begin opt t s1) = launches s @ [(fr_stream t, s_clock s, s_clock s + ?m)]"
    by (simp add: launches_def issue_begin_def Let_def launches_append s1 List.map_filter_def)
  have same: "eligible_at s1 j = eligible_at s j" for j by (simp add: s1 eligible_at_def)
  have due: "eligible_at s (fr_stream t) \<le> s_clock s" using t(2) by (simp add: eligible_def)
  have "\<forall>a\<in>set (launches s). snd (snd a) \<le> eligible_at s (fst a)"
    using assms(1) by (auto simp: paced_def list_all_iff)
  with due m have waits: "\<forall>a\<in>set (launches s). fst a = fr_stream t \<longrightarrow> snd (snd a) \<le> s_clock s"
    by force
  with assms(1) due m show ?thesis
    unfolding paced_def new
    by (auto simp: sorted_wrt_append gap_kept_def list_all_iff eligible_at_issue same [unfolded s1] s1)
      (auto simp: issue_begin_def Let_def)
qed

lemma paced_finish:
  assumes "paced opt s"
  shows "paced opt (finish_request opt r status s)"
proof -
  have "launches (finish_request opt r status s) = launches s"
    by (simp add: launches_def finish_request_def retryLater_def Let_def launches_append no_launch_notes)
  moreover have "s_targets (finish_request opt r status s) = s_targets s"
    by (simp add: finish_request_def retryLater_def Let_def)
  ultimately show ?thesis
    using assms eligible_at_finish [of s _ opt r status]
    unfolding paced_def by (fastforce simp: list_all_iff intro: order_trans)
qed

lemma paced_cong:
  "s_targets s' = s_targets s \<Longrightarrow> launches s' = launches s \<Longrightarrow> s_nextEligibleAt s' = s_nextEligibleAt s \<Longrightarrow>
   paced opt s' = paced opt s"
  by (simp add: paced_def eligible_at_def)

interpretation pacing: history_invariant opt "paced opt" for opt
proof unfold_locales
  fix s i
  have "launches (on_accepted i s) = launches s"
    by (auto simp: launches_def on_accepted_def launches_append List.map_filter_def split: option.splits)
  then show "paced opt s \<Longrightarrow> paced opt (on_accepted i s)" by (simp add: paced_def eligible_at_def)
next
  fix s r status
  show "paced opt s \<Longrightarrow> paced opt (finish_request opt r status s)" by (rule paced_finish)
qed (simp_all add: paced_issue, simp_all add: paced_def eligible_at_def launches_def clearTimer_def)

section \<open>Every burst ends\<close>

text \<open>
  The targets a burst can still pick. Each issue takes one away for good: its stream is active, or,
  when the requester threw, not eligible again before the retry delay is over.
\<close>

definition choices :: "scheduler \<Rightarrow> nat" where
  "choices s = length (filter (eligible s) (s_targets s))"

definition retry_wait :: "sched_options \<Rightarrow> frame_target \<Rightarrow> bool" where
  "retry_wait opt t \<longleftrightarrow> 0 < o_retryDelayMs opt
     \<or> 0 < the_default (o_defaultMinIntervalMs opt) (ft_minIntervalMs t)"

definition retries_wait :: "sched_options \<Rightarrow> frame_target list \<Rightarrow> bool" where
  "retries_wait opt ts \<longleftrightarrow> list_all (retry_wait opt) ts \<or> (\<forall>i r. o_throws opt i r = None)"

lemma length_filter_mono: "(\<And>x. P x \<Longrightarrow> Q x) \<Longrightarrow> length (filter P xs) \<le> length (filter Q xs)"
  by (induction xs) auto

lemma length_filter_strict:
  "(\<And>x. P x \<Longrightarrow> Q x) \<Longrightarrow> y \<in> set xs \<Longrightarrow> Q y \<Longrightarrow> \<not> P y \<Longrightarrow> length (filter P xs) < length (filter Q xs)"
proof (induction xs)
  case (Cons x xs)
  then show ?case using length_filter_mono [of P Q xs] by (auto simp: less_Suc_eq_le)
qed simp

lemma choices_le:
  assumes "s_targets s' = s_targets s" and "\<And>t. eligible s' t \<Longrightarrow> eligible s t"
  shows "choices s' \<le> choices s"
  unfolding choices_def assms(1) by (rule length_filter_mono) (rule assms(2))

lemma choices_less:
  assumes "s_targets s' = s_targets s" and "\<And>t. eligible s' t \<Longrightarrow> eligible s t"
    and "t \<in> set (s_targets s)" and "eligible s t" and "\<not> eligible s' t"
  shows "choices s' < choices s"
  unfolding choices_def assms(1) by (rule length_filter_strict [where y = t]) (use assms in auto)

lemma eligible_clear [simp]: "eligible (clearTimer s) t = eligible s t"
  and eligible_arm [simp]: "eligible (armNextTimer opt s) t = eligible s t"
  by (simp_all add: eligible_def eligible_at_def clearTimer_def)

lemma choices_clear: "choices (clearTimer s) = choices s"
proof -
  have "eligible (clearTimer s) = eligible s" by (rule ext) simp
  then show ?thesis by (simp add: choices_def) (simp add: clearTimer_def)
qed

lemma eligible_issue_begin:
  "eligible (issue_begin opt t (s\<lparr>s_cursor := c\<rparr>)) u \<longleftrightarrow> eligible s u \<and> fr_stream u \<noteq> fr_stream t"
  by (auto simp: eligible_def eligible_at_issue) (auto simp: issue_begin_def Let_def eligible_at_def)

lemma thrown_request:
  assumes "s2 = issue_begin opt t (s\<lparr>s_cursor := c\<rparr>)" and "retry_wait opt t" and "eligible s t"
    and "fr_stream t \<notin> s_activeStreams s"
  shows "eligible (finish_request opt (last (s_requests s2)) (FrameReject e) s2) u
    \<longleftrightarrow> eligible s u \<and> fr_stream u \<noteq> fr_stream t"
proof -
  have "if_target (last (s_requests s2)) = t" by (simp add: assms(1) issue_begin_def Let_def)
  moreover have "s_clock s < eligible_at (finish_request opt (last (s_requests s2)) (FrameReject e) s2) (fr_stream t)"
    using assms(2) calculation unfolding retry_wait_def
    by (simp add: finish_request_def retryLater_def Let_def eligible_at_def table_simps the_default_def)
       (auto simp: assms(1) issue_begin_def Let_def table_simps the_default_def)
  ultimately show ?thesis
    using assms(4)
    by (auto simp: eligible_def assms(1) issue_begin_def finish_request_def retryLater_def Let_def
        eligible_at_def table_simps the_default_def)
qed

text \<open>What a burst may do to the targets: the list stays, choices are only used up.\<close>

definition shrinks :: "scheduler \<Rightarrow> scheduler \<Rightarrow> bool" where
  "shrinks s s' \<longleftrightarrow> s_targets s' = s_targets s \<and> s_running s' = s_running s
     \<and> (\<forall>t. eligible s' t \<longrightarrow> eligible s t)"

lemma shrinks_trans: "shrinks a b \<Longrightarrow> shrinks b c \<Longrightarrow> shrinks a c"
  by (auto simp: shrinks_def)

lemma shrinks_choices: "shrinks s s' \<Longrightarrow> choices s' \<le> choices s"
  by (rule choices_le) (auto simp: shrinks_def)

lemma issue_shrinks:
  assumes "nextTarget s = Some (t, s1)" and "s2 = issue_begin opt t s1" and "retries_wait opt (s_targets s)"
  shows "shrinks s s2 \<and> choices s2 < choices s"
    and "o_throws opt i r = Some e \<Longrightarrow> s3 = finish_request opt (last (s_requests s2)) (FrameReject e) s2
      \<Longrightarrow> shrinks s s3 \<and> choices s3 < choices s"
proof -
  from nextTarget_Some [OF assms(1)] obtain c where s1: "s1 = s\<lparr>s_cursor := c\<rparr>"
    and t: "t \<in> set (s_targets s)" "eligible s t" by auto
  then have free: "fr_stream t \<notin> s_activeStreams s" by (simp add: eligible_def)
  have tg: "s_targets s2 = s_targets s" "s_running s2 = s_running s"
    by (simp_all add: assms(2) s1 issue_begin_def Let_def)
  then show "shrinks s s2 \<and> choices s2 < choices s"
    using t by (auto simp: shrinks_def assms(2) s1 eligible_issue_begin intro!: choices_less [where t = t])
  assume thrown: "o_throws opt i r = Some e" and s3: "s3 = finish_request opt (last (s_requests s2)) (FrameReject e) s2"
  then have "retry_wait opt t" using assms(3) t(1) by (auto simp: retries_wait_def list_all_iff)
  from thrown_request [OF _ this t(2) free, of s2 c e]
  have el: "eligible s3 u \<longleftrightarrow> eligible s u \<and> fr_stream u \<noteq> fr_stream t" for u
    by (simp add: s3 assms(2) s1)
  have tg3: "s_targets s3 = s_targets s" "s_running s3 = s_running s"
    using tg by (simp_all add: s3 finish_request_def retryLater_def Let_def)
  then show "shrinks s s3 \<and> choices s3 < choices s"
    using t el by (auto simp: shrinks_def intro!: choices_less [where t = t])
qed

lemma pump_returns:
  shows "retries_wait opt (s_targets s) \<Longrightarrow> \<exists>s'. pump_run opt True s = Some s' \<and> shrinks s s'"
    and "retries_wait opt (s_targets s) \<Longrightarrow> \<exists>s'. pump_run opt False s = Some s' \<and> shrinks s s'"
proof (induction "choices s" arbitrary: s rule: less_induct)
  case (less s)
  have loop: "\<exists>s'. pump_run opt True s0 = Some s' \<and> shrinks s0 s'"
    if "retries_wait opt (s_targets s0)" "choices s0 = choices s" for s0
  proof (cases "s_inFlight s0 < o_maxInFlight opt \<and> nextTarget s0 \<noteq> None")
    case True
    then obtain t s1 where t: "nextTarget s0 = Some (t, s1)" by auto
    define s2 where "s2 = issue_begin opt t s1"
    define req where "req = frame_request.truncate t"
    note sh = issue_shrinks [OF t s2_def that(1)]
    have "\<exists>s3. (case o_throws opt (s_issued s1) req of None \<Rightarrow> Some s2
        | Some e \<Rightarrow> pump_run opt False (finish_request opt (last (s_requests s2)) (FrameReject e) s2)) = Some s3
      \<and> shrinks s0 s3 \<and> choices s3 < choices s0"
    proof (cases "o_throws opt (s_issued s1) req")
      case None
      with sh(1) show ?thesis by simp
    next
      case (Some e)
      define s2' where "s2' = finish_request opt (last (s_requests s2)) (FrameReject e) s2"
      have two: "shrinks s0 s2'" "choices s2' < choices s0" using sh(2) [OF Some s2'_def] by auto
      with that have "choices s2' < choices s" "retries_wait opt (s_targets s2')" by (simp_all add: shrinks_def)
      from less.hyps(2) [OF this] obtain s3 where "pump_run opt False s2' = Some s3" "shrinks s2' s3" by blast
      with two Some show ?thesis
        using shrinks_trans shrinks_choices [of s2' s3] by (auto simp: s2'_def [symmetric])
    qed
    then obtain s3 where s3: "(case o_throws opt (s_issued s1) req of None \<Rightarrow> Some s2
        | Some e \<Rightarrow> pump_run opt False (finish_request opt (last (s_requests s2)) (FrameReject e) s2)) = Some s3"
      "shrinks s0 s3" "choices s3 < choices s0" by blast
    with that have "choices s3 < choices s" "retries_wait opt (s_targets s3)" by (simp_all add: shrinks_def)
    from less.hyps(1) [OF this] obtain s' where "pump_run opt True s3 = Some s'" "shrinks s3 s'" by blast
    moreover have "pump_run opt True s0 = pump_run opt True s3"
      using True t s3(1) unfolding s2_def req_def by (subst pump_run.simps) (simp add: Let_def)
    ultimately show ?thesis using s3(2) shrinks_trans by auto
  qed (subst pump_run.simps, auto simp: shrinks_def split: option.splits)
  {
    case 1
    then show ?case using loop by blast
  next
    case 2
    have "choices (clearTimer s) = choices s" by (rule choices_clear)
    moreover have "s_targets (clearTimer s) = s_targets s" by (simp add: clearTimer_def)
    ultimately show ?case
      using 2 loop [of "clearTimer s"] by (subst pump_run.simps) (auto simp: shrinks_def, auto simp: clearTimer_def)
  }
qed

lemma pump_total: "retries_wait opt (s_targets s) \<Longrightarrow> \<exists>s'. pump opt s = Some s' \<and> shrinks s s'"
  unfolding pump_def by (rule pump_returns(2))

section \<open>No stalled target\<close>

lemma pump_loop_end:
  "pump_run opt b s = Some s' \<Longrightarrow> b \<Longrightarrow> o_maxInFlight opt \<le> s_inFlight s' \<or> nextTarget s' = None"
proof (induction rule: pump_run_induct)
  case (pass f opt b s s')
  then show ?case by (fastforce simp: Let_def bind_eq_Some_conv split: if_splits option.splits)
qed

definition woken :: "scheduler \<Rightarrow> frame_target \<Rightarrow> bool" where
  "woken s t = (case s_timer s of None \<Rightarrow> False | Some d \<Rightarrow> d \<le> max (s_clock s) (eligible_at s (fr_stream t)))"

lemma fold_min_le: "x \<in> set (a # as) \<Longrightarrow> fold min as a \<le> (x :: real)"
proof (induction as arbitrary: a x)
  case (Cons b as)
  from Cons.prems consider "x = a" | "x = b" | "x \<in> set as" by auto
  then show ?case
  proof cases
    case 3
    then show ?thesis using Cons.IH [of x "min b a"] by simp
  next
    case 1
    then show ?thesis using Cons.IH [of "min b a" "min b a"] by simp
  next
    case 2
    then show ?thesis using Cons.IH [of "min b a" "min b a"] by simp
  qed
qed simp

lemma armNextTimer_wakes:
  assumes "s_running s" and "s_inFlight s < o_maxInFlight opt" and "t \<in> set (s_targets s)"
    and "ft_enabled t \<noteq> Some False" and "fr_stream t \<notin> s_activeStreams s"
  shows "woken (armNextTimer opt s) t"
proof -
  define as where "as = map (\<lambda>t. eligible_at s (fr_stream t))
    (filter (\<lambda>t. ft_enabled t \<noteq> Some False \<and> fr_stream t \<notin> s_activeStreams s) (s_targets s))"
  have mem: "eligible_at s (fr_stream t) \<in> set as" using assms(3-5) by (auto simp: as_def)
  then obtain b bs where as: "as = b # bs" by (cases as) auto
  have timer: "s_timer (armNextTimer opt s) = Some (s_clock s + max 0 (fold min bs b - s_clock s))"
    using assms(1,2) as by (simp add: armNextTimer_def as_def [symmetric])
  have "fold min bs b \<le> eligible_at s (fr_stream t)" using mem unfolding as by (rule fold_min_le)
  moreover have "eligible_at (armNextTimer opt s) j = eligible_at s j" for j by (simp add: eligible_at_def)
  ultimately show ?thesis by (simp add: woken_def timer)
qed

lemma pump_serves_lemma:
  assumes "s_running s" and "pump opt s = Some s'" and "t \<in> set (s_targets s')" and "retries_wait opt (s_targets s)"
  shows "o_maxInFlight opt \<le> s_inFlight s' \<or> \<not> eligible s' t \<and> (ft_enabled t \<noteq> Some False \<longrightarrow>
     fr_stream t \<in> s_activeStreams s' \<or> woken s' t)"
proof -
  from assms(1,2) obtain s1 where s1: "pump_run opt True (clearTimer s) = Some s1" "s' = armNextTimer opt s1"
    unfolding pump_def by (subst (asm) pump_run.simps) (auto simp: bind_eq_Some_conv)
  have "retries_wait opt (s_targets (clearTimer s))" using assms(4) by (simp add: clearTimer_def)
  from pump_returns(1) [OF this] s1(1) have "shrinks (clearTimer s) s1" by simp
  then have run: "s_running s1" using assms(1) by (simp add: shrinks_def clearTimer_def)
  show ?thesis
  proof (cases "s_inFlight s1 < o_maxInFlight opt")
    case True
    with pump_loop_end [OF s1(1) TrueI] have "nextTarget s1 = None" by simp
    with True run assms(3) show ?thesis
      using nextTarget_None [of s1 t] armNextTimer_wakes [of s1 opt t] by (auto simp: s1(2))
  qed (simp add: s1(2))
qed

section \<open>Properties\<close>

text \<open>
  C11. The scheduler's books always balance: in every history of a new scheduler, whenever the pumps it
  ran have returned (a pump that never returns is \<open>None\<close>; C22 says when all do), the number in flight
  is the number of unfinished requests and never exceeds the cap, the active streams are exactly
  theirs, and no stream has two requests in flight.
\<close>

theorem books_balance:
  assumes "run_opt (sched_step opt) (sched_new ts) es = Some s"
  shows "s_inFlight s = length (s_requests s) \<and> s_inFlight s \<le> o_maxInFlight opt
    \<and> s_activeStreams s = stream_of ` set (s_requests s) \<and> distinct (map stream_of (s_requests s))"
proof -
  have "sched_ok opt (sched_new ts)" by (simp add: sched_ok_def sched_new_def)
  from sched_machine.run_inv [OF this assms] show ?thesis by (simp add: sched_ok_def)
qed

definition demo_target :: frame_target where
  "demo_target = \<lparr>fr_stream = 3, fr_cameras = None, fr_pulse = None, fr_settle_time = None,
     ft_enabled = None, ft_minIntervalMs = Some 10\<rparr>"

definition demo_opt :: sched_options where
  "demo_opt = sched_conf (Some 2) None (Some 5) None None (\<lambda>_ _. None) None"

lemmas demo_simps = demo_target_def demo_opt_def sched_conf_def sched_new_def sched_step_def
  sched_start_def pump_def pump_run_pass the_default_def nextTarget_def eligible_def eligible_at_def clearTimer_def
  issue_begin_def armTimeout_def armNextTimer_def FRAME_QUEUE_CAPACITY_def frame_request.truncate_def
  finish_def pending_def finish_request_def retryLater_def notes_of_def

theorem books_balance_witness:
  "\<exists>s. run_opt (sched_step demo_opt) (sched_new [demo_target]) [(1, Start)] = Some s
     \<and> s_inFlight s = 1 \<and> s_activeStreams s = stream_of ` set (s_requests s)"
proof -
  obtain s where s: "run_opt (sched_step demo_opt) (sched_new [demo_target]) [(1, Start)] = Some s"
    "s_inFlight s = 1"
    by (simp add: demo_simps Let_def numeral_2_eq_2)
  with books_balance [OF s(1)] show ?thesis by blast
qed

text \<open>
  C22. A burst ends: when a failed target has to wait (a positive retry delay or minimum interval), or
  the requester never throws, every pump returns, and it
  makes no target more eligible than it was.
\<close>

theorem bursts_end:
  assumes "list_all (retry_wait opt) (s_targets s) \<or> (\<forall>i r. o_throws opt i r = None)"
  shows "\<exists>s'. pump opt s = Some s' \<and> (\<forall>t. eligible s' t \<longrightarrow> eligible s t)"
  using pump_total [of opt s] assms by (auto simp: retries_wait_def shrinks_def)

theorem bursts_end_witness:
  "\<exists>s'. pump (sched_conf None None (Some 5) None None (\<lambda>_ _. Some ''busy'') None) (sched_new [demo_target]) = Some s'"
  using bursts_end [of "sched_conf None None (Some 5) None None (\<lambda>_ _. Some ''busy'') None" "sched_new [demo_target]"]
  by (auto simp: retry_wait_def sched_conf_def the_default_def sched_new_def)

text \<open>
  With the default options a requester that throws at once never lets the pump return: the retry
  delay defaults to the minimum interval, which defaults to zero, so the target is eligible again
  inside the same burst and the pump nests without bound.
\<close>

definition eager_target :: frame_target where
  "eager_target = demo_target\<lparr>ft_minIntervalMs := None\<rparr>"

definition default_throwing :: sched_options where
  "default_throwing = sched_conf None None None None None (\<lambda>_ _. Some ''No controller connected'') None"

definition ready_again :: "scheduler \<Rightarrow> bool" where
  "ready_again s \<longleftrightarrow> s_targets s = [eager_target] \<and> s_running s \<and> s_inFlight s = 0
     \<and> s_activeStreams s = {} \<and> eligible_at s 3 \<le> s_clock s"

lemma ready_again_next:
  assumes "ready_again s"
  shows "nextTarget s = Some (eager_target, s\<lparr>s_cursor := 0\<rparr>)"
  using assms by (simp add: ready_again_def nextTarget_def eligible_def eager_target_def demo_target_def Let_def)

lemma ready_again_nested:
  assumes "ready_again s" and "s2 = issue_begin default_throwing eager_target (s\<lparr>s_cursor := 0\<rparr>)"
  shows "ready_again (finish_request default_throwing (last (s_requests s2)) (FrameReject e) s2)"
  using assms
  by (simp add: ready_again_def finish_request_def retryLater_def issue_begin_def Let_def eager_target_def
      demo_target_def eligible_at_def table_simps the_default_def default_throwing_def sched_conf_def)

lemma ready_again_diverges: "pump_run o' b s = Some s' \<Longrightarrow> o' = default_throwing \<Longrightarrow> \<not> ready_again s"
proof (induction rule: pump_run_induct)
  case (pass f o' b s s')
  show ?case
  proof
    assume r: "ready_again s"
    have throws: "o_throws default_throwing i q = Some ''No controller connected''" for i q
      by (simp add: default_throwing_def sched_conf_def)
    have room: "s_inFlight s < o_maxInFlight default_throwing"
      using r by (simp add: ready_again_def default_throwing_def sched_conf_def)
    have c: "ready_again (clearTimer s)" "s_running s" using r by (simp_all add: ready_again_def clearTimer_def eligible_at_def)
    show False
    proof (cases b)
      case True
      with pass(2,3) room r obtain s3 where "f default_throwing False (finish_request default_throwing
          (last (s_requests (issue_begin default_throwing eager_target (s\<lparr>s_cursor := 0\<rparr>))))
          (FrameReject ''No controller connected'') (issue_begin default_throwing eager_target (s\<lparr>s_cursor := 0\<rparr>))) = Some s3"
        by (auto simp: ready_again_next [OF r] throws Let_def bind_eq_Some_conv)
      from pass(1) [OF this refl] ready_again_nested [OF r refl] show False by blast
    next
      case False
      with pass(2,3) c obtain s1 where "f default_throwing True (clearTimer s) = Some s1" by (auto simp: bind_eq_Some_conv)
      from pass(1) [OF this refl] c show False by blast
    qed
  qed
qed

theorem throwing_requester_never_returns:
  "pump default_throwing ((sched_new [eager_target])\<lparr>s_running := True\<rparr>) = None"
proof (rule ccontr)
  assume "pump default_throwing ((sched_new [eager_target])\<lparr>s_running := True\<rparr>) \<noteq> None"
  then obtain s' where "pump_run default_throwing False ((sched_new [eager_target])\<lparr>s_running := True\<rparr>) = Some s'"
    by (auto simp: pump_def)
  from ready_again_diverges [OF this refl] show False
    by (simp add: ready_again_def sched_new_def eligible_at_def the_default_def)
qed

text \<open>
  No target is stalled: after the pump of a running scheduler either the cap is reached, or no
  target is eligible any more and every enabled target whose stream is idle has a wake-up no later
  than its own time of eligibility.
\<close>

theorem no_target_stalls:
  assumes "s_running s" and "pump opt s = Some s'" and "t \<in> set (s_targets s')"
    and "list_all (retry_wait opt) (s_targets s) \<or> (\<forall>i r. o_throws opt i r = None)"
  shows "o_maxInFlight opt \<le> s_inFlight s' \<or> \<not> eligible s' t \<and> (ft_enabled t \<noteq> Some False \<longrightarrow>
     fr_stream t \<in> s_activeStreams s' \<or> woken s' t)"
  using pump_serves_lemma [OF assms(1-3)] assms(4) by (simp add: retries_wait_def)

theorem no_target_stalls_witness:
  "\<exists>s'. pump demo_opt ((sched_new [demo_target])\<lparr>s_running := True, s_nextEligibleAt := [(3, 7)]\<rparr>) = Some s'
     \<and> woken s' demo_target"
proof -
  let ?s = "(sched_new [demo_target])\<lparr>s_running := True, s_nextEligibleAt := [(3, 7)]\<rparr>"
  obtain s' where s': "pump demo_opt ?s = Some s'" "s_targets s' = [demo_target]"
    "s_inFlight s' = 0" "s_activeStreams s' = {}"
    by (simp add: demo_simps Let_def numeral_2_eq_2)
  have "retry_wait demo_opt demo_target" "o_maxInFlight demo_opt = 2" "ft_enabled demo_target = None"
    by (simp_all add: demo_simps retry_wait_def)
  with no_target_stalls [of ?s demo_opt s' demo_target] s' show ?thesis
    by (simp add: sched_new_def)
qed

text \<open>
  Streams are paced: with the targets left alone, two launches of one stream in a history are
  never closer than the earlier target's minimum interval, whatever finishes, fails or times out in
  between.
\<close>

theorem launches_are_paced:
  assumes "run_opt (sched_step opt) (sched_new ts) es = Some s" and "intervals_ok opt ts"
    and "\<forall>e\<in>set es. \<forall>ts'. snd e \<noteq> SetTargets ts'"
  shows "sorted_wrt gap_kept (launches s)"
proof -
  have "paced opt (sched_new ts)"
    using assms(2) by (simp add: paced_def sched_new_def launches_def List.map_filter_def)
  moreover have "paced opt s0 \<Longrightarrow> run_opt (sched_step opt) s0 es = Some s \<Longrightarrow> paced opt s" for s0
    using assms(3)
  proof (induction es arbitrary: s0)
    case (Cons e es)
    then show ?case using pacing.event_inv [of opt s0 e] by (auto split: option.splits)
  qed simp
  ultimately show ?thesis using assms(1) by (auto simp: paced_def)
qed

theorem launches_are_paced_witness:
  "\<exists>s. run_opt (sched_step demo_opt) (sched_new [demo_target]) [(1, Start), (12, Completed 0)] = Some s
     \<and> launches s = [(3, 1, 11), (3, 12, 22)] \<and> sorted_wrt gap_kept (launches s)"
proof -
  obtain s where s: "run_opt (sched_step demo_opt) (sched_new [demo_target]) [(1, Start), (12, Completed 0)] = Some s"
    "launches s = [(3, 1, 11), (3, 12, 22)]"
    by (simp add: demo_simps Let_def numeral_2_eq_2 launches_def List.map_filter_def table_simps)
  with launches_are_paced [OF s(1)] show ?thesis
    by (auto simp: intervals_ok_def demo_target_def the_default_def)
qed

end
