(* ===== verification/TriggerSync.thy ===== *)
theory TriggerSync
  imports Scheduler
begin

text \<open>
  The decisions of the trigger-sync capture modes (\<open>app/lib/trigger-sync.ts\<close>): the frame request of
  a budget, the engage preconditions, the achieved-rate window, the curated error line, the span
  sampler, the fault detector and the operation chain. The lower-case dot-dot-dot character the code
  appends to a clipped line and the dash of its messages are parameters (HOL strings are bytes); the
  trim of a line removes the ASCII blanks.
\<close>

record budget_input =
  exposureUsL :: "real option"
  exposureUsR :: "real option"
  settleUs :: "real option"
  maxRateHzL :: "real option"
  maxRateHzR :: "real option"

record pair_budget =
  pulseUs :: real
  minIntervalMs :: real
  maxRateHz :: real

definition TRIGGER_FRAME_MARGIN_US :: real where
  "TRIGGER_FRAME_MARGIN_US = 500"

text \<open>A number that is absent, not finite or not positive counts as zero.\<close>

definition pos_or_0 :: "real option \<Rightarrow> real" where
  "pos_or_0 v = (case v of None \<Rightarrow> 0 | Some x \<Rightarrow> if x > 0 then x else 0)"

definition cameraFloorUs :: "real \<Rightarrow> real option \<Rightarrow> real" where
  "cameraFloorUs exposureUs maxRate = max exposureUs
     (if pos_or_0 maxRate > 0 then 10 ^ 6 / pos_or_0 maxRate else 0)"

text \<open>\<open>Math.round\<close> is the floor of the number plus one half.\<close>

definition math_round :: "real \<Rightarrow> int" where
  "math_round x = \<lfloor>x + 1 / 2\<rfloor>"

definition pairTriggerBudget :: "budget_input \<Rightarrow> pair_budget" where
  "pairTriggerBudget input =
     (let exposureUs = max (pos_or_0 (exposureUsL input)) (pos_or_0 (exposureUsR input));
          frameUs = max (cameraFloorUs (pos_or_0 (exposureUsL input)) (maxRateHzL input))
            (cameraFloorUs (pos_or_0 (exposureUsR input)) (maxRateHzR input));
          intervalUs = pos_or_0 (settleUs input) + frameUs + TRIGGER_FRAME_MARGIN_US
      in \<lparr>pulseUs = of_int (math_round exposureUs), minIntervalMs = intervalUs / 1000,
          maxRateHz = 10 ^ 6 / intervalUs\<rparr>)"

definition frameRequestFromBudget :: "pair_budget \<Rightarrow> int \<Rightarrow> real \<Rightarrow> frame_target" where
  "frameRequestFromBudget budget stream settle =
     \<lparr>fr_stream = stream, fr_cameras = Some (CameraNames [''L'', ''R'']),
      fr_pulse = Some (pulseUs budget), fr_settle_time = Some settle,
      ft_enabled = None, ft_minIntervalMs = Some (minIntervalMs budget)\<rparr>"

record preconditions =
  tripleLeased :: bool
  controller_v2 :: "bool option"
  streamId :: "int option"

definition triggerBlockReason :: "preconditions \<Rightarrow> string option" where
  "triggerBlockReason p =
     (if \<not> tripleLeased p then Some ''no camera triple leased''
      else case controller_v2 p of
        None \<Rightarrow> Some ''no controller connected''
      | Some v2 \<Rightarrow>
          if \<not> v2 then Some ''controller firmware is not v2-capable (CMD_FRAME unavailable)''
          else if streamId p = None then Some ''native mirror stream not attached yet''
          else None)"

section \<open>The achieved-rate window\<close>

record rate_window =
  rw_fins :: nat
  rw_startedAt :: "real option"
  rw_lastHz :: "real option"

definition rate_new :: rate_window where
  "rate_new = \<lparr>rw_fins = 0, rw_startedAt = None, rw_lastHz = None\<rparr>"

definition rate_reset :: "real \<Rightarrow> rate_window \<Rightarrow> rate_window" where
  "rate_reset now w = \<lparr>rw_fins = 0, rw_startedAt = Some now, rw_lastHz = None\<rparr>"

definition rate_onFin :: "rate_window \<Rightarrow> rate_window" where
  "rate_onFin w = w\<lparr>rw_fins := rw_fins w + 1\<rparr>"

definition rate_sample :: "real \<Rightarrow> real \<Rightarrow> rate_window \<Rightarrow> real option \<times> rate_window" where
  "rate_sample minWindowMs now w = (case rw_startedAt w of
      None \<Rightarrow> (rw_lastHz w, w\<lparr>rw_startedAt := Some now\<rparr>)
    | Some started \<Rightarrow>
        (let windowMs = now - started
         in if windowMs \<ge> minWindowMs then
              (let hz = real (rw_fins w) * 1000 / windowMs
               in (Some hz, \<lparr>rw_fins = 0, rw_startedAt = Some now, rw_lastHz = Some hz\<rparr>))
            else (rw_lastHz w, w)))"

section \<open>Error lines\<close>

definition blank :: "char \<Rightarrow> bool" where
  "blank c \<longleftrightarrow> of_char c \<in> {9, 10, 11, 12, 13, 32 :: nat}"

definition trim :: "string \<Rightarrow> string" where
  "trim s = rev (dropWhile blank (rev (dropWhile blank s)))"

definition firstErrorLine :: "string \<Rightarrow> string \<Rightarrow> nat \<Rightarrow> string" where
  "firstErrorLine ellipsis message maxLen =
     (let line = trim (takeWhile (\<lambda>c. c \<noteq> CHR 0x0A) message);
          firstLine = (if line = [] then ''unknown error'' else line)
      in if length firstLine > maxLen then take (maxLen - 1) firstLine @ ellipsis else firstLine)"

definition engageFailureReason :: "string \<Rightarrow> string \<Rightarrow> nat \<Rightarrow> string" where
  "engageFailureReason ellipsis message maxLen = ''engage failed: '' @ firstErrorLine ellipsis message maxLen"

definition triggerFaultMessage :: "string \<Rightarrow> string \<Rightarrow> string" where
  "triggerFaultMessage dash reason = ''hardware trigger fault: every frame rejected (\"'' @ reason @ ''\") '' @ dash
     @ '' no camera exposures; check trigger wiring. Restoring free-run.''"

definition triggerFaultBlocked :: "string \<Rightarrow> string \<Rightarrow> string" where
  "triggerFaultBlocked dash reason =
     ''hardware trigger fault (\"'' @ reason @ ''\") '' @ dash @ '' check wiring''"

section \<open>The span sampler\<close>

definition TRIGGER_SPAN_FIRST_N :: nat where
  "TRIGGER_SPAN_FIRST_N = 40"

definition TRIGGER_SPAN_EVERY_K :: nat where
  "TRIGGER_SPAN_EVERY_K = 25"

record span_sampler =
  sp_counts :: "nat table"
  sp_lastReason :: "string table"

definition sampler_new :: span_sampler where
  "sampler_new = \<lparr>sp_counts = [], sp_lastReason = []\<rparr>"

definition sampler_reset :: "span_sampler \<Rightarrow> span_sampler" where
  "sampler_reset s = \<lparr>sp_counts = [], sp_lastReason = []\<rparr>"

definition shouldLog :: "string \<Rightarrow> string option \<Rightarrow> span_sampler \<Rightarrow> bool \<times> span_sampler" where
  "shouldLog kind reason s =
     (let n = the_default 0 (map_of (sp_counts s) kind) + 1;
          distinct = (reason \<noteq> None \<and> map_of (sp_lastReason s) kind \<noteq> reason)
      in (distinct \<or> n \<le> TRIGGER_SPAN_FIRST_N \<or> n mod TRIGGER_SPAN_EVERY_K = 0,
          s\<lparr>sp_counts := AList.update kind n (sp_counts s),
            sp_lastReason := (case reason of None \<Rightarrow> sp_lastReason s
              | Some r \<Rightarrow> AList.update kind r (sp_lastReason s))\<rparr>))"

section \<open>The fault detector\<close>

definition TRIGGER_FAULT_STREAK :: nat where
  "TRIGGER_FAULT_STREAK = 10"

record fault_detector =
  fd_streak :: nat
  fd_reason :: "string option"
  fd_tripped :: bool

definition detector_new :: fault_detector where
  "detector_new = \<lparr>fd_streak = 0, fd_reason = None, fd_tripped = False\<rparr>"

definition fault_reset :: "fault_detector \<Rightarrow> fault_detector" where
  "fault_reset d = \<lparr>fd_streak = 0, fd_reason = None, fd_tripped = False\<rparr>"

definition fault_onFin :: "fault_detector \<Rightarrow> fault_detector" where
  "fault_onFin d = \<lparr>fd_streak = 0, fd_reason = None, fd_tripped = False\<rparr>"

definition fault_onFailure :: "nat \<Rightarrow> string \<Rightarrow> fault_detector \<Rightarrow> string option \<times> fault_detector" where
  "fault_onFailure threshold reason d =
     (let d1 = (if Some reason \<noteq> fd_reason d
            then \<lparr>fd_streak = 1, fd_reason = Some reason, fd_tripped = False\<rparr>
            else d\<lparr>fd_streak := fd_streak d + 1\<rparr>)
      in if \<not> fd_tripped d1 \<and> fd_streak d1 \<ge> threshold then (Some reason, d1\<lparr>fd_tripped := True\<rparr>)
         else (None, d1))"

datatype fault_event = FinArrived | Failure string | NewEngage

definition fault_step :: "nat \<Rightarrow> fault_detector \<Rightarrow> fault_event \<Rightarrow> fault_detector" where
  "fault_step threshold d e = (case e of
      FinArrived \<Rightarrow> fault_onFin d
    | NewEngage \<Rightarrow> fault_reset d
    | Failure r \<Rightarrow> snd (fault_onFailure threshold r d))"

definition fault_alarm :: "nat \<Rightarrow> fault_detector \<Rightarrow> fault_event \<Rightarrow> string option" where
  "fault_alarm threshold d e = (case e of Failure r \<Rightarrow> fst (fault_onFailure threshold r d) | _ \<Rightarrow> None)"

section \<open>The operation chain\<close>

text \<open>
  Operations in the order they were queued; the head runs, and its outcome lets the next one start.
  The log has a start and an end for each.
\<close>

datatype op_note = Started nat | Ended nat | Reported nat string

record op_chain =
  oc_queue :: "nat list"
  oc_running :: bool
  oc_log :: "op_note list"

definition chain_new :: op_chain where
  "chain_new = \<lparr>oc_queue = [], oc_running = False, oc_log = []\<rparr>"

definition chain_push :: "nat \<Rightarrow> op_chain \<Rightarrow> op_chain" where
  "chain_push op c = c\<lparr>oc_queue := oc_queue c @ [op]\<rparr>"

text \<open>The microtask that calls the next operation.\<close>

definition chain_start :: "op_chain \<Rightarrow> op_chain" where
  "chain_start c = (case oc_queue c of
      [] \<Rightarrow> c
    | op # _ \<Rightarrow> if oc_running c then c else c\<lparr>oc_running := True, oc_log := oc_log c @ [Started op]\<rparr>)"

definition chain_settle :: "string option \<Rightarrow> op_chain \<Rightarrow> op_chain" where
  "chain_settle err c = (case oc_queue c of
      [] \<Rightarrow> c
    | op # rest \<Rightarrow> if \<not> oc_running c then c
        else c\<lparr>oc_queue := rest, oc_running := False,
          oc_log := oc_log c @ [Ended op] @ (case err of None \<Rightarrow> [] | Some e \<Rightarrow> [Reported op e])\<rparr>)"

datatype chain_event = Push nat | StartNext | Settle "string option"

fun chain_step :: "op_chain \<Rightarrow> chain_event \<Rightarrow> op_chain" where
  "chain_step c (Push op) = chain_push op c"
| "chain_step c StartNext = chain_start c"
| "chain_step c (Settle err) = chain_settle err c"

section \<open>Lemmas\<close>

lemma pos_or_0_nonneg: "0 \<le> pos_or_0 v"
  by (simp add: pos_or_0_def split: option.splits)

lemma budget_interval_pos: "0 < minIntervalMs (pairTriggerBudget input)"
  using pos_or_0_nonneg [of "settleUs input"] pos_or_0_nonneg [of "exposureUsL input"]
  by (auto simp: pairTriggerBudget_def Let_def TRIGGER_FRAME_MARGIN_US_def cameraFloorUs_def
      intro!: add_nonneg_pos)

lemma floor_covers_rate: "pos_or_0 r = 0 \<or> 10 ^ 6 / pos_or_0 r \<le> cameraFloorUs e r"
  using pos_or_0_nonneg [of r] by (auto simp: cameraFloorUs_def)

text \<open>A target built from a budget always has to wait, so a scheduler of such targets never spins.\<close>

lemma budget_target_waits: "retry_wait opt (frameRequestFromBudget (pairTriggerBudget input) stream settle)"
  using budget_interval_pos [of input]
  by (simp add: retry_wait_def frameRequestFromBudget_def the_default_def)

lemma firstErrorLine_length:
  "0 < maxLen \<Longrightarrow> length (firstErrorLine ellipsis message maxLen) \<le> max maxLen (maxLen - 1 + length ellipsis)"
  by (auto simp: firstErrorLine_def Let_def)

text \<open>The failures since the last event that broke the streak, newest last.\<close>

fun streak_of :: "fault_event list \<Rightarrow> string list" where
  "streak_of [] = []"
| "streak_of (Failure r # es) = r # streak_of es"
| "streak_of (_ # es) = []"

definition trailing :: "fault_event list \<Rightarrow> nat" where
  "trailing es = (case streak_of (rev es) of [] \<Rightarrow> 0 | r # rs \<Rightarrow> 1 + length (takeWhile (\<lambda>x. x = r) rs))"

definition detector_history :: "nat \<Rightarrow> fault_event list \<Rightarrow> fault_detector \<Rightarrow> bool" where
  "detector_history threshold es d \<longleftrightarrow> fd_streak d = trailing es
     \<and> fd_reason d = (case streak_of (rev es) of [] \<Rightarrow> None | r # _ \<Rightarrow> Some r)
     \<and> fd_tripped d = (threshold \<le> trailing es \<and> 0 < trailing es)"

lemma detector_history_run:
  assumes "0 < threshold"
  shows "detector_history threshold es (run (fault_step threshold) detector_new es)"
proof (induction es rule: rev_induct)
  case Nil
  then show ?case by (simp add: detector_history_def detector_new_def trailing_def)
next
  case (snoc e es)
  define d where "d = run (fault_step threshold) detector_new es"
  have IH: "detector_history threshold es d" using snoc by (simp add: d_def)
  have "detector_history threshold (es @ [e]) (fault_step threshold d e)"
  proof (cases e)
    case (Failure r)
    show ?thesis
    proof (cases "streak_of (rev es)")
      case Nil
      with IH Failure assms show ?thesis
        by (auto simp: detector_history_def trailing_def fault_step_def fault_onFailure_def Let_def)
    next
      case (Cons q qs)
      with IH Failure assms show ?thesis
        by (cases "q = r") (auto simp: detector_history_def trailing_def fault_step_def fault_onFailure_def Let_def)
    qed
  qed (use assms in \<open>simp_all add: detector_history_def trailing_def fault_step_def fault_onFin_def fault_reset_def\<close>)
  then show ?case by (simp add: d_def)
qed

section \<open>The chain never interleaves\<close>

text \<open>Starts and ends strictly alternate, in the order the operations were queued.\<close>

fun alternates :: "nat option \<Rightarrow> op_note list \<Rightarrow> bool" where
  "alternates cur [] = True"
| "alternates None (Started op # ns) = alternates (Some op) ns"
| "alternates (Some op) (Ended op' # ns) = (op = op' \<and> alternates None ns)"
| "alternates None (Reported op e # ns) = alternates None ns"
| "alternates cur (n # ns) = False"

fun open_after :: "nat option \<Rightarrow> op_note list \<Rightarrow> nat option" where
  "open_after cur [] = cur"
| "open_after cur (Started op # ns) = open_after (Some op) ns"
| "open_after cur (Ended op # ns) = open_after None ns"
| "open_after cur (Reported op e # ns) = open_after cur ns"

fun start_of :: "op_note \<Rightarrow> nat list" where
  "start_of (Started op) = [op]"
| "start_of _ = []"

fun push_of :: "chain_event \<Rightarrow> nat list" where
  "push_of (Push op) = [op]"
| "push_of _ = []"

lemma alternates_append:
  "alternates cur (ns @ ms) \<longleftrightarrow> alternates cur ns \<and> alternates (open_after cur ns) ms"
  by (induction cur ns rule: alternates.induct) auto

lemma open_after_append: "open_after cur (ns @ ms) = open_after (open_after cur ns) ms"
proof (induction ns arbitrary: cur)
  case (Cons n ns)
  then show ?case by (cases n) simp_all
qed simp

definition chain_ok :: "nat list \<Rightarrow> op_chain \<Rightarrow> bool" where
  "chain_ok pushed c \<longleftrightarrow> alternates None (oc_log c)
     \<and> open_after None (oc_log c) = (if oc_running c then Some (hd (oc_queue c)) else None)
     \<and> (oc_running c \<longrightarrow> oc_queue c \<noteq> [])
     \<and> pushed = concat (map start_of (oc_log c)) @ (if oc_running c then tl (oc_queue c) else oc_queue c)"

lemma chain_ok_step: "chain_ok pushed c \<Longrightarrow> chain_ok (pushed @ push_of e) (chain_step c e)"
proof (cases e)
  case (Push op)
  then show "chain_ok pushed c \<Longrightarrow> chain_ok (pushed @ push_of e) (chain_step c e)"
    by (auto simp: chain_ok_def chain_push_def)
next
  case StartNext
  then show "chain_ok pushed c \<Longrightarrow> chain_ok (pushed @ push_of e) (chain_step c e)"
    by (cases "oc_queue c") (auto simp: chain_ok_def chain_start_def alternates_append open_after_append)
next
  case (Settle err)
  then show "chain_ok pushed c \<Longrightarrow> chain_ok (pushed @ push_of e) (chain_step c e)"
    by (cases "oc_queue c"; cases err) (auto simp: chain_ok_def chain_settle_def alternates_append open_after_append)
qed

lemma chain_ok_run: "chain_ok (concat (map push_of es)) (run chain_step chain_new es)"
proof (induction es rule: rev_induct)
  case Nil
  then show ?case by (simp add: chain_ok_def chain_new_def)
next
  case (snoc e es)
  then show ?case using chain_ok_step by simp
qed

section \<open>Properties\<close>

text \<open>
  The pair budget covers the hardware: the interval is at least the settle hold plus each
  camera's exposure and reported frame period plus the margin, the pulse is the longer exposure to
  half a microsecond, and the rate is the inverse of the interval.
\<close>

theorem budget_covers_cameras:
  "let b = pairTriggerBudget input; us = minIntervalMs b * 1000 in
     us \<ge> pos_or_0 (settleUs input) + max (pos_or_0 (exposureUsL input)) (pos_or_0 (exposureUsR input)) + TRIGGER_FRAME_MARGIN_US
     \<and> (pos_or_0 (maxRateHzL input) = 0 \<or> us \<ge> pos_or_0 (settleUs input) + 10 ^ 6 / pos_or_0 (maxRateHzL input))
     \<and> (pos_or_0 (maxRateHzR input) = 0 \<or> us \<ge> pos_or_0 (settleUs input) + 10 ^ 6 / pos_or_0 (maxRateHzR input))
     \<and> \<bar>pulseUs b - max (pos_or_0 (exposureUsL input)) (pos_or_0 (exposureUsR input))\<bar> \<le> 1 / 2
     \<and> maxRateHz b * us = 10 ^ 6"
proof -
  define e where "e = max (pos_or_0 (exposureUsL input)) (pos_or_0 (exposureUsR input))"
  define frame where "frame = max (cameraFloorUs (pos_or_0 (exposureUsL input)) (maxRateHzL input))
    (cameraFloorUs (pos_or_0 (exposureUsR input)) (maxRateHzR input))"
  define us where "us = pos_or_0 (settleUs input) + frame + TRIGGER_FRAME_MARGIN_US"
  have b: "pairTriggerBudget input = \<lparr>pulseUs = of_int (math_round e), minIntervalMs = us / 1000, maxRateHz = 10 ^ 6 / us\<rparr>"
    by (simp add: pairTriggerBudget_def Let_def e_def us_def frame_def)
  have round: "\<bar>real_of_int (math_round e) - e\<bar> \<le> 1 / 2" unfolding math_round_def by linarith
  have "e \<le> frame" unfolding e_def frame_def by (rule max.mono) (simp_all add: cameraFloorUs_def)
  moreover have "pos_or_0 (maxRateHzL input) = 0 \<or> 10 ^ 6 / pos_or_0 (maxRateHzL input) \<le> frame"
    "pos_or_0 (maxRateHzR input) = 0 \<or> 10 ^ 6 / pos_or_0 (maxRateHzR input) \<le> frame"
    using floor_covers_rate [of "maxRateHzL input" "pos_or_0 (exposureUsL input)"]
      floor_covers_rate [of "maxRateHzR input" "pos_or_0 (exposureUsR input)"]
    by (auto simp: frame_def)
  ultimately have floors: "e \<le> frame" "pos_or_0 (maxRateHzL input) = 0 \<or> 10 ^ 6 / pos_or_0 (maxRateHzL input) \<le> frame"
    "pos_or_0 (maxRateHzR input) = 0 \<or> 10 ^ 6 / pos_or_0 (maxRateHzR input) \<le> frame" by blast+
  have "0 < us" using budget_interval_pos [of input] by (simp add: b)
  then have rate: "10 ^ 6 / us * us = 10 ^ 6" by simp
  have ms: "us / 1000 * 1000 = us" by simp
  have "pos_or_0 (settleUs input) + e + TRIGGER_FRAME_MARGIN_US \<le> us"
    "pos_or_0 (maxRateHzL input) = 0 \<or> pos_or_0 (settleUs input) + 10 ^ 6 / pos_or_0 (maxRateHzL input) \<le> us"
    "pos_or_0 (maxRateHzR input) = 0 \<or> pos_or_0 (settleUs input) + 10 ^ 6 / pos_or_0 (maxRateHzR input) \<le> us"
    using floors by (auto simp: us_def TRIGGER_FRAME_MARGIN_US_def)
  with round show ?thesis
    unfolding Let_def b e_def [symmetric] pair_budget.simps ms rate by blast
qed

text \<open>
  The fault gate fires exactly on the tenth failure in a row with one reason: in every history
  the alarm for the next failure is raised precisely when the streak it completes has the threshold
  length, so once per streak, and a frame or another reason starts the count again.
\<close>

theorem fault_fires_once_per_streak:
  assumes "0 < threshold"
  shows "fault_alarm threshold (run (fault_step threshold) detector_new es) (Failure r)
    = (if trailing (es @ [Failure r]) = threshold then Some r else None)"
proof -
  define d where "d = run (fault_step threshold) detector_new es"
  have h: "detector_history threshold es d" using detector_history_run [OF assms] by (simp add: d_def)
  show ?thesis
  proof (cases "streak_of (rev es)")
    case Nil
    with h assms show ?thesis
      by (auto simp: detector_history_def trailing_def fault_alarm_def fault_onFailure_def Let_def d_def [symmetric])
  next
    case (Cons q qs)
    with h assms show ?thesis
      by (cases "q = r") (auto simp: detector_history_def trailing_def fault_alarm_def fault_onFailure_def Let_def d_def [symmetric])
  qed
qed

theorem fault_fires_once_per_streak_witness:
  "fault_alarm 2 (run (fault_step 2) detector_new [Failure ''a'', FinArrived, Failure ''a'']) (Failure ''a'') = Some ''a''"
  using fault_fires_once_per_streak [of 2 "[Failure ''a'', FinArrived, Failure ''a'']" "''a''"]
  by (simp add: trailing_def)

text \<open>
  Engage and disengage never interleave: in the log of the chain every start is followed by the
  end of the same operation before the next start, and the operations start in the order they were
  queued, failures included.
\<close>

theorem chain_is_serial:
  "let c = run chain_step chain_new es in alternates None (oc_log c)
     \<and> concat (map push_of es) = concat (map start_of (oc_log c)) @ (if oc_running c then tl (oc_queue c) else oc_queue c)"
  using chain_ok_run [of es] by (simp add: chain_ok_def Let_def)

end
