(* ===== verification/MirrorHistory.thy ===== *)
theory MirrorHistory
  imports Prelude
begin

text \<open>
  The mirror history (\<open>app/orchestrator/mirror-history.ts\<close>): a ring of the newest samples of the
  mirror trajectory with a binary search and linear interpolation. The ring is the array with its
  write index and count; its contents, oldest first, are the abstraction the lemmas speak of, and the
  write is a bounded buffer. Times are the code's bigint nanoseconds, positions reals.
\<close>

record pos =
  pos_x :: real
  pos_y :: real

record mirror_sample =
  hostNs :: int
  left_pos :: pos
  right_pos :: pos

record mirror_at =
  at_left :: pos
  at_right :: pos
  at_ageNs :: int
  at_interpolated :: bool

record mirror_history =
  ring :: "mirror_sample option list"
  ring_head :: nat
  ring_count :: nat

definition lerp :: "real \<Rightarrow> real \<Rightarrow> real \<Rightarrow> real" where
  "lerp a b t = a + (b - a) * t"

definition lerpPos :: "pos \<Rightarrow> pos \<Rightarrow> real \<Rightarrow> pos" where
  "lerpPos a b t = \<lparr>pos_x = lerp (pos_x a) (pos_x b) t, pos_y = lerp (pos_y a) (pos_y b) t\<rparr>"

definition ring_capacity :: "mirror_history \<Rightarrow> nat" where
  "ring_capacity h = length (ring h)"

definition new_history :: "nat \<Rightarrow> mirror_history" where
  "new_history capacity = \<lparr>ring = replicate capacity None, ring_head = 0, ring_count = 0\<rparr>"

definition history_size :: "mirror_history \<Rightarrow> nat" where
  "history_size h = ring_count h"

definition sample_at :: "mirror_history \<Rightarrow> int \<Rightarrow> mirror_sample option" where
  "sample_at h i =
     (if ring_count h = 0 then None
      else let idx = (if i < 0 then int (ring_count h) + i else i)
        in if idx < 0 \<or> idx \<ge> int (ring_count h) then None
           else let cap = ring_capacity h; start = (ring_head h + cap * 2 - ring_count h) mod cap
             in ring h ! ((start + nat idx) mod cap))"

definition ring_write :: "mirror_sample \<Rightarrow> mirror_history \<Rightarrow> mirror_history" where
  "ring_write x h = h\<lparr>ring := (ring h)[ring_head h := Some x],
     ring_head := (ring_head h + 1) mod ring_capacity h,
     ring_count := (if ring_count h < ring_capacity h then ring_count h + 1 else ring_count h)\<rparr>"

definition record_sample :: "mirror_sample \<Rightarrow> mirror_history \<Rightarrow> mirror_history" where
  "record_sample x h = (case sample_at h (- 1) of
      Some newest \<Rightarrow> if hostNs x < hostNs newest then h else ring_write x h
    | None \<Rightarrow> ring_write x h)"

text \<open>The loop that looks for the first sample later than the query.\<close>

function search :: "(nat \<Rightarrow> int) \<Rightarrow> int \<Rightarrow> nat \<Rightarrow> nat \<Rightarrow> nat" where
  "search time q lo hi =
     (if lo < hi then
        (let mid = (lo + hi) div 2
         in if time mid \<le> q then search time q (mid + 1) hi else search time q lo mid)
      else lo)"
  by pat_completeness auto
termination
  by (relation "measure (\<lambda>(_, _, lo, hi). hi - lo)") auto

declare search.simps [simp del]

definition sample_nth :: "mirror_history \<Rightarrow> nat \<Rightarrow> mirror_sample" where
  "sample_nth h i = the (sample_at h (int i))"

definition mirrorAt :: "mirror_history \<Rightarrow> int \<Rightarrow> mirror_at option" where
  "mirrorAt h q =
     (if ring_count h = 0 then None
      else let oldest = sample_nth h 0; newest = the (sample_at h (- 1))
        in if q \<le> hostNs oldest then
             Some \<lparr>at_left = left_pos oldest, at_right = right_pos oldest, at_ageNs = hostNs oldest - q,
               at_interpolated = (q = hostNs oldest)\<rparr>
           else if q \<ge> hostNs newest then
             Some \<lparr>at_left = left_pos newest, at_right = right_pos newest, at_ageNs = q - hostNs newest,
               at_interpolated = (q = hostNs newest)\<rparr>
           else
             let lo = search (\<lambda>i. hostNs (sample_nth h i)) q 0 (ring_count h - 1);
                 after = sample_nth h lo; before = sample_nth h (lo - 1);
                 span = hostNs after - hostNs before;
                 t = (if span = 0 then 0 else real_of_int (q - hostNs before) / real_of_int span)
             in Some \<lparr>at_left = lerpPos (left_pos before) (left_pos after) t,
                  at_right = lerpPos (right_pos before) (right_pos after) t,
                  at_ageNs = (if q - hostNs before < hostNs after - q then q - hostNs before
                    else hostNs after - q),
                  at_interpolated = True\<rparr>)"

definition clear_history :: "mirror_history \<Rightarrow> mirror_history" where
  "clear_history h = h\<lparr>ring_head := 0, ring_count := 0\<rparr>"

section \<open>The ring as a bounded buffer\<close>

definition slot :: "mirror_history \<Rightarrow> nat \<Rightarrow> nat" where
  "slot h i = (ring_head h + (ring_capacity h - ring_count h) + i) mod ring_capacity h"

definition contents :: "mirror_history \<Rightarrow> mirror_sample list" where
  "contents h = map (\<lambda>i. the (ring h ! slot h i)) [0..<ring_count h]"

definition ring_ok :: "nat \<Rightarrow> mirror_history \<Rightarrow> bool" where
  "ring_ok cap h \<longleftrightarrow> 0 < cap \<and> ring_capacity h = cap \<and> ring_head h < cap \<and> ring_count h \<le> cap
     \<and> (\<forall>i<ring_count h. ring h ! slot h i \<noteq> None)"

lemma length_contents [simp]: "length (contents h) = ring_count h"
  by (simp add: contents_def)

lemma sample_at_contents:
  assumes "ring_ok cap h" and "i < ring_count h"
  shows "sample_at h (int i) = Some (contents h ! i)"
proof -
  have "(ring_head h + ring_capacity h * 2 - ring_count h) mod ring_capacity h
      = (ring_head h + (ring_capacity h - ring_count h)) mod ring_capacity h"
  proof -
    obtain k where k: "ring_capacity h = ring_count h + k"
      using assms by (metis le_add_diff_inverse ring_ok_def)
    have "ring_head h + (m + k) * 2 - m = (ring_head h + k) + (m + k)" for m :: nat by simp
    then show ?thesis unfolding k by (simp only: mod_add_self2 add_diff_cancel_left')
  qed
  then have "((ring_head h + ring_capacity h * 2 - ring_count h) mod ring_capacity h + i) mod ring_capacity h
      = slot h i"
    by (simp add: slot_def mod_add_left_eq)
  then show ?thesis
    using assms by (auto simp: sample_at_def Let_def contents_def ring_ok_def)
qed

lemma sample_nth_contents: "ring_ok cap h \<Longrightarrow> i < ring_count h \<Longrightarrow> sample_nth h i = contents h ! i"
  by (simp add: sample_nth_def sample_at_contents)

lemma sample_at_newest:
  assumes "ring_ok cap h" and "0 < ring_count h"
  shows "sample_at h (- 1) = Some (last (contents h))"
proof -
  have "sample_at h (- 1) = sample_at h (int (ring_count h - 1))"
    using assms(2) by (simp add: sample_at_def of_nat_diff)
  also have "\<dots> = Some (contents h ! (ring_count h - 1))"
    using assms by (intro sample_at_contents) auto
  also have "\<dots> = Some (last (contents h))"
    using assms(2) by (subst last_conv_nth) (auto simp flip: length_greater_0_conv)
  finally show ?thesis .
qed

lemma wrap_add: "(a mod m + b) mod m = (a + b) mod (m :: nat)"
  by (simp add: mod_add_left_eq)

lemma wrap_ne: "h < m \<Longrightarrow> 0 < d \<Longrightarrow> d < m \<Longrightarrow> (h + d) mod m \<noteq> (h :: nat)"
  by (cases "h + d < m") (auto simp: not_less le_mod_geq)

lemma slot_write:
  assumes "ring_ok cap h"
  shows "slot (ring_write x h) i =
    (if ring_count h < cap then slot h i else slot h (i + 1))"
proof -
  have cap: "ring_capacity h = cap" "0 < cap" using assms by (auto simp: ring_ok_def)
  have cap': "ring_capacity (ring_write x h) = cap" by (simp add: ring_write_def ring_capacity_def cap [unfolded ring_capacity_def])
  have "slot (ring_write x h) i = (ring_head h + 1 + (cap - ring_count (ring_write x h)) + i) mod cap"
    unfolding slot_def cap' by (simp add: ring_write_def cap wrap_add add.assoc)
  moreover have "ring_count (ring_write x h) = (if ring_count h < cap then ring_count h + 1 else ring_count h)"
    by (simp add: ring_write_def cap)
  moreover have "ring_count h \<le> cap" using assms by (simp add: ring_ok_def)
  ultimately show ?thesis
    by (auto simp: slot_def cap Suc_diff_Suc add.assoc)
qed

lemma slot_not_head:
  assumes "ring_ok cap h" and "i < ring_count h" and "ring_count h < cap \<or> 0 < i"
  shows "slot h i \<noteq> ring_head h"
proof -
  define d where "d = cap - ring_count h + i"
  have "slot h i = (ring_head h + d) mod cap"
    using assms(1) by (simp add: slot_def d_def ring_ok_def add.assoc)
  moreover have "0 < d" "d < cap" "ring_head h < cap"
    using assms by (auto simp: d_def ring_ok_def)
  ultimately show ?thesis using wrap_ne by simp
qed

lemma slot_head:
  assumes "ring_ok cap h"
  shows "slot h (ring_count h) = ring_head h"
  using assms by (simp add: slot_def ring_ok_def add.assoc)

lemma slot_less: "ring_ok cap h \<Longrightarrow> slot h i < cap"
  by (auto simp: slot_def ring_ok_def)

text \<open>Writing appends and then forgets the oldest sample beyond the capacity.\<close>

lemma ring_write_nth:
  assumes ok: "ring_ok cap h" and i: "i < ring_count (ring_write x h)"
  shows "ring (ring_write x h) ! slot (ring_write x h) i
    = Some ((keep_last cap (contents h @ [x])) ! i)"
proof -
  have cap: "ring_capacity h = cap" "ring_count h \<le> cap" "0 < cap" "ring_head h < cap"
    and some: "\<forall>i<ring_count h. ring h ! slot h i \<noteq> None"
    using ok by (auto simp: ring_ok_def)
  have ring: "ring (ring_write x h) = (ring h)[ring_head h := Some x]" by (simp add: ring_write_def)
  have old: "ring (ring_write x h) ! slot h j = Some (contents h ! j)"
    if "j < ring_count h" "ring_count h < cap \<or> 0 < j" for j
    using that some slot_not_head [OF ok that] by (auto simp: ring contents_def)
  have new: "ring (ring_write x h) ! slot h (ring_count h) = Some x"
    using cap slot_head [OF ok] by (simp add: ring ring_capacity_def)
  show ?thesis
  proof (cases "ring_count h < cap")
    case True
    with i cap have "i \<le> ring_count h" by (simp add: ring_write_def)
    moreover have "keep_last cap (contents h @ [x]) = contents h @ [x]"
      using True by (intro keep_last_short) simp
    ultimately show ?thesis
      using True old new by (auto simp: slot_write [OF ok] nth_append le_less)
  next
    case False
    then have full: "ring_count h = cap" using cap by simp
    with i cap have i': "i < cap" by (simp add: ring_write_def)
    have "keep_last cap (contents h @ [x]) ! i = (contents h @ [x]) ! (i + 1)"
      using i' full by (subst keep_last_nth) auto
    then show ?thesis
      using False i' full old [of "i + 1"] new
      by (auto simp: slot_write [OF ok] nth_append) (metis Suc_lessI)
  qed
qed

lemma ring_write_ok: "ring_ok cap h \<Longrightarrow> ring_ok cap (ring_write x h)"
proof -
  assume ok: "ring_ok cap h"
  then have "ring_capacity (ring_write x h) = cap" "ring_head (ring_write x h) < cap"
    "ring_count (ring_write x h) \<le> cap" "0 < cap"
    by (auto simp: ring_ok_def ring_write_def ring_capacity_def)
  then show ?thesis using ring_write_nth [OF ok, of _ x] by (simp add: ring_ok_def)
qed

lemma ring_write_contents:
  assumes "ring_ok cap h"
  shows "contents (ring_write x h) = keep_last cap (contents h @ [x])"
proof (rule nth_equalityI)
  show "length (contents (ring_write x h)) = length (keep_last cap (contents h @ [x]))"
    using assms by (auto simp: ring_ok_def ring_write_def)
next
  fix i
  assume "i < length (contents (ring_write x h))"
  then show "contents (ring_write x h) ! i = keep_last cap (contents h @ [x]) ! i"
    using ring_write_nth [OF assms, of i x] by (simp add: contents_def)
qed

lemma new_history_ok: "0 < cap \<Longrightarrow> ring_ok cap (new_history cap)"
  by (simp add: ring_ok_def new_history_def ring_capacity_def)

text \<open>The capacity of the one history of the program.\<close>

definition MIRROR_CAPACITY :: nat where
  "MIRROR_CAPACITY = 4096"

interpretation mirror_ring: bounded_buffer ring_write contents MIRROR_CAPACITY "ring_ok MIRROR_CAPACITY"
  by unfold_locales
     (simp_all add: MIRROR_CAPACITY_def ring_write_ok ring_write_contents, simp add: ring_ok_def)

section \<open>Recording keeps time order\<close>

text \<open>What recording accepts: a sample earlier than the newest accepted one is dropped.\<close>

fun accept :: "mirror_sample list \<Rightarrow> mirror_sample list \<Rightarrow> mirror_sample list" where
  "accept acc [] = acc"
| "accept acc (x # xs) =
     (if acc \<noteq> [] \<and> hostNs x < hostNs (last acc) then accept acc xs else accept (acc @ [x]) xs)"

abbreviation in_order :: "mirror_sample list \<Rightarrow> bool" where
  "in_order xs \<equiv> sorted (map hostNs xs)"

lemma accept_append: "accept acc (xs @ ys) = accept (accept acc xs) ys"
  by (induction acc xs rule: accept.induct) auto

lemma in_order_snoc: "in_order (xs @ [x]) \<longleftrightarrow> in_order xs \<and> (xs = [] \<or> hostNs (last xs) \<le> hostNs x)"
proof (cases xs rule: rev_cases)
  case (snoc ys y)
  then show ?thesis by (auto simp: sorted_append intro: order_trans)
qed simp

lemma accept_in_order: "in_order acc \<Longrightarrow> in_order (accept acc xs)"
proof (induction acc xs rule: accept.induct)
  case (2 acc x xs)
  then show ?case using in_order_snoc [of acc x] by auto
qed simp

lemma record_sample_contents:
  assumes "ring_ok cap h"
  shows "ring_ok cap (record_sample x h) \<and> contents (record_sample x h) =
    (if contents h \<noteq> [] \<and> hostNs x < hostNs (last (contents h)) then contents h
     else keep_last cap (contents h @ [x]))"
proof (cases "ring_count h = 0")
  case True
  then have "sample_at h (- 1) = None" "contents h = []" by (simp_all add: sample_at_def contents_def)
  then show ?thesis
    using ring_write_ok [OF assms] ring_write_contents [OF assms] by (simp add: record_sample_def)
next
  case False
  then have "contents h \<noteq> []" by (simp add: contents_def)
  then show ?thesis
    using False assms ring_write_ok [OF assms] ring_write_contents [OF assms] sample_at_newest [OF assms]
    by (simp add: record_sample_def)
qed

lemma history_contents:
  assumes "0 < cap"
  shows "let h = fold record_sample xs (new_history cap) in
    ring_ok cap h \<and> contents h = keep_last cap (accept [] xs)"
proof (induction xs rule: rev_induct)
  case Nil
  then show ?case using new_history_ok [OF assms]
    by (simp add: contents_def new_history_def keep_last_def)
next
  case (snoc x xs)
  define h where "h = fold record_sample xs (new_history cap)"
  have IH: "ring_ok cap h" "contents h = keep_last cap (accept [] xs)" using snoc by (simp_all add: h_def Let_def)
  have "contents h = [] \<longleftrightarrow> accept [] xs = []"
    using assms by (cases "accept [] xs") (auto simp: IH(2) keep_last_def)
  moreover have "accept [] xs \<noteq> [] \<Longrightarrow> last (contents h) = last (accept [] xs)"
    using assms by (simp add: IH(2) last_keep_last)
  ultimately have "contents (record_sample x h) = keep_last cap (accept [] (xs @ [x]))"
    using record_sample_contents [OF IH(1), of x] IH(2) assms
    by (auto simp: accept_append keep_last_snoc)
  with record_sample_contents [OF IH(1), of x] show ?case by (simp add: h_def Let_def)
qed

section \<open>The binary search\<close>

lemma search_spec:
  assumes "\<And>i j. i \<le> j \<Longrightarrow> j \<le> hi \<Longrightarrow> time i \<le> time j" and "lo \<le> hi"
    and "\<And>i. i < lo \<Longrightarrow> time i \<le> q" and "q < time hi"
  shows "search time q lo hi \<le> hi \<and> (\<forall>i<search time q lo hi. time i \<le> q) \<and> q < time (search time q lo hi)"
  using assms
proof (induction time q lo hi rule: search.induct)
  case (1 time q lo hi)
  show ?case
  proof (cases "lo < hi")
    case True
    define mid where "mid = (lo + hi) div 2"
    have mid: "lo \<le> mid" "mid < hi" using True by (auto simp: mid_def)
    show ?thesis
    proof (cases "time mid \<le> q")
      case up: True
      have "time i \<le> q" if "i < mid + 1" for i
        using 1(3) [of i mid] that mid up by simp
      with 1(1) [OF True mid_def up] 1(3,6) mid
      have "search time q (mid + 1) hi \<le> hi \<and> (\<forall>i<search time q (mid + 1) hi. time i \<le> q)
          \<and> q < time (search time q (mid + 1) hi)" by simp
      moreover have "search time q lo hi = search time q (mid + 1) hi"
        by (subst search.simps) (simp add: True up mid_def [symmetric] Let_def)
      ultimately show ?thesis by simp
    next
      case down: False
      then have "search time q lo mid \<le> mid \<and> (\<forall>i<search time q lo mid. time i \<le> q)
          \<and> q < time (search time q lo mid)"
        using 1(2) [OF True mid_def down] 1(3,5) mid by simp
      moreover have "search time q lo hi = search time q lo mid"
        by (subst search.simps) (simp add: True down mid_def [symmetric] Let_def)
      ultimately show ?thesis using mid by simp
    qed
  next
    case False
    then have "search time q lo hi = lo" by (subst search.simps) simp
    with False 1(4-6) show ?thesis by simp
  qed
qed

lemma in_order_nth: "in_order xs \<Longrightarrow> i \<le> j \<Longrightarrow> j < length xs \<Longrightarrow> hostNs (xs ! i) \<le> hostNs (xs ! j)"
  using sorted_nth_mono [of "map hostNs xs" i j] by simp

lemma search_history:
  assumes "ring_ok cap h" and "in_order (contents h)" and "contents h = x # xs"
    and "hostNs x < q" and "q < hostNs (last (contents h))"
  defines "lo \<equiv> search (\<lambda>i. hostNs (sample_nth h i)) q 0 (ring_count h - 1)"
  shows "0 < lo \<and> lo < ring_count h \<and> hostNs (contents h ! (lo - 1)) \<le> q \<and> q < hostNs (contents h ! lo)"
proof -
  have n: "ring_count h = length (contents h)" "0 < ring_count h"
    using assms(3) length_contents [of h] by (auto simp del: length_contents)
  have time: "hostNs (sample_nth h i) = hostNs (contents h ! i)" if "i < ring_count h" for i
    using that sample_nth_contents [OF assms(1)] by simp
  have mono: "hostNs (sample_nth h i) \<le> hostNs (sample_nth h j)" if "i \<le> j" "j \<le> ring_count h - 1" for i j
  proof -
    have "i < ring_count h" "j < ring_count h" using that n(2) by linarith+
    then show ?thesis using that(1) n(1) in_order_nth [OF assms(2), of i j] by (simp only: time)
  qed
  have hi: "q < hostNs (sample_nth h (ring_count h - 1))"
  proof -
    have "last (contents h) = contents h ! (ring_count h - 1)"
      using last_conv_nth [of "contents h"] assms(3) by (metis length_contents list.distinct(1))
    with assms(5) n(2) show ?thesis by (simp add: time)
  qed
  have spec: "lo \<le> ring_count h - 1" "\<forall>i<lo. hostNs (sample_nth h i) \<le> q" "q < hostNs (sample_nth h lo)"
    using search_spec [of "ring_count h - 1" "\<lambda>i. hostNs (sample_nth h i)" 0 q] mono hi
    unfolding lo_def by auto
  have "lo \<noteq> 0"
  proof
    assume "lo = 0"
    with spec(3) n(2) assms(3,4) show False by (simp add: time)
  qed
  then have pos: "0 < lo" "lo - 1 < lo" by simp_all
  have lt: "lo < ring_count h" using spec(1) n(2) by linarith
  then have "lo - 1 < ring_count h" by simp
  with pos lt spec(2,3) time [of lo] time [of "lo - 1"] show ?thesis by metis
qed

section \<open>Properties\<close>

text \<open>
  The ring forgets nothing it should keep: after any sequence of records its contents are the
  newest 4096 of the samples that did not go back in time, in order, oldest first.
\<close>

theorem history_keeps_newest:
  "contents (fold record_sample xs (new_history MIRROR_CAPACITY)) = keep_last MIRROR_CAPACITY (accept [] xs)
   \<and> sorted (map hostNs (contents (fold record_sample xs (new_history MIRROR_CAPACITY))))"
proof -
  have "in_order (keep_last MIRROR_CAPACITY (accept [] xs))"
    using accept_in_order [of "[]" xs] by (simp add: keep_last_def drop_map [symmetric] sorted_wrt_drop)
  with history_contents [of MIRROR_CAPACITY xs] show ?thesis
    by (simp add: Let_def MIRROR_CAPACITY_def)
qed

text \<open>
  A query inside the recorded span interpolates between the two samples that bracket it, and its
  age is the distance to the nearest sample of the whole ring.
\<close>

theorem mirror_query_brackets:
  assumes "h = fold record_sample xs (new_history MIRROR_CAPACITY)"
    and "contents h \<noteq> []" and "hostNs (hd (contents h)) < q" and "q < hostNs (last (contents h))"
  shows "\<exists>k w m. mirrorAt h q = Some m \<and> 0 < k \<and> k < length (contents h) \<and> 0 \<le> w \<and> w < 1
    \<and> hostNs (contents h ! (k - 1)) \<le> q \<and> q < hostNs (contents h ! k)
    \<and> at_left m = lerpPos (left_pos (contents h ! (k - 1))) (left_pos (contents h ! k)) w
    \<and> at_right m = lerpPos (right_pos (contents h ! (k - 1))) (right_pos (contents h ! k)) w
    \<and> at_interpolated m \<and> (\<forall>x\<in>set (contents h). at_ageNs m \<le> \<bar>hostNs x - q\<bar>)"
proof -
  have ok: "ring_ok MIRROR_CAPACITY h"
    using history_contents [of MIRROR_CAPACITY xs] by (simp add: assms(1) Let_def MIRROR_CAPACITY_def)
  have "in_order (keep_last MIRROR_CAPACITY (accept [] xs))"
    using accept_in_order [of "[]" xs] by (simp add: keep_last_def drop_map [symmetric] sorted_wrt_drop)
  then have ord: "in_order (contents h)"
    using history_contents [of MIRROR_CAPACITY xs] by (simp add: assms(1) Let_def MIRROR_CAPACITY_def)
  from assms(2) obtain y ys where c: "contents h = y # ys" by (cases "contents h") auto
  define k where "k = search (\<lambda>i. hostNs (sample_nth h i)) q 0 (ring_count h - 1)"
  have "hostNs y < q" using assms(3) c by simp
  from search_history [OF ok ord c this assms(4), folded k_def]
  have k: "0 < k" "k < ring_count h" "hostNs (contents h ! (k - 1)) \<le> q" "q < hostNs (contents h ! k)"
    by blast+
  define b where "b = contents h ! (k - 1)"
  define a where "a = contents h ! k"
  have n: "0 < ring_count h" using k by simp
  have at: "sample_nth h 0 = y" "the (sample_at h (- 1)) = last (contents h)"
    "sample_nth h k = a" "sample_nth h (k - 1) = b"
    using n k sample_nth_contents [OF ok] sample_at_newest [OF ok n] c by (simp_all add: a_def b_def)
  define w where "w = real_of_int (q - hostNs b) / real_of_int (hostNs a - hostNs b)"
  have span: "hostNs b \<le> q" "q < hostNs a" using k by (simp_all add: a_def b_def)
  then have w: "0 \<le> w" "w < 1" by (simp_all add: w_def)
  define m where "m = \<lparr>at_left = lerpPos (left_pos b) (left_pos a) w,
    at_right = lerpPos (right_pos b) (right_pos a) w,
    at_ageNs = (if q - hostNs b < hostNs a - q then q - hostNs b else hostNs a - q), at_interpolated = True\<rparr>"
  have "mirrorAt h q = Some m"
    unfolding mirrorAt_def Let_def k_def [symmetric] at using n assms(3,4) c span
    by (simp add: m_def w_def)
  moreover have "at_ageNs m \<le> \<bar>hostNs x - q\<bar>" if "x \<in> set (contents h)" for x
  proof -
    from that obtain i where i: "i < ring_count h" "x = contents h ! i" by (auto simp: in_set_conv_nth)
    show ?thesis
    proof (cases "i < k")
      case True
      then have "hostNs x \<le> hostNs b" using i k in_order_nth [OF ord, of i "k - 1"] by (simp add: b_def)
      with span show ?thesis by (simp add: m_def)
    next
      case False
      then have "hostNs a \<le> hostNs x" using i in_order_nth [OF ord, of k i] by (simp add: a_def)
      with span show ?thesis by (simp add: m_def)
    qed
  qed
  ultimately show ?thesis
    using k w by (intro exI [of _ k] exI [of _ w] exI [of _ m]) (simp add: m_def a_def b_def)
qed

definition still :: "int \<Rightarrow> mirror_sample" where
  "still t = \<lparr>hostNs = t, left_pos = \<lparr>pos_x = 0, pos_y = 0\<rparr>, right_pos = \<lparr>pos_x = 0, pos_y = 0\<rparr>\<rparr>"

theorem mirror_query_brackets_witness:
  "\<exists>m. mirrorAt (fold record_sample [still 10, still 20] (new_history MIRROR_CAPACITY)) 14 = Some m
     \<and> at_interpolated m"
proof -
  let ?h = "fold record_sample [still 10, still 20] (new_history MIRROR_CAPACITY)"
  have c: "contents ?h = [still 10, still 20]"
    using history_contents [of MIRROR_CAPACITY "[still 10, still 20]"]
    by (simp add: Let_def MIRROR_CAPACITY_def still_def keep_last_def)
  show ?thesis
    using mirror_query_brackets [of ?h "[still 10, still 20]" 14] unfolding c
    by (auto simp: still_def)
qed

end
