(* ===== verification/TimeAlign.thy ===== *)
theory TimeAlign
  imports Prelude "HOL-Library.Signed_Division"
begin

text \<open>
  The unified time base (\<open>app/orchestrator/time-align.ts\<close>): the min-filter offset estimators, the
  calibration registry and the mapping onto host time, the measurement loops over the readings they
  take, the wall-clock label and the sleep detector. Times are the code's bigints; bigint division
  truncates, so it is \<open>sdiv\<close>. The measurements take their readings as lists, one entry per round,
  \<open>None\<close> where the device throws or rejects.
\<close>

datatype clock_id = CameraClock string | ControllerClock

record offset_sample =
  midNs :: int
  rttNs :: int
  subjectNs :: int

datatype cal_method = Latch | Pull | Ping | Manual

record clock_calibration =
  offsetNs :: int
  jitterNs :: int
  cal_samples :: nat
  cal_method :: cal_method
  atNs :: int
  driftPpm :: "real option"

datatype time_error = NoSamples | NotCalibrated clock_id | DeviceFailed | NotANumber

type_synonym 'a or_error = "time_error + 'a"

definition best_sample :: "offset_sample \<Rightarrow> offset_sample list \<Rightarrow> offset_sample" where
  "best_sample s0 ss = foldl (\<lambda>best s. if rttNs s < rttNs best then s else best) s0 ss"

definition sample_offset :: "offset_sample \<Rightarrow> int" where
  "sample_offset s = midNs s - subjectNs s"

text \<open>The sorted candidates' 90th percentile entry.\<close>

definition p90 :: "int list \<Rightarrow> int" where
  "p90 offsets = offsets ! min (length offsets - 1) (length offsets * 9 div 10)"

definition estimateOffsetNs :: "offset_sample list \<Rightarrow> (int \<times> int) or_error" where
  "estimateOffsetNs samples = (case samples of
      [] \<Rightarrow> Inl NoSamples
    | s0 # _ \<Rightarrow>
        (let best = best_sample s0 samples; offsets = sort (map sample_offset samples)
         in Inr (sample_offset best, p90 offsets - hd offsets)))"

definition estimateOffsetOneSidedNs :: "offset_sample list \<Rightarrow> (int \<times> int) or_error" where
  "estimateOffsetOneSidedNs samples = (case samples of
      [] \<Rightarrow> Inl NoSamples
    | _ \<Rightarrow> (let offsets = sort (map sample_offset samples) in Inr (hd offsets, p90 offsets - hd offsets)))"

section \<open>The calibration registry\<close>

type_synonym calibrations = "(clock_id \<times> clock_calibration) list"

definition setCalibration :: "clock_id \<Rightarrow> clock_calibration \<Rightarrow> calibrations \<Rightarrow> calibrations" where
  "setCalibration clock cal cals = (case map_of cals clock of
      Some prev \<Rightarrow>
        if atNs cal > atNs prev \<and> driftPpm cal = None then
          AList.update clock (cal\<lparr>driftPpm := Some
            (real_of_int (offsetNs cal - offsetNs prev) / real_of_int (atNs cal - atNs prev) * 10 ^ 6)\<rparr>) cals
        else AList.update clock cal cals
    | None \<Rightarrow> AList.update clock cal cals)"

definition calibration :: "clock_id \<Rightarrow> calibrations \<Rightarrow> clock_calibration option" where
  "calibration clock cals = map_of cals clock"

definition clearCalibrations :: "calibrations \<Rightarrow> calibrations" where
  "clearCalibrations cals = []"

definition toHostNs :: "clock_id \<Rightarrow> int \<Rightarrow> calibrations \<Rightarrow> int or_error" where
  "toHostNs clock subject cals = (case map_of cals clock of
      None \<Rightarrow> Inl (NotCalibrated clock)
    | Some cal \<Rightarrow> Inr (subject + offsetNs cal))"

record clock_health =
  ch_offsetNs :: int
  ch_jitterNs :: int
  ch_samples :: nat
  ch_method :: cal_method
  ch_ageNs :: int
  ch_driftPpm :: "real option"

definition calibrationsSnapshot :: "int \<Rightarrow> calibrations \<Rightarrow> (clock_id \<times> clock_health) list" where
  "calibrationsSnapshot now cals = map (\<lambda>(i, c). (i,
     \<lparr>ch_offsetNs = offsetNs c, ch_jitterNs = jitterNs c, ch_samples = cal_samples c,
      ch_method = cal_method c, ch_ageNs = now - atNs c, ch_driftPpm = driftPpm c\<rparr>)) cals"

section \<open>Wall labels and sleep\<close>

record boot_anchor =
  hrtimeNs :: int
  epochMs :: int

definition setHostClock :: "int \<Rightarrow> int \<Rightarrow> boot_anchor" where
  "setHostClock steady wall = \<lparr>hrtimeNs = steady, epochMs = wall\<rparr>"

definition hostNsToEpochMs :: "boot_anchor \<Rightarrow> int \<Rightarrow> int" where
  "hostNsToEpochMs anchor host = epochMs anchor + (host - hrtimeNs anchor) sdiv 1000000"

text \<open>The answer and the remembered reading.\<close>

definition sleepDetected :: "int \<Rightarrow> boot_anchor \<Rightarrow> boot_anchor \<Rightarrow> bool \<times> boot_anchor" where
  "sleepDetected threshold now lastCheck =
     (let steadyMs = (hrtimeNs now - hrtimeNs lastCheck) sdiv 1000000;
          wallMs = epochMs now - epochMs lastCheck
      in (wallMs - steadyMs \<ge> threshold, now))"

section \<open>Measurement loops\<close>

text \<open>
  One latch round: the clock before and after the latch command, then the latched value, a number
  that \<open>BigInt(Math.trunc(v))\<close> refuses when it is not finite.
\<close>

datatype latch_round = LatchThrows | LatchRound int int "real option option"

definition trunc :: "real \<Rightarrow> int" where
  "trunc x = (if x \<ge> 0 then \<lfloor>x\<rfloor> else \<lceil>x\<rceil>)"

fun latch_samples :: "latch_round list \<Rightarrow> offset_sample list or_error" where
  "latch_samples [] = Inr []"
| "latch_samples (LatchThrows # rs) = Inl DeviceFailed"
| "latch_samples (LatchRound t0 t1 v # rs) = (case v of
      None \<Rightarrow> Inl DeviceFailed
    | Some None \<Rightarrow> Inl NotANumber
    | Some (Some x) \<Rightarrow> (case latch_samples rs of
        Inl e \<Rightarrow> Inl e
      | Inr ss \<Rightarrow> Inr (\<lparr>midNs = (t0 + t1) sdiv 2, rttNs = t1 - t0, subjectNs = trunc x\<rparr> # ss)))"

definition calibrate :: "(offset_sample list \<Rightarrow> (int \<times> int) or_error) \<Rightarrow> cal_method \<Rightarrow> int
    \<Rightarrow> offset_sample list or_error \<Rightarrow> clock_calibration or_error" where
  "calibrate estimate meth now samples = (case samples of
      Inl e \<Rightarrow> Inl e
    | Inr ss \<Rightarrow> (case estimate ss of
        Inl e \<Rightarrow> Inl e
      | Inr (off, jitter) \<Rightarrow> Inr \<lparr>offsetNs = off, jitterNs = jitter, cal_samples = length ss,
          cal_method = meth, atNs = now, driftPpm = None\<rparr>))"

definition latchCameraOffset :: "latch_round list \<Rightarrow> int \<Rightarrow> clock_calibration or_error" where
  "latchCameraOffset rounds now = calibrate estimateOffsetNs Latch now (latch_samples rounds)"

text \<open>Pulled frames: device timestamp and arrival.\<close>

fun pull_samples :: "(int \<times> int) option list \<Rightarrow> offset_sample list or_error" where
  "pull_samples [] = Inr []"
| "pull_samples (None # fs) = Inl DeviceFailed"
| "pull_samples (Some (device, arrival) # fs) = (case pull_samples fs of
      Inl e \<Rightarrow> Inl e
    | Inr ss \<Rightarrow> Inr (\<lparr>midNs = arrival, rttNs = 0, subjectNs = device\<rparr> # ss))"

definition pullCameraOffset :: "(int \<times> int) option list \<Rightarrow> int \<Rightarrow> clock_calibration or_error" where
  "pullCameraOffset frames now = calibrate estimateOffsetOneSidedNs Pull now (pull_samples frames)"

text \<open>Pings of the controller, which answers in microseconds.\<close>

fun ping_samples :: "(int \<times> int option \<times> int) list \<Rightarrow> offset_sample list or_error" where
  "ping_samples [] = Inr []"
| "ping_samples ((t0, None, t1) # ps) = Inl DeviceFailed"
| "ping_samples ((t0, Some us, t1) # ps) = (case ping_samples ps of
      Inl e \<Rightarrow> Inl e
    | Inr ss \<Rightarrow> Inr (\<lparr>midNs = (t0 + t1) sdiv 2, rttNs = t1 - t0, subjectNs = us * 1000\<rparr> # ss))"

definition pingControllerOffset :: "(int \<times> int option \<times> int) list \<Rightarrow> int \<Rightarrow> clock_calibration or_error" where
  "pingControllerOffset pings now = calibrate estimateOffsetNs Ping now (ping_samples pings)"

section \<open>The estimators\<close>

lemma best_sample_min:
  "best_sample s0 ss \<in> insert s0 (set ss) \<and> (\<forall>s\<in>insert s0 (set ss). rttNs (best_sample s0 ss) \<le> rttNs s)"
proof (induction ss rule: rev_induct)
  case Nil
  then show ?case by (simp add: best_sample_def)
next
  case (snoc s ss)
  then show ?case by (auto simp: best_sample_def)
qed

lemma hd_sort_least: "xs \<noteq> [] \<Longrightarrow> hd (sort xs) \<in> set xs \<and> (\<forall>x\<in>set xs. hd (sort xs) \<le> x)"
proof -
  assume "xs \<noteq> []"
  then have "sort xs \<noteq> []" by (metis length_0_conv length_sort)
  then obtain y ys where s: "sort xs = y # ys" by (cases "sort xs") auto
  then have "set xs = insert y (set ys)" by (metis set_sort list.simps(15))
  moreover have "\<forall>x\<in>set ys. y \<le> x" using sorted_sort [of xs] by (simp add: s)
  ultimately show ?thesis using s by auto
qed

lemma p90_mem: "xs \<noteq> [] \<Longrightarrow> p90 (sort xs) \<in> set xs"
proof -
  assume "xs \<noteq> []"
  then have "min (length xs - 1) (length xs * 9 div 10) < length (sort xs)"
    by (cases xs) auto
  then have "p90 (sort xs) \<in> set (sort xs)" unfolding p90_def by (metis length_sort nth_mem)
  then show ?thesis by simp
qed

lemma one_sided_some:
  "ss \<noteq> [] \<Longrightarrow> estimateOffsetOneSidedNs ss = Inr (hd (sort (map sample_offset ss)),
     p90 (sort (map sample_offset ss)) - hd (sort (map sample_offset ss)))"
  by (cases ss) (simp_all add: estimateOffsetOneSidedNs_def Let_def)

lemma jitter_nonneg: "xs \<noteq> [] \<Longrightarrow> hd (sort xs) \<le> p90 (sort xs)"
  using hd_sort_least p90_mem by blast

lemma midpoint_error:
  assumes "0 \<le> t0" and "t0 \<le> t" and "t \<le> t1"
  shows "2 * \<bar>(t0 + t1) sdiv 2 - t\<bar> \<le> t1 - t0 + (1 :: int)"
proof -
  have "(t0 + t1) sdiv 2 = (t0 + t1) div 2" 
    using assms by (cases "t0 + t1 = 0") (auto simp: signed_divide_int_def sgn_if)
  with assms show ?thesis by (auto simp: abs_if)
qed

section \<open>Properties\<close>

text \<open>
  A measurement with a bracket is honest about a true offset when the subject's clock was read
  inside the bracket: the host time of the reading lies between the two host readings.
\<close>

definition honest_ping :: "int \<Rightarrow> int \<times> int option \<times> int \<Rightarrow> bool" where
  "honest_ping truth r = (case r of (t0, us, t1) \<Rightarrow> 0 \<le> t0 \<and>
     (case us of None \<Rightarrow> False | Some u \<Rightarrow> t0 \<le> u * 1000 + truth \<and> u * 1000 + truth \<le> t1))"

lemma ping_samples_honest:
  "list_all (honest_ping truth) ps \<Longrightarrow> \<exists>ss. ping_samples ps = Inr ss \<and> length ss = length ps
    \<and> map rttNs ss = map (\<lambda>(t0, _, t1). t1 - t0) ps
    \<and> (\<forall>s\<in>set ss. 2 * \<bar>sample_offset s - truth\<bar> \<le> rttNs s + 1)"
proof (induction ps rule: ping_samples.induct)
  case (3 t0 us t1 ps)
  then obtain ss where "ping_samples ps = Inr ss" "length ss = length ps"
    "map rttNs ss = map (\<lambda>(t0, _, t1). t1 - t0) ps"
    "\<forall>s\<in>set ss. 2 * \<bar>sample_offset s - truth\<bar> \<le> rttNs s + 1" by auto
  moreover have "2 * \<bar>(t0 + t1) sdiv 2 - us * 1000 - truth\<bar> \<le> t1 - t0 + 1"
    using midpoint_error [of t0 "us * 1000 + truth" t1] 3(2) by (simp add: honest_ping_def algebra_simps)
  ultimately show ?case by (simp add: sample_offset_def)
qed (simp_all add: honest_ping_def)

text \<open>
  C38. The ping calibration is as good as its best bracket: if every answer was read inside its
  bracket, the estimated offset is off by at most half the smallest round trip (and half a
  nanosecond of rounding), and the jitter is not negative.
\<close>

theorem ping_offset_accuracy:
  assumes "list_all (honest_ping truth) pings" and "pings \<noteq> []"
  shows "\<exists>cal. pingControllerOffset pings now = Inr cal \<and> 0 \<le> jitterNs cal \<and> cal_samples cal = length pings
    \<and> (\<forall>(t0, _, t1)\<in>set pings. 2 * \<bar>offsetNs cal - truth\<bar> \<le> t1 - t0 + 1)"
proof -
  from ping_samples_honest [OF assms(1)] obtain ss where ss: "ping_samples pings = Inr ss"
    "length ss = length pings" "map rttNs ss = map (\<lambda>(t0, _, t1). t1 - t0) pings"
    "\<forall>s\<in>set ss. 2 * \<bar>sample_offset s - truth\<bar> \<le> rttNs s + 1" by blast
  with assms(2) obtain s0 ss' where ss': "ss = s0 # ss'" by (cases ss) auto
  define best where "best = best_sample s0 ss"
  have best: "best \<in> set ss" "\<forall>s\<in>set ss. rttNs best \<le> rttNs s"
    using best_sample_min [of s0 ss] by (auto simp: best_def ss')
  have "2 * \<bar>sample_offset best - truth\<bar> \<le> t1 - t0 + 1" if "(t0, u, t1) \<in> set pings" for t0 u t1
  proof -
    have "t1 - t0 \<in> set (map rttNs ss)" using that by (force simp: ss(3))
    then obtain s where "s \<in> set ss" "rttNs s = t1 - t0" by auto
    with best ss(4) show ?thesis by fastforce
  qed
  then show ?thesis
    using jitter_nonneg [of "map sample_offset ss"] ss ss'
    by (auto simp: pingControllerOffset_def calibrate_def estimateOffsetNs_def Let_def best_def)
qed

theorem ping_offset_accuracy_witness:
  "\<exists>cal. pingControllerOffset [(1000, Some 1, 5000), (6000, Some 5, 6400)] 7000 = Inr cal
     \<and> 2 * \<bar>offsetNs cal - 1200\<bar> \<le> 401"
  using ping_offset_accuracy [of 1200 "[(1000, Some 1, 5000), (6000, Some 5, 6400)]" 7000]
  by (auto simp: honest_ping_def)

text \<open>
  A pulled offset errs on one side only: when no frame arrives before its exposure, the
  estimate is the true offset plus the smallest latency, so it never maps a timestamp too early.
\<close>

theorem pull_offset_one_sided:
  assumes "pullCameraOffset (map (\<lambda>(d, lat). Some (d, d + truth + lat)) fs) now = Inr cal"
  shows "(\<exists>(d, lat)\<in>set fs. offsetNs cal = truth + lat) \<and> (\<forall>(d, lat)\<in>set fs. offsetNs cal \<le> truth + lat)"
proof -
  have samples: "pull_samples (map (\<lambda>(d, lat). Some (d, d + truth + lat)) fs)
      = Inr (map (\<lambda>(d, lat). \<lparr>midNs = d + truth + lat, rttNs = 0, subjectNs = d\<rparr>) fs)"
    by (induction fs) auto
  have offs: "map (sample_offset \<circ> (\<lambda>(d, lat). \<lparr>midNs = d + truth + lat, rttNs = 0, subjectNs = d\<rparr>)) fs
      = map (\<lambda>(d, lat). truth + lat) fs"
    by (auto simp: sample_offset_def)
  from assms have ne: "fs \<noteq> []"
    by (auto simp: pullCameraOffset_def calibrate_def estimateOffsetOneSidedNs_def)
  have off: "offsetNs cal = hd (sort (map (\<lambda>(d, lat). truth + lat) fs))"
    using assms ne by (auto simp: pullCameraOffset_def samples calibrate_def one_sided_some offs)
  from ne hd_sort_least [of "map (\<lambda>(d, lat). truth + lat) fs"] show ?thesis unfolding off by auto
qed

theorem pull_offset_one_sided_witness:
  "\<exists>cal. pullCameraOffset [Some (100, 160), Some (200, 255)] 7 = Inr cal \<and> offsetNs cal \<le> 55"
proof -
  obtain cal where "pullCameraOffset (map (\<lambda>(d, lat). Some (d, d + 50 + lat)) [(100, 10), (200, 5)]) 7 = Inr cal"
    by (simp add: pullCameraOffset_def calibrate_def estimateOffsetOneSidedNs_def Let_def)
  with pull_offset_one_sided [OF this] show ?thesis by auto
qed

text \<open>
  The registry never mixes time bases: a timestamp maps to host time exactly when its clock has
  a calibration, with the offset of the latest one set, whatever other clocks were calibrated since;
  and mapping keeps intervals.
\<close>

theorem host_time_uses_latest:
  "toHostNs clock t (setCalibration clock cal cals) = Inr (t + offsetNs cal)
   \<and> (clock' \<noteq> clock \<longrightarrow> toHostNs clock' t (setCalibration clock cal cals) = toHostNs clock' t cals)
   \<and> toHostNs clock t (clearCalibrations cals) = Inl (NotCalibrated clock)"
  by (auto simp: toHostNs_def setCalibration_def clearCalibrations_def table_simps split: option.splits)

theorem host_time_uses_latest_witness:
  "toHostNs ControllerClock 5 (setCalibration (CameraClock ''a'')
      \<lparr>offsetNs = 3, jitterNs = 0, cal_samples = 1, cal_method = Manual, atNs = 0, driftPpm = None\<rparr> [])
    = Inl (NotCalibrated ControllerClock)"
  using host_time_uses_latest [of "CameraClock ''a''" 5
      "\<lparr>offsetNs = 3, jitterNs = 0, cal_samples = 1, cal_method = Manual, atNs = 0, driftPpm = None\<rparr>" "[]" ControllerClock]
  by (simp add: toHostNs_def)

end
