(* ===== verification/CoalescedWriter.thy ===== *)
theory CoalescedWriter
  imports Prelude "HOL-Library.Sublist"
begin

text \<open>
  The latest-value write coalescer (\<open>app/lib/coalesced-writer.ts\<close>). Its maps keep insertion order,
  a timer is its deadline, and the chain of persists is the queue whose head is running. The device's
  answer to the write in flight and the outcome of the running persist are events. \<open>cw_results\<close> and
  \<open>cw_persisted\<close> record the calls of the hooks.
\<close>

record 'v writer =
  cw_pending :: "'v table"
  cw_inFlight :: "(string \<times> 'v) option"
  cw_disposed :: bool
  cw_persists :: "('v \<times> real) table"
  cw_chain :: "(string \<times> 'v) list"
  cw_results :: "(string \<times> 'v \<times> string option) list"
  cw_persisted :: "(string \<times> 'v \<times> string option) list"

definition new_writer :: "'v writer" where
  "new_writer = \<lparr>cw_pending = [], cw_inFlight = None, cw_disposed = False, cw_persists = [],
     cw_chain = [], cw_results = [], cw_persisted = []\<rparr>"

text \<open>One turn of the pump: the oldest queued key is taken, or the pump ends.\<close>

definition pump_next :: "'v writer \<Rightarrow> 'v writer" where
  "pump_next w = (if cw_disposed w then w\<lparr>cw_inFlight := None\<rparr>
     else case cw_pending w of
        [] \<Rightarrow> w\<lparr>cw_inFlight := None\<rparr>
      | (k, v) # rest \<Rightarrow> w\<lparr>cw_inFlight := Some (k, v), cw_pending := rest\<rparr>)"

definition submit :: "string \<Rightarrow> 'v \<Rightarrow> 'v writer \<Rightarrow> 'v writer" where
  "submit key value w =
     (if cw_disposed w then w
      else let w1 = w\<lparr>cw_pending := AList.update key value (cw_pending w)\<rparr>
        in if cw_inFlight w1 = None then pump_next w1 else w1)"

definition clear_writer :: "'v writer \<Rightarrow> 'v writer" where
  "clear_writer w = w\<lparr>cw_pending := [], cw_persists := []\<rparr>"

definition enqueuePersist :: "string \<Rightarrow> 'v \<Rightarrow> 'v writer \<Rightarrow> 'v writer" where
  "enqueuePersist key value w = w\<lparr>cw_chain := cw_chain w @ [(key, value)]\<rparr>"

definition flushPersist :: "string \<Rightarrow> 'v writer \<Rightarrow> 'v writer" where
  "flushPersist key w = (case map_of (cw_persists w) key of
      None \<Rightarrow> w
    | Some (value, _) \<Rightarrow> enqueuePersist key value (w\<lparr>cw_persists := AList.delete key (cw_persists w)\<rparr>))"

definition dispose :: "'v writer \<Rightarrow> 'v writer" where
  "dispose w = (let w1 = w\<lparr>cw_disposed := True, cw_pending := []\<rparr>
     in fold flushPersist (keys_of (cw_persists w1)) w1)"

definition schedulePersist :: "real \<Rightarrow> real \<Rightarrow> string \<Rightarrow> 'v \<Rightarrow> 'v writer \<Rightarrow> 'v writer" where
  "schedulePersist delay now key value w =
     (if cw_disposed w then
        enqueuePersist key value (w\<lparr>cw_persists := AList.delete key (cw_persists w)\<rparr>)
      else w\<lparr>cw_persists := AList.update key (value, now + delay) (cw_persists w)\<rparr>)"

text \<open>The device settled the write in flight.\<close>

definition write_settles :: "real \<Rightarrow> real \<Rightarrow> string option \<Rightarrow> 'v writer \<Rightarrow> 'v writer" where
  "write_settles delay now err w = (case cw_inFlight w of
      None \<Rightarrow> w
    | Some (key, value) \<Rightarrow>
        (let w1 = (if err = None then schedulePersist delay now key value w else w)
         in pump_next (w1\<lparr>cw_results := cw_results w1 @ [(key, value, err)]\<rparr>)))"

definition persist_settles :: "string option \<Rightarrow> 'v writer \<Rightarrow> 'v writer" where
  "persist_settles err w = (case cw_chain w of
      [] \<Rightarrow> w
    | (key, value) # rest \<Rightarrow> w\<lparr>cw_chain := rest, cw_persisted := cw_persisted w @ [(key, value, err)]\<rparr>)"

definition persist_timer :: "real \<Rightarrow> string \<Rightarrow> 'v writer \<Rightarrow> 'v writer" where
  "persist_timer now key w = (case map_of (cw_persists w) key of
      None \<Rightarrow> w
    | Some (_, d) \<Rightarrow> if d \<le> now then flushPersist key w else w)"

datatype 'v writer_event = Submit string 'v | ClearAll | DisposeAll | WriteSettles real "string option"
  | PersistSettles "string option" | PersistTimer real string

fun writer_step :: "real \<Rightarrow> 'v writer \<Rightarrow> 'v writer_event \<Rightarrow> 'v writer" where
  "writer_step delay w (Submit k v) = submit k v w"
| "writer_step delay w ClearAll = clear_writer w"
| "writer_step delay w DisposeAll = dispose w"
| "writer_step delay w (WriteSettles now err) = write_settles delay now err w"
| "writer_step delay w (PersistSettles err) = persist_settles err w"
| "writer_step delay w (PersistTimer now k) = persist_timer now k w"

lemmas writer_defs = submit_def clear_writer_def enqueuePersist_def flushPersist_def
  schedulePersist_def write_settles_def persist_settles_def persist_timer_def pump_next_def Let_def

section \<open>Histories of one key\<close>

definition values_of :: "string \<Rightarrow> (string \<times> 'v) list \<Rightarrow> 'v list" where
  "values_of k ps = map snd (filter (\<lambda>p. fst p = k) ps)"

lemma values_of_append [simp]: "values_of k (ps @ qs) = values_of k ps @ values_of k qs"
  and values_of_Nil [simp]: "values_of k [] = []"
  and values_of_Cons [simp]: "values_of k ((j, v) # ps) = (if j = k then [v] else []) @ values_of k ps"
  by (simp_all add: values_of_def)

fun submission :: "'v writer_event \<Rightarrow> (string \<times> 'v) list" where
  "submission (Submit k v) = [(k, v)]"
| "submission _ = []"

definition submitted :: "'v writer_event list \<Rightarrow> (string \<times> 'v) list" where
  "submitted es = concat (map submission es)"

definition flow :: "'v writer_event \<Rightarrow> bool" where
  "flow e \<longleftrightarrow> e \<noteq> ClearAll \<and> e \<noteq> DisposeAll"

definition tried :: "'v writer \<Rightarrow> (string \<times> 'v) list" where
  "tried w = map (\<lambda>(k, v, _). (k, v)) (cw_results w)"

definition accepted :: "'v writer \<Rightarrow> (string \<times> 'v) list" where
  "accepted w = map (\<lambda>(k, v, _). (k, v)) (filter (\<lambda>(_, _, e). e = None) (cw_results w))"

definition stored :: "'v writer \<Rightarrow> (string \<times> 'v) list" where
  "stored w = map (\<lambda>(k, v, _). (k, v)) (cw_persisted w)"

text \<open>The values of a key on their way to the device: tried, in flight, queued.\<close>

definition device_line :: "'v writer \<Rightarrow> string \<Rightarrow> 'v list" where
  "device_line w k = values_of k (tried w) @ values_of k (case cw_inFlight w of None \<Rightarrow> [] | Some p \<Rightarrow> [p])
     @ (case map_of (cw_pending w) k of None \<Rightarrow> [] | Some v \<Rightarrow> [v])"

text \<open>The accepted values of a key on their way to the store.\<close>

definition store_line :: "'v writer \<Rightarrow> string \<Rightarrow> 'v list" where
  "store_line w k = values_of k (stored w) @ values_of k (cw_chain w)
     @ (case map_of (cw_persists w) k of None \<Rightarrow> [] | Some (v, _) \<Rightarrow> [v])"

definition writer_ok :: "'v writer \<Rightarrow> bool" where
  "writer_ok w \<longleftrightarrow> distinct (keys_of (cw_pending w)) \<and> distinct (keys_of (cw_persists w))
     \<and> (cw_inFlight w = None \<longrightarrow> cw_pending w = [])"

text \<open>Nothing of the line is newer than the history it follows, and the newest entries agree.\<close>

definition tracks :: "'v list \<Rightarrow> 'v list \<Rightarrow> bool" where
  "tracks line history \<longleftrightarrow> subseq line history \<and> (history \<noteq> [] \<longrightarrow> line \<noteq> [] \<and> last line = last history)"

lemma tracks_refl [simp]: "tracks xs xs"
  by (simp add: tracks_def)

lemma tracks_snoc: "tracks line history \<Longrightarrow> tracks (line @ [v]) (history @ [v])"
  by (auto simp: tracks_def intro: subseq_append')

lemma tracks_add: "subseq line history \<Longrightarrow> tracks (line @ [v]) (history @ [v])"
  by (auto simp: tracks_def intro: subseq_append')

lemma tracks_newer: "subseq (line @ [u]) history \<Longrightarrow> tracks (line @ [v]) (history @ [v])"
  by (rule tracks_add) (blast intro: subseq_order.trans list_emb_append_mono)

lemma tracks_replace: "tracks (line @ [u]) history \<Longrightarrow> tracks (line @ [v]) (history @ [v])"
  unfolding tracks_def
  by (auto intro: list_emb_append_mono subseq_append' subseq_order.trans [of line "line @ [u]"])

lemma new_writer_ok: "writer_ok new_writer"
  by (simp add: writer_ok_def new_writer_def keys_of_def)

lemma pump_next_ok: "distinct (keys_of (cw_pending w)) \<Longrightarrow> distinct (keys_of (cw_persists w)) \<Longrightarrow>
    cw_disposed w \<longrightarrow> cw_pending w = [] \<Longrightarrow> writer_ok (pump_next w)"
  by (auto simp: pump_next_def writer_ok_def keys_of_def split: list.splits)

text \<open>In a history without clear or dispose the writer is never disposed.\<close>

definition flowing :: "'v writer \<Rightarrow> bool" where
  "flowing w \<longleftrightarrow> writer_ok w \<and> \<not> cw_disposed w"

lemma pump_next_disposed [simp]: "cw_disposed (pump_next w) = cw_disposed w"
  by (simp add: pump_next_def split: list.splits)

lemma flowing_step: "flowing w \<Longrightarrow> flow e \<Longrightarrow> flowing (writer_step delay w e)"
proof (cases e)
  case (Submit k v)
  then show "flowing w \<Longrightarrow> flow e \<Longrightarrow> flowing (writer_step delay w e)"
    by (auto simp: flowing_def submit_def Let_def intro!: pump_next_ok)
      (auto simp: writer_ok_def keys_of_def distinct_update)
next
  case (WriteSettles now err)
  then show "flowing w \<Longrightarrow> flow e \<Longrightarrow> flowing (writer_step delay w e)"
    by (auto simp: flowing_def write_settles_def schedulePersist_def Let_def
        intro!: pump_next_ok split: option.splits)
      (auto simp: writer_ok_def keys_of_def distinct_update)
qed (auto simp: flow_def flowing_def writer_ok_def persist_settles_def persist_timer_def flushPersist_def
    enqueuePersist_def split: option.splits list.splits)

lemma pump_next_lines:
  assumes "distinct (keys_of (cw_pending w))" and "\<not> cw_disposed w" and "cw_inFlight w = None"
  shows "device_line (pump_next w) k = device_line w k" and "store_line (pump_next w) k = store_line w k"
    and "accepted (pump_next w) = accepted w"
  using assms
  by (auto simp: pump_next_def device_line_def store_line_def tried_def stored_def accepted_def keys_of_def
      map_of_eq_None_iff rev_image_eqI dest: map_of_SomeD split: list.splits option.splits)

lemma device_submit:
  assumes "flowing w" and "subseq (device_line w k) hist"
  shows "tracks (device_line (submit k v w) k) (hist @ [v])" and "j \<noteq> k \<Longrightarrow> device_line (submit k v w) j = device_line w j"
    and "store_line (submit k v w) j = store_line w j" and "accepted (submit k v w) = accepted w"
proof -
  define w1 where "w1 = w\<lparr>cw_pending := AList.update k v (cw_pending w)\<rparr>"
  have ok: "distinct (keys_of (cw_pending w1))" "\<not> cw_disposed w1"
    using assms(1) by (simp_all add: w1_def flowing_def writer_ok_def)
  have sub: "submit k v w = (if cw_inFlight w1 = None then pump_next w1 else w1)"
    using assms(1) by (simp add: submit_def w1_def Let_def flowing_def)
  define front where "front = values_of k (tried w) @ values_of k (case cw_inFlight w of None \<Rightarrow> [] | Some p \<Rightarrow> [p])"
  have line1: "device_line w1 k = front @ [v]"
    by (simp add: device_line_def w1_def front_def tried_def table_simps)
  have line: "device_line (submit k v w) i = device_line w1 i" "store_line (submit k v w) i = store_line w1 i"
    "accepted (submit k v w) = accepted w1" for i
    using pump_next_lines [OF ok] by (auto simp: sub)
  have "tracks (front @ [v]) (hist @ [v])"
  proof (cases "map_of (cw_pending w) k")
    case None
    then have "device_line w k = front" by (simp add: device_line_def front_def)
    with assms(2) show ?thesis by (simp add: tracks_add)
  next
    case (Some u)
    then have "device_line w k = front @ [u]" by (simp add: device_line_def front_def)
    with assms(2) show ?thesis using tracks_newer by metis
  qed
  then show "tracks (device_line (submit k v w) k) (hist @ [v])" by (simp add: line line1)
  show "j \<noteq> k \<Longrightarrow> device_line (submit k v w) j = device_line w j"
    by (simp add: line) (simp add: device_line_def w1_def tried_def table_simps)
  show "store_line (submit k v w) j = store_line w j" "accepted (submit k v w) = accepted w"
    by (simp_all add: line) (simp_all add: store_line_def accepted_def w1_def stored_def)
qed

lemma pump_next_flight: "pump_next (w\<lparr>cw_inFlight := None\<rparr>) = pump_next w"
  by (cases w) (simp add: pump_next_def split: list.splits)

lemma write_settles_shape:
  assumes "cw_inFlight w = Some p"
    and "w1 = (if err = None then schedulePersist delay now (fst p) (snd p) w else w)"
  shows "write_settles delay now err w
    = pump_next (w1\<lparr>cw_results := cw_results w1 @ [(fst p, snd p, err)], cw_inFlight := None\<rparr>)"
  unfolding pump_next_flight using assms by (cases p) (simp add: write_settles_def Let_def)

lemma write_settles_lines:
  assumes "flowing w"
  shows "device_line (write_settles delay now err w) k = device_line w k"
    and "tracks (store_line w k) (values_of k (accepted w)) \<Longrightarrow>
      tracks (store_line (write_settles delay now err w) k) (values_of k (accepted (write_settles delay now err w)))"
proof -
  show "device_line (write_settles delay now err w) k = device_line w k"
  proof (cases "cw_inFlight w")
    case (Some p)
    define w1 where "w1 = (if err = None then schedulePersist delay now (fst p) (snd p) w else w)"
    define w2 where "w2 = w1\<lparr>cw_results := cw_results w1 @ [(fst p, snd p, err)], cw_inFlight := None\<rparr>"
    have "write_settles delay now err w = pump_next w2"
      unfolding w2_def by (rule write_settles_shape [OF Some w1_def])
    moreover have "distinct (keys_of (cw_pending w2))" "\<not> cw_disposed w2" "cw_inFlight w2 = None"
      using assms by (auto simp: w2_def w1_def schedulePersist_def flowing_def writer_ok_def)
    moreover have "device_line w2 k = device_line w k"
      using assms Some by (cases p) (auto simp: device_line_def w2_def w1_def tried_def schedulePersist_def flowing_def)
    ultimately show ?thesis using pump_next_lines(1) [of w2 k] by simp
  qed (simp add: write_settles_def)
next
  assume IH: "tracks (store_line w k) (values_of k (accepted w))"
  show "tracks (store_line (write_settles delay now err w) k) (values_of k (accepted (write_settles delay now err w)))"
  proof (cases "cw_inFlight w")
    case (Some p)
    define w1 where "w1 = (if err = None then schedulePersist delay now (fst p) (snd p) w else w)"
    define w2 where "w2 = w1\<lparr>cw_results := cw_results w1 @ [(fst p, snd p, err)], cw_inFlight := None\<rparr>"
    have step: "write_settles delay now err w = pump_next w2"
      unfolding w2_def by (rule write_settles_shape [OF Some w1_def])
    have ok: "distinct (keys_of (cw_pending w2))" "\<not> cw_disposed w2" "cw_inFlight w2 = None"
      using assms by (auto simp: w2_def w1_def schedulePersist_def flowing_def writer_ok_def)
    have "tracks (store_line w2 k) (values_of k (accepted w2))"
    proof (cases "err = None \<and> fst p = k")
      case True
      define front where "front = values_of k (stored w) @ values_of k (cw_chain w)"
      have "store_line w2 k = front @ [snd p]" "values_of k (accepted w2) = values_of k (accepted w) @ [snd p]"
        using True assms by (auto simp: store_line_def front_def w2_def w1_def schedulePersist_def flowing_def
            table_simps stored_def accepted_def)
      moreover have "tracks (front @ [snd p]) (values_of k (accepted w) @ [snd p])"
      proof (cases "map_of (cw_persists w) k")
        case None
        then have "store_line w k = front" by (simp add: store_line_def front_def)
        with IH show ?thesis by (simp only: tracks_snoc)
      next
        case (Some q)
        then have "store_line w k = front @ [fst q]" by (cases q) (simp add: store_line_def front_def)
        with IH show ?thesis using tracks_replace by metis
      qed
      ultimately show ?thesis by simp
    next
      case False
      then have "store_line w2 k = store_line w k" "values_of k (accepted w2) = values_of k (accepted w)"
        using assms by (cases p, auto simp: store_line_def w2_def w1_def schedulePersist_def flowing_def
            table_simps stored_def accepted_def)+
      with IH show ?thesis by simp
    qed
    then show ?thesis by (simp add: step pump_next_lines [OF ok])
  qed (use IH in \<open>simp add: write_settles_def\<close>)
qed

lemma flush_lines:
  "writer_ok w \<Longrightarrow> device_line (flushPersist j w) k = device_line w k"
  "writer_ok w \<Longrightarrow> store_line (flushPersist j w) k = store_line w k"
  "accepted (flushPersist j w) = accepted w"
  by (auto simp: flushPersist_def enqueuePersist_def device_line_def store_line_def tried_def stored_def
      accepted_def table_simps split: option.splits)

lemma persist_settles_lines:
  "device_line (persist_settles err w) k = device_line w k"
  "store_line (persist_settles err w) k = store_line w k"
  "accepted (persist_settles err w) = accepted w"
  by (auto simp: persist_settles_def device_line_def store_line_def tried_def stored_def accepted_def
      split: list.splits)

lemma submitted_snoc: "submitted (es @ [e]) = submitted es @ submission e"
  by (simp add: submitted_def)

lemma writer_tracks:
  assumes "list_all flow es"
  shows "flowing (run (writer_step delay) new_writer es)
    \<and> tracks (device_line (run (writer_step delay) new_writer es) k) (values_of k (submitted es))
    \<and> tracks (store_line (run (writer_step delay) new_writer es) k)
        (values_of k (accepted (run (writer_step delay) new_writer es)))"
  using assms
proof (induction es rule: rev_induct)
  case Nil
  then show ?case
    using new_writer_ok by (simp add: flowing_def new_writer_def device_line_def store_line_def tried_def
        stored_def accepted_def submitted_def)
next
  case (snoc e es)
  define w where "w = run (writer_step delay) new_writer es"
  have IH: "flowing w" "tracks (device_line w k) (values_of k (submitted es))"
    "tracks (store_line w k) (values_of k (accepted w))" and e: "flow e"
    using snoc by (auto simp: w_def)
  have "flowing (writer_step delay w e)" using IH(1) e by (rule flowing_step)
  moreover have "tracks (device_line (writer_step delay w e) k) (values_of k (submitted (es @ [e])))
    \<and> tracks (store_line (writer_step delay w e) k) (values_of k (accepted (writer_step delay w e)))"
  proof (cases e)
    case (Submit j v)
    show ?thesis
    proof (cases "j = k")
      case True
      with Submit IH device_submit [OF IH(1) IH(2) [unfolded tracks_def, THEN conjunct1]] show ?thesis by (simp add: submitted_snoc)
    next
      case False
      then have "device_line (submit j v w) k = device_line w k"
        by (intro device_submit(2) [OF IH(1) subseq_order.refl]) simp
      moreover have "store_line (submit j v w) k = store_line w k" "accepted (submit j v w) = accepted w"
        by (rule device_submit(3,4) [OF IH(1) subseq_order.refl])+
      ultimately show ?thesis using Submit IH False by (simp add: submitted_snoc)
    qed
  next
    case (WriteSettles now err)
    with IH write_settles_lines [OF IH(1)] show ?thesis by (simp add: submitted_snoc)
  next
    case (PersistSettles err)
    with IH show ?thesis by (simp add: submitted_snoc persist_settles_lines)
  next
    case (PersistTimer now j)
    with IH flush_lines(1,2) [of w j k] flush_lines(3) [of j w] show ?thesis
      by (auto simp: submitted_snoc persist_timer_def flowing_def split: option.splits)
  qed (use e in \<open>simp_all add: flow_def\<close>)
  ultimately show ?case by (simp add: w_def)
qed

section \<open>Histories with clears and a dispose\<close>

definition line_ok :: "'v writer \<Rightarrow> bool" where
  "line_ok w \<longleftrightarrow> writer_ok w \<and> (cw_disposed w \<longrightarrow> cw_pending w = [])"

lemma flush_keeps:
  "cw_pending (flushPersist j w) = cw_pending w" "cw_inFlight (flushPersist j w) = cw_inFlight w"
  "cw_results (flushPersist j w) = cw_results w" "cw_disposed (flushPersist j w) = cw_disposed w"
  "distinct (keys_of (cw_persists w)) \<Longrightarrow> distinct (keys_of (cw_persists (flushPersist j w)))"
  by (auto simp: flushPersist_def enqueuePersist_def keys_of_def distinct_delete split: option.split)

lemma flush_all_keeps:
  "cw_pending (fold flushPersist ks w) = cw_pending w" "cw_inFlight (fold flushPersist ks w) = cw_inFlight w"
  "cw_results (fold flushPersist ks w) = cw_results w" "cw_disposed (fold flushPersist ks w) = cw_disposed w"
  "distinct (keys_of (cw_persists w)) \<Longrightarrow> distinct (keys_of (cw_persists (fold flushPersist ks w)))"
  by (induction ks arbitrary: w) (simp_all add: flush_keeps)

lemma line_ok_step:
  assumes ok: "line_ok w"
  shows "line_ok (writer_step delay w e)"
proof (cases e)
  case DisposeAll
  moreover have "distinct (keys_of [])" by (simp add: keys_of_def)
  ultimately show ?thesis using ok by (simp add: line_ok_def writer_ok_def dispose_def flush_all_keeps Let_def)
next
  case ClearAll
  with ok show ?thesis by (simp add: line_ok_def writer_ok_def clear_writer_def keys_of_def)
next
  case (WriteSettles now err)
  show ?thesis
  proof (cases "cw_disposed w")
    case True
    with ok WriteSettles show ?thesis
      by (auto simp: line_ok_def writer_ok_def write_settles_def schedulePersist_def enqueuePersist_def
          pump_next_def keys_of_def distinct_delete Let_def split: option.splits)
  next
    case False
    with ok WriteSettles flowing_step [of w e delay] show ?thesis
      by (simp add: line_ok_def flowing_def flow_def)
  qed
next
  case (Submit k v)
  with ok flowing_step [of w e delay] show ?thesis
    by (cases "cw_disposed w") (simp_all add: line_ok_def flowing_def flow_def submit_def)
next
  case (PersistTimer now k)
  with ok show ?thesis
    by (auto simp: line_ok_def writer_ok_def persist_timer_def flush_keeps split: option.split)
next
  case (PersistSettles err)
  with ok show ?thesis
    by (auto simp: line_ok_def writer_ok_def persist_settles_def split: list.split)
qed

text \<open>Only a submit puts a value on the way to the device; a clear or a dispose takes the queued one away.\<close>

lemma device_line_step:
  assumes ok: "line_ok w" and e: "\<not> (\<exists>v. e = Submit k v)"
  shows "subseq (device_line (writer_step delay w e) k) (device_line w k)"
    and "flow e \<Longrightarrow> device_line (writer_step delay w e) k = device_line w k"
proof -
  have keep: "device_line (writer_step delay w e) k = device_line w k" if f: "flow e"
  proof (cases "cw_disposed w")
    case True
    have "device_line (write_settles delay now err w) k = device_line w k" for now err
      using True ok by (auto simp: line_ok_def write_settles_def schedulePersist_def enqueuePersist_def
          pump_next_def device_line_def tried_def Let_def split: option.split)
    with True ok f show ?thesis
      by (cases e) (auto simp: flow_def line_ok_def submit_def persist_settles_lines persist_timer_def flush_lines
          split: option.split)
  next
    case False
    then have fl: "flowing w" using ok by (simp add: flowing_def line_ok_def)
    show ?thesis
    proof (cases e)
      case (Submit j v)
      with e have "k \<noteq> j" by blast
      with Submit device_submit(2) [OF fl subseq_order.refl, of k j v] show ?thesis by simp
    next
      case (WriteSettles now err)
      with write_settles_lines(1) [OF fl] show ?thesis by simp
    next
      case (PersistTimer now j)
      with ok show ?thesis by (auto simp: line_ok_def persist_timer_def flush_lines split: option.split)
    qed (use f in \<open>simp_all add: flow_def persist_settles_lines\<close>)
  qed
  then show "flow e \<Longrightarrow> device_line (writer_step delay w e) k = device_line w k" .
  define front where "front = values_of k (tried w) @ values_of k (case cw_inFlight w of None \<Rightarrow> [] | Some p \<Rightarrow> [p])"
  have "device_line w k = front @ (case map_of (cw_pending w) k of None \<Rightarrow> [] | Some v \<Rightarrow> [v])"
    by (simp add: device_line_def front_def)
  moreover have "device_line (clear_writer w) k = front" "device_line (dispose w) k = front"
    by (simp_all add: device_line_def front_def clear_writer_def dispose_def flush_all_keeps tried_def Let_def)
  ultimately have "subseq (device_line (clear_writer w) k) (device_line w k)"
    "subseq (device_line (dispose w) k) (device_line w k)"
    by (simp_all add: list_emb_prefix)
  then show "subseq (device_line (writer_step delay w e) k) (device_line w k)"
    using keep by (cases "flow e") (auto simp: flow_def)
qed

lemma disposed_step: "cw_disposed (writer_step delay w e) = (cw_disposed w \<or> e = DisposeAll)"
  by (cases e) (auto simp: submit_def clear_writer_def dispose_def flush_all_keeps write_settles_def
      schedulePersist_def enqueuePersist_def persist_settles_def persist_timer_def flush_keeps Let_def
      split: option.splits list.splits)

lemma writer_line:
  "line_ok (run (writer_step delay) new_writer es)
   \<and> cw_disposed (run (writer_step delay) new_writer es) = (DisposeAll \<in> set es)
   \<and> subseq (device_line (run (writer_step delay) new_writer es) k) (values_of k (submitted es))"
proof (induction es rule: rev_induct)
  case Nil
  then show ?case
    using new_writer_ok by (simp add: line_ok_def new_writer_def device_line_def tried_def submitted_def)
next
  case (snoc e es)
  define w where "w = run (writer_step delay) new_writer es"
  have IH: "line_ok w" "cw_disposed w = (DisposeAll \<in> set es)" "subseq (device_line w k) (values_of k (submitted es))"
    using snoc by (simp_all add: w_def)
  have "subseq (device_line (writer_step delay w e) k) (values_of k (submitted (es @ [e])))"
  proof (cases "\<exists>v. e = Submit k v")
    case True
    then obtain v where e: "e = Submit k v" by blast
    show ?thesis
    proof (cases "cw_disposed w")
      case True
      with e IH(3) show ?thesis by (simp add: submit_def submitted_snoc list_emb_prefix)
    next
      case False
      then have "flowing w" using IH(1) by (simp add: flowing_def line_ok_def)
      with e device_submit(1) [OF _ IH(3)] show ?thesis by (simp add: submitted_snoc tracks_def)
    qed
  next
    case False
    then have "values_of k (submitted (es @ [e])) = values_of k (submitted es)"
      by (cases e) (auto simp: submitted_snoc)
    with device_line_step(1) [OF IH(1) False] IH(3) show ?thesis
      by (auto intro: subseq_order.trans)
  qed
  with line_ok_step [OF IH(1)] IH(2) show ?case by (auto simp: w_def disposed_step)
qed

text \<open>After its last submit a value stays last in the line, as long as nothing is cleared.\<close>

lemma line_kept:
  assumes "line_ok w" "list_all flow post" "values_of k (submitted post) = []"
  shows "device_line (run (writer_step delay) w post) k = device_line w k"
  using assms
proof (induction post arbitrary: w)
  case (Cons e post)
  have e: "\<not> (\<exists>v. e = Submit k v)" and rest: "values_of k (submitted post) = []"
    using Cons.prems(3) by (auto simp: submitted_def)
  with Cons.IH [OF line_ok_step [OF Cons.prems(1)] _ rest] device_line_step(2) [OF Cons.prems(1) e] Cons.prems(2)
  show ?case by simp
qed simp

section \<open>Properties\<close>

text \<open>
  C31. The final value always lands. In any history, clears and a dispose included, what is tried on the
  device for a key is a subsequence of what was submitted for it, so no older value overtakes a newer
  one; and once the writer is idle, the last value tried for a key is the last value submitted for it,
  unless the writer had been disposed by then or was cleared or disposed since that submit.
\<close>

theorem final_value_lands:
  fixes es delay
  defines "w \<equiv> run (writer_step delay) new_writer es"
  assumes idle: "cw_inFlight w = None"
  shows "subseq (values_of k (tried w)) (values_of k (submitted es))
    \<and> (\<forall>pre v post. es = pre @ Submit k v # post \<and> values_of k (submitted post) = []
          \<and> DisposeAll \<notin> set pre \<and> list_all flow post
        \<longrightarrow> values_of k (tried w) \<noteq> [] \<and> last (values_of k (tried w)) = v)"
proof -
  have "line_ok w" "subseq (device_line w k) (values_of k (submitted es))"
    using writer_line [of delay es k] by (simp_all add: w_def)
  moreover have tried: "values_of k (tried w) = device_line w k"
    using idle \<open>line_ok w\<close> by (simp add: device_line_def line_ok_def writer_ok_def)
  moreover have "device_line w k \<noteq> [] \<and> last (device_line w k) = v"
    if es: "es = pre @ Submit k v # post" and post: "values_of k (submitted post) = []" "list_all flow post"
      and pre: "DisposeAll \<notin> set pre" for pre v post
  proof -
    define u where "u = run (writer_step delay) new_writer pre"
    note u = writer_line [of delay pre k, folded u_def]
    then have fl: "flowing u" using pre by (simp add: flowing_def line_ok_def)
    have "line_ok (submit k v u)" using line_ok_step [of u delay "Submit k v"] u by simp
    then have "device_line w k = device_line (submit k v u) k"
      using line_kept [OF _ post(2,1), of "submit k v u" delay] by (simp add: w_def es u_def)
    with device_submit(1) [OF fl, of k "values_of k (submitted pre)" v] u show ?thesis by (simp add: tracks_def)
  qed
  ultimately show ?thesis by simp
qed

theorem final_value_lands_witness:
  "last (values_of ''k'' (tried (run (writer_step 300) new_writer
      [Submit ''k'' (1::nat), ClearAll, Submit ''k'' 2, Submit ''k'' 3, WriteSettles 5 None, WriteSettles 9 None]))) = 3"
  using final_value_lands [of 300 "[Submit ''k'' (1::nat), ClearAll, Submit ''k'' 2, Submit ''k'' 3,
      WriteSettles 5 None, WriteSettles 9 None]" "''k''", THEN conjunct2, rule_format,
      of "[Submit ''k'' 1, ClearAll, Submit ''k'' 2]" 3 "[WriteSettles 5 None, WriteSettles 9 None]"]
  by (simp add: flow_def writer_defs new_writer_def submitted_def)

text \<open>
  The store follows the device: once no persist is scheduled or queued, the last value persisted
  for a key is the last value the device accepted for it, everything persisted was accepted, and in
  that order, so a refused or superseded value never overwrites a newer accepted one.
\<close>

theorem store_follows_device:
  assumes "list_all flow es" and "w = run (writer_step delay) new_writer es"
    and "cw_persists w = []" and "cw_chain w = []"
  shows "tracks (values_of k (stored w)) (values_of k (accepted w))"
  using writer_tracks [OF assms(1), of delay k] assms(2-4) by (simp add: store_line_def)

theorem store_follows_device_witness:
  "tracks (values_of ''k'' (stored (run (writer_step 300) new_writer
      [Submit ''k'' (1::nat), WriteSettles 5 None, Submit ''k'' 2, WriteSettles 6 (Some ''busy''),
       PersistTimer 305 ''k'', PersistSettles None]))) [1]"
  using store_follows_device [of "[Submit ''k'' (1::nat), WriteSettles 5 None, Submit ''k'' 2,
      WriteSettles 6 (Some ''busy''), PersistTimer 305 ''k'', PersistSettles None]" _ 300 "''k''", OF _ refl]
  by (simp add: flow_def writer_defs new_writer_def accepted_def)

end
