(* ===== verification/ResourceSession.thy ===== *)
theory ResourceSession
  imports Prelude "HOL-Library.Multiset"
begin

text \<open>
  The lifecycle of a resource-scoped session (\<open>app/orchestrator/resource-session.ts\<close>) as a step
  relation. An activation is its asynchronous task together with the scope it creates; a drain is the
  list of cleanups a task still has to run. A step is one synchronous stretch of the code: a call of
  \<open>activate\<close> or \<open>idle\<close>, the continuation of an activation after the awaited drain, a registration on
  a scope, the end of an activation's body (a failing body ends the same way, after reporting), one
  cleanup of a drain (a failing cleanup counts as run). The runtime alternates \<open>activate\<close> and
  \<open>idle\<close>; the flag \<open>rs_active\<close> says which is next.
\<close>

datatype phase = Waiting | Running | Ended | Dropped

record activation =
  ac_gen :: nat
  ac_prev :: "nat option"
  ac_phase :: phase
  ac_cleanups :: "nat list"
  ac_draining :: bool

record session =
  rs_active :: bool
  rs_generation :: nat
  rs_scope :: "nat option"
  rs_lastDrain :: "nat option"
  rs_activations :: "activation list"
  rs_drains :: "nat list list"
  rs_registered :: "nat list"
  rs_released :: "nat list"

definition session_new :: session where
  "session_new = \<lparr>rs_active = False, rs_generation = 0, rs_scope = None, rs_lastDrain = None,
     rs_activations = [], rs_drains = [], rs_registered = [], rs_released = []\<rparr>"

definition cancelled :: "session \<Rightarrow> activation \<Rightarrow> bool" where
  "cancelled s a \<longleftrightarrow> ac_draining a \<or> ac_gen a \<noteq> rs_generation s"

definition drained :: "session \<Rightarrow> nat option \<Rightarrow> bool" where
  "drained s d = (case d of None \<Rightarrow> True | Some i \<Rightarrow> rs_drains s ! i = [])"

definition set_act :: "nat \<Rightarrow> activation \<Rightarrow> session \<Rightarrow> session" where
  "set_act i a s = s\<lparr>rs_activations := (rs_activations s)[i := a]\<rparr>"

text \<open>\<open>Scope.drain\<close>: the first call takes the cleanups, last registered first.\<close>

definition begin_drain :: "nat \<Rightarrow> session \<Rightarrow> session" where
  "begin_drain i s = (let a = rs_activations s ! i
     in if ac_draining a then s\<lparr>rs_drains := rs_drains s @ [[]]\<rparr>
        else (set_act i (a\<lparr>ac_draining := True, ac_cleanups := []\<rparr>) s)
          \<lparr>rs_drains := rs_drains s @ [rev (ac_cleanups a)]\<rparr>)"

definition do_activate :: "session \<Rightarrow> session" where
  "do_activate s = s\<lparr>rs_active := True, rs_generation := rs_generation s + 1,
     rs_activations := rs_activations s @ [\<lparr>ac_gen = rs_generation s + 1, ac_prev = rs_lastDrain s,
       ac_phase = Waiting, ac_cleanups = [], ac_draining = False\<rparr>]\<rparr>"

definition do_start :: "nat \<Rightarrow> session \<Rightarrow> session" where
  "do_start i s = (let a = rs_activations s ! i
     in if ac_gen a \<noteq> rs_generation s then set_act i (a\<lparr>ac_phase := Dropped\<rparr>) s
        else (set_act i (a\<lparr>ac_phase := Running\<rparr>) s)\<lparr>rs_scope := Some i\<rparr>)"

text \<open>A cleanup that comes to a cancelled scope is queued: a drain of its own that nobody waits for.\<close>

definition do_defer :: "nat \<Rightarrow> nat \<Rightarrow> session \<Rightarrow> session" where
  "do_defer i r s = (let a = rs_activations s ! i; s1 = s\<lparr>rs_registered := rs_registered s @ [r]\<rparr>
     in if cancelled s a then s1\<lparr>rs_drains := rs_drains s1 @ [[r]]\<rparr>
        else set_act i (a\<lparr>ac_cleanups := ac_cleanups a @ [r]\<rparr>) s1)"

definition do_finish :: "nat \<Rightarrow> session \<Rightarrow> session" where
  "do_finish i s = (let a = rs_activations s ! i; s1 = set_act i (a\<lparr>ac_phase := Ended\<rparr>) s
     in if cancelled s a then begin_drain i s1 else s1)"

definition do_idle :: "session \<Rightarrow> session" where
  "do_idle s = (let s1 = (case rs_scope s of
           None \<Rightarrow> s\<lparr>rs_drains := rs_drains s @ [[]]\<rparr>
         | Some i \<Rightarrow> begin_drain i s)
     in s1\<lparr>rs_active := False, rs_scope := None, rs_generation := rs_generation s + 1,
          rs_lastDrain := Some (length (rs_drains s))\<rparr>)"

definition do_cleanup :: "nat \<Rightarrow> session \<Rightarrow> session" where
  "do_cleanup d s = (case rs_drains s ! d of
      [] \<Rightarrow> s
    | c # cs \<Rightarrow> s\<lparr>rs_drains := (rs_drains s)[d := cs], rs_released := rs_released s @ [c]\<rparr>)"

inductive session_step :: "session \<Rightarrow> session \<Rightarrow> bool" where
  step_activate: "\<not> rs_active s \<Longrightarrow> session_step s (do_activate s)"
| step_start: "i < length (rs_activations s) \<Longrightarrow> ac_phase (rs_activations s ! i) = Waiting \<Longrightarrow>
    drained s (ac_prev (rs_activations s ! i)) \<Longrightarrow> session_step s (do_start i s)"
| step_defer: "i < length (rs_activations s) \<Longrightarrow> ac_phase (rs_activations s ! i) \<in> {Running, Ended} \<Longrightarrow>
    session_step s (do_defer i r s)"
| step_finish: "i < length (rs_activations s) \<Longrightarrow> ac_phase (rs_activations s ! i) = Running \<Longrightarrow>
    session_step s (do_finish i s)"
| step_idle: "rs_active s \<Longrightarrow> session_step s (do_idle s)"
| step_cleanup: "d < length (rs_drains s) \<Longrightarrow> rs_drains s ! d \<noteq> [] \<Longrightarrow> session_step s (do_cleanup d s)"

inductive reachable :: "session \<Rightarrow> bool" where
  initial: "reachable session_new"
| later: "reachable s \<Longrightarrow> session_step s s' \<Longrightarrow> reachable s'"

inductive_cases session_stepE: "session_step s s'"

lemmas session_ops = do_activate_def do_start_def do_defer_def do_finish_def do_idle_def do_cleanup_def
  begin_drain_def set_act_def cancelled_def Let_def

section \<open>Nothing registered is lost\<close>

definition held :: "session \<Rightarrow> nat multiset" where
  "held s = sum_list (map (\<lambda>a. mset (ac_cleanups a)) (rs_activations s))"

definition draining :: "session \<Rightarrow> nat multiset" where
  "draining s = sum_list (map mset (rs_drains s))"

definition balanced :: "session \<Rightarrow> bool" where
  "balanced s \<longleftrightarrow> mset (rs_registered s) = mset (rs_released s) + draining s + held s"

lemma sum_list_update_mset:
  "i < length xs \<Longrightarrow> sum_list (map f (xs[i := x])) + f (xs ! i) = sum_list (map f xs) + (f x :: 'a multiset)"
  by (induction xs arbitrary: i) (auto split: nat.splits simp: ac_simps)

lemma held_set_act:
  "i < length (rs_activations s) \<Longrightarrow> held (set_act i a s) + mset (ac_cleanups (rs_activations s ! i))
    = held s + mset (ac_cleanups a)"
  using sum_list_update_mset [of i "rs_activations s" "\<lambda>a. mset (ac_cleanups a)" a]
  by (simp add: held_def set_act_def)

lemma held_set_act_same:
  "i < length (rs_activations s) \<Longrightarrow> ac_cleanups a = ac_cleanups (rs_activations s ! i) \<Longrightarrow> held (set_act i a s) = held s"
  using held_set_act [of i s a] by simp

text \<open>What makes an activation's cleanups safe: its scope is the current one, or its body still runs.\<close>

definition act_ok :: "session \<Rightarrow> nat \<Rightarrow> activation \<Rightarrow> bool" where
  "act_ok s i a \<longleftrightarrow> ac_gen a \<le> rs_generation s
     \<and> (ac_phase a \<in> {Waiting, Dropped} \<longrightarrow> ac_cleanups a = [] \<and> \<not> ac_draining a)
     \<and> (ac_draining a \<longrightarrow> ac_cleanups a = [])
     \<and> (ac_phase a \<in> {Running, Ended} \<and> ac_gen a = rs_generation s \<longrightarrow> rs_scope s = Some i)
     \<and> (ac_phase a = Ended \<and> ac_cleanups a \<noteq> [] \<longrightarrow> ac_gen a = rs_generation s)"

definition session_ok :: "session \<Rightarrow> bool" where
  "session_ok s \<longleftrightarrow> balanced s \<and> (\<forall>i<length (rs_activations s). act_ok s i (rs_activations s ! i))
     \<and> (\<not> rs_active s \<longrightarrow> rs_scope s = None \<and> (\<forall>a\<in>set (rs_activations s). ac_gen a < rs_generation s))
     \<and> (case rs_scope s of None \<Rightarrow> True | Some i \<Rightarrow> i < length (rs_activations s)
          \<and> ac_phase (rs_activations s ! i) \<in> {Running, Ended} \<and> ac_gen (rs_activations s ! i) = rs_generation s)
     \<and> distinct (map ac_gen (rs_activations s))"

text \<open>Each operation keeps the balance.\<close>

lemma balanced_begin_drain:
  assumes "i < length (rs_activations s)" and "balanced s"
    and "ac_draining (rs_activations s ! i) \<longrightarrow> ac_cleanups (rs_activations s ! i) = []"
  shows "balanced (begin_drain i s)"
  using assms held_set_act [OF assms(1), of "(rs_activations s ! i)\<lparr>ac_draining := True, ac_cleanups := []\<rparr>"]
  by (auto simp: begin_drain_def Let_def balanced_def draining_def)
     (auto simp: set_act_def held_def ac_simps)

lemma balanced_defer:
  assumes "i < length (rs_activations s)" and "balanced s"
  shows "balanced (do_defer i r s)"
proof (cases "cancelled s (rs_activations s ! i)")
  case True
  with assms show ?thesis by (simp add: do_defer_def Let_def balanced_def draining_def held_def)
next
  case False
  define s1 where "s1 = s\<lparr>rs_registered := rs_registered s @ [r]\<rparr>"
  have "held (set_act i ((rs_activations s ! i)\<lparr>ac_cleanups := ac_cleanups (rs_activations s ! i) @ [r]\<rparr>) s1)
      = held s + {#r#}"
    using held_set_act [of i s1 "(rs_activations s ! i)\<lparr>ac_cleanups := ac_cleanups (rs_activations s ! i) @ [r]\<rparr>"] assms(1)
    by (simp add: s1_def) (simp add: held_def)
  with False assms(2) show ?thesis
    by (simp add: do_defer_def Let_def s1_def [symmetric] balanced_def)
       (simp add: draining_def set_act_def s1_def)
qed

lemma balanced_cleanup:
  assumes "d < length (rs_drains s)" and "rs_drains s ! d = c # cs" and "balanced s"
  shows "balanced (do_cleanup d s)"
proof -
  have "sum_list (map mset ((rs_drains s)[d := cs])) + mset (c # cs) = draining s + mset cs"
    using sum_list_update_mset [OF assms(1), of mset cs] assms(2) by (simp add: draining_def)
  then have "sum_list (map mset ((rs_drains s)[d := cs])) + {#c#} = draining s" by simp
  with assms(2,3) show ?thesis
    by (simp add: do_cleanup_def balanced_def held_def) (simp add: draining_def ac_simps)
qed

lemma sessionD:
  assumes "session_ok s"
  shows "balanced s" and "i < length (rs_activations s) \<Longrightarrow> act_ok s i (rs_activations s ! i)"
    and "\<not> rs_active s \<Longrightarrow> rs_scope s = None"
    and "\<not> rs_active s \<Longrightarrow> a \<in> set (rs_activations s) \<Longrightarrow> ac_gen a < rs_generation s"
    and "rs_scope s = Some j \<Longrightarrow> j < length (rs_activations s) \<and> ac_phase (rs_activations s ! j) \<in> {Running, Ended}
      \<and> ac_gen (rs_activations s ! j) = rs_generation s"
    and "distinct (map ac_gen (rs_activations s))"
  using assms by (auto simp: session_ok_def)

lemma ok_activate: "session_ok s \<Longrightarrow> \<not> rs_active s \<Longrightarrow> session_ok (do_activate s)"
proof -
  assume ok: "session_ok s" and idle: "\<not> rs_active s"
  note D = sessionD [OF ok]
  have none: "rs_scope s = None" using D(3) idle .
  have gens: "ac_gen (rs_activations s ! i) < rs_generation s" if "i < length (rs_activations s)" for i
    using D(4) [OF idle] that by simp
  have "act_ok (do_activate s) i (rs_activations (do_activate s) ! i)"
    if "i < length (rs_activations (do_activate s))" for i
  proof (cases "i < length (rs_activations s)")
    case True
    with D(2) [OF True] gens [OF True] none show ?thesis
      by (auto simp: act_ok_def do_activate_def nth_append)
  next
    case False
    with that show ?thesis by (auto simp: act_ok_def do_activate_def nth_append less_Suc_eq)
  qed
  moreover have "balanced (do_activate s)"
    using D(1) by (simp add: balanced_def do_activate_def held_def draining_def)
  moreover have "distinct (map ac_gen (rs_activations (do_activate s)))"
    using D(4) [OF idle] D(6) by (fastforce simp: do_activate_def)
  ultimately show ?thesis using none by (simp add: session_ok_def) (simp add: do_activate_def)
qed

text \<open>An operation that only changes the \<open>i\<close>-th activation, and the scope at most to it.\<close>

lemma ok_one_activation:
  assumes ok: "session_ok s" and i: "i < length (rs_activations s)"
    and s': "rs_activations s' = (rs_activations s)[i := a]" "rs_generation s' = rs_generation s"
      "rs_active s' = rs_active s" "rs_scope s' = rs_scope s \<or> rs_scope s' = Some i \<and> rs_active s"
    and a: "ac_gen a = ac_gen (rs_activations s ! i)" "act_ok s' i a"
      "rs_scope s' = Some i \<longrightarrow> ac_phase a \<in> {Running, Ended} \<and> ac_gen a = rs_generation s"
    and bal: "balanced s'"
    and only: "rs_scope s' = rs_scope s \<or> (\<forall>j. j < length (rs_activations s) \<and> j \<noteq> i \<longrightarrow>
      ac_gen (rs_activations s ! j) \<noteq> rs_generation s)"
  shows "session_ok s'"
proof -
  note D = sessionD [OF ok]
  have acts: "act_ok s' j (rs_activations s' ! j)" if "j < length (rs_activations s')" for j
  proof (cases "j = i")
    case True
    with i a(2) show ?thesis by (simp add: s'(1))
  next
    case False
    with that have "j < length (rs_activations s)" by (simp add: s'(1))
    from D(2) [OF this] only False this show ?thesis by (auto simp: act_ok_def s'(1,2))
  qed
  have gens: "map ac_gen (rs_activations s') = map ac_gen (rs_activations s)"
    using i a(1) by (simp add: s'(1) map_update list_update_same_conv)
  have old: "ac_gen b < rs_generation s'" if "\<not> rs_active s'" "b \<in> set (rs_activations s')" for b
  proof -
    have "ac_gen b \<in> set (map ac_gen (rs_activations s))" using that(2) by (metis gens image_eqI list.set_map)
    with D(4) that(1) show ?thesis by (auto simp: s'(2,3))
  qed
  have scope: "k < length (rs_activations s') \<and> ac_phase (rs_activations s' ! k) \<in> {Running, Ended}
      \<and> ac_gen (rs_activations s' ! k) = rs_generation s'" if "rs_scope s' = Some k" for k
  proof (cases "k = i")
    case True
    with that a(3) i show ?thesis by (simp add: s'(1,2))
  next
    case False
    with that s'(4) have "rs_scope s = Some k" by auto
    from D(5) [OF this] False show ?thesis by (simp add: s'(1,2))
  qed
  show ?thesis
    unfolding session_ok_def using acts bal old scope gens D(3,6) s'(3,4)
    by (auto split: option.splits)
qed

lemma ok_start:
  assumes ok: "session_ok s" and i: "i < length (rs_activations s)"
    and w: "ac_phase (rs_activations s ! i) = Waiting"
  shows "session_ok (do_start i s)"
proof -
  note D = sessionD [OF ok]
  let ?a = "rs_activations s ! i"
  have a: "act_ok s i ?a" using D(2) [OF i] .
  have bal: "balanced (set_act i (?a\<lparr>ac_phase := p\<rparr>) s)" for p
    using D(1) held_set_act_same [OF i, of "?a\<lparr>ac_phase := p\<rparr>"]
    by (simp add: balanced_def) (simp add: set_act_def draining_def)
  show ?thesis
  proof (cases "ac_gen ?a = rs_generation s")
    case False
    show ?thesis
      by (rule ok_one_activation [OF ok i, of _ "?a\<lparr>ac_phase := Dropped\<rparr>"])
         (use False a w bal D(5) in \<open>auto simp: do_start_def set_act_def act_ok_def Let_def\<close>)
  next
    case True
    have active: "rs_active s" using D(4) [of ?a] i True by force
    have only: "ac_gen (rs_activations s ! j) \<noteq> rs_generation s" if "j < length (rs_activations s)" "j \<noteq> i" for j
      using D(6) that i True by (metis length_map nth_eq_iff_index_eq nth_map)
    have "balanced (do_start i s)"
      using bal [of Running] True by (simp add: do_start_def Let_def balanced_def draining_def held_def)
    then show ?thesis
      by (intro ok_one_activation [OF ok i, of _ "?a\<lparr>ac_phase := Running\<rparr>"])
         (use True a w active only in \<open>auto simp: do_start_def set_act_def act_ok_def Let_def\<close>)
  qed
qed

lemma ok_defer:
  assumes ok: "session_ok s" and i: "i < length (rs_activations s)"
    and p: "ac_phase (rs_activations s ! i) \<in> {Running, Ended}"
  shows "session_ok (do_defer i r s)"
proof -
  note D = sessionD [OF ok]
  let ?a = "rs_activations s ! i"
  have a: "act_ok s i ?a" using D(2) [OF i] .
  have bal: "balanced (do_defer i r s)" by (rule balanced_defer [OF i D(1)])
  show ?thesis
  proof (cases "cancelled s ?a")
    case True
    show ?thesis
      by (rule ok_one_activation [OF ok i, of _ ?a])
         (use True bal a p D(5) in \<open>auto simp: do_defer_def Let_def act_ok_def\<close>)
  next
    case False
    show ?thesis
      by (rule ok_one_activation [OF ok i, of _ "?a\<lparr>ac_cleanups := ac_cleanups ?a @ [r]\<rparr>"])
         (use False bal a p D(5) in \<open>auto simp: do_defer_def Let_def act_ok_def set_act_def cancelled_def\<close>)
  qed
qed

lemma ok_finish:
  assumes ok: "session_ok s" and i: "i < length (rs_activations s)"
    and p: "ac_phase (rs_activations s ! i) = Running"
  shows "session_ok (do_finish i s)"
proof -
  note D = sessionD [OF ok]
  let ?a = "rs_activations s ! i"
  let ?s1 = "set_act i (?a\<lparr>ac_phase := Ended\<rparr>) s"
  have a: "act_ok s i ?a" using D(2) [OF i] .
  have bal: "balanced ?s1"
    using D(1) held_set_act_same [OF i, of "?a\<lparr>ac_phase := Ended\<rparr>"]
    by (simp add: balanced_def) (simp add: set_act_def draining_def)
  show ?thesis
  proof (cases "cancelled s ?a")
    case False
    show ?thesis
      by (rule ok_one_activation [OF ok i, of _ "?a\<lparr>ac_phase := Ended\<rparr>"])
         (use False bal a p D(5) in \<open>auto simp: do_finish_def set_act_def act_ok_def cancelled_def Let_def\<close>)
  next
    case True
    have stale: "ac_gen ?a \<noteq> rs_generation s \<or> ac_draining ?a" using True by (auto simp: cancelled_def)
    have "balanced (begin_drain i ?s1)"
      using i bal a by (intro balanced_begin_drain) (simp_all add: set_act_def act_ok_def)
    note bal2 = this
    show ?thesis
    proof (cases "ac_draining ?a")
      case drained: True
      show ?thesis
        by (rule ok_one_activation [OF ok i, of _ "?a\<lparr>ac_phase := Ended\<rparr>"])
           (use drained bal2 True i a p D(5) in
             \<open>auto simp: do_finish_def begin_drain_def set_act_def act_ok_def cancelled_def Let_def\<close>)
    next
      case False
      show ?thesis
        by (rule ok_one_activation [OF ok i, of _ "?a\<lparr>ac_phase := Ended, ac_draining := True, ac_cleanups := []\<rparr>"])
           (use False bal2 True i a p D(5) in
             \<open>auto simp: do_finish_def begin_drain_def set_act_def act_ok_def cancelled_def Let_def\<close>)
    qed
  qed
qed

lemma ok_idle: "session_ok s \<Longrightarrow> rs_active s \<Longrightarrow> session_ok (do_idle s)"
proof -
  assume ok: "session_ok s"
  note D = sessionD [OF ok]
  define s1 where "s1 = (case rs_scope s of None \<Rightarrow> s\<lparr>rs_drains := rs_drains s @ [[]]\<rparr> | Some i \<Rightarrow> begin_drain i s)"
  have s': "do_idle s = s1\<lparr>rs_active := False, rs_scope := None, rs_generation := rs_generation s + 1,
      rs_lastDrain := Some (length (rs_drains s))\<rparr>"
    by (simp add: do_idle_def s1_def Let_def)
  have bal: "balanced s1"
  proof (cases "rs_scope s")
    case None
    with D(1) show ?thesis by (simp add: s1_def balanced_def draining_def held_def)
  next
    case (Some i)
    then have i: "i < length (rs_activations s)" using D(5) by simp
    then have "balanced (begin_drain i s)"
      using D(1) D(2) [OF i] by (intro balanced_begin_drain) (auto simp: act_ok_def)
    with Some show ?thesis by (simp add: s1_def)
  qed
  have len: "length (rs_activations s1) = length (rs_activations s)"
    by (simp add: s1_def begin_drain_def set_act_def Let_def split: option.splits)
  have act: "ac_gen (rs_activations s1 ! j) = ac_gen (rs_activations s ! j)
      \<and> ac_phase (rs_activations s1 ! j) = ac_phase (rs_activations s ! j)
      \<and> (ac_draining (rs_activations s1 ! j) \<longrightarrow> ac_cleanups (rs_activations s1 ! j) = [])
      \<and> (ac_phase (rs_activations s ! j) \<in> {Waiting, Dropped, Ended} \<longrightarrow> ac_cleanups (rs_activations s1 ! j) = [])
      \<and> (ac_phase (rs_activations s ! j) \<in> {Waiting, Dropped} \<longrightarrow> \<not> ac_draining (rs_activations s1 ! j))"
    if j: "j < length (rs_activations s)" for j
    using D(2) [OF j] D(5) j
    by (cases "rs_scope s") (auto simp: s1_def begin_drain_def set_act_def Let_def act_ok_def nth_list_update)
  have gens: "map ac_gen (rs_activations s1) = map ac_gen (rs_activations s)"
    using act len by (auto intro!: nth_equalityI)
  have old: "ac_gen (rs_activations s ! j) \<le> rs_generation s" if "j < length (rs_activations s)" for j
    using D(2) [OF that] by (simp add: act_ok_def)
  have "balanced (do_idle s)" using bal by (simp add: s' balanced_def draining_def held_def)
  moreover have "act_ok (do_idle s) j (rs_activations (do_idle s) ! j)"
    if "j < length (rs_activations (do_idle s))" for j
    using act [of j] old [of j] that by (auto simp: s' len act_ok_def)
  moreover have "\<forall>a\<in>set (rs_activations (do_idle s)). ac_gen a < rs_generation (do_idle s)"
    using old act len by (fastforce simp: s' in_set_conv_nth less_Suc_eq_le)
  moreover have "distinct (map ac_gen (rs_activations (do_idle s)))" using D(6) gens by (simp add: s')
  ultimately show "session_ok (do_idle s)" unfolding session_ok_def by (simp add: s')
qed

lemma ok_cleanup: "session_ok s \<Longrightarrow> d < length (rs_drains s) \<Longrightarrow> rs_drains s ! d \<noteq> [] \<Longrightarrow> session_ok (do_cleanup d s)"
proof (cases "rs_drains s ! d")
  case (Cons c cs)
  assume ok: "session_ok s" and d: "d < length (rs_drains s)"
  have "balanced (do_cleanup d s)" by (rule balanced_cleanup [OF d Cons sessionD(1) [OF ok]])
  moreover have "act_ok (do_cleanup d s) i a = act_ok s i a" for i a
    by (simp add: act_ok_def do_cleanup_def Cons)
  moreover have "rs_activations (do_cleanup d s) = rs_activations s" "rs_active (do_cleanup d s) = rs_active s"
    "rs_scope (do_cleanup d s) = rs_scope s" "rs_generation (do_cleanup d s) = rs_generation s"
    by (simp_all add: do_cleanup_def Cons)
  ultimately show ?thesis using ok unfolding session_ok_def by (cases "rs_scope s") simp_all
qed simp

lemma step_ok: "session_step s s' \<Longrightarrow> session_ok s \<Longrightarrow> session_ok s'"
  by (erule session_stepE) (auto simp: ok_activate ok_start ok_defer ok_finish ok_idle ok_cleanup)

lemma reachable_ok: "reachable s \<Longrightarrow> session_ok s"
proof (induction rule: reachable.induct)
  case initial
  then show ?case by (simp add: session_ok_def session_new_def balanced_def draining_def held_def)
next
  case (later s s')
  then show ?case using step_ok by blast
qed

section \<open>Properties\<close>

text \<open>
  C27. No cleanup is lost or run twice: in every reachable state, the cleanups registered are exactly
  those already run, those a drain still has to run and those held by a scope; and the held ones
  belong to the current scope or to a body that still runs and will drain them.
\<close>

theorem cleanups_balance:
  assumes "reachable s"
  shows "mset (rs_registered s) = mset (rs_released s) + draining s + held s
    \<and> (\<forall>i<length (rs_activations s). ac_cleanups (rs_activations s ! i) \<noteq> [] \<longrightarrow>
        rs_scope s = Some i \<or> ac_phase (rs_activations s ! i) = Running)"
proof -
  note D = sessionD [OF reachable_ok [OF assms]]
  have "rs_scope s = Some i \<or> ac_phase (rs_activations s ! i) = Running"
    if "i < length (rs_activations s)" "ac_cleanups (rs_activations s ! i) \<noteq> []" for i
    using D(2) [OF that(1)] that(2) by (cases "ac_phase (rs_activations s ! i)") (auto simp: act_ok_def)
  with D(1) show ?thesis by (auto simp: balanced_def)
qed

lemma sum_list_none: "\<forall>x\<in>set xs. f x = {#} \<Longrightarrow> sum_list (map f xs) = {#}"
  by (induction xs) simp_all

text \<open>A history of steps, for the witnesses.\<close>

lemma reach_active: "reachable (do_start 0 (do_activate session_new))"
  by (rule reachable.later [OF _ step_start], rule reachable.later [OF _ step_activate],
      rule reachable.initial) (code_simp+)

definition one_lease :: session where
  "one_lease = do_idle (do_finish 0 (do_defer 0 7 (do_defer 0 3 (do_start 0 (do_activate session_new)))))"

lemma reach_one_lease: "reachable one_lease"
  unfolding one_lease_def
  by (rule reachable.later [OF _ step_idle], rule reachable.later [OF _ step_finish],
      rule reachable.later [OF _ step_defer], rule reachable.later [OF _ step_defer], rule reach_active) (code_simp+)

theorem cleanups_balance_witness:
  "rs_drains one_lease = [[7, 3]] \<and> mset (rs_registered one_lease) = mset (rs_released one_lease) + {#3, 7#}"
proof -
  have "rs_drains one_lease = [[7, 3]] \<and> map ac_cleanups (rs_activations one_lease) = [[]]" by code_simp
  moreover have "held one_lease = sum_list (map mset (map ac_cleanups (rs_activations one_lease)))"
    by (simp add: held_def comp_def)
  ultimately show ?thesis
    using cleanups_balance [OF reach_one_lease] by (simp add: draining_def add_mset_commute)
qed

text \<open>
  An idle session that has settled holds nothing: when the session is idle, no activation's body
  runs and every drain is finished, all cleanups ever registered have run, each exactly once.
\<close>

theorem idle_session_holds_nothing:
  assumes "reachable s" and "\<not> rs_active s" and "\<forall>a\<in>set (rs_activations s). ac_phase a \<noteq> Running"
    and "\<forall>d\<in>set (rs_drains s). d = []"
  shows "mset (rs_registered s) = mset (rs_released s)"
proof -
  note D = sessionD [OF reachable_ok [OF assms(1)]]
  have "draining s = {#}" unfolding draining_def using assms(4) by (intro sum_list_none) simp
  moreover have "ac_cleanups a = []" if a: "a \<in> set (rs_activations s)" for a
  proof -
    from a obtain i where "i < length (rs_activations s)" "rs_activations s ! i = a"
      by (auto simp: in_set_conv_nth)
    with D(2) [of i] D(3) [OF assms(2)] assms(3) a show ?thesis
      by (cases "ac_phase a") (auto simp: act_ok_def)
  qed
  then have "held s = {#}" unfolding held_def by (intro sum_list_none) simp
  ultimately show ?thesis using D(1) by (simp add: balanced_def)
qed

theorem idle_session_holds_nothing_witness:
  "mset (rs_registered (do_cleanup 0 (do_cleanup 0 one_lease))) = {#7, 3#}"
proof -
  have "reachable (do_cleanup 0 (do_cleanup 0 one_lease))"
    by (rule reachable.later [OF _ step_cleanup], rule reachable.later [OF _ step_cleanup], rule reach_one_lease) (code_simp+)
  moreover have "\<not> rs_active (do_cleanup 0 (do_cleanup 0 one_lease))"
    "list_all (\<lambda>a. ac_phase a \<noteq> Running) (rs_activations (do_cleanup 0 (do_cleanup 0 one_lease)))"
    "rs_drains (do_cleanup 0 (do_cleanup 0 one_lease)) = [[]]"
    "rs_released (do_cleanup 0 (do_cleanup 0 one_lease)) = [7, 3]"
    by code_simp+
  ultimately show ?thesis
    using idle_session_holds_nothing [of "do_cleanup 0 (do_cleanup 0 one_lease)"] by (simp add: list_all_iff)
qed

text \<open>
  A re-activation does not always wait for the previous drain: after activate, idle, activate,
  idle, activate the third activation runs while the first one's cleanup has not, because the second
  idle replaces the promise of the first drain by one that does not include it.
\<close>

definition overlap :: session where
  "overlap = do_start 2 (do_activate (do_idle (do_activate (do_idle (do_finish 0
     (do_defer 0 3 (do_start 0 (do_activate session_new))))))))"

theorem third_activation_overlaps_drain:
  "reachable overlap \<and> ac_phase (rs_activations overlap ! 2) = Running
   \<and> rs_scope overlap = Some 2 \<and> rs_drains overlap = [[3], []] \<and> rs_released overlap = []"
proof -
  have "reachable overlap"
    unfolding overlap_def
    by (rule reachable.later [OF _ step_start], rule reachable.later [OF _ step_activate],
        rule reachable.later [OF _ step_idle], rule reachable.later [OF _ step_activate],
        rule reachable.later [OF _ step_idle], rule reachable.later [OF _ step_finish],
        rule reachable.later [OF _ step_defer], rule reach_active) (code_simp+)
  moreover have "ac_phase (rs_activations overlap ! 2) = Running \<and> rs_scope overlap = Some 2
      \<and> rs_drains overlap = [[3], []] \<and> rs_released overlap = []"
    by code_simp
  ultimately show ?thesis by blast
qed

end
