(* ===== verification/OrchestratorInstances.thy ===== *)
theory OrchestratorInstances
  imports StoreCodec
begin

text \<open>
  The lifecycle of orchestrator processes (\<open>app/electron/orchestrator-instances.ts\<close> with the exit
  classification of \<open>app/electron/orchestrator-exit.ts\<close>): one process per application instance,
  at most one of which may hold the cameras and the mirror controller. Every call the registry makes
  into its injected dependencies is a logged effect; process exits, acknowledgements, timers and
  janitor sweeps are events in any order (a dependency that calls back into the registry within the
  same call is not modelled). The lemmas show that two processes never hold the hardware at once, that
  a waiting instance is never stuck, and that every teardown is bounded by its timer.
\<close>

section \<open>Exit classification\<close>

datatype down_reason = Clean | Killed | Crash

record down_report =
  reason :: down_reason
  code :: "int option"
  message :: "string option"

definition classifyOrchestratorExit :: "bool \<Rightarrow> bool \<Rightarrow> int option \<Rightarrow> down_report" where
  "classifyOrchestratorExit acked expct c =
     (if acked then \<lparr>reason = Clean, code = c, message = None\<rparr>
      else if expct then \<lparr>reason = Killed, code = c,
        message = Some ''Orchestrator was terminated before confirming a clean shutdown.''\<rparr>
      else \<lparr>reason = Crash, code = c, message = Some ''Orchestrator exited unexpectedly.''\<rparr>)"

definition shouldRunJanitor :: "down_report \<Rightarrow> bool" where
  "shouldRunJanitor r \<longleftrightarrow> reason r \<noteq> Clean"

section \<open>State\<close>

datatype inst_kind = Hardware | NonHardware
datatype inst_phase = Live | Draining | Dead

record instance_rec =
  iid :: string
  kind :: inst_kind
  pid :: "nat option"
  phase :: inst_phase
  sessionName :: string
  hardwareCleared :: bool
  quiesced :: bool
  expected :: bool
  janitorDone :: bool
  windows :: "string list"
  attachments :: "string list"
  hadWindow :: bool
  drainTimer :: "nat option"

text \<open>The calls into \<open>InstanceRegistryDeps\<close>; a view names its instance and its phase.\<close>

record inst_view =
  v_id :: string
  v_kind :: inst_kind
  v_pid :: "nat option"
  v_phase :: inst_phase
  v_sessionName :: string
  v_hardwareCleared :: bool

definition inst_view_of :: "instance_rec \<Rightarrow> inst_view" where
  "inst_view_of r = \<lparr>v_id = iid r, v_kind = kind r, v_pid = pid r, v_phase = phase r,
     v_sessionName = sessionName r, v_hardwareCleared = hardwareCleared r\<rparr>"

datatype dep_call = Fork string inst_kind | SendHardwareClear inst_view | SendShutdown inst_view
  | KillProc inst_view | RunJanitor inst_view | NotifyDown inst_view down_report
  | HardwareAliveChange bool | LivePidsChange "nat list" | Schedule nat | Cancel nat

text \<open>\<open>pending\<close>: timers that are armed; \<open>sweeps\<close>: janitor runs that have not settled.\<close>

record registry =
  instances :: "instance_rec list"
  idCounter :: nat
  lastHardwareAlive :: bool
  pending :: "nat list"
  nextTimer :: nat
  sweeps :: "string list"
  calls :: "dep_call list"

definition registry0 :: registry where
  "registry0 = \<lparr>instances = [], idCounter = 0, lastHardwareAlive = False, pending = [],
     nextTimer = 0, sweeps = [], calls = []\<rparr>"

definition hardwareReleased :: "instance_rec \<Rightarrow> bool" where
  "hardwareReleased r \<longleftrightarrow> phase r = Dead \<and> (quiesced r \<or> janitorDone r)"

section \<open>Queries\<close>

definition live_instances :: "registry \<Rightarrow> inst_view list" where
  "live_instances s = map inst_view_of (filter (\<lambda>r. phase r \<noteq> Dead) (instances s))"

definition currentHardware :: "registry \<Rightarrow> instance_rec option" where
  "currentHardware s = find (\<lambda>r. kind r = Hardware \<and> phase r \<noteq> Dead) (rev (instances s))"

definition connectTarget :: "registry \<Rightarrow> instance_rec option" where
  "connectTarget s = (case currentHardware s of Some r \<Rightarrow> Some r
     | None \<Rightarrow> find (\<lambda>r. phase r \<noteq> Dead) (rev (instances s)))"

definition hardwareAlive :: "registry \<Rightarrow> bool" where
  "hardwareAlive s \<longleftrightarrow> list_ex (\<lambda>r. kind r = Hardware \<and> phase r \<noteq> Dead) (instances s)"

definition livePids :: "registry \<Rightarrow> nat list" where
  "livePids s = List.map_filter pid (filter (\<lambda>r. phase r \<noteq> Dead) (instances s))"

definition anyAlive :: "registry \<Rightarrow> bool" where
  "anyAlive s \<longleftrightarrow> list_ex (\<lambda>r. phase r \<noteq> Dead) (instances s)"

definition byId :: "registry \<Rightarrow> string \<Rightarrow> instance_rec option" where
  "byId s h = find (\<lambda>r. iid r = h) (instances s)"

definition instanceForWindow :: "registry \<Rightarrow> string \<Rightarrow> instance_rec option" where
  "instanceForWindow s w = find (\<lambda>r. w \<in> set (windows r)) (instances s)"

definition attachmentsOf :: "registry \<Rightarrow> string \<Rightarrow> string list" where
  "attachmentsOf s h = (case byId s h of None \<Rightarrow> [] | Some r \<Rightarrow> attachments r)"

definition boundInstance :: "registry \<Rightarrow> string \<Rightarrow> instance_rec option" where
  "boundInstance s w =
     find (\<lambda>r. w \<in> set (windows r) \<or> w \<in> set (attachments r)) (instances s)"

definition windowsOf :: "registry \<Rightarrow> string \<Rightarrow> string list" where
  "windowsOf s h = (case byId s h of None \<Rightarrow> [] | Some r \<Rightarrow> windows r)"

section \<open>Operations\<close>

definition call :: "dep_call \<Rightarrow> registry \<Rightarrow> registry" where
  "call c s = s\<lparr>calls := calls s @ [c]\<rparr>"

text \<open>Assignments to the record that \<open>byId\<close> returned (ids are unique).\<close>

definition modify :: "string \<Rightarrow> (instance_rec \<Rightarrow> instance_rec) \<Rightarrow> registry \<Rightarrow> registry" where
  "modify h f s = s\<lparr>instances := map (\<lambda>r. if iid r = h then f r else r) (instances s)\<rparr>"

definition grant :: "string \<Rightarrow> registry \<Rightarrow> registry" where
  "grant h s = (case byId s h of
      None \<Rightarrow> s
    | Some r \<Rightarrow>
        if kind r \<noteq> Hardware \<or> hardwareCleared r \<or> phase r \<noteq> Live then s
        else if list_ex (\<lambda>q. iid q \<noteq> h \<and> kind q = Hardware \<and> \<not> hardwareReleased q) (instances s) then s
        else call (SendHardwareClear (inst_view_of (r\<lparr>hardwareCleared := True\<rparr>)))
               (modify h (\<lambda>r. r\<lparr>hardwareCleared := True\<rparr>) s))"

definition tryGrantHardware :: "registry \<Rightarrow> registry" where
  "tryGrantHardware s = foldl (\<lambda>s h. grant h s) s (map iid (instances s))"

definition emitAlive :: "registry \<Rightarrow> registry" where
  "emitAlive s = (if hardwareAlive s \<noteq> lastHardwareAlive s
     then call (HardwareAliveChange (hardwareAlive s)) (s\<lparr>lastHardwareAlive := hardwareAlive s\<rparr>)
     else s)"

definition emitPids :: "registry \<Rightarrow> registry" where
  "emitPids s = call (LivePidsChange (livePids s)) s"

definition instance_id :: "inst_kind \<Rightarrow> nat \<Rightarrow> string" where
  "instance_id k n = (case k of Hardware \<Rightarrow> ''hw-'' | NonHardware \<Rightarrow> ''nh-'') @ decimal n"

text \<open>The pid of the forked process comes with the event.\<close>

definition open_instance :: "inst_kind \<Rightarrow> string option \<Rightarrow> nat option \<Rightarrow> registry \<Rightarrow> registry" where
  "open_instance k name p s =
     (let n = idCounter s + 1; h = instance_id k n;
          r = \<lparr>iid = h, kind = k, pid = p, phase = Live,
               sessionName = (case name of Some x \<Rightarrow> x | None \<Rightarrow> h),
               hardwareCleared = False, quiesced = False, expected = False, janitorDone = False,
               windows = [], attachments = [], hadWindow = False, drainTimer = None\<rparr>;
          s1 = call (Fork h k) (s\<lparr>idCounter := n\<rparr>);
          s2 = s1\<lparr>instances := instances s1 @ [r]\<rparr>;
          s3 = (if k = NonHardware
                then call (SendHardwareClear (inst_view_of (r\<lparr>hardwareCleared := True\<rparr>)))
                       (modify h (\<lambda>r. r\<lparr>hardwareCleared := True\<rparr>) s2)
                else tryGrantHardware s2)
      in emitPids (emitAlive s3))"

text \<open>\<open>Set.add\<close>: new elements go to the end.\<close>

definition set_add :: "'a \<Rightarrow> 'a list \<Rightarrow> 'a list" where
  "set_add x xs = (if x \<in> set xs then xs else xs @ [x])"

definition claimWindow :: "string \<Rightarrow> string \<Rightarrow> registry \<Rightarrow> registry" where
  "claimWindow h w = modify h (\<lambda>r. r\<lparr>windows := set_add w (windows r), hadWindow := True\<rparr>)"

definition attachWindow :: "string \<Rightarrow> string \<Rightarrow> registry \<Rightarrow> registry" where
  "attachWindow h w = modify h (\<lambda>r. r\<lparr>attachments := set_add w (attachments r)\<rparr>)"

definition teardown :: "string \<Rightarrow> registry \<Rightarrow> registry" where
  "teardown h s = (case byId s h of
      None \<Rightarrow> s
    | Some r \<Rightarrow>
        if phase r \<noteq> Live then s
        else let t = nextTimer s;
                 s1 = call (SendShutdown (inst_view_of (r\<lparr>phase := Draining\<rparr>)))
                        (modify h (\<lambda>r. r\<lparr>phase := Draining, expected := True\<rparr>) s)
             in call (Schedule t)
                  (modify h (\<lambda>r. r\<lparr>drainTimer := Some t\<rparr>)
                     (s1\<lparr>pending := pending s1 @ [t], nextTimer := t + 1\<rparr>)))"

definition teardownAll :: "registry \<Rightarrow> registry" where
  "teardownAll s = foldl (\<lambda>s h. teardown h s) s (map iid (instances s))"

definition onWindowClosed :: "string \<Rightarrow> registry \<Rightarrow> registry" where
  "onWindowClosed w s0 =
     (let s = s0\<lparr>instances := map (\<lambda>r. r\<lparr>attachments := removeAll w (attachments r)\<rparr>) (instances s0)\<rparr>
      in case instanceForWindow s w of
           None \<Rightarrow> s
         | Some r \<Rightarrow>
             let s1 = modify (iid r) (\<lambda>r. r\<lparr>windows := removeAll w (windows r)\<rparr>) s
             in if hadWindow r \<and> removeAll w (windows r) = [] \<and> phase r = Live
                then teardown (iid r) s1 else s1)"

text \<open>The callback of the drain timer.\<close>

definition drain_timeout :: "string \<Rightarrow> registry \<Rightarrow> registry" where
  "drain_timeout h s = (case byId s h of
      None \<Rightarrow> s
    | Some r \<Rightarrow>
        let s1 = modify h (\<lambda>r. r\<lparr>drainTimer := None\<rparr>) s
        in if phase r = Draining then call (KillProc (inst_view_of r)) s1 else s1)"

definition cancel_drain :: "string \<Rightarrow> instance_rec \<Rightarrow> registry \<Rightarrow> registry" where
  "cancel_drain h r s = (case drainTimer r of
      None \<Rightarrow> s
    | Some t \<Rightarrow> call (Cancel t) (modify h (\<lambda>r. r\<lparr>drainTimer := None\<rparr>)
        (s\<lparr>pending := removeAll t (pending s)\<rparr>)))"

definition onAck :: "string \<Rightarrow> registry \<Rightarrow> registry" where
  "onAck h s = (case byId s h of
      None \<Rightarrow> s
    | Some r \<Rightarrow>
        let s1 = modify h (\<lambda>r. r\<lparr>quiesced := True\<rparr>) s
        in if phase r = Draining
           then call (KillProc (inst_view_of r)) (cancel_drain h r s1)
           else s1)"

definition onExit :: "string \<Rightarrow> int option \<Rightarrow> registry \<Rightarrow> registry" where
  "onExit h c s = (case byId s h of
      None \<Rightarrow> s
    | Some r \<Rightarrow>
        if phase r = Dead then s
        else let s1 = modify h (\<lambda>r. r\<lparr>phase := Dead\<rparr>) (cancel_drain h r s);
                 v = inst_view_of (r\<lparr>phase := Dead\<rparr>);
                 rep = classifyOrchestratorExit (quiesced r) (expected r) c;
                 s2 = call (NotifyDown v rep) s1;
                 s3 = (if shouldRunJanitor rep
                       then call (RunJanitor v) (s2\<lparr>sweeps := h # sweeps s2\<rparr>) else s2)
             in emitPids (emitAlive (tryGrantHardware s3)))"

text \<open>The \<open>finally\<close> of a janitor run.\<close>

definition janitor_settles :: "string \<Rightarrow> registry \<Rightarrow> registry" where
  "janitor_settles h s =
     tryGrantHardware (modify h (\<lambda>r. r\<lparr>janitorDone := True\<rparr>) (s\<lparr>sweeps := remove1 h (sweeps s)\<rparr>))"

section \<open>Histories\<close>

datatype inst_event = Open inst_kind "string option" "nat option" | ClaimWindow string string
  | AttachWindow string string | WindowClosed string | Teardown string | TeardownAll
  | TimerFires nat | Ack string | Exited string "int option" | JanitorSettles string

definition owner_of_timer :: "registry \<Rightarrow> nat \<Rightarrow> string option" where
  "owner_of_timer s t = map_option iid (find (\<lambda>r. drainTimer r = Some t) (instances s))"

text \<open>Only an armed timer fires and only a running sweep settles.\<close>

fun inst_step :: "registry \<Rightarrow> inst_event \<Rightarrow> registry" where
  "inst_step s (Open k name p) = open_instance k name p s"
| "inst_step s (ClaimWindow h w) = claimWindow h w s"
| "inst_step s (AttachWindow h w) = attachWindow h w s"
| "inst_step s (WindowClosed w) = onWindowClosed w s"
| "inst_step s (Teardown h) = teardown h s"
| "inst_step s TeardownAll = teardownAll s"
| "inst_step s (TimerFires t) =
     (if t \<in> set (pending s)
      then (case owner_of_timer s t of
          None \<Rightarrow> s\<lparr>pending := removeAll t (pending s)\<rparr>
        | Some h \<Rightarrow> drain_timeout h (s\<lparr>pending := removeAll t (pending s)\<rparr>))
      else s)"
| "inst_step s (Ack h) = onAck h s"
| "inst_step s (Exited h c) = onExit h c s"
| "inst_step s (JanitorSettles h) = (if h \<in> set (sweeps s) then janitor_settles h s else s)"

section \<open>At most one holder\<close>

lemma call_simps [simp]:
  "instances (call c s) = instances s" "idCounter (call c s) = idCounter s"
  "lastHardwareAlive (call c s) = lastHardwareAlive s" "pending (call c s) = pending s"
  "nextTimer (call c s) = nextTimer s" "sweeps (call c s) = sweeps s"
  "calls (call c s) = calls s @ [c]"
  by (simp_all add: call_def)

definition update_at :: "string \<Rightarrow> (instance_rec \<Rightarrow> instance_rec) \<Rightarrow> instance_rec list \<Rightarrow> instance_rec list" where
  "update_at h f xs = map (\<lambda>r. if iid r = h then f r else r) xs"

lemma modify_simps [simp]:
  "instances (modify h f s) = update_at h f (instances s)" "idCounter (modify h f s) = idCounter s"
  "lastHardwareAlive (modify h f s) = lastHardwareAlive s" "pending (modify h f s) = pending s"
  "nextTimer (modify h f s) = nextTimer s" "sweeps (modify h f s) = sweeps s"
  "calls (modify h f s) = calls s"
  by (simp_all add: modify_def update_at_def)

text \<open>An update of an instance that keeps who it is.\<close>

definition keeps_id :: "(instance_rec \<Rightarrow> instance_rec) \<Rightarrow> bool" where
  "keeps_id f \<longleftrightarrow> (\<forall>r. iid (f r) = iid r \<and> kind (f r) = kind r)"

lemma ids_update: "keeps_id f \<Longrightarrow> map iid (update_at h f xs) = map iid xs"
  by (simp add: update_at_def keeps_id_def)

lemma set_update: "set (update_at h f xs) = (\<lambda>r. if iid r = h then f r else r) ` set xs"
  by (simp add: update_at_def)

definition holder :: "instance_rec \<Rightarrow> bool" where
  "holder r \<longleftrightarrow> kind r = Hardware \<and> hardwareCleared r \<and> \<not> hardwareReleased r"

definition exclusive :: "instance_rec list \<Rightarrow> bool" where
  "exclusive xs \<longleftrightarrow> (\<forall>r \<in> set xs. \<forall>q \<in> set xs. holder r \<and> holder q \<longrightarrow> iid r = iid q)"

lemma exclusive_update:
  assumes "keeps_id f" and "\<And>r. r \<in> set xs \<Longrightarrow> iid r = h \<Longrightarrow> holder (f r) \<Longrightarrow> holder r"
    and "exclusive xs"
  shows "exclusive (update_at h f xs)"
proof -
  have *: "\<exists>r' \<in> set xs. iid r = iid r' \<and> (holder r \<longrightarrow> holder r')" if "r \<in> set (update_at h f xs)" for r
    using that assms(1,2) by (force simp: set_update keeps_id_def)
  then show ?thesis
    using assms(3) unfolding exclusive_def by metis
qed

lemma byId_Some: "byId s h = Some r \<Longrightarrow> r \<in> set (instances s) \<and> iid r = h"
  by (auto simp: byId_def find_Some_iff)

lemma byId_None: "byId s h = None \<Longrightarrow> r \<in> set (instances s) \<Longrightarrow> iid r \<noteq> h"
  by (auto simp: byId_def find_None_iff)

lemma byId_unique:
  "distinct (map iid (instances s)) \<Longrightarrow> byId s h = Some r \<Longrightarrow> q \<in> set (instances s) \<Longrightarrow> iid q = h \<Longrightarrow> q = r"
  using byId_Some [of s h r] by (auto simp: distinct_map inj_on_def)

text \<open>What a grant does: nothing, or it clears the one instance while all others are released.\<close>

lemma grant_cases:
  obtains (no) "grant h s = s" and "\<And>r. byId s h = Some r \<Longrightarrow> kind r \<noteq> Hardware
      \<or> hardwareCleared r \<or> phase r \<noteq> Live
      \<or> (\<exists>q \<in> set (instances s). iid q \<noteq> h \<and> kind q = Hardware \<and> \<not> hardwareReleased q)"
  | (yes) r where "byId s h = Some r" and "kind r = Hardware" and "\<not> hardwareCleared r"
      and "phase r = Live"
      and "\<forall>q \<in> set (instances s). iid q \<noteq> h \<and> kind q = Hardware \<longrightarrow> hardwareReleased q"
      and "grant h s = call (SendHardwareClear (inst_view_of (r\<lparr>hardwareCleared := True\<rparr>)))
               (modify h (\<lambda>r. r\<lparr>hardwareCleared := True\<rparr>) s)"
proof (cases "byId s h")
  case None
  then show ?thesis by (intro no) (simp_all add: grant_def)
next
  case (Some r)
  let ?b = "list_ex (\<lambda>q. iid q \<noteq> h \<and> kind q = Hardware \<and> \<not> hardwareReleased q) (instances s)"
  show ?thesis
  proof (cases "kind r \<noteq> Hardware \<or> hardwareCleared r \<or> phase r \<noteq> Live \<or> ?b")
    case True
    with Some show ?thesis by (intro no) (auto simp: grant_def list_ex_iff)
  next
    case False
    then have "\<forall>q \<in> set (instances s). iid q \<noteq> h \<and> kind q = Hardware \<longrightarrow> hardwareReleased q"
      by (auto simp: list_ex_iff)
    with Some False show ?thesis by (intro yes [OF Some]) (simp_all add: grant_def)
  qed
qed

lemma foldl_inv: "P s \<Longrightarrow> (\<And>s x. P s \<Longrightarrow> P (f s x)) \<Longrightarrow> P (foldl f s xs)"
  by (induction xs arbitrary: s) simp_all

lemma emit_simps [simp]:
  "instances (emitAlive s) = instances s" "instances (emitPids s) = instances s"
  "idCounter (emitAlive s) = idCounter s" "idCounter (emitPids s) = idCounter s"
  "sweeps (emitAlive s) = sweeps s" "sweeps (emitPids s) = sweeps s"
  "pending (emitAlive s) = pending s" "pending (emitPids s) = pending s"
  "nextTimer (emitAlive s) = nextTimer s" "nextTimer (emitPids s) = nextTimer s"
  by (simp_all add: emitAlive_def emitPids_def)

subsection \<open>Ids are never reused\<close>

lemma instance_id_inj: "instance_id k m = instance_id k' n \<Longrightarrow> m = n"
  by (cases k; cases k') (auto simp: instance_id_def dest: decimal_inj)

definition ids_ok :: "registry \<Rightarrow> bool" where
  "ids_ok s \<longleftrightarrow> distinct (map iid (instances s))
     \<and> (\<forall>r \<in> set (instances s). \<exists>k n. iid r = instance_id k n \<and> n \<le> idCounter s)"

lemma ids_ok_cong:
  "map iid (instances s') = map iid (instances s) \<Longrightarrow> idCounter s' = idCounter s \<Longrightarrow> ids_ok s \<Longrightarrow> ids_ok s'"
proof -
  assume *: "map iid (instances s') = map iid (instances s)" "idCounter s' = idCounter s" "ids_ok s"
  from *(1) have "iid ` set (instances s') = iid ` set (instances s)" by (metis list.set_map)
  with * show "ids_ok s'" unfolding ids_ok_def by (metis image_iff)
qed

lemma keeps_id_tweaks [simp]:
  "keeps_id (\<lambda>r. r\<lparr>hardwareCleared := b\<rparr>)" "keeps_id (\<lambda>r. r\<lparr>phase := ph, expected := b\<rparr>)"
  "keeps_id (\<lambda>r. r\<lparr>phase := ph\<rparr>)" "keeps_id (\<lambda>r. r\<lparr>drainTimer := t\<rparr>)"
  "keeps_id (\<lambda>r. r\<lparr>quiesced := b\<rparr>)" "keeps_id (\<lambda>r. r\<lparr>janitorDone := b\<rparr>)"
  "keeps_id (\<lambda>r. r\<lparr>windows := g r\<rparr>)" "keeps_id (\<lambda>r. r\<lparr>attachments := g r\<rparr>)"
  "keeps_id (\<lambda>r. r\<lparr>windows := g r, hadWindow := b\<rparr>)"
  by (simp_all add: keeps_id_def)

text \<open>What every operation but \<open>open\<close> keeps: the ids, their order and the counter.\<close>

definition same_ids :: "registry \<Rightarrow> registry \<Rightarrow> bool" where
  "same_ids s s' \<longleftrightarrow> map iid (instances s') = map iid (instances s) \<and> idCounter s' = idCounter s"

lemma same_ids_refl [simp]: "same_ids s s" by (simp add: same_ids_def)

lemma same_ids_trans: "same_ids s t \<Longrightarrow> same_ids t u \<Longrightarrow> same_ids s u" by (simp add: same_ids_def)

lemma same_ids_parts [simp]:
  "keeps_id f \<Longrightarrow> same_ids s (modify h f t) = same_ids s t" "same_ids s (call c t) = same_ids s t"
  "same_ids s (emitAlive t) = same_ids s t" "same_ids s (emitPids t) = same_ids s t"
  "same_ids s (t\<lparr>pending := ps\<rparr>) = same_ids s t" "same_ids s (t\<lparr>sweeps := ss\<rparr>) = same_ids s t"
  "same_ids s (t\<lparr>pending := ps, nextTimer := n\<rparr>) = same_ids s t"
  by (simp_all add: same_ids_def ids_update)

lemma same_ids_grant: "same_ids s (grant h s)"
  by (simp add: grant_def split: option.split)

lemma same_ids_foldl: "(\<And>s x. same_ids s (f s x)) \<Longrightarrow> same_ids s (foldl f s xs)"
  using foldl_inv [of "same_ids s" s f xs] same_ids_trans by (metis same_ids_refl)

lemma same_ids_tryGrant: "same_ids s t \<Longrightarrow> same_ids s (tryGrantHardware t)"
  unfolding tryGrantHardware_def
  by (rule same_ids_trans, assumption, rule same_ids_foldl, rule same_ids_grant)

lemma tryGrant_ids [simp]:
  "map iid (instances (tryGrantHardware s)) = map iid (instances s)"
  "idCounter (tryGrantHardware s) = idCounter s"
  using same_ids_tryGrant [OF same_ids_refl, of s] by (simp_all add: same_ids_def)

lemma same_ids_teardown: "same_ids s t \<Longrightarrow> same_ids s (teardown h t)"
  by (simp add: teardown_def Let_def split: option.split)

lemma same_ids_cancel: "same_ids s t \<Longrightarrow> same_ids s (cancel_drain h r t)"
  by (simp add: cancel_drain_def split: option.split)

lemma same_ids_step:
  assumes "\<And>k name p. e \<noteq> Open k name p"
  shows "same_ids s (inst_step s e)"
proof (cases e)
  case (WindowClosed w)
  have "same_ids s (s\<lparr>instances := map (\<lambda>r. r\<lparr>attachments := removeAll w (attachments r)\<rparr>) (instances s)\<rparr>)"
    by (simp add: same_ids_def comp_def)
  with WindowClosed show ?thesis
    by (auto simp: onWindowClosed_def Let_def intro!: same_ids_teardown split: option.split)
next
  case TeardownAll
  then show ?thesis
    by (simp add: teardownAll_def same_ids_foldl same_ids_teardown)
qed (use assms in \<open>auto simp: claimWindow_def attachWindow_def drain_timeout_def onAck_def onExit_def
    janitor_settles_def Let_def same_ids_teardown same_ids_cancel same_ids_tryGrant
    split: option.split\<close>)

lemma ids_ok_same: "same_ids s s' \<Longrightarrow> ids_ok s \<Longrightarrow> ids_ok s'"
  by (simp add: same_ids_def ids_ok_cong)

lemma fresh_id: "ids_ok s \<Longrightarrow> r \<in> set (instances s) \<Longrightarrow> iid r \<noteq> instance_id k (idCounter s + 1)"
proof
  assume "ids_ok s" "r \<in> set (instances s)" "iid r = instance_id k (idCounter s + 1)"
  then obtain k' n where "instance_id k (idCounter s + 1) = instance_id k' n" "n \<le> idCounter s"
    unfolding ids_ok_def by metis
  from instance_id_inj [OF this(1)] this(2) show False by simp
qed

lemma ids_ok_append:
  assumes "ids_ok s" and "iid r = instance_id k (idCounter s + 1)"
    and "instances t = instances s @ [r]" and "idCounter t = idCounter s + 1"
  shows "ids_ok t"
proof -
  have "\<exists>k' n. iid q = instance_id k' n \<and> n \<le> Suc (idCounter s)" if "q \<in> set (instances s)" for q
    using assms(1) that unfolding ids_ok_def by (meson le_SucI)
  moreover have "iid r \<notin> iid ` set (instances s)"
    unfolding assms(2) using fresh_id [OF assms(1)] by (metis imageE)
  ultimately show ?thesis
    using assms unfolding ids_ok_def by auto
qed

definition new_instance :: "inst_kind \<Rightarrow> string option \<Rightarrow> nat option \<Rightarrow> registry \<Rightarrow> instance_rec" where
  "new_instance k name p s = (let h = instance_id k (idCounter s + 1) in
     \<lparr>iid = h, kind = k, pid = p, phase = Live,
      sessionName = (case name of Some x \<Rightarrow> x | None \<Rightarrow> h),
      hardwareCleared = False, quiesced = False, expected = False, janitorDone = False,
      windows = [], attachments = [], hadWindow = False, drainTimer = None\<rparr>)"

definition with_new :: "inst_kind \<Rightarrow> string option \<Rightarrow> nat option \<Rightarrow> registry \<Rightarrow> registry" where
  "with_new k name p s =
     (call (Fork (instance_id k (idCounter s + 1)) k) (s\<lparr>idCounter := idCounter s + 1\<rparr>))
       \<lparr>instances := instances s @ [new_instance k name p s]\<rparr>"

lemma with_new_simps [simp]:
  "instances (with_new k name p s) = instances s @ [new_instance k name p s]"
  "idCounter (with_new k name p s) = idCounter s + 1" "sweeps (with_new k name p s) = sweeps s"
  "iid (new_instance k name p s) = instance_id k (idCounter s + 1)"
  "kind (new_instance k name p s) = k" "phase (new_instance k name p s) = Live"
  "hardwareCleared (new_instance k name p s) = False"
  by (simp_all add: with_new_def new_instance_def Let_def)

lemma open_split:
  "open_instance k name p s = emitPids (emitAlive (if k = NonHardware
     then call (SendHardwareClear (inst_view_of ((new_instance k name p s)\<lparr>hardwareCleared := True\<rparr>)))
            (modify (instance_id k (idCounter s + 1)) (\<lambda>r. r\<lparr>hardwareCleared := True\<rparr>) (with_new k name p s))
     else tryGrantHardware (with_new k name p s)))"
  by (cases k) (simp_all add: open_instance_def with_new_def new_instance_def Let_def)

lemma ids_ok_new: "ids_ok s \<Longrightarrow> ids_ok (with_new k name p s)"
  by (rule ids_ok_append) simp_all

lemma ids_ok_open: "ids_ok s \<Longrightarrow> ids_ok (open_instance k name p s)"
  by (rule ids_ok_same [OF _ ids_ok_new [of s k name p]]) (simp_all add: open_split same_ids_tryGrant)

lemma step_ids: "ids_ok s \<Longrightarrow> ids_ok (inst_step s e)"
  using same_ids_step [of e s] ids_ok_same ids_ok_open by (cases "\<exists>k name p. e = Open k name p") auto

subsection \<open>Exclusion\<close>

lemma grant_exclusive: "exclusive (instances s) \<Longrightarrow> exclusive (instances (grant h s))"
proof (cases rule: grant_cases [of h s])
  case (yes r)
  show ?thesis
    using yes(5) unfolding yes(6) exclusive_def holder_def
    by (auto simp: set_update split: if_splits)
qed simp

lemma tryGrant_exclusive: "exclusive (instances s) \<Longrightarrow> exclusive (instances (tryGrantHardware s))"
  unfolding tryGrantHardware_def
  by (rule foldl_inv [where P = "\<lambda>s. exclusive (instances s)"]) (simp_all add: grant_exclusive)

lemma exclusive_modify:
  "keeps_id f \<Longrightarrow> (\<And>r. holder (f r) \<Longrightarrow> holder r) \<Longrightarrow> exclusive xs \<Longrightarrow> exclusive (update_at h f xs)"
  by (rule exclusive_update)

lemmas holder_defs = holder_def hardwareReleased_def

lemma teardown_exclusive:
  assumes "ids_ok s" and "exclusive (instances s)"
  shows "exclusive (instances (teardown h s))"
proof (cases "byId s h")
  case (Some r)
  have "holder q \<Longrightarrow> phase r = Live \<Longrightarrow> holder q" for q by simp
  show ?thesis
  proof (cases "phase r = Live")
    case True
    have "exclusive (update_at h (\<lambda>r. r\<lparr>phase := Draining, expected := True\<rparr>) (instances s))"
      using byId_unique [OF _ Some] assms True
      by (intro exclusive_update) (auto simp: holder_defs ids_ok_def)
    then show ?thesis
      using Some True by (auto simp: teardown_def Let_def holder_defs intro!: exclusive_modify)
  qed (use Some assms in \<open>simp add: teardown_def\<close>)
qed (use assms in \<open>simp add: teardown_def\<close>)

lemma cancel_exclusive: "exclusive (instances s) \<Longrightarrow> exclusive (instances (cancel_drain h r s))"
  by (auto simp: cancel_drain_def holder_defs intro!: exclusive_modify split: option.splits)

lemma exclusive_snoc: "exclusive xs \<Longrightarrow> \<not> holder r \<Longrightarrow> exclusive (xs @ [r])"
proof -
  assume *: "exclusive xs" "\<not> holder r"
  then have "x \<in> set xs" if "x \<in> set (xs @ [r])" "holder x" for x
    using that by auto
  with *(1) show ?thesis unfolding exclusive_def by metis
qed

lemma exclusive_map:
  "exclusive xs \<Longrightarrow> (\<And>r. iid (f r) = iid r) \<Longrightarrow> (\<And>r. holder (f r) \<Longrightarrow> holder r) \<Longrightarrow> exclusive (map f xs)"
  unfolding exclusive_def set_map by (metis imageE)

lemma teardownAll_ok:
  "ids_ok s \<and> exclusive (instances s) \<Longrightarrow> ids_ok (teardownAll s) \<and> exclusive (instances (teardownAll s))"
  unfolding teardownAll_def
  by (rule foldl_inv [where P = "\<lambda>s. ids_ok s \<and> exclusive (instances s)"])
     (use ids_ok_same same_ids_teardown [OF same_ids_refl] teardown_exclusive in blast)+

lemma open_exclusive:
  assumes "ids_ok s" and "exclusive (instances s)"
  shows "exclusive (instances (open_instance k name p s))"
proof -
  have e: "exclusive (instances (with_new k name p s))"
    using assms(2) by (simp add: exclusive_snoc holder_defs)
  show ?thesis
  proof (cases k)
    case Hardware
    with e show ?thesis by (simp add: open_split tryGrant_exclusive del: with_new_simps(1))
  next
    case NonHardware
    have "exclusive (update_at (instance_id k (idCounter s + 1)) (\<lambda>r. r\<lparr>hardwareCleared := True\<rparr>)
        (instances (with_new k name p s)))"
      using fresh_id [OF assms(1)] NonHardware
      by (intro exclusive_update [OF _ _ e]) (auto simp: holder_defs)
    with NonHardware show ?thesis by (simp add: open_split del: with_new_simps(1))
  qed
qed

lemma step_exclusive:
  assumes "ids_ok s" and "exclusive (instances s)"
  shows "exclusive (instances (inst_step s e))"
proof (cases e)
  case (Open k name p)
  with assms show ?thesis by (simp add: open_exclusive)
next
  case (WindowClosed w)
  let ?s = "s\<lparr>instances := map (\<lambda>r. r\<lparr>attachments := removeAll w (attachments r)\<rparr>) (instances s)\<rparr>"
  have "exclusive (instances ?s)"
    using assms(2) by (auto simp: holder_defs intro!: exclusive_map)
  moreover have "ids_ok ?s"
    by (rule ids_ok_same [OF _ assms(1)]) (simp add: same_ids_def comp_def)
  ultimately show ?thesis
    using WindowClosed
    by (auto simp: onWindowClosed_def Let_def holder_defs intro!: exclusive_modify teardown_exclusive
        ids_ok_same [of ?s] split: option.split)
next
  case (Teardown h)
  with assms show ?thesis by (simp add: teardown_exclusive)
next
  case TeardownAll
  with assms teardownAll_ok show ?thesis by simp
next
  case (Exited h c)
  with assms(2) show ?thesis
    by (auto simp: onExit_def Let_def holder_defs
        intro!: tryGrant_exclusive exclusive_modify cancel_exclusive split: option.split)
qed (use assms(2) in \<open>auto simp: claimWindow_def attachWindow_def drain_timeout_def onAck_def
    janitor_settles_def Let_def holder_defs intro!: exclusive_modify cancel_exclusive tryGrant_exclusive
    split: option.split\<close>)

interpretation holders: started_machine inst_step "\<lambda>s. ids_ok s \<and> exclusive (instances s)" registry0
  by unfold_locales
     (simp_all add: step_ids step_exclusive, simp add: registry0_def ids_ok_def exclusive_def)

section \<open>No waiting instance is stuck\<close>

text \<open>Every dead instance that did not confirm a clean exit is being swept, or was.\<close>

definition swept :: "registry \<Rightarrow> bool" where
  "swept s \<longleftrightarrow> (\<forall>r \<in> set (instances s). phase r = Dead \<and> \<not> hardwareReleased r \<longrightarrow> iid r \<in> set (sweeps s))"

definition waiting :: "instance_rec \<Rightarrow> bool" where
  "waiting r \<longleftrightarrow> kind r = Hardware \<and> phase r = Live \<and> \<not> hardwareCleared r"

text \<open>What a waiting instance waits for: another one that is alive or being swept.\<close>

definition blocked_by_other :: "registry \<Rightarrow> instance_rec \<Rightarrow> bool" where
  "blocked_by_other s r \<longleftrightarrow> (\<exists>q \<in> set (instances s). iid q \<noteq> iid r \<and> kind q = Hardware
     \<and> (phase q \<noteq> Dead \<or> iid q \<in> set (sweeps s)))"

definition unstuck :: "registry \<Rightarrow> bool" where
  "unstuck s \<longleftrightarrow> (\<forall>r \<in> set (instances s). waiting r \<longrightarrow> blocked_by_other s r)"

text \<open>A change that kills no instance, starts none and forgets nothing about the dead ones.\<close>

definition calm1 :: "instance_rec \<Rightarrow> instance_rec \<Rightarrow> bool" where
  "calm1 r q \<longleftrightarrow> iid q = iid r \<and> kind q = kind r \<and> hardwareCleared q = hardwareCleared r
     \<and> (phase q = Live \<longrightarrow> phase r = Live) \<and> (phase q = Dead) = (phase r = Dead)
     \<and> (hardwareReleased r \<longrightarrow> hardwareReleased q)"

definition calm :: "registry \<Rightarrow> registry \<Rightarrow> bool" where
  "calm s t \<longleftrightarrow> list_all2 calm1 (instances s) (instances t) \<and> sweeps t = sweeps s"

lemma calm1_refl: "calm1 r r" by (simp add: calm1_def)

lemma calm_refl [simp]: "calm s s"
  by (simp add: calm_def list.rel_refl calm1_refl)

lemma calm_trans: "calm s t \<Longrightarrow> calm t u \<Longrightarrow> calm s u"
  unfolding calm_def by (auto intro: list_all2_trans [of calm1 calm1 calm1] simp: calm1_def)

lemma calm_call [simp]: "calm s (call c t) = calm s t" "calm s (t\<lparr>pending := ps\<rparr>) = calm s t"
  "calm s (t\<lparr>pending := ps, nextTimer := n\<rparr>) = calm s t"
  by (simp_all add: calm_def)

lemma calm_update:
  "(\<And>r. r \<in> set (instances s) \<Longrightarrow> iid r = h \<Longrightarrow> calm1 r (f r)) \<Longrightarrow> calm s (modify h f s)"
  by (simp add: calm_def update_at_def list_all2_map2 list_all2_same calm1_refl)

lemma calm_modify: "calm s t \<Longrightarrow> (\<And>r. calm1 r (f r)) \<Longrightarrow> calm s (modify h f t)"
  using calm_trans calm_update by blast

lemma calm_teardown: "ids_ok s \<Longrightarrow> calm s (teardown h s)"
proof (cases "byId s h")
  case (Some r)
  assume ok: "ids_ok s"
  show ?thesis
  proof (cases "phase r = Live")
    case True
    have "calm s (modify h (\<lambda>r. r\<lparr>phase := Draining, expected := True\<rparr>) s)"
      using byId_unique [OF _ Some] ok True
      by (intro calm_update) (auto simp: calm1_def hardwareReleased_def ids_ok_def)
    then show ?thesis
      using Some True
      by (auto simp: teardown_def Let_def calm1_def hardwareReleased_def intro!: calm_modify)
  qed (use Some in \<open>simp add: teardown_def\<close>)
qed (simp add: teardown_def)

lemma calm_cancel: "calm s t \<Longrightarrow> calm s (cancel_drain h r t)"
proof -
  assume "calm s t"
  then have "calm s (t\<lparr>pending := ps\<rparr>)" for ps by simp
  then show ?thesis
    by (auto simp: cancel_drain_def calm1_def hardwareReleased_def \<open>calm s t\<close>
        intro!: calm_modify split: option.split)
qed

lemma calm_step:
  assumes "ids_ok s" and "case e of Open _ _ _ \<Rightarrow> False | Exited _ _ \<Rightarrow> False
    | JanitorSettles _ \<Rightarrow> False | _ \<Rightarrow> True"
  shows "calm s (inst_step s e)"
proof (cases e)
  case (WindowClosed w)
  let ?s = "s\<lparr>instances := map (\<lambda>r. r\<lparr>attachments := removeAll w (attachments r)\<rparr>) (instances s)\<rparr>"
  have c: "calm s ?s"
    by (simp add: calm_def list_all2_map2 list_all2_same calm1_def hardwareReleased_def)
  have ids: "ids_ok ?s"
    by (rule ids_ok_same [OF _ assms(1)]) (simp add: same_ids_def comp_def)
  have m: "calm s (modify h (\<lambda>r. r\<lparr>windows := removeAll w (windows r)\<rparr>) ?s)" for h
    by (rule calm_modify [OF c]) (simp add: calm1_def hardwareReleased_def)
  have "ids_ok (modify h (\<lambda>r. r\<lparr>windows := removeAll w (windows r)\<rparr>) ?s)" for h
    by (rule ids_ok_same [OF _ ids]) simp
  from calm_trans [OF m calm_teardown [OF this]] m c WindowClosed show ?thesis
    by (simp add: onWindowClosed_def Let_def split: option.split)
next
  case TeardownAll
  have "calm s (foldl (\<lambda>s h. teardown h s) s xs) \<and> ids_ok (foldl (\<lambda>s h. teardown h s) s xs)" for xs
  proof (rule foldl_inv [where P = "\<lambda>t. calm s t \<and> ids_ok t"])
    fix t h assume "calm s t \<and> ids_ok t"
    then show "calm s (teardown h t) \<and> ids_ok (teardown h t)"
      using calm_trans [OF _ calm_teardown] ids_ok_same [OF same_ids_teardown [OF same_ids_refl]]
      by blast
  qed (use assms in simp)
  with TeardownAll show ?thesis by (simp add: teardownAll_def)
qed (use assms calm_teardown [OF assms(1)] in \<open>auto simp: claimWindow_def attachWindow_def
    drain_timeout_def onAck_def Let_def calm1_def hardwareReleased_def
    intro!: calm_modify calm_cancel split: option.split\<close>)

lemma calm_related: "calm s t \<Longrightarrow> q \<in> set (instances t) \<Longrightarrow> \<exists>r \<in> set (instances s). calm1 r q"
  unfolding calm_def by (metis in_set_conv_nth list_all2_conv_all_nth)

lemma calm_related': "calm s t \<Longrightarrow> r \<in> set (instances s) \<Longrightarrow> \<exists>q \<in> set (instances t). calm1 r q"
  unfolding calm_def by (metis in_set_conv_nth list_all2_conv_all_nth)

lemma calm_swept: "calm s t \<Longrightarrow> swept s \<Longrightarrow> swept t"
  unfolding swept_def using calm_related [of s t] by (metis calm1_def calm_def)

lemma calm_unstuck:
  assumes "calm s t" and "unstuck s"
  shows "unstuck t"
  unfolding unstuck_def
proof (intro ballI impI)
  fix r assume r: "r \<in> set (instances t)" "waiting r"
  obtain r0 where r0: "r0 \<in> set (instances s)" "calm1 r0 r"
    using calm_related [OF assms(1) r(1)] by blast
  then have "waiting r0" using r(2) by (simp add: waiting_def calm1_def)
  then obtain q0 where q0: "q0 \<in> set (instances s)" "iid q0 \<noteq> iid r0" "kind q0 = Hardware"
    "phase q0 \<noteq> Dead \<or> iid q0 \<in> set (sweeps s)"
    using assms(2) r0(1) by (auto simp: unstuck_def blocked_by_other_def)
  obtain q where "q \<in> set (instances t)" "calm1 q0 q"
    using calm_related' [OF assms(1) q0(1)] by blast
  with q0 r0(2) assms(1) show "blocked_by_other t r"
    unfolding blocked_by_other_def by (intro bexI [of _ q]) (auto simp: calm1_def calm_def)
qed

text \<open>A grant changes nothing but the flag of the instance it clears.\<close>

definition clear1 :: "instance_rec \<Rightarrow> instance_rec \<Rightarrow> bool" where
  "clear1 r q \<longleftrightarrow> iid q = iid r \<and> kind q = kind r \<and> phase q = phase r
     \<and> hardwareReleased q = hardwareReleased r \<and> (hardwareCleared r \<longrightarrow> hardwareCleared q)"

definition same_but_clear :: "registry \<Rightarrow> registry \<Rightarrow> bool" where
  "same_but_clear s t \<longleftrightarrow> list_all2 clear1 (instances s) (instances t) \<and> sweeps t = sweeps s"

lemma same_but_clear_trans: "same_but_clear s t \<Longrightarrow> same_but_clear t u \<Longrightarrow> same_but_clear s u"
  unfolding same_but_clear_def
  by (auto intro: list_all2_trans [of clear1 clear1 clear1] simp: clear1_def)

lemma same_but_clear_related:
  "same_but_clear s t \<Longrightarrow> q \<in> set (instances t) \<Longrightarrow> \<exists>r \<in> set (instances s). clear1 r q"
  "same_but_clear s t \<Longrightarrow> r \<in> set (instances s) \<Longrightarrow> \<exists>q \<in> set (instances t). clear1 r q"
  unfolding same_but_clear_def by (metis in_set_conv_nth list_all2_conv_all_nth)+

lemma grant_same: "same_but_clear s (grant h s)"
  by (cases rule: grant_cases [of h s])
     (simp_all add: same_but_clear_def update_at_def list_all2_map2 list_all2_same clear1_def
        hardwareReleased_def)

lemma grants_same: "same_but_clear s (foldl (\<lambda>s h. grant h s) s hs)"
proof (rule foldl_inv [where P = "same_but_clear s"])
  show "same_but_clear s s" by (simp add: same_but_clear_def list_all2_same clear1_def)
qed (rule same_but_clear_trans [OF _ grant_same])

definition settled_for :: "string \<Rightarrow> registry \<Rightarrow> bool" where
  "settled_for h s \<longleftrightarrow> (\<forall>r \<in> set (instances s). iid r = h \<and> waiting r \<longrightarrow>
     (\<exists>q \<in> set (instances s). iid q \<noteq> h \<and> kind q = Hardware \<and> \<not> hardwareReleased q))"

lemma settled_same:
  assumes "same_but_clear s t" and "settled_for h s"
  shows "settled_for h t"
  unfolding settled_for_def
proof (intro ballI impI)
  fix r assume r: "r \<in> set (instances t)" "iid r = h \<and> waiting r"
  then obtain r0 where "r0 \<in> set (instances s)" "iid r0 = h" "waiting r0"
    using same_but_clear_related(1) [OF assms(1)] unfolding waiting_def clear1_def by metis
  then obtain q0 where "q0 \<in> set (instances s)" "iid q0 \<noteq> h" "kind q0 = Hardware" "\<not> hardwareReleased q0"
    using assms(2) by (auto simp: settled_for_def)
  then show "\<exists>q \<in> set (instances t). iid q \<noteq> h \<and> kind q = Hardware \<and> \<not> hardwareReleased q"
    using same_but_clear_related(2) [OF assms(1)] unfolding clear1_def by metis
qed

lemma grant_settles:
  assumes "distinct (map iid (instances s))"
  shows "settled_for h (grant h s)"
proof (cases rule: grant_cases [of h s])
  case no
  show ?thesis
    unfolding no(1) settled_for_def
  proof (intro ballI impI, elim conjE)
    fix r assume r: "r \<in> set (instances s)" "iid r = h" "waiting r"
    then obtain r' where r': "byId s h = Some r'" using byId_None by (cases "byId s h") blast+
    have "r = r'" by (rule byId_unique [OF assms r' r(1,2)])
    with r(3) no(2) [OF r']
    show "\<exists>q \<in> set (instances s). iid q \<noteq> h \<and> kind q = Hardware \<and> \<not> hardwareReleased q"
      unfolding waiting_def by blast
  qed
next
  case (yes r)
  have "\<not> waiting q" if "q \<in> set (instances (grant h s))" and q: "iid q = h" for q
  proof -
    from that(1) obtain q0 where "q = (if iid q0 = h then q0\<lparr>hardwareCleared := True\<rparr> else q0)"
      unfolding yes(6) by (simp only: call_simps modify_simps set_update) blast
    with q show ?thesis by (cases "iid q0 = h") (simp_all add: waiting_def)
  qed
  then show ?thesis unfolding settled_for_def by blast
qed

lemma foldl_reaches:
  assumes "x \<in> set xs" and "I s" and "\<And>s y. I s \<Longrightarrow> I (f s y)" and "\<And>s. I s \<Longrightarrow> P x (f s x)"
    and "\<And>s y. I s \<Longrightarrow> P x s \<Longrightarrow> P x (f s y)"
  shows "P x (foldl f s xs)"
  using assms(1,2)
proof (induction xs rule: rev_induct)
  case (snoc y ys)
  have i: "I (foldl f s ys)" by (rule foldl_inv) (use snoc.prems(2) assms(3) in auto)
  with snoc assms(4,5) show ?case by auto
qed simp

lemma tryGrant_settled:
  assumes "ids_ok s" and "r \<in> set (instances s)"
  shows "settled_for (iid r) (tryGrantHardware s)"
  unfolding tryGrantHardware_def
proof (rule foldl_reaches [where I = ids_ok and P = settled_for])
  show "iid r \<in> set (map iid (instances s))" using assms(2) by simp
  show "ids_ok t \<Longrightarrow> settled_for (iid r) (grant (iid r) t)" for t
    by (simp add: grant_settles ids_ok_def)
  show "ids_ok t \<Longrightarrow> ids_ok (grant y t)" for t y
    by (rule ids_ok_same [OF same_ids_grant])
  show "ids_ok t \<Longrightarrow> settled_for (iid r) t \<Longrightarrow> settled_for (iid r) (grant y t)" for t y
    by (rule settled_same [OF grant_same])
qed (rule assms(1))

lemma tryGrant_same: "same_but_clear s (tryGrantHardware s)"
  unfolding tryGrantHardware_def by (rule grants_same)

lemma same_swept: "same_but_clear s t \<Longrightarrow> swept s \<Longrightarrow> swept t"
  unfolding swept_def using same_but_clear_related(1) [of s t]
  by (metis clear1_def same_but_clear_def)

lemma tryGrant_unstuck:
  assumes "ids_ok s" and "swept s"
  shows "swept (tryGrantHardware s) \<and> unstuck (tryGrantHardware s)"
proof -
  let ?t = "tryGrantHardware s"
  have sw: "swept ?t" by (rule same_swept [OF tryGrant_same assms(2)])
  have "blocked_by_other ?t r" if r: "r \<in> set (instances ?t)" "waiting r" for r
  proof -
    have "iid r \<in> iid ` set (instances s)"
      using r(1) tryGrant_ids(1) [of s] by (metis image_eqI list.set_map)
    then have "settled_for (iid r) ?t" using tryGrant_settled [OF assms(1)] by auto
    then obtain q where "q \<in> set (instances ?t)" "iid q \<noteq> iid r" "kind q = Hardware" "\<not> hardwareReleased q"
      using r by (auto simp: settled_for_def)
    with sw show ?thesis unfolding blocked_by_other_def swept_def by blast
  qed
  with sw show ?thesis by (simp add: unstuck_def)
qed

lemma emit_unstuck [simp]:
  "swept (emitAlive s) = swept s" "swept (emitPids s) = swept s"
  "unstuck (emitAlive s) = unstuck s" "unstuck (emitPids s) = unstuck s"
  "swept (call c s) = swept s" "unstuck (call c s) = unstuck s"
  by (simp_all add: swept_def unstuck_def blocked_by_other_def)

lemma exit_unstuck:
  assumes "ids_ok s" and "swept s" and "unstuck s"
  shows "swept (onExit h c s) \<and> unstuck (onExit h c s)"
proof (cases "byId s h")
  case (Some r)
  show ?thesis
  proof (cases "phase r = Dead")
    case False
    let ?s1 = "cancel_drain h r s"
    have c1: "calm s ?s1" by (rule calm_cancel) simp
    let ?rep = "classifyOrchestratorExit (quiesced r) (expected r) c"
    let ?v = "inst_view_of (r\<lparr>phase := Dead\<rparr>)"
    let ?s2 = "call (NotifyDown ?v ?rep) (modify h (\<lambda>r. r\<lparr>phase := Dead\<rparr>) ?s1)"
    let ?s3 = "if shouldRunJanitor ?rep then call (RunJanitor ?v) (?s2\<lparr>sweeps := h # sweeps ?s2\<rparr>) else ?s2"
    have q1: "quiesced q = quiesced r" if "q \<in> set (instances ?s1)" "iid q = h" for q
    proof -
      have "map (\<lambda>r. (iid r, quiesced r)) (instances ?s1) = map (\<lambda>r. (iid r, quiesced r)) (instances s)"
        by (auto simp: cancel_drain_def update_at_def split: option.split)
      then have "(\<lambda>r. (iid r, quiesced r)) ` set (instances ?s1) = (\<lambda>r. (iid r, quiesced r)) ` set (instances s)"
        by (metis list.set_map)
      with that obtain p where "p \<in> set (instances s)" "iid p = h" "quiesced p = quiesced q"
        by (metis (mono_tags, lifting) image_iff prod.inject)
      with byId_unique [OF _ Some] assms(1) show ?thesis by (auto simp: ids_ok_def)
    qed
    have "swept ?s3"
      using calm_swept [OF c1 assms(2)] q1
      by (auto simp: swept_def set_update classifyOrchestratorExit_def shouldRunJanitor_def
          hardwareReleased_def split: if_splits)
    moreover have "ids_ok ?s3"
      using ids_ok_same [OF same_ids_cancel [OF same_ids_refl] assms(1), of h r]
      by (auto simp: ids_ok_def ids_update set_update)
    ultimately show ?thesis
      using tryGrant_unstuck [of ?s3] Some False by (simp add: onExit_def Let_def)
  qed (use Some assms in \<open>simp add: onExit_def\<close>)
qed (use assms in \<open>simp add: onExit_def\<close>)

lemma janitor_unstuck:
  assumes "ids_ok s" and "swept s"
  shows "swept (janitor_settles h s) \<and> unstuck (janitor_settles h s)"
  unfolding janitor_settles_def
proof (rule tryGrant_unstuck)
  show "swept (modify h (\<lambda>r. r\<lparr>janitorDone := True\<rparr>) (s\<lparr>sweeps := remove1 h (sweeps s)\<rparr>))"
    using assms(2) by (auto simp: swept_def set_update hardwareReleased_def)
  show "ids_ok (modify h (\<lambda>r. r\<lparr>janitorDone := True\<rparr>) (s\<lparr>sweeps := remove1 h (sweeps s)\<rparr>))"
    by (rule ids_ok_same [OF _ assms(1)]) simp
qed

lemma same_unstuck:
  assumes "same_but_clear s t" and "unstuck s"
  shows "unstuck t"
  unfolding unstuck_def
proof (intro ballI impI)
  fix r assume r: "r \<in> set (instances t)" "waiting r"
  obtain r0 where r0: "r0 \<in> set (instances s)" "clear1 r0 r"
    using same_but_clear_related(1) [OF assms(1) r(1)] by blast
  then have "waiting r0" using r(2) by (auto simp: waiting_def clear1_def)
  then obtain q0 where q0: "q0 \<in> set (instances s)" "iid q0 \<noteq> iid r0" "kind q0 = Hardware"
    "phase q0 \<noteq> Dead \<or> iid q0 \<in> set (sweeps s)"
    using assms(2) r0(1) by (auto simp: unstuck_def blocked_by_other_def)
  obtain q where "q \<in> set (instances t)" "clear1 q0 q"
    using same_but_clear_related(2) [OF assms(1) q0(1)] by blast
  with q0 r0(2) assms(1) show "blocked_by_other t r"
    unfolding blocked_by_other_def by (intro bexI [of _ q]) (auto simp: clear1_def same_but_clear_def)
qed

lemma same_but_clear_call [simp]: "same_but_clear s (call c t) = same_but_clear s t"
  by (simp add: same_but_clear_def)

lemma modify_clear_same: "same_but_clear s (modify h (\<lambda>r. r\<lparr>hardwareCleared := True\<rparr>) s)"
  by (simp add: same_but_clear_def update_at_def list_all2_map2 list_all2_same clear1_def
      hardwareReleased_def)

lemma open_unstuck:
  assumes "ids_ok s" and "swept s" and "unstuck s"
  shows "swept (open_instance k name p s) \<and> unstuck (open_instance k name p s)"
proof -
  have sw: "swept (with_new k name p s)" using assms(2) by (auto simp: swept_def)
  show ?thesis
  proof (cases k)
    case Hardware
    with tryGrant_unstuck [OF ids_ok_new [OF assms(1)] sw] show ?thesis by (simp add: open_split)
  next
    case NonHardware
    then have "unstuck (with_new k name p s)"
      using assms(3) by (auto simp: unstuck_def blocked_by_other_def waiting_def)
    with NonHardware sw show ?thesis
      using same_swept [OF modify_clear_same] same_unstuck [OF modify_clear_same]
      by (simp add: open_split)
  qed
qed

lemma step_unstuck:
  assumes "ids_ok s" and "swept s \<and> unstuck s"
  shows "swept (inst_step s e) \<and> unstuck (inst_step s e)"
proof (cases "case e of Open _ _ _ \<Rightarrow> False | Exited _ _ \<Rightarrow> False | JanitorSettles _ \<Rightarrow> False | _ \<Rightarrow> True")
  case True
  with assms calm_step calm_swept calm_unstuck show ?thesis by blast
next
  case False
  with assms open_unstuck exit_unstuck janitor_unstuck show ?thesis
    by (cases e) auto
qed

interpretation gate: started_machine inst_step
  "\<lambda>s. ids_ok s \<and> exclusive (instances s) \<and> swept s \<and> unstuck s" registry0
  by unfold_locales
     (simp_all add: step_ids step_exclusive step_unstuck,
      simp_all add: registry0_def ids_ok_def exclusive_def swept_def unstuck_def)

lemma at_most_one_holder:
  assumes "ids_ok s \<and> exclusive (instances s)"
  shows "length (filter holder (instances s)) \<le> 1"
proof (rule ccontr)
  assume "\<not> ?thesis"
  then obtain a b cs where f: "filter holder (instances s) = a # b # cs"
    by (cases "filter holder (instances s)"; cases "tl (filter holder (instances s))") auto
  have "distinct (map iid (filter holder (instances s)))"
    using assms by (simp add: ids_ok_def distinct_map_filter)
  moreover have "a \<in> set (filter holder (instances s))" "b \<in> set (filter holder (instances s))"
    unfolding f by simp_all
  then have "iid a = iid b" using assms unfolding exclusive_def by auto
  ultimately show False unfolding f by simp
qed

section \<open>Properties\<close>

text \<open>
  C18. In every history of process forks, exits, acknowledgements, timeouts, janitor sweeps and window
  events, at most one hardware instance holds the cameras: at most one
  has been granted the hardware and has not released it (is not dead, or neither confirmed a clean
  exit nor was swept).
\<close>

theorem one_hardware_holder:
  "length (filter (\<lambda>r. kind r = Hardware \<and> hardwareCleared r \<and> \<not> hardwareReleased r)
     (instances (run inst_step registry0 es))) \<le> 1"
  using at_most_one_holder [OF holders.reachable_inv [of es]]
  unfolding holder_def [abs_def] by simp

text \<open>
  A hardware instance never waits for nothing: in every history, while a live hardware instance
  has not been granted the hardware, another hardware instance is still alive or its janitor sweep is
  still running. So once every other instance is dead and swept the grant has been sent.
\<close>

theorem waiting_instance_is_blocked:
  assumes "r \<in> set (instances (run inst_step registry0 es))" and "waiting r"
  shows "list_ex (\<lambda>q. iid q \<noteq> iid r \<and> kind q = Hardware
     \<and> (phase q \<noteq> Dead \<or> iid q \<in> set (sweeps (run inst_step registry0 es))))
     (instances (run inst_step registry0 es))"
  using gate.reachable_inv [of es] assms
  by (auto simp: unstuck_def blocked_by_other_def list_ex_iff)

theorem waiting_instance_is_blocked_witness:
  "\<exists>r \<in> set (instances (run inst_step registry0 [Open Hardware None None, Open Hardware None None])).
     waiting r \<and> list_ex (\<lambda>q. iid q \<noteq> iid r \<and> kind q = Hardware
       \<and> (phase q \<noteq> Dead \<or> iid q \<in> set (sweeps (run inst_step registry0
            [Open Hardware None None, Open Hardware None None]))))
     (instances (run inst_step registry0 [Open Hardware None None, Open Hardware None None]))"
proof -
  let ?es = "[Open Hardware None None, Open Hardware None None]"
  have "\<exists>r \<in> set (instances (run inst_step registry0 ?es)). waiting r"
    by code_simp
  then show ?thesis using waiting_instance_is_blocked by blast
qed

end
