(* ===== verification/CameraRegistry.thy ===== *)
theory CameraRegistry
  imports Prelude "HOL-Library.Multiset"
begin

text \<open>
  Camera ownership in the orchestrator: the hardware gate (\<open>app/orchestrator/hardware-gate.ts\<close>)
  and the registry of shared cameras with counted leases (\<open>app/orchestrator/registry.ts\<close>). An
  acquisition is a task that stops at every \<open>await\<close> of the code; tasks, releases and settling
  closes interleave freely. The lemmas show that a shared camera counts exactly its outstanding
  leases, that a release is idempotent, and that the gate lets nothing through early. One theorem
  shows that two acquisitions of one camera that overlap open it twice.
\<close>

section \<open>The hardware gate\<close>

record gate =
  armed :: bool
  cleared :: bool
  waiters :: nat
  notified :: "bool list"

definition gate0 :: gate where
  "gate0 = \<lparr>armed = False, cleared = False, waiters = 0, notified = []\<rparr>"

definition isWaitingForHardware :: "gate \<Rightarrow> bool" where
  "isWaitingForHardware g \<longleftrightarrow> armed g \<and> \<not> cleared g \<and> 0 < waiters g"

definition notifyWaiting :: "gate \<Rightarrow> gate" where
  "notifyWaiting g = g\<lparr>notified := notified g @ [isWaitingForHardware g]\<rparr>"

definition armHardwareGate :: "gate \<Rightarrow> gate" where
  "armHardwareGate g = (if armed g then g else g\<lparr>armed := True, cleared := False\<rparr>)"

definition signalHardwareClear :: "gate \<Rightarrow> gate" where
  "signalHardwareClear g = (if cleared g then g else notifyWaiting (g\<lparr>cleared := True\<rparr>))"

definition hardwareCleared :: "gate \<Rightarrow> bool" where
  "hardwareCleared g \<longleftrightarrow> \<not> armed g \<or> cleared g"

text \<open>\<open>awaitHardwareClear\<close> up to its \<open>await\<close> (does the caller wait?) and after it.\<close>

definition await_begin :: "gate \<Rightarrow> gate \<times> bool" where
  "await_begin g = (if hardwareCleared g then (g, False)
     else (notifyWaiting (g\<lparr>waiters := waiters g + 1\<rparr>), True))"

definition await_end :: "gate \<Rightarrow> gate" where
  "await_end g = notifyWaiting (g\<lparr>waiters := waiters g - 1\<rparr>)"

section \<open>Camera pipes\<close>

record pipe_spec =
  pipe_id :: string
  width :: int
  height :: int
  channels :: int
  stride :: int
  bytesPerFrame :: int
  ringDepth :: nat

text \<open>\<open>node\<close> stands for \<open>nodeId.convert\<close>, \<open>feature\<close> for \<open>getFeatureInt\<close> of the native camera.\<close>

definition advertiseCameraPipe :: "(string \<Rightarrow> string) \<Rightarrow> (string \<Rightarrow> int) \<Rightarrow> string \<Rightarrow> pipe_spec" where
  "advertiseCameraPipe node feature serial =
     (let w = feature ''Width''; h = feature ''Height''; c = 4
      in \<lparr>pipe_id = node serial, width = w, height = h, channels = c, stride = w * c,
          bytesPerFrame = w * h * c, ringDepth = 4\<rparr>)"

section \<open>Shared cameras\<close>

text \<open>
  A shared camera refers to its native handle. \<open>natives\<close> are the handles ever opened with a flag
  for an open one, \<open>closes\<close> the close promises with a flag for a pending one.
\<close>

record shared_cam =
  serial :: string
  handle :: nat
  refs :: nat
  piped :: bool
  closed :: bool

datatype task_phase = AtGate bool | AtClose "nat option" | Enumerating | Applying nat
  | Registered nat | Leased nat | NotConnected

record camera_registry =
  hw_gate :: gate
  seam :: bool
  objects :: "shared_cam list"
  shared :: "(string \<times> nat) list"
  natives :: "(string \<times> bool) list"
  closes :: "(string \<times> bool) list"
  closingBySerial :: "(string \<times> nat) list"
  leases :: "(nat \<times> bool) list"
  tasks :: "(string \<times> task_phase) list"

definition camera_registry0 :: "bool \<Rightarrow> camera_registry" where
  "camera_registry0 sm = \<lparr>hw_gate = gate0, seam = sm, objects = [], shared = [], natives = [],
     closes = [], closingBySerial = [], leases = [], tasks = []\<rparr>"

text \<open>The lease object of a returned acquisition: not released yet.\<close>

definition take_lease :: "nat \<Rightarrow> camera_registry \<Rightarrow> camera_registry" where
  "take_lease i s = s\<lparr>objects := (objects s)[i := (objects s ! i)\<lparr>refs := refs (objects s ! i) + 1\<rparr>],
     leases := leases s @ [(i, False)]\<rparr>"

definition closeShared :: "nat \<Rightarrow> camera_registry \<Rightarrow> camera_registry" where
  "closeShared i s = (let c = objects s ! i in
     if closed c then s
     else s\<lparr>objects := (objects s)[i := c\<lparr>closed := True, piped := False\<rparr>],
            shared := AList.delete (serial c) (shared s),
            natives := (natives s)[handle c := (serial c, False)],
            closes := closes s @ [(serial c, True)],
            closingBySerial := AList.update (serial c) (length (closes s)) (closingBySerial s)\<rparr>)"

definition release_lease :: "nat \<Rightarrow> camera_registry \<Rightarrow> camera_registry" where
  "release_lease l s = (if length (leases s) \<le> l then s
     else let (i, released) = leases s ! l in
     if released then s
     else let n = refs (objects s ! i) - 1;
              s1 = s\<lparr>leases := (leases s)[l := (i, True)],
                     objects := (objects s)[i := (objects s ! i)\<lparr>refs := n\<rparr>]\<rparr>
          in if 0 < n then s1 else closeShared i s1)"

text \<open>\<open>releaseAll\<close> closes every registered camera (and awaits the closes under way).\<close>

definition releaseAll :: "camera_registry \<Rightarrow> camera_registry" where
  "releaseAll s = foldl (\<lambda>s i. closeShared i s) s (map snd (shared s))"

definition close_settles :: "nat \<Rightarrow> camera_registry \<Rightarrow> camera_registry" where
  "close_settles p s = (if length (closes s) \<le> p \<or> \<not> snd (closes s ! p) then s
     else let ser = fst (closes s ! p) in
       s\<lparr>closes := (closes s)[p := (ser, False)],
         closingBySerial := (if map_of (closingBySerial s) ser = Some p
           then AList.delete ser (closingBySerial s) else closingBySerial s)\<rparr>)"

definition set_task :: "nat \<Rightarrow> task_phase \<Rightarrow> camera_registry \<Rightarrow> camera_registry" where
  "set_task t ph s = s\<lparr>tasks := (tasks s)[t := (fst (tasks s ! t), ph)]\<rparr>"

text \<open>\<open>acquire\<close> up to its first \<open>await\<close>.\<close>

definition acquire :: "string \<Rightarrow> camera_registry \<Rightarrow> camera_registry" where
  "acquire ser s = (case map_of (shared s) ser of
      Some i \<Rightarrow> take_lease i (s\<lparr>tasks := tasks s @ [(ser, Leased i)]\<rparr>)
    | None \<Rightarrow> (let (g, waits) = await_begin (hw_gate s)
               in s\<lparr>hw_gate := g, tasks := tasks s @ [(ser, AtGate waits)]\<rparr>))"

text \<open>\<open>registerShared\<close> after the stored configuration was applied.\<close>

definition register_shared :: "nat \<Rightarrow> string \<Rightarrow> camera_registry \<Rightarrow> camera_registry" where
  "register_shared h ser s = s\<lparr>objects := objects s @
       [\<lparr>serial = ser, handle = h, refs = 0, piped = seam s, closed = False\<rparr>],
     shared := AList.update ser (length (objects s)) (shared s)\<rparr>"

text \<open>
  One task runs from an \<open>await\<close> to the next; \<open>found\<close> says whether the enumeration lists the
  camera (every other listed camera is released at once). A task whose promise is not settled does
  not move.
\<close>

definition resume :: "nat \<Rightarrow> bool \<Rightarrow> camera_registry \<Rightarrow> camera_registry" where
  "resume t found s = (if length (tasks s) \<le> t then s
     else let (ser, ph) = tasks s ! t in case ph of
        AtGate waits \<Rightarrow>
          if waits \<and> \<not> cleared (hw_gate s) then s
          else set_task t (AtClose (map_of (closingBySerial s) ser))
                 (s\<lparr>hw_gate := (if waits then await_end (hw_gate s) else hw_gate s)\<rparr>)
      | AtClose p \<Rightarrow>
          if (case p of None \<Rightarrow> False | Some p \<Rightarrow> snd (closes s ! p)) then s
          else set_task t Enumerating s
      | Enumerating \<Rightarrow>
          if found then set_task t (Applying (length (natives s)))
                          (s\<lparr>natives := natives s @ [(ser, True)]\<rparr>)
          else set_task t NotConnected s
      | Applying h \<Rightarrow> set_task t (Registered (length (objects s))) (register_shared h ser s)
      | Registered i \<Rightarrow> take_lease i (set_task t (Leased i) s)
      | _ \<Rightarrow> s)"

datatype cam_event = Acquire string | Resume nat bool | Release nat | ReleaseAll | CloseSettles nat
  | ArmGate | SignalClear

fun cam_step :: "camera_registry \<Rightarrow> cam_event \<Rightarrow> camera_registry" where
  "cam_step s (Acquire ser) = acquire ser s"
| "cam_step s (Resume t found) = resume t found s"
| "cam_step s (Release l) = release_lease l s"
| "cam_step s ReleaseAll = releaseAll s"
| "cam_step s (CloseSettles p) = close_settles p s"
| "cam_step s ArmGate = s\<lparr>hw_gate := armHardwareGate (hw_gate s)\<rparr>"
| "cam_step s SignalClear = s\<lparr>hw_gate := signalHardwareClear (hw_gate s)\<rparr>"

section \<open>Matching the calibrated triple\<close>

datatype role = L | C | R

text \<open>
  The loop of \<open>matchTriple\<close> over the cameras with a stored role (\<open>leased\<close> gives the lease of a
  connected serial): the first camera of a role is kept, a second one is released. The result is the
  match and the leases that were released.
\<close>

fun match_roles :: "(string \<times> role) list \<Rightarrow> (string \<Rightarrow> 'l option) \<Rightarrow> (role \<times> 'l) list \<Rightarrow> 'l list
    \<Rightarrow> (role \<times> 'l) list \<times> 'l list" where
  "match_roles [] leased m rel = (m, rel)"
| "match_roles ((ser, r) # rs) leased m rel = (case leased ser of
      None \<Rightarrow> match_roles rs leased m rel
    | Some l \<Rightarrow> (case map_of m r of
        None \<Rightarrow> match_roles rs leased (m @ [(r, l)]) rel
      | Some _ \<Rightarrow> match_roles rs leased m (rel @ [l])))"

definition matchTriple :: "(string \<times> role) list \<Rightarrow> (string \<Rightarrow> 'l option) \<Rightarrow> (role \<times> 'l) list option \<times> 'l list" where
  "matchTriple roleOf leased = (let (m, rel) = match_roles roleOf leased [] []
     in if map_of m L \<noteq> None \<and> map_of m C \<noteq> None \<and> map_of m R \<noteq> None then (Some m, rel)
        else (None, rel @ map snd m))"

section \<open>Leases are counted\<close>

definition live_leases :: "nat \<Rightarrow> (nat \<times> bool) list \<Rightarrow> nat" where
  "live_leases i ls = length (filter (\<lambda>l. l = (i, False)) ls)"

definition below :: "nat \<Rightarrow> task_phase \<Rightarrow> bool" where
  "below n ph \<longleftrightarrow> (\<forall>i. ph = Registered i \<longrightarrow> i < n)"

lemma below_simps [simp]:
  "below n (AtGate b)" "below n (AtClose p)" "below n Enumerating" "below n (Applying h)"
  "below n (Leased i)" "below n NotConnected" "below n (Registered i) = (i < n)"
  by (simp_all add: below_def)

lemma below_mono: "below n ph \<Longrightarrow> n \<le> m \<Longrightarrow> below m ph"
  by (auto simp: below_def)

definition counted :: "camera_registry \<Rightarrow> bool" where
  "counted s \<longleftrightarrow> (\<forall>i < length (objects s). refs (objects s ! i) = live_leases i (leases s))
     \<and> (\<forall>l \<in> set (leases s). fst l < length (objects s))
     \<and> (\<forall>p \<in> set (shared s). snd p < length (objects s))
     \<and> (\<forall>t \<in> set (tasks s). below (length (objects s)) (snd t))"

lemma live_leases_simps [simp]:
  "live_leases i [] = 0"
  "live_leases i (ls @ [l]) = live_leases i ls + (if l = (i, False) then 1 else 0)"
  by (simp_all add: live_leases_def)

lemma live_leases_release:
  "l < length ls \<Longrightarrow> ls ! l = (i, False) \<Longrightarrow>
   live_leases j (ls[l := (i, True)]) = (if j = i then live_leases i ls - 1 else live_leases j ls)
   \<and> 0 < live_leases i ls"
proof (induction ls arbitrary: l)
  case (Cons a ls)
  show ?case
  proof (cases l)
    case 0
    with Cons show ?thesis by (auto simp: live_leases_def)
  next
    case (Suc m)
    with Cons.IH [of m] Cons.prems show ?thesis
      by (auto simp: live_leases_def)
  qed
qed simp

lemma countedD:
  "counted s \<Longrightarrow> i < length (objects s) \<Longrightarrow> refs (objects s ! i) = live_leases i (leases s)"
  by (simp add: counted_def)

text \<open>Changes that touch neither the counts nor the leases.\<close>

definition same_counts :: "camera_registry \<Rightarrow> camera_registry \<Rightarrow> bool" where
  "same_counts s t \<longleftrightarrow> map refs (objects t) = map refs (objects s) \<and> leases t = leases s
     \<and> set (shared t) \<subseteq> set (shared s) \<and> tasks t = tasks s"

lemma counted_same: "counted s \<Longrightarrow> same_counts s t \<Longrightarrow> counted t"
proof -
  assume *: "counted s" "same_counts s t"
  then have len: "length (objects t) = length (objects s)"
    unfolding same_counts_def by (metis length_map)
  with * have "refs (objects t ! i) = refs (objects s ! i)" if "i < length (objects t)" for i
    using that unfolding same_counts_def by (metis nth_map)
  with * len show ?thesis by (auto simp: counted_def same_counts_def)
qed

lemma same_counts_trans: "same_counts s t \<Longrightarrow> same_counts t u \<Longrightarrow> same_counts s u"
  by (auto simp: same_counts_def)

lemma delete_subset: "set (AList.delete k xs) \<subseteq> set xs"
  by (auto simp: AList.delete_eq)

lemma close_same: "same_counts s (closeShared i s)"
proof (cases "i < length (objects s)")
  case True
  then show ?thesis
    using delete_subset [of "serial (objects s ! i)" "shared s"]
    by (auto simp: same_counts_def closeShared_def Let_def map_update list_update_same_conv)
next
  case False
  then show ?thesis
    using delete_subset [of "serial (objects s ! i)" "shared s"]
    by (auto simp: same_counts_def closeShared_def Let_def list_update_beyond)
qed

lemma releaseAll_same: "same_counts s (releaseAll s)"
proof -
  have "same_counts s (foldl (\<lambda>s i. closeShared i s) s is)" for "is" :: "nat list"
    by (induction "is" rule: rev_induct) (simp_all add: same_counts_def [of s s],
        use same_counts_trans close_same in blast)
  then show ?thesis by (simp add: releaseAll_def)
qed

lemma take_counted:
  assumes "counted s" and "i < length (objects s)"
  shows "counted (take_lease i s)"
  using assms by (auto simp: counted_def take_lease_def nth_list_update)

lemma counted_task:
  "counted s \<Longrightarrow> below (length (objects s)) ph \<Longrightarrow> counted (set_task t ph s)"
  by (auto simp: counted_def set_task_def dest!: set_update_subset_insert [THEN subsetD])

lemma counted_new_task:
  "counted s \<Longrightarrow> below (length (objects s)) ph \<Longrightarrow>
   counted (s\<lparr>tasks := tasks s @ [(ser, ph)]\<rparr>)"
  by (auto simp: counted_def)

lemma acquire_counted: "counted s \<Longrightarrow> counted (acquire ser s)"
proof (cases "map_of (shared s) ser")
  case (Some i)
  assume "counted s"
  moreover have "i < length (objects s)"
    using \<open>counted s\<close> map_of_SomeD [OF Some] by (auto simp: counted_def)
  ultimately show ?thesis
    using Some take_counted [of "s\<lparr>tasks := tasks s @ [(ser, Leased i)]\<rparr>" i]
      counted_new_task [of s "Leased i"] by (simp add: acquire_def)
next
  case None
  assume "counted s"
  with None counted_new_task [of s "AtGate b" for b] show ?thesis
    by (auto simp: acquire_def await_begin_def counted_def)
qed

lemma register_counted: "counted s \<Longrightarrow> counted (register_shared h ser s)"
proof -
  assume c: "counted s"
  have "live_leases (length (objects s)) (leases s) = 0"
    using c by (auto simp: live_leases_def counted_def filter_empty_conv)
  then have "refs (objects (register_shared h ser s) ! i) = live_leases i (leases s)"
    if "i < Suc (length (objects s))" for i
    using that countedD [OF c, of i] by (cases "i = length (objects s)")
      (auto simp: register_shared_def nth_append)
  moreover have "\<forall>p \<in> set (shared (register_shared h ser s)). snd p < Suc (length (objects s))"
  proof
    have u: "set (AList.update ser n xs) \<subseteq> insert (ser, n) (set xs)" for n and xs :: "(string \<times> nat) list"
      by (induction xs) auto
    fix p assume "p \<in> set (shared (register_shared h ser s))"
    then have "p = (ser, length (objects s)) \<or> p \<in> set (shared s)"
      using u [of "length (objects s)" "shared s"] by (auto simp: register_shared_def)
    with c show "snd p < Suc (length (objects s))" unfolding counted_def by auto
  qed
  moreover have "\<forall>l \<in> set (leases s). fst l < Suc (length (objects s))"
    using c unfolding counted_def by (meson less_SucI)
  moreover have "\<forall>t \<in> set (tasks s). below (Suc (length (objects s))) (snd t)"
    using c below_mono unfolding counted_def by (meson le_SucI order_refl)
  ultimately show ?thesis by (simp add: counted_def register_shared_def)
qed

lemma resume_counted:
  assumes c: "counted s"
  shows "counted (resume t found s)"
proof (cases "t < length (tasks s)")
  case True
  obtain ser ph where ph: "tasks s ! t = (ser, ph)" by (cases "tasks s ! t")
  show ?thesis
  proof (cases ph)
    case (Registered i)
    have "i < length (objects s)"
      using c True ph Registered nth_mem [OF True] by (fastforce simp: counted_def)
    moreover have "counted (set_task t (Leased i) s)" by (rule counted_task [OF c]) simp
    ultimately show ?thesis
      using True ph Registered take_counted [of "set_task t (Leased i) s" i]
      by (simp add: resume_def set_task_def)
  next
    case (Applying h)
    have "counted (register_shared h ser s)" by (rule register_counted [OF c])
    then show ?thesis
      using True ph Applying counted_task [of "register_shared h ser s"]
      by (simp add: resume_def register_shared_def)
  qed (use True ph c in \<open>auto simp: resume_def counted_def set_task_def
        dest!: set_update_subset_insert [THEN subsetD]\<close>)
qed (use c in \<open>simp add: resume_def\<close>)

lemma release_counted:
  assumes c: "counted s"
  shows "counted (release_lease l s)"
proof (cases "l < length (leases s) \<and> \<not> snd (leases s ! l)")
  case True
  then obtain i where i: "leases s ! l = (i, False)" by (cases "leases s ! l") auto
  let ?s1 = "s\<lparr>leases := (leases s)[l := (i, True)],
     objects := (objects s)[i := (objects s ! i)\<lparr>refs := refs (objects s ! i) - 1\<rparr>]\<rparr>"
  have lt: "i < length (objects s)" using c True i nth_mem [of l "leases s"] by (force simp: counted_def)
  have "counted ?s1"
    using c True i lt live_leases_release [of l "leases s" i]
    by (auto simp: counted_def nth_list_update dest!: set_update_subset_insert [THEN subsetD])
  then have "counted ?s1" and "counted (closeShared i ?s1)"
    using counted_same [OF _ close_same] by blast+
  moreover have "release_lease l s = (if 0 < refs (objects s ! i) - 1 then ?s1 else closeShared i ?s1)"
    using True i by (simp add: release_lease_def Let_def)
  ultimately show ?thesis by metis
next
  case False
  then show ?thesis using c by (auto simp: release_lease_def split: prod.split)
qed

lemma cam_step_counted: "counted s \<Longrightarrow> counted (cam_step s e)"
proof (cases e)
  case (CloseSettles p)
  assume "counted s"
  with CloseSettles show ?thesis by (auto simp: close_settles_def Let_def counted_def)
next
  case ArmGate
  then show "counted s \<Longrightarrow> counted (cam_step s e)" by (simp add: counted_def)
next
  case SignalClear
  then show "counted s \<Longrightarrow> counted (cam_step s e)" by (simp add: counted_def)
qed (simp_all add: acquire_counted resume_counted release_counted counted_same [OF _ releaseAll_same])

interpretation camera_counts: started_machine cam_step counted "camera_registry0 sm" for sm
  by unfold_locales (simp_all add: cam_step_counted, simp add: counted_def camera_registry0_def)

lemma leases_release:
  assumes "k < length (leases s)" and "leases s ! k = (i, False)"
  shows "leases (release_lease k s) = (leases s)[k := (i, True)]"
proof -
  have c: "leases (closeShared j t) = leases t" for j t
    using close_same [of t j] by (simp add: same_counts_def)
  show ?thesis using assms by (simp add: release_lease_def Let_def c)
qed

lemma released_stays: "length (leases s) \<le> k \<or> snd (leases s ! k) \<Longrightarrow> release_lease k s = s"
  by (auto simp: release_lease_def split: prod.split)

lemma release_twice: "release_lease k (release_lease k s) = release_lease k s"
proof (cases "length (leases s) \<le> k \<or> snd (leases s ! k)")
  case False
  then obtain i where "k < length (leases s)" and "leases s ! k = (i, False)"
    by (cases "leases s ! k") auto
  then show ?thesis by (intro released_stays) (simp add: leases_release)
qed (simp add: released_stays)

section \<open>Nothing passes a closed gate\<close>

definition untouched :: "camera_registry \<Rightarrow> bool" where
  "untouched s \<longleftrightarrow> armed (hw_gate s) \<and> \<not> cleared (hw_gate s) \<and> natives s = [] \<and> objects s = []
     \<and> shared s = [] \<and> leases s = [] \<and> closes s = []
     \<and> (\<forall>t \<in> set (tasks s). snd t = AtGate True)"

lemma untouched_step: "untouched s \<Longrightarrow> e \<noteq> SignalClear \<Longrightarrow> untouched (cam_step s e)"
proof (cases e)
  case (Resume t found)
  assume u: "untouched s"
  have "cam_step s e = s"
  proof (cases "t < length (tasks s)")
    case True
    then have "snd (tasks s ! t) = AtGate True" using u nth_mem unfolding untouched_def by blast
    with u Resume show ?thesis
      by (simp add: resume_def untouched_def case_prod_beta)
  qed (simp add: Resume resume_def)
  with u show ?thesis by simp
qed (auto simp: untouched_def acquire_def await_begin_def notifyWaiting_def hardwareCleared_def
    release_lease_def releaseAll_def close_settles_def armHardwareGate_def)

lemma untouched_run: "untouched s \<Longrightarrow> SignalClear \<notin> set es \<Longrightarrow> untouched (run cam_step s es)"
proof (induction es arbitrary: s)
  case (Cons e es)
  then have "untouched (cam_step s e)" by (auto intro: untouched_step)
  with Cons show ?case by simp
qed simp

section \<open>Properties\<close>

text \<open>
  In every interleaving of acquisitions, releases and closes, a shared camera counts exactly the
  leases taken on it that have not been released; releasing a lease again changes nothing.
\<close>

theorem refs_count_leases:
  "list_all (\<lambda>i. refs (objects (run cam_step (camera_registry0 sm) es) ! i)
       = length (filter (\<lambda>l. l = (i, False)) (leases (run cam_step (camera_registry0 sm) es))))
     [0..<length (objects (run cam_step (camera_registry0 sm) es))]
   \<and> release_lease k (release_lease k (run cam_step (camera_registry0 sm) es))
       = release_lease k (run cam_step (camera_registry0 sm) es)"
proof
  let ?s = "run cam_step (camera_registry0 sm) es"
  show "list_all (\<lambda>i. refs (objects ?s ! i) = length (filter (\<lambda>l. l = (i, False)) (leases ?s)))
      [0..<length (objects ?s)]"
    using camera_counts.reachable_inv [of sm es]
    by (simp add: list_all_iff counted_def live_leases_def)
qed (rule release_twice)

text \<open>
  C35. While the gate of a fresh process is armed and the clear signal has not arrived, no camera is
  opened, whatever is acquired, resumed or released.
\<close>

theorem closed_gate_opens_no_camera:
  assumes "SignalClear \<notin> set es"
  shows "natives (run cam_step (camera_registry0 sm) (ArmGate # es)) = []
    \<and> leases (run cam_step (camera_registry0 sm) (ArmGate # es)) = []"
proof -
  have "untouched (cam_step (camera_registry0 sm) ArmGate)"
    by (simp add: untouched_def camera_registry0_def armHardwareGate_def gate0_def)
  from untouched_run [OF this assms] show ?thesis by (simp add: untouched_def)
qed

theorem closed_gate_opens_no_camera_witness:
  "natives (run cam_step (camera_registry0 True) [ArmGate, Acquire ''s'', Resume 0 True, Resume 0 True]) = []"
  using closed_gate_opens_no_camera [of "[Acquire ''s'', Resume 0 True, Resume 0 True]" True]
  by simp

text \<open>
  Two acquisitions of one camera that overlap before the first has registered it both miss the
  table of shared cameras: both open a native handle of the same device, and the two lease holders
  share nothing. When the first releases its lease the table entry of the second is gone too, so a
  third acquisition opens the device yet again.
\<close>

theorem overlapping_acquires_open_twice:
  "let s = run cam_step (camera_registry0 True)
       [Acquire ser, Acquire ser, Resume 0 True, Resume 0 True, Resume 0 True, Resume 1 True,
        Resume 1 True, Resume 1 True, Resume 0 True, Resume 0 True, Resume 1 True, Resume 1 True];
       t = run cam_step s [Release 0]
   in natives s = [(ser, True), (ser, True)] \<and> leases s = [(0, False), (1, False)]
      \<and> refs (objects s ! 1) = 1 \<and> map_of (shared s) ser = Some 1
      \<and> map_of (shared t) ser = None \<and> natives t = [(ser, False), (ser, True)]"
  by (simp add: Let_def camera_registry0_def acquire_def await_begin_def hardwareCleared_def gate0_def
      resume_def set_task_def register_shared_def take_lease_def release_lease_def closeShared_def)

lemma match_roles_spec:
  "match_roles rs leased m rel = (m', rel') \<Longrightarrow> distinct (map fst m) \<Longrightarrow>
   distinct (map fst m') \<and> mset (map snd m') + mset rel'
     = mset (map snd m) + mset rel + mset (List.map_filter (leased \<circ> fst) rs)"
proof (induction rs leased m rel arbitrary: m' rel' rule: match_roles.induct)
  case (2 ser r rs leased m rel)
  show ?case
  proof (cases "leased ser")
    case None
    with 2 show ?thesis by (simp add: map_filter_simps)
  next
    case (Some l)
    show ?thesis
    proof (cases "map_of m r")
      case None
      then have "r \<notin> fst ` set m" by (simp add: map_of_eq_None_iff)
      with 2 Some None show ?thesis by (simp add: map_filter_simps)
    next
      case (Some a)
      with 2 \<open>leased ser = Some l\<close> show ?thesis by (simp add: map_filter_simps)
    qed
  qed
qed (simp add: map_filter_simps)

text \<open>
  Matching the calibrated triple is all or nothing: every lease that was taken is either part of
  the match or released, exactly once; the match has one lease per role and all three roles, and
  without it every lease is released.
\<close>

theorem triple_is_all_or_nothing:
  "case matchTriple roleOf leased of
     (Some m, rel) \<Rightarrow> distinct (map fst m) \<and> set (map fst m) = {L, C, R}
       \<and> mset (map snd m) + mset rel = mset (List.map_filter (leased \<circ> fst) roleOf)
   | (None, rel) \<Rightarrow> mset rel = mset (List.map_filter (leased \<circ> fst) roleOf)"
proof -
  obtain m rel where m: "match_roles roleOf leased [] [] = (m, rel)" by fastforce
  from match_roles_spec [OF m] have d: "distinct (map fst m)"
    and c: "mset (map snd m) + mset rel = mset (List.map_filter (leased \<circ> fst) roleOf)" by simp_all
  have "set (map fst m) = {L, C, R}" if "map_of m L \<noteq> None \<and> map_of m C \<noteq> None \<and> map_of m R \<noteq> None"
  proof -
    have "{L, C, R} = UNIV" by (auto intro: role.exhaust)
    moreover have "{L, C, R} \<subseteq> set (map fst m)" using that by (auto simp: map_of_eq_None_iff)
    ultimately show ?thesis by auto
  qed
  with d c show ?thesis by (simp add: matchTriple_def m Let_def add.commute)
qed

end
