(* ===== verification/Timeline.thy ===== *)
theory Timeline
  imports Prelude "HOL-Library.Multiset"
begin

text \<open>
  The geometry of the recording viewer's timeline (\<open>app/src/viewer/timeline.ts\<close>): channel blocks,
  the packing of blocks into tracks, moves between tracks, stereo pairs, tiles and the set of channels
  to decode. Times are reals; \<open>lc a b\<close> stands for \<open>a.localeCompare(b) <= 0\<close>. The lemmas show
  that the packing is conflict-free and uses the fewest tracks possible, that moves keep every block,
  and that what a tile shows is decoded.
\<close>

section \<open>Blocks and the master track\<close>

record channel_block =
  channel :: string
  startNs :: real
  lastNs :: real

type_synonym collation = "string \<Rightarrow> string \<Rightarrow> bool"

definition lower_char :: "char \<Rightarrow> char" where
  "lower_char c = (let n = of_char c :: nat in if 65 \<le> n \<and> n \<le> 90 then char_of (n + 32) else c)"

definition WIDE_DESIGNATION_NAMES :: "string list" where
  "WIDE_DESIGNATION_NAMES = [''center'', ''wide'']"

definition detectMaster :: "string list \<Rightarrow> string option \<times> bool" where
  "detectMaster cs = (case find (\<lambda>c. map lower_char c \<in> set WIDE_DESIGNATION_NAMES) cs of
      Some c \<Rightarrow> (Some c, True)
    | None \<Rightarrow> (case cs of [] \<Rightarrow> (None, False) | c # _ \<Rightarrow> (Some c, False)))"

section \<open>Stereo pairs\<close>

datatype side = LeftSide | RightSide

fun side_tokens :: "side \<Rightarrow> string list" where
  "side_tokens LeftSide = [''left'', ''l'']"
| "side_tokens RightSide = [''right'', ''r'']"

definition in_range :: "nat \<Rightarrow> nat \<Rightarrow> char \<Rightarrow> bool" where
  "in_range a b c \<longleftrightarrow> a \<le> of_char c \<and> of_char c \<le> b"

definition is_lower :: "char \<Rightarrow> bool" where "is_lower = in_range 97 122"
definition is_upper :: "char \<Rightarrow> bool" where "is_upper = in_range 65 90"
definition is_digit :: "char \<Rightarrow> bool" where "is_digit = in_range 48 57"
definition is_letter :: "char \<Rightarrow> bool" where "is_letter c \<longleftrightarrow> is_lower c \<or> is_upper c"

text \<open>A replacement of the form \<open>/(p)(q)/g\<close> by \<open>"$1 $2"\<close> for disjoint classes \<open>p\<close>, \<open>q\<close>.\<close>

fun space_between :: "(char \<Rightarrow> bool) \<Rightarrow> (char \<Rightarrow> bool) \<Rightarrow> string \<Rightarrow> string" where
  "space_between p q (c # d # s) =
     (if p c \<and> q d then c # CHR '' '' # space_between p q (d # s) else c # space_between p q (d # s))"
| "space_between p q s = s"

definition is_separator :: "char \<Rightarrow> bool" where
  "is_separator c \<longleftrightarrow> c \<in> set ''-_/. '' \<or> of_char c \<in> {9 :: nat, 10, 11, 12, 13, 160}"

text \<open>Split at runs of separators and drop the empty parts.\<close>

fun split_parts :: "string \<Rightarrow> string \<Rightarrow> string list" where
  "split_parts part [] = (if part = [] then [] else [rev part])"
| "split_parts part (c # s) =
     (if is_separator c then (if part = [] then split_parts [] s else rev part # split_parts [] s)
      else split_parts (c # part) s)"

definition segments :: "string \<Rightarrow> string list" where
  "segments name = split_parts [] (space_between is_digit is_letter
     (space_between is_letter is_digit (space_between is_lower is_upper name)))"

fun join_dash :: "string list \<Rightarrow> string" where
  "join_dash [] = []"
| "join_dash [s] = s"
| "join_dash (s # ss) = s @ CHR ''-'' # join_dash ss"

fun side_at :: "string list \<Rightarrow> string list \<Rightarrow> (side \<times> string) option" where
  "side_at before [] = None"
| "side_at before (x # xs) =
     (let base = join_dash (before @ xs) in
      if x \<in> set (side_tokens LeftSide) \<and> base \<noteq> [] then Some (LeftSide, base)
      else if x \<in> set (side_tokens RightSide) \<and> base \<noteq> [] then Some (RightSide, base)
      else side_at (before @ [x]) xs)"

definition sideOf :: "string \<Rightarrow> (side \<times> string) option" where
  "sideOf name = side_at [] (map (map lower_char) (segments name))"

record channel_pair =
  base :: string
  left :: string
  right :: string

record pair_group =
  g_left :: "string option"
  g_right :: "string option"
  ambiguous :: bool

definition group_add :: "string \<Rightarrow> side \<Rightarrow> pair_group \<Rightarrow> pair_group" where
  "group_add ch s g = (case s of
      LeftSide \<Rightarrow> (case g_left g of Some _ \<Rightarrow> g\<lparr>ambiguous := True\<rparr> | None \<Rightarrow> g\<lparr>g_left := Some ch\<rparr>)
    | RightSide \<Rightarrow> (case g_right g of Some _ \<Rightarrow> g\<lparr>ambiguous := True\<rparr> | None \<Rightarrow> g\<lparr>g_right := Some ch\<rparr>))"

fun pair_groups :: "string list \<Rightarrow> (string \<times> pair_group) list \<Rightarrow> (string \<times> pair_group) list" where
  "pair_groups [] gs = gs"
| "pair_groups (ch # chs) gs = (case sideOf ch of
      None \<Rightarrow> pair_groups chs gs
    | Some (s, b) \<Rightarrow>
        let g = (case map_of gs b of Some g \<Rightarrow> g
                 | None \<Rightarrow> \<lparr>g_left = None, g_right = None, ambiguous = False\<rparr>)
        in pair_groups chs (AList.update b (group_add ch s g) gs))"

text \<open>A stable sort.\<close>

fun insert_by :: "('a \<Rightarrow> 'a \<Rightarrow> bool) \<Rightarrow> 'a \<Rightarrow> 'a list \<Rightarrow> 'a list" where
  "insert_by le x [] = [x]"
| "insert_by le x (y # ys) = (if le x y then x # y # ys else y # insert_by le x ys)"

definition sort_by :: "('a \<Rightarrow> 'a \<Rightarrow> bool) \<Rightarrow> 'a list \<Rightarrow> 'a list" where
  "sort_by le xs = foldr (insert_by le) xs []"

definition detectPairs :: "collation \<Rightarrow> string list \<Rightarrow> channel_pair list" where
  "detectPairs lc chs = sort_by (\<lambda>p q. lc (base p) (base q))
     (List.map_filter (\<lambda>(b, g). case (ambiguous g, g_left g, g_right g) of
          (False, Some l, Some r) \<Rightarrow> Some \<lparr>base = b, left = l, right = r\<rparr> | _ \<Rightarrow> None)
        (pair_groups chs []))"

section \<open>Packing\<close>

definition overlaps :: "channel_block \<Rightarrow> channel_block \<Rightarrow> bool" where
  "overlaps a b \<longleftrightarrow> startNs a < lastNs b \<and> startNs b < lastNs a"

definition block_le :: "collation \<Rightarrow> channel_block \<Rightarrow> channel_block \<Rightarrow> bool" where
  "block_le lc a b \<longleftrightarrow> startNs a < startNs b \<or> startNs a = startNs b \<and>
     (lastNs a < lastNs b \<or> lastNs a = lastNs b \<and> lc (channel a) (channel b))"

text \<open>The first row without an overlap takes the block, else a new row.\<close>

fun place_block :: "channel_block \<Rightarrow> channel_block list list \<Rightarrow> channel_block list list" where
  "place_block b [] = [[b]]"
| "place_block b (r # rs) =
     (if list_all (\<lambda>x. \<not> overlaps x b) r then (r @ [b]) # rs else r # place_block b rs)"

definition pack_rows :: "collation \<Rightarrow> channel_block list \<Rightarrow> channel_block list list" where
  "pack_rows lc bs = foldl (\<lambda>rows b. place_block b rows) [] (sort_by (block_le lc) bs)"

definition autoPack :: "collation \<Rightarrow> channel_block list \<Rightarrow> string list list" where
  "autoPack lc bs = map (map channel) (pack_rows lc bs)"

definition initialLayout :: "collation \<Rightarrow> channel_block list \<Rightarrow> string option \<Rightarrow> string list list" where
  "initialLayout lc bs master =
     (let packed = autoPack lc (filter (\<lambda>b. Some (channel b) \<noteq> master) bs)
      in case master of
           Some m \<Rightarrow> if m \<in> channel ` set bs then [m] # packed
                      else if packed = [] then [[]] else packed
         | None \<Rightarrow> if packed = [] then [[]] else packed)"

section \<open>Moving blocks\<close>

text \<open>\<open>new Map(blocks.map(...))\<close>: the last block of a name wins.\<close>

definition by_name :: "channel_block list \<Rightarrow> string \<Rightarrow> channel_block option" where
  "by_name bs = map_of (rev (map (\<lambda>b. (channel b, b)) bs))"

text \<open>\<open>None\<close>: a channel of the row without a block (a \<open>TypeError\<close>).\<close>

fun row_collides :: "channel_block list \<Rightarrow> channel_block \<Rightarrow> string \<Rightarrow> string list \<Rightarrow> bool option" where
  "row_collides bs b ch [] = Some False"
| "row_collides bs b ch (c # cs) =
     (if c = ch then row_collides bs b ch cs
      else case by_name bs c of None \<Rightarrow> None
        | Some x \<Rightarrow> if overlaps x b then Some True else row_collides bs b ch cs)"

definition dropCollides :: "string list list \<Rightarrow> channel_block list \<Rightarrow> string \<Rightarrow> nat \<Rightarrow> bool option" where
  "dropCollides rows bs ch target = (case by_name bs ch of
      None \<Rightarrow> Some False
    | Some b \<Rightarrow> if length rows \<le> target then Some False else row_collides bs b ch (rows ! target))"

definition start_of :: "channel_block list \<Rightarrow> string \<Rightarrow> real" where
  "start_of bs c = (case by_name bs c of None \<Rightarrow> 0 | Some b \<Rightarrow> startNs b)"

definition row_le :: "collation \<Rightarrow> channel_block list \<Rightarrow> string \<Rightarrow> string \<Rightarrow> bool" where
  "row_le lc bs a b \<longleftrightarrow> start_of bs a < start_of bs b \<or> start_of bs a = start_of bs b \<and> lc a b"

definition tidy_rows :: "collation \<Rightarrow> channel_block list \<Rightarrow> string list list \<Rightarrow> string list list" where
  "tidy_rows lc bs rows = map (sort_by (row_le lc bs)) (filter (\<lambda>r. r \<noteq> []) rows)"

definition moveBlock ::
    "collation \<Rightarrow> string list list \<Rightarrow> channel_block list \<Rightarrow> string \<Rightarrow> nat \<Rightarrow> string list list" where
  "moveBlock lc rows bs ch target =
     (let emptied = map (filter (\<lambda>c. c \<noteq> ch)) rows
      in tidy_rows lc bs (if length emptied \<le> target then emptied @ [[ch]]
           else emptied[target := emptied ! target @ [ch]]))"

definition insertBlockAt ::
    "collation \<Rightarrow> string list list \<Rightarrow> channel_block list \<Rightarrow> string \<Rightarrow> int \<Rightarrow> string list list" where
  "insertBlockAt lc rows bs ch insertBefore =
     (let emptied = map (filter (\<lambda>c. c \<noteq> ch)) rows;
          i = nat (max 0 (min insertBefore (int (length emptied))))
      in tidy_rows lc bs (take i emptied @ [[ch]] @ drop i emptied))"

definition reconcileLayout :: "string list list \<Rightarrow> string list \<Rightarrow> string list list" where
  "reconcileLayout rows chs =
     (let kept = filter (\<lambda>r. r \<noteq> []) (map (filter (\<lambda>c. c \<in> set chs)) rows);
          all = kept @ map (\<lambda>c. [c]) (filter (\<lambda>c. c \<notin> set (concat kept)) chs)
      in if all = [] then [[]] else all)"

definition layoutMismatch :: "string list list \<Rightarrow> string list \<Rightarrow> bool" where
  "layoutMismatch rows chs \<longleftrightarrow> card (set (concat rows)) \<noteq> card (set chs)
     \<or> list_ex (\<lambda>c. c \<notin> set (concat rows)) chs"

section \<open>Tiles\<close>

datatype three_d_mode = Disabled | LeftOnly | RightOnly | Anaglyph

datatype tile = SingleTile string "string list"
  | PairTile channel_pair three_d_mode "string list"

definition THREE_D_MODES :: "three_d_mode list" where
  "THREE_D_MODES = [Disabled, LeftOnly, RightOnly, Anaglyph]"

type_synonym pair_modes = "string \<Rightarrow> (channel_pair \<times> three_d_mode) option"

fun pairDecodeChannels :: "channel_pair \<Rightarrow> three_d_mode \<Rightarrow> string list" where
  "pairDecodeChannels p LeftOnly = [left p]"
| "pairDecodeChannels p RightOnly = [right p]"
| "pairDecodeChannels p _ = [left p, right p]"

fun compose_from :: "string set \<Rightarrow> string list \<Rightarrow> pair_modes \<Rightarrow> tile list" where
  "compose_from seen [] pm = []"
| "compose_from seen (ch # chs) pm =
     (if ch \<in> seen then compose_from seen chs pm
      else case pm ch of
        None \<Rightarrow> SingleTile ch [ch] # compose_from (insert ch seen) chs pm
      | Some (p, m) \<Rightarrow>
          if m = Disabled then SingleTile ch [ch] # compose_from (insert ch seen) chs pm
          else PairTile p m (pairDecodeChannels p m)
                 # compose_from (insert (left p) (insert (right p) seen)) chs pm)"

definition composeTiles :: "string list \<Rightarrow> pair_modes \<Rightarrow> tile list" where
  "composeTiles chs pm = compose_from {} chs pm"

definition decoded :: "pair_modes \<Rightarrow> string \<Rightarrow> bool" where
  "decoded pm ch = (case pm ch of
      None \<Rightarrow> True
    | Some (p, m) \<Rightarrow> \<not> (m = LeftOnly \<and> ch = right p) \<and> \<not> (m = RightOnly \<and> ch = left p))"

definition decodeSet :: "collation \<Rightarrow> string list \<Rightarrow> pair_modes \<Rightarrow> string list" where
  "decodeSet lc enabled pm = sort_by lc (rev (remdups (rev (filter (decoded pm) enabled))))"

text \<open>The one mode for every pair of the recording, under both of its channels (\<open>ViewerWindow.vue\<close>).\<close>

definition pairModeOf :: "channel_pair list \<Rightarrow> three_d_mode \<Rightarrow> pair_modes" where
  "pairModeOf ps mode = foldl (\<lambda>m p. m(left p \<mapsto> (p, mode), right p \<mapsto> (p, mode))) Map.empty ps"

definition nsAtClientX :: "real \<Rightarrow> real \<Rightarrow> real \<Rightarrow> real \<Rightarrow> real" where
  "nsAtClientX clientX rectLeft rectWidth durationNs =
     (if \<not> 0 < rectWidth \<or> \<not> 0 < durationNs then 0
      else min 1 (max 0 ((clientX - rectLeft) / rectWidth)) * durationNs)"

definition spans :: "channel_block list \<Rightarrow> real \<Rightarrow> string \<Rightarrow> bool" where
  "spans bs t ch = (case by_name bs ch of
      None \<Rightarrow> False | Some b \<Rightarrow> startNs b \<le> t \<and> t \<le> lastNs b)"

definition activeChannels ::
    "string list list \<Rightarrow> channel_block list \<Rightarrow> real \<Rightarrow> string set \<Rightarrow> string list" where
  "activeChannels rows bs t enabled =
     List.map_filter (find (\<lambda>ch. ch \<in> enabled \<and> spans bs t ch)) rows"

definition firstMeaningfulNs :: "channel_block list \<Rightarrow> real" where
  "firstMeaningfulNs bs = (case bs of [] \<Rightarrow> 0
     | b # bs' \<Rightarrow> foldl (\<lambda>m c. if startNs c < m then startNs c else m) (startNs b) bs')"

section \<open>Roles, slots and the tile order\<close>

datatype track_role = RoleL | RoleC | RoleR

definition channelRole :: "string \<Rightarrow> track_role option" where
  "channelRole ch = (case sideOf ch of
      Some (LeftSide, _) \<Rightarrow> Some RoleL
    | Some (RightSide, _) \<Rightarrow> Some RoleR
    | None \<Rightarrow> if map lower_char ch \<in> set WIDE_DESIGNATION_NAMES then Some RoleC else None)"

fun track_role_from :: "track_role option \<Rightarrow> string list \<Rightarrow> track_role option" where
  "track_role_from found [] = found"
| "track_role_from found (ch # chs) = (case channelRole ch of
      None \<Rightarrow> track_role_from found chs
    | Some r \<Rightarrow> (case found of
        None \<Rightarrow> track_role_from (Some r) chs
      | Some f \<Rightarrow> if f = r then track_role_from found chs else None))"

definition trackRole :: "string list \<Rightarrow> track_role option" where
  "trackRole row = track_role_from None row"

fun role_track_color :: "track_role \<Rightarrow> string" where
  "role_track_color RoleL = ''cyan''"
| "role_track_color RoleC = ''orange''"
| "role_track_color RoleR = ''greenyellow''"

definition MUTED_TRACK_COLORS :: "string list" where
  "MUTED_TRACK_COLORS = [''#7c8aa5'', ''#a58a7c'', ''#8aa57c'', ''#9a7ca5'', ''#a5a07c'',
     ''#7ca5a0'', ''#a57c92'', ''#8f8fa0'']"

definition trackColor :: "string list \<Rightarrow> int \<Rightarrow> string" where
  "trackColor row i = (case trackRole row of
      Some r \<Rightarrow> role_track_color r
    | None \<Rightarrow> MUTED_TRACK_COLORS ! nat (i mod int (length MUTED_TRACK_COLORS)))"

datatype placeholder_reason = NoFrame | DisabledChannel | PairCollapsed

datatype tile_slot = TileSlot nat tile | Placeholder nat placeholder_reason string

fun join_comma :: "string list \<Rightarrow> string" where
  "join_comma [] = []"
| "join_comma [s] = s"
| "join_comma (s # ss) = s @ '', '' @ join_comma ss"

text \<open>The first active track of each shown pair.\<close>

definition shown_pair :: "pair_modes \<Rightarrow> string option \<Rightarrow> string option" where
  "shown_pair pm ch = (case ch of
      None \<Rightarrow> None
    | Some c \<Rightarrow> (case pm c of
        Some (p, m) \<Rightarrow> if m = Disabled then None else Some (base p) | None \<Rightarrow> None))"

definition hosts_pair :: "pair_modes \<Rightarrow> string option list \<Rightarrow> nat \<Rightarrow> string \<Rightarrow> bool" where
  "hosts_pair pm active t b \<longleftrightarrow> Some b \<notin> set (map (shown_pair pm) (take t active))"

definition slot_of :: "pair_modes \<Rightarrow> string option list \<Rightarrow> string option list \<Rightarrow> nat \<Rightarrow> string list \<Rightarrow> tile_slot" where
  "slot_of pm active spanning t row = (case active ! t of
      None \<Rightarrow> (case spanning ! t of
          Some s \<Rightarrow> Placeholder t DisabledChannel s
        | None \<Rightarrow> Placeholder t NoFrame (join_comma row))
    | Some ch \<Rightarrow> (case pm ch of
          None \<Rightarrow> TileSlot t (SingleTile ch [ch])
        | Some (p, m) \<Rightarrow>
            if m = Disabled then TileSlot t (SingleTile ch [ch])
            else if hosts_pair pm active t (base p)
            then TileSlot t (PairTile p m (pairDecodeChannels p m))
            else Placeholder t PairCollapsed (base p)))"

definition composeTileSlots ::
    "string list list \<Rightarrow> channel_block list \<Rightarrow> real \<Rightarrow> string set \<Rightarrow> pair_modes \<Rightarrow> tile_slot list" where
  "composeTileSlots rows bs t enabled pm =
     (let spanning = map (find (spans bs t)) rows;
          active = map (find (\<lambda>ch. ch \<in> enabled \<and> spans bs t ch)) rows
      in map (\<lambda>(i, row). slot_of pm active spanning i row) (enumerate 0 rows))"

fun keep_order :: "nat set \<Rightarrow> int \<Rightarrow> real list \<Rightarrow> nat list" where
  "keep_order seen n [] = []"
| "keep_order seen n (x # xs) =
     (if x \<in> \<int> \<and> 0 \<le> x \<and> x < of_int n \<and> nat \<lfloor>x\<rfloor> \<notin> seen
      then nat \<lfloor>x\<rfloor> # keep_order (insert (nat \<lfloor>x\<rfloor>) seen) n xs else keep_order seen n xs)"

definition reconcileTileOrder :: "real list \<Rightarrow> nat \<Rightarrow> nat list" where
  "reconcileTileOrder order n = (let out = keep_order {} (int n) order
     in out @ filter (\<lambda>i. i \<notin> set out) [0..<n])"

section \<open>Packing is conflict-free and minimal\<close>

lemma mset_insert_by [simp]: "mset (insert_by le x xs) = add_mset x (mset xs)"
  by (induction xs) auto

lemma mset_sort_by [simp]: "mset (sort_by le xs) = mset xs"
  by (induction xs) (simp_all add: sort_by_def)

lemma set_sort_by [simp]: "set (sort_by le xs) = set xs"
  by (rule mset_eq_setD) simp

text \<open>Two members of a collection, at different positions, conflict (or do not).\<close>

definition row_ok :: "channel_block multiset \<Rightarrow> bool" where
  "row_ok M \<longleftrightarrow> (\<forall>x y. {#x, y#} \<subseteq># M \<longrightarrow> \<not> overlaps x y)"

definition clique :: "channel_block multiset \<Rightarrow> bool" where
  "clique M \<longleftrightarrow> (\<forall>x y. {#x, y#} \<subseteq># M \<longrightarrow> overlaps x y)"

lemma overlaps_sym: "overlaps a b = overlaps b a"
  by (auto simp: overlaps_def)

lemma pair_subset_add:
  "{#x, y#} \<subseteq># add_mset b C \<Longrightarrow> {#x, y#} \<subseteq># C \<or> x = b \<and> y \<in># C \<or> y = b \<and> x \<in># C"
proof -
  assume a: "{#x, y#} \<subseteq># add_mset b C"
  show ?thesis
  proof (cases "x = b")
    case True
    with a show ?thesis by simp
  next
    case x: False
    show ?thesis
    proof (cases "y = b")
      case True
      with a have "{#x#} \<subseteq># C" by (simp add: add_mset_commute)
      with True show ?thesis by simp
    next
      case False
      have "{#x, y#} \<subseteq># C"
        unfolding subseteq_mset_def
      proof
        fix z
        have "count {#x, y#} z \<le> count (add_mset b C) z" using a by (simp add: subseteq_mset_def)
        with x False show "count {#x, y#} z \<le> count C z" by (cases "z = b") auto
      qed
      then show ?thesis by simp
    qed
  qed
qed

lemma row_ok_add: "row_ok (add_mset b M) \<longleftrightarrow> row_ok M \<and> (\<forall>x \<in># M. \<not> overlaps x b)"
proof
  assume r: "row_ok (add_mset b M)"
  have "{#x, b#} \<subseteq># add_mset b M" if "x \<in># M" for x
    using that by (simp add: add_mset_commute)
  with r show "row_ok M \<and> (\<forall>x \<in># M. \<not> overlaps x b)"
    unfolding row_ok_def by (meson subset_mset.order_trans subset_mset.dual_order.refl mset_subset_eq_insertD subset_mset.less_imp_le mset_subset_eq_add_right subset_mset.trans multi_psub_of_add_self subset_mset.less_le)
next
  assume "row_ok M \<and> (\<forall>x \<in># M. \<not> overlaps x b)"
  then show "row_ok (add_mset b M)"
    unfolding row_ok_def using pair_subset_add overlaps_sym by metis
qed

lemma pigeon:
  "A \<subseteq># mset (concat rows) \<Longrightarrow> clique A \<Longrightarrow> \<forall>r \<in> set rows. row_ok (mset r) \<Longrightarrow> size A \<le> length rows"
proof (induction rows arbitrary: A)
  case (Cons r rows)
  let ?M = "mset (concat rows)"
  let ?B = "A - ?M"
  have sub: "?B \<subseteq># mset r" using Cons.prems(1) by (simp add: subset_eq_diff_conv)
  have "size ?B \<le> 1"
  proof (rule ccontr)
    assume "\<not> size ?B \<le> 1"
    then obtain x y N where "?B = add_mset x (add_mset y N)"
      by (metis One_nat_def le_Suc_eq le_zero_eq linear multiset_cases nat_le_linear not_less_eq_eq size_add_mset size_empty)
    then have p: "{#x, y#} \<subseteq># ?B" by simp
    have "overlaps x y"
      using Cons.prems(2) subset_mset.order_trans [OF p diff_subset_eq_self] by (auto simp: clique_def)
    moreover have "\<not> overlaps x y"
      using Cons.prems(3) subset_mset.order_trans [OF p sub] by (auto simp: row_ok_def)
    ultimately show False by simp
  qed
  moreover have "size (A - ?B) \<le> length rows"
  proof (rule Cons.IH)
    show "A - ?B \<subseteq># ?M" by (rule mset_subset_eqI) simp
    show "clique (A - ?B)"
      using Cons.prems(2) unfolding clique_def
      by (meson diff_subset_eq_self subset_mset.order_trans)
    show "\<forall>r \<in> set rows. row_ok (mset r)" using Cons.prems(3) by simp
  qed
  moreover have "size A = size ?B + size (A - ?B)"
    by (metis diff_subset_eq_self size_union subset_mset.add_diff_inverse)
  ultimately show ?case by simp
qed (simp add: clique_def)

lemma place_block_mset [simp]: "mset (concat (place_block b rows)) = add_mset b (mset (concat rows))"
  by (induction rows) auto

lemma place_block_ok:
  "\<forall>r \<in> set rows. row_ok (mset r) \<Longrightarrow> \<forall>r \<in> set (place_block b rows). row_ok (mset r)"
proof (induction rows)
  case Nil
  then show ?case by (simp add: row_ok_def)
next
  case (Cons r rows)
  then show ?case by (auto simp: row_ok_add list_all_iff)
qed

lemma place_block_length:
  "length (place_block b rows) = length rows
   \<or> length (place_block b rows) = Suc (length rows) \<and> (\<forall>r \<in> set rows. \<exists>x \<in> set r. overlaps x b)"
  by (induction rows) (auto simp: list_all_iff)

lemma one_per_row:
  "\<forall>r \<in> set rows. \<exists>x \<in> set r. Q x \<Longrightarrow>
   \<exists>xs. length xs = length rows \<and> mset xs \<subseteq># mset (concat rows) \<and> (\<forall>x \<in> set xs. Q x)"
proof (induction rows)
  case (Cons r rows)
  then obtain xs where xs: "length xs = length rows" "mset xs \<subseteq># mset (concat rows)" "\<forall>x \<in> set xs. Q x"
    by auto
  obtain x where x: "x \<in> set r" "Q x" using Cons.prems by auto
  have "{#x#} + mset xs \<subseteq># mset r + mset (concat rows)"
    by (rule subset_mset.add_mono) (use x xs(2) in simp_all)
  with x xs show ?case by (intro exI [of _ "x # xs"]) simp
qed simp

text \<open>The rows hold the blocks, none overlap within a row, and some clique needs all the rows.\<close>

definition packing :: "channel_block multiset \<Rightarrow> channel_block list list \<Rightarrow> bool" where
  "packing M rows \<longleftrightarrow> mset (concat rows) = M \<and> (\<forall>r \<in> set rows. row_ok (mset r))
     \<and> (\<exists>A. A \<subseteq># M \<and> clique A \<and> size A = length rows)"

lemma clique_around:
  assumes "\<forall>x \<in># M. overlaps x b \<and> startNs x \<le> startNs b"
  shows "clique (add_mset b M)"
  unfolding clique_def
proof (intro allI impI)
  fix x y assume s: "{#x, y#} \<subseteq># add_mset b M"
  consider "{#x, y#} \<subseteq># M" | "x = b" "y \<in># M" | "y = b" "x \<in># M"
    using pair_subset_add [OF s] by blast
  then show "overlaps x y"
  proof cases
    case 1
    then have "x \<in># M" "y \<in># M" by (auto dest: mset_subset_eqD)
    with assms have "startNs x \<le> startNs b" "startNs b < lastNs x" "startNs y \<le> startNs b" "startNs b < lastNs y"
      by (auto simp: overlaps_def)
    then show ?thesis by (simp add: overlaps_def)
  qed (use assms in \<open>auto simp: overlaps_sym\<close>)
qed

lemma packing_place:
  assumes p: "packing M rows" and s: "\<forall>x \<in># M. startNs x \<le> startNs b"
  shows "packing (add_mset b M) (place_block b rows)"
proof -
  obtain A where A: "A \<subseteq># M" "clique A" "size A = length rows" using p by (auto simp: packing_def)
  have "\<exists>A. A \<subseteq># add_mset b M \<and> clique A \<and> size A = length (place_block b rows)"
  proof (cases "length (place_block b rows) = length rows")
    case True
    with A show ?thesis by (metis diff_subset_eq_self add_mset_remove_trivial subset_mset.order_trans)
  next
    case False
    then have n: "length (place_block b rows) = Suc (length rows)"
      and o: "\<forall>r \<in> set rows. \<exists>x \<in> set r. overlaps x b" using place_block_length [of b rows] by auto
    obtain xs where xs: "length xs = length rows" "mset xs \<subseteq># M" "\<forall>x \<in> set xs. overlaps x b"
      using one_per_row [OF o] p by (auto simp: packing_def)
    have "clique (add_mset b (mset xs))"
      by (rule clique_around) (use xs s in \<open>auto dest: mset_subset_eqD\<close>)
    with xs n show ?thesis by (intro exI [of _ "add_mset b (mset xs)"]) simp
  qed
  with p place_block_ok [of rows b] show ?thesis by (simp only: packing_def place_block_mset) blast
qed

abbreviation by_start :: "channel_block \<Rightarrow> channel_block \<Rightarrow> bool" where
  "by_start a b \<equiv> startNs a \<le> startNs b"

lemma set_insert_by [simp]: "set (insert_by le x ys) = insert x (set ys)"
  by (induction ys) auto

lemma block_le_starts: "block_le lc a b \<Longrightarrow> by_start a b" "\<not> block_le lc a b \<Longrightarrow> by_start b a"
  by (auto simp: block_le_def)

lemma insert_by_starts:
  "sorted_wrt by_start xs \<Longrightarrow> sorted_wrt by_start (insert_by (block_le lc) x xs)"
proof (induction xs)
  case (Cons y ys)
  then show ?case using block_le_starts [of lc x y] by (cases "block_le lc x y") force+
qed simp

lemma sort_by_starts: "sorted_wrt by_start (sort_by (block_le lc) xs)"
  by (induction xs) (simp_all add: sort_by_def insert_by_starts)

lemma packing_foldl:
  "sorted_wrt by_start xs \<Longrightarrow> packing (mset xs) (foldl (\<lambda>rows b. place_block b rows) [] xs)"
proof (induction xs rule: rev_induct)
  case Nil
  show ?case by (simp add: packing_def clique_def)
next
  case (snoc x xs)
  then show ?case by (auto simp: sorted_wrt_append intro!: packing_place)
qed

lemma packing_pack_rows: "packing (mset bs) (pack_rows lc bs)"
  using packing_foldl [OF sort_by_starts [of lc bs]] by (simp add: pack_rows_def)

text \<open>No two blocks of a row overlap.\<close>

definition row_free :: "channel_block list \<Rightarrow> bool" where
  "row_free r = sorted_wrt (\<lambda>x y. \<not> overlaps x y) r"

lemma row_free_ok: "row_free r = row_ok (mset r)"
proof (induction r)
  case Nil
  then show ?case by (simp add: row_free_def row_ok_def)
next
  case (Cons x r)
  then show ?case by (auto simp: row_free_def row_ok_add overlaps_sym)
qed

section \<open>Moves keep every block and the rows free\<close>

definition blocks_of :: "channel_block list \<Rightarrow> string list \<Rightarrow> channel_block list" where
  "blocks_of bs r = List.map_filter (by_name bs) r"

definition rows_free :: "channel_block list \<Rightarrow> string list list \<Rightarrow> bool" where
  "rows_free bs rows = list_all (\<lambda>r. row_free (blocks_of bs r)) rows"

lemma row_ok_mono: "row_ok M \<Longrightarrow> N \<subseteq># M \<Longrightarrow> row_ok N"
  unfolding row_ok_def by (meson subset_mset.order_trans)

lemma mset_blocks_of: "mset (blocks_of bs r) = image_mset (\<lambda>c. the (by_name bs c)) (filter_mset (\<lambda>c. by_name bs c \<noteq> None) (mset r))"
  by (simp add: blocks_of_def List.map_filter_def comp_def)

lemma row_free_sub: "mset r \<subseteq># mset s \<Longrightarrow> row_free (blocks_of bs s) \<Longrightarrow> row_free (blocks_of bs r)"
  unfolding row_free_ok mset_blocks_of
  by (erule row_ok_mono) (intro image_mset_subseteq_mono multiset_filter_mono)

lemma row_free_same: "row_free (blocks_of bs (sort_by le r)) = row_free (blocks_of bs r)"
  by (simp add: row_free_ok mset_blocks_of)

lemma row_free_filter: "row_free (blocks_of bs r) \<Longrightarrow> row_free (blocks_of bs (filter P r))"
  by (rule row_free_sub [of _ r]) (simp_all add: multiset_filter_subset)

lemma tidy_rows_free: "rows_free bs rows \<Longrightarrow> rows_free bs (tidy_rows lc bs rows)"
  by (auto simp: rows_free_def tidy_rows_def list_all_iff row_free_same)

lemma emptied_free: "rows_free bs rows \<Longrightarrow> rows_free bs (map (filter P) rows)"
  by (auto simp: rows_free_def list_all_iff row_free_filter)

lemma row_collides_False:
  "row_collides bs b ch r = Some False \<Longrightarrow>
   \<forall>c \<in> set r. c \<noteq> ch \<longrightarrow> (\<exists>x. by_name bs c = Some x \<and> \<not> overlaps x b)"
  by (induction r) (auto split: if_splits option.splits)

lemma blocks_of_append [simp]: "blocks_of bs (r @ s) = blocks_of bs r @ blocks_of bs s"
  by (simp add: blocks_of_def List.map_filter_def)

lemma dropped_row_free:
  assumes free: "row_free (blocks_of bs r)" and b: "by_name bs ch = Some b"
    and no: "row_collides bs b ch r = Some False"
  shows "row_free (blocks_of bs (filter (\<lambda>c. c \<noteq> ch) r @ [ch]))"
proof -
  have "row_ok (mset (blocks_of bs (filter (\<lambda>c. c \<noteq> ch) r)))"
    using row_free_filter [OF free] by (simp add: row_free_ok)
  moreover have "\<forall>x \<in> set (blocks_of bs (filter (\<lambda>c. c \<noteq> ch) r)). \<not> overlaps x b"
    using row_collides_False [OF no] by (auto simp: blocks_of_def List.map_filter_def)
  moreover have "blocks_of bs [ch] = [b]" using b by (simp add: blocks_of_def List.map_filter_def)
  ultimately show ?thesis by (simp add: row_free_ok row_ok_add)
qed

lemma mset_concat_tidy [simp]: "mset (concat (tidy_rows lc bs rows)) = mset (concat rows)"
  by (induction rows) (auto simp: tidy_rows_def)

lemma mset_concat_filter: "mset (concat (map (filter P) rows)) = filter_mset P (mset (concat rows))"
  by (induction rows) auto

lemma mset_concat_append_at:
  "i < length rows \<Longrightarrow> mset (concat (rows[i := rows ! i @ s])) = mset (concat rows) + mset s"
proof (induction rows arbitrary: i)
  case (Cons r rows)
  then show ?case by (cases i) (auto simp: ac_simps)
qed simp

lemma mset_concat_move:
  "mset (concat (moveBlock lc rows bs ch t)) = add_mset ch (filter_mset (\<lambda>c. c \<noteq> ch) (mset (concat rows)))"
proof -
  let ?e = "map (filter (\<lambda>c. c \<noteq> ch)) rows"
  show ?thesis
    using mset_concat_append_at [of t ?e "[ch]"]
    by (simp add: moveBlock_def Let_def mset_concat_filter del: map_update nth_map)
qed

lemma mset_concat_insert:
  "mset (concat (insertBlockAt lc rows bs ch i)) = add_mset ch (filter_mset (\<lambda>c. c \<noteq> ch) (mset (concat rows)))"
proof -
  let ?e = "map (filter (\<lambda>c. c \<noteq> ch)) rows"
  have "mset (concat (take n ?e)) + mset (concat (drop n ?e)) = mset (concat ?e)" for n
    by (metis append_take_drop_id concat_append mset_append)
  then show ?thesis by (simp add: insertBlockAt_def Let_def mset_concat_filter)
qed

text \<open>
  C36. The automatic packing loses no block, never lets two blocks of a track overlap, and uses the
  fewest tracks: every distribution of the blocks over conflict-free tracks has at least as many.
\<close>

theorem packing_is_minimal:
  assumes "mset (concat rows) = mset bs" "list_all row_free rows"
  shows "mset (concat (pack_rows lc bs)) = mset bs \<and> list_all row_free (pack_rows lc bs)
    \<and> length (autoPack lc bs) \<le> length rows"
proof -
  obtain A where A: "A \<subseteq># mset bs" "clique A" "size A = length (pack_rows lc bs)"
    using packing_pack_rows [of bs lc] by (auto simp: packing_def)
  have "size A \<le> length rows"
    by (rule pigeon) (use A assms in \<open>simp_all add: list_all_iff row_free_ok\<close>)
  with A packing_pack_rows [of bs lc] show ?thesis
    by (simp add: packing_def autoPack_def list_all_iff row_free_ok)
qed

lemma packing_is_minimal_witness:
  "length (autoPack (\<lambda>_ _. True)
     [\<lparr>channel = ''a'', startNs = 0, lastNs = 5\<rparr>, \<lparr>channel = ''b'', startNs = 6, lastNs = 9\<rparr>]) \<le> 1"
  using packing_is_minimal
    [of "[[\<lparr>channel = ''a'', startNs = 0, lastNs = 5\<rparr>, \<lparr>channel = ''b'', startNs = 6, lastNs = 9\<rparr>]]"
        "[\<lparr>channel = ''a'', startNs = 0, lastNs = 5\<rparr>, \<lparr>channel = ''b'', startNs = 6, lastNs = 9\<rparr>]"
        "\<lambda>_ _. True"]
  by (simp add: row_free_def overlaps_def)

text \<open>
  A move the collision test lets through keeps the layout free of overlaps and keeps its
  channels: the result holds exactly the channels of the rows, the moved one once.
\<close>

theorem accepted_move_keeps_rows_free:
  assumes "by_name bs ch = Some b" "rows_free bs rows" "dropCollides rows bs ch t = Some False"
  shows "rows_free bs (moveBlock lc rows bs ch t)
    \<and> mset (concat (moveBlock lc rows bs ch t)) = add_mset ch (filter_mset (\<lambda>c. c \<noteq> ch) (mset (concat rows)))"
proof -
  let ?e = "map (filter (\<lambda>c. c \<noteq> ch)) rows"
  have e: "rows_free bs ?e" by (rule emptied_free [OF assms(2)])
  have "rows_free bs (if length ?e \<le> t then ?e @ [[ch]] else ?e[t := ?e ! t @ [ch]])"
  proof (cases "length ?e \<le> t")
    case True
    moreover have "row_free (blocks_of bs [ch])"
      using assms(1) by (simp add: row_free_def blocks_of_def List.map_filter_def)
    ultimately show ?thesis using e by (simp add: rows_free_def)
  next
    case False
    then have t: "t < length rows" by simp
    with assms have "row_collides bs b ch (rows ! t) = Some False" by (simp add: dropCollides_def)
    moreover have "row_free (blocks_of bs (rows ! t))" using assms(2) t by (simp add: rows_free_def list_all_length)
    ultimately have "row_free (blocks_of bs (?e ! t @ [ch]))" using dropped_row_free [OF _ assms(1)] t by simp
    with e False show ?thesis
      by (auto simp: rows_free_def list_all_length nth_list_update simp del: blocks_of_append)
  qed
  then have "rows_free bs (moveBlock lc rows bs ch t)"
    unfolding moveBlock_def Let_def by (rule tidy_rows_free)
  then show ?thesis by (simp only: mset_concat_move simp_thms)
qed

lemma accepted_move_keeps_rows_free_witness:
  "let bs = [\<lparr>channel = ''a'', startNs = 0, lastNs = 5\<rparr>, \<lparr>channel = ''b'', startNs = 6, lastNs = 9\<rparr>]
   in rows_free bs (moveBlock (\<lambda>_ _. True) [[''a''], [''b'']] bs ''b'' 0)"
  using accepted_move_keeps_rows_free
    [of "[\<lparr>channel = ''a'', startNs = 0, lastNs = 5\<rparr>, \<lparr>channel = ''b'', startNs = 6, lastNs = 9\<rparr>]" "''b''"
        "\<lparr>channel = ''b'', startNs = 6, lastNs = 9\<rparr>" "[[''a''], [''b'']]" 0 "\<lambda>_ _. True"]
  by (simp add: Let_def by_name_def rows_free_def row_free_def blocks_of_def List.map_filter_def
      dropCollides_def overlaps_def)

lemma reconciled_layout_matches: "\<not> layoutMismatch (reconcileLayout rows chs) chs"
proof -
  define kept where "kept = filter (\<lambda>r. r \<noteq> []) (map (filter (\<lambda>c. c \<in> set chs)) rows)"
  have k: "set (concat kept) \<subseteq> set chs" by (auto simp: kept_def)
  define missing where "missing = map (\<lambda>c. [c]) (filter (\<lambda>c. c \<notin> set (concat kept)) chs)"
  have all: "set (concat (kept @ missing)) = set chs" using k by (auto simp: missing_def)
  have "reconcileLayout rows chs = (if kept @ missing = [] then [[]] else kept @ missing)"
    unfolding reconcileLayout_def Let_def kept_def missing_def by (rule refl)
  then have "set (concat (reconcileLayout rows chs)) = set chs"
    using all by (cases "kept @ missing = []") (simp_all del: set_concat append_is_Nil_conv)
  then show ?thesis by (auto simp: layoutMismatch_def list_ex_iff)
qed

section \<open>What the tiles show is what is decoded\<close>

fun tile_channels :: "tile \<Rightarrow> string list" where
  "tile_channels (SingleTile _ cs) = cs"
| "tile_channels (PairTile _ _ cs) = cs"

fun slot_channels :: "tile_slot \<Rightarrow> string list" where
  "slot_channels (TileSlot _ t) = tile_channels t"
| "slot_channels (Placeholder _ _ _) = []"

definition shown_for :: "pair_modes \<Rightarrow> string \<Rightarrow> string set" where
  "shown_for pm ch = (case pm ch of
      None \<Rightarrow> {ch} | Some (p, m) \<Rightarrow> if m = Disabled then {ch} else set (pairDecodeChannels p m))"

text \<open>The channels that share a tile with a channel: its pair, unless pairs are not shown as such.\<close>

definition together :: "pair_modes \<Rightarrow> string \<Rightarrow> string set" where
  "together pm ch = (case pm ch of
      None \<Rightarrow> {ch} | Some (p, m) \<Rightarrow> if m = Disabled then {ch} else {left p, right p})"

abbreviation shown :: "tile list \<Rightarrow> string set" where
  "shown ts \<equiv> set (concat (map tile_channels ts))"

abbreviation shown_slots :: "tile_slot list \<Rightarrow> string set" where
  "shown_slots ss \<equiv> set (concat (map slot_channels ss))"

text \<open>The pairs found in a recording: each has its sides' tokens, and no two share a base.\<close>

definition groups_ok :: "(string \<times> pair_group) list \<Rightarrow> bool" where
  "groups_ok gs \<longleftrightarrow> distinct (map fst gs) \<and> (\<forall>(b, g) \<in> set gs.
     (\<forall>l. g_left g = Some l \<longrightarrow> sideOf l = Some (LeftSide, b)) \<and>
     (\<forall>r. g_right g = Some r \<longrightarrow> sideOf r = Some (RightSide, b)))"

lemma groups_ok_update:
  assumes ok: "groups_ok gs" and ch: "sideOf ch = Some (s, b)"
    and g: "g = (case map_of gs b of Some g \<Rightarrow> g | None \<Rightarrow> \<lparr>g_left = None, g_right = None, ambiguous = False\<rparr>)"
  shows "groups_ok (AList.update b (group_add ch s g) gs)"
proof -
  have "(\<forall>l. g_left g = Some l \<longrightarrow> sideOf l = Some (LeftSide, b)) \<and> (\<forall>r. g_right g = Some r \<longrightarrow> sideOf r = Some (RightSide, b))"
    using ok g by (auto simp: groups_ok_def split: option.splits dest!: map_of_SomeD)
  then have new: "(\<forall>l. g_left (group_add ch s g) = Some l \<longrightarrow> sideOf l = Some (LeftSide, b))
      \<and> (\<forall>r. g_right (group_add ch s g) = Some r \<longrightarrow> sideOf r = Some (RightSide, b))"
    using ch by (auto simp: group_add_def split: side.splits option.splits)
  have d: "distinct (map fst (AList.update b (group_add ch s g) gs))"
    using ok by (simp add: groups_ok_def distinct_update)
  have "(\<forall>l. g_left h = Some l \<longrightarrow> sideOf l = Some (LeftSide, c)) \<and> (\<forall>r. g_right h = Some r \<longrightarrow> sideOf r = Some (RightSide, c))"
    if "(c, h) \<in> set (AList.update b (group_add ch s g) gs)" for c h
  proof -
    have "map_of (AList.update b (group_add ch s g) gs) c = Some h" using that d by (simp add: map_of_is_SomeI)
    then have "c = b \<and> h = group_add ch s g \<or> (c, h) \<in> set gs"
      by (auto simp: update_conv split: if_splits dest: map_of_SomeD)
    with new ok show ?thesis by (auto simp: groups_ok_def)
  qed
  with d show ?thesis by (auto simp: groups_ok_def)
qed

lemma groups_ok_pair_groups: "groups_ok gs \<Longrightarrow> groups_ok (pair_groups chs gs)"
proof (induction chs arbitrary: gs)
  case (Cons ch chs)
  show ?case
  proof (cases "sideOf ch")
    case (Some sb)
    obtain s b where "sideOf ch = Some (s, b)" using Some by (cases sb) auto
    with Cons.IH [OF groups_ok_update [OF Cons.prems this refl]] show ?thesis by (simp add: Let_def)
  qed (use Cons in simp)
qed simp

lemma detectPairs_sides:
  assumes "p \<in> set (detectPairs lc chs)"
  shows "sideOf (left p) = Some (LeftSide, base p) \<and> sideOf (right p) = Some (RightSide, base p)"
    and "q \<in> set (detectPairs lc chs) \<Longrightarrow> base p = base q \<Longrightarrow> p = q"
proof -
  have ok: "groups_ok (pair_groups chs [])" by (rule groups_ok_pair_groups) (simp add: groups_ok_def)
  have group: "\<exists>g. (base p, g) \<in> set (pair_groups chs []) \<and> g_left g = Some (left p) \<and> g_right g = Some (right p)"
    if "p \<in> set (detectPairs lc chs)" for p
    using that by (auto simp: detectPairs_def List.map_filter_def split: if_splits option.splits bool.splits) blast
  from group [OF assms] ok
  show "sideOf (left p) = Some (LeftSide, base p) \<and> sideOf (right p) = Some (RightSide, base p)"
    by (auto simp: groups_ok_def)
  assume q: "q \<in> set (detectPairs lc chs)" "base p = base q"
  from group [OF assms] group [OF q(1)] q(2) ok show "p = q"
    by (metis channel_pair.equality groups_ok_def map_of_is_SomeI option.inject old.unit.exhaust)
qed

text \<open>Both sides of a pair lead to the pair, and its base to no other.\<close>

definition paired :: "pair_modes \<Rightarrow> bool" where
  "paired pm \<longleftrightarrow>
     (\<forall>ch p m. pm ch = Some (p, m) \<longrightarrow> ch \<in> {left p, right p} \<and> left p \<noteq> right p
        \<and> pm (left p) = Some (p, m) \<and> pm (right p) = Some (p, m))
     \<and> (\<forall>ch ch' p p' m m'. pm ch = Some (p, m) \<longrightarrow> pm ch' = Some (p', m') \<longrightarrow> base p = base p' \<longrightarrow> p = p')"

lemma pairedD: "paired pm \<Longrightarrow> pm ch = Some (p, m) \<Longrightarrow>
    ch \<in> {left p, right p} \<and> left p \<noteq> right p \<and> pm (left p) = Some (p, m) \<and> pm (right p) = Some (p, m)"
  by (simp add: paired_def)

lemma pairModeOf_from:
  "pairModeOf ps mode ch = Some (p, m) \<Longrightarrow> p \<in> set ps \<and> m = mode \<and> ch \<in> {left p, right p}"
proof (induction ps rule: rev_induct)
  case (snoc q ps)
  then show ?case by (auto simp: pairModeOf_def split: if_splits)
qed (simp add: pairModeOf_def)

lemma pairModeOf_to:
  "p \<in> set ps \<Longrightarrow> ch \<in> {left p, right p} \<Longrightarrow> \<exists>q. pairModeOf ps mode ch = Some (q, mode)"
proof (induction ps rule: rev_induct)
  case (snoc q ps)
  then show ?case by (cases "p \<in> set ps") (auto simp: pairModeOf_def)
qed simp

lemma paired_detected: "paired (pairModeOf (detectPairs lc chs) mode)"
proof -
  let ?ps = "detectPairs lc chs" and ?pm = "pairModeOf (detectPairs lc chs) mode"
  have same: "p = q" if "p \<in> set ?ps" "q \<in> set ?ps" "ch \<in> {left p, right p}" "ch \<in> {left q, right q}" for p q ch
  proof -
    have "base p = base q" using that(3,4) detectPairs_sides(1) [OF that(1)] detectPairs_sides(1) [OF that(2)] by auto
    with detectPairs_sides(2) [OF that(1,2)] show ?thesis by simp
  qed
  have at: "?pm ch = Some (p, mode)" if "p \<in> set ?ps" "ch \<in> {left p, right p}" for p ch
  proof -
    have "\<exists>q. ?pm ch = Some (q, mode)" by (rule pairModeOf_to [OF that])
    then obtain q where q: "?pm ch = Some (q, mode)" by blast
    from pairModeOf_from [OF q] same [OF that(1) _ that(2)] q show ?thesis by auto
  qed
  have "ch \<in> {left p, right p} \<and> left p \<noteq> right p \<and> ?pm (left p) = Some (p, m) \<and> ?pm (right p) = Some (p, m)"
    if "?pm ch = Some (p, m)" for ch p m
    using pairModeOf_from [OF that] detectPairs_sides(1) [of p lc chs] at [of p] by auto
  moreover have "p = p'" if "?pm ch = Some (p, m)" "?pm ch' = Some (p', m')" "base p = base p'" for ch ch' p p' m m'
    using pairModeOf_from [OF that(1)] pairModeOf_from [OF that(2)] that(3) detectPairs_sides(2) by blast
  ultimately show ?thesis unfolding paired_def by blast
qed

lemma shown_compose:
  assumes ok: "paired pm"
  shows "shown (compose_from seen chs pm) = \<Union> (shown_for pm ` (set chs - seen))"
proof (induction chs arbitrary: seen)
  case (Cons ch chs)
  have single: ?case if "shown_for pm ch = {ch}" "ch \<notin> seen"
      "compose_from seen (ch # chs) pm = SingleTile ch [ch] # compose_from (insert ch seen) chs pm"
    using that Cons.IH [of "insert ch seen"] by auto
  show ?case
  proof (cases "ch \<in> seen")
    case True
    with Cons show ?thesis by simp
  next
    case new: False
    show ?thesis
    proof (cases "pm ch")
      case None
      with new show ?thesis by (intro single) (simp_all add: shown_for_def)
    next
      case (Some pr)
      obtain p m where pm: "pm ch = Some (p, m)" using Some by (cases pr) auto
      show ?thesis
      proof (cases "m = Disabled")
        case True
        with new pm show ?thesis by (intro single) (simp_all add: shown_for_def)
      next
        case False
        note r = pairedD [OF ok pm]
        have f: "shown_for pm c = set (pairDecodeChannels p m)" if "c \<in> {left p, right p}" for c
          using that r False by (auto simp: shown_for_def)
        have split: "set (ch # chs) - seen = (set (ch # chs) - seen) \<inter> {left p, right p}
            \<union> (set chs - insert (left p) (insert (right p) seen))"
          using r by auto
        have here: "ch \<in> (set (ch # chs) - seen) \<inter> {left p, right p}" using r new by simp
        have "\<Union> (shown_for pm ` (set (ch # chs) - seen)) = set (pairDecodeChannels p m)
            \<union> \<Union> (shown_for pm ` (set chs - insert (left p) (insert (right p) seen)))"
          by (subst split) (use f here in blast)
        moreover have "shown (compose_from seen (ch # chs) pm) = set (pairDecodeChannels p m)
            \<union> shown (compose_from (insert (left p) (insert (right p) seen)) chs pm)"
          using new pm False by simp
        ultimately show ?thesis using Cons by simp
      qed
    qed
  qed
qed simp

text \<open>The slots show what their active channels call for: a pair in the topmost of its tracks.\<close>

lemma set_activeChannels:
  "set (activeChannels rows bs t en) = {c. Some c \<in> set (map (find (\<lambda>ch. ch \<in> en \<and> spans bs t ch)) rows)}"
  by (auto simp: activeChannels_def List.map_filter_def image_iff) (metis option.sel)+

lemma slot_shows:
  "set (slot_channels (slot_of pm active spanning i row)) = (case active ! i of None \<Rightarrow> {} | Some ch \<Rightarrow>
     (case shown_pair pm (Some ch) of None \<Rightarrow> shown_for pm ch
      | Some b \<Rightarrow> if hosts_pair pm active i b then shown_for pm ch else {}))"
  by (auto simp: slot_of_def shown_pair_def shown_for_def split: option.split)

lemma shown_composeTileSlots:
  assumes ok: "paired pm"
  shows "shown_slots (composeTileSlots rows bs t en pm) = \<Union> (shown_for pm ` set (activeChannels rows bs t en))"
proof -
  define active where "active = map (find (\<lambda>ch. ch \<in> en \<and> spans bs t ch)) rows"
  define slot where "slot i = set (slot_channels (slot_of pm active (map (find (spans bs t)) rows) i (rows ! i)))" for i
  have len: "length active = length rows" by (simp add: active_def)
  have slots: "shown_slots (composeTileSlots rows bs t en pm) = (\<Union>i<length rows. slot i)"
    by (auto simp: composeTileSlots_def slot_def active_def enumerate_eq_zip in_set_zip set_zip Let_def)
  have "slot i \<subseteq> \<Union> (shown_for pm ` {c. Some c \<in> set active})" if "i < length rows" for i
  proof (cases "active ! i")
    case (Some ch)
    then have "Some ch \<in> set active" using that len nth_mem [of i active] by simp
    moreover have "slot i \<subseteq> shown_for pm ch" using Some by (simp add: slot_def slot_shows split: option.split)
    ultimately show ?thesis by blast
  qed (simp add: slot_def slot_shows)
  moreover have "shown_for pm ch \<subseteq> (\<Union>i<length rows. slot i)" if c: "Some ch \<in> set active" for ch
  proof -
    obtain i where i: "i < length rows" "active ! i = Some ch" using c len by (metis in_set_conv_nth)
    show ?thesis
    proof (cases "shown_pair pm (Some ch)")
      case None
      then have "slot i = shown_for pm ch" using i by (simp add: slot_def slot_shows)
      with i show ?thesis by blast
    next
      case (Some b)
      define j where "j = (LEAST j. j < length active \<and> shown_pair pm (active ! j) = Some b)"
      have j: "j < length active" "shown_pair pm (active ! j) = Some b"
        using LeastI [of "\<lambda>j. j < length active \<and> shown_pair pm (active ! j) = Some b" i] i len Some
        by (simp_all add: j_def)
      have "shown_pair pm (active ! k) \<noteq> Some b" if "k < j" for k
        using not_less_Least [of k "\<lambda>j. j < length active \<and> shown_pair pm (active ! j) = Some b"] that j(1)
        by (auto simp: j_def)
      then have hosts: "hosts_pair pm active j b"
        using j(1) by (auto simp: hosts_pair_def in_set_conv_nth) blast
      obtain ch' where ch': "active ! j = Some ch'" using j(2) by (cases "active ! j") (auto simp: shown_pair_def)
      obtain p m where p: "pm ch = Some (p, m)" "m \<noteq> Disabled" "base p = b"
        using Some by (auto simp: shown_pair_def split: option.splits if_splits)
      obtain p' m' where p': "pm ch' = Some (p', m')" "m' \<noteq> Disabled" "base p' = b"
        using j(2) ch' by (auto simp: shown_pair_def split: option.splits if_splits)
      have "p = p'" using ok p p' unfolding paired_def by blast
      then have "m = m'" using pairedD [OF ok p(1)] pairedD [OF ok p'(1)] by simp
      with \<open>p = p'\<close> have "shown_for pm ch' = shown_for pm ch" using p p' by (simp add: shown_for_def)
      then have "slot j = shown_for pm ch" using j(2) ch' hosts by (simp add: slot_def slot_shows)
      with j(1) len show ?thesis by auto
    qed
  qed
  ultimately show ?thesis unfolding slots set_activeChannels active_def [symmetric] by blast
qed

lemma set_decodeSet [simp]: "set (decodeSet lc enabled pm) = {c \<in> set enabled. decoded pm c}"
  by (auto simp: decodeSet_def)

lemma shown_is_decoded:
  assumes "paired pm"
  shows "c \<in> shown_for pm ch \<longleftrightarrow> c \<in> together pm ch \<and> decoded pm c"
proof (cases "pm ch")
  case (Some pr)
  obtain p m where pm: "pm ch = Some (p, m)" using Some by (cases pr) auto
  show ?thesis using pairedD [OF assms pm] pm
    by (cases m) (auto simp: shown_for_def together_def decoded_def)
qed (auto simp: shown_for_def together_def decoded_def)

text \<open>
  C37. For the stereo pairs the viewer finds in a recording and any 3D mode, at every playhead position:
  the track slots show the same channels as the tiles composed from the active channels, and of the
  enabled channels they show exactly those the player is told to decode that are active there or
  share a pair tile with an active one. So no tile waits for an enabled channel that is not decoded;
  the one channel a tile may show without its being decoded is a side of a pair that is switched off.
\<close>

theorem tiles_show_the_decode_set:
  fixes lc chs mode rows bs t enabled
  defines "pm \<equiv> pairModeOf (detectPairs lc chs) mode"
  defines "active \<equiv> activeChannels rows bs t (set enabled)"
  shows "set (concat (map slot_channels (composeTileSlots rows bs t (set enabled) pm)))
       = set (concat (map tile_channels (composeTiles active pm)))
     \<and> set (concat (map slot_channels (composeTileSlots rows bs t (set enabled) pm))) \<inter> set enabled
       = set (decodeSet lc enabled pm) \<inter> \<Union> (together pm ` set active)"
proof -
  have ok: "paired pm" unfolding pm_def by (rule paired_detected)
  have s: "shown_slots (composeTileSlots rows bs t (set enabled) pm) = \<Union> (shown_for pm ` set active)"
    unfolding active_def by (rule shown_composeTileSlots [OF ok])
  moreover have "shown (composeTiles active pm) = \<Union> (shown_for pm ` set active)"
    using shown_compose [OF ok, of "{}" active] by (simp add: composeTiles_def)
  moreover have "\<Union> (shown_for pm ` set active) \<inter> set enabled
      = set (decodeSet lc enabled pm) \<inter> \<Union> (together pm ` set active)"
    using shown_is_decoded [OF ok] by auto
  ultimately show ?thesis by simp
qed

section \<open>The tile order\<close>

lemma keep_order_props:
  "distinct (keep_order seen (int n) xs) \<and> set (keep_order seen (int n) xs) \<inter> seen = {}
   \<and> set (keep_order seen (int n) xs) \<subseteq> {..<n}"
proof (induction xs arbitrary: seen)
  case (Cons x xs)
  have "nat \<lfloor>x\<rfloor> < n" if "x \<in> \<int>" "0 \<le> x" "x < of_int (int n)"
    using that by (auto elim!: Ints_cases)
  with Cons show ?case by (auto simp: Let_def)
qed simp

text \<open>
  Whatever order was stored, the reconciled tile order is a permutation of the tile indices.
\<close>

theorem tile_order_is_a_permutation: "mset (reconcileTileOrder order n) = mset [0..<n]"
proof -
  let ?o = "keep_order {} (int n) order"
  have "distinct (?o @ filter (\<lambda>i. i \<notin> set ?o) [0..<n])" and
    "set (?o @ filter (\<lambda>i. i \<notin> set ?o) [0..<n]) = set [0..<n]"
    using keep_order_props [of "{}" n order] by auto
  then show ?thesis unfolding reconcileTileOrder_def Let_def
    by (metis distinct_upt set_eq_iff_mset_eq_distinct)
qed

end
