(* ===== verification/TileSplit.thy ===== *)
theory TileSplit
  imports Prelude
begin

text \<open>
  The widths of the viewer's preview tiles (\<open>app/src/viewer/tile-split.ts\<close>): fractions of one row.
  Doubles are reals, so an equation holds exactly where the source has it up to rounding; an entry
  of a stored list that is no finite number is \<open>None\<close>. The lemmas show that reconciling always gives
  positive fractions with sum 1, that a divider drag keeps sum and floor, and that the repeated
  lifting to the floor may stop with a tile below it.
\<close>

section \<open>Fractions\<close>

definition MIN_TILE_FRACTION :: real where "MIN_TILE_FRACTION = 6 / 100"

definition equalFractions :: "int \<Rightarrow> real list" where
  "equalFractions n = (if n \<le> 0 then [] else if n \<le> 1 then [1] else replicate (nat n) (1 / of_int n))"

definition isValidFractions :: "real option list \<Rightarrow> int \<Rightarrow> bool" where
  "isValidFractions fr n \<longleftrightarrow> int (length fr) = n \<and>
     (let least = (if 1 \<le> of_int n * MIN_TILE_FRACTION then 0 else MIN_TILE_FRACTION - 1 / 10 ^ 9)
      in list_all (\<lambda>f. case f of None \<Rightarrow> False | Some x \<Rightarrow> least \<le> x \<and> 0 < x) fr)
     \<and> \<bar>sum_list (map the fr) - 1\<bar> < 1 / 10 ^ 6"

text \<open>One pass lifts what is below the floor and scales the rest; \<open>n\<close> passes at most.\<close>

definition under_floor :: "real \<Rightarrow> bool" where
  "under_floor f \<longleftrightarrow> f < MIN_TILE_FRACTION"

definition lift_pass :: "real list \<Rightarrow> real list" where
  "lift_pass fr = (let floored = real (length (filter under_floor fr));
       freeSum = sum_list (filter (\<lambda>f. \<not> under_floor f) fr);
       remaining = 1 - floored * MIN_TILE_FRACTION;
       scale = (if 0 < freeSum then remaining / freeSum else 0)
     in map (\<lambda>f. if under_floor f then MIN_TILE_FRACTION else f * scale) fr)"

fun lift_passes :: "nat \<Rightarrow> real list \<Rightarrow> real list" where
  "lift_passes 0 fr = fr"
| "lift_passes (Suc k) fr = (if list_ex under_floor fr then lift_passes k (lift_pass fr) else fr)"

definition normalizeToFloor :: "real list \<Rightarrow> real list" where
  "normalizeToFloor weights = (let n = length weights; total = sum_list weights
     in if n = 0 then [] else if n = 1 then [1]
        else if 1 \<le> real n * MIN_TILE_FRACTION then equalFractions (int n)
        else if \<not> 0 < total then equalFractions (int n)
        else lift_passes n (map (\<lambda>w. w / total) weights))"

definition reconcileFractions :: "real option list option \<Rightarrow> int \<Rightarrow> real list" where
  "reconcileFractions fr n =
     (if n \<le> 0 then [] else if n = 1 then [1]
      else case fr of
        Some l \<Rightarrow> if isValidFractions l n then map the l else
          (let usable = filter (\<lambda>f. 0 < f) (List.map_filter id l); weights = take (nat n) usable;
               fill = (if weights \<noteq> [] then sum_list weights / real (length weights) else 1 / of_int n)
           in normalizeToFloor (weights @ replicate (nat n - length weights) fill))
      | None \<Rightarrow> normalizeToFloor (replicate (nat n) (1 / of_int n)))"

definition resizeAtDivider :: "real list \<Rightarrow> int \<Rightarrow> real option \<Rightarrow> real list" where
  "resizeAtDivider fr i delta =
     (if i < 0 \<or> int (length fr) - 1 \<le> i then fr
      else case delta of
        None \<Rightarrow> fr
      | Some x \<Rightarrow>
          let k = nat i; a = fr ! k; b = fr ! Suc k; lo = MIN_TILE_FRACTION - a;
              hi = b - MIN_TILE_FRACTION; d = max lo (min hi x)
          in fr[k := a + d, Suc k := b - d])"

section \<open>Reconciling gives a split\<close>

text \<open>Positive fractions with sum 1.\<close>

definition is_split :: "real list \<Rightarrow> bool" where
  "is_split fr \<longleftrightarrow> list_all (\<lambda>f. 0 < f) fr \<and> sum_list fr = 1"

lemma sum_lifted: "sum_list (map (\<lambda>f. if P f then c else f * (s :: real)) fr)
    = real (length (filter P fr)) * c + sum_list (filter (\<lambda>f. \<not> P f) fr) * s"
  by (induction fr) (simp_all add: algebra_simps)

lemma length_lift_pass [simp]: "length (lift_pass fr) = length fr"
  by (simp add: lift_pass_def Let_def)

lemma length_lift_passes [simp]: "length (lift_passes k fr) = length fr"
  by (induction k fr rule: lift_passes.induct) simp_all

lemma sum_below: "list_all under_floor fr \<Longrightarrow> sum_list fr \<le> real (length fr) * MIN_TILE_FRACTION"
  by (induction fr) (auto simp: under_floor_def algebra_simps)

lemma sum_list_pos: "list_all (\<lambda>f. 0 < f) fr \<Longrightarrow> fr \<noteq> [] \<Longrightarrow> 0 < (sum_list fr :: real)"
proof (induction fr)
  case (Cons f fr)
  then show ?case by (cases "fr = []") (auto intro: add_pos_pos)
qed simp

lemma lift_pass_split:
  assumes s: "is_split fr" and n: "real (length fr) * MIN_TILE_FRACTION < 1"
  shows "is_split (lift_pass fr)"
proof -
  let ?free = "filter (\<lambda>f. \<not> under_floor f) fr" and ?k = "length (filter under_floor fr)"
  have "\<not> list_all under_floor fr" using sum_below [of fr] s n by (auto simp: is_split_def)
  then have "?free \<noteq> []" by (auto simp: filter_empty_conv list_all_iff)
  moreover have "list_all (\<lambda>f. 0 < f) ?free" using s by (auto simp: is_split_def list_all_iff)
  ultimately have f: "0 < sum_list ?free" by (rule sum_list_pos [rotated])
  have "real ?k * MIN_TILE_FRACTION \<le> real (length fr) * MIN_TILE_FRACTION"
    by (rule mult_right_mono) (simp_all add: MIN_TILE_FRACTION_def)
  with n have r: "0 < 1 - real ?k * MIN_TILE_FRACTION" by simp
  define c where "c = (1 - real ?k * MIN_TILE_FRACTION) / sum_list ?free"
  have c: "0 < c" using f r by (simp add: c_def)
  have eq: "lift_pass fr = map (\<lambda>f. if under_floor f then MIN_TILE_FRACTION else f * c) fr"
    using f by (simp add: lift_pass_def Let_def c_def)
  have "sum_list (lift_pass fr) = 1"
    unfolding eq sum_lifted using f by (simp add: c_def)
  moreover have "list_all (\<lambda>f. 0 < f) (lift_pass fr)"
    unfolding eq using s c by (auto simp: is_split_def list_all_iff MIN_TILE_FRACTION_def)
  ultimately show ?thesis by (simp add: is_split_def)
qed

lemma lift_passes_split:
  "is_split fr \<Longrightarrow> real (length fr) * MIN_TILE_FRACTION < 1 \<Longrightarrow> is_split (lift_passes k fr)"
  by (induction k fr rule: lift_passes.induct) (simp_all add: lift_pass_split)

lemma equal_split: "1 \<le> n \<Longrightarrow> is_split (equalFractions n) \<and> length (equalFractions n) = nat n"
  by (auto simp: equalFractions_def is_split_def list_all_iff sum_list_replicate)

lemma scaled_split:
  "list_all (\<lambda>f. 0 < f) ws \<Longrightarrow> ws \<noteq> [] \<Longrightarrow> is_split (map (\<lambda>w. w / sum_list ws) ws)"
  using sum_list_pos [of ws] sum_list_mult_const [of id "1 / sum_list ws" ws]
  by (auto simp: is_split_def list_all_iff)

lemma normalize_split:
  assumes "list_all (\<lambda>f. 0 < f) ws" "ws \<noteq> []"
  shows "is_split (normalizeToFloor ws) \<and> length (normalizeToFloor ws) = length ws"
proof -
  consider "length ws = 1" | "length ws \<noteq> 1" "1 \<le> real (length ws) * MIN_TILE_FRACTION"
    | "length ws \<noteq> 1" "real (length ws) * MIN_TILE_FRACTION < 1" by linarith
  then show ?thesis
  proof cases
    case 1
    then show ?thesis by (simp add: normalizeToFloor_def is_split_def)
  next
    case 2
    have "1 \<le> int (length ws)" using assms(2) by (cases ws) simp_all
    with 2 assms(2) equal_split [of "int (length ws)"] show ?thesis by (simp add: normalizeToFloor_def)
  next
    case 3
    with assms sum_list_pos [OF assms] scaled_split [OF assms] show ?thesis
      by (simp add: normalizeToFloor_def lift_passes_split)
  qed
qed

lemma salvaged_weights:
  assumes n: "1 \<le> n" and pos: "list_all (\<lambda>f. 0 < f) us"
  defines "ws \<equiv> take (nat n) us"
  defines "fill \<equiv> (if ws \<noteq> [] then sum_list ws / real (length ws) else 1 / of_int n)"
  shows "list_all (\<lambda>f. 0 < f) (ws @ replicate (nat n - length ws) fill)"
    and "length (ws @ replicate (nat n - length ws) fill) = nat n"
proof -
  have w: "list_all (\<lambda>f. 0 < f) ws" unfolding ws_def using pos by (auto simp: list_all_iff dest: in_set_takeD)
  have "0 < fill" unfolding fill_def using sum_list_pos [OF w] n by simp
  with w show "list_all (\<lambda>f. 0 < f) (ws @ replicate (nat n - length ws) fill)" by (auto simp: list_all_iff)
  show "length (ws @ replicate (nat n - length ws) fill) = nat n" by (simp add: ws_def)
qed

lemma reconcile_split:
  assumes n: "1 \<le> n" and fr: "case fr of None \<Rightarrow> True | Some l \<Rightarrow> \<not> isValidFractions l n"
  shows "is_split (reconcileFractions fr n) \<and> length (reconcileFractions fr n) = nat n"
proof (cases "n = 1")
  case True
  then show ?thesis by (simp add: reconcileFractions_def is_split_def)
next
  case False
  show ?thesis
  proof (cases fr)
    case None
    have "list_all (\<lambda>f. 0 < f) (replicate (nat n) (1 / of_int n :: real))" "replicate (nat n) (1 / of_int n :: real) \<noteq> []"
      using n by (simp_all add: list_all_iff)
    from normalize_split [OF this] show ?thesis using None n False by (simp add: reconcileFractions_def)
  next
    case (Some l)
    let ?us = "filter (\<lambda>f. 0 < f) (List.map_filter id l)"
    have pos: "list_all (\<lambda>f. 0 < f) ?us" by (simp add: list_all_iff)
    note w = salvaged_weights [OF n pos]
    have "is_split (reconcileFractions fr n)" "length (reconcileFractions fr n) = nat n"
      using normalize_split [OF w(1)] w(2) Some n False fr
      by (auto simp: reconcileFractions_def Let_def simp del: length_append)
    then show ?thesis by simp
  qed
qed

text \<open>
  Whatever was stored, reconciling to a positive number of tiles gives that many positive
  fractions whose sum is 1 within a millionth.
\<close>

theorem reconciled_split_fills_the_row:
  assumes "1 \<le> n"
  shows "int (length (reconcileFractions fr n)) = n \<and> list_all (\<lambda>f. 0 < f) (reconcileFractions fr n)
    \<and> \<bar>sum_list (reconcileFractions fr n) - 1\<bar> < 1 / 10 ^ 6"
proof (cases "case fr of None \<Rightarrow> True | Some l \<Rightarrow> \<not> isValidFractions l n")
  case True
  from reconcile_split [OF assms this] assms show ?thesis by (simp add: is_split_def)
next
  case False
  then obtain l where l: "fr = Some l" "isValidFractions l n" by (auto split: option.splits)
  show ?thesis
  proof (cases "n = 1")
    case True
    then show ?thesis by (simp add: reconcileFractions_def)
  next
    case n: False
    have "list_all (\<lambda>f. 0 < f) (map the l)"
      using l(2) by (auto simp: isValidFractions_def Let_def list_all_iff split: option.splits)
    with l n assms show ?thesis by (simp add: reconcileFractions_def isValidFractions_def)
  qed
qed

lemma reconciled_split_fills_the_row_witness:
  "list_all (\<lambda>f. 0 < f) (reconcileFractions (Some [Some (1 / 2), None]) 3)"
  using reconciled_split_fills_the_row [of 3 "Some [Some (1 / 2), None]"] by simp

section \<open>Dragging a divider\<close>

lemma resize_cases:
  obtains "resizeAtDivider fr i delta = fr"
  | k d where "Suc k < length fr" "resizeAtDivider fr i delta = fr[k := fr ! k + d, Suc k := fr ! Suc k - d]"
      "d = max (MIN_TILE_FRACTION - fr ! k) (min (fr ! Suc k - MIN_TILE_FRACTION) (the delta))"
proof (cases "i < 0 \<or> int (length fr) - 1 \<le> i \<or> delta = None")
  case True
  then show ?thesis using that(1) by (auto simp: resizeAtDivider_def split: option.splits)
next
  case False
  then obtain x where x: "delta = Some x" by auto
  show ?thesis
    by (rule that(2) [of "nat i"]) (use False x in \<open>auto simp: resizeAtDivider_def Let_def\<close>)
qed

lemma sum_transfer:
  "Suc k < length fr \<Longrightarrow> sum_list (fr[k := fr ! k + d, Suc k := fr ! Suc k - (d :: real)]) = sum_list fr"
proof (induction fr arbitrary: k)
  case (Cons f fr)
  then show ?case by (cases k; cases fr) auto
qed simp

text \<open>
  A divider drag, however far, keeps the number of tiles and the sum of their fractions, and
  leaves no tile below the floor if none was.
\<close>

theorem divider_drag_keeps_split:
  assumes "list_all (\<lambda>f. MIN_TILE_FRACTION \<le> f) fr"
  shows "length (resizeAtDivider fr i delta) = length fr
    \<and> sum_list (resizeAtDivider fr i delta) = sum_list fr
    \<and> list_all (\<lambda>f. MIN_TILE_FRACTION \<le> f) (resizeAtDivider fr i delta)"
proof (cases rule: resize_cases [of fr i delta])
  case 1
  with assms show ?thesis by simp
next
  case (2 k d)
  have "MIN_TILE_FRACTION \<le> fr ! k" "MIN_TILE_FRACTION \<le> fr ! Suc k"
    using assms 2(1) by (auto simp: list_all_length)
  then have "MIN_TILE_FRACTION \<le> fr ! k + d" "MIN_TILE_FRACTION \<le> fr ! Suc k - d"
    using 2(3) by linarith+
  with assms 2(1) sum_transfer [OF 2(1), of d] show ?thesis
    unfolding 2(2) by (auto simp: list_all_length nth_list_update)
qed

lemma divider_drag_keeps_split_witness:
  "list_all (\<lambda>f. MIN_TILE_FRACTION \<le> f) (resizeAtDivider [1 / 2, 1 / 4, 1 / 4] 1 (Some (- 3)))"
  using divider_drag_keeps_split [of "[1 / 2, 1 / 4, 1 / 4]" 1 "Some (- 3)"]
  by (simp add: MIN_TILE_FRACTION_def)

section \<open>The floor can be missed\<close>

lemma lift_example:
  "lift_pass [1 / 25, 3 / 50, 9 / 10] = [3 / 50, 47 / 800, 141 / 160]"
    "lift_pass [3 / 50, 47 / 800, 141 / 160] = [376 / 6275, 3 / 50, 2209 / 2510]"
    "lift_pass [376 / 6275, 3 / 50, 2209 / 2510] = [3 / 50, 35391 / 589900, 103823 / 117980]"
  by (simp_all add: lift_pass_def under_floor_def MIN_TILE_FRACTION_def)

text \<open>
  The lifting passes scale the tiles lifted before, so three tiles, the last pass spent, end with
  one below the floor: the reconciled list is not a valid one.
\<close>

theorem reconcile_misses_floor:
  "let fr = reconcileFractions (Some [Some (1 / 25), Some (3 / 50), Some (9 / 10)]) 3
   in list_ex under_floor fr \<and> \<not> isValidFractions (map Some fr) 3"
proof -
  have "reconcileFractions (Some [Some (1 / 25), Some (3 / 50), Some (9 / 10)]) 3 = [3 / 50, 35391 / 589900, 103823 / 117980]"
    by (simp add: reconcileFractions_def isValidFractions_def normalizeToFloor_def Let_def
        MIN_TILE_FRACTION_def List.map_filter_simps under_floor_def eval_nat_numeral lift_example)
  then show ?thesis by (simp add: isValidFractions_def under_floor_def MIN_TILE_FRACTION_def Let_def)
qed

end
