(* ===== verification/Pid.thy ===== *)
theory Pid
  imports Prelude
begin

text \<open>
  The PID controllers (\<open>app/lib/pid.ts\<close>, \<open>clamp\<close> of \<open>app/lib/util/math.ts\<close>). Numbers are finite reals;
  a bound is \<open>None\<close> where the source has an infinity. The lemmas show that the integrator and the
  output never leave their limits, that the two derivative sources agree at a constant setpoint, and
  that the filter bounds the derivative whatever the time step.
\<close>

section \<open>Clamping\<close>

type_synonym bounds = "real option \<times> real option"

fun clamp :: "real \<Rightarrow> bounds \<Rightarrow> real" where
  "clamp v (lo, hi) =
     (if (case lo of None \<Rightarrow> False | Some l \<Rightarrow> v < l) then the lo
      else if (case hi of None \<Rightarrow> False | Some h \<Rightarrow> h < v) then the hi else v)"

fun inside :: "real \<Rightarrow> bounds \<Rightarrow> bool" where
  "inside v (lo, hi) \<longleftrightarrow> (case lo of None \<Rightarrow> True | Some l \<Rightarrow> l \<le> v) \<and> (case hi of None \<Rightarrow> True | Some h \<Rightarrow> v \<le> h)"

fun bounds_ok :: "bounds \<Rightarrow> bool" where
  "bounds_ok (Some l, Some h) \<longleftrightarrow> l \<le> h"
| "bounds_ok _ \<longleftrightarrow> True"

lemma clamp_inside [simp]: "bounds_ok b \<Longrightarrow> inside (clamp v b) b"
  by (cases b rule: bounds_ok.cases) (auto split: option.splits)

lemma clamp_id [simp]: "inside v b \<Longrightarrow> clamp v b = v"
  by (cases b) (auto split: option.splits)

section \<open>The controller\<close>

definition UNBOUNDED :: bounds where "UNBOUNDED = (None, None)"

definition DERIVATIVE_TAU :: real where "DERIVATIVE_TAU = 2"

datatype derivative_source = OnError | OnMeasurement

record pid_params =
  p_kp :: real
  p_ki :: real
  p_kd :: real
  p_limits :: "bounds option"
  p_integralLimits :: "bounds option"

record pid_options =
  o_kp :: "real option"
  o_ki :: "real option"
  o_kd :: "real option"
  o_limits :: "bounds option"
  o_integralLimits :: "bounds option"
  o_initial :: "real option"
  o_dTau :: "real option"
  o_derivativeOn :: "derivative_source option"

record pid =
  kp :: real
  ki :: real
  kd :: real
  limits :: bounds
  integralLimits :: bounds
  dTau :: real
  derivativeOn :: derivative_source
  integral :: real
  prevD :: "real option"
  dFiltered :: real

definition or_default :: "'a \<Rightarrow> 'a option \<Rightarrow> 'a" where
  "or_default d x = (case x of None \<Rightarrow> d | Some v \<Rightarrow> v)"

definition new_pid :: "pid_options \<Rightarrow> pid" where
  "new_pid opts = (let ls = or_default UNBOUNDED (o_limits opts); il = or_default ls (o_integralLimits opts)
     in \<lparr>kp = or_default 0 (o_kp opts), ki = or_default 0 (o_ki opts), kd = or_default 0 (o_kd opts),
         limits = ls, integralLimits = il, dTau = or_default DERIVATIVE_TAU (o_dTau opts),
         derivativeOn = or_default OnError (o_derivativeOn opts),
         integral = clamp (or_default 0 (o_initial opts)) il, prevD = None, dFiltered = 0\<rparr>)"

definition get_value :: "pid \<Rightarrow> real" where
  "get_value p = integral p"

definition set_value :: "real \<Rightarrow> pid \<Rightarrow> pid" where
  "set_value v p = p\<lparr>integral := clamp v (integralLimits p)\<rparr>"

definition reset :: "real option \<Rightarrow> pid \<Rightarrow> pid" where
  "reset v p = p\<lparr>integral := clamp (or_default 0 v) (integralLimits p), prevD := None, dFiltered := 0\<rparr>"

definition setLimits :: "bounds \<Rightarrow> bounds option \<Rightarrow> pid \<Rightarrow> pid" where
  "setLimits ls il p = (let i = or_default ls il
     in p\<lparr>limits := ls, integralLimits := i, integral := clamp (integral p) i\<rparr>)"

definition setParams :: "pid_params \<Rightarrow> pid \<Rightarrow> pid" where
  "setParams q p = (let il = (case p_integralLimits q of Some i \<Rightarrow> i
         | None \<Rightarrow> or_default (integralLimits p) (p_limits q))
     in p\<lparr>kp := p_kp q, ki := p_ki q, kd := p_kd q, limits := or_default (limits p) (p_limits q),
          integralLimits := il, integral := clamp (integral p) il\<rparr>)"

text \<open>The source the derivative differentiates; \<open>None\<close> when a measurement is missing.\<close>

definition d_source :: "pid \<Rightarrow> real \<Rightarrow> real option \<Rightarrow> real option" where
  "d_source p error measurement = (case derivativeOn p of
      OnMeasurement \<Rightarrow> map_option uminus measurement
    | OnError \<Rightarrow> Some error)"

definition filtered :: "pid \<Rightarrow> real \<Rightarrow> real \<Rightarrow> real \<Rightarrow> real" where
  "filtered p x prev dt = (let raw = (x - prev) / dt;
       alpha = (if 0 < dTau p then dt / (dt + dTau p) else 1)
     in dFiltered p + alpha * (raw - dFiltered p))"

definition differentiate :: "real option \<Rightarrow> real \<Rightarrow> pid \<Rightarrow> pid \<times> real" where
  "differentiate src dt p = (case src of
      None \<Rightarrow> (p, 0)
    | Some x \<Rightarrow> (case prevD p of
          None \<Rightarrow> (p\<lparr>prevD := Some x\<rparr>, 0)
        | Some prev \<Rightarrow>
            if kd p \<noteq> 0 \<and> 0 < dt
            then (p\<lparr>dFiltered := filtered p x prev dt, prevD := Some x\<rparr>, filtered p x prev dt)
            else (p\<lparr>prevD := Some x\<rparr>, 0)))"

definition step :: "real \<Rightarrow> real \<Rightarrow> real option \<Rightarrow> pid \<Rightarrow> pid \<times> real" where
  "step error dt measurement p =
     (let p1 = p\<lparr>integral := clamp (integral p + ki p * error * dt) (integralLimits p)\<rparr>
      in case differentiate (d_source p1 error measurement) dt p1 of
           (p2, derivative) \<Rightarrow> (p2, clamp (kp p2 * error + integral p2 + kd p2 * derivative) (limits p2)))"

section \<open>Two axes\<close>

record pid2d =
  px :: pid
  py :: pid

definition new_pid2d :: "pid_options \<Rightarrow> pid_options \<Rightarrow> pid2d" where
  "new_pid2d x y = \<lparr>px = new_pid x, py = new_pid y\<rparr>"

definition setParams2d :: "pid_params option \<Rightarrow> pid_params option \<Rightarrow> pid2d \<Rightarrow> pid2d" where
  "setParams2d x y p = \<lparr>px = (case x of None \<Rightarrow> px p | Some q \<Rightarrow> setParams q (px p)),
     py = (case y of None \<Rightarrow> py p | Some q \<Rightarrow> setParams q (py p))\<rparr>"

definition step2d :: "real \<times> real \<Rightarrow> real \<Rightarrow> (real \<times> real) option \<Rightarrow> pid2d \<Rightarrow> pid2d \<times> (real \<times> real)" where
  "step2d error dt measurement p =
     (case step (fst error) dt (map_option fst measurement) (px p) of (x, ox) \<Rightarrow>
      case step (snd error) dt (map_option snd measurement) (py p) of (y, oy) \<Rightarrow>
        (\<lparr>px = x, py = y\<rparr>, (ox, oy)))"

definition get_value2d :: "pid2d \<Rightarrow> real \<times> real" where
  "get_value2d p = (get_value (px p), get_value (py p))"

definition set_value2d :: "real \<times> real \<Rightarrow> pid2d \<Rightarrow> pid2d" where
  "set_value2d v p = \<lparr>px = set_value (fst v) (px p), py = set_value (snd v) (py p)\<rparr>"

definition reset2d :: "(real \<times> real) option \<Rightarrow> pid2d \<Rightarrow> pid2d" where
  "reset2d v p = \<lparr>px = reset (map_option fst v) (px p), py = reset (map_option snd v) (py p)\<rparr>"

section \<open>The limits hold\<close>

datatype pid_op = SetValue real | Reset "real option" | SetLimits bounds "bounds option"
  | SetParams pid_params | Step real real "real option"

fun pid_step :: "pid \<Rightarrow> pid_op \<Rightarrow> pid" where
  "pid_step p (SetValue v) = set_value v p"
| "pid_step p (Reset v) = reset v p"
| "pid_step p (SetLimits ls il) = setLimits ls il p"
| "pid_step p (SetParams q) = setParams q p"
| "pid_step p (Step e dt m) = fst (step e dt m p)"

fun op_ok :: "pid_op \<Rightarrow> bool" where
  "op_ok (SetLimits ls il) \<longleftrightarrow> bounds_ok ls \<and> bounds_ok (or_default ls il)"
| "op_ok (SetParams q) \<longleftrightarrow> bounds_ok (or_default UNBOUNDED (p_limits q))
     \<and> bounds_ok (or_default UNBOUNDED (p_integralLimits q))"
| "op_ok _ \<longleftrightarrow> True"

definition pid_ok :: "pid \<Rightarrow> bool" where
  "pid_ok p \<longleftrightarrow> bounds_ok (limits p) \<and> bounds_ok (integralLimits p) \<and> inside (integral p) (integralLimits p)"

lemmas pid_defs = set_value_def reset_def setLimits_def setParams_def step_def differentiate_def
  d_source_def or_default_def Let_def

lemma step_parts:
  "limits (fst (step e dt m p)) = limits p" "integralLimits (fst (step e dt m p)) = integralLimits p"
  "integral (fst (step e dt m p)) = clamp (integral p + ki p * e * dt) (integralLimits p)"
  by (simp_all add: step_def differentiate_def Let_def split: option.split)

lemma pid_step_ok: "pid_ok p \<Longrightarrow> op_ok e \<Longrightarrow> pid_ok (pid_step p e)"
  by (cases e) (auto simp: pid_ok_def step_parts set_value_def reset_def setLimits_def setParams_def
      or_default_def Let_def split: option.splits)

lemma output_inside: "bounds_ok (limits p) \<Longrightarrow> inside (snd (step e dt m p)) (limits p)"
  by (simp add: step_def differentiate_def Let_def split: option.split)

interpretation controller: guarded_machine pid_step pid_ok op_ok
  by unfold_locales (rule pid_step_ok)

definition options_ok :: "pid_options \<Rightarrow> bool" where
  "options_ok opts \<longleftrightarrow> bounds_ok (or_default UNBOUNDED (o_limits opts))
     \<and> bounds_ok (or_default (or_default UNBOUNDED (o_limits opts)) (o_integralLimits opts))"

lemma new_pid_ok: "options_ok opts \<Longrightarrow> pid_ok (new_pid opts)"
  by (simp add: options_ok_def pid_ok_def new_pid_def Let_def)

text \<open>
  After every history of steps, resets, assignments and retunings with ordered limits the
  integrator lies in its limits and so does the next output in its own.
\<close>

theorem command_stays_in_limits:
  fixes opts es
  defines "p \<equiv> run pid_step (new_pid opts) es"
  assumes "options_ok opts" and "list_all op_ok es"
  shows "inside (get_value p) (integralLimits p) \<and> inside (snd (step e dt m p)) (limits p)"
proof -
  have "pid_ok p" unfolding p_def by (rule controller.run_inv [OF new_pid_ok [OF assms(2)] assms(3)])
  then show ?thesis by (simp add: pid_ok_def output_inside get_value_def)
qed

lemma command_stays_in_limits_witness:
  "inside (get_value (run pid_step (new_pid \<lparr>o_kp = Some 1, o_ki = Some 1, o_kd = None,
      o_limits = Some (Some 0, Some 3), o_integralLimits = None, o_initial = None, o_dTau = None,
      o_derivativeOn = None\<rparr>) [Step 10 1 None])) (Some 0, Some 3)"
  using command_stays_in_limits [of "\<lparr>o_kp = Some 1, o_ki = Some 1, o_kd = None,
      o_limits = Some (Some 0, Some 3), o_integralLimits = None, o_initial = None, o_dTau = None,
      o_derivativeOn = None\<rparr>" "[Step 10 1 None]"]
  by (simp add: options_ok_def or_default_def step_parts get_value_def new_pid_def Let_def)

section \<open>The derivative\<close>

fun outputs :: "pid \<Rightarrow> (real \<times> real \<times> real option) list \<Rightarrow> real list" where
  "outputs p [] = []"
| "outputs p ((e, dt, m) # xs) = snd (step e dt m p) # outputs (fst (step e dt m p)) xs"

text \<open>Two controllers that differ in the derivative source, the setpoint being \<open>sp\<close>.\<close>

definition same_but_source :: "real \<Rightarrow> pid \<Rightarrow> pid \<Rightarrow> bool" where
  "same_but_source sp p q \<longleftrightarrow> derivativeOn p = OnError \<and> derivativeOn q = OnMeasurement
     \<and> p\<lparr>derivativeOn := OnMeasurement, prevD := None\<rparr> = q\<lparr>prevD := None\<rparr>
     \<and> prevD p = map_option ((+) sp) (prevD q)"

lemma same_step:
  assumes "same_but_source sp p q"
  shows "snd (step (sp - m) dt (Some m) p) = snd (step (sp - m) dt (Some m) q)
    \<and> same_but_source sp (fst (step (sp - m) dt (Some m) p)) (fst (step (sp - m) dt (Some m) q))"
  using assms by (cases p; cases q; cases "prevD q")
    (auto simp: same_but_source_def step_def differentiate_def d_source_def filtered_def Let_def)

text \<open>
  While the setpoint is constant, differentiating the measurement gives the same outputs as
  differentiating the error.
\<close>

theorem derivative_sources_agree:
  fixes p sp ms
  defines "xs \<equiv> map (\<lambda>(m, dt). (sp - m, dt, Some m)) ms"
  assumes "prevD p = None"
  shows "outputs (p\<lparr>derivativeOn := OnError\<rparr>) xs = outputs (p\<lparr>derivativeOn := OnMeasurement\<rparr>) xs"
proof -
  have "same_but_source sp a b \<Longrightarrow> outputs a xs = outputs b xs" for a b
    unfolding xs_def
  proof (induction ms arbitrary: a b)
    case (Cons x ms)
    obtain m dt where x: "x = (m, dt)" by (cases x) auto
    from same_step [OF Cons.prems, of m dt] Cons.IH show ?case by (simp add: x)
  qed simp
  moreover have "same_but_source sp (p\<lparr>derivativeOn := OnError\<rparr>) (p\<lparr>derivativeOn := OnMeasurement\<rparr>)"
    using assms(2) by (simp add: same_but_source_def)
  ultimately show ?thesis by blast
qed

lemma derivative_sources_agree_witness:
  "let p = new_pid \<lparr>o_kp = Some 1, o_ki = None, o_kd = Some 2, o_limits = None, o_integralLimits = None,
        o_initial = None, o_dTau = Some 0, o_derivativeOn = None\<rparr>
   in outputs p [(5, 1, Some 1), (4, 1, Some 2)] = [5, 2]
    \<and> outputs (p\<lparr>derivativeOn := OnMeasurement\<rparr>) [(5, 1, Some 1), (4, 1, Some 2)] = [5, 2]"
proof -
  let ?p = "new_pid \<lparr>o_kp = Some 1, o_ki = None, o_kd = Some 2, o_limits = None, o_integralLimits = None,
        o_initial = None, o_dTau = Some 0, o_derivativeOn = None\<rparr>"
  have e: "outputs ?p [(5, 1, Some 1), (4, 1, Some 2)] = [5, 2]"
    by (simp add: new_pid_def UNBOUNDED_def pid_defs filtered_def)
  have "prevD ?p = None" by (simp add: new_pid_def Let_def)
  from derivative_sources_agree [OF this, of 6 "[(1, 1), (2, 1)]"]
  have "outputs (?p\<lparr>derivativeOn := OnError\<rparr>) [(5, 1, Some 1), (4, 1, Some 2)]
      = outputs (?p\<lparr>derivativeOn := OnMeasurement\<rparr>) [(5, 1, Some 1), (4, 1, Some 2)]" by simp
  moreover have "?p\<lparr>derivativeOn := OnError\<rparr> = ?p" by (simp add: new_pid_def Let_def or_default_def)
  ultimately show ?thesis using e by (simp add: Let_def)
qed

text \<open>
  With a positive time constant one step changes the filtered derivative by no more than the
  change of its source over that constant, however short the time step.
\<close>

theorem short_steps_do_not_kick:
  assumes "0 < dTau p" "prevD p = Some x" "d_source p e m = Some y"
  shows "\<bar>dFiltered (fst (step e dt m p))\<bar> \<le> \<bar>dFiltered p\<bar> + \<bar>y - x\<bar> / dTau p"
proof (cases "kd p \<noteq> 0 \<and> 0 < dt")
  case False
  have "dFiltered (fst (step e dt m p)) = dFiltered p"
    using False by (auto simp: step_def differentiate_def Let_def split: option.split)
  with assms(1) show ?thesis by simp
next
  case True
  let ?a = "dt / (dt + dTau p)"
  have a: "0 \<le> ?a" "?a \<le> 1" using assms(1) True by simp_all
  have "dFiltered (fst (step e dt m p)) = dFiltered p + ?a * ((y - x) / dt - dFiltered p)"
    using True assms by (simp add: step_def differentiate_def d_source_def filtered_def Let_def
        split: derivative_source.splits)
  also have "\<dots> = (1 - ?a) * dFiltered p + (y - x) / (dt + dTau p)"
  proof -
    have "?a * ((y - x) / dt) = (y - x) / (dt + dTau p)" using True by simp
    moreover have "dFiltered p + ?a * ((y - x) / dt - dFiltered p)
        = (1 - ?a) * dFiltered p + ?a * ((y - x) / dt)" by (simp only: ring_distribs)
    ultimately show ?thesis by simp
  qed
  finally have "\<bar>dFiltered (fst (step e dt m p))\<bar> \<le> \<bar>(1 - ?a) * dFiltered p\<bar> + \<bar>(y - x) / (dt + dTau p)\<bar>"
    by (metis abs_triangle_ineq)
  moreover have "\<bar>(1 - ?a) * dFiltered p\<bar> \<le> \<bar>dFiltered p\<bar>"
    using a by (simp add: abs_mult mult_left_le_one_le)
  moreover have "\<bar>(y - x) / (dt + dTau p)\<bar> \<le> \<bar>y - x\<bar> / dTau p"
    using assms(1) True by (simp add: abs_divide frac_le)
  ultimately show ?thesis by linarith
qed

lemma short_steps_do_not_kick_witness:
  "let p = (new_pid \<lparr>o_kp = None, o_ki = None, o_kd = Some 1, o_limits = None, o_integralLimits = None,
        o_initial = None, o_dTau = Some 2, o_derivativeOn = None\<rparr>)\<lparr>prevD := Some 0\<rparr>
   in \<bar>dFiltered (fst (step 1 (1 / 1000) None p))\<bar> \<le> 1 / 2"
  using short_steps_do_not_kick [of "(new_pid \<lparr>o_kp = None, o_ki = None, o_kd = Some 1, o_limits = None,
        o_integralLimits = None, o_initial = None, o_dTau = Some 2, o_derivativeOn = None\<rparr>)\<lparr>prevD := Some 0\<rparr>"
        0 1 None 1 "1 / 1000"]
  by (simp add: new_pid_def or_default_def d_source_def Let_def)

text \<open>A velocity loop: with no proportional and derivative gain the output is the integrator.\<close>

lemma velocity_form:
  "kp p = 0 \<Longrightarrow> kd p = 0 \<Longrightarrow> integralLimits p = limits p \<Longrightarrow> bounds_ok (limits p) \<Longrightarrow>
   snd (step e dt m p) = get_value (fst (step e dt m p))"
  by (auto simp: step_def differentiate_def get_value_def Let_def split: option.split)

end
