(* ===== verification/ExportQueue.thy ===== *)
theory ExportQueue
  imports Prelude
begin

text \<open>
  The viewer's export queue (\<open>app/src/viewer/export/queue.ts\<close>, its types from
  \<open>app/src/viewer/export/types.ts\<close>): job records, the serial or parallel dispatch, the progress of an
  episode. The table keeps insertion order like the source's \<open>Map\<close>; a lookup the source asserts to
  succeed skips the entry when it does not, which the invariant excludes. The lemmas show that a
  serial queue runs one job at a time, that no job waits while none runs, that none starts twice and
  that completions never lower the headline progress.
\<close>

section \<open>Jobs\<close>

datatype normalize_mode = AsIs | Resample

record export_request =
  channel :: string
  codec :: string
  pixfmt :: string
  profile :: "string option"
  req_fps :: real
  normalize :: normalize_mode
  undistort :: bool
  alpha :: bool
  outputPath :: string

datatype export_state = Queued | Running | Done | Failed | Aborted

record job =
  job_id :: nat
  request :: export_request
  state :: export_state
  progress :: "real option"
  fps :: real
  etaSec :: "real option"
  error :: "string option"
  job_episode :: nat

record job_status =
  st_id :: nat
  st_channel :: string
  st_name :: string
  st_state :: export_state
  st_progress :: "real option"
  st_fps :: real
  st_etaSec :: "real option"
  st_error :: "string option"

fun last_part :: "string \<Rightarrow> string \<Rightarrow> string" where
  "last_part part [] = rev part"
| "last_part part (c # cs) = (if c = CHR ''/'' \<or> c = CHR 0x5C then last_part [] cs else last_part (c # part) cs)"

text \<open>An empty message counts as none.\<close>

definition truthy :: "string option \<Rightarrow> string option" where
  "truthy e = (case e of Some (c # cs) \<Rightarrow> e | _ \<Rightarrow> None)"

definition toStatus :: "job \<Rightarrow> job_status" where
  "toStatus j = \<lparr>st_id = job_id j, st_channel = channel (request j),
     st_name = last_part [] (outputPath (request j)), st_state = state j, st_progress = progress j,
     st_fps = fps j, st_etaSec = etaSec j, st_error = truthy (error j)\<rparr>"

definition active :: "job \<Rightarrow> bool" where
  "active j \<longleftrightarrow> state j = Queued \<or> state j = Running"

section \<open>The queue\<close>

record queue =
  jobsById :: "(nat \<times> job) list"
  order :: "nat list"
  nextId :: nat
  episode :: nat
  parallel :: bool

definition new_queue :: "bool \<Rightarrow> queue" where
  "new_queue par = \<lparr>jobsById = [], order = [], nextId = 1, episode = 0, parallel = par\<rparr>"

abbreviation count_state :: "export_state \<Rightarrow> (nat \<times> job) list \<Rightarrow> nat" where
  "count_state x js \<equiv> length (filter (\<lambda>(k, j). state j = x) js)"

fun dispatch_from :: "bool \<Rightarrow> nat \<Rightarrow> nat list \<Rightarrow> (nat \<times> job) list \<Rightarrow> nat list \<times> (nat \<times> job) list" where
  "dispatch_from par running [] js = ([], js)"
| "dispatch_from par running (i # ids) js = (case map_of js i of
      None \<Rightarrow> dispatch_from par running ids js
    | Some j \<Rightarrow>
        if state j \<noteq> Queued then dispatch_from par running ids js
        else if \<not> par \<and> 0 < running then ([], js)
        else let js' = AList.update i (j\<lparr>state := Running\<rparr>) js
          in if \<not> par then ([i], js')
             else case dispatch_from par (running + 1) ids js' of (started, js'') \<Rightarrow> (i # started, js''))"

definition dispatch :: "queue \<Rightarrow> queue \<times> nat list" where
  "dispatch q = (case dispatch_from (parallel q) (count_state Running (jobsById q)) (order q) (jobsById q) of
     (started, js) \<Rightarrow> (q\<lparr>jobsById := js\<rparr>, started))"

definition activeCount :: "queue \<Rightarrow> nat" where
  "activeCount q = length (filter (\<lambda>(k, j). active j) (jobsById q))"

definition enqueue :: "export_request \<Rightarrow> queue \<Rightarrow> queue \<times> nat \<times> nat list" where
  "enqueue r q = (let i = nextId q; ep = (if activeCount q = 0 then episode q + 1 else episode q);
       j = \<lparr>job_id = i, request = r, state = Queued, progress = None, fps = 0, etaSec = None,
            error = None, job_episode = ep\<rparr>
     in case dispatch (q\<lparr>nextId := i + 1, episode := ep, jobsById := AList.update i j (jobsById q),
          order := order q @ [i]\<rparr>) of (q', started) \<Rightarrow> (q', i, started))"

definition put_job :: "nat \<Rightarrow> job \<Rightarrow> queue \<Rightarrow> queue" where
  "put_job i j q = q\<lparr>jobsById := AList.update i j (jobsById q)\<rparr>"

definition complete :: "nat \<Rightarrow> bool \<Rightarrow> string option \<Rightarrow> queue \<Rightarrow> queue \<times> nat list" where
  "complete i ok err q = (case map_of (jobsById q) i of
      None \<Rightarrow> (q, [])
    | Some j \<Rightarrow>
        if state j \<noteq> Running then (q, [])
        else dispatch (put_job i (j\<lparr>state := (if ok then Done else Failed),
               progress := (if ok then Some 1 else progress j), fps := 0, etaSec := None,
               error := (if \<not> ok \<and> truthy err \<noteq> None then err else error j)\<rparr>) q))"

definition abort_job :: "job \<Rightarrow> job" where
  "abort_job j = j\<lparr>state := Aborted, fps := 0, etaSec := None\<rparr>"

text \<open>The answer: whether the job was aborted and whether it was running.\<close>

definition abort :: "nat \<Rightarrow> queue \<Rightarrow> queue \<times> bool \<times> bool \<times> nat list" where
  "abort i q = (case map_of (jobsById q) i of
      None \<Rightarrow> (q, False, False, [])
    | Some j \<Rightarrow>
        if \<not> active j then (q, False, False, [])
        else case dispatch (put_job i (abort_job j) q) of
          (q', started) \<Rightarrow> (q', True, state j = Running, started))"

fun abort_from :: "nat list \<Rightarrow> (nat \<times> job) list \<Rightarrow> nat list \<times> (nat \<times> job) list" where
  "abort_from [] js = ([], js)"
| "abort_from (i # ids) js = (case map_of js i of
      None \<Rightarrow> abort_from ids js
    | Some j \<Rightarrow>
        case abort_from ids (if active j then AList.update i (abort_job j) js else js) of
          (running, js') \<Rightarrow> (if state j = Running then i # running else running, js'))"

definition abortAll :: "queue \<Rightarrow> queue \<times> nat list" where
  "abortAll q = (case abort_from (order q) (jobsById q) of (running, js) \<Rightarrow> (q\<lparr>jobsById := js\<rparr>, running))"

definition set_progress :: "nat \<Rightarrow> real option \<Rightarrow> real \<Rightarrow> real option \<Rightarrow> queue \<Rightarrow> queue" where
  "set_progress i p f eta q = (case map_of (jobsById q) i of
      None \<Rightarrow> q
    | Some j \<Rightarrow> if state j \<noteq> Running then q
        else put_job i (j\<lparr>progress := p, fps := f, etaSec := eta\<rparr>) q)"

definition setParallel :: "bool \<Rightarrow> queue \<Rightarrow> queue \<times> nat list" where
  "setParallel par q = dispatch (q\<lparr>parallel := par\<rparr>)"

definition request_of :: "nat \<Rightarrow> queue \<Rightarrow> export_request option" where
  "request_of i q = map_option request (map_of (jobsById q) i)"

definition snapshot :: "queue \<Rightarrow> job_status list" where
  "snapshot q = List.map_filter (\<lambda>i. map_option toStatus (map_of (jobsById q) i)) (order q)"

definition keeps :: "nat option \<Rightarrow> job \<Rightarrow> bool" where
  "keeps ep j \<longleftrightarrow> active j \<or> Some (job_episode j) = ep"

fun clear_from :: "nat option \<Rightarrow> nat list \<Rightarrow> (nat \<times> job) list \<Rightarrow> nat list \<times> (nat \<times> job) list" where
  "clear_from ep [] js = ([], js)"
| "clear_from ep (i # ids) js = (case map_of js i of
      None \<Rightarrow> clear_from ep ids js
    | Some j \<Rightarrow>
        if keeps ep j then case clear_from ep ids js of (kept, js') \<Rightarrow> (i # kept, js')
        else clear_from ep ids (AList.delete i js))"

definition clearFinished :: "queue \<Rightarrow> queue" where
  "clearFinished q = (case clear_from (if 0 < activeCount q then Some (episode q) else None) (order q) (jobsById q) of
     (kept, js) \<Rightarrow> q\<lparr>order := kept, jobsById := js\<rparr>)"

text \<open>The share of a job of the episode: nothing when aborted.\<close>

definition share :: "job \<Rightarrow> real" where
  "share j = (case state j of
      Aborted \<Rightarrow> 0
    | Running \<Rightarrow> (case progress j of None \<Rightarrow> 0 | Some p \<Rightarrow> p)
    | Queued \<Rightarrow> 0
    | Done \<Rightarrow> 1
    | Failed \<Rightarrow> 1)"

definition overallProgress :: "queue \<Rightarrow> real option" where
  "overallProgress q = (let js = filter (\<lambda>j. job_episode j = episode q) (map snd (jobsById q));
       counted = filter (\<lambda>j. state j \<noteq> Aborted) js
     in if counted = [] \<or> \<not> list_ex active js then None
        else Some (sum_list (map share js) / real (length counted)))"

section \<open>Dispatching\<close>

definition in_state :: "export_state \<Rightarrow> queue \<Rightarrow> nat \<Rightarrow> bool" where
  "in_state x q k \<longleftrightarrow> map_option state (map_of (jobsById q) k) = Some x"

text \<open>The order lists the keys of the table, each job carries its key, and keys are below the next one.\<close>

definition table_ok :: "queue \<Rightarrow> bool" where
  "table_ok q \<longleftrightarrow> order q = keys_of (jobsById q) \<and> distinct (keys_of (jobsById q))
     \<and> list_all (\<lambda>(k, j). job_id j = k \<and> k < nextId q) (jobsById q)"

lemma keys_update_present [simp]: "k \<in> set (keys_of t) \<Longrightarrow> keys_of (AList.update k v t) = keys_of t"
  by (induction t) (auto simp: keys_of_def)

lemma map_of_keys: "map_of t k = Some v \<Longrightarrow> k \<in> set (keys_of t)"
  by (force simp: keys_of_def dest: map_of_SomeD)

lemma dispatch_from_keys:
  "dispatch_from par n ids js = (st, js') \<Longrightarrow> keys_of js' = keys_of js"
  by (induction par n ids js arbitrary: st js' rule: dispatch_from.induct)
     (auto simp: Let_def map_of_keys split: option.splits if_splits prod.splits)

lemma dispatch_from_lookup:
  "dispatch_from par n ids js = (st, js') \<Longrightarrow> distinct ids \<Longrightarrow>
   map_of js' k = (if k \<in> set st then map_option (\<lambda>j. j\<lparr>state := Running\<rparr>) (map_of js k) else map_of js k)
   \<and> (k \<in> set st \<longrightarrow> map_option state (map_of js k) = Some Queued) \<and> set st \<subseteq> set ids \<and> distinct st"
proof (induction par n ids js arbitrary: st js' rule: dispatch_from.induct)
  case (2 par n i ids js)
  show ?case
  proof (cases "map_of js i")
    case None
    with 2 show ?thesis by auto
  next
    case (Some j)
    consider "state j \<noteq> Queued" | "state j = Queued" "\<not> par \<and> 0 < n" | "state j = Queued" "\<not> par" "n = 0"
      | "state j = Queued" "par" by blast
    then show ?thesis
    proof cases
      case 1
      with 2 Some show ?thesis by auto
    next
      case 2
      with "2.prems" Some show ?thesis by auto
    next
      case 3
      with "2.prems" Some show ?thesis by (auto simp: Let_def map_of_update)
    next
      case 4
      let ?js = "AList.update i (j\<lparr>state := Running\<rparr>) js"
      obtain st' where st': "dispatch_from par (n + 1) ids ?js = (st', js')" "st = i # st'"
        using "2.prems" Some 4 by (auto simp: Let_def split: prod.splits)
      have "i \<notin> set ids" using "2.prems" by simp
      with 2(3) [OF Some] 4 st' "2.prems" Some show ?thesis
        by (auto simp: map_of_update split: if_splits)
    qed
  qed
qed simp

lemma dispatch_from_serial:
  "dispatch_from False n ids js = (st, js') \<Longrightarrow>
   length st \<le> 1 \<and> (0 < n \<longrightarrow> st = []) \<and>
   (n = 0 \<longrightarrow> (\<exists>k \<in> set ids. map_option state (map_of js k) = Some Queued) \<longrightarrow> st \<noteq> [])"
  by (induction False n ids js arbitrary: st js' rule: dispatch_from.induct)
     (auto simp: Let_def split: option.splits if_splits)

lemma dispatch_from_parallel:
  "dispatch_from True n ids js = (st, js') \<Longrightarrow> distinct ids \<Longrightarrow> k \<in> set ids \<Longrightarrow>
   map_option state (map_of js k) = Some Queued \<Longrightarrow> k \<in> set st"
proof (induction True n ids js arbitrary: st js' rule: dispatch_from.induct)
  case (2 n i ids js)
  then show ?case
    by (cases "k = i") (auto simp: Let_def map_of_update split: option.splits if_splits prod.splits)
qed simp

lemma count_running: "distinct (keys_of (jobsById q)) \<Longrightarrow> 0 < count_state x (jobsById q) \<longleftrightarrow> (\<exists>k. in_state x q k)"
  by (auto simp: in_state_def keys_of_def filter_empty_conv intro: map_of_SomeD)

text \<open>A dispatch in one lemma.\<close>

lemma dispatch_facts:
  assumes d: "dispatch q = (q', st)" and ok: "table_ok q"
  shows "table_ok q'" "nextId q' = nextId q" "episode q' = episode q" "parallel q' = parallel q"
    and "in_state Running q' k \<longleftrightarrow> in_state Running q k \<or> k \<in> set st"
    and "in_state Queued q' k \<longleftrightarrow> in_state Queued q k \<and> k \<notin> set st"
    and "k \<in> set st \<Longrightarrow> in_state Queued q k"
    and "distinct st"
    and "in_state Queued q' k \<Longrightarrow> \<exists>k'. in_state Running q' k'"
    and "\<not> parallel q \<Longrightarrow> length st \<le> 1 \<and> ((\<exists>k. in_state Running q k) \<longrightarrow> st = [])"
proof -
  obtain js where js: "dispatch_from (parallel q) (count_state Running (jobsById q)) (order q) (jobsById q) = (st, js)"
    "q' = q\<lparr>jobsById := js\<rparr>" using d by (auto simp: dispatch_def split: prod.splits)
  have ord: "order q = keys_of (jobsById q)" "distinct (order q)" using ok by (auto simp: table_ok_def)
  note keys = dispatch_from_keys [OF js(1)]
  note look = dispatch_from_lookup [OF js(1) ord(2)]
  have old: "job_id j = k \<and> k < nextId q" if "map_of (jobsById q) k = Some j" for k j
    using ok that by (auto simp: table_ok_def list_all_iff dest: map_of_SomeD)
  have new: "job_id j = k \<and> k < nextId q" if "map_of js k = Some j" for k j
    using that look [of k] old [of k] by (auto split: if_splits)
  have all: "list_all (\<lambda>(k, j). job_id j = k \<and> k < nextId q) js"
    using ord keys new by (auto simp: list_all_iff keys_of_def)
  show t: "table_ok q'" using ord keys all by (simp add: table_ok_def js(2))
  show "nextId q' = nextId q" "episode q' = episode q" "parallel q' = parallel q" by (simp_all add: js(2))
  have run: "in_state Running q' k \<longleftrightarrow> in_state Running q k \<or> k \<in> set st" for k
    using look [of k] by (auto simp: in_state_def js(2) option.map_comp comp_def)
  show "in_state Running q' k \<longleftrightarrow> in_state Running q k \<or> k \<in> set st" by (rule run)
  show que: "in_state Queued q' k \<longleftrightarrow> in_state Queued q k \<and> k \<notin> set st"
    using look [of k] by (auto simp: in_state_def js(2) option.map_comp comp_def)
  show "k \<in> set st \<Longrightarrow> in_state Queued q k" using look [of k] by (simp add: in_state_def)
  show "distinct st" using look by blast
  have count: "0 < count_state Running (jobsById q) \<longleftrightarrow> (\<exists>k. in_state Running q k)"
    by (rule count_running) (use ord in simp)
  show "\<exists>k'. in_state Running q' k'" if w: "in_state Queued q' k"
  proof -
    have k: "k \<in> set (order q)" "map_option state (map_of (jobsById q) k) = Some Queued" "k \<notin> set st"
      using w que ord map_of_keys by (auto simp: in_state_def)
    show ?thesis
    proof (cases "parallel q")
      case True
      with js(1) dispatch_from_parallel [OF _ ord(2) k(1,2)] k(3) show ?thesis by simp
    next
      case False
      with js(1) have "dispatch_from False (count_state Running (jobsById q)) (order q) (jobsById q) = (st, js)" by simp
      from dispatch_from_serial [OF this] k(1,2) count run show ?thesis
        by (cases "count_state Running (jobsById q) = 0") (auto simp: neq_Nil_conv)
    qed
  qed
  show "length st \<le> 1 \<and> ((\<exists>k. in_state Running q k) \<longrightarrow> st = [])" if "\<not> parallel q"
    using dispatch_from_serial [of "count_state Running (jobsById q)" "order q" "jobsById q" st js] js(1) that count
    by simp
qed

section \<open>Histories\<close>

datatype queue_op = Enqueue export_request | Complete nat bool "string option" | AbortJob nat | AbortAll
  | Progress nat "real option" real "real option" | SetParallel bool | ClearFinished

text \<open>The queue with the log of the jobs it has told its caller to start.\<close>

fun queue_step :: "queue \<times> nat list \<Rightarrow> queue_op \<Rightarrow> queue \<times> nat list" where
  "queue_step (q, lg) (Enqueue r) = (case enqueue r q of (q', i, st) \<Rightarrow> (q', lg @ st))"
| "queue_step (q, lg) (Complete i ok err) = (case complete i ok err q of (q', st) \<Rightarrow> (q', lg @ st))"
| "queue_step (q, lg) (AbortJob i) = (case abort i q of (q', a, r, st) \<Rightarrow> (q', lg @ st))"
| "queue_step (q, lg) AbortAll = (fst (abortAll q), lg)"
| "queue_step (q, lg) (Progress i p f eta) = (set_progress i p f eta q, lg)"
| "queue_step (q, lg) (SetParallel par) = (case setParallel par q of (q', st) \<Rightarrow> (q', lg @ st))"
| "queue_step (q, lg) ClearFinished = (clearFinished q, lg)"

definition log_ok :: "queue \<times> nat list \<Rightarrow> bool" where
  "log_ok = (\<lambda>(q, lg). table_ok q \<and> distinct lg \<and> list_all (\<lambda>k. k < nextId q \<and> \<not> in_state Queued q k) lg)"

definition no_stall :: "queue \<Rightarrow> bool" where
  "no_stall q \<longleftrightarrow> (\<forall>k. in_state Queued q k \<longrightarrow> (\<exists>k'. in_state Running q k'))"

definition one_running :: "queue \<Rightarrow> bool" where
  "one_running q \<longleftrightarrow> \<not> parallel q \<and> (\<forall>k k'. in_state Running q k \<longrightarrow> in_state Running q k' \<longrightarrow> k = k')"

lemma in_state_below: "table_ok q \<Longrightarrow> in_state x q k \<Longrightarrow> k < nextId q"
  by (auto simp: table_ok_def in_state_def list_all_iff dest: map_of_SomeD)

lemma after_dispatch:
  assumes d: "dispatch q = (q', st)" and l: "log_ok (q, lg)"
  shows "log_ok (q', lg @ st)" "no_stall q'" "one_running q \<Longrightarrow> one_running q'"
proof -
  have ok: "table_ok q" using l by (simp add: log_ok_def)
  note F = dispatch_facts [OF d ok]
  show "log_ok (q', lg @ st)"
    using l F(1,2,6,7,8) in_state_below [OF ok] by (auto simp: log_ok_def list_all_iff)
  show "no_stall q'" using F(9) by (auto simp: no_stall_def)
  assume o: "one_running q"
  then have s: "length st \<le> 1" "(\<exists>k. in_state Running q k) \<Longrightarrow> st = []" using F(10) by (auto simp: one_running_def)
  have "k = k'" if "in_state Running q' k" "in_state Running q' k'" for k k'
    using that F(5) o s by (cases st) (auto simp: one_running_def)
  with o F(4) show "one_running q'" by (simp add: one_running_def)
qed

lemma put_facts:
  assumes "table_ok q" "map_of (jobsById q) i = Some j" "job_id j' = job_id j"
  shows "table_ok (put_job i j' q)" "nextId (put_job i j' q) = nextId q" "parallel (put_job i j' q) = parallel q"
    and "in_state x (put_job i j' q) k = (if k = i then state j' = x else in_state x q k)"
proof -
  have i: "i \<in> set (keys_of (jobsById q))" by (rule map_of_keys [OF assms(2)])
  have "(i, j) \<in> set (jobsById q)" using assms(2) by (rule map_of_SomeD)
  with assms(1) have j: "job_id j = i" "i < nextId q" by (auto simp: table_ok_def list_all_iff)
  have "job_id a = k \<and> k < nextId q" if a: "(k, a) \<in> set (AList.update i j' (jobsById q))" for k a
  proof -
    have "map_of (AList.update i j' (jobsById q)) k = Some a"
      using a assms(1) by (simp add: table_ok_def flip: keys_of_def)
    then show ?thesis using j assms(1,3)
      by (auto simp: map_of_update table_ok_def list_all_iff split: if_splits dest: map_of_SomeD)
  qed
  then show "table_ok (put_job i j' q)"
    using assms(1) i by (auto simp: table_ok_def put_job_def list_all_iff)
  show "nextId (put_job i j' q) = nextId q" "parallel (put_job i j' q) = parallel q"
    and "in_state x (put_job i j' q) k = (if k = i then state j' = x else in_state x q k)"
    by (simp_all add: put_job_def in_state_def map_of_update)
qed

lemma put_ended:
  assumes "log_ok (q, lg)" "map_of (jobsById q) i = Some j" "job_id j' = job_id j"
    and "state j' \<noteq> Queued" "state j' \<noteq> Running"
  shows "log_ok (put_job i j' q, lg)" "one_running q \<Longrightarrow> one_running (put_job i j' q)"
proof -
  have "table_ok q" using assms(1) by (simp add: log_ok_def)
  note P = put_facts [OF this assms(2,3)]
  show "log_ok (put_job i j' q, lg)" using assms(1,4) P by (auto simp: log_ok_def list_all_iff)
  show "one_running q \<Longrightarrow> one_running (put_job i j' q)"
    using assms(5) P by (auto simp: one_running_def split: if_splits)
qed

lemma enqueue_before:
  fixes q j ep
  defines "i \<equiv> nextId q"
  assumes l: "log_ok (q, lg)" and j: "job_id j = i" "state j = Queued"
  defines "q1 \<equiv> q\<lparr>nextId := i + 1, episode := ep, jobsById := AList.update i j (jobsById q), order := order q @ [i]\<rparr>"
  shows "log_ok (q1, lg)" "one_running q \<Longrightarrow> one_running q1"
proof -
  have ok: "table_ok q" using l by (simp add: log_ok_def)
  have fresh: "i \<notin> set (keys_of (jobsById q))"
    using ok by (auto simp: table_ok_def list_all_iff keys_of_def i_def)
  have t: "table_ok q1" using ok j(1) fresh
    by (auto simp: table_ok_def q1_def update_fresh list_all_iff i_def keys_of_def)
  have in_state: "in_state x q1 k = (if k = i then x = Queued else in_state x q k)" for x k
    using j(2) by (auto simp: in_state_def q1_def map_of_update)
  have n: "nextId q1 = i + 1" by (simp add: q1_def)
  have "k < nextId q1 \<and> \<not> in_state Queued q1 k" if "k \<in> set lg" for k
  proof -
    have "k < i" "\<not> in_state Queued q k" using l that by (auto simp: log_ok_def list_all_iff i_def)
    then show ?thesis by (simp only: n in_state) simp
  qed
  with l t show "log_ok (q1, lg)" by (simp only: log_ok_def list_all_iff prod.case) simp
  have "parallel q1 = parallel q" by (simp add: q1_def)
  moreover have "in_state Running q1 k \<Longrightarrow> in_state Running q k" for k by (simp add: in_state split: if_splits)
  ultimately show "one_running q \<Longrightarrow> one_running q1" unfolding one_running_def by metis
qed

lemma abort_from_lookup:
  "abort_from ids js = (rs, js') \<Longrightarrow> keys_of js' = keys_of js \<and>
   map_of js' k = (if k \<in> set ids then map_option (\<lambda>j. if active j then abort_job j else j) (map_of js k) else map_of js k)"
proof (induction ids js arbitrary: rs js' rule: abort_from.induct)
  case (2 i ids js)
  show ?case
  proof (cases "map_of js i")
    case None
    with 2 show ?thesis by auto
  next
    case (Some j)
    with 2 show ?thesis
      by (auto simp: map_of_update map_of_keys active_def abort_job_def option.map_comp split: prod.splits if_splits)
  qed
qed simp

lemma abortAll_facts:
  assumes l: "log_ok (q, lg)"
  shows "log_ok (fst (abortAll q), lg)" "no_stall (fst (abortAll q))" "one_running q \<Longrightarrow> one_running (fst (abortAll q))"
proof -
  obtain rs js where js: "abort_from (order q) (jobsById q) = (rs, js)" by (cases "abort_from (order q) (jobsById q)")
  let ?f = "\<lambda>j. if active j then abort_job j else j"
  have ok: "table_ok q" using l by (simp add: log_ok_def)
  have look: "map_of js k = map_option ?f (map_of (jobsById q) k)" for k
    using abort_from_lookup [OF js, of k] ok map_of_keys [of "jobsById q" k]
    by (cases "map_of (jobsById q) k") (auto simp: table_ok_def)
  have q': "fst (abortAll q) = q\<lparr>jobsById := js\<rparr>" by (simp add: abortAll_def js)
  have keys: "keys_of js = keys_of (jobsById q)" using abort_from_lookup [OF js] by blast
  have "job_id a = k \<and> k < nextId q" if "(k, a) \<in> set js" for k a
  proof -
    have "map_of js k = Some a" using that ok keys by (simp add: table_ok_def flip: keys_of_def)
    then obtain b where "map_of (jobsById q) k = Some b" "a = ?f b" using look [of k] by auto
    with ok show ?thesis by (auto simp: table_ok_def list_all_iff abort_job_def dest: map_of_SomeD)
  qed
  then have t: "table_ok (fst (abortAll q))" using ok keys by (auto simp: table_ok_def q' list_all_iff)
  have none: "\<not> in_state Queued (fst (abortAll q)) k" "\<not> in_state Running (fst (abortAll q)) k" for k
    by (auto simp: in_state_def q' look active_def abort_job_def split: if_splits)
  show "log_ok (fst (abortAll q), lg)" using l t none by (auto simp: log_ok_def list_all_iff q')
  show "no_stall (fst (abortAll q))" using none by (simp add: no_stall_def)
  show "one_running q \<Longrightarrow> one_running (fst (abortAll q))" using none by (simp add: one_running_def q')
qed

lemma clear_from_filter:
  "clear_from ep ids js = (kept, js') \<Longrightarrow> distinct (keys_of js) \<Longrightarrow> distinct ids \<Longrightarrow>
   js' = filter (\<lambda>(k, j). k \<notin> set ids \<or> keeps ep j) js \<and>
   kept = filter (\<lambda>i. case map_of js i of None \<Rightarrow> False | Some j \<Rightarrow> keeps ep j) ids"
proof (induction ep ids js arbitrary: kept js' rule: clear_from.induct)
  case (2 ep i ids js)
  have at_i: "map_of js i = Some j" if "(i, j) \<in> set js" for j
    using that 2 by (simp add: keys_of_def)
  show ?case
  proof (cases "map_of js i")
    case None
    with 2(1) [OF None] "2.prems" at_i show ?thesis by (auto intro!: filter_cong)
  next
    case (Some j)
    show ?thesis
    proof (cases "keeps ep j")
      case True
      with 2(2) [OF Some True] "2.prems" Some at_i show ?thesis
        by (auto split: prod.splits intro!: filter_cong)
    next
      case False
      have i: "i \<notin> set ids" using "2.prems" by simp
      have "filter (\<lambda>(k, j). k \<notin> set ids \<or> keeps ep j) (AList.delete i js)
          = filter (\<lambda>(k, j). k \<notin> set (i # ids) \<or> keeps ep j) js"
        unfolding AList.delete_eq filter_filter using at_i Some False by (auto intro!: filter_cong)
      moreover have "filter (\<lambda>l. case map_of (AList.delete i js) l of None \<Rightarrow> False | Some j \<Rightarrow> keeps ep j) ids
          = filter (\<lambda>l. case map_of js l of None \<Rightarrow> False | Some j \<Rightarrow> keeps ep j) ids"
        using i by (intro filter_cong) (auto simp: map_of_delete)
      ultimately show ?thesis using 2(3) [OF Some False] "2.prems" Some False by simp
    qed
  qed
qed simp

lemma map_of_filter_values:
  "distinct (map fst t) \<Longrightarrow> map_of (filter (\<lambda>(k, j). P j) t) k
     = (case map_of t k of Some j \<Rightarrow> if P j then Some j else None | None \<Rightarrow> None)"
  by (induction t) (auto split: option.splits simp: map_of_eq_None_iff dest: map_of_SomeD)

lemma clear_facts:
  assumes ok: "table_ok q"
  shows "table_ok (clearFinished q)" "nextId (clearFinished q) = nextId q" "parallel (clearFinished q) = parallel q"
    and "x \<in> {Queued, Running} \<Longrightarrow> in_state x (clearFinished q) k = in_state x q k"
proof -
  define ep where "ep = (if 0 < activeCount q then Some (episode q) else None)"
  have ord: "order q = keys_of (jobsById q)" "distinct (keys_of (jobsById q))" using ok by (auto simp: table_ok_def)
  obtain kept js where c: "clear_from ep (order q) (jobsById q) = (kept, js)"
    by (cases "clear_from ep (order q) (jobsById q)")
  have q': "clearFinished q = q\<lparr>order := kept, jobsById := js\<rparr>" using c by (simp add: clearFinished_def ep_def)
  have js: "js = filter (\<lambda>(k, j). keeps ep j) (jobsById q)"
    and kept: "kept = filter (\<lambda>i. case map_of (jobsById q) i of None \<Rightarrow> False | Some j \<Rightarrow> keeps ep j) (order q)"
    using clear_from_filter [OF c ord(2)] ord
    by (auto simp: keys_of_def intro!: filter_cong) (metis fst_conv image_eqI)
  have "filter (\<lambda>i. case map_of t i of None \<Rightarrow> False | Some j \<Rightarrow> keeps ep j) (map fst t)
      = map fst (filter (\<lambda>(k, j). keeps ep j) t)" if "distinct (map fst t)" for t
    using that by (auto simp: filter_map comp_def intro!: arg_cong [of _ _ "map fst"] filter_cong)
  with kept ord have k: "kept = keys_of js" by (simp add: keys_of_def js)
  show "table_ok (clearFinished q)"
    using ok k by (auto simp: table_ok_def q' js list_all_iff distinct_keys_filter)
  show "nextId (clearFinished q) = nextId q" "parallel (clearFinished q) = parallel q" by (simp_all add: q')
  have "map_of js k = (case map_of (jobsById q) k of Some j \<Rightarrow> if keeps ep j then Some j else None | None \<Rightarrow> None)"
    unfolding js by (rule map_of_filter_values) (use ord(2) in \<open>simp add: keys_of_def\<close>)
  then show "x \<in> {Queued, Running} \<Longrightarrow> in_state x (clearFinished q) k = in_state x q k"
    by (auto simp: in_state_def q' keeps_def active_def split: option.splits)
qed

section \<open>The queue keeps its promises\<close>

lemma progress_facts:
  assumes l: "log_ok (q, lg)"
  shows "log_ok (set_progress i p f eta q, lg)" "parallel (set_progress i p f eta q) = parallel q"
    and "in_state x (set_progress i p f eta q) k = in_state x q k"
proof -
  have ok: "table_ok q" using l by (simp add: log_ok_def)
  have same: "set_progress i p f eta q = q \<or> (\<exists>j. map_of (jobsById q) i = Some j
      \<and> set_progress i p f eta q = put_job i (j\<lparr>progress := p, fps := f, etaSec := eta\<rparr>) q)"
    by (auto simp: set_progress_def split: option.split)
  have "table_ok (set_progress i p f eta q) \<and> nextId (set_progress i p f eta q) = nextId q
      \<and> parallel (set_progress i p f eta q) = parallel q
      \<and> (\<forall>x k. in_state x (set_progress i p f eta q) k = in_state x q k)"
    using same
  proof
    assume "\<exists>j. map_of (jobsById q) i = Some j
      \<and> set_progress i p f eta q = put_job i (j\<lparr>progress := p, fps := f, etaSec := eta\<rparr>) q"
    then obtain j where j: "map_of (jobsById q) i = Some j"
      "set_progress i p f eta q = put_job i (j\<lparr>progress := p, fps := f, etaSec := eta\<rparr>) q" by blast
    note P = put_facts [OF ok j(1), of "j\<lparr>progress := p, fps := f, etaSec := eta\<rparr>"]
    show ?thesis unfolding j(2) using P j(1) by (auto simp: in_state_def)
  qed (use ok in simp)
  then show "log_ok (set_progress i p f eta q, lg)" "parallel (set_progress i p f eta q) = parallel q"
    "in_state x (set_progress i p f eta q) k = in_state x q k"
    using l by (auto simp: log_ok_def list_all_iff)
qed

definition queue_ok :: "queue \<times> nat list \<Rightarrow> bool" where
  "queue_ok s \<longleftrightarrow> log_ok s \<and> no_stall (fst s)"

lemma queue_step_dispatched:
  assumes l: "queue_ok (q, lg)" and d: "dispatch q1 = (q', st)" and "log_ok (q1, lg)"
    and "one_running q \<Longrightarrow> one_running q1"
  shows "queue_ok (q', lg @ st)" "one_running q \<Longrightarrow> one_running q'"
  using after_dispatch [OF d assms(3)] assms(4) by (auto simp: queue_ok_def)

lemma queue_step_cases:
  assumes l: "queue_ok (q, lg)" and e: "\<forall>par. e \<noteq> SetParallel par"
  shows "queue_ok (queue_step (q, lg) e) \<and> (one_running q \<longrightarrow> one_running (fst (queue_step (q, lg) e)))"
proof (cases e)
  case (Enqueue r)
  obtain q1 i st where d: "enqueue r q = (q1, i, st)" by (cases "enqueue r q") auto
  then obtain ep j where "dispatch (q\<lparr>nextId := nextId q + 1, episode := ep,
      jobsById := AList.update (nextId q) j (jobsById q), order := order q @ [nextId q]\<rparr>) = (q1, st)"
      "job_id j = nextId q" "state j = Queued"
    by (auto simp: enqueue_def Let_def split: prod.splits)
  with queue_step_dispatched [OF l this(1)] enqueue_before [of q lg j ep] l show ?thesis
    by (simp add: Enqueue d queue_ok_def)
next
  case (Complete i ok err)
  show ?thesis
  proof (cases "\<exists>j. map_of (jobsById q) i = Some j \<and> state j = Running")
    case False
    then have "complete i ok err q = (q, [])" by (auto simp: complete_def split: option.split)
    with l show ?thesis by (simp add: Complete)
  next
    case True
    then obtain j j' where j: "map_of (jobsById q) i = Some j" "complete i ok err q = dispatch (put_job i j' q)"
      "job_id j' = job_id j" "state j' = (if ok then Done else Failed)"
      by (auto simp: complete_def)
    obtain q1 st where d: "dispatch (put_job i j' q) = (q1, st)" by (cases "dispatch (put_job i j' q)")
    from queue_step_dispatched [OF l d] put_ended [OF _ j(1,3), of lg] l j(4) show ?thesis
      by (simp add: Complete j(2) d queue_ok_def)
  qed
next
  case (AbortJob i)
  show ?thesis
  proof (cases "\<exists>j. map_of (jobsById q) i = Some j \<and> active j")
    case False
    then have "abort i q = (q, False, False, [])" by (auto simp: abort_def split: option.split)
    with l show ?thesis by (simp add: AbortJob)
  next
    case True
    then obtain j where j: "map_of (jobsById q) i = Some j" "active j" by blast
    obtain q1 st where d: "dispatch (put_job i (abort_job j) q) = (q1, st)"
      by (cases "dispatch (put_job i (abort_job j) q)")
    have "abort i q = (q1, True, state j = Running, st)" by (simp add: abort_def j d)
    with queue_step_dispatched [OF l d] put_ended [OF _ j(1), of lg "abort_job j"] l show ?thesis
      by (simp add: AbortJob queue_ok_def) (simp add: abort_job_def)
  qed
next
  case AbortAll
  with abortAll_facts [of q lg] l show ?thesis by (simp add: queue_ok_def)
next
  case (Progress i p f eta)
  with progress_facts [where q = q and lg = lg] l show ?thesis
    by (simp add: queue_ok_def no_stall_def one_running_def)
next
  case ClearFinished
  have "table_ok q" using l by (simp add: queue_ok_def log_ok_def)
  with clear_facts [of q] l ClearFinished show ?thesis
    by (simp add: queue_ok_def no_stall_def one_running_def log_ok_def)
qed (use e in simp)

lemma queue_step_parallel: "queue_ok (q, lg) \<Longrightarrow> queue_ok (queue_step (q, lg) (SetParallel par))"
proof -
  assume l: "queue_ok (q, lg)"
  obtain q1 st where d: "dispatch (q\<lparr>parallel := par\<rparr>) = (q1, st)" by (cases "dispatch (q\<lparr>parallel := par\<rparr>)")
  have "log_ok (q\<lparr>parallel := par\<rparr>, lg)"
    using l by (simp add: queue_ok_def log_ok_def table_ok_def in_state_def)
  from after_dispatch [OF d this] show ?thesis by (simp add: setParallel_def d queue_ok_def)
qed

interpretation exports: started_machine queue_step queue_ok "(new_queue par, [])"
proof unfold_locales
  fix s e assume "queue_ok s"
  then show "queue_ok (queue_step s e)"
    using queue_step_cases [of "fst s" "snd s" e] queue_step_parallel [of "fst s" "snd s"]
    by (cases e) (simp_all del: queue_step.simps)
qed (simp add: queue_ok_def log_ok_def table_ok_def no_stall_def in_state_def new_queue_def keys_of_def)

interpretation serial: guarded_machine queue_step "\<lambda>s. queue_ok s \<and> one_running (fst s)"
    "\<lambda>e. case e of SetParallel _ \<Rightarrow> False | _ \<Rightarrow> True"
proof unfold_locales
  fix s e assume "queue_ok s \<and> one_running (fst s)" "case e of SetParallel _ \<Rightarrow> False | _ \<Rightarrow> True"
  then show "queue_ok (queue_step s e) \<and> one_running (fst (queue_step s e))"
    using queue_step_cases [of "fst s" "snd s" e] by (cases e) (simp_all del: queue_step.simps)
qed

text \<open>
  C30. After every history no export waits while none runs, and none has been started twice.
\<close>

theorem exports_start_once_and_never_stall:
  "case run queue_step (new_queue par, []) es of (q, lg) \<Rightarrow>
     distinct lg \<and> (count_state Queued (jobsById q) = 0 \<or> 0 < count_state Running (jobsById q))"
proof -
  obtain q lg where r: "run queue_step (new_queue par, []) es = (q, lg)" by fastforce
  have "queue_ok (q, lg)" using exports.reachable_inv [of par es] by (simp add: r)
  then have "distinct lg" "distinct (keys_of (jobsById q))" "no_stall q"
    by (auto simp: queue_ok_def log_ok_def table_ok_def)
  moreover have "0 < count_state Running (jobsById q)" if "0 < count_state Queued (jobsById q)"
    using that calculation(2,3) count_running [of q Queued] count_running [of q Running]
    by (simp add: no_stall_def del: length_greater_0_conv)
  ultimately show ?thesis by (auto simp: r simp del: length_greater_0_conv)
qed

lemma all_equal_short: "(\<And>x y. x \<in> set xs \<Longrightarrow> y \<in> set xs \<Longrightarrow> x = y) \<Longrightarrow> distinct xs \<Longrightarrow> length xs \<le> 1"
  using distinct_card [of xs] card_le_Suc0_iff_eq [of "set xs"] by simp

text \<open>
  A queue created serial and never switched to parallel runs at most one export at a time.
\<close>

theorem serial_queue_runs_one:
  assumes "list_all (\<lambda>e. case e of SetParallel _ \<Rightarrow> False | _ \<Rightarrow> True) es"
  shows "count_state Running (jobsById (fst (run queue_step (new_queue False, []) es))) \<le> 1"
proof -
  let ?q = "fst (run queue_step (new_queue False, []) es)"
  have "queue_ok (new_queue False, []) \<and> one_running (fst (new_queue False, []))"
    using exports.start_inv [of False] by (simp add: one_running_def new_queue_def in_state_def)
  from serial.run_inv [OF this assms] have q: "queue_ok (?q, snd (run queue_step (new_queue False, []) es))" "one_running ?q"
    by simp_all
  have d: "distinct (keys_of (jobsById ?q))"
    using q(1) unfolding queue_ok_def log_ok_def table_ok_def by (auto split: prod.splits)
  let ?r = "filter (\<lambda>(k, j). state j = Running) (jobsById ?q)"
  have "in_state Running ?q k" if "k \<in> set (keys_of ?r)" for k
    using that d by (force simp: in_state_def keys_of_def)
  then have "k = k'" if "k \<in> set (keys_of ?r)" "k' \<in> set (keys_of ?r)" for k k'
    using that q(2) unfolding one_running_def by blast
  moreover have "distinct (keys_of ?r)" by (rule distinct_keys_filter [OF d])
  ultimately have "length (keys_of ?r) \<le> 1" by (rule all_equal_short)
  then show ?thesis by (simp add: keys_of_def)
qed

definition demo_request :: export_request where
  "demo_request = \<lparr>channel = ''left'', codec = ''h264'', pixfmt = ''yuv420p'', profile = None, req_fps = 30,
     normalize = AsIs, undistort = False, alpha = False, outputPath = ''/tmp/left.mp4''\<rparr>"

lemma serial_queue_runs_one_witness:
  "count_state Running (jobsById (fst (run queue_step (new_queue False, [])
     [Enqueue demo_request, Enqueue demo_request]))) \<le> 1"
  by (rule serial_queue_runs_one) simp

section \<open>The headline progress\<close>

text \<open>Reported fractions are at most 1, and a queued job has none.\<close>

definition fractions_ok :: "queue \<Rightarrow> bool" where
  "fractions_ok q \<longleftrightarrow> list_all (\<lambda>(k, j). (state j = Queued \<longrightarrow> progress j = None) \<and> share j \<le> 1) (jobsById q)"

lemma table_eqI:
  "keys_of t' = keys_of t \<Longrightarrow> distinct (keys_of t) \<Longrightarrow> (\<And>k. map_of t' k = map_option (g k) (map_of t k)) \<Longrightarrow>
   t' = map (\<lambda>(k, j). (k, g k j)) t"
proof (rule nth_equalityI)
  assume k: "keys_of t' = keys_of t" and d: "distinct (keys_of t)"
    and m: "\<And>k. map_of t' k = map_option (g k) (map_of t k)"
  show "length t' = length (map (\<lambda>(k, j). (k, g k j)) t)" using k by (metis keys_of_def length_map)
  fix i assume "i < length t'"
  then have i: "i < length t'" "i < length t" using k by (metis keys_of_def length_map)+
  have f: "fst (t' ! i) = fst (t ! i)" using k i by (metis keys_of_def nth_map)
  have "map_of t' (fst (t' ! i)) = Some (snd (t' ! i))" "map_of t (fst (t ! i)) = Some (snd (t ! i))"
    using d k i by (simp_all add: keys_of_def)
  with m [of "fst (t ! i)"] f have "snd (t' ! i) = g (fst (t ! i)) (snd (t ! i))" by simp
  with f i show "t' ! i = map (\<lambda>(k, j). (k, g k j)) t ! i" by (simp add: case_prod_beta prod_eq_iff)
qed

lemma shares_mono:
  assumes "\<And>k j. (k, j) \<in> set t \<Longrightarrow> job_episode (g k j) = job_episode j
      \<and> (state (g k j) = Aborted \<longleftrightarrow> state j = Aborted) \<and> share j \<le> share (g k j)"
  shows "sum_list (map share (filter (\<lambda>j. job_episode j = e) (map snd t)))
      \<le> sum_list (map share (filter (\<lambda>j. job_episode j = e) (map snd (map (\<lambda>(k, j). (k, g k j)) t))))
    \<and> length (filter (\<lambda>j. state j \<noteq> Aborted) (filter (\<lambda>j. job_episode j = e) (map snd (map (\<lambda>(k, j). (k, g k j)) t))))
      = length (filter (\<lambda>j. state j \<noteq> Aborted) (filter (\<lambda>j. job_episode j = e) (map snd t)))"
  using assms
proof (induction t)
  case (Cons x t)
  obtain k j where x: "x = (k, j)" by (cases x)
  have "job_episode (g k j) = job_episode j \<and> (state (g k j) = Aborted \<longleftrightarrow> state j = Aborted) \<and> share j \<le> share (g k j)"
    using Cons.prems x by simp
  with Cons.IH Cons.prems x show ?case by (auto intro!: add_mono)
qed simp

lemma overall_mono:
  assumes "overallProgress q = Some a" "overallProgress q' = Some b" "episode q' = episode q"
    and "jobsById q' = map (\<lambda>(k, j). (k, g k j)) (jobsById q)"
    and "\<And>k j. (k, j) \<in> set (jobsById q) \<Longrightarrow> job_episode (g k j) = job_episode j
      \<and> (state (g k j) = Aborted \<longleftrightarrow> state j = Aborted) \<and> share j \<le> share (g k j)"
  shows "a \<le> b"
proof -
  let ?l = "\<lambda>t. length (filter (\<lambda>j. state j \<noteq> Aborted) (filter (\<lambda>j. job_episode j = episode q) (map snd t)))"
  let ?s = "\<lambda>t. sum_list (map share (filter (\<lambda>j. job_episode j = episode q) (map snd t)))"
  have "a = ?s (jobsById q) / real (?l (jobsById q))" "b = ?s (jobsById q') / real (?l (jobsById q'))"
    using assms(1-3) by (auto simp: overallProgress_def Let_def split: if_splits)
  with shares_mono [where t = "jobsById q" and e = "episode q", OF assms(5)] assms(4) show ?thesis
    by (simp add: divide_right_mono del: filter_filter)
qed

lemma dispatch_table:
  assumes "dispatch q = (q', st)" "table_ok q"
  shows "jobsById q' = map (\<lambda>(k, j). (k, if k \<in> set st then j\<lparr>state := Running\<rparr> else j)) (jobsById q)"
proof -
  obtain js where js: "dispatch_from (parallel q) (count_state Running (jobsById q)) (order q) (jobsById q) = (st, js)"
    "q' = q\<lparr>jobsById := js\<rparr>" using assms(1) by (auto simp: dispatch_def split: prod.splits)
  have o: "distinct (order q)" "distinct (keys_of (jobsById q))" using assms(2) by (auto simp: table_ok_def)
  have "js = map (\<lambda>(k, j). (k, if k \<in> set st then j\<lparr>state := Running\<rparr> else j)) (jobsById q)"
    by (rule table_eqI [where g = "\<lambda>k j. if k \<in> set st then j\<lparr>state := Running\<rparr> else j"])
       (use dispatch_from_lookup [OF js(1) o(1)] dispatch_from_keys [OF js(1)] o(2) in \<open>auto simp: option.map_ident\<close>)
  then show ?thesis by (simp add: js(2))
qed

lemma put_table:
  "i \<in> set (keys_of t) \<Longrightarrow> distinct (keys_of t) \<Longrightarrow>
   AList.update i j' t = map (\<lambda>(k, j). (k, if k = i then j' else j)) t"
  by (rule table_eqI [where g = "\<lambda>k j. if k = i then j' else j"])
     (auto simp: map_of_update option.map_ident dest: map_of_key_Some)

text \<open>
  While exports of the episode are left, completing one, well or not, never lowers the headline
  progress, given that no job reports more than all of itself.
\<close>

theorem completion_never_lowers_progress:
  assumes "table_ok q" "fractions_ok q"
    and "overallProgress q = Some a" "overallProgress (fst (complete i ok err q)) = Some b"
  shows "a \<le> b"
proof (cases "\<exists>j. map_of (jobsById q) i = Some j \<and> state j = Running")
  case False
  then have "complete i ok err q = (q, [])" by (auto simp: complete_def split: option.split)
  with assms show ?thesis by simp
next
  case True
  then obtain j j' where j: "map_of (jobsById q) i = Some j" "state j = Running"
    "complete i ok err q = dispatch (put_job i j' q)"
    "job_id j' = job_id j" "state j' = (if ok then Done else Failed)" "job_episode j' = job_episode j"
    by (auto simp: complete_def)
  obtain q1 st where d: "dispatch (put_job i j' q) = (q1, st)" by (cases "dispatch (put_job i j' q)")
  note P = put_facts [OF assms(1) j(1,4)]
  note F = dispatch_facts [OF d P(1)]
  have keys: "i \<in> set (keys_of (jobsById q))" "distinct (keys_of (jobsById q))"
    using assms(1) map_of_keys [OF j(1)] by (auto simp: table_ok_def)
  define g where "g k x = (let y = (if k = i then j' else x) in if k \<in> set st then y\<lparr>state := Running\<rparr> else y)" for k x
  have tab: "jobsById q1 = map (\<lambda>(k, x). (k, g k x)) (jobsById q)"
    unfolding dispatch_table [OF d P(1)] by (simp add: put_job_def put_table [OF keys] g_def Let_def case_prod_beta)
  show ?thesis
  proof (rule overall_mono [OF assms(3) _ _ tab])
    show "overallProgress q1 = Some b" using assms(4) by (simp add: j(3) d)
    show "episode q1 = episode q" using F(3) by (simp add: put_job_def)
  next
    fix k x assume x: "(k, x) \<in> set (jobsById q)"
    then have m: "map_of (jobsById q) k = Some x" using keys(2) by (simp add: keys_of_def)
    have fr: "state x = Queued \<Longrightarrow> progress x = None" "share x \<le> 1"
      using assms(2) x by (auto simp: fractions_ok_def list_all_iff)
    show "job_episode (g k x) = job_episode x \<and> (state (g k x) = Aborted \<longleftrightarrow> state x = Aborted) \<and> share x \<le> share (g k x)"
    proof (cases "k = i")
      case True
      then have "i \<notin> set st" using F(7) [of i] P(4) j(5) by (auto split: if_splits)
      with True m j fr(2) show ?thesis by (simp add: g_def share_def)
    next
      case False
      then have "state x = Queued" if "k \<in> set st"
        using F(7) [OF that] P(4) m by (simp add: in_state_def)
      with False fr(1) show ?thesis by (auto simp: g_def share_def Let_def)
    qed
  qed
qed

lemma completion_never_lowers_progress_witness:
  "let q = fst (run queue_step (new_queue False, []) [Enqueue demo_request, Enqueue demo_request])
   in \<exists>a b. overallProgress q = Some a \<and> overallProgress (fst (complete 1 True None q)) = Some b \<and> a \<le> b"
proof -
  let ?q = "fst (run queue_step (new_queue False, []) [Enqueue demo_request, Enqueue demo_request])"
  have q: "?q = \<lparr>jobsById = [(1, \<lparr>job_id = 1, request = demo_request, state = Running, progress = None, fps = 0,
         etaSec = None, error = None, job_episode = 1\<rparr>),
       (2, \<lparr>job_id = 2, request = demo_request, state = Queued, progress = None, fps = 0, etaSec = None,
         error = None, job_episode = 1\<rparr>)], order = [1, 2], nextId = 3, episode = 1, parallel = False\<rparr>"
    by (simp add: new_queue_def enqueue_def dispatch_def activeCount_def active_def Let_def)
  have "table_ok ?q" "fractions_ok ?q" "overallProgress ?q = Some 0"
    "overallProgress (fst (complete 1 True None ?q)) = Some (1 / 2)"
    unfolding q by (simp_all add: table_ok_def keys_of_def fractions_ok_def share_def overallProgress_def active_def
        complete_def put_job_def dispatch_def Let_def)
  from this completion_never_lowers_progress [OF this] show ?thesis unfolding Let_def by blast
qed

text \<open>
  Aborting a running export can lower the headline progress: its share is gone while the queued
  jobs stay in the denominator.
\<close>

theorem abort_lowers_progress:
  "let q = fst (run queue_step (new_queue False, [])
       [Enqueue r, Enqueue r, Progress 1 (Some (9 / 10)) 30 None])
   in overallProgress q = Some (9 / 20) \<and> overallProgress (fst (abort 1 q)) = Some 0"
  by (simp add: new_queue_def enqueue_def dispatch_def activeCount_def active_def Let_def set_progress_def
      put_job_def overallProgress_def share_def abort_def abort_job_def)

end
