(* ===== verification/Player.thy ===== *)
theory Player
  imports Prelude
begin

text \<open>
  The viewer's playback engine (\<open>app/src/viewer/player.ts\<close>). The source, the decoders and the hooks are
  the parameters \<open>env\<close>; every \<open>await\<close> of the playback loop, of the paused redraw and of the refresh of
  newly enabled channels is a step of its own, so the histories are all interleavings. A \<open>Map\<close> keyed by
  topic is an association list, the hooks and the meter are the log of their calls. The lemmas show
  that playing means exactly one loop drives the position, that the position stays in the file, that
  at most one redraw loop runs and that what it shows last is what the file holds at the last seek.
\<close>

section \<open>Source and channels\<close>

record channel =
  ch_id :: nat
  topic :: string
  is_json :: bool

record message =
  channelId :: nat
  logTime :: int

text \<open>
  \<open>e_messages a\<close> are the messages from the absolute time \<open>a\<close> on, \<open>e_latest a ts\<close> the latest ones at or
  before \<open>a\<close> for the topics, \<open>e_doc\<close> whether the data parses, \<open>e_decodable\<close> whether a decoder can be built.
\<close>

record env =
  e_startNs :: int
  e_endNs :: int
  e_channels :: "channel list"
  e_messages :: "int \<Rightarrow> message list"
  e_latest :: "int \<Rightarrow> string list \<Rightarrow> message list"
  e_doc :: "message \<Rightarrow> bool"
  e_decodable :: "channel \<Rightarrow> bool"
  e_telemetry_hook :: bool
  e_descriptor_hook :: bool

definition TELEMETRY_TOPIC :: string where "TELEMETRY_TOPIC = ''telemetry''"

definition LATE_SKIP_MS :: real where "LATE_SKIP_MS = 200"

definition POSITION_UPDATE_MS :: real where "POSITION_UPDATE_MS = 250"

definition RATE_WINDOW_MS :: real where "RATE_WINDOW_MS = 2000"

definition durationNs :: "env \<Rightarrow> real" where
  "durationNs E = of_int (e_endNs E - e_startNs E)"

definition channelById :: "env \<Rightarrow> nat \<Rightarrow> channel option" where
  "channelById E = map_of (rev (map (\<lambda>c. (ch_id c, c)) (e_channels E)))"

definition frameTopics :: "env \<Rightarrow> string list" where
  "frameTopics E = map topic (filter (\<lambda>c. \<not> is_json c) (e_channels E))"

definition descriptorTopics :: "env \<Rightarrow> string list" where
  "descriptorTopics E = map topic (filter (\<lambda>c. is_json c \<and> topic c \<noteq> TELEMETRY_TOPIC) (e_channels E))"

definition telemetryTopics :: "env \<Rightarrow> string list" where
  "telemetryTopics E = (if list_ex (\<lambda>c. topic c = TELEMETRY_TOPIC) (e_channels E) then [TELEMETRY_TOPIC] else [])"

definition relNs :: "env \<Rightarrow> message \<Rightarrow> real" where
  "relNs E m = of_int (logTime m - e_startNs E)"

text \<open>\<open>source.startNs + BigInt(Math.round(t))\<close>.\<close>

definition abs_time :: "env \<Rightarrow> real \<Rightarrow> int" where
  "abs_time E t = e_startNs E + \<lfloor>t + 1 / 2\<rfloor>"

section \<open>The player and its tasks\<close>

datatype effect = Position real bool | Publish string message | Telemetry message | Descriptor string message
  | Ingest string | Emit string | Dropped string

record live_stats =
  decoded :: nat
  lastFrameNs :: "real option"
  recent :: "real list"

datatype loop_pc = Fetch | Sleeping message real | Decoding message | After message | Ended

record loop =
  l_gen :: nat
  l_rate :: real
  l_anchorNs :: real
  l_anchorMs :: real
  l_rest :: "message list"
  l_pc :: loop_pc

datatype redraw_pc = Query | RDecoding message "message list" | RAfter "message list" | Returned | Finished

record scrub =
  sc_target :: real
  sc_pc :: redraw_pc

record refresh =
  rf_gen :: nat
  rf_at :: int
  rf_topics :: "string list"
  rf_pc :: redraw_pc

record player =
  positionNs :: real
  playing :: bool
  rate :: real
  generation :: nat
  closed :: bool
  lastUpdateAt :: "real option"
  pendingSeekNs :: "real option"
  seekRefreshing :: bool
  enabled :: "string list option"
  live :: "(string \<times> live_stats) list"
  clock :: real
  loops :: "loop list"
  scrubs :: "scrub list"
  refreshes :: "refresh list"
  effects :: "effect list"

definition new_player :: player where
  "new_player = \<lparr>positionNs = 0, playing = False, rate = 1, generation = 0, closed = False,
     lastUpdateAt = None, pendingSeekNs = None, seekRefreshing = False, enabled = None, live = [],
     clock = 0, loops = [], scrubs = [], refreshes = [], effects = []\<rparr>"

definition perform :: "effect \<Rightarrow> player \<Rightarrow> player" where
  "perform x s = s\<lparr>effects := effects s @ [x]\<rparr>"

definition noteDecode :: "string \<Rightarrow> real \<Rightarrow> player \<Rightarrow> player" where
  "noteDecode t ns s = (let old = (case map_of (live s) t of
           None \<Rightarrow> \<lparr>decoded = 0, lastFrameNs = None, recent = []\<rparr> | Some x \<Rightarrow> x)
     in s\<lparr>live := AList.update t \<lparr>decoded = decoded old + 1, lastFrameNs = Some ns,
          recent = dropWhile (\<lambda>x. RATE_WINDOW_MS < clock s - x) (recent old @ [clock s])\<rparr> (live s)\<rparr>)"

definition pushUpdate :: "bool \<Rightarrow> player \<Rightarrow> player" where
  "pushUpdate force s =
     (if \<not> force \<and> (case lastUpdateAt s of None \<Rightarrow> False | Some u \<Rightarrow> clock s - u < POSITION_UPDATE_MS) then s
      else perform (Position (positionNs s) (playing s)) (s\<lparr>lastUpdateAt := Some (clock s)\<rparr>))"

text \<open>
  \<open>handleMessage\<close> up to the decoder it waits for: the flag says whether it does. A throwing hook counts
  as undecodable, like data that does not parse.
\<close>

definition handle_begin :: "env \<Rightarrow> message \<Rightarrow> real \<Rightarrow> player \<Rightarrow> player \<times> bool" where
  "handle_begin E m lateMs s = (case channelById E (channelId m) of
      None \<Rightarrow> (s, False)
    | Some c \<Rightarrow> let s1 = perform (Ingest (topic c)) s in
        if is_json c then
          (if \<not> e_doc E m \<or> topic c = TELEMETRY_TOPIC \<and> \<not> e_telemetry_hook E
           then perform (Dropped ''undecodable'') s1
           else perform (Emit ''telemetry'')
             (if topic c = TELEMETRY_TOPIC then perform (Telemetry m) s1
              else if e_descriptor_hook E then perform (Descriptor (topic c) m) s1 else s1), False)
        else if (case enabled s1 of None \<Rightarrow> False | Some ts \<Rightarrow> topic c \<notin> set ts)
        then (perform (Dropped ''disabled'') s1, False)
        else if LATE_SKIP_MS < lateMs then (perform (Dropped ''late'') s1, False)
        else (s1, True))"

definition handle_end :: "env \<Rightarrow> message \<Rightarrow> player \<Rightarrow> player" where
  "handle_end E m s = (case channelById E (channelId m) of
      None \<Rightarrow> s
    | Some c \<Rightarrow>
        if \<not> e_decodable E c then perform (Dropped ''undecodable'') s
        else perform (Emit ''frames'') (noteDecode (topic c) (relNs E m) (perform (Publish (topic c) m) s)))"

section \<open>The playback loop\<close>

definition startLoop :: "env \<Rightarrow> player \<Rightarrow> player" where
  "startLoop E s = s\<lparr>loops := loops s @ [\<lparr>l_gen = generation s, l_rate = rate s, l_anchorNs = positionNs s,
     l_anchorMs = clock s, l_rest = e_messages E (abs_time E (positionNs s)), l_pc = Fetch\<rparr>]\<rparr>"

definition set_loop :: "nat \<Rightarrow> loop \<Rightarrow> player \<Rightarrow> player" where
  "set_loop i l s = s\<lparr>loops := (loops s)[i := l]\<rparr>"

definition loop_handle :: "env \<Rightarrow> nat \<Rightarrow> message \<Rightarrow> real \<Rightarrow> loop \<Rightarrow> player \<Rightarrow> player" where
  "loop_handle E i m wait l s = (case handle_begin E m (max 0 (- wait)) s of
     (s', waits) \<Rightarrow> set_loop i (l\<lparr>l_pc := (if waits then Decoding m else After m)\<rparr>) s')"

definition loop_step :: "env \<Rightarrow> nat \<Rightarrow> player \<Rightarrow> player" where
  "loop_step E i s = (let l = loops s ! i; stale = (l_gen l \<noteq> generation s); stop = set_loop i (l\<lparr>l_pc := Ended\<rparr>) s
     in case l_pc l of
          Fetch \<Rightarrow>
            if stale then stop
            else (case l_rest l of
                [] \<Rightarrow> pushUpdate True (stop\<lparr>positionNs := durationNs E, playing := False\<rparr>)
              | m # ms \<Rightarrow>
                  let dueMs = (relNs E m - l_anchorNs l) / 10 ^ 6 / l_rate l; wait = dueMs - (clock s - l_anchorMs l)
                  in if 1 < wait then set_loop i (l\<lparr>l_rest := ms, l_pc := Sleeping m wait\<rparr>) s
                     else loop_handle E i m wait (l\<lparr>l_rest := ms\<rparr>) s)
        | Sleeping m wait \<Rightarrow> if stale then stop else loop_handle E i m wait l s
        | Decoding m \<Rightarrow> set_loop i (l\<lparr>l_pc := After m\<rparr>) (handle_end E m s)
        | After m \<Rightarrow>
            if stale then stop
            else pushUpdate False ((set_loop i (l\<lparr>l_pc := Fetch\<rparr>) s)\<lparr>positionNs := relNs E m\<rparr>)
        | Ended \<Rightarrow> s)"

text \<open>The source or a decoder throws.\<close>

definition loop_throw :: "nat \<Rightarrow> player \<Rightarrow> player" where
  "loop_throw i s = (let l = loops s ! i; stop = set_loop i (l\<lparr>l_pc := Ended\<rparr>) s
     in if l_pc l = Fetch \<or> (\<exists>m. l_pc l = Decoding m)
        then (if l_gen l \<noteq> generation s then stop
              else perform (Dropped ''error'') (pushUpdate True (stop\<lparr>playing := False\<rparr>)))
        else s)"

section \<open>The paused redraw\<close>

definition redraw_topics :: "env \<Rightarrow> string list" where
  "redraw_topics E = frameTopics E @ descriptorTopics E @ telemetryTopics E"

definition overtaken :: "player \<Rightarrow> bool" where
  "overtaken s \<longleftrightarrow> pendingSeekNs s \<noteq> None \<or> closed s \<or> playing s"

definition set_scrub :: "nat \<Rightarrow> scrub \<Rightarrow> player \<Rightarrow> player" where
  "set_scrub i x s = s\<lparr>scrubs := (scrubs s)[i := x]\<rparr>"

text \<open>The head of the redraw loop: the next target, or the end.\<close>

definition scrub_head :: "env \<Rightarrow> nat \<Rightarrow> player \<Rightarrow> player" where
  "scrub_head E i s = (let x = scrubs s ! i
     in if pendingSeekNs s \<noteq> None \<and> \<not> closed s \<and> \<not> playing s
        then set_scrub i \<lparr>sc_target = the (pendingSeekNs s), sc_pc = (if redraw_topics E = [] then Returned else Query)\<rparr>
               (s\<lparr>pendingSeekNs := None\<rparr>)
        else let s1 = (set_scrub i (x\<lparr>sc_pc := Finished\<rparr>) s)\<lparr>seekRefreshing := False\<rparr>
             in if closed s1 then s1 else pushUpdate True s1)"

definition scrub_next :: "env \<Rightarrow> nat \<Rightarrow> message list \<Rightarrow> player \<Rightarrow> player" where
  "scrub_next E i ms s = (let x = scrubs s ! i in case ms of
      [] \<Rightarrow> set_scrub i (x\<lparr>sc_pc := Returned\<rparr>) s
    | m # rest \<Rightarrow> (case handle_begin E m 0 s of
        (s', waits) \<Rightarrow> set_scrub i (x\<lparr>sc_pc := (if waits then RDecoding m rest else RAfter rest)\<rparr>) s'))"

definition scrub_step :: "env \<Rightarrow> nat \<Rightarrow> player \<Rightarrow> player" where
  "scrub_step E i s = (let x = scrubs s ! i; return = set_scrub i (x\<lparr>sc_pc := Returned\<rparr>) s
     in case sc_pc x of
          Query \<Rightarrow> if overtaken s then return
            else scrub_next E i (e_latest E (abs_time E (sc_target x)) (redraw_topics E)) s
        | RDecoding m rest \<Rightarrow> set_scrub i (x\<lparr>sc_pc := RAfter rest\<rparr>) (handle_end E m s)
        | RAfter rest \<Rightarrow> if overtaken s then return else scrub_next E i rest s
        | Returned \<Rightarrow> scrub_head E i s
        | Finished \<Rightarrow> s)"

text \<open>The query or a decoder throws: the \<open>finally\<close> block runs, and \<open>seek\<close> rejects.\<close>

definition scrub_throw :: "nat \<Rightarrow> player \<Rightarrow> player" where
  "scrub_throw i s = (let x = scrubs s ! i
     in if sc_pc x = Query \<or> (\<exists>m ms. sc_pc x = RDecoding m ms)
        then (set_scrub i (x\<lparr>sc_pc := Finished\<rparr>) s)\<lparr>seekRefreshing := False\<rparr> else s)"

section \<open>Refreshing newly enabled channels\<close>

definition set_refresh :: "nat \<Rightarrow> refresh \<Rightarrow> player \<Rightarrow> player" where
  "set_refresh i x s = s\<lparr>refreshes := (refreshes s)[i := x]\<rparr>"

definition refreshTopics :: "env \<Rightarrow> string list \<Rightarrow> player \<Rightarrow> player" where
  "refreshTopics E ts s = (let wanted = filter (\<lambda>t. t \<in> set (frameTopics E)) ts
     in if wanted = [] then s
        else s\<lparr>refreshes := refreshes s @ [\<lparr>rf_gen = generation s, rf_at = abs_time E (positionNs s),
               rf_topics = wanted, rf_pc = Query\<rparr>]\<rparr>)"

definition refresh_next :: "env \<Rightarrow> nat \<Rightarrow> message list \<Rightarrow> player \<Rightarrow> player" where
  "refresh_next E i ms s = (let x = refreshes s ! i in case ms of
      [] \<Rightarrow> set_refresh i (x\<lparr>rf_pc := Finished\<rparr>) s
    | m # rest \<Rightarrow> (case handle_begin E m 0 s of
        (s', waits) \<Rightarrow> set_refresh i (x\<lparr>rf_pc := (if waits then RDecoding m rest else RAfter rest)\<rparr>) s'))"

definition refresh_step :: "env \<Rightarrow> nat \<Rightarrow> player \<Rightarrow> player" where
  "refresh_step E i s = (let x = refreshes s ! i
     in case rf_pc x of
          Query \<Rightarrow> if rf_gen x \<noteq> generation s then set_refresh i (x\<lparr>rf_pc := Finished\<rparr>) s
            else refresh_next E i (e_latest E (rf_at x) (rf_topics x)) s
        | RDecoding m rest \<Rightarrow> set_refresh i (x\<lparr>rf_pc := RAfter rest\<rparr>) (handle_end E m s)
        | RAfter rest \<Rightarrow> refresh_next E i rest s
        | _ \<Rightarrow> s)"

definition refresh_throw :: "nat \<Rightarrow> player \<Rightarrow> player" where
  "refresh_throw i s = (let x = refreshes s ! i
     in if rf_pc x = Query \<or> (\<exists>m ms. rf_pc x = RDecoding m ms)
        then perform (Dropped ''error'') (set_refresh i (x\<lparr>rf_pc := Finished\<rparr>) s) else s)"

section \<open>Commands\<close>

text \<open>\<open>None\<close>: an invalid rate is an exception.\<close>

definition play :: "env \<Rightarrow> real \<Rightarrow> player \<Rightarrow> player option" where
  "play E newRate s = (if closed s then Some s
     else if \<not> 0 < newRate then None
     else let s1 = s\<lparr>rate := newRate, pendingSeekNs := None, generation := generation s + 1\<rparr>;
              s2 = (if durationNs E \<le> positionNs s1 then s1\<lparr>positionNs := 0\<rparr> else s1)
          in Some (startLoop E (pushUpdate True (s2\<lparr>playing := True\<rparr>))))"

definition pause :: "player \<Rightarrow> player" where
  "pause s = (if closed s then s
     else let s1 = s\<lparr>generation := generation s + 1, pendingSeekNs := None\<rparr>
          in if \<not> playing s1 then s1 else pushUpdate True (s1\<lparr>playing := False\<rparr>))"

definition seek :: "env \<Rightarrow> real \<Rightarrow> player \<Rightarrow> player" where
  "seek E t s = (if closed s then s
     else let wasPlaying = playing s;
              s1 = pushUpdate True (s\<lparr>generation := generation s + 1, positionNs := min (max 0 t) (durationNs E)\<rparr>)
          in if wasPlaying then startLoop E (s1\<lparr>pendingSeekNs := None\<rparr>)
             else let s2 = s1\<lparr>pendingSeekNs := Some (positionNs s1)\<rparr>
               in if seekRefreshing s2 then s2
                  else scrub_head E (length (scrubs s2)) (s2\<lparr>seekRefreshing := True,
                         scrubs := scrubs s2 @ [\<lparr>sc_target = 0, sc_pc = Returned\<rparr>]\<rparr>))"

definition setEnabled :: "env \<Rightarrow> string list option \<Rightarrow> player \<Rightarrow> player" where
  "setEnabled E chs s = (if closed s then s
     else let prev = enabled s; s1 = s\<lparr>enabled := chs\<rparr>
          in if playing s1 then s1
             else let added = filter (\<lambda>t. t \<in> set (frameTopics E) \<and>
                        \<not> (case prev of None \<Rightarrow> True | Some p \<Rightarrow> t \<in> set p))
                      (rev (remdups (rev (case chs of None \<Rightarrow> frameTopics E | Some c \<Rightarrow> c))))
               in if added = [] then s1 else refreshTopics E added s1)"

definition liveStats :: "string \<Rightarrow> player \<Rightarrow> nat \<times> real \<times> real option" where
  "liveStats t s = (case map_of (live s) t of
      None \<Rightarrow> (0, 0, None)
    | Some x \<Rightarrow> let rs = filter (\<lambda>r. clock s - r \<le> RATE_WINDOW_MS) (recent x);
          spanMs = (if 2 \<le> length rs then last rs - hd rs else 0);
          rateHz = (if 0 < spanMs then (real (length rs) - 1) / spanMs * 1000 else 0)
        in (decoded x, rateHz, lastFrameNs x))"

definition close_player :: "player \<Rightarrow> player" where
  "close_player s = (if closed s then s
     else s\<lparr>closed := True, generation := generation s + 1, playing := False\<rparr>)"

section \<open>Histories\<close>

datatype player_event = Play real | Pause | Seek real | SetEnabled "string list option" | Close | Tick real
  | LoopStep nat | LoopThrow nat | ScrubStep nat | ScrubThrow nat | RefreshStep nat | RefreshThrow nat

fun player_step :: "env \<Rightarrow> player \<Rightarrow> player_event \<Rightarrow> player" where
  "player_step E s (Play r) = (case play E r s of None \<Rightarrow> s | Some s' \<Rightarrow> s')"
| "player_step E s Pause = pause s"
| "player_step E s (Seek t) = seek E t s"
| "player_step E s (SetEnabled chs) = setEnabled E chs s"
| "player_step E s Close = close_player s"
| "player_step E s (Tick d) = s\<lparr>clock := clock s + max 0 d\<rparr>"
| "player_step E s (LoopStep i) = (if i < length (loops s) then loop_step E i s else s)"
| "player_step E s (LoopThrow i) = (if i < length (loops s) then loop_throw i s else s)"
| "player_step E s (ScrubStep i) = (if i < length (scrubs s) then scrub_step E i s else s)"
| "player_step E s (ScrubThrow i) = (if i < length (scrubs s) then scrub_throw i s else s)"
| "player_step E s (RefreshStep i) = (if i < length (refreshes s) then refresh_step E i s else s)"
| "player_step E s (RefreshThrow i) = (if i < length (refreshes s) then refresh_throw i s else s)"

text \<open>What the effects leave alone.\<close>

definition control :: "player \<Rightarrow> player" where
  "control s = s\<lparr>lastUpdateAt := None, live := [], effects := []\<rparr>"

lemma control_eq: "control s' = control s \<Longrightarrow>
    positionNs s' = positionNs s \<and> playing s' = playing s \<and> generation s' = generation s \<and> closed s' = closed s
    \<and> pendingSeekNs s' = pendingSeekNs s \<and> seekRefreshing s' = seekRefreshing s \<and> loops s' = loops s
    \<and> scrubs s' = scrubs s \<and> refreshes s' = refreshes s \<and> rate s' = rate s \<and> clock s' = clock s
    \<and> enabled s' = enabled s"
  by (cases s; cases s') (simp add: control_def)

lemma control_effect [simp]: "control (perform x s) = control s"
  by (simp add: control_def perform_def)

lemma control_push [simp]: "control (pushUpdate f s) = control s"
  by (simp add: control_def pushUpdate_def perform_def)

lemma control_end [simp]: "control (handle_end E m s) = control s"
  by (simp add: control_def handle_end_def perform_def noteDecode_def Let_def split: option.split)

lemma control_begin: "handle_begin E m l s = (s', w) \<Longrightarrow> control s' = control s"
  by (auto simp: control_def handle_begin_def perform_def Let_def split: option.splits if_splits)

lemmas same_effect [simp] = control_eq [OF control_effect]
lemmas same_push [simp] = control_eq [OF control_push]
lemmas same_end [simp] = control_eq [OF control_end]
lemmas same_begin = control_eq [OF control_begin]

section \<open>One loop drives the position\<close>

definition current :: "player \<Rightarrow> loop \<Rightarrow> bool" where
  "current s l \<longleftrightarrow> l_gen l = generation s \<and> l_pc l \<noteq> Ended"

definition driven :: "player \<Rightarrow> bool" where
  "driven s \<longleftrightarrow> list_all (\<lambda>l. l_gen l \<le> generation s) (loops s)
     \<and> length (filter (current s) (loops s)) = (if playing s then 1 else 0)"

text \<open>Replacing a task by one of its generation.\<close>

lemma driven_set:
  assumes d: "driven s" and i: "i < length (loops s)" and g: "l_gen l = l_gen (loops s ! i)"
    and s': "generation s' = generation s" "loops s' = (loops s)[i := l]"
    and p: "current s (loops s ! i) \<Longrightarrow> playing s' = current s l"
      "\<not> current s (loops s ! i) \<Longrightarrow> playing s' = playing s \<and> \<not> current s l"
  shows "driven s'"
proof -
  have cur: "current s' = current s" by (rule ext) (simp add: current_def s')
  have "l_gen l \<le> generation s" using d i g by (simp add: driven_def list_all_length)
  then have "list_all (\<lambda>l. l_gen l \<le> generation s') (loops s')"
    using d unfolding s' by (intro list_all_update) (simp_all add: driven_def)
  moreover have "playing s" if "current s (loops s ! i)"
  proof (rule ccontr)
    assume "\<not> playing s"
    with d have "filter (current s) (loops s) = []" by (simp add: driven_def)
    with that i show False by (simp add: filter_empty_conv)
  qed
  then have "length (filter (current s') (loops s')) = (if playing s' then 1 else 0)"
    using filter_update_count [OF i, of "current s" l] d p unfolding cur s'
    by (cases "current s (loops s ! i)") (auto simp: driven_def split: if_splits)
  ultimately show ?thesis by (simp add: driven_def)
qed

lemma driven_same:
  "driven s \<Longrightarrow> generation s' = generation s \<Longrightarrow> loops s' = loops s \<Longrightarrow> playing s' = playing s \<Longrightarrow> driven s'"
  by (simp add: driven_def current_def [abs_def])

text \<open>A new generation makes every loop stale.\<close>

lemma driven_bump:
  assumes "driven s" "generation s' = generation s + 1" "loops s' = loops s" "\<not> playing s'"
  shows "driven s'"
proof -
  have "filter (current s') (loops s') = []"
    using assms by (auto simp: driven_def filter_empty_conv current_def list_all_iff)
  with assms show ?thesis by (auto simp: driven_def list_all_iff)
qed

lemma driven_start:
  assumes "driven s" "generation s' = generation s + 1" "loops s' = loops s" "playing s'"
  shows "driven (startLoop E s')"
proof -
  have "filter (current (startLoop E s')) (loops s') = []"
    using assms by (auto simp: driven_def filter_empty_conv current_def list_all_iff startLoop_def)
  with assms show ?thesis by (auto simp: driven_def list_all_iff startLoop_def current_def)
qed

lemma set_loop_simps [simp]:
  "generation (set_loop i l s) = generation s" "playing (set_loop i l s) = playing s"
  "loops (set_loop i l s) = (loops s)[i := l]" "current (set_loop i l s) = current s"
  "scrubs (set_loop i l s) = scrubs s" "seekRefreshing (set_loop i l s) = seekRefreshing s"
  "pendingSeekNs (set_loop i l s) = pendingSeekNs s" "closed (set_loop i l s) = closed s"
  "positionNs (set_loop i l s) = positionNs s" "effects (set_loop i l s) = effects s"
  by (simp_all add: set_loop_def current_def [abs_def])

lemma driven_simps [simp]:
  "driven (pushUpdate f s) = driven s" "driven (perform x s) = driven s"
  "driven (s\<lparr>positionNs := p\<rparr>) = driven s" "driven (handle_end E m s) = driven s"
  by (simp_all add: driven_def current_def [abs_def])

lemma driven_playing: "driven s \<Longrightarrow> i < length (loops s) \<Longrightarrow> current s (loops s ! i) \<Longrightarrow> playing s"
  by (auto simp: driven_def filter_empty_conv split: if_splits)

lemma driven_update:
  assumes d: "driven s" "i < length (loops s)" and l: "l_gen l = l_gen (loops s ! i)"
    and p: "l_pc (loops s ! i) \<noteq> Ended" "l_pc l \<noteq> Ended"
  shows "driven (set_loop i l s)"
proof (rule driven_set [OF d l])
  have c: "current s l = current s (loops s ! i)" using l p by (simp add: current_def)
  show "current s (loops s ! i) \<Longrightarrow> playing (set_loop i l s) = current s l"
    using driven_playing [OF d] c by simp
  show "\<not> current s (loops s ! i) \<Longrightarrow> playing (set_loop i l s) = playing s \<and> \<not> current s l"
    using c by simp
qed simp_all

lemma driven_handle:
  assumes "driven s" "i < length (loops s)" "l_gen l = l_gen (loops s ! i)" "l_pc (loops s ! i) \<noteq> Ended"
  shows "driven (loop_handle E i m w l s)"
proof -
  obtain s' b where h: "handle_begin E m (max 0 (- w)) s = (s', b)" by (cases "handle_begin E m (max 0 (- w)) s")
  note S = same_begin [OF h]
  have "driven s'" by (rule driven_same [OF assms(1)]) (simp_all add: S)
  then show ?thesis unfolding loop_handle_def h prod.case
    by (rule driven_update) (use assms S in simp_all)
qed

lemma driven_stop:
  assumes "driven s" "i < length (loops s)" "l_gen (loops s ! i) \<noteq> generation s"
  shows "driven (set_loop i ((loops s ! i)\<lparr>l_pc := Ended\<rparr>) s)"
  by (rule driven_set [OF assms(1,2), where l = "(loops s ! i)\<lparr>l_pc := Ended\<rparr>"])
     (use assms(3) in \<open>simp_all add: current_def\<close>)

lemma driven_end:
  assumes "driven s" "i < length (loops s)" "l_gen (loops s ! i) = generation s" "l_pc (loops s ! i) \<noteq> Ended"
  shows "driven ((set_loop i ((loops s ! i)\<lparr>l_pc := Ended\<rparr>) s)\<lparr>positionNs := p, playing := False\<rparr>)"
  by (rule driven_set [OF assms(1,2), where l = "(loops s ! i)\<lparr>l_pc := Ended\<rparr>"])
     (use assms(3,4) in \<open>simp_all add: current_def\<close>)

lemma driven_loop_step:
  assumes d: "driven s" and i: "i < length (loops s)"
  shows "driven (loop_step E i s)"
proof -
  let ?l = "loops s ! i"
  consider "l_gen ?l \<noteq> generation s" | "l_gen ?l = generation s" by blast
  then show ?thesis
  proof cases
    case 1
    note stop = driven_stop [OF d i 1]
    from 1 d driven_update [of "handle_end E m s" i "?l\<lparr>l_pc := After m\<rparr>" for m] i stop show ?thesis
      by (cases "l_pc ?l") (simp_all add: loop_step_def Let_def)
  next
    case 2
    show ?thesis
    proof (cases "l_pc ?l")
      case Fetch
      then have "l_pc ?l \<noteq> Ended" by simp
      note E = driven_end [OF d i 2 this, of "durationNs E"] and H = driven_handle [OF d i _ this]
        and U = driven_update [OF d i _ this]
      from E H U Fetch 2 show ?thesis by (cases "l_rest ?l") (simp_all add: loop_step_def Let_def)
    next
      case (Sleeping m w)
      with 2 driven_handle [OF d i] show ?thesis by (simp add: loop_step_def)
    next
      case (Decoding m)
      with d i driven_update [of "handle_end E m s" i "?l\<lparr>l_pc := After m\<rparr>"] show ?thesis by (simp add: loop_step_def)
    next
      case (After m)
      with 2 driven_update [OF d i, of "?l\<lparr>l_pc := Fetch\<rparr>"] show ?thesis by (simp add: loop_step_def)
    next
      case Ended
      with d show ?thesis by (simp add: loop_step_def)
    qed
  qed
qed

lemma driven_loop_throw:
  assumes d: "driven s" and i: "i < length (loops s)"
  shows "driven (loop_throw i s)"
proof -
  let ?l = "loops s ! i"
  have "driven ((set_loop i (?l\<lparr>l_pc := Ended\<rparr>) s)\<lparr>playing := False\<rparr>)"
    if "l_pc ?l \<noteq> Ended" "l_gen ?l = generation s"
    using driven_end [OF d i that(2,1), of "positionNs s"] by (rule driven_same) simp_all
  with driven_stop [OF d i] d show ?thesis by (auto simp: loop_throw_def Let_def)
qed

text \<open>The redraw and refresh tasks leave playback alone.\<close>

definition playback :: "player \<Rightarrow> real \<times> bool \<times> nat \<times> bool \<times> loop list" where
  "playback s = (positionNs s, playing s, generation s, closed s, loops s)"

lemma playback_effects [simp]:
  "playback (perform x s) = playback s" "playback (pushUpdate f s) = playback s"
  "playback (handle_end E m s) = playback s"
  "playback (set_scrub i z s) = playback s" "playback (set_refresh i y s) = playback s"
  "playback (s\<lparr>seekRefreshing := b\<rparr>) = playback s" "playback (s\<lparr>pendingSeekNs := q\<rparr>) = playback s"
  "playback (s\<lparr>scrubs := xs\<rparr>) = playback s" "playback (s\<lparr>refreshes := ys\<rparr>) = playback s"
  "playback (s\<lparr>enabled := ts\<rparr>) = playback s" "playback (s\<lparr>clock := c\<rparr>) = playback s"
  by (simp_all add: playback_def set_scrub_def set_refresh_def)

lemma playback_begin: "handle_begin E m l s = (s', w) \<Longrightarrow> playback s' = playback s"
  by (drule control_begin, drule control_eq) (simp add: playback_def)

lemma playback_scrub_next [simp]: "playback (scrub_next E i ms s) = playback s"
  by (auto simp: scrub_next_def Let_def split: list.split prod.split dest: playback_begin)

lemma playback_scrub_head [simp]: "playback (scrub_head E i s) = playback s"
  by (simp add: scrub_head_def Let_def)

lemma playback_scrub [simp]: "playback (scrub_step E i s) = playback s" "playback (scrub_throw i s) = playback s"
  by (simp_all add: scrub_step_def scrub_throw_def Let_def split: redraw_pc.split)

lemma playback_refresh_next [simp]: "playback (refresh_next E i ms s) = playback s"
  by (auto simp: refresh_next_def Let_def split: list.split prod.split dest: playback_begin)

lemma playback_refresh [simp]: "playback (refresh_step E i s) = playback s" "playback (refresh_throw i s) = playback s"
  by (simp_all add: refresh_step_def refresh_throw_def Let_def split: redraw_pc.split)

lemma playback_setEnabled [simp]: "playback (setEnabled E chs s) = playback s"
  by (simp add: setEnabled_def refreshTopics_def Let_def)

lemma driven_playback: "driven s \<Longrightarrow> playback s' = playback s \<Longrightarrow> driven s'"
  by (erule driven_same) (simp_all add: playback_def)

lemma command_shapes:
  "player_step E s (Play r) = s \<or> (\<exists>s'. player_step E s (Play r) = startLoop E s'
     \<and> generation s' = generation s + 1 \<and> loops s' = loops s \<and> playing s')"
  "pause s = s \<or> generation (pause s) = generation s + 1 \<and> loops (pause s) = loops s \<and> \<not> playing (pause s)"
  "close_player s = s \<or> generation (close_player s) = generation s + 1
     \<and> loops (close_player s) = loops s \<and> \<not> playing (close_player s)"
  by (auto simp: play_def pause_def close_player_def Let_def)

lemma driven_step: "driven s \<Longrightarrow> driven (player_step E s e)"
proof (cases e)
  case (Play r)
  assume d: "driven s"
  from command_shapes(1) [of E s r] show ?thesis
    unfolding Play using d by (auto simp del: player_step.simps intro: driven_start [OF d, simplified])
next
  case Pause
  assume d: "driven s"
  from command_shapes(2) [of s] show ?thesis
    unfolding Pause player_step.simps using d driven_bump [OF d] by metis
next
  case (Seek t)
  assume d: "driven s"
  show ?thesis
  proof (cases "closed s \<or> playing s")
    case True
    have "driven (startLoop E ((pushUpdate True (s\<lparr>generation := generation s + 1,
        positionNs := min (max 0 t) (durationNs E)\<rparr>))\<lparr>pendingSeekNs := None\<rparr>))" if "playing s"
      by (rule driven_start [OF d]) (use that in simp_all)
    with True d Seek show ?thesis by (cases "closed s") (simp_all add: seek_def Let_def)
  next
    case False
    let ?s1 = "s\<lparr>generation := generation s + 1, positionNs := min (max 0 t) (durationNs E)\<rparr>"
    have b: "driven ?s1" by (rule driven_bump [OF d]) (use False in simp_all)
    have "playback (seek E t s) = playback ?s1" using False by (simp add: seek_def Let_def)
    with b have "driven (seek E t s)" by (rule driven_playback)
    with Seek show ?thesis by simp
  qed
next
  case Close
  assume d: "driven s"
  from command_shapes(3) [of s] show ?thesis
    unfolding Close player_step.simps using d driven_bump [OF d] by metis
qed (simp_all add: driven_loop_step driven_loop_throw driven_playback)

interpretation playback: started_machine "player_step E" driven new_player
proof unfold_locales
  show "driven s \<Longrightarrow> driven (player_step E s e)" for s e by (rule driven_step)
qed (simp add: driven_def new_player_def)

text \<open>
  C29. Whatever the interleaving of commands and tasks, the player plays exactly when one loop of the
  current generation is alive, and then only one: no two loops drive the position, and no player
  claims to play with its loop gone.
\<close>

theorem playing_means_one_loop:
  "length (filter (current (run (player_step E) new_player es)) (loops (run (player_step E) new_player es)))
     = (if playing (run (player_step E) new_player es) then 1 else 0)"
  using playback.reachable_inv [of E es] by (simp add: driven_def)

section \<open>The position stays in the file\<close>

definition env_ok :: "env \<Rightarrow> bool" where
  "env_ok E \<longleftrightarrow> e_startNs E \<le> e_endNs E \<and>
     (\<forall>a. list_all (\<lambda>m. e_startNs E \<le> logTime m \<and> logTime m \<le> e_endNs E) (e_messages E a))"

definition msg_ok :: "env \<Rightarrow> message \<Rightarrow> bool" where
  "msg_ok E m \<longleftrightarrow> 0 \<le> relNs E m \<and> relNs E m \<le> durationNs E"

fun pc_ok :: "env \<Rightarrow> loop_pc \<Rightarrow> bool" where
  "pc_ok E (Sleeping m _) = msg_ok E m"
| "pc_ok E (Decoding m) = msg_ok E m"
| "pc_ok E (After m) = msg_ok E m"
| "pc_ok E _ = True"

definition loop_ok :: "env \<Rightarrow> loop \<Rightarrow> bool" where
  "loop_ok E l \<longleftrightarrow> list_all (msg_ok E) (l_rest l) \<and> pc_ok E (l_pc l)"

definition in_file :: "env \<Rightarrow> player \<Rightarrow> bool" where
  "in_file E s \<longleftrightarrow> 0 \<le> positionNs s \<and> positionNs s \<le> durationNs E \<and> list_all (loop_ok E) (loops s)"

lemma in_file_simps [simp]:
  "in_file E (pushUpdate f s) = in_file E s" "in_file E (perform x s) = in_file E s"
  "in_file E (handle_end E m s) = in_file E s"
  by (simp_all add: in_file_def)

lemma in_file_set: "in_file E s \<Longrightarrow> loop_ok E l \<Longrightarrow> in_file E (set_loop i l s)"
  by (simp add: in_file_def list_all_update)

lemma in_file_pos: "in_file E s \<Longrightarrow> 0 \<le> p \<Longrightarrow> p \<le> durationNs E \<Longrightarrow> in_file E (s\<lparr>positionNs := p\<rparr>)"
  by (simp add: in_file_def)

lemma in_file_same: "in_file E s \<Longrightarrow> positionNs s' = positionNs s \<Longrightarrow> loops s' = loops s \<Longrightarrow> in_file E s'"
  by (simp add: in_file_def)

lemma in_file_handle:
  assumes "in_file E s" "msg_ok E m" "list_all (msg_ok E) (l_rest l)"
  shows "in_file E (loop_handle E i m w l s)"
proof -
  obtain s' b where h: "handle_begin E m (max 0 (- w)) s = (s', b)" by (cases "handle_begin E m (max 0 (- w)) s")
  have "in_file E s'" by (rule in_file_same [OF assms(1)]) (simp_all add: same_begin [OF h])
  with assms(2,3) show ?thesis by (simp add: loop_handle_def h in_file_set loop_ok_def)
qed

lemma in_file_loop_step:
  assumes "env_ok E" "in_file E s" "i < length (loops s)"
  shows "in_file E (loop_step E i s)"
proof -
  let ?l = "loops s ! i"
  have l: "list_all (msg_ok E) (l_rest ?l)" "pc_ok E (l_pc ?l)"
    using assms(2,3) by (simp_all add: in_file_def list_all_length loop_ok_def)
  have "0 \<le> durationNs E" using assms(1) by (simp add: env_ok_def durationNs_def)
  then have e: "in_file E (s'\<lparr>positionNs := durationNs E, playing := False\<rparr>)" if "in_file E s'" for s'
    using that by (simp add: in_file_def)
  have set: "in_file E (set_loop i l s)" if "list_all (msg_ok E) (l_rest l)" "pc_ok E (l_pc l)" for l
    using that assms(2) by (simp add: in_file_set loop_ok_def)
  show ?thesis
  proof (cases "l_pc ?l")
    case Fetch
    with l e set in_file_handle [OF assms(2)] show ?thesis
      by (cases "l_rest ?l") (simp_all add: loop_step_def Let_def)
  next
    case (Sleeping m w)
    with l set in_file_handle [OF assms(2)] show ?thesis by (simp add: loop_step_def Let_def)
  next
    case (Decoding m)
    with l assms(2) show ?thesis by (simp add: loop_step_def Let_def in_file_set loop_ok_def)
  next
    case (After m)
    with l set show ?thesis by (simp add: loop_step_def Let_def msg_ok_def in_file_pos)
  next
    case Ended
    with assms(2) show ?thesis by (simp add: loop_step_def)
  qed
qed

lemma in_file_playback: "in_file E s \<Longrightarrow> playback s' = playback s \<Longrightarrow> in_file E s'"
  by (erule in_file_same) (simp_all add: playback_def)

lemma in_file_start: "env_ok E \<Longrightarrow> in_file E s \<Longrightarrow> in_file E (startLoop E s)"
  by (auto simp: in_file_def startLoop_def loop_ok_def env_ok_def msg_ok_def relNs_def durationNs_def list_all_iff)

lemma in_file_step: "env_ok E \<Longrightarrow> in_file E s \<Longrightarrow> in_file E (player_step E s e)"
proof (cases e)
  case (Seek t)
  assume E: "env_ok E" and s: "in_file E s"
  let ?s1 = "s\<lparr>generation := generation s + 1, positionNs := min (max 0 t) (durationNs E)\<rparr>"
  have "0 \<le> durationNs E" using E by (simp add: env_ok_def durationNs_def)
  then have b: "in_file E ?s1" using s by (simp add: in_file_def)
  show ?thesis
  proof (cases "closed s \<or> playing s")
    case True
    with b s E Seek in_file_start [OF E, of "(pushUpdate True ?s1)\<lparr>pendingSeekNs := None\<rparr>"] show ?thesis
      by (cases "closed s") (simp_all add: seek_def Let_def in_file_playback)
  next
    case False
    have "playback (seek E t s) = playback ?s1" using False by (simp add: seek_def Let_def)
    with b have "in_file E (seek E t s)" by (rule in_file_playback)
    with Seek show ?thesis by simp
  qed
next
  case (Play r)
  assume E: "env_ok E" and s: "in_file E s"
  have "0 \<le> durationNs E" using E by (simp add: env_ok_def durationNs_def)
  with Play E s show ?thesis by (auto simp: play_def Let_def in_file_def intro!: in_file_start [unfolded in_file_def])
next
  case Pause
  assume "in_file E s"
  with Pause show ?thesis by (simp add: pause_def Let_def in_file_def)
next
  case Close
  assume "in_file E s"
  with Close show ?thesis by (simp add: close_player_def in_file_def)
next
  case (LoopThrow i)
  assume s: "in_file E s"
  have "in_file E (set_loop i ((loops s ! i)\<lparr>l_pc := Ended\<rparr>) s)" if "i < length (loops s)"
    using s that by (intro in_file_set) (simp_all add: in_file_def list_all_length loop_ok_def)
  with s LoopThrow show ?thesis by (simp add: loop_throw_def Let_def in_file_def)
qed (simp_all add: in_file_loop_step in_file_playback)

text \<open>
  If the source keeps its promise to deliver messages between its bounds, the position never
  leaves the file, whatever is sought and however the tasks interleave.
\<close>

theorem position_stays_in_file:
  assumes "env_ok E"
  shows "0 \<le> positionNs (run (player_step E) new_player es)
    \<and> positionNs (run (player_step E) new_player es) \<le> durationNs E"
proof -
  have "0 \<le> durationNs E" using assms by (simp add: env_ok_def durationNs_def)
  then have "in_file E new_player" by (simp add: in_file_def new_player_def)
  then have "in_file E (run (player_step E) new_player es)"
    by (induction es rule: rev_induct) (simp_all add: in_file_step [OF assms] del: player_step.simps)
  then show ?thesis by (simp add: in_file_def)
qed

lemma position_stays_in_file_witness:
  "let E = \<lparr>e_startNs = 0, e_endNs = 10, e_channels = [], e_messages = (\<lambda>a. [\<lparr>channelId = 1, logTime = 4\<rparr>]),
       e_latest = (\<lambda>a ts. []), e_doc = (\<lambda>m. True), e_decodable = (\<lambda>c. True), e_telemetry_hook = True,
       e_descriptor_hook = False\<rparr>
   in positionNs (run (player_step E) new_player [Play 1, LoopStep 0, Seek 20]) \<le> 10"
  using position_stays_in_file [of "\<lparr>e_startNs = 0, e_endNs = 10, e_channels = [],
       e_messages = (\<lambda>a. [\<lparr>channelId = 1, logTime = 4\<rparr>]), e_latest = (\<lambda>a ts. []), e_doc = (\<lambda>m. True),
       e_decodable = (\<lambda>c. True), e_telemetry_hook = True, e_descriptor_hook = False\<rparr>" "[Play 1, LoopStep 0, Seek 20]"]
  by (simp add: env_ok_def durationNs_def Let_def del: run_Cons)

section \<open>One redraw at a time, and the last seek wins\<close>

definition unfinished :: "scrub \<Rightarrow> bool" where
  "unfinished x \<longleftrightarrow> sc_pc x \<noteq> Finished"

definition one_redraw :: "player \<Rightarrow> bool" where
  "one_redraw s \<longleftrightarrow> length (filter unfinished (scrubs s)) = (if seekRefreshing s then 1 else 0)"

lemma one_redraw_same: "one_redraw s \<Longrightarrow> scrubs s' = scrubs s \<Longrightarrow> seekRefreshing s' = seekRefreshing s \<Longrightarrow> one_redraw s'"
  by (simp add: one_redraw_def)

lemma one_redraw_set:
  assumes "one_redraw s" "i < length (scrubs s)" "unfinished (scrubs s ! i)"
    and "scrubs s' = (scrubs s)[i := x]" "seekRefreshing s' = unfinished x"
  shows "one_redraw s'"
proof -
  have "seekRefreshing s" using assms(1-3) by (auto simp: one_redraw_def filter_empty_conv split: if_splits)
  with filter_update_count [OF assms(2), of unfinished x] assms show ?thesis by (simp add: one_redraw_def)
qed

text \<open>What the other tasks and commands leave alone.\<close>

definition scrubbing :: "player \<Rightarrow> real option \<times> bool \<times> scrub list" where
  "scrubbing s = (pendingSeekNs s, seekRefreshing s, scrubs s)"

lemma scrubbing_effects [simp]:
  "scrubbing (perform x s) = scrubbing s" "scrubbing (pushUpdate f s) = scrubbing s"
  "scrubbing (handle_end E m s) = scrubbing s" "scrubbing (set_loop i l s) = scrubbing s"
  "scrubbing (set_refresh i y s) = scrubbing s" "scrubbing (s\<lparr>positionNs := p\<rparr>) = scrubbing s"
  "scrubbing (s\<lparr>playing := b\<rparr>) = scrubbing s" "scrubbing (s\<lparr>generation := g\<rparr>) = scrubbing s"
  "scrubbing (s\<lparr>refreshes := ys\<rparr>) = scrubbing s" "scrubbing (s\<lparr>enabled := ts\<rparr>) = scrubbing s"
  "scrubbing (s\<lparr>clock := c\<rparr>) = scrubbing s" "scrubbing (s\<lparr>closed := b\<rparr>) = scrubbing s"
  by (simp_all add: scrubbing_def perform_def pushUpdate_def handle_end_def noteDecode_def set_loop_def
      set_refresh_def Let_def split: option.split)

lemma scrubbing_begin: "handle_begin E m l s = (s', w) \<Longrightarrow> scrubbing s' = scrubbing s"
  by (auto simp: handle_begin_def Let_def split: option.splits if_splits)

lemma scrubbing_refresh [simp]: "scrubbing (refresh_step E i s) = scrubbing s" "scrubbing (refresh_throw i s) = scrubbing s"
proof -
  have n: "scrubbing (refresh_next E i ms s) = scrubbing s" for ms
    by (auto simp: refresh_next_def Let_def split: list.split prod.split dest: scrubbing_begin)
  show "scrubbing (refresh_step E i s) = scrubbing s" "scrubbing (refresh_throw i s) = scrubbing s"
    by (simp_all add: refresh_step_def refresh_throw_def Let_def n split: redraw_pc.split)
qed

lemma scrubbing_setEnabled [simp]: "scrubbing (setEnabled E chs s) = scrubbing s"
  by (simp add: setEnabled_def refreshTopics_def Let_def)

lemma scrubbing_loop [simp]: "scrubbing (loop_step E i s) = scrubbing s" "scrubbing (loop_throw i s) = scrubbing s"
proof -
  have h: "scrubbing (loop_handle E i m w l s) = scrubbing s" for m w l
    by (auto simp: loop_handle_def split: prod.split dest: scrubbing_begin)
  show "scrubbing (loop_step E i s) = scrubbing s" "scrubbing (loop_throw i s) = scrubbing s"
    by (simp_all add: loop_step_def loop_throw_def Let_def h split: loop_pc.split list.split)
qed

lemma others_finished:
  assumes "one_redraw s" "i < length (scrubs s)" "unfinished (scrubs s ! i)" "y \<in> set ((scrubs s)[i := x])"
  shows "y = x \<or> \<not> unfinished y"
proof -
  let ?z = "(scrubs s ! i)\<lparr>sc_pc := Finished\<rparr>"
  have "seekRefreshing s" using assms(1-3) by (auto simp: one_redraw_def filter_empty_conv split: if_splits)
  with filter_update_count [OF assms(2), of unfinished ?z] assms(1,3)
  have none: "filter unfinished ((scrubs s)[i := ?z]) = []" by (simp add: one_redraw_def unfinished_def)
  obtain j where j: "j < length (scrubs s)" "y = (scrubs s)[i := x] ! j" using assms(4) by (auto simp: in_set_conv_nth)
  show ?thesis
  proof (cases "j = i")
    case False
    then have "y = (scrubs s)[i := ?z] ! j" using j by simp
    with none j(1) show ?thesis by (metis (mono_tags) filter_empty_conv length_list_update nth_mem)
  qed (use j assms(2) in simp)
qed

definition next_pc :: "env \<Rightarrow> message list \<Rightarrow> player \<Rightarrow> redraw_pc" where
  "next_pc E ms s = (case ms of [] \<Rightarrow> Returned
      | m # rest \<Rightarrow> if snd (handle_begin E m 0 s) then RDecoding m rest else RAfter rest)"

lemma next_pc_goes_on [simp]: "next_pc E ms s \<noteq> Finished" "next_pc E ms s = Returned \<longleftrightarrow> ms = []"
  by (simp_all add: next_pc_def split: list.split)

lemma scrub_next_shape:
  "scrubs (scrub_next E i ms s) = (scrubs s)[i := (scrubs s ! i)\<lparr>sc_pc := next_pc E ms s\<rparr>]
   \<and> seekRefreshing (scrub_next E i ms s) = seekRefreshing s \<and> pendingSeekNs (scrub_next E i ms s) = pendingSeekNs s"
proof (cases ms)
  case Nil
  then show ?thesis by (simp add: scrub_next_def set_scrub_def perform_def next_pc_def Let_def)
next
  case (Cons m rest)
  obtain s' w where h: "handle_begin E m 0 s = (s', w)" by (cases "handle_begin E m 0 s")
  from scrubbing_begin [OF h] h Cons show ?thesis
    by (simp add: scrub_next_def set_scrub_def next_pc_def Let_def scrubbing_def)
qed

lemma scrub_head_shape:
  "scrubbing (scrub_head E i s) =
    (if pendingSeekNs s \<noteq> None \<and> \<not> closed s \<and> \<not> playing s
     then (None, seekRefreshing s, (scrubs s)[i := \<lparr>sc_target = the (pendingSeekNs s),
             sc_pc = (if redraw_topics E = [] then Returned else Query)\<rparr>])
     else (pendingSeekNs s, False, (scrubs s)[i := (scrubs s ! i)\<lparr>sc_pc := Finished\<rparr>]))"
proof -
  have "scrubbing ((set_scrub i x s)\<lparr>seekRefreshing := False\<rparr>)
      = (pendingSeekNs s, False, (scrubs s)[i := x])" for x
    by (simp add: scrubbing_def set_scrub_def)
  then show ?thesis by (simp add: scrub_head_def Let_def) (simp add: scrubbing_def set_scrub_def)
qed

lemma one_redraw_scrub_step:
  assumes o: "one_redraw s" and i: "i < length (scrubs s)"
  shows "one_redraw (scrub_step E i s)"
proof (cases "unfinished (scrubs s ! i)")
  case False
  with o show ?thesis by (simp add: scrub_step_def unfinished_def)
next
  case True
  let ?x = "scrubs s ! i"
  have r: "seekRefreshing s" using o i True by (auto simp: one_redraw_def filter_empty_conv split: if_splits)
  have return: "one_redraw (set_scrub i (?x\<lparr>sc_pc := p\<rparr>) s)" if "p \<noteq> Finished" for p
    by (rule one_redraw_set [OF o i True, where x = "?x\<lparr>sc_pc := p\<rparr>"]) (use r that in \<open>simp_all add: set_scrub_def unfinished_def\<close>)
  have go: "one_redraw (scrub_next E i ms s)" for ms
    by (rule one_redraw_set [OF o i True, where x = "?x\<lparr>sc_pc := next_pc E ms s\<rparr>"])
       (use r scrub_next_shape [of E i ms s] in \<open>simp_all add: unfinished_def\<close>)
  have head: "one_redraw (scrub_head E i s)"
  proof (cases "pendingSeekNs s \<noteq> None \<and> \<not> closed s \<and> \<not> playing s")
    case True
    show ?thesis
      by (rule one_redraw_set [OF o i \<open>unfinished ?x\<close>, where x = "\<lparr>sc_target = the (pendingSeekNs s),
             sc_pc = (if redraw_topics E = [] then Returned else Query)\<rparr>"])
         (use True scrub_head_shape [of E i s] r in \<open>simp_all add: scrubbing_def unfinished_def\<close>)
  next
    case False
    show ?thesis
      by (rule one_redraw_set [OF o i \<open>unfinished ?x\<close>, where x = "?x\<lparr>sc_pc := Finished\<rparr>"])
         (use False scrub_head_shape [of E i s] in \<open>auto simp: scrubbing_def unfinished_def\<close>)
  qed
  have dec: "one_redraw (set_scrub i (?x\<lparr>sc_pc := RAfter rest\<rparr>) (handle_end E m s))" for m rest
    by (rule one_redraw_set [OF o i True, where x = "?x\<lparr>sc_pc := RAfter rest\<rparr>"]) (use r in \<open>simp_all add: set_scrub_def unfinished_def\<close>)
  show ?thesis using return go head dec True
    by (cases "sc_pc ?x") (simp_all add: scrub_step_def Let_def unfinished_def)
qed

lemma one_redraw_scrubbing: "one_redraw s \<Longrightarrow> scrubbing s' = scrubbing s \<Longrightarrow> one_redraw s'"
  by (erule one_redraw_same) (simp_all add: scrubbing_def)

lemma one_redraw_seek:
  assumes o: "one_redraw s"
  shows "one_redraw (seek E t s)"
proof -
  define s1 where "s1 = pushUpdate True (s\<lparr>generation := generation s + 1, positionNs := min (max 0 t) (durationNs E)\<rparr>)"
  have S: "scrubs s1 = scrubs s" "seekRefreshing s1 = seekRefreshing s" "closed s1 = closed s" "playing s1 = playing s"
    by (simp_all add: s1_def)
  let ?new = "s1\<lparr>pendingSeekNs := Some (positionNs s1), seekRefreshing := True,
      scrubs := scrubs s1 @ [\<lparr>sc_target = 0, sc_pc = Returned\<rparr>]\<rparr>"
  have seek: "seek E t s = (if closed s then s else if playing s then startLoop E (s1\<lparr>pendingSeekNs := None\<rparr>)
      else if seekRefreshing s then s1\<lparr>pendingSeekNs := Some (positionNs s1)\<rparr>
      else scrub_head E (length (scrubs s)) ?new)"
    by (simp add: seek_def s1_def Let_def)
  have "one_redraw (scrub_head E (length (scrubs s)) ?new)" if "\<not> seekRefreshing s" "\<not> closed s" "\<not> playing s"
    using that o S scrub_head_shape [of E "length (scrubs s)" ?new]
    by (simp add: one_redraw_def scrubbing_def unfinished_def)
  moreover have "one_redraw (startLoop E (s1\<lparr>pendingSeekNs := None\<rparr>))" "one_redraw (s1\<lparr>pendingSeekNs := p\<rparr>)" for p
    using o S by (simp_all add: one_redraw_def startLoop_def)
  ultimately show ?thesis unfolding seek using o by simp
qed

lemma one_redraw_step: "one_redraw s \<Longrightarrow> one_redraw (player_step E s e)"
proof (cases e)
  case (Play r)
  assume o: "one_redraw s"
  with Play show ?thesis by (auto simp: play_def Let_def startLoop_def one_redraw_def)
next
  case Pause
  assume "one_redraw s"
  with Pause show ?thesis by (auto simp: pause_def Let_def one_redraw_def)
next
  case Close
  assume "one_redraw s"
  with Close show ?thesis by (auto simp: close_player_def one_redraw_def)
next
  case (ScrubThrow i)
  assume o: "one_redraw s"
  have "one_redraw ((set_scrub i ((scrubs s ! i)\<lparr>sc_pc := Finished\<rparr>) s)\<lparr>seekRefreshing := False\<rparr>)"
    if "i < length (scrubs s)" "unfinished (scrubs s ! i)"
    by (rule one_redraw_set [OF o that, where x = "(scrubs s ! i)\<lparr>sc_pc := Finished\<rparr>"]) (simp_all add: set_scrub_def unfinished_def)
  with o ScrubThrow show ?thesis by (auto simp: scrub_throw_def Let_def unfinished_def)
qed (simp_all add: one_redraw_scrub_step one_redraw_seek one_redraw_scrubbing)

interpretation redraw: started_machine "player_step E" one_redraw new_player
proof unfold_locales
  show "one_redraw s \<Longrightarrow> one_redraw (player_step E s e)" for s e by (rule one_redraw_step)
qed (simp add: one_redraw_def new_player_def)

text \<open>At no time does more than one redraw loop run.\<close>

lemma at_most_one_redraw: "length (filter unfinished (scrubs (run (player_step E) new_player es))) \<le> 1"
  using redraw.reachable_inv [of E es] by (simp add: one_redraw_def)

section \<open>What is shown\<close>

fun is_output :: "effect \<Rightarrow> bool" where
  "is_output (Publish _ _) = True"
| "is_output (Telemetry _) = True"
| "is_output (Descriptor _ _) = True"
| "is_output _ = False"

definition outputs :: "effect list \<Rightarrow> effect list" where
  "outputs xs = filter is_output xs"

text \<open>What one message shows, for a given set of enabled channels, and what a whole redraw at a position shows.\<close>

definition end_output :: "env \<Rightarrow> message \<Rightarrow> effect list" where
  "end_output E m = (case channelById E (channelId m) of
      None \<Rightarrow> []
    | Some c \<Rightarrow> if e_decodable E c then [Publish (topic c) m] else [])"

definition shown_by :: "env \<Rightarrow> string list option \<Rightarrow> message \<Rightarrow> effect list" where
  "shown_by E en m = (case channelById E (channelId m) of
      None \<Rightarrow> []
    | Some c \<Rightarrow>
        if is_json c then
          (if \<not> e_doc E m then []
           else if topic c = TELEMETRY_TOPIC then (if e_telemetry_hook E then [Telemetry m] else [])
           else if e_descriptor_hook E then [Descriptor (topic c) m] else [])
        else if (case en of None \<Rightarrow> True | Some ts \<Rightarrow> topic c \<in> set ts) \<and> e_decodable E c
        then [Publish (topic c) m] else [])"

definition picture_at :: "env \<Rightarrow> string list option \<Rightarrow> real \<Rightarrow> effect list" where
  "picture_at E en t = concat (map (shown_by E en) (e_latest E (abs_time E t) (redraw_topics E)))"

lemma outputs_append [simp]: "outputs (xs @ ys) = outputs xs @ outputs ys"
  by (simp add: outputs_def)

lemma outputs_perform [simp]: "outputs (effects (perform x s)) = outputs (effects s) @ (if is_output x then [x] else [])"
  by (simp add: outputs_def perform_def)

lemma outputs_push [simp]: "outputs (effects (pushUpdate f s)) = outputs (effects s)"
  by (simp add: pushUpdate_def)

lemma effects_noteDecode [simp]: "effects (noteDecode t n s) = effects s"
  by (simp add: noteDecode_def Let_def)

lemma outputs_end [simp]: "outputs (effects (handle_end E m s)) = outputs (effects s) @ end_output E m"
  by (simp add: handle_end_def end_output_def split: option.split)

lemma outputs_begin:
  "handle_begin E m 0 s = (s', w) \<Longrightarrow>
   outputs (effects s') @ (if w then end_output E m else []) = outputs (effects s) @ shown_by E (enabled s) m"
  by (auto simp: handle_begin_def end_output_def shown_by_def LATE_SKIP_MS_def Let_def perform_def outputs_def
      split: option.splits if_splits)

section \<open>The last seek wins\<close>

text \<open>The history of a scrub: a paused player is sought, and its tasks run.\<close>

fun scrubs_only :: "player_event \<Rightarrow> bool" where
  "scrubs_only (Seek _) = True"
| "scrubs_only (Tick _) = True"
| "scrubs_only (LoopStep _) = True"
| "scrubs_only (LoopThrow _) = True"
| "scrubs_only (ScrubStep _) = True"
| "scrubs_only (RefreshStep _) = True"
| "scrubs_only (RefreshThrow _) = True"
| "scrubs_only _ = False"

text \<open>No other task still holds a message it is going to show.\<close>

definition quiet :: "player \<Rightarrow> bool" where
  "quiet s \<longleftrightarrow> list_all (\<lambda>l. case l_pc l of Decoding _ \<Rightarrow> False | _ \<Rightarrow> True) (loops s)
     \<and> list_all (\<lambda>r. rf_pc r = Finished) (refreshes s)"

text \<open>What the redraw will still show, if nothing overtakes it.\<close>

definition remaining :: "env \<Rightarrow> string list option \<Rightarrow> scrub \<Rightarrow> effect list" where
  "remaining E en x = (case sc_pc x of
      Query \<Rightarrow> picture_at E en (sc_target x)
    | RDecoding m rest \<Rightarrow> end_output E m @ concat (map (shown_by E en) rest)
    | RAfter rest \<Rightarrow> concat (map (shown_by E en) rest)
    | _ \<Rightarrow> [])"

definition ends_with :: "effect list \<Rightarrow> effect list \<Rightarrow> bool" where
  "ends_with xs ys \<longleftrightarrow> (\<exists>pre. xs = pre @ ys)"

definition on_target :: "env \<Rightarrow> player \<Rightarrow> scrub \<Rightarrow> bool" where
  "on_target E s x \<longleftrightarrow> sc_target x = positionNs s
     \<and> ends_with (outputs (effects s) @ remaining E (enabled s) x) (picture_at E (enabled s) (positionNs s))"

definition aimed :: "env \<Rightarrow> player \<Rightarrow> bool" where
  "aimed E s \<longleftrightarrow> driven s \<and> one_redraw s \<and> quiet s \<and> \<not> playing s \<and> \<not> closed s \<and>
     (if seekRefreshing s then pendingSeekNs s = Some (positionNs s)
        \<or> pendingSeekNs s = None \<and> (\<forall>x \<in> set (scrubs s). unfinished x \<longrightarrow> on_target E s x)
      else pendingSeekNs s = None
        \<and> ends_with (outputs (effects s)) (picture_at E (enabled s) (positionNs s)))"

lemma ends_with_more: "ends_with (xs @ ys) ys"
  by (auto simp: ends_with_def)

text \<open>What the steps of the other tasks leave alone.\<close>

definition scene :: "player \<Rightarrow> (real option \<times> bool \<times> scrub list) \<times> effect list \<times> string list option \<times> real \<times> bool \<times> bool" where
  "scene s = (scrubbing s, outputs (effects s), enabled s, positionNs s, playing s, closed s)"

lemma aimed_same: "aimed E s \<Longrightarrow> scene s' = scene s \<Longrightarrow> driven s' \<Longrightarrow> quiet s' \<Longrightarrow> aimed E s'"
proof -
  assume a: "aimed E s" and v: "scene s' = scene s" and d: "driven s'" "quiet s'"
  have "on_target E s' = on_target E s" by (rule ext) (use v in \<open>simp add: on_target_def scene_def\<close>)
  moreover have "one_redraw s'" using one_redraw_scrubbing [of s s'] a v by (simp add: aimed_def scene_def)
  ultimately show ?thesis using a v d by (simp add: aimed_def scrubbing_def scene_def)
qed

lemma stale_loops:
  assumes "driven s" "quiet s" "\<not> playing s" "i < length (loops s)"
  shows "scene (loop_step E i s) = scene s \<and> quiet (loop_step E i s)"
    "scene (loop_throw i s) = scene s \<and> quiet (loop_throw i s)"
proof -
  have c: "\<not> current s (loops s ! i)" using assms(1,3,4) by (auto simp: driven_def filter_empty_conv)
  have q: "case l_pc (loops s ! i) of Decoding _ \<Rightarrow> False | _ \<Rightarrow> True" using assms(2,4) by (simp add: quiet_def list_all_length)
  let ?stop = "set_loop i ((loops s ! i)\<lparr>l_pc := Ended\<rparr>) s"
  have "quiet ?stop" using assms(2) by (auto simp: quiet_def set_loop_def intro: list_all_update)
  moreover have "scene ?stop = scene s" by (simp add: scene_def set_loop_def scrubbing_def)
  moreover have "loop_step E i s \<in> {s, ?stop}" "loop_throw i s \<in> {s, ?stop}"
    using c q by (auto simp: current_def loop_step_def loop_throw_def Let_def split: loop_pc.splits)
  ultimately show "scene (loop_step E i s) = scene s \<and> quiet (loop_step E i s)"
    "scene (loop_throw i s) = scene s \<and> quiet (loop_throw i s)"
    using assms(2) by auto
qed

lemma finished_refreshes:
  assumes "quiet s" "i < length (refreshes s)"
  shows "refresh_step E i s = s" "refresh_throw i s = s"
proof -
  have "rf_pc (refreshes s ! i) = Finished" using assms by (simp add: quiet_def list_all_length)
  then show "refresh_step E i s = s" "refresh_throw i s = s" by (simp_all add: refresh_step_def refresh_throw_def)
qed

lemma others_scrub:
  "scrub_step E i s = s' \<Longrightarrow> refreshes s' = refreshes s \<and> loops s' = loops s \<and> enabled s' = enabled s"
proof -
  have n: "refreshes (scrub_next E i ms s) = refreshes s \<and> loops (scrub_next E i ms s) = loops s
      \<and> enabled (scrub_next E i ms s) = enabled s" for ms
    by (auto simp: scrub_next_def set_scrub_def Let_def split: list.split prod.split dest: same_begin)
  then show "scrub_step E i s = s' \<Longrightarrow> refreshes s' = refreshes s \<and> loops s' = loops s \<and> enabled s' = enabled s"
    by (auto simp: scrub_step_def scrub_head_def set_scrub_def Let_def split: redraw_pc.split)
qed

lemma outputs_scrub_next:
  assumes "i < length (scrubs s)"
  shows "outputs (effects (scrub_next E i ms s)) @ remaining E (enabled s) (scrubs (scrub_next E i ms s) ! i)
     = outputs (effects s) @ concat (map (shown_by E (enabled s)) ms)"
proof (cases ms)
  case Nil
  with assms show ?thesis by (simp add: scrub_next_def set_scrub_def remaining_def Let_def)
next
  case (Cons m rest)
  obtain s' w where h: "handle_begin E m 0 s = (s', w)" by (cases "handle_begin E m 0 s")
  from outputs_begin [OF h] h Cons assms same_begin [OF h] show ?thesis
    by (auto simp: scrub_next_def set_scrub_def remaining_def Let_def split: if_splits)
qed

lemma aimed_scrub_step:
  assumes a: "aimed E s" and i: "i < length (scrubs s)" and ne: "redraw_topics E \<noteq> []"
  shows "aimed E (scrub_step E i s)"
proof (cases "unfinished (scrubs s ! i)")
  case False
  with a show ?thesis by (simp add: scrub_step_def unfinished_def)
next
  case True
  let ?x = "scrubs s ! i" and ?s' = "scrub_step E i s" and ?P = "picture_at E (enabled s) (positionNs s)"
  have o: "one_redraw s" and p: "\<not> playing s" "\<not> closed s" using a by (simp_all add: aimed_def)
  have r: "seekRefreshing s" using o i True by (auto simp: one_redraw_def filter_empty_conv split: if_splits)
  then have or: "pendingSeekNs s = Some (positionNs s) \<or> pendingSeekNs s = None \<and> on_target E s ?x"
    using a i True by (auto simp: aimed_def)
  have base: "driven ?s'" "one_redraw ?s'" "quiet ?s'" "\<not> playing ?s'" "\<not> closed ?s'" "positionNs ?s' = positionNs s"
    "enabled ?s' = enabled s"
    using a one_redraw_scrub_step [OF o i, of E] driven_playback [of s ?s'] playback_scrub(1) [of E i s]
      others_scrub [of E i s, OF refl]
    by (auto simp: aimed_def playback_def quiet_def simp del: playback_scrub)
  note others = others_finished [OF o i True]
  have aim: "aimed E ?s'"
    if "scrubs ?s' = (scrubs s)[i := y]"
      "if seekRefreshing ?s' then pendingSeekNs ?s' = Some (positionNs s)
         \<or> pendingSeekNs ?s' = None \<and> on_target E ?s' y
       else pendingSeekNs ?s' = None \<and> ends_with (outputs (effects ?s')) ?P" for y
  proof -
    have "x = y" if "x \<in> set (scrubs ?s')" "unfinished x" for x
      using that others [of x y] \<open>scrubs ?s' = (scrubs s)[i := y]\<close> by simp
    then have "\<forall>x \<in> set (scrubs ?s'). unfinished x \<longrightarrow> x = y" by blast
    with that(2) base show ?thesis unfolding aimed_def by (auto split: if_splits)
  qed
  have next_aim: "aimed E ?s'"
    if s': "?s' = scrub_next E i ms s" and pend: "pendingSeekNs s = None"
      and rem: "remaining E (enabled s) ?x = concat (map (shown_by E (enabled s)) ms)" for ms
  proof (rule aim [where y = "?x\<lparr>sc_pc := next_pc E ms s\<rparr>"])
    have y: "scrubs ?s' ! i = ?x\<lparr>sc_pc := next_pc E ms s\<rparr>"
      using s' scrub_next_shape [of E i ms s] i by simp
    have "on_target E s ?x" using or pend by simp
    then have "on_target E ?s' (?x\<lparr>sc_pc := next_pc E ms s\<rparr>)"
      using outputs_scrub_next [OF i, of E ms] base(6,7) y rem s' by (simp add: on_target_def)
    with s' pend r scrub_next_shape [of E i ms s]
    show "if seekRefreshing ?s' then pendingSeekNs ?s' = Some (positionNs s)
         \<or> pendingSeekNs ?s' = None \<and> on_target E ?s' (?x\<lparr>sc_pc := next_pc E ms s\<rparr>)
       else pendingSeekNs ?s' = None \<and> ends_with (outputs (effects ?s')) ?P" by simp
  qed (use s' scrub_next_shape [of E i ms s] in simp)
  have give_up: "aimed E ?s'" if "pendingSeekNs s \<noteq> None" "?s' = set_scrub i (?x\<lparr>sc_pc := Returned\<rparr>) s"
    using that or r by (intro aim [where y = "?x\<lparr>sc_pc := Returned\<rparr>"]) (auto simp: set_scrub_def)
  show ?thesis
  proof (cases "sc_pc ?x")
    case Query
    show ?thesis
    proof (cases "pendingSeekNs s = None")
      case True
      with or have "sc_target ?x = positionNs s" by (simp add: on_target_def)
      with Query p True show ?thesis
        by (intro next_aim [where ms = "e_latest E (abs_time E (sc_target ?x)) (redraw_topics E)"])
           (simp_all add: scrub_step_def overtaken_def remaining_def picture_at_def)
    next
      case False
      with Query show ?thesis by (intro give_up) (simp_all add: scrub_step_def overtaken_def)
    qed
  next
    case (RDecoding m rest)
    have "on_target E ?s' (?x\<lparr>sc_pc := RAfter rest\<rparr>)" if "on_target E s ?x"
      using that RDecoding base(6,7) by (simp add: on_target_def remaining_def) (simp add: scrub_step_def set_scrub_def)
    with RDecoding or r show ?thesis
      by (intro aim [where y = "?x\<lparr>sc_pc := RAfter rest\<rparr>"]) (auto simp: scrub_step_def Let_def set_scrub_def)
  next
    case (RAfter rest)
    show ?thesis
    proof (cases "pendingSeekNs s = None")
      case True
      with RAfter p show ?thesis
        by (intro next_aim [where ms = rest]) (simp_all add: scrub_step_def overtaken_def remaining_def)
    next
      case False
      with RAfter show ?thesis by (intro give_up) (simp_all add: scrub_step_def overtaken_def)
    qed
  next
    case Returned
    then have h: "?s' = scrub_head E i s" by (simp add: scrub_step_def)
    show ?thesis
    proof (cases "pendingSeekNs s = None")
      case True
      with or Returned have "ends_with (outputs (effects s)) ?P" by (simp add: on_target_def remaining_def)
      moreover have "outputs (effects ?s') = outputs (effects s)" using h True by (simp add: scrub_head_def set_scrub_def Let_def)
      ultimately show ?thesis using h scrub_head_shape [of E i s] True
        by (intro aim [where y = "?x\<lparr>sc_pc := Finished\<rparr>"]) (auto simp: scrubbing_def)
    next
      case False
      have "on_target E ?s' \<lparr>sc_target = positionNs s, sc_pc = Query\<rparr>"
        using base(6,7) by (simp add: on_target_def remaining_def ends_with_more)
      with False h scrub_head_shape [of E i s] or r p ne show ?thesis
        by (intro aim [where y = "\<lparr>sc_target = positionNs s, sc_pc = Query\<rparr>"]) (auto simp: scrubbing_def)
    qed
  next
    case Finished
    with True show ?thesis by (simp add: unfinished_def)
  qed
qed

lemma aimed_seek:
  assumes o: "one_redraw s" and d: "driven s" and q: "quiet s" and p: "\<not> playing s" "\<not> closed s"
    and ne: "redraw_topics E \<noteq> []"
  shows "aimed E (seek E t s) \<and> positionNs (seek E t s) = min (max 0 t) (durationNs E)"
proof -
  define s1 where "s1 = pushUpdate True (s\<lparr>generation := generation s + 1, positionNs := min (max 0 t) (durationNs E)\<rparr>)"
  have S: "scrubs s1 = scrubs s" "seekRefreshing s1 = seekRefreshing s" "\<not> closed s1" "\<not> playing s1" "one_redraw s1"
    "positionNs s1 = min (max 0 t) (durationNs E)" "loops s1 = loops s" "refreshes s1 = refreshes s"
    using p o by (simp_all add: s1_def one_redraw_def)
  let ?s2 = "s1\<lparr>pendingSeekNs := Some (positionNs s1)\<rparr>"
  let ?new = "?s2\<lparr>seekRefreshing := True, scrubs := scrubs s1 @ [\<lparr>sc_target = 0, sc_pc = Returned\<rparr>]\<rparr>"
  have seek: "seek E t s = (if seekRefreshing s then ?s2 else scrub_head E (length (scrubs s)) ?new)"
    using p by (simp add: seek_def s1_def Let_def)
  have dr: "driven (seek E t s)" using driven_step [OF d, of E "Seek t"] by simp
  have onr: "one_redraw (seek E t s)" by (rule one_redraw_seek [OF o])
  have qs: "quiet (seek E t s)" unfolding seek using q S by (simp add: quiet_def scrub_head_def set_scrub_def Let_def)
  show ?thesis
  proof (cases "seekRefreshing s")
    case True
    with dr onr qs S seek show ?thesis by (simp add: aimed_def)
  next
    case False
    have none: "filter unfinished (scrubs s) = []" using o False by (simp add: one_redraw_def)
    have h: "scrubbing (seek E t s) = (None, True, scrubs s @ [\<lparr>sc_target = positionNs s1, sc_pc = Query\<rparr>])"
      using False S ne unfolding seek by (simp add: scrub_head_shape)
    have pb: "playback (seek E t s) = playback s1" using False unfolding seek by simp
    have "on_target E (seek E t s) \<lparr>sc_target = positionNs s1, sc_pc = Query\<rparr>"
      using pb by (simp add: on_target_def remaining_def ends_with_more playback_def)
    with dr onr qs h pb none S show ?thesis
      by (auto simp: aimed_def scrubbing_def playback_def filter_empty_conv)
  qed
qed

text \<open>The position the last of the seeks asked for.\<close>

definition last_sought :: "real \<Rightarrow> player_event list \<Rightarrow> real" where
  "last_sought t fs = foldl (\<lambda>t e. case e of Seek u \<Rightarrow> u | _ \<Rightarrow> t) t fs"

lemma aimed_step:
  assumes a: "aimed E s" and e: "scrubs_only e" and ne: "redraw_topics E \<noteq> []"
  shows "aimed E (player_step E s e) \<and> positionNs (player_step E s e)
     = (case e of Seek u \<Rightarrow> min (max 0 u) (durationNs E) | _ \<Rightarrow> positionNs s)"
proof -
  have d: "driven s" "quiet s" "\<not> playing s" "\<not> closed s" "one_redraw s" using a by (simp_all add: aimed_def)
  have dr: "driven (player_step E s e)" by (rule driven_step [OF d(1)])
  show ?thesis
  proof (cases e)
    case (Seek t)
    with aimed_seek [OF d(5,1-4) ne] show ?thesis by simp
  next
    case (ScrubStep i)
    with a aimed_scrub_step [OF a _ ne] playback_scrub(1) [of E i s] show ?thesis
      by (simp add: playback_def del: playback_scrub)
  next
    case (LoopStep i)
    with a dr stale_loops(1) [OF d(1-3), of i E] aimed_same [OF a, of "loop_step E i s"] show ?thesis
      by (cases "i < length (loops s)") (simp_all add: scene_def)
  next
    case (LoopThrow i)
    with a dr stale_loops(2) [OF d(1-3), of i] aimed_same [OF a, of "loop_throw i s"] show ?thesis
      by (cases "i < length (loops s)") (simp_all add: scene_def)
  next
    case (Tick c)
    with dr aimed_same [OF a, of "player_step E s e"] d show ?thesis by (simp add: scene_def quiet_def)
  next
    case (RefreshStep i)
    with a finished_refreshes [OF d(2), of i] show ?thesis by simp
  next
    case (RefreshThrow i)
    with a finished_refreshes [OF d(2), of i] show ?thesis by simp
  qed (use e in simp_all)
qed

lemma aimed_run:
  assumes "aimed E s \<and> positionNs s = min (max 0 t) (durationNs E)" "list_all scrubs_only fs" "redraw_topics E \<noteq> []"
  shows "aimed E (run (player_step E) s fs)
    \<and> positionNs (run (player_step E) s fs) = min (max 0 (last_sought t fs)) (durationNs E)"
  using assms(2)
proof (induction fs rule: rev_induct)
  case (snoc e fs)
  with aimed_step [of E "run (player_step E) s fs" e] assms(3) show ?case
    by (cases e) (auto simp: last_sought_def simp del: player_step.simps)
qed (use assms(1) in \<open>simp add: last_sought_def\<close>)

text \<open>
  C28. Let a paused player be sought while no playback decode and no enable-refresh of before is still
  under way, and then only scrubbed: further seeks, and steps of its tasks, but no play, pause or close,
  no change of the enabled channels and no failing query or decode. Once its redraw loop has come to
  rest, the player stands at the position the last seek asked for, clamped to the file, and the last
  things it has shown (frames of enabled, decodable channels, telemetry, descriptors) are, in order and
  with nothing after them, those of the messages the file holds latest before that position, however the
  seeks overtook one another.
\<close>

theorem last_seek_wins:
  fixes E es t fs
  defines "s0 \<equiv> run (player_step E) new_player es"
  defines "s \<equiv> run (player_step E) s0 (Seek t # fs)"
  assumes "redraw_topics E \<noteq> []" and "\<not> playing s0" "\<not> closed s0" and "quiet s0"
    and "list_all scrubs_only fs" and "\<not> seekRefreshing s"
  shows "positionNs s = min (max 0 (last_sought t fs)) (durationNs E)
    \<and> ends_with (outputs (effects s)) (picture_at E (enabled s) (positionNs s))"
proof -
  have "aimed E (seek E t s0) \<and> positionNs (seek E t s0) = min (max 0 t) (durationNs E)"
    by (rule aimed_seek) (use assms redraw.reachable_inv [of E es] playback.reachable_inv [of E es] in \<open>simp_all add: s0_def\<close>)
  then have r: "aimed E s" "positionNs s = min (max 0 (last_sought t fs)) (durationNs E)"
    using aimed_run [OF _ assms(7,3)] by (simp_all add: s_def)
  have "ends_with (outputs (effects s)) (picture_at E (enabled s) (positionNs s))"
    using r(1) assms(8) by (simp add: aimed_def)
  with r(2) show ?thesis by (intro conjI)
qed

definition demo_env :: env where
  "demo_env = \<lparr>e_startNs = 0, e_endNs = 10, e_channels = [\<lparr>ch_id = 1, topic = ''left'', is_json = False\<rparr>],
     e_messages = (\<lambda>a. [\<lparr>channelId = 1, logTime = a\<rparr>]), e_latest = (\<lambda>a ts. [\<lparr>channelId = 1, logTime = a\<rparr>]),
     e_doc = (\<lambda>m. True), e_decodable = (\<lambda>c. True), e_telemetry_hook = True, e_descriptor_hook = False\<rparr>"

lemmas player_exec = new_player_def demo_env_def seek_def scrub_head_def set_scrub_def scrub_step_def
  scrub_next_def perform_def pushUpdate_def durationNs_def redraw_topics_def frameTopics_def
  overtaken_def pause_def play_def startLoop_def loop_step_def loop_handle_def set_loop_def handle_begin_def
  handle_end_def noteDecode_def channelById_def abs_time_def relNs_def setEnabled_def refreshTopics_def
  refresh_step_def refresh_next_def set_refresh_def descriptorTopics_def telemetryTopics_def
  LATE_SKIP_MS_def Let_def

lemma last_seek_wins_witness:
  "let s = run (player_step demo_env) new_player [Seek 3, ScrubStep 0, Seek 5, ScrubStep 0, ScrubStep 0,
     ScrubStep 0, ScrubStep 0, ScrubStep 0, ScrubStep 0, ScrubStep 0]
   in positionNs s = 5 \<and> ends_with (outputs (effects s)) (picture_at demo_env None 5)"
  using last_seek_wins [of demo_env "[]" "[ScrubStep 0, Seek 5, ScrubStep 0, ScrubStep 0,
     ScrubStep 0, ScrubStep 0, ScrubStep 0, ScrubStep 0, ScrubStep 0]" 3]
  by (simp add: player_exec quiet_def last_sought_def)

text \<open>
  A pause while a redraw is under way drops the newer seek that had overtaken it but not the
  redraw: the player comes to rest at one position and shows another.
\<close>

theorem pause_strands_an_older_redraw:
  "let s = run (player_step demo_env) new_player [Seek 3, Seek 5, Pause, ScrubStep 0, ScrubStep 0, ScrubStep 0, ScrubStep 0]
   in \<not> seekRefreshing s \<and> \<not> playing s \<and> positionNs s = 5
     \<and> outputs (effects s) = [Publish ''left'' \<lparr>channelId = 1, logTime = 3\<rparr>]"
  by (simp add: player_exec outputs_def)

text \<open>
  A frame the playback loop waits to decode is published whatever happened in the meantime: here the
  player is paused, is sought and has redrawn the new position, and then shows the old frame.
\<close>

theorem stale_decode_overdraws_the_seek:
  "let s = run (player_step demo_env) new_player [Play 1, LoopStep 0, Pause, Seek 5,
       ScrubStep 0, ScrubStep 0, ScrubStep 0, ScrubStep 0, LoopStep 0]
   in \<not> seekRefreshing s \<and> \<not> playing s \<and> positionNs s = 5
     \<and> outputs (effects s) = [Publish ''left'' \<lparr>channelId = 1, logTime = 5\<rparr>, Publish ''left'' \<lparr>channelId = 1, logTime = 0\<rparr>]"
  by (simp add: player_exec outputs_def)

text \<open>
  The refresh of newly enabled channels asks whether a seek overtook it only once, after its query:
  a seek while it waits for a decoder does not keep its older frame from being shown last.
\<close>

theorem refresh_overdraws_the_seek:
  "let s = run (player_step demo_env) new_player [SetEnabled (Some []), SetEnabled None, RefreshStep 0, Seek 5,
       ScrubStep 0, ScrubStep 0, ScrubStep 0, ScrubStep 0, RefreshStep 0]
   in \<not> seekRefreshing s \<and> \<not> playing s \<and> positionNs s = 5
     \<and> outputs (effects s) = [Publish ''left'' \<lparr>channelId = 1, logTime = 5\<rparr>, Publish ''left'' \<lparr>channelId = 1, logTime = 0\<rparr>]"
  by (simp add: player_exec outputs_def)

end
