(* ===== verification/TimeViewport.thy ===== *)
theory TimeViewport
  imports Prelude
begin

text \<open>
  The visible window of the viewer's time axis (\<open>app/src/viewer/time-viewport.ts\<close>): zooming, panning
  with resistance, settling, and the maps between pointer, time and fraction. Doubles are reals. The
  lemmas show that every operation stays in the bleed bounds, that a zoom keeps the time under its
  anchor while it may, that a pan keeps the span, and that settling is legal and idempotent. The
  ruler's ticks and their labels are not modelled.
\<close>

section \<open>The viewport\<close>

record time_viewport =
  t0 :: real
  t1 :: real

definition MIN_SPAN_NS :: real where "MIN_SPAN_NS = 1000000"

definition BLEED_FRACTION :: real where "BLEED_FRACTION = 5 / 100"

definition clamp :: "real \<Rightarrow> real \<Rightarrow> real \<Rightarrow> real" where
  "clamp v lo hi = min hi (max lo v)"

definition fullViewport :: "real \<Rightarrow> time_viewport" where
  "fullViewport durationNs = \<lparr>t0 = 0, t1 = max 0 durationNs\<rparr>"

definition bleedNs :: "real \<Rightarrow> real" where
  "bleedNs durationNs = BLEED_FRACTION * max 0 durationNs"

text \<open>Moving a window into \<open>[lo, hi]\<close>; one as wide is centered.\<close>

definition clampToHard :: "time_viewport \<Rightarrow> real \<Rightarrow> time_viewport" where
  "clampToHard vp durationNs = (let bleed = bleedNs durationNs; lo = - bleed; hi = max 0 durationNs + bleed;
       span = t1 vp - t0 vp
     in if hi - lo \<le> span then (let mid = (lo + hi) / 2 in \<lparr>t0 = mid - span / 2, t1 = mid + span / 2\<rparr>)
        else let vp1 = (if t0 vp < lo then \<lparr>t0 = lo, t1 = t1 vp + (lo - t0 vp)\<rparr> else vp)
          in if hi < t1 vp1 then \<lparr>t0 = t0 vp1 - (t1 vp1 - hi), t1 = hi\<rparr> else vp1)"

definition zoomAt :: "time_viewport \<Rightarrow> real \<Rightarrow> real \<Rightarrow> real \<Rightarrow> time_viewport" where
  "zoomAt vp factor anchorFrac durationNs = (let span = t1 vp - t0 vp; anchorNs = t0 vp + anchorFrac * span;
       maxSpan = max MIN_SPAN_NS (max 0 durationNs + 2 * bleedNs durationNs);
       nextSpan = clamp (span / (if 0 < factor then factor else 1)) MIN_SPAN_NS maxSpan;
       start = anchorNs - anchorFrac * nextSpan
     in clampToHard \<lparr>t0 = start, t1 = start + nextSpan\<rparr> durationNs)"

definition RESIST :: real where "RESIST = 35 / 100"

definition panSoft :: "time_viewport \<Rightarrow> real \<Rightarrow> real \<Rightarrow> time_viewport" where
  "panSoft vp deltaNs durationNs = (let span = t1 vp - t0 vp; dur = max 0 durationNs
     in if deltaNs = 0 then vp
        else if deltaNs < 0 then
          (let start = t0 vp; target = start + deltaNs;
               a = (if 0 \<le> start \<and> 0 \<le> target then target
                    else if 0 \<le> start then target * RESIST else start + deltaNs * RESIST)
           in clampToHard \<lparr>t0 = a, t1 = a + span\<rparr> durationNs)
        else
          (let start = t1 vp; target = start + deltaNs;
               b = (if start \<le> dur \<and> target \<le> dur then target
                    else if start \<le> dur then dur + (target - dur) * RESIST else start + deltaNs * RESIST)
           in clampToHard \<lparr>t0 = b - span, t1 = b\<rparr> durationNs))"

definition settleTarget :: "time_viewport \<Rightarrow> real \<Rightarrow> time_viewport" where
  "settleTarget vp durationNs = (let span = t1 vp - t0 vp; dur = max 0 durationNs
     in if dur \<le> span then (let mid = dur / 2 in \<lparr>t0 = mid - span / 2, t1 = mid + span / 2\<rparr>)
        else let vp1 = (if t0 vp < 0 then \<lparr>t0 = 0, t1 = t1 vp - t0 vp\<rparr> else vp)
          in if dur < t1 vp1 then \<lparr>t0 = t0 vp1 - (t1 vp1 - dur), t1 = dur\<rparr> else vp1)"

definition nsAtX :: "real \<Rightarrow> real \<Rightarrow> real \<Rightarrow> time_viewport \<Rightarrow> real" where
  "nsAtX clientX rectLeft rectWidth vp =
     (if \<not> 0 < rectWidth then t0 vp
      else let frac = (clientX - rectLeft) / rectWidth in t0 vp + frac * (t1 vp - t0 vp))"

definition fracOf :: "real \<Rightarrow> time_viewport \<Rightarrow> real" where
  "fracOf ns vp = (let span = t1 vp - t0 vp in if \<not> 0 < span then 0 else (ns - t0 vp) / span)"

definition interpolatePlayhead :: "real \<Rightarrow> real \<Rightarrow> real \<Rightarrow> real \<Rightarrow> bool \<Rightarrow> real \<Rightarrow> real" where
  "interpolatePlayhead lastNs lastAtMs nowMs rate playing durationNs =
     (if \<not> playing then lastNs
      else clamp (lastNs + (nowMs - lastAtMs) * 1000000 * rate) 0 (max 0 durationNs))"

section \<open>The bounds\<close>

abbreviation span :: "time_viewport \<Rightarrow> real" where
  "span vp \<equiv> t1 vp - t0 vp"

text \<open>The widest window the recording allows, bleed included.\<close>

definition room :: "real \<Rightarrow> real" where
  "room d = max 0 d + 2 * bleedNs d"

definition in_bleed :: "real \<Rightarrow> time_viewport \<Rightarrow> bool" where
  "in_bleed d vp \<longleftrightarrow> - bleedNs d \<le> t0 vp \<and> t1 vp \<le> max 0 d + bleedNs d"

lemmas viewport_defs = clampToHard_def in_bleed_def room_def Let_def

lemma hard_span [simp]: "span (clampToHard vp d) = span vp"
  by (simp add: viewport_defs)

lemma hard_bleed: "span vp \<le> room d \<Longrightarrow> in_bleed d (clampToHard vp d)"
  by (auto simp: viewport_defs field_simps)

lemma hard_id: "span vp < room d \<Longrightarrow> in_bleed d vp \<Longrightarrow> clampToHard vp d = vp"
  by (simp add: viewport_defs)

lemma zoomed_span: "span (zoomAt vp f a d) = clamp (span vp / (if 0 < f then f else 1)) MIN_SPAN_NS (max MIN_SPAN_NS (room d))"
  by (simp add: zoomAt_def Let_def room_def del: diff_minus_eq_add)

text \<open>
  A zoom of a recording that has room for the smallest span gives a window between the smallest
  span and the whole recording with its bleed, inside the bleed bounds.
\<close>

theorem zoom_stays_in_bounds:
  assumes "MIN_SPAN_NS \<le> room d"
  shows "MIN_SPAN_NS \<le> span (zoomAt vp f a d) \<and> span (zoomAt vp f a d) \<le> room d \<and> in_bleed d (zoomAt vp f a d)"
proof -
  have s: "MIN_SPAN_NS \<le> span (zoomAt vp f a d)" "span (zoomAt vp f a d) \<le> room d"
    using assms unfolding zoomed_span clamp_def by auto
  obtain vp' where "zoomAt vp f a d = clampToHard vp' d" by (simp add: zoomAt_def Let_def)
  with s hard_bleed [of vp' d] show ?thesis by simp
qed

lemma zoom_stays_in_bounds_witness:
  "in_bleed 2000000 (zoomAt (fullViewport 2000000) 4 (1 / 2) 2000000)"
  using zoom_stays_in_bounds [of 2000000 "fullViewport 2000000" 4 "1 / 2"]
  by (simp add: MIN_SPAN_NS_def room_def bleedNs_def BLEED_FRACTION_def)

text \<open>The time under the anchor stays there unless the window has to move into the bounds.\<close>

lemma zoom_keeps_anchor:
  fixes vp f a d
  defines "s \<equiv> clamp (span vp / (if 0 < f then f else 1)) MIN_SPAN_NS (max MIN_SPAN_NS (room d))"
  defines "w \<equiv> t0 vp + a * span vp - a * s"
  assumes "in_bleed d \<lparr>t0 = w, t1 = w + s\<rparr>" "s < room d"
  shows "t0 (zoomAt vp f a d) + a * span (zoomAt vp f a d) = t0 vp + a * span vp"
proof -
  have "zoomAt vp f a d = clampToHard \<lparr>t0 = w, t1 = w + s\<rparr> d"
    by (simp add: zoomAt_def Let_def w_def s_def room_def)
  also have "\<dots> = \<lparr>t0 = w, t1 = w + s\<rparr>" by (rule hard_id) (use assms(3,4) in simp_all)
  finally show ?thesis by (simp add: w_def)
qed

lemma pan_keeps_span: "span (panSoft vp x d) = span vp"
  by (simp add: panSoft_def Let_def del: diff_minus_eq_add)

lemma pan_in_bleed: "in_bleed d vp \<Longrightarrow> span vp \<le> room d \<Longrightarrow> in_bleed d (panSoft vp x d)"
  by (simp add: panSoft_def Let_def hard_bleed)

lemma settle_span: "span (settleTarget vp d) = span vp"
  by (simp add: settleTarget_def Let_def)

lemma settle_legal: "span vp < max 0 d \<Longrightarrow> 0 \<le> t0 (settleTarget vp d) \<and> t1 (settleTarget vp d) \<le> max 0 d"
  by (auto simp: settleTarget_def Let_def)

lemma settle_id: "span vp < max 0 d \<Longrightarrow> 0 \<le> t0 vp \<Longrightarrow> t1 vp \<le> max 0 d \<Longrightarrow> settleTarget vp d = vp"
  unfolding settleTarget_def Let_def by (simp del: max.bounded_iff le_max_iff_disj max_less_iff_conj less_max_iff_disj)

lemma settle_wide: "max 0 d \<le> span vp \<Longrightarrow>
    settleTarget vp d = \<lparr>t0 = max 0 d / 2 - span vp / 2, t1 = max 0 d / 2 + span vp / 2\<rparr>"
  by (simp add: settleTarget_def Let_def)

lemma settle_idem: "settleTarget (settleTarget vp d) d = settleTarget vp d"
proof (cases "max 0 d \<le> span vp")
  case True
  then show ?thesis using settle_span [of vp d] settle_wide [of d vp] settle_wide [of d "settleTarget vp d"] by metis
next
  case False
  then have s: "span vp < max 0 d" by (simp only: not_le)
  from s settle_legal [OF s] show ?thesis unfolding settle_span [of vp d, symmetric] by (intro settle_id) blast+
qed

lemma frac_of_pointer:
  "0 < w \<Longrightarrow> 0 < span vp \<Longrightarrow> fracOf (nsAtX x l w vp) vp = (x - l) / w"
  by (simp add: fracOf_def nsAtX_def Let_def)

section \<open>Gestures\<close>

datatype gesture = Zoom real real | Pan real | Settle

fun gesture_step :: "real \<Rightarrow> time_viewport \<Rightarrow> gesture \<Rightarrow> time_viewport" where
  "gesture_step d vp (Zoom f a) = zoomAt vp f a d"
| "gesture_step d vp (Pan x) = panSoft vp x d"
| "gesture_step d vp Settle = settleTarget vp d"

definition visible :: "real \<Rightarrow> time_viewport \<Rightarrow> bool" where
  "visible d vp \<longleftrightarrow> 0 < span vp \<and> span vp \<le> room d \<and> in_bleed d vp"

lemma settle_in_bleed:
  assumes "span vp \<le> room d" shows "in_bleed d (settleTarget vp d)"
proof -
  have "0 \<le> bleedNs d" by (simp add: bleedNs_def BLEED_FRACTION_def)
  with assms show ?thesis
    by (auto simp: settleTarget_def Let_def in_bleed_def room_def field_simps)
qed

lemma gesture_visible: "MIN_SPAN_NS \<le> room d \<Longrightarrow> visible d vp \<Longrightarrow> visible d (gesture_step d vp g)"
proof (cases g)
  case (Zoom f a)
  assume "MIN_SPAN_NS \<le> room d"
  from zoom_stays_in_bounds [OF this, of vp f a] Zoom show ?thesis by (simp add: visible_def MIN_SPAN_NS_def)
qed (simp_all add: visible_def pan_keeps_span pan_in_bleed settle_span settle_in_bleed)

definition kept_visible :: "real \<Rightarrow> time_viewport \<Rightarrow> bool" where
  "kept_visible d vp \<longleftrightarrow> (MIN_SPAN_NS \<le> room d \<longrightarrow> visible d vp)"

interpretation gestures: started_machine "gesture_step d" "kept_visible d" "fullViewport d"
proof unfold_locales
  show "kept_visible d vp \<Longrightarrow> kept_visible d (gesture_step d vp g)" for vp g
    by (simp add: kept_visible_def gesture_visible del: gesture_step.simps)
  show "kept_visible d (fullViewport d)"
    by (auto simp: kept_visible_def visible_def fullViewport_def room_def in_bleed_def bleedNs_def
        BLEED_FRACTION_def MIN_SPAN_NS_def)
qed

text \<open>
  However the window is zoomed, panned and settled, it shows a proper span inside the recording
  and its bleed, for a recording that has room for the smallest span.
\<close>

theorem gestures_keep_recording_in_view:
  assumes "MIN_SPAN_NS \<le> room d"
  shows "visible d (run (gesture_step d) (fullViewport d) gs)"
  using gestures.reachable_inv [of d gs] assms by (simp add: kept_visible_def)

lemma gestures_keep_recording_in_view_witness:
  "visible 2000000 (run (gesture_step 2000000) (fullViewport 2000000) [Zoom 4 (1 / 2), Pan 5000000, Settle])"
  by (rule gestures_keep_recording_in_view) (simp add: MIN_SPAN_NS_def room_def bleedNs_def BLEED_FRACTION_def)

end
