(* ===== verification/StoreClients.thy ===== *)
theory StoreClients
  imports StoreAuthority
begin

text \<open>
  The clients of the config store and the main process between them: the reactive documents of the
  renderer windows (\<open>app/lib/store.ts\<close>), the proxies of the child processes
  (\<open>app/lib/store-proxy.ts\<close>) and their transports (\<open>app/electron/store-main.ts\<close>). Every client has a
  FIFO to main and one back. A document is known by its key. A storable value survives the wire
  (\<open>StoreCodec\<close>), but \<open>undefined\<close> arrives as \<open>null\<close>. Main handles a message at once, noting the
  listener to skip, and the authority's promise settles later: the jobs wait, those of one document in
  their order, and any of them may settle next. What a job does between its awaits no other job of the
  document can see, so it is one step here, its phases being the matter of \<open>StoreAuthority\<close>. The
  lemmas show that a listener of a process hears every change once and in order unless its process
  subscribed while its own write was under way, and that a window, which does not read the answer to
  its patch, can be left behind.
\<close>

section \<open>Messages\<close>

datatype req_op = Read jsval | ReadOnce jsval | Write jsval | Update jsval | Patch "patch_op list" | Clear | ListNames

datatype client_msg = Req nat req_op string | Sub string

datatype server_msg = Res nat "jsval option" | Changed string jsval

datatype window_msg = WRead string jsval | WReadOnce string jsval | WPatch string "patch_op list" | WClear string

datatype window_push = WReply string jsval | WValue jsval | WChanged string jsval

datatype client = Win nat | Proc nat

definition wire :: "jsval \<Rightarrow> jsval" where
  "wire v = (if v = JUndef then JNull else v)"

section \<open>The proxy of a process\<close>

record proxy_doc =
  pd_value :: jsval
  pd_loaded :: bool
  pd_subscribed :: bool
  pd_listeners :: "nat list"

record proxy =
  pdocs :: "string \<Rightarrow> proxy_doc option"
  pending :: "(nat \<times> req_op \<times> string) list"
  seq :: nat
  p_writes :: nat
  p_updates :: nat
  p_clears :: nat
  heard :: "(string \<times> nat \<times> jsval) list"
  returned :: "(nat \<times> jsval option) list"
  outbox :: "client_msg list"
  inbox :: "server_msg list"

definition createStoreProxy :: proxy where
  "createStoreProxy = \<lparr>pdocs = (\<lambda>_. None), pending = [], seq = 0, p_writes = 0, p_updates = 0,
     p_clears = 0, heard = [], returned = [], outbox = [], inbox = []\<rparr>"

definition docFor :: "string \<Rightarrow> proxy \<Rightarrow> proxy_doc" where
  "docFor k p = (case pdocs p k of Some d \<Rightarrow> d
     | None \<Rightarrow> \<lparr>pd_value = JUndef, pd_loaded = False, pd_subscribed = False, pd_listeners = []\<rparr>)"

definition put_doc :: "string \<Rightarrow> proxy_doc \<Rightarrow> proxy \<Rightarrow> proxy" where
  "put_doc k d p = p\<lparr>pdocs := (pdocs p)(k \<mapsto> d)\<rparr>"

definition post :: "client_msg \<Rightarrow> proxy \<Rightarrow> proxy" where
  "post m p = p\<lparr>outbox := outbox p @ [m]\<rparr>"

definition ensureSubscribed :: "string \<Rightarrow> proxy \<Rightarrow> proxy" where
  "ensureSubscribed k p = (let d = docFor k p
     in if pd_subscribed d then put_doc k d p else post (Sub k) (put_doc k (d\<lparr>pd_subscribed := True\<rparr>) p))"

definition request :: "req_op \<Rightarrow> string \<Rightarrow> proxy \<Rightarrow> proxy" where
  "request op k p = (let i = seq p + 1
     in post (Req i op k) (p\<lparr>seq := i, pending := AList.update i (op, k) (pending p)\<rparr>))"

text \<open>\<open>docFor\<close> creates the document.\<close>

definition touch :: "string \<Rightarrow> proxy \<Rightarrow> proxy" where
  "touch k p = put_doc k (docFor k p) p"

definition p_read :: "string \<Rightarrow> jsval \<Rightarrow> proxy \<Rightarrow> proxy" where
  "p_read k fb p = request (Read (wire fb)) k (ensureSubscribed k p)"

definition p_write :: "string \<Rightarrow> jsval \<Rightarrow> proxy \<Rightarrow> proxy" where
  "p_write k v p = request (Write (wire v)) k (touch k p)"

definition p_update :: "string \<Rightarrow> jsval \<Rightarrow> proxy \<Rightarrow> proxy" where
  "p_update k v p = request (Update (wire v)) k (touch k p)"

definition p_clear :: "string \<Rightarrow> proxy \<Rightarrow> proxy" where
  "p_clear k p = request Clear k (touch k p)"

definition p_list :: "string \<Rightarrow> proxy \<Rightarrow> proxy" where
  "p_list k p = request ListNames k p"

definition p_subscribe :: "string \<Rightarrow> nat \<Rightarrow> proxy \<Rightarrow> proxy" where
  "p_subscribe k l p = (let p1 = ensureSubscribed k p; d = docFor k p1
     in put_doc k (d\<lparr>pd_listeners := List.insert l (pd_listeners d)\<rparr>) p1)"

definition p_unsubscribe :: "string \<Rightarrow> nat \<Rightarrow> proxy \<Rightarrow> proxy" where
  "p_unsubscribe k l p = (let d = docFor k p in put_doc k (d\<lparr>pd_listeners := removeAll l (pd_listeners d)\<rparr>) p)"

definition p_notify :: "string \<Rightarrow> jsval \<Rightarrow> proxy \<Rightarrow> proxy" where
  "p_notify k v p = p\<lparr>heard := heard p @ map (\<lambda>l. (k, l, v)) (pd_listeners (docFor k p))\<rparr>"

definition cache :: "string \<Rightarrow> jsval \<Rightarrow> bool \<Rightarrow> proxy \<Rightarrow> proxy" where
  "cache k v loaded p = put_doc k ((docFor k p)\<lparr>pd_value := v, pd_loaded := loaded\<rparr>) p"

text \<open>What the caller of a request does with its answer.\<close>

fun resume :: "req_op \<Rightarrow> string \<Rightarrow> jsval \<Rightarrow> proxy \<Rightarrow> proxy" where
  "resume (Read _) k v p = cache k v True p"
| "resume (ReadOnce _) k v p = p"
| "resume (Write _) k v p = p_notify k v ((cache k v True p)\<lparr>p_writes := p_writes p + 1\<rparr>)"
| "resume (Update _) k v p = p_notify k v ((cache k v True p)\<lparr>p_updates := p_updates p + 1\<rparr>)"
| "resume Clear k v p = p_notify k JUndef ((cache k JUndef False p)\<lparr>p_clears := p_clears p + 1\<rparr>)"
| "resume _ k v p = p"

fun onMessage :: "server_msg \<Rightarrow> proxy \<Rightarrow> proxy" where
  "onMessage (Res i r) p = (case map_of (pending p) i of
      None \<Rightarrow> p
    | Some (op, k) \<Rightarrow>
        let p1 = p\<lparr>pending := AList.delete i (pending p), returned := returned p @ [(i, r)]\<rparr>
        in case r of None \<Rightarrow> p1 | Some v \<Rightarrow> resume op k v p1)"
| "onMessage (Changed k v) p = (case pdocs p k of
      None \<Rightarrow> p
    | Some d \<Rightarrow> p_notify k v (cache k v True p))"

section \<open>The document of a window\<close>

datatype window_phase = Closed | Opening | Opened

record window_doc =
  w_phase :: window_phase
  tracked :: jsval
  acked :: jsval

record window =
  wdocs :: "string \<Rightarrow> window_doc"
  w_out :: "window_msg list"
  w_in :: "window_push list"

definition new_window :: window where
  "new_window = \<lparr>wdocs = (\<lambda>_. \<lparr>w_phase = Closed, tracked = JUndef, acked = JUndef\<rparr>), w_out = [], w_in = []\<rparr>"

definition put_wdoc :: "string \<Rightarrow> window_doc \<Rightarrow> window \<Rightarrow> window" where
  "put_wdoc k d w = w\<lparr>wdocs := (wdocs w)(k := d)\<rparr>"

definition w_post :: "window_msg \<Rightarrow> window \<Rightarrow> window" where
  "w_post m w = w\<lparr>w_out := w_out w @ [m]\<rparr>"

definition w_open :: "string \<Rightarrow> jsval \<Rightarrow> window \<Rightarrow> window" where
  "w_open k fb w = (if w_phase (wdocs w k) \<noteq> Closed then w
     else w_post (WRead k (wire fb)) (put_wdoc k ((wdocs w k)\<lparr>w_phase := Opening\<rparr>) w))"

text \<open>\<open>queueWrite\<close>: the microtask runs before the next message, so it belongs to the edit.\<close>

definition queueWrite :: "string \<Rightarrow> window \<Rightarrow> window" where
  "queueWrite k w = (let d = wdocs w k; ops = diffKeys (tracked d) (acked d)
     in if ops = [] then w else w_post (WPatch k ops) (put_wdoc k (d\<lparr>acked := tracked d\<rparr>) w))"

definition w_edit :: "string \<Rightarrow> jsval \<Rightarrow> window \<Rightarrow> window" where
  "w_edit k v w = (if w_phase (wdocs w k) \<noteq> Opened then w
     else queueWrite k (put_wdoc k ((wdocs w k)\<lparr>tracked := v\<rparr>) w))"

text \<open>
  \<open>Store.clear\<close> empties the document, sends the request, and the edit's microtask follows.
\<close>

definition w_clear :: "string \<Rightarrow> window \<Rightarrow> window" where
  "w_clear k w = (if w_phase (wdocs w k) = Opened
     then queueWrite k (w_post (WClear k) (put_wdoc k ((wdocs w k)\<lparr>tracked := JObj []\<rparr>) w))
     else w_post (WClear k) w)"

text \<open>An applier whose \<open>replaceInPlace\<close> throws leaves the acked snapshot alone.\<close>

fun w_receive :: "window_push \<Rightarrow> window \<Rightarrow> window" where
  "w_receive (WReply k v) w =
     (if w_phase (wdocs w k) = Opening then put_wdoc k \<lparr>w_phase = Opened, tracked = v, acked = v\<rparr> w else w)"
| "w_receive (WValue v) w = w"
| "w_receive (WChanged k v) w =
     (if w_phase (wdocs w k) \<noteq> Opened then w
      else case replaceInPlace (tracked (wdocs w k)) v of
        None \<Rightarrow> w
      | Some t \<Rightarrow> put_wdoc k ((wdocs w k)\<lparr>tracked := t, acked := t\<rparr>) w)"

section \<open>Main\<close>

text \<open>
  A job of main: an operation that was asked for and has not settled, who asked, and the listener of
  the asker if it had one when its message was handled.
\<close>

record job =
  j_key :: string
  j_op :: req_op
  j_from :: client
  j_req :: nat
  j_except :: "client option"

record main_store =
  m_value :: "string \<Rightarrow> jsval option"
  m_disk :: "string \<Rightarrow> jsval option"
  m_subs :: "string \<Rightarrow> client list"
  m_names :: "string \<Rightarrow> string list"
  m_jobs :: "job list"

record system =
  procs :: "nat \<Rightarrow> proxy"
  wins :: "nat \<Rightarrow> window"
  main :: main_store
  changes :: "(string \<times> jsval) list"

definition start :: "(string \<Rightarrow> jsval option) \<Rightarrow> (string \<Rightarrow> string list) \<Rightarrow> system" where
  "start files names = \<lparr>procs = (\<lambda>_. createStoreProxy), wins = (\<lambda>_. new_window),
     main = \<lparr>m_value = (\<lambda>_. None), m_disk = files, m_subs = (\<lambda>_. []), m_names = names, m_jobs = []\<rparr>, changes = []\<rparr>"

definition at_proc :: "nat \<Rightarrow> (proxy \<Rightarrow> proxy) \<Rightarrow> system \<Rightarrow> system" where
  "at_proc i f s = s\<lparr>procs := (procs s)(i := f (procs s i))\<rparr>"

definition at_win :: "nat \<Rightarrow> (window \<Rightarrow> window) \<Rightarrow> system \<Rightarrow> system" where
  "at_win i f s = s\<lparr>wins := (wins s)(i := f (wins s i))\<rparr>"

text \<open>The listener main registers for a client pushes to it.\<close>

fun push :: "string \<Rightarrow> jsval \<Rightarrow> client \<Rightarrow> system \<Rightarrow> system" where
  "push k v (Proc i) s = at_proc i (\<lambda>p. p\<lparr>inbox := inbox p @ [Changed k (wire v)]\<rparr>) s"
| "push k v (Win i) s = at_win i (\<lambda>w. w\<lparr>w_in := w_in w @ [WChanged k (wire v)]\<rparr>) s"

definition ensureSub :: "client \<Rightarrow> string \<Rightarrow> system \<Rightarrow> system" where
  "ensureSub c k s = (let m = main s in
     if c \<in> set (m_subs m k) then s else s\<lparr>main := m\<lparr>m_subs := (m_subs m)(k := m_subs m k @ [c])\<rparr>\<rparr>)"

definition load :: "string \<Rightarrow> jsval \<Rightarrow> system \<Rightarrow> jsval" where
  "load k fb s = (case m_value (main s) k of Some v \<Rightarrow> v
     | None \<Rightarrow> (case m_disk (main s) k of Some v \<Rightarrow> v | None \<Rightarrow> fb))"

definition m_cache :: "string \<Rightarrow> jsval option \<Rightarrow> system \<Rightarrow> system" where
  "m_cache k v s = s\<lparr>main := (main s)\<lparr>m_value := (m_value (main s))(k := v)\<rparr>\<rparr>"

text \<open>A change that reached the disk is pushed to every subscriber but the listener to skip.\<close>

definition broadcast :: "client option \<Rightarrow> string \<Rightarrow> jsval option \<Rightarrow> system \<Rightarrow> system" where
  "broadcast except k v s = (let val = (case v of None \<Rightarrow> JUndef | Some x \<Rightarrow> x)
     in fold (push k val) (filter (\<lambda>c. Some c \<noteq> except) (m_subs (main s) k))
          (s\<lparr>main := (main s)\<lparr>m_disk := (m_disk (main s))(k := v)\<rparr>, changes := changes s @ [(k, val)]\<rparr>))"

text \<open>The new value of a mutating operation: \<open>Some None\<close> clears, \<open>None\<close> does not mutate.\<close>

fun req_value :: "req_op \<Rightarrow> string \<Rightarrow> system \<Rightarrow> jsval option option" where
  "req_value (Write v) k s = Some (Some v)"
| "req_value (Update v) k s = Some (Some (merge_patch (load k (JObj []) s) v))"
| "req_value (Patch ops) k s = Some (Some (applyOps (load k (JObj []) s) ops))"
| "req_value Clear k s = Some None"
| "req_value _ k s = None"

text \<open>The answer to the asker of a job. A window does not read the answer to a patch or a clear.\<close>

definition reply :: "job \<Rightarrow> jsval option \<Rightarrow> system \<Rightarrow> system" where
  "reply j r s = (case j_from j of
      Proc i \<Rightarrow> at_proc i (\<lambda>p. p\<lparr>inbox := inbox p @ [Res (j_req j) (map_option wire r)]\<rparr>) s
    | Win i \<Rightarrow> (case (j_op j, r) of
          (Read _, Some v) \<Rightarrow> at_win i (\<lambda>w. w\<lparr>w_in := w_in w @ [WReply (j_key j) (wire v)]\<rparr>) s
        | (ReadOnce _, Some v) \<Rightarrow> at_win i (\<lambda>w. w\<lparr>w_in := w_in w @ [WValue (wire v)]\<rparr>) s
        | _ \<Rightarrow> s))"

text \<open>
  What the disk does during one operation. A document that is cached is not read again, and a write
  or a clear reads nothing.
\<close>

datatype outcome = DiskOk | ReadFails | WriteFails

definition readable :: "outcome \<Rightarrow> string \<Rightarrow> system \<Rightarrow> bool" where
  "readable d k s \<longleftrightarrow> m_value (main s) k \<noteq> None \<or> d \<noteq> ReadFails"

fun fetched :: "outcome \<Rightarrow> req_op \<Rightarrow> string \<Rightarrow> system \<Rightarrow> bool" where
  "fetched d (Write v) k s = True"
| "fetched d Clear k s = True"
| "fetched d ListNames k s = (d \<noteq> ReadFails)"
| "fetched d _ k s = readable d k s"

fun answer :: "req_op \<Rightarrow> string \<Rightarrow> system \<Rightarrow> jsval" where
  "answer (Read fb) k s = load k fb s"
| "answer (ReadOnce fb) k s = load k fb s"
| "answer _ k s = JArr (map JStr (m_names (main s) k))"

definition listener_of :: "client \<Rightarrow> string \<Rightarrow> system \<Rightarrow> client option" where
  "listener_of c k s = (if c \<in> set (m_subs (main s) k) then Some c else None)"

definition enqueue :: "string \<Rightarrow> req_op \<Rightarrow> client \<Rightarrow> nat \<Rightarrow> client option \<Rightarrow> system \<Rightarrow> system" where
  "enqueue k op c r except s = s\<lparr>main := (main s)\<lparr>m_jobs := m_jobs (main s)
     @ [\<lparr>j_key = k, j_op = op, j_from = c, j_req = r, j_except = except\<rparr>]\<rparr>\<rparr>"

text \<open>One message of a process, up to the await.\<close>

fun handleMessage :: "nat \<Rightarrow> client_msg \<Rightarrow> system \<Rightarrow> system" where
  "handleMessage i (Sub k) s = ensureSub (Proc i) k s"
| "handleMessage i (Req r op k) s = (let except = listener_of (Proc i) k s
     in enqueue k op (Proc i) r except (case op of Read fb \<Rightarrow> ensureSub (Proc i) k s | _ \<Rightarrow> s))"

fun handleWindow :: "nat \<Rightarrow> window_msg \<Rightarrow> system \<Rightarrow> system" where
  "handleWindow i (WRead k fb) s = enqueue k (Read fb) (Win i) 0 None (ensureSub (Win i) k s)"
| "handleWindow i (WReadOnce k fb) s = enqueue k (ReadOnce fb) (Win i) 0 None s"
| "handleWindow i (WPatch k ops) s = enqueue k (Patch ops) (Win i) 0 (Some (Win i)) (ensureSub (Win i) k s)"
| "handleWindow i (WClear k) s = enqueue k Clear (Win i) 0 (listener_of (Win i) k s) s"

text \<open>A job runs and settles. A listing is not in the queue of a document.\<close>

definition perform :: "outcome \<Rightarrow> job \<Rightarrow> system \<Rightarrow> system" where
  "perform d j s = (let k = j_key j; op = j_op j
     in if \<not> fetched d op k s then reply j None s
        else case req_value op k s of
          Some v \<Rightarrow> let s1 = m_cache k v s
            in if d = WriteFails then reply j None s1
               else reply j (Some (case v of None \<Rightarrow> JUndef | Some x \<Rightarrow> x)) (broadcast (j_except j) k v s1)
        | None \<Rightarrow> reply j (Some (answer op k s)) (if op = ListNames then s else m_cache k (Some (answer op k s)) s))"

definition its_turn :: "nat \<Rightarrow> job list \<Rightarrow> bool" where
  "its_turn n js \<longleftrightarrow> n < length js \<and> (j_op (js ! n) = ListNames
     \<or> list_all (\<lambda>j. j_op j = ListNames \<or> j_key j \<noteq> j_key (js ! n)) (take n js))"

definition settle_job :: "nat \<Rightarrow> outcome \<Rightarrow> system \<Rightarrow> system" where
  "settle_job n d s = (let js = m_jobs (main s) in if its_turn n js
     then perform d (js ! n) (s\<lparr>main := (main s)\<lparr>m_jobs := take n js @ drop (Suc n) js\<rparr>\<rparr>) else s)"

text \<open>
  \<open>dropRenderer\<close> of a destroyed window, \<open>detach\<close> of an exited process: a job that was to skip a
  listener of the client skips nobody that is subscribed later.
\<close>

definition forget :: "client \<Rightarrow> job \<Rightarrow> job" where
  "forget c j = (if j_except j = Some c then j\<lparr>j_except := None\<rparr> else j)"

definition dropClient :: "client \<Rightarrow> system \<Rightarrow> system" where
  "dropClient c s = s\<lparr>main := (main s)\<lparr>m_subs := (\<lambda>k. removeAll c (m_subs (main s) k)),
     m_jobs := map (forget c) (m_jobs (main s))\<rparr>\<rparr>"

section \<open>Histories\<close>

datatype store_event = PRead nat string jsval | PWrite nat string jsval | PUpdate nat string jsval | PClear nat string
  | PList nat string | PSubscribe nat string nat | PUnsubscribe nat string nat | PReceive nat
  | WOpen nat string jsval | WReadFile nat string jsval | WEdit nat string jsval | WStoreClear nat string | WReceive nat
  | MainProc nat | MainWin nat | Settles nat outcome | Gone client

fun store_step :: "system \<Rightarrow> store_event \<Rightarrow> system" where
  "store_step s (PRead i k fb) = at_proc i (p_read k fb) s"
| "store_step s (PWrite i k v) = at_proc i (p_write k v) s"
| "store_step s (PUpdate i k v) = at_proc i (p_update k v) s"
| "store_step s (PClear i k) = at_proc i (p_clear k) s"
| "store_step s (PList i k) = at_proc i (p_list k) s"
| "store_step s (PSubscribe i k l) = at_proc i (p_subscribe k l) s"
| "store_step s (PUnsubscribe i k l) = at_proc i (p_unsubscribe k l) s"
| "store_step s (PReceive i) = (case inbox (procs s i) of [] \<Rightarrow> s
      | m # ms \<Rightarrow> at_proc i (\<lambda>p. onMessage m (p\<lparr>inbox := ms\<rparr>)) s)"
| "store_step s (WOpen i k fb) = at_win i (w_open k fb) s"
| "store_step s (WReadFile i k fb) = at_win i (w_post (WReadOnce k (wire fb))) s"
| "store_step s (WEdit i k v) = at_win i (w_edit k v) s"
| "store_step s (WStoreClear i k) = at_win i (w_clear k) s"
| "store_step s (WReceive i) = (case w_in (wins s i) of [] \<Rightarrow> s
      | m # ms \<Rightarrow> at_win i (\<lambda>w. w_receive m (w\<lparr>w_in := ms\<rparr>)) s)"
| "store_step s (MainProc i) = (case outbox (procs s i) of [] \<Rightarrow> s
      | m # ms \<Rightarrow> handleMessage i m (at_proc i (\<lambda>p. p\<lparr>outbox := ms\<rparr>) s))"
| "store_step s (MainWin i) = (case w_out (wins s i) of [] \<Rightarrow> s
      | m # ms \<Rightarrow> handleWindow i m (at_win i (\<lambda>w. w\<lparr>w_out := ms\<rparr>) s))"
| "store_step s (Settles n d) = settle_job n d s"
| "store_step s (Gone c) = dropClient c s"

section \<open>A listener of a process hears every change once\<close>

fun res_ids :: "server_msg list \<Rightarrow> nat list" where
  "res_ids [] = []"
| "res_ids (Res r v # ms) = r # res_ids ms"
| "res_ids (Changed k v # ms) = res_ids ms"

fun req_ids :: "client_msg list \<Rightarrow> nat list" where
  "req_ids [] = []"
| "req_ids (Req r op k # ms) = r # req_ids ms"
| "req_ids (Sub k # ms) = req_ids ms"

lemma ids_append [simp]: "res_ids (xs @ ys) = res_ids xs @ res_ids ys" "req_ids (us @ vs) = req_ids us @ req_ids vs"
  by (induction xs rule: res_ids.induct; simp) (induction us rule: req_ids.induct; simp)

lemma req_in: "Req r op k \<in> set ms \<Longrightarrow> r \<in> set (req_ids ms)"
  by (induction ms rule: req_ids.induct) auto

text \<open>
  Requests and answers in flight are known and in one place each: \<open>qs\<close> are those that main has
  taken and not answered.
\<close>

definition proxy_ok :: "client_msg list \<Rightarrow> proxy \<Rightarrow> bool" where
  "proxy_ok qs p \<longleftrightarrow> distinct (req_ids (qs @ outbox p) @ res_ids (inbox p))
     \<and> (\<forall>r \<in> set (req_ids (qs @ outbox p) @ res_ids (inbox p)). r \<le> seq p)
     \<and> (\<forall>r op k. Req r op k \<in> set (qs @ outbox p) \<longrightarrow> map_of (pending p) r = Some (op, k) \<and> (\<forall>ops. op \<noteq> Patch ops))
     \<and> (\<forall>k d. pdocs p k = Some d \<longrightarrow> distinct (pd_listeners d))"

definition seen :: "string \<Rightarrow> nat \<Rightarrow> proxy \<Rightarrow> jsval list" where
  "seen k l p = map (\<lambda>(_, _, v). v) (filter (\<lambda>(k', l', _). k' = k \<and> l' = l) (heard p))"

fun heard_later :: "string \<Rightarrow> (nat \<times> req_op \<times> string) list \<Rightarrow> server_msg \<Rightarrow> jsval list" where
  "heard_later k pn (Changed k' v) = (if k' = k then [v] else [])"
| "heard_later k pn (Res r v) = (case (map_of pn r, v) of
      (Some (Write _, k'), Some x) \<Rightarrow> if k' = k then [x] else []
    | (Some (Update _, k'), Some x) \<Rightarrow> if k' = k then [x] else []
    | (Some (Clear, k'), Some x) \<Rightarrow> if k' = k then [JUndef] else []
    | _ \<Rightarrow> [])"

definition flow :: "string \<Rightarrow> nat \<Rightarrow> proxy \<Rightarrow> jsval list" where
  "flow k l p = seen k l p @ concat (map (heard_later k (pending p)) (inbox p))"

definition listening :: "string \<Rightarrow> nat \<Rightarrow> proxy \<Rightarrow> bool" where
  "listening k l p \<longleftrightarrow> (\<exists>d. pdocs p k = Some d \<and> l \<in> set (pd_listeners d))"

text \<open>What a local command keeps: the inbox, what was heard, the answers awaited, the listener.\<close>

definition keeps_flow :: "string \<Rightarrow> nat \<Rightarrow> proxy \<Rightarrow> proxy \<Rightarrow> bool" where
  "keeps_flow k l p q \<longleftrightarrow> (\<forall>qs. proxy_ok qs p \<longrightarrow> proxy_ok qs q \<and> flow k l q = flow k l p)
     \<and> (listening k l p \<longrightarrow> listening k l q)"

lemma keeps_flow_trans: "keeps_flow k l p q \<Longrightarrow> keeps_flow k l q r \<Longrightarrow> keeps_flow k l p r"
  unfolding keeps_flow_def by metis

lemma keeps_put:
  "(listening k l p \<Longrightarrow> k' = k \<Longrightarrow> l \<in> set (pd_listeners d)) \<Longrightarrow> (\<And>qs. proxy_ok qs p \<Longrightarrow> distinct (pd_listeners d)) \<Longrightarrow>
   keeps_flow k l p (put_doc k' d p)"
  by (auto simp: keeps_flow_def proxy_ok_def put_doc_def flow_def seen_def listening_def)

lemma docFor_listeners:
  "proxy_ok qs p \<Longrightarrow> distinct (pd_listeners (docFor k p))" "listening k l p \<Longrightarrow> l \<in> set (pd_listeners (docFor k p))"
  by (auto simp: docFor_def proxy_ok_def listening_def split: option.split)

lemma keeps_sub_post: "keeps_flow k l p (post (Sub k') p)"
  by (auto simp: keeps_flow_def proxy_ok_def post_def flow_def seen_def listening_def)

lemma keeps_ensure: "keeps_flow k l p (ensureSubscribed k' p)"
proof -
  have "keeps_flow k l p (put_doc k' (docFor k' p) p)"
    "keeps_flow k l p (put_doc k' ((docFor k' p)\<lparr>pd_subscribed := True\<rparr>) p)"
    by (rule keeps_put; use docFor_listeners [where p = p] in auto)+
  then show ?thesis
    by (auto simp: ensureSubscribed_def Let_def intro: keeps_flow_trans keeps_sub_post)
qed

lemma keeps_request:
  assumes np: "\<And>ops. op \<noteq> Patch ops"
  shows "keeps_flow k l p (request op k' p)"
proof -
  have f: "seq p + 1 \<notin> set (req_ids (qs @ outbox p) @ res_ids (inbox p))" if "proxy_ok qs p" for qs
  proof
    assume "seq p + 1 \<in> set (req_ids (qs @ outbox p) @ res_ids (inbox p))"
    then have "seq p + 1 \<le> seq p" using that unfolding proxy_ok_def by blast
    then show False by simp
  qed
  have r: "r \<noteq> seq p + 1" if "proxy_ok qs p" "Req r op' k'' \<in> set (qs @ outbox p)" for qs r op' k''
  proof -
    have "r \<in> set (req_ids (qs @ outbox p))" using that(2) by (rule req_in)
    with f [OF that(1)] show ?thesis by auto
  qed
  have later: "concat (map (heard_later k (AList.update (seq p + 1) x (pending p))) ms) = concat (map (heard_later k (pending p)) ms)"
    if "seq p + 1 \<notin> set (res_ids ms)" for x ms
    using that by (induction ms rule: res_ids.induct) (simp_all add: map_of_update)
  show ?thesis
    unfolding keeps_flow_def
  proof (intro conjI impI allI)
    fix qs
    assume ok: "proxy_ok qs p"
    show "proxy_ok qs (request op k' p)"
      using ok f [OF ok] r [OF ok] np by (auto simp: proxy_ok_def request_def post_def Let_def map_of_update le_SucI)
    show "flow k l (request op k' p) = flow k l p"
      using f [OF ok] later [of "inbox p"] by (simp add: flow_def seen_def request_def post_def Let_def)
  qed (simp add: listening_def request_def post_def Let_def)
qed

lemma keeps_commands:
  "keeps_flow k l p (p_read k' fb p)" "keeps_flow k l p (p_write k' v p)" "keeps_flow k l p (p_update k' v p)"
  "keeps_flow k l p (p_clear k' p)" "keeps_flow k l p (p_list k' p)" "keeps_flow k l p (p_subscribe k' l' p)"
  "(k', l') \<noteq> (k, l) \<Longrightarrow> keeps_flow k l p (p_unsubscribe k' l' p)"
proof -
  have t: "keeps_flow k l p (touch k' p)"
    unfolding touch_def by (rule keeps_put) (use docFor_listeners [where p = p] in auto)
  show "keeps_flow k l p (p_read k' fb p)"
    unfolding p_read_def by (rule keeps_flow_trans [OF keeps_ensure keeps_request]) simp
  show "keeps_flow k l p (p_write k' v p)" "keeps_flow k l p (p_update k' v p)" "keeps_flow k l p (p_clear k' p)"
    unfolding p_write_def p_update_def p_clear_def by (rule keeps_flow_trans [OF t keeps_request]; simp)+
  show "keeps_flow k l p (p_list k' p)" unfolding p_list_def by (rule keeps_request) simp
  show "keeps_flow k l p (p_subscribe k' l' p)"
    unfolding p_subscribe_def Let_def
    by (rule keeps_flow_trans [OF keeps_ensure], rule keeps_put) (use docFor_listeners in auto)
  show "(k', l') \<noteq> (k, l) \<Longrightarrow> keeps_flow k l p (p_unsubscribe k' l' p)"
    unfolding p_unsubscribe_def Let_def
    by (rule keeps_put) (use docFor_listeners [where p = p] in \<open>auto simp: distinct_removeAll\<close>)
qed

lemma seen_notify:
  assumes "proxy_ok qs p" "listening k l p"
  shows "seen k l (p_notify k' v p) = seen k l p @ (if k' = k then [v] else [])"
proof -
  obtain d where d: "pdocs p k = Some d" "l \<in> set (pd_listeners d)" "distinct (pd_listeners d)"
    using assms by (auto simp: proxy_ok_def listening_def)
  have one: "filter (\<lambda>x. x = l) xs = [l]" if "distinct xs" "l \<in> set xs" for xs :: "nat list"
    using that by (induction xs) (auto simp: filter_empty_conv)
  show ?thesis
    using d one [OF d(3,2)] by (auto simp: seen_def p_notify_def docFor_def filter_map comp_def)
qed

lemma keeps_cache: "keeps_flow k l p (cache k' v b p)"
  unfolding cache_def by (rule keeps_put) (use docFor_listeners [where p = p] in auto)

lemma notify_more:
  "proxy_ok qs (p_notify k' v p) = proxy_ok qs p" "listening k l (p_notify k' v p) = listening k l p"
  by (simp_all add: p_notify_def proxy_ok_def listening_def)

lemma flow_notify:
  assumes "proxy_ok qs p" "listening k l p"
  shows "flow k l (p_notify k' v p)
    = seen k l p @ (if k' = k then [v] else []) @ concat (map (heard_later k (pending p)) (inbox p))"
  using seen_notify [OF assms, of k' v] by (simp add: flow_def) (simp add: p_notify_def)

text \<open>What was heard after an answer is cached and told to the listeners.\<close>

lemma cache_notify:
  assumes "proxy_ok qs p" "listening k l p"
  shows "proxy_ok qs (p_notify k' v (cache k' w b p))" "listening k l (p_notify k' v (cache k' w b p))"
    "flow k l (p_notify k' v (cache k' w b p))
      = seen k l p @ (if k' = k then [v] else []) @ concat (map (heard_later k (pending p)) (inbox p))"
proof -
  have c: "proxy_ok qs (cache k' w b p)" "listening k l (cache k' w b p)"
    using keeps_cache assms unfolding keeps_flow_def by blast+
  have "seen k l (cache k' w b p) = seen k l p" "pending (cache k' w b p) = pending p" "inbox (cache k' w b p) = inbox p"
    by (simp_all add: cache_def put_doc_def seen_def)
  then show "flow k l (p_notify k' v (cache k' w b p))
      = seen k l p @ (if k' = k then [v] else []) @ concat (map (heard_later k (pending p)) (inbox p))"
    using flow_notify [OF c] by simp
qed (use keeps_cache assms in \<open>auto simp: notify_more keeps_flow_def\<close>)

lemma counters_apart:
  "proxy_ok qs (p\<lparr>p_writes := n\<rparr>) = proxy_ok qs p" "listening k l (p\<lparr>p_writes := n\<rparr>) = listening k l p"
  "proxy_ok qs (p\<lparr>p_updates := n\<rparr>) = proxy_ok qs p" "listening k l (p\<lparr>p_updates := n\<rparr>) = listening k l p"
  "proxy_ok qs (p\<lparr>p_clears := n\<rparr>) = proxy_ok qs p" "listening k l (p\<lparr>p_clears := n\<rparr>) = listening k l p"
  "seen k l (p\<lparr>p_writes := n\<rparr>) = seen k l p" "seen k l (p\<lparr>p_updates := n\<rparr>) = seen k l p"
  "seen k l (p\<lparr>p_clears := n\<rparr>) = seen k l p"
  "cache k' v b (p\<lparr>p_writes := n\<rparr>) = (cache k' v b p)\<lparr>p_writes := n\<rparr>"
  "cache k' v b (p\<lparr>p_updates := n\<rparr>) = (cache k' v b p)\<lparr>p_updates := n\<rparr>"
  "cache k' v b (p\<lparr>p_clears := n\<rparr>) = (cache k' v b p)\<lparr>p_clears := n\<rparr>"
  by (simp_all add: proxy_ok_def listening_def seen_def cache_def put_doc_def docFor_def)

lemma later_delete:
  "i \<notin> set (res_ids ms) \<Longrightarrow>
   concat (map (heard_later k (AList.delete i pn)) ms) = concat (map (heard_later k pn) ms)"
  by (induction ms rule: res_ids.induct) (simp_all add: delete_conv')

lemma popped_ok:
  assumes "proxy_ok qs p" "inbox p = Res i r # ms"
  shows "proxy_ok qs (p\<lparr>inbox := ms, pending := AList.delete i (pending p), returned := rs\<rparr>)"
    "concat (map (heard_later k (AList.delete i (pending p))) ms) = concat (map (heard_later k (pending p)) ms)"
proof -
  have n: "i \<notin> set (req_ids (qs @ outbox p))" "i \<notin> set (res_ids ms)"
    using assms by (auto simp: proxy_ok_def)
  have "r' \<noteq> i" if "Req r' op k' \<in> set (qs @ outbox p)" for r' op k' using req_in [OF that] n(1) by auto
  then show "proxy_ok qs (p\<lparr>inbox := ms, pending := AList.delete i (pending p), returned := rs\<rparr>)"
    using assms by (auto simp: proxy_ok_def delete_conv')
  show "concat (map (heard_later k (AList.delete i (pending p))) ms) = concat (map (heard_later k (pending p)) ms)"
    using n(2) by (rule later_delete)
qed

text \<open>Resuming a caller tells the listener what the answer held for it.\<close>

lemma resumed:
  assumes "proxy_ok qs p" "listening k l p"
  shows "proxy_ok qs (resume op k' v p)" "listening k l (resume op k' v p)"
    "flow k l (resume op k' v p) = seen k l p
      @ (case op of Write _ \<Rightarrow> if k' = k then [v] else [] | Update _ \<Rightarrow> if k' = k then [v] else []
           | Clear \<Rightarrow> if k' = k then [JUndef] else [] | _ \<Rightarrow> [])
      @ concat (map (heard_later k (pending p)) (inbox p))"
proof -
  let ?w = "p\<lparr>p_writes := p_writes p + 1\<rparr>" and ?u = "p\<lparr>p_updates := p_updates p + 1\<rparr>"
    and ?c = "p\<lparr>p_clears := p_clears p + 1\<rparr>"
  have same: "(cache k' x b p)\<lparr>p_writes := p_writes p + 1\<rparr> = cache k' x b ?w"
    "(cache k' x b p)\<lparr>p_updates := p_updates p + 1\<rparr> = cache k' x b ?u"
    "(cache k' x b p)\<lparr>p_clears := p_clears p + 1\<rparr> = cache k' x b ?c" for x b
    by (simp_all only: counters_apart)
  have ok: "proxy_ok qs ?w" "listening k l ?w" "proxy_ok qs ?u" "listening k l ?u" "proxy_ok qs ?c" "listening k l ?c"
    using assms by (simp_all add: counters_apart)
  note w = cache_notify [OF ok(1,2), of k' v v True] and u = cache_notify [OF ok(3,4), of k' v v True]
    and c = cache_notify [OF ok(5,6), of k' JUndef JUndef False]
  have r: "flow k l (cache k' v True p) = flow k l p" "proxy_ok qs (cache k' v True p)" "listening k l (cache k' v True p)"
    using keeps_cache assms unfolding keeps_flow_def by blast+
  show "proxy_ok qs (resume op k' v p)"
    by (cases op) (simp_all only: resume.simps same assms w(1) u(1) c(1) r(2))
  show "listening k l (resume op k' v p)"
    by (cases op) (simp_all only: resume.simps same assms w(2) u(2) c(2) r(3))
  show "flow k l (resume op k' v p) = seen k l p
      @ (case op of Write _ \<Rightarrow> if k' = k then [v] else [] | Update _ \<Rightarrow> if k' = k then [v] else []
           | Clear \<Rightarrow> if k' = k then [JUndef] else [] | _ \<Rightarrow> [])
      @ concat (map (heard_later k (pending p)) (inbox p))"
    by (cases op) (simp_all only: resume.simps same w(3) u(3) c(3) r(1) req_op.case,
        simp_all add: flow_def counters_apart(7-9))
qed

lemma received:
  assumes ok: "proxy_ok qs p" and l: "listening k l p" and b: "inbox p = m # ms"
  defines "q \<equiv> onMessage m (p\<lparr>inbox := ms\<rparr>)"
  shows "proxy_ok qs q \<and> listening k l q \<and> flow k l q = flow k l p"
proof (cases m)
  case (Changed k' v)
  let ?p = "p\<lparr>inbox := ms\<rparr>"
  have p': "proxy_ok qs ?p" "listening k l ?p" using ok l b by (auto simp: proxy_ok_def listening_def Changed)
  have sn: "seen k l ?p = seen k l p" by (simp add: seen_def)
  show ?thesis
  proof (cases "pdocs p k'")
    case None
    then have "k' \<noteq> k" using l by (auto simp: listening_def)
    then show ?thesis using None p' sn b by (simp add: q_def Changed flow_def)
  next
    case (Some d)
    then have "q = p_notify k' v (cache k' v True ?p)" by (simp add: q_def Changed)
    then show ?thesis using cache_notify [OF p', of k' v v True] sn b by (simp add: flow_def Changed)
  qed
next
  case (Res i r)
  show ?thesis
  proof (cases "map_of (pending p) i")
    case None
    then show ?thesis using ok l b
      by (auto simp: q_def Res flow_def seen_def proxy_ok_def listening_def)
  next
    case (Some x)
    obtain op k' where x: "x = (op, k')" by (cases x)
    let ?p = "p\<lparr>inbox := ms, pending := AList.delete i (pending p), returned := returned p @ [(i, r)]\<rparr>"
    have p': "proxy_ok qs ?p" "listening k l ?p"
      using popped_ok(1) [OF ok b [unfolded Res]] l by (simp_all add: listening_def)
    have sn: "seen k l ?p = seen k l p" by (simp add: seen_def)
    note d = popped_ok(2) [OF ok b [unfolded Res]]
    have q: "q = (case r of None \<Rightarrow> ?p | Some v \<Rightarrow> resume op k' v ?p)"
      using Some by (simp add: q_def Res x Let_def)
    show ?thesis
    proof (cases r)
      case None
      then show ?thesis using q p' sn d b by (simp add: flow_def Res split: option.split prod.split req_op.split)
    next
      case (Some v)
      then have q: "q = resume op k' v ?p" using q by simp
      note rs = resumed [OF p', of op k' v]
      have "flow k l q = flow k l p"
        unfolding q rs(3) sn using d b \<open>map_of (pending p) i = Some x\<close>
        by (simp add: flow_def Res Some x split: req_op.split)
      then show ?thesis using rs(1,2) q by simp
    qed
  qed
qed

definition heard_of :: "string \<Rightarrow> (string \<times> jsval) list \<Rightarrow> jsval list" where
  "heard_of k cs = map snd (filter (\<lambda>c. fst c = k) cs)"

text \<open>The requests of a process that main has taken and not answered.\<close>

definition asked :: "nat \<Rightarrow> system \<Rightarrow> client_msg list" where
  "asked i s = map (\<lambda>j. Req (j_req j) (j_op j) (j_key j)) (filter (\<lambda>j. j_from j = Proc i) (m_jobs (main s)))"

fun mutates :: "req_op \<Rightarrow> bool" where
  "mutates (Write _) = True"
| "mutates (Update _) = True"
| "mutates (Patch _) = True"
| "mutates Clear = True"
| "mutates _ = False"

text \<open>A job skips the listener of process \<open>i\<close> only if it is its own, and if it is its own change of \<open>k\<close>.\<close>

definition skips_own :: "nat \<Rightarrow> string \<Rightarrow> job \<Rightarrow> bool" where
  "skips_own i k j \<longleftrightarrow> (j_except j = Some (Proc i) \<longrightarrow> j_from j = Proc i)
     \<and> (j_from j = Proc i \<and> j_key j = k \<and> mutates (j_op j) \<longrightarrow> j_except j = Some (Proc i))"

text \<open>
  Process \<open>i\<close> is subscribed to \<open>k\<close> at main, its listener \<open>l\<close> is registered, and no change that it
  made of \<open>k\<close> before it was subscribed is under way.
\<close>

definition subscribed :: "nat \<Rightarrow> string \<Rightarrow> nat \<Rightarrow> system \<Rightarrow> bool" where
  "subscribed i k l s \<longleftrightarrow> proxy_ok (asked i s) (procs s i) \<and> listening k l (procs s i)
     \<and> Proc i \<in> set (m_subs (main s) k) \<and> (\<forall>k'. distinct (m_subs (main s) k'))
     \<and> list_all (skips_own i k) (m_jobs (main s))"

definition delivers :: "nat \<Rightarrow> string \<Rightarrow> nat \<Rightarrow> system \<Rightarrow> system \<Rightarrow> bool" where
  "delivers i k l s s' \<longleftrightarrow> subscribed i k l s' \<and> (\<exists>cs. changes s' = changes s @ cs
     \<and> map wire (flow k l (procs s' i)) = map wire (flow k l (procs s i)) @ map wire (heard_of k cs))"

lemma wire_wire [simp]: "wire (wire v) = wire v"
  by (simp add: wire_def)

lemma delivers_trans: "delivers i k l s t \<Longrightarrow> delivers i k l t u \<Longrightarrow> delivers i k l s u"
  unfolding delivers_def heard_of_def by fastforce

lemma quiet:
  assumes "subscribed i k l s" "keeps_flow k l (procs s i) (procs t i)" "changes t = changes s"
    "m_jobs (main t) = m_jobs (main s)"
    "\<forall>k'. distinct (m_subs (main t) k') \<and> set (m_subs (main s) k') \<subseteq> set (m_subs (main t) k')"
  shows "delivers i k l s t"
proof -
  have "asked i t = asked i s" by (simp add: asked_def assms(4))
  moreover have "Proc i \<in> set (m_subs (main t) k)" using assms(1,5) by (auto simp: subscribed_def)
  ultimately show ?thesis using assms(1-4) assms(5) unfolding delivers_def subscribed_def keeps_flow_def heard_of_def
    by (intro conjI exI [where x = "[]"]) auto
qed

lemma subs_distinct: "subscribed i k l s \<Longrightarrow> distinct (m_subs (main s) k')"
  by (simp add: subscribed_def)

lemma keeps_refl: "keeps_flow k l p p"
  by (simp add: keeps_flow_def)

lemma delivers_refl: "subscribed i k l s \<Longrightarrow> delivers i k l s s"
  by (rule quiet) (simp_all add: keeps_refl subs_distinct)

lemma at_proc_simps [simp]:
  "procs (at_proc j f s) i = (if j = i then f (procs s i) else procs s i)" "main (at_proc j f s) = main s"
  "changes (at_proc j f s) = changes s" "wins (at_proc j f s) = wins s"
  "procs (at_win j g s) = procs s" "main (at_win j g s) = main s" "changes (at_win j g s) = changes s"
  by (simp_all add: at_proc_def at_win_def)

lemma main_quiet [simp]:
  "procs (m_cache k v s) = procs s" "changes (m_cache k v s) = changes s" "m_subs (main (m_cache k v s)) = m_subs (main s)"
  "m_jobs (main (m_cache k v s)) = m_jobs (main s)"
  "procs (ensureSub c k s) = procs s" "changes (ensureSub c k s) = changes s" "m_jobs (main (ensureSub c k s)) = m_jobs (main s)"
  by (simp_all add: m_cache_def ensureSub_def Let_def)

lemma ensureSub_subs:
  "\<forall>k'. distinct (m_subs (main s) k') \<Longrightarrow>
   \<forall>k'. distinct (m_subs (main (ensureSub c k s)) k') \<and> set (m_subs (main s) k') \<subseteq> set (m_subs (main (ensureSub c k s)) k')"
  by (auto simp: ensureSub_def Let_def)

lemma delivers_main:
  assumes "subscribed i k l s"
  shows "delivers i k l s (m_cache k' v s)" "delivers i k l s (ensureSub c k' s)" "delivers i k l s (at_win w g s)"
proof -
  have d: "\<forall>k'. distinct (m_subs (main s) k')" using assms by (simp add: subs_distinct)
  show "delivers i k l s (m_cache k' v s)" "delivers i k l s (at_win w g s)"
    by (rule quiet [OF assms]; use d in \<open>auto simp: keeps_refl\<close>)+
  show "delivers i k l s (ensureSub c k' s)"
    by (rule quiet [OF assms]) (use ensureSub_subs [OF d] in \<open>auto simp: keeps_refl\<close>)
qed

lemma delivers_command:
  assumes "subscribed i k l s" "j = i \<Longrightarrow> keeps_flow k l (procs s i) (f (procs s i))"
  shows "delivers i k l s (at_proc j f s)"
  by (rule quiet [OF assms(1)]) (use assms subs_distinct in \<open>auto simp: keeps_refl\<close>)

section \<open>Main tells the listener\<close>

lemma fold_push:
  "distinct cs \<Longrightarrow> procs (fold (push k v) cs s) i
    = (procs s i)\<lparr>inbox := inbox (procs s i) @ (if Proc i \<in> set cs then [Changed k (wire v)] else [])\<rparr>
    \<and> main (fold (push k v) cs s) = main s \<and> changes (fold (push k v) cs s) = changes s"
proof (induction cs arbitrary: s)
  case (Cons c cs)
  then show ?case by (cases c) auto
qed simp

lemma told:
  "proxy_ok qs (p\<lparr>inbox := inbox p @ [Changed k' v]\<rparr>) = proxy_ok qs p"
  "flow k l (p\<lparr>inbox := inbox p @ [Changed k' v]\<rparr>) = flow k l p @ (if k' = k then [v] else [])"
  "listening k l (p\<lparr>inbox := b\<rparr>) = listening k l p" "listening k l (p\<lparr>outbox := c\<rparr>) = listening k l p"
  by (auto simp: proxy_ok_def flow_def seen_def listening_def)

definition val :: "jsval option \<Rightarrow> jsval" where
  "val v = (case v of None \<Rightarrow> JUndef | Some x \<Rightarrow> x)"

lemma broadcast_simps:
  assumes "\<forall>k'. distinct (m_subs (main s) k')"
  shows "procs (broadcast ex k' v s) i = (procs s i)\<lparr>inbox := inbox (procs s i)
      @ (if Some (Proc i) \<noteq> ex \<and> Proc i \<in> set (m_subs (main s) k') then [Changed k' (wire (val v))] else [])\<rparr>"
    "m_subs (main (broadcast ex k' v s)) = m_subs (main s)" "m_jobs (main (broadcast ex k' v s)) = m_jobs (main s)"
    "changes (broadcast ex k' v s) = changes s @ [(k', val v)]"
  using assms by (auto simp: broadcast_def Let_def fold_push val_def)

lemma delivers_broadcast:
  assumes "subscribed i k l s" "ex \<noteq> Some (Proc i)"
  shows "delivers i k l s (broadcast ex k' v s)"
proof -
  have d: "\<forall>k'. distinct (m_subs (main s) k')" using assms(1) by (simp add: subs_distinct)
  have "asked i (broadcast ex k' v s) = asked i s" by (simp add: asked_def broadcast_simps [OF d])
  then show ?thesis
    using assms unfolding delivers_def subscribed_def broadcast_simps [OF d]
    by (intro conjI exI [where x = "[(k', val v)]"]) (auto simp: told heard_of_def)
qed

text \<open>The answer of a job of process \<open>i\<close>, which has left the jobs.\<close>

definition told_by :: "string \<Rightarrow> req_op \<Rightarrow> string \<Rightarrow> jsval option \<Rightarrow> jsval list" where
  "told_by k op k' r = (case (op, r) of (Write _, Some x) \<Rightarrow> if k' = k then [x] else []
     | (Update _, Some x) \<Rightarrow> if k' = k then [x] else [] | (Clear, Some x) \<Rightarrow> if k' = k then [JUndef] else [] | _ \<Rightarrow> [])"

lemma answered:
  assumes "proxy_ok (as @ Req r op k' # bs) p"
  shows "proxy_ok (as @ bs) (p\<lparr>inbox := inbox p @ [Res r v]\<rparr>)"
    "flow k l (p\<lparr>inbox := inbox p @ [Res r v]\<rparr>) = flow k l p @ told_by k op k' v"
proof -
  show "proxy_ok (as @ bs) (p\<lparr>inbox := inbox p @ [Res r v]\<rparr>)"
    using assms by (auto simp: proxy_ok_def)
  have "map_of (pending p) r = Some (op, k')" using assms by (auto simp: proxy_ok_def)
  then show "flow k l (p\<lparr>inbox := inbox p @ [Res r v]\<rparr>) = flow k l p @ told_by k op k' v"
    by (simp add: flow_def seen_def told_by_def split: req_op.split option.split)
qed

text \<open>Taking a message: a process's request moves from its outbox to the jobs.\<close>

lemma taken:
  assumes "subscribed i k l s" "proxy_ok (asked i s @ (if c = Proc i then [Req r op k'] else [])) (procs t i)"
    "flow k l (procs t i) = flow k l (procs s i)" "listening k l (procs t i)" "changes t = changes s"
    "m_jobs (main t) = m_jobs (main s)" "\<forall>k'. distinct (m_subs (main t) k') \<and> set (m_subs (main s) k') \<subseteq> set (m_subs (main t) k')"
    "skips_own i k \<lparr>j_key = k', j_op = op, j_from = c, j_req = r, j_except = ex\<rparr>"
  shows "delivers i k l s (enqueue k' op c r ex t)"
proof -
  have "asked i (enqueue k' op c r ex t) = asked i s @ (if c = Proc i then [Req r op k'] else [])"
    by (simp add: asked_def enqueue_def assms(6))
  moreover have "Proc i \<in> set (m_subs (main t) k)" using assms(1,7) by (auto simp: subscribed_def)
  ultimately show ?thesis using assms unfolding delivers_def subscribed_def
    by (intro conjI exI [where x = "[]"]) (auto simp: enqueue_def heard_of_def)
qed

lemma own_message:
  assumes s: "subscribed i k l s" and m: "outbox (procs s i) = m # ms"
  shows "delivers i k l s (handleMessage i m (at_proc i (\<lambda>p. p\<lparr>outbox := ms\<rparr>) s))"
proof -
  let ?s = "at_proc i (\<lambda>p. p\<lparr>outbox := ms\<rparr>) s" and ?p = "(procs s i)\<lparr>outbox := ms\<rparr>"
  have d: "\<forall>k'. distinct (m_subs (main s) k')" using s by (simp add: subs_distinct)
  have f: "flow k l ?p = flow k l (procs s i)" "listening k l ?p = listening k l (procs s i)"
    by (simp_all add: flow_def seen_def listening_def)
  show ?thesis
  proof (cases m)
    case (Sub k')
    have "keeps_flow k l (procs s i) ?p"
      using m Sub by (auto simp: keeps_flow_def proxy_ok_def f)
    then have "delivers i k l s ?s" by (rule delivers_command [OF s])
    then show ?thesis using delivers_trans delivers_main(2) by (simp add: Sub) (meson delivers_def delivers_trans delivers_main(2))
  next
    case (Req r op k')
    have ok: "proxy_ok (asked i s @ [Req r op k']) ?p" using s m by (simp add: subscribed_def proxy_ok_def Req)
    have sk: "skips_own i k \<lparr>j_key = k', j_op = op, j_from = Proc i, j_req = r, j_except = listener_of (Proc i) k' ?s\<rparr>"
      using s by (simp add: skips_own_def listener_of_def subscribed_def)
    show ?thesis
      unfolding Req handleMessage.simps Let_def
      by (rule taken [OF s _ _ _ _ _ _ sk])
        (use ok f s d ensureSub_subs [where s = ?s, of "Proc i" k'] in \<open>auto simp: subscribed_def split: req_op.split\<close>)
  qed
qed

lemma other_message:
  assumes "subscribed i k l s" "j \<noteq> i"
  shows "delivers i k l s (handleMessage j m s)"
proof (cases m)
  case (Req r op k')
  have d: "\<forall>k'. distinct (m_subs (main s) k')" using assms(1) by (simp add: subs_distinct)
  have sk: "skips_own i k \<lparr>j_key = k', j_op = op, j_from = Proc j, j_req = r, j_except = listener_of (Proc j) k' s\<rparr>"
    using assms(2) by (simp add: skips_own_def listener_of_def)
  show ?thesis
    unfolding Req handleMessage.simps Let_def
    by (rule taken [OF assms(1) _ _ _ _ _ _ sk])
      (use assms d ensureSub_subs [OF d, of "Proc j" k'] in \<open>auto simp: subscribed_def split: req_op.split\<close>)
qed (simp add: delivers_main [OF assms(1)])

lemma window_message:
  assumes s: "subscribed i k l s"
  shows "delivers i k l s (handleWindow w m s)"
proof -
  have d: "\<forall>k'. distinct (m_subs (main s) k')" using s by (simp add: subs_distinct)
  have "delivers i k l s (enqueue k' op (Win w) 0 ex t)"
    if "ex \<noteq> Some (Proc i)" "t = s \<or> t = ensureSub (Win w) k'' s" for k' op ex t k''
    by (rule taken [OF s]) (use that s d ensureSub_subs [OF d, of "Win w" k''] in \<open>auto simp: subscribed_def skips_own_def\<close>)
  from this [OF _ disjI1 [OF refl]] this [OF _ disjI2 [OF refl]] show ?thesis
    by (cases m) (auto simp: listener_of_def)
qed

text \<open>A job leaves the jobs and is answered.\<close>

definition without :: "nat \<Rightarrow> system \<Rightarrow> system" where
  "without n s = s\<lparr>main := (main s)\<lparr>m_jobs := take n (m_jobs (main s)) @ drop (Suc n) (m_jobs (main s))\<rparr>\<rparr>"

lemma without_simps [simp]:
  "procs (without n s) = procs s" "changes (without n s) = changes s" "m_subs (main (without n s)) = m_subs (main s)"
  "m_jobs (main (without n s)) = take n (m_jobs (main s)) @ drop (Suc n) (m_jobs (main s))"
  by (simp_all add: without_def)

lemma asked_without:
  assumes "n < length (m_jobs (main s))" "m_jobs (main s) ! n = j"
  shows "\<exists>as bs. asked i (without n s) = as @ bs
    \<and> asked i s = as @ (if j_from j = Proc i then [Req (j_req j) (j_op j) (j_key j)] else []) @ bs"
proof -
  let ?f = "\<lambda>js. map (\<lambda>j. Req (j_req j) (j_op j) (j_key j)) (filter (\<lambda>j. j_from j = Proc i) js)"
  have "m_jobs (main s) = take n (m_jobs (main s)) @ j # drop (Suc n) (m_jobs (main s))"
    using id_take_nth_drop [OF assms(1)] assms(2) by simp
  then have "asked i s = ?f (take n (m_jobs (main s))) @ ?f [j] @ ?f (drop (Suc n) (m_jobs (main s)))"
    unfolding asked_def by (metis append_Cons append_Nil filter_append map_append)
  then show ?thesis
    by (intro exI [of _ "?f (take n (m_jobs (main s)))"] exI [of _ "?f (drop (Suc n) (m_jobs (main s)))"]) (simp add: asked_def)
qed

lemma skips_without: "list_all P (m_jobs (main s)) \<Longrightarrow> list_all P (m_jobs (main (without n s)))"
  by (auto simp: list_all_iff dest: in_set_takeD in_set_dropD)

lemma subscribed_without:
  assumes s: "subscribed i k l s" and n: "n < length (m_jobs (main s))" and j: "j_from (m_jobs (main s) ! n) \<noteq> Proc i"
  shows "subscribed i k l (without n s)"
proof -
  obtain as bs where "asked i (without n s) = as @ bs" "asked i s = as @ bs"
    using asked_without [OF n refl, of i] j by auto
  moreover have "list_all (skips_own i k) (m_jobs (main (without n s)))"
    using s by (intro skips_without) (simp add: subscribed_def)
  ultimately show ?thesis using s by (simp add: subscribed_def)
qed

text \<open>What a job does apart from its answer, and the answer.\<close>

definition worked :: "outcome \<Rightarrow> job \<Rightarrow> system \<Rightarrow> system" where
  "worked d j s = (let k = j_key j; op = j_op j
     in if \<not> fetched d op k s then s
        else case req_value op k s of
          Some v \<Rightarrow> if d = WriteFails then m_cache k v s else broadcast (j_except j) k v (m_cache k v s)
        | None \<Rightarrow> if op = ListNames then s else m_cache k (Some (answer op k s)) s)"

definition outcome_of :: "outcome \<Rightarrow> job \<Rightarrow> system \<Rightarrow> jsval option" where
  "outcome_of d j s = (let k = j_key j; op = j_op j
     in if \<not> fetched d op k s then None
        else case req_value op k s of Some v \<Rightarrow> if d = WriteFails then None else Some (val v) | None \<Rightarrow> Some (answer op k s))"

lemma perform_worked: "perform d j s = reply j (outcome_of d j s) (worked d j s)"
  by (simp add: perform_def worked_def outcome_of_def val_def Let_def split: option.split)

lemma worked_broadcast:
  "(\<exists>c. worked d j s = c \<and> (c = s \<or> (\<exists>v. c = m_cache (j_key j) v s)) \<and> (outcome_of d j s = None \<or> \<not> mutates (j_op j)))
   \<or> (\<exists>v. worked d j s = broadcast (j_except j) (j_key j) v (m_cache (j_key j) v s) \<and> outcome_of d j s = Some (val v)
      \<and> mutates (j_op j) \<and> (j_op j = Clear \<longrightarrow> v = None))"
  by (cases "j_op j") (auto simp: worked_def outcome_of_def Let_def)

lemma others_job:
  assumes s: "subscribed i k l s" and n: "n < length (m_jobs (main s))" "j = m_jobs (main s) ! n" and j: "j_from j \<noteq> Proc i"
  shows "delivers i k l s (perform d j (without n s))"
proof -
  have w: "subscribed i k l (without n s)" using subscribed_without [OF s n(1)] j n(2) by simp
  have "list_all (skips_own i k) (m_jobs (main s))" using s by (simp add: subscribed_def)
  then have "skips_own i k j" using n by (simp add: list_all_length)
  then have ex: "j_except j \<noteq> Some (Proc i)" using j by (auto simp: skips_own_def)
  have "delivers i k l s (without n s)" using w by (simp add: delivers_def heard_of_def)
  moreover have "delivers i k l (without n s) (worked d j (without n s))"
    using worked_broadcast [of d j "without n s"] delivers_refl [OF w] delivers_main(1) [OF w]
      delivers_trans [OF delivers_main(1) [OF w] delivers_broadcast [OF _ ex]]
    by (auto simp: delivers_def)
  moreover have "delivers i k l t (reply j r t)" if t: "subscribed i k l t" for r t
    using j delivers_refl [OF t] delivers_main(3) [OF t]
    by (auto simp: reply_def intro!: delivers_command [OF t] split: client.split req_op.split option.split)
  ultimately show ?thesis unfolding perform_worked by (meson delivers_def delivers_trans)
qed

lemma own_job:
  assumes s: "subscribed i k l s" and n: "n < length (m_jobs (main s))" "j = m_jobs (main s) ! n" and j: "j_from j = Proc i"
  shows "delivers i k l s (perform d j (without n s))"
proof -
  obtain as bs where ab: "asked i (without n s) = as @ bs" "asked i s = as @ Req (j_req j) (j_op j) (j_key j) # bs"
    using asked_without [OF n(1), of j i] n(2) j by auto
  have ok: "proxy_ok (as @ Req (j_req j) (j_op j) (j_key j) # bs) (procs s i)" using s by (simp add: subscribed_def ab)
  have ds: "\<forall>k'. distinct (m_subs (main s) k')" using s by (simp add: subs_distinct)
  have np: "j_op j \<noteq> Patch ops" for ops using ok by (auto simp: proxy_ok_def)
  have sk: "list_all (skips_own i k) (m_jobs (main (without n s)))"
    using s by (intro skips_without) (simp add: subscribed_def)
  have "list_all (skips_own i k) (m_jobs (main s))" using s by (simp add: subscribed_def)
  then have own: "j_key j = k \<Longrightarrow> mutates (j_op j) \<Longrightarrow> j_except j = Some (Proc i)" "skips_own i k j"
    using n j by (auto simp: list_all_length skips_own_def)
  note a = answered [OF ok]
  have deliver: "delivers i k l s (reply j r t)"
    if "procs t i = (procs s i)\<lparr>inbox := inbox (procs s i) @ cs\<rparr>" "changes t = changes s @ ch"
      "m_subs (main t) = m_subs (main s)" "m_jobs (main t) = m_jobs (main (without n s))"
      "proxy_ok (as @ Req (j_req j) (j_op j) (j_key j) # bs) (procs t i)"
      "map wire (flow k l (procs t i) @ told_by k (j_op j) (j_key j) (map_option wire r)) = map wire (flow k l (procs s i)) @ map wire (heard_of k ch)"
    for r t cs ch
  proof -
    have "asked i (reply j r t) = as @ bs" using ab(1) by (simp add: asked_def reply_def j that(4))
    then show ?thesis
      using s ds sk that answered [OF that(5)] unfolding delivers_def subscribed_def
      by (intro conjI exI [where x = ch]) (auto simp: reply_def j told)
  qed
  show ?thesis
  proof (cases "outcome_of d j (without n s) = None \<or> \<not> mutates (j_op j)")
    case True
    have w: "worked d j (without n s) = without n s \<or> (\<exists>v. worked d j (without n s) = m_cache (j_key j) v (without n s))"
      using worked_broadcast [of d j "without n s"] True by auto
    have t: "told_by k (j_op j) (j_key j) (map_option wire (outcome_of d j (without n s))) = []"
      using True by (auto simp: told_by_def split: req_op.split option.split)
    show ?thesis unfolding perform_worked
      by (rule deliver [where cs = "[]" and ch = "[]"]) (use w ok t in \<open>auto simp: heard_of_def\<close>)
  next
    case False
    then obtain v where v: "worked d j (without n s) = broadcast (j_except j) (j_key j) v (m_cache (j_key j) v (without n s))"
      "outcome_of d j (without n s) = Some (val v)" "j_op j = Clear \<longrightarrow> v = None" "mutates (j_op j)"
      using worked_broadcast [of d j "without n s"] by auto
    have dm: "\<forall>k'. distinct (m_subs (main (m_cache (j_key j) v (without n s))) k')" using ds by simp
    let ?c = "if Some (Proc i) \<noteq> j_except j \<and> Proc i \<in> set (m_subs (main s) (j_key j)) then [Changed (j_key j) (wire (val v))] else []"
    have p: "procs (worked d j (without n s)) i = (procs s i)\<lparr>inbox := inbox (procs s i) @ ?c\<rparr>"
      by (simp add: v(1) broadcast_simps [OF dm])
    have fl: "flow k l (procs (worked d j (without n s)) i) = flow k l (procs s i)"
      unfolding p using own(1) v(4) told(2) [of k l "procs s i" "j_key j"] by auto
    have tb: "map wire (told_by k (j_op j) (j_key j) (Some (wire (val v)))) = map wire (heard_of k [(j_key j, val v)])"
      using v(3,4) np by (cases "j_op j") (auto simp: told_by_def heard_of_def val_def wire_def)
    show ?thesis unfolding perform_worked
      by (rule deliver [where cs = ?c and ch = "[(j_key j, val v)]", OF p])
        (use fl tb v ok p in \<open>auto simp: broadcast_simps [OF dm] told\<close>)
  qed
qed

lemma settle_delivers:
  assumes "subscribed i k l s"
  shows "delivers i k l s (settle_job n d s)"
  using others_job [OF assms, of n "m_jobs (main s) ! n" d] own_job [OF assms, of n "m_jobs (main s) ! n" d] delivers_refl [OF assms]
  by (auto simp: settle_job_def its_turn_def Let_def without_def)

section \<open>A listener hears every change once\<close>

fun unsubscribes :: "nat \<Rightarrow> string \<Rightarrow> nat \<Rightarrow> store_event \<Rightarrow> bool" where
  "unsubscribes i k l (PUnsubscribe j k' l') = (j = i \<and> k' = k \<and> l' = l)"
| "unsubscribes i k l (Gone c) = (c = Proc i)"
| "unsubscribes i k l _ = False"

lemma dropped_delivers:
  assumes s: "subscribed i k l s" and c: "c \<noteq> Proc i"
  shows "delivers i k l s (dropClient c s)"
proof -
  have "asked i (dropClient c s) = asked i s"
    by (simp add: asked_def dropClient_def filter_map comp_def forget_def if_distrib [of j_from] if_distrib [of j_req] if_distrib [of j_op]
        if_distrib [of j_key] cong: if_cong)
  moreover have "skips_own i k (forget c j)" if "skips_own i k j" for j
    using that c by (auto simp: skips_own_def forget_def)
  ultimately show ?thesis using s c
    by (auto simp: delivers_def subscribed_def dropClient_def heard_of_def distinct_removeAll list_all_iff)
qed

lemma step_delivers:
  assumes s: "subscribed i k l s" and e: "\<not> unsubscribes i k l e"
  shows "delivers i k l s (store_step s e)"
proof (cases e)
  case (PReceive j)
  show ?thesis
  proof (cases "j = i \<and> inbox (procs s j) \<noteq> []")
    case True
    then obtain m ms where b: "inbox (procs s i) = m # ms" by (cases "inbox (procs s i)") auto
    have "proxy_ok qs (procs s i) \<Longrightarrow> listening k l (procs s i) \<Longrightarrow> proxy_ok qs (onMessage m (procs s i\<lparr>inbox := ms\<rparr>))
        \<and> listening k l (onMessage m (procs s i\<lparr>inbox := ms\<rparr>))
        \<and> flow k l (onMessage m (procs s i\<lparr>inbox := ms\<rparr>)) = flow k l (procs s i)" for qs
      by (rule received [OF _ _ b])
    then have "keeps_flow k l (procs s i) (onMessage m (procs s i\<lparr>inbox := ms\<rparr>))"
      using s by (auto simp: keeps_flow_def subscribed_def)
    then show ?thesis
      using b True by (auto simp: PReceive intro!: delivers_command [OF s])
  next
    case False
    then show ?thesis
      by (auto simp: PReceive intro!: delivers_command [OF s] delivers_refl [OF s] split: list.split)
  qed
next
  case (MainProc j)
  show ?thesis
  proof (cases "j = i")
    case True
    then show ?thesis using own_message [OF s] delivers_refl [OF s] by (auto simp: MainProc split: list.split)
  next
    case False
    have a: "delivers i k l s (at_proc j f s)" for f by (rule delivers_command [OF s]) (use False in simp)
    have "delivers i k l s (handleMessage j m (at_proc j f s))" for m f
      by (rule delivers_trans [OF a other_message]) (use a False in \<open>simp_all add: delivers_def\<close>)
    then show ?thesis using delivers_refl [OF s] by (auto simp: MainProc split: list.split)
  qed
next
  case (MainWin j)
  have "delivers i k l s (handleWindow j m (at_win j f s))" for m f
    by (rule delivers_trans [OF delivers_main(3) [OF s] window_message])
      (use delivers_main(3) [OF s] in \<open>simp add: delivers_def\<close>)
  then show ?thesis using delivers_refl [OF s] by (auto simp: MainWin split: list.split)
next
  case (WReceive j)
  then show ?thesis using delivers_refl [OF s] delivers_main(3) [OF s] by (auto split: list.split)
next
  case (PUnsubscribe j k' l')
  then show ?thesis using e by (auto intro!: delivers_command [OF s] keeps_commands)
next
  case (Gone c)
  then show ?thesis using dropped_delivers [OF s] e by simp
next
  case (Settles n d)
  then show ?thesis using settle_delivers [OF s] by simp
qed (auto intro!: delivers_command [OF s] keeps_commands delivers_main(3) [OF s])

lemma run_delivers:
  "subscribed i k l s \<Longrightarrow> \<forall>e \<in> set es. \<not> unsubscribes i k l e \<Longrightarrow> delivers i k l s (foldl store_step s es)"
proof (induction es arbitrary: s)
  case (Cons e es)
  have d: "delivers i k l s (store_step s e)" using Cons.prems by (simp add: step_delivers)
  have "delivers i k l (store_step s e) (foldl store_step (store_step s e) es)"
    by (rule Cons.IH) (use d Cons.prems in \<open>simp_all add: delivers_def\<close>)
  with d show ?case by (simp add: delivers_trans)
qed (simp add: delivers_refl)

text \<open>
  C3. Whatever the windows and the other processes do, in whatever order main's operations settle and whether or
  not the disk takes each, a listener hears every change of its document once and in the order main made them,
  from the time main has subscribed its process and no change that process made before is still under way, until
  it unsubscribes or the process goes: what it has heard, followed by what is under way to it, grows by exactly the
  changes main committed since, its own (answered, not broadcast) included. Values are taken up to \<open>undefined\<close> and
  \<open>null\<close>, which the wire does not tell apart.
\<close>

theorem listener_hears_every_change_once:
  assumes "subscribed i k l s" "\<forall>e \<in> set es. \<not> unsubscribes i k l e"
  shows "map wire (flow k l (procs (foldl store_step s es) i)) = map wire (flow k l (procs s i))
    @ map wire (heard_of k (drop (length (changes s)) (changes (foldl store_step s es))))"
  using run_delivers [OF assms] by (auto simp: delivers_def)

text \<open>Two processes: the second one's write and the first one's own write reach the first one's listener.\<close>

definition two_processes :: system where
  "two_processes = foldl store_step (start (\<lambda>_. None) (\<lambda>_. [])) [PSubscribe 1 ''k'' 7, MainProc 1]"

definition two_writes :: "store_event list" where
  "two_writes = [PWrite 2 ''k'' (JStr ''a''), PWrite 1 ''k'' (JStr ''b''), MainProc 2, MainProc 1, Settles 0 DiskOk,
     PUpdate 1 ''k'' (JObj []), MainProc 1, Settles 0 WriteFails, PReceive 1, Settles 0 DiskOk, PReceive 1]"

lemma two_processes_subscribed: "subscribed 1 ''k'' 7 two_processes"
  by (simp add: two_processes_def start_def createStoreProxy_def at_proc_def p_subscribe_def ensureSubscribed_def
      docFor_def put_doc_def post_def Let_def ensureSub_def subscribed_def proxy_ok_def listening_def asked_def
      del: at_proc_simps)

lemma listener_hears_every_change_once_witness:
  "map wire (flow ''k'' 7 (procs (foldl store_step two_processes two_writes) 1)) = map wire (flow ''k'' 7 (procs two_processes 1))
    @ map wire (heard_of ''k'' (drop (length (changes two_processes)) (changes (foldl store_step two_processes two_writes))))"
  by (rule listener_hears_every_change_once [OF two_processes_subscribed]) (simp add: two_writes_def)

text \<open>
  Main notes the listener to skip when it takes a request, before the disk is awaited. A process that writes and
  then subscribes has none then and one when the write settles: it is sent its own change and the answer, and its
  listener hears the change twice.
\<close>

theorem write_before_subscribe_is_heard_twice:
  "let s = foldl store_step (start (\<lambda>_. None) (\<lambda>_. [])) [PWrite 1 ''k'' (JStr ''a''), PSubscribe 1 ''k'' 7,
      MainProc 1, MainProc 1, Settles 0 DiskOk, PReceive 1, PReceive 1]
   in changes s = [(''k'', JStr ''a'')] \<and> seen ''k'' 7 (procs s 1) = [JStr ''a'', JStr ''a'']"
  by code_simp

section \<open>A window left behind\<close>

definition doc_xy :: "string \<Rightarrow> string \<Rightarrow> jsval" where
  "doc_xy x y = JObj [(''x'', JStr x), (''y'', JStr y)]"

definition two_windows :: "store_event list" where
  "two_windows = [WOpen 1 ''k'' (JObj []), WOpen 2 ''k'' (JObj []), MainWin 1, MainWin 2, Settles 0 DiskOk, Settles 0 DiskOk, WReceive 1, WReceive 2]"

definition crossing_edits :: "store_event list" where
  "crossing_edits = [WEdit 1 ''k'' (doc_xy ''1'' ''0''), WEdit 2 ''k'' (doc_xy ''0'' ''1''),
     MainWin 2, MainWin 1, Settles 0 DiskOk, Settles 0 DiskOk, WReceive 1, WReceive 2]"

definition idle :: "nat list \<Rightarrow> system \<Rightarrow> bool" where
  "idle is s \<longleftrightarrow> list_all (\<lambda>i. w_in (wins s i) = [] \<and> w_out (wins s i) = []) is \<and> m_jobs (main s) = []"

text \<open>
  Two windows that edit different keys of one document at the same time: main merges both patches and
  stores the merged document, but the window whose patch was handled last is shown the other's
  intermediate document (its own push is suppressed and the answer to its patch is not read), so with
  every message delivered it keeps a document without its own edit.
\<close>

theorem window_left_behind:
  "let s = foldl store_step (start [''k'' \<mapsto> doc_xy ''0'' ''0''] (\<lambda>_. [])) (two_windows @ crossing_edits)
   in idle [1, 2] s \<and> m_disk (main s) ''k'' = Some (doc_xy ''1'' ''1'')
    \<and> tracked (wdocs (wins s 2) ''k'') = doc_xy ''1'' ''1'' \<and> tracked (wdocs (wins s 1) ''k'') = doc_xy ''0'' ''1''"
  by code_simp

text \<open>
  Clearing a document through a window that has it open does not clear it: the request is followed
  by the patch that the emptied reactive object queues, and main writes the file again, as an empty
  object that hides every later fallback.
\<close>

theorem clear_of_open_document_rewrites_it:
  "let s = foldl store_step (start [''k'' \<mapsto> doc_xy ''0'' ''0''] (\<lambda>_. []))
       [WOpen 1 ''k'' (JObj []), MainWin 1, Settles 0 DiskOk, WReceive 1, WStoreClear 1 ''k'', MainWin 1, MainWin 1, Settles 0 DiskOk, Settles 0 DiskOk]
   in idle [1] s \<and> map snd (changes s) = [JUndef, JObj []] \<and> m_disk (main s) ''k'' = Some (JObj [])"
  by code_simp

end
