(* ===== verification/Rolling.thy ===== *)
theory Rolling
  imports Prelude
begin

text \<open>
  The rolling statistics of \<open>app/lib/util/rolling.ts\<close>: the exponential average, the frequency meter on
  top of it, mean and maximum of a sample stream, and the event-loop lag probe. Numbers are reals;
  formatting is not modelled. The lemmas bound the mean by the samples seen and say what the running
  maximum is.
\<close>

section \<open>Averages\<close>

record rolling_average =
  decay :: real
  init :: bool
  raw :: real

definition new_average :: "real \<Rightarrow> rolling_average" where
  "new_average d = \<lparr>decay = d, init = True, raw = 0\<rparr>"

definition roll :: "real \<Rightarrow> rolling_average \<Rightarrow> rolling_average" where
  "roll v a = (if init a then a\<lparr>raw := v, init := False\<rparr>
     else a\<lparr>raw := raw a * decay a + v * (1 - decay a)\<rparr>)"

text \<open>\<open>reset\<close>: with a value the average jumps there but \<open>init\<close> is left as it was.\<close>

definition reset_average :: "real option \<Rightarrow> rolling_average \<Rightarrow> rolling_average" where
  "reset_average v a = (case v of None \<Rightarrow> a\<lparr>init := True, raw := 0\<rparr> | Some x \<Rightarrow> a\<lparr>raw := x\<rparr>)"

record freq_meter =
  f_average :: rolling_average
  lastTick :: "real option"

definition new_freq_meter :: "real \<Rightarrow> freq_meter" where
  "new_freq_meter d = \<lparr>f_average = new_average d, lastTick = None\<rparr>"

definition tick :: "real \<Rightarrow> freq_meter \<Rightarrow> freq_meter" where
  "tick now m = (case lastTick m of
      None \<Rightarrow> m\<lparr>lastTick := Some now\<rparr>
    | Some t \<Rightarrow> m\<lparr>f_average := roll (now - t) (f_average m), lastTick := Some now\<rparr>)"

definition frequency :: "freq_meter \<Rightarrow> real" where
  "frequency m = (if raw (f_average m) = 0 then 0 else 1000 / raw (f_average m))"

definition reset_meter :: "real option \<Rightarrow> freq_meter \<Rightarrow> freq_meter" where
  "reset_meter v m = m\<lparr>f_average := reset_average v (f_average m), lastTick := None\<rparr>"

section \<open>Mean and maximum\<close>

record rolling_stats =
  meanTracker :: rolling_average
  maxValue :: real
  r_count :: nat

definition new_stats :: "real \<Rightarrow> rolling_stats" where
  "new_stats d = \<lparr>meanTracker = new_average d, maxValue = 0, r_count = 0\<rparr>"

definition push_sample :: "real \<Rightarrow> rolling_stats \<Rightarrow> rolling_stats" where
  "push_sample v s = s\<lparr>meanTracker := roll v (meanTracker s),
     maxValue := (if maxValue s < v then v else maxValue s), r_count := r_count s + 1\<rparr>"

definition mean_of :: "rolling_stats \<Rightarrow> real" where
  "mean_of s = raw (meanTracker s)"

definition resetMax :: "rolling_stats \<Rightarrow> rolling_stats" where
  "resetMax s = s\<lparr>maxValue := 0\<rparr>"

text \<open>One tick of the probe, \<open>now\<close> being when its timer fired.\<close>

record lag_probe =
  lp_stats :: rolling_stats
  lp_last :: real
  lp_interval :: real

definition startLoopLagProbe :: "real \<Rightarrow> real \<Rightarrow> lag_probe" where
  "startLoopLagProbe interval now = \<lparr>lp_stats = new_stats (9 / 10), lp_last = now, lp_interval = interval\<rparr>"

definition probe_tick :: "real \<Rightarrow> lag_probe \<Rightarrow> lag_probe" where
  "probe_tick now p = p\<lparr>lp_stats := push_sample (max 0 (now - lp_last p - lp_interval p)) (lp_stats p), lp_last := now\<rparr>"

section \<open>Bounds\<close>

lemma mix_between:
  fixes a b d :: real
  assumes "0 \<le> d" "d \<le> 1" "lo \<le> a" "a \<le> hi" "lo \<le> b" "b \<le> hi"
  shows "lo \<le> a * d + b * (1 - d) \<and> a * d + b * (1 - d) \<le> hi"
proof -
  have "lo * d + lo * (1 - d) \<le> a * d + b * (1 - d)" "a * d + b * (1 - d) \<le> hi * d + hi * (1 - d)"
    using assms by (intro add_mono mult_right_mono; simp)+
  then show ?thesis by (simp add: algebra_simps)
qed

text \<open>The average of samples in an interval stays there, once there is one.\<close>

definition between :: "real \<Rightarrow> real \<Rightarrow> rolling_average \<Rightarrow> bool" where
  "between lo hi a \<longleftrightarrow> 0 \<le> decay a \<and> decay a \<le> 1 \<and> (\<not> init a \<longrightarrow> lo \<le> raw a \<and> raw a \<le> hi)"

interpretation averaging: guarded_machine "\<lambda>a v. roll v a" "between lo hi" "\<lambda>v. lo \<le> v \<and> v \<le> hi" for lo hi
  by unfold_locales (auto simp: between_def roll_def mix_between)

lemma rolled_decay [simp]: "decay (roll v a) = decay a" "\<not> init (roll v a)"
  by (simp_all add: roll_def)

definition samples :: "rolling_stats \<Rightarrow> real list \<Rightarrow> rolling_stats" where
  "samples s vs = run (\<lambda>s v. push_sample v s) s vs"

lemma samples_parts:
  "meanTracker (samples s vs) = run (\<lambda>a v. roll v a) (meanTracker s) vs"
  "r_count (samples s vs) = r_count s + length vs"
  "maxValue (samples s vs) = fold max vs (maxValue s)"
  unfolding samples_def
  by (induction vs arbitrary: s) (simp_all add: push_sample_def max_def)

lemma rolled_not_init: "vs \<noteq> [] \<Longrightarrow> \<not> init (run (\<lambda>a v. roll v a) a vs)"
  by (induction vs rule: rev_induct) simp_all

lemma fold_max_bound: "fold max vs m \<le> b \<longleftrightarrow> m \<le> b \<and> (\<forall>v \<in> set vs. v \<le> b)" for m :: real
  by (induction vs arbitrary: m) auto

lemma fold_max_in: "fold max vs m = m \<or> fold max vs m \<in> set vs" for m :: real
  by (induction vs arbitrary: m) (auto simp: max_def)

text \<open>
  After any samples at least one of which was taken, with a decay in the unit interval, the mean lies
  between bounds of the samples, and the maximum is the largest sample, or 0 when all are negative.
\<close>

theorem mean_within_samples:
  assumes "0 \<le> d" "d \<le> 1" "vs \<noteq> []" "list_all (\<lambda>v. lo \<le> v \<and> v \<le> hi) vs"
  shows "lo \<le> mean_of (samples (new_stats d) vs) \<and> mean_of (samples (new_stats d) vs) \<le> hi
    \<and> maxValue (samples (new_stats d) vs) = Max (insert 0 (set vs))"
proof -
  have "between lo hi (run (\<lambda>a v. roll v a) (new_average d) vs)"
    by (rule averaging.run_inv) (use assms in \<open>simp_all add: between_def new_average_def\<close>)
  then have m: "lo \<le> mean_of (samples (new_stats d) vs) \<and> mean_of (samples (new_stats d) vs) \<le> hi"
    using rolled_not_init [OF assms(3)] by (simp add: between_def mean_of_def samples_parts new_stats_def)
  have "maxValue (samples (new_stats d) vs) = Max (insert 0 (set vs))"
  proof (rule Max_eqI [symmetric])
    show "x \<le> maxValue (samples (new_stats d) vs)" if "x \<in> insert 0 (set vs)" for x
      using fold_max_bound [of vs 0 "fold max vs 0"] that by (auto simp: samples_parts new_stats_def)
  qed (use fold_max_in [of vs 0] in \<open>auto simp: samples_parts new_stats_def\<close>)
  with m show ?thesis by simp
qed

lemma mean_within_samples_witness:
  "let s = samples (new_stats (1 / 2)) [2, 4] in 2 \<le> mean_of s \<and> mean_of s \<le> 4 \<and> maxValue s = 4"
proof -
  have "Max (insert 0 (set [2, 4])) = (4 :: real)" by simp
  with mean_within_samples [of "1 / 2" "[2, 4]" 2 4] show ?thesis by (simp add: Let_def)
qed

text \<open>The probe never counts an early timer as negative lag.\<close>

definition probe_ok :: "lag_probe \<Rightarrow> bool" where
  "probe_ok p \<longleftrightarrow> decay (meanTracker (lp_stats p)) = 9 / 10 \<and> 0 \<le> mean_of (lp_stats p)"

interpretation lag: started_machine "\<lambda>p t. probe_tick t p" probe_ok "startLoopLagProbe interval t0" for interval t0
  by unfold_locales (simp_all add: probe_ok_def probe_tick_def push_sample_def roll_def mean_of_def
      startLoopLagProbe_def new_stats_def new_average_def)

lemma probe_mean_nonneg: "0 \<le> mean_of (lp_stats (run (\<lambda>p t. probe_tick t p) (startLoopLagProbe interval t0) ts))"
  using lag.reachable_inv by (simp add: probe_ok_def)

end
