(* ===== verification/Channel.thy ===== *)
theory Channel
  imports Rolling JsValue "HOL-Library.Multiset"
begin

text \<open>
  The duplex of \<open>app/lib/orchestrator/protocol.ts\<close> (class \<open>Channel\<close>) between a window and the
  orchestrator: requests and responses by id, events by topic, frames by topic with one frame in flight
  and the newest one held back until its ack, and frame interest. A link is the two channels of a port
  pair, each with the FIFO of messages it has posted; a closed port posts and receives nothing. What a
  request handler returns is an event of the history (\<open>Answer\<close>), the wall clock an argument. The
  lemmas show the gate (at most one frame or ack of a topic under way), that frames arrive in order and
  the newest one always does, and that every request is settled once, unless it is issued on a closed
  channel.
\<close>

section \<open>Messages\<close>

record frame_meta =
  meta_seq :: "nat option"
  tCapture :: "real option"
  convertMs :: "real option"
  tPublish :: "real option"

definition no_meta :: frame_meta where
  "no_meta = \<lparr>meta_seq = None, tCapture = None, convertMs = None, tPublish = None\<rparr>"

record payload =
  bytes :: "nat list option"
  shape :: "nat list"
  channels :: nat
  meta :: "frame_meta option"

datatype wire =
    WReq nat string jsval
  | WRes nat "string + jsval"
  | WEvt string jsval
  | WFrame string payload
  | WFack string
  | WInterest string

text \<open>\<open>mergeFrameMeta\<close> of two: what the second one has wins.\<close>

fun or_else :: "'a option \<Rightarrow> 'a option \<Rightarrow> 'a option" where
  "or_else (Some x) y = Some x"
| "or_else None y = y"

definition merge_meta :: "frame_meta \<Rightarrow> frame_meta \<Rightarrow> frame_meta" where
  "merge_meta a b = \<lparr>meta_seq = or_else (meta_seq b) (meta_seq a), tCapture = or_else (tCapture b) (tCapture a),
     convertMs = or_else (convertMs b) (convertMs a), tPublish = or_else (tPublish b) (tPublish a)\<rparr>"

fun mergeFrameMeta :: "frame_meta option list \<Rightarrow> frame_meta option \<Rightarrow> frame_meta option" where
  "mergeFrameMeta [] m = m"
| "mergeFrameMeta (None # ms) m = mergeFrameMeta ms m"
| "mergeFrameMeta (Some b # ms) m = mergeFrameMeta ms (Some (merge_meta (case m of None \<Rightarrow> no_meta | Some a \<Rightarrow> a) b))"

definition withFrameMeta :: "payload \<Rightarrow> frame_meta option list \<Rightarrow> payload" where
  "withFrameMeta p ms = p\<lparr>meta := mergeFrameMeta (meta p # ms) None\<rparr>"

definition seq_of :: "payload \<Rightarrow> nat" where
  "seq_of p = (case meta p of None \<Rightarrow> 0 | Some m \<Rightarrow> (case meta_seq m of None \<Rightarrow> 0 | Some n \<Rightarrow> n))"

section \<open>A channel\<close>

record counters =
  offered :: nat
  sent :: nat
  coalesced :: nat
  sent_bytes :: nat

definition no_counters :: counters where
  "no_counters = \<lparr>offered = 0, sent = 0, coalesced = 0, sent_bytes = 0\<rparr>"

record channel =
  seq :: nat
  pending :: "(nat \<times> string) list"
  handlers :: "string list"
  listeners :: "string \<Rightarrow> nat list"
  frameListeners :: "string \<Rightarrow> nat list"
  frameInflight :: "string list"
  framePending :: "string \<Rightarrow> payload option"
  frameSeq :: "string \<Rightarrow> nat"
  frameStats :: "string \<Rightarrow> counters option"
  frameTiming :: "string \<Rightarrow> rolling_stats option"
  frameInterest :: "string list"
  shut :: bool
  serving :: "(nat \<times> string \<times> jsval) list"
  settled :: "(nat \<times> (string + jsval)) list"
  heard :: "(string \<times> nat \<times> jsval) list"
  received :: "(string \<times> payload) list"
  shown :: "(string \<times> nat \<times> payload) list"
  declared :: "string list"
  outbox :: "wire list"

definition new_channel :: channel where
  "new_channel = \<lparr>seq = 0, pending = [], handlers = [], listeners = (\<lambda>_. []), frameListeners = (\<lambda>_. []),
     frameInflight = [], framePending = (\<lambda>_. None), frameSeq = (\<lambda>_. 0), frameStats = (\<lambda>_. None),
     frameTiming = (\<lambda>_. None), frameInterest = [], shut = False, serving = [], settled = [], heard = [],
     received = [], shown = [], declared = [], outbox = []\<rparr>"

text \<open>\<open>endpoint.post\<close>; a closed port drops it.\<close>

definition post :: "wire \<Rightarrow> channel \<Rightarrow> channel" where
  "post m c = (if shut c then c else c\<lparr>outbox := outbox c @ [m]\<rparr>)"

definition declareFrameInterest :: "string \<Rightarrow> channel \<Rightarrow> channel" where
  "declareFrameInterest t c = post (WInterest t) c"

definition hasFrameInterest :: "string \<Rightarrow> channel \<Rightarrow> bool" where
  "hasFrameInterest t c \<longleftrightarrow> t \<in> set (frameInterest c)"

definition stats :: "string \<Rightarrow> channel \<Rightarrow> counters" where
  "stats t c = (case frameStats c t of None \<Rightarrow> no_counters | Some s \<Rightarrow> s)"

definition put_stats :: "string \<Rightarrow> counters \<Rightarrow> channel \<Rightarrow> channel" where
  "put_stats t s c = c\<lparr>frameStats := (frameStats c)(t \<mapsto> s)\<rparr>"

text \<open>\<open>allFrameStats\<close>: one topic's entry, with the counters per second of uptime.\<close>

definition uptime_ms :: "real \<Rightarrow> real \<Rightarrow> real" where
  "uptime_ms startedAt now = max 1 (now - startedAt)"

definition ratePerSec :: "nat \<Rightarrow> real \<Rightarrow> real" where
  "ratePerSec n uptime = real n / (uptime / 1000)"

record topic_stats =
  t_counters :: counters
  t_uptime :: real
  t_rates :: "real \<times> real \<times> real \<times> real"
  t_convert :: "nat \<times> real \<times> real"

definition timingSnapshot :: "string \<Rightarrow> channel \<Rightarrow> nat \<times> real \<times> real" where
  "timingSnapshot t c = (case frameTiming c t of None \<Rightarrow> (0, 0, 0) | Some r \<Rightarrow> (r_count r, mean_of r, maxValue r))"

definition allFrameStats :: "real \<Rightarrow> real \<Rightarrow> channel \<Rightarrow> string \<Rightarrow> topic_stats option" where
  "allFrameStats startedAt now c t = (case frameStats c t of None \<Rightarrow> None
     | Some s \<Rightarrow> let up = uptime_ms startedAt now
         in Some \<lparr>t_counters = s, t_uptime = up,
              t_rates = (ratePerSec (offered s) up, ratePerSec (sent s) up, ratePerSec (coalesced s) up, ratePerSec (sent_bytes s) up),
              t_convert = timingSnapshot t c\<rparr>)"

definition note_convert :: "string \<Rightarrow> payload \<Rightarrow> channel \<Rightarrow> channel" where
  "note_convert t p c = (case meta p of None \<Rightarrow> c | Some m \<Rightarrow> (case convertMs m of None \<Rightarrow> c | Some v \<Rightarrow>
     c\<lparr>frameTiming := (frameTiming c)(t \<mapsto> push_sample v (case frameTiming c t of None \<Rightarrow> new_stats (9 / 10) | Some r \<Rightarrow> r))\<rparr>))"

definition request :: "string \<Rightarrow> jsval \<Rightarrow> channel \<Rightarrow> channel" where
  "request m v c = (let i = seq c + 1
     in post (WReq i m v) (c\<lparr>seq := i, pending := pending c @ [(i, m)]\<rparr>))"

definition handle :: "string \<Rightarrow> channel \<Rightarrow> channel" where
  "handle m c = c\<lparr>handlers := List.insert m (handlers c)\<rparr>"

definition listen :: "string \<Rightarrow> nat \<Rightarrow> channel \<Rightarrow> channel" where
  "listen t l c = c\<lparr>listeners := (listeners c)(t := (if l \<in> set (listeners c t) then listeners c t else listeners c t @ [l]))\<rparr>"

definition unlisten :: "string \<Rightarrow> nat \<Rightarrow> channel \<Rightarrow> channel" where
  "unlisten t l c = c\<lparr>listeners := (listeners c)(t := removeAll l (listeners c t))\<rparr>"

definition emit :: "string \<Rightarrow> jsval \<Rightarrow> channel \<Rightarrow> channel" where
  "emit t v c = post (WEvt t v) c"

definition onFrame :: "string \<Rightarrow> nat \<Rightarrow> channel \<Rightarrow> channel" where
  "onFrame t l c = c\<lparr>frameListeners := (frameListeners c)(t :=
     (if l \<in> set (frameListeners c t) then frameListeners c t else frameListeners c t @ [l]))\<rparr>"

definition offFrame :: "string \<Rightarrow> nat \<Rightarrow> channel \<Rightarrow> channel" where
  "offFrame t l c = c\<lparr>frameListeners := (frameListeners c)(t := removeAll l (frameListeners c t))\<rparr>"

definition postFrame :: "real \<Rightarrow> string \<Rightarrow> payload \<Rightarrow> channel \<Rightarrow> channel" where
  "postFrame now t p c = (let p' = p\<lparr>meta := map_option (\<lambda>m. m\<lparr>tPublish := Some now\<rparr>) (meta p)\<rparr>; s = stats t c
     in post (WFrame t p') (put_stats t (s\<lparr>sent := sent s + 1,
          sent_bytes := sent_bytes s + (case bytes p of None \<Rightarrow> 0 | Some b \<Rightarrow> length b)\<rparr>) c))"

definition stamp :: "real \<Rightarrow> nat \<Rightarrow> payload \<Rightarrow> payload" where
  "stamp now n p = withFrameMeta p [Some (no_meta\<lparr>tCapture := Some now\<rparr>), meta p, Some (no_meta\<lparr>meta_seq := Some n\<rparr>)]"

definition sendFrame :: "real \<Rightarrow> string \<Rightarrow> payload \<Rightarrow> channel \<Rightarrow> channel" where
  "sendFrame now t p c =
     (let n = frameSeq c t + 1; p' = stamp now n p; s = stats t c;
          c1 = note_convert t p' ((put_stats t (s\<lparr>offered := offered s + 1\<rparr>) c)\<lparr>frameSeq := (frameSeq c)(t := n)\<rparr>)
      in if t \<in> set (frameInflight c1)
         then let s1 = stats t c1;
                  c2 = (if framePending c1 t \<noteq> None then put_stats t (s1\<lparr>coalesced := coalesced s1 + 1\<rparr>) c1 else c1)
              in c2\<lparr>framePending := (framePending c2)(t \<mapsto> p')\<rparr>
         else postFrame now t p' (c1\<lparr>frameInflight := frameInflight c1 @ [t]\<rparr>))"

definition onFrameAck :: "real \<Rightarrow> string \<Rightarrow> channel \<Rightarrow> channel" where
  "onFrameAck now t c = (case framePending c t of
      Some p \<Rightarrow> postFrame now t p (c\<lparr>framePending := (framePending c)(t := None)\<rparr>)
    | None \<Rightarrow> c\<lparr>frameInflight := removeAll t (frameInflight c)\<rparr>)"

definition close_channel :: "channel \<Rightarrow> channel" where
  "close_channel c = c\<lparr>frameInflight := [], framePending := (\<lambda>_. None), pending := [],
     settled := settled c @ map (\<lambda>(i, m). (i, Inl ''Channel closed'')) (pending c), shut := True\<rparr>"

definition noHandler :: "string \<Rightarrow> string" where
  "noHandler m = ''No handler for \"'' @ m @ ''\"''"

text \<open>The synchronous part of \<open>dispatch\<close>: a handler that was called answers later.\<close>

fun dispatch :: "real \<Rightarrow> wire \<Rightarrow> channel \<Rightarrow> channel" where
  "dispatch now (WReq i m v) c = (if m \<in> set (handlers c) then c\<lparr>serving := serving c @ [(i, m, v)]\<rparr>
     else post (WRes i (Inl (noHandler m))) c)"
| "dispatch now (WRes i r) c = (if i \<in> fst ` set (pending c)
     then c\<lparr>pending := filter (\<lambda>(j, m). j \<noteq> i) (pending c), settled := settled c @ [(i, r)]\<rparr> else c)"
| "dispatch now (WEvt t v) c = c\<lparr>heard := heard c @ map (\<lambda>l. (t, l, v)) (listeners c t)\<rparr>"
| "dispatch now (WFrame t p) c = (let c1 = post (WFack t) c
     in c1\<lparr>received := received c1 @ [(t, p)], shown := shown c1 @ map (\<lambda>l. (t, l, p)) (frameListeners c1 t)\<rparr>)"
| "dispatch now (WFack t) c = onFrameAck now t c"
| "dispatch now (WInterest t) c = c\<lparr>frameInterest := List.insert t (frameInterest c), declared := declared c @ [t]\<rparr>"

text \<open>The rest of a request: the awaited handler returned or threw.\<close>

definition respond :: "nat \<Rightarrow> string + jsval \<Rightarrow> channel \<Rightarrow> channel" where
  "respond i r c = (if i \<in> fst ` set (serving c)
     then post (WRes i r) (c\<lparr>serving := filter (\<lambda>(j, x). j \<noteq> i) (serving c)\<rparr>) else c)"

section \<open>A link\<close>

text \<open>The two ends are \<open>True\<close> and \<open>False\<close>; what an end posts waits in its outbox for the other.\<close>

type_synonym link = "bool \<Rightarrow> channel"

datatype link_event =
    Request bool string jsval
  | Handle bool string
  | Listen bool string nat
  | Unlisten bool string nat
  | Emit bool string jsval
  | OnFrame bool string nat
  | OffFrame bool string nat
  | DeclareInterest bool string
  | SendFrame bool real string payload
  | Answer bool nat "string + jsval"
  | Deliver bool real
  | CloseEnd bool

definition new_link :: link where
  "new_link = (\<lambda>_. new_channel)"

definition on_end :: "bool \<Rightarrow> (channel \<Rightarrow> channel) \<Rightarrow> link \<Rightarrow> link" where
  "on_end e f l = l(e := f (l e))"

text \<open>\<open>Deliver e\<close>: the oldest message posted by end \<open>e\<close> reaches the other end.\<close>

fun link_step :: "link \<Rightarrow> link_event \<Rightarrow> link" where
  "link_step l (Request e m v) = on_end e (request m v) l"
| "link_step l (Handle e m) = on_end e (handle m) l"
| "link_step l (Listen e t i) = on_end e (listen t i) l"
| "link_step l (Unlisten e t i) = on_end e (unlisten t i) l"
| "link_step l (Emit e t v) = on_end e (emit t v) l"
| "link_step l (OnFrame e t i) = on_end e (onFrame t i) l"
| "link_step l (OffFrame e t i) = on_end e (offFrame t i) l"
| "link_step l (DeclareInterest e t) = on_end e (declareFrameInterest t) l"
| "link_step l (SendFrame e now t p) = on_end e (sendFrame now t p) l"
| "link_step l (Answer e i r) = on_end e (respond i r) l"
| "link_step l (Deliver e now) = (case outbox (l e) of [] \<Rightarrow> l
     | m # ms \<Rightarrow> let l' = on_end e (\<lambda>c. c\<lparr>outbox := ms\<rparr>) l
                in if shut (l' (\<not> e)) then l' else on_end (\<not> e) (dispatch now m) l')"
| "link_step l (CloseEnd e) = on_end e close_channel l"

section \<open>An invariant of the two ends\<close>

definition both_ends :: "(channel \<Rightarrow> channel \<Rightarrow> bool) \<Rightarrow> link \<Rightarrow> bool" where
  "both_ends R l \<longleftrightarrow> (\<forall>e. \<not> shut (l e) \<and> R (l e) (l (\<not> e)))"

fun stays_open :: "link_event \<Rightarrow> bool" where
  "stays_open (CloseEnd e) = False"
| "stays_open _ = True"

lemma both_endsD: "both_ends R l \<Longrightarrow> \<not> shut (l e)" "both_ends R l \<Longrightarrow> R (l e) (l (\<not> e))" "both_ends R l \<Longrightarrow> R (l (\<not> e)) (l e)"
proof -
  show "R (l (\<not> e)) (l e)" if "both_ends R l"
    using that unfolding both_ends_def by (cases e) (auto dest: spec [of _ "\<not> e"])
qed (simp_all add: both_ends_def)

lemma both_endsI:
  "\<not> shut (l e) \<Longrightarrow> \<not> shut (l (\<not> e)) \<Longrightarrow> R (l e) (l (\<not> e)) \<Longrightarrow> R (l (\<not> e)) (l e) \<Longrightarrow> both_ends R l"
  unfolding both_ends_def by (rule allI, rename_tac x, case_tac "x = e") auto

lemma post_fields [simp]:
  "framePending (post m c) = framePending c" "frameSeq (post m c) = frameSeq c" "frameStats (post m c) = frameStats c"
  "frameInflight (post m c) = frameInflight c" "received (post m c) = received c" "shut (post m c) = shut c"
  "pending (post m c) = pending c" "settled (post m c) = settled c" "serving (post m c) = serving c" "seq (post m c) = seq c"
  "\<not> shut c \<Longrightarrow> outbox (post m c) = outbox c @ [m]"
  by (simp_all add: post_def)

lemma note_convert_fields [simp]:
  "framePending (note_convert t p c) = framePending c" "frameSeq (note_convert t p c) = frameSeq c"
  "frameStats (note_convert t p c) = frameStats c" "frameInflight (note_convert t p c) = frameInflight c"
  "received (note_convert t p c) = received c" "outbox (note_convert t p c) = outbox c" "shut (note_convert t p c) = shut c"
  "pending (note_convert t p c) = pending c" "settled (note_convert t p c) = settled c"
  "serving (note_convert t p c) = serving c" "seq (note_convert t p c) = seq c"
  by (simp_all add: note_convert_def split: option.split)

lemma shut_ops [simp]:
  "shut (request m v c) = shut c" "shut (handle m c) = shut c" "shut (listen u i c) = shut c" "shut (unlisten u i c) = shut c"
  "shut (emit u v c) = shut c" "shut (onFrame u i c) = shut c" "shut (offFrame u i c) = shut c"
  "shut (declareFrameInterest u c) = shut c" "shut (respond k r c) = shut c" "shut (sendFrame now u p c) = shut c"
  "shut (dispatch now w c) = shut c"
  by (simp_all add: request_def handle_def listen_def unlisten_def emit_def onFrame_def offFrame_def
      declareFrameInterest_def respond_def sendFrame_def postFrame_def put_stats_def Let_def)
    (cases w; simp add: onFrameAck_def postFrame_def put_stats_def Let_def split: option.split)

text \<open>
  A relation between an end and its peer that only depends on a view of each, and that requests, answers,
  frames and deliveries keep, holds both ways in every history in which neither end closes.
\<close>

locale pair_invariant =
  fixes R :: "channel \<Rightarrow> channel \<Rightarrow> bool" and near :: "channel \<Rightarrow> 'a" and far :: "channel \<Rightarrow> 'b"
  assumes views: "near c' = near c \<Longrightarrow> far d' = far d \<Longrightarrow> R c' d' = R c d"
    and start: "R new_channel new_channel"
    and requests: "R c d \<Longrightarrow> \<not> shut c \<Longrightarrow> R (request m v c) d" "far (request m v c) = far c"
    and answers: "near (respond i r c) = near c" "R c d \<Longrightarrow> \<not> shut d \<Longrightarrow> R c (respond i r d)"
    and frames: "R c d \<Longrightarrow> \<not> shut c \<Longrightarrow> R (sendFrame now t p c) d" "\<not> shut c \<Longrightarrow> far (sendFrame now t p c) = far c"
    and registrations: "near (handle m c) = near c" "far (handle m c) = far c"
      "near (listen t k c) = near c" "far (listen t k c) = far c"
      "near (unlisten t k c) = near c" "far (unlisten t k c) = far c"
      "near (onFrame t k c) = near c" "far (onFrame t k c) = far c"
      "near (offFrame t k c) = near c" "far (offFrame t k c) = far c"
    and events: "near (emit t v c) = near c" "far (emit t v c) = far c"
      "near (declareFrameInterest t c) = near c" "far (declareFrameInterest t c) = far c"
    and delivered: "R c d \<Longrightarrow> \<not> shut c \<Longrightarrow> \<not> shut d \<Longrightarrow> outbox c = w # ms \<Longrightarrow>
        R (c\<lparr>outbox := ms\<rparr>) (dispatch now w d)"
      "R d c \<Longrightarrow> \<not> shut c \<Longrightarrow> \<not> shut d \<Longrightarrow> outbox c = w # ms \<Longrightarrow> R (dispatch now w d) (c\<lparr>outbox := ms\<rparr>)"
begin

lemma op_keeps:
  assumes "both_ends R l" "shut (f (l e)) = shut (l e)" "R (f (l e)) (l (\<not> e))" "R (l (\<not> e)) (f (l e))"
  shows "both_ends R (on_end e f l)"
  by (rule both_endsI [where e = e]) (use assms both_endsD [OF assms(1)] in \<open>simp_all add: on_end_def\<close>)

lemma near_keeps:
  assumes "both_ends R l" "shut (f (l e)) = shut (l e)" "R (f (l e)) (l (\<not> e))" "far (f (l e)) = far (l e)"
  shows "both_ends R (on_end e f l)"
proof (rule op_keeps)
  show "R (l (\<not> e)) (f (l e))" using views [OF refl assms(4)] both_endsD(3) [OF assms(1)] by simp
qed (rule assms)+

lemma far_keeps:
  assumes "both_ends R l" "shut (f (l e)) = shut (l e)" "near (f (l e)) = near (l e)" "R (l (\<not> e)) (f (l e))"
  shows "both_ends R (on_end e f l)"
proof (rule op_keeps)
  show "R (f (l e)) (l (\<not> e))" using views [OF assms(3) refl] both_endsD(2) [OF assms(1)] by simp
qed (rule assms)+

lemma quiet_keeps:
  assumes "both_ends R l" "shut (f (l e)) = shut (l e)" "near (f (l e)) = near (l e)" "far (f (l e)) = far (l e)"
  shows "both_ends R (on_end e f l)"
proof (rule near_keeps)
  show "R (f (l e)) (l (\<not> e))" using views [OF assms(3) refl] both_endsD(2) [OF assms(1)] by simp
qed (rule assms)+

lemma deliver_keeps:
  assumes ok: "both_ends R l" and o: "outbox (l e) = w # ms"
  shows "both_ends R (on_end (\<not> e) (dispatch now w) (on_end e (\<lambda>c. c\<lparr>outbox := ms\<rparr>) l))"
  by (rule both_endsI [where e = e])
    (use both_endsD [OF ok] delivered [OF _ _ _ o, of "l (\<not> e)"] in \<open>simp_all add: on_end_def\<close>)

lemma step_keeps:
  assumes ok: "both_ends R l" and ev: "stays_open ev"
  shows "both_ends R (link_step l ev)"
proof (cases ev)
  case (Deliver e now)
  show ?thesis
  proof (cases "outbox (l e)")
    case (Cons w ms)
    then show ?thesis using deliver_keeps [OF ok Cons] both_endsD(1) [OF ok] by (simp add: Deliver Let_def on_end_def)
  qed (simp add: Deliver ok)
qed (use ev both_endsD [OF ok] in \<open>auto intro: quiet_keeps [OF ok] near_keeps [OF ok] far_keeps [OF ok]
    simp: registrations events requests answers frames\<close>)

lemma open_run: "list_all stays_open es \<Longrightarrow> both_ends R (run link_step new_link es)"
proof (induction es rule: rev_induct)
  case Nil
  then show ?case by (simp add: both_ends_def new_link_def start) (simp add: new_channel_def)
qed (simp add: step_keeps)

end

section \<open>The frame gate\<close>

fun frames_of :: "string \<Rightarrow> wire list \<Rightarrow> nat list" where
  "frames_of t [] = []"
| "frames_of t (WFrame t' p # ms) = (if t' = t then [seq_of p] else []) @ frames_of t ms"
| "frames_of t (m # ms) = frames_of t ms"

fun acks_of :: "string \<Rightarrow> wire list \<Rightarrow> nat" where
  "acks_of t [] = 0"
| "acks_of t (WFack t' # ms) = (if t' = t then 1 else 0) + acks_of t ms"
| "acks_of t (m # ms) = acks_of t ms"

lemma views_append [simp]: "frames_of t (xs @ ys) = frames_of t xs @ frames_of t ys" "acks_of t (us @ vs) = acks_of t us + acks_of t vs"
  by (induction t xs rule: frames_of.induct; simp) (induction t us rule: acks_of.induct; simp)

definition got :: "string \<Rightarrow> channel \<Rightarrow> nat list" where
  "got t d = map (\<lambda>(t', p). seq_of p) (filter (\<lambda>(t', p). t' = t) (received d))"

definition held :: "string \<Rightarrow> channel \<Rightarrow> nat list" where
  "held t c = (case framePending c t of None \<Rightarrow> [] | Some p \<Rightarrow> [seq_of p])"

text \<open>What a topic's sender and receiver keep of it.\<close>

definition sender_view :: "string \<Rightarrow> channel \<Rightarrow> nat list \<times> nat list \<times> nat \<times> counters \<times> bool" where
  "sender_view t c = (frames_of t (outbox c), held t c, frameSeq c t, stats t c, t \<in> set (frameInflight c))"

definition receiver_view :: "string \<Rightarrow> channel \<Rightarrow> nat list \<times> nat" where
  "receiver_view t d = (got t d, acks_of t (outbox d))"

definition stream_ok :: "string \<Rightarrow> channel \<Rightarrow> channel \<Rightarrow> bool" where
  "stream_ok t c d \<longleftrightarrow>
     (let all = got t d @ frames_of t (outbox c) @ held t c
      in sorted_wrt (<) all \<and> (\<forall>x \<in> set all. x \<le> frameSeq c t) \<and> (if all = [] then frameSeq c t = 0 else last all = frameSeq c t)
       \<and> offered (stats t c) = frameSeq c t \<and> sent (stats t c) = length (got t d) + length (frames_of t (outbox c))
       \<and> coalesced (stats t c) + length all = frameSeq c t
       \<and> length (frames_of t (outbox c)) + acks_of t (outbox d) = (if t \<in> set (frameInflight c) then 1 else 0)
       \<and> (held t c \<noteq> [] \<longrightarrow> t \<in> set (frameInflight c)))"

lemma stream_ok_views:
  "sender_view t c' = sender_view t c \<Longrightarrow> receiver_view t d' = receiver_view t d \<Longrightarrow> stream_ok t c' d' = stream_ok t c d"
  by (simp add: stream_ok_def sender_view_def receiver_view_def)

lemmas view_defs = sender_view_def receiver_view_def held_def got_def stats_def

lemma stats_post [simp]: "stats t (post m c) = stats t c" "held t (post m c) = held t c" "got t (post m c) = got t c"
  by (simp_all add: view_defs)

text \<open>Everything but sending, delivering and acknowledging leaves both views alone.\<close>

lemma quiet_ops [simp]:
  "sender_view t (request m v c) = sender_view t c" "receiver_view t (request m v c) = receiver_view t c"
  "sender_view t (handle m c) = sender_view t c" "receiver_view t (handle m c) = receiver_view t c"
  "sender_view t (listen u i c) = sender_view t c" "receiver_view t (listen u i c) = receiver_view t c"
  "sender_view t (unlisten u i c) = sender_view t c" "receiver_view t (unlisten u i c) = receiver_view t c"
  "sender_view t (emit u v c) = sender_view t c" "receiver_view t (emit u v c) = receiver_view t c"
  "sender_view t (onFrame u i c) = sender_view t c" "receiver_view t (onFrame u i c) = receiver_view t c"
  "sender_view t (offFrame u i c) = sender_view t c" "receiver_view t (offFrame u i c) = receiver_view t c"
  "sender_view t (declareFrameInterest u c) = sender_view t c" "receiver_view t (declareFrameInterest u c) = receiver_view t c"
  "sender_view t (respond k r c) = sender_view t c" "receiver_view t (respond k r c) = receiver_view t c"
  by (simp_all add: view_defs request_def handle_def listen_def unlisten_def emit_def onFrame_def offFrame_def
      declareFrameInterest_def respond_def post_def Let_def)

lemma seq_of_stamp [simp]: "seq_of (stamp now n p) = n"
  by (cases "meta p") (simp_all add: stamp_def withFrameMeta_def seq_of_def merge_meta_def no_meta_def)

lemma seq_of_posted [simp]: "seq_of (p\<lparr>meta := map_option (\<lambda>m. m\<lparr>tPublish := x\<rparr>) (meta p)\<rparr>) = seq_of p"
  by (simp add: seq_of_def split: option.split)

lemma bytes_stamp [simp]: "bytes (stamp now n p) = bytes p"
  by (simp add: stamp_def withFrameMeta_def)

lemma postFrame_views:
  assumes "\<not> shut c"
  shows "sender_view t (postFrame now u p c) = (frames_of t (outbox c) @ (if u = t then [seq_of p] else []), held t c, frameSeq c t,
      (if u = t then (stats t c)\<lparr>sent := sent (stats t c) + 1,
         sent_bytes := sent_bytes (stats t c) + (case bytes p of None \<Rightarrow> 0 | Some b \<Rightarrow> length b)\<rparr> else stats t c),
      t \<in> set (frameInflight c))"
    "receiver_view t (postFrame now u p c) = receiver_view t c"
  using assms by (auto simp: postFrame_def view_defs put_stats_def post_def seq_of_def Let_def split: option.split)

lemma sendFrame_views:
  assumes "\<not> shut c"
  shows "receiver_view t (sendFrame now u p c) = receiver_view t c"
    "u \<noteq> t \<Longrightarrow> sender_view t (sendFrame now u p c) = sender_view t c"
    "t \<in> set (frameInflight c) \<Longrightarrow> sender_view t (sendFrame now t p c) = (frames_of t (outbox c), [frameSeq c t + 1], frameSeq c t + 1,
       (stats t c)\<lparr>offered := offered (stats t c) + 1, coalesced := coalesced (stats t c) + length (held t c)\<rparr>, True)"
    "t \<notin> set (frameInflight c) \<Longrightarrow> sender_view t (sendFrame now t p c)
       = (frames_of t (outbox c) @ [frameSeq c t + 1], held t c, frameSeq c t + 1,
          (stats t c)\<lparr>offered := offered (stats t c) + 1, sent := sent (stats t c) + 1,
            sent_bytes := sent_bytes (stats t c) + (case bytes p of None \<Rightarrow> 0 | Some b \<Rightarrow> length b)\<rparr>, True)"
  using assms
  by (auto simp: sendFrame_def postFrame_def view_defs put_stats_def post_def Let_def seq_of_posted split: option.split)

lemma stream_send:
  assumes "stream_ok t c d" "\<not> shut c"
  shows "stream_ok t (sendFrame now u p c) d"
proof (cases "u = t")
  case False
  then show ?thesis using sendFrame_views(2) [OF assms(2)] assms(1) stream_ok_views by metis
next
  case True
  show ?thesis
  proof (cases "t \<in> set (frameInflight c)")
    case i: True
    show ?thesis
      using sendFrame_views(3) [OF assms(2) i, of now p] assms(1) i True
      by (auto simp: stream_ok_def sender_view_def Let_def sorted_wrt_append less_Suc_eq_le le_SucI split: if_splits)
  next
    case i: False
    have "held t c = []" using assms(1) i by (auto simp: stream_ok_def Let_def)
    then show ?thesis
      using sendFrame_views(4) [OF assms(2) i, of now p] assms(1) i True
      by (auto simp: stream_ok_def sender_view_def Let_def sorted_wrt_append less_Suc_eq_le le_SucI split: if_splits)
  qed
qed

lemma stream_ack:
  assumes ok: "stream_ok t c d" and c: "\<not> shut c" "\<not> shut d" and o: "outbox d = WFack u # ms"
  shows "stream_ok t (onFrameAck now u c) (d\<lparr>outbox := ms\<rparr>)"
proof (cases "u = t")
  case False
  have "sender_view t (onFrameAck now u c) = sender_view t c"
    using c False by (auto simp: onFrameAck_def postFrame_views split: option.split) (auto simp: view_defs)
  then show ?thesis using ok False o by (subst stream_ok_views [of t _ c _ d]) (simp_all add: receiver_view_def got_def)
next
  case True
  have r: "got t (d\<lparr>outbox := ms\<rparr>) = got t d" "acks_of t (outbox d) = Suc (acks_of t ms)"
    using o True by (simp_all add: got_def)
  have i: "t \<in> set (frameInflight c)" "frames_of t (outbox c) = []" "acks_of t ms = 0"
    using ok r by (auto simp: stream_ok_def Let_def split: if_splits)
  show ?thesis
  proof (cases "framePending c t")
    case None
    have "sender_view t (onFrameAck now t c) = ([], [], frameSeq c t, stats t c, False)"
      using None i by (simp add: onFrameAck_def view_defs)
    then show ?thesis using ok r i True None by (auto simp: stream_ok_def sender_view_def held_def Let_def)
  next
    case (Some p)
    have "sender_view t (onFrameAck now t c) = ([seq_of p], [], frameSeq c t,
        (stats t c)\<lparr>sent := sent (stats t c) + 1,
           sent_bytes := sent_bytes (stats t c) + (case bytes p of None \<Rightarrow> 0 | Some b \<Rightarrow> length b)\<rparr>, True)"
      using Some i c by (simp add: onFrameAck_def postFrame_views) (simp add: view_defs)
    then show ?thesis using ok r i True Some by (auto simp: stream_ok_def sender_view_def held_def Let_def)
  qed
qed

lemma stream_frame:
  assumes ok: "stream_ok t c d" and d: "\<not> shut d" and o: "outbox c = WFrame u p # ms"
  shows "stream_ok t (c\<lparr>outbox := ms\<rparr>) (dispatch now (WFrame u p) d)"
proof -
  have s: "sender_view t (c\<lparr>outbox := ms\<rparr>) = (frames_of t ms, held t c, frameSeq c t, stats t c, t \<in> set (frameInflight c))"
    by (simp add: view_defs)
  have r: "got t (dispatch now (WFrame u p) d) = got t d @ (if u = t then [seq_of p] else [])"
    "acks_of t (outbox (dispatch now (WFrame u p) d)) = acks_of t (outbox d) + (if u = t then 1 else 0)"
    using d by (simp_all add: got_def Let_def)
  show ?thesis
    using ok s r o by (auto simp: stream_ok_def sender_view_def Let_def split: if_splits)
qed

text \<open>The other messages leave the topic alone on both sides.\<close>

lemma other_messages:
  assumes "\<forall>u p. m \<noteq> WFrame u p" "\<forall>u. m \<noteq> WFack u"
  shows "sender_view t (dispatch now m d) = sender_view t d" "receiver_view t (dispatch now m d) = receiver_view t d"
    "outbox c = m # ms \<Longrightarrow> sender_view t (c\<lparr>outbox := ms\<rparr>) = sender_view t c"
    "outbox c = m # ms \<Longrightarrow> receiver_view t (c\<lparr>outbox := ms\<rparr>) = receiver_view t c"
  using assms by (cases m; auto simp: view_defs post_def)+

lemma frame_views_apart:
  "\<not> shut d \<Longrightarrow> sender_view t (dispatch now (WFrame u p) d) = sender_view t d"
  "receiver_view t (c\<lparr>outbox := ms\<rparr>) = (got t c, acks_of t ms)"
  "\<not> shut c \<Longrightarrow> receiver_view t (onFrameAck now u c) = receiver_view t c"
  "sender_view t (d\<lparr>outbox := ms\<rparr>) = (frames_of t ms, held t d, frameSeq d t, stats t d, t \<in> set (frameInflight d))"
  by (auto simp: onFrameAck_def postFrame_views split: option.split) (auto simp: view_defs Let_def)

lemma stream_delivered:
  assumes st: "stream_ok t c d" and sh: "\<not> shut c" "\<not> shut d" and o: "outbox c = w # ms"
  shows "stream_ok t (c\<lparr>outbox := ms\<rparr>) (dispatch now w d)"
proof -
  consider (frame) u p where "w = WFrame u p" | (ack) u where "w = WFack u"
    | (other) "\<forall>u p. w \<noteq> WFrame u p" "\<forall>u. w \<noteq> WFack u" by (cases w) auto
  then show ?thesis
  proof cases
    case frame
    then show ?thesis using stream_frame [OF st sh(2), of u p ms now] o by simp
  next
    case ack
    have "stream_ok t (c\<lparr>outbox := ms\<rparr>) (dispatch now w d) = stream_ok t c d"
      by (rule stream_ok_views) (use sh ack o in \<open>simp_all add: frame_views_apart\<close>, simp add: sender_view_def)
    then show ?thesis using st by simp
  next
    case other
    show ?thesis using st stream_ok_views [OF other_messages(3) [OF other o] other_messages(2) [OF other]] by simp
  qed
qed

lemma stream_delivered_back:
  assumes st: "stream_ok t d c" and sh: "\<not> shut c" "\<not> shut d" and o: "outbox c = w # ms"
  shows "stream_ok t (dispatch now w d) (c\<lparr>outbox := ms\<rparr>)"
proof -
  consider (frame) u p where "w = WFrame u p" | (ack) u where "w = WFack u"
    | (other) "\<forall>u p. w \<noteq> WFrame u p" "\<forall>u. w \<noteq> WFack u" by (cases w) auto
  then show ?thesis
  proof cases
    case frame
    have "stream_ok t (dispatch now w d) (c\<lparr>outbox := ms\<rparr>) = stream_ok t d c"
      by (rule stream_ok_views) (use sh frame o in \<open>simp_all only: frame_views_apart not_False_eq_True\<close>, simp add: receiver_view_def)
    then show ?thesis using st by simp
  next
    case ack
    then show ?thesis using stream_ack [OF st sh(2,1), of u ms now] o by simp
  next
    case other
    show ?thesis using st stream_ok_views [OF other_messages(1) [OF other] other_messages(4) [OF other o]] by simp
  qed
qed

interpretation gate: pair_invariant "\<lambda>c d. \<forall>t. stream_ok t c d" "\<lambda>c t. sender_view t c" "\<lambda>d t. receiver_view t d"
proof unfold_locales
  show "(\<forall>t. stream_ok t c' d') = (\<forall>t. stream_ok t c d)"
    if "(\<lambda>t. sender_view t c') = (\<lambda>t. sender_view t c)" "(\<lambda>t. receiver_view t d') = (\<lambda>t. receiver_view t d)" for c' c d' d
    using fun_cong [OF that(1)] fun_cong [OF that(2)] stream_ok_views by metis
  show "\<forall>t. stream_ok t (request m v c) d" if "\<forall>t. stream_ok t c d" for c d m v
    using that stream_ok_views [OF quiet_ops(1) refl] by simp
  show "\<forall>t. stream_ok t c (respond i r d)" if "\<forall>t. stream_ok t c d" for c d i r
    using that stream_ok_views [OF refl quiet_ops(18)] by simp
  show "\<forall>t. stream_ok t new_channel new_channel"
    by (simp add: stream_ok_def new_channel_def got_def held_def stats_def no_counters_def)
qed (simp_all add: stream_send sendFrame_views(1) stream_delivered stream_delivered_back)

text \<open>
  C6. While both ends are open, whatever is sent and however slowly messages are delivered: the frames
  of a topic arrive in the order they were offered, at most one of them is under way, every frame
  offered is delivered, under way, held back or counted as coalesced, and once the last ack is back the
  newest frame offered is the last one received.
\<close>

theorem slow_receiver_gets_newest_frame:
  fixes es
  defines "l \<equiv> run link_step new_link es"
  assumes "list_all stays_open es"
  shows "sorted_wrt (<) (got t (l (\<not> e))) \<and> length (frames_of t (outbox (l e))) \<le> 1
    \<and> offered (stats t (l e)) = length (got t (l (\<not> e))) + length (frames_of t (outbox (l e))) + length (held t (l e))
        + coalesced (stats t (l e))
    \<and> (t \<in> set (frameInflight (l e)) \<or> offered (stats t (l e)) = 0 \<or> last (got t (l (\<not> e))) = offered (stats t (l e)))"
proof -
  have "both_ends (\<lambda>c d. \<forall>t. stream_ok t c d) l" unfolding l_def by (rule gate.open_run [OF assms(2)])
  from both_endsD(2) [OF this, of e] have "stream_ok t (l e) (l (\<not> e))" by simp
  then show ?thesis
    by (auto simp: stream_ok_def Let_def sorted_wrt_append split: if_splits)
qed

definition plain_frame :: payload where
  "plain_frame = \<lparr>bytes = None, shape = [1, 1], channels = 1, meta = None\<rparr>"

lemma slow_receiver_gets_newest_frame_witness:
  "let l = run link_step new_link [SendFrame True 0 ''t'' plain_frame, SendFrame True 1 ''t'' plain_frame,
       SendFrame True 2 ''t'' plain_frame, Deliver True 3, Deliver False 4, Deliver True 5, Deliver False 6]
   in got ''t'' (l False) = [1, 3] \<and> last (got ''t'' (l (\<not> True))) = offered (stats ''t'' (l True))"
proof -
  let ?es = "[SendFrame True 0 ''t'' plain_frame, SendFrame True 1 ''t'' plain_frame,
       SendFrame True 2 ''t'' plain_frame, Deliver True 3, Deliver False 4, Deliver True 5, Deliver False 6]"
  let ?l = "run link_step new_link ?es"
  have g: "got ''t'' (?l False) = [1, 3] \<and> frameInflight (?l True) = [] \<and> offered (stats ''t'' (?l True)) \<noteq> 0"
    by code_simp
  have "list_all stays_open ?es" by simp
  from slow_receiver_gets_newest_frame [OF this, of "''t''" True] g show ?thesis unfolding Let_def by auto
qed

section \<open>Requests\<close>

fun req_ids :: "wire list \<Rightarrow> nat list" where
  "req_ids [] = []"
| "req_ids (WReq i m v # ms) = i # req_ids ms"
| "req_ids (m # ms) = req_ids ms"

fun res_ids :: "wire list \<Rightarrow> nat list" where
  "res_ids [] = []"
| "res_ids (WRes i r # ms) = i # res_ids ms"
| "res_ids (m # ms) = res_ids ms"

lemma id_lists_append [simp]: "req_ids (xs @ ys) = req_ids xs @ req_ids ys" "res_ids (us @ vs) = res_ids us @ res_ids vs"
  by (induction xs rule: req_ids.induct; simp) (induction us rule: res_ids.induct; simp)

text \<open>What a caller and its peer keep of the calls.\<close>

definition calls_ok :: "channel \<Rightarrow> channel \<Rightarrow> bool" where
  "calls_ok c d \<longleftrightarrow> mset (map fst (pending c)) = mset (req_ids (outbox c)) + mset (map fst (serving d)) + mset (res_ids (outbox d))
     \<and> distinct (map fst (pending c)) \<and> (\<forall>i \<in> set (map fst (pending c)). i \<le> seq c)"

definition caller_view :: "channel \<Rightarrow> nat list \<times> (nat \<times> string) list \<times> nat" where
  "caller_view c = (req_ids (outbox c), pending c, seq c)"

definition callee_view :: "channel \<Rightarrow> nat list \<times> nat list" where
  "callee_view d = (map fst (serving d), res_ids (outbox d))"

lemmas call_views = caller_view_def callee_view_def

lemma calls_ok_views:
  "caller_view c' = caller_view c \<Longrightarrow> callee_view d' = callee_view d \<Longrightarrow> calls_ok c' d' = calls_ok c d"
  by (simp add: calls_ok_def call_views)

lemma quiet_calls [simp]:
  "caller_view (handle m c) = caller_view c" "callee_view (handle m c) = callee_view c"
  "caller_view (listen u i c) = caller_view c" "callee_view (listen u i c) = callee_view c"
  "caller_view (unlisten u i c) = caller_view c" "callee_view (unlisten u i c) = callee_view c"
  "caller_view (emit u v c) = caller_view c" "callee_view (emit u v c) = callee_view c"
  "caller_view (onFrame u i c) = caller_view c" "callee_view (onFrame u i c) = callee_view c"
  "caller_view (offFrame u i c) = caller_view c" "callee_view (offFrame u i c) = callee_view c"
  "caller_view (declareFrameInterest u c) = caller_view c" "callee_view (declareFrameInterest u c) = callee_view c"
  "caller_view (sendFrame now u p c) = caller_view c" "callee_view (sendFrame now u p c) = callee_view c"
  "caller_view (onFrameAck now u c) = caller_view c" "callee_view (onFrameAck now u c) = callee_view c"
  "callee_view (request m v c) = callee_view c" "caller_view (respond k r c) = caller_view c"
  by (simp_all add: call_views request_def handle_def listen_def unlisten_def emit_def onFrame_def offFrame_def
      declareFrameInterest_def respond_def post_def sendFrame_def onFrameAck_def postFrame_def put_stats_def Let_def
      split: option.split)

lemma calls_request:
  assumes "calls_ok c d" "\<not> shut c"
  shows "calls_ok (request m v c) d"
proof -
  have "seq c + 1 \<notin> set (map fst (pending c))" using assms(1) by (force simp: calls_ok_def)
  then show ?thesis using assms by (auto simp: calls_ok_def request_def Let_def post_def le_SucI)
qed

lemma drop_id:
  "distinct (map fst xs) \<Longrightarrow> i \<in> fst ` set xs \<Longrightarrow>
   mset (map fst xs) = add_mset i (mset (map fst (filter (\<lambda>(j, x). j \<noteq> i) xs)))"
proof (induction xs)
  case (Cons x xs)
  show ?case
  proof (cases "fst x = i")
    case True
    with Cons.prems(1) have "filter (\<lambda>(j, y). j \<noteq> i) xs = xs"
      by (intro filter_True) (auto simp: rev_image_eqI)
    then show ?thesis using True by (cases x) (simp del: mset_filter)
  next
    case False
    then show ?thesis using Cons by (cases x) (auto simp del: mset_filter)
  qed
qed simp

lemma calls_respond:
  assumes "calls_ok c d" "\<not> shut d"
  shows "calls_ok c (respond i r d)"
proof (cases "i \<in> fst ` set (serving d)")
  case True
  have "distinct (map fst (serving d))"
    using assms(1) by (metis calls_ok_def distinct_append mset_append mset_eq_imp_distinct_iff)
  note ids = drop_id [OF this True]
  show ?thesis using assms True ids by (simp add: calls_ok_def respond_def post_def)
qed (use assms in \<open>simp add: respond_def\<close>)

text \<open>The delivery of each message that matters to a call, and of those that do not.\<close>

lemma calls_req_delivered:
  assumes "calls_ok c d" "outbox c = WReq i m v # ms" "\<not> shut d"
  shows "calls_ok (c\<lparr>outbox := ms\<rparr>) (dispatch now (WReq i m v) d)"
  using assms by (simp add: calls_ok_def post_def)

lemma calls_res_delivered:
  assumes ok: "calls_ok c d" and o: "outbox d = WRes i r # ms"
  shows "calls_ok (dispatch now (WRes i r) c) (d\<lparr>outbox := ms\<rparr>)"
proof -
  have "i \<in># mset (map fst (pending c))" using ok o unfolding calls_ok_def by simp
  then have i: "i \<in> fst ` set (pending c)" by simp
  have "distinct (map fst (pending c))" using ok by (simp add: calls_ok_def)
  then have "distinct (map fst (filter (\<lambda>(j, x). j \<noteq> i) (pending c)))" by (rule distinct_map_filter)
  with ok o i drop_id [of "pending c" i] show ?thesis by (auto simp: calls_ok_def)
qed

lemma no_call:
  "(\<forall>i m v. w \<noteq> WReq i m v) \<Longrightarrow> callee_view (dispatch now w d) = callee_view d"
  "(\<forall>i r. w \<noteq> WRes i r) \<Longrightarrow> caller_view (dispatch now w d) = caller_view d"
  "outbox c = w # ms \<Longrightarrow> (\<forall>i m v. w \<noteq> WReq i m v) \<Longrightarrow> caller_view (c\<lparr>outbox := ms\<rparr>) = caller_view c"
  "outbox c = w # ms \<Longrightarrow> (\<forall>i r. w \<noteq> WRes i r) \<Longrightarrow> callee_view (c\<lparr>outbox := ms\<rparr>) = callee_view c"
  by (cases w; simp add: quiet_calls; simp add: call_views post_def Let_def)+

interpretation calls: pair_invariant calls_ok caller_view callee_view
proof unfold_locales
  show "calls_ok (c\<lparr>outbox := ms\<rparr>) (dispatch now w d)"
    if "calls_ok c d" "\<not> shut c" "\<not> shut d" "outbox c = w # ms" for c d w ms now
  proof (cases "\<exists>i m v. w = WReq i m v")
    case True
    then show ?thesis using calls_req_delivered that by blast
  next
    case False
    then show ?thesis using that(1) calls_ok_views [OF no_call(3) [OF that(4)] no_call(1)] by simp
  qed
  show "calls_ok (dispatch now w d) (c\<lparr>outbox := ms\<rparr>)"
    if "calls_ok d c" "\<not> shut c" "\<not> shut d" "outbox c = w # ms" for c d w ms now
  proof (cases "\<exists>i r. w = WRes i r")
    case True
    then show ?thesis using calls_res_delivered that by blast
  next
    case False
    then show ?thesis using that(1) calls_ok_views [OF no_call(2) no_call(4) [OF that(4)]] by simp
  qed
  show "calls_ok (sendFrame now t p c) d" if "calls_ok c d" for c d now t p
    using that calls_ok_views [OF quiet_calls(15) refl] by simp
  show "calls_ok new_channel new_channel" by (simp add: calls_ok_def new_channel_def)
  show "calls_ok c' d' = calls_ok c d" if "caller_view c' = caller_view c" "callee_view d' = callee_view d" for c c' d d'
    using that by (rule calls_ok_views)
qed (simp_all add: calls_request calls_respond)

text \<open>Every id handed out is awaited or settled, and settled once, in every history.\<close>

definition ids_ok :: "channel \<Rightarrow> bool" where
  "ids_ok c \<longleftrightarrow> distinct (map fst (settled c) @ map fst (pending c))
     \<and> set (map fst (settled c) @ map fst (pending c)) = {1..seq c}"

lemma ids_fresh:
  assumes "ids_ok c"
  shows "seq c + 1 \<notin> set (map fst (settled c))" "seq c + 1 \<notin> set (map fst (pending c))"
proof -
  have "seq c + 1 \<notin> set (map fst (settled c) @ map fst (pending c))"
    using assms unfolding ids_ok_def by (metis atLeastAtMost_iff not_add_less1 not_le less_add_one)
  then show "seq c + 1 \<notin> set (map fst (settled c))" "seq c + 1 \<notin> set (map fst (pending c))"
    by simp_all
qed

lemma ids_request:
  assumes "ids_ok c"
  shows "ids_ok (request m v c)"
proof -
  have "{1..seq c + 1} = insert (seq c + 1) {1..seq c}" by auto
  then show ?thesis
    using assms ids_fresh [OF assms] by (simp add: ids_ok_def request_def Let_def)
qed

lemma ids_close: "ids_ok c \<Longrightarrow> ids_ok (close_channel c)"
  by (simp add: ids_ok_def close_channel_def comp_def case_prod_beta)

lemma ids_settle:
  assumes "ids_ok c" "i \<in> fst ` set (pending c)"
  shows "ids_ok (c\<lparr>pending := filter (\<lambda>(j, m). j \<noteq> i) (pending c), settled := settled c @ [(i, r)]\<rparr>)"
proof -
  have "set (map fst (filter (\<lambda>(j, m). j \<noteq> i) (pending c))) = set (map fst (pending c)) - {i}"
    by (auto simp: image_iff)
  moreover have "distinct (map fst (filter (\<lambda>(j, m). j \<noteq> i) (pending c)))"
    using assms(1) by (simp add: ids_ok_def distinct_map_filter)
  moreover have "i \<in> set (map fst (pending c))" using assms(2) by simp
  ultimately show ?thesis using assms(1) by (auto simp: ids_ok_def simp del: set_map)
qed

lemma ids_others [simp]:
  "ids_ok (handle m c) = ids_ok c" "ids_ok (listen u i c) = ids_ok c" "ids_ok (unlisten u i c) = ids_ok c"
  "ids_ok (emit u v c) = ids_ok c" "ids_ok (onFrame u i c) = ids_ok c" "ids_ok (offFrame u i c) = ids_ok c"
  "ids_ok (declareFrameInterest u c) = ids_ok c" "ids_ok (respond k r c) = ids_ok c"
  "ids_ok (sendFrame now u p c) = ids_ok c" "ids_ok (onFrameAck now u c) = ids_ok c" "ids_ok (c\<lparr>outbox := ms\<rparr>) = ids_ok c"
  by (simp_all add: ids_ok_def handle_def listen_def unlisten_def emit_def onFrame_def offFrame_def declareFrameInterest_def
      respond_def sendFrame_def onFrameAck_def postFrame_def put_stats_def Let_def split: option.split)

lemma ids_posted:
  "ids_ok (post w c) = ids_ok c" "ids_ok (c\<lparr>serving := x\<rparr>) = ids_ok c" "ids_ok (c\<lparr>heard := y\<rparr>) = ids_ok c"
  "ids_ok (c\<lparr>received := r, shown := sh\<rparr>) = ids_ok c" "ids_ok (c\<lparr>frameInterest := u, declared := z\<rparr>) = ids_ok c"
  by (simp_all add: ids_ok_def)

lemma ids_dispatch: "ids_ok c \<Longrightarrow> ids_ok (dispatch now w c)"
proof (cases w)
  case (WRes i r)
  then show "ids_ok c \<Longrightarrow> ids_ok (dispatch now w c)" using ids_settle [of c i r] by simp
qed (simp_all add: Let_def ids_posted)

interpretation ids: started_machine link_step "\<lambda>l. \<forall>e. ids_ok (l e)" new_link
proof unfold_locales
  show "\<forall>e. ids_ok (link_step l ev e)" if ok: "\<forall>e. ids_ok (l e)" for l ev
    using ok by (cases ev) (auto simp: on_end_def ids_request ids_close ids_dispatch Let_def split: list.split)
qed (simp add: new_link_def new_channel_def ids_ok_def)

lemma no_request_settles_twice: "distinct (map fst (settled (run link_step new_link es e)))"
  using ids.reachable_inv [of es] by (simp add: ids_ok_def)

text \<open>
  C15. While both ends stay open, when no message of theirs is under way and no handler of the callee
  runs, every request the caller has issued has been settled, and settled once.
\<close>

theorem requests_settle_exactly_once:
  fixes es
  defines "l \<equiv> run link_step new_link es"
  assumes "list_all stays_open es" "outbox (l e) = []" "outbox (l (\<not> e)) = []" "serving (l (\<not> e)) = []"
  shows "distinct (map fst (settled (l e))) \<and> set (map fst (settled (l e))) = {1..seq (l e)}"
proof -
  have "ids_ok (l e)" unfolding l_def using ids.reachable_inv by simp
  moreover have "pending (l e) = []"
    using both_endsD(2) [OF calls.open_run [OF assms(2)], of e] assms(3-5) by (simp add: calls_ok_def l_def)
  ultimately show ?thesis by (simp add: ids_ok_def)
qed

lemma requests_settle_exactly_once_witness:
  "let l = run link_step new_link [Handle False ''m'', Request True ''m'' JNull, Request True ''n'' JNull,
      Deliver True 0, Deliver True 0, Answer False 1 (Inr JNull), Deliver False 0, Deliver False 0]
   in distinct (map fst (settled (l True))) \<and> set (map fst (settled (l True))) = {1..2}"
proof -
  let ?es = "[Handle False ''m'', Request True ''m'' JNull, Request True ''n'' JNull,
      Deliver True 0, Deliver True 0, Answer False 1 (Inr JNull), Deliver False 0, Deliver False 0]"
  let ?l = "run link_step new_link ?es"
  have "list_all stays_open ?es" by simp
  moreover have "outbox (?l True) = [] \<and> outbox (?l False) = [] \<and> serving (?l False) = [] \<and> seq (?l True) = 2" by code_simp
  ultimately show ?thesis
    using requests_settle_exactly_once [of ?es True] unfolding Let_def by auto
qed

text \<open>
  A request issued on a channel that has been closed is never settled unless the channel is closed
  again, although \<open>close\<close> rejects what was pending so that no caller hangs.
\<close>

theorem request_after_close_hangs:
  assumes "shut (l e)" "ids_ok (l e)" "\<forall>ev \<in> set es. ev \<noteq> CloseEnd e"
  shows "(seq (l e) + 1, m) \<in> set (pending (run link_step l (Request e m v # es) e))
    \<and> seq (l e) + 1 \<notin> fst ` set (settled (run link_step l (Request e m v # es) e))"
proof -
  let ?i = "seq (l e) + 1"
  let ?inv = "\<lambda>l. shut (l e) \<and> (?i, m) \<in> set (pending (l e)) \<and> ?i \<notin> fst ` set (settled (l e))"
  have step: "?inv (link_step l' ev)" if inv: "?inv l'" and ev: "ev \<noteq> CloseEnd e" for l' ev
  proof (cases ev)
    case (Deliver e' now)
    then show ?thesis using inv by (cases "e' = e") (auto simp: on_end_def Let_def split: list.split)
  next
    case (SendFrame e' now t p)
    then show ?thesis using inv by (auto simp: on_end_def sendFrame_def postFrame_def put_stats_def Let_def)
  qed (use inv ev in \<open>auto simp: on_end_def handle_def listen_def unlisten_def emit_def onFrame_def offFrame_def
      declareFrameInterest_def respond_def request_def close_channel_def Let_def\<close>)
  have "?i \<notin> fst ` set (settled (l e))" using ids_fresh(1) [OF assms(2)] by simp
  then have "?inv (link_step l (Request e m v))" using assms(1) by (simp add: on_end_def request_def Let_def)
  then have "?inv (run link_step (link_step l (Request e m v)) es)"
    using assms(3)
  proof (induction es rule: rev_induct)
    case (snoc ev es)
    then show ?case using step [of _ ev] by simp
  qed simp
  then show ?thesis by simp
qed

lemma request_after_close_hangs_witness:
  "(1, ''m'') \<in> set (pending (run link_step new_link [CloseEnd True, Request True ''m'' JNull, Deliver True 0, Deliver False 0] True))
   \<and> ids_ok (link_step new_link (CloseEnd True) True)"
proof -
  let ?l = "link_step new_link (CloseEnd True)"
  have s: "shut (?l True)" "seq (?l True) = 0" "ids_ok (?l True)"
    by (simp_all add: on_end_def close_channel_def new_link_def new_channel_def ids_ok_def)
  have "(1, ''m'') \<in> set (pending (run link_step ?l [Request True ''m'' JNull, Deliver True 0, Deliver False 0] True))"
    using request_after_close_hangs [where l = ?l and e = True, OF s(1,3), of "[Deliver True 0, Deliver False 0]" "''m''" JNull] s(2) by simp
  then show ?thesis using s(3) by simp
qed

end
