(* ===== verification/Sessions.thy ===== *)
theory Sessions
  imports JsValue
begin

text \<open>
  One orchestrator session and its windows: the server side of \<open>app/orchestrator/runtime.ts\<close> (class
  \<open>ServerSession\<close> and the part of \<open>Hub\<close> that routes to it), the spin-up progress of
  \<open>app/lib/orchestrator/progress.ts\<close>, and \<open>useSession\<close> of \<open>app/lib/orchestrator/client.ts\<close>, whose
  reactive refs are the views of a window. Messages travel in a FIFO each way (the matter of
  \<open>Channel\<close>). The activation hooks are recorded, what they do are later events of the history. The
  lemmas show that hooks alternate, that a stale progress handle is inert, that a window with one view
  mirrors what the server owns, and three ways in which a view is left behind.
\<close>

section \<open>Progress\<close>

datatype progress_state = Pending | Active | Done

record progress_item =
  item_id :: string
  item_label :: string
  item_state :: progress_state

definition pendingList :: "(string \<times> string) list \<Rightarrow> progress_item list" where
  "pendingList steps = map (\<lambda>(i, l). \<lparr>item_id = i, item_label = l, item_state = Pending\<rparr>) steps"

definition withStepState :: "progress_item list \<Rightarrow> string \<Rightarrow> progress_state \<Rightarrow> progress_item list" where
  "withStepState items i st = map (\<lambda>it. if item_id it = i then it\<lparr>item_state := st\<rparr> else it) items"

section \<open>State\<close>

datatype server_evt =
    SState string jsval
  | STelemetry "jsval table"
  | SStatus "string option" "progress_item list option"
  | SFrame string nat

datatype client_evt = CSub bool | CUnsub bool | CSet string jsval | CInterest string

datatype hook = Activated | Idled

record contract =
  c_state :: "jsval table"
  c_telemetry :: "jsval table"

record session =
  state :: "jsval table"
  telemetryDefaults :: "jsval table"
  telemetrySnapshot :: "jsval table"
  error :: "string option"
  progress :: "progress_item list option"
  monitors :: "progress_item list list"
  activeMonitor :: "nat option"
  channels :: "nat list"
  subscribers :: "nat list"
  activeSubscribers :: "nat list"
  frameCache :: "nat table"
  activatedAt :: bool
  hooks :: "hook list"
  watched :: "(string \<times> jsval) list"

record view =
  v_id :: nat
  v_passive :: bool
  v_state :: "jsval table"
  v_telemetry :: "jsval table"
  v_error :: "string option"
  v_progress :: "progress_item list option"

record window =
  views :: "view list"
  to_server :: "client_evt list"
  from_server :: "server_evt list"
  interest :: "string list"
  frames :: "(string \<times> nat) list"

record hub =
  session :: session
  windows :: "nat \<Rightarrow> window"

definition new_session :: "contract \<Rightarrow> session" where
  "new_session c = \<lparr>state = c_state c, telemetryDefaults = c_telemetry c, telemetrySnapshot = c_telemetry c,
     error = None, progress = None, monitors = [], activeMonitor = None, channels = [], subscribers = [],
     activeSubscribers = [], frameCache = [], activatedAt = False, hooks = [], watched = []\<rparr>"

definition new_window :: window where
  "new_window = \<lparr>views = [], to_server = [], from_server = [], interest = [], frames = []\<rparr>"

definition new_hub :: "contract \<Rightarrow> hub" where
  "new_hub c = \<lparr>session = new_session c, windows = (\<lambda>_. new_window)\<rparr>"

definition on_session :: "(session \<Rightarrow> session) \<Rightarrow> hub \<Rightarrow> hub" where
  "on_session f h = h\<lparr>session := f (session h)\<rparr>"

definition on_window :: "nat \<Rightarrow> (window \<Rightarrow> window) \<Rightarrow> hub \<Rightarrow> hub" where
  "on_window w f h = h\<lparr>windows := (windows h)(w := f (windows h w))\<rparr>"

section \<open>The server\<close>

definition emit :: "server_evt \<Rightarrow> nat \<Rightarrow> hub \<Rightarrow> hub" where
  "emit m w h = on_window w (\<lambda>x. x\<lparr>from_server := from_server x @ [m]\<rparr>) h"

definition broadcast :: "server_evt \<Rightarrow> hub \<Rightarrow> hub" where
  "broadcast m h = fold (emit m) (subscribers (session h)) h"

definition setState :: "string \<Rightarrow> jsval \<Rightarrow> hub \<Rightarrow> hub" where
  "setState k v h = broadcast (SState k v) (on_session (\<lambda>s. s\<lparr>state := AList.update k v (state s)\<rparr>) h)"

definition telemetry :: "jsval table \<Rightarrow> hub \<Rightarrow> hub" where
  "telemetry patch h = broadcast (STelemetry patch)
     (on_session (\<lambda>s. s\<lparr>telemetrySnapshot := assign_all (telemetrySnapshot s) patch\<rparr>) h)"

definition resetTelemetry :: "string list option \<Rightarrow> hub \<Rightarrow> hub" where
  "resetTelemetry keys h = (let ds = telemetryDefaults (session h)
     in telemetry (assign_all [] (map (\<lambda>k. (k, case map_of ds k of Some v \<Rightarrow> v | None \<Rightarrow> JUndef))
          (case keys of Some ks \<Rightarrow> ks | None \<Rightarrow> keys_of ds))) h)"

definition broadcastStatus :: "hub \<Rightarrow> hub" where
  "broadcastStatus h = broadcast (SStatus (error (session h)) (progress (session h))) h"

definition fail :: "string \<Rightarrow> hub \<Rightarrow> hub" where
  "fail reason h = broadcastStatus (on_session (\<lambda>s. s\<lparr>error := Some reason\<rparr>) h)"

definition clearError :: "hub \<Rightarrow> hub" where
  "clearError h = (if error (session h) = None then h
     else broadcastStatus (on_session (\<lambda>s. s\<lparr>error := None\<rparr>) h))"

definition setProgress :: "progress_item list option \<Rightarrow> hub \<Rightarrow> hub" where
  "setProgress p h = broadcastStatus (on_session (\<lambda>s. s\<lparr>progress := p\<rparr>) h)"

text \<open>A handle is the index of its list in \<open>monitors\<close>; only the current one publishes.\<close>

definition progressMonitor :: "(string \<times> string) list \<Rightarrow> hub \<Rightarrow> hub" where
  "progressMonitor steps h = (let items = pendingList steps
     in setProgress (Some items) (on_session (\<lambda>s. s\<lparr>activeMonitor := Some (length (monitors s)),
          monitors := monitors s @ [items]\<rparr>) h))"

definition publish :: "nat \<Rightarrow> progress_item list option \<Rightarrow> hub \<Rightarrow> hub" where
  "publish i p h = (if activeMonitor (session h) = Some i then setProgress p h else h)"

definition monitor_step :: "nat \<Rightarrow> string \<Rightarrow> progress_state \<Rightarrow> hub \<Rightarrow> hub" where
  "monitor_step i k st h = (if i < length (monitors (session h))
     then let items = withStepState (monitors (session h) ! i) k st
       in publish i (Some items) (on_session (\<lambda>s. s\<lparr>monitors := (monitors s)[i := items]\<rparr>) h)
     else h)"

definition monitor_complete :: "nat \<Rightarrow> hub \<Rightarrow> hub" where
  "monitor_complete i h = publish i None h"

definition runIdle :: "hub \<Rightarrow> hub" where
  "runIdle h = (let h1 = on_session (\<lambda>s. s\<lparr>activeMonitor := None\<rparr>) h;
       h2 = (if progress (session h1) \<noteq> None then setProgress None h1 else h1)
     in on_session (\<lambda>s. s\<lparr>hooks := hooks s @ [Idled]\<rparr>) h2)"

definition sendFrame :: "string \<Rightarrow> nat \<Rightarrow> nat \<Rightarrow> hub \<Rightarrow> hub" where
  "sendFrame t p w h = emit (SFrame t p) w h"

definition hasFrameInterest :: "hub \<Rightarrow> nat \<Rightarrow> string \<Rightarrow> bool" where
  "hasFrameInterest h w t \<longleftrightarrow> t \<in> set (interest (windows h w))"

definition publish_frame :: "string \<Rightarrow> nat \<Rightarrow> hub \<Rightarrow> hub" where
  "publish_frame t p h =
     (let h1 = on_session (\<lambda>s. s\<lparr>frameCache := AList.update t p (frameCache s), activatedAt := False\<rparr>) h
      in fold (sendFrame t p) (filter (\<lambda>w. hasFrameInterest h w t) (subscribers (session h1))) h1)"

definition frameInterested :: "string \<Rightarrow> hub \<Rightarrow> bool" where
  "frameInterested t h \<longleftrightarrow> list_ex (\<lambda>w. hasFrameInterest h w t) (subscribers (session h))"

definition onFrameInterest :: "nat \<Rightarrow> string \<Rightarrow> hub \<Rightarrow> hub" where
  "onFrameInterest w t h =
     (let h1 = on_window w (\<lambda>x. x\<lparr>interest := List.insert t (interest x)\<rparr>) h
      in case map_of (frameCache (session h1)) t of Some p \<Rightarrow> sendFrame t p w h1 | None \<Rightarrow> h1)"

definition onSetState :: "nat \<Rightarrow> string \<Rightarrow> jsval \<Rightarrow> hub \<Rightarrow> hub" where
  "onSetState w k v h =
     (let h1 = on_session (\<lambda>s. s\<lparr>state := AList.update k v (state s), watched := watched s @ [(k, v)]\<rparr>) h
      in fold (emit (SState k v)) (filter (\<lambda>x. x \<noteq> w) (subscribers (session h1))) h1)"

definition seed :: "nat \<Rightarrow> hub \<Rightarrow> hub" where
  "seed w h = (let s = session h
     in emit (SStatus (error s) (progress s)) w (emit (STelemetry (telemetrySnapshot s)) w
          (fold (\<lambda>(k, v). emit (SState k v) w) (state s) h)))"

definition subscribe :: "nat \<Rightarrow> bool \<Rightarrow> hub \<Rightarrow> hub" where
  "subscribe w passive h =
     (let h1 = (if w \<in> set (subscribers (session h)) then h
                else seed w (on_session (\<lambda>s. s\<lparr>subscribers := subscribers s @ [w]\<rparr>) h))
      in if passive \<or> w \<in> set (activeSubscribers (session h1)) then h1
         else let wasIdle = (activeSubscribers (session h1) = []);
                  h2 = on_session (\<lambda>s. s\<lparr>activeSubscribers := activeSubscribers s @ [w]\<rparr>) h1
              in if wasIdle
                 then on_session (\<lambda>s. s\<lparr>hooks := hooks s @ [Activated]\<rparr>) (clearError (on_session (\<lambda>s. s\<lparr>activatedAt := True\<rparr>) h2))
                 else h2)"

definition clearFrameCache :: "hub \<Rightarrow> hub" where
  "clearFrameCache h = on_session (\<lambda>s. s\<lparr>frameCache := []\<rparr>) h"

definition unsubscribe :: "nat \<Rightarrow> bool \<Rightarrow> hub \<Rightarrow> hub" where
  "unsubscribe w passive h =
     (if passive \<and> w \<in> set (activeSubscribers (session h)) then h
      else let wasActive = (w \<in> set (activeSubscribers (session h)));
               h1 = on_session (\<lambda>s. s\<lparr>activeSubscribers := removeAll w (activeSubscribers s),
                      subscribers := removeAll w (subscribers s)\<rparr>) h
           in if wasActive \<and> activeSubscribers (session h1) = [] then clearFrameCache (runIdle h1) else h1)"

definition dispose :: "hub \<Rightarrow> hub" where
  "dispose h = (let wasActive = (activeSubscribers (session h) \<noteq> []);
       h1 = on_session (\<lambda>s. s\<lparr>subscribers := [], activeSubscribers := []\<rparr>) h
     in clearFrameCache (if wasActive then runIdle h1 else h1))"

text \<open>\<open>Hub.attach\<close> of a window's port, and its close.\<close>

definition attach :: "nat \<Rightarrow> hub \<Rightarrow> hub" where
  "attach w h = (if w \<in> set (channels (session h)) then h
     else on_window w (\<lambda>_. new_window) (on_session (\<lambda>s. s\<lparr>channels := channels s @ [w]\<rparr>) h))"

definition detach :: "nat \<Rightarrow> hub \<Rightarrow> hub" where
  "detach w h = on_window w (\<lambda>_. new_window)
     (unsubscribe w False (on_session (\<lambda>s. s\<lparr>channels := removeAll w (channels s)\<rparr>) h))"

fun serve :: "nat \<Rightarrow> client_evt \<Rightarrow> hub \<Rightarrow> hub" where
  "serve w (CSub p) h = subscribe w p h"
| "serve w (CUnsub p) h = unsubscribe w p h"
| "serve w (CSet k v) h = onSetState w k v h"
| "serve w (CInterest t) h = onFrameInterest w t h"

section \<open>The views of a window\<close>

definition post :: "client_evt \<Rightarrow> window \<Rightarrow> window" where
  "post m x = x\<lparr>to_server := to_server x @ [m]\<rparr>"

definition new_view :: "contract \<Rightarrow> nat \<Rightarrow> bool \<Rightarrow> view" where
  "new_view c i p = \<lparr>v_id = i, v_passive = p, v_state = c_state c, v_telemetry = c_telemetry c, v_error = None, v_progress = None\<rparr>"

definition useSession :: "contract \<Rightarrow> nat \<Rightarrow> bool \<Rightarrow> window \<Rightarrow> window" where
  "useSession c i p x = post (CSub p) (x\<lparr>views := views x @ [new_view c i p]\<rparr>)"

text \<open>\<open>onScopeDispose\<close> of a view.\<close>

definition disposeView :: "nat \<Rightarrow> window \<Rightarrow> window" where
  "disposeView i x = (case find (\<lambda>v. v_id v = i) (views x) of
      None \<Rightarrow> x
    | Some v \<Rightarrow> post (CUnsub (v_passive v)) (x\<lparr>views := filter (\<lambda>v. v_id v \<noteq> i) (views x)\<rparr>))"

text \<open>The setter of a state ref: the value is shown at once and sent.\<close>

definition write_state :: "nat \<Rightarrow> string \<Rightarrow> jsval \<Rightarrow> window \<Rightarrow> window" where
  "write_state i k v x = (if \<exists>u \<in> set (views x). v_id u = i \<and> has_key (v_state u) k
     then post (CSet k v) (x\<lparr>views := map (\<lambda>u. if v_id u = i then u\<lparr>v_state := AList.update k v (v_state u)\<rparr> else u) (views x)\<rparr>)
     else x)"

definition declareFrameInterest :: "string \<Rightarrow> window \<Rightarrow> window" where
  "declareFrameInterest t x = post (CInterest t) x"

definition put_key :: "string \<Rightarrow> jsval \<Rightarrow> jsval table \<Rightarrow> jsval table" where
  "put_key k v t = (if has_key t k then AList.update k v t else t)"

fun put_keys :: "jsval table \<Rightarrow> jsval table \<Rightarrow> jsval table" where
  "put_keys [] t = t"
| "put_keys ((k, v) # ps) t = put_keys ps (put_key k v t)"

fun show_evt :: "server_evt \<Rightarrow> view \<Rightarrow> view" where
  "show_evt (SState k v) u = u\<lparr>v_state := put_key k v (v_state u)\<rparr>"
| "show_evt (STelemetry ps) u = u\<lparr>v_telemetry := put_keys ps (v_telemetry u)\<rparr>"
| "show_evt (SStatus e p) u = u\<lparr>v_error := e, v_progress := p\<rparr>"
| "show_evt (SFrame t p) u = u"

fun receive :: "server_evt \<Rightarrow> window \<Rightarrow> window" where
  "receive (SFrame t p) x = x\<lparr>frames := frames x @ [(t, p)]\<rparr>"
| "receive m x = x\<lparr>views := map (show_evt m) (views x)\<rparr>"

section \<open>Histories\<close>

datatype hub_event =
    Attach nat | Detach nat | Serve nat | Receive nat
  | Mount nat nat bool | Unmount nat nat | WriteState nat nat string jsval | Interest nat string
  | SetState string jsval | Telemetry "jsval table" | ResetTelemetry "string list option"
  | Fail string | ClearError | DeclareProgress "(string \<times> string) list" | StepProgress nat string progress_state
  | CompleteProgress nat | PublishFrame string nat | Dispose

definition if_attached :: "nat \<Rightarrow> (window \<Rightarrow> window) \<Rightarrow> hub \<Rightarrow> hub" where
  "if_attached w f h = (if w \<in> set (channels (session h)) then on_window w f h else h)"

fun hub_step :: "contract \<Rightarrow> hub \<Rightarrow> hub_event \<Rightarrow> hub" where
  "hub_step c h (Attach w) = attach w h"
| "hub_step c h (Detach w) = detach w h"
| "hub_step c h (Serve w) = (case to_server (windows h w) of [] \<Rightarrow> h
     | m # ms \<Rightarrow> serve w m (on_window w (\<lambda>x. x\<lparr>to_server := ms\<rparr>) h))"
| "hub_step c h (Receive w) = (case from_server (windows h w) of [] \<Rightarrow> h
     | m # ms \<Rightarrow> on_window w (\<lambda>x. receive m (x\<lparr>from_server := ms\<rparr>)) h)"
| "hub_step c h (Mount w i p) = if_attached w (useSession c i p) h"
| "hub_step c h (Unmount w i) = if_attached w (disposeView i) h"
| "hub_step c h (WriteState w i k v) = if_attached w (write_state i k v) h"
| "hub_step c h (Interest w t) = if_attached w (declareFrameInterest t) h"
| "hub_step c h (SetState k v) = setState k v h"
| "hub_step c h (Telemetry ps) = telemetry ps h"
| "hub_step c h (ResetTelemetry ks) = resetTelemetry ks h"
| "hub_step c h (Fail r) = fail r h"
| "hub_step c h ClearError = clearError h"
| "hub_step c h (DeclareProgress steps) = progressMonitor steps h"
| "hub_step c h (StepProgress i k st) = monitor_step i k st h"
| "hub_step c h (CompleteProgress i) = monitor_complete i h"
| "hub_step c h (PublishFrame t p) = publish_frame t p h"
| "hub_step c h Dispose = dispose h"

section \<open>Where messages go\<close>

lemma hub_simps [simp]:
  "session (on_window w f h) = session h" "windows (on_session g h) = windows h"
  "session (on_session g h) = g (session h)" "windows (on_window w f h) v = (if v = w then f (windows h w) else windows h v)"
  "session (emit m w h) = session h"
  by (simp_all add: on_session_def on_window_def emit_def)

lemma emit_from [simp]:
  "from_server (windows (emit m w h) v) = from_server (windows h v) @ (if v = w then [m] else [])"
  "views (windows (emit m w h) v) = views (windows h v)" "to_server (windows (emit m w h) v) = to_server (windows h v)"
  "interest (windows (emit m w h) v) = interest (windows h v)"
  by (simp_all add: emit_def)

lemma fold_emit [simp]:
  "session (fold (emit m) ws h) = session h"
  "views (windows (fold (emit m) ws h) v) = views (windows h v)" "to_server (windows (fold (emit m) ws h) v) = to_server (windows h v)"
  "interest (windows (fold (emit m) ws h) v) = interest (windows h v)"
  by (induction ws arbitrary: h) simp_all

lemma fold_emit_from:
  "distinct ws \<Longrightarrow> from_server (windows (fold (emit m) ws h) v) = from_server (windows h v) @ (if v \<in> set ws then [m] else [])"
  by (induction ws arbitrary: h) auto

lemma fold_emit_away: "v \<notin> set ws \<Longrightarrow> windows (fold (emit m) ws h) v = windows h v"
  by (induction ws arbitrary: h) (auto simp: emit_def)

lemma fold_states [simp]:
  "session (fold (\<lambda>(k, x). emit (SState k x) w) kvs h) = session h"
  "views (windows (fold (\<lambda>(k, x). emit (SState k x) w) kvs h) v) = views (windows h v)"
  "to_server (windows (fold (\<lambda>(k, x). emit (SState k x) w) kvs h) v) = to_server (windows h v)"
  "interest (windows (fold (\<lambda>(k, x). emit (SState k x) w) kvs h) v) = interest (windows h v)"
  "from_server (windows (fold (\<lambda>(k, x). emit (SState k x) w) kvs h) v)
     = from_server (windows h v) @ (if v = w then map (\<lambda>(k, x). SState k x) kvs else [])"
  by (induction kvs arbitrary: h; auto)+

section \<open>The server mirrored by a view\<close>

definition shown_later :: "window \<Rightarrow> view \<Rightarrow> view" where
  "shown_later x u = fold show_evt (from_server x) u"

definition agrees :: "contract \<Rightarrow> string set \<Rightarrow> session \<Rightarrow> view \<Rightarrow> bool" where
  "agrees c K s u \<longleftrightarrow> v_error u = error s \<and> v_progress u = progress s
     \<and> (\<forall>k \<in> set (keys_of (c_telemetry c)). map_of (v_telemetry u) k = map_of (telemetrySnapshot s) k)
     \<and> (\<forall>k \<in> K. map_of (v_state u) k = map_of (state s) k)"

definition keys_ok :: "contract \<Rightarrow> view \<Rightarrow> bool" where
  "keys_ok c u \<longleftrightarrow> set (keys_of (v_state u)) = set (keys_of (c_state c)) \<and> set (keys_of (v_telemetry u)) = set (keys_of (c_telemetry c))"

lemma put_key_keys [simp]: "set (keys_of (put_key k v t)) = set (keys_of t)" "set (keys_of (put_keys ps t)) = set (keys_of t)"
proof -
  show a: "set (keys_of (put_key k v t)) = set (keys_of t)" for k v t by (auto simp: put_key_def has_key_def)
  show "set (keys_of (put_keys ps t)) = set (keys_of t)" by (induction ps t rule: put_keys.induct) (simp_all add: a)
qed

lemma show_keys [simp]: "keys_ok c (show_evt m u) = keys_ok c u" "keys_ok c (fold show_evt ms u) = keys_ok c u"
proof -
  show a: "keys_ok c (show_evt m u) = keys_ok c u" for m u by (cases m) (simp_all add: keys_ok_def)
  show "keys_ok c (fold show_evt ms u) = keys_ok c u" by (induction ms arbitrary: u) (simp_all add: a)
qed

lemma map_of_put_key: "k \<in> set (keys_of t) \<Longrightarrow> map_of (put_key k' v t) k = (if k' = k then Some v else map_of t k)"
  by (auto simp: put_key_def has_key_def map_of_update)

lemma map_of_put_keys:
  "k \<in> set (keys_of t) \<Longrightarrow> map_of t k = map_of r k \<Longrightarrow> map_of (put_keys ps t) k = map_of (assign_all r ps) k"
proof (induction ps t arbitrary: r rule: put_keys.induct)
  case (2 k' v ps t)
  show ?case
    using 2(1) [of "AList.update k' v r"] 2(2,3) by (simp add: map_of_put_key map_of_update)
qed simp

lemma agrees_state:
  assumes "agrees c K s u" "keys_ok c u" "K \<subseteq> set (keys_of (c_state c))"
  shows "agrees c K (s\<lparr>state := AList.update k v (state s)\<rparr>) (show_evt (SState k v) u)"
proof -
  have "map_of (put_key k v (v_state u)) i = map_of (AList.update k v (state s)) i" if "i \<in> K" for i
    using that assms map_of_put_key [of i "v_state u" k v] by (auto simp: agrees_def keys_ok_def map_of_update)
  then show ?thesis using assms(1) by (simp add: agrees_def)
qed

lemma agrees_telemetry:
  assumes "agrees c K s u" "keys_ok c u"
  shows "agrees c K (s\<lparr>telemetrySnapshot := assign_all (telemetrySnapshot s) ps\<rparr>) (show_evt (STelemetry ps) u)"
  using assms map_of_put_keys by (auto simp: agrees_def keys_ok_def)

lemma agrees_status:
  "agrees c K s u \<Longrightarrow> agrees c K (s\<lparr>error := e, progress := p\<rparr>) (show_evt (SStatus e p) u)"
  by (simp add: agrees_def)

lemma agrees_fields:
  "agrees c K (s\<lparr>activeMonitor := a\<rparr>) u = agrees c K s u" "agrees c K (s\<lparr>monitors := b\<rparr>) u = agrees c K s u"
  "agrees c K (s\<lparr>hooks := d\<rparr>) u = agrees c K s u" "agrees c K (s\<lparr>frameCache := e\<rparr>) u = agrees c K s u"
  "agrees c K (s\<lparr>activatedAt := f\<rparr>) u = agrees c K s u" "agrees c K (s\<lparr>channels := g\<rparr>) u = agrees c K s u"
  "agrees c K (s\<lparr>subscribers := i\<rparr>) u = agrees c K s u" "agrees c K (s\<lparr>activeSubscribers := j\<rparr>) u = agrees c K s u"
  "agrees c K (s\<lparr>watched := l\<rparr>) u = agrees c K s u" "agrees c K s (show_evt (SFrame t q) u) = agrees c K s u"
  by (simp_all add: agrees_def)

text \<open>A seed makes any view of the contract agree.\<close>

definition server_ok :: "contract \<Rightarrow> session \<Rightarrow> bool" where
  "server_ok c s \<longleftrightarrow> distinct (keys_of (state s)) \<and> distinct (keys_of (telemetrySnapshot s))
     \<and> set (keys_of (c_state c)) \<subseteq> set (keys_of (state s)) \<and> set (keys_of (c_telemetry c)) \<subseteq> set (keys_of (telemetrySnapshot s))
     \<and> distinct (subscribers s)"

lemma keys_of_pairs [simp]: "keys_of ((k, v) # ps) = k # keys_of ps" "keys_of [] = []"
  by (simp_all add: keys_of_def)

lemma fold_states_other:
  "k \<notin> set (keys_of kvs) \<Longrightarrow> map_of (v_state (fold show_evt (map (\<lambda>(k, x). SState k x) kvs) u)) k = map_of (v_state u) k"
proof (induction kvs arbitrary: u)
  case (Cons q kvs)
  then show ?case by (cases q) (simp add: put_key_def map_of_update)
qed simp

lemma fold_states_shown:
  assumes "distinct (keys_of kvs)" "k \<in> set (keys_of (v_state u))" "k \<in> set (keys_of kvs)"
  shows "map_of (v_state (fold show_evt (map (\<lambda>(k, x). SState k x) kvs) u)) k = map_of kvs k"
  using assms
proof (induction kvs arbitrary: u)
  case (Cons p kvs)
  obtain k' x where p: "p = (k', x)" by (cases p)
  show ?case
    using Cons.prems Cons.IH [of "show_evt (SState k' x) u"] fold_states_other [of k kvs]
    by (cases "k' = k") (auto simp: p map_of_put_key)
qed simp

lemma fold_states_rest [simp]:
  "v_telemetry (fold show_evt (map (\<lambda>(k, x). SState k x) kvs) u) = v_telemetry u"
  by (induction kvs arbitrary: u) auto

lemma seeded:
  assumes "server_ok c s" "keys_ok c u" "K \<subseteq> set (keys_of (c_state c))"
  shows "agrees c K s (fold show_evt (map (\<lambda>(k, x). SState k x) (state s) @ [STelemetry (telemetrySnapshot s), SStatus (error s) (progress s)]) u)"
proof -
  let ?u = "fold show_evt (map (\<lambda>(k, x). SState k x) (state s)) u"
  note d = assms(1) [unfolded server_ok_def] and ks = assms(2) [unfolded keys_ok_def]
  have "map_of (v_state ?u) k = map_of (state s) k" if "k \<in> K" for k
    by (rule fold_states_shown) (use d ks assms(3) that in blast)+
  moreover have "map_of (put_keys (telemetrySnapshot s) (v_telemetry u)) k = map_of (telemetrySnapshot s) k"
    if k: "k \<in> set (keys_of (c_telemetry c))" for k
  proof -
    have "k \<in> set (keys_of (telemetrySnapshot s))" using d k by blast
    from map_of_key_Some [OF this] obtain v where v: "map_of (telemetrySnapshot s) k = Some v" ..
    have "k \<in> set (keys_of (v_telemetry u))" using ks k by blast
    then have "map_of (put_keys (telemetrySnapshot s) (v_telemetry u)) k = map_of (assign_all (v_telemetry u) (telemetrySnapshot s)) k"
      by (rule map_of_put_keys [OF _ refl])
    also have "\<dots> = map_of (telemetrySnapshot s) k"
      using map_of_assign_all [OF d [THEN conjunct2, THEN conjunct1], of "v_telemetry u" k] by (simp only: v option.case)
    finally show ?thesis .
  qed
  ultimately show ?thesis by (simp add: agrees_def)
qed

text \<open>The subscription requests under way, from what the server has of a window to what its one view is.\<close>

fun lawful :: "bool \<Rightarrow> bool \<Rightarrow> client_evt list \<Rightarrow> view list \<Rightarrow> bool" where
  "lawful b a [] vs = (case vs of [] \<Rightarrow> \<not> b \<and> \<not> a | u # us \<Rightarrow> us = [] \<and> b \<and> a = (\<not> v_passive u))"
| "lawful b a (CSub p # q) vs = (\<not> b \<and> \<not> a \<and> lawful True (\<not> p) q vs)"
| "lawful b a (CUnsub p # q) vs = (b \<and> a = (\<not> p) \<and> lawful False False q vs)"
| "lawful b a (CSet k v # q) vs = lawful b a q vs"
| "lawful b a (CInterest t # q) vs = lawful b a q vs"

fun is_sub :: "client_evt \<Rightarrow> bool" where
  "is_sub (CSub p) = True"
| "is_sub (CUnsub p) = True"
| "is_sub _ = False"

definition settled :: "window \<Rightarrow> bool" where
  "settled x \<longleftrightarrow> list_all (\<lambda>m. \<not> is_sub m) (to_server x)"

lemma lawful_settled: "lawful b a q vs \<Longrightarrow> list_all (\<lambda>m. \<not> is_sub m) q \<Longrightarrow> vs \<noteq> [] \<Longrightarrow> b"
  by (induction b a q vs rule: lawful.induct) (auto split: list.splits)

lemma lawful_views: "lawful b a q (map f vs) = lawful b a q vs" if "\<And>u. v_passive (f u) = v_passive u"
  by (induction b a q vs rule: lawful.induct) (auto simp: that split: list.split)

lemma lawful_sub: "lawful b a q [] \<Longrightarrow> lawful b a (q @ [CSub (v_passive u)]) [u]"
  by (induction b a q "[] :: view list" rule: lawful.induct) auto

lemma lawful_unsub: "lawful b a q [u] \<Longrightarrow> lawful b a (q @ [CUnsub (v_passive u)]) []"
  by (induction b a q "[u]" rule: lawful.induct) auto

lemma lawful_other: "lawful b a q vs \<Longrightarrow> \<not> is_sub m \<Longrightarrow> lawful b a (q @ [m]) vs"
  by (induction b a q vs rule: lawful.induct) (cases m; auto split: list.splits)+

lemma lawful_one: "lawful b a q vs \<Longrightarrow> length vs \<le> 1"
  by (induction b a q vs rule: lawful.induct) (auto split: list.splits)

definition in_sync :: "contract \<Rightarrow> string set \<Rightarrow> session \<Rightarrow> window \<Rightarrow> bool" where
  "in_sync c K s x \<longleftrightarrow> (\<forall>u \<in> set (views x). keys_ok c u \<and> (settled x \<longrightarrow> agrees c K s (shown_later x u)))"

definition mirrored :: "contract \<Rightarrow> string set \<Rightarrow> nat \<Rightarrow> hub \<Rightarrow> bool" where
  "mirrored c K w h \<longleftrightarrow> server_ok c (session h)
     \<and> lawful (w \<in> set (subscribers (session h))) (w \<in> set (activeSubscribers (session h))) (to_server (windows h w)) (views (windows h w))
     \<and> (w \<in> set (channels (session h)) \<or> windows h w = new_window)
     \<and> (\<forall>x k v. CSet k v \<in> set (to_server (windows h x)) \<longrightarrow> k \<notin> K)
     \<and> in_sync c K (session h) (windows h w)"

text \<open>A change of the server that is pushed to every subscriber.\<close>

lemma shown_later_emit: "from_server x' = from_server x @ ms \<Longrightarrow> shown_later x' u = fold show_evt ms (shown_later x u)"
  by (simp add: shown_later_def)

lemma in_sync_pushed:
  assumes "in_sync c K s x" "views x' = views x" "to_server x' = to_server x" "from_server x' = from_server x @ ms"
    "\<And>u. keys_ok c u \<Longrightarrow> agrees c K s u \<Longrightarrow> agrees c K s' (fold show_evt ms u)"
  shows "in_sync c K s' x'"
  using assms(1,5) unfolding in_sync_def settled_def assms(2,3) shown_later_emit [OF assms(4)]
  by (auto simp: shown_later_def)

definition pushes :: "contract \<Rightarrow> string set \<Rightarrow> session \<Rightarrow> server_evt list \<Rightarrow> session \<Rightarrow> bool" where
  "pushes c K s ms s' \<longleftrightarrow> (server_ok c s \<longrightarrow> server_ok c s')
     \<and> (\<forall>u. keys_ok c u \<longrightarrow> agrees c K s u \<longrightarrow> agrees c K s' (fold show_evt ms u))"

lemma mirrored_pushed:
  assumes ok: "mirrored c K w h"
    and s: "subscribers s' = subscribers (session h)" "activeSubscribers s' = activeSubscribers (session h)"
      "channels s' = channels (session h)"
    and x: "session h' = s'" "\<And>v. to_server (windows h' v) = to_server (windows h v)" "views (windows h' w) = views (windows h w)"
      "w \<in> set (subscribers (session h)) \<Longrightarrow> from_server (windows h' w) = from_server (windows h w) @ ms"
      "w \<notin> set (channels (session h)) \<Longrightarrow> windows h' w = windows h w"
    and p: "pushes c K (session h) ms s'"
  shows "mirrored c K w h'"
proof -
  note m = ok [unfolded mirrored_def]
  have "in_sync c K s' (windows h' w)"
  proof (cases "w \<in> set (subscribers (session h))")
    case True
    show ?thesis
      by (rule in_sync_pushed [of c K "session h" "windows h w"]) (use m x(2-4) True p in \<open>auto simp: pushes_def\<close>)
  next
    case False
    have "views (windows h w) \<noteq> [] \<Longrightarrow> \<not> settled (windows h w)"
      using m lawful_settled False unfolding settled_def by blast
    then have "views (windows h w) = [] \<or> \<not> settled (windows h w)" by blast
    moreover have "settled (windows h' w) = settled (windows h w)" by (simp add: settled_def x(2))
    ultimately show ?thesis using m x(3) by (auto simp: in_sync_def)
  qed
  moreover have "w \<in> set (channels s') \<or> windows h' w = new_window"
    using m s(3) x(5) by (cases "w \<in> set (channels (session h))") auto
  ultimately show ?thesis using m s x(1-3) p by (auto simp: mirrored_def pushes_def)
qed

lemma broadcast_mirrored:
  assumes "mirrored c K w h" "\<And>s. subscribers (f s) = subscribers s" "\<And>s. activeSubscribers (f s) = activeSubscribers s"
    "\<And>s. channels (f s) = channels s" "pushes c K (session h) [m] (f (session h))"
  shows "mirrored c K w (broadcast m (on_session f h))"
proof (rule mirrored_pushed [OF assms(1), where ms = "[m]" and s' = "f (session h)"])
  have d: "distinct (subscribers (session h))" using assms(1) by (simp add: mirrored_def server_ok_def)
  show "from_server (windows (broadcast m (on_session f h)) w) = from_server (windows h w) @ [m]"
    if "w \<in> set (subscribers (session h))"
    using d that by (simp add: broadcast_def assms(2) fold_emit_from)
  show "windows (broadcast m (on_session f h)) w = windows h w" if "w \<notin> set (channels (session h))"
  proof -
    have "w \<notin> set (subscribers (session h))" using assms(1) that by (auto simp: mirrored_def new_window_def)
    then show ?thesis by (simp add: broadcast_def assms(2) fold_emit_away)
  qed
qed (use assms in \<open>simp_all add: broadcast_def\<close>)

lemma pushes_set:
  assumes "K \<subseteq> set (keys_of (c_state c))"
  shows "pushes c K s [SState k v] (s\<lparr>state := AList.update k v (state s)\<rparr>)"
  using assms agrees_state by (auto simp: pushes_def server_ok_def)

lemma pushes_telemetry: "pushes c K s [STelemetry ps] (s\<lparr>telemetrySnapshot := assign_all (telemetrySnapshot s) ps\<rparr>)"
proof -
  have "set (keys_of t) \<subseteq> set (keys_of (assign_all t ps))" for t
    by (induction t ps rule: assign_all.induct) auto
  then show ?thesis using agrees_telemetry unfolding pushes_def server_ok_def by fastforce
qed

lemma pushes_status: "pushes c K s [SStatus e p] (s\<lparr>error := e, progress := p\<rparr>)"
  using agrees_status by (auto simp: pushes_def server_ok_def)

lemma quiet_session:
  assumes "mirrored c K w h" "\<And>s. subscribers (f s) = subscribers s" "\<And>s. activeSubscribers (f s) = activeSubscribers s"
    "\<And>s. channels (f s) = channels s" "pushes c K (session h) [] (f (session h))"
  shows "mirrored c K w (on_session f h)"
  by (rule mirrored_pushed [OF assms(1), where ms = "[]" and s' = "f (session h)"]) (use assms in simp_all)

lemma pushes_quiet:
  "pushes c K s [] (s\<lparr>activeMonitor := a\<rparr>)" "pushes c K s [] (s\<lparr>monitors := b\<rparr>)" "pushes c K s [] (s\<lparr>hooks := d\<rparr>)"
  "pushes c K s [] (s\<lparr>frameCache := e\<rparr>)" "pushes c K s [] (s\<lparr>activatedAt := f\<rparr>)"
  "pushes c K s [] (s\<lparr>frameCache := e, activatedAt := f\<rparr>)"
  "pushes c K s [] (s\<lparr>activeMonitor := a, monitors := b\<rparr>)"
  by (auto simp: pushes_def server_ok_def agrees_def)

text \<open>The operations of the server.\<close>

lemma mirrored_setState: "mirrored c K w h \<Longrightarrow> K \<subseteq> set (keys_of (c_state c)) \<Longrightarrow> mirrored c K w (setState k v h)"
  unfolding setState_def by (rule broadcast_mirrored) (simp_all add: pushes_set)

lemma mirrored_telemetry: "mirrored c K w h \<Longrightarrow> mirrored c K w (telemetry ps h)"
  unfolding telemetry_def by (rule broadcast_mirrored) (simp_all add: pushes_telemetry)

lemma status_push:
  assumes "mirrored c K w h"
  shows "mirrored c K w (broadcastStatus (on_session (\<lambda>s. s\<lparr>error := e\<rparr>) h))"
    "mirrored c K w (broadcastStatus (on_session (\<lambda>s. s\<lparr>progress := p\<rparr>) h))"
proof -
  have "mirrored c K w (broadcast (SStatus e (progress (session h))) (on_session (\<lambda>s. s\<lparr>error := e\<rparr>) h))"
    by (rule broadcast_mirrored [OF assms]) (use pushes_status [of c K "session h" e "progress (session h)"] in simp_all)
  then show "mirrored c K w (broadcastStatus (on_session (\<lambda>s. s\<lparr>error := e\<rparr>) h))" by (simp add: broadcastStatus_def)
  have "mirrored c K w (broadcast (SStatus (error (session h)) p) (on_session (\<lambda>s. s\<lparr>progress := p\<rparr>) h))"
    by (rule broadcast_mirrored [OF assms]) (use pushes_status [of c K "session h" "error (session h)" p] in simp_all)
  then show "mirrored c K w (broadcastStatus (on_session (\<lambda>s. s\<lparr>progress := p\<rparr>) h))" by (simp add: broadcastStatus_def)
qed

lemma mirrored_status:
  assumes "mirrored c K w h"
  shows "mirrored c K w (fail r h)" "mirrored c K w (clearError h)" "mirrored c K w (progressMonitor steps h)"
    "mirrored c K w (monitor_step i k st h)" "mirrored c K w (monitor_complete i h)" "mirrored c K w (runIdle h)"
proof -
  show "mirrored c K w (fail r h)" "mirrored c K w (clearError h)"
    using assms status_push by (simp_all add: fail_def clearError_def)
  have p: "mirrored c K w g \<Longrightarrow> mirrored c K w (setProgress q g)" for g q
    unfolding setProgress_def by (rule status_push)
  then have pub: "mirrored c K w g \<Longrightarrow> mirrored c K w (publish j q g)" for g j q by (simp add: publish_def)
  show "mirrored c K w (progressMonitor steps h)"
    unfolding progressMonitor_def Let_def by (rule p, rule quiet_session [OF assms]) (simp_all add: pushes_quiet)
  show "mirrored c K w (monitor_step i k st h)"
    unfolding monitor_step_def Let_def by (auto intro!: pub quiet_session [OF assms] simp: pushes_quiet assms)
  show "mirrored c K w (monitor_complete i h)" unfolding monitor_complete_def by (rule pub [OF assms])
  show "mirrored c K w (runIdle h)"
    unfolding runIdle_def Let_def by (auto intro!: p quiet_session assms simp: pushes_quiet)
qed

text \<open>Requests of the windows.\<close>

lemma mirrored_onSetState:
  assumes "mirrored c K w h" "k \<notin> K" "K \<subseteq> set (keys_of (c_state c))"
  shows "mirrored c K w (onSetState v k x h)"
proof -
  let ?f = "\<lambda>s. s\<lparr>state := AList.update k x (state s), watched := watched s @ [(k, x)]\<rparr>"
  let ?h = "fold (emit (SState k x)) (filter (\<lambda>y. y \<noteq> v) (subscribers (session (on_session ?f h)))) (on_session ?f h)"
  let ?ms = "if v = w then [] else [SState k x]"
  have d: "distinct (subscribers (session h))" using assms(1) by (simp add: mirrored_def server_ok_def)
  have "agrees c K (?f s) u = agrees c K s u" for s u
    using assms(2) by (auto simp: agrees_def map_of_update)
  moreover have "agrees c K s (show_evt (SState k x) u)" if "agrees c K s u" for s u
    using that assms(2) by (auto simp: agrees_def put_key_def map_of_update)
  ultimately have p: "pushes c K (session h) ?ms (?f (session h))"
    by (auto simp: pushes_def server_ok_def)
  have "mirrored c K w ?h"
  proof (rule mirrored_pushed [OF assms(1) _ _ _ _ _ _ _ _ p])
    show "from_server (windows ?h w) = from_server (windows h w) @ ?ms" if "w \<in> set (subscribers (session h))"
      using d that by (auto simp: fold_emit_from)
    show "windows ?h w = windows h w" if "w \<notin> set (channels (session h))"
    proof -
      have "w \<notin> set (subscribers (session h))" using assms(1) that by (auto simp: mirrored_def new_window_def)
      then show ?thesis by (simp add: fold_emit_away)
    qed
  qed simp_all
  then show ?thesis by (simp add: onSetState_def)
qed

lemma pushes_frame: "pushes c K s [SFrame t p] s" "pushes c K s [] s"
  by (simp_all add: pushes_def agrees_fields)

lemma mirrored_same_session:
  assumes ok: "mirrored c K w h" and x: "session h' = session h" "\<And>v. to_server (windows h' v) = to_server (windows h v)"
    "views (windows h' w) = views (windows h w)" "from_server (windows h' w) = from_server (windows h w) @ ms"
    and p: "pushes c K (session h) ms (session h)" and ch: "w \<in> set (channels (session h)) \<or> windows h' w = windows h w"
  shows "mirrored c K w h'"
  by (rule mirrored_pushed [OF ok, where ms = ms and s' = "session h"]) (use x p ch in auto)

lemma mirrored_frame:
  assumes "mirrored c K w h"
  shows "mirrored c K w (publish_frame t p h)"
    "v = w \<Longrightarrow> v \<in> set (channels (session h)) \<Longrightarrow> mirrored c K w (onFrameInterest v t h)"
    "v \<noteq> w \<Longrightarrow> mirrored c K w (onFrameInterest v t h)"
proof -
  have one: "mirrored c K w (sendFrame t p v g)" if "mirrored c K w g" "v = w \<longrightarrow> v \<in> set (channels (session g))" for g v p
    by (rule mirrored_same_session [OF that(1), where ms = "if v = w then [SFrame t p] else []"])
      (use that(2) in \<open>auto simp: sendFrame_def pushes_frame emit_def\<close>)
  show "mirrored c K w (publish_frame t p h)"
  proof -
    let ?h = "on_session (\<lambda>s. s\<lparr>frameCache := AList.update t p (frameCache s), activatedAt := False\<rparr>) h"
    have q: "mirrored c K w ?h" by (rule quiet_session [OF assms]) (simp_all add: pushes_quiet)
    have d: "distinct (subscribers (session h))" using assms by (simp add: mirrored_def server_ok_def)
    let ?ws = "filter (\<lambda>w. hasFrameInterest h w t) (subscribers (session ?h))"
    let ?g = "fold (emit (SFrame t p)) ?ws ?h"
    have "mirrored c K w ?g"
    proof (rule mirrored_same_session [OF q, where ms = "if w \<in> set ?ws then [SFrame t p] else []"])
      show "w \<in> set (channels (session ?h)) \<or> windows ?g w = windows ?h w"
      proof (rule disjCI)
        assume "windows ?g w \<noteq> windows ?h w"
        then have "w \<in> set ?ws" using fold_emit_away by blast
        then have "w \<in> set (subscribers (session h))" by simp
        then show "w \<in> set (channels (session ?h))" using assms by (auto simp: mirrored_def new_window_def)
      qed
    qed (use d in \<open>simp_all add: fold_emit_from pushes_frame\<close>)
    moreover have "sendFrame t p = emit (SFrame t p)" by (intro ext) (simp add: sendFrame_def)
    ultimately show ?thesis by (simp add: publish_frame_def Let_def)
  qed
  have "mirrored c K w (onFrameInterest v t h)" if v: "v = w \<longrightarrow> v \<in> set (channels (session h))" for v
  proof -
    let ?h = "on_window v (\<lambda>x. x\<lparr>interest := List.insert t (interest x)\<rparr>) h"
    have "mirrored c K w ?h"
      by (rule mirrored_same_session [OF assms, where ms = "[]"]) (use v in \<open>auto simp: pushes_frame\<close>)
    then show ?thesis using v one [of ?h v] by (auto simp: onFrameInterest_def Let_def split: option.split)
  qed
  then show "v = w \<Longrightarrow> v \<in> set (channels (session h)) \<Longrightarrow> mirrored c K w (onFrameInterest v t h)"
    "v \<noteq> w \<Longrightarrow> mirrored c K w (onFrameInterest v t h)" by auto
qed

text \<open>Subscriptions of the other windows.\<close>

lemma mirrored_members:
  assumes ok: "mirrored c K w h"
    and s: "distinct (subscribers (f (session h)))" "w \<in> set (subscribers (f (session h))) \<longleftrightarrow> w \<in> set (subscribers (session h))"
      "w \<in> set (activeSubscribers (f (session h))) \<longleftrightarrow> w \<in> set (activeSubscribers (session h))"
      "w \<in> set (channels (f (session h))) \<longleftrightarrow> w \<in> set (channels (session h))"
      "state (f (session h)) = state (session h)" "telemetrySnapshot (f (session h)) = telemetrySnapshot (session h)"
      "error (f (session h)) = error (session h)" "progress (f (session h)) = progress (session h)"
  shows "mirrored c K w (on_session f h)"
  using ok s by (simp add: mirrored_def server_ok_def in_sync_def agrees_def)

lemma mirrored_clearFrameCache: "mirrored c K w h \<Longrightarrow> mirrored c K w (clearFrameCache h)"
  unfolding clearFrameCache_def by (rule quiet_session) (simp_all add: pushes_quiet)

lemma seed_away: "v \<noteq> w \<Longrightarrow> windows (seed v h) w = windows h w"
proof -
  assume v: "v \<noteq> w"
  then have "windows (fold (\<lambda>(k, x). emit (SState k x) v) kvs g) w = windows g w" for kvs g
    by (induction kvs arbitrary: g) (auto simp: emit_def)
  with v show ?thesis by (simp add: seed_def Let_def emit_def)
qed

lemma mirrored_seed_other:
  assumes "mirrored c K w h" "v \<noteq> w"
  shows "mirrored c K w (seed v h)"
  by (rule mirrored_same_session [OF assms(1), where ms = "[]"])
    (use assms(2) seed_away [OF assms(2)] in \<open>simp_all add: pushes_frame seed_def Let_def\<close>)

lemma mirrored_activate:
  assumes "mirrored c K w h"
  shows "mirrored c K w (on_session (\<lambda>s. s\<lparr>hooks := hooks s @ [Activated]\<rparr>) (clearError (on_session (\<lambda>s. s\<lparr>activatedAt := True\<rparr>) h)))"
  by (rule quiet_session, rule mirrored_status, rule quiet_session [OF assms]) (simp_all add: pushes_quiet)

lemma mirrored_drain: "mirrored c K w h \<Longrightarrow> mirrored c K w (clearFrameCache (runIdle h))"
  by (simp add: mirrored_clearFrameCache mirrored_status)

lemma mirrored_subscribe_other:
  assumes ok: "mirrored c K w h" and v: "v \<noteq> w"
  shows "mirrored c K w (subscribe v p h)"
proof -
  let ?h1 = "if v \<in> set (subscribers (session h)) then h
     else seed v (on_session (\<lambda>s. s\<lparr>subscribers := subscribers s @ [v]\<rparr>) h)"
  let ?h2 = "on_session (\<lambda>s. s\<lparr>activeSubscribers := activeSubscribers s @ [v]\<rparr>) ?h1"
  have d: "distinct (subscribers (session h))" using ok by (simp add: mirrored_def server_ok_def)
  have h1: "mirrored c K w ?h1"
    using ok v d by (auto intro!: mirrored_seed_other mirrored_members)
  moreover have "distinct (subscribers (session ?h1))" using h1 by (simp add: mirrored_def server_ok_def)
  ultimately have h2: "mirrored c K w ?h2" using v by (intro mirrored_members) auto
  show ?thesis unfolding subscribe_def Let_def using h1 h2 mirrored_activate [OF h2] by simp
qed

lemma mirrored_unsubscribe_other:
  assumes ok: "mirrored c K w h" and v: "v \<noteq> w"
  shows "mirrored c K w (unsubscribe v p h)"
proof -
  let ?h1 = "on_session (\<lambda>s. s\<lparr>activeSubscribers := removeAll v (activeSubscribers s), subscribers := removeAll v (subscribers s)\<rparr>) h"
  have d: "distinct (subscribers (session h))" using ok by (simp add: mirrored_def server_ok_def)
  have h1: "mirrored c K w ?h1"
    by (rule mirrored_members [OF ok]) (use v d in \<open>auto simp: distinct_removeAll\<close>)
  then show ?thesis using ok mirrored_drain [OF h1] by (simp add: unsubscribe_def Let_def)
qed

text \<open>The window's own requests, from the state in which the request is still in the FIFO.\<close>

lemma popped_settled: "to_server x = m # q \<Longrightarrow> \<not> is_sub m \<Longrightarrow> settled (x\<lparr>to_server := q\<rparr>) = settled x"
  by (simp add: settled_def)

lemma mirrored_sets: "mirrored c K w h \<Longrightarrow> CSet k x \<in> set (to_server (windows h v)) \<Longrightarrow> k \<notin> K"
  unfolding mirrored_def by blast

lemma popped_sets:
  assumes "mirrored c K w h" "to_server (windows h u) = m # q"
    and i: "CSet k x \<in> set (to_server (windows (on_window u (\<lambda>x. x\<lparr>to_server := q\<rparr>) h) v))"
  shows "k \<notin> K"
proof -
  have "CSet k x \<in> set (to_server (windows h v))" using i assms(2) by (cases "v = u") auto
  with assms(1) show ?thesis unfolding mirrored_def by blast
qed

lemma mirrored_pop:
  assumes ok: "mirrored c K w h" and q: "to_server (windows h v) = m # q" and m: "v = w \<longrightarrow> \<not> is_sub m"
  shows "mirrored c K w (on_window v (\<lambda>x. x\<lparr>to_server := q\<rparr>) h)"
proof (cases "v = w")
  case False
  have "CSet k x \<in> set q \<Longrightarrow> k \<notin> K" for k x using ok q unfolding mirrored_def by (metis list.set_intros(2))
  then show ?thesis using ok False by (auto simp: mirrored_def)
next
  case True
  have "lawful b a (m # q) vs \<Longrightarrow> lawful b a q vs" for b a vs using m True by (cases m) auto
  moreover have "CSet k x \<in> set q \<Longrightarrow> k \<notin> K" for k x using ok q unfolding mirrored_def by (metis list.set_intros(2))
  moreover have "in_sync c K (session h) ((windows h w)\<lparr>to_server := q\<rparr>)"
    using ok q True popped_settled m by (auto simp: mirrored_def in_sync_def shown_later_def)
  moreover have "w \<in> set (channels (session h))" using ok q True by (auto simp: mirrored_def new_window_def)
  ultimately show ?thesis using ok q True by (auto simp: mirrored_def)
qed

lemma mirrored_subscribe_own:
  assumes ok: "mirrored c K w h" and K: "K \<subseteq> set (keys_of (c_state c))" and q: "to_server (windows h w) = CSub p # q"
  shows "mirrored c K w (subscribe w p (on_window w (\<lambda>x. x\<lparr>to_server := q\<rparr>) h))"
proof -
  let ?p = "on_window w (\<lambda>x. x\<lparr>to_server := q\<rparr>) h"
  note m = ok [unfolded mirrored_def]
  have b: "w \<notin> set (subscribers (session h))" "w \<notin> set (activeSubscribers (session h))" and l: "lawful True (\<not> p) q (views (windows h w))"
    using m q by auto
  have ch: "w \<in> set (channels (session h))" using m q by (auto simp: new_window_def)
  note cs = popped_sets [OF ok q]
  let ?h1 = "seed w (on_session (\<lambda>s. s\<lparr>subscribers := subscribers s @ [w]\<rparr>) ?p)"
  let ?s = "session ?h1"
  let ?ms = "map (\<lambda>(k, x). SState k x) (state ?s) @ [STelemetry (telemetrySnapshot ?s), SStatus (error ?s) (progress ?s)]"
  have s: "session ?h1 = (session h)\<lparr>subscribers := subscribers (session h) @ [w]\<rparr>" by (simp add: seed_def Let_def)
  have so: "server_ok c ?s" using m b by (simp add: s server_ok_def)
  have x: "views (windows ?h1 w) = views (windows h w)" "to_server (windows ?h1 v) = to_server (windows ?p v)"
    "from_server (windows ?h1 w) = from_server (windows h w) @ ?ms" for v
    by (simp_all add: seed_def Let_def)
  have "in_sync c K ?s (windows ?h1 w)"
    unfolding in_sync_def x(1)
  proof (intro ballI conjI impI)
    fix u assume u: "u \<in> set (views (windows h w))"
    show ku: "keys_ok c u" using m u by (simp add: in_sync_def)
    have "shown_later (windows ?h1 w) u = fold show_evt ?ms (fold show_evt (from_server (windows h w)) u)"
      by (simp only: shown_later_def x(3) fold_append comp_apply)
    then show "agrees c K ?s (shown_later (windows ?h1 w) u)"
      using seeded [OF so _ K, of "fold show_evt (from_server (windows h w)) u"] ku by simp
  qed
  note sync = this
  have quietly: "mirrored c K w ?h1" if p
    unfolding mirrored_def using so sync l that ch cs b by (simp add: x s)
  let ?h2 = "on_session (\<lambda>s. s\<lparr>activeSubscribers := activeSubscribers s @ [w]\<rparr>) ?h1"
  have actively: "mirrored c K w ?h2" if "\<not> p"
  proof -
    have "server_ok c (session ?h2)" "in_sync c K (session ?h2) (windows ?h2 w)"
      using so sync by (simp_all add: server_ok_def in_sync_def agrees_fields)
    then show ?thesis unfolding mirrored_def using l that ch cs by (simp add: x s)
  qed
  have sub: "subscribe w p ?p = (if p then ?h1 else if activeSubscribers (session ?h1) = []
      then on_session (\<lambda>s. s\<lparr>hooks := hooks s @ [Activated]\<rparr>) (clearError (on_session (\<lambda>s. s\<lparr>activatedAt := True\<rparr>) ?h2)) else ?h2)"
    using b by (simp add: subscribe_def Let_def s)
  show ?thesis unfolding sub using quietly actively mirrored_activate [OF actively] by simp
qed

lemma mirrored_unsubscribe_own:
  assumes ok: "mirrored c K w h" and q: "to_server (windows h w) = CUnsub p # q"
  shows "mirrored c K w (unsubscribe w p (on_window w (\<lambda>x. x\<lparr>to_server := q\<rparr>) h))"
proof -
  let ?p = "on_window w (\<lambda>x. x\<lparr>to_server := q\<rparr>) h"
  let ?h1 = "on_session (\<lambda>s. s\<lparr>activeSubscribers := removeAll w (activeSubscribers s), subscribers := removeAll w (subscribers s)\<rparr>) ?p"
  note m = ok [unfolded mirrored_def]
  have a: "w \<in> set (activeSubscribers (session h)) \<longleftrightarrow> \<not> p" and l: "lawful False False q (views (windows h w))" using m q by auto
  have ch: "w \<in> set (channels (session h))" using m q by (auto simp: new_window_def)
  note cs = popped_sets [OF ok q]
  have "views (windows h w) = [] \<or> \<not> list_all (\<lambda>m. \<not> is_sub m) q" using lawful_settled [OF l] by blast
  then have "in_sync c K (session ?h1) (windows ?h1 w)"
    using m by (auto simp: in_sync_def settled_def)
  moreover have "server_ok c (session ?h1)" using m by (simp add: server_ok_def distinct_removeAll)
  ultimately have h1: "mirrored c K w ?h1" unfolding mirrored_def using l ch cs by simp
  show ?thesis using a h1 mirrored_drain [OF h1] by (auto simp: unsubscribe_def Let_def)
qed

text \<open>Ports that open and close.\<close>

lemma drained_session [simp]:
  "subscribers (session (broadcastStatus h)) = subscribers (session h)" "session (broadcastStatus h) = session h"
  "subscribers (session (clearFrameCache (runIdle h))) = subscribers (session h)"
  "activeSubscribers (session (clearFrameCache (runIdle h))) = activeSubscribers (session h)"
  "channels (session (clearFrameCache (runIdle h))) = channels (session h)"
  "state (session (clearFrameCache (runIdle h))) = state (session h)"
  "telemetrySnapshot (session (clearFrameCache (runIdle h))) = telemetrySnapshot (session h)"
  "to_server (windows (broadcastStatus h) v) = to_server (windows h v)"
  "to_server (windows (clearFrameCache (runIdle h)) v) = to_server (windows h v)"
  by (simp_all add: broadcastStatus_def broadcast_def clearFrameCache_def runIdle_def setProgress_def Let_def)

lemma mirrored_attach:
  assumes ok: "mirrored c K w h"
  shows "mirrored c K w (attach v h)"
proof -
  have "mirrored c K w (on_window v (\<lambda>_. new_window) (on_session (\<lambda>s. s\<lparr>channels := channels s @ [v]\<rparr>) h))"
    if "v \<notin> set (channels (session h))"
    using ok that by (cases "v = w") (auto simp: mirrored_def server_ok_def in_sync_def agrees_def new_window_def)
  then show ?thesis using ok by (simp add: attach_def)
qed

lemma mirrored_detach:
  assumes ok: "mirrored c K w h"
  shows "mirrored c K w (detach v h)"
proof -
  let ?h1 = "on_session (\<lambda>s. s\<lparr>channels := removeAll v (channels s)\<rparr>) h"
  note m = ok [unfolded mirrored_def]
  show ?thesis
  proof (cases "v = w")
    case False
    have h1: "mirrored c K w ?h1" by (rule mirrored_members [OF ok]) (use m False in \<open>auto simp: server_ok_def\<close>)
    have "mirrored c K w (unsubscribe v False ?h1)" by (rule mirrored_unsubscribe_other [OF h1 False])
    then show ?thesis using False by (auto simp: detach_def mirrored_def new_window_def)
  next
    case True
    let ?u = "unsubscribe w False ?h1"
    have "subscribers (session ?u) = removeAll w (subscribers (session h))"
      "activeSubscribers (session ?u) = removeAll w (activeSubscribers (session h))"
      "state (session ?u) = state (session h)" "telemetrySnapshot (session ?u) = telemetrySnapshot (session h)"
      "to_server (windows ?u v) = to_server (windows h v)" for v
      by (simp_all add: unsubscribe_def Let_def)
    then show ?thesis
      using m True by (auto simp: detach_def mirrored_def server_ok_def in_sync_def new_window_def distinct_removeAll)
  qed
qed

text \<open>Operations of a window.\<close>

lemma mirrored_local_other:
  assumes ok: "mirrored c K w h" and v: "v \<noteq> w" and q: "\<And>k x. CSet k x \<in> set (to_server (f (windows h v))) \<Longrightarrow> k \<notin> K"
  shows "mirrored c K w (on_window v f h)"
  using ok v q by (auto simp: mirrored_def)

lemma mirrored_local_own:
  assumes ok: "mirrored c K w h" and ch: "w \<in> set (channels (session h))"
    and q: "\<And>k x. CSet k x \<in> set (to_server (f (windows h w))) \<Longrightarrow> k \<notin> K"
    and l: "\<And>b a. lawful b a (to_server (windows h w)) (views (windows h w)) \<Longrightarrow> lawful b a (to_server (f (windows h w))) (views (f (windows h w)))"
    and y: "in_sync c K (session h) (f (windows h w))"
  shows "mirrored c K w (on_window w f h)"
  using ok ch q l y by (auto simp: mirrored_def)

lemma mirrored_useSession:
  assumes ok: "mirrored c K w h" and ch: "w \<in> set (channels (session h))" and v: "views (windows h w) = []"
  shows "mirrored c K w (on_window w (useSession c i p) h)"
proof (rule mirrored_local_own [OF ok ch])
  show "lawful b a (to_server (windows h w)) (views (windows h w)) \<Longrightarrow>
      lawful b a (to_server (useSession c i p (windows h w))) (views (useSession c i p (windows h w)))" for b a
    using lawful_sub [of b a _ "new_view c i p"] v by (simp add: useSession_def post_def new_view_def)
  show "CSet k x \<in> set (to_server (useSession c i p (windows h w))) \<Longrightarrow> k \<notin> K" for k x
    using ok by (auto simp: mirrored_def useSession_def post_def)
qed (simp add: in_sync_def useSession_def post_def v settled_def keys_ok_def new_view_def)

lemma mirrored_disposeView:
  assumes ok: "mirrored c K w h" and ch: "w \<in> set (channels (session h))"
  shows "mirrored c K w (on_window w (disposeView i) h)"
proof (cases "find (\<lambda>v. v_id v = i) (views (windows h w))")
  case None
  then have "disposeView i (windows h w) = windows h w" by (simp add: disposeView_def)
  then show ?thesis using ok by (intro mirrored_local_own [OF ok ch]) (auto simp: mirrored_def)
next
  case (Some u)
  have "length (views (windows h w)) \<le> 1" using ok lawful_one unfolding mirrored_def by blast
  then have u: "views (windows h w) = [u]" "v_id u = i"
    using Some by (cases "views (windows h w)"; auto split: if_splits)+
  show ?thesis
  proof (rule mirrored_local_own [OF ok ch])
    show "lawful b a (to_server (windows h w)) (views (windows h w)) \<Longrightarrow>
        lawful b a (to_server (disposeView i (windows h w))) (views (disposeView i (windows h w)))" for b a
      using lawful_unsub [of b a _ u] u by (simp add: disposeView_def post_def)
    show "CSet k x \<in> set (to_server (disposeView i (windows h w))) \<Longrightarrow> k \<notin> K" for k x
      using ok u by (auto simp: mirrored_def disposeView_def post_def)
  qed (simp add: in_sync_def disposeView_def post_def u)
qed

text \<open>A written key shows up in no other key of the view, now or later.\<close>

lemma later_written:
  "v_error (fold show_evt ms (u\<lparr>v_state := AList.update k x (v_state u)\<rparr>)) = v_error (fold show_evt ms u)
   \<and> v_progress (fold show_evt ms (u\<lparr>v_state := AList.update k x (v_state u)\<rparr>)) = v_progress (fold show_evt ms u)
   \<and> v_telemetry (fold show_evt ms (u\<lparr>v_state := AList.update k x (v_state u)\<rparr>)) = v_telemetry (fold show_evt ms u)
   \<and> (i \<noteq> k \<longrightarrow> map_of (v_state (fold show_evt ms (u\<lparr>v_state := AList.update k x (v_state u)\<rparr>))) i = map_of (v_state (fold show_evt ms u)) i)"
proof (induction ms rule: rev_induct)
  case (snoc m ms)
  show ?case using snoc.IH
    by (cases m) (auto simp: put_key_def map_of_update has_key_iff)
qed (simp add: map_of_update)

lemma later_same:
  "v_error (fold show_evt ms (u\<lparr>v_state := AList.update k x (v_state u)\<rparr>)) = v_error (fold show_evt ms u)"
  "v_progress (fold show_evt ms (u\<lparr>v_state := AList.update k x (v_state u)\<rparr>)) = v_progress (fold show_evt ms u)"
  "v_telemetry (fold show_evt ms (u\<lparr>v_state := AList.update k x (v_state u)\<rparr>)) = v_telemetry (fold show_evt ms u)"
  using later_written by blast+

lemma later_other:
  "i \<noteq> k \<Longrightarrow> map_of (v_state (fold show_evt ms (u\<lparr>v_state := AList.update k x (v_state u)\<rparr>))) i = map_of (v_state (fold show_evt ms u)) i"
  using later_written by blast

lemma on_window_id: "f (windows h v) = windows h v \<Longrightarrow> on_window v f h = h"
  by (simp add: on_window_def)

lemma mirrored_write_state:
  assumes ok: "mirrored c K w h" and ch: "w \<in> set (channels (session h))" and k: "k \<notin> K"
  shows "mirrored c K w (on_window w (write_state i k x) h)"
proof -
  let ?x = "windows h w"
  let ?f = "\<lambda>u. if v_id u = i then u\<lparr>v_state := AList.update k x (v_state u)\<rparr> else u"
  have "mirrored c K w (on_window w (\<lambda>y. post (CSet k x) (y\<lparr>views := map ?f (views y)\<rparr>)) h)"
    if key: "\<exists>u \<in> set (views ?x). v_id u = i \<and> has_key (v_state u) k"
  proof (rule mirrored_local_own [OF ok ch])
    have "length (views ?x) \<le> 1" using ok lawful_one unfolding mirrored_def by blast
    with key obtain u where u: "views ?x = [u]" "v_id u = i" "has_key (v_state u) k"
      by (cases "views ?x") auto
    show "lawful b a (to_server (post (CSet k x) (?x\<lparr>views := map ?f (views ?x)\<rparr>))) (views (post (CSet k x) (?x\<lparr>views := map ?f (views ?x)\<rparr>)))"
      if "lawful b a (to_server ?x) (views ?x)" for b a
      using lawful_other [OF that, of "CSet k x"] lawful_views [where f = ?f] by (simp add: post_def)
    show "CSet k' x' \<in> set (to_server (post (CSet k x) (?x\<lparr>views := map ?f (views ?x)\<rparr>))) \<Longrightarrow> k' \<notin> K" for k' x'
      using ok k by (auto simp: mirrored_def post_def)
    let ?u = "u\<lparr>v_state := AList.update k x (v_state u)\<rparr>"
    have su: "keys_ok c u" "settled ?x \<longrightarrow> agrees c K (session h) (fold show_evt (from_server ?x) u)"
      using ok u(1) by (simp_all add: mirrored_def in_sync_def shown_later_def)
    have "keys_ok c ?u" using su(1) u(3) by (auto simp: keys_ok_def has_key_def)
    moreover have "agrees c K (session h) (fold show_evt (from_server ?x) ?u)" if "settled ?x"
      using su(2) that k unfolding agrees_def later_same by (metis later_other)
    ultimately show "in_sync c K (session h) (post (CSet k x) (?x\<lparr>views := map ?f (views ?x)\<rparr>))"
      using u by (simp add: in_sync_def post_def settled_def shown_later_def)
  qed
  note changed = this
  show ?thesis
  proof (cases "\<exists>u \<in> set (views ?x). v_id u = i \<and> has_key (v_state u) k")
    case True
    with changed [OF True] show ?thesis by (simp only: on_window_def write_state_def if_True)
  next
    case False
    then have "write_state i k x ?x = ?x" by (simp only: write_state_def if_False)
    from on_window_id [of "write_state i k x" h w, OF this] ok show ?thesis by simp
  qed
qed

lemma mirrored_receive:
  assumes ok: "mirrored c K w h" and ch: "w \<in> set (channels (session h))" and q: "from_server (windows h w) = m # ms"
  shows "mirrored c K w (on_window w (\<lambda>x. receive m (x\<lparr>from_server := ms\<rparr>)) h)"
proof -
  have "map (show_evt (SFrame t p)) us = us" for t p us by (rule map_idI) simp
  then have r: "views (receive m y) = map (show_evt m) (views y)" "to_server (receive m y) = to_server y"
    "from_server (receive m y) = from_server y" for y
    by (cases m; simp)+
  have v: "v_passive (show_evt m u) = v_passive u" for u by (cases m) simp_all
  show ?thesis
  proof (rule mirrored_local_own [OF ok ch])
    show "in_sync c K (session h) (receive m (windows h w\<lparr>from_server := ms\<rparr>))"
      using ok q by (auto simp: mirrored_def in_sync_def r settled_def shown_later_def)
  qed (use mirrored_sets [OF ok] lawful_views [where f = "show_evt m", OF v] in \<open>auto simp: r\<close>)
qed

fun allowed :: "string set \<Rightarrow> hub_event \<Rightarrow> bool" where
  "allowed K (WriteState w i k v) = (k \<notin> K)"
| "allowed K Dispose = False"
| "allowed K _ = True"

lemma mirrored_serve:
  assumes ok: "mirrored c K w h" and K: "K \<subseteq> set (keys_of (c_state c))" and q: "to_server (windows h v) = m # q"
  shows "mirrored c K w (serve v m (on_window v (\<lambda>x. x\<lparr>to_server := q\<rparr>) h))"
proof -
  let ?p = "on_window v (\<lambda>x. x\<lparr>to_server := q\<rparr>) h"
  note pop = mirrored_pop [OF ok q]
  have ch: "v = w \<Longrightarrow> v \<in> set (channels (session ?p))" using ok q by (auto simp: mirrored_def new_window_def)
  show ?thesis
  proof (cases m)
    case (CSub p)
    then show ?thesis
      using mirrored_subscribe_own [OF ok K, of p q] mirrored_subscribe_other [OF pop, of v p] q by (cases "v = w") auto
  next
    case (CUnsub p)
    then show ?thesis
      using mirrored_unsubscribe_own [OF ok, of p q] mirrored_unsubscribe_other [OF pop, of v p] q by (cases "v = w") auto
  next
    case (CSet k x)
    have "CSet k x \<in> set (to_server (windows h v))" using q CSet by simp
    then have "k \<notin> K" using ok unfolding mirrored_def by blast
    then show ?thesis using pop mirrored_onSetState [OF _ _ K] CSet by simp
  next
    case (CInterest t)
    then show ?thesis using pop mirrored_frame(2,3) ch by (cases "v = w") auto
  qed
qed

lemma mirrored_step:
  assumes ok: "mirrored c K w h" and K: "K \<subseteq> set (keys_of (c_state c))" and e: "allowed K e"
    and one: "\<And>i p. e = Mount w i p \<Longrightarrow> views (windows h w) = []"
  shows "mirrored c K w (hub_step c h e)"
proof (cases e)
  case (Attach v) then show ?thesis using mirrored_attach [OF ok] by simp
next
  case (Detach v) then show ?thesis using mirrored_detach [OF ok] by simp
next
  case (Serve v) then show ?thesis using mirrored_serve [OF ok K] ok by (simp split: list.split)
next
  case (Receive v)
  show ?thesis
  proof (cases "from_server (windows h v)")
    case (Cons m ms)
    have "w \<in> set (channels (session h))" if "v = w" using ok Cons that by (auto simp: mirrored_def new_window_def)
    moreover have "to_server (receive m (windows h v\<lparr>from_server := ms\<rparr>)) = to_server (windows h v)" by (cases m) simp_all
    ultimately show ?thesis
      using mirrored_receive [OF ok] mirrored_local_other [OF ok, of v "\<lambda>x. receive m (x\<lparr>from_server := ms\<rparr>)"] Cons Receive ok
      by (cases "v = w") (auto simp: mirrored_def)
  qed (simp add: Receive ok)
next
  case (Mount v i p)
  show ?thesis
  proof (cases "v = w")
    case True
    then show ?thesis using Mount one mirrored_useSession [OF ok] ok by (simp add: if_attached_def)
  next
    case False
    have "mirrored c K w (on_window v (useSession c i p) h)"
      by (rule mirrored_local_other [OF ok False]) (use mirrored_sets [OF ok] in \<open>auto simp: useSession_def post_def\<close>)
    then show ?thesis using Mount ok by (simp add: if_attached_def)
  qed
next
  case (Unmount v i)
  have "mirrored c K w (on_window v (disposeView i) h)" if "v \<noteq> w"
    by (rule mirrored_local_other [OF ok that]) (use mirrored_sets [OF ok] in \<open>auto simp: disposeView_def post_def split: option.splits\<close>)
  then show ?thesis using Unmount mirrored_disposeView [OF ok] ok by (cases "v = w") (simp_all add: if_attached_def)
next
  case (WriteState v i k x)
  then have k: "k \<notin> K" using e by simp
  have "mirrored c K w (on_window v (write_state i k x) h)" if "v \<noteq> w"
    by (rule mirrored_local_other [OF ok that]) (use mirrored_sets [OF ok] k in \<open>auto simp: write_state_def post_def split: if_splits\<close>)
  then show ?thesis using WriteState mirrored_write_state [OF ok _ k] ok by (cases "v = w") (simp_all add: if_attached_def)
next
  case (Interest v t)
  have "mirrored c K w (on_window v (declareFrameInterest t) h)" if "v \<noteq> w"
    by (rule mirrored_local_other [OF ok that]) (use mirrored_sets [OF ok] in \<open>auto simp: declareFrameInterest_def post_def\<close>)
  moreover have "mirrored c K w (on_window w (declareFrameInterest t) h)" if ch: "w \<in> set (channels (session h))"
  proof (rule mirrored_local_own [OF ok ch])
    show "in_sync c K (session h) (declareFrameInterest t (windows h w))"
      using ok by (auto simp: mirrored_def declareFrameInterest_def post_def in_sync_def settled_def shown_later_def)
  qed (use mirrored_sets [OF ok] lawful_other [of _ _ _ _ "CInterest t"] in \<open>auto simp: declareFrameInterest_def post_def\<close>)
  ultimately show ?thesis using Interest ok by (cases "v = w") (simp_all add: if_attached_def)
next
  case (ResetTelemetry ks)
  then show ?thesis using mirrored_telemetry [OF ok] by (simp add: resetTelemetry_def Let_def)
next
  case (PublishFrame t p)
  then show ?thesis using mirrored_frame(1) [OF ok] by simp
qed (use e mirrored_setState [OF ok K] mirrored_telemetry [OF ok] mirrored_status [OF ok] in simp_all)

definition contract_ok :: "contract \<Rightarrow> bool" where
  "contract_ok c \<longleftrightarrow> distinct (keys_of (c_state c)) \<and> distinct (keys_of (c_telemetry c))"

lemma mirrored_start: "contract_ok c \<Longrightarrow> mirrored c K w (new_hub c)"
  by (simp add: mirrored_def server_ok_def contract_ok_def new_hub_def new_session_def new_window_def in_sync_def)

abbreviation hub_run :: "contract \<Rightarrow> hub_event list \<Rightarrow> hub" where
  "hub_run c es \<equiv> run (hub_step c) (new_hub c) es"

text \<open>A window never has two views of the session at once.\<close>

fun one_view :: "contract \<Rightarrow> nat \<Rightarrow> hub \<Rightarrow> hub_event list \<Rightarrow> bool" where
  "one_view c w h [] = True"
| "one_view c w h (e # es) = ((case e of Mount v i p \<Rightarrow> v \<noteq> w \<or> views (windows h w) = [] | _ \<Rightarrow> True)
     \<and> one_view c w (hub_step c h e) es)"

lemma mirrored_run:
  "mirrored c K w h \<Longrightarrow> K \<subseteq> set (keys_of (c_state c)) \<Longrightarrow> list_all (allowed K) es \<Longrightarrow> one_view c w h es \<Longrightarrow>
   mirrored c K w (run (hub_step c) h es)"
proof (induction es arbitrary: h)
  case (Cons e es)
  have "mirrored c K w (hub_step c h e)"
    by (rule mirrored_step) (use Cons.prems in \<open>auto split: hub_event.splits\<close>)
  then show ?case using Cons by simp
qed simp

text \<open>
  C5. Whatever sessions, windows and the server do (a force-drain apart): once the server has served the
  requests of a window with at most one view of the session and the window has received what was sent,
  its view shows the server's telemetry, its failure and progress, and every state key that no window
  writes.
\<close>

theorem view_mirrors_server:
  fixes c es
  defines "h \<equiv> hub_run c es"
  assumes "contract_ok c" "K \<subseteq> set (keys_of (c_state c))" "list_all (allowed K) es" "one_view c w (new_hub c) es"
    and "to_server (windows h w) = []" "from_server (windows h w) = []" "u \<in> set (views (windows h w))"
  shows "v_error u = error (session h) \<and> v_progress u = progress (session h)
    \<and> (\<forall>k \<in> set (keys_of (c_telemetry c)). map_of (v_telemetry u) k = map_of (telemetrySnapshot (session h)) k)
    \<and> (\<forall>k \<in> K. map_of (v_state u) k = map_of (state (session h)) k)"
proof -
  have "mirrored c K w h" unfolding h_def by (rule mirrored_run [OF mirrored_start [OF assms(2)] assms(3-5)])
  then have "agrees c K (session h) u"
    using assms(6-8) by (auto simp: mirrored_def in_sync_def settled_def shown_later_def)
  then show ?thesis by (simp add: agrees_def)
qed

definition demo_contract :: contract where
  "demo_contract = \<lparr>c_state = [(''x'', JNull)], c_telemetry = [(''ready'', JBool False)]\<rparr>"

definition late_window :: "hub_event list" where
  "late_window = [Telemetry [(''ready'', JBool True)], SetState ''x'' (JStr ''on''), Fail ''camera busy'',
     Attach 1, Mount 1 0 True, Serve 1, Receive 1, Receive 1, Receive 1]"

lemma view_mirrors_server_witness:
  "\<exists>u. views (windows (hub_run demo_contract late_window) 1) = [u] \<and> v_error u = Some ''camera busy''
     \<and> map_of (v_telemetry u) ''ready'' = Some (JBool True)"
proof -
  let ?h = "hub_run demo_contract late_window"
  have c: "contract_ok demo_contract" "{''x''} \<subseteq> set (keys_of (c_state demo_contract))" "list_all (allowed {''x''}) late_window"
    by code_simp+
  have o: "one_view demo_contract 1 (new_hub demo_contract) late_window" by code_simp
  have q: "to_server (windows ?h 1) = [] \<and> from_server (windows ?h 1) = [] \<and> length (views (windows ?h 1)) = 1
      \<and> error (session ?h) = Some ''camera busy'' \<and> map_of (telemetrySnapshot (session ?h)) ''ready'' = Some (JBool True)
      \<and> keys_of (c_telemetry demo_contract) = [''ready'']" by code_simp
  then obtain u where u: "views (windows ?h 1) = [u]" by (cases "views (windows ?h 1)") auto
  have "v_error u = error (session ?h) \<and> map_of (v_telemetry u) ''ready'' = map_of (telemetrySnapshot (session ?h)) ''ready''"
    using view_mirrors_server [OF c o, of u] q u by simp
  then show ?thesis using u q by auto
qed

section \<open>Activation hooks and progress\<close>

fun alternating :: "hook list \<Rightarrow> bool" where
  "alternating [] = True"
| "alternating [x] = (x = Activated)"
| "alternating (x # y # xs) = (x = Activated \<and> y = Idled \<and> alternating xs)"

text \<open>An activation is open when one more hook has activated than has idled.\<close>

lemma alternating_snoc:
  "alternating xs \<Longrightarrow> even (length xs) \<Longrightarrow> alternating (xs @ [Activated])"
  "alternating xs \<Longrightarrow> odd (length xs) \<Longrightarrow> alternating (xs @ [Idled])"
  by (induction xs rule: alternating.induct) auto

definition hooks_ok :: "session \<Rightarrow> bool" where
  "hooks_ok s \<longleftrightarrow> alternating (hooks s) \<and> (odd (length (hooks s)) \<longleftrightarrow> activeSubscribers s \<noteq> [])"

text \<open>What is shown is the list of the current handle.\<close>

definition progress_ok :: "session \<Rightarrow> bool" where
  "progress_ok s \<longleftrightarrow> (case activeMonitor s of
      None \<Rightarrow> progress s = None
    | Some i \<Rightarrow> i < length (monitors s) \<and> (progress s = None \<or> progress s = Some (monitors s ! i)))"

lemma pushed_session [simp]:
  "session (broadcast m h) = session h" "session (seed w h) = session h" "session (sendFrame t p w h) = session h"
  "session (fold (sendFrame t p) ws h) = session h"
  by (simp_all add: broadcast_def seed_def Let_def sendFrame_def) (induction ws arbitrary: h; simp add: sendFrame_def)

lemmas session_ops = setState_def telemetry_def resetTelemetry_def fail_def clearError_def setProgress_def
  progressMonitor_def publish_def monitor_step_def monitor_complete_def runIdle_def publish_frame_def
  onFrameInterest_def onSetState_def subscribe_def clearFrameCache_def unsubscribe_def dispose_def attach_def detach_def
  if_attached_def Let_def

lemma serve_session_ok:
  "hooks_ok (session h) \<Longrightarrow> hooks_ok (session (serve w m h))"
  "progress_ok (session h) \<Longrightarrow> progress_ok (session (serve w m h))"
  by (cases m; auto simp: session_ops hooks_ok_def alternating_snoc split: option.split)
    (cases m; auto simp: session_ops progress_ok_def split: option.splits)

lemma step_session_ok:
  "hooks_ok (session h) \<Longrightarrow> hooks_ok (session (hub_step c h e))"
  "progress_ok (session h) \<Longrightarrow> progress_ok (session (hub_step c h e))"
  by (cases e; auto simp: session_ops hooks_ok_def [symmetric] serve_session_ok split: list.split;
      auto simp: hooks_ok_def alternating_snoc)
    (cases e; auto simp: session_ops serve_session_ok split: list.split; auto simp: progress_ok_def nth_append split: option.splits)

interpretation lifecycle: started_machine "hub_step c" "\<lambda>h. hooks_ok (session h) \<and> progress_ok (session h)" "new_hub c" for c
  by unfold_locales
    (simp_all add: step_session_ok, simp add: hooks_ok_def progress_ok_def new_hub_def new_session_def)

text \<open>
  C23. Whatever order windows subscribe, leave, close or are drained in, the session's hooks alternate,
  activation first, and the last one is an activation exactly while some window observes actively.
\<close>

theorem activation_hooks_alternate:
  "alternating (hooks (session (hub_run c es)))
    \<and> (odd (length (hooks (session (hub_run c es)))) \<longleftrightarrow> activeSubscribers (session (hub_run c es)) \<noteq> [])"
  using lifecycle.reachable_inv [of c es] by (simp add: hooks_ok_def)

text \<open>
  The progress shown is always the list of the handle declared last, a handle of an older spin-up
  changes nothing, and when the last active window leaves the progress is cleared and every handle stale.
\<close>

theorem stale_progress_is_inert:
  fixes c es
  defines "h \<equiv> hub_run c es"
  shows "(case progress (session h) of None \<Rightarrow> True
      | Some items \<Rightarrow> \<exists>i. activeMonitor (session h) = Some i \<and> items = monitors (session h) ! i)
    \<and> (activeMonitor (session h) \<noteq> Some j \<longrightarrow>
        progress (session (hub_step c h (StepProgress j k st))) = progress (session h)
        \<and> progress (session (hub_step c h (CompleteProgress j))) = progress (session h))
    \<and> (activeSubscribers (session h) = [w] \<longrightarrow> progress (session (detach w h)) = None \<and> activeMonitor (session (detach w h)) = None)"
proof -
  have "progress_ok (session h)" unfolding h_def using lifecycle.reachable_inv by simp
  then have "case progress (session h) of None \<Rightarrow> True
      | Some items \<Rightarrow> \<exists>i. activeMonitor (session h) = Some i \<and> items = monitors (session h) ! i"
    by (auto simp: progress_ok_def split: option.splits)
  then show ?thesis by (simp add: session_ops)
qed

lemma stale_progress_is_inert_witness:
  "let h = hub_run demo_contract [DeclareProgress [(''a'', ''A'')], DeclareProgress [(''b'', ''B'')]]
   in progress (session (hub_step demo_contract h (StepProgress 0 ''a'' Done))) = Some [\<lparr>item_id = ''b'', item_label = ''B'', item_state = Pending\<rparr>]"
proof -
  let ?h = "hub_run demo_contract [DeclareProgress [(''a'', ''A'')], DeclareProgress [(''b'', ''B'')]]"
  have "activeMonitor (session ?h) \<noteq> Some 0 \<and> progress (session ?h) = Some [\<lparr>item_id = ''b'', item_label = ''B'', item_state = Pending\<rparr>]"
    by code_simp
  with stale_progress_is_inert [of demo_contract "[DeclareProgress [(''a'', ''A'')], DeclareProgress [(''b'', ''B'')]]" 0 "''a''" Done 0]
  show ?thesis unfolding Let_def by simp
qed

section \<open>Views left behind\<close>

definition shows_state :: "hub \<Rightarrow> nat \<Rightarrow> nat \<Rightarrow> string \<Rightarrow> jsval option" where
  "shows_state h w i k = (case find (\<lambda>v. v_id v = i) (views (windows h w)) of None \<Rightarrow> None | Some u \<Rightarrow> map_of (v_state u) k)"

definition drained :: "nat list \<Rightarrow> hub \<Rightarrow> bool" where
  "drained ws h \<longleftrightarrow> list_all (\<lambda>w. to_server (windows h w) = [] \<and> from_server (windows h w) = []) ws"

definition receive_all :: "nat \<Rightarrow> hub_event list" where
  "receive_all w = replicate 8 (Receive w)"

text \<open>
  Two windows that write the same state key at the same time: the one served first is sent the
  other's value after its own, the one served second is sent the first's value and nothing later, as its
  own write is not echoed. With every message delivered, it shows a value the server no longer has.
\<close>

theorem crossing_writes_diverge:
  "let h = hub_run demo_contract ([Attach 1, Attach 2, Mount 1 0 False, Mount 2 0 False, Serve 1, Serve 2]
         @ receive_all 1 @ receive_all 2
         @ [WriteState 1 0 ''x'' (JStr ''a''), WriteState 2 0 ''x'' (JStr ''b''), Serve 1, Serve 2] @ receive_all 1 @ receive_all 2)
   in drained [1, 2] h \<and> map_of (state (session h)) ''x'' = Some (JStr ''b'')
    \<and> shows_state h 1 0 ''x'' = Some (JStr ''b'') \<and> shows_state h 2 0 ''x'' = Some (JStr ''a'')"
  by code_simp

text \<open>
  A second view of a session in a window that already observes it is not seeded: it shows the
  contract's default although the server's value, and the first view's, is another (the app inside a
  host that observes its status).
\<close>

theorem second_view_is_not_seeded:
  "let h = hub_run demo_contract ([SetState ''x'' (JStr ''on''), Attach 1, Mount 1 0 True, Serve 1] @ receive_all 1
         @ [Mount 1 1 False, Serve 1] @ receive_all 1)
   in drained [1] h \<and> map_of (state (session h)) ''x'' = Some (JStr ''on'')
    \<and> shows_state h 1 0 ''x'' = Some (JStr ''on'') \<and> shows_state h 1 1 ''x'' = Some JNull"
  by code_simp

text \<open>
  When the active view of a window is disposed, the server drops the window's passive observation
  with it: the passive view that is still mounted is told nothing of what follows.
\<close>

theorem active_dispose_drops_passive_view:
  "let h = hub_run demo_contract ([Attach 1, Mount 1 0 True, Mount 1 1 False, Serve 1, Serve 1] @ receive_all 1
         @ [Unmount 1 1, Serve 1, SetState ''x'' (JStr ''on''), Fail ''lost''] @ receive_all 1)
   in drained [1] h \<and> map_of (state (session h)) ''x'' = Some (JStr ''on'')
    \<and> shows_state h 1 0 ''x'' = Some JNull \<and> subscribers (session h) = []"
  by code_simp

end
