(* ===== verification/ErrorTray.thy ===== *)
theory ErrorTray
  imports Prelude "HOL-Library.Multiset"
begin

text \<open>
  The diagnostics a window keeps (\<open>app/lib/orchestrator/client.ts\<close>): the tray of error reports, newest
  first, with repeats coalesced and at most 50 rows, how \<open>app/src/components/ErrorTray.vue\<close> orders and
  titles it, and the ring of the newest 200 timing spans. The clock is an argument. The lemmas show that
  rows are unique, that a tray that drops no row counts every report, that the panel puts errors first
  without losing recency, and that the ring holds the newest spans.
\<close>

section \<open>Reports\<close>

datatype level = Error | Warning

text \<open>Errors are shown above warnings.\<close>

instantiation level :: linorder
begin

definition less_eq_level :: "level \<Rightarrow> level \<Rightarrow> bool" where
  "a \<le> b \<longleftrightarrow> a = Error \<or> b = Warning"

definition less_level :: "level \<Rightarrow> level \<Rightarrow> bool" where
  "a < b \<longleftrightarrow> a = Error \<and> b = Warning"

instance
proof
  fix a b c :: level
  show "a < b \<longleftrightarrow> a \<le> b \<and> \<not> b \<le> a" "a \<le> a" "a \<le> b \<or> b \<le> a"
    by (cases a; cases b; simp add: less_eq_level_def less_level_def)+
  show "a \<le> b \<Longrightarrow> b \<le> c \<Longrightarrow> a \<le> c" "a \<le> b \<Longrightarrow> b \<le> a \<Longrightarrow> a = b"
    by (auto simp: less_eq_level_def)
qed

end

record report =
  scope :: string
  message :: string
  level :: level
  count :: nat
  firstAt :: real
  lastAt :: real

definition ERROR_TRAY_CAPACITY :: nat where "ERROR_TRAY_CAPACITY = 50"

text \<open>The row a new report coalesces into: a warning's scope, an error's scope and message.\<close>

definition same_row :: "string \<Rightarrow> string \<Rightarrow> level \<Rightarrow> report \<Rightarrow> bool" where
  "same_row sc m l r = (if l = Warning then scope r = sc \<and> level r = Warning
     else scope r = sc \<and> message r = m \<and> level r = Error)"

fun find_row :: "(report \<Rightarrow> bool) \<Rightarrow> report list \<Rightarrow> (report \<times> report list) option" where
  "find_row P [] = None"
| "find_row P (r # rs) = (if P r then Some (r, rs)
     else map_option (\<lambda>(x, xs). (x, r # xs)) (find_row P rs))"

definition reportToTray :: "real \<Rightarrow> string \<Rightarrow> string \<Rightarrow> level \<Rightarrow> report list \<Rightarrow> report list" where
  "reportToTray at_ms sc m l tray = (case find_row (same_row sc m l) tray of
      Some (r, rest) \<Rightarrow> r\<lparr>message := m, count := count r + 1, lastAt := at_ms\<rparr> # rest
    | None \<Rightarrow> (let t = \<lparr>scope = sc, message = m, level = l, count = 1, firstAt = at_ms, lastAt = at_ms\<rparr> # tray
        in if ERROR_TRAY_CAPACITY < length t then butlast t else t))"

text \<open>\<open>dismissError\<close> removes the first row that is the report.\<close>

definition dismissError :: "report \<Rightarrow> report list \<Rightarrow> report list" where
  "dismissError r tray = remove1 r tray"

definition clearErrors :: "report list \<Rightarrow> report list" where
  "clearErrors tray = []"

section \<open>The panel\<close>

definition hasError :: "report list \<Rightarrow> bool" where
  "hasError tray \<longleftrightarrow> list_ex (\<lambda>r. level r = Error) tray"

definition hasWarning :: "report list \<Rightarrow> bool" where
  "hasWarning tray \<longleftrightarrow> list_ex (\<lambda>r. level r = Warning) tray"

definition panelTitle :: "report list \<Rightarrow> string" where
  "panelTitle tray = (if tray = [] then ''All clear'' else if \<not> hasError tray then ''Warnings''
     else if hasWarning tray then ''Errors & warnings'' else ''Errors'')"

definition panel_rows :: "report list \<Rightarrow> report list" where
  "panel_rows tray = sort_key level tray"

definition rowKey :: "report \<Rightarrow> real \<times> string \<times> level \<times> string" where
  "rowKey r = (firstAt r, scope r, level r, message r)"

definition dismiss :: "report \<Rightarrow> report list \<times> bool \<Rightarrow> report list \<times> bool" where
  "dismiss r p = (let t = dismissError r (fst p) in (t, if t = [] then False else snd p))"

definition clearAll :: "report list \<times> bool \<Rightarrow> report list \<times> bool" where
  "clearAll p = (clearErrors (fst p), False)"

text \<open>Stable: errors above warnings, the newest first within each.\<close>

lemma panel_rows_stable:
  "sorted (map level (panel_rows tray))" "mset (panel_rows tray) = mset tray"
  "filter (\<lambda>r. level r = l) (panel_rows tray) = filter (\<lambda>r. level r = l) tray"
  by (simp_all add: panel_rows_def sort_key_stable)

section \<open>Rows are unique\<close>

text \<open>What makes two rows the same row.\<close>

definition row_key :: "report \<Rightarrow> string \<times> level \<times> string" where
  "row_key r = (scope r, level r, if level r = Warning then '''' else message r)"

lemma same_row_key: "same_row sc m l r \<longleftrightarrow> row_key r = (sc, l, if l = Warning then '''' else m)"
  by (cases l; cases "level r") (auto simp: same_row_def row_key_def)

lemma find_row_Some:
  "find_row P rs = Some (r, rest) \<Longrightarrow> P r \<and> mset rs = add_mset r (mset rest)"
  by (induction rs arbitrary: r rest) (auto split: if_splits)

lemma find_row_None: "find_row P rs = None \<longleftrightarrow> (\<forall>r \<in> set rs. \<not> P r)"
  by (induction rs) auto

datatype tray_event = Report real string string level | Dismiss report | ClearAll

fun tray_step :: "report list \<Rightarrow> tray_event \<Rightarrow> report list" where
  "tray_step tray (Report t sc m l) = reportToTray t sc m l tray"
| "tray_step tray (Dismiss r) = dismissError r tray"
| "tray_step tray ClearAll = clearErrors tray"

definition tray_ok :: "report list \<Rightarrow> bool" where
  "tray_ok tray \<longleftrightarrow> length tray \<le> ERROR_TRAY_CAPACITY \<and> distinct (map row_key tray) \<and> (\<forall>r \<in> set tray. 0 < count r)"

lemma tray_report:
  assumes ok: "tray_ok tray"
  shows "tray_ok (reportToTray t sc m l tray)"
proof (cases "find_row (same_row sc m l) tray")
  case None
  let ?r = "\<lparr>scope = sc, message = m, level = l, count = 1, firstAt = t, lastAt = t\<rparr>"
  have "row_key ?r \<notin> row_key ` set tray"
    using None by (auto simp: find_row_None same_row_key row_key_def)
  then have "distinct (map row_key (?r # tray)) \<and> (\<forall>r \<in> set (?r # tray). 0 < count r)" using ok by (auto simp: tray_ok_def)
  then show ?thesis
    using None ok by (auto simp: reportToTray_def tray_ok_def Let_def map_butlast distinct_butlast simp del: butlast.simps dest!: in_set_butlastD)
next
  case (Some p)
  obtain r rest where p: "p = (r, rest)" by (cases p)
  note f = find_row_Some [OF Some [unfolded p]]
  have k: "row_key (r\<lparr>message := m, count := count r + 1, lastAt := t\<rparr>) = row_key r"
    using f by (auto simp: same_row_key row_key_def)
  have "length tray = Suc (length rest)" using f by (metis size_add_mset size_mset)
  moreover have "set tray = insert r (set rest)" using f by (metis set_mset_add_mset_insert set_mset_mset)
  moreover have "row_key r \<notin> row_key ` set rest \<and> distinct (map row_key rest)"
  proof -
    have "mset (map row_key tray) = mset (map row_key (r # rest))" using f by simp
    from mset_eq_imp_distinct_iff [OF this] ok show ?thesis by (simp add: tray_ok_def)
  qed
  ultimately show ?thesis using ok k Some p by (simp add: reportToTray_def tray_ok_def)
qed

interpretation tray: started_machine tray_step tray_ok "[]"
proof unfold_locales
  show "tray_ok (tray_step tray e)" if "tray_ok tray" for tray e
  proof (cases e)
    case (Dismiss r)
    have "distinct (map row_key (remove1 r tray))" using that by (auto simp: tray_ok_def distinct_map inj_on_def dest: notin_set_remove1)
    then show ?thesis using that Dismiss
      by (auto simp: dismissError_def tray_ok_def length_remove1 dest: notin_set_remove1)
  next
    case (Report t sc m l)
    then show ?thesis using tray_report [OF that] by simp
  qed (simp add: clearErrors_def tray_ok_def)
qed (simp add: tray_ok_def)

text \<open>
  After every history the tray has at most 50 rows, one for each scope of a warning and for each
  scope and message of an error, so the panel's row identities are distinct, errors stand above
  warnings, and each kind keeps the tray's order.
\<close>

theorem tray_rows_are_unique:
  fixes es
  defines "tray \<equiv> run tray_step [] es"
  shows "length tray \<le> 50 \<and> distinct (map row_key tray) \<and> distinct (map rowKey (panel_rows tray))
    \<and> sorted (map level (panel_rows tray)) \<and> filter (\<lambda>r. level r = l) (panel_rows tray) = filter (\<lambda>r. level r = l) tray"
proof -
  have ok: "length tray \<le> 50" "distinct (map row_key tray)"
    unfolding tray_def using tray.reachable_inv [of es] by (simp_all add: tray_ok_def ERROR_TRAY_CAPACITY_def)
  have "inj_on rowKey (set tray)"
    using ok(2) by (auto simp: distinct_map inj_on_def rowKey_def row_key_def)
  then have "distinct (map rowKey tray)" using ok(2) by (simp add: distinct_map)
  then have "distinct (map rowKey (panel_rows tray))"
    by (metis mset_eq_imp_distinct_iff mset_map panel_rows_stable(2))
  then show ?thesis using ok panel_rows_stable by simp
qed

lemma report_counts:
  assumes "length (reportToTray t sc m l tray) < ERROR_TRAY_CAPACITY \<or> find_row (same_row sc m l) tray \<noteq> None"
  shows "sum_list (map count (reportToTray t sc m l tray)) = sum_list (map count tray) + 1"
proof (cases "find_row (same_row sc m l) tray")
  case None
  then show ?thesis using assms by (auto simp: reportToTray_def Let_def split: if_splits)
next
  case (Some p)
  obtain r rest where p: "p = (r, rest)" by (cases p)
  have "sum_mset (image_mset count (mset tray)) = count r + sum_mset (image_mset count (mset rest))"
    using find_row_Some [OF Some [unfolded p]] by simp
  then show ?thesis using Some p by (simp add: reportToTray_def sum_mset_sum_list flip: mset_map)
qed

section \<open>Spans\<close>

definition SPAN_RING_CAPACITY :: nat where "SPAN_RING_CAPACITY = 200"

definition push_span :: "'a \<Rightarrow> 'a list \<Rightarrow> 'a list" where
  "push_span s ring = (let r = ring @ [s] in if SPAN_RING_CAPACITY < length r then tl r else r)"

interpretation spans: bounded_buffer push_span "\<lambda>r. r" SPAN_RING_CAPACITY "\<lambda>r. length r \<le> SPAN_RING_CAPACITY"
proof unfold_locales
  show "push_span x b = keep_last SPAN_RING_CAPACITY (b @ [x])" if "length b \<le> SPAN_RING_CAPACITY" for b x
  proof (cases "length b = SPAN_RING_CAPACITY")
    case True
    moreover have "tl (b @ [x]) = tl b @ [x]" using True by (cases b) (simp_all add: SPAN_RING_CAPACITY_def)
    ultimately show ?thesis by (simp add: push_span_def keep_last_def drop_Suc Let_def SPAN_RING_CAPACITY_def)
  qed (use that in \<open>simp add: push_span_def keep_last_short\<close>)
qed (auto simp: push_span_def SPAN_RING_CAPACITY_def Let_def)

lemma ring_holds_newest_spans: "fold push_span ss [] = keep_last 200 ss"
  using spans.contents_fold [of "[]" ss] by (simp add: SPAN_RING_CAPACITY_def)

end
