(* ===== verification/FrameView.thy ===== *)
theory FrameView
  imports Prelude "HOL-Library.Multiset"
begin

text \<open>
  A window's frame ref (\<open>frame\<close> of \<open>useSession\<close>, \<open>app/lib/orchestrator/client.ts\<close>): incoming frames are
  coalesced to one animation frame, the newest is read from shared memory into a pool buffer, and the
  buffer that is displaced goes back to the pool. The connection, the animation frames and the end of a
  read are events; a read may yield nothing. The lemmas show that no buffer is lost or released twice,
  that the newest frame is painted once frames stop, that a view disposed before it is connected keeps a
  buffer for ever, and that nothing is painted while reads take longer than a frame.
\<close>

section \<open>The frame ref\<close>

record frame_ref =
  listening :: bool
  latest :: "nat option"
  scheduled :: bool
  rafId :: bool
  token :: nat
  reads :: "(nat \<times> nat) list"
  shown :: "(nat \<times> nat) option"
  disposed :: bool
  nextBuffer :: nat
  released :: "nat list"
  painted :: "nat list"

definition new_ref :: frame_ref where
  "new_ref = \<lparr>listening = False, latest = None, scheduled = False, rafId = False, token = 0, reads = [],
     shown = None, disposed = False, nextBuffer = 0, released = [], painted = []\<rparr>"

text \<open>\<open>shm.release\<close>: nothing to do for null.\<close>

fun release :: "(nat \<times> nat) option \<Rightarrow> frame_ref \<Rightarrow> frame_ref" where
  "release None s = s"
| "release (Some (p, b)) s = s\<lparr>released := released s @ [b]\<rparr>"

definition schedule :: "frame_ref \<Rightarrow> frame_ref" where
  "schedule s = (if scheduled s then s else s\<lparr>scheduled := True, rafId := True\<rparr>)"

text \<open>\<open>ready\<close> resolves: the listener is registered, whether or not the scope is gone.\<close>

definition connected_ref :: "frame_ref \<Rightarrow> frame_ref" where
  "connected_ref s = s\<lparr>listening := True\<rparr>"

definition frame_arrives :: "nat \<Rightarrow> frame_ref \<Rightarrow> frame_ref" where
  "frame_arrives p s = (if listening s then schedule (s\<lparr>latest := Some p\<rparr>) else s)"

definition flush :: "frame_ref \<Rightarrow> frame_ref" where
  "flush s = (if \<not> rafId s then s
     else let s1 = s\<lparr>scheduled := False, rafId := False, latest := None, token := token s + 1\<rparr>
       in case latest s of
            None \<Rightarrow> s1\<lparr>shown := None\<rparr>
          | Some p \<Rightarrow> s1\<lparr>reads := reads s @ [(token s + 1, p)]\<rparr>)"

text \<open>The read at a position resolves, with a fresh pool buffer or with nothing.\<close>

definition read_done :: "nat \<Rightarrow> bool \<Rightarrow> frame_ref \<Rightarrow> frame_ref" where
  "read_done i ok s = (if length (reads s) \<le> i then s
     else case reads s ! i of (tok, p) \<Rightarrow>
       let b = nextBuffer s; payload = (if ok then Some (p, b) else None);
           s1 = s\<lparr>reads := take i (reads s) @ drop (Suc i) (reads s), nextBuffer := (if ok then b + 1 else b)\<rparr>
       in if tok \<noteq> token s1 then release payload s1
          else let s2 = (release (shown s1) s1)\<lparr>shown := payload,
                      painted := painted s @ (if ok then [p] else [])\<rparr>
            in if latest s2 \<noteq> None then schedule s2 else s2)"

text \<open>The disposer; the listener goes only if it had been registered by then.\<close>

definition dispose_ref :: "frame_ref \<Rightarrow> frame_ref" where
  "dispose_ref s = (let s1 = s\<lparr>rafId := False, scheduled := False, token := token s + 1, latest := None\<rparr>
     in (release (shown s1) s1)\<lparr>shown := None, listening := False, disposed := True\<rparr>)"

datatype ref_event = Connect | Arrive nat | Paint | ReadDone nat bool | DisposeRef

fun ref_step :: "frame_ref \<Rightarrow> ref_event \<Rightarrow> frame_ref" where
  "ref_step s Connect = connected_ref s"
| "ref_step s (Arrive p) = frame_arrives p s"
| "ref_step s Paint = flush s"
| "ref_step s (ReadDone i ok) = read_done i ok s"
| "ref_step s DisposeRef = dispose_ref s"

section \<open>Buffers\<close>

definition shown_buffers :: "frame_ref \<Rightarrow> nat list" where
  "shown_buffers s = (case shown s of None \<Rightarrow> [] | Some (p, b) \<Rightarrow> [b])"

text \<open>Every buffer handed out is released or the one shown, and an animation frame has a frame to paint.\<close>

definition ref_ok :: "frame_ref \<Rightarrow> bool" where
  "ref_ok s \<longleftrightarrow> mset (released s) + mset (shown_buffers s) = mset [0..<nextBuffer s]
     \<and> rafId s = scheduled s \<and> scheduled s = (latest s \<noteq> None) \<and> (\<forall>r \<in> set (reads s). fst r \<le> token s)"

lemma release_fields [simp]:
  "listening (release x s) = listening s" "latest (release x s) = latest s" "scheduled (release x s) = scheduled s"
  "rafId (release x s) = rafId s" "token (release x s) = token s" "reads (release x s) = reads s"
  "shown (release x s) = shown s" "disposed (release x s) = disposed s" "nextBuffer (release x s) = nextBuffer s"
  "painted (release x s) = painted s" "released (release x s) = released s @ (case x of None \<Rightarrow> [] | Some (p, b) \<Rightarrow> [b])"
  by (cases "(x, s)" rule: release.cases; simp)+

lemmas ref_books = ref_ok_def shown_buffers_def

lemma schedule_ok: "ref_ok s \<Longrightarrow> latest s \<noteq> None \<Longrightarrow> schedule s = s"
  by (simp add: schedule_def ref_ok_def)

lemma settled_read:
  assumes s: "ref_ok s" and rs: "set rs \<subseteq> set (reads s)" and e: "e = (if ok then Some (p, nextBuffer s) else None)"
  defines "s1 \<equiv> s\<lparr>reads := rs, nextBuffer := (if ok then nextBuffer s + 1 else nextBuffer s)\<rparr>"
  shows "ref_ok (release e s1)" and "ref_ok ((release (shown s1) s1)\<lparr>shown := e, painted := ps\<rparr>)"
proof -
  have le: "\<forall>r \<in> set rs. fst r \<le> token s" using s rs by (auto simp: ref_ok_def)
  have flags: "rafId s = scheduled s" "scheduled s = (latest s \<noteq> None)" using s by (simp_all add: ref_ok_def)
  have m: "mset (released s) + mset (shown_buffers s) = mset [0..<nextBuffer s]" using s by (simp add: ref_ok_def)
  show "ref_ok (release e s1)"
    using m le flags by (cases ok) (simp_all add: e s1_def ref_books)
  show "ref_ok ((release (shown s1) s1)\<lparr>shown := e, painted := ps\<rparr>)"
    using m le flags by (cases ok; cases "shown s") (simp_all add: e s1_def ref_books split: prod.splits)
qed

lemma set_without_nth: "set (take i xs @ drop (Suc i) xs) \<subseteq> set xs"
  using set_take_subset [of i xs] set_drop_subset [of "Suc i" xs] by simp

lemma read_done_ok: "ref_ok s \<Longrightarrow> ref_ok (read_done i ok s)"
proof (cases "i < length (reads s)")
  case True
  assume s: "ref_ok s"
  obtain tok p where r: "reads s ! i = (tok, p)" by (cases "reads s ! i")
  note both = settled_read [OF s set_without_nth [of i "reads s"] refl, where ok = ok and p = p]
  show ?thesis
    using both(1) both(2) [where ps = "painted s @ (if ok then [p] else [])"] True r
    by (simp add: read_done_def Let_def schedule_ok)
qed (simp add: read_done_def)

lemma flush_ok: "ref_ok s \<Longrightarrow> ref_ok (flush s)"
  by (cases "latest s"; cases "rafId s") (auto simp: ref_ok_def flush_def shown_buffers_def Let_def)

lemma arrives_ok: "ref_ok s \<Longrightarrow> ref_ok (frame_arrives p s)"
  by (simp add: ref_ok_def frame_arrives_def schedule_def shown_buffers_def)

lemma dispose_ref_ok: "ref_ok s \<Longrightarrow> ref_ok (dispose_ref s)"
  by (cases "shown s") (auto simp: ref_ok_def dispose_ref_def shown_buffers_def Let_def)

lemma connected_ok: "ref_ok s \<Longrightarrow> ref_ok (connected_ref s)"
  by (simp add: ref_ok_def connected_ref_def shown_buffers_def)

lemma ref_step_ok: "ref_ok s \<Longrightarrow> ref_ok (ref_step s e)"
  by (cases e) (simp_all add: connected_ok arrives_ok flush_ok read_done_ok dispose_ref_ok)

interpretation frame_ref: borrower ref_step ref_ok new_ref "\<lambda>s. [0..<nextBuffer s]" released shown_buffers
  by unfold_locales
    (rule ref_step_ok, assumption, simp add: ref_ok_def new_ref_def shown_buffers_def, simp add: ref_ok_def del: mset_upt)

text \<open>Once disposed after it was connected, a view paints nothing and takes no frame.\<close>

definition gone :: "frame_ref \<Rightarrow> bool" where
  "gone s \<longleftrightarrow> \<not> listening s \<and> shown s = None \<and> latest s = None \<and> \<not> rafId s \<and> (\<forall>r \<in> set (reads s). fst r < token s)"

lemma gone_read: "gone s \<Longrightarrow> gone (read_done i ok s)"
proof (cases "i < length (reads s)")
  case True
  assume g: "gone s"
  obtain tok p where r: "reads s ! i = (tok, p)" by (cases "reads s ! i")
  have "(tok, p) \<in> set (reads s)" using nth_mem [OF True] r by simp
  with g have "tok < token s" by (auto simp: gone_def)
  moreover have "\<forall>r \<in> set (take i (reads s) @ drop (Suc i) (reads s)). fst r < token s"
    using g set_without_nth [of i "reads s"] unfolding gone_def by blast
  ultimately show ?thesis using g True r by (simp add: read_done_def gone_def Let_def)
qed (simp add: read_done_def)

lemma gone_step: "gone s \<Longrightarrow> e \<noteq> Connect \<Longrightarrow> gone (ref_step s e)"
  by (cases e) (auto simp: gone_read, auto simp: gone_def frame_arrives_def flush_def dispose_ref_def Let_def intro: less_SucI)

interpretation gone: guarded_machine ref_step gone "\<lambda>e. e \<noteq> Connect"
  by unfold_locales (rule gone_step)

lemma gone_dispose: "ref_ok s \<Longrightarrow> gone (dispose_ref s)"
  by (auto simp: gone_def dispose_ref_def ref_ok_def Let_def less_Suc_eq_le)

text \<open>
  In every history each pool buffer is released at most once and every buffer not yet released is the
  one shown; after the view is disposed, if it had been connected before, every buffer handed out, now or
  later, is released exactly once.
\<close>

theorem buffers_return_to_the_pool:
  fixes es fs
  defines "s \<equiv> run ref_step new_ref (es @ DisposeRef # fs)"
  assumes "Connect \<notin> set fs"
  shows "distinct (released (run ref_step new_ref es)) \<and> length (shown_buffers (run ref_step new_ref es)) \<le> 1
    \<and> set (released (run ref_step new_ref es)) \<union> set (shown_buffers (run ref_step new_ref es)) = {0..<nextBuffer (run ref_step new_ref es)}
    \<and> mset (released s) = mset [0..<nextBuffer s]"
proof -
  let ?r = "run ref_step new_ref es"
  have "length (shown_buffers ?r) \<le> 1" by (simp add: shown_buffers_def split: option.split)
  moreover have "gone s"
    unfolding s_def using gone.run_inv [OF gone_dispose [OF frame_ref.reachable_inv [of es]], of fs] assms(2)
    by (auto simp: list_all_iff)
  then have "shown_buffers s = []" by (simp add: gone_def shown_buffers_def)
  moreover have "mset [0..<nextBuffer s] = mset (released s) + mset (shown_buffers s)"
    unfolding s_def by (rule frame_ref.inv_books [OF frame_ref.reachable_inv])
  ultimately show ?thesis using frame_ref.returned_once [of es] by simp
qed

lemma buffers_return_to_the_pool_witness:
  "mset (released (run ref_step new_ref ([Connect, Arrive 5, Paint, ReadDone 0 True, Arrive 6, Paint] @ DisposeRef # [ReadDone 0 True]))) = {#0, 1#}"
proof -
  let ?es = "[Connect, Arrive 5, Paint, ReadDone 0 True, Arrive 6, Paint]"
  have "nextBuffer (run ref_step new_ref (?es @ DisposeRef # [ReadDone 0 True])) = 2" by code_simp
  then show ?thesis
    using buffers_return_to_the_pool [of "[ReadDone 0 True]" ?es] by (simp add: upt_rec)
qed

text \<open>When frames stop, the pending animation frame and its read paint the newest one.\<close>

lemma newest_frame_is_painted:
  assumes "ref_ok s" "latest s = Some p"
  shows "\<exists>b. shown (ref_step (ref_step s Paint) (ReadDone (length (reads s)) True)) = Some (p, b)"
  using assms by (auto simp: ref_ok_def flush_def read_done_def nth_append Let_def schedule_def)

section \<open>Views that keep a buffer, views that paint nothing\<close>

text \<open>
  A view disposed before the connection is up still registers its listener when the connection
  comes: it goes on reading and showing frames, and holds a pool buffer that nobody releases.
\<close>

theorem early_dispose_leaks:
  "let s = run ref_step new_ref [DisposeRef, Connect, Arrive 5, Paint, ReadDone 0 True]
   in disposed s \<and> shown s = Some (5, 0) \<and> released s = [] \<and> listening s"
  by code_simp

text \<open>Rounds in which a frame arrives and is flushed before the read of the one before it ends.\<close>

fun slow_rounds :: "nat \<Rightarrow> ref_event list" where
  "slow_rounds 0 = []"
| "slow_rounds (Suc n) = slow_rounds n @ [Arrive (Suc n), Paint, ReadDone 0 True]"

text \<open>
  If every read takes longer than the time between two flushes, so that it ends after the next flush,
  no frame is ever painted, however many arrive.
\<close>

theorem slow_reads_paint_nothing:
  "painted (run ref_step new_ref ([Connect, Arrive 0, Paint] @ slow_rounds n)) = []"
proof -
  let ?s = "\<lambda>n. run ref_step new_ref ([Connect, Arrive 0, Paint] @ slow_rounds n)"
  have "painted (?s n) = [] \<and> shown (?s n) = None \<and> listening (?s n) \<and> \<not> scheduled (?s n) \<and> latest (?s n) = None
      \<and> reads (?s n) = [(token (?s n), n)]"
  proof (induction n)
    case 0
    show ?case by code_simp
  next
    case (Suc n)
    then show ?case by (simp add: frame_arrives_def schedule_def flush_def read_done_def Let_def)
  qed
  then show ?thesis by simp
qed

end
