(* ===== verification/ShmPool.thy ===== *)
theory ShmPool
  imports Prelude
begin

text \<open>
  The transfer pool through which a window reads pixels from shared memory, after
  \<open>app/lib/orchestrator/shm-client.ts\<close>, and the answering end of it in
  \<open>app/electron/preload-renderer.ts\<close>. A buffer is a pair of an identity and a byte length; reading it
  transfers it to the preload and back. The clock is a parameter of each event. A message of the preload
  that arrives after \<open>dispose\<close> is allowed, which is more than a closed port delivers. The lemmas show
  that a buffer never has two owners if callers release what they hold, that reads settle exactly once,
  and that the pool allocates only for a working set larger than any of the last retention window.
\<close>

section \<open>Buckets\<close>

definition RETENTION_WINDOW_MS :: real where "RETENTION_WINDOW_MS = 5000"

text \<open>\<open>free\<close> is a stack with its top first.\<close>

record bucket =
  free :: "nat list"
  outstanding :: nat
  windowPeak :: nat
  prevWindowPeak :: nat
  windowStart :: real

definition new_bucket :: "real \<Rightarrow> bucket" where
  "new_bucket now = \<lparr>free = [], outstanding = 0, windowPeak = 0, prevWindowPeak = 0, windowStart = now\<rparr>"

definition bucketFor :: "real \<Rightarrow> nat \<Rightarrow> (nat \<times> bucket) list \<Rightarrow> bucket" where
  "bucketFor now n ps = (case map_of ps n of Some b \<Rightarrow> b | None \<Rightarrow> new_bucket now)"

text \<open>The lazy rotation of \<open>retentionCap\<close>, and the cap it returns.\<close>

definition rotate_window :: "real \<Rightarrow> bucket \<Rightarrow> bucket" where
  "rotate_window now b = (let elapsed = now - windowStart b
     in if RETENTION_WINDOW_MS \<le> elapsed
        then b\<lparr>prevWindowPeak := (if 2 * RETENTION_WINDOW_MS \<le> elapsed then 0 else windowPeak b),
               windowPeak := outstanding b, windowStart := now\<rparr>
        else b)"

definition retentionCap :: "bucket \<Rightarrow> nat" where
  "retentionCap b = max (windowPeak b) (prevWindowPeak b)"

definition evictIdleSizesExcept :: "nat \<Rightarrow> (nat \<times> bucket) list \<Rightarrow> (nat \<times> bucket) list" where
  "evictIdleSizesExcept keep ps = filter (\<lambda>(size, b). \<not> (size \<noteq> keep \<and> outstanding b = 0)) ps"

section \<open>State\<close>

datatype kind = FrameRead | PipeRead | PipeSeqRead

type_synonym buf = "nat \<times> nat"

record info =
  tCapture :: "real option"
  convertMs :: "real option"
  gen :: "nat option"
  retries :: "nat option"
  width :: "nat option"
  height :: "nat option"
  originX :: "nat option"
  originY :: "nat option"
  bytes :: "nat option"

definition no_info :: info where
  "no_info = \<lparr>tCapture = None, convertMs = None, gen = None, retries = None, width = None, height = None,
     originX = None, originY = None, bytes = None\<rparr>"

datatype outcome = OFrame buf nat info | ONull | OClosed | ONotYet | OGone nat | ORejected string

text \<open>The fields below \<open>disposed\<close> record the callers: what they hold, what their reads settled to.\<close>

record pool =
  pools :: "(nat \<times> bucket) list"
  pend :: "(nat \<times> kind \<times> real) list"
  reads :: nat
  nulls :: nat
  timeouts :: nat
  errors :: nat
  allocations :: nat
  poolHits :: nat
  latSum :: real
  latCount :: nat
  latMax :: real
  seq :: nat
  port :: bool
  disposed :: bool
  at_preload :: "(nat \<times> kind \<times> buf) list"
  held :: "buf list"
  settled :: "(nat \<times> outcome) list"
  refused :: nat
  fresh :: nat
  checkouts :: "(real \<times> nat \<times> nat) list"

definition new_pool :: pool where
  "new_pool = \<lparr>pools = [], pend = [], reads = 0, nulls = 0, timeouts = 0, errors = 0, allocations = 0, poolHits = 0,
     latSum = 0, latCount = 0, latMax = 0, seq = 0, port = False, disposed = False, at_preload = [], held = [],
     settled = [], refused = 0, fresh = 0, checkouts = []\<rparr>"

section \<open>Checking out and recycling\<close>

definition recycle :: "real \<Rightarrow> buf \<Rightarrow> pool \<Rightarrow> pool" where
  "recycle now b s = (let q = bucketFor now (snd b) (pools s);
       q1 = rotate_window now (q\<lparr>outstanding := outstanding q - 1\<rparr>);
       q2 = (if length (free q1) < retentionCap q1 then q1\<lparr>free := fst b # free q1\<rparr> else q1)
     in s\<lparr>pools := AList.update (snd b) q2 (pools s)\<rparr>)"

text \<open>The buffer and the pool without it.\<close>

definition checkout :: "real \<Rightarrow> nat \<Rightarrow> pool \<Rightarrow> buf \<times> pool" where
  "checkout now n s = (let ps = evictIdleSizesExcept n (pools s); q = bucketFor now n ps;
       q1 = rotate_window now (q\<lparr>outstanding := outstanding q + 1\<rparr>);
       q2 = q1\<lparr>windowPeak := max (windowPeak q1) (outstanding q1)\<rparr>;
       s1 = s\<lparr>checkouts := checkouts s @ [(now, n, outstanding q2)]\<rparr>
     in case free q2 of
          i # fs \<Rightarrow> ((i, n), s1\<lparr>pools := AList.update n (q2\<lparr>free := fs\<rparr>) ps, poolHits := poolHits s + 1\<rparr>)
        | [] \<Rightarrow> ((fresh s, n), s1\<lparr>pools := AList.update n q2 ps, allocations := allocations s + 1, fresh := fresh s + 1\<rparr>))"

definition recordLatency :: "real \<Rightarrow> real \<Rightarrow> pool \<Rightarrow> pool" where
  "recordLatency now startedAt s = (let dt = now - startedAt
     in s\<lparr>latSum := latSum s + dt, latCount := latCount s + 1, latMax := max (latMax s) dt\<rparr>)"

section \<open>The preload's answer\<close>

text \<open>What the reader addon returns or throws.\<close>

datatype reader_result = RFrame nat info | RNull | RClosed | RNotYet | RGone nat | RThrow string

record done_msg =
  d_kind :: kind
  d_id :: nat
  d_buffer :: buf
  d_seq :: "nat option"
  d_info :: info
  d_closed :: bool
  d_notYet :: bool
  d_gone :: bool
  d_oldestSeq :: "nat option"
  d_error :: "string option"

definition bare_done :: "kind \<Rightarrow> nat \<Rightarrow> buf \<Rightarrow> done_msg" where
  "bare_done k i b = \<lparr>d_kind = k, d_id = i, d_buffer = b, d_seq = None, d_info = no_info, d_closed = False,
     d_notYet = False, d_gone = False, d_oldestSeq = None, d_error = None\<rparr>"

fun handlePipeRead :: "nat \<Rightarrow> buf \<Rightarrow> reader_result \<Rightarrow> done_msg" where
  "handlePipeRead i b (RThrow e) = (bare_done PipeRead i b)\<lparr>d_error := Some e\<rparr>"
| "handlePipeRead i b RClosed = (bare_done PipeRead i b)\<lparr>d_closed := True\<rparr>"
| "handlePipeRead i b (RFrame q x) = (bare_done PipeRead i b)\<lparr>d_seq := Some q, d_info := x\<rparr>"
| "handlePipeRead i b RNull = bare_done PipeRead i b"
| "handlePipeRead i b RNotYet = bare_done PipeRead i b"
| "handlePipeRead i b (RGone q) = bare_done PipeRead i b"

fun handlePipeReadSeq :: "nat \<Rightarrow> buf \<Rightarrow> reader_result \<Rightarrow> done_msg" where
  "handlePipeReadSeq i b (RThrow e) = (bare_done PipeSeqRead i b)\<lparr>d_error := Some e\<rparr>"
| "handlePipeReadSeq i b RClosed = (bare_done PipeSeqRead i b)\<lparr>d_closed := True\<rparr>"
| "handlePipeReadSeq i b RNotYet = (bare_done PipeSeqRead i b)\<lparr>d_notYet := True\<rparr>"
| "handlePipeReadSeq i b (RGone q) = (bare_done PipeSeqRead i b)\<lparr>d_gone := True, d_oldestSeq := Some q\<rparr>"
| "handlePipeReadSeq i b (RFrame q x) = (bare_done PipeSeqRead i b)\<lparr>d_seq := Some q, d_info := x\<rparr>"
| "handlePipeReadSeq i b RNull = bare_done PipeSeqRead i b"

text \<open>\<open>readShmFrame\<close> and its answer; \<open>d_seq\<close> stands for a payload that is not null.\<close>

fun handleFrameRead :: "nat \<Rightarrow> buf \<Rightarrow> reader_result \<Rightarrow> done_msg" where
  "handleFrameRead i b (RThrow e) = (bare_done FrameRead i b)\<lparr>d_error := Some e\<rparr>"
| "handleFrameRead i b (RFrame q x) = (bare_done FrameRead i b)\<lparr>d_seq := Some q, d_info := x\<rparr>"
| "handleFrameRead i b _ = bare_done FrameRead i b"

fun handleReadMessage :: "nat \<times> kind \<times> buf \<Rightarrow> reader_result \<Rightarrow> done_msg" where
  "handleReadMessage (i, FrameRead, b) r = handleFrameRead i b r"
| "handleReadMessage (i, PipeRead, b) r = handlePipeRead i b r"
| "handleReadMessage (i, PipeSeqRead, b) r = handlePipeReadSeq i b r"

section \<open>Operations\<close>

definition settle :: "nat \<Rightarrow> outcome \<Rightarrow> pool \<Rightarrow> pool" where
  "settle i r s = s\<lparr>settled := settled s @ [(i, r)]\<rparr>"

text \<open>The reply delivers the buffer to the caller, or it goes back to the pool.\<close>

definition deliver :: "nat \<Rightarrow> done_msg \<Rightarrow> nat \<Rightarrow> pool \<Rightarrow> pool" where
  "deliver i m q s = settle i (OFrame (d_buffer m) q (d_info m)) (s\<lparr>reads := reads s + 1, held := held s @ [d_buffer m]\<rparr>)"

definition give_back :: "real \<Rightarrow> nat \<Rightarrow> done_msg \<Rightarrow> outcome \<Rightarrow> pool \<Rightarrow> pool" where
  "give_back now i m r s = settle i r (recycle now (d_buffer m) s)"

text \<open>The part the three handlers share: an error, or no frame, or a frame. An empty message is falsy.\<close>

definition answered :: "real \<Rightarrow> done_msg \<Rightarrow> outcome \<Rightarrow> pool \<Rightarrow> pool" where
  "answered now m none s = (case d_seq m of
      None \<Rightarrow> give_back now (d_id m) m none (s\<lparr>nulls := nulls s + 1\<rparr>)
    | Some q \<Rightarrow> deliver (d_id m) m q s)"

definition failed :: "done_msg \<Rightarrow> bool" where
  "failed m \<longleftrightarrow> (case d_error m of None \<Rightarrow> False | Some e \<Rightarrow> e \<noteq> [])"

definition reject_with :: "real \<Rightarrow> done_msg \<Rightarrow> pool \<Rightarrow> pool" where
  "reject_with now m s = give_back now (d_id m) m (ORejected (the (d_error m))) (s\<lparr>errors := errors s + 1\<rparr>)"

definition onPipeDone :: "real \<Rightarrow> done_msg \<Rightarrow> pool \<Rightarrow> pool" where
  "onPipeDone now m s = (if failed m then reject_with now m s
     else if d_closed m then give_back now (d_id m) m OClosed s
     else answered now m ONull s)"

definition onPipeSeqDone :: "real \<Rightarrow> done_msg \<Rightarrow> pool \<Rightarrow> pool" where
  "onPipeSeqDone now m s = (if failed m then reject_with now m s
     else if d_closed m then give_back now (d_id m) m OClosed s
     else if d_gone m then give_back now (d_id m) m (OGone (case d_oldestSeq m of Some q \<Rightarrow> q | None \<Rightarrow> 0)) s
     else if d_notYet m then give_back now (d_id m) m ONotYet (s\<lparr>nulls := nulls s + 1\<rparr>)
     else answered now m ONotYet s)"

definition onFrameDone :: "real \<Rightarrow> real \<Rightarrow> done_msg \<Rightarrow> pool \<Rightarrow> pool" where
  "onFrameDone now startedAt m s = (let s1 = recordLatency now startedAt s
     in if failed m then reject_with now m s1 else answered now m ONull s1)"

text \<open>\<open>onDone\<close>: a stale reply only returns its buffer.\<close>

definition onDone :: "real \<Rightarrow> done_msg \<Rightarrow> pool \<Rightarrow> pool" where
  "onDone now m s = (case map_of (pend s) (d_id m) of
      None \<Rightarrow> recycle now (d_buffer m) s
    | Some (k, startedAt) \<Rightarrow>
        if k \<noteq> d_kind m then recycle now (d_buffer m) s
        else let s1 = s\<lparr>pend := AList.delete (d_id m) (pend s)\<rparr>
          in case k of PipeSeqRead \<Rightarrow> onPipeSeqDone now m s1 | PipeRead \<Rightarrow> onPipeDone now m s1
             | FrameRead \<Rightarrow> onFrameDone now startedAt m s1)"

definition ensurePort :: "bool \<Rightarrow> pool \<Rightarrow> pool" where
  "ensurePort opens s = (if port s \<or> disposed s then s else s\<lparr>port := opens\<rparr>)"

text \<open>The common body of \<open>transferRead\<close>, \<open>readPipe\<close> and \<open>readPipeSeq\<close>.\<close>

definition start_read :: "real \<Rightarrow> bool \<Rightarrow> kind \<Rightarrow> nat \<Rightarrow> pool \<Rightarrow> pool" where
  "start_read now opens k n s = (let s0 = ensurePort opens s
     in if \<not> port s0 then s0\<lparr>refused := refused s0 + 1\<rparr>
        else case checkout now n s0 of (b, s1) \<Rightarrow>
          s1\<lparr>seq := seq s1 + 1, pend := pend s1 @ [(seq s1 + 1, k, now)], at_preload := at_preload s1 @ [(seq s1 + 1, k, b)]\<rparr>)"

definition transferRead :: "real \<Rightarrow> bool \<Rightarrow> nat \<Rightarrow> pool \<Rightarrow> pool" where
  "transferRead now opens n s = start_read now opens FrameRead n s"

definition readPipe :: "real \<Rightarrow> bool \<Rightarrow> nat \<Rightarrow> pool \<Rightarrow> pool" where
  "readPipe now opens n s = start_read now opens PipeRead n s"

definition readPipeSeq :: "real \<Rightarrow> bool \<Rightarrow> nat \<Rightarrow> pool \<Rightarrow> pool" where
  "readPipeSeq now opens n s = start_read now opens PipeSeqRead n s"

definition issue_read :: "kind \<Rightarrow> real \<Rightarrow> bool \<Rightarrow> nat \<Rightarrow> pool \<Rightarrow> pool" where
  "issue_read k = (case k of FrameRead \<Rightarrow> transferRead | PipeRead \<Rightarrow> readPipe | PipeSeqRead \<Rightarrow> readPipeSeq)"

lemma issue_read_eq [simp]: "issue_read k now opens n s = start_read now opens k n s"
  by (cases k) (simp_all add: issue_read_def transferRead_def readPipe_def readPipeSeq_def)

definition timeout_message :: "kind \<Rightarrow> string" where
  "timeout_message k = (case k of FrameRead \<Rightarrow> ''SHM transfer read timed out'' | PipeRead \<Rightarrow> ''pipe read timed out''
     | PipeSeqRead \<Rightarrow> ''pipe seq read timed out'')"

definition time_out :: "nat \<Rightarrow> pool \<Rightarrow> pool" where
  "time_out i s = (case map_of (pend s) i of None \<Rightarrow> s
     | Some (k, t) \<Rightarrow> settle i (ORejected (timeout_message k))
         (s\<lparr>pend := AList.delete i (pend s), timeouts := timeouts s + 1\<rparr>))"

definition releaseBuffer :: "real \<Rightarrow> buf \<Rightarrow> pool \<Rightarrow> pool" where
  "releaseBuffer now b s = recycle now b (s\<lparr>held := remove1 b (held s)\<rparr>)"

definition dispose_pool :: "pool \<Rightarrow> pool" where
  "dispose_pool s = (if disposed s then s
     else s\<lparr>disposed := True, settled := settled s @ map (\<lambda>(i, k, t). (i, ORejected ''SHM transfer pool disposed'')) (pend s),
        pend := [], pools := [], port := False\<rparr>)"

text \<open>The swallowed errors of \<open>read\<close>: a rejected frame read shows as no frame.\<close>

definition read_result :: "outcome \<Rightarrow> outcome" where
  "read_result r = (case r of ORejected e \<Rightarrow> ONull | _ \<Rightarrow> r)"

datatype pool_event = Read real bool kind nat | Reply real reader_result | TimeOut nat | Release real buf | Dispose

fun pool_step :: "pool \<Rightarrow> pool_event \<Rightarrow> pool" where
  "pool_step s (Read now opens k n) = issue_read k now opens n s"
| "pool_step s (Reply now r) = (case at_preload s of [] \<Rightarrow> s
     | p # ps \<Rightarrow> onDone now (handleReadMessage p r) (s\<lparr>at_preload := ps\<rparr>))"
| "pool_step s (TimeOut i) = time_out i s"
| "pool_step s (Release now b) = releaseBuffer now b s"
| "pool_step s Dispose = dispose_pool s"

section \<open>Who owns a buffer\<close>

definition bufs_of :: "nat \<Rightarrow> bucket \<Rightarrow> buf list" where
  "bufs_of n b = map (\<lambda>i. (i, n)) (free b)"

fun free_bufs :: "(nat \<times> bucket) list \<Rightarrow> buf list" where
  "free_bufs [] = []"
| "free_bufs ((n, b) # ps) = bufs_of n b @ free_bufs ps"

definition out_bufs :: "pool \<Rightarrow> buf list" where
  "out_bufs s = map (\<lambda>(i, k, b). b) (at_preload s) @ held s"

definition all_bufs :: "pool \<Rightarrow> buf list" where
  "all_bufs s = free_bufs (pools s) @ out_bufs s"

definition outstanding_of :: "nat \<Rightarrow> (nat \<times> bucket) list \<Rightarrow> nat" where
  "outstanding_of n ps = (case map_of ps n of None \<Rightarrow> 0 | Some b \<Rightarrow> outstanding b)"

definition of_size :: "nat \<Rightarrow> buf list \<Rightarrow> nat" where
  "of_size n bs = length (filter (\<lambda>b. snd b = n) bs)"

lemma of_size_mset: "mset xs = mset ys \<Longrightarrow> of_size n xs = of_size n ys"
  unfolding of_size_def by (metis mset_filter size_mset)

lemma of_size_simps [simp]:
  "of_size n [] = 0" "of_size n (b # bs) = (if snd b = n then 1 else 0) + of_size n bs"
  "of_size n (xs @ ys) = of_size n xs + of_size n ys"
  by (simp_all add: of_size_def)

lemma of_size_remove1: "b \<in> set bs \<Longrightarrow> of_size n bs = (if snd b = n then 1 else 0) + of_size n (remove1 b bs)"
  using of_size_mset [of bs "b # remove1 b bs" n] by simp

lemma bufs_of_simps [simp]:
  "bufs_of n (new_bucket now) = []" "bufs_of n (rotate_window now b) = bufs_of n b"
  "bufs_of n (b\<lparr>outstanding := k\<rparr>) = bufs_of n b" "bufs_of n (b\<lparr>windowPeak := k\<rparr>) = bufs_of n b"
  "bufs_of n (b\<lparr>free := is\<rparr>) = map (\<lambda>i. (i, n)) is"
  by (simp_all add: bufs_of_def new_bucket_def rotate_window_def Let_def)

lemma rotate_fields [simp]:
  "free (rotate_window now b) = free b" "outstanding (rotate_window now b) = outstanding b"
  by (simp_all add: rotate_window_def Let_def)

lemma free_bufs_update:
  "distinct (keys_of ps) \<Longrightarrow> mset (free_bufs (AList.update n q ps)) + mset (bufs_of n (bucketFor now n ps))
     = mset (free_bufs ps) + mset (bufs_of n q)"
  by (induction ps rule: free_bufs.induct) (auto simp: bucketFor_def keys_of_def)

lemma free_bufs_filter: "mset (free_bufs (filter P ps)) \<subseteq># mset (free_bufs ps)"
  by (induction ps rule: free_bufs.induct) (auto intro: subset_mset.add_mono subset_mset.add_increasing)

lemma outstanding_update [simp]:
  "outstanding_of m (AList.update n q ps) = (if m = n then outstanding q else outstanding_of m ps)"
  by (simp add: outstanding_of_def table_simps)

lemma outstanding_evict: "distinct (keys_of ps) \<Longrightarrow> outstanding_of n (evictIdleSizesExcept m ps) = outstanding_of n ps"
proof (induction ps)
  case (Cons p ps)
  then have "fst p = n \<Longrightarrow> map_of (evictIdleSizesExcept m ps) n = None"
    by (auto simp: keys_of_def evictIdleSizesExcept_def map_of_eq_None_iff)
  with Cons show ?case
    by (cases p) (auto simp: outstanding_of_def keys_of_def evictIdleSizesExcept_def split: option.splits)
qed (simp add: evictIdleSizesExcept_def)

lemma keys_evict: "distinct (keys_of ps) \<Longrightarrow> distinct (keys_of (evictIdleSizesExcept m ps))"
  by (simp add: evictIdleSizesExcept_def distinct_keys_filter)

lemma outstanding_bucket: "outstanding (bucketFor now n ps) = outstanding_of n ps"
  by (simp add: bucketFor_def outstanding_of_def new_bucket_def split: option.split)

text \<open>What recycling and checking out do to the books.\<close>

lemma recycle_books:
  assumes "distinct (keys_of (pools s))"
  shows "distinct (keys_of (pools (recycle now b s)))"
    and "mset (free_bufs (pools (recycle now b s))) \<subseteq># mset (free_bufs (pools s)) + {#b#}"
    and "outstanding_of n (pools (recycle now b s)) = outstanding_of n (pools s) - (if snd b = n then 1 else 0)"
proof -
  let ?q = "bucketFor now (snd b) (pools s)"
  let ?q1 = "rotate_window now (?q\<lparr>outstanding := outstanding ?q - 1\<rparr>)"
  let ?q2 = "if length (free ?q1) < retentionCap ?q1 then ?q1\<lparr>free := fst b # free ?q1\<rparr> else ?q1"
  have r: "pools (recycle now b s) = AList.update (snd b) ?q2 (pools s)" by (simp add: recycle_def Let_def)
  show "distinct (keys_of (pools (recycle now b s)))" using assms by (simp add: r)
  have "mset (bufs_of (snd b) ?q2) \<subseteq># {#b#} + mset (bufs_of (snd b) ?q)" by (simp add: bufs_of_def)
  then have "mset (free_bufs (pools (recycle now b s))) + mset (bufs_of (snd b) ?q)
      \<subseteq># (mset (free_bufs (pools s)) + {#b#}) + mset (bufs_of (snd b) ?q)"
    unfolding r free_bufs_update [OF assms, of "snd b" ?q2 now] add.assoc by (rule subset_mset.add_left_mono)
  then show "mset (free_bufs (pools (recycle now b s))) \<subseteq># mset (free_bufs (pools s)) + {#b#}"
    by (simp only: subset_mset.add_le_cancel_right)
  show "outstanding_of n (pools (recycle now b s)) = outstanding_of n (pools s) - (if snd b = n then 1 else 0)"
    unfolding r by (simp add: outstanding_bucket)
qed

lemma recycle_fields [simp]:
  "pend (recycle now b s) = pend s" "at_preload (recycle now b s) = at_preload s" "held (recycle now b s) = held s"
  "settled (recycle now b s) = settled s" "fresh (recycle now b s) = fresh s" "seq (recycle now b s) = seq s"
  "disposed (recycle now b s) = disposed s" "checkouts (recycle now b s) = checkouts s" "allocations (recycle now b s) = allocations s"
  by (simp_all add: recycle_def Let_def)

lemma checkout_books:
  assumes "distinct (keys_of (pools s))" "checkout now n s = (b, s')"
  shows "distinct (keys_of (pools s'))" "snd b = n" "outstanding_of m (pools s') = outstanding_of m (pools s) + (if m = n then 1 else 0)"
    and "(fresh s' = fresh s \<and> mset (free_bufs (pools s')) + {#b#} \<subseteq># mset (free_bufs (pools s)))
      \<or> (fresh s' = fresh s + 1 \<and> fst b = fresh s \<and> mset (free_bufs (pools s')) \<subseteq># mset (free_bufs (pools s)))"
    and "pend s' = pend s" "at_preload s' = at_preload s" "held s' = held s" "settled s' = settled s" "seq s' = seq s" "disposed s' = disposed s"
proof -
  let ?ps = "evictIdleSizesExcept n (pools s)"
  let ?q = "bucketFor now n ?ps"
  let ?q1 = "rotate_window now (?q\<lparr>outstanding := outstanding ?q + 1\<rparr>)"
  let ?q2 = "?q1\<lparr>windowPeak := max (windowPeak ?q1) (outstanding ?q1)\<rparr>"
  have d: "distinct (keys_of ?ps)" by (rule keys_evict [OF assms(1)])
  have sub: "mset (free_bufs ?ps) \<subseteq># mset (free_bufs (pools s))" by (simp add: evictIdleSizesExcept_def free_bufs_filter)
  note up = free_bufs_update [OF d, of n _ now]
  have "distinct (keys_of (pools s')) \<and> snd b = n
      \<and> outstanding_of m (pools s') = outstanding_of m (pools s) + (if m = n then 1 else 0)
      \<and> pend s' = pend s \<and> at_preload s' = at_preload s \<and> held s' = held s \<and> settled s' = settled s \<and> seq s' = seq s \<and> disposed s' = disposed s
      \<and> ((fresh s' = fresh s \<and> mset (free_bufs (pools s')) + {#b#} = mset (free_bufs ?ps))
      \<or> (fresh s' = fresh s + 1 \<and> fst b = fresh s \<and> mset (free_bufs (pools s')) = mset (free_bufs ?ps)))"
  proof (cases "free ?q")
    case Nil
    then have "b = (fresh s, n)" "pools s' = AList.update n ?q2 ?ps" "fresh s' = fresh s + 1"
      using assms(2) by (auto simp: checkout_def Let_def)
    with assms Nil d up [of ?q2] show ?thesis
      by (auto simp: checkout_def Let_def outstanding_bucket outstanding_evict bufs_of_def)
  next
    case (Cons i fs)
    then have "b = (i, n)" "pools s' = AList.update n (?q2\<lparr>free := fs\<rparr>) ?ps" "fresh s' = fresh s"
      using assms(2) by (auto simp: checkout_def Let_def)
    with assms Cons d up [of "?q2\<lparr>free := fs\<rparr>"] show ?thesis
      by (auto simp: checkout_def Let_def outstanding_bucket outstanding_evict bufs_of_def)
  qed
  with sub show "distinct (keys_of (pools s'))" "snd b = n" "outstanding_of m (pools s') = outstanding_of m (pools s) + (if m = n then 1 else 0)"
    and "(fresh s' = fresh s \<and> mset (free_bufs (pools s')) + {#b#} \<subseteq># mset (free_bufs (pools s)))
      \<or> (fresh s' = fresh s + 1 \<and> fst b = fresh s \<and> mset (free_bufs (pools s')) \<subseteq># mset (free_bufs (pools s)))"
    and "pend s' = pend s" "at_preload s' = at_preload s" "held s' = held s" "settled s' = settled s" "seq s' = seq s" "disposed s' = disposed s"
    by auto
qed

definition pool_ok :: "pool \<Rightarrow> bool" where
  "pool_ok s \<longleftrightarrow> distinct (keys_of (pools s)) \<and> distinct (map fst (all_bufs s))
     \<and> (\<forall>b \<in> set (all_bufs s). fst b < fresh s)
     \<and> (disposed s \<or> (\<forall>n. outstanding_of n (pools s) = of_size n (out_bufs s)))"

text \<open>Steps that hand no new buffer out keep the books if they count what is out.\<close>

lemma pool_ok_moved:
  assumes "pool_ok s" "distinct (keys_of (pools s'))" "mset (all_bufs s') \<subseteq># mset (all_bufs s)" "fresh s' = fresh s"
    and "disposed s' \<or> (\<not> disposed s \<and> (\<forall>n. outstanding_of n (pools s') = of_size n (out_bufs s')))"
  shows "pool_ok s'"
  using assms sub_msetD [OF assms(3)] unfolding pool_ok_def by (metis subsetD)

lemma recycle_out [simp]: "out_bufs (recycle now b s) = out_bufs s"
  by (simp add: out_bufs_def)

text \<open>A buffer that was out goes back: \<open>s0\<close> is the pool before, \<open>s\<close> the pool that no longer counts it as out.\<close>

lemma pool_ok_back:
  assumes "pool_ok s0" "mset (out_bufs s0) = mset (b # out_bufs s)" "pools s = pools s0" "fresh s = fresh s0" "disposed s = disposed s0"
  shows "pool_ok (recycle now b s)"
proof (rule pool_ok_moved [OF assms(1)])
  have d: "distinct (keys_of (pools s))" using assms(1,3) by (simp add: pool_ok_def)
  show "distinct (keys_of (pools (recycle now b s)))" by (rule recycle_books(1) [OF d])
  show "mset (all_bufs (recycle now b s)) \<subseteq># mset (all_bufs s0)"
    using recycle_books(2) [OF d, of now b] assms(2,3) by (simp add: all_bufs_def)
  have "of_size n (out_bufs s0) = of_size n (out_bufs s) + (if snd b = n then 1 else 0)" for n
    using of_size_mset [OF assms(2), of n] by simp
  then show "disposed (recycle now b s) \<or> \<not> disposed s0 \<and> (\<forall>n. outstanding_of n (pools (recycle now b s)) = of_size n (out_bufs (recycle now b s)))"
    using recycle_books(3) [OF d, of _ now b] assms(1,3,5) by (auto simp: pool_ok_def)
qed (simp add: assms)

lemma pool_ok_same:
  assumes "pool_ok s0" "mset (out_bufs s) = mset (out_bufs s0)" "pools s = pools s0" "fresh s = fresh s0" "disposed s = disposed s0"
  shows "pool_ok s"
  by (rule pool_ok_moved [OF assms(1)]) (use assms of_size_mset [OF assms(2)] in \<open>auto simp: pool_ok_def all_bufs_def\<close>)

text \<open>What a handler does to the pool: the buffer of its message goes to the caller or back to the pool.\<close>

definition routed :: "real \<Rightarrow> buf \<Rightarrow> pool \<Rightarrow> pool \<Rightarrow> bool" where
  "routed now b s s' \<longleftrightarrow> at_preload s' = at_preload s \<and> fresh s' = fresh s \<and> disposed s' = disposed s
     \<and> checkouts s' = checkouts s \<and> allocations s' = allocations s
     \<and> ((pools s' = pools s \<and> held s' = held s @ [b]) \<or> (pools s' = pools (recycle now b s) \<and> held s' = held s))"

lemma recycle_pools_cong: "pools s = pools t \<Longrightarrow> pools (recycle now b s) = pools (recycle now b t)"
  by (simp add: recycle_def Let_def)

lemma routed_done: "routed now (d_buffer m) s (onDone now m s)"
  by (auto simp: onDone_def onPipeSeqDone_def onPipeDone_def onFrameDone_def reject_with_def answered_def deliver_def
      give_back_def settle_def recordLatency_def routed_def Let_def recycle_def split: option.splits kind.splits prod.splits)

lemma pool_ok_routed:
  assumes "pool_ok s0" "routed now b s s'" "pools s = pools s0" "fresh s = fresh s0" "disposed s = disposed s0"
    and "mset (out_bufs s0) = mset (b # out_bufs s)"
  shows "pool_ok s'"
  using assms(2) unfolding routed_def
proof (elim conjE disjE)
  assume *: "at_preload s' = at_preload s" "fresh s' = fresh s" "disposed s' = disposed s" "pools s' = pools s" "held s' = held s @ [b]"
  show ?thesis by (rule pool_ok_same [OF assms(1)]) (use * assms in \<open>simp_all add: out_bufs_def\<close>)
next
  assume *: "at_preload s' = at_preload s" "fresh s' = fresh s" "disposed s' = disposed s" "pools s' = pools (recycle now b s)" "held s' = held s"
  have "pool_ok (recycle now b s)" by (rule pool_ok_back [OF assms(1,6,3-5)])
  then show ?thesis by (rule pool_ok_same) (use * in \<open>simp_all add: out_bufs_def\<close>)
qed

lemma pool_ok_read:
  assumes "pool_ok s" "disposed s \<longrightarrow> \<not> port s"
  shows "pool_ok (start_read now opens k n s)"
proof -
  let ?s0 = "ensurePort opens s"
  have s0: "pool_ok ?s0" by (rule pool_ok_same [OF assms(1)]) (simp_all add: ensurePort_def out_bufs_def)
  show ?thesis
  proof (cases "port ?s0")
    case False
    show ?thesis by (rule pool_ok_same [OF s0]) (use False in \<open>simp_all add: start_read_def out_bufs_def Let_def\<close>)
  next
    case True
    then have live: "\<not> disposed ?s0" using assms(2) by (auto simp: ensurePort_def split: if_splits)
    obtain b s1 where c: "checkout now n ?s0 = (b, s1)" by (cases "checkout now n ?s0")
    have d: "distinct (keys_of (pools ?s0))" using s0 by (simp add: pool_ok_def)
    note books = checkout_books [OF d c]
    let ?s2 = "start_read now opens k n s"
    have eqs: "pools ?s2 = pools s1" "fresh ?s2 = fresh s1" "mset (out_bufs ?s2) = mset (b # out_bufs ?s0)" "disposed ?s2 = disposed ?s0"
      using True c books(6-10) by (simp_all add: start_read_def Let_def out_bufs_def)
    have counts: "outstanding_of m (pools ?s2) = of_size m (out_bufs ?s2)" for m
      using books(2) books(3) [of m] s0 live of_size_mset [OF eqs(3), of m] by (auto simp: eqs(1) pool_ok_def)
    have below: "\<forall>x \<in> set (all_bufs ?s0). fst x < fresh ?s0" and dist: "distinct (map fst (all_bufs ?s0))"
      using s0 by (simp_all add: pool_ok_def)
    from books(4) have "distinct (map fst (all_bufs ?s2)) \<and> (\<forall>x \<in> set (all_bufs ?s2). fst x < fresh ?s2)"
    proof (elim disjE conjE)
      assume f: "fresh s1 = fresh ?s0" and m: "mset (free_bufs (pools s1)) + {#b#} \<subseteq># mset (free_bufs (pools ?s0))"
      have sub: "mset (all_bufs ?s2) \<subseteq># mset (all_bufs ?s0)"
        using subset_mset.add_right_mono [OF m, of "mset (out_bufs ?s0)"] by (simp add: all_bufs_def eqs(1,3))
      from sub_msetD(1) [OF sub] sub_msetD(2) [OF sub dist] below show ?thesis by (auto simp: eqs(2) f)
    next
      assume f: "fresh s1 = fresh ?s0 + 1" "fst b = fresh ?s0" and m: "mset (free_bufs (pools s1)) \<subseteq># mset (free_bufs (pools ?s0))"
      have sub: "mset (all_bufs ?s2) \<subseteq># mset (b # all_bufs ?s0)"
        using subset_mset.add_right_mono [OF m, of "{#b#} + mset (out_bufs ?s0)"] by (simp add: all_bufs_def eqs(1,3))
      have "distinct (map fst (b # all_bufs ?s0))" using dist below f(2) by auto
      moreover have "fst x < fresh ?s2" if x: "x \<in> set (all_bufs ?s2)" for x
      proof (cases "x = b")
        case False
        with x sub_msetD(1) [OF sub] have "x \<in> set (all_bufs ?s0)" by auto
        with below f(1) eqs(2) show ?thesis by fastforce
      qed (use f eqs(2) in simp)
      ultimately show ?thesis using sub_msetD(2) [OF sub] by blast
    qed
    then show ?thesis using counts books(1) by (simp add: pool_ok_def eqs(1))
  qed
qed

definition pool_inv :: "pool \<Rightarrow> bool" where
  "pool_inv s \<longleftrightarrow> pool_ok s \<and> (disposed s \<longrightarrow> \<not> port s)"

text \<open>A caller returns only what it holds.\<close>

fun caller_ok :: "pool \<Rightarrow> pool_event \<Rightarrow> bool" where
  "caller_ok s (Release now b) = (b \<in> set (held s))"
| "caller_ok s _ = True"

lemma recycle_port [simp]: "port (recycle now b s) = port s"
  by (simp add: recycle_def Let_def)

lemma done_port [simp]: "port (onDone now m s) = port s"
  by (auto simp: onDone_def onPipeSeqDone_def onPipeDone_def onFrameDone_def reject_with_def answered_def deliver_def
      give_back_def settle_def recordLatency_def Let_def split: option.split kind.split prod.split)

lemma done_disposed [simp]: "disposed (onDone now m s) = disposed s"
  using routed_done [of now m s] by (simp add: routed_def)

lemma read_closed: "disposed s \<longrightarrow> \<not> port s \<Longrightarrow> disposed (start_read now opens k n s) \<longrightarrow> \<not> port (start_read now opens k n s)"
  by (auto simp: start_read_def ensurePort_def checkout_def Let_def split: list.split)

lemma handled_buffer [simp]: "d_buffer (handleReadMessage (i, k, b) r) = b" "d_id (handleReadMessage (i, k, b) r) = i"
  "d_kind (handleReadMessage (i, k, b) r) = k"
  by (cases k; cases r; simp add: bare_done_def)+

lemma pool_inv_step: "pool_inv s \<Longrightarrow> caller_ok s e \<Longrightarrow> pool_inv (pool_step s e)"
proof (cases e)
  case (Read now opens k n)
  then show "pool_inv s \<Longrightarrow> ?thesis" by (simp add: pool_inv_def pool_ok_read read_closed)
next
  case (Reply now r)
  assume s: "pool_inv s"
  show ?thesis
  proof (cases "at_preload s")
    case (Cons p ps)
    obtain i k b where p: "p = (i, k, b)" by (cases p)
    have "pool_ok (onDone now (handleReadMessage p r) (s\<lparr>at_preload := ps\<rparr>))"
      by (rule pool_ok_routed [OF _ routed_done]) (use s Cons p in \<open>auto simp: pool_inv_def out_bufs_def\<close>)
    with s Cons Reply show ?thesis by (simp add: pool_inv_def)
  qed (use s Reply in simp)
next
  case (TimeOut i)
  assume s: "pool_inv s"
  have "pool_ok (time_out i s)"
    by (rule pool_ok_same [of s]) (use s in \<open>auto simp: pool_inv_def time_out_def settle_def out_bufs_def split: option.split\<close>)
  with s TimeOut show ?thesis by (auto simp: pool_inv_def time_out_def settle_def split: option.split)
next
  case (Release now b)
  assume s: "pool_inv s" and "caller_ok s e"
  then have h: "b \<in> set (held s)" using Release by simp
  have "pool_ok (recycle now b (s\<lparr>held := remove1 b (held s)\<rparr>))"
    by (rule pool_ok_back [of s]) (use s h in \<open>simp_all add: pool_inv_def out_bufs_def\<close>)
  with s Release show ?thesis by (simp add: pool_inv_def releaseBuffer_def)
next
  case Dispose
  assume s: "pool_inv s"
  have "pool_ok (dispose_pool s)"
  proof (cases "disposed s")
    case False
    show ?thesis
      by (rule pool_ok_moved [of s]) (use s False in \<open>auto simp: pool_inv_def dispose_pool_def all_bufs_def out_bufs_def keys_of_def\<close>)
  qed (use s in \<open>simp add: pool_inv_def dispose_pool_def\<close>)
  with s Dispose show ?thesis by (auto simp: pool_inv_def dispose_pool_def)
qed

interpretation pool: client_machine pool_step pool_inv caller_ok
  by unfold_locales (rule pool_inv_step)

lemma new_pool_inv: "pool_inv new_pool"
  by (simp add: pool_inv_def pool_ok_def new_pool_def all_bufs_def out_bufs_def keys_of_def outstanding_of_def)

text \<open>
  C7. As long as callers return only buffers they hold (each once), no buffer ever has two owners: the free
  lists, the reads under way and the callers hold pairwise different buffers, and until the pool is
  disposed it counts exactly the buffers of each size that are out. The pool does not check this duty:
  see \<open>double_release_aliases\<close>.
\<close>

theorem no_buffer_has_two_owners:
  assumes "obeys caller_ok pool_step new_pool es"
  shows "distinct (map fst (all_bufs (run pool_step new_pool es)))
    \<and> (disposed (run pool_step new_pool es)
       \<or> (\<forall>n. outstanding_of n (pools (run pool_step new_pool es)) = of_size n (out_bufs (run pool_step new_pool es))))"
  using pool.run_inv [OF new_pool_inv assms] by (simp add: pool_inv_def pool_ok_def)

lemma no_buffer_has_two_owners_witness:
  "distinct (map fst (all_bufs (run pool_step new_pool
     [Read 0 True FrameRead 64, Read 1 True PipeRead 64, Reply 2 (RFrame 7 no_info), Reply 3 RNull, Release 4 (0, 64), Read 5 True PipeSeqRead 64])))"
proof -
  have "obeys caller_ok pool_step new_pool
     [Read 0 True FrameRead 64, Read 1 True PipeRead 64, Reply 2 (RFrame 7 no_info), Reply 3 RNull, Release 4 (0, 64), Read 5 True PipeSeqRead 64]"
    by code_simp
  from no_buffer_has_two_owners [OF this] show ?thesis by blast
qed

text \<open>The duty is needed: two releases of one buffer give it to two readers.\<close>

lemma double_release_aliases:
  "map snd (at_preload (run pool_step new_pool [Read 0 True PipeRead 64, Read 0 True PipeRead 64, Reply 1 (RFrame 1 no_info),
     Reply 1 (RFrame 2 no_info), Release 2 (0, 64), Release 2 (0, 64), Read 3 True PipeRead 64, Read 3 True PipeRead 64]))
   = [(PipeRead, 0, 64), (PipeRead, 0, 64)]"
  by code_simp

section \<open>The retention window\<close>

text \<open>
  \<open>L\<close> holds the times of the checkouts of a size and how many buffers were out after each: the peaks of
  a bucket cover those of its window, and free and outstanding buffers together cover those of the last
  \<open>RETENTION_WINDOW_MS\<close>.
\<close>

definition window_ok :: "real \<Rightarrow> (real \<times> nat) list \<Rightarrow> bucket \<Rightarrow> bool" where
  "window_ok now L b \<longleftrightarrow> windowStart b \<le> now \<and> (\<forall>(t, k) \<in> set L. t \<le> now \<and> t < windowStart b + RETENTION_WINDOW_MS
     \<and> (windowStart b \<le> t \<longrightarrow> k \<le> windowPeak b) \<and> (windowStart b - RETENTION_WINDOW_MS < t \<and> t < windowStart b \<longrightarrow> k \<le> prevWindowPeak b))"

definition covered :: "real \<Rightarrow> (real \<times> nat) list \<Rightarrow> bucket \<Rightarrow> bool" where
  "covered now L b \<longleftrightarrow> (\<forall>(t, k) \<in> set L. now - RETENTION_WINDOW_MS < t \<longrightarrow> k \<le> length (free b) + outstanding b)"

lemma window_fields [simp]:
  "window_ok now L (b\<lparr>outstanding := k\<rparr>) = window_ok now L b" "window_ok now L (b\<lparr>free := fs\<rparr>) = window_ok now L b"
  "retentionCap (b\<lparr>outstanding := k\<rparr>) = retentionCap b" "retentionCap (b\<lparr>free := fs\<rparr>) = retentionCap b"
  by (simp_all add: window_ok_def retentionCap_def)

lemma window_rotate:
  assumes "window_ok T L b" "T \<le> now"
  shows "window_ok now L (rotate_window now b)" "now < windowStart (rotate_window now b) + RETENTION_WINDOW_MS"
proof -
  show "now < windowStart (rotate_window now b) + RETENTION_WINDOW_MS"
    by (simp add: rotate_window_def Let_def RETENTION_WINDOW_MS_def)
  show "window_ok now L (rotate_window now b)"
    using assms unfolding window_ok_def rotate_window_def Let_def RETENTION_WINDOW_MS_def
    by (auto split: prod.splits)
qed

lemma recent_within_cap:
  assumes "window_ok now L b" "now < windowStart b + RETENTION_WINDOW_MS" "(t, k) \<in> set L" "now - RETENTION_WINDOW_MS < t"
  shows "k \<le> retentionCap b"
  using assms by (fastforce simp: window_ok_def retentionCap_def)

definition peaks :: "pool \<Rightarrow> (real \<times> nat) list" where
  "peaks s = map (\<lambda>(t, m, k). (t, k)) (checkouts s)"

definition tracked :: "real \<Rightarrow> (real \<times> nat) list \<Rightarrow> bucket option \<Rightarrow> bool" where
  "tracked now L q = (case q of None \<Rightarrow> L = [] | Some b \<Rightarrow> window_ok now L b \<and> covered now L b)"

definition steady :: "nat \<Rightarrow> real \<Rightarrow> pool \<Rightarrow> bool" where
  "steady n now s \<longleftrightarrow> tracked now (peaks s) (map_of (pools s) n)"

lemma tracked_later: "tracked T L q \<Longrightarrow> T \<le> now \<Longrightarrow> tracked now L q"
  by (fastforce simp: tracked_def window_ok_def covered_def split: option.splits)

lemma tracked_bucketFor:
  assumes "tracked T L (map_of ps n)" "T \<le> now"
  shows "window_ok now L (bucketFor now n ps)" "covered now L (bucketFor now n ps)"
  using tracked_later [OF assms]
  by (auto simp: tracked_def bucketFor_def window_ok_def covered_def new_bucket_def split: option.splits)

lemma tracked_recycle:
  assumes "window_ok now L q" "covered now L q"
  defines "q1 \<equiv> rotate_window now (q\<lparr>outstanding := outstanding q - 1\<rparr>)"
  shows "tracked now L (Some (if length (free q1) < retentionCap q1 then q1\<lparr>free := i # free q1\<rparr> else q1))"
proof -
  note w = window_rotate [of now L "q\<lparr>outstanding := outstanding q - 1\<rparr>" now, folded q1_def]
  have ok: "window_ok now L q1" "now < windowStart q1 + RETENTION_WINDOW_MS" using w assms(1) by simp_all
  show ?thesis
  proof (cases "length (free q1) < retentionCap q1")
    case True
    have "covered now L (q1\<lparr>free := i # free q1\<rparr>)"
      using assms(2) by (fastforce simp: covered_def q1_def)
    with ok True show ?thesis by (simp add: tracked_def)
  next
    case False
    have "covered now L q1"
      unfolding covered_def using recent_within_cap [OF ok] False by fastforce
    with ok False show ?thesis by (simp add: tracked_def)
  qed
qed

lemma steady_recycle: "steady n T s \<Longrightarrow> T \<le> now \<Longrightarrow> steady n now (recycle now b s)"
proof (cases "snd b = n")
  case True
  assume s: "steady n T s" "T \<le> now"
  note q = tracked_bucketFor [OF s(1) [unfolded steady_def] s(2)]
  show ?thesis
    using tracked_recycle [OF q, of "fst b"] True
    by (simp add: steady_def recycle_def Let_def peaks_def table_simps split: if_splits)
qed (auto simp: steady_def recycle_def Let_def peaks_def table_simps intro: tracked_later)

lemma steady_same: "steady n T s \<Longrightarrow> T \<le> now \<Longrightarrow> pools s' = pools s \<Longrightarrow> checkouts s' = checkouts s \<Longrightarrow> steady n now s'"
  by (simp add: steady_def peaks_def tracked_later)

lemma free_same: "free b = fs \<Longrightarrow> b\<lparr>windowPeak := k, free := fs\<rparr> = b\<lparr>windowPeak := k\<rparr>"
  by (cases b) simp

lemma map_of_evict: "map_of (evictIdleSizesExcept n ps) n = map_of ps n"
  by (induction ps) (auto simp: evictIdleSizesExcept_def)

lemma tracked_checkout:
  assumes "window_ok now L q" "covered now L q" "fs = tl (free q)"
  defines "q1 \<equiv> rotate_window now (q\<lparr>outstanding := outstanding q + 1\<rparr>)"
  defines "q2 \<equiv> q1\<lparr>windowPeak := max (windowPeak q1) (outstanding q1)\<rparr>"
  shows "tracked now (L @ [(now, outstanding q2)]) (Some (q2\<lparr>free := fs\<rparr>))"
proof -
  note w = window_rotate [of now L "q\<lparr>outstanding := outstanding q + 1\<rparr>" now, folded q1_def]
  have ok: "window_ok now L q1" "now < windowStart q1 + RETENTION_WINDOW_MS" using w assms(1) by simp_all
  have "window_ok now (L @ [(now, outstanding q2)]) q2"
    using ok by (auto simp: window_ok_def q2_def max_def)
  moreover have "covered now (L @ [(now, outstanding q2)]) (q2\<lparr>free := fs\<rparr>)"
    using assms(2,3) by (cases "free q") (fastforce simp: covered_def q2_def q1_def)+
  ultimately show ?thesis by (simp add: tracked_def)
qed

lemma steady_checkout:
  assumes "steady n T s" "T \<le> now" "checkout now n s = (b, s')"
  shows "steady n now s'"
    and "allocations s' \<noteq> allocations s \<Longrightarrow> (t, k) \<in> set (peaks s) \<Longrightarrow> now - RETENTION_WINDOW_MS < t \<Longrightarrow> k \<le> outstanding_of n (pools s)"
proof -
  let ?ps = "evictIdleSizesExcept n (pools s)"
  have "tracked T (peaks s) (map_of ?ps n)" using assms(1) by (simp add: steady_def map_of_evict)
  note q = tracked_bucketFor [OF this assms(2)]
  note t = tracked_checkout [OF q, where fs = "tl (free (bucketFor now n ?ps))"]
  show "steady n now s'"
    using t assms(3) by (cases "free (bucketFor now n ?ps)") (auto simp: steady_def checkout_def Let_def peaks_def table_simps free_same)
  assume "allocations s' \<noteq> allocations s"
  then have e: "free (bucketFor now n ?ps) = []"
    using assms(3) by (cases "free (bucketFor now n ?ps)") (auto simp: checkout_def Let_def)
  have o: "outstanding (bucketFor now n ?ps) = outstanding_of n (pools s)"
    by (simp add: bucketFor_def outstanding_of_def new_bucket_def map_of_evict split: option.split)
  show "(t, k) \<in> set (peaks s) \<Longrightarrow> now - RETENTION_WINDOW_MS < t \<Longrightarrow> k \<le> outstanding_of n (pools s)"
    using q(2) e o by (fastforce simp: covered_def)
qed

text \<open>Histories of a pool in use that reads buffers of one size, in the order of the clock.\<close>

fun clock_of :: "pool_event \<Rightarrow> real list" where
  "clock_of (Read now opens k n) = [now]"
| "clock_of (Reply now r) = [now]"
| "clock_of (Release now b) = [now]"
| "clock_of _ = []"

fun one_size :: "nat \<Rightarrow> pool_event \<Rightarrow> bool" where
  "one_size n (Read now opens k m) = (m = n)"
| "one_size n Dispose = False"
| "one_size n _ = True"

lemma steady_step:
  assumes "steady n T s" "one_size n e" "clock_of e = [] \<or> clock_of e = [now]" "T \<le> now"
  shows "steady n now (pool_step s e)"
proof (cases e)
  case (Read t opens k m)
  then have m: "m = n" "t = now" using assms(2,3) by simp_all
  have s0: "steady n T (ensurePort opens s)" by (rule steady_same [OF assms(1)]) (simp_all add: ensurePort_def)
  obtain b s1 where c: "checkout now n (ensurePort opens s) = (b, s1)" by (cases "checkout now n (ensurePort opens s)")
  show ?thesis
    using steady_checkout(1) [OF s0 assms(4) c] steady_same [OF s0 assms(4)] Read m c
    by (auto simp: start_read_def Let_def steady_def peaks_def)
next
  case (Reply t r)
  show ?thesis
  proof (cases "at_preload s")
    case (Cons p ps)
    have s0: "steady n T (s\<lparr>at_preload := ps\<rparr>)" by (rule steady_same [OF assms(1)]) simp_all
    have "t = now" using assms(3) Reply by simp
    moreover have "steady n now (onDone now (handleReadMessage p r) (s\<lparr>at_preload := ps\<rparr>))"
      using routed_done [of now "handleReadMessage p r" "s\<lparr>at_preload := ps\<rparr>"] unfolding routed_def
    proof (elim conjE disjE)
    qed (use steady_same [OF s0 assms(4)] steady_same [OF steady_recycle [OF s0 assms(4)] order_refl] in simp_all)
    ultimately show ?thesis using Reply Cons by simp
  qed (use Reply tracked_later assms in \<open>auto simp: steady_def\<close>)
next
  case (TimeOut i)
  show ?thesis by (rule steady_same [OF assms(1,4)]) (use TimeOut in \<open>auto simp: time_out_def settle_def split: option.split\<close>)
next
  case (Release t b)
  have s0: "steady n T (s\<lparr>held := remove1 b (held s)\<rparr>)" by (rule steady_same [OF assms(1)]) simp_all
  show ?thesis using steady_recycle [OF s0 assms(4)] Release assms(3) by (simp add: releaseBuffer_def)
qed (use assms(2) in simp)

definition times :: "pool_event list \<Rightarrow> real list" where
  "times es = concat (map clock_of es)"

lemma steady_run:
  "steady n T s \<Longrightarrow> list_all (one_size n) es \<Longrightarrow> sorted (T # times es) \<Longrightarrow> \<forall>t \<in> set (T # times es). t \<le> now \<Longrightarrow>
   steady n now (run pool_step s es)"
proof (induction es arbitrary: T s)
  case (Cons e es)
  let ?T' = "case clock_of e of [] \<Rightarrow> T | t # ts \<Rightarrow> t"
  have "clock_of e = [] \<or> clock_of e = [?T']" "T \<le> ?T'"
    using Cons.prems(3) by (cases e; simp add: times_def)+
  then have "steady n ?T' (pool_step s e)"
    using steady_step [OF Cons.prems(1)] Cons.prems(2) by simp
  then show ?case
    using Cons.IH [of ?T'] Cons.prems by (cases e) (auto simp: times_def)
qed (simp add: steady_def tracked_later)

text \<open>
  A pool that reads frames of one size allocates a buffer only when more buffers are out than after
  any read of the last \<open>RETENTION_WINDOW_MS\<close>: a stream that keeps to its recent working set never
  allocates.
\<close>

theorem allocation_is_a_new_peak:
  fixes es
  defines "s \<equiv> run pool_step new_pool es"
  assumes "list_all (one_size n) es" "sorted (times es)" "\<forall>t' \<in> set (times es). t' \<le> now"
    and "allocations (pool_step s (Read now opens k n)) \<noteq> allocations s"
    and "(t, n', p) \<in> set (checkouts s)" "now - RETENTION_WINDOW_MS < t"
  shows "p \<le> outstanding_of n (pools s)"
proof -
  define T where "T = (if times es = [] then now else hd (times es))"
  have "steady n T new_pool" by (simp add: steady_def tracked_def new_pool_def peaks_def)
  then have s: "steady n now s"
    unfolding s_def by (rule steady_run [OF _ assms(2)]) (use assms(3,4) in \<open>cases "times es"; auto simp: T_def\<close>)+
  have s0: "steady n now (ensurePort opens s)" by (rule steady_same [OF s]) (simp_all add: ensurePort_def)
  obtain b s1 where c: "checkout now n (ensurePort opens s) = (b, s1)" by (cases "checkout now n (ensurePort opens s)")
  have "allocations s1 \<noteq> allocations (ensurePort opens s)"
    using assms(5) c by (auto simp: start_read_def Let_def ensurePort_def split: if_splits)
  moreover have "(t, p) \<in> set (peaks (ensurePort opens s))"
    using assms(6) by (force simp: peaks_def ensurePort_def)
  moreover have "pools (ensurePort opens s) = pools s" by (simp add: ensurePort_def)
  ultimately show ?thesis using steady_checkout(2) [OF s0 order_refl c, of t p] assms(7) by simp
qed

lemma allocation_is_a_new_peak_witness:
  "let s = run pool_step new_pool [Read 0 True PipeRead 64, Reply 1 (RFrame 1 no_info), Read 2 True PipeRead 64]
   in allocations (pool_step s (Read 4 True PipeRead 64)) \<noteq> allocations s \<and> 2 \<le> outstanding_of 64 (pools s)"
proof -
  let ?es = "[Read 0 True PipeRead 64, Reply 1 (RFrame 1 no_info), Read 2 True PipeRead 64]"
  have a: "allocations (pool_step (run pool_step new_pool ?es) (Read 4 True PipeRead 64)) \<noteq> allocations (run pool_step new_pool ?es)"
    "(2, 64, 2) \<in> set (checkouts (run pool_step new_pool ?es))"
    by code_simp+
  have "2 \<le> outstanding_of 64 (pools (run pool_step new_pool ?es))"
    by (rule allocation_is_a_new_peak [of 64 ?es 4 True PipeRead 2 64 2]) (use a in \<open>simp_all add: times_def RETENTION_WINDOW_MS_def\<close>)
  with a show ?thesis by simp
qed

section \<open>Reads settle once\<close>

definition issued :: "nat \<Rightarrow> nat list" where
  "issued n = [1..<Suc n]"

lemma issued_simps [simp]: "issued 0 = []" "issued (Suc n) = issued n @ [Suc n]" "distinct (issued n)" "set (issued n) = {1..n}"
  by (auto simp: issued_def)

definition ids_ok :: "pool \<Rightarrow> bool" where
  "ids_ok s \<longleftrightarrow> mset (map fst (settled s)) + mset (keys_of (pend s)) = mset (issued (seq s))"

lemma ids_distinct: "ids_ok s \<Longrightarrow> distinct (keys_of (pend s))"
  using distinct_sub_mset [of "keys_of (pend s)" "issued (seq s)"] unfolding ids_ok_def
  by (metis issued_simps(3) mset_subset_eq_add_right)

lemma mset_keys_delete:
  "distinct (keys_of ps) \<Longrightarrow> map_of ps i = Some x \<Longrightarrow> mset (keys_of ps) = {#i#} + mset (keys_of (AList.delete i ps))"
proof (induction ps)
  case (Cons p ps)
  have "AList.delete (fst p) ps = ps" if "fst p \<notin> set (keys_of ps)" for p
    using that by (simp add: keys_of_def delete_idem)
  with Cons show ?case by (cases p) (auto simp: keys_of_def)
qed simp

lemma settled_one:
  assumes "ids_ok s" "map_of (pend s) i = Some x" "pend s' = AList.delete i (pend s)" "settled s' = settled s @ [(i, r)]" "seq s' = seq s"
  shows "ids_ok s'"
  using assms mset_keys_delete [OF ids_distinct [OF assms(1)] assms(2)] by (simp add: ids_ok_def)

lemma done_settles:
  "map_of (pend s) (d_id m) = Some (d_kind m, t) \<Longrightarrow>
   pend (onDone now m s) = AList.delete (d_id m) (pend s) \<and> seq (onDone now m s) = seq s
   \<and> (\<exists>r. settled (onDone now m s) = settled s @ [(d_id m, r)])"
  by (auto simp: onDone_def onPipeSeqDone_def onPipeDone_def onFrameDone_def reject_with_def answered_def deliver_def
      give_back_def settle_def recordLatency_def Let_def split: option.split kind.split)

lemma done_stale:
  "\<nexists>t. map_of (pend s) (d_id m) = Some (d_kind m, t) \<Longrightarrow> onDone now m s = recycle now (d_buffer m) s"
  by (auto simp: onDone_def split: option.split)

lemma ids_done: "ids_ok s \<Longrightarrow> ids_ok (onDone now m s)"
proof (cases "\<exists>t. map_of (pend s) (d_id m) = Some (d_kind m, t)")
  case True
  assume "ids_ok s"
  with True done_settles [of s m _ now] settled_one show ?thesis by blast
qed (simp add: done_stale ids_ok_def)

lemma checkout_ids: "checkout now n s = (b, s') \<Longrightarrow> pend s' = pend s \<and> settled s' = settled s \<and> seq s' = seq s"
  by (auto simp: checkout_def Let_def split: list.splits)

lemma ids_read: "ids_ok s \<Longrightarrow> ids_ok (start_read now opens k n s)"
proof -
  assume s: "ids_ok s"
  obtain b s1 where c: "checkout now n (ensurePort opens s) = (b, s1)" by (cases "checkout now n (ensurePort opens s)")
  have "pend s1 = pend s" "settled s1 = settled s" "seq s1 = seq s"
    using checkout_ids [OF c] by (simp_all add: ensurePort_def)
  with s c show ?thesis by (simp add: start_read_def Let_def ids_ok_def keys_of_def ensurePort_def)
qed

lemma ids_time_out: "ids_ok s \<Longrightarrow> ids_ok (time_out i s)"
proof (cases "map_of (pend s) i")
  case (Some p)
  assume s: "ids_ok s"
  from Some show ?thesis
    by (cases p) (auto simp: time_out_def settle_def intro: settled_one [OF s])
qed (simp add: time_out_def)

lemma ids_dispose: "ids_ok s \<Longrightarrow> ids_ok (dispose_pool s)"
proof -
  have "map fst (map (\<lambda>(i, k, t). (i, r)) ps) = keys_of ps" for r :: outcome and ps :: "(nat \<times> kind \<times> real) list"
    by (simp add: keys_of_def case_prod_unfold)
  then show "ids_ok s \<Longrightarrow> ?thesis"
    by (simp add: ids_ok_def dispose_pool_def keys_of_def del: mset_map map_map)
qed

lemma ids_step: "ids_ok s \<Longrightarrow> ids_ok (pool_step s e)"
proof (cases e)
  case (Reply now r)
  assume s: "ids_ok s"
  show ?thesis
  proof (cases "at_preload s")
    case (Cons p ps)
    have "ids_ok (s\<lparr>at_preload := ps\<rparr>)" using s by (simp add: ids_ok_def)
    with Cons Reply show ?thesis by (simp add: ids_done)
  qed (use s Reply in simp)
qed (simp_all add: ids_read ids_time_out ids_dispose, simp add: ids_ok_def releaseBuffer_def)

definition closed_ok :: "pool \<Rightarrow> bool" where
  "closed_ok s \<longleftrightarrow> disposed s \<longrightarrow> pend s = [] \<and> \<not> port s"

lemma closed_step: "closed_ok s \<Longrightarrow> closed_ok (pool_step s e)"
proof (cases e)
  case (Read now opens k n)
  assume s: "closed_ok s"
  have "disposed (start_read now opens k n s) = disposed s"
    by (auto simp: start_read_def ensurePort_def checkout_def Let_def split: list.split)
  moreover have "start_read now opens k n s = s\<lparr>refused := refused s + 1\<rparr>" if "disposed s"
    using s that by (simp add: start_read_def ensurePort_def closed_ok_def)
  ultimately show ?thesis using s Read by (auto simp: closed_ok_def)
next
  case (Reply now r)
  assume s: "closed_ok s"
  show ?thesis
  proof (cases "at_preload s")
    case (Cons p ps)
    have "pend (onDone now m t) = []" if "pend t = []" for m t using that by (simp add: onDone_def)
    with s Cons Reply show ?thesis by (simp add: closed_ok_def)
  qed (use s Reply in simp)
qed (auto simp: closed_ok_def time_out_def settle_def releaseBuffer_def dispose_pool_def split: option.split)

interpretation ids: started_machine pool_step ids_ok new_pool
  by unfold_locales (rule ids_step, simp_all add: ids_ok_def new_pool_def keys_of_def)

interpretation closing: started_machine pool_step closed_ok new_pool
  by unfold_locales (rule closed_step, simp_all add: closed_ok_def new_pool_def)

text \<open>
  Every read the pool took on is pending or has settled, and settles once, whatever replies, timeouts
  and teardown do; after \<open>dispose\<close> none is pending.
\<close>

theorem reads_settle_once:
  "distinct (map fst (settled (run pool_step new_pool es)))
   \<and> set (map fst (settled (run pool_step new_pool es))) \<union> set (keys_of (pend (run pool_step new_pool es))) = {1..seq (run pool_step new_pool es)}
   \<and> pend (run pool_step new_pool (es @ [Dispose])) = []"
proof -
  let ?s = "run pool_step new_pool es"
  have ok: "ids_ok ?s" by (rule ids.reachable_inv)
  have "distinct (map fst (settled ?s))"
    using distinct_sub_mset [of "map fst (settled ?s)" "issued (seq ?s)"] ok unfolding ids_ok_def
    by (metis issued_simps(3) mset_subset_eq_add_left)
  moreover have "mset (map fst (settled ?s) @ keys_of (pend ?s)) = mset (issued (seq ?s))" using ok by (simp add: ids_ok_def)
  from mset_eq_setD [OF this] have "set (map fst (settled ?s)) \<union> set (keys_of (pend ?s)) = {1..seq ?s}" by auto
  moreover have "closed_ok ?s" by (rule closing.reachable_inv)
  ultimately show ?thesis by (simp add: dispose_pool_def closed_ok_def)
qed

end
