(* ===== verification/PipeConsumer.thy ===== *)
theory PipeConsumer
  imports ShmPool
begin

text \<open>
  How a window shows a pipe: the polling consumer of \<open>app/lib/orchestrator/pipe-consumer.ts\<close>, whose
  reads are the pool's of \<open>ShmPool\<close>, and the binding of \<open>usePipeFrame\<close> in
  \<open>app/lib/orchestrator/client.ts\<close>, which connects, reconnects on a new epoch and disconnects. A poll
  under way is an entry of \<open>polls\<close>, an animation frame asked for an entry of \<open>rafs\<close>. The lemmas show
  that buffers go back to the pool, that connects and disconnects balance, that at most one consumer runs
  unless a pipe is bound again before its first connect was answered, and what happens then.
\<close>

section \<open>The consumer\<close>

definition ERROR_SURFACE_THRESHOLD :: nat where "ERROR_SURFACE_THRESHOLD = 10"

record pipe_spec =
  shmName :: string
  sp_width :: nat
  sp_height :: nat
  sp_channels :: nat
  bytesPerFrame :: nat
  maxBytes :: "nat option"

record pipe_payload =
  p_data :: buf
  p_shape :: "nat \<times> nat"
  p_channels :: nat
  p_seq :: nat
  p_tCapture :: "real option"
  p_convertMs :: "real option"
  p_shm :: "(string \<times> nat \<times> nat \<times> nat option) option"

record consumer =
  lastSeq :: nat
  displayed :: "buf option"
  closed :: bool
  running :: bool
  rafHandle :: nat
  rafs :: "nat list"
  nextRaf :: nat
  polls :: "(bool \<times> nat \<times> nat) list"
  readErrors :: nat
  consecutiveReadErrors :: nat
  generation :: nat
  taken :: "buf list"
  returned :: "buf list"
  sunk :: "pipe_payload option list"
  surfaced :: "(nat \<times> nat \<times> string) list"

definition new_consumer :: consumer where
  "new_consumer = \<lparr>lastSeq = 0, displayed = None, closed = False, running = False, rafHandle = 0, rafs = [], nextRaf = 1,
     polls = [], readErrors = 0, consecutiveReadErrors = 0, generation = 0, taken = [], returned = [], sunk = [], surfaced = []\<rparr>"

text \<open>What a read asks for: the segment, the last frame seen and the size of a ring slot.\<close>

definition read_request :: "pipe_spec \<Rightarrow> consumer \<Rightarrow> string \<times> nat \<times> nat" where
  "read_request sp c = (shmName sp, lastSeq c, case maxBytes sp of Some n \<Rightarrow> n | None \<Rightarrow> bytesPerFrame sp)"

definition nullish :: "'a option \<Rightarrow> 'a \<Rightarrow> 'a" where
  "nullish x d = (case x of Some v \<Rightarrow> v | None \<Rightarrow> d)"

definition payload_of :: "pipe_spec \<Rightarrow> buf \<Rightarrow> nat \<Rightarrow> info \<Rightarrow> pipe_payload" where
  "payload_of sp b q x = \<lparr>p_data = b, p_shape = (nullish (height x) (sp_height sp), nullish (width x) (sp_width sp)),
     p_channels = sp_channels sp, p_seq = q, p_tCapture = tCapture x, p_convertMs = convertMs x,
     p_shm = (case gen x of None \<Rightarrow> None | Some g \<Rightarrow> Some (shmName sp, g, q, retries x))\<rparr>"

definition give :: "buf option \<Rightarrow> consumer \<Rightarrow> consumer" where
  "give b c = (case b of None \<Rightarrow> c | Some x \<Rightarrow> c\<lparr>returned := returned c @ [x]\<rparr>)"

text \<open>\<open>poll\<close> up to its await; the flag says that the loop awaits it.\<close>

definition poll_start :: "bool \<Rightarrow> consumer \<Rightarrow> consumer" where
  "poll_start l c = (if closed c then c else c\<lparr>polls := polls c @ [(l, generation c, lastSeq c)]\<rparr>)"

definition poll_failed :: "string \<Rightarrow> consumer \<Rightarrow> consumer" where
  "poll_failed e c = (let n = consecutiveReadErrors c + 1; t = readErrors c + 1
     in c\<lparr>readErrors := t, consecutiveReadErrors := n,
          surfaced := surfaced c @ (if n = ERROR_SURFACE_THRESHOLD then [(n, t, e)] else [])\<rparr>)"

definition poll_frame :: "pipe_spec \<Rightarrow> buf \<Rightarrow> nat \<Rightarrow> info \<Rightarrow> consumer \<Rightarrow> consumer" where
  "poll_frame sp b q x c = (give (displayed c) c)\<lparr>lastSeq := q, displayed := Some b, sunk := sunk c @ [Some (payload_of sp b q x)]\<rparr>"

text \<open>\<open>poll\<close> after its await.\<close>

definition poll_done :: "pipe_spec \<Rightarrow> nat \<Rightarrow> outcome \<Rightarrow> consumer \<Rightarrow> consumer" where
  "poll_done sp g r c = (case r of
      ORejected e \<Rightarrow> poll_failed e c
    | _ \<Rightarrow> let c1 = c\<lparr>consecutiveReadErrors := 0\<rparr>;
              c2 = (case r of OFrame b q x \<Rightarrow> c1\<lparr>taken := taken c1 @ [b]\<rparr> | _ \<Rightarrow> c1)
          in if closed c2 \<or> generation c2 \<noteq> g
             then give (case r of OFrame b q x \<Rightarrow> Some b | _ \<Rightarrow> None) c2
             else case r of
                OClosed \<Rightarrow> c2\<lparr>closed := True, sunk := sunk c2 @ [None]\<rparr>
              | OFrame b q x \<Rightarrow> poll_frame sp b q x c2
              | _ \<Rightarrow> c2)"

definition ask_frame :: "consumer \<Rightarrow> consumer" where
  "ask_frame c = c\<lparr>rafHandle := nextRaf c, rafs := rafs c @ [nextRaf c], nextRaf := nextRaf c + 1\<rparr>"

text \<open>\<open>loop\<close>: a poll of a closed consumer ends at once, without another frame.\<close>

definition loop :: "consumer \<Rightarrow> consumer" where
  "loop c = (if running c then poll_start True c else c)"

definition start :: "consumer \<Rightarrow> consumer" where
  "start c = (if running c then c else loop (c\<lparr>running := True\<rparr>))"

definition stop :: "consumer \<Rightarrow> consumer" where
  "stop c = (let c1 = c\<lparr>running := False, generation := generation c + 1, rafs := (if rafHandle c = 0 then rafs c else removeAll (rafHandle c) (rafs c)), rafHandle := 0\<rparr>
     in (give (displayed c1) c1)\<lparr>displayed := None\<rparr>)"

datatype consumer_event = Start | Stop | Poll | FrameTick nat | Answer nat outcome

fun consumer_step :: "pipe_spec \<Rightarrow> consumer \<Rightarrow> consumer_event \<Rightarrow> consumer" where
  "consumer_step sp c Start = start c"
| "consumer_step sp c Stop = stop c"
| "consumer_step sp c Poll = poll_start False c"
| "consumer_step sp c (FrameTick i) = (if i \<in> set (rafs c) then loop (c\<lparr>rafs := removeAll i (rafs c)\<rparr>) else c)"
| "consumer_step sp c (Answer i r) = (if length (polls c) \<le> i then c
     else case polls c ! i of (l, g, q) \<Rightarrow>
       let c1 = poll_done sp g r (c\<lparr>polls := take i (polls c) @ drop (Suc i) (polls c)\<rparr>)
       in if l \<and> running c1 \<and> \<not> closed c1 then ask_frame c1 else c1)"

section \<open>Buffers go back\<close>

definition showing :: "consumer \<Rightarrow> buf list" where
  "showing c = (case displayed c of None \<Rightarrow> [] | Some b \<Rightarrow> [b])"

definition books_ok :: "consumer \<Rightarrow> bool" where
  "books_ok c \<longleftrightarrow> mset (taken c) = mset (returned c) + mset (showing c)"

lemma books_fields [simp]:
  "books_ok (poll_start l c) = books_ok c" "books_ok (ask_frame c) = books_ok c" "books_ok (loop c) = books_ok c"
  by (simp_all add: books_ok_def poll_start_def ask_frame_def loop_def showing_def)

lemma books_poll_done: "books_ok c \<Longrightarrow> books_ok (poll_done sp g r c)"
  by (cases r; cases "displayed c")
    (auto simp: books_ok_def poll_done_def poll_failed_def poll_frame_def give_def showing_def Let_def)

lemma books_step: "books_ok c \<Longrightarrow> books_ok (consumer_step sp c e)"
proof (cases e)
  case Stop
  then show "books_ok c \<Longrightarrow> ?thesis"
    by (cases "displayed c") (auto simp: books_ok_def stop_def give_def showing_def Let_def)
next
  case (Answer i r)
  have "books_ok (c\<lparr>polls := ps\<rparr>) = books_ok c" for ps by (simp add: books_ok_def showing_def)
  with Answer show "books_ok c \<Longrightarrow> ?thesis" by (simp add: books_poll_done Let_def split: prod.split)
qed (simp_all add: start_def, simp_all add: books_ok_def showing_def)

interpretation pipe_buffers: borrower "consumer_step sp" books_ok new_consumer taken returned showing for sp
  by unfold_locales (rule books_step, simp_all add: new_consumer_def showing_def books_ok_def)

text \<open>A stopped consumer that is not started again keeps nothing.\<close>

definition stopped :: "consumer \<Rightarrow> bool" where
  "stopped c \<longleftrightarrow> \<not> running c \<and> displayed c = None \<and> (\<forall>(l, g, q) \<in> set (polls c). g < generation c)"

definition idle_event :: "consumer_event \<Rightarrow> bool" where
  "idle_event e \<longleftrightarrow> e \<noteq> Start \<and> e \<noteq> Poll"

definition gens_ok :: "consumer \<Rightarrow> bool" where
  "gens_ok c \<longleftrightarrow> (\<forall>(l, g, q) \<in> set (polls c). g \<le> generation c)"

lemma poll_done_fields [simp]:
  "polls (poll_done sp g r c) = polls c" "generation (poll_done sp g r c) = generation c" "running (poll_done sp g r c) = running c"
  by (cases r; simp add: poll_done_def poll_failed_def poll_frame_def give_def Let_def split: option.split)+

lemma poll_done_stale: "g \<noteq> generation c \<Longrightarrow> displayed (poll_done sp g r c) = displayed c"
  by (cases r) (simp_all add: poll_done_def poll_failed_def give_def Let_def)

lemma gens_step: "gens_ok c \<Longrightarrow> gens_ok (consumer_step sp c e)"
proof (cases e)
  case (Answer i r)
  assume g: "gens_ok c"
  have "set (take i (polls c) @ drop (Suc i) (polls c)) \<subseteq> set (polls c)" by (auto dest: in_set_takeD in_set_dropD)
  with g Answer show ?thesis by (auto simp: gens_ok_def ask_frame_def Let_def split: prod.split)
qed (auto simp: gens_ok_def start_def loop_def poll_start_def stop_def give_def Let_def split: option.split)

interpretation gens: started_machine "consumer_step sp" gens_ok new_consumer for sp
  by unfold_locales (rule gens_step, simp_all add: gens_ok_def new_consumer_def)

lemma stopped_step: "stopped c \<Longrightarrow> idle_event e \<Longrightarrow> stopped (consumer_step sp c e)"
proof (cases e)
  case (Answer i r)
  assume s: "stopped c"
  show ?thesis
  proof (cases "i < length (polls c)")
    case True
    obtain l g q where p: "polls c ! i = (l, g, q)" by (cases "polls c ! i")
    have "(l, g, q) \<in> set (polls c)" using nth_mem [OF True] p by simp
    then have "g \<noteq> generation c" using s by (auto simp: stopped_def)
    moreover have "\<forall>(l, g, q) \<in> set (take i (polls c) @ drop (Suc i) (polls c)). g < generation c"
      using s by (auto simp: stopped_def dest: in_set_takeD in_set_dropD)
    ultimately show ?thesis using s True p Answer by (simp add: stopped_def Let_def poll_done_stale)
  qed (use s Answer in simp)
qed (auto simp: stopped_def idle_event_def loop_def stop_def give_def Let_def intro: less_SucI)

interpretation stopped: guarded_machine "consumer_step sp" stopped idle_event for sp
  by unfold_locales (rule stopped_step)

lemma stop_stops: "gens_ok c \<Longrightarrow> stopped (stop c)"
  by (auto simp: stopped_def stop_def gens_ok_def give_def Let_def less_Suc_eq_le split: option.split)

text \<open>
  A pipe consumer returns each buffer it was handed at most once and keeps at most the one it shows;
  once stopped and not started again it returns every buffer, also of the reads then still under way.
\<close>

theorem consumer_returns_every_buffer:
  assumes "list_all idle_event fs"
    and "distinct (taken (run (consumer_step sp) new_consumer (es @ Stop # fs)))"
  shows "distinct (returned (run (consumer_step sp) new_consumer (es @ Stop # fs)))
    \<and> set (returned (run (consumer_step sp) new_consumer (es @ Stop # fs))) = set (taken (run (consumer_step sp) new_consumer (es @ Stop # fs)))"
proof -
  let ?c = "run (consumer_step sp) new_consumer es"
  have "stopped (run (consumer_step sp) (stop ?c) fs)"
    by (rule stopped.run_inv [OF stop_stops [OF gens.reachable_inv] assms(1)])
  then have "showing (run (consumer_step sp) new_consumer (es @ Stop # fs)) = []"
    by (simp add: stopped_def showing_def)
  with pipe_buffers.returned_once [OF assms(2)] show ?thesis by auto
qed

lemma consumer_returns_every_buffer_witness:
  "set (returned (run (consumer_step \<lparr>shmName = ''p'', sp_width = 4, sp_height = 4, sp_channels = 4, bytesPerFrame = 64, maxBytes = None\<rparr>) new_consumer
     ([Start, Answer 0 (OFrame (3, 64) 1 no_info), FrameTick 1] @ Stop # [Answer 0 (OFrame (5, 64) 2 no_info)]))) = {(3, 64), (5, 64)}"
proof -
  let ?sp = "\<lparr>shmName = ''p'', sp_width = 4, sp_height = 4, sp_channels = 4, bytesPerFrame = 64, maxBytes = None\<rparr>"
  let ?es = "[Start, Answer 0 (OFrame (3, 64) 1 no_info), FrameTick 1]" and ?fs = "[Answer 0 (OFrame (5, 64) 2 no_info)]"
  have "taken (run (consumer_step ?sp) new_consumer (?es @ Stop # ?fs)) = [(3, 64), (5, 64)]" by code_simp
  with consumer_returns_every_buffer [of ?fs ?sp ?es] show ?thesis by (simp add: idle_event_def)
qed

text \<open>A consumer started again while a read is under way polls in two loops.\<close>

lemma restart_runs_two_loops:
  "length (rafs (run (consumer_step sp) new_consumer [Start, Stop, Start, Answer 0 ONull, Answer 0 ONull])) = 2"
  by code_simp

section \<open>Binding a pipe\<close>

text \<open>
  \<open>usePipeFrame\<close>: the key watched is a pipe and its epoch, or nothing. \<open>consumers\<close> tells for each
  consumer made whether it runs, \<open>current\<close> is the variable \<open>consumer\<close>, \<open>connecting\<close> the connects
  not yet answered, \<open>commands\<close> what was sent to the session.
\<close>

datatype pipe_command = ConnectPipe string | DisconnectPipe string

record binding =
  bound :: "(string \<times> nat) option"
  current :: "nat option"
  consumers :: "bool list"
  connecting :: "(string \<times> nat) list"
  commands :: "pipe_command list"

definition new_binding :: binding where
  "new_binding = \<lparr>bound = None, current = None, consumers = [], connecting = [], commands = []\<rparr>"

definition teardown :: "binding \<Rightarrow> binding" where
  "teardown b = b\<lparr>consumers := (case current b of None \<Rightarrow> consumers b | Some i \<Rightarrow> (consumers b)[i := False]),
     current := None, bound := None,
     commands := commands b @ (case bound b of None \<Rightarrow> [] | Some (i, e) \<Rightarrow> [DisconnectPipe i])\<rparr>"

definition bind_pipe :: "string \<Rightarrow> nat \<Rightarrow> binding \<Rightarrow> binding" where
  "bind_pipe i e b = b\<lparr>bound := Some (i, e), connecting := connecting b @ [(i, e)], commands := commands b @ [ConnectPipe i]\<rparr>"

definition connect_answer :: "nat \<Rightarrow> bool \<Rightarrow> binding \<Rightarrow> binding" where
  "connect_answer n ok b = (if length (connecting b) \<le> n then b
     else let key = connecting b ! n; b1 = b\<lparr>connecting := take n (connecting b) @ drop (Suc n) (connecting b)\<rparr>
       in if \<not> ok \<or> bound b1 \<noteq> Some key then b1
          else b1\<lparr>current := Some (length (consumers b1)), consumers := consumers b1 @ [True]\<rparr>)"

definition watch_key :: "(string \<times> nat) option \<Rightarrow> binding \<Rightarrow> binding" where
  "watch_key k b = (case k of
      None \<Rightarrow> if bound b \<noteq> None then teardown b else b
    | Some (i, e) \<Rightarrow> if bound b = Some (i, e) then b
        else bind_pipe i e (if bound b \<noteq> None then teardown b else b))"

datatype binding_event = Watch "(string \<times> nat) option" | Connected nat bool | Unmounted

fun binding_step :: "binding \<Rightarrow> binding_event \<Rightarrow> binding" where
  "binding_step b (Watch k) = watch_key k b"
| "binding_step b (Connected n ok) = connect_answer n ok b"
| "binding_step b Unmounted = teardown b"

definition connects :: "string \<Rightarrow> binding \<Rightarrow> nat" where
  "connects i b = count_list (commands b) (ConnectPipe i)"

definition disconnects :: "string \<Rightarrow> binding \<Rightarrow> nat" where
  "disconnects i b = count_list (commands b) (DisconnectPipe i)"

definition balanced :: "binding \<Rightarrow> bool" where
  "balanced b \<longleftrightarrow> (\<forall>i. connects i b = disconnects i b + (case bound b of Some (j, e) \<Rightarrow> if j = i then 1 else 0 | None \<Rightarrow> 0))"

lemma balanced_step: "balanced b \<Longrightarrow> balanced (binding_step b e)"
  by (cases e)
    (auto simp: balanced_def connects_def disconnects_def watch_key_def bind_pipe_def teardown_def connect_answer_def Let_def
      split: option.split)

interpretation balance: started_machine binding_step balanced new_binding
  by unfold_locales (rule balanced_step, simp_all add: balanced_def new_binding_def connects_def disconnects_def)

text \<open>A pipe is not bound again while a connect for the same epoch of it waits for its answer.\<close>

fun no_rebind :: "binding \<Rightarrow> binding_event \<Rightarrow> bool" where
  "no_rebind b (Watch (Some k)) = (bound b = Some k \<or> k \<notin> set (connecting b))"
| "no_rebind b _ = True"

definition one_consumer :: "binding \<Rightarrow> bool" where
  "one_consumer b \<longleftrightarrow> distinct (connecting b)
     \<and> (\<forall>j < length (consumers b). consumers b ! j \<longrightarrow> current b = Some j)
     \<and> (current b \<noteq> None \<longrightarrow> bound b \<noteq> None \<and> the (bound b) \<notin> set (connecting b))"

lemma one_consumer_teardown: "one_consumer b \<Longrightarrow> one_consumer (teardown b)"
proof (cases "current b")
  case (Some a)
  assume b: "one_consumer b"
  have "\<not> (consumers b)[a := False] ! j" if "j < length (consumers b)" for j
    using b Some that by (cases "j = a") (auto simp: one_consumer_def)
  with b Some show ?thesis by (simp add: one_consumer_def teardown_def)
qed (simp add: one_consumer_def teardown_def)

lemma one_consumer_bind: "one_consumer b \<Longrightarrow> current b = None \<Longrightarrow> (i, e) \<notin> set (connecting b) \<Longrightarrow> one_consumer (bind_pipe i e b)"
  by (simp add: one_consumer_def bind_pipe_def)

lemma one_consumer_answer: "one_consumer b \<Longrightarrow> one_consumer (connect_answer n ok b)"
proof (cases "n < length (connecting b)")
  case True
  assume b: "one_consumer b"
  let ?rest = "take n (connecting b) @ drop (Suc n) (connecting b)"
  have "connecting b = take n (connecting b) @ connecting b ! n # drop (Suc n) (connecting b)" by (rule id_take_nth_drop [OF True])
  then have d: "distinct ?rest" "connecting b ! n \<notin> set ?rest" "set ?rest \<subseteq> set (connecting b)"
    using b unfolding one_consumer_def by (metis distinct.simps(2) distinct_append disjoint_insert(2) list.simps(15) Un_iff set_append not_distinct_decomp,
      metis Un_iff disjoint_insert(2) distinct.simps(2) distinct_append list.simps(15) set_append, metis Un_iff insert_iff list.simps(15) set_append subsetI)
  have "connecting b ! n \<in> set (connecting b)" using True by simp
  then have "current b = None" if "bound b = Some (connecting b ! n)" using b that by (auto simp: one_consumer_def)
  with b d True show ?thesis by (auto simp: one_consumer_def connect_answer_def Let_def nth_append less_Suc_eq)
qed (simp add: connect_answer_def)

lemma one_consumer_step: "one_consumer b \<Longrightarrow> no_rebind b e \<Longrightarrow> one_consumer (binding_step b e)"
proof (cases e)
  case (Watch k)
  assume b: "one_consumer b" and ok: "no_rebind b e"
  have t: "current (teardown b) = None" "connecting (teardown b) = connecting b" by (simp_all add: teardown_def)
  have n: "bound b = None \<longrightarrow> current b = None" using b by (auto simp: one_consumer_def)
  from Watch show ?thesis
    using b ok n t one_consumer_teardown [OF b] by (auto simp: watch_key_def split: option.split intro!: one_consumer_bind)
qed (simp_all add: one_consumer_teardown one_consumer_answer)

interpretation one_loop: client_machine binding_step one_consumer no_rebind
  by unfold_locales (rule one_consumer_step)

text \<open>
  Connects and disconnects of every pipe balance but for the pipe bound; if no pipe is bound again
  before its first connect was answered, at most one consumer of the view runs, and none runs once the
  view is unmounted.
\<close>

theorem one_consumer_per_view:
  fixes es
  defines "b \<equiv> run binding_step new_binding es"
  assumes "obeys no_rebind binding_step new_binding es"
  shows "connects i b = disconnects i b + (case bound b of Some (j, e) \<Rightarrow> if j = i then 1 else 0 | None \<Rightarrow> 0)
    \<and> (\<forall>j < length (consumers b). \<forall>k < length (consumers b). consumers b ! j \<and> consumers b ! k \<longrightarrow> j = k)
    \<and> (bound b = None \<longrightarrow> (\<forall>j < length (consumers b). \<not> consumers b ! j))
    \<and> True \<notin> set (consumers (binding_step b Unmounted))"
proof -
  have "one_consumer new_binding" by (simp add: one_consumer_def new_binding_def)
  then have o: "one_consumer b" unfolding b_def by (rule one_loop.run_inv [OF _ assms(2)])
  then have r: "\<forall>j < length (consumers b). consumers b ! j \<longrightarrow> current b = Some j" by (simp add: one_consumer_def)
  have "j = k" if "j < length (consumers b)" "k < length (consumers b)" "consumers b ! j" "consumers b ! k" for j k
    using r [rule_format, OF that(1,3)] r [rule_format, OF that(2,4)] by simp
  moreover have "\<not> consumers b ! j" if "bound b = None" "j < length (consumers b)" for j
    using o that by (auto simp: one_consumer_def)
  moreover have "True \<notin> set (consumers (teardown b))"
    using one_consumer_teardown [OF o] by (auto simp: one_consumer_def in_set_conv_nth) (simp add: teardown_def)
  moreover have "balanced b" unfolding b_def by (rule balance.reachable_inv)
  ultimately show ?thesis unfolding balanced_def by simp
qed

lemma one_consumer_per_view_witness:
  "let b = run binding_step new_binding [Watch (Some (''a'', 1)), Watch (Some (''b'', 1)), Connected 0 True, Connected 0 True, Watch (Some (''a'', 1))]
   in connects ''a'' b = disconnects ''a'' b + 1 \<and> consumers b = [False]"
proof -
  let ?es = "[Watch (Some (''a'', 1)), Watch (Some (''b'', 1)), Connected 0 True, Connected 0 True, Watch (Some (''a'', 1))]"
  have "obeys no_rebind binding_step new_binding ?es" by code_simp
  from one_consumer_per_view [OF this, of "''a''"]
  have "connects ''a'' (run binding_step new_binding ?es) = disconnects ''a'' (run binding_step new_binding ?es)
      + (case bound (run binding_step new_binding ?es) of Some (j, e) \<Rightarrow> if j = ''a'' then 1 else 0 | None \<Rightarrow> 0)" by blast
  moreover have "bound (run binding_step new_binding ?es) = Some (''a'', 1) \<and> consumers (run binding_step new_binding ?es) = [False]" by code_simp
  ultimately show ?thesis by (simp add: Let_def)
qed

text \<open>
  A view that leaves a pipe and comes back to it before the first connect was answered takes both
  answers: two consumers of the pipe run, and unmounting the view stops only the second.
\<close>

theorem rebinding_leaves_a_consumer_running:
  "let b = run binding_step new_binding [Watch (Some (''a'', 1)), Watch None, Watch (Some (''a'', 1)), Connected 0 True, Connected 0 True]
   in consumers b = [True, True] \<and> consumers (binding_step b Unmounted) = [True, False]"
  by code_simp

text \<open>
  A connect that fails leaves the view bound to the pipe: watching the same key again, as the comment
  of \<open>bind\<close> expects, sends nothing.
\<close>

theorem failed_connect_is_not_retried:
  assumes "bound b = Some k" "connecting b = [k]"
  shows "binding_step (connect_answer 0 False b) (Watch (Some k)) = connect_answer 0 False b"
  using assms by (cases k) (simp add: connect_answer_def watch_key_def)

lemma failed_connect_is_not_retried_witness:
  "binding_step (run binding_step new_binding [Watch (Some (''a'', 1)), Connected 0 False]) (Watch (Some (''a'', 1)))
   = run binding_step new_binding [Watch (Some (''a'', 1)), Connected 0 False]"
proof -
  let ?b = "run binding_step new_binding [Watch (Some (''a'', 1))]"
  have "bound ?b = Some (''a'', 1)" "connecting ?b = [(''a'', 1)]" by code_simp+
  from failed_connect_is_not_retried [OF this] show ?thesis by simp
qed

end
