(* ===== verification/PipeBroker.thy ===== *)
theory PipeBroker
  imports Prelude
begin

text \<open>
  The broker of shared-memory pipes and composed nodes, \<open>app/orchestrator/pipe-session.ts\<close>, over the
  native pipe hub it drives (\<open>PipeHub\<close> and \<open>Publisher\<close> of \<open>core/src/Pipe.cpp\<close>, consumer counts and
  epochs only). A command is answered with an error or a value. Materializing a node is awaited, so it has
  a begin and an end. The lemmas show that the native consumer counts are those of the windows connected
  as long as no pipe is dropped under a consumer, that a composed node lives exactly as long as a window
  refers to it, and what a dropped pipe does to later disconnects.
\<close>

section \<open>State\<close>

record spec =
  s_id :: string
  s_pixelFormat :: string
  s_dtype :: string
  s_width :: nat
  s_height :: nat
  s_channels :: nat
  s_stride :: nat
  s_bytesPerFrame :: nat
  s_ringDepth :: nat
  s_maxWidth :: "nat option"
  s_maxHeight :: "nat option"
  s_maxBytes :: "nat option"

record node =
  n_kind :: string
  n_output :: "(string \<times> string) option"
  n_epoch :: nat
  n_owner :: "string option"
  n_refs :: "nat table"
  n_materialized :: bool

text \<open>\<open>live\<close> holds epoch and consumer count of each native pipe, \<open>resources\<close> what materializers made.\<close>

record broker =
  live :: "(nat \<times> nat) table"
  epochs :: "string \<Rightarrow> nat"
  advertised :: "(spec \<times> nat) table"
  connectLedger :: "(nat \<times> nat table) list"
  composed :: "node table"
  nodeEpochs :: "string \<Rightarrow> nat"
  materializing :: "(string \<times> string \<times> string option) list"
  resources :: "string list"
  attached :: "nat list"

definition new_broker :: broker where
  "new_broker = \<lparr>live = [], epochs = (\<lambda>_. 0), advertised = [], connectLedger = [], composed = [],
     nodeEpochs = (\<lambda>_. 0), materializing = [], resources = [], attached = []\<rparr>"

section \<open>The native hub\<close>

definition hub_advertise :: "string \<Rightarrow> broker \<Rightarrow> nat \<times> broker" where
  "hub_advertise p b = (case map_of (live b) p of
      Some (e, n) \<Rightarrow> (e, b)
    | None \<Rightarrow> let e = epochs b p + 1
        in (e, b\<lparr>epochs := (epochs b)(p := e), live := AList.update p (e, 0) (live b)\<rparr>))"

definition hub_connect :: "string \<Rightarrow> broker \<Rightarrow> (nat \<times> broker) option" where
  "hub_connect p b = (case map_of (live b) p of
      None \<Rightarrow> None
    | Some (e, n) \<Rightarrow> Some (e, b\<lparr>live := AList.update p (e, n + 1) (live b)\<rparr>))"

definition hub_disconnect :: "string \<Rightarrow> broker \<Rightarrow> broker option" where
  "hub_disconnect p b = (case map_of (live b) p of
      None \<Rightarrow> None
    | Some (e, n) \<Rightarrow> Some (b\<lparr>live := AList.update p (e, n - 1) (live b)\<rparr>))"

definition hub_drop :: "string \<Rightarrow> broker \<Rightarrow> broker" where
  "hub_drop p b = b\<lparr>live := AList.delete p (live b)\<rparr>"

definition unknown_pipe :: "string \<Rightarrow> string" where
  "unknown_pipe p = ''unknown pipe id: '' @ p"

section \<open>Advertising and connecting\<close>

definition advertise :: "spec \<Rightarrow> broker \<Rightarrow> broker" where
  "advertise s b = (case hub_advertise (s_id s) b of (e, b1) \<Rightarrow>
     b1\<lparr>advertised := AList.update (s_id s) (s, e) (advertised b1)\<rparr>)"

definition unadvertise :: "string \<Rightarrow> broker \<Rightarrow> broker" where
  "unadvertise p b = (let b1 = hub_drop p b in b1\<lparr>advertised := AList.delete p (advertised b1)\<rparr>)"

definition held_by :: "nat \<Rightarrow> (nat \<times> nat table) list \<Rightarrow> nat table" where
  "held_by c L = (case map_of L c of None \<Rightarrow> [] | Some h \<Rightarrow> h)"

definition count_of :: "string \<Rightarrow> nat table \<Rightarrow> nat" where
  "count_of p h = (case map_of h p of None \<Rightarrow> 0 | Some n \<Rightarrow> n)"

definition connectPipe :: "nat option \<Rightarrow> string \<Rightarrow> broker \<Rightarrow> (string + nat) \<times> broker" where
  "connectPipe c p b = (if \<not> has_key (advertised b) p then (Inl (''pipes: unknown pipeId \"'' @ p @ ''\"''), b)
     else case hub_connect p b of
         None \<Rightarrow> (Inl (unknown_pipe p), b)
       | Some (e, b1) \<Rightarrow> (Inr e, case c of
            None \<Rightarrow> b1
          | Some ch \<Rightarrow> let h = held_by ch (connectLedger b1)
              in b1\<lparr>connectLedger := AList.update ch (AList.update p (count_of p h + 1) h) (connectLedger b1)\<rparr>))"

definition ledger_sub :: "nat \<Rightarrow> string \<Rightarrow> (nat \<times> nat table) list \<Rightarrow> (nat \<times> nat table) list" where
  "ledger_sub ch p L = (let h = held_by ch L; have_count = count_of p h;
       h1 = (if have_count \<le> 1 then AList.delete p h else AList.update p (have_count - 1) h)
     in if h1 = [] then AList.delete ch L else AList.update ch h1 L)"

definition disconnectPipe :: "nat option \<Rightarrow> string \<Rightarrow> broker \<Rightarrow> (string + unit) \<times> broker" where
  "disconnectPipe c p b = (case c of
       Some ch \<Rightarrow> if count_of p (held_by ch (connectLedger b)) = 0 then (Inr (), b)
         else let b1 = b\<lparr>connectLedger := ledger_sub ch p (connectLedger b)\<rparr>
           in (case hub_disconnect p b1 of None \<Rightarrow> (Inl (unknown_pipe p), b1) | Some b2 \<Rightarrow> (Inr (), b2))
     | None \<Rightarrow> (case hub_disconnect p b of None \<Rightarrow> (Inl (unknown_pipe p), b) | Some b2 \<Rightarrow> (Inr (), b2)))"

text \<open>\<open>reconcileChannel\<close>: the flag says that a disconnect threw, which ends it.\<close>

fun release_n :: "string \<Rightarrow> nat \<Rightarrow> broker \<Rightarrow> broker \<times> bool" where
  "release_n p 0 b = (b, False)"
| "release_n p (Suc n) b = (case hub_disconnect p b of None \<Rightarrow> (b, True) | Some b1 \<Rightarrow> release_n p n b1)"

fun release_all :: "nat table \<Rightarrow> broker \<Rightarrow> broker \<times> bool" where
  "release_all [] b = (b, False)"
| "release_all ((p, n) # h) b = (case release_n p n b of (b1, threw) \<Rightarrow> if threw then (b1, True) else release_all h b1)"

definition reconcileChannel :: "nat \<Rightarrow> broker \<Rightarrow> broker \<times> bool" where
  "reconcileChannel ch b = (case map_of (connectLedger b) ch of
      None \<Rightarrow> (b, False)
    | Some h \<Rightarrow> release_all h (b\<lparr>connectLedger := AList.delete ch (connectLedger b)\<rparr>))"

text \<open>The close handler of a port (\<open>Hub.attach\<close>): the hooks run first, and a throw ends the handler.\<close>

definition port_close :: "nat \<Rightarrow> broker \<Rightarrow> broker" where
  "port_close ch b = (case reconcileChannel ch b of (b1, threw) \<Rightarrow>
     if threw then b1 else b1\<lparr>attached := removeAll ch (attached b1)\<rparr>)"

section \<open>Composed nodes\<close>

definition startsWith :: "string \<Rightarrow> string \<Rightarrow> bool" where
  "startsWith s p \<longleftrightarrow> take (length p) s = p"

definition ANON :: string where "ANON = ''''"

definition totalRefs :: "node \<Rightarrow> nat" where
  "totalRefs n = sum_list (map snd (n_refs n))"

definition teardown_node :: "string \<Rightarrow> node \<Rightarrow> broker \<Rightarrow> broker" where
  "teardown_node i n b = b\<lparr>resources := (if n_materialized n then remove1 i (resources b) else resources b),
     composed := AList.delete i (composed b)\<rparr>"

definition drop_ref :: "string \<Rightarrow> node \<Rightarrow> node" where
  "drop_ref w n = (let k = count_of w (n_refs n)
     in n\<lparr>n_refs := (if k \<le> 1 then AList.delete w (n_refs n) else AList.update w (k - 1) (n_refs n))\<rparr>)"

definition unref :: "string \<Rightarrow> string \<Rightarrow> broker \<Rightarrow> broker" where
  "unref i w b = (case map_of (composed b) i of
      None \<Rightarrow> b
    | Some n \<Rightarrow> let n1 = drop_ref w n in if totalRefs n1 = 0 then teardown_node i n1 b
        else b\<lparr>composed := AList.update i n1 (composed b)\<rparr>)"

definition decompose :: "string \<Rightarrow> string option \<Rightarrow> broker \<Rightarrow> broker" where
  "decompose i w b = unref i (case w of Some x \<Rightarrow> x | None \<Rightarrow> ANON) b"

text \<open>One entry of the loop of \<open>onWindowClosed\<close>.\<close>

definition close_node :: "string \<Rightarrow> string \<times> node \<Rightarrow> broker \<Rightarrow> broker" where
  "close_node w p b = (case p of (i, n) \<Rightarrow>
     if n_owner n = Some (''win/'' @ w) then teardown_node i n b
     else if has_key (n_refs n) w
       then let n1 = n\<lparr>n_refs := AList.delete w (n_refs n)\<rparr>
         in if totalRefs n1 = 0 then teardown_node i n1 b else b\<lparr>composed := AList.update i n1 (composed b)\<rparr>
     else b)"

definition onWindowClosed :: "string \<Rightarrow> broker \<Rightarrow> broker" where
  "onWindowClosed w b = fold (close_node w) (composed b) b"

definition finish_compose :: "string \<Rightarrow> string \<Rightarrow> string option \<Rightarrow> (string \<times> string) option \<Rightarrow> bool \<Rightarrow> broker \<Rightarrow> broker" where
  "finish_compose i k w out made b = (let e = nodeEpochs b i + 1;
       n = \<lparr>n_kind = k, n_output = out, n_epoch = e,
            n_owner = (if startsWith i ''win/'' then map_option ((@) ''win/'') w else None),
            n_refs = [(case w of Some x \<Rightarrow> x | None \<Rightarrow> ANON, 1)], n_materialized = made\<rparr>
     in b\<lparr>nodeEpochs := (nodeEpochs b)(i := e), composed := AList.update i n (composed b)\<rparr>)"

text \<open>
  \<open>compose\<close> up to the await of the materializer: the caller's namespace, a node that exists, a kind with
  a materializer (\<open>kinds\<close>), or an advertised pipe that is only referred to.
\<close>

definition compose_denied :: "string \<Rightarrow> string option \<Rightarrow> broker \<Rightarrow> string option" where
  "compose_denied i w b =
     (if startsWith i ''win/'' then
        (case w of
           None \<Rightarrow> Some (''compose: no window identity for \"'' @ i @ ''\"'')
         | Some x \<Rightarrow> if x = [] then Some (''compose: no window identity for \"'' @ i @ ''\"'')
             else if \<not> startsWith i (''win/'' @ x @ ''/'')
             then Some (''compose: \"'' @ i @ ''\" is outside the caller's namespace (win/'' @ x @ ''/)'')
             else (case map_of (composed b) i of
                 Some n \<Rightarrow> if n_owner n \<noteq> Some (''win/'' @ x) then Some (''compose: \"'' @ i @ ''\" is owned by another window'') else None
               | None \<Rightarrow> None))
      else if \<not> startsWith i ''camera/''
        then Some (''compose: \"'' @ i @ ''\" must be win/<caller>/-rooted or a camera/-rooted brick path'')
      else None)"

definition compose :: "string list \<Rightarrow> string \<Rightarrow> string \<Rightarrow> string option \<Rightarrow> broker \<Rightarrow> (string + nat option) \<times> broker" where
  "compose kinds i k w b = (case compose_denied i w b of
      Some e \<Rightarrow> (Inl e, b)
    | None \<Rightarrow> let key = (case w of Some x \<Rightarrow> x | None \<Rightarrow> ANON)
        in case map_of (composed b) i of
            Some n \<Rightarrow> (Inr (Some (n_epoch n)),
              b\<lparr>composed := AList.update i (n\<lparr>n_refs := AList.update key (count_of key (n_refs n) + 1) (n_refs n)\<rparr>) (composed b)\<rparr>)
          | None \<Rightarrow>
              if k \<in> set kinds then (Inr None, b\<lparr>materializing := materializing b @ [(i, k, w)]\<rparr>)
              else if \<not> startsWith i ''win/'' \<and> has_key (advertised b) i
                then (let s = fst (the (map_of (advertised b) i)); b1 = finish_compose i k w (Some (s_pixelFormat s, s_dtype s)) False b
                      in (Inr (Some (nodeEpochs b1 i)), b1))
              else (Inl (''compose: no materializer for kind \"'' @ k @ ''\"''), b))"

text \<open>The materializer returns its output, or throws.\<close>

definition materialized :: "nat \<Rightarrow> (string \<times> string) option option \<Rightarrow> broker \<Rightarrow> broker" where
  "materialized j r b = (if length (materializing b) \<le> j then b
     else case materializing b ! j of (i, k, w) \<Rightarrow>
       let b1 = b\<lparr>materializing := take j (materializing b) @ drop (Suc j) (materializing b)\<rparr>
       in case r of None \<Rightarrow> b1
          | Some out \<Rightarrow> finish_compose i k w out True (b1\<lparr>resources := resources b1 @ [i]\<rparr>))"

datatype broker_event =
    AttachPort nat | ClosePort nat | Advertise spec | Unadvertise string
  | Connect "nat option" string | Disconnect "nat option" string
  | Compose string string "string option" | Materialized nat "(string \<times> string) option option"
  | Decompose string "string option" | WindowClosed string

fun broker_step :: "string list \<Rightarrow> broker \<Rightarrow> broker_event \<Rightarrow> broker" where
  "broker_step kinds b (AttachPort c) = b\<lparr>attached := List.insert c (attached b)\<rparr>"
| "broker_step kinds b (ClosePort c) = port_close c b"
| "broker_step kinds b (Advertise s) = advertise s b"
| "broker_step kinds b (Unadvertise p) = unadvertise p b"
| "broker_step kinds b (Connect c p) = snd (connectPipe c p b)"
| "broker_step kinds b (Disconnect c p) = snd (disconnectPipe c p b)"
| "broker_step kinds b (Compose i k w) = snd (compose kinds i k w b)"
| "broker_step kinds b (Materialized j r) = materialized j r b"
| "broker_step kinds b (Decompose i w) = decompose i w b"
| "broker_step kinds b (WindowClosed w) = onWindowClosed w b"

section \<open>Consumer counts\<close>

definition held_total :: "string \<Rightarrow> (nat \<times> nat table) list \<Rightarrow> nat" where
  "held_total p L = sum_list (map (\<lambda>(c, h). count_of p h) L)"

lemma count_simps [simp]:
  "count_of p [] = 0" "count_of p (AList.update q n h) = (if p = q then n else count_of p h)"
  "count_of p (AList.delete q h) = (if p = q then 0 else count_of p h)"
  by (simp_all add: count_of_def table_simps)

lemma held_total_update:
  "distinct (keys_of L) \<Longrightarrow> held_total p (AList.update c h L) + count_of p (held_by c L) = held_total p L + count_of p h"
proof (induction L)
  case (Cons x L)
  then have "held_by (fst x) L = []" by (simp add: held_by_def keys_of_def map_of_eq_None_iff [symmetric])
  with Cons show ?case by (cases x) (auto simp: held_total_def keys_of_def held_by_def)
qed (simp add: held_total_def held_by_def)

lemma held_total_delete: "distinct (keys_of L) \<Longrightarrow> held_total p (AList.delete c L) + count_of p (held_by c L) = held_total p L"
proof (induction L)
  case (Cons x L)
  then have "fst x \<notin> fst ` set L" by (simp add: keys_of_def)
  then have "AList.delete (fst x) L = L" "map_of L (fst x) = None" by (simp_all add: delete_idem map_of_eq_None_iff)
  with Cons show ?case by (cases x) (auto simp: held_total_def keys_of_def held_by_def)
qed (simp add: held_total_def held_by_def)

lemma held_total_ge: "count_of p (held_by c L) \<le> held_total p L"
proof (cases "map_of L c")
  case (Some h)
  then have "(c, h) \<in> set L" by (rule map_of_SomeD)
  then have "count_of p h \<in> set (map (\<lambda>(c, h). count_of p h) L)" by force
  then show ?thesis using Some by (simp add: held_total_def held_by_def member_le_sum_list)
qed (simp add: held_by_def)

definition consumers :: "string \<Rightarrow> broker \<Rightarrow> nat" where
  "consumers p b = (case map_of (live b) p of Some (e, n) \<Rightarrow> n | None \<Rightarrow> 0)"

definition ledger_ok :: "nat list \<Rightarrow> (nat \<times> nat table) list \<Rightarrow> bool" where
  "ledger_ok att L \<longleftrightarrow> distinct (keys_of L) \<and> (\<forall>(c, h) \<in> set L. c \<in> set att \<and> distinct (keys_of h))"

definition conn_ok :: "broker \<Rightarrow> bool" where
  "conn_ok b \<longleftrightarrow> ledger_ok (attached b) (connectLedger b) \<and> (\<forall>p. consumers p b = held_total p (connectLedger b))"

lemma conn_cong:
  assumes "conn_ok b" "live b' = live b" "connectLedger b' = connectLedger b" "attached b' = attached b"
  shows "conn_ok b'"
  using assms by (simp add: conn_ok_def consumers_def)

lemma set_update_pairs: "x \<in> set (AList.update c h L) \<Longrightarrow> x = (c, h) \<or> x \<in> set L"
  by (induction L) (auto split: if_splits)

lemma set_delete_pairs: "x \<in> set (AList.delete c L) \<Longrightarrow> x \<in> set L"
  by (simp add: AList.delete_eq)

lemma ledger_ok_update: "ledger_ok att L \<Longrightarrow> c \<in> set att \<Longrightarrow> distinct (keys_of h) \<Longrightarrow> ledger_ok att (AList.update c h L)"
  unfolding ledger_ok_def by (auto dest!: set_update_pairs)

lemma ledger_ok_delete: "ledger_ok att L \<Longrightarrow> ledger_ok att (AList.delete c L)"
  by (auto simp: ledger_ok_def AList.delete_eq distinct_keys_filter)

lemma ledger_okD:
  assumes "ledger_ok att L"
  shows "distinct (keys_of L)" "distinct (keys_of (held_by c L))" "held_by c L \<noteq> [] \<Longrightarrow> c \<in> set att"
  using assms by (auto simp: ledger_ok_def held_by_def keys_of_def split: option.splits dest!: map_of_SomeD)

text \<open>Node operations leave the connections alone.\<close>

lemma node_fields [simp]:
  "live (teardown_node i n b) = live b" "connectLedger (teardown_node i n b) = connectLedger b" "attached (teardown_node i n b) = attached b"
  "live (unref i w b) = live b" "connectLedger (unref i w b) = connectLedger b" "attached (unref i w b) = attached b"
  "live (finish_compose i k v out made b) = live b" "connectLedger (finish_compose i k v out made b) = connectLedger b"
  "attached (finish_compose i k v out made b) = attached b"
  "live (close_node w p b) = live b" "connectLedger (close_node w p b) = connectLedger b" "attached (close_node w p b) = attached b"
  by (simp_all add: teardown_node_def unref_def Let_def finish_compose_def close_node_def split: option.split prod.split)

lemma fold_close_fields [simp]:
  "live (fold (close_node w) ps b) = live b" "connectLedger (fold (close_node w) ps b) = connectLedger b"
  "attached (fold (close_node w) ps b) = attached b"
  by (induction ps arbitrary: b) simp_all

lemma compose_fields [simp]:
  "live (snd (compose kinds i k w b)) = live b" "connectLedger (snd (compose kinds i k w b)) = connectLedger b"
  "attached (snd (compose kinds i k w b)) = attached b"
  by (simp_all add: compose_def Let_def split: option.split)

lemma materialized_fields [simp]:
  "live (materialized j r b) = live b" "connectLedger (materialized j r b) = connectLedger b" "attached (materialized j r b) = attached b"
  by (simp_all add: materialized_def Let_def split: option.split prod.split)

lemma conn_connect:
  assumes "conn_ok b" "c \<in> set (attached b)"
  shows "conn_ok (snd (connectPipe (Some c) p b))"
proof (cases "has_key (advertised b) p \<and> map_of (live b) p \<noteq> None")
  case True
  then obtain e n where l: "map_of (live b) p = Some (e, n)" by auto
  let ?L = "connectLedger b" and ?h = "held_by c (connectLedger b)"
  let ?h1 = "AList.update p (count_of p ?h + 1) ?h"
  have ok: "ledger_ok (attached b) ?L" and n: "\<And>q. consumers q b = held_total q ?L" using assms(1) by (simp_all add: conn_ok_def)
  have t: "held_total q (AList.update c ?h1 ?L) = held_total q ?L + (if q = p then 1 else 0)" for q
    using held_total_update [OF ledger_okD(1) [OF ok], of q c ?h1] held_total_ge [of q c ?L] by (auto split: if_splits)
  have eq: "snd (connectPipe (Some c) p b) = b\<lparr>live := AList.update p (e, n + 1) (live b), connectLedger := AList.update c ?h1 ?L\<rparr>"
    using True l by (simp add: connectPipe_def hub_connect_def Let_def)
  have "ledger_ok (attached b) (AList.update c ?h1 ?L)"
    by (rule ledger_ok_update [OF ok assms(2)]) (simp add: ledger_okD(2) [OF ok])
  moreover have "consumers q (b\<lparr>live := AList.update p (e, n + 1) (live b)\<rparr>) = consumers q b + (if q = p then 1 else 0)" for q
    using l by (simp add: consumers_def table_simps)
  ultimately show ?thesis unfolding eq using t n by (simp add: conn_ok_def consumers_def)
next
  case False
  then have "snd (connectPipe (Some c) p b) = b"
    by (cases "map_of (live b) p") (auto simp: connectPipe_def hub_connect_def)
  with assms show ?thesis by simp
qed

lemma conn_disconnect:
  assumes "conn_ok b"
  shows "conn_ok (snd (disconnectPipe (Some c) p b))"
proof (cases "count_of p (held_by c (connectLedger b)) = 0")
  case False
  let ?L = "connectLedger b" and ?h = "held_by c (connectLedger b)"
  define h1 where "h1 = (if count_of p ?h \<le> 1 then AList.delete p ?h else AList.update p (count_of p ?h - 1) ?h)"
  have ok: "ledger_ok (attached b) ?L" and n: "\<And>q. consumers q b = held_total q ?L" using assms(1) by (simp_all add: conn_ok_def)
  have "consumers p b \<noteq> 0" using n [of p] False held_total_ge [of p c ?L] by simp
  then obtain e k where l: "map_of (live b) p = Some (e, k)" by (auto simp: consumers_def split: option.splits)
  have h1: "count_of q h1 = count_of q ?h - (if q = p then 1 else 0)" for q by (simp add: h1_def)
  have sub: "ledger_sub c p ?L = (if h1 = [] then AList.delete c ?L else AList.update c h1 ?L)"
    by (simp add: ledger_sub_def Let_def h1_def)
  have t: "held_total q (ledger_sub c p ?L) = held_total q ?L - (if q = p then 1 else 0)" for q
    using held_total_delete [OF ledger_okD(1) [OF ok], of q c] held_total_update [OF ledger_okD(1) [OF ok], of q c h1]
      h1 [of q] held_total_ge [of q c ?L] False by (cases "h1 = []") (auto simp: sub split: if_splits)
  have eq: "snd (disconnectPipe (Some c) p b) = b\<lparr>connectLedger := ledger_sub c p ?L, live := AList.update p (e, k - 1) (live b)\<rparr>"
    using False l by (simp add: disconnectPipe_def hub_disconnect_def Let_def)
  have "?h \<noteq> []" using False by auto
  moreover have "distinct (keys_of h1)" using ledger_okD(2) [OF ok] by (simp add: h1_def)
  ultimately have "ledger_ok (attached b) (ledger_sub c p ?L)"
    unfolding sub using ok by (simp add: ledger_ok_delete ledger_ok_update ledger_okD(3))
  moreover have "consumers q (b\<lparr>live := AList.update p (e, k - 1) (live b)\<rparr>) = consumers q b - (if q = p then 1 else 0)" for q
    using l by (simp add: consumers_def table_simps)
  ultimately show ?thesis unfolding eq using t n by (simp add: conn_ok_def consumers_def)
qed (use assms in \<open>simp add: disconnectPipe_def\<close>)

text \<open>A channel's connects are all undone: no disconnect throws.\<close>

lemma release_n_counts:
  assumes "n \<le> consumers p b"
  shows "\<not> snd (release_n p n b)" "consumers q (fst (release_n p n b)) = consumers q b - (if q = p then n else 0)"
    and "connectLedger (fst (release_n p n b)) = connectLedger b" "attached (fst (release_n p n b)) = attached b"
proof -
  have "\<not> snd (release_n p n b) \<and> (\<forall>q. consumers q (fst (release_n p n b)) = consumers q b - (if q = p then n else 0))
    \<and> connectLedger (fst (release_n p n b)) = connectLedger b \<and> attached (fst (release_n p n b)) = attached b"
    using assms
  proof (induction p n b rule: release_n.induct)
    case (2 p n b)
    then obtain e k where l: "map_of (live b) p = Some (e, k)" by (auto simp: consumers_def split: option.splits)
    let ?b = "b\<lparr>live := AList.update p (e, k - 1) (live b)\<rparr>"
    have c: "consumers q ?b = consumers q b - (if q = p then 1 else 0)" for q
      using l by (simp add: consumers_def table_simps)
    have "n \<le> consumers p ?b" using c [of p] 2(2) by simp
    with 2(1) [of ?b] l c show ?case by (simp add: hub_disconnect_def)
  qed simp
  then show "\<not> snd (release_n p n b)" "consumers q (fst (release_n p n b)) = consumers q b - (if q = p then n else 0)"
    and "connectLedger (fst (release_n p n b)) = connectLedger b" "attached (fst (release_n p n b)) = attached b" by simp_all
qed

lemma release_all_counts:
  assumes "distinct (keys_of h)" "\<forall>p. count_of p h \<le> consumers p b"
  shows "\<not> snd (release_all h b) \<and> (\<forall>q. consumers q (fst (release_all h b)) = consumers q b - count_of q h)
    \<and> connectLedger (fst (release_all h b)) = connectLedger b \<and> attached (fst (release_all h b)) = attached b"
  using assms
proof (induction h b rule: release_all.induct)
  case (2 p n h b)
  have rest: "count_of q ((p, n) # h) = (if q = p then n else count_of q h)" "count_of p h = 0" for q
    using 2(2) by (auto simp: count_of_def keys_of_def map_of_eq_None_iff [symmetric])
  have "n \<le> consumers p b" using 2(3) rest(1) [of p] by (auto dest: spec [of _ p])
  note r = release_n_counts [OF this]
  have "\<forall>q. count_of q h \<le> consumers q (fst (release_n p n b))"
    using 2(3) rest r(2) by (metis diff_zero le_zero_eq linorder_le_cases)
  with 2(1) [of "fst (release_n p n b)" "snd (release_n p n b)"] 2(2) r rest show ?case
    by (auto simp: keys_of_def split: prod.splits)
qed simp

lemma conn_close: "conn_ok b \<Longrightarrow> conn_ok (port_close c b) \<and> attached (port_close c b) = removeAll c (attached b)"
proof (cases "map_of (connectLedger b) c")
  case None
  assume b: "conn_ok b"
  have "\<forall>(d, h) \<in> set (connectLedger b). d \<noteq> c" using None by (force simp: map_of_eq_None_iff)
  with b None show ?thesis
    by (fastforce simp: port_close_def reconcileChannel_def conn_ok_def ledger_ok_def consumers_def)
next
  case (Some h)
  assume b: "conn_ok b"
  let ?L = "connectLedger b" and ?b1 = "b\<lparr>connectLedger := AList.delete c (connectLedger b)\<rparr>"
  have h: "held_by c ?L = h" using Some by (simp add: held_by_def)
  have ok: "ledger_ok (attached b) ?L" and n: "\<And>q. consumers q b = held_total q ?L" using b by (simp_all add: conn_ok_def)
  have "\<forall>p. count_of p h \<le> consumers p ?b1" using n held_total_ge [of _ c ?L] h by (simp add: consumers_def)
  note r = release_all_counts [OF ledger_okD(2) [OF ok, of c, unfolded h] this]
  have "ledger_ok (removeAll c (attached b)) (AList.delete c ?L)" using ok by (auto simp: ledger_ok_def AList.delete_eq distinct_keys_filter)
  moreover have "held_total q (AList.delete c ?L) = consumers q ?b1 - count_of q h" for q
    using held_total_delete [OF ledger_okD(1) [OF ok], of q c] n [of q] h by (simp add: consumers_def)
  ultimately show ?thesis
    using r Some by (auto simp: port_close_def reconcileChannel_def conn_ok_def consumers_def split: prod.splits)
qed

text \<open>
  No pipe is dropped while a window holds a connect of it, and commands come from attached ports.
\<close>

fun tidy :: "broker \<Rightarrow> broker_event \<Rightarrow> bool" where
  "tidy b (Unadvertise p) = (held_total p (connectLedger b) = 0)"
| "tidy b (Connect c p) = (case c of None \<Rightarrow> False | Some ch \<Rightarrow> ch \<in> set (attached b))"
| "tidy b (Disconnect c p) = (c \<noteq> None)"
| "tidy b _ = True"

lemma conn_step: "conn_ok b \<Longrightarrow> tidy b e \<Longrightarrow> conn_ok (broker_step kinds b e)"
proof (cases e)
  case (AttachPort c)
  then show "conn_ok b \<Longrightarrow> ?thesis" by (fastforce simp: conn_ok_def ledger_ok_def consumers_def)
next
  case (Advertise s)
  have "consumers q (advertise s b) = consumers q b" for q
    by (auto simp: consumers_def advertise_def hub_advertise_def Let_def table_simps split: option.split)
  with Advertise show "conn_ok b \<Longrightarrow> ?thesis"
    by (simp add: conn_ok_def advertise_def hub_advertise_def Let_def split: option.split prod.split)
next
  case (Unadvertise p)
  then show "conn_ok b \<Longrightarrow> tidy b e \<Longrightarrow> ?thesis"
    by (auto simp: conn_ok_def consumers_def unadvertise_def hub_drop_def Let_def table_simps)
next
  case (Connect c p)
  then show "conn_ok b \<Longrightarrow> tidy b e \<Longrightarrow> ?thesis" by (cases c) (simp_all add: conn_connect)
next
  case (Disconnect c p)
  then show "conn_ok b \<Longrightarrow> tidy b e \<Longrightarrow> ?thesis" by (cases c) (simp_all add: conn_disconnect)
next
  case (ClosePort c)
  then show "conn_ok b \<Longrightarrow> ?thesis" using conn_close [of b c] by simp
qed (auto intro: conn_cong simp: decompose_def onWindowClosed_def)

interpretation connections: client_machine "broker_step kinds" conn_ok tidy for kinds
  by unfold_locales (rule conn_step)

lemma new_broker_conn: "conn_ok new_broker"
  by (simp add: conn_ok_def ledger_ok_def new_broker_def consumers_def held_total_def keys_of_def)

text \<open>
  C24. In every history in which no pipe is dropped while a window holds a connect of it and every connect
  and disconnect comes over the channel of a window (a connect over one still attached), the native
  consumer count of every pipe is the number of connects the attached windows hold, closing a port always
  detaches it, and with no port attached every count is zero, whatever windows forgot to disconnect.
  Without the first condition it fails: see \<open>dropped_pipe_blocks_close\<close> and
  \<open>late_disconnect_parks_another_window\<close>.
\<close>

theorem consumer_counts_are_the_windows:
  fixes kinds es
  defines "b \<equiv> run (broker_step kinds) new_broker es"
  assumes "obeys tidy (broker_step kinds) new_broker es"
  shows "consumers p b = held_total p (connectLedger b)
    \<and> c \<notin> set (attached (broker_step kinds b (ClosePort c)))
    \<and> (attached b = [] \<longrightarrow> consumers p b = 0)"
proof -
  have ok: "conn_ok b" unfolding b_def by (rule connections.run_inv [OF new_broker_conn assms(2)])
  then have "connectLedger b = []" if "attached b = []"
    using that by (cases "connectLedger b") (auto simp: conn_ok_def ledger_ok_def)
  with ok conn_close [OF ok, of c] show ?thesis by (auto simp: conn_ok_def held_total_def)
qed

definition demo_spec :: spec where
  "demo_spec = \<lparr>s_id = ''p'', s_pixelFormat = ''RGBA8'', s_dtype = ''U8'', s_width = 4, s_height = 4, s_channels = 4,
     s_stride = 16, s_bytesPerFrame = 64, s_ringDepth = 3, s_maxWidth = None, s_maxHeight = None, s_maxBytes = None\<rparr>"

lemma consumer_counts_are_the_windows_witness:
  "consumers ''p'' (run (broker_step []) new_broker
     [AttachPort 1, AttachPort 2, Advertise demo_spec, Connect (Some 1) ''p'', Connect (Some 1) ''p'', Connect (Some 2) ''p'', ClosePort 1]) = 1"
proof -
  let ?es = "[AttachPort 1, AttachPort 2, Advertise demo_spec, Connect (Some 1) ''p'', Connect (Some 1) ''p'', Connect (Some 2) ''p'', ClosePort 1]"
  have "obeys tidy (broker_step []) new_broker ?es" by code_simp
  moreover have "held_total ''p'' (connectLedger (run (broker_step []) new_broker ?es)) = 1" by code_simp
  ultimately show ?thesis using consumer_counts_are_the_windows [of "[]" ?es "''p''"] by simp
qed

section \<open>Dropped pipes\<close>

text \<open>
  A window that disconnects a pipe it held until the pipe was dropped is answered with an error.
\<close>

theorem disconnect_after_drop_is_rejected:
  assumes "0 < count_of p (held_by c (connectLedger b))"
  shows "fst (disconnectPipe (Some c) p (unadvertise p b)) = Inl (unknown_pipe p)"
  using assms by (simp add: disconnectPipe_def unadvertise_def hub_drop_def hub_disconnect_def Let_def table_simps)

lemma disconnect_after_drop_is_rejected_witness:
  "fst (disconnectPipe (Some 1) ''p'' (unadvertise ''p'' (run (broker_step []) new_broker
     [AttachPort 1, Advertise demo_spec, Connect (Some 1) ''p'']))) = Inl ''unknown pipe id: p''"
proof -
  let ?b = "run (broker_step []) new_broker [AttachPort 1, Advertise demo_spec, Connect (Some 1) ''p'']"
  have "0 < count_of ''p'' (held_by 1 (connectLedger ?b))" by code_simp
  from disconnect_after_drop_is_rejected [OF this] show ?thesis by (simp add: unknown_pipe_def)
qed

text \<open>
  A window that closes while it holds a connect of a dropped pipe is never detached: the disconnect
  throws out of the close handler, before the sessions and the channel are released.
\<close>

theorem dropped_pipe_blocks_close:
  "let b = run (broker_step []) new_broker [AttachPort 1, Advertise demo_spec, Connect (Some 1) ''p'', Unadvertise ''p'', ClosePort 1]
   in attached b = [1]"
  by code_simp

text \<open>
  A pipe dropped and advertised again: the disconnect a window owes for the old one is taken off the
  new one, and parks it under another window that has connected to it.
\<close>

theorem late_disconnect_parks_another_window:
  "let b = run (broker_step []) new_broker [AttachPort 1, AttachPort 2, Advertise demo_spec, Connect (Some 1) ''p'',
       Unadvertise ''p'', Advertise demo_spec, Connect (Some 2) ''p'', Disconnect (Some 1) ''p'']
   in connectLedger b = [(2, [(''p'', 1)])] \<and> consumers ''p'' b = 0"
  by code_simp

section \<open>Nodes and their references\<close>

definition made :: "node table \<Rightarrow> string list" where
  "made ps = map fst (filter (\<lambda>(i, n). n_materialized n) ps)"

definition refs_ok :: "node \<Rightarrow> bool" where
  "refs_ok n \<longleftrightarrow> distinct (keys_of (n_refs n)) \<and> n_refs n \<noteq> [] \<and> (\<forall>x \<in> set (n_refs n). 0 < snd x)"

definition nodes_ok :: "broker \<Rightarrow> bool" where
  "nodes_ok b \<longleftrightarrow> distinct (keys_of (composed b)) \<and> (\<forall>(i, n) \<in> set (composed b). refs_ok n)
     \<and> mset (resources b) = mset (made (composed b))
     \<and> distinct (keys_of (materializing b)) \<and> (\<forall>i \<in> set (keys_of (materializing b)). map_of (composed b) i = None)"

lemma made_simps [simp]:
  "made [] = []" "made ((i, n) # ps) = (if n_materialized n then [i] else []) @ made ps"
  "made (ps @ qs) = made ps @ made qs"
  by (simp_all add: made_def)

lemma made_delete:
  "distinct (keys_of ps) \<Longrightarrow> map_of ps i = Some n \<Longrightarrow>
   mset (made ps) = (if n_materialized n then {#i#} else {#}) + mset (made (AList.delete i ps))"
proof (induction ps)
  case (Cons p ps)
  then have "AList.delete (fst p) ps = ps" by (simp add: keys_of_def delete_idem)
  with Cons show ?case by (cases p) (auto simp: keys_of_def simp del: map_of_eq_Some_iff split: if_splits)
qed simp

lemma made_update:
  "map_of ps i = Some n \<Longrightarrow> n_materialized n' = n_materialized n \<Longrightarrow> made (AList.update i n' ps) = made ps"
  by (induction ps) auto

lemma refs_zero: "distinct (keys_of (n_refs n)) \<Longrightarrow> \<forall>x \<in> set (n_refs n). 0 < snd x \<Longrightarrow> totalRefs n = 0 \<longleftrightarrow> n_refs n = []"
  by (cases "n_refs n") (auto simp: totalRefs_def)

lemma nodes_teardown:
  assumes "nodes_ok b" "map_of (composed b) i = Some n" "n_materialized n' = n_materialized n"
  shows "nodes_ok (teardown_node i n' b)"
proof -
  have d: "distinct (keys_of (composed b))" using assms(1) by (simp add: nodes_ok_def)
  have m: "mset (resources b) = (if n_materialized n then {#i#} else {#}) + mset (made (AList.delete i (composed b)))"
    using made_delete [OF d assms(2)] assms(1) by (simp add: nodes_ok_def)
  then have "mset (resources (teardown_node i n' b)) = mset (made (AList.delete i (composed b)))"
    by (simp add: teardown_node_def assms(3))
  then show ?thesis
    using assms(1) by (auto simp: nodes_ok_def teardown_node_def AList.delete_eq table_simps simp flip: AList.delete_eq dest: set_delete_pairs)
qed

lemma nodes_update:
  assumes "nodes_ok b" "map_of (composed b) i = Some n" "n_materialized n' = n_materialized n" "refs_ok n'"
  shows "nodes_ok (b\<lparr>composed := AList.update i n' (composed b)\<rparr>)"
  using assms made_update [OF assms(2,3)] by (auto simp: nodes_ok_def table_simps dest!: set_update_pairs)

text \<open>A node whose references became \<open>rs\<close> is kept while there are any.\<close>

lemma nodes_shrunk:
  assumes "nodes_ok b" "map_of (composed b) i = Some n" "distinct (keys_of rs)" "\<forall>x \<in> set rs. 0 < snd x"
  shows "nodes_ok (if totalRefs (n\<lparr>n_refs := rs\<rparr>) = 0 then teardown_node i (n\<lparr>n_refs := rs\<rparr>) b
     else b\<lparr>composed := AList.update i (n\<lparr>n_refs := rs\<rparr>) (composed b)\<rparr>)"
proof (cases "rs = []")
  case False
  then have "totalRefs (n\<lparr>n_refs := rs\<rparr>) \<noteq> 0" using refs_zero [of "n\<lparr>n_refs := rs\<rparr>"] assms(3,4) by simp
  then show ?thesis using False assms nodes_update [OF assms(1,2), of "n\<lparr>n_refs := rs\<rparr>"] by (simp add: refs_ok_def)
qed (use nodes_teardown [OF assms(1,2)] in \<open>simp add: totalRefs_def\<close>)

lemma nodes_refs: "nodes_ok b \<Longrightarrow> map_of (composed b) i = Some n \<Longrightarrow> refs_ok n"
  by (auto simp: nodes_ok_def dest: map_of_SomeD)

lemma nodes_unref: "nodes_ok b \<Longrightarrow> nodes_ok (unref i w b)"
proof (cases "map_of (composed b) i")
  case (Some n)
  assume b: "nodes_ok b"
  note r = nodes_refs [OF b Some]
  define rs where "rs = (if count_of w (n_refs n) \<le> 1 then AList.delete w (n_refs n) else AList.update w (count_of w (n_refs n) - 1) (n_refs n))"
  have "distinct (keys_of rs)" "\<forall>x \<in> set rs. 0 < snd x"
    using r by (auto simp: rs_def refs_ok_def dest!: set_update_pairs set_delete_pairs)
  moreover have "unref i w b = (if totalRefs (n\<lparr>n_refs := rs\<rparr>) = 0 then teardown_node i (n\<lparr>n_refs := rs\<rparr>) b
      else b\<lparr>composed := AList.update i (n\<lparr>n_refs := rs\<rparr>) (composed b)\<rparr>)"
    using Some unfolding unref_def drop_ref_def Let_def rs_def by simp
  ultimately show ?thesis using nodes_shrunk [OF b Some, of rs] by simp
qed (simp add: unref_def)

lemma nodes_finish:
  assumes "nodes_ok b" "map_of (composed b) i = None" "i \<notin> set (keys_of (materializing b))"
  shows "\<not> m \<Longrightarrow> nodes_ok (finish_compose i k w out m b)"
    and "m \<Longrightarrow> nodes_ok (finish_compose i k w out m (b\<lparr>resources := resources b @ [i]\<rparr>))"
proof -
  have "i \<notin> set (keys_of (composed b))" using assms(2) by (simp add: keys_of_def map_of_eq_None_iff)
  note u = update_fresh [OF this]
  show "\<not> m \<Longrightarrow> nodes_ok (finish_compose i k w out m b)"
    and "m \<Longrightarrow> nodes_ok (finish_compose i k w out m (b\<lparr>resources := resources b @ [i]\<rparr>))"
    using assms \<open>i \<notin> set (keys_of (composed b))\<close> unfolding nodes_ok_def finish_compose_def Let_def
    by (auto simp: u refs_ok_def keys_of_def map_add_def split: option.splits)
qed

lemma nodes_ref:
  assumes "nodes_ok b" "map_of (composed b) i = Some n"
  shows "nodes_ok (b\<lparr>composed := AList.update i (n\<lparr>n_refs := AList.update w (count_of w (n_refs n) + 1) (n_refs n)\<rparr>) (composed b)\<rparr>)"
  by (rule nodes_update [OF assms])
    (use nodes_refs [OF assms] in \<open>auto simp: refs_ok_def dest!: set_update_pairs\<close>)

lemma nodes_compose:
  assumes "nodes_ok b" "i \<notin> set (keys_of (materializing b))"
  shows "nodes_ok (snd (compose kinds i k w b))"
proof (cases "compose_denied i w b")
  case None
  show ?thesis
  proof (cases "map_of (composed b) i")
    case (Some n)
    with None nodes_ref [OF assms(1) Some] show ?thesis by (simp add: compose_def Let_def)
  next
    case new: None
    have "nodes_ok (b\<lparr>materializing := materializing b @ [(i, k, w)]\<rparr>)"
      using assms new by (auto simp: nodes_ok_def keys_of_def)
    with None new nodes_finish(1) [OF assms(1) new assms(2)] assms(1) show ?thesis by (simp add: compose_def Let_def)
  qed
qed (use assms in \<open>simp add: compose_def\<close>)

lemma nodes_materialized: "nodes_ok b \<Longrightarrow> nodes_ok (materialized j r b)"
proof (cases "j < length (materializing b)")
  case True
  assume b: "nodes_ok b"
  obtain i k w where m: "materializing b ! j = (i, k, w)" by (cases "materializing b ! j")
  let ?rest = "take j (materializing b) @ drop (Suc j) (materializing b)"
  let ?b1 = "b\<lparr>materializing := ?rest\<rparr>"
  have split: "materializing b = take j (materializing b) @ (i, k, w) # drop (Suc j) (materializing b)"
    using id_take_nth_drop [OF True] m by simp
  have d: "distinct (keys_of (take j (materializing b) @ (i, k, w) # drop (Suc j) (materializing b)))"
    using b split by (simp add: nodes_ok_def)
  have sub: "set (keys_of ?rest) \<subseteq> set (keys_of (materializing b))"
    by (subst (3) split) (auto simp: keys_of_def)
  have fresh: "i \<notin> set (keys_of ?rest)" "distinct (keys_of ?rest)" using d by (auto simp: keys_of_def)
  have "i \<in> set (keys_of (materializing b))" using nth_mem [OF True] m by (force simp: keys_of_def)
  then have new: "map_of (composed ?b1) i = None" using b by (simp add: nodes_ok_def)
  have b1: "nodes_ok ?b1" using b fresh sub by (auto simp: nodes_ok_def)
  show ?thesis
  proof (cases r)
    case None
    with True m b1 show ?thesis by (simp add: materialized_def Let_def)
  next
    case (Some out)
    with True m nodes_finish(2) [OF b1 new] fresh show ?thesis by (simp add: materialized_def Let_def)
  qed
qed (simp add: materialized_def)

text \<open>Closing a window goes through the nodes one by one, each as it was when the loop began.\<close>

definition clean :: "string \<Rightarrow> node \<Rightarrow> bool" where
  "clean w n \<longleftrightarrow> \<not> has_key (n_refs n) w \<and> n_owner n \<noteq> Some (''win/'' @ w)"

lemma close_node_ok:
  assumes "nodes_ok b" "map_of (composed b) i = Some n"
  shows "nodes_ok (close_node w (i, n) b)"
    and "map_of (composed (close_node w (i, n) b)) j = (if j = i then map_of (composed (close_node w (i, n) b)) i else map_of (composed b) j)"
    and "map_of (composed (close_node w (i, n) b)) i = Some n' \<Longrightarrow> clean w n'"
proof -
  have r: "distinct (keys_of (AList.delete w (n_refs n)))" "\<forall>x \<in> set (AList.delete w (n_refs n)). 0 < snd x"
    using nodes_refs [OF assms] by (auto simp: refs_ok_def dest: set_delete_pairs)
  show "nodes_ok (close_node w (i, n) b)"
    using nodes_teardown [OF assms refl] nodes_shrunk [OF assms r] assms(1) by (simp add: close_node_def Let_def)
  show "map_of (composed (close_node w (i, n) b)) j = (if j = i then map_of (composed (close_node w (i, n) b)) i else map_of (composed b) j)"
    by (simp add: close_node_def Let_def teardown_node_def table_simps)
  show "map_of (composed (close_node w (i, n) b)) i = Some n' \<Longrightarrow> clean w n'"
    using assms(2) by (auto simp: close_node_def Let_def teardown_node_def clean_def table_simps split: if_splits)
qed

lemma close_nodes:
  assumes "nodes_ok b" "distinct (keys_of ps)" "\<forall>(i, n) \<in> set ps. map_of (composed b) i = Some n"
  shows "nodes_ok (fold (close_node w) ps b)
    \<and> (\<forall>i n. map_of (composed (fold (close_node w) ps b)) i = Some n \<longrightarrow>
         (if i \<in> set (keys_of ps) then clean w n else map_of (composed b) i = Some n))"
  using assms
proof (induction ps arbitrary: b)
  case (Cons p ps)
  obtain i n where p: "p = (i, n)" by (cases p)
  have i: "map_of (composed b) i = Some n" "i \<notin> set (keys_of ps)" "distinct (keys_of ps)"
    using Cons.prems p by (auto simp: keys_of_def)
  let ?b1 = "close_node w (i, n) b"
  note c = close_node_ok [OF Cons.prems(1) i(1), of w]
  have "map_of (composed ?b1) j = Some m" if "(j, m) \<in> set ps" for j m
  proof -
    have "map_of (composed b) j = Some m" using Cons.prems(3) that by auto
    moreover have "j \<noteq> i" using that i(2) by (auto simp: keys_of_def rev_image_eqI)
    ultimately show ?thesis using c(2) [of j] by simp
  qed
  then have "\<forall>(j, m) \<in> set ps. map_of (composed ?b1) j = Some m" by blast
  with Cons.IH [OF c(1) i(3)] have f: "nodes_ok (fold (close_node w) ps ?b1)"
    "\<And>j m. map_of (composed (fold (close_node w) ps ?b1)) j = Some m \<Longrightarrow>
      (if j \<in> set (keys_of ps) then clean w m else map_of (composed ?b1) j = Some m)" by simp_all
  have "if j \<in> set (keys_of (p # ps)) then clean w m else map_of (composed b) j = Some m"
    if "map_of (composed (fold (close_node w) ps ?b1)) j = Some m" for j m
    using f(2) [OF that] c(2) [of j] c(3) [of m] i(2) p by (cases "j = i") (auto simp: keys_of_def split: if_splits)
  with f(1) p show ?case by simp
qed (simp add: keys_of_def)

lemma nodes_windowClosed:
  assumes "nodes_ok b"
  shows "nodes_ok (onWindowClosed w b)" "(i, n) \<in> set (composed (onWindowClosed w b)) \<Longrightarrow> clean w n"
proof -
  have d: "distinct (keys_of (composed b))" using assms by (simp add: nodes_ok_def)
  then have "\<forall>(i, n) \<in> set (composed b). map_of (composed b) i = Some n" by (auto simp: keys_of_def)
  note c = close_nodes [OF assms d this, of w]
  then show ok: "nodes_ok (onWindowClosed w b)" by (simp add: onWindowClosed_def)
  assume "(i, n) \<in> set (composed (onWindowClosed w b))"
  with ok have "map_of (composed (onWindowClosed w b)) i = Some n" by (simp add: nodes_ok_def keys_of_def)
  with c show "clean w n" by (force simp: onWindowClosed_def keys_of_def dest: map_of_SomeD split: if_splits)
qed

text \<open>A node is not composed again while it is being materialized.\<close>

fun apart :: "broker \<Rightarrow> broker_event \<Rightarrow> bool" where
  "apart b (Compose i k w) = (i \<notin> set (keys_of (materializing b)))"
| "apart b _ = True"

lemma node_ops_apart [simp]:
  "composed (port_close c b) = composed b" "resources (port_close c b) = resources b" "materializing (port_close c b) = materializing b"
  "composed (snd (connectPipe ch p b)) = composed b" "resources (snd (connectPipe ch p b)) = resources b"
  "materializing (snd (connectPipe ch p b)) = materializing b"
  "composed (snd (disconnectPipe ch p b)) = composed b" "resources (snd (disconnectPipe ch p b)) = resources b"
  "materializing (snd (disconnectPipe ch p b)) = materializing b"
proof -
  have n: "composed (fst (release_n p n b)) = composed b \<and> resources (fst (release_n p n b)) = resources b
      \<and> materializing (fst (release_n p n b)) = materializing b" for p n b
    by (induction p n b rule: release_n.induct) (auto simp: hub_disconnect_def split: option.splits)
  have a: "composed (fst (release_all h b)) = composed b \<and> resources (fst (release_all h b)) = resources b
      \<and> materializing (fst (release_all h b)) = materializing b" for h b
  proof (induction h b rule: release_all.induct)
    case (2 p m h b)
    then show ?case using n [of p m b] by (cases "release_n p m b") auto
  qed simp
  show "composed (port_close c b) = composed b" "resources (port_close c b) = resources b" "materializing (port_close c b) = materializing b"
    using a [of _ "b\<lparr>connectLedger := AList.delete c (connectLedger b)\<rparr>"]
    by (auto simp: port_close_def reconcileChannel_def split: option.split prod.split) (metis fst_conv)+
qed (auto simp: connectPipe_def disconnectPipe_def hub_connect_def hub_disconnect_def Let_def split: option.split)

lemma nodes_step: "nodes_ok b \<Longrightarrow> apart b e \<Longrightarrow> nodes_ok (broker_step kinds b e)"
  by (cases e)
    (auto simp: nodes_compose nodes_materialized nodes_windowClosed nodes_unref decompose_def,
     auto simp: nodes_ok_def advertise_def hub_advertise_def unadvertise_def hub_drop_def Let_def split: option.split)

interpretation nodes: client_machine "broker_step kinds" nodes_ok apart for kinds
  by unfold_locales (rule nodes_step)

text \<open>
  If no node is composed again while its materializer runs, the resources materializers made are
  exactly those of the nodes composed, every node has a reference, and after a window has closed no node
  refers to it or is owned by it.
\<close>

theorem nodes_live_while_referenced:
  fixes kinds es
  defines "b \<equiv> run (broker_step kinds) new_broker es"
  assumes "obeys apart (broker_step kinds) new_broker es"
  shows "mset (resources b) = mset (made (composed b)) \<and> (\<forall>(i, n) \<in> set (composed b). 0 < totalRefs n)
    \<and> (\<forall>(i, n) \<in> set (composed (broker_step kinds b (WindowClosed w))). \<not> has_key (n_refs n) w \<and> n_owner n \<noteq> Some (''win/'' @ w))"
proof -
  have "nodes_ok new_broker" by (simp add: nodes_ok_def new_broker_def keys_of_def)
  then have ok: "nodes_ok b" unfolding b_def by (rule nodes.run_inv [OF _ assms(2)])
  then have "\<forall>(i, n) \<in> set (composed b). 0 < totalRefs n"
    using refs_zero by (fastforce simp: nodes_ok_def refs_ok_def)
  moreover have "\<forall>(i, n) \<in> set (composed (onWindowClosed w b)). clean w n" using nodes_windowClosed(2) [OF ok] by blast
  ultimately show ?thesis using ok by (auto simp: nodes_ok_def clean_def)
qed

lemma nodes_live_while_referenced_witness:
  "resources (run (broker_step [''fovea'']) new_broker [Compose ''camera/1/fovea'' ''fovea'' (Some ''a''), Materialized 0 (Some None),
     Compose ''camera/1/fovea'' ''fovea'' (Some ''b''), Decompose ''camera/1/fovea'' (Some ''a''), WindowClosed ''b'']) = []"
proof -
  let ?es = "[Compose ''camera/1/fovea'' ''fovea'' (Some ''a''), Materialized 0 (Some None),
     Compose ''camera/1/fovea'' ''fovea'' (Some ''b''), Decompose ''camera/1/fovea'' (Some ''a''), WindowClosed ''b'']"
  have "obeys apart (broker_step [''fovea'']) new_broker ?es" by code_simp
  from nodes_live_while_referenced [OF this]
  have "mset (resources (run (broker_step [''fovea'']) new_broker ?es)) = mset (made (composed (run (broker_step [''fovea'']) new_broker ?es)))" by blast
  moreover have "composed (run (broker_step [''fovea'']) new_broker ?es) = []" by code_simp
  ultimately show ?thesis by simp
qed

text \<open>Two windows that compose a node while it is being materialized share one reference.\<close>

lemma overlapping_composes_share_a_reference:
  "let b = run (broker_step [''fovea'']) new_broker [Compose ''camera/1/fovea'' ''fovea'' (Some ''a''), Compose ''camera/1/fovea'' ''fovea'' (Some ''b''),
       Materialized 0 (Some None), Materialized 0 (Some None), Decompose ''camera/1/fovea'' (Some ''b'')]
   in composed b = [] \<and> resources b = [''camera/1/fovea'']"
  by code_simp

end
