(* ===== verification/WindowManager.thy ===== *)
theory WindowManager
  imports StoreCodec
begin

text \<open>
  The main process's windows: the taxonomy of \<open>app/lib/windows.ts\<close>, the manager of
  \<open>app/electron/window-manager.ts\<close> and the restore plan of \<open>app/electron/window-manifest.ts\<close>. A window
  is its index in the list of windows ever spawned; \<open>close\<close> only asks, the window is gone when its
  \<open>closed\<close> event comes. Queries are lists of decoded parameters; the names every JavaScript object inherits are not taken for
  app ids. The lemmas show that at most one app
  window is open that was not asked to close, that singletons and keyed windows are not doubled, that live
  windows have different ids, the welcome rule, and what the restore plan keeps.
\<close>

section \<open>The window taxonomy\<close>

datatype window_class = Welcome | App | Profiler | Projection | Viewer | Debug | Config | TeleCanvas

datatype owner_policy = Cascade | Survive

record window_spec =
  sp_singleton :: bool
  sp_exclusive :: bool
  sp_countsForWelcome :: bool
  sp_onOwnerClose :: owner_policy
  sp_entry :: "string option"

fun WINDOWS :: "window_class \<Rightarrow> window_spec" where
  "WINDOWS Welcome = \<lparr>sp_singleton = True, sp_exclusive = False, sp_countsForWelcome = False, sp_onOwnerClose = Survive, sp_entry = Some ''windows/welcome.html''\<rparr>"
| "WINDOWS App = \<lparr>sp_singleton = False, sp_exclusive = True, sp_countsForWelcome = True, sp_onOwnerClose = Survive, sp_entry = None\<rparr>"
| "WINDOWS Profiler = \<lparr>sp_singleton = False, sp_exclusive = False, sp_countsForWelcome = False, sp_onOwnerClose = Survive, sp_entry = Some ''windows/profiler.html''\<rparr>"
| "WINDOWS Projection = \<lparr>sp_singleton = False, sp_exclusive = False, sp_countsForWelcome = False, sp_onOwnerClose = Survive, sp_entry = Some ''windows/projection.html''\<rparr>"
| "WINDOWS Viewer = \<lparr>sp_singleton = False, sp_exclusive = False, sp_countsForWelcome = False, sp_onOwnerClose = Survive, sp_entry = Some ''windows/viewer.html''\<rparr>"
| "WINDOWS Debug = \<lparr>sp_singleton = False, sp_exclusive = False, sp_countsForWelcome = False, sp_onOwnerClose = Cascade, sp_entry = Some ''windows/debug.html''\<rparr>"
| "WINDOWS Config = \<lparr>sp_singleton = True, sp_exclusive = False, sp_countsForWelcome = False, sp_onOwnerClose = Survive, sp_entry = Some ''windows/config.html''\<rparr>"
| "WINDOWS TeleCanvas = \<lparr>sp_singleton = True, sp_exclusive = False, sp_countsForWelcome = False, sp_onOwnerClose = Survive, sp_entry = Some ''windows/telecanvas.html''\<rparr>"

definition APP_IDS :: "string list" where
  "APP_IDS = [''disparity-scope'', ''multi-fovea'', ''split-tracking'', ''manual-control'', ''single-capture'', ''playground'',
     ''calibrate-intrinsic'', ''calibrate-extrinsic'', ''calibrate-distortion'', ''calibrate-drift'', ''manage-cameras'']"

definition className :: "window_class \<Rightarrow> string" where
  "className c = (case c of Welcome \<Rightarrow> ''welcome'' | App \<Rightarrow> ''app'' | Profiler \<Rightarrow> ''profiler'' | Projection \<Rightarrow> ''projection''
     | Viewer \<Rightarrow> ''viewer'' | Debug \<Rightarrow> ''debug'' | Config \<Rightarrow> ''config'' | TeleCanvas \<Rightarrow> ''telecanvas'')"

section \<open>Queries and the restore plan\<close>

type_synonym query = "(string \<times> string) list"

datatype url = Url string query | BadUrl string

text \<open>\<open>URLSearchParams.set\<close>: the first entry takes the value, further ones go.\<close>

fun qset :: "string \<Rightarrow> string \<Rightarrow> query \<Rightarrow> query" where
  "qset k v [] = [(k, v)]"
| "qset k v ((k', v') # q) = (if k' = k then (k, v) # filter (\<lambda>p. fst p \<noteq> k) q else (k', v') # qset k v q)"

definition searchOf :: "url option \<Rightarrow> query option" where
  "searchOf u = (case u of Some (Url b q) \<Rightarrow> if q = [] then None else Some q | _ \<Rightarrow> None)"

definition windowIdOf :: "query option \<Rightarrow> string option" where
  "windowIdOf q = (case q of None \<Rightarrow> None | Some ps \<Rightarrow> map_of ps ''win'')"

type_synonym bounds = "int \<times> int \<times> int \<times> int"

record manifest_window =
  m_class :: "window_class option"
  m_appId :: "string option"
  m_url :: "url option"
  m_bounds :: "bounds option"

text \<open>The loop of \<open>planFromManifest\<close>; a class without a row in the taxonomy is \<open>None\<close>.\<close>

record plan_state =
  plan :: "manifest_window list"
  seenSingleton :: "window_class list"
  haveExclusive :: bool
  haveWelcome :: bool
  suppressWelcome :: bool

definition plan_add :: "manifest_window \<Rightarrow> window_class \<Rightarrow> plan_state \<Rightarrow> plan_state" where
  "plan_add w c s = s\<lparr>plan := plan s @ [w], suppressWelcome := (suppressWelcome s \<or> sp_countsForWelcome (WINDOWS c)),
     haveWelcome := (haveWelcome s \<or> c = Welcome)\<rparr>"

definition plan_one :: "manifest_window \<Rightarrow> plan_state \<Rightarrow> plan_state" where
  "plan_one w s = (case m_class w of
      None \<Rightarrow> s
    | Some c \<Rightarrow>
        if sp_onOwnerClose (WINDOWS c) = Cascade then s
        else if sp_exclusive (WINDOWS c)
          then if haveExclusive s then s
               else if c = App \<and> (case m_appId w of None \<Rightarrow> True | Some a \<Rightarrow> a \<notin> set APP_IDS) then s
               else plan_add w c (s\<lparr>haveExclusive := True\<rparr>)
        else if sp_singleton (WINDOWS c)
          then if c \<in> set (seenSingleton s) then s else plan_add w c (s\<lparr>seenSingleton := c # seenSingleton s\<rparr>)
        else plan_add w c s)"

definition bare_welcome :: manifest_window where
  "bare_welcome = \<lparr>m_class = Some Welcome, m_appId = None, m_url = None, m_bounds = None\<rparr>"

definition planFromManifest :: "manifest_window list \<Rightarrow> manifest_window list" where
  "planFromManifest ws = (let s = fold plan_one ws \<lparr>plan = [], seenSingleton = [], haveExclusive = False, haveWelcome = False, suppressWelcome = False\<rparr>
     in if suppressWelcome s then filter (\<lambda>w. m_class w \<noteq> Some Welcome) (plan s)
        else if \<not> haveWelcome s then bare_welcome # plan s else plan s)"

section \<open>The manager\<close>

record win =
  w_class :: window_class
  w_appId :: "string option"
  w_fileKey :: "string option"
  w_owner :: "nat option"
  w_key :: "string option"
  w_id :: string
  w_url :: url
  w_bounds :: "bounds option"
  w_full :: bool
  w_maxi :: bool
  w_closing :: bool
  w_gone :: bool

record desc =
  d_class :: window_class
  d_appId :: "string option"
  d_entry :: string
  d_search :: "query option"
  d_bounds :: "bounds option"
  d_full :: bool
  d_maxi :: bool
  d_url :: "url option"
  d_fileKey :: "string option"
  d_owner :: "nat option"
  d_key :: "string option"

definition plain_desc :: "window_class \<Rightarrow> string \<Rightarrow> desc" where
  "plain_desc c e = \<lparr>d_class = c, d_appId = None, d_entry = e, d_search = None, d_bounds = None, d_full = False, d_maxi = False,
     d_url = None, d_fileKey = None, d_owner = None, d_key = None\<rparr>"

text \<open>A switch under way: the app to open, its options, the windows to close and what the new one inherits.\<close>

record switch =
  s_app :: string
  s_bounds :: "bounds option"
  s_url :: "url option"
  s_holders :: "nat list"
  s_inherit :: "(bounds option \<times> bool \<times> bool) option"
  s_current :: "nat option"

record manager =
  wins :: "win list"
  idCounter :: nat
  switching :: "switch option"
  waiting :: "(string \<times> bounds option \<times> url option) list"
  inSwitch :: bool
  quitting :: bool
  focused :: "nat list"
  refusals :: nat

definition new_manager :: manager where
  "new_manager = \<lparr>wins = [], idCounter = 0, switching = None, waiting = [], inSwitch = False, quitting = False, focused = [], refusals = 0\<rparr>"

text \<open>\<open>open()\<close>, in the order the windows were tracked.\<close>

definition open_wins :: "manager \<Rightarrow> nat list" where
  "open_wins m = filter (\<lambda>i. \<not> w_gone (wins m ! i)) [0..<length (wins m)]"

definition byClass :: "window_class \<Rightarrow> manager \<Rightarrow> nat list" where
  "byClass c m = filter (\<lambda>i. w_class (wins m ! i) = c) (open_wins m)"

definition first_of :: "nat list \<Rightarrow> nat option" where
  "first_of is = (case is of [] \<Rightarrow> None | i # _ \<Rightarrow> Some i)"

definition appWindow :: "manager \<Rightarrow> nat option" where
  "appWindow m = first_of (byClass App m)"

definition childrenOf :: "nat \<Rightarrow> manager \<Rightarrow> nat list" where
  "childrenOf i m = filter (\<lambda>j. w_owner (wins m ! j) = Some i) (open_wins m)"

definition focus :: "nat \<Rightarrow> manager \<Rightarrow> manager" where
  "focus i m = m\<lparr>focused := focused m @ [i]\<rparr>"

definition on_win :: "nat \<Rightarrow> (win \<Rightarrow> win) \<Rightarrow> manager \<Rightarrow> manager" where
  "on_win i f m = m\<lparr>wins := (wins m)[i := f (wins m ! i)]\<rparr>"

text \<open>\<open>close()\<close> of a handle: a request.\<close>

definition ask_close :: "nat \<Rightarrow> manager \<Rightarrow> manager" where
  "ask_close i m = on_win i (\<lambda>w. w\<lparr>w_closing := True\<rparr>) m"

definition window_name :: "string \<Rightarrow> nat \<Rightarrow> string" where
  "window_name base n = base @ ''-'' @ decimal n"

lemma window_name_inj: "window_name b m = window_name b n \<longleftrightarrow> m = n"
  by (auto simp: window_name_def dest: decimal_inj)

text \<open>The \<open>do\<close> loop of \<open>spawn\<close>: the counter after it, whose id no live window has.\<close>

function mint :: "string \<Rightarrow> string list \<Rightarrow> nat \<Rightarrow> nat" where
  "mint base live n = (if window_name base (Suc n) \<in> set live then mint base live (Suc n) else Suc n)"
  by auto

termination mint
proof (relation "measure (\<lambda>(base, live, n). card {k. n < k \<and> window_name base k \<in> set live})")
  fix base :: string and live :: "string list" and n :: nat
  assume taken: "window_name base (Suc n) \<in> set live"
  let ?S = "\<lambda>n. {k. n < k \<and> window_name base k \<in> set live}"
  have "inj (window_name base)" by (simp add: inj_def window_name_inj)
  then have "finite (window_name base -` set live)" by (rule finite_vimageI [OF finite_set])
  then have fin: "finite (?S n)" by (rule finite_subset [rotated]) auto
  have "?S (Suc n) \<subset> ?S n" using taken by (auto intro: Suc_lessD)
  then show "((base, live, Suc n), (base, live, n)) \<in> measure (\<lambda>(base, live, n). card {k. n < k \<and> window_name base k \<in> set live})"
    by (simp add: psubset_card_mono [OF fin])
qed simp

declare mint.simps [simp del]

definition live_ids :: "manager \<Rightarrow> string list" where
  "live_ids m = map (\<lambda>i. w_id (wins m ! i)) (open_wins m)"

definition carried_id :: "desc \<Rightarrow> string option" where
  "carried_id d = (case windowIdOf (searchOf (d_url d)) of Some i \<Rightarrow> Some i | None \<Rightarrow> windowIdOf (d_search d))"

definition spawn :: "desc \<Rightarrow> manager \<Rightarrow> manager" where
  "spawn d m =
     (let base = (case d_appId d of Some a \<Rightarrow> a | None \<Rightarrow> className (d_class d));
          carried = (case carried_id d of Some i \<Rightarrow> i | None \<Rightarrow> '''');
          n = (if carried = '''' then mint base (live_ids m) (idCounter m) else idCounter m);
          wid = (if carried = '''' then window_name base n else carried);
          search = qset ''win'' wid (case d_search d of Some q \<Rightarrow> q | None \<Rightarrow> []);
          w = \<lparr>w_class = d_class d, w_appId = d_appId d, w_fileKey = d_fileKey d, w_owner = d_owner d, w_key = d_key d,
               w_id = wid, w_url = Url (d_entry d) search, w_bounds = d_bounds d, w_full = d_full d, w_maxi = d_maxi d,
               w_closing = False, w_gone = False\<rparr>
      in m\<lparr>wins := wins m @ [w], idCounter := n\<rparr>)"

definition entry_of :: "window_class \<Rightarrow> string" where
  "entry_of c = (case sp_entry (WINDOWS c) of Some e \<Rightarrow> e | None \<Rightarrow> '''')"

definition app_entry :: "string \<Rightarrow> string" where
  "app_entry a = ''windows/'' @ a @ ''.html''"

text \<open>Focus the first of some open windows, or spawn one.\<close>

definition focus_or_spawn :: "nat list \<Rightarrow> desc \<Rightarrow> manager \<Rightarrow> manager" where
  "focus_or_spawn is d m = (case first_of is of Some i \<Rightarrow> focus i m | None \<Rightarrow> spawn d m)"

definition ensureWelcome :: "bounds option \<Rightarrow> bool \<Rightarrow> bool \<Rightarrow> url option \<Rightarrow> manager \<Rightarrow> manager" where
  "ensureWelcome b f x u m = focus_or_spawn (byClass Welcome m)
     ((plain_desc Welcome (entry_of Welcome))\<lparr>d_bounds := b, d_full := f, d_maxi := x, d_url := u\<rparr>) m"

definition openConfig :: "manager \<Rightarrow> manager" where
  "openConfig m = focus_or_spawn (byClass Config m) (plain_desc Config (entry_of Config)) m"

definition openTeleCanvas :: "manager \<Rightarrow> manager" where
  "openTeleCanvas m = focus_or_spawn (byClass TeleCanvas m) (plain_desc TeleCanvas (entry_of TeleCanvas)) m"

definition withKey :: "string \<Rightarrow> manager \<Rightarrow> nat list" where
  "withKey k m = filter (\<lambda>i. w_key (wins m ! i) = Some k) (open_wins m)"

definition opt_param :: "string \<Rightarrow> string option \<Rightarrow> query" where
  "opt_param k v = (case v of Some x \<Rightarrow> if x = [] then [] else [(k, x)] | None \<Rightarrow> [])"

definition profiler_key :: "string option \<Rightarrow> string" where
  "profiler_key inst = (case inst of Some i \<Rightarrow> if i = [] then ''profiler'' else ''profiler:'' @ i | None \<Rightarrow> ''profiler'')"

definition openProfiler :: "string option \<Rightarrow> string option \<Rightarrow> bounds option \<Rightarrow> url option \<Rightarrow> manager \<Rightarrow> manager" where
  "openProfiler inst sess b u m =
     (let ps = opt_param ''instance'' inst @ opt_param ''session'' sess
      in focus_or_spawn (filter (\<lambda>i. w_class (wins m ! i) = Profiler) (withKey (profiler_key inst) m))
           ((plain_desc Profiler (entry_of Profiler))\<lparr>d_key := Some (profiler_key inst),
              d_search := (if ps = [] then None else Some ps), d_bounds := b, d_url := u\<rparr>) m)"

definition openViewer :: "string \<Rightarrow> bounds option \<Rightarrow> url option \<Rightarrow> manager \<Rightarrow> manager" where
  "openViewer p b u m = focus_or_spawn (filter (\<lambda>i. w_fileKey (wins m ! i) = Some p) (byClass Viewer m))
     ((plain_desc Viewer (entry_of Viewer))\<lparr>d_search := Some [(''path'', p)], d_fileKey := Some p, d_bounds := b, d_url := u\<rparr>) m"

definition debug_key :: "string \<Rightarrow> string \<Rightarrow> string" where
  "debug_key session k = ''debug:'' @ session @ '':'' @ k"

definition debug_desc :: "string \<Rightarrow> string \<Rightarrow> nat option \<Rightarrow> desc" where
  "debug_desc session k owner = (plain_desc Debug (entry_of Debug))\<lparr>d_search := Some [(''session'', session), (''kind'', k)],
     d_owner := owner, d_key := Some (debug_key session k)\<rparr>"

definition toggle :: "string \<Rightarrow> desc \<Rightarrow> manager \<Rightarrow> manager" where
  "toggle k d m = (case first_of (withKey k m) of Some i \<Rightarrow> ask_close i m | None \<Rightarrow> spawn (d\<lparr>d_key := Some k\<rparr>) m)"

definition toggleDebug :: "string \<Rightarrow> nat option \<Rightarrow> string \<Rightarrow> manager \<Rightarrow> manager" where
  "toggleDebug session owner k m = toggle (debug_key session k) (debug_desc session k owner) m"

definition openDebug :: "string \<Rightarrow> nat option \<Rightarrow> string \<Rightarrow> manager \<Rightarrow> manager" where
  "openDebug session owner k m = focus_or_spawn (withKey (debug_key session k) m) (debug_desc session k owner) m"

definition openProjection :: "query \<Rightarrow> bounds option \<Rightarrow> url option \<Rightarrow> manager \<Rightarrow> manager" where
  "openProjection q b u m = spawn ((plain_desc Projection (entry_of Projection))\<lparr>d_search := Some q, d_bounds := b, d_url := u\<rparr>) m"

section \<open>Closing and switching\<close>

text \<open>The \<open>closed\<close> event of a window: its children that cascade are asked to close, then the welcome rule.\<close>

definition onWindowClosed :: "nat \<Rightarrow> manager \<Rightarrow> manager" where
  "onWindowClosed i m =
     (let w = wins m ! i; m1 = on_win i (\<lambda>w. w\<lparr>w_gone := True\<rparr>) m;
          m2 = fold ask_close (filter (\<lambda>j. sp_onOwnerClose (WINDOWS (w_class (wins m1 ! j))) = Cascade) (childrenOf i m1)) m1
      in if \<not> sp_countsForWelcome (WINDOWS (w_class w)) \<or> quitting m2 \<or> inSwitch m2 then m2
         else if appWindow m2 = None then ensureWelcome (w_bounds w) (w_full w) (w_maxi w) None m2 else m2)"

definition closed_event :: "nat \<Rightarrow> manager \<Rightarrow> manager" where
  "closed_event i m = (if i < length (wins m) \<and> \<not> w_gone (wins m ! i) then onWindowClosed i m else m)"

definition closeAll :: "manager \<Rightarrow> manager" where
  "closeAll m = (let all = open_wins m; owned = (\<lambda>i. w_owner (wins m ! i) \<noteq> None)
     in fold ask_close (filter (\<lambda>i. \<not> owned i) all) (fold ask_close (filter owned all) m))"

definition app_desc :: "string \<Rightarrow> bounds option \<Rightarrow> url option \<Rightarrow> (bounds option \<times> bool \<times> bool) option \<Rightarrow> desc" where
  "app_desc a b u inh = (plain_desc App (app_entry a))\<lparr>d_appId := Some a, d_url := u,
     d_bounds := (case b of Some x \<Rightarrow> Some x | None \<Rightarrow> (case inh of Some (y, _, _) \<Rightarrow> y | None \<Rightarrow> None)),
     d_full := (case inh of Some (_, f, _) \<Rightarrow> f | None \<Rightarrow> False), d_maxi := (case inh of Some (_, _, x) \<Rightarrow> x | None \<Rightarrow> False)\<rparr>"

text \<open>The last step of \<open>openAppInner\<close>: \<open>entryFor\<close> throws for an unknown app, and no window opens.\<close>

definition spawn_app :: "string \<Rightarrow> bounds option \<Rightarrow> url option \<Rightarrow> (bounds option \<times> bool \<times> bool) option \<Rightarrow> manager \<Rightarrow> manager" where
  "spawn_app a b u inh m = (if a \<in> set APP_IDS then spawn (app_desc a b u inh) m else m)"

text \<open>\<open>openAppInner\<close> up to the drain it awaits; it awaits nothing if no window holds a session.\<close>

definition openAppInner :: "string \<Rightarrow> bounds option \<Rightarrow> url option \<Rightarrow> manager \<Rightarrow> manager" where
  "openAppInner a b u m =
     (case appWindow m of
        Some i \<Rightarrow> if w_appId (wins m ! i) = Some a then focus i m
          else (let hs = byClass App m @ byClass Welcome m; h = wins m ! hd hs
            in m\<lparr>inSwitch := True, switching := Some \<lparr>s_app = a, s_bounds = b, s_url = u, s_holders = hs,
                 s_inherit = Some (w_bounds h, w_full h, w_maxi h), s_current = Some i\<rparr>\<rparr>)
      | None \<Rightarrow> (let hs = byClass Welcome m
          in if hs = [] then spawn_app a b u None m
             else let h = wins m ! hd hs
               in m\<lparr>inSwitch := True, switching := Some \<lparr>s_app = a, s_bounds = b, s_url = u, s_holders = hs,
                    s_inherit = Some (w_bounds h, w_full h, w_maxi h), s_current = None\<rparr>\<rparr>))"

text \<open>The chain of switches: the waiting ones run until one awaits its drain.\<close>

function run_waiting :: "manager \<Rightarrow> manager" where
  "run_waiting m = (if switching m \<noteq> None then m else (case waiting m of
      [] \<Rightarrow> m
    | (a, b, u) # rest \<Rightarrow> run_waiting (openAppInner a b u (m\<lparr>waiting := rest\<rparr>))))"
  by auto

lemma spawn_waiting [simp]: "waiting (spawn d m) = waiting m" "switching (spawn d m) = switching m" "inSwitch (spawn d m) = inSwitch m"
  "quitting (spawn d m) = quitting m"
  by (simp_all add: spawn_def Let_def)

lemma openAppInner_waiting [simp]: "waiting (openAppInner a b u m) = waiting m"
  by (simp add: openAppInner_def spawn_app_def focus_def Let_def split: option.split)

termination run_waiting
  by (relation "measure (\<lambda>m. length (waiting m))") simp_all

declare run_waiting.simps [simp del]

definition openApp :: "string \<Rightarrow> bounds option \<Rightarrow> url option \<Rightarrow> manager \<Rightarrow> manager" where
  "openApp a b u m = run_waiting (m\<lparr>waiting := waiting m @ [(a, b, u)]\<rparr>)"

text \<open>The drain settles: refused, or the holders close and the app opens.\<close>

definition drained :: "bool \<Rightarrow> manager \<Rightarrow> manager" where
  "drained ok m = (case switching m of
      None \<Rightarrow> m
    | Some s \<Rightarrow> let m1 = m\<lparr>switching := None\<rparr>
        in run_waiting (if ok
             then (spawn_app (s_app s) (s_bounds s) (s_url s) (s_inherit s)
                     (fold ask_close (filter (\<lambda>i. \<not> w_gone (wins m1 ! i)) (s_holders s)) m1))\<lparr>inSwitch := False\<rparr>
             else (case s_current s of None \<Rightarrow> id | Some i \<Rightarrow> focus i) (m1\<lparr>refusals := refusals m1 + 1, inSwitch := False\<rparr>)))"

section \<open>Manifest\<close>

definition manifest_of :: "win \<Rightarrow> manifest_window" where
  "manifest_of w = \<lparr>m_class = Some (w_class w), m_appId = w_appId w, m_url = Some (w_url w), m_bounds = w_bounds w\<rparr>"

definition collectManifest :: "manager \<Rightarrow> manifest_window list" where
  "collectManifest m = map (\<lambda>i. manifest_of (wins m ! i)) (open_wins m)"

definition query_get :: "string \<Rightarrow> query option \<Rightarrow> string option" where
  "query_get k q = (case q of None \<Rightarrow> None | Some ps \<Rightarrow> map_of ps k)"

text \<open>One window of \<open>restore\<close>.\<close>

definition restore_one :: "manifest_window \<Rightarrow> manager \<Rightarrow> manager" where
  "restore_one w m = (case m_class w of
      Some Welcome \<Rightarrow> ensureWelcome (m_bounds w) False False (m_url w) m
    | Some Profiler \<Rightarrow> openProfiler (query_get ''instance'' (searchOf (m_url w))) (query_get ''session'' (searchOf (m_url w))) (m_bounds w) (m_url w) m
    | Some App \<Rightarrow> (case m_appId w of Some a \<Rightarrow> if a = [] then m else openApp a (m_bounds w) (m_url w) m | None \<Rightarrow> m)
    | Some Projection \<Rightarrow> spawn ((plain_desc Projection (entry_of Projection))\<lparr>d_search := searchOf (m_url w), d_bounds := m_bounds w, d_url := m_url w\<rparr>) m
    | Some Viewer \<Rightarrow> (case query_get ''path'' (searchOf (m_url w)) of
          Some p \<Rightarrow> if p = [] then m else openViewer p (m_bounds w) (m_url w) m | None \<Rightarrow> m)
    | _ \<Rightarrow> m)"

definition restore :: "manifest_window list \<Rightarrow> manager \<Rightarrow> manager" where
  "restore ws m = fold restore_one ws m"

datatype window_event =
    OpenApp string "bounds option" "url option" | Drained bool | Closed nat | AskClose nat
  | OpenWelcome | OpenConfig | OpenTele | OpenProfiler "string option" "string option"
  | OpenViewer string | OpenProjection query | ToggleDebug string string | OpenDebug string string
  | Quit | CloseAll

fun window_step :: "manager \<Rightarrow> window_event \<Rightarrow> manager" where
  "window_step m (OpenApp a b u) = openApp a b u m"
| "window_step m (Drained ok) = drained ok m"
| "window_step m (Closed i) = closed_event i m"
| "window_step m (AskClose i) = ask_close i m"
| "window_step m OpenWelcome = ensureWelcome None False False None m"
| "window_step m OpenConfig = openConfig m"
| "window_step m OpenTele = openTeleCanvas m"
| "window_step m (OpenProfiler i s) = openProfiler i s None None m"
| "window_step m (OpenViewer p) = openViewer p None None m"
| "window_step m (OpenProjection q) = openProjection q None None m"
| "window_step m (ToggleDebug s k) = toggleDebug s (appWindow m) k m"
| "window_step m (OpenDebug s k) = openDebug s (appWindow m) k m"
| "window_step m Quit = m\<lparr>quitting := True\<rparr>"
| "window_step m CloseAll = closeAll m"

section \<open>Live windows\<close>

text \<open>What an open window stands for: its class, its file or its key. App and projection windows stand for nothing.\<close>

definition slot :: "win \<Rightarrow> (string \<times> string) option" where
  "slot w = (case w_class w of
      App \<Rightarrow> None | Projection \<Rightarrow> None
    | Viewer \<Rightarrow> Some (''viewer'', case w_fileKey w of Some p \<Rightarrow> p | None \<Rightarrow> '''')
    | Profiler \<Rightarrow> Some (''profiler'', case w_key w of Some k \<Rightarrow> k | None \<Rightarrow> '''')
    | Debug \<Rightarrow> Some (''debug'', case w_key w of Some k \<Rightarrow> k | None \<Rightarrow> '''')
    | c \<Rightarrow> Some (className c, ''''))"

definition slots :: "win list \<Rightarrow> (string \<times> string) option list" where
  "slots ws = map slot (filter (\<lambda>w. \<not> w_gone w \<and> slot w \<noteq> None) ws)"

definition keyed :: "win \<Rightarrow> bool" where
  "keyed w \<longleftrightarrow> (w_class w = Viewer \<longrightarrow> w_fileKey w \<noteq> None) \<and> (w_class w \<in> {Profiler, Debug} \<longrightarrow> w_key w \<noteq> None)"

definition layout_ok :: "manager \<Rightarrow> bool" where
  "layout_ok m \<longleftrightarrow> distinct (slots (wins m)) \<and> (\<forall>w \<in> set (wins m). keyed w)"

definition spawned :: "desc \<Rightarrow> manager \<Rightarrow> win" where
  "spawned d m = last (wins (spawn d m))"

lemma wins_spawn: "wins (spawn d m) = wins m @ [spawned d m]"
  by (simp add: spawned_def spawn_def Let_def)

lemma spawned_fields [simp]:
  "w_class (spawned d m) = d_class d" "w_fileKey (spawned d m) = d_fileKey d" "w_key (spawned d m) = d_key d"
  "w_gone (spawned d m) = False" "w_closing (spawned d m) = False" "w_appId (spawned d m) = d_appId d"
  by (simp_all add: spawned_def spawn_def Let_def)

lemma nth_open: "i \<in> set (open_wins m) \<Longrightarrow> wins m ! i \<in> set (wins m) \<and> \<not> w_gone (wins m ! i) \<and> i < length (wins m)"
  by (auto simp: open_wins_def)

lemma open_none:
  "filter (\<lambda>i. Q (wins m ! i)) (open_wins m) = [] \<longleftrightarrow> (\<forall>w \<in> set (wins m). \<not> w_gone w \<longrightarrow> \<not> Q w)"
  by (auto simp: open_wins_def filter_empty_conv all_set_conv_all_nth)

lemma first_none [simp]: "first_of is = None \<longleftrightarrow> is = []"
  by (simp add: first_of_def split: list.split)

lemma first_some: "first_of is = Some i \<Longrightarrow> i \<in> set is"
  by (cases "is") (auto simp: first_of_def)

lemma layout_spawn:
  assumes "layout_ok m" "keyed (spawned d m)"
    and "\<And>w. w \<in> set (wins m) \<Longrightarrow> \<not> w_gone w \<Longrightarrow> slot w = slot (spawned d m) \<Longrightarrow> slot w = None"
  shows "layout_ok (spawn d m)"
  using assms by (force simp: layout_ok_def wins_spawn slots_def)

lemma layout_same: "layout_ok m \<Longrightarrow> wins m' = wins m \<Longrightarrow> layout_ok m'"
  by (simp add: layout_ok_def)

lemma slot_cases:
  "slot w = Some (a, b) \<Longrightarrow> (a = ''welcome'' \<longleftrightarrow> w_class w = Welcome) \<and> (a = ''config'' \<longleftrightarrow> w_class w = Config)
     \<and> (a = ''telecanvas'' \<longleftrightarrow> w_class w = TeleCanvas) \<and> (a = ''viewer'' \<longleftrightarrow> w_class w = Viewer)
     \<and> (a = ''profiler'' \<longleftrightarrow> w_class w = Profiler) \<and> (a = ''debug'' \<longleftrightarrow> w_class w = Debug)"
  by (cases "w_class w") (auto simp: slot_def className_def)

lemma layout_slots: "slot w = slot v \<Longrightarrow> slot w \<noteq> None \<Longrightarrow> w_class w = w_class v"
  by (cases "slot w") (auto dest!: slot_cases simp: slot_def className_def split: window_class.splits)

lemma layout_focus_or_spawn:
  assumes "layout_ok m" "keyed (spawned d m)"
    and "\<And>w. w_class w = d_class d \<Longrightarrow> slot w = slot (spawned d m) \<Longrightarrow> keyed w \<Longrightarrow> Q w"
  shows "layout_ok (focus_or_spawn (filter (\<lambda>i. Q (wins m ! i)) (open_wins m)) d m)"
proof (cases "filter (\<lambda>i. Q (wins m ! i)) (open_wins m) = []")
  case True
  then have n: "\<forall>w \<in> set (wins m). \<not> w_gone w \<longrightarrow> \<not> Q w" by (simp add: open_none)
  have "layout_ok (spawn d m)"
    by (rule layout_spawn [OF assms(1,2)]) (metis n assms(1,3) layout_ok_def layout_slots spawned_fields(1))
  with True show ?thesis by (simp add: focus_or_spawn_def first_of_def)
next
  case False
  then obtain i where "first_of (filter (\<lambda>i. Q (wins m ! i)) (open_wins m)) = Some i" by fastforce
  with assms(1) show ?thesis by (simp add: focus_or_spawn_def focus_def layout_ok_def)
qed

lemma layout_on_win:
  assumes "layout_ok m" "\<And>w. slot (f w) = slot w \<and> (keyed w \<longrightarrow> keyed (f w)) \<and> (w_gone w \<longrightarrow> w_gone (f w))"
  shows "layout_ok (on_win i f m)"
proof -
  have "mset (slots ((wins m)[i := f (wins m ! i)])) \<subseteq># mset (slots (wins m))"
    unfolding slots_def by (rule update_sub_mset) (use assms(2) in auto)
  from distinct_sub_mset [OF this] assms(1) have "distinct (slots (wins (on_win i f m)))"
    by (simp add: on_win_def layout_ok_def)
  moreover have "\<forall>w \<in> set (wins (on_win i f m)). keyed w"
  proof (cases "i < length (wins m)")
    case True
    with assms show ?thesis
      by (auto simp: on_win_def layout_ok_def dest!: subsetD [OF set_update_subset_insert])
  qed (use assms(1) in \<open>simp add: on_win_def layout_ok_def list_update_beyond\<close>)
  ultimately show ?thesis by (simp add: layout_ok_def)
qed

lemma slot_flags [simp]:
  "slot (w\<lparr>w_closing := x\<rparr>) = slot w" "slot (w\<lparr>w_gone := x\<rparr>) = slot w"
  "keyed (w\<lparr>w_closing := x\<rparr>) = keyed w" "keyed (w\<lparr>w_gone := x\<rparr>) = keyed w"
  by (cases "w_class w"; simp add: slot_def keyed_def)+

lemma layout_ask_close: "layout_ok m \<Longrightarrow> layout_ok (ask_close i m)"
  unfolding ask_close_def by (rule layout_on_win) simp_all

lemma layout_fold_close: "layout_ok m \<Longrightarrow> layout_ok (fold ask_close is m)"
  by (induction "is" arbitrary: m) (simp_all add: layout_ask_close)

section \<open>One app window\<close>

text \<open>An open app window nobody asked to close.\<close>

definition live_app :: "manager \<Rightarrow> nat \<Rightarrow> bool" where
  "live_app m i \<longleftrightarrow> i < length (wins m) \<and> \<not> w_gone (wins m ! i) \<and> \<not> w_closing (wins m ! i) \<and> w_class (wins m ! i) = App"

definition one_app :: "manager \<Rightarrow> bool" where
  "one_app m \<longleftrightarrow> (\<forall>i j. live_app m i \<longrightarrow> live_app m j \<longrightarrow> i = j)
     \<and> (\<forall>s. switching m = Some s \<longrightarrow> Collect (live_app m) \<subseteq> set (s_holders s)) \<and> (inSwitch m \<longleftrightarrow> switching m \<noteq> None)"

definition no_more_apps :: "manager \<Rightarrow> manager \<Rightarrow> bool" where
  "no_more_apps m m' \<longleftrightarrow> (\<forall>i. live_app m' i \<longrightarrow> live_app m i) \<and> switching m' = switching m \<and> inSwitch m' = inSwitch m"

lemma no_more_apps_refl [simp, intro]: "no_more_apps m m"
  by (simp add: no_more_apps_def)

lemma no_more_apps_trans [trans]: "no_more_apps a b \<Longrightarrow> no_more_apps b c \<Longrightarrow> no_more_apps a c"
  by (auto simp: no_more_apps_def)

lemma one_app_mono: "one_app m \<Longrightarrow> no_more_apps m m' \<Longrightarrow> one_app m'"
  unfolding one_app_def no_more_apps_def by (simp add: subset_iff)

lemma live_app_frame [simp]:
  "live_app (m\<lparr>switching := s\<rparr>) = live_app m" "live_app (m\<lparr>waiting := w\<rparr>) = live_app m"
  "live_app (m\<lparr>inSwitch := x\<rparr>) = live_app m" "live_app (m\<lparr>focused := fs\<rparr>) = live_app m"
  "live_app (m\<lparr>refusals := r\<rparr>) = live_app m" "live_app (m\<lparr>quitting := x\<rparr>) = live_app m"
  by (simp_all add: live_app_def fun_eq_iff)

lemma live_app_spawn:
  "live_app (spawn d m) i \<longleftrightarrow> live_app m i \<or> (i = length (wins m) \<and> d_class d = App)"
  by (auto simp: live_app_def wins_spawn nth_append less_Suc_eq)

lemma no_more_apps_spawn: "d_class d \<noteq> App \<Longrightarrow> no_more_apps m (spawn d m)"
  by (simp add: no_more_apps_def live_app_spawn)

lemma no_more_apps_focus: "no_more_apps m (focus i m)"
  by (simp add: no_more_apps_def focus_def)

lemma no_more_apps_focus_or_spawn: "d_class d \<noteq> App \<Longrightarrow> no_more_apps m (focus_or_spawn is d m)"
  by (simp add: focus_or_spawn_def no_more_apps_spawn no_more_apps_focus split: option.split)

lemma live_app_ask_close: "live_app (ask_close j m) i \<longleftrightarrow> live_app m i \<and> i \<noteq> j"
  by (cases "i = j") (auto simp: live_app_def ask_close_def on_win_def)

lemma fold_close_frame [simp]:
  "switching (fold ask_close is m) = switching m" "inSwitch (fold ask_close is m) = inSwitch m"
  "waiting (fold ask_close is m) = waiting m" "quitting (fold ask_close is m) = quitting m"
  "idCounter (fold ask_close is m) = idCounter m"
  by (induction "is" arbitrary: m) (simp_all add: ask_close_def on_win_def)

lemma live_app_fold_close: "live_app (fold ask_close is m) i \<longleftrightarrow> live_app m i \<and> i \<notin> set is"
  by (induction "is" arbitrary: m) (auto simp: live_app_ask_close)

lemma no_more_apps_fold_close: "no_more_apps m (fold ask_close is m)"
  by (auto simp: no_more_apps_def live_app_fold_close)

lemma no_more_apps_gone: "no_more_apps m (on_win i (\<lambda>w. w\<lparr>w_gone := True\<rparr>) m)"
proof -
  have "live_app m j" if "live_app (on_win i (\<lambda>w. w\<lparr>w_gone := True\<rparr>) m) j" for j
    using that by (cases "i = j") (auto simp: live_app_def on_win_def)
  then show ?thesis by (simp add: no_more_apps_def on_win_def)
qed

lemma no_more_apps_welcome: "no_more_apps m (ensureWelcome b f x u m)"
  by (simp add: ensureWelcome_def no_more_apps_focus_or_spawn plain_desc_def)

lemma no_more_apps_closed: "no_more_apps m (closed_event i m)"
  unfolding closed_event_def onWindowClosed_def Let_def
  using no_more_apps_trans [OF no_more_apps_gone no_more_apps_fold_close]
    no_more_apps_trans [OF no_more_apps_trans [OF no_more_apps_gone no_more_apps_fold_close] no_more_apps_welcome]
  by auto

lemma one_app_inner:
  assumes "one_app m" "switching m = None"
  shows "one_app (openAppInner a b u m)"
proof -
  have apps: "\<And>i. live_app m i \<Longrightarrow> i \<in> set (byClass App m)" by (simp add: live_app_def byClass_def open_wins_def)
  show ?thesis
  proof (cases "appWindow m")
    case None
    then have "live_app m = (\<lambda>i. False)" using apps by (auto simp: appWindow_def fun_eq_iff)
    with None assms show ?thesis
      by (simp add: openAppInner_def spawn_app_def one_app_def live_app_spawn Let_def)
  next
    case (Some i)
    show ?thesis
    proof (cases "w_appId (wins m ! i) = Some a")
      case True
      with Some show ?thesis using one_app_mono [OF assms(1) no_more_apps_focus] by (simp add: openAppInner_def)
    next
      case False
      with Some assms apps show ?thesis by (auto simp: openAppInner_def one_app_def Let_def)
    qed
  qed
qed

lemma one_app_run: "one_app m \<Longrightarrow> one_app (run_waiting m)"
proof (induction m rule: run_waiting.induct)
  case (1 m)
  show ?case
  proof (cases "switching m = None \<and> waiting m \<noteq> []")
    case True
    then obtain a b u r where w: "waiting m = (a, b, u) # r" by (cases "waiting m") auto
    have "one_app (m\<lparr>waiting := r\<rparr>)" using 1(2) by (rule one_app_mono) (simp add: no_more_apps_def)
    from one_app_inner [OF this] True w 1(1) show ?thesis by (subst run_waiting.simps) simp
  qed (use 1(2) in \<open>subst run_waiting.simps; auto split: list.split\<close>)
qed

lemma one_app_open: "one_app m \<Longrightarrow> one_app (openApp a b u m)"
  unfolding openApp_def by (rule one_app_run, erule one_app_mono) (simp add: no_more_apps_def)

lemma one_app_drained:
  assumes "one_app m" shows "one_app (drained ok m)"
proof (cases "switching m")
  case (Some s)
  let ?m1 = "m\<lparr>switching := None\<rparr>"
  show ?thesis
  proof (cases ok)
    case True
    let ?hs = "filter (\<lambda>i. \<not> w_gone (wins ?m1 ! i)) (s_holders s)"
    have "\<And>i. live_app m i \<Longrightarrow> i \<in> set ?hs" using assms Some by (auto simp: one_app_def live_app_def)
    then have "live_app (fold ask_close ?hs ?m1) = (\<lambda>i. False)" by (auto simp: live_app_fold_close fun_eq_iff)
    then have "one_app ((spawn_app (s_app s) (s_bounds s) (s_url s) (s_inherit s) (fold ask_close ?hs ?m1))\<lparr>inSwitch := False\<rparr>)"
      by (simp add: spawn_app_def one_app_def live_app_spawn)
    with Some True show ?thesis by (simp add: drained_def one_app_run)
  next
    case False
    let ?m2 = "m\<lparr>switching := None, refusals := refusals m + 1, inSwitch := False\<rparr>"
    have "one_app ?m2" using assms by (simp add: one_app_def)
    then have "one_app ((case s_current s of None \<Rightarrow> id | Some i \<Rightarrow> focus i) ?m2)"
      by (cases "s_current s") (auto intro: one_app_mono no_more_apps_focus)
    with Some False show ?thesis by (simp add: drained_def one_app_run)
  qed
qed (use assms in \<open>simp add: drained_def\<close>)

lemma one_app_step: "one_app m \<Longrightarrow> one_app (window_step m e)"
proof (cases e)
  case (ToggleDebug s k)
  assume "one_app m"
  then show ?thesis unfolding ToggleDebug
    by (rule one_app_mono)
       (auto simp: toggleDebug_def toggle_def debug_desc_def plain_desc_def no_more_apps_spawn
          no_more_apps_fold_close [of _ "[_]", simplified] split: option.split)
next
  case (AskClose i)
  assume "one_app m"
  then show ?thesis unfolding AskClose
    by (rule one_app_mono) (use no_more_apps_fold_close [of m "[i]"] in simp)
next
  case CloseAll
  assume "one_app m"
  then show ?thesis unfolding CloseAll
    by (rule one_app_mono)
       (simp add: closeAll_def Let_def no_more_apps_trans [OF no_more_apps_fold_close no_more_apps_fold_close])
qed (auto intro: one_app_open one_app_drained one_app_mono no_more_apps_closed no_more_apps_welcome
       simp: openConfig_def openTeleCanvas_def openProfiler_def openViewer_def openProjection_def openDebug_def
         no_more_apps_focus_or_spawn no_more_apps_spawn plain_desc_def debug_desc_def Let_def no_more_apps_def [of m "m\<lparr>quitting := True\<rparr>"])

definition after :: "window_event list \<Rightarrow> manager" where
  "after es = run window_step new_manager es"

lemma new_manager_ok: "one_app new_manager"
  by (simp add: new_manager_def one_app_def live_app_def)

interpretation app_windows: started_machine window_step one_app new_manager
  by unfold_locales (simp_all add: one_app_step new_manager_ok)

section \<open>Windows that stand for one thing\<close>

lemma layout_welcome: "layout_ok m \<Longrightarrow> layout_ok (ensureWelcome b f x u m)"
  unfolding ensureWelcome_def byClass_def
  by (rule layout_focus_or_spawn) (simp_all add: plain_desc_def keyed_def)

lemma layout_config: "layout_ok m \<Longrightarrow> layout_ok (openConfig m)"
  unfolding openConfig_def byClass_def
  by (rule layout_focus_or_spawn) (simp_all add: plain_desc_def keyed_def)

lemma layout_tele: "layout_ok m \<Longrightarrow> layout_ok (openTeleCanvas m)"
  unfolding openTeleCanvas_def byClass_def
  by (rule layout_focus_or_spawn) (simp_all add: plain_desc_def keyed_def)

lemma layout_profiler: "layout_ok m \<Longrightarrow> layout_ok (openProfiler i s b u m)"
  unfolding openProfiler_def withKey_def Let_def filter_filter
  by (rule layout_focus_or_spawn)
     (auto simp: plain_desc_def keyed_def slot_def)

lemma layout_viewer: "layout_ok m \<Longrightarrow> layout_ok (openViewer p b u m)"
  unfolding openViewer_def byClass_def filter_filter
  by (rule layout_focus_or_spawn)
     (auto simp: plain_desc_def keyed_def slot_def)

lemma layout_debug: "layout_ok m \<Longrightarrow> layout_ok (openDebug s w k m)"
  unfolding openDebug_def withKey_def
  by (rule layout_focus_or_spawn) (auto simp: debug_desc_def plain_desc_def keyed_def slot_def)

lemma debug_key_idem [simp]: "(debug_desc s k w)\<lparr>d_key := Some (debug_key s k)\<rparr> = debug_desc s k w"
  by (simp add: debug_desc_def plain_desc_def)

lemma layout_toggle: "layout_ok m \<Longrightarrow> layout_ok (toggleDebug s w k m)"
proof (cases "withKey (debug_key s k) m = []")
  case True
  assume "layout_ok m"
  then have "layout_ok (openDebug s w k m)" by (rule layout_debug)
  with True show ?thesis
    by (simp add: openDebug_def focus_or_spawn_def toggleDebug_def toggle_def first_of_def)
next
  case False
  then obtain i where "first_of (withKey (debug_key s k) m) = Some i" by fastforce
  moreover assume "layout_ok m"
  ultimately show ?thesis by (simp add: toggleDebug_def toggle_def layout_ask_close)
qed

lemma layout_spawn_app: "layout_ok m \<Longrightarrow> d_class d = App \<or> d_class d = Projection \<Longrightarrow> layout_ok (spawn d m)"
  by (rule layout_spawn) (auto simp: keyed_def slot_def)

lemma layout_closed: "layout_ok m \<Longrightarrow> layout_ok (closed_event i m)"
proof -
  assume "layout_ok m"
  then have "layout_ok (on_win i (\<lambda>w. w\<lparr>w_gone := True\<rparr>) m)" by (rule layout_on_win) simp_all
  from layout_fold_close [OF this] layout_welcome [OF layout_fold_close [OF this]] \<open>layout_ok m\<close>
  show ?thesis by (simp add: closed_event_def onWindowClosed_def Let_def)
qed

lemma layout_frame [simp]:
  "layout_ok (m\<lparr>switching := s\<rparr>) = layout_ok m" "layout_ok (m\<lparr>waiting := w\<rparr>) = layout_ok m"
  "layout_ok (m\<lparr>inSwitch := x\<rparr>) = layout_ok m" "layout_ok (m\<lparr>focused := fs\<rparr>) = layout_ok m"
  "layout_ok (m\<lparr>refusals := r\<rparr>) = layout_ok m" "layout_ok (m\<lparr>quitting := x\<rparr>) = layout_ok m"
  by (simp_all add: layout_ok_def)

lemma layout_focus: "layout_ok (focus i m) = layout_ok m"
  by (simp add: focus_def)

lemma app_class [simp]: "d_class (app_desc a b u h) = App"
  by (simp add: app_desc_def plain_desc_def)

lemma layout_inner: "layout_ok m \<Longrightarrow> layout_ok (openAppInner a b u m)"
  by (auto simp: openAppInner_def spawn_app_def layout_focus layout_spawn_app Let_def split: option.split)

lemma layout_run: "layout_ok m \<Longrightarrow> layout_ok (run_waiting m)"
  by (induction m rule: run_waiting.induct)
     (subst run_waiting.simps; auto simp: layout_inner split: list.split)

lemma layout_drained: "layout_ok m \<Longrightarrow> layout_ok (drained ok m)"
  by (auto simp: drained_def spawn_app_def Let_def layout_focus intro!: layout_run layout_spawn_app layout_fold_close split: option.split)

lemma layout_step: "layout_ok m \<Longrightarrow> layout_ok (window_step m e)"
  by (cases e)
     (simp_all add: layout_welcome layout_config layout_tele layout_profiler layout_viewer layout_debug layout_toggle
        layout_closed layout_drained layout_ask_close openApp_def layout_run openProjection_def layout_spawn_app
        plain_desc_def closeAll_def layout_fold_close Let_def)

interpretation layouts: started_machine window_step layout_ok new_manager
  by (unfold_locales, erule layout_step) (simp add: layout_ok_def new_manager_def slots_def)

text \<open>
  C19. However openings, switches, drains, refusals and closings interleave, at most one open app window is
  not already closing: a switch closes every window holding a session before the new one opens, and a second
  request waits for the first.
\<close>

theorem one_app_window:
  assumes "live_app (after es) i" "live_app (after es) j"
  shows "i = j"
  using app_windows.reachable_inv [of es] assms by (simp add: one_app_def after_def)

theorem one_app_window_witness:
  "let es = [OpenWelcome, OpenApp ''multi-fovea'' None None, OpenApp ''playground'' None None, Drained True, Drained True]
   in live_app (after es) 2 \<and> \<not> live_app (after es) 1 \<and> (2::nat) = 2"
proof -
  let ?es = "[OpenWelcome, OpenApp ''multi-fovea'' None None, OpenApp ''playground'' None None, Drained True, Drained True]"
  have "live_app (after ?es) 2" "\<not> live_app (after ?es) 1" by code_simp+
  with one_app_window [of ?es 2 2] show ?thesis by (simp add: Let_def)
qed

text \<open>
  No two open windows stand for one thing: there is at most one welcome, one config and one TeleCanvas
  window, one viewer per file, one profiler per instance and one debug window per session and kind, whatever
  the order of openings, toggles, switches and closings, and however long a window takes to close.
\<close>

theorem no_window_is_doubled: "distinct (slots (wins (after es)))"
  using layouts.reachable_inv [of es] by (simp add: layout_ok_def after_def)

section \<open>Window ids\<close>

lemma mint_fresh: "window_name base (mint base live n) \<notin> set live \<and> n < mint base live n"
  by (induction base live n rule: mint.induct) (subst (1 2) mint.simps, auto)

definition ids :: "win list \<Rightarrow> string list" where
  "ids ws = map w_id (filter (\<lambda>w. \<not> w_gone w) ws)"

lemma live_ids_eq: "live_ids m = ids (wins m)"
proof -
  have "filter (\<lambda>w. \<not> w_gone w) (wins m) = map ((!) (wins m)) (open_wins m)"
    unfolding open_wins_def by (subst (1) map_nth [symmetric]) (simp add: filter_map comp_def)
  then show ?thesis by (simp add: live_ids_def ids_def)
qed

text \<open>Live windows have different ids, and no switch in progress or waiting carries one.\<close>

definition ids_ok :: "manager \<Rightarrow> bool" where
  "ids_ok m \<longleftrightarrow> distinct (ids (wins m)) \<and> (\<forall>s. switching m = Some s \<longrightarrow> s_url s = None)
     \<and> (\<forall>x \<in> set (waiting m). snd (snd x) = None)"

lemma spawned_id: "carried_id d = None \<Longrightarrow> w_id (spawned d m) \<notin> set (ids (wins m))"
  using mint_fresh by (simp add: spawned_def spawn_def Let_def live_ids_eq)

lemma ids_spawn: "ids_ok m \<Longrightarrow> carried_id d = None \<Longrightarrow> ids_ok (spawn d m)"
  using spawned_id [of d m] by (simp add: ids_ok_def wins_spawn) (simp add: ids_def)

lemma ids_focus_or_spawn: "ids_ok m \<Longrightarrow> carried_id d = None \<Longrightarrow> ids_ok (focus_or_spawn is d m)"
  by (simp add: focus_or_spawn_def ids_spawn split: option.split) (simp add: focus_def ids_ok_def)

lemma ids_on_win:
  assumes "ids_ok m" "\<And>w. w_id (f w) = w_id w \<and> (w_gone w \<longrightarrow> w_gone (f w))"
  shows "ids_ok (on_win i f m)"
proof -
  have "mset (ids ((wins m)[i := f (wins m ! i)])) \<subseteq># mset (ids (wins m))"
    unfolding ids_def by (rule update_sub_mset) (use assms(2) in auto)
  from distinct_sub_mset [OF this] assms(1) show ?thesis by (simp add: ids_ok_def on_win_def)
qed

lemma ids_fold_close: "ids_ok m \<Longrightarrow> ids_ok (fold ask_close is m)"
proof (induction "is" arbitrary: m)
  case (Cons i "is")
  have "ids_ok (ask_close i m)" unfolding ask_close_def by (rule ids_on_win [OF Cons.prems]) simp
  with Cons.IH show ?case by simp
qed simp

lemma carried_plain [simp]:
  "carried_id (plain_desc c e) = None"
  "carried_id ((plain_desc c e)\<lparr>d_bounds := b, d_full := f, d_maxi := x, d_url := None\<rparr>) = None"
  "carried_id (debug_desc s k w) = None" "carried_id (app_desc a b None h) = None"
  by (simp_all add: carried_id_def plain_desc_def debug_desc_def app_desc_def searchOf_def windowIdOf_def)

lemma ids_welcome: "ids_ok m \<Longrightarrow> ids_ok (ensureWelcome b f x None m)"
  by (simp add: ensureWelcome_def ids_focus_or_spawn)

lemma ids_closed: "ids_ok m \<Longrightarrow> ids_ok (closed_event i m)"
proof -
  assume ok: "ids_ok m"
  then have "ids_ok (on_win i (\<lambda>w. w\<lparr>w_gone := True\<rparr>) m)" by (rule ids_on_win) simp
  from ids_fold_close [OF this] ids_welcome [OF ids_fold_close [OF this]] ok
  show ?thesis by (simp add: closed_event_def onWindowClosed_def Let_def)
qed

lemma ids_inner: "ids_ok m \<Longrightarrow> switching m = None \<Longrightarrow> ids_ok (openAppInner a b None m)"
  by (cases "appWindow m")
     (simp_all add: openAppInner_def spawn_app_def Let_def ids_spawn, simp_all add: ids_ok_def focus_def)

lemma ids_run: "ids_ok m \<Longrightarrow> ids_ok (run_waiting m)"
proof (induction m rule: run_waiting.induct)
  case (1 m)
  show ?case
  proof (cases "switching m = None \<and> waiting m \<noteq> []")
    case True
    then obtain a b u r where w: "waiting m = (a, b, u) # r" by (cases "waiting m") auto
    with 1(2) have "u = None" "ids_ok (m\<lparr>waiting := r\<rparr>)" by (simp_all add: ids_ok_def)
    with ids_inner [of "m\<lparr>waiting := r\<rparr>"] True w 1(1) show ?thesis by (subst run_waiting.simps) simp
  qed (use 1(2) in \<open>subst run_waiting.simps; auto split: list.split\<close>)
qed

lemma ids_drained:
  assumes "ids_ok m" shows "ids_ok (drained ok m)"
proof (cases "switching m")
  case (Some s)
  then have u: "s_url s = None" using assms by (simp add: ids_ok_def)
  have m1: "ids_ok (m\<lparr>switching := None\<rparr>)" using assms by (simp add: ids_ok_def)
  have "ids_ok (m'\<lparr>inSwitch := x\<rparr>) = ids_ok m'" for m' x by (simp add: ids_ok_def)
  moreover have "ids_ok ((case s_current s of None \<Rightarrow> id | Some i \<Rightarrow> focus i) (m\<lparr>switching := None, refusals := r, inSwitch := False\<rparr>))" for r
    using m1 by (simp add: ids_ok_def focus_def split: option.split)
  ultimately show ?thesis
    using Some u ids_fold_close [OF m1] ids_spawn [OF ids_fold_close [OF m1]] by (simp add: drained_def spawn_app_def Let_def ids_run)
qed (use assms in \<open>simp add: drained_def\<close>)

text \<open>An opening that brings no id of its own: no landing URL, no \<open>win\<close> parameter.\<close>

definition brings_no_id :: "window_event \<Rightarrow> bool" where
  "brings_no_id e = (case e of OpenApp a b u \<Rightarrow> u = None | OpenProjection q \<Rightarrow> map_of q ''win'' = None | _ \<Rightarrow> True)"

lemma opt_param_key: "k \<noteq> x \<Longrightarrow> map_of (opt_param k v) x = None"
  by (auto simp: opt_param_def split: option.splits if_splits)

lemma carried_none:
  "d_url d = None \<Longrightarrow> (case d_search d of None \<Rightarrow> True | Some q \<Rightarrow> map_of q ''win'' = None) \<Longrightarrow> carried_id d = None"
  by (simp add: carried_id_def searchOf_def windowIdOf_def split: option.splits)

lemma ids_profiler: "ids_ok m \<Longrightarrow> ids_ok (openProfiler i s b None m)"
  unfolding openProfiler_def Let_def
  by (rule ids_focus_or_spawn, assumption, rule carried_none)
     (simp_all add: plain_desc_def opt_param_key map_add_def)

lemma ids_viewer: "ids_ok m \<Longrightarrow> ids_ok (openViewer p b None m)"
  unfolding openViewer_def by (rule ids_focus_or_spawn, assumption, rule carried_none) (simp_all add: plain_desc_def)

lemma ids_projection: "ids_ok m \<Longrightarrow> map_of q ''win'' = None \<Longrightarrow> ids_ok (openProjection q b None m)"
  unfolding openProjection_def by (rule ids_spawn, assumption, rule carried_none) (simp_all add: plain_desc_def)

lemma ids_toggle: "ids_ok m \<Longrightarrow> ids_ok (toggleDebug s w k m)"
  using ids_fold_close [of m "[_]"] by (simp add: toggleDebug_def toggle_def ids_spawn split: option.split)

lemma ids_open: "ids_ok m \<Longrightarrow> ids_ok (openApp a b None m)"
  unfolding openApp_def by (rule ids_run) (simp add: ids_ok_def)

lemma ids_close_all: "ids_ok m \<Longrightarrow> ids_ok (closeAll m)"
  unfolding closeAll_def Let_def by (intro ids_fold_close)

lemma ids_singletons: "ids_ok m \<Longrightarrow> ids_ok (openConfig m)" "ids_ok m \<Longrightarrow> ids_ok (openTeleCanvas m)"
  "ids_ok m \<Longrightarrow> ids_ok (openDebug s w k m)"
  by (simp_all add: openConfig_def openTeleCanvas_def openDebug_def ids_focus_or_spawn)

lemma live_ids_step:
  assumes "ids_ok m" "brings_no_id e"
  shows "ids_ok (window_step m e)"
proof (cases e)
  case (OpenApp a b u)
  with assms show ?thesis by (simp add: brings_no_id_def ids_open)
next
  case (OpenProjection q)
  with assms show ?thesis by (simp add: brings_no_id_def ids_projection)
next
  case (AskClose i)
  with ids_fold_close [OF assms(1), of "[i]"] show ?thesis by simp
next
  case Quit
  with assms show ?thesis by (simp add: ids_ok_def)
qed (simp_all only: window_step.simps ids_welcome [OF assms(1)] ids_drained [OF assms(1)] ids_closed [OF assms(1)]
       ids_profiler [OF assms(1)] ids_viewer [OF assms(1)] ids_toggle [OF assms(1)] ids_singletons [OF assms(1)]
       ids_close_all [OF assms(1)])

interpretation window_ids: guarded_machine window_step ids_ok brings_no_id
  by unfold_locales (rule live_ids_step)

text \<open>
  Open windows have different ids: an id is minted past every id a live window has, so a window that
  reads its own identity from its URL never reads another window's, as long as no opening brings an id of
  its own (a restored URL does, and is believed).
\<close>

theorem live_ids_are_distinct:
  assumes "list_all brings_no_id es"
  shows "distinct (live_ids (after es))"
proof -
  have "ids_ok new_manager" by (simp add: ids_ok_def new_manager_def ids_def)
  from window_ids.run_inv [OF this assms] show ?thesis by (simp add: live_ids_eq ids_ok_def after_def)
qed

theorem live_ids_are_distinct_witness:
  "let es = [OpenWelcome, OpenProfiler None None, OpenApp ''playground'' None None, Drained True]
   in distinct (live_ids (after es)) \<and> live_ids (after es) = [''welcome-1'', ''profiler-2'', ''playground-3'']"
proof -
  let ?es = "[OpenWelcome, OpenProfiler None None, OpenApp ''playground'' None None, Drained True]"
  have "list_all brings_no_id ?es" by code_simp
  moreover have "live_ids (after ?es) = [''welcome-1'', ''profiler-2'', ''playground-3'']" by code_simp
  ultimately show ?thesis using live_ids_are_distinct [of ?es] by (simp add: Let_def)
qed

section \<open>The welcome rule\<close>

definition attended :: "manager \<Rightarrow> bool" where
  "attended m \<longleftrightarrow> (\<exists>i \<in> set (open_wins m). w_class (wins m ! i) \<in> {App, Welcome})"

lemma attended_nonempty: "byClass c m \<noteq> [] \<Longrightarrow> c \<in> {App, Welcome} \<Longrightarrow> attended m"
  by (auto simp: attended_def byClass_def filter_empty_conv)

lemma attended_spawn: "d_class d \<in> {App, Welcome} \<Longrightarrow> attended (spawn d m)"
  by (simp add: attended_def open_wins_def wins_spawn nth_append)

lemma attended_welcome: "attended (ensureWelcome b f x u m)"
proof (cases "byClass Welcome m = []")
  case True
  then show ?thesis by (simp add: ensureWelcome_def focus_or_spawn_def first_of_def attended_spawn plain_desc_def)
next
  case False
  then obtain i where "first_of (byClass Welcome m) = Some i" by fastforce
  moreover have "attended m" using attended_nonempty [OF False] by simp
  ultimately show ?thesis by (simp add: ensureWelcome_def focus_or_spawn_def focus_def attended_def open_wins_def)
qed

text \<open>
  When an app window closes, and neither a switch nor a quit is under way, an app or a welcome window is
  open afterwards: the welcome window comes back unless another app window is there.
\<close>

theorem closing_an_app_brings_welcome:
  assumes "i \<in> set (open_wins m)" "w_class (wins m ! i) = App" "\<not> inSwitch m" "\<not> quitting m"
  shows "attended (closed_event i m)"
proof -
  have i: "i < length (wins m)" "\<not> w_gone (wins m ! i)" using nth_open [OF assms(1)] by simp_all
  let ?m2 = "fold ask_close (filter (\<lambda>j. sp_onOwnerClose (WINDOWS (w_class (wins (on_win i (\<lambda>w. w\<lparr>w_gone := True\<rparr>) m) ! j))) = Cascade)
      (childrenOf i (on_win i (\<lambda>w. w\<lparr>w_gone := True\<rparr>) m))) (on_win i (\<lambda>w. w\<lparr>w_gone := True\<rparr>) m)"
  have "\<not> quitting ?m2" "\<not> inSwitch ?m2" using assms by (simp_all add: on_win_def)
  then show ?thesis
    using i assms(2) attended_welcome attended_nonempty [of App ?m2]
    by (auto simp: closed_event_def onWindowClosed_def Let_def appWindow_def)
qed

theorem closing_an_app_brings_welcome_witness:
  "let m = after [OpenApp ''playground'' None None] in attended (closed_event 0 m) \<and> open_wins (closed_event 0 m) = [1]"
proof -
  let ?m = "after [OpenApp ''playground'' None None]"
  have "0 \<in> set (open_wins ?m)" "w_class (wins ?m ! 0) = App" "\<not> inSwitch ?m" "\<not> quitting ?m" by code_simp+
  moreover have "open_wins (closed_event 0 ?m) = [1]" by code_simp
  ultimately show ?thesis using closing_an_app_brings_welcome [of 0 ?m] by (simp add: Let_def)
qed

text \<open>
  If the app window closes while a switch away from it awaits its drain and the drain is refused, nothing
  is left: the welcome rule was off during the switch, and the refusal does not apply it again.
\<close>

theorem refused_switch_leaves_no_window:
  assumes "open_wins m = [i]" "w_class (wins m ! i) = App" "w_owner (wins m ! i) \<noteq> Some i"
    "switching m = Some s" "inSwitch m" "waiting m = []"
  shows "open_wins (drained False (closed_event i m)) = []"
proof -
  let ?m1 = "on_win i (\<lambda>w. w\<lparr>w_gone := True\<rparr>) m"
  have i: "i < length (wins m)" "\<not> w_gone (wins m ! i)" using nth_open [of i m] assms(1) by simp_all
  have "\<And>j. j < length (wins m) \<Longrightarrow> \<not> w_gone (wins m ! j) \<Longrightarrow> j = i"
    using arg_cong [OF assms(1), of set] by (auto simp: open_wins_def)
  then have "w_gone ((wins m)[i := (wins m ! i)\<lparr>w_gone := True\<rparr>] ! j)" if "j < length (wins m)" for j
    using that by (cases "j = i") auto
  then have none: "open_wins ?m1 = []" by (simp add: open_wins_def on_win_def filter_empty_conv)
  then have "closed_event i m = ?m1"
    using i assms by (simp add: closed_event_def onWindowClosed_def Let_def childrenOf_def on_win_def)
  then show ?thesis
    using none assms by (simp add: drained_def Let_def on_win_def open_wins_def focus_def run_waiting.simps split: option.split)
qed

theorem refused_switch_leaves_no_window_witness:
  "open_wins (drained False (closed_event 0 (after [OpenApp ''multi-fovea'' None None, OpenApp ''playground'' None None]))) = []"
proof -
  let ?m = "after [OpenApp ''multi-fovea'' None None, OpenApp ''playground'' None None]"
  obtain s where "switching ?m = Some s"
    by (cases "switching ?m") (auto simp: after_def, code_simp)
  moreover have "open_wins ?m = [0]" "w_class (wins ?m ! 0) = App" "w_owner (wins ?m ! 0) \<noteq> Some 0" "inSwitch ?m" "waiting ?m = []"
    by code_simp+
  ultimately show ?thesis using refused_switch_leaves_no_window [of ?m 0] by blast
qed

text \<open>
  A window that was asked to close still answers for its app until it is gone: opening its app again only
  focuses it, and opening the app that just replaced it starts another switch, which closes the new window too.
\<close>

theorem closing_app_still_answers:
  assumes "open_wins m = [i, j]" "w_class (wins m ! i) = App" "w_class (wins m ! j) = App"
    "w_appId (wins m ! i) = Some a" "w_appId (wins m ! j) = Some b" "a \<noteq> b" "switching m = None" "waiting m = []"
  shows "openApp a x u m = focus i m
    \<and> (\<exists>s. switching (openApp b x u m) = Some s \<and> s_app s = b \<and> set (s_holders s) = {i, j})"
  using assms by (simp_all add: openApp_def run_waiting.simps openAppInner_def appWindow_def byClass_def first_of_def
      open_wins_def focus_def Let_def)

section \<open>The restore plan\<close>

definition classes :: "manifest_window list \<Rightarrow> window_class option set" where
  "classes ws = m_class ` set ws"

text \<open>A class of which a layout has one window at most, and a window a plan may hold.\<close>

definition once :: "manifest_window \<Rightarrow> bool" where
  "once w = (case m_class w of None \<Rightarrow> False | Some c \<Rightarrow> sp_exclusive (WINDOWS c) \<or> sp_singleton (WINDOWS c))"

definition admissible :: "manifest_window \<Rightarrow> bool" where
  "admissible w = (case m_class w of None \<Rightarrow> False
     | Some c \<Rightarrow> sp_onOwnerClose (WINDOWS c) \<noteq> Cascade
         \<and> (c = App \<longrightarrow> (case m_appId w of None \<Rightarrow> False | Some a \<Rightarrow> a \<in> set APP_IDS)))"

definition legal :: "manifest_window list \<Rightarrow> bool" where
  "legal ws \<longleftrightarrow> list_all admissible ws \<and> distinct (map m_class (filter once ws))"

definition plan_ok :: "plan_state \<Rightarrow> bool" where
  "plan_ok s \<longleftrightarrow> legal (plan s) \<and> haveExclusive s = (Some App \<in> classes (plan s))
     \<and> suppressWelcome s = (Some App \<in> classes (plan s)) \<and> haveWelcome s = (Some Welcome \<in> classes (plan s))
     \<and> (\<forall>c. c \<in> set (seenSingleton s) \<longleftrightarrow> sp_singleton (WINDOWS c) \<and> Some c \<in> classes (plan s))"

lemma WINDOWS_cases:
  "sp_exclusive (WINDOWS c) \<longleftrightarrow> c = App" "sp_countsForWelcome (WINDOWS c) \<longleftrightarrow> c = App"
  "sp_onOwnerClose (WINDOWS c) = Cascade \<longleftrightarrow> c = Debug" "sp_singleton (WINDOWS c) \<longleftrightarrow> c \<in> {Welcome, Config, TeleCanvas}"
  by (cases c; simp)+

lemma legal_snoc:
  "legal (ws @ [w]) \<longleftrightarrow> legal ws \<and> admissible w \<and> (once w \<longrightarrow> m_class w \<notin> classes ws)"
proof -
  have "m_class w \<in> m_class ` set (filter once ws) \<longleftrightarrow> m_class w \<in> classes ws" if "once w"
    using that by (auto simp: classes_def once_def image_iff)
  then show ?thesis by (auto simp: legal_def)
qed

lemma plan_one_step:
  "plan_ok s \<Longrightarrow> plan_one w s = (case m_class w of None \<Rightarrow> s
     | Some c \<Rightarrow> if legal (plan s @ [w])
         then plan_add w c (if c = App then s\<lparr>haveExclusive := True\<rparr>
                 else if sp_singleton (WINDOWS c) then s\<lparr>seenSingleton := c # seenSingleton s\<rparr> else s)
         else s)"
  by (auto simp: plan_one_def legal_snoc plan_ok_def admissible_def once_def WINDOWS_cases split: option.split)

lemma plan_one_ok:
  assumes "plan_ok s" shows "plan_ok (plan_one w s)"
proof (cases "m_class w")
  case (Some c)
  have "classes (plan s @ [w]) = insert (Some c) (classes (plan s))" using Some by (auto simp: classes_def)
  with assms Some show ?thesis
    by (cases "legal (plan s @ [w])") (auto simp: plan_one_step plan_add_def plan_ok_def WINDOWS_cases)
qed (use assms in \<open>simp add: plan_one_def\<close>)

lemma plan_one_plan:
  "plan_ok s \<Longrightarrow> plan (plan_one w s) = (if legal (plan s @ [w]) then plan s @ [w] else plan s)"
  by (cases "m_class w") (auto simp: plan_one_step plan_add_def legal_snoc admissible_def)

definition plan_start :: plan_state where
  "plan_start = \<lparr>plan = [], seenSingleton = [], haveExclusive = False, haveWelcome = False, suppressWelcome = False\<rparr>"

lemma plan_start_ok: "plan_ok plan_start"
  by (simp add: plan_ok_def plan_start_def legal_def classes_def)

lemma plan_fold_ok: "plan_ok s \<Longrightarrow> plan_ok (fold plan_one ws s)"
  by (induction ws arbitrary: s) (simp_all add: plan_one_ok)

lemma legal_append: "legal (ws @ vs) \<Longrightarrow> legal ws"
  by (simp add: legal_def)

lemma plan_fold_legal: "plan_ok s \<Longrightarrow> legal (plan s @ ws) \<Longrightarrow> plan (fold plan_one ws s) = plan s @ ws"
proof (induction ws arbitrary: s)
  case (Cons w ws)
  have "legal (plan s @ [w])" using legal_append [of "plan s @ [w]" ws] Cons.prems(2) by simp
  with Cons.prems Cons.IH [of "plan_one w s"] show ?case by (simp add: plan_one_ok plan_one_plan)
qed simp

lemma legal_filter:
  assumes "legal ws" shows "legal (filter P ws)"
proof -
  have "filter once (filter P ws) = filter P (filter once ws)" by (simp add: conj_commute)
  moreover have "distinct (map m_class (filter P (filter once ws)))"
    by (rule distinct_map_filter) (use assms in \<open>simp add: legal_def\<close>)
  ultimately show ?thesis using assms by (auto simp: legal_def list_all_iff simp del: filter_filter)
qed

lemma classes_iff: "c \<in> classes ws \<longleftrightarrow> (\<exists>w \<in> set ws. m_class w = c)"
  by (auto simp: classes_def)

lemma legal_welcome: "legal ws \<Longrightarrow> Some Welcome \<notin> classes ws \<Longrightarrow> legal (bare_welcome # ws)"
  by (auto simp: legal_def bare_welcome_def admissible_def once_def classes_def)

definition planned :: "manifest_window list \<Rightarrow> manifest_window list" where
  "planned ws = plan (fold plan_one ws plan_start)"

lemma planFromManifest_eq:
  "planFromManifest ws = (if Some App \<in> classes (planned ws) then filter (\<lambda>w. m_class w \<noteq> Some Welcome) (planned ws)
     else if Some Welcome \<notin> classes (planned ws) then bare_welcome # planned ws else planned ws)"
  using plan_fold_ok [OF plan_start_ok, of ws]
  by (simp add: planFromManifest_def planned_def plan_ok_def plan_start_def [symmetric] Let_def)

lemma planned_legal: "legal (planned ws)" "legal ws \<Longrightarrow> planned ws = ws"
  using plan_fold_ok [OF plan_start_ok, of ws] plan_fold_legal [OF plan_start_ok, of ws]
  by (simp_all add: planned_def plan_ok_def plan_start_def)

lemma plan_legal: "legal (planFromManifest ws)"
  using planned_legal(1) [of ws] by (simp add: planFromManifest_eq legal_filter legal_welcome)

lemma plan_welcome: "Some Welcome \<in> classes (planFromManifest ws) \<longleftrightarrow> Some App \<notin> classes (planFromManifest ws)"
  by (force simp: planFromManifest_eq classes_iff bare_welcome_def)

text \<open>
  Whatever manifest was on disk, hand edits and stale entries included, the restore plan is a layout the
  manager could have produced: at most one app window, with a known id, each singleton once, no window that
  needs an owner, and a welcome window exactly if there is no app. Planning a plan changes nothing.
\<close>

theorem restore_plan_is_a_legal_layout:
  "legal (planFromManifest ws)
     \<and> (Some Welcome \<in> classes (planFromManifest ws) \<longleftrightarrow> Some App \<notin> classes (planFromManifest ws))
     \<and> planFromManifest (planFromManifest ws) = planFromManifest ws"
proof -
  define p where "p = planFromManifest ws"
  have "planned p = p" unfolding p_def by (rule planned_legal(2) [OF plan_legal])
  moreover have "filter (\<lambda>w. m_class w \<noteq> Some Welcome) p = p" if "Some Welcome \<notin> classes p"
    using that by (auto simp: classes_iff filter_id_conv)
  ultimately have "planFromManifest (planFromManifest ws) = planFromManifest ws"
    unfolding p_def [symmetric] using plan_welcome [of ws, folded p_def] by (simp add: planFromManifest_eq [of p])
  then show ?thesis by (simp add: plan_legal plan_welcome)
qed

section \<open>What a restart loses\<close>

definition count_class :: "window_class \<Rightarrow> manager \<Rightarrow> nat" where
  "count_class c m = length (byClass c m)"

lemma count_spawn: "count_class c (spawn d m) = count_class c m + (if d_class d = c then 1 else 0)"
proof -
  have "filter (\<lambda>i. w_class ((wins m @ [spawned d m]) ! i) = c) (filter (\<lambda>i. \<not> w_gone ((wins m @ [spawned d m]) ! i)) [0..<length (wins m)])
      = byClass c m"
    unfolding byClass_def open_wins_def filter_filter by (rule filter_cong) (auto simp: nth_append)
  then show ?thesis by (simp add: count_class_def byClass_def [of c "spawn d m"] open_wins_def [of "spawn d m"] wins_spawn nth_append)
qed

lemma count_focus: "count_class c (focus i m) = count_class c m"
  by (simp add: count_class_def byClass_def open_wins_def focus_def)

lemma count_focus_or_spawn: "d_class d \<noteq> c \<Longrightarrow> count_class c (focus_or_spawn is d m) = count_class c m"
  by (simp add: focus_or_spawn_def count_spawn count_focus split: option.split)

lemma count_frame [simp]:
  "count_class c (m\<lparr>waiting := w\<rparr>) = count_class c m" "count_class c (m\<lparr>inSwitch := x\<rparr>) = count_class c m"
  "count_class c (m\<lparr>switching := s\<rparr>) = count_class c m"
  by (simp_all add: count_class_def byClass_def open_wins_def)

lemma count_inner: "c \<noteq> App \<Longrightarrow> count_class c (openAppInner a b u m) = count_class c m"
  by (auto simp: openAppInner_def spawn_app_def count_spawn count_focus Let_def split: option.split)

lemma count_run: "c \<noteq> App \<Longrightarrow> count_class c (run_waiting m) = count_class c m"
  by (induction m rule: run_waiting.induct) (subst run_waiting.simps; auto simp: count_inner split: list.split)

lemma count_others:
  "c \<noteq> Welcome \<Longrightarrow> count_class c (ensureWelcome b f x u m) = count_class c m"
  "c \<noteq> Profiler \<Longrightarrow> count_class c (openProfiler i s b u m) = count_class c m"
  "c \<noteq> Viewer \<Longrightarrow> count_class c (openViewer p b u m) = count_class c m"
  "c \<noteq> App \<Longrightarrow> count_class c (openApp a b u m) = count_class c m"
  by (simp_all add: ensureWelcome_def openProfiler_def openViewer_def openApp_def count_run count_focus_or_spawn plain_desc_def Let_def)

lemma count_restore_one:
  assumes "c \<in> {Config, TeleCanvas}"
  shows "count_class c (restore_one w m) = count_class c m"
proof (cases "m_class w")
  case (Some k)
  with assms show ?thesis
    by (cases k) (auto simp: restore_one_def count_others count_spawn plain_desc_def split: option.split)
qed (simp add: restore_one_def)

text \<open>
  A plan keeps the settings window and the TeleCanvas window of the layout it was made from, but restoring
  the plan opens neither: \<open>restore\<close> has no case for them.
\<close>

theorem restore_skips_settings_windows:
  assumes "c \<in> {Config, TeleCanvas}" "Some c \<in> classes ws"
  shows "Some c \<in> classes (planFromManifest ws) \<and> count_class c (restore (planFromManifest ws) new_manager) = 0"
proof -
  have "Some c \<in> classes (plan (fold plan_one vs s))" if "plan_ok s" "Some c \<in> classes (plan s) \<or> Some c \<in> classes vs" for vs s
    using that
  proof (induction vs arbitrary: s)
    case (Cons v vs)
    have "Some c \<in> classes (plan (plan_one v s)) \<or> Some c \<in> classes vs"
      using Cons.prems assms(1) by (auto simp: plan_one_plan legal_snoc admissible_def classes_iff plan_ok_def)
    with Cons.IH [OF plan_one_ok [OF Cons.prems(1)]] show ?case by simp
  qed (simp add: classes_def)
  from this [OF plan_start_ok] assms have "Some c \<in> classes (planned ws)" by (simp add: planned_def)
  with assms(1) have "Some c \<in> classes (planFromManifest ws)" by (auto simp: planFromManifest_eq classes_iff)
  moreover have "count_class c (fold restore_one vs m) = count_class c m" for vs m
    using assms(1) by (induction vs arbitrary: m) (auto simp: count_restore_one)
  ultimately show ?thesis by (simp add: restore_def count_class_def byClass_def open_wins_def new_manager_def)
qed

theorem restore_skips_settings_windows_witness:
  "let ws = collectManifest (after [OpenWelcome, OpenConfig]) in Some Config \<in> classes ws
     \<and> count_class Config (restore (planFromManifest ws) new_manager) = 0"
proof -
  let ?ws = "collectManifest (after [OpenWelcome, OpenConfig])"
  have "Some Config \<in> classes ?ws" by code_simp
  with restore_skips_settings_windows [of Config ?ws] show ?thesis by (simp add: Let_def)
qed

theorem closing_app_still_answers_witness:
  "let m = after [OpenApp ''multi-fovea'' None None, OpenApp ''playground'' None None, Drained True]
   in openApp ''multi-fovea'' None None m = focus 0 m
     \<and> (\<exists>s. switching (openApp ''playground'' None None m) = Some s \<and> s_app s = ''playground'' \<and> set (s_holders s) = {0, 1})"
proof -
  let ?m = "after [OpenApp ''multi-fovea'' None None, OpenApp ''playground'' None None, Drained True]"
  have "open_wins ?m = [0, 1]" "w_class (wins ?m ! 0) = App" "w_class (wins ?m ! 1) = App"
    "w_appId (wins ?m ! 0) = Some ''multi-fovea''" "w_appId (wins ?m ! 1) = Some ''playground''" "waiting ?m = []"
    by code_simp+
  moreover have "switching ?m = None" by (simp add: after_def, code_simp)
  ultimately show ?thesis
    using closing_app_still_answers [of ?m 0 1 "''multi-fovea''" "''playground''" None None] by (simp add: Let_def)
qed

end
