(* ===== verification/Metering.thy ===== *)
theory Metering
  imports Prelude
begin

text \<open>
  The workload meters of the orchestrator (\<open>app/orchestrator/metering.ts\<close>, the snapshot types of
  \<open>app/lib/orchestrator/stats.ts\<close>). Clock readings are the integer milliseconds of \<open>Date.now()\<close> and come
  with each call. A handle is the index of its state in the list of states ever registered. The lemmas show
  what the ring of ten bins reports (the largest gap that ended in the last ten seconds of the grid), that a
  disposed meter never changes, that counters are sums, and that busy time fits into uptime.
\<close>

section \<open>The interval ring\<close>

definition BIN_MS :: int where "BIN_MS = 1000"

definition BIN_COUNT :: nat where "BIN_COUNT = 10"

record ring =
  bins :: "int list"
  binStart :: int
  cursor :: nat
  lastEventTs :: "int option"

definition newRing :: "int \<Rightarrow> ring" where
  "newRing now = \<lparr>bins = replicate BIN_COUNT 0, binStart = now, cursor = 0, lastEventTs = None\<rparr>"

fun clear_bins :: "nat \<Rightarrow> ring \<Rightarrow> ring" where
  "clear_bins 0 r = r"
| "clear_bins (Suc n) r = clear_bins n (let c = Suc (cursor r) mod BIN_COUNT in r\<lparr>cursor := c, bins := (bins r)[c := 0]\<rparr>)"

definition rotate_ring :: "int \<Rightarrow> ring \<Rightarrow> ring" where
  "rotate_ring now r = (let steps = (now - binStart r) div BIN_MS
     in if steps \<le> 0 then r
        else let r1 = clear_bins (min (nat steps) BIN_COUNT) r in r1\<lparr>binStart := binStart r1 + steps * BIN_MS\<rparr>)"

definition recordEvent :: "int \<Rightarrow> ring \<Rightarrow> ring" where
  "recordEvent now r = (let r1 = rotate_ring now r;
       r2 = (case lastEventTs r1 of
           Some t \<Rightarrow> if bins r1 ! cursor r1 < now - t then r1\<lparr>bins := (bins r1)[cursor r1 := now - t]\<rparr> else r1
         | None \<Rightarrow> r1)
     in r2\<lparr>lastEventTs := Some now\<rparr>)"

text \<open>The reported maximum; the read leaves the ring rotated.\<close>

definition ringMax :: "int \<Rightarrow> ring \<Rightarrow> int" where
  "ringMax now r = (let r1 = rotate_ring now r
     in max (fold max (bins r1) 0) (case lastEventTs r1 of Some t \<Rightarrow> now - t | None \<Rightarrow> 0))"

fun use_ring :: "bool \<times> int \<Rightarrow> ring \<Rightarrow> ring" where
  "use_ring (True, t) r = recordEvent t r"
| "use_ring (False, t) r = rotate_ring t r"

section \<open>Workloads\<close>

record workload =
  w_name :: string
  createdAtMs :: int
  busyMs :: int
  openSpanAt :: "int option"
  inputs :: "int table"
  outputs :: "int table"
  inputIntervals :: "ring table"
  outputIntervals :: "ring table"
  drops :: "int table"
  w_disposed :: bool

definition new_workload :: "string \<Rightarrow> string list \<Rightarrow> string list \<Rightarrow> int \<Rightarrow> workload" where
  "new_workload name ins outs now = \<lparr>w_name = name, createdAtMs = now, busyMs = 0, openSpanAt = None,
     inputs = assign_all [] (map (\<lambda>k. (k, 0)) ins), outputs = assign_all [] (map (\<lambda>k. (k, 0)) outs),
     inputIntervals = assign_all [] (map (\<lambda>k. (k, newRing now)) ins),
     outputIntervals = assign_all [] (map (\<lambda>k. (k, newRing now)) outs), drops = [], w_disposed = False\<rparr>"

definition add_count :: "string \<Rightarrow> int \<Rightarrow> int table \<Rightarrow> int table" where
  "add_count k n t = AList.update k ((case map_of t k of Some v \<Rightarrow> v | None \<Rightarrow> 0) + n) t"

definition tick_ring :: "int \<Rightarrow> string \<Rightarrow> ring table \<Rightarrow> ring table" where
  "tick_ring now k rs = AList.update k (recordEvent now (case map_of rs k of Some r \<Rightarrow> r | None \<Rightarrow> newRing now)) rs"

definition ingest :: "int \<Rightarrow> string \<Rightarrow> int \<Rightarrow> workload \<Rightarrow> workload" where
  "ingest now k n w = (if w_disposed w then w
     else w\<lparr>inputs := add_count k n (inputs w), inputIntervals := tick_ring now k (inputIntervals w)\<rparr>)"

definition emit_out :: "int \<Rightarrow> string \<Rightarrow> int \<Rightarrow> workload \<Rightarrow> workload" where
  "emit_out now k n w = (if w_disposed w then w
     else w\<lparr>outputs := add_count k n (outputs w), outputIntervals := tick_ring now k (outputIntervals w)\<rparr>)"

definition drop_units :: "string \<Rightarrow> int \<Rightarrow> workload \<Rightarrow> workload" where
  "drop_units reason n w = (if w_disposed w then w else w\<lparr>drops := add_count reason n (drops w)\<rparr>)"

definition begin_span :: "int \<Rightarrow> workload \<Rightarrow> workload" where
  "begin_span now w = (if w_disposed w \<or> openSpanAt w \<noteq> None then w else w\<lparr>openSpanAt := Some now\<rparr>)"

definition end_span :: "int \<Rightarrow> workload \<Rightarrow> workload" where
  "end_span now w = (case openSpanAt w of None \<Rightarrow> w
     | Some t \<Rightarrow> w\<lparr>busyMs := busyMs w + max 0 (now - t), openSpanAt := None\<rparr>)"

definition close_books :: "int \<Rightarrow> workload \<Rightarrow> workload" where
  "close_books now w = (if w_disposed w then w else (end_span now w)\<lparr>w_disposed := True\<rparr>)"

text \<open>\<open>measure\<close>: the span around a call that returns (or throws) at \<open>t1\<close>; if it returned a promise, the span
  ends when that settles.\<close>

datatype measured = Sync int | Async

definition measure_call :: "int \<Rightarrow> measured \<Rightarrow> workload \<Rightarrow> workload" where
  "measure_call t0 m w = (case m of Sync t1 \<Rightarrow> end_span t1 (begin_span t0 w) | Async \<Rightarrow> begin_span t0 w)"

section \<open>The registry\<close>

record meters =
  states :: "workload list"
  live :: "nat table"

definition no_meters :: meters where
  "no_meters = \<lparr>states = [], live = []\<rparr>"

definition registerWorkload :: "int \<Rightarrow> string \<Rightarrow> string list \<Rightarrow> string list \<Rightarrow> meters \<Rightarrow> meters" where
  "registerWorkload now name ins outs s = s\<lparr>states := states s @ [new_workload name ins outs now],
     live := AList.update name (length (states s)) (live s)\<rparr>"

definition on_handle :: "nat \<Rightarrow> (workload \<Rightarrow> workload) \<Rightarrow> meters \<Rightarrow> meters" where
  "on_handle h f s = s\<lparr>states := (states s)[h := f (states s ! h)]\<rparr>"

text \<open>\<open>dispose\<close>: a name registered again meanwhile keeps its newer state.\<close>

definition dispose_meter :: "int \<Rightarrow> nat \<Rightarrow> meters \<Rightarrow> meters" where
  "dispose_meter now h s = (if length (states s) \<le> h \<or> w_disposed (states s ! h) then s
     else let name = w_name (states s ! h); s1 = on_handle h (close_books now) s
       in if map_of (live s1) name = Some h then s1\<lparr>live := AList.delete name (live s1)\<rparr> else s1)"

section \<open>Snapshots\<close>

record stream_stat =
  st_count :: int
  st_rate :: real
  st_maxInterval :: int

record snapshot =
  sn_name :: string
  sn_uptime :: int
  sn_utilization :: real
  sn_busy :: int
  sn_inputs :: "stream_stat table"
  sn_outputs :: "stream_stat table"
  sn_dropTotal :: int
  sn_dropRate :: real
  sn_byReason :: "int table"

definition uptime :: "int \<Rightarrow> int \<Rightarrow> int" where
  "uptime started now = max 1 (now - started)"

definition ratePerSec :: "int \<Rightarrow> int \<Rightarrow> real" where
  "ratePerSec n up = of_int n / (of_int up / 1000)"

definition counterSnapshot :: "int \<Rightarrow> int \<Rightarrow> int table \<Rightarrow> ring table \<Rightarrow> stream_stat table" where
  "counterSnapshot now up t rs = map (\<lambda>(k, v). (k, \<lparr>st_count = v, st_rate = ratePerSec v up,
     st_maxInterval = (case map_of rs k of Some r \<Rightarrow> ringMax now r | None \<Rightarrow> 0)\<rparr>)) t"

definition liveBusyMs :: "int \<Rightarrow> workload \<Rightarrow> int" where
  "liveBusyMs now w = busyMs w + (case openSpanAt w of Some t \<Rightarrow> max 0 (now - t) | None \<Rightarrow> 0)"

definition snapshotOf :: "int \<Rightarrow> workload \<Rightarrow> snapshot" where
  "snapshotOf now w = (let up = uptime (createdAtMs w) now; b = liveBusyMs now w; total = sum_list (map snd (drops w))
     in \<lparr>sn_name = w_name w, sn_uptime = up, sn_utilization = min 1 (of_int b / of_int up), sn_busy = b,
        sn_inputs = counterSnapshot now up (inputs w) (inputIntervals w),
        sn_outputs = counterSnapshot now up (outputs w) (outputIntervals w),
        sn_dropTotal = total, sn_dropRate = ratePerSec total up, sn_byReason = drops w\<rparr>)"

definition workloadSnapshot :: "string \<Rightarrow> int \<Rightarrow> meters \<Rightarrow> snapshot option" where
  "workloadSnapshot name now s = map_option (\<lambda>h. snapshotOf now (states s ! h)) (map_of (live s) name)"

definition workloadsSnapshot :: "int \<Rightarrow> meters \<Rightarrow> snapshot table" where
  "workloadsSnapshot now s = map (\<lambda>(name, h). (w_name (states s ! h), snapshotOf now (states s ! h))) (live s)"

datatype meter_event =
    Register int string "string list" "string list" | Ingest int nat string int | Emit int nat string int
  | Drop nat string int | Begin int nat | End int nat | Measure nat int measured | Dispose int nat

fun meter_step :: "meters \<Rightarrow> meter_event \<Rightarrow> meters" where
  "meter_step s (Register now name ins outs) = registerWorkload now name ins outs s"
| "meter_step s (Ingest now h k n) = on_handle h (ingest now k n) s"
| "meter_step s (Emit now h k n) = on_handle h (emit_out now k n) s"
| "meter_step s (Drop h r n) = on_handle h (drop_units r n) s"
| "meter_step s (Begin now h) = on_handle h (begin_span now) s"
| "meter_step s (End now h) = on_handle h (end_span now) s"
| "meter_step s (Measure h t m) = on_handle h (measure_call t m) s"
| "meter_step s (Dispose now h) = dispose_meter now h s"

section \<open>A disposed meter\<close>

definition shut :: "workload \<Rightarrow> bool" where
  "shut w \<longleftrightarrow> w_disposed w \<and> openSpanAt w = None"

lemma shut_inert:
  assumes "shut w"
  shows "ingest now k n w = w" "emit_out now k n w = w" "drop_units k n w = w" "begin_span now w = w" "end_span now w = w"
    "measure_call now m w = w" "close_books now w = w"
  using assms by (auto simp: shut_def ingest_def emit_out_def drop_units_def begin_span_def end_span_def measure_call_def
      close_books_def split: measured.split)

lemma close_books_shut: "shut (close_books now w) \<or> w_disposed w"
  by (auto simp: shut_def close_books_def end_span_def split: option.split)

definition shut_as :: "nat \<Rightarrow> workload \<Rightarrow> meters \<Rightarrow> bool" where
  "shut_as h w s \<longleftrightarrow> h < length (states s) \<and> states s ! h = w \<and> shut w"

lemma shut_on_handle: "shut_as h w s \<Longrightarrow> f w = w \<Longrightarrow> shut_as h w (on_handle j f s)"
  by (cases "h = j") (auto simp: shut_as_def on_handle_def)

lemma shut_as_shut: "shut_as h w s \<Longrightarrow> shut w"
  by (simp add: shut_as_def)

lemma shut_step: "shut_as h w s \<Longrightarrow> shut_as h w (meter_step s e)"
proof (cases e)
  case (Register now name ins outs)
  then show "shut_as h w s \<Longrightarrow> ?thesis" by (auto simp: shut_as_def registerWorkload_def nth_append)
next
  case (Dispose now j)
  assume w: "shut_as h w s"
  from shut_on_handle [OF this, of "close_books now" j] w Dispose show ?thesis
    by (auto simp: dispose_meter_def Let_def shut_inert shut_as_shut) (auto simp: shut_as_def)
qed (auto intro!: shut_on_handle simp: shut_inert shut_as_shut)

interpretation closed_meter: machine meter_step "shut_as h w" for h w
  by unfold_locales (rule shut_step)

text \<open>
  Meters observe, they never gate: once a handle is disposed no call on it, in any order and mixed with
  calls on other handles and registrations under its name, changes its state, and its books are closed.
\<close>

theorem disposed_meter_is_inert:
  assumes "h < length (states s)" "shut (states s ! h) \<or> \<not> w_disposed (states s ! h)"
  shows "states (run meter_step (dispose_meter now h s) es) ! h = states (dispose_meter now h s) ! h
    \<and> shut (states (dispose_meter now h s) ! h)"
proof -
  have "shut (states (dispose_meter now h s) ! h)" "h < length (states (dispose_meter now h s))"
    using assms by (auto simp: dispose_meter_def on_handle_def shut_def close_books_def end_span_def Let_def split: option.split)
  then have "shut_as h (states (dispose_meter now h s) ! h) (dispose_meter now h s)" by (simp add: shut_as_def)
  from closed_meter.run_inv [OF this] show ?thesis by (simp add: shut_as_def)
qed

theorem disposed_meter_is_inert_witness:
  "let s = run meter_step no_meters [Register 0 ''a'' [''in''] [], Begin 5 0]
   in busyMs (states (run meter_step (dispose_meter 9 0 s) [Ingest 12 0 ''in'' 3, Register 13 ''a'' [] [], Begin 14 0, End 20 0]) ! 0) = 4"
proof -
  let ?s = "run meter_step no_meters [Register 0 ''a'' [''in''] [], Begin 5 0]"
  have "0 < length (states ?s)" "\<not> w_disposed (states ?s ! 0)" "busyMs (states (dispose_meter 9 0 ?s) ! 0) = 4"
    by code_simp+
  with disposed_meter_is_inert [of 0 ?s 9 "[Ingest 12 0 ''in'' 3, Register 13 ''a'' [] [], Begin 14 0, End 20 0]"]
  show ?thesis by (simp add: Let_def)
qed

section \<open>What the ring reports\<close>

text \<open>The gaps between consecutive events, each with the time it ended, and the largest of some.\<close>

definition gaps :: "int list \<Rightarrow> (int \<times> int) list" where
  "gaps ts = zip (tl ts) (map2 (-) (tl ts) ts)"

definition largest :: "int list \<Rightarrow> int" where
  "largest gs = fold max gs 0"

definition bin_of :: "int \<Rightarrow> int \<Rightarrow> int" where
  "bin_of s0 t = (t - s0) div BIN_MS"

lemma largest_le: "largest gs \<le> m \<longleftrightarrow> 0 \<le> m \<and> (\<forall>g \<in> set gs. g \<le> m)"
proof -
  have "fold max gs a \<le> m \<longleftrightarrow> a \<le> m \<and> (\<forall>g \<in> set gs. g \<le> m)" for a
    by (induction gs arbitrary: a) auto
  then show ?thesis by (simp add: largest_def)
qed

lemma gaps_snoc: "ts \<noteq> [] \<Longrightarrow> gaps (ts @ [t]) = gaps ts @ [(t, t - last ts)]"
proof (induction ts)
  case (Cons a ts)
  then show ?case by (cases ts) (auto simp: gaps_def)
qed simp

text \<open>The gap of each age, newest bin first.\<close>

definition age :: "ring \<Rightarrow> nat \<Rightarrow> int" where
  "age r j = bins r ! ((cursor r + BIN_COUNT - j) mod BIN_COUNT)"

definition ring_shape :: "ring \<Rightarrow> bool" where
  "ring_shape r \<longleftrightarrow> length (bins r) = BIN_COUNT \<and> cursor r < BIN_COUNT"

definition in_bin :: "int \<Rightarrow> int list \<Rightarrow> int \<Rightarrow> int" where
  "in_bin s0 ts k = largest (map snd (filter (\<lambda>(t, g). bin_of s0 t = k) (gaps ts)))"

text \<open>The ring after the events \<open>ts\<close> when it stands at bin \<open>c\<close>.\<close>

definition holds_gaps :: "int \<Rightarrow> int list \<Rightarrow> int \<Rightarrow> ring \<Rightarrow> bool" where
  "holds_gaps s0 ts c r \<longleftrightarrow> ring_shape r \<and> binStart r = s0 + c * BIN_MS \<and> (\<forall>t \<in> set ts. bin_of s0 t \<le> c)
     \<and> lastEventTs r = (if ts = [] then None else Some (last ts)) \<and> (\<forall>j < BIN_COUNT. age r j = in_bin s0 ts (c - int j))"

lemma gaps_times: "(t, g) \<in> set (gaps ts) \<Longrightarrow> t \<in> set ts"
  by (cases ts) (auto simp: gaps_def dest: set_zip_leftD)

lemma largest_snoc: "largest (gs @ [g]) = max g (largest gs)"
  by (simp add: largest_def)

lemma largest_nonneg: "0 \<le> largest gs"
  using largest_le [of gs "largest gs"] by simp

lemma in_bin_none:
  assumes "\<forall>t \<in> set ts. bin_of s0 t < k"
  shows "in_bin s0 ts k = 0"
proof -
  have "bin_of s0 t \<noteq> k" if "(t, g) \<in> set (gaps ts)" for t g using assms gaps_times [OF that] by auto
  then have "filter (\<lambda>(t, g). bin_of s0 t = k) (gaps ts) = []" by (auto simp: filter_empty_conv)
  then show ?thesis by (simp add: in_bin_def largest_def)
qed

lemma in_bin_snoc:
  "ts \<noteq> [] \<Longrightarrow> in_bin s0 (ts @ [t]) k = (if bin_of s0 t = k then max (t - last ts) (in_bin s0 ts k) else in_bin s0 ts k)"
  by (simp add: in_bin_def gaps_snoc largest_snoc)

lemma mod10: "x < 20 \<Longrightarrow> x mod 10 = (if x < 10 then x else x - 10)" for x :: nat
  by (simp add: mod_if)

definition clear_next :: "ring \<Rightarrow> ring" where
  "clear_next r = (let c = Suc (cursor r) mod BIN_COUNT in r\<lparr>cursor := c, bins := (bins r)[c := 0]\<rparr>)"

lemma clear_next:
  assumes "ring_shape r"
  shows "ring_shape (clear_next r)" "age (clear_next r) 0 = 0" "j < 9 \<Longrightarrow> age (clear_next r) (Suc j) = age r j"
proof -
  let ?c = "Suc (cursor r) mod 10"
  have c: "cursor r < 10" "length (bins r) = 10" using assms by (simp_all add: ring_shape_def BIN_COUNT_def)
  then show "ring_shape (clear_next r)" "age (clear_next r) 0 = 0"
    by (simp_all add: ring_shape_def age_def clear_next_def BIN_COUNT_def Let_def)
  assume j: "j < 9"
  have "(?c + 10 - Suc j) mod 10 = (cursor r + 10 - j) mod 10" "(cursor r + 10 - j) mod 10 \<noteq> ?c"
    using j c(1) by (auto simp: mod10)
  then show "age (clear_next r) (Suc j) = age r j"
    by (simp add: age_def clear_next_def BIN_COUNT_def Let_def)
qed

lemma clear_bins_ages:
  "ring_shape r \<Longrightarrow> n \<le> 10 \<Longrightarrow> ring_shape (clear_bins n r)
     \<and> (\<forall>j < 10. age (clear_bins n r) j = (if j < n then 0 else age r (j - n)))
     \<and> binStart (clear_bins n r) = binStart r \<and> lastEventTs (clear_bins n r) = lastEventTs r"
proof (induction n arbitrary: r)
  case (Suc n)
  have eq: "clear_bins (Suc n) r = clear_bins n (clear_next r)" by (simp add: clear_next_def)
  have IH: "ring_shape (clear_bins n (clear_next r))
      \<and> (\<forall>j < 10. age (clear_bins n (clear_next r)) j = (if j < n then 0 else age (clear_next r) (j - n)))
      \<and> binStart (clear_bins n (clear_next r)) = binStart (clear_next r)
      \<and> lastEventTs (clear_bins n (clear_next r)) = lastEventTs (clear_next r)"
    using Suc.IH [OF clear_next(1) [OF Suc.prems(1)]] Suc.prems(2) by simp
  have "(if j < n then 0 else age (clear_next r) (j - n)) = (if j < Suc n then 0 else age r (j - Suc n))" if "j < 10" for j
    using that clear_next(2) [OF Suc.prems(1)] clear_next(3) [OF Suc.prems(1), of "j - Suc n"]
    by (cases "j < n"; cases "j = n") (auto simp: Suc_diff_Suc)
  with IH show ?case unfolding eq by (simp add: clear_next_def [of r] Let_def)
qed simp

lemma rotate_holds:
  assumes "holds_gaps s0 ts c r" "c \<le> bin_of s0 now"
  shows "holds_gaps s0 ts (bin_of s0 now) (rotate_ring now r)"
proof -
  let ?k = "bin_of s0 now"
  have start: "binStart r = s0 + c * BIN_MS" using assms(1) by (simp add: holds_gaps_def)
  have "(now - binStart r) div BIN_MS = (now - s0 + (- c) * BIN_MS) div BIN_MS" by (simp add: start algebra_simps)
  also have "\<dots> = ?k - c" by (subst div_mult_self1) (simp_all add: BIN_MS_def bin_of_def)
  finally have steps: "(now - binStart r) div BIN_MS = ?k - c" .
  show ?thesis
  proof (cases "?k = c")
    case True
    with assms steps show ?thesis by (simp add: rotate_ring_def)
  next
    case False
    let ?n = "min (nat (?k - c)) BIN_COUNT"
    have shape: "ring_shape r" and ages: "\<And>j. j < 10 \<Longrightarrow> age r j = in_bin s0 ts (c - int j)"
      using assms(1) by (simp_all add: holds_gaps_def BIN_COUNT_def)
    note cl = clear_bins_ages [OF shape, of ?n]
    have early: "\<forall>t \<in> set ts. bin_of s0 t \<le> c" using assms(1) by (simp add: holds_gaps_def)
    have new: "age (clear_bins ?n r) j = in_bin s0 ts (?k - int j)" if "j < 10" for j
    proof (cases "j < ?n")
      case True
      then have "\<forall>t \<in> set ts. bin_of s0 t < ?k - int j" using early by force
      with True that cl show ?thesis by (simp add: in_bin_none BIN_COUNT_def)
    next
      case False
      then have "?n = nat (?k - c)" using that by (simp add: BIN_COUNT_def)
      then have "c - int (j - ?n) = ?k - int j" using False assms(2) by linarith
      with False that cl ages [of "j - ?n"] assms(2) show ?thesis by (simp add: BIN_COUNT_def)
    qed
    have "holds_gaps s0 ts ?k ((clear_bins ?n r)\<lparr>binStart := binStart (clear_bins ?n r) + (?k - c) * BIN_MS\<rparr>)"
      using cl new early assms start
      by (auto simp: holds_gaps_def ring_shape_def age_def BIN_COUNT_def algebra_simps dest: bspec)
    with False assms(2) steps show ?thesis by (simp add: rotate_ring_def Let_def)
  qed
qed

lemma age_put:
  "ring_shape r \<Longrightarrow> j < 10 \<Longrightarrow> age (r\<lparr>bins := (bins r)[cursor r := x]\<rparr>) j = (if j = 0 then x else age r j)"
proof (cases "j = 0")
  case False
  assume "ring_shape r" "j < 10"
  then have "cursor r < 10" "j < 10" by (simp_all add: ring_shape_def BIN_COUNT_def)
  then have "(cursor r + 10 - j) mod 10 \<noteq> cursor r" using False by (auto simp: mod10)
  with False show ?thesis by (simp add: age_def BIN_COUNT_def)
qed (simp add: age_def ring_shape_def BIN_COUNT_def)

lemma age_zero: "ring_shape r \<Longrightarrow> bins r ! cursor r = age r 0"
  by (simp add: age_def ring_shape_def BIN_COUNT_def)

lemma record_holds:
  assumes "holds_gaps s0 ts c r" "c \<le> bin_of s0 now"
  shows "holds_gaps s0 (ts @ [now]) (bin_of s0 now) (recordEvent now r)"
proof -
  let ?k = "bin_of s0 now" and ?r = "rotate_ring now r"
  have h: "holds_gaps s0 ts ?k ?r" by (rule rotate_holds [OF assms])
  then have shape: "ring_shape ?r" and ages: "\<And>j. j < 10 \<Longrightarrow> age ?r j = in_bin s0 ts (?k - int j)"
    and old: "lastEventTs ?r = (if ts = [] then None else Some (last ts))"
    by (simp_all add: holds_gaps_def BIN_COUNT_def)
  show ?thesis
  proof (cases "ts = []")
    case True
    with h show ?thesis by (auto simp: recordEvent_def Let_def holds_gaps_def in_bin_def gaps_def ring_shape_def age_def)
  next
    case False
    let ?r2 = "if bins ?r ! cursor ?r < now - last ts then ?r\<lparr>bins := (bins ?r)[cursor ?r := now - last ts]\<rparr> else ?r"
    have "age ?r2 j = in_bin s0 (ts @ [now]) (?k - int j)" if "j < 10" for j
      using that False shape ages [of 0] ages [OF that]
      by (simp add: age_put age_zero in_bin_snoc)
    moreover have "recordEvent now r = ?r2\<lparr>lastEventTs := Some now\<rparr>" using False old by (simp add: recordEvent_def Let_def)
    moreover have "ring_shape ?r2" using shape by (simp add: ring_shape_def)
    ultimately show ?thesis
      using h by (auto simp: holds_gaps_def ring_shape_def age_def BIN_COUNT_def)
  qed
qed

lemma new_ring_holds: "holds_gaps s0 [] 0 (newRing s0)"
  by (auto simp: holds_gaps_def newRing_def ring_shape_def age_def in_bin_def gaps_def largest_def BIN_COUNT_def)

lemma bin_mono: "t \<le> t' \<Longrightarrow> bin_of s0 t \<le> bin_of s0 t'"
  by (simp add: bin_of_def BIN_MS_def zdiv_mono1)

lemma bin_start: "s0 \<le> t \<Longrightarrow> 0 \<le> bin_of s0 t"
  by (simp add: bin_of_def BIN_MS_def)

text \<open>The times of the events among the uses of a ring; the others are reads.\<close>

definition events_of :: "(bool \<times> int) list \<Rightarrow> int list" where
  "events_of us = map snd (filter fst us)"

lemma uses_hold:
  "sorted (s0 # map snd us) \<Longrightarrow>
   holds_gaps s0 (events_of us) (if us = [] then 0 else bin_of s0 (snd (last us))) (fold use_ring us (newRing s0))"
proof (induction us rule: rev_induct)
  case (snoc u us)
  obtain b t where u: "u = (b, t)" by (cases u)
  have "us \<noteq> [] \<Longrightarrow> snd (last us) \<le> t" using snoc.prems u by (auto simp: sorted_append)
  moreover have "s0 \<le> t" using snoc.prems u by simp
  ultimately have "(if us = [] then 0 else bin_of s0 (snd (last us))) \<le> bin_of s0 t" by (simp add: bin_mono bin_start)
  with record_holds [OF snoc.IH] rotate_holds [OF snoc.IH] snoc.prems show ?case
    by (cases b) (simp_all add: u events_of_def sorted_append)
qed (simp add: new_ring_holds events_of_def)

lemma bins_ages: "ring_shape r \<Longrightarrow> set (bins r) = age r ` {..<10}"
proof
  assume r: "ring_shape r"
  show "age r ` {..<10} \<subseteq> set (bins r)" using r by (auto simp: age_def ring_shape_def BIN_COUNT_def)
  show "set (bins r) \<subseteq> age r ` {..<10}"
  proof
    fix g assume "g \<in> set (bins r)"
    then obtain i where i: "i < 10" "g = bins r ! i" using r by (auto simp: in_set_conv_nth ring_shape_def BIN_COUNT_def)
    have "cursor r < 10" using r by (simp add: ring_shape_def BIN_COUNT_def)
    then have "(cursor r + 10 - i) mod 10 < 10 \<and> (cursor r + 10 - (cursor r + 10 - i) mod 10) mod 10 = i"
      using i(1) by (auto simp: mod10)
    then have "\<exists>j < 10. (cursor r + 10 - j) mod 10 = i" by blast
    with i(2) show "g \<in> age r ` {..<10}" by (auto simp: age_def BIN_COUNT_def)
  qed
qed

text \<open>
  C25. The largest interval a meter reports after the events at times \<open>ts\<close>, read at \<open>now\<close>, is the largest gap
  that ended in the ten seconds of the grid up to \<open>now\<close>, or the gap still open, whichever is larger, whatever
  reads were made in between: the ring of ten bins that is cleared lazily forgets nothing inside the window
  and keeps nothing outside it.
\<close>

theorem ring_is_a_sliding_window:
  fixes us
  defines "ts \<equiv> events_of us"
  assumes "sorted (s0 # map snd us @ [now])"
  shows "ringMax now (fold use_ring us (newRing s0))
    = max (largest (map snd (filter (\<lambda>(t, g). bin_of s0 now - 10 < bin_of s0 t) (gaps ts)))) (if ts = [] then 0 else now - last ts)"
proof -
  let ?k = "bin_of s0 now" and ?r = "rotate_ring now (fold use_ring us (newRing s0))"
  have s: "sorted (s0 # map snd us)" "\<forall>u \<in> set us. snd u \<le> now" "s0 \<le> now" using assms by (auto simp: sorted_append)
  then have before: "\<forall>t \<in> set ts. t \<le> now" by (auto simp: ts_def events_of_def)
  have "holds_gaps s0 ts ?k ?r"
    unfolding ts_def by (rule rotate_holds [OF uses_hold [OF s(1)]]) (use s in \<open>simp add: bin_mono bin_start\<close>)
  then have shape: "ring_shape ?r" and ages: "\<And>j. j < 10 \<Longrightarrow> age ?r j = in_bin s0 ts (?k - int j)"
    and last: "lastEventTs ?r = (if ts = [] then None else Some (last ts))"
    by (simp_all add: holds_gaps_def BIN_COUNT_def)
  have late: "bin_of s0 t \<le> ?k" if "(t, g) \<in> set (gaps ts)" for t g using before gaps_times [OF that] by (simp add: bin_mono)
  have "fold max (bins ?r) 0 \<le> m \<longleftrightarrow> largest (map snd (filter (\<lambda>(t, g). ?k - 10 < bin_of s0 t) (gaps ts))) \<le> m" for m
  proof -
    have "fold max (bins ?r) 0 \<le> m \<longleftrightarrow> 0 \<le> m \<and> (\<forall>j < 10. in_bin s0 ts (?k - int j) \<le> m)"
      using largest_le [of "bins ?r" m] ages by (auto simp: largest_def [symmetric] bins_ages [OF shape])
    also have "\<dots> \<longleftrightarrow> 0 \<le> m \<and> (\<forall>(t, g) \<in> set (gaps ts). ?k - 10 < bin_of s0 t \<longrightarrow> g \<le> m)"
    proof (intro conj_cong refl iffI ballI impI allI)
      fix p assume all: "\<forall>j < 10. in_bin s0 ts (?k - int j) \<le> m" and p: "p \<in> set (gaps ts)"
      obtain t g where tg: "p = (t, g)" by (cases p)
      have "g \<le> m" if "?k - 10 < bin_of s0 t"
      proof -
        let ?j = "nat (?k - bin_of s0 t)"
        have j: "?j < 10" "bin_of s0 t = ?k - int ?j" using that late p tg by auto
        then have "in_bin s0 ts (?k - int ?j) \<le> m" using all by blast
        then show ?thesis using p tg j(2) by (fastforce simp: in_bin_def largest_le)
      qed
      then show "case p of (t, g) \<Rightarrow> ?k - 10 < bin_of s0 t \<longrightarrow> g \<le> m" by (simp add: tg)
    next
      fix j :: nat assume "0 \<le> m" "\<forall>(t, g) \<in> set (gaps ts). ?k - 10 < bin_of s0 t \<longrightarrow> g \<le> m" "j < 10"
      then show "in_bin s0 ts (?k - int j) \<le> m" by (fastforce simp: in_bin_def largest_le)
    qed
    finally show ?thesis by (auto simp: largest_le split: prod.splits)
  qed
  then have "fold max (bins ?r) 0 = largest (map snd (filter (\<lambda>(t, g). ?k - 10 < bin_of s0 t) (gaps ts)))"
    by (metis order_antisym order_refl)
  with last show ?thesis by (simp add: ringMax_def Let_def)
qed

theorem ring_is_a_sliding_window_witness:
  "ringMax 13000 (fold use_ring [(True, 100), (True, 2600), (False, 2900), (True, 3100), (True, 7300), (False, 8000)] (newRing 0)) = 5700
     \<and> ringMax 8000 (fold use_ring [(True, 100), (True, 2600), (False, 2900), (True, 3100), (True, 7300)] (newRing 0)) = 4200"
proof -
  let ?us = "[(True, 100), (True, 2600), (False, 2900), (True, 3100), (True, 7300)] :: (bool \<times> int) list"
  have "sorted (0 # map snd (?us @ [(False, 8000)]) @ [13000])" "sorted (0 # map snd ?us @ [8000])" by simp_all
  from ring_is_a_sliding_window [OF this(1)] ring_is_a_sliding_window [OF this(2)] show ?thesis
    by (simp add: gaps_def largest_def bin_of_def BIN_MS_def events_of_def)
qed

section \<open>Busy time\<close>

text \<open>The clock readings of a call, in order, and the meters together with the latest reading.\<close>

definition times :: "meter_event \<Rightarrow> int list" where
  "times e = (case e of Register t _ _ _ \<Rightarrow> [t] | Ingest t _ _ _ \<Rightarrow> [t] | Emit t _ _ _ \<Rightarrow> [t] | Drop _ _ _ \<Rightarrow> []
     | Begin t _ \<Rightarrow> [t] | End t _ \<Rightarrow> [t] | Measure _ t (Sync t1) \<Rightarrow> [t, t1] | Measure _ t Async \<Rightarrow> [t] | Dispose t _ \<Rightarrow> [t])"

definition timed_step :: "int \<times> meters \<Rightarrow> meter_event \<Rightarrow> int \<times> meters" where
  "timed_step s e = (last (fst s # times e), meter_step (snd s) e)"

definition clock_runs :: "int \<times> meters \<Rightarrow> meter_event \<Rightarrow> bool" where
  "clock_runs s e \<longleftrightarrow> sorted (fst s # times e)"

definition busy_ok :: "int \<Rightarrow> workload \<Rightarrow> bool" where
  "busy_ok T w \<longleftrightarrow> createdAtMs w \<le> T \<and> 0 \<le> busyMs w
     \<and> (case openSpanAt w of None \<Rightarrow> busyMs w \<le> T - createdAtMs w | Some t \<Rightarrow> t \<le> T \<and> busyMs w \<le> t - createdAtMs w)"

lemma busy_later: "busy_ok T w \<Longrightarrow> T \<le> T' \<Longrightarrow> busy_ok T' w"
  by (auto simp: busy_ok_def split: option.splits)

lemma busy_ops:
  "busy_ok T w \<Longrightarrow> busy_ok T (ingest now k n w)" "busy_ok T w \<Longrightarrow> busy_ok T (emit_out now k n w)"
  "busy_ok T w \<Longrightarrow> busy_ok T (drop_units k n w)"
  "busy_ok T w \<Longrightarrow> T \<le> now \<Longrightarrow> busy_ok now (begin_span now w)" "busy_ok T w \<Longrightarrow> T \<le> now \<Longrightarrow> busy_ok now (end_span now w)"
  by (auto simp: busy_ok_def ingest_def emit_out_def drop_units_def begin_span_def end_span_def split: option.splits)

lemma busy_disposed: "busy_ok T (w\<lparr>w_disposed := b\<rparr>) = busy_ok T w"
  by (simp add: busy_ok_def split: option.split)

lemma busy_close: "busy_ok T w \<Longrightarrow> T \<le> now \<Longrightarrow> busy_ok now (close_books now w)"
  by (simp add: close_books_def busy_disposed busy_ops(5) busy_later)

lemma busy_measure:
  "busy_ok T w \<Longrightarrow> sorted (T # times (Measure h t m)) \<Longrightarrow> busy_ok (last (T # times (Measure h t m))) (measure_call t m w)"
  by (cases m) (auto simp: times_def measure_call_def intro: busy_ops)

lemma busy_on_handle:
  "list_all (busy_ok T) (states s) \<Longrightarrow> T \<le> T' \<Longrightarrow> (\<And>w. busy_ok T w \<Longrightarrow> busy_ok T' (f w))
   \<Longrightarrow> list_all (busy_ok T') (states (on_handle h f s))"
  unfolding on_handle_def
  by (cases "h < length (states s)")
     (auto simp: list_all_length nth_list_update list_update_beyond intro: busy_later)

definition all_busy_ok :: "int \<times> meters \<Rightarrow> bool" where
  "all_busy_ok s \<longleftrightarrow> list_all (busy_ok (fst s)) (states (snd s))"

lemma busy_step:
  assumes "all_busy_ok s" "clock_runs s e"
  shows "all_busy_ok (timed_step s e)"
proof -
  have ok: "list_all (busy_ok (fst s)) (states (snd s))" and up: "sorted (fst s # times e)"
    using assms by (simp_all add: all_busy_ok_def clock_runs_def)
  note handle = busy_on_handle [OF ok]
  have "list_all (busy_ok (last (fst s # times e))) (states (meter_step (snd s) e))"
  proof (cases e)
    case (Register now name ins outs)
    with ok up show ?thesis
      by (auto simp: registerWorkload_def times_def new_workload_def list_all_iff busy_later) (simp add: busy_ok_def)
  next
    case (Ingest now h k n)
    with up show ?thesis by (auto simp: times_def intro!: handle intro: busy_ops busy_later)
  next
    case (Emit now h k n)
    with up show ?thesis by (auto simp: times_def intro!: handle intro: busy_ops busy_later)
  next
    case (Drop h r n)
    then show ?thesis by (auto simp: times_def intro!: handle intro: busy_ops)
  next
    case (Begin now h)
    with up show ?thesis by (auto simp: times_def intro!: handle intro: busy_ops)
  next
    case (End now h)
    with up show ?thesis by (auto simp: times_def intro!: handle intro: busy_ops)
  next
    case (Measure h t m)
    have "fst s \<le> last (fst s # times e)" using up by (cases "times e") auto
    then have "list_all (busy_ok (last (fst s # times e))) (states (on_handle h (measure_call t m) (snd s)))"
      by (rule handle) (use up Measure busy_measure in auto)
    with Measure show ?thesis by simp
  next
    case (Dispose now h)
    have "list_all (busy_ok now) (states (on_handle h (close_books now) (snd s)))"
      by (rule handle) (use up Dispose busy_close in \<open>auto simp: times_def\<close>)
    moreover have "list_all (busy_ok now) (states (snd s))" using ok up Dispose by (auto simp: times_def list_all_iff intro: busy_later)
    ultimately show ?thesis using Dispose by (simp add: dispose_meter_def times_def Let_def)
  qed
  then show ?thesis by (simp add: all_busy_ok_def timed_step_def)
qed

interpretation busy_time: client_machine timed_step all_busy_ok clock_runs
  by unfold_locales (rule busy_step)

text \<open>
  While the clock does not go back, a workload's busy time, an open span included, is never more than its
  uptime, so the reported utilization is the quotient of the two and the clamp to 1 never cuts anything off.
\<close>

theorem busy_time_fits_uptime:
  assumes "obeys clock_runs timed_step (t0, no_meters) es"
    and "(t, s) = run timed_step (t0, no_meters) es" "h < length (states s)" "t \<le> now"
  shows "0 \<le> sn_busy (snapshotOf now (states s ! h)) \<and> sn_busy (snapshotOf now (states s ! h)) \<le> sn_uptime (snapshotOf now (states s ! h))
    \<and> sn_utilization (snapshotOf now (states s ! h)) = of_int (sn_busy (snapshotOf now (states s ! h))) / of_int (sn_uptime (snapshotOf now (states s ! h)))"
proof -
  have "all_busy_ok (t, s)"
    unfolding assms(2) by (rule busy_time.run_inv [OF _ assms(1)]) (simp add: all_busy_ok_def no_meters_def)
  with assms(3,4) have b: "busy_ok now (states s ! h)" by (auto simp: all_busy_ok_def list_all_length intro: busy_later)
  let ?b = "liveBusyMs now (states s ! h)" and ?u = "uptime (createdAtMs (states s ! h)) now"
  have "0 \<le> ?b" "?b \<le> ?u" "0 < ?u" using b by (auto simp: busy_ok_def liveBusyMs_def uptime_def split: option.splits)
  then have "real_of_int ?b / real_of_int ?u \<le> 1" by simp
  with \<open>0 \<le> ?b\<close> \<open>?b \<le> ?u\<close> show ?thesis by (simp add: snapshotOf_def Let_def)
qed

theorem busy_time_fits_uptime_witness:
  "sn_busy (snapshotOf 50 (states (snd (run timed_step (0, no_meters) [Register 0 ''a'' [] [], Measure 0 10 (Sync 30), Begin 40 0])) ! 0)) \<le> 50"
proof -
  let ?es = "[Register 0 ''a'' [] [], Measure 0 10 (Sync 30), Begin 40 0]"
  obtain t s where ts: "(t, s) = run timed_step (0, no_meters) ?es" by (metis surj_pair)
  have "obeys clock_runs timed_step (0, no_meters) ?es" by code_simp
  moreover have "run timed_step (0, no_meters) ?es = (40, snd (run timed_step (0, no_meters) ?es))"
    "length (states (snd (run timed_step (0, no_meters) ?es))) = 1"
    "sn_uptime (snapshotOf 50 (states (snd (run timed_step (0, no_meters) ?es)) ! 0)) = 50"
    by code_simp+
  ultimately show ?thesis using busy_time_fits_uptime [of 0 ?es 40 "snd (run timed_step (0, no_meters) ?es)" 0 50] by simp
qed

end
