(* ===== verification/RecorderNode.thy ===== *)
theory RecorderNode
  imports Metering Rolling JsValue
begin

text \<open>
  The recorder node (\<open>app/orchestrator/recorder-node.ts\<close>): folding the native counters into its meter, the
  per-frame extras, and its lifecycle from the first connect to the end of \<open>stop\<close>. The native recorder and the
  pipe broker are parameters: connecting, tapping, polling, finalizing and releasing may throw, as the events say
  (the broker's disconnect throws when the pipe is no longer advertised). A pipe connection is a number, so that
  what is connected and what its release was called for can be compared; the payloads of messages are records, not
  JSON text.
\<close>

section \<open>Counters\<close>

record counters =
  k_ingested :: int
  k_dropped :: int
  k_droppedQueue :: int
  k_droppedRing :: int
  k_written :: int
  k_bytes :: int

definition zero_counters :: counters where
  "zero_counters = \<lparr>k_ingested = 0, k_dropped = 0, k_droppedQueue = 0, k_droppedRing = 0, k_written = 0, k_bytes = 0\<rparr>"

record stream_fold =
  f_prev :: counters
  f_fps :: freq_meter

record stream_stats =
  u_frames :: int
  u_dropped :: int
  u_droppedQueue :: int
  u_droppedRing :: int
  u_bytes :: int
  u_fps :: real

definition new_fold :: stream_fold where
  "new_fold = \<lparr>f_prev = zero_counters, f_fps = new_freq_meter (9 / 10)\<rparr>"

text \<open>\<open>if (d) meter.ingest(name, d)\<close> and its siblings.\<close>

definition when_some :: "int \<Rightarrow> (workload \<Rightarrow> workload) \<Rightarrow> workload \<Rightarrow> workload" where
  "when_some d f w = (if d = 0 then w else f w)"

definition meter_deltas :: "int \<Rightarrow> string \<Rightarrow> counters \<Rightarrow> counters \<Rightarrow> workload \<Rightarrow> workload" where
  "meter_deltas now name p q w =
     (let dIngest = max 0 (k_ingested q - k_ingested p); dQueue = max 0 (k_droppedQueue q - k_droppedQueue p);
          dRing = max 0 (k_droppedRing q - k_droppedRing p); dWritten = max 0 (k_written q - k_written p);
          dBytes = max 0 (k_bytes q - k_bytes p)
      in when_some dBytes (emit_out now ''bytes'' dBytes) (when_some dWritten (emit_out now ''written'' dWritten)
           (when_some dRing (drop_units ''ring-recycled'' dRing) (when_some dQueue (drop_units ''queue-overflow'' dQueue)
             (when_some dIngest (ingest now name dIngest) w)))))"

definition fold_stream :: "int \<Rightarrow> string \<times> counters \<Rightarrow> workload \<times> stream_fold table \<times> stream_stats table
    \<Rightarrow> workload \<times> stream_fold table \<times> stream_stats table" where
  "fold_stream now e s = (case e of (name, q) \<Rightarrow> case s of (w, folds, out) \<Rightarrow>
     (let f = (case map_of folds name of Some f \<Rightarrow> f | None \<Rightarrow> new_fold);
          dWritten = max 0 (k_written q - k_written (f_prev f));
          fps = (tick (of_int now) ^^ nat dWritten) (f_fps f)
      in (meter_deltas now name (f_prev f) q w, AList.update name \<lparr>f_prev = q, f_fps = fps\<rparr> folds,
          AList.update name \<lparr>u_frames = k_written q, u_dropped = k_dropped q, u_droppedQueue = k_droppedQueue q,
            u_droppedRing = k_droppedRing q, u_bytes = k_bytes q, u_fps = frequency fps\<rparr> out)))"

definition foldStreamStats :: "int \<Rightarrow> counters table \<Rightarrow> workload \<times> stream_fold table
    \<Rightarrow> workload \<times> stream_fold table \<times> stream_stats table" where
  "foldStreamStats now incoming s = fold (fold_stream now) incoming (fst s, snd s, [])"

section \<open>Extras\<close>

record notice =
  nt_stream :: string
  nt_seq :: nat
  nt_logTimeNs :: int
  nt_tNs :: int

record extras_message =
  x_stream :: string
  x_seq :: nat
  x_logTimeNs :: int
  x_t :: real
  x_extras :: "string table"

text \<open>The callback's answer is a parameter; an empty object is no answer. \<open>t\<close> is in seconds.\<close>

definition dispatchFrame :: "(notice \<Rightarrow> string table option) \<Rightarrow> notice \<Rightarrow> extras_message option" where
  "dispatchFrame onFrame n = (case onFrame n of None \<Rightarrow> None
     | Some x \<Rightarrow> if x = [] then None
         else Some \<lparr>x_stream = nt_stream n, x_seq = nt_seq n, x_logTimeNs = nt_logTimeNs n, x_t = of_int (nt_tNs n) / 1000000000, x_extras = x\<rparr>)"

section \<open>Channel metadata\<close>

record pipe_spec =
  p_pixelFormat :: string
  p_dtype :: string
  p_width :: nat
  p_height :: nat
  p_channels :: nat
  p_bytesPerFrame :: nat
  p_stride :: "nat option"
  p_significantBits :: "nat option"

definition shape_json :: "nat list \<Rightarrow> string" where
  "shape_json ds = ''['' @ concat (map (\<lambda>i. (if i = 0 then [] else '','') @ decimal (ds ! i)) [0..<length ds]) @ '']''"

definition channelMetadata :: "pipe_spec \<Rightarrow> string table" where
  "channelMetadata p =
     (let shape = (if 1 < p_channels p then [p_height p, p_width p, p_channels p] else [p_height p, p_width p]);
          stride = (case p_stride p of Some x \<Rightarrow> x | None \<Rightarrow> if 0 < p_height p then p_bytesPerFrame p div p_height p else p_bytesPerFrame p)
      in [(''dtype'', p_dtype p), (''shape'', shape_json shape), (''width'', decimal (p_width p)), (''height'', decimal (p_height p)),
          (''channels'', decimal (p_channels p)), (''pixelFormat'', p_pixelFormat p),
          (''significantBits'', decimal (case p_significantBits p of Some b \<Rightarrow> b | None \<Rightarrow> 0)), (''stride'', decimal stride)])"

section \<open>The node\<close>

datatype native_call = NCreate | NAddStream string | NRemoveStream string | NAddData string | NRemoveData string
  | NPostData string | NAppend extras_message | NTake | NStats | NFinalize | NAbort | NDestroy

datatype finalize_stats = Finalized nat nat nat | Truncated | AlreadyStopped

text \<open>How far \<open>stop\<close> is; it rejects if \<open>finalize\<close> throws at once or the release of a pipe does.\<close>

datatype stop_phase = Running | Finalizing | Grace | Done finalize_stats | FinalizeThrew | ReleaseThrew

record node =
  n_id :: string
  connections :: "(string \<times> nat) list"
  edges :: "(string \<times> string) list"
  released :: "nat list"
  nextConn :: nat
  calls :: "native_call list"
  dataStreams :: "string list"
  folds :: "stream_fold table"
  uiStats :: "stream_stats table"
  meter :: workload
  wired :: bool
  phase :: stop_phase
  n_reports :: nat

definition bare_node :: "string \<Rightarrow> node" where
  "bare_node i = \<lparr>n_id = i, connections = [], edges = [], released = [], nextConn = 0, calls = [], dataStreams = [], folds = [],
     uiStats = [], meter = new_workload i [] [] 0, wired = False, phase = Running, n_reports = 0\<rparr>"

definition call :: "native_call \<Rightarrow> node \<Rightarrow> node" where
  "call c n = n\<lparr>calls := calls n @ [c]\<rparr>"

text \<open>A connection made under a stream name, with its edge; its release.\<close>

definition connect_stream :: "string \<Rightarrow> string \<Rightarrow> node \<Rightarrow> node" where
  "connect_stream name p n = n\<lparr>connections := AList.update name (nextConn n) (connections n), nextConn := Suc (nextConn n),
     edges := edges n @ [(p, name)]\<rparr>"

text \<open>A release that throws has been called; what comes after it is not reached.\<close>

definition releaseStream :: "bool \<Rightarrow> string \<Rightarrow> node \<Rightarrow> node" where
  "releaseStream ok name n =
     (let n1 = (case map_of (connections n) name of
            Some c \<Rightarrow> n\<lparr>connections := AList.delete name (connections n), released := released n @ [c]\<rparr> | None \<Rightarrow> n)
      in if map_of (connections n) name \<noteq> None \<and> \<not> ok then n1
         else n1\<lparr>edges := (case List.find (\<lambda>e. snd e = name) (edges n1) of Some e \<Rightarrow> remove1 e (edges n1) | None \<Rightarrow> edges n1)\<rparr>)"

text \<open>All of them in order; \<open>Some k\<close> if the \<open>k\<close>-th release throws, and then the map is not cleared.\<close>

definition releaseAllConnections :: "nat option \<Rightarrow> node \<Rightarrow> bool \<times> node" where
  "releaseAllConnections thrown n = (case thrown of
      Some k \<Rightarrow> if k < length (connections n)
        then (False, n\<lparr>released := released n @ take (Suc k) (map snd (connections n))\<rparr>)
        else (True, n\<lparr>released := released n @ map snd (connections n), connections := []\<rparr>)
    | None \<Rightarrow> (True, n\<lparr>released := released n @ map snd (connections n), connections := []\<rparr>))"

subsection \<open>Creation\<close>

text \<open>The loop over the initial streams; it ends at the first connect that throws.\<close>

fun connect_all :: "(string \<times> string) list \<Rightarrow> bool list \<Rightarrow> node \<Rightarrow> bool \<times> node" where
  "connect_all [] oks n = (True, n)"
| "connect_all ((name, p) # ss) oks n = (case oks of
      [] \<Rightarrow> (False, n)
    | ok # oks' \<Rightarrow> if ok then connect_all ss oks' (connect_stream name p n) else (False, n))"

fun tap_all :: "(string \<times> string) list \<Rightarrow> bool list \<Rightarrow> node \<Rightarrow> bool \<times> node" where
  "tap_all [] oks n = (True, n)"
| "tap_all ((name, p) # ss) oks n = (case oks of
      [] \<Rightarrow> (False, n)
    | ok # oks' \<Rightarrow> if ok then tap_all ss oks' (call (NAddStream name) n) else (False, call (NAddStream name) n))"

datatype node_error = ConnectThrew | CreateThrew | TapThrew | ReleaseFailed

definition unwind :: "node_error \<Rightarrow> nat option \<Rightarrow> node \<Rightarrow> (node_error + unit) \<times> node" where
  "unwind err thrown n = (case releaseAllConnections thrown n of (ok, n1) \<Rightarrow> (Inl (if ok then err else ReleaseFailed), n1))"

definition createRecorderNode :: "int \<Rightarrow> string \<Rightarrow> (string \<times> string) list \<Rightarrow> bool list \<Rightarrow> bool \<Rightarrow> bool list \<Rightarrow> nat option
    \<Rightarrow> (node_error + unit) \<times> node" where
  "createRecorderNode now i streams connects create taps thrown =
     (case connect_all streams connects (bare_node i) of
        (False, n) \<Rightarrow> (Inl ConnectThrew, n)
      | (True, n) \<Rightarrow>
          if \<not> create then unwind CreateThrew thrown n
          else (case tap_all streams taps (call NCreate n) of
              (False, n1) \<Rightarrow> unwind TapThrew thrown (call NDestroy (call NAbort n1))
            | (True, n1) \<Rightarrow> (Inr (), n1\<lparr>wired := True, meter := new_workload i (map fst streams) [''written'', ''bytes''] now\<rparr>)))"

subsection \<open>Operation\<close>

definition fold_stats :: "int \<Rightarrow> counters table \<Rightarrow> node \<Rightarrow> node" where
  "fold_stats now incoming n = (case foldStreamStats now incoming (meter n, folds n) of
     (w, fs, out) \<Rightarrow> (call NStats n)\<lparr>meter := w, folds := fs, uiStats := out\<rparr>)"

text \<open>\<open>pollOnce\<close>: the counters, or \<open>None\<close> if \<open>stats\<close> throws; then the notices with the callback.\<close>

definition pollOnce :: "int \<Rightarrow> counters table option \<Rightarrow> notice list \<Rightarrow> (notice \<Rightarrow> string table option) \<Rightarrow> node \<Rightarrow> bool \<times> node" where
  "pollOnce now stats notices onFrame n = (case stats of
      None \<Rightarrow> (False, call NStats n)
    | Some incoming \<Rightarrow> (True, fold (\<lambda>x m. case dispatchFrame onFrame x of Some msg \<Rightarrow> call (NAppend msg) m | None \<Rightarrow> m) notices
         (call NTake (fold_stats now incoming n))))"

definition poll_timer :: "int \<Rightarrow> counters table option \<Rightarrow> notice list \<Rightarrow> (notice \<Rightarrow> string table option) \<Rightarrow> node \<Rightarrow> node" where
  "poll_timer now stats notices onFrame n = (if phase n \<noteq> Running then n
     else (case pollOnce now stats notices onFrame n of (ok, n1) \<Rightarrow> if ok then n1 else n1\<lparr>n_reports := Suc (n_reports n1)\<rparr>))"

datatype add_error = AfterFinalize | NameTaken | ConnectFailed | TapFailed

definition addStream :: "string \<Rightarrow> string \<Rightarrow> bool \<Rightarrow> bool \<Rightarrow> bool \<Rightarrow> node \<Rightarrow> (add_error + unit) \<times> node" where
  "addStream name p connects taps rel n =
     (if phase n \<noteq> Running then (Inl AfterFinalize, n)
      else if map_of (connections n) name \<noteq> None then (Inl NameTaken, n)
      else if \<not> connects then (Inl ConnectFailed, n)
      else let n1 = call (NAddStream name) (connect_stream name p n)
        in if taps then (Inr (), n1) else (Inl TapFailed, releaseStream rel name n1))"

definition removeStream :: "string \<Rightarrow> bool \<Rightarrow> bool \<Rightarrow> node \<Rightarrow> node" where
  "removeStream name ok rel n = (if map_of (connections n) name = None then n
     else let n1 = call (NRemoveStream name) n in if ok then releaseStream rel name n1 else n1)"

definition addDataStream :: "string \<Rightarrow> node \<Rightarrow> (add_error + unit) \<times> node" where
  "addDataStream name n = (if phase n \<noteq> Running then (Inl AfterFinalize, n)
     else (Inr (), call (NAddData name) (n\<lparr>dataStreams := List.insert name (dataStreams n)\<rparr>)))"

definition postData :: "string \<Rightarrow> node \<Rightarrow> node" where
  "postData name n = (if phase n \<noteq> Running \<or> name \<notin> set (dataStreams n) then n else call (NPostData name) n)"

definition removeDataStream :: "string \<Rightarrow> node \<Rightarrow> node" where
  "removeDataStream name n = (if name \<notin> set (dataStreams n) then n
     else call (NRemoveData name) (n\<lparr>dataStreams := removeAll name (dataStreams n)\<rparr>))"

subsection \<open>Stopping\<close>

text \<open>Up to the first await; \<open>finalize\<close> gives a promise or throws.\<close>

definition stop_begin :: "int \<Rightarrow> counters table option \<Rightarrow> notice list \<Rightarrow> (notice \<Rightarrow> string table option) \<Rightarrow> bool \<Rightarrow> node \<Rightarrow> node" where
  "stop_begin now stats notices onFrame promised n = (if phase n \<noteq> Running then n
     else (let n1 = call NFinalize (snd (pollOnce now stats notices onFrame (n\<lparr>phase := Finalizing\<rparr>)))
       in if promised then n1 else n1\<lparr>phase := FinalizeThrew\<rparr>))"

text \<open>The end of \<open>stop\<close>: the last counters, or \<open>None\<close> if they throw; the release that throws, if one does.\<close>

definition stop_end :: "int \<Rightarrow> counters table option \<Rightarrow> finalize_stats \<Rightarrow> nat option \<Rightarrow> node \<Rightarrow> node" where
  "stop_end now stats r thrown n = (let n1 = (case stats of Some c \<Rightarrow> fold_stats now c n | None \<Rightarrow> call NStats n)
     in case releaseAllConnections thrown (call NDestroy n1) of
          (True, n2) \<Rightarrow> n2\<lparr>meter := close_books now (meter n2), wired := False, phase := Done r\<rparr>
        | (False, n2) \<Rightarrow> n2\<lparr>phase := ReleaseThrew\<rparr>)"

definition abort_native :: "node \<Rightarrow> node" where
  "abort_native n = (call NAbort n)\<lparr>n_reports := Suc (n_reports n)\<rparr>"

definition finalize_settles :: "int \<Rightarrow> finalize_stats option \<Rightarrow> counters table option \<Rightarrow> nat option \<Rightarrow> node \<Rightarrow> node" where
  "finalize_settles now r stats thrown n = (case phase n of
      Finalizing \<Rightarrow> (case r of Some f \<Rightarrow> stop_end now stats f thrown n
        | None \<Rightarrow> stop_end now stats Truncated thrown (abort_native (n\<lparr>n_reports := Suc (n_reports n)\<rparr>)))
    | Grace \<Rightarrow> stop_end now stats Truncated thrown (if r = None then n\<lparr>n_reports := Suc (n_reports n)\<rparr> else n)
    | _ \<Rightarrow> n)"

definition deadline_fires :: "node \<Rightarrow> node" where
  "deadline_fires n = (if phase n = Finalizing then (abort_native n)\<lparr>phase := Grace\<rparr> else n)"

definition grace_over :: "int \<Rightarrow> counters table option \<Rightarrow> nat option \<Rightarrow> node \<Rightarrow> node" where
  "grace_over now stats thrown n = (if phase n = Grace then stop_end now stats Truncated thrown n else n)"

text \<open>What a further \<open>stop\<close> answers.\<close>

definition stop_answer :: "node \<Rightarrow> finalize_stats option" where
  "stop_answer n = (case phase n of Running \<Rightarrow> None | _ \<Rightarrow> Some AlreadyStopped)"

datatype node_event =
    Poll int "counters table option" "notice list" "notice \<Rightarrow> string table option"
  | AddStream string string bool bool bool | RemoveStream string bool bool | AddData string | PostData string | RemoveData string
  | Stop int "counters table option" "notice list" "notice \<Rightarrow> string table option" bool
  | FinalizeSettles int "finalize_stats option" "counters table option" "nat option" | DeadlineFires
  | GraceOver int "counters table option" "nat option"

fun node_step :: "node \<Rightarrow> node_event \<Rightarrow> node" where
  "node_step n (Poll now st ns f) = poll_timer now st ns f n"
| "node_step n (AddStream name p c t rel) = snd (addStream name p c t rel n)"
| "node_step n (RemoveStream name ok rel) = removeStream name ok rel n"
| "node_step n (AddData name) = snd (addDataStream name n)"
| "node_step n (PostData name) = postData name n"
| "node_step n (RemoveData name) = removeDataStream name n"
| "node_step n (Stop now st ns f promised) = stop_begin now st ns f promised n"
| "node_step n (FinalizeSettles now r st thrown) = finalize_settles now r st thrown n"
| "node_step n DeadlineFires = deadline_fires n"
| "node_step n (GraceOver now st thrown) = grace_over now st thrown n"

section \<open>Connections are returned\<close>

text \<open>
  Every connection made is held by the node or its release was called; at most once, unless a release threw while
  \<open>stop\<close> went through them.
\<close>

definition held :: "node \<Rightarrow> nat list" where
  "held n = map snd (connections n)"

definition books :: "node \<Rightarrow> bool" where
  "books n \<longleftrightarrow> distinct (keys_of (connections n)) \<and> (if phase n = ReleaseThrew then set (released n) \<union> set (held n) = {..<nextConn n}
     else mset [0..<nextConn n] = mset (released n) + mset (held n) \<and> ((\<exists>r. phase n = Done r) \<longrightarrow> connections n = []))"

lemma books_cong:
  "books n \<Longrightarrow> nextConn m = nextConn n \<Longrightarrow> released m = released n \<Longrightarrow> connections m = connections n \<Longrightarrow> phase m = phase n \<Longrightarrow> books m"
  by (auto simp: books_def held_def simp del: mset_upt split: if_splits)

lemma call_fields [simp]:
  "nextConn (call c n) = nextConn n" "released (call c n) = released n" "connections (call c n) = connections n"
  "phase (call c n) = phase n" "dataStreams (call c n) = dataStreams n" "meter (call c n) = meter n" "folds (call c n) = folds n"
  by (simp_all add: call_def)

lemma fold_stats_fields [simp]:
  "nextConn (fold_stats now c n) = nextConn n" "released (fold_stats now c n) = released n"
  "connections (fold_stats now c n) = connections n" "phase (fold_stats now c n) = phase n"
  "dataStreams (fold_stats now c n) = dataStreams n"
  by (simp_all add: fold_stats_def split: prod.split)

lemma notices_fields:
  "nextConn (fold (\<lambda>x m. case dispatchFrame f x of Some msg \<Rightarrow> call (NAppend msg) m | None \<Rightarrow> m) ns n) = nextConn n
   \<and> released (fold (\<lambda>x m. case dispatchFrame f x of Some msg \<Rightarrow> call (NAppend msg) m | None \<Rightarrow> m) ns n) = released n
   \<and> connections (fold (\<lambda>x m. case dispatchFrame f x of Some msg \<Rightarrow> call (NAppend msg) m | None \<Rightarrow> m) ns n) = connections n
   \<and> phase (fold (\<lambda>x m. case dispatchFrame f x of Some msg \<Rightarrow> call (NAppend msg) m | None \<Rightarrow> m) ns n) = phase n
   \<and> dataStreams (fold (\<lambda>x m. case dispatchFrame f x of Some msg \<Rightarrow> call (NAppend msg) m | None \<Rightarrow> m) ns n) = dataStreams n"
  by (induction ns arbitrary: n) (simp_all split: option.split)

lemma pollOnce_fields [simp]:
  "nextConn (snd (pollOnce now st ns f n)) = nextConn n" "released (snd (pollOnce now st ns f n)) = released n"
  "connections (snd (pollOnce now st ns f n)) = connections n" "phase (snd (pollOnce now st ns f n)) = phase n"
  "dataStreams (snd (pollOnce now st ns f n)) = dataStreams n"
  by (simp_all add: pollOnce_def notices_fields split: option.split)

lemma books_connect:
  "books n \<Longrightarrow> map_of (connections n) name = None \<Longrightarrow> phase n = Running \<Longrightarrow> books (connect_stream name p n)"
  by (auto simp: books_def held_def connect_stream_def update_fresh keys_of_def map_of_eq_None_iff)

lemma books_cover: "books n \<Longrightarrow> set (released n) \<union> set (held n) = {..<nextConn n}"
proof -
  assume b: "books n"
  show ?thesis
  proof (cases "phase n = ReleaseThrew")
    case False
    with b have "mset (released n @ held n) = mset [0..<nextConn n]" by (simp add: books_def del: mset_upt)
    from mset_eq_setD [OF this] show ?thesis by auto
  qed (use b in \<open>simp add: books_def\<close>)
qed

lemma mset_delete:
  "distinct (keys_of t) \<Longrightarrow> map_of t k = Some v \<Longrightarrow> mset (map snd t) = add_mset v (mset (map snd (AList.delete k t)))"
proof (induction t)
  case (Cons p t)
  show ?case
  proof (cases "fst p = k")
    case True
    with Cons.prems(1) have "AList.delete k t = t" by (simp add: keys_of_def delete_idem)
    with True Cons.prems show ?thesis by (cases p) simp
  next
    case False
    with Cons have "mset (map snd t) = add_mset v (mset (map snd (AList.delete k t)))" by (cases p) (simp add: keys_of_def)
    with False show ?thesis by (cases p) simp
  qed
qed simp

lemma books_release:
  assumes "books n" shows "books (releaseStream ok name n)"
proof (cases "map_of (connections n) name")
  case (Some c)
  then have "\<nexists>r. phase n = Done r" using assms by (auto simp: books_def)
  moreover have h: "mset (held n) = add_mset c (mset (map snd (AList.delete name (connections n))))"
    unfolding held_def using assms Some by (intro mset_delete) (simp_all add: books_def)
  moreover have "set (held n) = insert c (set (map snd (AList.delete name (connections n))))"
    using mset_eq_setD [of "held n" "c # map snd (AList.delete name (connections n))"] h by simp
  ultimately show ?thesis
    using assms Some
    by (cases "phase n = ReleaseThrew") (auto simp: books_def releaseStream_def held_def Let_def keys_of_def distinct_delete simp del: mset_upt)
next
  case None
  show ?thesis by (rule books_cong [OF assms]) (simp_all add: releaseStream_def None Let_def)
qed

lemma released_all:
  assumes "releaseAllConnections thrown n = (ok, m)"
  shows "ok \<Longrightarrow> released m = released n @ held n \<and> connections m = []"
    and "\<not> ok \<Longrightarrow> set (released n) \<subseteq> set (released m) \<and> set (released m) \<subseteq> set (released n) \<union> set (held n) \<and> connections m = connections n"
    and "nextConn m = nextConn n" "phase m = phase n"
  using assms set_take_subset [of "Suc (the thrown)" "map snd (connections n)"]
  by (auto simp: releaseAllConnections_def held_def split: option.splits if_splits)

lemma books_stop_end:
  assumes "books n" "phase n \<noteq> ReleaseThrew" shows "books (stop_end now st r thrown n)"
proof -
  let ?n = "call NDestroy (case st of Some c \<Rightarrow> fold_stats now c n | None \<Rightarrow> call NStats n)"
  have b: "books ?n" by (rule books_cong [OF assms(1)]) (simp_all split: option.split)
  have p: "phase ?n \<noteq> ReleaseThrew" using assms(2) by (simp split: option.split)
  obtain ok m where m: "releaseAllConnections thrown ?n = (ok, m)" by (meson surj_pair)
  note all = released_all [OF m]
  show ?thesis
  proof (cases ok)
    case True
    with b p m all show ?thesis by (simp add: stop_end_def Let_def books_def held_def keys_of_def del: mset_upt)
  next
    case False
    have "set (released m) \<union> set (held m) = {..<nextConn m}"
      using all(2) [OF False] all(3) books_cover [OF b] by (auto simp: held_def)
    with False b m all show ?thesis by (simp add: stop_end_def Let_def books_def held_def)
  qed
qed

lemma books_abort: "books n \<Longrightarrow> books (abort_native n)" "books n \<Longrightarrow> books (n\<lparr>n_reports := k\<rparr>)"
  by (auto intro: books_cong simp: abort_native_def)

lemma books_phase: "books n \<Longrightarrow> phase n = Running \<or> phase n = Finalizing \<Longrightarrow> p = Finalizing \<or> p = Grace \<Longrightarrow> books (n\<lparr>phase := p\<rparr>)"
  by (auto simp: books_def held_def)

lemma books_finalize_threw: "books n \<Longrightarrow> phase n = Finalizing \<Longrightarrow> books (n\<lparr>phase := FinalizeThrew\<rparr>)"
  by (simp add: books_def held_def)

lemma recorder_books_step:
  assumes "books n" shows "books (node_step n e)"
proof (cases e)
  case (Poll now st ns f)
  have "books (snd (pollOnce now st ns f n))" by (rule books_cong [OF assms]) simp_all
  with Poll assms show ?thesis by (auto simp: poll_timer_def books_abort split: prod.split)
next
  case (AddStream name p c t rel)
  have "books (call (NAddStream name) (connect_stream name p n))" if "map_of (connections n) name = None" "phase n = Running"
    by (rule books_cong [OF books_connect [OF assms that]]) simp_all
  with AddStream assms show ?thesis by (auto simp: addStream_def Let_def books_release)
next
  case (RemoveStream name ok rel)
  have "books (call (NRemoveStream name) n)" by (rule books_cong [OF assms]) simp_all
  with RemoveStream assms show ?thesis by (simp add: removeStream_def Let_def books_release)
next
  case (Stop now st ns f promised)
  let ?m = "call NFinalize (snd (pollOnce now st ns f (n\<lparr>phase := Finalizing\<rparr>)))"
  have "books (snd (pollOnce now st ns f (n\<lparr>phase := Finalizing\<rparr>)))" if "phase n = Running"
    by (rule books_cong [OF books_phase [OF assms]]) (use that in simp_all)
  then have "phase n = Running \<Longrightarrow> books ?m" by (auto intro: books_cong)
  with Stop assms books_finalize_threw [of ?m] show ?thesis by (simp add: stop_begin_def Let_def)
next
  case DeadlineFires
  with books_phase [OF books_abort(1) [OF assms]] assms show ?thesis by (simp add: deadline_fires_def abort_native_def)
next
  case (FinalizeSettles now r st thrown)
  with assms show ?thesis
    by (auto simp: finalize_settles_def abort_native_def intro!: books_stop_end books_abort(2) intro: books_cong split: stop_phase.split option.split)
qed (use assms in \<open>auto simp: addDataStream_def postData_def removeDataStream_def grace_over_def books_stop_end intro: books_cong\<close>)

text \<open>A node as \<open>createRecorderNode\<close> returns it: every stream connected.\<close>

lemma connect_all_books:
  "books n \<Longrightarrow> phase n = Running \<Longrightarrow> distinct (map fst ss @ keys_of (connections n)) \<Longrightarrow> connect_all ss oks n = (ok, m)
   \<Longrightarrow> books m \<and> phase m = Running \<and> (ok \<longrightarrow> nextConn m = nextConn n + length ss)
      \<and> released m = released n \<and> held m = held n @ [nextConn n..<nextConn m] \<and> nextConn n \<le> nextConn m"
proof (induction ss oks n rule: connect_all.induct)
  case (2 name p ss oks n)
  have fresh: "map_of (connections n) name = None" using 2(4) by (simp add: keys_of_def map_of_eq_None_iff)
  let ?n = "connect_stream name p n"
  have n: "books ?n" "phase ?n = Running" "nextConn ?n = Suc (nextConn n)" "released ?n = released n"
    "keys_of (connections ?n) = keys_of (connections n) @ [name]" "held ?n = held n @ [nextConn n]"
    using books_connect [OF 2(2) fresh 2(3)] 2(3) fresh
    by (simp_all add: connect_stream_def update_fresh keys_of_def map_of_eq_None_iff held_def)
  show ?case
  proof (cases oks)
    case (Cons k oks')
    then show ?thesis
    proof (cases k)
      case True
      have "distinct (map fst ss @ keys_of (connections ?n))" using 2(4) n(5) by auto
      from 2(1) [OF Cons True n(1,2) this] 2(5) Cons True n(3-) show ?thesis
        by (auto simp: upt_conv_Cons)
    qed (use 2 Cons in auto)
  qed (use 2 in auto)
qed auto

interpretation recorder: machine node_step books
  by unfold_locales (rule recorder_books_step)

lemma bare_books: "books (bare_node i)"
  by (simp add: books_def held_def bare_node_def keys_of_def)

lemma tap_all_fields:
  "tap_all ss oks n = (ok, m) \<Longrightarrow> nextConn m = nextConn n \<and> released m = released n \<and> connections m = connections n \<and> phase m = phase n"
  by (induction ss oks n rule: tap_all.induct) (auto split: list.splits if_splits)

lemma created_books:
  assumes "distinct (map fst streams)" "createRecorderNode now i streams cs c ts thrown = (Inr (), n)"
  shows "books n"
proof -
  obtain m where m: "connect_all streams cs (bare_node i) = (True, m)" and c: "c"
    using assms(2) by (auto simp: createRecorderNode_def unwind_def split: prod.splits bool.splits if_splits)
  obtain m1 where t: "tap_all streams ts (call NCreate m) = (True, m1)"
    using assms(2) m c by (auto simp: createRecorderNode_def unwind_def split: prod.splits bool.splits)
  have "books m" using connect_all_books [OF bare_books _ _ m] assms(1) by (simp add: bare_node_def keys_of_def)
  then have "books m1" by (rule books_cong) (use tap_all_fields [OF t] in simp_all)
  then show ?thesis using assms(2) m c t by (auto simp: createRecorderNode_def intro: books_cong)
qed

text \<open>
  C12. Whatever streams come and go while a recording runs, whatever connects, taps, polls and releases throw, and
  however it ends, no pipe connection is forgotten: each one made is held under its stream or its release was
  called. When \<open>stop\<close> has resolved none is held. No release is called twice, unless one throws
  while \<open>stop\<close> disconnects the pipes that are left, which ends that \<open>stop\<close> with an error (see
  \<open>throwing_release_keeps_the_rest\<close>).
\<close>

theorem recorder_returns_connections:
  fixes es
  assumes "distinct (map fst streams)" "createRecorderNode now i streams cs c ts thrown = (Inr (), n0)"
  defines "n \<equiv> run node_step n0 es"
  shows "set (released n) \<union> set (held n) = {..<nextConn n} \<and> (phase n = Done r \<longrightarrow> held n = [])
    \<and> (phase n \<noteq> ReleaseThrew \<longrightarrow> distinct (released n @ held n))"
proof -
  have b: "books n" unfolding n_def by (rule recorder.run_inv [OF created_books [OF assms(1,2)]])
  have "distinct (released n @ held n)" if "phase n \<noteq> ReleaseThrew"
  proof -
    have "mset (released n @ held n) = mset [0..<nextConn n]" using b that by (simp add: books_def del: mset_upt)
    from mset_eq_imp_distinct_iff [OF this] show ?thesis by simp
  qed
  with b books_cover [OF b] show ?thesis by (auto simp: books_def held_def)
qed

definition demo_node :: node where
  "demo_node = snd (createRecorderNode 0 ''recorder/demo'' [(''left'', ''camera/1/raw''), (''right'', ''camera/2/raw'')] [True, True] True [True, True] None)"

theorem recorder_returns_connections_witness:
  "let n = run node_step demo_node [AddStream ''center'' ''camera/3/raw'' True False True, RemoveStream ''left'' True False, Stop 5 None [] (\<lambda>_. None) True,
       DeadlineFires, GraceOver 9 None None] in phase n = Done Truncated \<and> released n = [2, 0, 1] \<and> held n = []"
proof -
  let ?es = "[AddStream ''center'' ''camera/3/raw'' True False True, RemoveStream ''left'' True False, Stop 5 None [] (\<lambda>_. None) True, DeadlineFires,
    GraceOver 9 None None]"
  have names: "distinct (map fst [(''left'', ''camera/1/raw''), (''right'', ''camera/2/raw'')])" by simp
  have made: "createRecorderNode 0 ''recorder/demo'' [(''left'', ''camera/1/raw''), (''right'', ''camera/2/raw'')] [True, True] True [True, True] None
      = (Inr (), demo_node)" by (simp add: demo_node_def createRecorderNode_def connect_stream_def)
  have ran: "phase (run node_step demo_node ?es) = Done Truncated" "released (run node_step demo_node ?es) = [2, 0, 1]" by code_simp+
  have "held (run node_step demo_node ?es) = []"
    using recorder_returns_connections [OF names made, where r = Truncated and es = "?es"] ran(1) by blast
  with ran show ?thesis by (simp only: Let_def simp_thms)
qed

text \<open>
  A release that throws ends \<open>stop\<close>: the pipes after it stay connected, the graph node and the meter stay, and
  since the node counts as stopped another \<open>stop\<close> does nothing.
\<close>

theorem throwing_release_keeps_the_rest:
  assumes "phase n = Grace" "k < length (connections n)"
  shows "let m = grace_over now st (Some k) n in held m = held n \<and> released m = released n @ take (Suc k) (held n)
    \<and> wired m = wired n \<and> (\<forall>now' st' ns f p. stop_begin now' st' ns f p m = m) \<and> stop_answer m = Some AlreadyStopped"
proof -
  have "wired (fold_stats now c n) = wired n" "wired (call x n) = wired n" for c n x
    by (simp_all add: fold_stats_def call_def split: prod.split)
  with assms show ?thesis
    by (simp add: grace_over_def stop_end_def releaseAllConnections_def held_def Let_def stop_begin_def stop_answer_def split: option.split)
qed

text \<open>
  If the container cannot be created or a stream cannot be tapped, the constructor gives every connection
  back before it throws, if no release throws.
\<close>

theorem failed_build_returns_connections:
  assumes "distinct (map fst streams)" "createRecorderNode now i streams cs c ts None = (Inl err, n)" "err \<noteq> ConnectThrew"
  shows "held n = [] \<and> distinct (released n) \<and> length (released n) = length streams"
proof -
  obtain m where m: "connect_all streams cs (bare_node i) = (True, m)"
    using assms(2,3) by (auto simp: createRecorderNode_def unwind_def split: prod.splits bool.splits)
  have b: "books m" "nextConn m = length streams" "released m = []" "held m = [0..<nextConn m]"
    using connect_all_books [OF bare_books _ _ m] assms(1) by (simp_all add: bare_node_def keys_of_def held_def)
  obtain k where "held k = held m" "released k = released m" "n = snd (releaseAllConnections None k)"
  proof (cases c)
    case False
    with m assms(2) that [of m] show ?thesis by (simp add: createRecorderNode_def unwind_def split: prod.splits)
  next
    case True
    obtain ok k where t: "tap_all streams ts (call NCreate m) = (ok, k)" by (meson surj_pair)
    with m True assms(2) that [of "call NDestroy (call NAbort k)"] tap_all_fields [OF t]
    show ?thesis by (cases ok) (auto simp: createRecorderNode_def unwind_def held_def split: prod.splits)
  qed
  with b show ?thesis by (simp add: releaseAllConnections_def held_def)
qed

theorem failed_build_returns_connections_witness:
  "released (snd (createRecorderNode 0 ''r'' [(''a'', ''p''), (''b'', ''q'')] [True, True] True [True, False] None)) = [0, 1]"
proof -
  let ?r = "createRecorderNode 0 ''r'' [(''a'', ''p''), (''b'', ''q'')] [True, True] True [True, False] None"
  have "?r = (Inl TapThrew, snd ?r)" "distinct (map fst [(''a'', ''p''), (''b'', ''q'')])" by code_simp+
  from failed_build_returns_connections [OF this(2,1)] show ?thesis by code_simp
qed

text \<open>
  If connecting one of the initial pipes throws, the pipes connected before it stay connected: the
  constructor's guard begins after the loop, and nobody else knows of them.
\<close>

theorem failed_connect_keeps_earlier_pipes:
  assumes "distinct (map fst streams)" "createRecorderNode now i streams cs c ts thrown = (Inl ConnectThrew, n)"
  shows "released n = [] \<and> held n = [0..<nextConn n] \<and> calls n = []"
proof -
  obtain m where m: "connect_all streams cs (bare_node i) = (False, m)" and n: "n = m"
    using assms(2) by (auto simp: createRecorderNode_def unwind_def split: prod.splits bool.splits if_splits)
  have "calls m' = calls n'" if "connect_all ss oks n' = (ok, m')" for ss oks n' ok m'
    using that by (induction ss oks n' rule: connect_all.induct) (auto simp: connect_stream_def split: list.splits if_splits)
  from this [OF m] connect_all_books [OF bare_books _ _ m] assms(1) n show ?thesis
    by (simp add: bare_node_def keys_of_def held_def)
qed

theorem failed_connect_keeps_earlier_pipes_witness:
  "held (snd (createRecorderNode 0 ''r'' [(''a'', ''p''), (''b'', ''q'')] [True, False] True [] None)) = [0]"
proof -
  let ?r = "createRecorderNode 0 ''r'' [(''a'', ''p''), (''b'', ''q'')] [True, False] True [] None"
  have "?r = (Inl ConnectThrew, snd ?r)" "distinct (map fst [(''a'', ''p''), (''b'', ''q'')])" "nextConn (snd ?r) = 1" by code_simp+
  with failed_connect_keeps_earlier_pipes [OF this(2,1)] show ?thesis by simp
qed

section \<open>Stopping ends\<close>

lemma releaseStream_phase [simp]: "phase (releaseStream ok name n) = phase n"
  by (simp add: releaseStream_def Let_def split: option.split)

lemma stop_end_phase: "phase (stop_end now st r thrown n) \<in> {Done r, ReleaseThrew}" "phase (stop_end now st r None n) = Done r"
  by (simp_all add: stop_end_def Let_def releaseAllConnections_def split: option.split)

text \<open>How far \<open>stop\<close> is while the writer has not answered.\<close>

definition unanswered :: "node \<Rightarrow> bool" where
  "unanswered n \<longleftrightarrow> phase n \<in> {Finalizing, Grace, Done Truncated, ReleaseThrew}"

definition given_up :: "node \<Rightarrow> bool" where
  "given_up n \<longleftrightarrow> phase n \<in> {Grace, Done Truncated, ReleaseThrew}"

definition not_finalized :: "node_event \<Rightarrow> bool" where
  "not_finalized e = (case e of FinalizeSettles now (Some r) st thrown \<Rightarrow> False | _ \<Rightarrow> True)"

lemma other_events_keep_phase:
  "phase n \<noteq> Running \<Longrightarrow> (case e of FinalizeSettles now r st x \<Rightarrow> False | DeadlineFires \<Rightarrow> False | GraceOver now st x \<Rightarrow> False | _ \<Rightarrow> True)
   \<Longrightarrow> phase (node_step n e) = phase n"
  by (cases e)
     (auto simp: poll_timer_def addStream_def removeStream_def addDataStream_def postData_def removeDataStream_def stop_begin_def Let_def)

lemma stopped_phases:
  "unanswered (stop_end now st Truncated thrown n)" "given_up (stop_end now st Truncated thrown n)"
  using stop_end_phase(1) [of now st Truncated thrown n] by (auto simp: unanswered_def given_up_def)

lemma unanswered_step: "unanswered n \<Longrightarrow> not_finalized e \<Longrightarrow> unanswered (node_step n e)"
proof (cases e)
  case (FinalizeSettles now r st thrown)
  then show "unanswered n \<Longrightarrow> not_finalized e \<Longrightarrow> ?thesis"
    by (cases "phase n"; cases r) (simp_all add: stopped_phases finalize_settles_def not_finalized_def)
next
  case (GraceOver now st thrown)
  then show "unanswered n \<Longrightarrow> ?thesis" by (simp add: stopped_phases grace_over_def)
qed (use other_events_keep_phase [of n e] in \<open>auto simp: unanswered_def deadline_fires_def\<close>)

lemma given_up_step: "given_up n \<Longrightarrow> given_up (node_step n e)"
proof (cases e)
  case (FinalizeSettles now r st thrown)
  then show "given_up n \<Longrightarrow> ?thesis"
    by (cases "phase n") (simp_all add: stopped_phases finalize_settles_def given_up_def [of n])
next
  case (GraceOver now st thrown)
  then show "given_up n \<Longrightarrow> ?thesis" by (simp add: stopped_phases grace_over_def)
qed (use other_events_keep_phase [of n e] in \<open>auto simp: given_up_def deadline_fires_def\<close>)

interpretation waiting: guarded_machine node_step unanswered not_finalized
  by unfold_locales (rule unanswered_step)

interpretation given_up: machine node_step given_up
  by unfold_locales (rule given_up_step)

text \<open>
  A writer that never finalizes cannot hang \<open>stop\<close>: once it was called, the deadline and then the grace
  period end it, whatever else happens in between, and a container that was not finalized in time is reported
  as truncated, unless the release of a pipe throws.
\<close>

theorem stop_survives_a_wedged_writer:
  assumes "phase (run node_step n0 es1) = Running" "list_all not_finalized es2"
  shows "phase (run node_step n0 (es1 @ Stop t st ns f True # es2 @ DeadlineFires # es3 @ [GraceOver t' st' thrown])) \<in> {Done Truncated, ReleaseThrew}"
proof -
  let ?n = "node_step (run node_step n0 es1) (Stop t st ns f True)"
  have "unanswered ?n" using assms(1) by (simp add: unanswered_def stop_begin_def)
  from waiting.run_inv [OF this assms(2)]
  have "given_up (node_step (run node_step ?n es2) DeadlineFires)"
    by (auto simp: unanswered_def given_up_def deadline_fires_def)
  from given_up.run_inv [OF this, of es3] stop_end_phase(1) [where r = Truncated] show ?thesis
    by (auto simp: given_up_def grace_over_def)
qed

theorem stop_survives_a_wedged_writer_witness:
  "phase (run node_step demo_node ([] @ Stop 5 None [] (\<lambda>_. None) True # [RemoveStream ''left'' True True] @ DeadlineFires # [PostData ''x''] @ [GraceOver 9 None None]))
     \<in> {Done Truncated, ReleaseThrew}"
  by (rule stop_survives_a_wedged_writer) (simp_all add: not_finalized_def demo_node_def createRecorderNode_def connect_stream_def call_def bare_node_def)

text \<open>
  A data stream removed after \<open>stop\<close> has settled still reaches the native recorder, whose handle is gone by
  then and which throws: unlike the other operations, \<open>removeDataStream\<close> does not look whether it stopped.
\<close>

theorem data_stream_removed_after_destroy:
  assumes "phase n = Done r" "name \<in> set (dataStreams n)"
  shows "calls (removeDataStream name n) = calls n @ [NRemoveData name] \<and> calls (postData name n) = calls n
    \<and> addDataStream name n = (Inl AfterFinalize, n)"
  using assms by (simp add: removeDataStream_def postData_def addDataStream_def call_def)

section \<open>The meter shows the counters\<close>

definition count_of :: "string \<Rightarrow> int table \<Rightarrow> int" where
  "count_of k t = (case map_of t k of Some v \<Rightarrow> v | None \<Rightarrow> 0)"

definition total :: "(counters \<Rightarrow> int) \<Rightarrow> stream_fold table \<Rightarrow> int" where
  "total g fs = sum_list (map (\<lambda>p. g (f_prev (snd p))) fs)"

definition prev_of :: "string \<Rightarrow> stream_fold table \<Rightarrow> counters" where
  "prev_of name fs = (case map_of fs name of Some f \<Rightarrow> f_prev f | None \<Rightarrow> zero_counters)"

lemma count_add [simp]: "count_of k' (add_count k n t) = count_of k' t + (if k' = k then n else 0)"
  by (simp add: count_of_def add_count_def table_simps)

lemma total_update:
  "distinct (keys_of fs) \<Longrightarrow> g zero_counters = 0 \<Longrightarrow> total g (AList.update name f fs) = total g fs + g (f_prev f) - g (prev_of name fs)"
proof (induction fs)
  case (Cons p fs)
  show ?case
  proof (cases "fst p = name")
    case True
    then show ?thesis by (cases p) (simp add: total_def prev_of_def)
  next
    case False
    with Cons show ?thesis by (cases p) (simp add: total_def prev_of_def keys_of_def)
  qed
qed (simp add: total_def prev_of_def)

text \<open>Cumulative counters do not fall.\<close>

definition grows :: "counters \<Rightarrow> counters \<Rightarrow> bool" where
  "grows p q \<longleftrightarrow> k_ingested p \<le> k_ingested q \<and> k_droppedQueue p \<le> k_droppedQueue q \<and> k_droppedRing p \<le> k_droppedRing q
     \<and> k_written p \<le> k_written q \<and> k_bytes p \<le> k_bytes q"

definition metered :: "workload \<times> stream_fold table \<Rightarrow> bool" where
  "metered s \<longleftrightarrow> \<not> w_disposed (fst s) \<and> distinct (keys_of (snd s))
     \<and> (\<forall>name. count_of name (inputs (fst s)) = k_ingested (prev_of name (snd s)))
     \<and> count_of ''queue-overflow'' (drops (fst s)) = total k_droppedQueue (snd s)
     \<and> count_of ''ring-recycled'' (drops (fst s)) = total k_droppedRing (snd s)
     \<and> count_of ''written'' (outputs (fst s)) = total k_written (snd s)
     \<and> count_of ''bytes'' (outputs (fst s)) = total k_bytes (snd s)"

lemma when_counts:
  "\<not> w_disposed w \<Longrightarrow> \<not> w_disposed (when_some d (ingest now k d) w)"
  "\<not> w_disposed w \<Longrightarrow> count_of k' (inputs (when_some d (ingest now k d) w)) = count_of k' (inputs w) + (if k' = k then d else 0)"
  "drops (when_some d (ingest now k d) w) = drops w" "outputs (when_some d (ingest now k d) w) = outputs w"
  "\<not> w_disposed w \<Longrightarrow> \<not> w_disposed (when_some d (drop_units k d) w)"
  "\<not> w_disposed w \<Longrightarrow> count_of k' (drops (when_some d (drop_units k d) w)) = count_of k' (drops w) + (if k' = k then d else 0)"
  "inputs (when_some d (drop_units k d) w) = inputs w" "outputs (when_some d (drop_units k d) w) = outputs w"
  "\<not> w_disposed w \<Longrightarrow> \<not> w_disposed (when_some d (emit_out now k d) w)"
  "\<not> w_disposed w \<Longrightarrow> count_of k' (outputs (when_some d (emit_out now k d) w)) = count_of k' (outputs w) + (if k' = k then d else 0)"
  "inputs (when_some d (emit_out now k d) w) = inputs w" "drops (when_some d (emit_out now k d) w) = drops w"
  by (simp_all add: when_some_def ingest_def drop_units_def emit_out_def)

lemma meter_deltas_counts:
  assumes "\<not> w_disposed w" "grows p q"
  shows "\<not> w_disposed (meter_deltas now name p q w)"
    "count_of k (inputs (meter_deltas now name p q w)) = count_of k (inputs w) + (if k = name then k_ingested q - k_ingested p else 0)"
    "count_of ''queue-overflow'' (drops (meter_deltas now name p q w)) = count_of ''queue-overflow'' (drops w) + (k_droppedQueue q - k_droppedQueue p)"
    "count_of ''ring-recycled'' (drops (meter_deltas now name p q w)) = count_of ''ring-recycled'' (drops w) + (k_droppedRing q - k_droppedRing p)"
    "count_of ''written'' (outputs (meter_deltas now name p q w)) = count_of ''written'' (outputs w) + (k_written q - k_written p)"
    "count_of ''bytes'' (outputs (meter_deltas now name p q w)) = count_of ''bytes'' (outputs w) + (k_bytes q - k_bytes p)"
  using assms by (simp_all add: meter_deltas_def Let_def when_counts grows_def)

lemma prev_of_update [simp]: "prev_of k (AList.update name f fs) = (if k = name then f_prev f else prev_of k fs)"
  by (simp add: prev_of_def table_simps)

lemma metered_stream:
  assumes "metered (w, fs)" "grows (prev_of name fs) q" "fold_stream now (name, q) (w, fs, out) = (w', fs', out')"
  shows "metered (w', fs') \<and> (\<forall>k. prev_of k fs' = (if k = name then q else prev_of k fs))"
proof -
  have p: "f_prev (case map_of fs name of None \<Rightarrow> new_fold | Some f \<Rightarrow> f) = prev_of name fs"
    by (simp add: prev_of_def new_fold_def split: option.split)
  obtain fps where e: "w' = meter_deltas now name (prev_of name fs) q w" "fs' = AList.update name \<lparr>f_prev = q, f_fps = fps\<rparr> fs"
    using assms(3) p by (auto simp: fold_stream_def Let_def)
  have "\<not> w_disposed w" "distinct (keys_of fs)" using assms(1) by (simp_all add: metered_def)
  with assms(1,2) e show ?thesis
    by (simp add: metered_def meter_deltas_counts total_update zero_counters_def)
qed

lemma metered_fold:
  assumes "metered (w, fs)" "distinct (keys_of incoming)" "list_all (\<lambda>(name, q). grows (prev_of name fs) q) incoming"
    "fold (fold_stream now) incoming (w, fs, out) = (w', fs', out')"
  shows "metered (w', fs') \<and> (\<forall>k. prev_of k fs' = (case map_of incoming k of Some q \<Rightarrow> q | None \<Rightarrow> prev_of k fs))"
  using assms
proof (induction incoming arbitrary: w fs out)
  case (Cons e es)
  obtain name q where e: "e = (name, q)" by (cases e)
  obtain w1 fs1 out1 where s: "fold_stream now (name, q) (w, fs, out) = (w1, fs1, out1)" by (metis prod_cases3)
  have one: "metered (w1, fs1)" "\<And>k. prev_of k fs1 = (if k = name then q else prev_of k fs)"
    using metered_stream [OF Cons.prems(1) _ s] Cons.prems(3) e by simp_all
  have fresh: "name \<notin> set (keys_of es)" using Cons.prems(2) e by (simp add: keys_of_def)
  then have "list_all (\<lambda>(name, q). grows (prev_of name fs1) q) es"
    using Cons.prems(3) one(2) by (force simp: list_all_iff keys_of_def)
  from Cons.IH [OF one(1) _ this] Cons.prems(2,4) e s
  have "metered (w', fs') \<and> (\<forall>k. prev_of k fs' = (case map_of es k of Some q \<Rightarrow> q | None \<Rightarrow> prev_of k fs1))"
    by (simp add: keys_of_def)
  moreover have "map_of es name = None" using fresh by (simp add: keys_of_def map_of_eq_None_iff)
  ultimately show ?case using one(2) e by (auto split: option.split)
qed simp

text \<open>The polls of a node, each with its clock reading and the native counters it read.\<close>

definition poll_step :: "workload \<times> stream_fold table \<Rightarrow> int \<times> counters table \<Rightarrow> workload \<times> stream_fold table" where
  "poll_step s e = (case foldStreamStats (fst e) (snd e) s of (w, fs, out) \<Rightarrow> (w, fs))"

definition counters_grow :: "workload \<times> stream_fold table \<Rightarrow> int \<times> counters table \<Rightarrow> bool" where
  "counters_grow s e \<longleftrightarrow> distinct (keys_of (snd e)) \<and> list_all (\<lambda>(name, q). grows (prev_of name (snd s)) q) (snd e)"

lemma poll_metered:
  assumes "metered s" "counters_grow s e"
  shows "metered (poll_step s e)"
proof -
  obtain w fs out where f: "foldStreamStats (fst e) (snd e) s = (w, fs, out)" by (metis prod_cases3)
  then have "fold (fold_stream (fst e)) (snd e) (fst s, snd s, []) = (w, fs, out)" by (simp add: foldStreamStats_def)
  from metered_fold [OF _ _ _ this] assms f show ?thesis by (simp add: counters_grow_def poll_step_def)
qed

interpretation polling: client_machine poll_step metered counters_grow
  by unfold_locales (rule poll_metered)

lemma new_workload_counts [simp]: "count_of k (inputs (new_workload i ins outs now)) = 0"
  "count_of k (outputs (new_workload i ins outs now)) = 0" "drops (new_workload i ins outs now) = []"
  "\<not> w_disposed (new_workload i ins outs now)"
proof -
  have "count_of k t = 0 \<Longrightarrow> count_of k (assign_all t (map (\<lambda>x. (x, 0)) xs)) = 0" for t xs
    by (induction xs arbitrary: t) (simp_all add: count_of_def table_simps)
  then show "count_of k (inputs (new_workload i ins outs now)) = 0" "count_of k (outputs (new_workload i ins outs now)) = 0"
    by (simp_all add: new_workload_def count_of_def [of k "[]"])
qed (simp_all add: new_workload_def)

text \<open>
  C16. Folding deltas poll by poll loses and doubles nothing: as long as the native counters do not fall, the
  recorder's meter shows for every stream the frames the recorder took in, and per cause the frames shed, the
  frames and the bytes written over all streams, exactly as of the last poll of each stream.
\<close>

theorem meter_shows_the_counters:
  assumes "obeys counters_grow poll_step (new_workload i ins outs now, []) es"
  defines "s \<equiv> run poll_step (new_workload i ins outs now, []) es"
  shows "count_of name (inputs (fst s)) = k_ingested (prev_of name (snd s))
    \<and> count_of ''queue-overflow'' (drops (fst s)) = total k_droppedQueue (snd s)
    \<and> count_of ''ring-recycled'' (drops (fst s)) = total k_droppedRing (snd s)
    \<and> count_of ''written'' (outputs (fst s)) = total k_written (snd s)
    \<and> count_of ''bytes'' (outputs (fst s)) = total k_bytes (snd s)"
proof -
  have "metered (new_workload i ins outs now, [])"
    by (simp add: metered_def prev_of_def total_def zero_counters_def keys_of_def count_of_def [of _ "[]"])
  from polling.run_inv [OF this assms(1)] show ?thesis by (simp add: metered_def s_def)
qed

theorem meter_shows_the_counters_witness:
  "let c = (\<lambda>n. \<lparr>k_ingested = n + 1, k_dropped = 1, k_droppedQueue = 1, k_droppedRing = 0, k_written = n, k_bytes = 10 * n\<rparr>);
       s = run poll_step (new_workload ''r'' [''a''] [''written''] 0, []) [(1, [(''a'', c 2)]), (2, [(''a'', c 5), (''b'', c 3)])]
   in count_of ''written'' (outputs (fst s)) = 8 \<and> count_of ''queue-overflow'' (drops (fst s)) = 2"
proof -
  let ?c = "\<lambda>n. \<lparr>k_ingested = n + 1, k_dropped = 1, k_droppedQueue = 1, k_droppedRing = 0, k_written = n, k_bytes = 10 * n\<rparr> :: counters"
  let ?es = "[(1, [(''a'', ?c 2)]), (2, [(''a'', ?c 5), (''b'', ?c 3)])]"
  have g: "obeys counters_grow poll_step (new_workload ''r'' [''a''] [''written''] 0, []) ?es" by code_simp
  have t: "total k_written (snd (run poll_step (new_workload ''r'' [''a''] [''written''] 0, []) ?es)) = 8"
    "total k_droppedQueue (snd (run poll_step (new_workload ''r'' [''a''] [''written''] 0, []) ?es)) = 2" by code_simp+
  from meter_shows_the_counters [OF g] t show ?thesis by (simp only: Let_def simp_thms)
qed

end
