(* ===== verification/RawPipes.thy ===== *)
theory RawPipes
  imports Prelude "HOL-Library.Word"
begin

unbundle bit_operations_syntax

text \<open>
  The shared raw camera pipes (\<open>app/orchestrator/raw-pipe.ts\<close>) and the compression bricks on top of them
  (\<open>app/orchestrator/compress-pipe.ts\<close>). The native producers are a parameter: each call may throw, as the
  events say. The lemmas show that a producer runs exactly while somebody holds its pipe, that an id is
  advertised once at a time, what a failing attach leaves behind, and the size of the slots.
\<close>

section \<open>Geometry\<close>

datatype payload_kind = Raw | Raw12p

record pixel_format =
  pf_name :: string
  pf_channels :: nat
  pf_dtype :: string
  pf_significantBits :: nat
  pf_isPacked :: bool

record advert =
  a_id :: string
  a_pixelFormat :: string
  a_dtype :: string
  a_width :: nat
  a_height :: nat
  a_channels :: nat
  a_stride :: nat
  a_bytesPerFrame :: nat
  a_significantBits :: nat
  a_ringDepth :: nat
  a_maxWidth :: "nat option"
  a_maxHeight :: "nat option"
  a_maxBytes :: "nat option"

text \<open>The camera: its serial, format name and dimensions; \<open>formats\<close> is the registry of pixel formats.\<close>

record camera =
  c_serial :: string
  c_format :: string
  c_width :: nat
  c_height :: nat

definition DEFAULT_RAW_RING_DEPTH :: nat where "DEFAULT_RAW_RING_DEPTH = 48"

definition pixelFormatSpec :: "pixel_format list \<Rightarrow> string \<Rightarrow> pixel_format option" where
  "pixelFormatSpec formats name = find (\<lambda>f. pf_name f = name) formats"

definition raw_pipe_id :: "camera \<Rightarrow> string" where
  "raw_pipe_id c = ''camera/'' @ c_serial c @ ''/raw''"

definition rawPipeSpec :: "pixel_format list \<Rightarrow> camera \<Rightarrow> string \<Rightarrow> nat \<Rightarrow> advert" where
  "rawPipeSpec formats c pipeId depth = (let spec = pixelFormatSpec formats (c_format c);
       ch = (case spec of Some f \<Rightarrow> pf_channels f | None \<Rightarrow> 1);
       u16 = (case spec of Some f \<Rightarrow> pf_dtype f = ''U16'' | None \<Rightarrow> False);
       stride = c_width c * ch * (if u16 then 2 else 1)
     in \<lparr>a_id = pipeId, a_pixelFormat = c_format c, a_dtype = (if u16 then ''U16'' else ''U8''), a_width = c_width c,
        a_height = c_height c, a_channels = ch, a_stride = stride, a_bytesPerFrame = stride * c_height c,
        a_significantBits = (case spec of Some f \<Rightarrow> pf_significantBits f | None \<Rightarrow> if u16 then 16 else 8),
        a_ringDepth = depth, a_maxWidth = None, a_maxHeight = None, a_maxBytes = None\<rparr>)"

text \<open>\<open>Math.ceil\<close> of a quotient.\<close>

definition ceil_div :: "nat \<Rightarrow> nat \<Rightarrow> nat" where
  "ceil_div n d = (n + d - 1) div d"

definition raw12pPipeSpec :: "pixel_format list \<Rightarrow> camera \<Rightarrow> string \<Rightarrow> nat \<Rightarrow> advert" where
  "raw12pPipeSpec formats c pipeId depth = (let spec = pixelFormatSpec formats (c_format c);
       ch = (case spec of Some f \<Rightarrow> pf_channels f | None \<Rightarrow> 1);
       stride = (case spec of Some f \<Rightarrow> if pf_isPacked f then ceil_div (c_width c * ch * 12) 8
                   else c_width c * ch * (if pf_dtype f = ''U16'' then 2 else 1) | None \<Rightarrow> c_width c * ch);
       bytes = stride * c_height c
     in \<lparr>a_id = pipeId, a_pixelFormat = c_format c, a_dtype = ''U8'', a_width = c_width c, a_height = c_height c,
        a_channels = ch, a_stride = stride, a_bytesPerFrame = bytes,
        a_significantBits = (case spec of Some f \<Rightarrow> pf_significantBits f | None \<Rightarrow> 8), a_ringDepth = depth,
        a_maxWidth = Some stride, a_maxHeight = Some (c_height c), a_maxBytes = Some bytes\<rparr>)"

text \<open>JavaScript's \<open>n >> k\<close>: the number as a signed 32-bit integer, shifted arithmetically.\<close>

definition js_shr :: "int \<Rightarrow> nat \<Rightarrow> int" where
  "js_shr n k = sint (word_of_int n :: 32 word) div 2 ^ k"

definition zlibBound :: "int \<Rightarrow> int" where
  "zlibBound n = n + js_shr n 12 + js_shr n 14 + js_shr n 25 + 13"

definition ZLIB_SUFFIX :: string where "ZLIB_SUFFIX = ''/zlib''"

definition compressPipeSpec :: "advert \<Rightarrow> advert" where
  "compressPipeSpec src = (let srcMax = max (case a_maxBytes src of Some b \<Rightarrow> b | None \<Rightarrow> 0) (a_bytesPerFrame src)
     in src\<lparr>a_id := a_id src @ ZLIB_SUFFIX, a_pixelFormat := a_pixelFormat src @ ZLIB_SUFFIX, a_dtype := ''U8'',
        a_maxWidth := Some (case a_maxWidth src of Some w \<Rightarrow> w | None \<Rightarrow> a_stride src),
        a_maxHeight := Some (case a_maxHeight src of Some h \<Rightarrow> h | None \<Rightarrow> a_height src),
        a_maxBytes := Some (nat (zlibBound (int srcMax)))\<rparr>)"

section \<open>The registry\<close>

record entry =
  e_kind :: payload_kind
  e_spec :: advert
  e_refs :: nat

text \<open>A handle given out: its pipe, its kind, and whether it was released.\<close>

record handle =
  h_pipe :: string
  h_kind :: payload_kind
  h_released :: bool

text \<open>The registry with what the native side has advertised and attached.\<close>

record raw_pipes =
  entries :: "entry table"
  handles :: "handle list"
  advertised :: "string list"
  attached :: "string list"
  bricks :: "string list"

definition no_pipes :: raw_pipes where
  "no_pipes = \<lparr>entries = [], handles = [], advertised = [], attached = [], bricks = []\<rparr>"

text \<open>What the native calls of an acquisition do: both succeed, or one throws.\<close>

datatype native_outcome = NativeOk | AdvertiseThrows | AttachThrows

definition acquire :: "native_outcome \<Rightarrow> payload_kind \<Rightarrow> string \<Rightarrow> advert \<Rightarrow> raw_pipes \<Rightarrow> nat option \<times> raw_pipes" where
  "acquire out k p spec s = (case map_of (entries s) p of
      Some e \<Rightarrow> if e_kind e \<noteq> k then (None, s)
        else (Some (length (handles s)), s\<lparr>entries := AList.update p (e\<lparr>e_refs := e_refs e + 1\<rparr>) (entries s),
               handles := handles s @ [\<lparr>h_pipe = p, h_kind = k, h_released = False\<rparr>]\<rparr>)
    | None \<Rightarrow> (case out of
        AdvertiseThrows \<Rightarrow> (None, s)
      | AttachThrows \<Rightarrow> (None, s\<lparr>advertised := advertised s @ [p]\<rparr>)
      | NativeOk \<Rightarrow> (Some (length (handles s)),
          s\<lparr>advertised := advertised s @ [p], attached := attached s @ [p],
            entries := AList.update p \<lparr>e_kind = k, e_spec = spec, e_refs = 1\<rparr> (entries s),
            handles := handles s @ [\<lparr>h_pipe = p, h_kind = k, h_released = False\<rparr>]\<rparr>)))"

definition release_handle :: "nat \<Rightarrow> raw_pipes \<Rightarrow> raw_pipes" where
  "release_handle h s = (if length (handles s) \<le> h \<or> h_released (handles s ! h) then s
     else let p = h_pipe (handles s ! h); s1 = s\<lparr>handles := (handles s)[h := (handles s ! h)\<lparr>h_released := True\<rparr>]\<rparr>
       in case map_of (entries s) p of
           None \<Rightarrow> s1
         | Some e \<Rightarrow> if 1 < e_refs e then s1\<lparr>entries := AList.update p (e\<lparr>e_refs := e_refs e - 1\<rparr>) (entries s)\<rparr>
             else s1\<lparr>entries := AList.delete p (entries s), attached := remove1 p (attached s), advertised := remove1 p (advertised s)\<rparr>)"

definition refCount :: "string \<Rightarrow> raw_pipes \<Rightarrow> nat" where
  "refCount p s = (case map_of (entries s) p of Some e \<Rightarrow> e_refs e | None \<Rightarrow> 0)"

definition specOf :: "string \<Rightarrow> raw_pipes \<Rightarrow> advert option" where
  "specOf p s = map_option e_spec (map_of (entries s) p)"

text \<open>A compression brick: its sibling pipe is advertised and the brick attached, and both are undone.\<close>

definition createCompressPipe :: "advert \<Rightarrow> raw_pipes \<Rightarrow> advert \<times> raw_pipes" where
  "createCompressPipe src s = (let spec = compressPipeSpec src in (spec, s\<lparr>bricks := bricks s @ [a_id spec]\<rparr>))"

definition retire :: "advert \<Rightarrow> raw_pipes \<Rightarrow> raw_pipes" where
  "retire spec s = s\<lparr>bricks := remove1 (a_id spec) (bricks s)\<rparr>"

datatype pipe_event = Acquire native_outcome payload_kind string advert | Release nat

fun pipes_step :: "raw_pipes \<Rightarrow> pipe_event \<Rightarrow> raw_pipes" where
  "pipes_step s (Acquire out k p spec) = snd (acquire out k p spec s)"
| "pipes_step s (Release h) = release_handle h s"

section \<open>Producers run while their pipe is held\<close>

definition holders :: "string \<Rightarrow> raw_pipes \<Rightarrow> nat" where
  "holders p s = length (filter (\<lambda>h. h_pipe h = p \<and> \<not> h_released h) (handles s))"

definition pipes_ok :: "raw_pipes \<Rightarrow> bool" where
  "pipes_ok s \<longleftrightarrow> (\<forall>p. refCount p s = holders p s) \<and> distinct (keys_of (entries s))
     \<and> (\<forall>p e. map_of (entries s) p = Some e \<longrightarrow> 0 < e_refs e) \<and> attached s = keys_of (entries s)"

lemma keys_update: "map_of t p \<noteq> None \<Longrightarrow> keys_of (AList.update p v t) = keys_of t"
  by (induction t) (auto simp: keys_of_def)

lemma keys_delete: "distinct (keys_of t) \<Longrightarrow> keys_of (AList.delete p t) = remove1 p (keys_of t)"
  by (induction t) (auto simp: keys_of_def AList.delete_eq filter_id_conv remove1_idem)

lemma holders_append: "holders p (s\<lparr>handles := handles s @ [h], entries := es, advertised := a, attached := b\<rparr>)
    = holders p s + (if h_pipe h = p \<and> \<not> h_released h then 1 else 0)"
  "holders p (s\<lparr>entries := es, handles := handles s @ [h]\<rparr>) = holders p s + (if h_pipe h = p \<and> \<not> h_released h then 1 else 0)"
  by (simp_all add: holders_def)

lemma holders_frame [simp]: "holders p (s\<lparr>advertised := a\<rparr>) = holders p s" "refCount p (s\<lparr>advertised := a\<rparr>) = refCount p s"
  by (simp_all add: holders_def refCount_def)

lemma acquire_ok:
  assumes "pipes_ok s" shows "pipes_ok (snd (acquire out k p spec s))"
proof (cases "map_of (entries s) p")
  case (Some e)
  then have keys: "keys_of (AList.update p v (entries s)) = keys_of (entries s)" for v by (simp add: keys_update)
  have "e_refs e = holders p s" using Some assms by (auto simp: pipes_ok_def refCount_def dest: spec [of _ p])
  with Some assms keys show ?thesis
    by (auto simp: acquire_def pipes_ok_def refCount_def holders_def table_simps)
next
  case None
  then have fresh: "keys_of (AList.update p v (entries s)) = keys_of (entries s) @ [p]" "p \<notin> set (keys_of (entries s))" for v
    by (simp_all add: update_fresh keys_of_def map_of_eq_None_iff)
  have none: "holders p s = 0" using assms None by (auto simp: pipes_ok_def refCount_def dest: spec [of _ p])
  show ?thesis
    using None assms fresh none
    by (cases out) (auto simp: acquire_def pipes_ok_def refCount_def holders_def table_simps)
qed

lemma holders_release:
  assumes "h < length (handles s)" "\<not> h_released (handles s ! h)"
  shows "length (filter (\<lambda>x. h_pipe x = p \<and> \<not> h_released x) ((handles s)[h := (handles s ! h)\<lparr>h_released := True\<rparr>]))
      + (if h_pipe (handles s ! h) = p then 1 else 0) = holders p s"
  using filter_update_count [OF assms(1), of "\<lambda>x. h_pipe x = p \<and> \<not> h_released x" "(handles s ! h)\<lparr>h_released := True\<rparr>"] assms(2)
  by (simp add: holders_def)

lemma release_ok:
  assumes "pipes_ok s" shows "pipes_ok (release_handle h s)"
proof (cases "h < length (handles s) \<and> \<not> h_released (handles s ! h)")
  case True
  let ?p = "h_pipe (handles s ! h)"
  note drop = holders_release [OF True [THEN conjunct1] True [THEN conjunct2]]
  have refs: "refCount q s = holders q s" for q using assms by (simp add: pipes_ok_def)
  have "0 < holders ?p s" using drop [of ?p] by simp
  then obtain e where e: "map_of (entries s) ?p = Some e" "e_refs e = holders ?p s"
    using refs [of ?p] by (auto simp: refCount_def split: option.splits)
  have others: "map_of (entries s) q = Some e' \<Longrightarrow> e_refs e' = holders q s" for q e' using refs [of q] by (simp add: refCount_def)
  have dist: "distinct (keys_of (entries s))" using assms by (simp add: pipes_ok_def)
  show ?thesis
  proof (cases "1 < e_refs e")
    case more: True
    let ?s = "s\<lparr>handles := (handles s)[h := (handles s ! h)\<lparr>h_released := True\<rparr>], entries := AList.update ?p (e\<lparr>e_refs := e_refs e - 1\<rparr>) (entries s)\<rparr>"
    have "refCount q ?s = holders q ?s" for q
      using drop [of q] refs [of q] e more by (cases "q = ?p") (auto simp: refCount_def holders_def table_simps)
    then have "pipes_ok ?s"
      using assms e more by (auto simp: pipes_ok_def keys_update table_simps)
    with True e more show ?thesis by (simp add: release_handle_def Let_def)
  next
    case last: False
    let ?s = "s\<lparr>handles := (handles s)[h := (handles s ! h)\<lparr>h_released := True\<rparr>], entries := AList.delete ?p (entries s),
        attached := remove1 ?p (attached s), advertised := remove1 ?p (advertised s)\<rparr>"
    have one: "holders ?p s = 1" using last e \<open>0 < holders ?p s\<close> by simp
    have "refCount q ?s = holders q ?s" for q
      using drop [of q] refs [of q] one by (cases "q = ?p") (auto simp: refCount_def holders_def table_simps)
    then have "pipes_ok ?s"
      using assms dist by (auto simp: pipes_ok_def keys_delete table_simps split: if_splits)
    with True e last show ?thesis by (simp add: release_handle_def Let_def)
  qed
qed (use assms in \<open>auto simp: release_handle_def\<close>)

lemma pipes_step_ok: "pipes_ok s \<Longrightarrow> pipes_ok (pipes_step s e)"
  by (cases e) (simp_all add: acquire_ok release_ok)

interpretation raw_registry: started_machine pipes_step pipes_ok no_pipes
  by (unfold_locales, erule pipes_step_ok) (simp add: pipes_ok_def no_pipes_def refCount_def holders_def keys_of_def)

text \<open>
  C10. After every history of acquisitions, failures included, and releases, repeated ones included, a camera's
  raw producer is attached exactly while somebody holds its pipe, once, and the reference count is the number of
  handles not released.
\<close>

theorem producers_run_while_held:
  "let s = run pipes_step no_pipes es
   in distinct (attached s) \<and> (\<forall>p. (p \<in> set (attached s) \<longleftrightarrow> 0 < holders p s) \<and> refCount p s = holders p s)"
proof -
  let ?s = "run pipes_step no_pipes es"
  have ok: "pipes_ok ?s" by (rule raw_registry.reachable_inv)
  have "p \<in> set (attached ?s) \<longleftrightarrow> 0 < refCount p ?s" for p
  proof -
    have "p \<in> set (attached ?s) \<longleftrightarrow> map_of (entries ?s) p \<noteq> None"
      using ok by (simp add: pipes_ok_def keys_of_def map_of_eq_None_iff)
    moreover have "map_of (entries ?s) p = Some e \<Longrightarrow> 0 < e_refs e" for e using ok by (simp add: pipes_ok_def)
    ultimately show ?thesis by (cases "map_of (entries ?s) p") (simp_all add: refCount_def)
  qed
  with ok show ?thesis by (simp add: pipes_ok_def Let_def)
qed

section \<open>Handles\<close>

lemma acquire_handles:
  "acquire out k p spec s = (Some h, s1) \<Longrightarrow> h = length (handles s) \<and> handles s1 = handles s @ [\<lparr>h_pipe = p, h_kind = k, h_released = False\<rparr>]
     \<and> bricks s1 = bricks s"
  "acquire out k p spec s = (None, s1) \<Longrightarrow> handles s1 = handles s \<and> bricks s1 = bricks s \<and> entries s1 = entries s \<and> attached s1 = attached s"
  by (auto simp: acquire_def split: option.splits native_outcome.splits if_splits)

lemma brick_frame [simp]:
  "handles (s\<lparr>bricks := b\<rparr>) = handles s" "pipes_ok (s\<lparr>bricks := b\<rparr>) = pipes_ok s" "specOf p (s\<lparr>bricks := b\<rparr>) = specOf p s"
  by (simp_all add: pipes_ok_def refCount_def holders_def specOf_def)

lemma release_handle_handles:
  "handles (release_handle h s) = (if h < length (handles s) then (handles s)[h := (handles s ! h)\<lparr>h_released := True\<rparr>] else handles s)"
  "bricks (release_handle h s) = bricks s"
  by (auto simp: release_handle_def Let_def list_update_id split: option.split intro!: list_update_id [symmetric] nth_equalityI)
     (auto simp: nth_list_update)

lemma release_fold:
  assumes "pipes_ok s"
  shows "pipes_ok (fold release_handle hs s)" "bricks (fold release_handle hs s) = bricks s"
    "length (handles (fold release_handle hs s)) = length (handles s)"
    "i < length (handles s) \<Longrightarrow> handles (fold release_handle hs s) ! i
       = (if i \<in> set hs then (handles s ! i)\<lparr>h_released := True\<rparr> else handles s ! i)"
  using assms by (induction hs arbitrary: s) (simp_all add: release_ok release_handle_handles nth_list_update)

section \<open>Advertisements\<close>

definition no_attach_fault :: "pipe_event \<Rightarrow> bool" where
  "no_attach_fault e = (case e of Acquire out _ _ _ \<Rightarrow> out \<noteq> AttachThrows | _ \<Rightarrow> True)"

lemma adverts_step:
  "advertised s = attached s \<Longrightarrow> no_attach_fault e \<Longrightarrow> advertised (pipes_step s e) = attached (pipes_step s e)"
  by (cases e)
     (auto simp: acquire_def release_handle_def no_attach_fault_def Let_def split: option.splits native_outcome.splits)

interpretation adverts: guarded_machine pipes_step "\<lambda>s. advertised s = attached s" no_attach_fault
  by unfold_locales (rule adverts_step)

text \<open>
  If the attach of a producer throws, the advertisement made just before it stays: nobody holds the pipe,
  no release will withdraw it, and the next acquisition advertises the same id a second time, against the rule
  of one advertisement per id.
\<close>

theorem failed_attach_leaves_advert:
  fixes k spec
  assumes "map_of (entries s) p = None" "p \<notin> set (advertised s)"
  defines "s1 \<equiv> snd (acquire AttachThrows k p spec s)"
  shows "p \<in> set (advertised s1) \<and> refCount p s1 = 0
    \<and> count (mset (advertised (snd (acquire NativeOk k p spec s1)))) p = 2"
  using assms by (simp add: s1_def acquire_def refCount_def)

theorem failed_attach_leaves_advert_witness:
  "count (mset (advertised (snd (acquire NativeOk Raw ''p'' (rawPipeSpec [] \<lparr>c_serial = ''1'', c_format = ''Mono8'', c_width = 4, c_height = 4\<rparr> ''p'' 8)
     (snd (acquire AttachThrows Raw ''p'' (rawPipeSpec [] \<lparr>c_serial = ''1'', c_format = ''Mono8'', c_width = 4, c_height = 4\<rparr> ''p'' 8) no_pipes)))))) ''p'' = 2"
  using failed_attach_leaves_advert [of no_pipes "''p''"] by (simp add: no_pipes_def)

section \<open>Sizes\<close>

lemma js_shr_mod: "js_shr n k = ((n + 2 ^ 31) mod 2 ^ 32 - 2 ^ 31) div 2 ^ k"
  by (simp add: js_shr_def int_word_sint)

lemma js_shr_small: "0 \<le> n \<Longrightarrow> n < 2 ^ 31 \<Longrightarrow> js_shr n k = n div 2 ^ k"
  by (simp add: js_shr_mod)

lemma js_shr_large: "2 ^ 31 \<le> n \<Longrightarrow> n < 2 ^ 32 \<Longrightarrow> js_shr n k = (n - 2 ^ 32) div 2 ^ k"
proof -
  assume n: "2 ^ 31 \<le> n" "n < 2 ^ 32"
  have "(n + 2 ^ 31) mod 2 ^ 32 = (n - 2 ^ 31 + 2 ^ 32) mod 2 ^ 32" by (simp add: add.commute)
  also have "\<dots> = n - 2 ^ 31" using n by (subst mod_add_self2) simp
  finally show ?thesis by (simp add: js_shr_mod)
qed

text \<open>
  For frames below 2 GiB the slot of a compressed stream is zlib's worst case, so a frame that does not
  compress still fits; from 2 GiB on the 32-bit shifts turn negative and the slot is smaller than the frame.
\<close>

theorem compressed_slots_fit:
  "(if 0 \<le> n \<and> n < 2 ^ 31 then zlibBound n = n + n div 2 ^ 12 + n div 2 ^ 14 + n div 2 ^ 25 + 13 \<and> n + 13 \<le> zlibBound n
    else if 2 ^ 31 \<le> n \<and> n < 2 ^ 32 - 2 ^ 20 then zlibBound n < n else True)"
proof -
  have "zlibBound n < n" if n: "2 ^ 31 \<le> n" "n < 2 ^ 32 - 2 ^ 20"
  proof -
    have "(n - 2 ^ 32) div 2 ^ 12 \<le> (- (2 ^ 20)) div 2 ^ 12" by (rule zdiv_mono1) (use n(2) in simp_all)
    moreover have "(n - 2 ^ 32) div 2 ^ 14 \<le> 0" "(n - 2 ^ 32) div 2 ^ 25 \<le> 0" using n(2) by (simp_all add: div_nonpos_pos_le0)
    ultimately show ?thesis using n by (simp add: zlibBound_def js_shr_large)
  qed
  then show ?thesis by (auto simp: zlibBound_def js_shr_small pos_imp_zdiv_nonneg_iff)
qed

text \<open>
  A packed row holds its samples of 12 bits, with less than one byte to spare, and a frame is its rows.
\<close>

theorem packed_rows_hold_their_samples:
  fixes p d
  assumes "pixelFormatSpec formats (c_format c) = Some f" "pf_isPacked f"
  defines "a \<equiv> raw12pPipeSpec formats c p d"
  shows "12 * c_width c * pf_channels f \<le> 8 * a_stride a \<and> 8 * a_stride a < 12 * c_width c * pf_channels f + 8
    \<and> a_maxBytes a = Some (a_stride a * a_height a)"
proof -
  have "a_stride a = (12 * c_width c * pf_channels f + 7) div 8"
    using assms by (simp add: raw12pPipeSpec_def Let_def ceil_div_def ac_simps)
  moreover have "m \<le> 8 * ((m + 7) div 8) \<and> 8 * ((m + 7) div 8) < m + 8" for m :: nat by presburger
  ultimately show ?thesis using assms by (simp add: raw12pPipeSpec_def Let_def)
qed

end
