(* ===== verification/RecordingService.thy ===== *)
theory RecordingService
  imports RawPipes
begin

text \<open>
  The recording facility over the recorder node (\<open>app/orchestrator/recording-service.ts\<close>) and the acquisition of
  an app's raw cameras for it (\<open>app/orchestrator/raw-recording.ts\<close>; \<open>app/modules/manual-control/recording.ts\<close>
  acquires its three the same way). \<open>start\<close> and \<open>stop\<close> await once each, so each is two events; recorder nodes,
  acquisitions and timers are numbered as they are made. The lemmas show that a client that waits for one call
  before the next gets everything back that a recorder whose \<open>stop\<close> rejects does not keep, and what overlapping
  calls lose for good.
\<close>

section \<open>Acquiring the cameras\<close>

text \<open>
  The loop of \<open>acquire\<close>: a raw pipe per camera and, if the method is zlib, a brick on it. A throw ends it with
  what was acquired so far. The result has the handles and the bricks, in order.
\<close>

fun acquire_streams :: "pixel_format list \<Rightarrow> bool \<Rightarrow> native_outcome list \<Rightarrow> camera list \<Rightarrow> raw_pipes
    \<Rightarrow> (nat list \<times> advert list) option \<times> raw_pipes" where
  "acquire_streams fmts zlib outs [] s = (Some ([], []), s)"
| "acquire_streams fmts zlib outs (c # cs) s =
     (let p = raw_pipe_id c; spec = rawPipeSpec fmts c p DEFAULT_RAW_RING_DEPTH
      in case acquire (case outs of [] \<Rightarrow> NativeOk | out # _ \<Rightarrow> out) Raw p spec s of
           (None, s1) \<Rightarrow> (None, s1)
         | (Some h, s1) \<Rightarrow>
             (let live = (case specOf p s1 of Some a \<Rightarrow> a | None \<Rightarrow> spec);
                  (bs, s2) = (if zlib then (let (b, s') = createCompressPipe live s1 in ([b], s')) else ([], s1))
              in case acquire_streams fmts zlib (tl outs) cs s2 of
                   (None, s3) \<Rightarrow> (None, s3)
                 | (Some (hs, bs'), s3) \<Rightarrow> (Some (h # hs, bs @ bs'), s3)))"

definition release_streams :: "nat list \<times> advert list \<Rightarrow> raw_pipes \<Rightarrow> raw_pipes" where
  "release_streams a s = fold release_handle (rev (fst a)) (fold retire (snd a) s)"

section \<open>The facility\<close>

text \<open>
  \<open>acq_released\<close> and \<open>node_stopped\<close> list what \<open>release\<close> and \<open>stop\<close> were called for; \<open>stranded\<close> the acquisitions
  that a \<open>stop\<close> did not come to release because its recorder rejected, \<open>unannounced\<close> the recorders whose container
  was not handed on because a \<open>stop\<close> ended with an error.
\<close>

record service =
  active :: bool
  s_node :: "nat option"
  s_acquisition :: "nat option"
  pollTimer :: "nat option"
  timers :: "nat list"
  starting :: nat
  stopping :: "nat option list"
  acquired :: nat
  acq_released :: "nat list"
  nodes :: nat
  node_stopped :: "nat list"
  opened :: "nat list"
  truncated :: "nat list"
  unannounced :: "nat list"
  stranded :: "nat list"

definition new_service :: service where
  "new_service = \<lparr>active = False, s_node = None, s_acquisition = None, pollTimer = None, timers = [], starting = 0,
     stopping = [], acquired = 0, acq_released = [], nodes = 0, node_stopped = [], opened = [], truncated = [],
     unannounced = [], stranded = []\<rparr>"

definition opt_list :: "'a option \<Rightarrow> 'a list" where
  "opt_list x = (case x of None \<Rightarrow> [] | Some a \<Rightarrow> [a])"

text \<open>\<open>start\<close> up to the \<open>await\<close>: the path is trimmed (of ASCII whitespace), \<open>ready\<close> is asked.\<close>

definition blank :: "char \<Rightarrow> bool" where
  "blank c \<longleftrightarrow> c \<in> {CHR '' '', CHR 0x09, CHR 0x0A, CHR 0x0B, CHR 0x0C, CHR 0x0D}"

definition start_begin :: "string \<Rightarrow> bool \<Rightarrow> service \<Rightarrow> service" where
  "start_begin path ready s = (if active s \<or> list_all blank path \<or> \<not> ready then s
     else s\<lparr>starting := Suc (starting s)\<rparr>)"

text \<open>
  What happens after it. \<open>prepare\<close> and making the directory, \<open>acquire\<close>, the node's constructor and then the
  release (\<open>False\<close> if it throws), the telemetry callback and \<open>onStarted\<close> may throw.
\<close>

datatype start_outcome = PrepareThrows | AcquireThrows | BuildThrows bool | TelemetryThrows | OnStartedThrows | Started

definition started :: "bool \<Rightarrow> service \<Rightarrow> service" where
  "started timer s = s\<lparr>acquired := Suc (acquired s), nodes := Suc (nodes s), s_node := Some (nodes s), s_acquisition := Some (acquired s),
     active := True, timers := timers s @ (if timer then [nodes s] else []), pollTimer := (if timer then Some (nodes s) else pollTimer s)\<rparr>"

definition start_rest :: "start_outcome \<Rightarrow> service \<Rightarrow> service" where
  "start_rest out s = (if starting s = 0 then s
     else let s1 = s\<lparr>starting := starting s - 1\<rparr> in case out of
         PrepareThrows \<Rightarrow> s1
       | AcquireThrows \<Rightarrow> s1
       | BuildThrows ok \<Rightarrow> (let s2 = s1\<lparr>acquired := Suc (acquired s), acq_released := acq_released s @ [acquired s]\<rparr>
           in if ok then s2\<lparr>s_node := None\<rparr> else s2)
       | TelemetryThrows \<Rightarrow> started False s1
       | OnStartedThrows \<Rightarrow> started True s1
       | Started \<Rightarrow> started True s1)"

definition stop_begin :: "service \<Rightarrow> service" where
  "stop_begin s = (if \<not> active s then s
     else s\<lparr>active := False, timers := (case pollTimer s of Some t \<Rightarrow> removeAll t (timers s) | None \<Rightarrow> timers s), pollTimer := None,
        node_stopped := node_stopped s @ opt_list (s_node s), stopping := stopping s @ [s_node s]\<rparr>)"

text \<open>
  The rest of the oldest \<open>stop\<close> under way: its node's \<open>stop\<close> rejects, or the release throws, or a callback does,
  or it ends with the container truncated or not.
\<close>

datatype stop_outcome = NodeRejects | ReleaseThrows | CallbackThrows | Finished bool

definition stop_rest :: "stop_outcome \<Rightarrow> service \<Rightarrow> service" where
  "stop_rest out s = (case stopping s of [] \<Rightarrow> s
     | finished # rest \<Rightarrow> (let s1 = s\<lparr>stopping := rest\<rparr>; s2 = s1\<lparr>s_node := None, acq_released := acq_released s @ opt_list (s_acquisition s)\<rparr>;
           s3 = s2\<lparr>s_acquisition := None\<rparr>
         in case out of
             NodeRejects \<Rightarrow> s1\<lparr>stranded := stranded s @ opt_list (s_acquisition s), unannounced := unannounced s @ opt_list finished\<rparr>
           | ReleaseThrows \<Rightarrow> s2\<lparr>unannounced := unannounced s @ opt_list finished\<rparr>
           | CallbackThrows \<Rightarrow> s3\<lparr>unannounced := unannounced s @ opt_list finished\<rparr>
           | Finished trunc \<Rightarrow> if trunc then s3\<lparr>truncated := truncated s @ opt_list finished\<rparr> else s3\<lparr>opened := opened s @ opt_list finished\<rparr>))"

datatype service_event = Start string bool | StartGoesOn start_outcome | Stop | StopGoesOn stop_outcome

fun service_step :: "service \<Rightarrow> service_event \<Rightarrow> service" where
  "service_step s (Start path ready) = start_begin path ready s"
| "service_step s (StartGoesOn out) = start_rest out s"
| "service_step s Stop = stop_begin s"
| "service_step s (StopGoesOn out) = stop_rest out s"

section \<open>One call at a time\<close>

definition one_at_a_time :: "service \<Rightarrow> service_event \<Rightarrow> bool" where
  "one_at_a_time s e = (case e of Start p r \<Rightarrow> starting s = 0 \<and> stopping s = [] | Stop \<Rightarrow> starting s = 0 \<and> stopping s = [] | _ \<Rightarrow> True)"

definition service_ok :: "service \<Rightarrow> bool" where
  "service_ok s \<longleftrightarrow> mset [0..<acquired s] = mset (acq_released s) + mset (stranded s)
        + (if active s \<or> stopping s \<noteq> [] then mset (opt_list (s_acquisition s)) else {#})
     \<and> mset [0..<nodes s] = mset (node_stopped s) + (if active s then mset (opt_list (s_node s)) else {#})
     \<and> mset (node_stopped s) = mset (opened s) + mset (truncated s) + mset (unannounced s) + mset (concat (map opt_list (stopping s)))
     \<and> (if active s then starting s = 0 \<and> stopping s = [] \<and> s_node s \<noteq> None \<and> timers s = opt_list (pollTimer s) \<and> s_acquisition s \<noteq> None
        else timers s = [] \<and> pollTimer s = None \<and> (if stopping s = [] then starting s \<le> 1 else starting s = 0 \<and> length (stopping s) = 1))"

lemma opt_list_simps [simp]: "opt_list None = []" "opt_list (Some x) = [x]"
  by (simp_all add: opt_list_def)

lemma start_rest_ok:
  assumes "service_ok s"
  shows "service_ok (start_rest out s)"
proof (cases "starting s = 0")
  case False
  then have a: "\<not> active s" "stopping s = []" using assms by (auto simp: service_ok_def split: if_splits)
  with assms False have st: "service_ok (started b (s\<lparr>starting := starting s - 1\<rparr>))" for b
    by (auto simp: service_ok_def started_def simp del: mset_upt)
  have other: "service_ok (start_rest out s)" if "out \<in> {PrepareThrows, AcquireThrows, BuildThrows True, BuildThrows False}"
    using that a assms False by (auto simp: start_rest_def service_ok_def Let_def simp del: mset_upt)
  show ?thesis
  proof (cases out)
    case (BuildThrows b)
    then show ?thesis using other by (cases b) simp_all
  qed (use other st False in \<open>simp_all add: start_rest_def Let_def\<close>)
qed (use assms in \<open>simp add: start_rest_def\<close>)

lemma stop_rest_ok:
  assumes "service_ok s"
  shows "service_ok (stop_rest out s)"
proof (cases "stopping s")
  case (Cons f fs)
  then have a: "\<not> active s" "starting s = 0" "fs = []" "timers s = []" "pollTimer s = None"
    using assms by (auto simp: service_ok_def split: if_splits)
  with Cons assms show ?thesis
    by (cases out) (auto simp: stop_rest_def service_ok_def Let_def simp del: mset_upt)
qed (use assms in \<open>simp add: stop_rest_def\<close>)

lemma service_step_ok:
  assumes "service_ok s" "one_at_a_time s e"
  shows "service_ok (service_step s e)"
proof (cases e)
  case (Start p r)
  with assms show ?thesis by (auto simp: start_begin_def service_ok_def one_at_a_time_def split: if_splits)
next
  case (StartGoesOn out)
  with assms(1) show ?thesis by (simp add: start_rest_ok)
next
  case Stop
  show ?thesis
  proof (cases "active s")
    case True
    then obtain a k where "s_acquisition s = Some a" "s_node s = Some k" "starting s = 0" "stopping s = []" "timers s = opt_list (pollTimer s)"
      using assms(1) by (auto simp: service_ok_def)
    with True Stop assms(1) show ?thesis
      by (cases "pollTimer s") (auto simp: stop_begin_def service_ok_def simp del: mset_upt)
  qed (use Stop assms in \<open>simp add: stop_begin_def\<close>)
next
  case (StopGoesOn t)
  with assms(1) show ?thesis by (simp add: stop_rest_ok)
qed

interpretation recording: client_machine service_step service_ok one_at_a_time
  by unfold_locales (rule service_step_ok)

text \<open>Only a recorder whose own \<open>stop\<close> rejects strands its cameras.\<close>

lemma stranded_step: "e \<noteq> StopGoesOn NodeRejects \<Longrightarrow> stranded (service_step s e) = stranded s"
  by (cases e) (auto simp: start_begin_def start_rest_def started_def stop_begin_def stop_rest_def Let_def
      split: start_outcome.split stop_outcome.split list.split)

lemma stranded_run: "StopGoesOn NodeRejects \<notin> set es \<Longrightarrow> stranded (run service_step s es) = stranded s"
  by (induction es arbitrary: s) (auto simp: stranded_step simp del: service_step.simps)

text \<open>
  C13. A session that awaits each \<open>start\<close> and \<open>stop\<close> before the next call gets everything back, whatever throws
  on the way: no acquisition that \<open>acquire\<close> returned is released twice and no recorder is stopped twice, and when
  no recording runs every acquisition was released, except those whose recorder's own \<open>stop\<close> rejected, which are
  never reached (there are none if none rejects); every recorder was stopped once, no statistics timer is left, and every container was opened,
  reported as truncated or left by a \<open>stop\<close> that ended with an error. What an \<open>acquire\<close> that throws keeps is its own
  duty.
\<close>

theorem recordings_return_everything:
  assumes "obeys one_at_a_time service_step new_service es"
  defines "s \<equiv> run service_step new_service es"
  shows "distinct (acq_released s @ stranded s) \<and> distinct (node_stopped s)
    \<and> (StopGoesOn NodeRejects \<notin> set es \<longrightarrow> stranded s = [])
    \<and> (\<not> active s \<and> stopping s = [] \<longrightarrow> set (acq_released s @ stranded s) = {..<acquired s} \<and> set (node_stopped s) = {..<nodes s}
         \<and> set (opened s @ truncated s @ unannounced s) = {..<nodes s} \<and> distinct (opened s @ truncated s @ unannounced s) \<and> timers s = [])"
proof -
  have ok: "service_ok s"
    unfolding s_def by (rule recording.run_inv [OF _ assms(1)]) (simp add: service_ok_def new_service_def)
  have a: "mset ((acq_released s @ stranded s) @ (if active s \<or> stopping s \<noteq> [] then opt_list (s_acquisition s) else [])) = mset [0..<acquired s]"
    and n: "mset (node_stopped s @ (if active s then opt_list (s_node s) else [])) = mset [0..<nodes s]"
    and o: "mset ((opened s @ truncated s @ unannounced s) @ concat (map opt_list (stopping s))) = mset (node_stopped s)"
    using ok by (simp_all add: service_ok_def del: mset_upt)
  have d: "distinct (acq_released s @ stranded s)" "distinct (node_stopped s)"
    using mset_eq_imp_distinct_iff [OF a] mset_eq_imp_distinct_iff [OF n]
    unfolding distinct_append [of "acq_released s @ stranded s"] distinct_append [of "node_stopped s"] by simp_all
  moreover have "StopGoesOn NodeRejects \<notin> set es \<longrightarrow> stranded s = []"
    using stranded_run [of es new_service] by (simp add: s_def new_service_def)
  moreover have "set (acq_released s @ stranded s) = {..<acquired s} \<and> set (node_stopped s) = {..<nodes s} \<and> set (opened s @ truncated s @ unannounced s) = {..<nodes s}
      \<and> distinct (opened s @ truncated s @ unannounced s) \<and> timers s = []" if idle: "\<not> active s" "stopping s = []"
  proof -
    have "mset (acq_released s @ stranded s) = mset [0..<acquired s]" "mset (node_stopped s) = mset [0..<nodes s]"
      "mset (opened s @ truncated s @ unannounced s) = mset (node_stopped s)" using a n o idle by (simp_all del: mset_upt)
    from mset_eq_setD [OF this(1)] mset_eq_setD [OF this(2)] mset_eq_setD [OF this(3)] mset_eq_imp_distinct_iff [OF this(3)] d(2) ok idle
    show ?thesis by (auto simp: service_ok_def)
  qed
  ultimately show ?thesis by blast
qed

theorem recordings_return_everything_witness:
  "let s = run service_step new_service [Start ''a'' True, StartGoesOn (BuildThrows True), Start ''a'' True, StartGoesOn Started, Stop, StopGoesOn (Finished False),
      Start ''b'' True, StartGoesOn TelemetryThrows, Stop, StopGoesOn NodeRejects]
   in set (acq_released s @ stranded s) = {..<3} \<and> opened s = [0] \<and> stranded s = [2]"
proof -
  let ?es = "[Start ''a'' True, StartGoesOn (BuildThrows True), Start ''a'' True, StartGoesOn Started, Stop, StopGoesOn (Finished False),
      Start ''b'' True, StartGoesOn TelemetryThrows, Stop, StopGoesOn NodeRejects]"
  have "obeys one_at_a_time service_step new_service ?es" by code_simp
  moreover have "\<not> active (run service_step new_service ?es)" "stopping (run service_step new_service ?es) = []"
    "acquired (run service_step new_service ?es) = 3" "opened (run service_step new_service ?es) = [0]" "stranded (run service_step new_service ?es) = [2]" by code_simp+
  ultimately show ?thesis using recordings_return_everything [of ?es] by (simp only: Let_def simp_thms)
qed

lemma idle_or_recording_ok:
  "obeys one_at_a_time service_step new_service es \<Longrightarrow> service_ok (run service_step new_service es)"
  by (rule recording.run_inv) (simp_all add: service_ok_def new_service_def)

section \<open>Overlapping calls\<close>

text \<open>An acquisition, or a node, that the facility no longer knows of is never released, or stopped.\<close>

definition lost_acquisition :: "nat \<Rightarrow> service \<Rightarrow> bool" where
  "lost_acquisition a s \<longleftrightarrow> a < acquired s \<and> a \<notin> set (acq_released s) \<and> s_acquisition s \<noteq> Some a"

definition lost_node :: "nat \<Rightarrow> service \<Rightarrow> bool" where
  "lost_node k s \<longleftrightarrow> k < nodes s \<and> k \<notin> set (node_stopped s) \<and> s_node s \<noteq> Some k"

lemma lost_acquisition_step: "lost_acquisition a s \<Longrightarrow> lost_acquisition a (service_step s e)"
  by (cases e)
     (auto simp: lost_acquisition_def start_begin_def start_rest_def started_def stop_begin_def stop_rest_def opt_list_def Let_def
        split: start_outcome.split stop_outcome.split option.splits list.split)

lemma lost_node_step: "lost_node k s \<Longrightarrow> lost_node k (service_step s e)"
  by (cases e)
     (auto simp: lost_node_def start_begin_def start_rest_def started_def stop_begin_def stop_rest_def opt_list_def Let_def
        split: start_outcome.split stop_outcome.split option.splits list.split)

interpretation lost_acquisitions: machine service_step "lost_acquisition a" for a
  by unfold_locales (rule lost_acquisition_step)

interpretation lost_nodes: machine service_step "lost_node k" for k
  by unfold_locales (rule lost_node_step)

definition double_start :: service where
  "double_start = run service_step new_service [Start ''a'' True, Start ''b'' True, StartGoesOn Started, StartGoesOn Started]"

text \<open>
  Two \<open>start\<close>s that overlap both pass the guard, since \<open>active\<close> is set only after the await: both record, and
  whatever happens afterwards the first recorder is never stopped, its cameras are never released and its
  timer never ends.
\<close>

theorem overlapping_starts_leak_a_recording:
  "0 \<notin> set (node_stopped (run service_step double_start es)) \<and> 0 \<notin> set (acq_released (run service_step double_start es))
     \<and> nodes double_start = 2"
proof -
  have "lost_node 0 double_start" "lost_acquisition 0 double_start" "nodes double_start = 2" by code_simp+
  with lost_nodes.run_inv [of 0 double_start es] lost_acquisitions.run_inv [of 0 double_start es]
  show ?thesis by (simp add: lost_node_def lost_acquisition_def)
qed

lemma recording_state:
  assumes "service_ok s" "active s"
  obtains a k where "s_acquisition s = Some a" "s_node s = Some k" "starting s = 0" "stopping s = []" "timers s = opt_list (pollTimer s)"
    "a < acquired s" "a \<notin> set (acq_released s)" "set (node_stopped s) \<subseteq> {..<nodes s}" "set (acq_released s) \<subseteq> {..<acquired s}"
proof -
  obtain a k where f: "s_acquisition s = Some a" "s_node s = Some k" "starting s = 0" "stopping s = []" "timers s = opt_list (pollTimer s)"
    using assms by (auto simp: service_ok_def)
  have m: "mset ((acq_released s @ stranded s) @ [a]) = mset [0..<acquired s]" "mset (node_stopped s @ [k]) = mset [0..<nodes s]"
    using assms f by (simp_all add: service_ok_def del: mset_upt)
  from mset_eq_setD [OF m(1)] mset_eq_setD [OF m(2)] mset_eq_imp_distinct_iff [OF m(1)]
  show thesis by (intro that [OF f]) auto
qed

text \<open>
  C39. In a session that has awaited each call so far, let a recording run and its \<open>stop\<close> await the finalize. A
  \<open>start\<close> with a path is then accepted; if it gets its cameras and its recorder before that \<open>stop\<close> goes on, and the
  old recorder's own \<open>stop\<close> does not reject, the rest of the \<open>stop\<close> takes the new recording apart: it releases the
  new cameras and forgets the new recorder, while the facility goes on saying that it records. Whatever happens
  later, the new recorder is never stopped and the old cameras are never released.
\<close>

theorem start_during_stop_loses_the_recording:
  assumes "obeys one_at_a_time service_step new_service es" "active (run service_step new_service es)"
    "\<not> list_all blank path" "out \<noteq> NodeRejects"
  defines "s \<equiv> run service_step new_service es"
  defines "t \<equiv> run service_step s [Stop, Start path True, StartGoesOn Started, StopGoesOn out]"
  shows "active t \<and> s_node t = None \<and> acq_released t = acq_released s @ [acquired s]
     \<and> nodes s \<notin> set (node_stopped (run service_step t es')) \<and> the (s_acquisition s) \<notin> set (acq_released (run service_step t es'))"
proof -
  have "service_ok s" unfolding s_def using assms(1) by (rule idle_or_recording_ok)
  moreover have act: "active s" using assms(2) by (simp add: s_def)
  ultimately obtain a k where f: "s_acquisition s = Some a" "s_node s = Some k" "starting s = 0" "stopping s = []" "timers s = opt_list (pollTimer s)"
    "a < acquired s" "a \<notin> set (acq_released s)" "set (node_stopped s) \<subseteq> {..<nodes s}" "set (acq_released s) \<subseteq> {..<acquired s}"
    by (rule recording_state)
  have k: "k < nodes s" using \<open>service_ok s\<close> act f
    mset_eq_setD [of "node_stopped s @ [k]" "[0..<nodes s]"] by (auto simp: service_ok_def simp del: mset_upt)
  have t: "active t \<and> s_node t = None \<and> acq_released t = acq_released s @ [acquired s] \<and> nodes t = Suc (nodes s)
      \<and> node_stopped t = node_stopped s @ [k] \<and> acquired t = Suc (acquired s) \<and> s_acquisition t \<noteq> Some a"
    using f act assms(3,4) unfolding t_def
    by (cases out) (simp_all add: stop_begin_def start_begin_def start_rest_def started_def stop_rest_def Let_def)
  have "lost_node (nodes s) t" "lost_acquisition a t"
    using t f k by (auto simp: lost_node_def lost_acquisition_def)
  with lost_nodes.run_inv [of "nodes s" t es'] lost_acquisitions.run_inv [of a t es'] t f(1) show ?thesis
    by (simp add: lost_node_def lost_acquisition_def)
qed

theorem start_during_stop_loses_the_recording_witness:
  "1 \<notin> set (node_stopped (run service_step (run service_step new_service [Start ''a'' True, StartGoesOn Started])
     [Stop, Start ''b'' True, StartGoesOn Started, StopGoesOn (Finished False), Stop, StopGoesOn (Finished False)]))"
proof -
  let ?es = "[Start ''a'' True, StartGoesOn Started]"
  have "obeys one_at_a_time service_step new_service ?es" "active (run service_step new_service ?es)" "nodes (run service_step new_service ?es) = 1"
    "\<not> list_all blank ''b''" by code_simp+
  from start_during_stop_loses_the_recording [OF this(1,2,4), of "Finished False" "[Stop, StopGoesOn (Finished False)]"] this(3)
  show ?thesis by (simp add: run_def)
qed

text \<open>
  A recorder whose \<open>stop\<close> rejects takes the cameras with it: the facility keeps the acquisition but counts as
  stopped, so nothing releases it, and the next recording overwrites it.
\<close>

theorem rejected_stop_strands_the_cameras:
  assumes "obeys one_at_a_time service_step new_service es" "active (run service_step new_service es)" "\<not> list_all blank path"
  defines "s \<equiv> run service_step new_service es"
  shows "the (s_acquisition s) \<notin> set (acq_released (run service_step s ([Stop, StopGoesOn NodeRejects, Start path True, StartGoesOn Started] @ es')))"
proof -
  have "service_ok s" unfolding s_def using assms(1) by (rule idle_or_recording_ok)
  moreover have act: "active s" using assms(2) by (simp add: s_def)
  ultimately obtain a k where f: "s_acquisition s = Some a" "s_node s = Some k" "starting s = 0" "stopping s = []" "timers s = opt_list (pollTimer s)"
    "a < acquired s" "a \<notin> set (acq_released s)" "set (node_stopped s) \<subseteq> {..<nodes s}" "set (acq_released s) \<subseteq> {..<acquired s}"
    by (rule recording_state)
  have "lost_acquisition a (run service_step s [Stop, StopGoesOn NodeRejects, Start path True, StartGoesOn Started])"
    using f act assms(3) by (simp add: lost_acquisition_def stop_begin_def start_begin_def start_rest_def started_def stop_rest_def Let_def)
  from lost_acquisitions.run_inv [OF this, of es'] f(1) show ?thesis by (simp add: lost_acquisition_def run_append)
qed

section \<open>What an acquisition gives back\<close>

lemma acquire_streams_handles:
  "acquire_streams fmts z outs cs s = (Some (hs, bs), s1) \<Longrightarrow> pipes_ok s \<Longrightarrow>
     hs = [length (handles s)..<length (handles s) + length cs] \<and> pipes_ok s1 \<and> bricks s1 = bricks s @ map a_id bs
     \<and> handles s1 = handles s @ map (\<lambda>c. \<lparr>h_pipe = raw_pipe_id c, h_kind = Raw, h_released = False\<rparr>) cs"
proof (induction cs arbitrary: outs s hs bs s1)
  case (Cons c cs)
  let ?p = "raw_pipe_id c"
  let ?out = "case outs of [] \<Rightarrow> NativeOk | out # _ \<Rightarrow> out"
  obtain h s2 where a: "acquire ?out Raw ?p (rawPipeSpec fmts c ?p DEFAULT_RAW_RING_DEPTH) s = (Some h, s2)"
    using Cons(2) by (auto simp: Let_def split: option.splits prod.splits)
  define b where "b = (case specOf ?p s2 of Some a \<Rightarrow> a | None \<Rightarrow> rawPipeSpec fmts c ?p DEFAULT_RAW_RING_DEPTH)"
  let ?s3 = "if z then snd (createCompressPipe b s2) else s2"
  let ?b = "if z then [fst (createCompressPipe b s2)] else []"
  obtain hs' bs' where r: "acquire_streams fmts z (tl outs) cs ?s3 = (Some (hs', bs'), s1)" "hs = h # hs'" "bs = ?b @ bs'"
    using Cons(2) a by (cases z) (auto simp: Let_def b_def split: option.splits prod.splits)
  have h: "h = length (handles s)" "handles s2 = handles s @ [\<lparr>h_pipe = ?p, h_kind = Raw, h_released = False\<rparr>]" "bricks s2 = bricks s"
    using acquire_handles(1) [OF a] by simp_all
  have "pipes_ok s2" using acquire_ok [OF Cons(3)] a by (metis snd_conv)
  then have s3: "pipes_ok ?s3" "handles ?s3 = handles s2" "bricks ?s3 = bricks s @ map a_id ?b"
    using h by (simp_all add: createCompressPipe_def Let_def)
  from Cons(1) [OF r(1) s3(1)] r h s3 show ?case by (auto simp: upt_conv_Cons simp del: upt_Suc)
qed simp

lemma retire_fold:
  "mset (bricks (fold retire bs s)) = mset (bricks s) - mset (map a_id bs)"
  "handles (fold retire bs s) = handles s" "pipes_ok (fold retire bs s) = pipes_ok s"
  by (induction bs arbitrary: s) (simp_all add: retire_def)

text \<open>
  Releasing an acquisition undoes it: every reference count and the set of bricks are back to what they were
  before it, whoever else holds the pipes, so no producer it started is left running.
\<close>

theorem acquisition_is_undone:
  assumes ok: "pipes_ok s" and acq: "acquire_streams fmts z outs cs s = (Some a, s1)"
  defines "s2 \<equiv> release_streams a s1"
  shows "refCount p s2 = refCount p s \<and> mset (bricks s2) = mset (bricks s) \<and> pipes_ok s2"
proof -
  let ?new = "map (\<lambda>c. \<lparr>h_pipe = raw_pipe_id c, h_kind = Raw, h_released = False\<rparr>) cs"
  obtain hs bs where a: "a = (hs, bs)" by (cases a)
  note got = acquire_streams_handles [OF acq [unfolded a] ok]
  let ?m = "fold retire bs s1"
  have m: "pipes_ok ?m" "handles ?m = handles s @ ?new" "mset (bricks ?m) = mset (bricks s)" "set (rev hs) = {length (handles s)..<length (handles s) + length cs}"
    using got by (simp_all add: retire_fold)
  note f = release_fold [OF m(1), where hs = "rev hs"]
  have "handles s2 = handles s @ map (\<lambda>x. x\<lparr>h_released := True\<rparr>) ?new"
    using f(3,4) m unfolding s2_def release_streams_def a by (intro nth_equalityI) (auto simp: nth_append)
  then have "holders p s2 = holders p s" by (simp add: holders_def filter_map comp_def)
  moreover have "pipes_ok s2" "bricks s2 = bricks ?m" using f(1,2) by (simp_all add: s2_def release_streams_def a)
  ultimately show ?thesis using ok m(3) by (simp add: pipes_ok_def)
qed

definition two_cameras :: "camera list" where
  "two_cameras = [\<lparr>c_serial = ''1'', c_format = ''Mono8'', c_width = 4, c_height = 4\<rparr>, \<lparr>c_serial = ''2'', c_format = ''Mono8'', c_width = 4, c_height = 4\<rparr>]"

theorem acquisition_is_undone_witness:
  "let (a, s1) = acquire_streams [] True [] two_cameras no_pipes
   in length (bricks s1) = 2 \<and> refCount ''camera/1/raw'' s1 = 1
      \<and> refCount ''camera/1/raw'' (release_streams (the a) s1) = 0 \<and> bricks (release_streams (the a) s1) = []"
proof -
  obtain a s1 where a: "acquire_streams [] True [] two_cameras no_pipes = (Some a, s1)"
    using that by (cases "acquire_streams [] True [] two_cameras no_pipes"; cases "fst (acquire_streams [] True [] two_cameras no_pipes)") (simp_all, code_simp)
  have "pipes_ok no_pipes" by (simp add: pipes_ok_def no_pipes_def refCount_def holders_def keys_of_def)
  note undone = acquisition_is_undone [OF this a]
  have "length (bricks (snd (acquire_streams [] True [] two_cameras no_pipes))) = 2"
    "refCount ''camera/1/raw'' (snd (acquire_streams [] True [] two_cameras no_pipes)) = 1"
    "refCount ''camera/1/raw'' no_pipes = 0" "bricks no_pipes = []" by code_simp+
  with undone [of "''camera/1/raw''"] a show ?thesis by simp
qed

text \<open>
  If a later camera of the acquisition fails, the pipes acquired before it are not released, although the
  contract of \<open>acquire\<close> is to unwind its own partial state: the caller has no handle of them, and the producer
  keeps running.
\<close>

theorem failed_acquisition_keeps_earlier_cameras:
  assumes "map_of (entries s) (raw_pipe_id c) = None" "map_of (entries s) (raw_pipe_id d) = None" "raw_pipe_id c \<noteq> raw_pipe_id d"
    and "out \<noteq> NativeOk"
  shows "fst (acquire_streams fmts False [NativeOk, out] [c, d] s) = None
     \<and> raw_pipe_id c \<in> set (attached (snd (acquire_streams fmts False [NativeOk, out] [c, d] s)))
     \<and> refCount (raw_pipe_id c) (snd (acquire_streams fmts False [NativeOk, out] [c, d] s)) = 1"
  using assms by (cases out) (simp_all add: acquire_def refCount_def table_simps Let_def split: option.split)

theorem failed_acquisition_keeps_earlier_cameras_witness:
  "attached (snd (acquire_streams [] False [NativeOk, AttachThrows] two_cameras no_pipes)) = [''camera/1/raw'']"
proof -
  let ?r = "acquire_streams [] False [NativeOk, AttachThrows] [two_cameras ! 0, two_cameras ! 1] no_pipes"
  have "raw_pipe_id (two_cameras ! 0) = ''camera/1/raw''" "raw_pipe_id (two_cameras ! 1) = ''camera/2/raw''"
    "two_cameras = [two_cameras ! 0, two_cameras ! 1]" "attached (snd ?r) = [''camera/1/raw'']" by code_simp+
  with failed_acquisition_keeps_earlier_cameras [of no_pipes "two_cameras ! 0" "two_cameras ! 1" AttachThrows "[]"]
  show ?thesis by (simp add: no_pipes_def)
qed

end
