(* ===== verification/CaptureNode.thy ===== *)
theory CaptureNode
  imports StoreCodec Metering
begin

text \<open>
  The capture node (\<open>app/orchestrator/capture-node.ts\<close>): the burst that reads a camera's fresh frames, the
  resources the worker holds until they are saved, and the host that routes runs and requests. The pipe reader is
  a function of the time and the wanted frame; images are opaque, and a native image operation may throw. The
  lemmas show that a burst accounts for every frame and ends by its deadline, that a raster's resources line up,
  that every pipe acquisition is given back once, and what failures and overlaps leave behind.
\<close>

section \<open>A burst\<close>

text \<open>One read of the ring: \<open>Frame\<close> has the frame's number, its size and the payload length if the reader says it.\<close>

datatype seq_read = Torn | Closed | NotYet | Gone int | Frame int nat nat "nat option"

text \<open>What a burst has done: \<open>b_reads\<close> counts its reads, and numbers the rounds of its loop.\<close>

record burst =
  b_want :: int
  b_frames :: "(int \<times> nat) list"
  b_dropped :: int
  b_reads :: nat

definition start_burst :: "int \<Rightarrow> burst" where
  "start_burst startSeq = \<lparr>b_want = startSeq, b_frames = [], b_dropped = 0, b_reads = 0\<rparr>"

text \<open>
  The loop; both the deadline and the reader may depend on the round. It is \<open>None\<close> exactly where it never ends.
\<close>

partial_function (option) grabBurst :: "(nat \<Rightarrow> int \<Rightarrow> seq_read) \<Rightarrow> (nat \<Rightarrow> bool) \<Rightarrow> (nat \<Rightarrow> nat \<Rightarrow> nat) \<Rightarrow> nat \<Rightarrow> burst \<Rightarrow> burst option" where
  "grabBurst rd expired bytesFor cnt b =
     (if cnt \<le> length (b_frames b) \<or> expired (b_reads b) then Some b
      else let b1 = b\<lparr>b_reads := Suc (b_reads b)\<rparr> in case rd (b_reads b) (b_want b) of
          Torn \<Rightarrow> grabBurst rd expired bytesFor cnt b1
        | Closed \<Rightarrow> Some b
        | NotYet \<Rightarrow> grabBurst rd expired bytesFor cnt b1
        | Gone oldest \<Rightarrow> grabBurst rd expired bytesFor cnt
            (b1\<lparr>b_dropped := b_dropped b + (oldest - b_want b), b_want := oldest\<rparr>)
        | Frame s w h bytes \<Rightarrow> grabBurst rd expired bytesFor cnt
            (b1\<lparr>b_frames := b_frames b @ [(s, case bytes of Some n \<Rightarrow> n | None \<Rightarrow> bytesFor w h)], b_want := s + 1\<rparr>))"






definition lapped_reader :: "nat \<Rightarrow> int \<Rightarrow> seq_read" where
  "lapped_reader t w = (if t = 0 then NotYet else if w < 5 then Gone 5 else Frame w 4 3 None)"


text \<open>A reader that is late and then a full ring behind: four frames are reported, the next two are taken.\<close>

lemma lapped_burst:
  "grabBurst lapped_reader (\<lambda>t. t = 20) (*) 2 (start_burst 1)
     = Some \<lparr>b_want = 7, b_frames = [(5, 12), (6, 12)], b_dropped = 4, b_reads = 4\<rparr>"
  by (simp add: grabBurst.simps lapped_reader_def start_burst_def)

section \<open>Start of a burst, deadline, crop\<close>

text \<open>\<open>stackStream\<close> starts after the newest frame of the ring, \<open>None\<close> if asking for it throws.\<close>

definition burst_start :: "int option \<Rightarrow> int" where
  "burst_start latest = (case latest of Some l \<Rightarrow> (if 0 < l then l + 1 else 1) | None \<Rightarrow> 1)"

definition DEFAULT_BURST_TIMEOUT_MS :: int where "DEFAULT_BURST_TIMEOUT_MS = 10000"

definition burst_timeout :: "int option \<Rightarrow> int" where
  "burst_timeout given = (case given of Some t \<Rightarrow> (if 0 < t then t else DEFAULT_BURST_TIMEOUT_MS) | None \<Rightarrow> DEFAULT_BURST_TIMEOUT_MS)"

record rect =
  r_x :: real
  r_y :: real
  r_width :: real
  r_height :: real

text \<open>\<open>Math.round\<close>: halves go up.\<close>

definition js_round :: "real \<Rightarrow> int" where
  "js_round x = \<lfloor>x + 1 / 2\<rfloor>"

definition clampRect :: "rect \<Rightarrow> int \<Rightarrow> int \<Rightarrow> int \<times> int \<times> int \<times> int" where
  "clampRect r width height =
     (let x = max 0 (min (js_round (r_x r)) (width - 1)); y = max 0 (min (js_round (r_y r)) (height - 1))
      in (x, y, max 1 (min (js_round (r_width r)) (width - x)), max 1 (min (js_round (r_height r)) (height - y))))"

lemma crop_axis:
  fixes x w size :: int
  assumes "0 < size" "x = max 0 (min p (size - 1))" "w = max 1 (min q (size - x))"
  shows "0 \<le> x \<and> 1 \<le> w \<and> x + w \<le> size"
proof -
  have "0 \<le> x" "x \<le> size - 1" using assms(1,2) by simp_all
  then show ?thesis using assms(3) by simp
qed

text \<open>
  Whatever rectangle a session asks for, the crop lies inside the frame and is not empty; a rectangle that
  already lies inside on whole pixels is kept.
\<close>

theorem crop_lies_in_the_frame:
  assumes "0 < width" "0 < height" "clampRect r width height = (x, y, w, h)"
  shows "0 \<le> x \<and> 0 \<le> y \<and> 1 \<le> w \<and> 1 \<le> h \<and> x + w \<le> width \<and> y + h \<le> height
    \<and> (\<forall>a b c d. r = \<lparr>r_x = of_int a, r_y = of_int b, r_width = of_int c, r_height = of_int d\<rparr> \<and> 0 \<le> a \<and> 0 \<le> b \<and> 1 \<le> c \<and> 1 \<le> d
         \<and> a + c \<le> width \<and> b + d \<le> height \<longrightarrow> (x, y, w, h) = (a, b, c, d))"
proof -
  have whole: "js_round (of_int k) = k" for k unfolding js_round_def by (rule floor_unique) simp_all
  have kept: "(x, y, w, h) = (a, b, c, d)"
    if "r = \<lparr>r_x = of_int a, r_y = of_int b, r_width = of_int c, r_height = of_int d\<rparr>" "0 \<le> a" "0 \<le> b" "1 \<le> c" "1 \<le> d"
      "a + c \<le> width" "b + d \<le> height" for a b c d
    using assms(3) that by (simp add: clampRect_def Let_def whole)
  have c: "max 0 (min (js_round (r_x r)) (width - 1)) = x" "max 0 (min (js_round (r_y r)) (height - 1)) = y"
    "max 1 (min (js_round (r_width r)) (width - max 0 (min (js_round (r_x r)) (width - 1)))) = w"
    "max 1 (min (js_round (r_height r)) (height - max 0 (min (js_round (r_y r)) (height - 1)))) = h"
    using assms(3) unfolding clampRect_def Let_def prod.inject by blast+
  from crop_axis [OF assms(1) c(1) [symmetric] c(3) [unfolded c(1), symmetric]]
    crop_axis [OF assms(2) c(2) [symmetric] c(4) [unfolded c(2), symmetric]]
  have "0 \<le> x \<and> 0 \<le> y \<and> 1 \<le> w \<and> 1 \<le> h \<and> x + w \<le> width \<and> y + h \<le> height" by simp
  with kept show ?thesis by blast
qed

theorem crop_lies_in_the_frame_witness:
  "let r = \<lparr>r_x = 0, r_y = 0, r_width = 1000000000, r_height = 1000000000\<rparr> in case clampRect r 4 3 of (x, y, w, h) \<Rightarrow> x + w \<le> 4 \<and> y + h \<le> 3"
proof -
  obtain x y w h where c: "clampRect \<lparr>r_x = 0, r_y = 0, r_width = 1000000000, r_height = 1000000000\<rparr> 4 3 = (x, y, w, h)"
    by (metis prod_cases4)
  have "x + w \<le> 4" "y + h \<le> 3" using crop_lies_in_the_frame [OF _ _ c] by simp_all
  with c show ?thesis by simp
qed

section \<open>The held resources\<close>

record 'i resource =
  r_meta :: "jsval option"
  r_image :: "'i option"

datatype 'i held = One "'i resource" | Many "'i resource list"

type_synonym 'i store = "'i held table"

definition accumulate :: "string \<Rightarrow> 'i resource \<Rightarrow> bool \<Rightarrow> 'i store \<Rightarrow> int \<times> 'i store" where
  "accumulate name entry indexed st =
     (if \<not> indexed then (-1, AList.update name (One entry) st)
      else let arr = (case map_of st name of Some (Many es) \<Rightarrow> es | _ \<Rightarrow> [])
           in (int (length arr), AList.update name (Many (arr @ [entry])) st))"

datatype manifest_entry = Meta jsval | Metas "jsval list"

definition meta_of :: "'i resource \<Rightarrow> jsval" where
  "meta_of e = (case r_meta e of Some m \<Rightarrow> m | None \<Rightarrow> JNull)"

definition manifestOf :: "'i store \<Rightarrow> manifest_entry table" where
  "manifestOf st = map (\<lambda>(name, h). (name, case h of One e \<Rightarrow> Meta (meta_of e) | Many es \<Rightarrow> Metas (map meta_of es))) st"

record shot =
  reset :: bool
  indexed :: bool
  stackCount :: nat
  burstTimeoutMs :: "int option"
  wide :: "jsval option"
  m_fovea :: jsval
  m_left :: jsval
  m_right :: jsval

text \<open>The images of a shot: the center frame, and what the native operations on it and the stacks return.\<close>

record 'i images =
  i_center :: 'i
  i_slice :: "'i option"
  i_left :: "'i option"
  i_right :: "'i option"
  i_diff :: "'i option"

text \<open>The second half of \<open>runCapture\<close>: holding a complete shot. A native operation that throws leaves what was held before it.\<close>

definition hold :: "string \<Rightarrow> jsval option \<Rightarrow> 'i option \<Rightarrow> bool \<Rightarrow> 'i store \<Rightarrow> 'i store" where
  "hold name m i ix st = snd (accumulate name \<lparr>r_meta = m, r_image = i\<rparr> ix st)"

definition hold_shot :: "shot \<Rightarrow> 'i images \<Rightarrow> 'i store \<Rightarrow> bool \<times> 'i store" where
  "hold_shot sh im st =
     (let ix = indexed sh;
          s0 = (if reset sh then (case wide sh of Some m \<Rightarrow> hold ''wide'' (Some m) (Some (i_center im)) False [] | None \<Rightarrow> []) else st);
          s1 = hold ''fovea'' (Some (m_fovea sh)) None ix s0
      in case i_slice im of None \<Rightarrow> (False, s1)
       | Some c \<Rightarrow> (let s2 = hold ''center'' None (Some c) ix s1 in case i_left im of None \<Rightarrow> (False, s2)
       | Some l \<Rightarrow> (case i_right im of None \<Rightarrow> (False, s2)
       | Some r \<Rightarrow> (let s4 = hold ''right'' (Some (m_right sh)) (Some r) ix (hold ''left'' (Some (m_left sh)) (Some l) ix s2)
           in case i_diff im of None \<Rightarrow> (False, s4)
       | Some d \<Rightarrow> (True, hold ''diff'' None (Some d) ix s4)))))"

definition made :: "'i images \<Rightarrow> bool" where
  "made im \<longleftrightarrow> i_slice im \<noteq> None \<and> i_left im \<noteq> None \<and> i_right im \<noteq> None \<and> i_diff im \<noteq> None"

fun raster_ok :: "(shot \<times> 'i images) list \<Rightarrow> bool" where
  "raster_ok [] = False"
| "raster_ok (x # xs) = (reset (fst x) \<and> list_all (\<lambda>y. indexed (fst y) \<and> made (snd y)) (x # xs) \<and> list_all (\<lambda>y. \<not> reset (fst y)) xs)"

definition take_shots :: "(shot \<times> 'i images) list \<Rightarrow> 'i store \<Rightarrow> 'i store" where
  "take_shots xs st = fold (\<lambda>x s. snd (hold_shot (fst x) (snd x) s)) xs st"

definition many :: "string \<Rightarrow> 'i store \<Rightarrow> 'i resource list" where
  "many name st = (case map_of st name of Some (Many es) \<Rightarrow> es | _ \<Rightarrow> [])"

lemma many_hold [simp]: "many n (hold k m i True st) = (if n = k then many k st @ [\<lparr>r_meta = m, r_image = i\<rparr>] else many n st)"
  "n \<noteq> k \<Longrightarrow> many n (hold k m i ix st) = many n st"
  by (auto simp: many_def hold_def accumulate_def table_simps Let_def)

lemma hold_shot_many:
  fixes st :: "'i store" and sh
  assumes "made im" "indexed sh"
  defines "st' \<equiv> if reset sh then [] else st"
  shows "many ''fovea'' (snd (hold_shot sh im st)) = many ''fovea'' st' @ [\<lparr>r_meta = Some (m_fovea sh), r_image = None\<rparr>]"
    "many ''center'' (snd (hold_shot sh im st)) = many ''center'' st' @ [\<lparr>r_meta = None, r_image = i_slice im\<rparr>]"
    "many ''left'' (snd (hold_shot sh im st)) = many ''left'' st' @ [\<lparr>r_meta = Some (m_left sh), r_image = i_left im\<rparr>]"
    "many ''right'' (snd (hold_shot sh im st)) = many ''right'' st' @ [\<lparr>r_meta = Some (m_right sh), r_image = i_right im\<rparr>]"
    "many ''diff'' (snd (hold_shot sh im st)) = many ''diff'' st' @ [\<lparr>r_meta = None, r_image = i_diff im\<rparr>]"
  using assms by (auto simp: hold_shot_def made_def st'_def Let_def split: option.split)

lemma take_shots_many:
  assumes "list_all (\<lambda>y. indexed (fst y) \<and> made (snd y)) xs" "list_all (\<lambda>y. \<not> reset (fst y)) xs"
  shows "many ''fovea'' (take_shots xs st) = many ''fovea'' st @ map (\<lambda>(sh, im). \<lparr>r_meta = Some (m_fovea sh), r_image = None\<rparr>) xs"
    "many ''center'' (take_shots xs st) = many ''center'' st @ map (\<lambda>(sh, im). \<lparr>r_meta = None, r_image = i_slice im\<rparr>) xs"
    "many ''left'' (take_shots xs st) = many ''left'' st @ map (\<lambda>(sh, im). \<lparr>r_meta = Some (m_left sh), r_image = i_left im\<rparr>) xs"
    "many ''right'' (take_shots xs st) = many ''right'' st @ map (\<lambda>(sh, im). \<lparr>r_meta = Some (m_right sh), r_image = i_right im\<rparr>) xs"
    "many ''diff'' (take_shots xs st) = many ''diff'' st @ map (\<lambda>(sh, im). \<lparr>r_meta = None, r_image = i_diff im\<rparr>) xs"
  using assms by (induction xs arbitrary: st) (auto simp: take_shots_def hold_shot_many)

text \<open>The image a preview shows: of one held resource, of one of many, or of the newest of many.\<close>

definition preview_of :: "string \<Rightarrow> nat option \<Rightarrow> 'i store \<Rightarrow> 'i option" where
  "preview_of name index st = (case map_of st name of
      None \<Rightarrow> None
    | Some (One e) \<Rightarrow> r_image e
    | Some (Many es) \<Rightarrow> (case index of Some i \<Rightarrow> if i < length es then r_image (es ! i) else None
        | None \<Rightarrow> if es = [] then None else r_image (last es)))"

lemma preview_accumulated:
  "preview_of name None (snd (accumulate name e ix st)) = r_image e"
  "preview_of name (Some (length (many name st))) (snd (accumulate name e True st)) = r_image e"
  "i < length (many name st) \<Longrightarrow> preview_of name (Some i) (snd (accumulate name e True st)) = preview_of name (Some i) st"
  by (auto simp: preview_of_def accumulate_def many_def table_simps Let_def nth_append split: option.splits held.splits)

text \<open>
  After a raster of shots that all succeed, every resource holds one entry per shot in the order of the
  shots: the k-th left, right, center, difference and metadata belong to the same shot, and nothing held before
  the first shot is left in them.
\<close>

theorem raster_resources_line_up:
  assumes "raster_ok xs"
  shows "many ''left'' (take_shots xs st) = map (\<lambda>(sh, im). \<lparr>r_meta = Some (m_left sh), r_image = i_left im\<rparr>) xs
    \<and> many ''right'' (take_shots xs st) = map (\<lambda>(sh, im). \<lparr>r_meta = Some (m_right sh), r_image = i_right im\<rparr>) xs
    \<and> many ''center'' (take_shots xs st) = map (\<lambda>(sh, im). \<lparr>r_meta = None, r_image = i_slice im\<rparr>) xs
    \<and> many ''diff'' (take_shots xs st) = map (\<lambda>(sh, im). \<lparr>r_meta = None, r_image = i_diff im\<rparr>) xs
    \<and> many ''fovea'' (take_shots xs st) = map (\<lambda>(sh, im). \<lparr>r_meta = Some (m_fovea sh), r_image = None\<rparr>) xs"
proof -
  obtain sh im ys where xs: "xs = (sh, im) # ys" using assms by (cases xs) auto
  have first: "reset sh" "indexed sh" "made im" using assms xs by auto
  have rest: "list_all (\<lambda>y. indexed (fst y) \<and> made (snd y)) ys" "list_all (\<lambda>y. \<not> reset (fst y)) ys" using assms xs by auto
  have "take_shots xs st = take_shots ys (snd (hold_shot sh im st))" by (simp add: take_shots_def xs)
  moreover have "many n [] = []" for n :: string and st :: "'i store" by (simp add: many_def)
  ultimately show ?thesis using take_shots_many [OF rest] hold_shot_many [OF first(3,2), of st] first(1) xs
    by (simp add: many_def)
qed

definition plain_shot :: "bool \<Rightarrow> shot" where
  "plain_shot r = \<lparr>reset = r, indexed = True, stackCount = 1, burstTimeoutMs = None, wide = None, m_fovea = JNull, m_left = JNull, m_right = JNull\<rparr>"

definition plain_images :: "nat \<Rightarrow> nat images" where
  "plain_images k = \<lparr>i_center = k, i_slice = Some k, i_left = Some k, i_right = Some k, i_diff = Some k\<rparr>"

theorem raster_resources_line_up_witness:
  "map r_image (many ''left'' (take_shots [(plain_shot True, plain_images 1), (plain_shot False, plain_images 2)] [])) = [Some 1, Some 2]"
  using raster_resources_line_up [of "[(plain_shot True, plain_images 1), (plain_shot False, plain_images 2)]" "[]"]
  by (simp add: plain_shot_def plain_images_def made_def)

text \<open>
  A shot whose alignment fails is rejected, but its metadata and its center image stay held: the k-th center
  is then no longer of the same shot as the k-th left, for every later shot of the raster too.
\<close>

theorem failed_shot_shifts_the_raster:
  fixes sh st
  assumes "i_slice im \<noteq> None" "i_left im = None" "indexed sh" "\<not> reset sh"
  defines "s1 \<equiv> snd (hold_shot sh im st)"
  assumes "list_all (\<lambda>y. indexed (fst y) \<and> made (snd y)) xs" "list_all (\<lambda>y. \<not> reset (fst y)) xs"
  shows "\<not> fst (hold_shot sh im st)
    \<and> length (many ''center'' (take_shots xs s1)) = length (many ''center'' st) + 1 + length xs
    \<and> length (many ''left'' (take_shots xs s1)) = length (many ''left'' st) + length xs"
proof -
  have "many ''center'' s1 = many ''center'' st @ [\<lparr>r_meta = None, r_image = i_slice im\<rparr>]" "many ''left'' s1 = many ''left'' st"
    "\<not> fst (hold_shot sh im st)"
    using assms(1-4) by (auto simp: s1_def hold_shot_def Let_def split: option.split)
  with take_shots_many(2,3) [OF assms(6,7)] show ?thesis by simp
qed

theorem failed_shot_shifts_the_raster_witness:
  "length (many ''center'' (take_shots [(plain_shot False, plain_images 2)] (snd (hold_shot (plain_shot False) ((plain_images 1)\<lparr>i_left := None\<rparr>) [])))) = 2
     \<and> length (many ''left'' (take_shots [(plain_shot False, plain_images 2)] (snd (hold_shot (plain_shot False) ((plain_images 1)\<lparr>i_left := None\<rparr>) [])))) = 1"
  using failed_shot_shifts_the_raster [of "(plain_images 1)\<lparr>i_left := None\<rparr>" "plain_shot False" "[(plain_shot False, plain_images 2)]" "[]"]
  by (simp add: plain_shot_def plain_images_def made_def many_def)

section \<open>One run of the worker\<close>

record bursts =
  n_center :: nat
  n_left :: nat
  n_right :: nat

text \<open>What a run posts; an error has counts and a message of its own, or the message of what was thrown.\<close>

datatype run_post = ReadingDonePost | ProgressPost | ErrorPost "(bursts \<times> string) option" | CapturedPost "manifest_entry table"

definition burst_detail :: "nat \<Rightarrow> bursts \<Rightarrow> string" where
  "burst_detail cnt b = ''center delivered '' @ decimal (n_center b) @ ''/1, left delivered '' @ decimal (n_left b) @ ''/'' @ decimal cnt
     @ '', right delivered '' @ decimal (n_right b) @ ''/'' @ decimal cnt"

definition burst_reason :: "bool \<Rightarrow> int option \<Rightarrow> string" where
  "burst_reason expired given = (if expired then ''capture burst timed out after '' @ decimal (nat (burst_timeout given)) @ ''ms''
     else ''capture burst incomplete (producer retired mid-burst)'')"

text \<open>\<open>reads\<close>: the counts of the three reads, \<open>None\<close> if one threw; \<open>expired\<close>: the deadline has passed by then.\<close>

definition runCapture :: "shot \<Rightarrow> bursts option \<Rightarrow> bool \<Rightarrow> 'i images \<Rightarrow> 'i store \<Rightarrow> run_post list \<times> 'i store" where
  "runCapture sh reads expired im st = (case reads of
      None \<Rightarrow> ([ReadingDonePost, ErrorPost None], st)
    | Some b \<Rightarrow>
        if n_left b < stackCount sh \<or> n_right b < stackCount sh \<or> n_center b = 0
        then ([ReadingDonePost, ProgressPost,
               ErrorPost (Some (b, burst_reason expired (burstTimeoutMs sh) @ '': '' @ burst_detail (stackCount sh) b))], st)
        else (case hold_shot sh im st of
            (True, st') \<Rightarrow> ([ReadingDonePost, ProgressPost, CapturedPost (manifestOf st')], st')
          | (False, st') \<Rightarrow> ([ReadingDonePost, ProgressPost, ErrorPost None], st')))"

record single_shot =
  x_reset :: bool
  x_indexed :: bool
  x_count :: nat
  x_timeout :: "int option"
  x_resource :: string
  x_wide :: "jsval option"
  x_meta :: jsval

definition runSingleCapture :: "single_shot \<Rightarrow> nat option \<Rightarrow> bool \<Rightarrow> 'i option \<Rightarrow> 'i store \<Rightarrow> run_post list \<times> 'i store" where
  "runSingleCapture sh reads expired pic st = (case reads of
      None \<Rightarrow> ([ReadingDonePost, ErrorPost None], st)
    | Some n \<Rightarrow>
        if n < x_count sh
        then ([ReadingDonePost, ProgressPost, ErrorPost (Some (\<lparr>n_center = 0, n_left = n, n_right = 0\<rparr>,
               burst_reason expired (x_timeout sh) @ '': single delivered '' @ decimal n @ ''/'' @ decimal (x_count sh)))], st)
        else (let s0 = (if x_reset sh then (case x_wide sh of Some m \<Rightarrow> hold ''wide'' (Some m) None False [] | None \<Rightarrow> []) else st)
              in case pic of None \<Rightarrow> ([ReadingDonePost, ProgressPost, ErrorPost None], s0)
               | Some i \<Rightarrow> (let s1 = hold (x_resource sh) (Some (x_meta sh)) (Some i) (x_indexed sh) s0
                   in ([ReadingDonePost, ProgressPost, CapturedPost (manifestOf s1)], s1))))"

definition result_post :: "run_post \<Rightarrow> bool" where
  "result_post p = (case p of ErrorPost _ \<Rightarrow> True | CapturedPost _ \<Rightarrow> True | _ \<Rightarrow> False)"

text \<open>
  A run first says that it no longer reads the pipes and ends with exactly one result, a manifest of all that is
  held exactly if every port delivered and every image operation succeeded; a port that falls short is rejected
  before anything held is touched.
\<close>

theorem run_posts_one_result:
  "hd (fst (runCapture sh reads expired im st)) = ReadingDonePost
     \<and> length (filter result_post (fst (runCapture sh reads expired im st))) = 1 \<and> result_post (last (fst (runCapture sh reads expired im st)))
     \<and> (last (fst (runCapture sh reads expired im st)) = CapturedPost (manifestOf (snd (runCapture sh reads expired im st)))
          \<longleftrightarrow> (\<exists>b. reads = Some b \<and> stackCount sh \<le> n_left b \<and> stackCount sh \<le> n_right b \<and> n_center b \<noteq> 0) \<and> made im)
     \<and> (snd (runCapture sh reads expired im st) = st
          \<or> (\<exists>b. reads = Some b \<and> stackCount sh \<le> n_left b \<and> stackCount sh \<le> n_right b \<and> n_center b \<noteq> 0))"
proof -
  have held: "fst (hold_shot sh im st) \<longleftrightarrow> made im"
    by (auto simp: hold_shot_def made_def Let_def split: option.split)
  obtain ok st' where h: "hold_shot sh im st = (ok, st')" by (cases "hold_shot sh im st")
  show ?thesis
  proof (cases reads)
    case (Some b)
    show ?thesis
    proof (cases "n_left b < stackCount sh \<or> n_right b < stackCount sh \<or> n_center b = 0")
      case False
      with Some h held show ?thesis by (cases ok) (auto simp: runCapture_def result_post_def)
    qed (use Some in \<open>auto simp: runCapture_def result_post_def\<close>)
  qed (simp add: runCapture_def result_post_def)
qed

theorem run_posts_one_result_witness:
  "length (filter result_post (fst (runCapture (plain_shot True) (Some \<lparr>n_center = 1, n_left = 1, n_right = 0\<rparr>) True (plain_images 1) []))) = 1"
  using run_posts_one_result [of "plain_shot True" "Some \<lparr>n_center = 1, n_left = 1, n_right = 0\<rparr>" True "plain_images 1" "[]"] by simp

section \<open>Saving\<close>

text \<open>The files of a save as (directories below the path, base name, extension), in the order of the writes.\<close>

definition item_files :: "string list \<Rightarrow> string \<Rightarrow> string \<Rightarrow> 'i resource \<Rightarrow> (string list \<times> string \<times> string) list" where
  "item_files dir base format e = (if r_meta e \<noteq> None then [(dir, base, ''json'')] else []) @ (if r_image e \<noteq> None then [(dir, base, format)] else [])"

definition held_files :: "string \<Rightarrow> string \<times> 'i held \<Rightarrow> (string list \<times> string \<times> string) list" where
  "held_files format nh = (case nh of (name, One e) \<Rightarrow> item_files [] name format e
     | (name, Many es) \<Rightarrow> (let w = max 2 (length (decimal (length es)))
         in concat (map (\<lambda>ie. item_files [name] (pad w (fst ie)) format (snd ie)) (enumerate 0 es))))"

definition file_path :: "string list \<times> string \<times> string \<Rightarrow> string list" where
  "file_path f = (case f of (dir, base, ext) \<Rightarrow> dir @ [base @ ''.'' @ ext])"

definition saved_files :: "string \<Rightarrow> 'i store \<Rightarrow> string list list" where
  "saved_files format st = map file_path (concat (map (held_files format) st))"

lemma distinct_concat_key:
  "distinct (map k xs) \<Longrightarrow> (\<And>x. x \<in> set xs \<Longrightarrow> distinct (f x)) \<Longrightarrow> (\<And>x t. x \<in> set xs \<Longrightarrow> t \<in> set (f x) \<Longrightarrow> key t = k x)
     \<Longrightarrow> distinct (concat (map f xs))"
proof (induction xs)
  case (Cons x xs)
  have "k y \<noteq> k x" if "y \<in> set xs" for y using Cons(2) that by (simp, metis image_eqI)
  then have "t \<notin> set (f x)" if "t \<in> set (f y)" "y \<in> set xs" for t y
    using Cons(4) [of x t] Cons(4) [of y t] that by auto
  with Cons show ?case by auto
qed simp

lemma pad_inj: "pad w m = pad w n \<Longrightarrow> m = n"
proof -
  have zeros: "digits_val 10 0 (replicate k (CHR ''0'')) = Some 0" for k by (induction k) (simp_all add: digit_val_decimal [of 0, simplified])
  have "digits_val 10 0 (pad w n) = Some n" for n by (simp add: pad_def digits_val_append zeros digits_val_decimal)
  then show "pad w m = pad w n \<Longrightarrow> m = n" by (metis option.inject)
qed

lemma file_path_inj:
  assumes "CHR ''.'' \<notin> set format" and f: "snd (snd f) \<in> {''json'', format}" and g: "snd (snd g) \<in> {''json'', format}"
    and "file_path f = file_path g"
  shows "f = g"
proof -
  obtain d b e d' b' e' where fg: "f = (d, b, e)" "g = (d', b', e')" by (cases f; cases g)
  with assms have eq: "d = d'" "b @ ''.'' @ e = b' @ ''.'' @ e'" and e: "CHR ''.'' \<notin> set e" "CHR ''.'' \<notin> set e'"
    by (auto simp: file_path_def)
  have tail: "takeWhile (\<lambda>c. c \<noteq> CHR ''.'') (rev (b @ ''.'' @ e)) = rev e" if "CHR ''.'' \<notin> set e" for b e
    using that by (auto simp: takeWhile_append)
  have "rev e = rev e'" using tail [OF e(1), of b] tail [OF e(2), of b'] eq(2) by metis
  then have "e = e'" by simp
  with eq fg show ?thesis by simp
qed

text \<open>
  No save writes two of the held resources or metadata to the same file, for every image format without a dot
  other than json, however many shots a resource holds.
\<close>

theorem saved_files_are_distinct:
  assumes "distinct (keys_of st)" "CHR ''.'' \<notin> set format" "format \<noteq> ''json''"
  shows "distinct (saved_files format st)"
proof -
  have item: "distinct (item_files dir base format e)" "t \<in> set (item_files dir base format e) \<Longrightarrow> fst t = dir \<and> fst (snd t) = base \<and> snd (snd t) \<in> {''json'', format}"
    for dir base t and e :: "'a resource"
    using assms(3) by (auto simp: item_files_def)
  have one: "distinct (held_files format nh)" for nh :: "string \<times> 'a held"
  proof (cases "snd nh")
    case (Many es)
    let ?w = "max 2 (length (decimal (length es)))"
    have "distinct (map (\<lambda>ie. pad ?w (fst ie)) (enumerate 0 es))"
      unfolding distinct_map by (auto simp: distinct_enumerate inj_on_def in_set_enumerate_eq dest: pad_inj)
    from distinct_concat_key [OF this, of "\<lambda>ie. item_files [fst nh] (pad ?w (fst ie)) format (snd ie)" "\<lambda>t. fst (snd t)"]
    have "distinct (concat (map (\<lambda>ie. item_files [fst nh] (pad ?w (fst ie)) format (snd ie)) (enumerate 0 es)))" by (simp add: item)
    with Many show ?thesis by (cases nh) (simp add: held_files_def Let_def)
  qed (cases nh; simp add: held_files_def item)
  have ext: "(if fst t = [] then fst (snd t) else hd (fst t)) = fst nh \<and> snd (snd t) \<in> {''json'', format}"
    if "t \<in> set (held_files format nh)" for t and nh :: "string \<times> 'a held"
    using that by (cases nh; cases "snd nh") (auto simp: held_files_def Let_def dest!: item(2))
  have "distinct (map fst st)" using assms(1) by (simp add: keys_of_def)
  from distinct_concat_key [OF this, of "held_files format" "\<lambda>t. if fst t = [] then fst (snd t) else hd (fst t)"]
  have "distinct (concat (map (held_files format) st))" using one ext by blast
  moreover have "inj_on file_path (set (concat (map (held_files format) st)))"
    by (rule inj_onI, rule file_path_inj [OF assms(2)]) (auto dest: ext)
  ultimately show ?thesis by (simp add: saved_files_def distinct_map)
qed

theorem saved_files_are_distinct_witness:
  "let st = [(''left'', Many [\<lparr>r_meta = Some JNull, r_image = Some (1::nat)\<rparr>, \<lparr>r_meta = None, r_image = Some 2\<rparr>])]
   in distinct (saved_files ''png'' st) \<and> saved_files ''png'' st = [[''left'', ''00.json''], [''left'', ''00.png''], [''left'', ''01.png'']]"
proof -
  let ?st = "[(''left'', Many [\<lparr>r_meta = Some JNull, r_image = Some (1::nat)\<rparr>, \<lparr>r_meta = None, r_image = Some 2\<rparr>])]"
  have "distinct (saved_files ''png'' ?st)" by (rule saved_files_are_distinct) (simp_all add: keys_of_def)
  moreover have "saved_files ''png'' ?st = [[''left'', ''00.json''], [''left'', ''00.png''], [''left'', ''01.png'']]" by code_simp
  ultimately show ?thesis by (simp only: Let_def simp_thms)
qed

section \<open>The worker between messages\<close>

text \<open>A save gathers its files from the store at once and clears the store when the last of them is written.\<close>

record 'i capture_worker =
  w_store :: "'i store"
  w_saving :: "'i store list"
  w_saved :: "'i store list"

datatype 'i work = Shoot shot "'i images" | SaveBegins | SaveEnds bool | Discard

fun work_step :: "'i capture_worker \<Rightarrow> 'i work \<Rightarrow> 'i capture_worker" where
  "work_step w (Shoot sh im) = w\<lparr>w_store := snd (hold_shot sh im (w_store w))\<rparr>"
| "work_step w SaveBegins = w\<lparr>w_saving := w_saving w @ [w_store w]\<rparr>"
| "work_step w (SaveEnds ok) = (case w_saving w of [] \<Rightarrow> w
     | st # rest \<Rightarrow> if ok then w\<lparr>w_saving := rest, w_saved := w_saved w @ [st], w_store := []\<rparr> else w\<lparr>w_saving := rest\<rparr>)"
| "work_step w Discard = w\<lparr>w_store := []\<rparr>"

definition no_work :: "'i capture_worker" where
  "no_work = \<lparr>w_store = [], w_saving = [], w_saved = []\<rparr>"

definition waits_for_save :: "'i capture_worker \<Rightarrow> 'i work \<Rightarrow> bool" where
  "waits_for_save w e = (case e of SaveEnds _ \<Rightarrow> True | _ \<Rightarrow> w_saving w = [])"

definition saves_what_it_holds :: "'i capture_worker \<Rightarrow> bool" where
  "saves_what_it_holds w \<longleftrightarrow> w_saving w = [] \<or> w_saving w = [w_store w]"

interpretation capture_saves: client_machine work_step saves_what_it_holds waits_for_save
proof
  fix w :: "'i capture_worker" and e
  assume "saves_what_it_holds w" "waits_for_save w e"
  then show "saves_what_it_holds (work_step w e)"
    by (cases e) (auto simp: saves_what_it_holds_def waits_for_save_def split: list.split)
qed

text \<open>
  If nothing else is asked of the worker while it saves, a save that succeeds has written exactly what it then
  clears.
\<close>

theorem save_clears_what_it_wrote:
  assumes "obeys waits_for_save work_step no_work es" "w_saving (run work_step no_work es) \<noteq> []"
  shows "w_saved (work_step (run work_step no_work es) (SaveEnds True))
      = w_saved (run work_step no_work es) @ [w_store (run work_step no_work es)]"
proof -
  have "saves_what_it_holds (run work_step no_work es)"
    by (rule capture_saves.run_inv [OF _ assms(1)]) (simp add: saves_what_it_holds_def no_work_def)
  with assms(2) show ?thesis by (simp add: saves_what_it_holds_def)
qed

theorem save_clears_what_it_wrote_witness:
  "w_saved (work_step (run work_step no_work [Shoot (plain_shot True) (plain_images 1), SaveBegins]) (SaveEnds True)) \<noteq> []"
proof -
  have "obeys waits_for_save work_step no_work [Shoot (plain_shot True) (plain_images 1), SaveBegins]"
    "w_saving (run work_step no_work [Shoot (plain_shot True) (plain_images 1), SaveBegins]) \<noteq> []" by code_simp+
  from save_clears_what_it_wrote [OF this] show ?thesis by (metis append_is_Nil_conv list.distinct(1))
qed

text \<open>
  A shot that completes while a save is writing is reported as captured, and lost when the save ends: it is
  neither among the saved files nor held any more.
\<close>

theorem shot_during_save_is_lost:
  assumes "w_saving w = []"
  shows "w_store (run work_step w [SaveBegins, Shoot sh im, SaveEnds True]) = []
    \<and> w_saved (run work_step w [SaveBegins, Shoot sh im, SaveEnds True]) = w_saved w @ [w_store w]
    \<and> (made im \<longrightarrow> fst (hold_shot sh im (w_store w)))"
  using assms by (auto simp: run_def hold_shot_def made_def Let_def split: option.split)

theorem shot_during_save_is_lost_witness:
  "w_store (run work_step no_work [SaveBegins, Shoot (plain_shot True) (plain_images 1), SaveEnds True]) = []
    \<and> w_saved (run work_step no_work [SaveBegins, Shoot (plain_shot True) (plain_images 1), SaveEnds True]) = [[]]"
proof -
  have "w_saving (no_work :: nat capture_worker) = []" by (simp add: no_work_def)
  from shot_during_save_is_lost [OF this, of "plain_shot True" "plain_images 1"] show ?thesis by (simp add: no_work_def)
qed

section \<open>The host\<close>

text \<open>
  \<open>pendingRuns\<close> has the acquisition of each run and whether it was released; acquisitions are numbered as they
  are made. \<open>run_results\<close> and \<open>req_results\<close> say which promises were settled, and whether resolved. Reports to the
  diagnostics log are left out.
\<close>

record host =
  runId :: nat
  reqId :: nat
  pendingRuns :: "(nat \<times> nat \<times> bool) list"
  pendingReqs :: "nat list"
  h_stopped :: bool
  terminating :: bool
  posted_runs :: "nat list"
  acqs :: nat
  given_back :: "nat list"
  run_results :: "(nat \<times> bool) list"
  req_results :: "(nat \<times> bool) list"
  h_meter :: workload
  h_wired :: bool

definition createCaptureNode :: "string \<Rightarrow> bool \<Rightarrow> int \<Rightarrow> host" where
  "createCaptureNode i single now = \<lparr>runId = 0, reqId = 0, pendingRuns = [], pendingReqs = [], h_stopped = False, terminating = False,
     posted_runs = [], acqs = 0, given_back = [], run_results = [], req_results = [],
     h_meter = new_workload i (if single then [''single''] else [''left'', ''right'', ''center'']) [''captured'', ''stackMs''] now, h_wired = True\<rparr>"

definition unreleased :: "(nat \<times> nat \<times> bool) list \<Rightarrow> nat list" where
  "unreleased rs = map (fst \<circ> snd) (filter (\<lambda>r. \<not> snd (snd r)) rs)"

definition releaseRun :: "nat \<Rightarrow> host \<Rightarrow> host" where
  "releaseRun r s = (case map_of (pendingRuns s) r of
      Some (a, False) \<Rightarrow> s\<lparr>pendingRuns := AList.update r (a, True) (pendingRuns s), given_back := given_back s @ [a]\<rparr>
    | _ \<Rightarrow> s)"

text \<open>The run leaves the table, its streams are released if they were not, and it is settled if it was known.\<close>

definition settle_run :: "nat \<Rightarrow> bool \<Rightarrow> host \<Rightarrow> host" where
  "settle_run r ok s = (case map_of (pendingRuns s) r of
      None \<Rightarrow> s
    | Some _ \<Rightarrow> (releaseRun r s)\<lparr>pendingRuns := AList.delete r (pendingRuns s), run_results := run_results s @ [(r, ok)]\<rparr>)"

definition settle_req :: "nat \<Rightarrow> bool \<Rightarrow> host \<Rightarrow> host" where
  "settle_req q ok s = (if q \<in> set (pendingReqs s)
     then s\<lparr>pendingReqs := removeAll q (pendingReqs s), req_results := req_results s @ [(q, ok)]\<rparr> else s)"

definition meter_bursts :: "int \<Rightarrow> (string \<times> int) list \<Rightarrow> workload \<Rightarrow> workload" where
  "meter_bursts now bs w = fold (\<lambda>(port, n). ingest now port n) bs w"

definition capture_run :: "bool \<Rightarrow> host \<Rightarrow> host" where
  "capture_run acquired s = (if h_stopped s then s
     else let r = Suc (runId s) in if \<not> acquired then s\<lparr>runId := r\<rparr>
       else s\<lparr>runId := r, acqs := Suc (acqs s), pendingRuns := AList.update r (acqs s, False) (pendingRuns s), posted_runs := posted_runs s @ [r]\<rparr>)"

definition request :: "host \<Rightarrow> host" where
  "request s = s\<lparr>reqId := Suc (reqId s), pendingReqs := pendingReqs s @ [Suc (reqId s)]\<rparr>"

definition worker_error :: "host \<Rightarrow> host" where
  "worker_error s = s\<lparr>h_stopped := True, given_back := given_back s @ unreleased (pendingRuns s),
     run_results := run_results s @ map (\<lambda>r. (r, False)) (keys_of (pendingRuns s)), pendingRuns := [],
     req_results := req_results s @ map (\<lambda>q. (q, False)) (pendingReqs s), pendingReqs := []\<rparr>"

definition stop_node :: "host \<Rightarrow> host" where
  "stop_node s = (if h_stopped s then s
     else s\<lparr>h_stopped := True, given_back := given_back s @ unreleased (pendingRuns s), pendingRuns := [], terminating := True\<rparr>)"

datatype host_event = HCapture bool | HReadingDone nat | HCaptured nat "(string \<times> int) list" int int | HProgress nat
  | HRunError nat "(string \<times> int) list option" int | HRequest | HReply nat bool | HWorkerError | HExit | HStop | HTerminated int

fun host_step :: "host \<Rightarrow> host_event \<Rightarrow> host" where
  "host_step s (HCapture acquired) = capture_run acquired s"
| "host_step s (HReadingDone r) = releaseRun r s"
| "host_step s (HCaptured r bs stackMs now) =
     settle_run r True (s\<lparr>h_meter := emit_out now ''stackMs'' stackMs (emit_out now ''captured'' 1 (meter_bursts now bs (h_meter s)))\<rparr>)"
| "host_step s (HProgress r) = s"
| "host_step s (HRunError r bs now) =
     settle_run r False (s\<lparr>h_meter := (case bs of Some b \<Rightarrow> meter_bursts now b (h_meter s) | None \<Rightarrow> h_meter s)\<rparr>)"
| "host_step s HRequest = request s"
| "host_step s (HReply q ok) = settle_req q ok s"
| "host_step s HWorkerError = worker_error s"
| "host_step s HExit = s"
| "host_step s HStop = stop_node s"
| "host_step s (HTerminated now) = (if terminating s then s\<lparr>terminating := False, h_meter := close_books now (h_meter s), h_wired := False\<rparr> else s)"

subsection \<open>Books\<close>

lemma unreleased_Cons [simp]:
  "unreleased [] = []" "unreleased (x # xs) = (if snd (snd x) then unreleased xs else fst (snd x) # unreleased xs)"
  by (simp_all add: unreleased_def)

lemma unreleased_append [simp]: "unreleased (xs @ ys) = unreleased xs @ unreleased ys"
  by (simp add: unreleased_def)

lemma unreleased_delete:
  "distinct (keys_of xs) \<Longrightarrow> mset (unreleased xs)
     = mset (unreleased (AList.delete r xs)) + (case map_of xs r of Some (a, False) \<Rightarrow> {#a#} | _ \<Rightarrow> {#})"
proof (induction xs)
  case (Cons x xs)
  obtain k a b where x: "x = (k, a, b)" by (cases x)
  show ?case
  proof (cases "k = r")
    case True
    then have "AList.delete r xs = xs" using Cons(2) x by (simp add: keys_of_def AList.delete_idem)
    with True x show ?thesis by (cases b) simp_all
  qed (use Cons x in \<open>simp add: keys_of_def\<close>)
qed simp

lemma unreleased_update:
  "distinct (keys_of xs) \<Longrightarrow> map_of xs r \<noteq> None \<Longrightarrow> mset (unreleased (AList.update r (a, True) xs)) = mset (unreleased (AList.delete r xs))"
proof (induction xs)
  case (Cons x xs)
  obtain k a' b where x: "x = (k, a', b)" by (cases x)
  show ?case
  proof (cases "k = r")
    case True
    then have "AList.delete r xs = xs" using Cons(2) x by (simp add: keys_of_def AList.delete_idem)
    with True x show ?thesis by simp
  qed (use Cons x in \<open>simp add: keys_of_def\<close>)
qed simp

text \<open>Every acquisition is released or belongs to a run that has not released it; the tables have no run twice, none settled or to come.\<close>

declare keys_of_simps [simp]

definition host_ok :: "host \<Rightarrow> bool" where
  "host_ok s \<longleftrightarrow> mset [0..<acqs s] = mset (given_back s) + mset (unreleased (pendingRuns s))
     \<and> distinct (keys_of (pendingRuns s)) \<and> set (keys_of (pendingRuns s)) \<union> set (keys_of (run_results s)) \<subseteq> {..runId s}
     \<and> distinct (keys_of (run_results s)) \<and> set (keys_of (pendingRuns s)) \<inter> set (keys_of (run_results s)) = {}
     \<and> distinct (pendingReqs s) \<and> set (pendingReqs s) \<union> set (keys_of (req_results s)) \<subseteq> {..reqId s}
     \<and> distinct (keys_of (req_results s)) \<and> set (pendingReqs s) \<inter> set (keys_of (req_results s)) = {}
     \<and> (h_stopped s \<longrightarrow> pendingRuns s = [])"

lemma releaseRun_ok: "host_ok s \<Longrightarrow> host_ok (releaseRun r s)"
proof (cases "map_of (pendingRuns s) r")
  case (Some v)
  assume ok: "host_ok s"
  obtain a b where v: "v = (a, b)" by (cases v)
  have d: "distinct (keys_of (pendingRuns s))" using ok by (simp add: host_ok_def)
  have r: "r \<in> set (keys_of (pendingRuns s))" using Some by (auto simp: keys_of_def dest: map_of_SomeD intro: rev_image_eqI)
  show ?thesis
    using ok Some v r unreleased_delete [OF d, of r] unreleased_update [OF d, of r a]
    by (cases b) (auto simp: releaseRun_def host_ok_def simp del: mset_upt)
qed (simp add: releaseRun_def)

lemma settle_run_ok:
  assumes "host_ok s" shows "host_ok (settle_run r ok s)"
proof (cases "map_of (pendingRuns s) r")
  case (Some v)
  obtain a b where v: "v = (a, b)" by (cases v)
  have d: "distinct (keys_of (pendingRuns s))" using assms by (simp add: host_ok_def)
  have r: "r \<in> set (keys_of (pendingRuns s))" using Some by (auto simp: keys_of_def dest: map_of_SomeD intro: rev_image_eqI)
  then have "r \<le> runId s" "r \<notin> set (keys_of (run_results s))" "\<not> h_stopped s" using assms by (auto simp: host_ok_def)
  then show ?thesis
    using assms Some v unreleased_delete [OF d, of r]
    by (cases b) (auto simp: settle_run_def releaseRun_def host_ok_def simp del: mset_upt)
qed (use assms in \<open>simp add: settle_run_def\<close>)

lemma host_meter_ok [simp]: "host_ok (s\<lparr>h_meter := m\<rparr>) = host_ok s"
  by (simp add: host_ok_def)

lemma capture_run_ok: "host_ok s \<Longrightarrow> host_ok (capture_run a s)"
proof (cases "h_stopped s")
  case False
  assume ok: "host_ok s"
  then have new: "Suc (runId s) \<notin> set (keys_of (pendingRuns s))" "Suc (runId s) \<notin> set (keys_of (run_results s))"
    by (auto simp: host_ok_def)
  then have "AList.update (Suc (runId s)) v (pendingRuns s) = pendingRuns s @ [(Suc (runId s), v)]" for v by (intro update_fresh)
  moreover have "mset [0..<Suc n] = add_mset n (mset [0..<n])" for n by simp
  ultimately show ?thesis using ok False new by (auto simp: capture_run_def host_ok_def Let_def simp del: mset_upt upt_Suc)
qed (simp add: capture_run_def)

lemma host_step_ok: "host_ok s \<Longrightarrow> host_ok (host_step s e)"
proof (cases e)
  case HWorkerError
  then show "host_ok s \<Longrightarrow> ?thesis" by (auto simp: worker_error_def host_ok_def simp del: mset_upt)
next
  case HStop
  then show "host_ok s \<Longrightarrow> ?thesis" by (auto simp: stop_node_def host_ok_def simp del: mset_upt)
next
  case HRequest
  then show "host_ok s \<Longrightarrow> ?thesis" by (auto simp: request_def host_ok_def simp del: mset_upt)
next
  case (HReply q ok)
  then show "host_ok s \<Longrightarrow> ?thesis" by (auto simp: settle_req_def host_ok_def distinct_removeAll simp del: mset_upt)
next
  case (HTerminated now)
  then show "host_ok s \<Longrightarrow> ?thesis" by (auto simp: host_ok_def simp del: mset_upt)
qed (simp_all add: releaseRun_ok settle_run_ok capture_run_ok)

interpretation capture_streams: borrower host_step host_ok "createCaptureNode i single now"
    "\<lambda>s. [0..<acqs s]" given_back "\<lambda>s. unreleased (pendingRuns s)" for i single now
  by unfold_locales (rule host_step_ok, assumption, simp_all add: host_ok_def createCaptureNode_def del: mset_upt)

text \<open>
  C14. In every order of runs, worker messages, a worker's death and a stop, no stream acquisition is released twice,
  and once the node has stopped, or no run is under way, all are released; every run settles at most once.
\<close>

theorem capture_streams_released_once:
  "let s = run host_step (createCaptureNode i single now) es
   in distinct (given_back s) \<and> set (given_back s) \<subseteq> {..<acqs s} \<and> distinct (map fst (run_results s))
      \<and> (h_stopped s \<or> pendingRuns s = [] \<longrightarrow> set (given_back s) = {..<acqs s})"
proof -
  let ?s = "run host_step (createCaptureNode i single now) es"
  have ok: "host_ok ?s" by (rule capture_streams.reachable_inv)
  with capture_streams.returned_once [where es = es and i = i and single = single and now = now]
  show ?thesis by (auto simp: host_ok_def Let_def keys_of_def lessThan_atLeast0)
qed

theorem capture_streams_released_once_witness:
  "let s = run host_step (createCaptureNode ''c'' False 0) [HCapture True, HCapture True, HReadingDone 1, HCaptured 1 [] 5 9, HWorkerError]
   in set (given_back s) = {..<2} \<and> map fst (run_results s) = [1, 2]"
proof -
  let ?es = "[HCapture True, HCapture True, HReadingDone 1, HCaptured 1 [] 5 9, HWorkerError]"
  have "h_stopped (run host_step (createCaptureNode ''c'' False 0) ?es)" "acqs (run host_step (createCaptureNode ''c'' False 0) ?es) = 2"
    "map fst (run_results (run host_step (createCaptureNode ''c'' False 0) ?es)) = [1, 2]" by code_simp+
  with capture_streams_released_once [of "''c''" False 0 ?es] show ?thesis by (simp only: Let_def simp_thms)
qed

subsection \<open>After the worker's death, and after a stop\<close>

definition left_registered :: "host \<Rightarrow> bool" where
  "left_registered s \<longleftrightarrow> h_stopped s \<and> \<not> terminating s \<and> h_wired s \<and> \<not> w_disposed (h_meter s)"

lemma meter_bursts_disposed [simp]: "w_disposed (meter_bursts now bs w) = w_disposed w"
proof -
  have "w_disposed ((case b of (port, n) \<Rightarrow> ingest now port n) v) = w_disposed v" for b v
    by (simp add: ingest_def split: prod.split)
  then show ?thesis unfolding meter_bursts_def by (induction bs arbitrary: w) simp_all
qed

lemma settle_frame [simp]:
  "h_stopped (settle_run r ok s) = h_stopped s" "terminating (settle_run r ok s) = terminating s"
  "h_wired (settle_run r ok s) = h_wired s" "h_meter (settle_run r ok s) = h_meter s"
  "h_stopped (releaseRun r s) = h_stopped s" "terminating (releaseRun r s) = terminating s"
  "h_wired (releaseRun r s) = h_wired s" "h_meter (releaseRun r s) = h_meter s"
  by (auto simp: settle_run_def releaseRun_def split: option.split bool.split)

interpretation left_rows: machine host_step left_registered
proof
  fix s e
  assume "left_registered s"
  then show "left_registered (host_step s e)"
    by (cases e) (auto simp: left_registered_def capture_run_def request_def settle_req_def worker_error_def stop_node_def emit_out_def
      split: option.split)
qed

text \<open>
  When the worker dies, every run and request under way is rejected and all streams are released; but since
  the death counts as a stop, the real stop that follows returns at once, and the graph row and the meter of the
  node stay registered for good.
\<close>

theorem dead_worker_stays_registered:
  assumes "\<not> terminating s" "h_wired s" "\<not> w_disposed (h_meter s)"
  defines "d \<equiv> host_step s HWorkerError"
  shows "pendingRuns d = [] \<and> pendingReqs d = [] \<and> set (keys_of (pendingRuns s)) \<subseteq> set (keys_of (run_results d))
    \<and> set (pendingReqs s) \<subseteq> set (keys_of (req_results d)) \<and> set (unreleased (pendingRuns s)) \<subseteq> set (given_back d)
    \<and> h_wired (run host_step d es) \<and> \<not> w_disposed (h_meter (run host_step d es))"
proof -
  have "left_registered d" using assms by (simp add: left_registered_def worker_error_def)
  from left_rows.run_inv [OF this, of es] show ?thesis
    by (simp add: left_registered_def d_def worker_error_def)
qed

theorem dead_worker_stays_registered_witness:
  "h_wired (run host_step (host_step (createCaptureNode ''c'' True 0) HWorkerError) [HStop, HTerminated 9])"
  using dead_worker_stays_registered [of "createCaptureNode ''c'' True 0" "[HStop, HTerminated 9]"]
  by (simp add: createCaptureNode_def new_workload_def)

text \<open>A worker that is gone posts nothing more.\<close>

definition client_side :: "host_event \<Rightarrow> bool" where
  "client_side e = (case e of HCapture _ \<Rightarrow> True | HRequest \<Rightarrow> True | HStop \<Rightarrow> True | HTerminated _ \<Rightarrow> True | HExit \<Rightarrow> True | _ \<Rightarrow> False)"

definition waits_forever :: "nat \<Rightarrow> host \<Rightarrow> bool" where
  "waits_forever q s \<longleftrightarrow> q \<in> set (pendingReqs s) \<and> q \<notin> set (keys_of (req_results s))"

interpretation hanging_requests: guarded_machine host_step "waits_forever q" client_side for q
proof
  fix s e
  assume "waits_forever q s" "client_side e"
  then show "waits_forever q (host_step s e)"
    by (cases e) (auto simp: waits_forever_def client_side_def capture_run_def request_def stop_node_def Let_def)
qed

text \<open>
  A preview, save or discard asked of a dead or a stopped node is posted all the same and never answered:
  neither a capture, nor a later request, nor the stop settles it.
\<close>

theorem request_to_dead_worker_hangs:
  assumes "host_ok s" "list_all client_side es"
  shows "Suc (reqId s) \<in> set (pendingReqs (run host_step (host_step s HRequest) es))
    \<and> Suc (reqId s) \<notin> set (keys_of (req_results (run host_step (host_step s HRequest) es)))"
proof -
  have "waits_forever (Suc (reqId s)) (host_step s HRequest)"
    using assms(1) by (auto simp: waits_forever_def request_def host_ok_def)
  from hanging_requests.run_inv [OF this assms(2)] show ?thesis by (simp add: waits_forever_def)
qed

theorem request_to_dead_worker_hangs_witness:
  "pendingReqs (run host_step (host_step (host_step (createCaptureNode ''c'' True 0) HWorkerError) HRequest) [HStop, HRequest]) = [1, 2]"
proof -
  let ?s = "host_step (createCaptureNode ''c'' True 0) HWorkerError"
  have "host_ok ?s" by (rule host_step_ok, rule capture_streams.start_inv)
  moreover have "list_all client_side [HStop, HRequest]" by (simp add: client_side_def)
  ultimately have "Suc (reqId ?s) \<in> set (pendingReqs (run host_step (host_step ?s HRequest) [HStop, HRequest]))"
    using request_to_dead_worker_hangs by blast
  moreover have "pendingReqs (run host_step (host_step ?s HRequest) [HStop, HRequest]) = [1, 2]" by code_simp
  ultimately show ?thesis by simp
qed

definition forgotten_run :: "nat \<Rightarrow> host \<Rightarrow> bool" where
  "forgotten_run r s \<longleftrightarrow> h_stopped s \<and> pendingRuns s = [] \<and> r \<notin> set (keys_of (run_results s))"

interpretation forgotten_runs: machine host_step "forgotten_run r" for r
proof
  fix s e
  assume "forgotten_run r s"
  then show "forgotten_run r (host_step s e)"
    by (cases e) (auto simp: forgotten_run_def capture_run_def request_def settle_req_def settle_run_def releaseRun_def worker_error_def
      stop_node_def split: option.split)
qed

text \<open>
  A stop in the middle of a run releases its streams but drops the run without settling it: whoever awaits that
  capture waits for ever.
\<close>

theorem stop_forgets_the_run_under_way:
  assumes "host_ok s" "\<not> h_stopped s" "map_of (pendingRuns s) r = Some (a, False)"
  shows "a \<in> set (given_back (host_step s HStop)) \<and> r \<notin> set (keys_of (run_results (run host_step (host_step s HStop) es)))"
proof -
  have r: "r \<in> set (keys_of (pendingRuns s))" using assms(3) by (auto simp: keys_of_def dest: map_of_SomeD intro: rev_image_eqI)
  have "(r, a, False) \<in> set (pendingRuns s)" using assms(3) by (rule map_of_SomeD)
  then have "a \<in> set (unreleased (pendingRuns s))" by (force simp: unreleased_def)
  moreover have "forgotten_run r (host_step s HStop)" using assms(1,2) r by (auto simp: forgotten_run_def stop_node_def host_ok_def)
  ultimately show ?thesis
    using forgotten_runs.run_inv [of r "host_step s HStop" es] assms(2) by (simp add: forgotten_run_def stop_node_def)
qed

theorem stop_forgets_the_run_under_way_witness:
  "let s = run host_step (createCaptureNode ''c'' True 0) [HCapture True]
   in 0 \<in> set (given_back (host_step s HStop)) \<and> 1 \<notin> set (keys_of (run_results (run host_step (host_step s HStop) [HTerminated 3])))"
proof -
  let ?s = "run host_step (createCaptureNode ''c'' True 0) [HCapture True]"
  have "host_ok ?s" by (rule capture_streams.reachable_inv)
  moreover have "\<not> h_stopped ?s" "map_of (pendingRuns ?s) 1 = Some (0, False)" by code_simp+
  ultimately show ?thesis
    using stop_forgets_the_run_under_way [of ?s 1 0 "[HTerminated 3]"] by (simp only: Let_def simp_thms)
qed

end
