(* ===== verification/CaptureHelper.thy ===== *)
theory CaptureHelper
  imports RawPipes
begin

text \<open>
  The capture facility of a session over its capture node (\<open>app/orchestrator/capture-helper.ts\<close>): connecting the
  raw pipes for one shot, with the unwinding of a failure, and the flag that keeps recording and capture apart.
  The lemmas show that a failed or a released acquisition leaves every reference count and connection as it was,
  and when the flag says the truth.
\<close>

section \<open>Connecting the streams of a shot\<close>

record stream_init =
  si_pipe :: string
  si_maxBytes :: nat
  si_channels :: nat
  si_bytesPerElement :: nat
  si_significantBits :: nat
  si_pixelFormat :: string

definition streamInitFrom :: "(string \<Rightarrow> nat) \<Rightarrow> advert \<Rightarrow> stream_init" where
  "streamInitFrom significantBits spec = \<lparr>si_pipe = a_id spec,
     si_maxBytes = (case a_maxBytes spec of Some b \<Rightarrow> b | None \<Rightarrow> a_bytesPerFrame spec), si_channels = a_channels spec,
     si_bytesPerElement = (if a_dtype spec = ''U16'' then 2 else 1), si_significantBits = significantBits (a_pixelFormat spec),
     si_pixelFormat = a_pixelFormat spec\<rparr>"

definition CAPTURE_RING_DEPTH :: nat where "CAPTURE_RING_DEPTH = 8"

record capture_pipes =
  cp_pipes :: raw_pipes
  cp_conns :: "string list"

text \<open>A pipe acquired for a shot, and what giving it back does.\<close>

definition connect_pipe :: "string \<Rightarrow> capture_pipes \<Rightarrow> capture_pipes" where
  "connect_pipe p s = s\<lparr>cp_conns := cp_conns s @ [p]\<rparr>"

definition disconnect_pipe :: "string \<Rightarrow> capture_pipes \<Rightarrow> capture_pipes" where
  "disconnect_pipe p s = s\<lparr>cp_conns := remove1 p (cp_conns s)\<rparr>"

definition release_pipe :: "nat \<Rightarrow> capture_pipes \<Rightarrow> capture_pipes" where
  "release_pipe h s = s\<lparr>cp_pipes := release_handle h (cp_pipes s)\<rparr>"

definition acquire_raw :: "pixel_format list \<Rightarrow> native_outcome \<Rightarrow> camera \<Rightarrow> capture_pipes \<Rightarrow> nat option \<times> capture_pipes" where
  "acquire_raw fmts out c s = (case acquire out Raw (raw_pipe_id c) (rawPipeSpec fmts c (raw_pipe_id c) CAPTURE_RING_DEPTH) (cp_pipes s) of
     (h, ps) \<Rightarrow> (h, s\<lparr>cp_pipes := ps\<rparr>))"

text \<open>Which of the four calls throw.\<close>

record shot_faults =
  left_acquire :: native_outcome
  right_acquire :: native_outcome
  left_connects :: bool
  right_connects :: bool

type_synonym shot_streams = "(string \<times> nat) list"

definition acquireCaptureStreams :: "pixel_format list \<Rightarrow> shot_faults \<Rightarrow> (camera \<times> camera) option \<Rightarrow> bool \<Rightarrow> capture_pipes
    \<Rightarrow> shot_streams option \<times> capture_pipes" where
  "acquireCaptureStreams fmts f cams center s = (case cams of None \<Rightarrow> (None, s)
    | Some (l, r) \<Rightarrow> if \<not> center then (None, s) else (case acquire_raw fmts (left_acquire f) l s of
        (None, s1) \<Rightarrow> (None, s1)
      | (Some hL, s1) \<Rightarrow> (case acquire_raw fmts (right_acquire f) r s1 of
          (None, s2) \<Rightarrow> (None, release_pipe hL s2)
        | (Some hR, s2) \<Rightarrow>
            if \<not> left_connects f then (None, release_pipe hL (release_pipe hR s2))
            else (let s3 = connect_pipe (raw_pipe_id l) s2
                  in if \<not> right_connects f then (None, release_pipe hL (release_pipe hR (disconnect_pipe (raw_pipe_id l) s3)))
                     else (Some [(raw_pipe_id l, hL), (raw_pipe_id r, hR)], connect_pipe (raw_pipe_id r) s3)))))"

definition acquireSingleStream :: "pixel_format list \<Rightarrow> native_outcome \<Rightarrow> bool \<Rightarrow> camera option \<Rightarrow> capture_pipes
    \<Rightarrow> shot_streams option \<times> capture_pipes" where
  "acquireSingleStream fmts out connects cam s = (case cam of None \<Rightarrow> (None, s)
    | Some c \<Rightarrow> (case acquire_raw fmts out c s of
        (None, s1) \<Rightarrow> (None, s1)
      | (Some h, s1) \<Rightarrow> if \<not> connects then (None, release_pipe h s1) else (Some [(raw_pipe_id c, h)], connect_pipe (raw_pipe_id c) s1)))"

text \<open>\<open>release\<close>: every connection first, then every pipe.\<close>

definition release_shot :: "shot_streams \<Rightarrow> capture_pipes \<Rightarrow> capture_pipes" where
  "release_shot a s = fold release_pipe (map snd a) (fold disconnect_pipe (map fst a) s)"

text \<open>States in which the same pipes are held: every handle added since is released.\<close>

definition same_holds :: "capture_pipes \<Rightarrow> capture_pipes \<Rightarrow> bool" where
  "same_holds s t \<longleftrightarrow> pipes_ok (cp_pipes t) \<and> mset (cp_conns t) = mset (cp_conns s)
     \<and> (\<exists>hs. handles (cp_pipes t) = handles (cp_pipes s) @ hs \<and> list_all h_released hs)"

lemma same_holds_refCount:
  assumes "pipes_ok (cp_pipes s)" "same_holds s t"
  shows "refCount p (cp_pipes t) = refCount p (cp_pipes s)"
proof -
  obtain hs where "handles (cp_pipes t) = handles (cp_pipes s) @ hs" "list_all h_released hs" "pipes_ok (cp_pipes t)"
    using assms(2) by (auto simp: same_holds_def)
  moreover from this(2) have "filter (\<lambda>h. h_pipe h = p \<and> \<not> h_released h) hs = []" by (auto simp: filter_empty_conv list_all_iff)
  ultimately have "holders p (cp_pipes t) = holders p (cp_pipes s)" by (simp add: holders_def)
  with assms(1) \<open>pipes_ok (cp_pipes t)\<close> show ?thesis by (simp add: pipes_ok_def)
qed

lemma acquire_raw_held:
  assumes "pipes_ok (cp_pipes s)" "acquire_raw fmts out c s = (x, t)"
  shows "pipes_ok (cp_pipes t)" "cp_conns t = cp_conns s"
    "x = None \<Longrightarrow> handles (cp_pipes t) = handles (cp_pipes s)"
    "x = Some h \<Longrightarrow> h = length (handles (cp_pipes s)) \<and> handles (cp_pipes t) = handles (cp_pipes s) @ [\<lparr>h_pipe = raw_pipe_id c, h_kind = Raw, h_released = False\<rparr>]"
proof -
  let ?a = "acquire out Raw (raw_pipe_id c) (rawPipeSpec fmts c (raw_pipe_id c) CAPTURE_RING_DEPTH) (cp_pipes s)"
  obtain y ps where a: "?a = (y, ps)" by (cases ?a)
  with assms(2) have t: "x = y" "t = s\<lparr>cp_pipes := ps\<rparr>" by (simp_all add: acquire_raw_def)
  show "pipes_ok (cp_pipes t)" using acquire_ok [OF assms(1)] a t by (metis capture_pipes.select_convs(1) capture_pipes.surjective capture_pipes.update_convs(1) snd_conv)
  show "cp_conns t = cp_conns s" by (simp add: t)
  show "x = None \<Longrightarrow> handles (cp_pipes t) = handles (cp_pipes s)" using acquire_handles(2) a t by simp
  show "x = Some h \<Longrightarrow> h = length (handles (cp_pipes s)) \<and> handles (cp_pipes t) = handles (cp_pipes s) @ [\<lparr>h_pipe = raw_pipe_id c, h_kind = Raw, h_released = False\<rparr>]"
    using acquire_handles(1) a t by simp
qed

lemma release_pipe_simps [simp]:
  "handles (cp_pipes (release_pipe h s)) = (if h < length (handles (cp_pipes s))
     then (handles (cp_pipes s))[h := (handles (cp_pipes s) ! h)\<lparr>h_released := True\<rparr>] else handles (cp_pipes s))"
  "cp_conns (release_pipe h s) = cp_conns s" "pipes_ok (cp_pipes s) \<Longrightarrow> pipes_ok (cp_pipes (release_pipe h s))"
  "cp_pipes (connect_pipe p s) = cp_pipes s" "cp_pipes (disconnect_pipe p s) = cp_pipes s"
  "cp_conns (connect_pipe p s) = cp_conns s @ [p]" "cp_conns (disconnect_pipe p s) = remove1 p (cp_conns s)"
  by (simp_all add: release_pipe_def connect_pipe_def disconnect_pipe_def release_handle_handles release_ok)

text \<open>
  C26. Connecting the two raw streams of a shot leaves nothing behind: if any of its four calls fails, and after its
  release if none does, every pipe has the reference count it had, and every connection is as before.
\<close>

theorem shot_streams_are_undone:
  assumes "pipes_ok (cp_pipes s)" "acquireCaptureStreams fmts f cams center s = (x, t)"
  defines "u \<equiv> case x of None \<Rightarrow> t | Some a \<Rightarrow> release_shot a t"
  shows "refCount p (cp_pipes u) = refCount p (cp_pipes s) \<and> mset (cp_conns u) = mset (cp_conns s) \<and> pipes_ok (cp_pipes u)"
proof -
  have "same_holds s u"
  proof (cases "cams = None \<or> \<not> center")
    case True
    with assms have "u = s" by (auto simp: acquireCaptureStreams_def split: option.splits)
    with assms(1) show ?thesis by (simp add: same_holds_def)
  next
    case False
    then obtain l r where c: "cams = Some (l, r)" "center" by auto
    obtain y s1 where l: "acquire_raw fmts (left_acquire f) l s = (y, s1)" by (cases "acquire_raw fmts (left_acquire f) l s")
    obtain z s2 where r: "acquire_raw fmts (right_acquire f) r s1 = (z, s2)" by (cases "acquire_raw fmts (right_acquire f) r s1")
    note L = acquire_raw_held [OF assms(1) l] and R = acquire_raw_held [OF _ r]
    show ?thesis
    proof (cases y)
      case None
      with assms(2) c l have "x = None" "t = s1" by (simp_all add: acquireCaptureStreams_def)
      with L None show ?thesis by (simp add: same_holds_def u_def)
    next
      case (Some hL)
      note l' = L(1) L(2) L(4) [OF Some]
      show ?thesis
      proof (cases z)
        case None
        with assms(2) c l r Some have "x = None" "t = release_pipe hL s2" by (simp_all add: acquireCaptureStreams_def)
        with R(1-3) [OF l'(1)] None l' show ?thesis by (simp add: same_holds_def u_def)
      next
        case right: (Some hR)
        note r' = R(1) [OF l'(1)] R(2) [OF l'(1)] R(4) [OF l'(1) right]
        have x: "(x, t) = (if \<not> left_connects f then (None, release_pipe hL (release_pipe hR s2))
            else if \<not> right_connects f then (None, release_pipe hL (release_pipe hR (disconnect_pipe (raw_pipe_id l) (connect_pipe (raw_pipe_id l) s2))))
            else (Some [(raw_pipe_id l, hL), (raw_pipe_id r, hR)], connect_pipe (raw_pipe_id r) (connect_pipe (raw_pipe_id l) s2)))"
          using assms(2) c l r Some right by (auto simp: acquireCaptureStreams_def Let_def)
        show ?thesis
          using x l' r' by (auto simp: same_holds_def u_def release_shot_def nth_append list_update_append split: if_splits)
      qed
    qed
  qed
  with same_holds_refCount [OF assms(1) this] show ?thesis by (simp add: same_holds_def)
qed

definition camera_of :: "string \<Rightarrow> camera" where
  "camera_of n = \<lparr>c_serial = n, c_format = ''Mono8'', c_width = 4, c_height = 4\<rparr>"

definition no_capture_pipes :: capture_pipes where
  "no_capture_pipes = \<lparr>cp_pipes = no_pipes, cp_conns = []\<rparr>"

theorem shot_streams_are_undone_witness:
  "let (x, t) = acquireCaptureStreams [] \<lparr>left_acquire = NativeOk, right_acquire = NativeOk, left_connects = True, right_connects = False\<rparr>
       (Some (camera_of ''1'', camera_of ''2'')) True no_capture_pipes
   in x = None \<and> refCount ''camera/1/raw'' (cp_pipes t) = 0 \<and> mset (cp_conns t) = {#}"
proof -
  obtain x t where a: "acquireCaptureStreams [] \<lparr>left_acquire = NativeOk, right_acquire = NativeOk, left_connects = True, right_connects = False\<rparr>
       (Some (camera_of ''1'', camera_of ''2'')) True no_capture_pipes = (x, t)"
    by (cases "acquireCaptureStreams [] \<lparr>left_acquire = NativeOk, right_acquire = NativeOk, left_connects = True, right_connects = False\<rparr>
       (Some (camera_of ''1'', camera_of ''2'')) True no_capture_pipes")
  have "fst (acquireCaptureStreams [] \<lparr>left_acquire = NativeOk, right_acquire = NativeOk, left_connects = True, right_connects = False\<rparr>
       (Some (camera_of ''1'', camera_of ''2'')) True no_capture_pipes) = None" by code_simp
  with a have x: "x = None" by simp
  have "pipes_ok (cp_pipes no_capture_pipes)" by (simp add: no_capture_pipes_def pipes_ok_def no_pipes_def refCount_def holders_def keys_of_def)
  from shot_streams_are_undone [OF this a, of "''camera/1/raw''"] x a
  show ?thesis by (simp add: no_capture_pipes_def no_pipes_def refCount_def)
qed

section \<open>The flag\<close>

text \<open>
  \<open>captureShot\<close> passes the guards, sets the flag and asks the node for the run; if connecting the streams throws,
  the run never starts. The \<open>finally\<close> of a run clears the flag, whatever other run is under way.
\<close>

record capture_helper =
  has_node :: bool
  capturing :: bool
  captureBusy :: bool
  in_flight :: "nat list"
  runs_started :: nat
  capture_meta :: "nat option"

datatype helper_event = BuildNode | CaptureShot bool bool bool | RunSettles nat bool | SaveOrDiscard | StopHelper

definition new_helper :: capture_helper where
  "new_helper = \<lparr>has_node = False, capturing = False, captureBusy = False, in_flight = [], runs_started = 0, capture_meta = None\<rparr>"

definition captureShot :: "bool \<Rightarrow> bool \<Rightarrow> bool \<Rightarrow> capture_helper \<Rightarrow> capture_helper" where
  "captureShot recording snapshot streams s = (if \<not> has_node s \<or> recording \<or> \<not> snapshot then s
     else let s1 = s\<lparr>capturing := True, captureBusy := True\<rparr>
       in if streams then s1\<lparr>in_flight := in_flight s @ [runs_started s], runs_started := Suc (runs_started s)\<rparr> else s1)"

fun helper_step :: "capture_helper \<Rightarrow> helper_event \<Rightarrow> capture_helper" where
  "helper_step s BuildNode = s\<lparr>has_node := True\<rparr>"
| "helper_step s (CaptureShot recording snapshot streams) = captureShot recording snapshot streams s"
| "helper_step s (RunSettles k ok) = (if k \<in> set (in_flight s)
     then s\<lparr>in_flight := removeAll k (in_flight s), capturing := False, captureBusy := False,
            capture_meta := (if ok then Some k else capture_meta s)\<rparr> else s)"
| "helper_step s SaveOrDiscard = s\<lparr>capture_meta := None\<rparr>"
| "helper_step s StopHelper = s\<lparr>has_node := False\<rparr>"

definition one_shot_at_a_time :: "capture_helper \<Rightarrow> helper_event \<Rightarrow> bool" where
  "one_shot_at_a_time s e = (case e of CaptureShot _ _ streams \<Rightarrow> streams \<and> in_flight s = [] | _ \<Rightarrow> True)"

definition flag_ok :: "capture_helper \<Rightarrow> bool" where
  "flag_ok s \<longleftrightarrow> capturing s = captureBusy s \<and> (if capturing s then length (in_flight s) = 1 else in_flight s = [])"

interpretation capture_flag: client_machine helper_step flag_ok one_shot_at_a_time
proof
  fix s e
  assume ok: "flag_ok s" and e: "one_shot_at_a_time s e"
  show "flag_ok (helper_step s e)"
  proof (cases e)
    case (RunSettles k b)
    then show ?thesis using ok by (cases "in_flight s") (auto simp: flag_ok_def split: if_splits)
  qed (use ok e in \<open>auto simp: flag_ok_def captureShot_def one_shot_at_a_time_def Let_def split: if_splits\<close>)
qed

text \<open>
  For a session that awaits each shot before the next, and whose streams connect, the flag that refuses a
  recording is set exactly while a shot is in flight.
\<close>

theorem capturing_while_a_shot_is_in_flight:
  assumes "obeys one_shot_at_a_time helper_step new_helper es"
  shows "capturing (run helper_step new_helper es) \<longleftrightarrow> in_flight (run helper_step new_helper es) \<noteq> []"
proof -
  have "flag_ok (run helper_step new_helper es)"
    by (rule capture_flag.run_inv [OF _ assms]) (simp add: flag_ok_def new_helper_def)
  then show ?thesis by (auto simp: flag_ok_def split: if_splits)
qed

theorem capturing_while_a_shot_is_in_flight_witness:
  "capturing (run helper_step new_helper [BuildNode, CaptureShot False True True]) \<longleftrightarrow> in_flight (run helper_step new_helper [BuildNode, CaptureShot False True True]) \<noteq> []"
  by (rule capturing_while_a_shot_is_in_flight) code_simp

definition flag_stuck :: "capture_helper \<Rightarrow> bool" where
  "flag_stuck s \<longleftrightarrow> capturing s \<and> captureBusy s \<and> in_flight s = []"

definition no_run_starts :: "helper_event \<Rightarrow> bool" where
  "no_run_starts e = (case e of CaptureShot recording snapshot streams \<Rightarrow> recording \<or> \<not> snapshot \<or> \<not> streams | _ \<Rightarrow> True)"

interpretation stuck_flag: guarded_machine helper_step flag_stuck no_run_starts
proof
  fix s e
  assume "flag_stuck s" "no_run_starts e"
  then show "flag_stuck (helper_step s e)"
    by (cases e) (auto simp: flag_stuck_def no_run_starts_def captureShot_def Let_def split: if_splits)
qed

text \<open>
  If connecting the streams throws, the flag stays set although no shot is in flight: until another shot gets
  as far as running, the session shows itself busy and every recording is refused.
\<close>

theorem failed_connect_blocks_recording:
  assumes "has_node s" "in_flight s = []" "list_all no_run_starts es"
  shows "capturing (run helper_step (helper_step s (CaptureShot False True False)) es)
    \<and> in_flight (run helper_step (helper_step s (CaptureShot False True False)) es) = []"
proof -
  have "flag_stuck (helper_step s (CaptureShot False True False))" using assms by (simp add: flag_stuck_def captureShot_def)
  from stuck_flag.run_inv [OF this assms(3)] show ?thesis by (simp add: flag_stuck_def)
qed

theorem failed_connect_blocks_recording_witness:
  "capturing (run helper_step (helper_step (run helper_step new_helper [BuildNode]) (CaptureShot False True False)) [SaveOrDiscard, StopHelper])"
proof -
  have "has_node (run helper_step new_helper [BuildNode])" "in_flight (run helper_step new_helper [BuildNode]) = []"
    "list_all no_run_starts [SaveOrDiscard, StopHelper]" by code_simp+
  then show ?thesis using failed_connect_blocks_recording by blast
qed

text \<open>
  When two shots overlap, the first to settle clears the flag while the other still reads the cameras, so a
  recording is admitted beside it.
\<close>

theorem overlapping_shots_clear_the_flag:
  assumes "has_node s" "in_flight s = []"
  defines "s2 \<equiv> run helper_step s [CaptureShot False True True, CaptureShot False True True, RunSettles (runs_started s) True]"
  shows "\<not> capturing s2 \<and> in_flight s2 = [Suc (runs_started s)]"
  using assms by (simp add: s2_def captureShot_def run_def)

theorem overlapping_shots_clear_the_flag_witness:
  "\<not> capturing (run helper_step (run helper_step new_helper [BuildNode]) [CaptureShot False True True, CaptureShot False True True, RunSettles 0 True])"
proof -
  have h: "has_node (run helper_step new_helper [BuildNode])" "in_flight (run helper_step new_helper [BuildNode]) = []"
    "runs_started (run helper_step new_helper [BuildNode]) = 0" by code_simp+
  from overlapping_shots_clear_the_flag [OF h(1,2), unfolded h(3)] show ?thesis ..
qed

end
