(* ===== verification/TeleCanvas.thy ===== *)
theory TeleCanvas
  imports StoreCodec
begin

text \<open>
  The manager of the TeleCanvas host process (\<open>app/electron/telecanvas-manager.ts\<close>) with the wiring of its
  events in \<open>app/electron/main.ts\<close>. Host processes are numbered as they are forked; the network interfaces are
  a parameter. The lemmas show that at most one host lives, that what it reports reaches the status only while it
  is the current one, and what the status promises.
\<close>

datatype tele_mode = HostMode | ClientMode

definition DEFAULT_TELECANVAS_PORT :: int where "DEFAULT_TELECANVAS_PORT = 8100"

record network_info =
  ni_v4 :: bool
  ni_internal :: bool
  ni_address :: string

text \<open>\<open>reachableUrls\<close>; the addresses of all interfaces in one list.\<close>

definition reachableUrls :: "int \<Rightarrow> network_info list \<Rightarrow> string list" where
  "reachableUrls port infos = (''http://localhost:'' @ int_str port @ ''/'')
     # map (\<lambda>i. ''http://'' @ ni_address i @ '':'' @ int_str port @ ''/'') (filter (\<lambda>i. ni_v4 i \<and> \<not> ni_internal i) infos)"

record tele_status =
  ts_mode :: tele_mode
  ts_listening :: bool
  ts_port :: "int option"
  ts_urls :: "string list"
  ts_error :: "string option"

text \<open>\<open>forks\<close> has the port of each host forked, in order; \<open>kills\<close> and \<open>exits\<close> say which were killed, and have exited.\<close>

record tele =
  t_mode :: tele_mode
  t_port :: int
  t_host :: "nat option"
  t_listening :: bool
  t_error :: "string option"
  forks :: "int list"
  kills :: "nat list"
  exits :: "nat list"
  pushes :: "tele_status list"

definition new_tele :: tele where
  "new_tele = \<lparr>t_mode = ClientMode, t_port = DEFAULT_TELECANVAS_PORT, t_host = None, t_listening = False, t_error = None,
     forks = [], kills = [], exits = [], pushes = []\<rparr>"

definition status_of :: "network_info list \<Rightarrow> tele \<Rightarrow> tele_status" where
  "status_of infos s = (let host = (t_mode s = HostMode) in
     \<lparr>ts_mode = t_mode s, ts_listening = host \<and> t_listening s, ts_port = (if host then Some (t_port s) else None),
      ts_urls = (if host \<and> t_listening s then reachableUrls (t_port s) infos else []), ts_error = t_error s\<rparr>)"

definition pushStatus :: "network_info list \<Rightarrow> tele \<Rightarrow> tele" where
  "pushStatus infos s = s\<lparr>pushes := pushes s @ [status_of infos s]\<rparr>"

definition stopHost :: "tele \<Rightarrow> tele" where
  "stopHost s = (case t_host s of Some h \<Rightarrow> s\<lparr>kills := kills s @ [h], t_host := None, t_listening := False\<rparr> | None \<Rightarrow> s\<lparr>t_listening := False\<rparr>)"

definition spawnHost :: "network_info list \<Rightarrow> string option \<Rightarrow> tele \<Rightarrow> tele" where
  "spawnHost infos note s = (let s1 = stopHost s in
     pushStatus infos (s1\<lparr>t_listening := False, t_error := note, t_host := Some (length (forks s1)), forks := forks s1 @ [t_port s1]\<rparr>))"

definition apply_target :: "network_info list \<Rightarrow> tele_mode \<Rightarrow> int \<Rightarrow> tele \<Rightarrow> tele" where
  "apply_target infos mode port s =
     (let portChanged = (port \<noteq> t_port s); s1 = s\<lparr>t_mode := mode, t_port := port\<rparr>
      in if mode \<noteq> HostMode then pushStatus infos ((stopHost s1)\<lparr>t_error := None\<rparr>)
         else if t_host s1 = None \<or> portChanged then spawnHost infos None s1 else pushStatus infos s1)"

definition onListening :: "network_info list \<Rightarrow> nat \<Rightarrow> int \<Rightarrow> tele \<Rightarrow> tele" where
  "onListening infos h port s = (if t_host s \<noteq> Some h then s
     else pushStatus infos (s\<lparr>t_listening := True, t_error := None, t_port := port\<rparr>))"

definition onError :: "network_info list \<Rightarrow> nat \<Rightarrow> string \<Rightarrow> tele \<Rightarrow> tele" where
  "onError infos h e s = (if t_host s \<noteq> Some h then s else pushStatus infos (s\<lparr>t_listening := False, t_error := Some e\<rparr>))"

text \<open>The note of a restart has a dash where the model has two hyphens.\<close>

definition onExit :: "network_info list \<Rightarrow> nat \<Rightarrow> tele \<Rightarrow> tele" where
  "onExit infos h s = (let s0 = s\<lparr>exits := exits s @ [h]\<rparr> in if t_host s0 \<noteq> Some h then s0
     else let s1 = s0\<lparr>t_host := None, t_listening := False\<rparr>
       in if t_mode s1 = HostMode then spawnHost infos (Some ''host server exited -- restarting'') s1 else pushStatus infos s1)"

datatype tele_event = Apply tele_mode int | HostListens nat int | HostFails nat string | HostExits nat | KillHosts

fun tele_step :: "network_info list \<Rightarrow> tele \<Rightarrow> tele_event \<Rightarrow> tele" where
  "tele_step infos s (Apply m p) = apply_target infos m p s"
| "tele_step infos s (HostListens h p) = onListening infos h p s"
| "tele_step infos s (HostFails h e) = onError infos h e s"
| "tele_step infos s (HostExits h) = onExit infos h s"
| "tele_step infos s KillHosts = stopHost s"

lemmas tele_defs = apply_target_def onListening_def onError_def onExit_def spawnHost_def stopHost_def pushStatus_def

section \<open>One host\<close>

definition living :: "tele \<Rightarrow> nat set" where
  "living s = {..<length (forks s)} - set (kills s) - set (exits s)"

text \<open>A process exits after it was forked.\<close>

definition forked_before :: "tele \<Rightarrow> tele_event \<Rightarrow> bool" where
  "forked_before s e = (case e of HostExits h \<Rightarrow> h < length (forks s) | _ \<Rightarrow> True)"

definition hosts_ok :: "tele \<Rightarrow> bool" where
  "hosts_ok s \<longleftrightarrow> set (kills s) \<subseteq> {..<length (forks s)} \<and> set (exits s) \<subseteq> {..<length (forks s)} \<and> living s = set_option (t_host s)
     \<and> (t_listening s \<longrightarrow> t_host s \<noteq> None)"

definition one_host :: "tele \<Rightarrow> bool" where
  "one_host s \<longleftrightarrow> hosts_ok s \<and> (t_mode s = ClientMode \<longrightarrow> t_host s = None)"

lemma living_simps [simp]:
  "living (s\<lparr>t_mode := m\<rparr>) = living s" "living (s\<lparr>t_port := p\<rparr>) = living s" "living (s\<lparr>t_listening := l\<rparr>) = living s"
  "living (s\<lparr>t_error := e\<rparr>) = living s" "living (s\<lparr>pushes := ps\<rparr>) = living s" "living (s\<lparr>t_host := ho\<rparr>) = living s"
  "living (s\<lparr>kills := kills s @ [h]\<rparr>) = living s - {h}" "living (s\<lparr>exits := exits s @ [h]\<rparr>) = living s - {h}"
  by (auto simp: living_def)

lemma hosts_ok_simps [simp]:
  "hosts_ok (s\<lparr>t_mode := m\<rparr>) = hosts_ok s" "hosts_ok (s\<lparr>t_port := p\<rparr>) = hosts_ok s"
  "hosts_ok (s\<lparr>t_error := e\<rparr>) = hosts_ok s" "hosts_ok (s\<lparr>pushes := ps\<rparr>) = hosts_ok s"
  by (simp_all add: hosts_ok_def)

lemma stopHost_ok:
  assumes "hosts_ok s" shows "hosts_ok (stopHost s)"
proof (cases "t_host s")
  case (Some h)
  with assms have "h \<in> living s" by (simp add: hosts_ok_def)
  then have "h < length (forks s)" by (simp add: living_def)
  moreover have "living (s\<lparr>kills := kills s @ [h], t_host := None, t_listening := False\<rparr>) = {}"
    using assms Some by (simp add: hosts_ok_def)
  ultimately show ?thesis using assms Some by (simp add: stopHost_def hosts_ok_def)
qed (use assms in \<open>simp add: stopHost_def hosts_ok_def\<close>)

lemma stopHost_simps [simp]: "t_host (stopHost s) = None" "t_mode (stopHost s) = t_mode s" "forks (stopHost s) = forks s"
    "t_listening (stopHost s) = False" "pushes (stopHost s) = pushes s"
  by (simp_all add: stopHost_def split: option.split)

lemma fork_ok:
  assumes "hosts_ok s" "t_host s = None"
  shows "hosts_ok (s\<lparr>t_listening := False, t_error := note, t_host := Some (length (forks s)), forks := forks s @ [p]\<rparr>)"
  using assms by (auto simp: hosts_ok_def living_def less_Suc_eq)

lemma spawnHost_ok: "hosts_ok s \<Longrightarrow> hosts_ok (spawnHost infos note s)"
  using fork_ok [OF stopHost_ok] by (simp add: spawnHost_def pushStatus_def Let_def)

lemma tele_step_one: "one_host s \<Longrightarrow> forked_before s e \<Longrightarrow> one_host (tele_step infos s e)"
proof (cases e)
  case (Apply m p)
  assume "one_host s"
  then have ok: "hosts_ok (s\<lparr>t_mode := m, t_port := p\<rparr>)" by (simp add: one_host_def)
  from stopHost_ok [OF this] spawnHost_ok [OF this, of infos None] ok Apply show ?thesis
    by (cases m) (auto simp: one_host_def apply_target_def pushStatus_def spawnHost_def Let_def)
next
  case (HostExits h)
  assume ok: "one_host s" and f: "forked_before s e"
  have ex: "hosts_ok (s\<lparr>exits := exits s @ [h], t_host := None, t_listening := False\<rparr>)" if "t_host s = Some h"
    using ok f HostExits that by (auto simp: one_host_def hosts_ok_def forked_before_def)
  have other: "hosts_ok (s\<lparr>exits := exits s @ [h]\<rparr>)" if "t_host s \<noteq> Some h"
    using ok f HostExits that by (auto simp: one_host_def hosts_ok_def forked_before_def)
  show ?thesis
  proof (cases "t_host s = Some h")
    case True
    with spawnHost_ok [OF ex, of infos "Some ''host server exited -- restarting''"] ex HostExits ok show ?thesis
      by (auto simp: one_host_def onExit_def pushStatus_def spawnHost_def Let_def)
  next
    case False
    with other ok HostExits show ?thesis by (simp add: one_host_def onExit_def Let_def)
  qed
next
  case KillHosts
  then show "one_host s \<Longrightarrow> ?thesis" by (simp add: one_host_def stopHost_ok)
qed (auto simp: onListening_def onError_def pushStatus_def one_host_def hosts_ok_def)

interpretation tele_hosts: client_machine "tele_step infos" one_host forked_before for infos
  by unfold_locales (rule tele_step_one)

text \<open>
  Through every order of settings, host reports and host deaths, late reports of replaced hosts included, at
  most one host process lives: the current one; none lives in client mode, and the manager says it listens only
  while one does.
\<close>

theorem at_most_one_canvas_host:
  assumes "obeys forked_before (tele_step infos) new_tele es"
  defines "s \<equiv> run (tele_step infos) new_tele es"
  shows "living s = set_option (t_host s) \<and> (t_mode s = ClientMode \<longrightarrow> living s = {}) \<and> (t_listening s \<longrightarrow> living s \<noteq> {})"
proof -
  have "one_host s" unfolding s_def
    by (rule tele_hosts.run_inv [OF _ assms(1)]) (simp add: one_host_def hosts_ok_def new_tele_def living_def)
  then show ?thesis by (auto simp: one_host_def hosts_ok_def)
qed

theorem at_most_one_canvas_host_witness:
  "living (run (tele_step []) new_tele [Apply HostMode 8100, Apply HostMode 9000, HostExits 0, HostExits 1, HostListens 1 5]) = {2}"
proof -
  let ?es = "[Apply HostMode 8100, Apply HostMode 9000, HostExits 0, HostExits 1, HostListens 1 5]"
  have o: "obeys forked_before (tele_step []) new_tele ?es" and h: "t_host (run (tele_step []) new_tele ?es) = Some 2" by code_simp+
  from at_most_one_canvas_host [OF o] have "living (run (tele_step []) new_tele ?es) = set_option (t_host (run (tele_step []) new_tele ?es))" ..
  then show ?thesis by (simp only: h option.set)
qed

lemma exit_restarts:
  fixes infos
  assumes "t_mode s = HostMode" "t_host s = Some h"
  defines "s1 \<equiv> tele_step infos s (HostExits h)"
  shows "t_mode s1 = HostMode \<and> t_host s1 = Some (length (forks s)) \<and> length (forks s1) = Suc (length (forks s))"
  using assms by (simp add: onExit_def spawnHost_def stopHost_def pushStatus_def Let_def)

text \<open>
  A host that dies whenever it starts is restarted for ever: every exit of the current host forks the next at
  once, with no delay and no limit.
\<close>

theorem dying_host_is_restarted_for_ever:
  assumes "t_mode s = HostMode" "t_host s = Some (length (forks s) - 1)" "forks s \<noteq> []"
  shows "length (forks (run (tele_step infos) s (map (\<lambda>k. HostExits (length (forks s) - 1 + k)) [0..<n]))) = length (forks s) + n
    \<and> t_host (run (tele_step infos) s (map (\<lambda>k. HostExits (length (forks s) - 1 + k)) [0..<n])) = Some (length (forks s) - 1 + n)
    \<and> t_mode (run (tele_step infos) s (map (\<lambda>k. HostExits (length (forks s) - 1 + k)) [0..<n])) = HostMode"
proof (induction n)
  case (Suc n)
  let ?es = "map (\<lambda>k. HostExits (length (forks s) - 1 + k)) [0..<n]"
  have "run (tele_step infos) s (map (\<lambda>k. HostExits (length (forks s) - 1 + k)) [0..<Suc n])
      = tele_step infos (run (tele_step infos) s ?es) (HostExits (length (forks s) - 1 + n))"
    by (simp add: run_def)
  moreover have "0 < length (forks s)" using assms(3) by simp
  ultimately show ?case using exit_restarts [of "run (tele_step infos) s ?es" "length (forks s) - 1 + n" infos] Suc by simp
qed (use assms in simp)

theorem dying_host_is_restarted_for_ever_witness:
  "length (forks (run (tele_step []) (run (tele_step []) new_tele [Apply HostMode 8100]) (map HostExits [0..<50]))) = 51"
proof -
  let ?s = "run (tele_step []) new_tele [Apply HostMode 8100]"
  have s: "t_mode ?s = HostMode" "t_host ?s = Some (length (forks ?s) - 1)" "forks ?s \<noteq> []" "length (forks ?s) = 1" by code_simp+
  have "(\<lambda>k. HostExits (length (forks ?s) - 1 + k)) = HostExits" using s(4) by simp
  with dying_host_is_restarted_for_ever [OF s(1-3), of "[]" 50]
  have "length (forks (run (tele_step []) ?s (map HostExits [0..<50]))) = length (forks ?s) + 50" by (simp only:)
  then show ?thesis by (simp only: s(4))
qed

section \<open>The status\<close>

definition honest :: "tele_status \<Rightarrow> bool" where
  "honest st \<longleftrightarrow> (ts_urls st \<noteq> [] \<longleftrightarrow> ts_listening st) \<and> (ts_mode st = ClientMode \<longrightarrow> ts_port st = None \<and> \<not> ts_listening st)"

interpretation tele_statuses: started_machine "tele_step infos" "\<lambda>s. list_all honest (pushes s)" new_tele for infos
proof
  have h: "honest (status_of infos s)" for infos s by (auto simp: honest_def status_of_def reachableUrls_def Let_def)
  fix s :: tele and e
  assume "list_all honest (pushes s)"
  with h show "list_all honest (pushes (tele_step infos s e))" for infos
    by (cases e) (simp_all add: tele_defs Let_def split: option.split)
qed (simp add: new_tele_def)

text \<open>
  Every status ever pushed names viewer URLs exactly if the host listens, and none in client mode.
\<close>

theorem statuses_are_honest: "list_all honest (pushes (run (tele_step infos) new_tele es))"
  by (rule tele_statuses.reachable_inv)

end
