(* ===== verification/ViewerEngine.thy ===== *)
theory ViewerEngine
  imports Prelude
begin

text \<open>
  The manager of the viewer engines (\<open>app/electron/viewer-engine.ts\<close>), one process per viewer window, with the
  wiring of \<open>app/electron/main.ts\<close>. Engines are numbered as they are created. A respawn awaits the flush of the
  old engine, so it is two events; the flush acknowledgment and its grace timer are one event, the end of the
  grace, at which the engine is told to die (\<open>proc.kill\<close>); its process exits later. The lemmas show that an engine
  is created only when every other of its window has been flushed and told to die or has exited, if the calls for a
  window wait for each other, that the old process may still run then, and what overlapping calls leave running.
\<close>

record engines =
  table :: "(nat \<times> nat) list"
  graces :: "nat list"
  waiting :: "(nat \<times> nat option) list"
  owners :: "nat list"
  killed :: "nat list"
  crashed :: "nat list"
  exits :: "nat list"

definition no_engines :: engines where
  "no_engines = \<lparr>table = [], graces = [], waiting = [], owners = [], killed = [], crashed = [], exits = []\<rparr>"

text \<open>\<open>terminate\<close>: the engine leaves the table at once, its flush has a bounded grace, then it is killed.\<close>

definition terminate :: "nat \<Rightarrow> engines \<Rightarrow> engines" where
  "terminate key s = (case map_of (table s) key of None \<Rightarrow> s
     | Some e \<Rightarrow> s\<lparr>table := AList.delete key (table s), graces := graces s @ [e]\<rparr>)"

definition grace_ends :: "nat \<Rightarrow> engines \<Rightarrow> engines" where
  "grace_ends e s = (if e \<in> set (graces s) then s\<lparr>graces := removeAll e (graces s), killed := killed s @ [e]\<rparr> else s)"

text \<open>\<open>spawn\<close> up to its await, and from there: what it awaits is over once the engine is killed.\<close>

definition spawn_begin :: "nat \<Rightarrow> engines \<Rightarrow> engines" where
  "spawn_begin key s = (terminate key s)\<lparr>waiting := waiting s @ [(key, map_of (table s) key)]\<rparr>"

definition may_go_on :: "engines \<Rightarrow> nat \<times> nat option \<Rightarrow> bool" where
  "may_go_on s w \<longleftrightarrow> (case snd w of None \<Rightarrow> True | Some e \<Rightarrow> e \<in> set (killed s))"

definition spawn_end :: "nat \<Rightarrow> engines \<Rightarrow> engines" where
  "spawn_end i s = (if length (waiting s) \<le> i \<or> \<not> may_go_on s (waiting s ! i) then s
     else s\<lparr>waiting := take i (waiting s) @ drop (Suc i) (waiting s), owners := owners s @ [fst (waiting s ! i)],
            table := AList.update (fst (waiting s ! i)) (length (owners s)) (table s)\<rparr>)"

text \<open>
  The process of an engine exits. If it was not told to die, the exit handler has the manager \<open>forget\<close> whatever its
  window has now.
\<close>

definition engine_dies :: "nat \<Rightarrow> engines \<Rightarrow> engines" where
  "engine_dies e s = (if length (owners s) \<le> e \<or> e \<in> set (exits s) then s
     else (let s1 = s\<lparr>exits := exits s @ [e]\<rparr>
       in if e \<in> set (killed s) then s1 else s1\<lparr>crashed := crashed s @ [e], table := AList.delete (owners s ! e) (table s)\<rparr>))"

datatype engine_event = Spawn nat | SpawnGoesOn nat | CloseWindow nat | GraceEnds nat | EngineDies nat | KillAllEngines

fun engine_step :: "engines \<Rightarrow> engine_event \<Rightarrow> engines" where
  "engine_step s (Spawn k) = spawn_begin k s"
| "engine_step s (SpawnGoesOn i) = spawn_end i s"
| "engine_step s (CloseWindow k) = terminate k s"
| "engine_step s (GraceEnds e) = grace_ends e s"
| "engine_step s (EngineDies e) = engine_dies e s"
| "engine_step s KillAllEngines = fold terminate (keys_of (table s)) s"

section \<open>One writer per window\<close>

text \<open>The engines that were not told to die and have not exited; the processes that have not exited.\<close>

definition in_charge :: "engines \<Rightarrow> nat set" where
  "in_charge s = {..<length (owners s)} - set (killed s) - set (exits s)"

definition running :: "engines \<Rightarrow> nat set" where
  "running s = {..<length (owners s)} - set (exits s)"

text \<open>Calls for a window that wait for each other: no respawn while an engine of the window is flushed, no close during a respawn.\<close>

abbreviation owner :: "engines \<Rightarrow> nat \<Rightarrow> nat" where
  "owner s e \<equiv> owners s ! e"

definition calls_wait :: "engines \<Rightarrow> engine_event \<Rightarrow> bool" where
  "calls_wait s e = (case e of Spawn k \<Rightarrow> k \<notin> set (keys_of (waiting s)) \<and> k \<notin> set (map (owner s) (graces s))
     | CloseWindow k \<Rightarrow> k \<notin> set (keys_of (waiting s)) | KillAllEngines \<Rightarrow> waiting s = [] | _ \<Rightarrow> True)"

definition one_writer :: "engines \<Rightarrow> bool" where
  "one_writer s \<longleftrightarrow> distinct (map (owner s) (graces s) @ keys_of (table s))
     \<and> distinct (keys_of (waiting s)) \<and> set (keys_of (waiting s)) \<inter> set (keys_of (table s)) = {}
     \<and> (\<forall>e \<in> set (killed s) \<union> set (exits s). e < length (owners s)) \<and> (\<forall>e \<in> set (graces s). e < length (owners s) \<and> e \<notin> set (killed s))
     \<and> (\<forall>k e. (k, e) \<in> set (table s) \<longrightarrow> e < length (owners s) \<and> owner s e = k \<and> e \<notin> set (killed s))
     \<and> (\<forall>k x. (k, x) \<in> set (waiting s) \<longrightarrow> (\<forall>e \<in> set (graces s). owner s e = k \<longrightarrow> x = Some e))
     \<and> (\<forall>e \<in> in_charge s. e \<in> set (graces s) \<or> (owner s e, e) \<in> set (table s))"

lemma one_writer_alive:
  assumes "one_writer s" "e \<in> in_charge s" "e' \<in> in_charge s" "owner s e = owner s e'"
  shows "e = e'"
proof -
  have d: "distinct (map (owner s) (graces s))" "distinct (map fst (table s))" "set (map (owner s) (graces s)) \<inter> fst ` set (table s) = {}"
    using assms(1) by (auto simp: one_writer_def keys_of_def)
  have in_table: "fst x \<notin> set (map (owner s) (graces s))" if "x \<in> set (table s)" for x using d(3) that by auto
  have e: "e \<in> set (graces s) \<or> (owner s e, e) \<in> set (table s)" "e' \<in> set (graces s) \<or> (owner s e', e') \<in> set (table s)"
    using assms(1-3) by (simp_all add: one_writer_def)
  from e(1) show ?thesis
  proof
    assume g: "e \<in> set (graces s)"
    then have "e' \<in> set (graces s)" using e(2) in_table [of "(owner s e', e')"] assms(4) by (metis fst_conv image_eqI set_map)
    with g d(1) assms(4) show ?thesis by (auto simp: distinct_map inj_on_def)
  next
    assume t: "(owner s e, e) \<in> set (table s)"
    then have "(owner s e', e') \<in> set (table s)" using e(2) in_table [of "(owner s e, e)"] assms(4) by auto
    with t d(2) assms(4) show ?thesis by (metis Some_eq_map_of_iff option.inject)
  qed
qed

lemma set_delete: "set (AList.delete k xs) = {x \<in> set xs. fst x \<noteq> k}"
  by (auto simp: AList.delete_eq)

lemma waiting_key: "(k, x) \<in> set (waiting s) \<Longrightarrow> k \<in> set (keys_of (waiting s))"
  by (force simp: keys_of_def)

lemma terminate_one:
  assumes ok: "one_writer s" and k: "k \<notin> set (keys_of (waiting s))"
  shows "one_writer (terminate k s)"
proof (cases "map_of (table s) k")
  case (Some e)
  then have ke: "(k, e) \<in> set (table s)" by (rule map_of_SomeD)
  then have "k \<in> set (keys_of (table s))" by (force simp: keys_of_def)
  then have fresh: "k \<notin> owner s ` set (graces s)" using ok by (auto simp: one_writer_def)
  have e: "e < length (owners s)" "owner s e = k" "e \<notin> set (killed s)" using ok ke by (auto simp: one_writer_def)
  have dt: "distinct (map fst (table s))" using ok by (simp add: one_writer_def keys_of_def)
  have only: "e' = e" if "(k, e') \<in> set (table s)" for e'
    using that ke dt by (metis Some_eq_map_of_iff option.inject)
  have waits: "\<forall>k' x. (k', x) \<in> set (waiting s) \<longrightarrow> k' \<noteq> k" using k waiting_key by blast
  let ?t = "s\<lparr>table := AList.delete k (table s), graces := graces s @ [e]\<rparr>"
  have in_charge: "in_charge ?t = in_charge s" by (simp add: in_charge_def)
  have b: "distinct (map (owner s) (graces s))" "distinct (keys_of (table s))" "owner s ` set (graces s) \<inter> set (keys_of (table s)) = {}"
    "set (keys_of (waiting s)) \<inter> set (keys_of (table s)) = {}" "distinct (keys_of (waiting s))"
    using ok by (simp_all add: one_writer_def)
  have "distinct (map (owner ?t) (graces ?t) @ keys_of (table ?t))" using b(1-3) fresh e(2) by auto
  moreover have "set (keys_of (waiting ?t)) \<inter> set (keys_of (table ?t)) = {}" "distinct (keys_of (waiting ?t))" using b(4,5) by auto
  moreover have "\<forall>e \<in> set (graces ?t). e < length (owners ?t) \<and> e \<notin> set (killed ?t)"
    "\<forall>e \<in> set (killed ?t) \<union> set (exits ?t). e < length (owners ?t)" "\<forall>k e. (k, e) \<in> set (table ?t) \<longrightarrow> e < length (owners ?t) \<and> owner ?t e = k \<and> e \<notin> set (killed ?t)"
    using ok e by (auto simp: one_writer_def set_delete)
  moreover have "\<forall>k x. (k, x) \<in> set (waiting ?t) \<longrightarrow> (\<forall>e \<in> set (graces ?t). owner ?t e = k \<longrightarrow> x = Some e)"
    using ok e waits by (auto simp: one_writer_def)
  moreover have "\<forall>e \<in> in_charge ?t. e \<in> set (graces ?t) \<or> (owner ?t e, e) \<in> set (table ?t)"
  proof
    fix e' assume "e' \<in> in_charge ?t"
    then have "e' \<in> set (graces s) \<or> (owner s e', e') \<in> set (table s)" using ok unfolding in_charge one_writer_def by blast
    moreover have "owner s e' = k \<Longrightarrow> (owner s e', e') \<in> set (table s) \<Longrightarrow> e' = e" using only by simp
    ultimately show "e' \<in> set (graces ?t) \<or> (owner ?t e', e') \<in> set (table ?t)"
      by (cases "owner s e' = k") (auto simp: set_delete)
  qed
  ultimately have "one_writer ?t" unfolding one_writer_def by blast
  with Some show ?thesis by (simp add: terminate_def)
qed (use ok in \<open>simp add: terminate_def\<close>)

lemma spawn_begin_one:
  assumes ok: "one_writer s" and k: "k \<notin> set (keys_of (waiting s))" "k \<notin> owner s ` set (graces s)"
  shows "one_writer (spawn_begin k s)"
proof -
  let ?t = "terminate k s"
  have t: "one_writer ?t" using ok k(1) by (rule terminate_one)
  have same: "waiting ?t = waiting s" "owners ?t = owners s" "killed ?t = killed s" by (simp_all add: terminate_def split: option.split)
  have no: "k \<notin> set (keys_of (table ?t))"
  proof (cases "map_of (table s) k")
    case None
    then have "terminate k s = s" by (simp add: terminate_def)
    moreover have "k \<notin> set (keys_of (table s))" using None by (simp add: keys_of_def map_of_eq_None_iff)
    ultimately show ?thesis by simp
  qed (simp add: terminate_def)
  have g: "e \<in> set (graces ?t) \<Longrightarrow> owner s e = k \<Longrightarrow> map_of (table s) k = Some e" for e
    using k(2) by (auto simp: terminate_def split: option.splits)
  have "in_charge (spawn_begin k s) = in_charge ?t" by (simp add: spawn_begin_def in_charge_def)
  then show ?thesis using t k no g same by (auto simp: spawn_begin_def one_writer_def keys_of_def)
qed

lemma spawn_end_one:
  assumes ok: "one_writer s" shows "one_writer (spawn_end i s)"
proof (cases "length (waiting s) \<le> i \<or> \<not> may_go_on s (waiting s ! i)")
  case False
  then have i: "i < length (waiting s)" "may_go_on s (waiting s ! i)" by simp_all
  obtain k x where w: "waiting s ! i = (k, x)" by (cases "waiting s ! i")
  have split: "waiting s = take i (waiting s) @ (k, x) # drop (Suc i) (waiting s)" using i(1) w by (metis id_take_nth_drop)
  let ?w = "take i (waiting s) @ drop (Suc i) (waiting s)"
  have kx: "(k, x) \<in> set (waiting s)" using i(1) w by (metis nth_mem)
  then have kt: "k \<notin> set (keys_of (table s))" using ok waiting_key [OF kx] unfolding one_writer_def by blast
  have "distinct (keys_of (waiting s))" using ok by (simp add: one_writer_def)
  moreover have "map fst (waiting s) = map fst (take i (waiting s)) @ k # map fst (drop (Suc i) (waiting s))"
    by (subst split) simp
  ultimately have ws: "distinct (keys_of ?w)" "k \<notin> set (keys_of ?w)" by (auto simp: keys_of_def)
  have sub: "set ?w \<subseteq> set (waiting s)" using set_take_subset [of i "waiting s"] set_drop_subset [of "Suc i" "waiting s"] by auto
  have kg: "k \<notin> owner s ` set (graces s)"
  proof
    assume "k \<in> owner s ` set (graces s)"
    then obtain e where "e \<in> set (graces s)" "owner s e = k" by auto
    with ok kx have "x = Some e" "e \<notin> set (killed s)" by (auto simp: one_writer_def)
    with i(2) w show False by (simp add: may_go_on_def)
  qed
  let ?n = "length (owners s)"
  have fresh_n: "?n \<notin> set (killed s)" using ok by (auto simp: one_writer_def)
  let ?t = "s\<lparr>waiting := ?w, owners := owners s @ [k], table := AList.update k ?n (table s)\<rparr>"
  have own: "owner ?t e = owner s e" if "e < ?n" for e using that by (simp add: nth_append)
  have gr: "map (owner ?t) (graces ?t) = map (owner s) (graces s)" using ok own by (auto simp: one_writer_def)
  have tb: "AList.update k ?n (table s) = table s @ [(k, ?n)]" using kt by (rule update_fresh)
  have kt': "keys_of (table ?t) = keys_of (table s) @ [k]" using tb by (simp add: keys_of_def)
  have "distinct (map (owner s) (graces s) @ keys_of (table s) @ [k])" using ok kt kg by (auto simp: one_writer_def)
  then have "distinct (map (owner ?t) (graces ?t) @ keys_of (table ?t))" unfolding gr kt' .
  moreover have "set (keys_of (waiting ?t)) \<inter> set (keys_of (table ?t)) = {}"
  proof -
    have "set (keys_of ?w) \<subseteq> set (keys_of (waiting s))" using sub by (auto simp: keys_of_def)
    moreover have "set (keys_of (waiting s)) \<inter> set (keys_of (table s)) = {}" using ok by (simp add: one_writer_def)
    ultimately show ?thesis using ws(2) unfolding kt' by auto
  qed
  moreover have "distinct (keys_of (waiting ?t))" using ws(1) by simp
  moreover have "\<forall>e \<in> set (graces ?t). e < length (owners ?t) \<and> e \<notin> set (killed ?t)"
    "\<forall>e \<in> set (killed ?t) \<union> set (exits ?t). e < length (owners ?t)"
    using ok by (auto simp: one_writer_def less_Suc_eq)
  moreover have "\<forall>k e. (k, e) \<in> set (table ?t) \<longrightarrow> e < length (owners ?t) \<and> owner ?t e = k \<and> e \<notin> set (killed ?t)"
    using ok tb own fresh_n by (auto simp: one_writer_def less_Suc_eq)
  moreover have "\<forall>k x. (k, x) \<in> set (waiting ?t) \<longrightarrow> (\<forall>e \<in> set (graces ?t). owner ?t e = k \<longrightarrow> x = Some e)"
  proof -
    have "owner ?t e = owner s e" if "e \<in> set (graces s)" for e using that ok own by (auto simp: one_writer_def)
    then show ?thesis using ok sub unfolding one_writer_def by auto
  qed
  moreover have "\<forall>e \<in> in_charge ?t. e \<in> set (graces ?t) \<or> (owner ?t e, e) \<in> set (table ?t)"
  proof
    fix e assume e: "e \<in> in_charge ?t"
    show "e \<in> set (graces ?t) \<or> (owner ?t e, e) \<in> set (table ?t)"
    proof (cases "e = ?n")
      case False
      with e have "e \<in> in_charge s" "e < ?n" by (auto simp: in_charge_def)
      with ok own tb show ?thesis by (auto simp: one_writer_def)
    qed (simp add: tb)
  qed
  ultimately have "one_writer ?t" unfolding one_writer_def by blast
  with False w show ?thesis by (simp add: spawn_end_def)
qed (use ok in \<open>auto simp: spawn_end_def\<close>)

lemma grace_ends_one:
  assumes ok: "one_writer s" shows "one_writer (grace_ends e s)"
proof (cases "e \<in> set (graces s)")
  case True
  let ?t = "s\<lparr>graces := removeAll e (graces s), killed := killed s @ [e]\<rparr>"
  have e: "e < length (owners s)" "owner s e \<notin> set (keys_of (table s))" using ok True by (auto simp: one_writer_def)
  have tab: "e' \<noteq> e" if "(k, e') \<in> set (table s)" for k e'
  proof
    assume "e' = e"
    with that ok have "owner s e = k" by (simp add: one_writer_def)
    with that \<open>e' = e\<close> have "owner s e \<in> set (keys_of (table s))" by (force simp: keys_of_def)
    with e(2) show False by simp
  qed
  have "distinct (map (owner s) (removeAll e (graces s)))"
    using ok by (simp add: one_writer_def removeAll_filter_not_eq distinct_map_filter)
  moreover have "in_charge ?t = in_charge s - {e}" by (auto simp: in_charge_def)
  moreover note parts = ok [unfolded one_writer_def]
  moreover have "distinct (map (owner ?t) (graces ?t) @ keys_of (table ?t))" using parts calculation(1) by auto
  moreover have "\<forall>e \<in> set (killed ?t) \<union> set (exits ?t). e < length (owners ?t)"
    "\<forall>e \<in> set (graces ?t). e < length (owners ?t) \<and> e \<notin> set (killed ?t)" using parts e(1) by auto
  moreover have "\<forall>k e. (k, e) \<in> set (table ?t) \<longrightarrow> e < length (owners ?t) \<and> owner ?t e = k \<and> e \<notin> set (killed ?t)" using parts tab by auto
  moreover have "\<forall>k x. (k, x) \<in> set (waiting ?t) \<longrightarrow> (\<forall>e \<in> set (graces ?t). owner ?t e = k \<longrightarrow> x = Some e)" using parts by auto
  moreover have "\<forall>e \<in> in_charge ?t. e \<in> set (graces ?t) \<or> (owner ?t e, e) \<in> set (table ?t)" using parts calculation(2) by auto
  ultimately have "one_writer ?t" unfolding one_writer_def by simp
  with True show ?thesis by (simp add: grace_ends_def)
qed (use ok in \<open>simp add: grace_ends_def\<close>)

lemma engine_dies_one:
  assumes ok: "one_writer s" shows "one_writer (engine_dies e s)"
proof (cases "e \<in> in_charge s")
  case True
  let ?t = "s\<lparr>exits := exits s @ [e], crashed := crashed s @ [e], table := AList.delete (owner s e) (table s)\<rparr>"
  have others: "(owner s e', e') \<in> set (AList.delete (owner s e) (table s))"
    if "e' \<in> in_charge s" "e' \<noteq> e" "(owner s e', e') \<in> set (table s)" for e'
    using one_writer_alive [OF ok that(1) True] that by (auto simp: set_delete)
  have in_charge: "in_charge ?t = in_charge s - {e}" by (auto simp: in_charge_def)
  have p: "distinct (map (owner s) (graces s))" "distinct (keys_of (table s))" "owner s ` set (graces s) \<inter> set (keys_of (table s)) = {}"
    "distinct (keys_of (waiting s))" "set (keys_of (waiting s)) \<inter> set (keys_of (table s)) = {}"
    using ok by (simp_all add: one_writer_def)
  have r: "x \<in> set (killed s) \<union> set (exits s) \<Longrightarrow> x < length (owners s)" "x \<in> set (graces s) \<Longrightarrow> x < length (owners s) \<and> x \<notin> set (killed s)"
    "(k, x) \<in> set (table s) \<Longrightarrow> x < length (owners s) \<and> owner s x = k \<and> x \<notin> set (killed s)"
    "(k, w) \<in> set (waiting s) \<Longrightarrow> x \<in> set (graces s) \<Longrightarrow> owner s x = k \<Longrightarrow> w = Some x"
    "x \<in> in_charge s \<Longrightarrow> x \<in> set (graces s) \<or> (owner s x, x) \<in> set (table s)" for x k w
    using ok unfolding one_writer_def by blast+
  have e: "e < length (owners s)" using True by (simp add: in_charge_def)
  have "one_writer ?t" unfolding one_writer_def
  proof (intro conjI ballI allI impI)
    fix x assume "x \<in> in_charge ?t"
    then have x: "x \<in> in_charge s" "x \<noteq> e" unfolding in_charge by simp_all
    with r(5) [OF x(1)] others [OF x] show "x \<in> set (graces ?t) \<or> (owner ?t x, x) \<in> set (table ?t)" by auto
  next
    fix x assume "x \<in> set (killed ?t) \<union> set (exits ?t)"
    with r(1) [of x] e show "x < length (owners ?t)" by auto
  next
    fix k x assume "(k, x) \<in> set (table ?t)"
    then have "(k, x) \<in> set (table s)" by (simp add: set_delete)
    from r(3) [OF this] show "x < length (owners ?t)" "owner ?t x = k" "x \<notin> set (killed ?t)" by simp_all
  qed (use p r in \<open>simp_all, blast+\<close>)
  with True show ?thesis by (auto simp: engine_dies_def in_charge_def Let_def)
next
  case False
  then have "engine_dies e s = s \<or> e < length (owners s) \<and> e \<in> set (killed s) \<and> engine_dies e s = s\<lparr>exits := exits s @ [e]\<rparr>"
    by (auto simp: engine_dies_def in_charge_def Let_def)
  then show ?thesis
  proof
    assume "e < length (owners s) \<and> e \<in> set (killed s) \<and> engine_dies e s = s\<lparr>exits := exits s @ [e]\<rparr>"
    moreover from this have "in_charge (engine_dies e s) = in_charge s" by (auto simp: in_charge_def)
    ultimately show ?thesis using ok unfolding one_writer_def by auto
  qed (use ok in simp)
qed

lemma terminate_all_one: "one_writer s \<Longrightarrow> waiting s = [] \<Longrightarrow> one_writer (fold terminate ks s)"
proof (induction ks arbitrary: s)
  case (Cons k ks)
  have "waiting (terminate k s) = []" using Cons(3) by (simp add: terminate_def split: option.split)
  moreover have "one_writer (terminate k s)" using Cons(2,3) by (intro terminate_one) (simp_all add: keys_of_def)
  ultimately show ?case using Cons(1) by simp
qed simp

lemma engine_step_one: "one_writer s \<Longrightarrow> calls_wait s e \<Longrightarrow> one_writer (engine_step s e)"
  by (cases e) (auto simp: calls_wait_def intro: terminate_one spawn_begin_one spawn_end_one grace_ends_one engine_dies_one terminate_all_one)

interpretation viewer_engines: client_machine engine_step one_writer calls_wait
  by unfold_locales (rule engine_step_one)

text \<open>
  C20. If the calls for a window wait for each other, whatever engines exit on the way, then of the engines that were
  ever forked for a window all but one have exited or were told to die, after their flush was acknowledged or its
  grace was over: terminate before respawn. (The process of one that was told to die may still run.) The one is
  registered or in its flush grace.
\<close>

theorem one_engine_per_window:
  assumes "obeys calls_wait engine_step no_engines es"
  defines "s \<equiv> run engine_step no_engines es"
  shows "inj_on (owner s) (in_charge s) \<and> (\<forall>e \<in> in_charge s. e \<in> set (graces s) \<or> (owner s e, e) \<in> set (table s))"
proof -
  have ok: "one_writer s" unfolding s_def
    by (rule viewer_engines.run_inv [OF _ assms(1)]) (simp add: one_writer_def no_engines_def in_charge_def keys_of_def)
  then show ?thesis using one_writer_alive [OF ok] by (auto simp: inj_on_def one_writer_def)
qed

theorem one_engine_per_window_witness:
  "let s = run engine_step no_engines [Spawn 7, SpawnGoesOn 0, Spawn 7, GraceEnds 0, SpawnGoesOn 0, Spawn 8, SpawnGoesOn 0]
   in inj_on (owner s) {1, 2} \<and> owner s 1 = 7"
proof -
  let ?es = "[Spawn 7, SpawnGoesOn 0, Spawn 7, GraceEnds 0, SpawnGoesOn 0, Spawn 8, SpawnGoesOn 0]"
  have o: "obeys calls_wait engine_step no_engines ?es" and a: "owners (run engine_step no_engines ?es) = [7, 7, 8]"
    "killed (run engine_step no_engines ?es) = [0]" "exits (run engine_step no_engines ?es) = []" by code_simp+
  have "in_charge (run engine_step no_engines ?es) = {1, 2}" unfolding in_charge_def a by auto
  with one_engine_per_window [OF o] a(1) show ?thesis by (simp add: Let_def)
qed

text \<open>
  The manager does not wait for the exit: the engine of a respawn is forked while the process of the old one, which
  was only sent its signal, still runs, and if that had not flushed within the grace both have the sidecar file.
\<close>

theorem respawn_does_not_wait_for_the_exit:
  "let es = [Spawn 7, SpawnGoesOn 0, Spawn 7, GraceEnds 0, SpawnGoesOn 0]; s = run engine_step no_engines es
   in obeys calls_wait engine_step no_engines es \<and> owners s = [7, 7] \<and> running s = {0, 1}"
proof -
  let ?es = "[Spawn 7, SpawnGoesOn 0, Spawn 7, GraceEnds 0, SpawnGoesOn 0]"
  have a: "owners (run engine_step no_engines ?es) = [7, 7]" "exits (run engine_step no_engines ?es) = []" by code_simp+
  moreover have "running (run engine_step no_engines ?es) = {0, 1}" unfolding running_def a by auto
  moreover have "obeys calls_wait engine_step no_engines ?es" by code_simp
  ultimately show ?thesis by (simp only: Let_def simp_thms)
qed

section \<open>Overlapping calls\<close>

text \<open>An engine the manager no longer knows of: nothing kills it.\<close>

definition stray :: "nat \<Rightarrow> engines \<Rightarrow> bool" where
  "stray e s \<longleftrightarrow> e < length (owners s) \<and> e \<notin> set (killed s) \<and> e \<notin> set (graces s) \<and> list_all (\<lambda>x. snd x \<noteq> e) (table s)"

lemma stray_terminate: "stray e s \<Longrightarrow> stray e (terminate k s)"
  by (auto simp: stray_def terminate_def set_delete list_all_iff dest!: map_of_SomeD split: option.split)

lemma stray_fold: "stray e s \<Longrightarrow> stray e (fold terminate ks s)"
  by (induction ks arbitrary: s) (simp_all add: stray_terminate)

lemma stray_update: "list_all (\<lambda>x. snd x \<noteq> e) t \<Longrightarrow> v \<noteq> e \<Longrightarrow> list_all (\<lambda>x. snd x \<noteq> e) (AList.update k v t)"
  by (induction t) auto

lemma stray_step: "stray e s \<Longrightarrow> stray e (engine_step s ev)"
proof (cases ev)
  case (Spawn k)
  assume "stray e s"
  from stray_terminate [OF this, of k] Spawn show ?thesis by (simp add: stray_def spawn_begin_def)
next
  case (SpawnGoesOn i)
  assume "stray e s"
  with SpawnGoesOn show ?thesis by (auto simp: stray_def spawn_end_def intro: stray_update)
next
  case (GraceEnds x)
  assume "stray e s"
  with GraceEnds show ?thesis by (auto simp: stray_def grace_ends_def)
next
  case (EngineDies x)
  assume "stray e s"
  with EngineDies show ?thesis by (auto simp: stray_def engine_dies_def Let_def set_delete list_all_iff)
qed (simp_all add: stray_terminate stray_fold)

interpretation strays: machine engine_step "stray e" for e
  by unfold_locales (rule stray_step)

definition two_respawns :: engines where
  "two_respawns = run engine_step no_engines [Spawn 7, SpawnGoesOn 0, Spawn 7, Spawn 7, SpawnGoesOn 1, GraceEnds 0, SpawnGoesOn 0]"

text \<open>
  Two respawns of a window that overlap: the second finds nothing to flush and starts its engine beside the old
  one that still writes, and the first then starts another over it; the overwritten engine is never killed, not
  even when the application quits.
\<close>

theorem overlapping_respawns_leak_an_engine:
  "in_charge (run engine_step no_engines [Spawn 7, SpawnGoesOn 0, Spawn 7, Spawn 7, SpawnGoesOn 1]) = {0, 1}
     \<and> table two_respawns = [(7, 2)] \<and> 1 \<notin> set (killed (run engine_step two_respawns es))"
proof -
  let ?s = "run engine_step no_engines [Spawn 7, SpawnGoesOn 0, Spawn 7, Spawn 7, SpawnGoesOn 1]"
  have a: "owners ?s = [7, 7]" "killed ?s = []" "exits ?s = []" by code_simp+
  have "in_charge ?s = {0, 1}" unfolding in_charge_def a by auto
  moreover have "stray 1 two_respawns" "table two_respawns = [(7, 2)]" by code_simp+
  ultimately show ?thesis using strays.run_inv [of 1 two_respawns es] by (simp add: stray_def)
qed

text \<open>
  A window closed during its respawn gets its new engine after that: an engine without a window.
\<close>

theorem close_during_respawn_leaves_an_engine:
  "let s = run engine_step no_engines [Spawn 7, SpawnGoesOn 0, Spawn 7, CloseWindow 7, GraceEnds 0, SpawnGoesOn 0]
   in table s = [(7, 1)] \<and> 1 < length (owners s) \<and> 1 \<notin> set (killed s)"
  by code_simp

end
