(* ===== verification/Janitor.thy ===== *)
theory Janitor
  imports Prelude
begin

text \<open>
  The hardware janitor (\<open>app/orchestrator/janitor.ts\<close>): the watchdog that waits for a crash of the main process
  behind a state file (written by \<open>app/electron/main.ts\<close>), the wait for orphaned orchestrators, and the steps
  that disable the mirrors and stop the cameras. The system calls are a parameter: what each poll reads, and which
  device calls throw. The lemmas show when a crash is answered, and what keeps it from being answered.
\<close>

section \<open>The watchdog\<close>

text \<open>What is on disk at a read: no file, text that does not parse, or a state with its process ids.\<close>

record watch_state =
  orchestratorPids :: "nat list option"
  orchestratorPid :: "nat option"

datatype state_file = NoFile | Garbled | StateFile watch_state

definition readState :: "state_file \<Rightarrow> watch_state option" where
  "readState f = (case f of StateFile st \<Rightarrow> Some st | _ \<Rightarrow> None)"

definition orphans :: "watch_state \<Rightarrow> nat list" where
  "orphans st = (case orchestratorPids st of Some ps \<Rightarrow> ps | None \<Rightarrow> (case orchestratorPid st of Some p \<Rightarrow> [p] | None \<Rightarrow> []))"

datatype watch_result = StandDown | CleanExit | Enforce "nat list"

text \<open>A poll: what it reads, whether the main process lives, and what the second read finds if it does not.\<close>

record poll =
  p_file :: state_file
  p_main :: bool
  p_again :: state_file

fun runWatchdog :: "poll list \<Rightarrow> watch_result option" where
  "runWatchdog [] = None"
| "runWatchdog (p # ps) = (case readState (p_file p) of
      None \<Rightarrow> Some StandDown
    | Some _ \<Rightarrow> if p_main p then runWatchdog ps
        else (case readState (p_again p) of None \<Rightarrow> Some CleanExit | Some st \<Rightarrow> Some (Enforce (orphans st))))"

definition armed :: "poll \<Rightarrow> bool" where
  "armed p \<longleftrightarrow> readState (p_file p) \<noteq> None \<and> p_main p"

lemma runWatchdog_armed: "list_all armed ps \<Longrightarrow> runWatchdog (ps @ qs) = runWatchdog qs"
  by (induction ps) (auto simp: armed_def)

text \<open>
  If every poll reads a well-formed state until the main process is gone, and it is still there then, the
  watchdog enforces quiescence on exactly the processes the state names; otherwise it keeps watching.
\<close>

theorem crash_is_enforced:
  assumes "list_all armed ps" "\<not> p_main q" "p_file q = StateFile st" "p_again q = StateFile st'"
  shows "runWatchdog ps = None \<and> runWatchdog (ps @ q # qs) = Some (Enforce (orphans st'))"
  using runWatchdog_armed [OF assms(1), of "[]"] runWatchdog_armed [OF assms(1), of "q # qs"] assms(2-4)
  by (simp add: readState_def)

definition demo_state :: state_file where
  "demo_state = StateFile \<lparr>orchestratorPids = Some [41, 42], orchestratorPid = None\<rparr>"

theorem crash_is_enforced_witness:
  "runWatchdog ([\<lparr>p_file = demo_state, p_main = True, p_again = NoFile\<rparr>] @ \<lparr>p_file = demo_state, p_main = False, p_again = demo_state\<rparr> # [])
     = Some (Enforce [41, 42])"
  using crash_is_enforced [of "[\<lparr>p_file = demo_state, p_main = True, p_again = NoFile\<rparr>]" "\<lparr>p_file = demo_state, p_main = False, p_again = demo_state\<rparr>"
      "\<lparr>orchestratorPids = Some [41, 42], orchestratorPid = None\<rparr>" "\<lparr>orchestratorPids = Some [41, 42], orchestratorPid = None\<rparr>" "[]"]
  by (simp add: demo_state_def armed_def readState_def orphans_def)

text \<open>
  One read of a half-written state file ends the watch although the main process lives: a crash after it is
  answered by nobody, whatever the later polls would have seen. (The comment at \<open>readState\<close> says the file is read
  again on the next tick.)
\<close>

theorem half_written_state_disarms:
  assumes "list_all armed ps"
  shows "runWatchdog (ps @ \<lparr>p_file = Garbled, p_main = True, p_again = again\<rparr> # qs) = Some StandDown"
  using runWatchdog_armed [OF assms] by (simp add: readState_def)

theorem half_written_state_disarms_witness:
  "runWatchdog ([] @ \<lparr>p_file = Garbled, p_main = True, p_again = NoFile\<rparr> # [\<lparr>p_file = demo_state, p_main = False, p_again = demo_state\<rparr>]) = Some StandDown"
  by (rule half_written_state_disarms) simp

text \<open>The only ways out of the watch, read backwards: no state at some poll, or the main process gone.\<close>

lemma runWatchdog_ends:
  "runWatchdog ps = Some r \<Longrightarrow> \<exists>p \<in> set ps. r = StandDown \<and> readState (p_file p) = None \<or> \<not> p_main p"
  by (induction ps) (auto split: option.splits if_splits)

section \<open>Orphans\<close>

definition ORPHAN_WAIT_MS :: nat where "ORPHAN_WAIT_MS = 5000"

function wait_until_gone :: "(nat \<Rightarrow> bool) \<Rightarrow> nat \<Rightarrow> nat" where
  "wait_until_gone alive t = (if alive t \<and> t < ORPHAN_WAIT_MS then wait_until_gone alive (t + 200) else t)"
  by auto
termination by (relation "measure (\<lambda>(alive, t). ORPHAN_WAIT_MS - t)") auto

declare wait_until_gone.simps [simp del]

text \<open>\<open>waitForOrphanGone\<close>: the time waited, and whether the process was killed at the end of it.\<close>

definition waitForOrphanGone :: "(nat \<Rightarrow> bool) \<Rightarrow> nat \<times> bool" where
  "waitForOrphanGone alive = (let t = wait_until_gone alive 0 in (t, alive t))"

lemma wait_until_gone_bounds:
  "t \<le> ORPHAN_WAIT_MS \<Longrightarrow> t mod 200 = 0 \<Longrightarrow> wait_until_gone alive t \<le> ORPHAN_WAIT_MS
     \<and> (alive (wait_until_gone alive t) \<longrightarrow> wait_until_gone alive t = ORPHAN_WAIT_MS)"
proof (induction alive t rule: wait_until_gone.induct)
  case (1 alive t)
  show ?case
  proof (cases "alive t \<and> t < ORPHAN_WAIT_MS")
    case True
    have "t + 200 \<le> ORPHAN_WAIT_MS"
    proof -
      obtain k where "t = 200 * k" using 1(3) by auto
      then show ?thesis using True by (auto simp: ORPHAN_WAIT_MS_def)
    qed
    moreover have "(t + 200) mod 200 = 0" using 1(3) by simp
    ultimately show ?thesis using 1(1) True by (subst (1 2 3) wait_until_gone.simps) simp
  next
    case False
    with 1(2) show ?thesis by (subst (1 2 3) wait_until_gone.simps) auto
  qed
qed

text \<open>
  The wait for an orphan takes at most five seconds, and ends with the orphan gone or killed; it is killed only after the full wait.
\<close>

theorem orphan_is_gone_or_killed:
  "case waitForOrphanGone alive of (t, killed) \<Rightarrow> t \<le> 5000 \<and> (killed \<or> \<not> alive t) \<and> (killed \<longrightarrow> t = 5000)"
  using wait_until_gone_bounds [of 0 alive] by (simp add: waitForOrphanGone_def Let_def ORPHAN_WAIT_MS_def)

section \<open>Quiescing the hardware\<close>

text \<open>What the devices answer; \<open>cameras_found\<close> is \<open>None\<close> if listing them throws.\<close>

record hardware =
  lists_ports :: bool
  port_found :: bool
  opens :: bool
  version_ok :: bool
  cameras_found :: "nat option"

datatype quiesce_step = ListPorts | OpenDevice | VerifyVersion | DisableMems | ReleaseDevice | ListCameras
  | StopCamera nat | ReleaseCamera nat | CleanupCore

definition disableMems :: "hardware \<Rightarrow> quiesce_step list" where
  "disableMems h = [ListPorts] @ (if lists_ports h \<and> port_found h
     then [OpenDevice] @ (if opens h then [VerifyVersion] @ (if version_ok h then [DisableMems] else []) @ [ReleaseDevice] else []) else [])"

definition quiesceCameras :: "hardware \<Rightarrow> quiesce_step list" where
  "quiesceCameras h = [ListCameras] @ (case cameras_found h of None \<Rightarrow> [] | Some n \<Rightarrow> concat (map (\<lambda>i. [StopCamera i, ReleaseCamera i]) [0..<n]))"

text \<open>\<open>quiesceAll\<close>: the deadline cuts the run after some steps.\<close>

definition quiesceAll :: "nat option \<Rightarrow> hardware \<Rightarrow> quiesce_step list" where
  "quiesceAll deadline h = (let steps = disableMems h @ quiesceCameras h in (case deadline of None \<Rightarrow> steps | Some n \<Rightarrow> take n steps) @ [CleanupCore])"

lemma camera_steps:
  "x \<in> set (quiesceCameras h) \<longleftrightarrow> x = ListCameras \<or> (\<exists>n i. cameras_found h = Some n \<and> i < n \<and> (x = StopCamera i \<or> x = ReleaseCamera i))"
  by (auto simp: quiesceCameras_def split: option.split)

text \<open>
  If the deadline is not hit, every camera is stopped and released whatever happened to the mirrors, and the
  mirrors are disabled exactly if their port was found and the device opened and knew its version; a device that
  opened is released.
\<close>

theorem janitor_reaches_all_hardware:
  "(\<forall>n. cameras_found h = Some n \<longrightarrow> (\<forall>i < n. StopCamera i \<in> set (quiesceAll None h) \<and> ReleaseCamera i \<in> set (quiesceAll None h)))
     \<and> (DisableMems \<in> set (quiesceAll None h) \<longleftrightarrow> lists_ports h \<and> port_found h \<and> opens h \<and> version_ok h)
     \<and> (ReleaseDevice \<in> set (quiesceAll None h) \<longleftrightarrow> lists_ports h \<and> port_found h \<and> opens h)"
  by (auto simp: quiesceAll_def camera_steps disableMems_def)

theorem janitor_reaches_all_hardware_witness:
  "let h = \<lparr>lists_ports = True, port_found = True, opens = True, version_ok = False, cameras_found = Some 2\<rparr>
   in StopCamera 1 \<in> set (quiesceAll None h) \<and> DisableMems \<notin> set (quiesceAll None h)"
  using janitor_reaches_all_hardware [of "\<lparr>lists_ports = True, port_found = True, opens = True, version_ok = False, cameras_found = Some 2\<rparr>"]
  by (simp add: Let_def)

text \<open>
  The cameras come after the mirrors: if a call to the mirror controller hangs until the deadline, no camera is stopped.
\<close>

theorem hung_mirrors_leave_cameras:
  assumes "n \<le> length (disableMems h)"
  shows "StopCamera i \<notin> set (quiesceAll (Some n) h)"
proof -
  have "StopCamera i \<notin> set (disableMems h)" by (simp add: disableMems_def)
  then have "StopCamera i \<notin> set (take n (disableMems h))" by (meson in_set_takeD)
  with assms show ?thesis by (simp add: quiesceAll_def)
qed

theorem hung_mirrors_leave_cameras_witness:
  "StopCamera 0 \<notin> set (quiesceAll (Some 3) \<lparr>lists_ports = True, port_found = True, opens = True, version_ok = True, cameras_found = Some 2\<rparr>)"
  by (rule hung_mirrors_leave_cameras) (simp add: disableMems_def)

end
