(* ===== verification/LogRing.thy ===== *)
theory LogRing
  imports Prelude
begin

text \<open>
  The bounded tail of a child process's output (\<open>app/electron/log-ring.ts\<close>) and the crash report made from it
  (\<open>app/electron/crash-report.ts\<close>). Text is a list of code points, decoded from each chunk before the model; its byte
  length is that of UTF-8. The lemmas show the two bounds, that the ring is the longest suffix of the output's lines within
  them, and that it does not depend on how the output was cut into chunks.
\<close>

type_synonym chars = "nat list"

definition utf8_len :: "nat \<Rightarrow> nat" where
  "utf8_len c = (if c < 128 then 1 else if c < 2048 then 2 else if c < 65536 then 3 else 4)"

definition byteLen :: "chars \<Rightarrow> nat" where
  "byteLen s = sum_list (map utf8_len s)"

definition DEFAULT_MAX_LINES :: nat where "DEFAULT_MAX_LINES = 256"

definition DEFAULT_MAX_BYTES :: nat where "DEFAULT_MAX_BYTES = 64 * 1024"

record log_ring =
  maxLines :: nat
  maxBytes :: nat
  buf :: "chars list"
  ring_bytes :: int
  partial_line :: chars

definition new_ring :: "nat option \<Rightarrow> nat option \<Rightarrow> log_ring" where
  "new_ring ls bs = \<lparr>maxLines = max 1 (case ls of Some n \<Rightarrow> n | None \<Rightarrow> DEFAULT_MAX_LINES),
     maxBytes = max 1 (case bs of Some n \<Rightarrow> n | None \<Rightarrow> DEFAULT_MAX_BYTES), buf = [], ring_bytes = 0, partial_line = []\<rparr>"

definition cost :: "chars \<Rightarrow> int" where
  "cost l = int (byteLen l) + 1"

fun evict :: "nat \<Rightarrow> nat \<Rightarrow> chars list \<Rightarrow> int \<Rightarrow> chars list \<times> int" where
  "evict ml mb [] n = ([], n)"
| "evict ml mb (l # ls) n = (if ml < length (l # ls) \<or> (int mb < n \<and> 1 < length (l # ls)) then evict ml mb ls (n - cost l) else (l # ls, n))"

definition append_line :: "chars \<Rightarrow> log_ring \<Rightarrow> log_ring" where
  "append_line l r = (case evict (maxLines r) (maxBytes r) (buf r @ [l]) (ring_bytes r + cost l) of
     (b, n) \<Rightarrow> r\<lparr>buf := b, ring_bytes := n\<rparr>)"

definition strip_cr :: "chars \<Rightarrow> chars" where
  "strip_cr l = (if l \<noteq> [] \<and> last l = 13 then butlast l else l)"

text \<open>The loop over the complete lines of a text, and what is left of it.\<close>

function cut_lines :: "chars \<Rightarrow> chars list \<times> chars" where
  "cut_lines t = (if 10 \<in> set t
     then (let (ls, rest) = cut_lines (tl (dropWhile (\<lambda>c. c \<noteq> 10) t)) in (strip_cr (takeWhile (\<lambda>c. c \<noteq> 10) t) # ls, rest))
     else ([], t))"
  by auto
termination
proof (relation "measure length")
  fix t :: chars assume "10 \<in> set t"
  then have "dropWhile (\<lambda>c. c \<noteq> 10) t \<noteq> []" by (auto simp: dropWhile_eq_Nil_conv)
  moreover have "length (dropWhile (\<lambda>c. c \<noteq> 10) t) \<le> length t" by (rule length_dropWhile_le)
  ultimately show "(tl (dropWhile (\<lambda>c. c \<noteq> 10) t), t) \<in> measure length"
    by (cases "dropWhile (\<lambda>c. c \<noteq> 10) t") auto
qed simp

declare cut_lines.simps [simp del]

definition push_chunk :: "chars \<Rightarrow> log_ring \<Rightarrow> log_ring" where
  "push_chunk chunk r = (if chunk = [] then r
     else case cut_lines (partial_line r @ chunk) of (ls, rest) \<Rightarrow>
       (let r1 = fold append_line ls (r\<lparr>partial_line := []\<rparr>)
        in if maxBytes r < byteLen rest then append_line rest r1 else r1\<lparr>partial_line := rest\<rparr>))"

definition ring_lines :: "log_ring \<Rightarrow> chars list" where
  "ring_lines r = (if partial_line r \<noteq> [] then buf r @ [partial_line r] else buf r)"

definition ring_tail :: "int \<Rightarrow> log_ring \<Rightarrow> chars list" where
  "ring_tail n r = (if n \<le> 0 then [] else keep_last (nat n) (ring_lines r))"

fun join_lines :: "chars list \<Rightarrow> chars" where
  "join_lines [] = []"
| "join_lines [l] = l"
| "join_lines (l # ls) = l @ [10] @ join_lines ls"

definition ring_text :: "log_ring \<Rightarrow> chars" where
  "ring_text r = join_lines (ring_lines r)"

section \<open>The longest suffix that fits\<close>

definition weight :: "chars list \<Rightarrow> int" where
  "weight ls = sum_list (map cost ls)"

definition fits :: "nat \<Rightarrow> nat \<Rightarrow> chars list \<Rightarrow> bool" where
  "fits ml mb ls \<longleftrightarrow> length ls \<le> ml \<and> (weight ls \<le> int mb \<or> length ls \<le> 1)"

text \<open>The longest suffix that fits.\<close>

fun longest_fit :: "nat \<Rightarrow> nat \<Rightarrow> chars list \<Rightarrow> chars list" where
  "longest_fit ml mb [] = []"
| "longest_fit ml mb (l # ls) = (if fits ml mb (l # ls) then l # ls else longest_fit ml mb ls)"

lemma cost_pos: "0 < cost l" by (simp add: cost_def)

lemma weight_simps [simp]: "weight [] = 0" "weight (l # ls) = cost l + weight ls" "weight (xs @ ys) = weight xs + weight ys"
  by (simp_all add: weight_def)

lemma weight_nonneg: "0 \<le> weight ls"
  by (induction ls) (use cost_pos in \<open>auto intro: add_nonneg_nonneg less_imp_le\<close>)

lemma evict_fit: "evict ml mb ls (weight ls) = (longest_fit ml mb ls, weight (longest_fit ml mb ls))"
  by (induction ls) (auto simp: fits_def)

lemma longest_fit_suffix: "\<exists>k. longest_fit ml mb ls = drop k ls"
proof (induction ls)
  case (Cons l ls)
  then obtain k where "longest_fit ml mb ls = drop k ls" by auto
  then have "longest_fit ml mb (l # ls) = drop (if fits ml mb (l # ls) then 0 else Suc k) (l # ls)" by simp
  then show ?case by blast
qed simp

lemma longest_fit_fits: "0 < ml \<Longrightarrow> fits ml mb (longest_fit ml mb ls)"
  by (induction ls) (auto simp: fits_def)

lemma longest_fit_nonempty: "0 < ml \<Longrightarrow> ls \<noteq> [] \<Longrightarrow> longest_fit ml mb ls \<noteq> []"
proof (induction ls)
  case (Cons l ls)
  then show ?case by (cases "ls = []") (auto simp: fits_def)
qed simp

lemma fits_suffix: "fits ml mb (xs @ ys) \<Longrightarrow> fits ml mb ys"
  using weight_nonneg [of xs] by (auto simp: fits_def)

lemma longest_fit_append: "longest_fit ml mb (longest_fit ml mb xs @ ys) = longest_fit ml mb (xs @ ys)"
proof (induction xs)
  case (Cons x xs)
  show ?case
  proof (cases "fits ml mb (x # xs)")
    case False
    then have "\<not> fits ml mb ((x # xs) @ ys)" if "ys = []" using that by simp
    moreover have "\<not> fits ml mb ((x # xs) @ ys)"
      using False weight_nonneg [of ys] by (auto simp: fits_def)
    ultimately show ?thesis using Cons False by simp
  qed simp
qed simp

definition ring_ok :: "log_ring \<Rightarrow> bool" where
  "ring_ok r \<longleftrightarrow> 0 < maxLines r \<and> ring_bytes r = weight (buf r)"

lemma append_line_fit:
  "ring_ok r \<Longrightarrow> append_line l r = r\<lparr>buf := longest_fit (maxLines r) (maxBytes r) (buf r @ [l]),
     ring_bytes := weight (longest_fit (maxLines r) (maxBytes r) (buf r @ [l]))\<rparr>"
  using evict_fit [of "maxLines r" "maxBytes r" "buf r @ [l]"] by (simp add: append_line_def ring_ok_def)

lemma append_lines_fit:
  "ring_ok r \<Longrightarrow> buf r = longest_fit (maxLines r) (maxBytes r) xs \<Longrightarrow>
     ring_ok (fold append_line ls r) \<and> buf (fold append_line ls r) = longest_fit (maxLines r) (maxBytes r) (xs @ ls)
     \<and> maxLines (fold append_line ls r) = maxLines r \<and> maxBytes (fold append_line ls r) = maxBytes r
     \<and> partial_line (fold append_line ls r) = partial_line r"
proof (induction ls arbitrary: r xs)
  case (Cons l ls)
  let ?r = "append_line l r"
  have eq: "?r = r\<lparr>buf := longest_fit (maxLines r) (maxBytes r) (buf r @ [l]), ring_bytes := weight (longest_fit (maxLines r) (maxBytes r) (buf r @ [l]))\<rparr>"
    by (rule append_line_fit [OF Cons(2)])
  have "ring_ok ?r" using Cons(2) by (simp add: eq ring_ok_def)
  moreover have "buf ?r = longest_fit (maxLines ?r) (maxBytes ?r) (xs @ [l])"
    using Cons(3) by (simp add: eq longest_fit_append)
  ultimately show ?case using Cons(1) [of ?r "xs @ [l]"] by (simp add: eq)
qed simp

text \<open>
  C21. Whatever lines were appended, the ring holds the longest suffix of all of them that is within both bounds
  (the last line always): its lines are at most \<open>maxLines\<close>, and their bytes at most \<open>maxBytes\<close> unless one line
  alone is longer.
\<close>

theorem ring_keeps_the_longest_tail:
  fixes ls
  assumes "0 < maxLines r" "buf r = []" "ring_bytes r = 0"
  defines "r' \<equiv> fold append_line ls r"
  shows "buf r' = longest_fit (maxLines r) (maxBytes r) ls \<and> length (buf r') \<le> maxLines r
    \<and> (weight (buf r') \<le> int (maxBytes r) \<or> length (buf r') \<le> 1) \<and> (\<exists>k. buf r' = drop k ls) \<and> ring_bytes r' = weight (buf r')
    \<and> (ls \<noteq> [] \<longrightarrow> buf r' \<noteq> [])"
proof -
  have ok: "ring_ok r" "buf r = longest_fit (maxLines r) (maxBytes r) []" using assms(1-3) by (simp_all add: ring_ok_def)
  from append_lines_fit [OF this, of ls] have b: "buf r' = longest_fit (maxLines r) (maxBytes r) ls" "ring_ok r'" by (simp_all add: r'_def)
  moreover have "ls \<noteq> [] \<Longrightarrow> longest_fit (maxLines r) (maxBytes r) ls \<noteq> []"
    using assms(1) by (rule longest_fit_nonempty)
  moreover have "fits (maxLines r) (maxBytes r) (buf r')" using longest_fit_fits [OF assms(1)] b(1) by simp
  ultimately show ?thesis using longest_fit_suffix [of "maxLines r" "maxBytes r" ls] by (simp add: ring_ok_def fits_def)
qed

theorem ring_keeps_the_longest_tail_witness:
  "buf (fold append_line [[65, 66], [67], [68, 69, 70]] (new_ring (Some 5) (Some 6))) = [[67], [68, 69, 70]]"
proof -
  let ?r = "new_ring (Some 5) (Some 6)"
  have "0 < maxLines ?r" "buf ?r = []" "ring_bytes ?r = 0" by (simp_all add: new_ring_def)
  from ring_keeps_the_longest_tail [OF this, of "[[65, 66], [67], [68, 69, 70]]"]
  show ?thesis by (simp add: new_ring_def fits_def cost_def byteLen_def utf8_len_def)
qed

section \<open>Chunks\<close>

lemma cut_lines_append:
  "cut_lines (xs @ ys) = (case cut_lines xs of (l1, p1) \<Rightarrow> case cut_lines (p1 @ ys) of (l2, p2) \<Rightarrow> (l1 @ l2, p2))"
proof (induction xs rule: cut_lines.induct)
  case (1 t)
  show ?case
  proof (cases "10 \<in> set t")
    case True
    let ?d = "dropWhile (\<lambda>c. c \<noteq> 10) t"
    have d: "?d \<noteq> []" using True by (auto simp: dropWhile_eq_Nil_conv)
    have app: "takeWhile (\<lambda>c. c \<noteq> 10) (t @ ys) = takeWhile (\<lambda>c. c \<noteq> 10) t" "dropWhile (\<lambda>c. c \<noteq> 10) (t @ ys) = ?d @ ys"
      using True by (auto simp: takeWhile_append1 dropWhile_append1)
    have "cut_lines (t @ ys) = (case cut_lines (tl ?d @ ys) of (ls, rest) \<Rightarrow> (strip_cr (takeWhile (\<lambda>c. c \<noteq> 10) t) # ls, rest))"
      using True d by (subst cut_lines.simps) (simp add: app tl_append2)
    moreover have "cut_lines t = (case cut_lines (tl ?d) of (ls, rest) \<Rightarrow> (strip_cr (takeWhile (\<lambda>c. c \<noteq> 10) t) # ls, rest))"
      using True by (subst cut_lines.simps) simp
    ultimately show ?thesis using 1 [OF True] by (simp split: prod.split)
  next
    case False
    then have "cut_lines t = ([], t)" by (subst cut_lines.simps) simp
    then show ?thesis by (simp split: prod.split)
  qed
qed

lemma append_lines_frame:
  "maxBytes (fold append_line ls r) = maxBytes r \<and> maxLines (fold append_line ls r) = maxLines r
     \<and> partial_line (fold append_line ls r) = partial_line r"
  by (induction ls arbitrary: r) (auto simp: append_line_def split: prod.split)

text \<open>
  How the output was cut into chunks does not matter, in the middle of a line or of its line end, as long as
  what is left after the first chunk is not itself over the byte bound.
\<close>

theorem chunks_do_not_matter:
  assumes "byteLen (snd (cut_lines (partial_line r @ a))) \<le> maxBytes r"
  shows "push_chunk b (push_chunk a r) = push_chunk (a @ b) r"
proof (cases "a = [] \<or> b = []")
  case False
  obtain l1 p1 where c1: "cut_lines (partial_line r @ a) = (l1, p1)" by (cases "cut_lines (partial_line r @ a)")
  obtain l2 p2 where c2: "cut_lines (p1 @ b) = (l2, p2)" by (cases "cut_lines (p1 @ b)")
  define r1 where "r1 = fold append_line l1 (r\<lparr>partial_line := []\<rparr>)"
  have f: "maxBytes r1 = maxBytes r" "partial_line r1 = []" using append_lines_frame [of l1 "r\<lparr>partial_line := []\<rparr>"] by (simp_all add: r1_def)
  have same: "r1\<lparr>partial_line := []\<rparr> = r1" using f(2) by (cases r1) simp
  have "push_chunk a r = r1\<lparr>partial_line := p1\<rparr>" using False assms c1 by (simp add: push_chunk_def r1_def Let_def)
  moreover have "cut_lines (partial_line r @ a @ b) = (l1 @ l2, p2)"
    using cut_lines_append [of "partial_line r @ a" b] c1 c2 by simp
  ultimately show ?thesis using False c2 f append_lines_frame [of l2 r1]
    by (simp add: push_chunk_def r1_def [symmetric] same)
qed (auto simp: push_chunk_def)

theorem chunks_do_not_matter_witness:
  "push_chunk [10, 66] (push_chunk [65, 13] (new_ring (Some 4) (Some 9))) = push_chunk [65, 13, 10, 66] (new_ring (Some 4) (Some 9))
     \<and> ring_lines (push_chunk [65, 13, 10, 66] (new_ring (Some 4) (Some 9))) = [[65], [66]]"
proof -
  have "byteLen (snd (cut_lines (partial_line (new_ring (Some 4) (Some 9)) @ [65, 13]))) \<le> maxBytes (new_ring (Some 4) (Some 9))" by code_simp
  from chunks_do_not_matter [OF this, of "[10, 66]"]
  have "push_chunk [10, 66] (push_chunk [65, 13] (new_ring (Some 4) (Some 9))) = push_chunk [65, 13, 10, 66] (new_ring (Some 4) (Some 9))" by simp
  moreover have "ring_lines (push_chunk [65, 13, 10, 66] (new_ring (Some 4) (Some 9))) = [[65], [66]]" by code_simp
  ultimately show ?thesis by simp
qed

section \<open>The crash report\<close>

text \<open>The report with its diagnostics; \<open>writeLog\<close> may fail, and \<open>findDump\<close> find nothing.\<close>

record down_report =
  d_clean :: bool
  d_logPath :: "string option"
  d_lastLines :: "chars list option"
  d_dumpPath :: "string option"

definition enrichDownReport :: "down_report \<Rightarrow> log_ring option \<Rightarrow> (chars \<Rightarrow> string option) \<Rightarrow> string option \<Rightarrow> int option \<Rightarrow> down_report" where
  "enrichDownReport d captured writeLog dump n = (if d_clean d then d
     else case captured of None \<Rightarrow> d
     | Some ring \<Rightarrow>
        (let d1 = (case writeLog (ring_text ring) of Some p \<Rightarrow>
                 (if p = [] then d else d\<lparr>d_logPath := Some p, d_lastLines := Some (ring_tail (case n of Some k \<Rightarrow> k | None \<Rightarrow> 30) ring)\<rparr>)
               | None \<Rightarrow> d)
         in case dump of Some p \<Rightarrow> (if p = [] then d1 else d1\<lparr>d_dumpPath := Some p\<rparr>) | None \<Rightarrow> d1))"

text \<open>
  A crash report carries the path of the log exactly together with its last lines, at most 30 of them and the
  newest, the unfinished one included; a clean exit is reported as it is.
\<close>

theorem crash_report_has_the_tail:
  fixes ring dump
  assumes "\<not> d_clean d" "d_logPath d = None" "d_lastLines d = None" "writeLog (ring_text ring) \<noteq> Some []"
  defines "d' \<equiv> enrichDownReport d (Some ring) writeLog dump None"
  shows "d_logPath d' = writeLog (ring_text ring)
    \<and> (d_lastLines d' = (if writeLog (ring_text ring) = None then None else Some (keep_last 30 (ring_lines ring))))
    \<and> (\<forall>ls. d_lastLines d' = Some ls \<longrightarrow> length ls \<le> 30 \<and> (ring_lines ring \<noteq> [] \<longrightarrow> last ls = last (ring_lines ring)))"
proof -
  have "last (keep_last 30 (ring_lines ring)) = last (ring_lines ring)" if "ring_lines ring \<noteq> []"
    using that by (simp add: last_keep_last)
  then show ?thesis
    using assms by (auto simp: enrichDownReport_def ring_tail_def Let_def split: option.split)
qed

theorem crash_report_has_the_tail_witness:
  "d_lastLines (enrichDownReport \<lparr>d_clean = False, d_logPath = None, d_lastLines = None, d_dumpPath = None\<rparr>
     (Some (push_chunk [65, 10, 66] (new_ring (Some 4) (Some 9)))) (\<lambda>t. Some ''crash.log'') None None) = Some [[65], [66]]"
proof -
  have "ring_lines (push_chunk [65, 10, 66] (new_ring (Some 4) (Some 9))) = [[65], [66]]" by code_simp
  with crash_report_has_the_tail [of "\<lparr>d_clean = False, d_logPath = None, d_lastLines = None, d_dumpPath = None\<rparr>" "\<lambda>t. Some ''crash.log''"
      "push_chunk [65, 10, 66] (new_ring (Some 4) (Some 9))" None]
  show ?thesis by (simp add: keep_last_short)
qed

end
