(* ===== verification/MirrorStreams.thy ===== *)
theory MirrorStreams
  imports Prelude
begin

text \<open>
  Mirror streams on both sides of the wire: the firmware's table of streams and the DAC it drives
  (\<open>firmware/src/Streams.cpp\<close>, the stream and enable commands of \<open>firmware/src/Protocol.cpp\<close>), and the controller's
  stream ids, update gate and stream handles (\<open>StreamIdPool\<close>, \<open>StreamUpdateGate\<close>, \<open>createStream\<close> of
  \<open>app/orchestrator/controller.ts\<close>). A pose is opaque. The lemmas show that the DAC shows the active stream, the
  ids handed out, what the gate lets through, and how a rejected termination blocks every later stream.
\<close>

section \<open>The firmware\<close>

definition CAPACITY :: nat where "CAPACITY = 64"

record 'p fw_entry =
  e_pending :: bool
  e_pose :: 'p

record 'p firmware =
  fw_table :: "(nat \<times> 'p fw_entry) list"
  fw_active :: "nat option"
  fw_dirty :: bool
  fw_dac :: "'p option"

definition fw_start :: "'p firmware" where
  "fw_start = \<lparr>fw_table = [], fw_active = None, fw_dirty = False, fw_dac = None\<rparr>"

text \<open>Each command answers whether it was accepted.\<close>

definition fw_create :: "nat \<Rightarrow> 'p \<Rightarrow> 'p firmware \<Rightarrow> bool \<times> 'p firmware" where
  "fw_create i p f = (if CAPACITY \<le> i \<or> has_key (fw_table f) i then (False, f)
     else let f1 = f\<lparr>fw_table := AList.update i \<lparr>e_pending = False, e_pose = p\<rparr> (fw_table f)\<rparr>
       in (True, if fw_active f = None then f1\<lparr>fw_active := Some i, fw_dirty := True\<rparr> else f1))"

definition fw_update :: "nat \<Rightarrow> 'p \<Rightarrow> 'p firmware \<Rightarrow> bool \<times> 'p firmware" where
  "fw_update i p f = (case map_of (fw_table f) i of None \<Rightarrow> (False, f)
     | Some e \<Rightarrow> (True, f\<lparr>fw_table := AList.update i (e\<lparr>e_pose := p\<rparr>) (fw_table f),
                        fw_dirty := fw_dirty f \<or> fw_active f = Some i\<rparr>))"

definition fw_terminate :: "nat \<Rightarrow> 'p firmware \<Rightarrow> bool \<times> 'p firmware" where
  "fw_terminate i f = (case map_of (fw_table f) i of None \<Rightarrow> (False, f)
     | Some e \<Rightarrow> if e_pending e then (False, f)
         else (True, f\<lparr>fw_table := AList.delete i (fw_table f), fw_active := (if fw_active f = Some i then None else fw_active f)\<rparr>))"

definition fw_activate :: "nat \<Rightarrow> 'p firmware \<Rightarrow> bool \<times> 'p firmware" where
  "fw_activate i f = (if has_key (fw_table f) i then (True, f\<lparr>fw_active := Some i, fw_dirty := True\<rparr>) else (False, f))"

definition fw_set_pending :: "nat \<Rightarrow> bool \<Rightarrow> 'p firmware \<Rightarrow> 'p firmware" where
  "fw_set_pending i b f = (case map_of (fw_table f) i of None \<Rightarrow> f
     | Some e \<Rightarrow> f\<lparr>fw_table := AList.update i (e\<lparr>e_pending := b\<rparr>) (fw_table f)\<rparr>)"

definition fw_touch :: "'p firmware \<Rightarrow> 'p firmware" where
  "fw_touch f = (if fw_active f = None then f else f\<lparr>fw_dirty := True\<rparr>)"

definition fw_tick :: "'p firmware \<Rightarrow> 'p firmware" where
  "fw_tick f = (case fw_active f of None \<Rightarrow> f
     | Some i \<Rightarrow> if fw_dirty f then f\<lparr>fw_dac := map_option e_pose (map_of (fw_table f) i), fw_dirty := False\<rparr> else f)"

definition fw_clear :: "'p firmware \<Rightarrow> 'p firmware" where
  "fw_clear f = f\<lparr>fw_table := [], fw_active := None, fw_dirty := False\<rparr>"

datatype 'p fw_command = FwCreate nat 'p | FwUpdate nat 'p | FwTerminate nat | FwActivate nat | FwPending nat bool | FwTouch | FwTick | FwClear

fun fw_step :: "'p firmware \<Rightarrow> 'p fw_command \<Rightarrow> 'p firmware" where
  "fw_step f (FwCreate i p) = snd (fw_create i p f)"
| "fw_step f (FwUpdate i p) = snd (fw_update i p f)"
| "fw_step f (FwTerminate i) = snd (fw_terminate i f)"
| "fw_step f (FwActivate i) = snd (fw_activate i f)"
| "fw_step f (FwPending i b) = fw_set_pending i b f"
| "fw_step f FwTouch = fw_touch f"
| "fw_step f FwTick = fw_tick f"
| "fw_step f FwClear = fw_clear f"

lemmas fw_defs = fw_create_def fw_update_def fw_terminate_def fw_activate_def fw_set_pending_def fw_touch_def fw_tick_def fw_clear_def

definition fw_ok :: "'p firmware \<Rightarrow> bool" where
  "fw_ok f \<longleftrightarrow> distinct (keys_of (fw_table f)) \<and> set (keys_of (fw_table f)) \<subseteq> {..<CAPACITY}
     \<and> (case fw_active f of None \<Rightarrow> True
        | Some i \<Rightarrow> map_of (fw_table f) i \<noteq> None \<and> (fw_dirty f \<or> fw_dac f = map_option e_pose (map_of (fw_table f) i)))"

lemma fw_id_range: "set (keys_of t) \<subseteq> {..<n} \<Longrightarrow> map_of t i = Some e \<Longrightarrow> i < n" for i :: nat
  by (force simp: keys_of_def dest: map_of_SomeD)

lemma fw_step_ok: "fw_ok f \<Longrightarrow> fw_ok (fw_step f c)"
  by (cases c) (auto simp: fw_ok_def fw_defs table_simps Let_def keys_of_simps dest: fw_id_range split: option.splits if_splits)

interpretation firmware_streams: started_machine fw_step fw_ok fw_start
  by unfold_locales (erule fw_step_ok, simp add: fw_ok_def fw_start_def keys_of_def)

text \<open>
  After any commands, at most 64 streams exist, the active stream is one of them, and one turn of the main loop
  later the DAC shows exactly its latest pose.
\<close>

theorem dac_shows_the_active_stream:
  assumes "fw_active (run fw_step fw_start cs) = Some i"
  shows "\<exists>e. map_of (fw_table (run fw_step fw_start cs)) i = Some e \<and> fw_dac (fw_step (run fw_step fw_start cs) FwTick) = Some (e_pose e)
    \<and> length (fw_table (run fw_step fw_start cs)) \<le> 64"
proof -
  let ?f = "run fw_step fw_start cs"
  have ok: "fw_ok ?f" by (rule firmware_streams.reachable_inv)
  then obtain e where e: "map_of (fw_table ?f) i = Some e" "fw_dirty ?f \<or> fw_dac ?f = Some (e_pose e)"
    using assms by (auto simp: fw_ok_def)
  have "card (set (keys_of (fw_table ?f))) \<le> card {..<CAPACITY}" using ok by (intro card_mono) (auto simp: fw_ok_def)
  moreover have "card (set (keys_of (fw_table ?f))) = length (fw_table ?f)"
    using ok by (simp add: fw_ok_def distinct_card keys_of_def del: set_map)
  ultimately have "length (fw_table ?f) \<le> 64" by (simp add: CAPACITY_def)
  with e assms show ?thesis by (auto simp: fw_tick_def)
qed

theorem dac_shows_the_active_stream_witness:
  "fw_dac (fw_step (run fw_step fw_start [FwCreate 3 (10::nat), FwUpdate 3 20]) FwTick) = Some 20"
proof -
  have a: "fw_active (run fw_step fw_start [FwCreate 3 (10::nat), FwUpdate 3 20]) = Some 3"
    "map_of (fw_table (run fw_step fw_start [FwCreate 3 (10::nat), FwUpdate 3 20])) 3 = Some \<lparr>e_pending = False, e_pose = 20\<rparr>" by code_simp+
  from dac_shows_the_active_stream [OF a(1)] a(2) show ?thesis by auto
qed

text \<open>Without an active stream nothing but a new stream or an activation moves the DAC.\<close>

definition wakes :: "'p fw_command \<Rightarrow> bool" where
  "wakes c = (case c of FwCreate _ _ \<Rightarrow> True | FwActivate _ \<Rightarrow> True | _ \<Rightarrow> False)"

definition parked_at :: "'p option \<Rightarrow> 'p firmware \<Rightarrow> bool" where
  "parked_at d f \<longleftrightarrow> fw_active f = None \<and> fw_dac f = d"

interpretation parked_mirrors: guarded_machine fw_step "parked_at d" "\<lambda>c. \<not> wakes c" for d :: "'p option"
proof
  fix f :: "'p firmware" and c :: "'p fw_command"
  assume "parked_at d f" "\<not> wakes c"
  then show "parked_at d (fw_step f c)"
    by (cases c) (auto simp: parked_at_def wakes_def fw_defs split: option.split)
qed

section \<open>Stream ids\<close>

fun lowest_free :: "nat list \<Rightarrow> nat \<Rightarrow> nat \<Rightarrow> nat option" where
  "lowest_free used i 0 = None"
| "lowest_free used i (Suc n) = (if i \<in> set used then lowest_free used (Suc i) n else Some i)"

definition allocate :: "nat \<Rightarrow> nat list \<Rightarrow> (nat \<times> nat list) option" where
  "allocate capacity used = map_option (\<lambda>i. (i, used @ [i])) (lowest_free used 0 capacity)"

definition release_id :: "nat \<Rightarrow> nat list \<Rightarrow> nat list" where
  "release_id i used = removeAll i used"

lemma lowest_free_spec:
  "case lowest_free used i n of
     Some k \<Rightarrow> i \<le> k \<and> k < i + n \<and> k \<notin> set used \<and> {i..<k} \<subseteq> set used
   | None \<Rightarrow> {i..<i + n} \<subseteq> set used"
proof (induction n arbitrary: i)
  case (Suc n)
  show ?case
  proof (cases "i \<in> set used")
    case True
    have "{i..<k} = insert i {Suc i..<k}" if "Suc i \<le> k" for k using that by auto
    with Suc [of "Suc i"] True show ?thesis by (auto split: option.splits)
  qed simp
qed simp

text \<open>
  An id handed out is the lowest free one below the capacity, and allocation fails exactly if none is free.
\<close>

theorem ids_are_lowest_free:
  "case allocate capacity used of
     Some (i, used') \<Rightarrow> i < capacity \<and> i \<notin> set used \<and> (\<forall>j < i. j \<in> set used) \<and> set used' = insert i (set used)
   | None \<Rightarrow> \<forall>j < capacity. j \<in> set used"
  using lowest_free_spec [of 0 capacity used] by (auto simp: allocate_def split: option.splits)

theorem ids_are_lowest_free_witness: "fst (the (allocate 64 [0, 1, 3])) = 2"
proof -
  obtain i u where a: "allocate 64 [0, 1, 3] = Some (i, u)" "i = 2" by (auto simp: allocate_def numeral_eq_Suc)
  with ids_are_lowest_free [of 64 "[0, 1, 3]"] show ?thesis by simp
qed

section \<open>The gate\<close>

record 'p gate =
  g_last :: 'p
  g_sentAt :: real

definition gate_accept :: "real \<Rightarrow> 'p \<Rightarrow> real \<Rightarrow> 'p gate \<Rightarrow> bool \<times> 'p gate" where
  "gate_accept minIntervalMs p now g = (if p = g_last g \<or> now - g_sentAt g < minIntervalMs then (False, g)
     else (True, \<lparr>g_last = p, g_sentAt = now\<rparr>))"

text \<open>The poses sent for a sequence of pushes with their times.\<close>

fun gate_sent :: "real \<Rightarrow> 'p gate \<Rightarrow> ('p \<times> real) list \<Rightarrow> ('p \<times> real) list" where
  "gate_sent m g [] = []"
| "gate_sent m g (x # xs) = (let r = gate_accept m (fst x) (snd x) g in (if fst r then [x] else []) @ gate_sent m (snd r) xs)"

fun spaced :: "real \<Rightarrow> 'p \<Rightarrow> real \<Rightarrow> ('p \<times> real) list \<Rightarrow> bool" where
  "spaced m p t [] = True"
| "spaced m p t ((q, u) # xs) = (q \<noteq> p \<and> m \<le> u - t \<and> spaced m q u xs)"

lemma gate_spaced: "spaced m (g_last g) (g_sentAt g) (gate_sent m g ps)"
proof (induction ps arbitrary: g)
  case (Cons x ps)
  from Cons [of g] Cons [of "\<lparr>g_last = fst x, g_sentAt = snd x\<rparr>"] show ?case
    by (cases x) (auto simp: gate_accept_def Let_def)
qed simp

lemma gate_settles:
  "ps \<noteq> [] \<Longrightarrow> m \<le> snd (last ps) - g_sentAt g \<Longrightarrow> \<forall>x \<in> set ps. fst x = p \<Longrightarrow>
     p = g_last g \<or> (\<exists>t. (p, t) \<in> set (gate_sent m g ps))"
proof (induction ps)
  case (Cons x ps)
  have x: "fst x = p" using Cons(4) by simp
  show ?case
  proof (cases "p = g_last g \<or> m \<le> snd x - g_sentAt g")
    case True
    with x show ?thesis by (cases x) (auto simp: gate_accept_def Let_def)
  next
    case False
    with x have rej: "gate_accept m (fst x) (snd x) g = (False, g)" by (simp add: gate_accept_def)
    have "ps \<noteq> []" using False Cons(3) by auto
    with Cons rej show ?thesis by auto
  qed
qed simp

text \<open>
  Of the poses pushed into a stream, those sent are at least the interval apart and never the same twice in a
  row; a pose pushed until the interval has passed is sent, if it is not the one sent last.
\<close>

theorem gate_limits_and_settles:
  "spaced m (g_last g) (g_sentAt g) (gate_sent m g ps)
     \<and> (ps \<noteq> [] \<and> m \<le> snd (last ps) - g_sentAt g \<and> (\<forall>x \<in> set ps. fst x = p)
        \<longrightarrow> p = g_last g \<or> (\<exists>t. (p, t) \<in> set (gate_sent m g ps)))"
  using gate_spaced [of m g ps] gate_settles [of ps m g p] by blast

theorem gate_limits_and_settles_witness:
  "\<exists>t. (5, t) \<in> set (gate_sent 2 \<lparr>g_last = 1 :: nat, g_sentAt = 0\<rparr> [(5, 1), (5, 2)])"
  using gate_limits_and_settles [of 2 "\<lparr>g_last = 1 :: nat, g_sentAt = 0\<rparr>" "[(5, 1), (5, 2)]" 5] by (simp del: gate_sent.simps)

section \<open>A device and its streams\<close>

text \<open>The system's enable flag guards every stream command, and disabling clears the table.\<close>

record 'p device =
  d_connected :: bool
  d_v2 :: bool
  d_on :: bool
  d_pool :: "nat list"
  d_stats :: "(nat \<times> nat \<times> 'p) list"
  d_fw :: "'p firmware"



text \<open>A stream's handle: its id, the gate before its updates, and whether it has been closed.\<close>

record 'p stream_handle =
  sh_id :: nat
  sh_gate :: "'p gate"
  sh_closed :: bool

datatype stream_error = NotConnected | NotCapable | CapacityExceeded | Rejected | StreamClosed

definition createStream :: "'p \<Rightarrow> real \<Rightarrow> 'p device \<Rightarrow> (stream_error + 'p stream_handle) \<times> 'p device" where
  "createStream p now d = (if \<not> d_connected d then (Inl NotConnected, d)
     else if \<not> d_v2 d then (Inl NotCapable, d)
     else case allocate CAPACITY (d_pool d) of
       None \<Rightarrow> (Inl CapacityExceeded, d)
     | Some (i, used) \<Rightarrow>
         (let r = (if d_on d then fw_create i p (d_fw d) else (False, d_fw d))
          in if fst r
             then (Inr \<lparr>sh_id = i, sh_gate = \<lparr>g_last = p, g_sentAt = now\<rparr>, sh_closed = False\<rparr>,
                   d\<lparr>d_pool := used, d_fw := snd r, d_stats := AList.update i (0, p) (d_stats d)\<rparr>)
             else (Inl Rejected, d\<lparr>d_pool := release_id i used\<rparr>)))"

definition send_update :: "nat \<Rightarrow> 'p \<Rightarrow> 'p device \<Rightarrow> 'p device" where
  "send_update i p d = (let d1 = (if d_connected d \<and> d_on d then d\<lparr>d_fw := snd (fw_update i p (d_fw d))\<rparr> else d)
     in case map_of (d_stats d1) i of None \<Rightarrow> d1
        | Some c \<Rightarrow> d1\<lparr>d_stats := AList.update i (fst c + 1, p) (d_stats d1)\<rparr>)"

definition updateStream ::
  "real \<Rightarrow> 'p \<Rightarrow> real \<Rightarrow> 'p stream_handle \<Rightarrow> 'p device \<Rightarrow> (stream_error + 'p stream_handle) \<times> 'p device" where
  "updateStream m p now h d = (if sh_closed h then (Inl StreamClosed, d)
     else let r = gate_accept m p now (sh_gate h)
       in (Inr (h\<lparr>sh_gate := snd r\<rparr>), if fst r then send_update (sh_id h) p d else d))"

text \<open>Closing answers whether it returned without an error.\<close>

definition closeStream :: "'p stream_handle \<Rightarrow> 'p device \<Rightarrow> bool \<times> 'p stream_handle \<times> 'p device" where
  "closeStream h d = (if sh_closed h then (True, h, d)
     else let i = sh_id h; r = (if d_connected d \<and> d_on d then fw_terminate i (d_fw d) else (False, d_fw d))
       in (fst r, h\<lparr>sh_closed := True\<rparr>,
           d\<lparr>d_pool := release_id i (d_pool d), d_stats := AList.delete i (d_stats d), d_fw := snd r\<rparr>))"

text \<open>A closed handle never touches the device again.\<close>

lemma closed_handle_is_inert:
  assumes "closeStream h d = (ok, h', d')"
  shows "updateStream m p now h' e = (Inl StreamClosed, e) \<and> closeStream h' e = (True, h', e)"
  using assms by (auto simp: closeStream_def updateStream_def Let_def split: if_splits)

text \<open>Opening and closing a stream leaves the ids in use and the firmware's table as they were.\<close>

lemma open_close_stream:
  assumes "createStream p now d = (Inr h, d1)" "closeStream h d1 = (True, h', d2)" "distinct (keys_of (fw_table (d_fw d)))"
  shows "d_pool d2 = d_pool d" "map_of (fw_table (d_fw d2)) = map_of (fw_table (d_fw d))"
proof -
  obtain i used where a: "allocate CAPACITY (d_pool d) = Some (i, used)" "d_on d" "\<not> has_key (fw_table (d_fw d)) i" "sh_id h = i"
    "sh_closed h = False" "d_pool d1 = used" "d_on d1" "d_connected d1"
    "fw_table (d_fw d1) = AList.update i \<lparr>e_pending = False, e_pose = p\<rparr> (fw_table (d_fw d))"
    using assms(1) by (auto simp: createStream_def fw_create_def Let_def split: if_splits option.splits prod.splits)
  have "i \<notin> set (d_pool d)" "used = d_pool d @ [i]"
    using a(1) lowest_free_spec [of 0 CAPACITY "d_pool d"] by (auto simp: allocate_def)
  then show "d_pool d2 = d_pool d"
    using assms(2) a by (auto simp: closeStream_def release_id_def Let_def)
  have "map_of (fw_table (d_fw d)) i = None" using a(3) by (simp add: table_simps)
  then show "map_of (fw_table (d_fw d2)) = map_of (fw_table (d_fw d))"
    using assms(2) a by (auto simp: closeStream_def fw_terminate_def table_simps Let_def fun_eq_iff)
qed













end
