(* ===== verification/Spec2Isabelle.thy ===== *)
theory Spec2Isabelle
  imports StoreAuthority StoreMigrations CalibrationRecords Projection TriggerSync MirrorHistory TimeAlign CoalescedWriter
    ResourceSession OrchestratorInstances CameraRegistry Timeline TileSplit Pid ExportQueue Player TimeViewport StoreClients
    Rolling Channel Sessions ErrorTray FrameView ShmPool PipeConsumer PipeBroker WindowManager
    RecorderNode RecordingService CaptureNode CaptureHelper TeleCanvas ViewerEngine Janitor LogRing MirrorStreams
begin

text \<open>
  The core logic of FoveaCamApp: an Electron application that drives a steered-mirror camera rig. Paths
  below are under \<open>src/app\<close>, or under \<open>src\<close> if they start with \<open>firmware/\<close> or \<open>docs/\<close>.

  \<^bold>\<open>The program.\<close> The main process (\<open>electron/\<close>) owns windows, the processes behind them and the configuration
  files. Each app window has an orchestrator process (\<open>orchestrator/\<close>) that owns cameras, the mirror controller,
  sessions and frame pipes. Windows (\<open>src/\<close>) show session state, read pixels from shared memory, and edit
  documents. They talk over channels of messages (\<open>lib/orchestrator/protocol.ts\<close>); documents go over the store
  bridge. Recordings are played and exported by the viewer (\<open>src/viewer/\<close>).

  \<^bold>\<open>Foundations.\<close> \<open>Prelude\<close> has JavaScript's insertion-ordered tables, runs of a step function, and the contracts
  the components instantiate: machines with an invariant (total, started, guarded, with duties of the client,
  partial), bounded buffers that keep the newest, and borrowers of a pool. \<open>JsValue\<close> has the values of
  documents and messages. Errors are values (\<open>Inl\<close> or \<open>None\<close>), time is a parameter of each event, and a promise
  is split at its \<open>await\<close>: what runs before it is one event, what runs when it settles another, so that every
  interleaving of the callers is a list of events. Counters and times are \<open>nat\<close>, \<open>int\<close> or \<open>real\<close>, as the code
  uses JavaScript numbers below \<open>2 ^ 53\<close>; nanosecond arithmetic uses \<open>int\<close> for \<open>BigInt\<close>; byte decoding and hashes
  use words. Rounding of binary fractions and NaN are not modelled outside \<open>JsValue\<close>.

  \<^bold>\<open>Configuration store.\<close> \<open>Base64\<close> and \<open>StoreCodec\<close> (\<open>lib/store-codec.ts\<close>): what is written is read back.
  \<open>StorePatch\<close> (\<open>lib/store-patch.ts\<close>): a patch reaches the edit and patches to different keys commute.
  \<open>StoreFs\<close> (\<open>orchestrator/store.ts\<close>) and \<open>StoreAuthority\<close> (\<open>lib/store-authority.ts\<close>): every operation carries its own
  progress and may begin when those queued before it have settled, so requests settle in order, and the cache agrees
  with the file. \<open>StoreClients\<close> (\<open>lib/store.ts\<close>, \<open>lib/store-proxy.ts\<close>,
  \<open>electron/store-main.ts\<close>): each listener hears each change once; the theorem on a window left behind is a history in which
  two windows stay different. There a request is a job between its message and its settling, in the queue of its
  document; running it is one step (its phases are in \<open>StoreAuthority\<close>), and the frames of the wire are values.
  \<open>Canonical\<close>, \<open>CalibrationRecords\<close>, \<open>StoreMigrations\<close>: content-hash ids and the schema migrations.

  \<^bold>\<open>Processes and hardware.\<close> \<open>OrchestratorInstances\<close> (\<open>electron/orchestrator-instances.ts\<close>): one holder of the
  hardware. \<open>CameraRegistry\<close> (\<open>orchestrator/hardware-gate.ts\<close>, \<open>registry.ts\<close>): leases, counts and the gate.
  \<open>ResourceSession\<close> (\<open>orchestrator/resource-session.ts\<close>): cleanups run once and in reverse. \<open>Scheduler\<close> and
  \<open>TriggerSync\<close>: frame requests round robin; the pump and its loop may not end, and the termination theorem says
  when they do. \<open>CoalescedWriter\<close>, \<open>MirrorHistory\<close>, \<open>TimeAlign\<close>, \<open>Pid\<close>, \<open>Rolling\<close>: the writers, buffers and
  filters around the controller.

  \<^bold>\<open>Sessions and messages.\<close> \<open>Channel\<close> (\<open>lib/orchestrator/protocol.ts\<close>): calls, events, acknowledged frames with
  one in flight per topic, closing. \<open>Sessions\<close> (\<open>orchestrator/runtime.ts\<close>, \<open>lib/orchestrator/client.ts\<close>): a session,
  its subscribers and the view of each window; the view mirrors the server. Handlers are parameters, and the
  effects of a handler are events of their own. \<open>ErrorTray\<close> and \<open>FrameView\<close>: the rest of the client.

  \<^bold>\<open>Pixels.\<close> \<open>ShmPool\<close> (\<open>lib/orchestrator/shm-client.ts\<close> and its answering preload): buffers, reads and the retained
  pool. \<open>PipeConsumer\<close> (\<open>lib/orchestrator/pipe-consumer.ts\<close>, \<open>usePipeFrame\<close>): polling, epochs and rebinding.
  \<open>PipeBroker\<close> (\<open>orchestrator/pipe-session.ts\<close> over the hub of \<open>src/core/src/Pipe.cpp\<close>): consumer counts and composed
  nodes. The pool sees its callers' duties as a guard of the events, and the frame ref and the consumer are shown
  to be clients that keep them (\<open>borrower\<close>).

  \<^bold>\<open>Windows.\<close> \<open>WindowManager\<close> (\<open>electron/window-manager.ts\<close>, \<open>window-manifest.ts\<close>, \<open>lib/windows.ts\<close>): one app window, no
  doubled windows, distinct ids, the welcome rule and the restore plan. \<open>PaneDescriptor\<close>, \<open>SplitTree\<close>, \<open>Projection\<close>
  (\<open>lib/projection/\<close>): the projection windows' layout, drag and drop, and the machine that closes a pane whose
  source is lost.

  \<^bold>\<open>Viewer.\<close> \<open>Timeline\<close>, \<open>TileSplit\<close>, \<open>TimeViewport\<close>, \<open>Player\<close>, \<open>ExportQueue\<close> (\<open>src/viewer/\<close>): track packing is minimal,
  tiles show what is decoded, a paused player ends on the picture of its last seek, one playback loop, exports start
  once. The map from channels to pairs is that of \<open>src/windows/ViewerWindow.vue\<close>.

  \<^bold>\<open>Recording.\<close> \<open>Metering\<close> (\<open>orchestrator/metering.ts\<close>): the ring of interval bins is a sliding window, a disposed
  meter never changes, busy time fits into uptime. \<open>RawPipes\<close> (\<open>orchestrator/raw-pipe.ts\<close>, \<open>compress-pipe.ts\<close>): a
  producer runs while somebody holds its pipe. \<open>RecorderNode\<close> (\<open>orchestrator/recorder-node.ts\<close>): its connections
  come back whatever native call throws, a release included, its meter shows the native counters, and \<open>stop\<close> ends
  however the writer behaves. \<open>RecordingService\<close>
  (\<open>orchestrator/recording-service.ts\<close>, \<open>raw-recording.ts\<close>): what a recording acquires is given back whatever
  throws, as long as the client waits for one call before the next and the recorder's own \<open>stop\<close> does not reject.

  \<^bold>\<open>Capture.\<close> \<open>CaptureNode\<close> (\<open>orchestrator/capture-node.ts\<close>): the burst reader accounts for every frame
  and returns by its deadline, the resources of a raster line up, saved files are distinct, and each
  acquisition of streams is released once. \<open>CaptureHelper\<close> (\<open>orchestrator/capture-helper.ts\<close>): the streams of a
  shot over \<open>RawPipes\<close>, and the flag that keeps recording and capture apart. An image is opaque.

  \<^bold>\<open>Processes beside the orchestrator.\<close> \<open>ViewerEngine\<close> and \<open>TeleCanvas\<close> (\<open>electron/viewer-engine.ts\<close>,
  \<open>telecanvas-manager.ts\<close>): one engine per window that was not told to die (its process exits in an event of its own), one host
  server. \<open>Janitor\<close> (\<open>orchestrator/janitor.ts\<close>): after a
  crash of the main process the hardware is quiesced. \<open>LogRing\<close> (\<open>electron/log-ring.ts\<close>, \<open>crash-report.ts\<close>): the
  longest tail of the output that fits, for the crash report.

  \<^bold>\<open>Mirrors.\<close> \<open>MirrorStreams\<close> has both sides of the wire: the firmware's table of streams
  (\<open>firmware/src/Streams.cpp\<close>) and the ids, gate and handles of \<open>orchestrator/controller.ts\<close>.

  \<^bold>\<open>What the lemmas show.\<close> Each theory proves an invariant of its component by its steps and instantiates a contract
  of \<open>Prelude\<close> or one of its own (\<open>doc_backend\<close>, \<open>pair_invariant\<close>, \<open>burst_invariant\<close>, \<open>history_invariant\<close>,
  \<open>collation\<close>); its theorems follow for all histories. Theorems on errors give histories the code does not
  handle; each is a finding.

  \<^bold>\<open>Bounds and fuel.\<close> Loops that may run for ever are partial functions into options, where \<open>None\<close> says that the loop
  never ends and nothing else: the scheduler's \<open>pump_run\<close> (the theorem that bursts end says when it returns) and
  \<open>grabBurst\<close> (it returns if it has a deadline). Only the chain of schema migrations takes fuel: one more than
  there are migrations, as each raises the version. Everything else is structural or has a measure.

  \<^bold>\<open>Not modelled.\<close> Vue templates and painting; the native core, and the firmware but for its mirror streams; float vision
  and calibration solving; the writer of recording files and image encoders; build scripts. In modelled files: ruler ticks of the viewer, wire framing of the
  store bridge, statistics snapshots and handle caches of the pixel pool, the fovea materializer of the broker,
  the transport under sessions, the manifest file, the forking of
  processes. Channel names of the viewer are nonempty and folded as ASCII.
\<close>

end
